(* ===== verification/GoPrelude.thy ===== *)
theory GoPrelude
  imports Main "HOL-Library.Monad_Syntax" "HOL-Library.Word"
begin

text \<open>
  Shared base of the development.  The program is written in Go; this theory fixes how the
  Go constructs the source uses are read in HOL, and holds the lemmas every component shares.

  \<^item> A Go slice is a list.  Indexing and slicing a slice out of range panics in Go, so
    \<open>go_get\<close>, \<open>go_set\<close>, \<open>go_from\<close> and \<open>go_upto\<close> return an option and
    \<open>None\<close> is the panic.  A handler that can panic returns an option; the theorems that it
    returns \<open>Some\<close> are the absence of panics.
  \<^item> Go's \<open>int\<close> is read as \<open>int\<close>: terms, log indices, shard and group numbers only
    count up by one from small values.  The version numbers of the key/value service, which
    clients supply, are \<open>64 word\<close>, the source's \<open>uint64\<close>.
  \<^item> A Go map is a partial function.  Where the source iterates over a map, the iteration
    order (which Go leaves unspecified) is an argument of the model.
  \<^item> A byte slice produced by \<open>labgob\<close>/\<open>encoding/gob\<close> is the list of the values
    encoded into it, in order; decoding pops one value and fails on a value of another type or
    on an exhausted stream, which is what the source uses of it.
\<close>

named_theorems go_simps \<open>evaluation rules for slices that are within bounds\<close>
named_theorems kv_simps \<open>unfolding rules of the key/value operations\<close>
named_theorems raft_op_defs \<open>the definitions of Raft's lock-held sections\<close>

section \<open>Slices\<close>

definition go_get :: "'a list \<Rightarrow> int \<Rightarrow> 'a option" where
  "go_get xs i = (if 0 \<le> i \<and> i < int (length xs) then Some (xs ! nat i) else None)"

definition go_set :: "'a list \<Rightarrow> int \<Rightarrow> 'a \<Rightarrow> 'a list option" where
  "go_set xs i v = (if 0 \<le> i \<and> i < int (length xs) then Some (xs[nat i := v]) else None)"

text \<open>\<open>xs[i:]\<close> and \<open>xs[:i]\<close>.\<close>

definition go_from :: "'a list \<Rightarrow> int \<Rightarrow> 'a list option" where
  "go_from xs i = (if 0 \<le> i \<and> i \<le> int (length xs) then Some (drop (nat i) xs) else None)"

definition go_upto :: "'a list \<Rightarrow> int \<Rightarrow> 'a list option" where
  "go_upto xs i = (if 0 \<le> i \<and> i \<le> int (length xs) then Some (take (nat i) xs) else None)"

lemma go_get_Some [go_simps]:
  "0 \<le> i \<Longrightarrow> i < int (length xs) \<Longrightarrow> go_get xs i = Some (xs ! nat i)"
  by (simp add: go_get_def)

lemma go_get_eq_Some_iff:
  "go_get xs i = Some x \<longleftrightarrow> 0 \<le> i \<and> i < int (length xs) \<and> x = xs ! nat i"
  by (auto simp: go_get_def)

lemma go_get_eq_None_iff: "go_get xs i = None \<longleftrightarrow> i < 0 \<or> int (length xs) \<le> i"
  by (auto simp: go_get_def)

lemma go_set_Some [go_simps]:
  "0 \<le> i \<Longrightarrow> i < int (length xs) \<Longrightarrow> go_set xs i v = Some (xs[nat i := v])"
  by (simp add: go_set_def)

lemma go_set_eq_Some_iff:
  "go_set xs i v = Some ys \<longleftrightarrow> 0 \<le> i \<and> i < int (length xs) \<and> ys = xs[nat i := v]"
  by (auto simp: go_set_def)

lemma go_from_Some [go_simps]:
  "0 \<le> i \<Longrightarrow> i \<le> int (length xs) \<Longrightarrow> go_from xs i = Some (drop (nat i) xs)"
  by (simp add: go_from_def)

lemma go_from_eq_Some_iff:
  "go_from xs i = Some ys \<longleftrightarrow> 0 \<le> i \<and> i \<le> int (length xs) \<and> ys = drop (nat i) xs"
  by (auto simp: go_from_def)

lemma go_upto_Some [go_simps]:
  "0 \<le> i \<Longrightarrow> i \<le> int (length xs) \<Longrightarrow> go_upto xs i = Some (take (nat i) xs)"
  by (simp add: go_upto_def)

lemma go_upto_eq_Some_iff:
  "go_upto xs i = Some ys \<longleftrightarrow> 0 \<le> i \<and> i \<le> int (length xs) \<and> ys = take (nat i) xs"
  by (auto simp: go_upto_def)

lemmas go_slice_iffs =
  go_get_eq_Some_iff go_set_eq_Some_iff go_from_eq_Some_iff go_upto_eq_Some_iff

lemma go_get_last:
  "xs \<noteq> [] \<Longrightarrow> go_get xs (int (length xs) - 1) = Some (last xs)"
  by (cases xs rule: rev_cases) (auto simp: go_get_def nat_diff_distrib)

text \<open>\<open>go_get\<close> of an index inside a list with something appended.\<close>

lemma nth_append_int:
  "0 \<le> i \<Longrightarrow> i < int (length xs) \<Longrightarrow> (xs @ ys) ! nat i = xs ! nat i"
  by (simp add: nth_append nat_less_iff)

section \<open>The range of a peers array\<close>

text \<open>\<open>for i := range peers\<close> runs over \<open>[0..n-1]\<close>.\<close>

definition peer_ids :: "int \<Rightarrow> int list" where
  "peer_ids n = [0..n - 1]"

lemma set_peer_ids [simp]: "set (peer_ids n) = {0..<n}"
  by (auto simp: peer_ids_def)

lemma distinct_peer_ids [simp]: "distinct (peer_ids n)"
  by (simp add: peer_ids_def)

section \<open>Majorities\<close>

text \<open>The quorum test of the source is \<open>count > len(peers)/2\<close>.\<close>

definition majority :: "int \<Rightarrow> int set \<Rightarrow> bool" where
  "majority n Q \<longleftrightarrow> Q \<subseteq> {0..<n} \<and> card Q > nat n div 2"

lemma majorities_intersect:
  assumes "majority n Q" and "majority n R"
  shows "Q \<inter> R \<noteq> {}"
proof
  assume disj: "Q \<inter> R = {}"
  have sub: "Q \<subseteq> {0..<n}" "R \<subseteq> {0..<n}"
    using assms by (simp_all add: majority_def)
  then have fin: "finite Q" "finite R" by (auto intro: finite_subset)
  have "card Q + card R = card (Q \<union> R)"
    using fin disj by (simp add: card_Un_disjoint)
  also have "\<dots> \<le> card {0..<n}"
    by (rule card_mono) (use sub in auto)
  finally have "card Q + card R \<le> nat n"
    by simp
  moreover have "card Q > nat n div 2" "card R > nat n div 2"
    using assms by (simp_all add: majority_def)
  ultimately show False by linarith
qed

lemma majority_common:
  assumes "majority n Q" and "majority n R"
  obtains s where "s \<in> Q" and "s \<in> R" and "0 \<le> s" and "s < n"
  using majorities_intersect [OF assms] assms by (force simp: majority_def)

section \<open>Options\<close>

lemma bind_eq_Some_conv':
  "(Option.bind m f = Some y) \<longleftrightarrow> (\<exists>x. m = Some x \<and> f x = Some y)"
  by (cases m) auto

section \<open>The standard library's hash\<close>

text \<open>\<open>hash/fnv\<close>'s 32-bit FNV-1a of the bytes of a string.\<close>

unbundle bit_operations_syntax

definition fnv32a :: "string \<Rightarrow> 32 word" where
  "fnv32a key = foldl (\<lambda>h c. (h XOR of_nat (of_char c)) * 16777619) 2166136261 key"

text \<open>\<open>strconv.Itoa\<close> of a number that is not negative.\<close>

fun itoa :: "nat \<Rightarrow> string" where
  "itoa n = (if n < 10 then [char_of (48 + n)] else itoa (n div 10) @ [char_of (48 + n mod 10)])"

declare itoa.simps [simp del]

text \<open>\<open>strconv.Itoa\<close> on an \<open>int\<close>.\<close>

definition itoa_int :: "int \<Rightarrow> string" where
  "itoa_int i = (if i < 0 then ''-'' @ itoa (nat (- i)) else itoa (nat i))"

text \<open>Reading a number back: \<open>strconv.Atoi\<close> on what \<open>Itoa\<close> prints.\<close>

definition atoi :: "string \<Rightarrow> nat" where
  "atoi s = foldl (\<lambda>n c. 10 * n + (of_char c - 48)) 0 s"

definition atoi_int :: "string \<Rightarrow> int" where
  "atoi_int s = (if take 1 s = ''-'' then - int (atoi (drop 1 s)) else int (atoi s))"

lemma atoi_itoa [simp]: "atoi (itoa n) = n"
  by (induction n rule: itoa.induct) (subst itoa.simps, auto simp: atoi_def)

lemma itoa_digits: "c \<in> set (itoa n) \<Longrightarrow> 48 \<le> (of_char c :: nat) \<and> (of_char c :: nat) \<le> 57"
  by (induction n arbitrary: c rule: itoa.induct) (subst (asm) (2) itoa.simps, auto split: if_splits)

lemma itoa_not_Nil: "itoa n \<noteq> []"
  by (subst itoa.simps) simp

lemma atoi_itoa_int [simp]: "atoi_int (itoa_int i) = i"
proof -
  have "take 1 (itoa n) \<noteq> ''-''" for n
    using itoa_digits [of "hd (itoa n)" n] itoa_not_Nil [of n] by (cases "itoa n") auto
  then show ?thesis by (simp add: atoi_int_def itoa_int_def)
qed

text \<open>A count below \<open>2 ^ 64\<close> is itself as a machine word.\<close>

lemma unat_of_nat64: "n < 2 ^ 64 \<Longrightarrow> unat (of_nat n :: 64 word) = n"
  by (simp add: unat_of_nat take_bit_nat_eq_self flip: take_bit_eq_mod)

end
