(* ===== verification/Persist.thy ===== *)
theory Persist
  imports GoPrelude
begin

text \<open>
  The persister of the tester package (\<open>src/src/tester1/persister.go\<close>): the object a Raft
  peer saves its state and the service's snapshot into, and that survives a crash.  A byte
  slice is the list of the values encoded into it; \<open>clone\<close> copies it, so that later writes
  to the caller's buffer do not reach the saved state (in HOL, a value is its own copy).
\<close>

record ('r, 's) Persister =
  ps_raftstate :: "'r list"
  ps_snapshot :: "'s list"

definition MakePersister :: "('r, 's) Persister" where
  "MakePersister = \<lparr>ps_raftstate = [], ps_snapshot = []\<rparr>"

text \<open>\<open>x := make([]byte, len(orig)); copy(x, orig)\<close>.\<close>

definition clone :: "'a list \<Rightarrow> 'a list" where
  "clone orig = map (\<lambda>i. orig ! i) [0..<length orig]"

lemma clone_id [simp]: "clone xs = xs"
  by (simp add: clone_def map_nth)

definition PersisterCopy :: "('r, 's) Persister \<Rightarrow> ('r, 's) Persister" where
  "PersisterCopy ps =
     MakePersister\<lparr>ps_raftstate := ps_raftstate ps, ps_snapshot := ps_snapshot ps\<rparr>"

definition ReadRaftState :: "('r, 's) Persister \<Rightarrow> 'r list" where
  "ReadRaftState ps = clone (ps_raftstate ps)"

text \<open>
  The number of bytes of a saved value is gob's business; \<open>enc_len\<close> gives it, so the size of
  a saved state is the sum over the values in it.
\<close>

definition RaftStateSize :: "('r \<Rightarrow> nat) \<Rightarrow> ('r, 's) Persister \<Rightarrow> nat" where
  "RaftStateSize enc_len ps = sum_list (map enc_len (ps_raftstate ps))"

definition Save :: "'r list \<Rightarrow> 's list \<Rightarrow> ('r, 's) Persister \<Rightarrow> ('r, 's) Persister" where
  "Save raftstate snapshot ps =
     ps\<lparr>ps_raftstate := clone raftstate, ps_snapshot := clone snapshot\<rparr>"

definition ReadSnapshot :: "('r, 's) Persister \<Rightarrow> 's list" where
  "ReadSnapshot ps = clone (ps_snapshot ps)"

definition SnapshotSize :: "('s \<Rightarrow> nat) \<Rightarrow> ('r, 's) Persister \<Rightarrow> nat" where
  "SnapshotSize enc_len ps = sum_list (map enc_len (ps_snapshot ps))"

lemma Copy_id [simp]: "PersisterCopy (ps :: ('r, 's) Persister) = ps"
  by (simp add: PersisterCopy_def MakePersister_def)

lemma Read_Save [simp]:
  "ReadRaftState (Save r s ps) = r" "ReadSnapshot (Save r s ps) = s"
  by (simp_all add: ReadRaftState_def ReadSnapshot_def Save_def)

lemma Read_Make [simp]:
  "ReadRaftState MakePersister = []" "ReadSnapshot MakePersister = []"
  by (simp_all add: ReadRaftState_def ReadSnapshot_def MakePersister_def)

end
