(* ===== verification/RaftState.thy ===== *)
theory RaftState
  imports Persist
begin

text \<open>
  The data of a Raft peer (\<open>src/src/raft1/raft.go\<close>, \<open>src/src/raftapi/raftapi.go\<close>): the
  peer's state, the RPC argument and reply structures, the persisted encoding, and \<open>Make\<close>.
  The model is polymorphic in the type \<open>'c\<close> of commands (Go's \<open>interface{}\<close>; \<open>None\<close> is
  \<open>nil\<close>) and in the contents \<open>'s\<close> of the service's snapshots, which Raft never inspects.

  The mutex is not modelled as a value: every definition of \<open>RaftOps\<close> is one section of the
  code that runs with \<open>rf.mu\<close> held, so it is atomic.  \<open>peers\<close> keeps the number of peers,
  the only thing the code uses of it besides sending.  \<open>replicateCh\<close> is the number of tokens
  in the buffered channel of capacity one.
\<close>

datatype ServerState = Follower | Candidate | Leader

record 'c LogEntry =
  le_Term :: int
  le_Command :: "'c option"

datatype 'c gob_raft = GobInt int | GobLog "'c LogEntry list"

record ('c, 's) Raft =
  peers :: int
  persister :: "('c gob_raft, 's) Persister"
  me :: int
  dead :: bool
  state :: ServerState
  currentTerm :: int
  votedFor :: int
  log :: "'c LogEntry list"
  lastIncludedIndex :: int
  lastIncludeTerm :: int
  commitIndex :: int
  lastApplied :: int
  nextIndex :: "int list"
  matchIndex :: "int list"
  electionGen :: int
  replicateCh :: nat

record RequestVoteArgs =
  rv_Term :: int
  rv_CandidateId :: int
  rv_LastLogIndex :: int
  rv_LastLogTerm :: int

record RequestVoteReply =
  rvr_Term :: int
  rvr_VoteGranted :: bool

record 'c AppendEntriesArgs =
  ae_Term :: int
  ae_LeaderId :: int
  ae_PreLogIndex :: int
  ae_PrevLogTerm :: int
  ae_Entries :: "'c LogEntry list"
  ae_LeaderCommit :: int

record AppendEntriesReply =
  aer_Term :: int
  aer_Success :: bool
  aer_XTerm :: int
  aer_XIndex :: int
  aer_XLen :: int

record 's InstallSnapShotArgs =
  is_Term :: int
  is_LeaderId :: int
  is_LastIncludedIndex :: int
  is_LastIncludeTerm :: int
  is_Data :: "'s list"

record InstallSnapShotReply =
  isr_Term :: int

record ('c, 's) ApplyMsg =
  am_CommandValid :: bool
  am_Command :: "'c option"
  am_CommandIndex :: int
  am_SnapshotValid :: bool
  am_Snapshot :: "'s list"
  am_SnapshotTerm :: int
  am_SnapshotIndex :: int

section \<open>Index arithmetic\<close>

text \<open>
  \<open>log[0]\<close> is the entry at \<open>lastIncludedIndex\<close> (a dummy at first), so a long index is
  a short index plus \<open>lastIncludedIndex\<close>.
\<close>

definition lastLogIndex :: "('c, 's) Raft \<Rightarrow> int" where
  "lastLogIndex rf = lastIncludedIndex rf + int (length (log rf)) - 1"

definition lastLogTerm :: "('c, 's) Raft \<Rightarrow> int option" where
  "lastLogTerm rf = map_option le_Term (go_get (log rf) (int (length (log rf)) - 1))"

definition sliceIndex :: "('c, 's) Raft \<Rightarrow> int \<Rightarrow> int" where
  "sliceIndex rf index = index - lastIncludedIndex rf"

definition GetState :: "('c, 's) Raft \<Rightarrow> int \<times> bool" where
  "GetState rf = (currentTerm rf, state rf = Leader)"

section \<open>Persistence\<close>

text \<open>The five values \<open>persist\<close> encodes, in the order it encodes them.\<close>

definition encode_state :: "('c, 's) Raft \<Rightarrow> 'c gob_raft list" where
  "encode_state rf =
     [GobInt (currentTerm rf), GobInt (votedFor rf), GobLog (log rf),
      GobInt (lastIncludedIndex rf), GobInt (lastIncludeTerm rf)]"

definition persist :: "('c, 's) Raft \<Rightarrow> ('c, 's) Raft" where
  "persist rf =
     rf\<lparr>persister := Save (encode_state rf) (ReadSnapshot (persister rf)) (persister rf)\<rparr>"

fun decode_int :: "'c gob_raft list \<Rightarrow> (int \<times> 'c gob_raft list) option" where
  "decode_int (GobInt i # r) = Some (i, r)"
| "decode_int _ = None"

fun decode_log :: "'c gob_raft list \<Rightarrow> ('c LogEntry list \<times> 'c gob_raft list) option" where
  "decode_log (GobLog l # r) = Some (l, r)"
| "decode_log _ = None"

text \<open>
  The five decodes run in order and the first failure leaves the peer as it was: the fields
  are assigned only after all five succeeded.
\<close>

definition readPersist :: "'c gob_raft list \<Rightarrow> ('c, 's) Raft \<Rightarrow> ('c, 's) Raft" where
  "readPersist data rf =
     (if data = [] then rf else
      case do {
        (ct, d1) \<leftarrow> decode_int data;
        (vf, d2) \<leftarrow> decode_int d1;
        (lg, d3) \<leftarrow> decode_log d2;
        (li, d4) \<leftarrow> decode_int d3;
        (lt, d5) \<leftarrow> decode_int d4;
        Some (ct, vf, lg, li, lt)
      } of
        None \<Rightarrow> rf
      | Some (ct, vf, lg, li, lt) \<Rightarrow>
          rf\<lparr>currentTerm := ct, votedFor := vf, log := lg, lastIncludedIndex := li,
             lastIncludeTerm := lt, commitIndex := li, lastApplied := li\<rparr>)"

definition PersistBytes :: "('c gob_raft \<Rightarrow> nat) \<Rightarrow> ('c, 's) Raft \<Rightarrow> nat" where
  "PersistBytes enc_len rf = RaftStateSize enc_len (persister rf)"

section \<open>Make\<close>

text \<open>
  \<open>Make\<close> sets the fields it names, leaves the others at Go's zero value, and restores what
  was persisted.  It then starts the \<open>ticker\<close> and \<open>applier\<close> goroutines.
\<close>

definition Make :: "int \<Rightarrow> int \<Rightarrow> ('c gob_raft, 's) Persister \<Rightarrow> ('c, 's) Raft" where
  "Make n i ps =
     readPersist (ReadRaftState ps)
       \<lparr>peers = n, persister = ps, me = i, dead = False, state = Follower,
        currentTerm = 0, votedFor = -1, log = [\<lparr>le_Term = 0, le_Command = None\<rparr>],
        lastIncludedIndex = 0, lastIncludeTerm = 0, commitIndex = 0, lastApplied = 0,
        nextIndex = replicate (nat n) 0, matchIndex = replicate (nat n) 0,
        electionGen = 0, replicateCh = 0\<rparr>"

definition Kill :: "('c, 's) Raft \<Rightarrow> ('c, 's) Raft" where
  "Kill rf = rf\<lparr>dead := True\<rparr>"

definition killed :: "('c, 's) Raft \<Rightarrow> bool" where
  "killed rf \<longleftrightarrow> dead rf"

lemma readPersist_encode [simp]:
  "readPersist (encode_state rf) rf' =
     rf'\<lparr>currentTerm := currentTerm rf, votedFor := votedFor rf, log := log rf,
         lastIncludedIndex := lastIncludedIndex rf, lastIncludeTerm := lastIncludeTerm rf,
         commitIndex := lastIncludedIndex rf, lastApplied := lastIncludedIndex rf\<rparr>"
  by (simp add: readPersist_def encode_state_def)

lemma lastLogTerm_Some: "log rf \<noteq> [] \<Longrightarrow> lastLogTerm rf = Some (le_Term (last (log rf)))"
  by (simp add: lastLogTerm_def go_get_last)

end
