(* ===== verification/RaftOps.thy ===== *)
theory RaftOps
  imports RaftState
begin

text \<open>
  The operations of a Raft peer (\<open>src/src/raft1/raft.go\<close>): the three RPC handlers, the
  service calls \<open>Start\<close> and \<open>Snapshot\<close>, and the goroutines \<open>ticker\<close>,
  \<open>askForVote\<close>, \<open>sendHeartBeat\<close> and \<open>applier\<close>.  Each definition is one section of
  the code between \<open>rf.mu.Lock()\<close> and \<open>rf.mu.Unlock()\<close>; a goroutine that unlocks around
  an RPC or a channel send is several definitions, one per section.  A result \<open>None\<close> is a
  panic (an index out of range).
\<close>

section \<open>Snapshot\<close>

definition Snapshot :: "int \<Rightarrow> 's list \<Rightarrow> ('c, 's) Raft \<Rightarrow> ('c, 's) Raft option" where
  "Snapshot index snapshot rf =
     (if index \<le> lastIncludedIndex rf then Some rf
      else
        let offset = sliceIndex rf index in
        if offset < 0 \<or> offset \<ge> int (length (log rf)) then Some rf
        else do {
          e \<leftarrow> go_get (log rf) offset;
          tail \<leftarrow> go_from (log rf) offset;
          let rf1 = rf\<lparr>lastIncludeTerm := le_Term e, lastIncludedIndex := index, log := tail\<rparr>;
          Some (rf1\<lparr>persister := Save (encode_state rf1) snapshot (persister rf1)\<rparr>)
        })"

section \<open>RequestVote\<close>

definition RequestVote ::
    "RequestVoteArgs \<Rightarrow> ('c, 's) Raft \<Rightarrow> (('c, 's) Raft \<times> RequestVoteReply) option" where
  "RequestVote args rf =
     (if rv_Term args < currentTerm rf then
        Some (persist rf, \<lparr>rvr_Term = currentTerm rf, rvr_VoteGranted = False\<rparr>)
      else
        let rf1 = (if rv_Term args > currentTerm rf
                   then rf\<lparr>state := Follower, currentTerm := rv_Term args, votedFor := -1\<rparr>
                   else rf);
            lastIdx = lastLogIndex rf1
        in do {
          lastTerm \<leftarrow> lastLogTerm rf1;
          let logOk = (rv_LastLogTerm args > lastTerm \<or>
                       rv_LastLogTerm args = lastTerm \<and> rv_LastLogIndex args \<ge> lastIdx);
          if logOk \<and> (votedFor rf1 = -1 \<or> votedFor rf1 = rv_CandidateId args) then
            Some (persist (rf1\<lparr>votedFor := rv_CandidateId args,
                               electionGen := electionGen rf1 + 1\<rparr>),
                  \<lparr>rvr_Term = currentTerm rf1, rvr_VoteGranted = True\<rparr>)
          else
            Some (persist rf1, \<lparr>rvr_Term = currentTerm rf1, rvr_VoteGranted = False\<rparr>)
        })"

section \<open>AppendEntries\<close>

text \<open>The search for the first entry of the conflicting term: \<open>j\<close> goes down from \<open>si - 1\<close>.\<close>

function xindex_loop :: "'c LogEntry list \<Rightarrow> int \<Rightarrow> int \<Rightarrow> int option" where
  "xindex_loop lg xterm j =
     (if j \<ge> 0 then
        case go_get lg j of
          None \<Rightarrow> None
        | Some e \<Rightarrow> if le_Term e = xterm then xindex_loop lg xterm (j - 1) else Some j
      else Some j)"
  by pat_completeness auto
termination
  by (relation "measure (\<lambda>(lg, xterm, j). nat (j + 1))") auto

declare xindex_loop.simps [simp del]

text \<open>
  The append loop over \<open>args.Entries\<close>, at slice position \<open>idx\<close>: entries that are already
  there are skipped, the first conflict truncates the log and appends the rest, and past the
  end of the log the rest is appended.
\<close>

fun append_loop ::
    "'c LogEntry list \<Rightarrow> int \<Rightarrow> 'c LogEntry list \<Rightarrow> 'c LogEntry list option" where
  "append_loop lg idx [] = Some lg"
| "append_loop lg idx (ent # ents) =
     (if idx < int (length lg) then
        case go_get lg idx of
          None \<Rightarrow> None
        | Some e \<Rightarrow>
            if le_Term e \<noteq> le_Term ent then
              map_option (\<lambda>pre. pre @ ent # ents) (go_upto lg idx)
            else append_loop lg (idx + 1) ents
      else Some (lg @ ent # ents))"

text \<open>
  Section 3 of the handler, the check of the previous entry: \<open>Some None\<close> when it passes,
  \<open>Some (Some reply)\<close> when the handler returns with that reply.
\<close>

definition check_prev ::
    "'c AppendEntriesArgs \<Rightarrow> ('c, 's) Raft \<Rightarrow> AppendEntriesReply \<Rightarrow>
     AppendEntriesReply option option" where
  "check_prev args rf reply =
     (if ae_PreLogIndex args \<ge> 0 then
        if ae_PreLogIndex args < lastIncludedIndex rf then
          Some (Some (reply\<lparr>aer_Success := False, aer_XLen := lastLogIndex rf + 1\<rparr>))
        else if ae_PreLogIndex args > lastLogIndex rf then
          Some (Some (reply\<lparr>aer_Success := False, aer_XLen := lastLogIndex rf + 1\<rparr>))
        else
          let si = sliceIndex rf (ae_PreLogIndex args) in
          do {
            e \<leftarrow> go_get (log rf) si;
            if le_Term e \<noteq> ae_PrevLogTerm args then
              do {
                j \<leftarrow> xindex_loop (log rf) (le_Term e) (si - 1);
                Some (Some (reply\<lparr>aer_Success := False, aer_XTerm := le_Term e,
                                  aer_XIndex := j + lastIncludedIndex rf + 1\<rparr>))
              }
            else Some None
          }
      else Some None)"

text \<open>Go's zero value of the reply structure, which the caller passes in.\<close>

definition zero_reply :: AppendEntriesReply where
  "zero_reply = \<lparr>aer_Term = 0, aer_Success = False, aer_XTerm = 0, aer_XIndex = 0, aer_XLen = 0\<rparr>"

text \<open>Sections 2 and 4: the contact with a leader, and the append with the commit update.\<close>

definition accept_leader :: "int \<Rightarrow> ('c, 's) Raft \<Rightarrow> ('c, 's) Raft" where
  "accept_leader term rf =
     (let rf1 = (if term > currentTerm rf then rf\<lparr>currentTerm := term, votedFor := -1\<rparr> else rf)
      in rf1\<lparr>state := Follower, electionGen := electionGen rf1 + 1\<rparr>)"

definition append_and_commit ::
    "'c AppendEntriesArgs \<Rightarrow> ('c, 's) Raft \<Rightarrow> ('c, 's) Raft option" where
  "append_and_commit args rf =
     do {
       lg \<leftarrow> (if ae_Entries args \<noteq> []
              then append_loop (log rf) (sliceIndex rf (ae_PreLogIndex args) + 1) (ae_Entries args)
              else Some (log rf));
       let rf1 = rf\<lparr>log := lg\<rparr>;
       let lastIdx = lastLogIndex rf1;
       Some (if ae_LeaderCommit args > commitIndex rf1 \<and> lastIdx \<ge> 0
             then rf1\<lparr>commitIndex := min (ae_LeaderCommit args) lastIdx\<rparr>
             else rf1)
     }"

definition AppendEntries ::
    "'c AppendEntriesArgs \<Rightarrow> ('c, 's) Raft \<Rightarrow> (('c, 's) Raft \<times> AppendEntriesReply) option" where
  "AppendEntries args rf =
     (if ae_Term args < currentTerm rf then
        Some (persist rf, zero_reply\<lparr>aer_Term := currentTerm rf, aer_Success := False\<rparr>)
      else
        let rf1 = accept_leader (ae_Term args) rf;
            reply = zero_reply\<lparr>aer_Term := currentTerm rf1, aer_XLen := -1\<rparr>
        in do {
          early \<leftarrow> check_prev args rf1 reply;
          case early of
            Some r \<Rightarrow> Some (persist rf1, r)
          | None \<Rightarrow>
              do {
                rf2 \<leftarrow> append_and_commit args rf1;
                Some (persist rf2, reply\<lparr>aer_Success := True\<rparr>)
              }
        })"

section \<open>InstallSnapshot\<close>

definition install_log ::
    "'s InstallSnapShotArgs \<Rightarrow> ('c, 's) Raft \<Rightarrow> 'c LogEntry list option" where
  "install_log args rf =
     (let offset = sliceIndex rf (is_LastIncludedIndex args);
          dummy = [\<lparr>le_Term = is_LastIncludeTerm args, le_Command = None\<rparr>]
      in if offset \<ge> 0 \<and> offset < int (length (log rf)) then
           do {
             e \<leftarrow> go_get (log rf) offset;
             if le_Term e = is_LastIncludeTerm args then go_from (log rf) offset
             else Some dummy
           }
         else Some dummy)"

definition InstallSnapshot ::
    "'s InstallSnapShotArgs \<Rightarrow> ('c, 's) Raft \<Rightarrow>
     (('c, 's) Raft \<times> InstallSnapShotReply) option" where
  "InstallSnapshot args rf =
     (let reply = \<lparr>isr_Term = currentTerm rf\<rparr> in
      if is_Term args < currentTerm rf then Some (rf, reply)
      else
        let rf1 = accept_leader (is_Term args) rf in
        if is_LastIncludedIndex args \<le> lastIncludedIndex rf1 then Some (persist rf1, reply)
        else
          do {
            lg \<leftarrow> install_log args rf1;
            let rf2 = rf1\<lparr>log := lg, lastIncludedIndex := is_LastIncludedIndex args,
                          lastIncludeTerm := is_LastIncludeTerm args\<rparr>;
            let rf3 = (if commitIndex rf2 < lastIncludedIndex rf2
                       then rf2\<lparr>commitIndex := lastIncludedIndex rf2\<rparr> else rf2);
            Some (rf3\<lparr>persister := Save (encode_state rf3) (is_Data args) (persister rf3)\<rparr>,
                  reply)
          })"

section \<open>Start\<close>

definition Start ::
    "'c option \<Rightarrow> ('c, 's) Raft \<Rightarrow> ('c, 's) Raft \<times> int \<times> int \<times> bool" where
  "Start command rf =
     (if state rf \<noteq> Leader then (rf, -1, currentTerm rf, False)
      else
        let rf1 = rf\<lparr>log := log rf @ [\<lparr>le_Term = currentTerm rf, le_Command = command\<rparr>]\<rparr>;
            rf2 = persist rf1;
            rf3 = rf2\<lparr>replicateCh := 1\<rparr>
        in (rf3, lastLogIndex rf1, currentTerm rf, True))"

section \<open>Elections: ticker and askForVote\<close>

text \<open>
  \<open>ticker\<close> reads \<open>electionGen\<close>, sleeps, and starts an election if no valid signal came
  meanwhile.  The result is the term \<open>askForVote\<close> is started with.
\<close>

definition ticker_fire :: "int \<Rightarrow> ('c, 's) Raft \<Rightarrow> ('c, 's) Raft \<times> int option" where
  "ticker_fire record rf =
     (if state rf \<noteq> Leader \<and> record = electionGen rf then
        let rf1 = rf\<lparr>state := Candidate, currentTerm := currentTerm rf + 1,
                     votedFor := me rf\<rparr>
        in (persist rf1, Some (currentTerm rf1))
      else (rf, None))"

text \<open>The goroutine for one server, before the RPC: \<open>Some None\<close> is its early return.\<close>

definition ask_prepare :: "int \<Rightarrow> ('c, 's) Raft \<Rightarrow> RequestVoteArgs option option" where
  "ask_prepare term rf =
     (if state rf \<noteq> Candidate \<or> currentTerm rf \<noteq> term then Some None
      else do {
        lt \<leftarrow> lastLogTerm rf;
        Some (Some \<lparr>rv_Term = term, rv_CandidateId = me rf,
                    rv_LastLogIndex = lastLogIndex rf, rv_LastLogTerm = lt\<rparr>)
      })"

text \<open>\<open>for j := range rf.peers { xs[j] = v }\<close>.\<close>

primrec set_all :: "int list \<Rightarrow> 'a \<Rightarrow> 'a list \<Rightarrow> 'a list option" where
  "set_all [] v xs = Some xs"
| "set_all (j # js) v xs = Option.bind (go_set xs j v) (set_all js v)"

definition become_leader :: "('c, 's) Raft \<Rightarrow> ('c, 's) Raft option" where
  "become_leader rf =
     do {
       ni \<leftarrow> set_all (peer_ids (peers rf)) (lastLogIndex rf + 1) (nextIndex rf);
       mi \<leftarrow> set_all (peer_ids (peers rf)) 0 (matchIndex rf);
       Some (rf\<lparr>state := Leader, nextIndex := ni, matchIndex := mi\<rparr>)
     }"

text \<open>
  The goroutine after a successful RPC; \<open>num\<close> is \<open>numGetVoted\<close>, the counter all goroutines
  of one \<open>askForVote\<close> share.  Once the count is a majority the caller starts
  \<open>sendHeartBeat(term)\<close>.
\<close>

definition ask_reply ::
    "int \<Rightarrow> RequestVoteReply \<Rightarrow> int \<Rightarrow> ('c, 's) Raft \<Rightarrow> (('c, 's) Raft \<times> int) option" where
  "ask_reply term reply num rf =
     (if rvr_Term reply > currentTerm rf then
        Some (persist (rf\<lparr>state := Follower, currentTerm := rvr_Term reply, votedFor := -1\<rparr>), num)
      else if state rf \<noteq> Candidate \<or> currentTerm rf \<noteq> term then Some (rf, num)
      else if rvr_VoteGranted reply then
        if num + 1 > peers rf div 2 then
          map_option (\<lambda>rf1. (rf1, num + 1)) (become_leader rf)
        else Some (rf, num + 1)
      else Some (rf, num))"

section \<open>Replication: sendHeartBeat\<close>

datatype ('c, 's) hb_msg =
  HbStop
| HbSnapshot "'s InstallSnapShotArgs"
| HbAppend "'c AppendEntriesArgs"

text \<open>The clamping of \<open>nextIndex[server]\<close> at the head of a round.\<close>

definition clamp_next :: "int \<Rightarrow> ('c, 's) Raft \<Rightarrow> ('c, 's) Raft option" where
  "clamp_next server rf =
     do {
       x \<leftarrow> go_get (nextIndex rf) server;
       let x1 = (if x < 1 then 1 else x);
       let x2 = (if x1 > lastLogIndex rf + 1 then lastLogIndex rf + 1 else x1);
       ni \<leftarrow> go_set (nextIndex rf) server x2;
       Some (rf\<lparr>nextIndex := ni\<rparr>)
     }"

definition make_append :: "int \<Rightarrow> ('c, 's) Raft \<Rightarrow> 'c AppendEntriesArgs option" where
  "make_append next rf =
     (let prev = next - 1 in
      do {
        pt \<leftarrow> (if prev \<ge> lastIncludedIndex rf \<and> prev \<le> lastLogIndex rf
               then map_option le_Term (go_get (log rf) (sliceIndex rf prev)) else Some 0);
        ents \<leftarrow> (if next \<le> lastLogIndex rf
                 then go_from (log rf) (sliceIndex rf next) else Some []);
        Some \<lparr>ae_Term = currentTerm rf, ae_LeaderId = me rf, ae_PreLogIndex = prev,
              ae_PrevLogTerm = pt, ae_Entries = ents, ae_LeaderCommit = commitIndex rf\<rparr>
      })"

definition hb_send ::
    "int \<Rightarrow> int \<Rightarrow> ('c, 's) Raft \<Rightarrow> (('c, 's) Raft \<times> ('c, 's) hb_msg) option" where
  "hb_send term server rf =
     (if state rf \<noteq> Leader \<or> currentTerm rf \<noteq> term then Some (rf, HbStop)
      else do {
        rf1 \<leftarrow> clamp_next server rf;
        next \<leftarrow> go_get (nextIndex rf1) server;
        if next \<le> lastIncludedIndex rf1 then
          Some (rf1, HbSnapshot
            \<lparr>is_Term = currentTerm rf1, is_LeaderId = me rf1,
             is_LastIncludedIndex = lastIncludedIndex rf1,
             is_LastIncludeTerm = lastIncludeTerm rf1,
             is_Data = ReadSnapshot (persister rf1)\<rparr>)
        else map_option (\<lambda>args. (rf1, HbAppend args)) (make_append next rf1)
      })"

definition step_down :: "int \<Rightarrow> ('c, 's) Raft \<Rightarrow> ('c, 's) Raft" where
  "step_down term rf = persist (rf\<lparr>state := Follower, currentTerm := term, votedFor := -1\<rparr>)"

definition hb_snapshot_reply ::
    "int \<Rightarrow> int \<Rightarrow> 's InstallSnapShotArgs \<Rightarrow> InstallSnapShotReply \<Rightarrow> ('c, 's) Raft \<Rightarrow>
     ('c, 's) Raft option" where
  "hb_snapshot_reply term server args reply rf =
     (if isr_Term reply > currentTerm rf then Some (step_down (isr_Term reply) rf)
      else if state rf \<noteq> Leader \<or> currentTerm rf \<noteq> term then Some rf
      else do {
        ni \<leftarrow> go_set (nextIndex rf) server (is_LastIncludedIndex args + 1);
        mi \<leftarrow> go_set (matchIndex rf) server (is_LastIncludedIndex args);
        Some (rf\<lparr>nextIndex := ni, matchIndex := mi\<rparr>)
      })"

text \<open>The walk back to the last entry of the follower's conflicting term.\<close>

function backup_loop ::
    "('c, 's) Raft \<Rightarrow> int \<Rightarrow> int \<Rightarrow> int \<Rightarrow> int option" where
  "backup_loop rf xindex xterm j =
     (if j \<ge> xindex then
        let si = sliceIndex rf j in
        if si < 0 \<or> si \<ge> int (length (log rf)) then Some j
        else case go_get (log rf) si of
               None \<Rightarrow> None
             | Some e \<Rightarrow> if le_Term e = xterm then Some j
                         else backup_loop rf xindex xterm (j - 1)
      else Some j)"
  by pat_completeness auto
termination
  by (relation "measure (\<lambda>(rf, xindex, xterm, j). nat (j - xindex + 1))") auto

declare backup_loop.simps [simp del]

definition hb_rejected ::
    "int \<Rightarrow> 'c AppendEntriesArgs \<Rightarrow> AppendEntriesReply \<Rightarrow> ('c, 's) Raft \<Rightarrow>
     ('c, 's) Raft option" where
  "hb_rejected server args reply rf =
     do {
       cur \<leftarrow> go_get (nextIndex rf) server;
       if cur > 1 then
         do {
           x \<leftarrow> (if aer_XLen reply \<noteq> -1 then Some (aer_XLen reply)
                 else backup_loop rf (aer_XIndex reply) (aer_XTerm reply)
                        (ae_PreLogIndex args - 1));
           ni \<leftarrow> go_set (nextIndex rf) server (if x < 1 then 1 else x);
           Some (rf\<lparr>nextIndex := ni\<rparr>)
         }
       else Some rf
     }"

text \<open>The count of peers whose \<open>matchIndex\<close> has reached \<open>j\<close>; the leader counts itself.\<close>

primrec confirm_loop :: "int list \<Rightarrow> int \<Rightarrow> ('c, 's) Raft \<Rightarrow> int \<Rightarrow> int option" where
  "confirm_loop [] j rf confirm = Some confirm"
| "confirm_loop (p # ps) j rf confirm =
     (if p = me rf then confirm_loop ps j rf confirm
      else do {
        m \<leftarrow> go_get (matchIndex rf) p;
        confirm_loop ps j rf (if m \<ge> j then confirm + 1 else confirm)
      })"

text \<open>The search, from high to low, for the highest index a majority holds.\<close>

function commit_loop :: "('c, 's) Raft \<Rightarrow> int \<Rightarrow> ('c, 's) Raft option" where
  "commit_loop rf j =
     (if j > commitIndex rf then
        let si = sliceIndex rf j in
        if si < 0 \<or> si \<ge> int (length (log rf)) then commit_loop rf (j - 1)
        else case go_get (log rf) si of
               None \<Rightarrow> None
             | Some e \<Rightarrow>
                 if le_Term e \<noteq> currentTerm rf then commit_loop rf (j - 1)
                 else case confirm_loop (peer_ids (peers rf)) j rf 1 of
                        None \<Rightarrow> None
                      | Some confirm \<Rightarrow>
                          if confirm > peers rf div 2 then Some (rf\<lparr>commitIndex := j\<rparr>)
                          else commit_loop rf (j - 1)
      else Some rf)"
  by pat_completeness auto
termination
  by (relation "measure (\<lambda>(rf, j). nat (j - commitIndex rf))") auto

declare commit_loop.simps [simp del]

definition hb_accepted ::
    "int \<Rightarrow> 'c AppendEntriesArgs \<Rightarrow> ('c, 's) Raft \<Rightarrow> ('c, 's) Raft option" where
  "hb_accepted server args rf =
     (let m = ae_PreLogIndex args + int (length (ae_Entries args)) in
      do {
        mi \<leftarrow> go_set (matchIndex rf) server m;
        ni \<leftarrow> go_set (nextIndex rf) server (m + 1);
        commit_loop (rf\<lparr>matchIndex := mi, nextIndex := ni\<rparr>) m
      })"

definition hb_append_reply ::
    "int \<Rightarrow> int \<Rightarrow> 'c AppendEntriesArgs \<Rightarrow> AppendEntriesReply \<Rightarrow> ('c, 's) Raft \<Rightarrow>
     ('c, 's) Raft option" where
  "hb_append_reply term server args reply rf =
     (if aer_Term reply > currentTerm rf then Some (step_down (aer_Term reply) rf)
      else if state rf \<noteq> Leader \<or> currentTerm rf \<noteq> term then Some rf
      else if \<not> aer_Success reply then hb_rejected server args reply rf
      else hb_accepted server args rf)"

section \<open>applier\<close>

text \<open>
  One iteration of the inner loop.  \<open>ApplySnapshot\<close> and \<open>ApplyCommand\<close> carry the message
  that is sent on \<open>applyCh\<close> with the lock released; after a snapshot message the loop takes
  the lock again and runs \<open>applier_resume\<close>.  \<open>ApplyIdle\<close> leaves the inner loop and
  \<open>ApplySkip\<close> is its \<open>continue\<close> without a message.
\<close>

datatype ('c, 's) applier_act =
  ApplyIdle
| ApplySkip
| ApplySnapshot "('c, 's) ApplyMsg"
| ApplyCommand "('c, 's) ApplyMsg"

definition snapshot_msg :: "('c, 's) Raft \<Rightarrow> ('c, 's) ApplyMsg" where
  "snapshot_msg rf =
     \<lparr>am_CommandValid = False, am_Command = None, am_CommandIndex = 0,
      am_SnapshotValid = True, am_Snapshot = ReadSnapshot (persister rf),
      am_SnapshotTerm = lastIncludeTerm rf, am_SnapshotIndex = lastIncludedIndex rf\<rparr>"

definition command_msg :: "int \<Rightarrow> 'c option \<Rightarrow> ('c, 's) ApplyMsg" where
  "command_msg index command =
     \<lparr>am_CommandValid = True, am_Command = command, am_CommandIndex = index,
      am_SnapshotValid = False, am_Snapshot = [], am_SnapshotTerm = 0, am_SnapshotIndex = 0\<rparr>"

definition applier_step ::
    "('c, 's) Raft \<Rightarrow> (('c, 's) Raft \<times> ('c, 's) applier_act) option" where
  "applier_step rf =
     (if \<not> lastApplied rf < commitIndex rf then Some (rf, ApplyIdle)
      else if lastApplied rf < lastIncludedIndex rf then Some (rf, ApplySnapshot (snapshot_msg rf))
      else
        let rf1 = rf\<lparr>lastApplied := lastApplied rf + 1\<rparr>;
            si = sliceIndex rf1 (lastApplied rf1)
        in if si \<le> 0 \<or> si \<ge> int (length (log rf1)) then Some (rf1, ApplySkip)
           else do {
             e \<leftarrow> go_get (log rf1) si;
             Some (rf1, ApplyCommand (command_msg (lastApplied rf1) (le_Command e)))
           })"

definition applier_resume :: "('c, 's) Raft \<Rightarrow> ('c, 's) Raft" where
  "applier_resume rf = rf\<lparr>lastApplied := lastIncludedIndex rf\<rparr>"

end
