(* ===== verification/RaftLocal.thy ===== *)
theory RaftLocal
  imports RaftOps
begin

text \<open>
  Properties of one Raft peer: the well-formedness every operation keeps (and under which none
  panics), durability (what a crash and \<open>Make\<close> would recover is what the peer holds in
  memory, after every section), the functional behaviour of the handlers on every branch, and
  the order of the applier's messages.
\<close>

section \<open>Well-formedness and durability\<close>

definition raft_wf :: "int \<Rightarrow> int \<Rightarrow> ('c, 's) Raft \<Rightarrow> bool" where
  "raft_wf n i rf \<longleftrightarrow>
     peers rf = n \<and> me rf = i \<and> 0 \<le> i \<and> i < n \<and>
     log rf \<noteq> [] \<and> le_Term (log rf ! 0) = lastIncludeTerm rf \<and> 0 \<le> lastIncludedIndex rf \<and>
     length (nextIndex rf) = nat n \<and> length (matchIndex rf) = nat n"

text \<open>The peer that a crash now would bring back.\<close>

definition restart :: "('c, 's) Raft \<Rightarrow> ('c, 's) Raft" where
  "restart rf = Make (peers rf) (me rf) (PersisterCopy (persister rf))"

definition durable :: "('c, 's) Raft \<Rightarrow> bool" where
  "durable rf \<longleftrightarrow>
     currentTerm (restart rf) = currentTerm rf \<and> votedFor (restart rf) = votedFor rf \<and>
     log (restart rf) = log rf \<and> lastIncludedIndex (restart rf) = lastIncludedIndex rf \<and>
     lastIncludeTerm (restart rf) = lastIncludeTerm rf"

lemma raft_wfD [dest]:
  assumes "raft_wf n i rf"
  shows "peers rf = n" "me rf = i" "0 \<le> i" "i < n" "log rf \<noteq> []" "0 < length (log rf)"
    "le_Term (log rf ! 0) = lastIncludeTerm rf" "0 \<le> lastIncludedIndex rf"
    "length (nextIndex rf) = nat n" "length (matchIndex rf) = nat n"
  using assms by (auto simp: raft_wf_def)

lemma durable_saved:
  assumes "ps_raftstate (persister rf) = encode_state rf"
  shows "durable rf"
  using assms by (simp add: durable_def restart_def Make_def ReadRaftState_def)

text \<open>The fields of the peer that the persisted state does not depend on.\<close>

lemma durable_cong:
  assumes "persister rf' = persister rf" "peers rf' = peers rf" "me rf' = me rf"
    "currentTerm rf' = currentTerm rf" "votedFor rf' = votedFor rf" "log rf' = log rf"
    "lastIncludedIndex rf' = lastIncludedIndex rf" "lastIncludeTerm rf' = lastIncludeTerm rf"
  shows "durable rf' = durable rf"
  using assms by (simp add: durable_def restart_def)

lemma persist_simps [simp]:
  "peers (persist rf) = peers rf" "me (persist rf) = me rf" "dead (persist rf) = dead rf"
  "state (persist rf) = state rf" "currentTerm (persist rf) = currentTerm rf"
  "votedFor (persist rf) = votedFor rf" "log (persist rf) = log rf"
  "lastIncludedIndex (persist rf) = lastIncludedIndex rf"
  "lastIncludeTerm (persist rf) = lastIncludeTerm rf"
  "commitIndex (persist rf) = commitIndex rf" "lastApplied (persist rf) = lastApplied rf"
  "nextIndex (persist rf) = nextIndex rf" "matchIndex (persist rf) = matchIndex rf"
  "electionGen (persist rf) = electionGen rf" "replicateCh (persist rf) = replicateCh rf"
  "ps_snapshot (persister (persist rf)) = ps_snapshot (persister rf)"
  "ps_raftstate (persister (persist rf)) = encode_state rf"
  "lastLogIndex (persist rf) = lastLogIndex rf"
  "sliceIndex (persist rf) = sliceIndex rf"
  "raft_wf n i (persist rf) = raft_wf n i rf"
  by (simp_all add: persist_def Save_def ReadSnapshot_def lastLogIndex_def sliceIndex_def
      raft_wf_def fun_eq_iff)

lemma durable_persist [simp]: "durable (persist rf)"
  by (rule durable_saved) (simp add: encode_state_def)

lemma accept_leader_simps [simp]:
  "peers (accept_leader t rf) = peers rf" "me (accept_leader t rf) = me rf"
  "persister (accept_leader t rf) = persister rf"
  "state (accept_leader t rf) = Follower" "log (accept_leader t rf) = log rf"
  "lastIncludedIndex (accept_leader t rf) = lastIncludedIndex rf"
  "lastIncludeTerm (accept_leader t rf) = lastIncludeTerm rf"
  "commitIndex (accept_leader t rf) = commitIndex rf"
  "lastApplied (accept_leader t rf) = lastApplied rf"
  "nextIndex (accept_leader t rf) = nextIndex rf"
  "matchIndex (accept_leader t rf) = matchIndex rf"
  "electionGen (accept_leader t rf) = electionGen rf + 1"
  "currentTerm (accept_leader t rf) = max t (currentTerm rf)"
  "votedFor (accept_leader t rf) = (if t > currentTerm rf then -1 else votedFor rf)"
  "lastLogIndex (accept_leader t rf) = lastLogIndex rf"
  "sliceIndex (accept_leader t rf) = sliceIndex rf"
  by (simp_all add: accept_leader_def Let_def lastLogIndex_def sliceIndex_def fun_eq_iff)

lemma raft_wf_accept [simp]: "raft_wf n i (accept_leader t rf) = raft_wf n i rf"
  by (simp add: raft_wf_def)

section \<open>Make and crash recovery\<close>

lemma restart_Make: "restart (Make n i ps) = Make n i (persister (Make n i ps))"
proof -
  have "peers (Make n i ps) = n" "me (Make n i ps) = i"
    by (auto simp: Make_def readPersist_def split: option.splits prod.splits)
  then show ?thesis by (simp add: restart_def)
qed

lemma Make_persister [simp]: "persister (Make n i ps) = ps"
  by (auto simp: Make_def readPersist_def split: option.splits prod.splits)

lemma Make_volatile [simp]:
  "peers (Make n i ps) = n" "me (Make n i ps) = i" "state (Make n i ps) = Follower"
  "dead (Make n i ps) = False"
  "nextIndex (Make n i ps) = replicate (nat n) 0" "matchIndex (Make n i ps) = replicate (nat n) 0"
  "electionGen (Make n i ps) = 0"
  by (auto simp: Make_def readPersist_def split: option.splits prod.splits)

lemma Make_commit [simp]:
  "commitIndex (Make n i ps) = lastIncludedIndex (Make n i ps)"
  "lastApplied (Make n i ps) = lastIncludedIndex (Make n i ps)"
  by (auto simp: Make_def readPersist_def split: option.splits prod.splits)

lemma durable_Make: "durable (Make n i ps)"
  by (simp add: durable_def restart_Make)

lemma restart_simps [simp]:
  "peers (restart rf) = peers rf" "me (restart rf) = me rf" "state (restart rf) = Follower"
  "commitIndex (restart rf) = lastIncludedIndex (restart rf)"
  "lastApplied (restart rf) = lastIncludedIndex (restart rf)"
  "persister (restart rf) = persister rf"
  by (simp_all add: restart_def)

lemma durable_restart: "durable (restart rf)"
  unfolding restart_def by (rule durable_Make)

lemma durableD:
  assumes "durable rf"
  shows "currentTerm (restart rf) = currentTerm rf" "votedFor (restart rf) = votedFor rf"
    "log (restart rf) = log rf" "lastIncludedIndex (restart rf) = lastIncludedIndex rf"
    "lastIncludeTerm (restart rf) = lastIncludeTerm rf"
  using assms by (simp_all add: durable_def)

lemma wf_restart:
  assumes "raft_wf n i rf" and "durable rf"
  shows "raft_wf n i (restart rf)"
  using assms durableD [OF assms(2)] by (auto simp: raft_wf_def) (simp_all add: restart_def)

lemma wf_Make_fresh:
  assumes "0 \<le> i" "i < n"
  shows "raft_wf n i (Make n i MakePersister)"
  using assms by (simp add: raft_wf_def Make_def readPersist_def)

section \<open>The log arrays\<close>

lemma lastLogIndex_bounds:
  assumes "raft_wf n i rf"
  shows "lastIncludedIndex rf \<le> lastLogIndex rf" "0 \<le> lastLogIndex rf"
proof -
  have "0 < length (log rf)" "0 \<le> lastIncludedIndex rf"
    using assms by auto
  then show "lastIncludedIndex rf \<le> lastLogIndex rf" "0 \<le> lastLogIndex rf"
    unfolding lastLogIndex_def by linarith+
qed

lemma lastLogTerm_wf:
  "raft_wf n i rf \<Longrightarrow> lastLogTerm rf = Some (le_Term (last (log rf)))"
  by (rule lastLogTerm_Some) auto

lemma set_all_replicate:
  assumes "length xs = nat n"
  shows "set_all (peer_ids n) v xs = Some (replicate (nat n) v)"
proof -
  have gen: "set_all (map int [k..<k + m]) v xs = Some (take k xs @ replicate m v @ drop (k + m) xs)"
    if "k + m \<le> length xs" for k m and xs :: "'a list"
    using that
  proof (induction m arbitrary: k xs)
    case 0
    then show ?case by simp
  next
    case (Suc m)
    have up: "[k..<k + Suc m] = k # [Suc k..<Suc k + m]"
      by (simp add: upt_rec)
    have "set_all (map int [Suc k..<Suc k + m]) v (xs[k := v]) =
        Some (take (Suc k) (xs[k := v]) @ replicate m v @ drop (Suc k + m) (xs[k := v]))"
      using Suc.prems by (intro Suc.IH) simp
    moreover have "take (Suc k) (xs[k := v]) = take k xs @ [v]"
      using Suc.prems by (simp add: take_Suc_conv_app_nth)
    moreover have "drop (Suc k + m) (xs[k := v]) = drop (k + Suc m) xs"
      by (simp add: drop_update_cancel)
    ultimately show ?case
      using Suc.prems by (simp only: up) (simp add: go_set_def)
  qed
  have "peer_ids n = map int [0..<nat n]"
  proof (rule nth_equalityI)
    show "length (peer_ids n) = length (map int [0..<nat n])" by (simp add: peer_ids_def)
    fix j assume "j < length (peer_ids n)"
    then show "peer_ids n ! j = map int [0..<nat n] ! j" by (simp add: peer_ids_def nth_upto)
  qed
  then show ?thesis using gen [of 0 "nat n" xs] assms by simp
qed

section \<open>Snapshot\<close>

lemma Snapshot_cases:
  assumes "raft_wf n i rf"
  obtains (keep) "Snapshot index snap rf = Some rf"
      "index \<le> lastIncludedIndex rf \<or> lastLogIndex rf < index"
  | (cut) rf' k where "Snapshot index snap rf = Some rf'"
      "lastIncludedIndex rf < index" "index \<le> lastLogIndex rf"
      "k = nat (index - lastIncludedIndex rf)" "k < length (log rf)"
      "rf' = rf\<lparr>lastIncludeTerm := le_Term (log rf ! k), lastIncludedIndex := index,
               log := drop k (log rf), persister := persister rf'\<rparr>"
      "ps_raftstate (persister rf') = encode_state rf'"
      "ps_snapshot (persister rf') = snap"
proof (cases "index \<le> lastIncludedIndex rf \<or> lastLogIndex rf < index")
  case True
  then show thesis
    by (intro keep) (auto simp: Snapshot_def sliceIndex_def lastLogIndex_def Let_def)
next
  case False
  let ?k = "nat (index - lastIncludedIndex rf)"
  from False have k: "?k < length (log rf)" by (auto simp: lastLogIndex_def)
  show thesis
    by (rule cut [of "let rf1 = rf\<lparr>lastIncludeTerm := le_Term (log rf ! ?k),
              lastIncludedIndex := index, log := drop ?k (log rf)\<rparr>
            in rf1\<lparr>persister := Save (encode_state rf1) snap (persister rf1)\<rparr>" ?k])
      (use False k in \<open>auto simp: Snapshot_def sliceIndex_def lastLogIndex_def Let_def go_simps
         Save_def encode_state_def\<close>)
qed

lemma wf_Snapshot:
  assumes wf: "raft_wf n i rf"
  obtains rf' where "Snapshot index snap rf = Some rf'" "raft_wf n i rf'"
proof (rule Snapshot_cases [OF wf, of index snap])
  assume "Snapshot index snap rf = Some rf"
  then show thesis using wf by (rule that)
next
  fix rf' k
  assume eq: "Snapshot index snap rf = Some rf'" and "lastIncludedIndex rf < index"
    and k: "k < length (log rf)"
    and rf': "rf' = rf\<lparr>lastIncludeTerm := le_Term (log rf ! k), lastIncludedIndex := index,
               log := drop k (log rf), persister := persister rf'\<rparr>"
  have "raft_wf n i rf'"
    by (subst rf') (use wf k \<open>lastIncludedIndex rf < index\<close> in \<open>auto simp: raft_wf_def\<close>)
  with eq show thesis by (rule that)
qed

lemma durable_Snapshot:
  assumes "raft_wf n i rf" "durable rf" "Snapshot index snap rf = Some rf'"
  shows "durable rf'"
  using assms(1) by (rule Snapshot_cases [of n i rf index snap])
    (use assms in \<open>auto intro: durable_saved\<close>)

section \<open>RequestVote\<close>

text \<open>The vote rule of the source: the candidate's log is at least as up to date as ours.\<close>

definition log_ok :: "RequestVoteArgs \<Rightarrow> ('c, 's) Raft \<Rightarrow> bool" where
  "log_ok args rf \<longleftrightarrow>
     rv_LastLogTerm args > le_Term (last (log rf)) \<or>
     rv_LastLogTerm args = le_Term (last (log rf)) \<and> rv_LastLogIndex args \<ge> lastLogIndex rf"

definition vote_term :: "RequestVoteArgs \<Rightarrow> ('c, 's) Raft \<Rightarrow> ('c, 's) Raft" where
  "vote_term args rf =
     (if rv_Term args > currentTerm rf
      then rf\<lparr>state := Follower, currentTerm := rv_Term args, votedFor := -1\<rparr> else rf)"

lemma vote_term_simps [simp]:
  "peers (vote_term args rf) = peers rf" "me (vote_term args rf) = me rf"
  "log (vote_term args rf) = log rf"
  "lastIncludedIndex (vote_term args rf) = lastIncludedIndex rf"
  "lastIncludeTerm (vote_term args rf) = lastIncludeTerm rf"
  "lastLogIndex (vote_term args rf) = lastLogIndex rf"
  "commitIndex (vote_term args rf) = commitIndex rf"
  "lastApplied (vote_term args rf) = lastApplied rf"
  "nextIndex (vote_term args rf) = nextIndex rf"
  "matchIndex (vote_term args rf) = matchIndex rf"
  "persister (vote_term args rf) = persister rf"
  "electionGen (vote_term args rf) = electionGen rf"
  "raft_wf n i (vote_term args rf) = raft_wf n i rf"
  "currentTerm (vote_term args rf) = max (rv_Term args) (currentTerm rf)"
  "votedFor (vote_term args rf) = (if rv_Term args > currentTerm rf then -1 else votedFor rf)"
  "state (vote_term args rf) = (if rv_Term args > currentTerm rf then Follower else state rf)"
  by (simp_all add: vote_term_def lastLogIndex_def raft_wf_def)

lemma RequestVote_cases:
  assumes "raft_wf n i rf"
  obtains (stale) "rv_Term args < currentTerm rf"
      "RequestVote args rf = Some (persist rf, \<lparr>rvr_Term = currentTerm rf, rvr_VoteGranted = False\<rparr>)"
  | (grant) "currentTerm rf \<le> rv_Term args" "log_ok args rf"
      "votedFor (vote_term args rf) = -1 \<or> votedFor (vote_term args rf) = rv_CandidateId args"
      "RequestVote args rf =
         Some (persist ((vote_term args rf)\<lparr>votedFor := rv_CandidateId args,
                                            electionGen := electionGen rf + 1\<rparr>),
               \<lparr>rvr_Term = rv_Term args, rvr_VoteGranted = True\<rparr>)"
  | (deny) "currentTerm rf \<le> rv_Term args"
      "\<not> (log_ok args rf \<and> (votedFor (vote_term args rf) = -1 \<or>
          votedFor (vote_term args rf) = rv_CandidateId args))"
      "RequestVote args rf =
         Some (persist (vote_term args rf), \<lparr>rvr_Term = rv_Term args, rvr_VoteGranted = False\<rparr>)"
proof (cases "rv_Term args < currentTerm rf")
  case True
  then show thesis by (intro stale) (simp_all add: RequestVote_def)
next
  case False
  have lt: "lastLogTerm (vote_term args rf) = Some (le_Term (last (log rf)))"
    using lastLogTerm_wf [of n i "vote_term args rf"] assms by simp
  note eq = RequestVote_def [of args rf, folded vote_term_def] lt log_ok_def
  show thesis
  proof (cases "log_ok args rf \<and> (votedFor (vote_term args rf) = -1 \<or>
      votedFor (vote_term args rf) = rv_CandidateId args)")
    case True
    with False show thesis
      by (intro grant) (auto simp: eq Let_def simp del: vote_term_simps(15))
  next
    case no: False
    with False show thesis
      by (intro deny) (auto simp: eq Let_def simp del: vote_term_simps(15))
  qed
qed

section \<open>AppendEntries\<close>

lemma xindex_loop_total:
  assumes "j < int (length lg)" and "-1 \<le> j"
  shows "\<exists>k. xindex_loop lg t j = Some k \<and> -1 \<le> k \<and> k \<le> j \<and>
     (\<forall>m. k < m \<and> m \<le> j \<longrightarrow> le_Term (lg ! nat m) = t) \<and>
     (0 \<le> k \<longrightarrow> le_Term (lg ! nat k) \<noteq> t)"
  using assms
proof (induction lg t j rule: xindex_loop.induct)
  case (1 lg t j)
  show ?case
  proof (cases "0 \<le> j \<and> le_Term (lg ! nat j) = t")
    case True
    then have get: "go_get lg j = Some (lg ! nat j)" using "1.prems" by (simp add: go_simps)
    obtain k where k: "xindex_loop lg t (j - 1) = Some k" "-1 \<le> k" "k \<le> j - 1"
      "\<forall>m. k < m \<and> m \<le> j - 1 \<longrightarrow> le_Term (lg ! nat m) = t"
      "0 \<le> k \<longrightarrow> le_Term (lg ! nat k) \<noteq> t"
      using "1.IH" [OF _ get] True "1.prems" by auto
    have "\<forall>m. k < m \<and> m \<le> j \<longrightarrow> le_Term (lg ! nat m) = t"
      using k(4) True by (metis zle_diff1_eq le_less)
    with k True get show ?thesis by (subst xindex_loop.simps) auto
  next
    case False
    with "1.prems" show ?thesis by (subst xindex_loop.simps) (auto simp: go_simps)
  qed
qed

text \<open>
  The reference definition of the append: keep the log when every entry is there already (by
  term), otherwise keep the prefix before the first difference and append the rest.
\<close>

definition agree_upto :: "'c LogEntry list \<Rightarrow> nat \<Rightarrow> 'c LogEntry list \<Rightarrow> nat \<Rightarrow> bool" where
  "agree_upto lg k ents m \<longleftrightarrow>
     k + m \<le> length lg \<and> m \<le> length ents \<and>
     (\<forall>j<m. le_Term (lg ! (k + j)) = le_Term (ents ! j))"

lemma append_loop_cases:
  assumes "k \<le> length lg"
  obtains (same) "append_loop lg (int k) ents = Some lg" "agree_upto lg k ents (length ents)"
  | (split) m where "m < length ents" "agree_upto lg k ents m"
      "append_loop lg (int k) ents = Some (take (k + m) lg @ drop m ents)"
      "k + m < length lg \<Longrightarrow> le_Term (lg ! (k + m)) \<noteq> le_Term (ents ! m)"
  using assms
proof (induction ents arbitrary: k thesis)
  case Nil
  show ?case by (rule Nil(1)) (use Nil in \<open>auto simp: agree_upto_def\<close>)
next
  case (Cons e es)
  show ?case
  proof (cases "k < length lg \<and> le_Term (lg ! k) = le_Term e")
    case True
    then have step: "append_loop lg (int k) (e # es) = append_loop lg (int (Suc k)) es"
      by (simp add: go_simps add.commute)
    have shift: "agree_upto lg k (e # es) (Suc m)" if "agree_upto lg (Suc k) es m" for m
      using that True by (auto simp: agree_upto_def less_Suc_eq_0_disj)
    show ?thesis
    proof (rule Cons.IH [of "Suc k"])
      assume "append_loop lg (int (Suc k)) es = Some lg" "agree_upto lg (Suc k) es (length es)"
      then show ?thesis
        by (intro Cons.prems(1)) (use step shift in simp_all)
    next
      fix m
      assume m: "m < length es" "agree_upto lg (Suc k) es m"
        "append_loop lg (int (Suc k)) es = Some (take (Suc k + m) lg @ drop m es)"
        "Suc k + m < length lg \<Longrightarrow> le_Term (lg ! (Suc k + m)) \<noteq> le_Term (es ! m)"
      show ?thesis
        by (rule Cons.prems(2) [of "Suc m"]) (use m step shift in auto)
    next
      show "Suc k \<le> length lg" using True by simp
    qed
  next
    case False
    show ?thesis
      by (rule Cons.prems(2) [of 0])
        (use False Cons.prems(3) in \<open>auto simp: agree_upto_def go_simps\<close>)
  qed
qed

lemma check_prev_cases:
  assumes "raft_wf n i rf" and "0 \<le> ae_PreLogIndex args"
  obtains (reject) r where "check_prev args rf reply = Some (Some r)"
      "aer_Term r = aer_Term reply" "aer_Success r = False"
  | (pass) "check_prev args rf reply = Some None"
      "lastIncludedIndex rf \<le> ae_PreLogIndex args" "ae_PreLogIndex args \<le> lastLogIndex rf"
      "le_Term (log rf ! nat (ae_PreLogIndex args - lastIncludedIndex rf)) = ae_PrevLogTerm args"
proof (cases "ae_PreLogIndex args < lastIncludedIndex rf \<or> lastLogIndex rf < ae_PreLogIndex args")
  case True
  then show thesis
    by (intro reject [of "reply\<lparr>aer_Success := False, aer_XLen := lastLogIndex rf + 1\<rparr>"])
      (use assms in \<open>auto simp: check_prev_def\<close>)
next
  case False
  let ?si = "ae_PreLogIndex args - lastIncludedIndex rf"
  have bnd: "0 \<le> ?si" "?si < int (length (log rf))"
    using False by (auto simp: lastLogIndex_def)
  then have get: "go_get (log rf) ?si = Some (log rf ! nat ?si)" by (simp add: go_simps)
  show thesis
  proof (cases "le_Term (log rf ! nat ?si) = ae_PrevLogTerm args")
    case True
    with False get assms show thesis
      by (intro pass) (auto simp: check_prev_def sliceIndex_def)
  next
    case neq: False
    obtain k where "xindex_loop (log rf) (le_Term (log rf ! nat ?si)) (?si - 1) = Some k"
      using xindex_loop_total [of "?si - 1" "log rf" "le_Term (log rf ! nat ?si)"] bnd by auto
    with neq False get assms show thesis
      by (intro reject [of "reply\<lparr>aer_Success := False,
             aer_XTerm := le_Term (log rf ! nat ?si), aer_XIndex := k + lastIncludedIndex rf + 1\<rparr>"])
        (auto simp: check_prev_def sliceIndex_def Let_def)
  qed
qed

text \<open>
  The log after an accepted AppendEntries, at slice position \<open>k\<close> of the first new entry.
\<close>

definition merged_log ::
    "'c LogEntry list \<Rightarrow> nat \<Rightarrow> 'c LogEntry list \<Rightarrow> 'c LogEntry list \<Rightarrow> bool" where
  "merged_log lg k ents lg' \<longleftrightarrow>
     lg' = lg \<and> agree_upto lg k ents (length ents) \<or>
     (\<exists>m<length ents. agree_upto lg k ents m \<and> lg' = take (k + m) lg @ drop m ents \<and>
        (k + m < length lg \<longrightarrow> le_Term (lg ! (k + m)) \<noteq> le_Term (ents ! m)))"

lemma append_loop_merged:
  assumes "k \<le> length lg"
  obtains lg' where "append_loop lg (int k) ents = Some lg'" "merged_log lg k ents lg'"
  using assms by (rule append_loop_cases [of k lg ents]) (auto simp: merged_log_def)

lemma AppendEntries_cases:
  assumes wf: "raft_wf n i rf" and pre: "0 \<le> ae_PreLogIndex args"
  obtains (stale) "ae_Term args < currentTerm rf"
      "AppendEntries args rf = Some (persist rf, zero_reply\<lparr>aer_Term := currentTerm rf\<rparr>)"
  | (reject) r where "currentTerm rf \<le> ae_Term args"
      "AppendEntries args rf = Some (persist (accept_leader (ae_Term args) rf), r)"
      "aer_Term r = ae_Term args" "\<not> aer_Success r"
  | (accept) lg c where "currentTerm rf \<le> ae_Term args"
      "lastIncludedIndex rf \<le> ae_PreLogIndex args" "ae_PreLogIndex args \<le> lastLogIndex rf"
      "le_Term (log rf ! nat (ae_PreLogIndex args - lastIncludedIndex rf)) = ae_PrevLogTerm args"
      "merged_log (log rf) (nat (ae_PreLogIndex args - lastIncludedIndex rf) + 1)
         (ae_Entries args) lg"
      "c = (if commitIndex rf < ae_LeaderCommit args
            then min (ae_LeaderCommit args) (lastIncludedIndex rf + int (length lg) - 1)
            else commitIndex rf)"
      "AppendEntries args rf =
         Some (persist ((accept_leader (ae_Term args) rf)\<lparr>log := lg, commitIndex := c\<rparr>),
               zero_reply\<lparr>aer_Term := ae_Term args, aer_XLen := -1, aer_Success := True\<rparr>)"
proof (cases "ae_Term args < currentTerm rf")
  case True
  then show thesis by (intro stale) (simp_all add: AppendEntries_def zero_reply_def)
next
  case False
  let ?rf1 = "accept_leader (ae_Term args) rf"
  let ?reply = "zero_reply\<lparr>aer_Term := currentTerm ?rf1, aer_XLen := -1\<rparr>"
  have wf1: "raft_wf n i ?rf1" using wf by simp
  show thesis
  proof (rule check_prev_cases [OF wf1 pre, of ?reply])
    fix r
    assume "check_prev args ?rf1 ?reply = Some (Some r)" "aer_Term r = aer_Term ?reply"
      "aer_Success r = False"
    with False show thesis
      by (intro reject [of r]) (auto simp: AppendEntries_def Let_def)
  next
    let ?k = "nat (ae_PreLogIndex args - lastIncludedIndex rf) + 1"
    assume chk: "check_prev args ?rf1 ?reply = Some None"
      "lastIncludedIndex ?rf1 \<le> ae_PreLogIndex args" "ae_PreLogIndex args \<le> lastLogIndex ?rf1"
      "le_Term (log ?rf1 ! nat (ae_PreLogIndex args - lastIncludedIndex ?rf1)) = ae_PrevLogTerm args"
    from chk have k: "?k \<le> length (log rf)" "int ?k = ae_PreLogIndex args - lastIncludedIndex rf + 1"
      by (auto simp: lastLogIndex_def)
    obtain lg where lg: "append_loop (log rf) (int ?k) (ae_Entries args) = Some lg"
      "merged_log (log rf) ?k (ae_Entries args) lg"
      using append_loop_merged [OF k(1)] .
    have lgs: "(if ae_Entries args \<noteq> []
        then append_loop (log ?rf1) (sliceIndex ?rf1 (ae_PreLogIndex args) + 1) (ae_Entries args)
        else Some (log ?rf1)) = Some lg"
      using lg(1) by (auto simp: sliceIndex_def k(2) [symmetric])
    have ne: "0 < length lg"
      using lg(2) k(1) wf by (auto simp: merged_log_def)
    let ?c = "if commitIndex rf < ae_LeaderCommit args
            then min (ae_LeaderCommit args) (lastIncludedIndex rf + int (length lg) - 1)
            else commitIndex rf"
    have ac: "append_and_commit args ?rf1 = Some (?rf1\<lparr>log := lg, commitIndex := ?c\<rparr>)"
    proof -
      have "0 \<le> lastIncludedIndex rf" using wf by auto
      with ne have "0 \<le> lastIncludedIndex rf + int (length lg) - 1" by linarith
      then show ?thesis unfolding append_and_commit_def lgs
        by (simp add: Let_def lastLogIndex_def)
    qed
    show thesis
    proof (rule accept)
      show "AppendEntries args rf = Some (persist (?rf1\<lparr>log := lg, commitIndex := ?c\<rparr>),
            zero_reply\<lparr>aer_Term := ae_Term args, aer_XLen := -1, aer_Success := True\<rparr>)"
        using False chk(1) ac by (auto simp: AppendEntries_def Let_def max_def)
    qed (use False chk lg in auto)
  qed
qed

section \<open>InstallSnapshot\<close>

lemma InstallSnapshot_cases:
  assumes wf: "raft_wf n i rf"
  obtains (stale) "is_Term args < currentTerm rf"
      "InstallSnapshot args rf = Some (rf, \<lparr>isr_Term = currentTerm rf\<rparr>)"
  | (old) "currentTerm rf \<le> is_Term args" "is_LastIncludedIndex args \<le> lastIncludedIndex rf"
      "InstallSnapshot args rf =
         Some (persist (accept_leader (is_Term args) rf), \<lparr>isr_Term = currentTerm rf\<rparr>)"
  | (install) rf' k where "currentTerm rf \<le> is_Term args"
      "lastIncludedIndex rf < is_LastIncludedIndex args"
      "k = nat (is_LastIncludedIndex args - lastIncludedIndex rf)"
      "InstallSnapshot args rf = Some (rf', \<lparr>isr_Term = currentTerm rf\<rparr>)"
      "rf' = (accept_leader (is_Term args) rf)
         \<lparr>log := (if k < length (log rf) \<and> le_Term (log rf ! k) = is_LastIncludeTerm args
                 then drop k (log rf)
                 else [\<lparr>le_Term = is_LastIncludeTerm args, le_Command = None\<rparr>]),
          lastIncludedIndex := is_LastIncludedIndex args,
          lastIncludeTerm := is_LastIncludeTerm args,
          commitIndex := max (commitIndex rf) (is_LastIncludedIndex args),
          persister := persister rf'\<rparr>"
      "ps_raftstate (persister rf') = encode_state rf'"
      "ps_snapshot (persister rf') = is_Data args"
proof (cases "is_Term args < currentTerm rf")
  case True
  then show thesis by (intro stale) (simp_all add: InstallSnapshot_def)
next
  case T: False
  show thesis
  proof (cases "is_LastIncludedIndex args \<le> lastIncludedIndex rf")
    case True
    with T show thesis by (intro old) (simp_all add: InstallSnapshot_def Let_def)
  next
    case False
    let ?k = "nat (is_LastIncludedIndex args - lastIncludedIndex rf)"
    let ?lg = "if ?k < length (log rf) \<and> le_Term (log rf ! ?k) = is_LastIncludeTerm args
       then drop ?k (log rf) else [\<lparr>le_Term = is_LastIncludeTerm args, le_Command = None\<rparr>]"
    have lg: "install_log args (accept_leader (is_Term args) rf) = Some ?lg"
      using False by (auto simp: install_log_def sliceIndex_def Let_def go_simps)
    let ?rf3 = "(accept_leader (is_Term args) rf)
         \<lparr>log := ?lg, lastIncludedIndex := is_LastIncludedIndex args,
          lastIncludeTerm := is_LastIncludeTerm args,
          commitIndex := max (commitIndex rf) (is_LastIncludedIndex args)\<rparr>"
    have eq: "InstallSnapshot args rf =
        Some (?rf3\<lparr>persister := Save (encode_state ?rf3) (is_Data args) (persister ?rf3)\<rparr>,
              \<lparr>isr_Term = currentTerm rf\<rparr>)"
      using T False by (simp add: InstallSnapshot_def Let_def lg max_def encode_state_def)
    show thesis
      by (rule install [OF _ _ refl eq]) (use T False in \<open>auto simp: Save_def encode_state_def\<close>)
  qed
qed

section \<open>Elections\<close>

lemma ask_prepare_cases:
  assumes "raft_wf n i rf"
  obtains (stop) "ask_prepare term rf = Some None" "state rf \<noteq> Candidate \<or> currentTerm rf \<noteq> term"
  | (ask) "state rf = Candidate" "currentTerm rf = term"
      "ask_prepare term rf = Some (Some \<lparr>rv_Term = term, rv_CandidateId = i,
         rv_LastLogIndex = lastLogIndex rf, rv_LastLogTerm = le_Term (last (log rf))\<rparr>)"
  using assms lastLogTerm_wf [OF assms] by (auto simp: ask_prepare_def)

lemma become_leader_eq:
  assumes "raft_wf n i rf"
  shows "become_leader rf =
    Some (rf\<lparr>state := Leader, nextIndex := replicate (nat n) (lastLogIndex rf + 1),
             matchIndex := replicate (nat n) 0\<rparr>)"
proof -
  have "length (nextIndex rf) = nat n" "length (matchIndex rf) = nat n" "peers rf = n"
    using assms by auto
  then show ?thesis by (simp add: become_leader_def set_all_replicate)
qed

lemma ask_reply_cases:
  assumes wf: "raft_wf n i rf"
  obtains (newer) "currentTerm rf < rvr_Term reply"
      "ask_reply term reply num rf = Some (step_down (rvr_Term reply) rf, num)"
  | (drop) "rvr_Term reply \<le> currentTerm rf"
      "state rf \<noteq> Candidate \<or> currentTerm rf \<noteq> term \<or> \<not> rvr_VoteGranted reply"
      "ask_reply term reply num rf = Some (rf, num)"
  | (vote) "rvr_Term reply \<le> currentTerm rf" "state rf = Candidate" "currentTerm rf = term"
      "rvr_VoteGranted reply" "num + 1 \<le> n div 2"
      "ask_reply term reply num rf = Some (rf, num + 1)"
  | (won) "rvr_Term reply \<le> currentTerm rf" "state rf = Candidate" "currentTerm rf = term"
      "rvr_VoteGranted reply" "n div 2 < num + 1"
      "ask_reply term reply num rf =
         Some (rf\<lparr>state := Leader, nextIndex := replicate (nat n) (lastLogIndex rf + 1),
                  matchIndex := replicate (nat n) 0\<rparr>, num + 1)"
proof (cases "rvr_Term reply > currentTerm rf")
  case True
  then show thesis by (intro newer) (simp_all add: ask_reply_def step_down_def)
next
  case le: False
  have p: "peers rf = n" using wf by auto
  show thesis
  proof (cases "state rf = Candidate \<and> currentTerm rf = term \<and> rvr_VoteGranted reply")
    case False
    with le show thesis by (intro drop) (auto simp: ask_reply_def)
  next
    case True
    show thesis
    proof (cases "num + 1 \<le> n div 2")
      case small: True
      with True le p show thesis by (intro vote) (auto simp: ask_reply_def)
    next
      case False
      with True le p become_leader_eq [OF wf] show thesis
        by (intro won) (auto simp: ask_reply_def)
    qed
  qed
qed

lemma step_down_simps [simp]:
  "peers (step_down t rf) = peers rf" "me (step_down t rf) = me rf"
  "state (step_down t rf) = Follower" "currentTerm (step_down t rf) = t"
  "votedFor (step_down t rf) = -1" "log (step_down t rf) = log rf"
  "lastIncludedIndex (step_down t rf) = lastIncludedIndex rf"
  "lastIncludeTerm (step_down t rf) = lastIncludeTerm rf"
  "commitIndex (step_down t rf) = commitIndex rf"
  "lastApplied (step_down t rf) = lastApplied rf"
  "nextIndex (step_down t rf) = nextIndex rf" "matchIndex (step_down t rf) = matchIndex rf"
  "lastLogIndex (step_down t rf) = lastLogIndex rf"
  "ps_snapshot (persister (step_down t rf)) = ps_snapshot (persister rf)"
  "raft_wf n i (step_down t rf) = raft_wf n i rf" "durable (step_down t rf)"
  by (simp_all add: step_down_def raft_wf_def lastLogIndex_def)

section \<open>Replication\<close>

lemma clamp_next_eq:
  assumes wf: "raft_wf n i rf" and srv: "0 \<le> server" "server < n"
  shows "clamp_next server rf = Some (rf\<lparr>nextIndex := (nextIndex rf)
     [nat server := min (max 1 (nextIndex rf ! nat server)) (lastLogIndex rf + 1)]\<rparr>)"
proof -
  have "0 \<le> lastLogIndex rf" using lastLogIndex_bounds [OF wf] by simp
  then show ?thesis
    using wf srv by (auto simp: clamp_next_def go_simps Let_def min_def max_def raft_wf_def)
qed

lemma make_append_eq:
  assumes wf: "raft_wf n i rf"
    and nx: "lastIncludedIndex rf < nx" "nx \<le> lastLogIndex rf + 1"
  shows "make_append nx rf = Some
    \<lparr>ae_Term = currentTerm rf, ae_LeaderId = i, ae_PreLogIndex = nx - 1,
     ae_PrevLogTerm = le_Term (log rf ! nat (nx - 1 - lastIncludedIndex rf)),
     ae_Entries = drop (nat (nx - lastIncludedIndex rf)) (log rf),
     ae_LeaderCommit = commitIndex rf\<rparr>"
  using assms by (auto simp: make_append_def sliceIndex_def lastLogIndex_def go_simps Let_def
      raft_wf_def)

lemma hb_send_cases:
  assumes wf: "raft_wf n i rf" and srv: "0 \<le> server" "server < n"
  obtains (stop) "hb_send term server rf = Some (rf, HbStop)"
      "state rf \<noteq> Leader \<or> currentTerm rf \<noteq> term"
  | (snap) rf1 where "state rf = Leader" "currentTerm rf = term"
      "rf1 = rf\<lparr>nextIndex := nextIndex rf1\<rparr>" "length (nextIndex rf1) = nat n"
      "hb_send term server rf = Some (rf1, HbSnapshot
         \<lparr>is_Term = term, is_LeaderId = i, is_LastIncludedIndex = lastIncludedIndex rf,
          is_LastIncludeTerm = lastIncludeTerm rf, is_Data = ps_snapshot (persister rf)\<rparr>)"
  | (append) rf1 nx where "state rf = Leader" "currentTerm rf = term"
      "rf1 = rf\<lparr>nextIndex := nextIndex rf1\<rparr>" "length (nextIndex rf1) = nat n"
      "lastIncludedIndex rf < nx" "nx \<le> lastLogIndex rf + 1"
      "hb_send term server rf = Some (rf1, HbAppend
         \<lparr>ae_Term = term, ae_LeaderId = i, ae_PreLogIndex = nx - 1,
          ae_PrevLogTerm = le_Term (log rf ! nat (nx - 1 - lastIncludedIndex rf)),
          ae_Entries = drop (nat (nx - lastIncludedIndex rf)) (log rf),
          ae_LeaderCommit = commitIndex rf\<rparr>)"
proof (cases "state rf = Leader \<and> currentTerm rf = term")
  case False
  then show thesis by (intro stop) (auto simp: hb_send_def)
next
  case True
  define nx where "nx = min (max 1 (nextIndex rf ! nat server)) (lastLogIndex rf + 1)"
  define rf1 where "rf1 = rf\<lparr>nextIndex := (nextIndex rf)[nat server := nx]\<rparr>"
  have len: "length (nextIndex rf) = nat n" and me: "me rf = i" using wf by auto
  then have get: "go_get (nextIndex rf1) server = Some nx"
    using srv by (simp add: go_get_def nat_less_iff rf1_def)
  have wf1: "raft_wf n i rf1" using wf by (simp add: raft_wf_def rf1_def)
  have c: "clamp_next server rf = Some rf1"
    using clamp_next_eq [OF wf srv] by (simp add: rf1_def nx_def)
  have rf1: "rf1 = rf\<lparr>nextIndex := nextIndex rf1\<rparr>" "length (nextIndex rf1) = nat n"
    using len by (simp_all add: rf1_def)
  have same: "lastIncludedIndex rf1 = lastIncludedIndex rf" "lastLogIndex rf1 = lastLogIndex rf"
    by (simp_all add: rf1_def lastLogIndex_def)
  show thesis
  proof (cases "nx \<le> lastIncludedIndex rf")
    case le: True
    show thesis
      by (rule snap [of rf1])
        (use True le get c rf1 same me in \<open>auto simp: hb_send_def ReadSnapshot_def rf1_def\<close>)
  next
    case gt: False
    have up: "nx \<le> lastLogIndex rf + 1" by (simp add: nx_def)
    have ma: "make_append nx rf1 = Some
        \<lparr>ae_Term = currentTerm rf, ae_LeaderId = i, ae_PreLogIndex = nx - 1,
         ae_PrevLogTerm = le_Term (log rf ! nat (nx - 1 - lastIncludedIndex rf)),
         ae_Entries = drop (nat (nx - lastIncludedIndex rf)) (log rf),
         ae_LeaderCommit = commitIndex rf\<rparr>"
      using make_append_eq [OF wf1, of nx] gt up same by (simp add: rf1_def)
    show thesis
      by (rule append [of rf1 nx])
        (use True gt up get c rf1 same me ma in \<open>auto simp: hb_send_def\<close>)
  qed
qed

lemma backup_loop_total:
  "\<exists>k. backup_loop rf xi xt j = Some k"
proof (induction rf xi xt j rule: backup_loop.induct)
  case (1 rf xi xt j)
  let ?si = "sliceIndex rf j"
  show ?case
  proof (cases "j \<ge> xi \<and> \<not> (?si < 0 \<or> ?si \<ge> int (length (log rf)))")
    case False
    then show ?thesis by (subst backup_loop.simps) (auto simp: Let_def)
  next
    case True
    then have get: "go_get (log rf) ?si = Some (log rf ! nat ?si)" by (simp add: go_simps)
    show ?thesis
      using "1.IH" [OF _ refl _ get] True get by (subst backup_loop.simps) (auto simp: Let_def)
  qed
qed

lemma hb_rejected_eq:
  assumes "raft_wf n i rf" "0 \<le> server" "server < n"
  obtains ni where "hb_rejected server args reply rf = Some (rf\<lparr>nextIndex := ni\<rparr>)"
    "length ni = nat n"
proof -
  have len: "length (nextIndex rf) = nat n" using assms by auto
  with assms(2,3) have bnd: "0 \<le> server" "server < int (length (nextIndex rf))" by simp_all
  obtain k where k: "(if aer_XLen reply \<noteq> -1 then Some (aer_XLen reply)
      else backup_loop rf (aer_XIndex reply) (aer_XTerm reply) (ae_PreLogIndex args - 1)) = Some k"
    using backup_loop_total [of rf "aer_XIndex reply" "aer_XTerm reply" "ae_PreLogIndex args - 1"]
    by (cases "aer_XLen reply \<noteq> -1") auto
  show thesis
  proof (cases "nextIndex rf ! nat server > 1")
    case True
    then show thesis
      by (intro that [of "(nextIndex rf)[nat server := if k < 1 then 1 else k]"])
        (use bnd len in \<open>simp_all add: hb_rejected_def go_simps k\<close>)
  next
    case False
    then show thesis
      by (intro that [of "nextIndex rf"])
        (use bnd len in \<open>simp_all add: hb_rejected_def go_simps\<close>)
  qed
qed

text \<open>The peers counted for index \<open>j\<close>: the leader and every peer whose match reached it.\<close>

definition confirmers :: "int \<Rightarrow> ('c, 's) Raft \<Rightarrow> int set" where
  "confirmers j rf =
     insert (me rf) {p. 0 \<le> p \<and> p < peers rf \<and> j \<le> matchIndex rf ! nat p}"

lemma confirm_loop_eq:
  assumes "\<And>p. p \<in> set ps \<Longrightarrow> 0 \<le> p \<and> p < int (length (matchIndex rf))"
  shows "confirm_loop ps j rf c =
    Some (c + int (length (filter (\<lambda>p. p \<noteq> me rf \<and> j \<le> matchIndex rf ! nat p) ps)))"
  using assms by (induction ps arbitrary: c) (auto simp: go_simps)

lemma confirm_loop_card:
  assumes wf: "raft_wf n i rf"
  shows "confirm_loop (peer_ids (peers rf)) j rf 1 = Some (int (card (confirmers j rf)))"
proof -
  let ?P = "\<lambda>p. p \<noteq> me rf \<and> j \<le> matchIndex rf ! nat p"
  have n: "peers rf = n" "me rf = i" "0 \<le> i" "i < n" "length (matchIndex rf) = nat n"
    using wf by auto
  define C where "C = set (filter ?P (peer_ids n))"
  have "length (filter ?P (peer_ids n)) = card C"
    unfolding C_def by (intro distinct_card [symmetric] distinct_filter) simp
  moreover have "confirmers j rf = insert i C"
    using n by (auto simp: confirmers_def C_def)
  moreover have "i \<notin> C" using n by (simp add: C_def)
  moreover have "finite C" unfolding C_def by (rule finite_set)
  ultimately have "int (card (confirmers j rf)) = 1 + int (length (filter ?P (peer_ids n)))"
    by simp
  moreover have "confirm_loop (peer_ids (peers rf)) j rf 1 =
      Some (1 + int (length (filter ?P (peer_ids n))))"
    using confirm_loop_eq [of "peer_ids n" rf j 1] n by auto
  ultimately show ?thesis by simp
qed

lemma commit_loop_cases:
  assumes wf: "raft_wf n i rf"
  shows "commit_loop rf j = Some rf \<or>
    (\<exists>c. commitIndex rf < c \<and> c \<le> j \<and> lastIncludedIndex rf \<le> c \<and> c \<le> lastLogIndex rf \<and>
       le_Term (log rf ! nat (c - lastIncludedIndex rf)) = currentTerm rf \<and>
       n div 2 < int (card (confirmers c rf)) \<and>
       commit_loop rf j = Some (rf\<lparr>commitIndex := c\<rparr>))"
  using wf
proof (induction rf j rule: commit_loop.induct)
  case (1 rf j)
  let ?si = "sliceIndex rf j"
  let ?R = "\<lambda>j. commit_loop rf j = Some rf \<or>
    (\<exists>c. commitIndex rf < c \<and> c \<le> j \<and> lastIncludedIndex rf \<le> c \<and> c \<le> lastLogIndex rf \<and>
       le_Term (log rf ! nat (c - lastIncludedIndex rf)) = currentTerm rf \<and>
       n div 2 < int (card (confirmers c rf)) \<and>
       commit_loop rf j = Some (rf\<lparr>commitIndex := c\<rparr>))"
  have down: "?R j" if "commit_loop rf j = commit_loop rf (j - 1)" "?R (j - 1)"
    using that by force
  have p: "peers rf = n" using "1.prems" by auto
  note cc = confirm_loop_card [OF "1.prems"]
  show ?case
  proof (cases "j > commitIndex rf")
    case False
    then show ?thesis by (subst commit_loop.simps) simp
  next
    case gt: True
    show ?thesis
    proof (cases "?si < 0 \<or> ?si \<ge> int (length (log rf))")
      case True
      then show ?thesis
        using gt "1.IH"(1) [OF gt refl] "1.prems"
        by (intro down) (subst commit_loop.simps, simp_all)
    next
      case False
      then have get: "go_get (log rf) ?si = Some (log rf ! nat ?si)" by (simp add: go_simps)
      show ?thesis
      proof (cases "le_Term (log rf ! nat ?si) = currentTerm rf")
        case neq: False
        then show ?thesis
          using gt False get "1.IH"(2) [OF gt refl False get neq] "1.prems"
          by (intro down) (subst commit_loop.simps, simp_all)
      next
        case eq: True
        show ?thesis
        proof (cases "n div 2 < int (card (confirmers j rf))")
          case True
          then have "commit_loop rf j = Some (rf\<lparr>commitIndex := j\<rparr>)"
            using gt False get eq cc p by (subst commit_loop.simps) simp
          with True gt False eq show ?thesis
            by (intro disjI2 exI [of _ j]) (auto simp: sliceIndex_def lastLogIndex_def)
        next
          case few: False
          then have "commit_loop rf j = commit_loop rf (j - 1)"
            using gt False get eq cc p by (subst commit_loop.simps) simp
          moreover have "?R (j - 1)"
            using "1.IH"(3) [OF gt refl False get _ cc] eq few p "1.prems" by simp
          ultimately show ?thesis by (rule down)
        qed
      qed
    qed
  qed
qed

definition matched_upto :: "'c AppendEntriesArgs \<Rightarrow> int" where
  "matched_upto args = ae_PreLogIndex args + int (length (ae_Entries args))"

lemma hb_accepted_cases:
  assumes wf: "raft_wf n i rf" and srv: "0 \<le> server" "server < n"
  obtains ni c where "length ni = nat n"
    "hb_accepted server args rf = Some (rf\<lparr>nextIndex := ni,
       matchIndex := (matchIndex rf)[nat server := matched_upto args], commitIndex := c\<rparr>)"
    "c = commitIndex rf \<or>
     (commitIndex rf < c \<and> lastIncludedIndex rf \<le> c \<and> c \<le> lastLogIndex rf \<and>
      le_Term (log rf ! nat (c - lastIncludedIndex rf)) = currentTerm rf \<and>
      n div 2 < int (card (confirmers c
        (rf\<lparr>matchIndex := (matchIndex rf)[nat server := matched_upto args]\<rparr>))))"
proof -
  let ?m = "matched_upto args"
  let ?rf1 = "rf\<lparr>matchIndex := (matchIndex rf)[nat server := ?m],
                 nextIndex := (nextIndex rf)[nat server := ?m + 1]\<rparr>"
  have len: "length (nextIndex rf) = nat n" "length (matchIndex rf) = nat n" using wf by auto
  then have wf1: "raft_wf n i ?rf1" using wf by (simp add: raft_wf_def)
  have eq: "hb_accepted server args rf = commit_loop ?rf1 ?m"
    using srv len by (simp add: hb_accepted_def go_simps matched_upto_def [symmetric] Let_def)
  have conf: "confirmers c ?rf1 =
      confirmers c (rf\<lparr>matchIndex := (matchIndex rf)[nat server := ?m]\<rparr>)" for c
    by (simp add: confirmers_def)
  have rec: "?rf1 = rf\<lparr>nextIndex := (nextIndex rf)[nat server := ?m + 1],
       matchIndex := (matchIndex rf)[nat server := ?m], commitIndex := commitIndex rf\<rparr>"
    by simp
  from commit_loop_cases [OF wf1, of ?m] show thesis
  proof (elim disjE exE conjE)
    assume "commit_loop ?rf1 ?m = Some ?rf1"
    with eq have "hb_accepted server args rf = Some ?rf1" by simp
    then show thesis
      by (intro that [of "(nextIndex rf)[nat server := ?m + 1]" "commitIndex rf"])
        (use len in simp_all)
  next
    fix c
    assume "commitIndex ?rf1 < c" "c \<le> ?m" "lastIncludedIndex ?rf1 \<le> c" "c \<le> lastLogIndex ?rf1"
      "le_Term (log ?rf1 ! nat (c - lastIncludedIndex ?rf1)) = currentTerm ?rf1"
      "n div 2 < int (card (confirmers c ?rf1))"
      "commit_loop ?rf1 ?m = Some (?rf1\<lparr>commitIndex := c\<rparr>)"
    then show thesis
      by (intro that [of "(nextIndex rf)[nat server := ?m + 1]" c])
        (use len eq conf in \<open>simp_all add: lastLogIndex_def\<close>)
  qed
qed

lemma hb_append_reply_cases:
  assumes wf: "raft_wf n i rf" and srv: "0 \<le> server" "server < n"
  obtains (newer) "currentTerm rf < aer_Term reply"
      "hb_append_reply term server args reply rf = Some (step_down (aer_Term reply) rf)"
  | (drop) "hb_append_reply term server args reply rf = Some rf"
  | (rejected) ni where "state rf = Leader" "currentTerm rf = term" "length ni = nat n"
      "hb_append_reply term server args reply rf = Some (rf\<lparr>nextIndex := ni\<rparr>)"
  | (accepted) ni c where "state rf = Leader" "currentTerm rf = term" "aer_Success reply"
      "length ni = nat n"
      "hb_append_reply term server args reply rf = Some (rf\<lparr>nextIndex := ni,
         matchIndex := (matchIndex rf)[nat server := matched_upto args], commitIndex := c\<rparr>)"
      "c = commitIndex rf \<or>
       (commitIndex rf < c \<and> lastIncludedIndex rf \<le> c \<and> c \<le> lastLogIndex rf \<and>
        le_Term (log rf ! nat (c - lastIncludedIndex rf)) = currentTerm rf \<and>
        n div 2 < int (card (confirmers c
          (rf\<lparr>matchIndex := (matchIndex rf)[nat server := matched_upto args]\<rparr>))))"
proof (cases "aer_Term reply > currentTerm rf")
  case True
  then show thesis by (intro newer) (simp_all add: hb_append_reply_def)
next
  case le: False
  show thesis
  proof (cases "state rf = Leader \<and> currentTerm rf = term")
    case False
    with le show thesis by (intro drop) (auto simp: hb_append_reply_def)
  next
    case ldr: True
    show thesis
    proof (cases "aer_Success reply")
      case False
      obtain ni where "hb_rejected server args reply rf = Some (rf\<lparr>nextIndex := ni\<rparr>)"
        "length ni = nat n" using hb_rejected_eq [OF wf srv] .
      with False ldr le show thesis by (intro rejected [of ni]) (auto simp: hb_append_reply_def)
    next
      case True
      show thesis
        by (rule hb_accepted_cases [OF wf srv, of args], rule accepted)
          (use True ldr le in \<open>auto simp: hb_append_reply_def\<close>)
    qed
  qed
qed

lemma hb_snapshot_reply_cases:
  assumes wf: "raft_wf n i rf" and srv: "0 \<le> server" "server < n"
  obtains (newer) "currentTerm rf < isr_Term reply"
      "hb_snapshot_reply term server args reply rf = Some (step_down (isr_Term reply) rf)"
  | (drop) "hb_snapshot_reply term server args reply rf = Some rf"
  | (installed) ni where "state rf = Leader" "currentTerm rf = term" "isr_Term reply \<le> term"
      "length ni = nat n"
      "hb_snapshot_reply term server args reply rf = Some (rf\<lparr>nextIndex := ni,
         matchIndex := (matchIndex rf)[nat server := is_LastIncludedIndex args]\<rparr>)"
proof -
  have len: "length (nextIndex rf) = nat n" "length (matchIndex rf) = nat n" using wf by auto
  show thesis
  proof (cases "isr_Term reply > currentTerm rf")
    case True
    then show thesis by (intro newer) (simp_all add: hb_snapshot_reply_def)
  next
    case le: False
    show thesis
    proof (cases "state rf = Leader \<and> currentTerm rf = term")
      case False
      with le show thesis by (intro drop) (auto simp: hb_snapshot_reply_def)
    next
      case True
      with le len srv show thesis
        by (intro installed [of "(nextIndex rf)[nat server := is_LastIncludedIndex args + 1]"])
          (auto simp: hb_snapshot_reply_def go_simps)
    qed
  qed
qed

end
