(* ===== verification/RaftCluster.thy ===== *)
theory RaftCluster
  imports RaftLocal
begin

text \<open>
  A cluster of \<open>n\<close> Raft peers over an unreliable network, as a step relation.  A step is one
  lock-held section of one goroutine of one peer (a definition of \<open>RaftOps\<close>), a peer handling
  an RPC request, or a crash and restart.  The network keeps every request and reply ever
  sent: a message may be delivered late, out of order, more than once, or never, which covers
  what \<open>labrpc\<close> does.  The goroutines \<open>askForVote\<close> starts count votes in a shared
  counter, so each has a program counter and consumes at most one reply.

  A snapshot is taken by the service at an index it has been handed on \<open>applyCh\<close>
  (\<open>rsm.reader\<close> passes the \<open>CommandIndex\<close> of the message it just executed), hence the guard
  \<open>index \<le> lastApplied\<close>.
\<close>

datatype ask_pc = AskIdle | AskReady | AskSent RequestVoteArgs | AskDone

record ('c, 's) cluster =
  srv :: "int \<Rightarrow> ('c, 's) Raft"
  asks :: "int \<times> int \<times> int \<Rightarrow> ask_pc"
  numGetVoted :: "int \<times> int \<Rightarrow> int"
  rv_reqs :: "(int \<times> int \<times> int \<times> RequestVoteArgs) set"
  rv_reps :: "(int \<times> int \<times> int \<times> RequestVoteReply) set"
  ae_reqs :: "(int \<times> int \<times> int \<times> 'c AppendEntriesArgs) set"
  ae_reps :: "(int \<times> int \<times> int \<times> 'c AppendEntriesArgs \<times> AppendEntriesReply) set"
  is_reqs :: "(int \<times> int \<times> int \<times> 's InstallSnapShotArgs) set"
  is_reps :: "(int \<times> int \<times> int \<times> 's InstallSnapShotArgs \<times> InstallSnapShotReply) set"
  applying :: "int \<Rightarrow> bool"
  applyCh :: "int \<Rightarrow> ('c, 's) ApplyMsg list"

text \<open>
  In the triples, \<open>(c, t, p)\<close> is the goroutine of \<open>askForVote(t)\<close> at candidate \<open>c\<close> for
  server \<open>p\<close>; messages carry the sender, the term of the sending goroutine and the receiver.
  \<open>applying s\<close> says that the applier of \<open>s\<close> is sending a snapshot with the lock released, and
  \<open>applyCh s\<close> is everything sent on the channel, oldest first.
\<close>

definition init_cluster :: "int \<Rightarrow> ('c, 's) cluster" where
  "init_cluster n =
     \<lparr>srv = (\<lambda>s. Make n s MakePersister), asks = (\<lambda>_. AskIdle), numGetVoted = (\<lambda>_. 0),
      rv_reqs = {}, rv_reps = {}, ae_reqs = {}, ae_reps = {}, is_reqs = {}, is_reps = {},
      applying = (\<lambda>_. False), applyCh = (\<lambda>_. [])\<rparr>"

definition peer :: "int \<Rightarrow> int \<Rightarrow> bool" where
  "peer n s \<longleftrightarrow> 0 \<le> s \<and> s < n"

definition set_srv :: "int \<Rightarrow> ('c, 's) Raft \<Rightarrow> ('c, 's) cluster \<Rightarrow> ('c, 's) cluster" where
  "set_srv s rf C = C\<lparr>srv := (srv C)(s := rf)\<rparr>"

text \<open>\<open>askForVote(t)\<close> at \<open>c\<close> starts a goroutine for every other peer, with a fresh counter.\<close>

definition start_asks :: "int \<Rightarrow> int \<Rightarrow> int \<Rightarrow> ('c, 's) cluster \<Rightarrow> ('c, 's) cluster" where
  "start_asks n c t C =
     C\<lparr>asks := (\<lambda>(c', t', p). if c' = c \<and> t' = t \<and> p \<noteq> c \<and> peer n p then AskReady
                              else asks C (c', t', p)),
       numGetVoted := (numGetVoted C)((c, t) := 1)\<rparr>"

definition send_hb :: "int \<Rightarrow> int \<Rightarrow> int \<Rightarrow> ('c, 's) hb_msg \<Rightarrow> ('c, 's) cluster \<Rightarrow> ('c, 's) cluster" where
  "send_hb l t p m C =
     (case m of
        HbStop \<Rightarrow> C
      | HbSnapshot args \<Rightarrow> C\<lparr>is_reqs := insert (l, t, p, args) (is_reqs C)\<rparr>
      | HbAppend args \<Rightarrow> C\<lparr>ae_reqs := insert (l, t, p, args) (ae_reqs C)\<rparr>)"

definition deliver :: "int \<Rightarrow> ('c, 's) applier_act \<Rightarrow> ('c, 's) cluster \<Rightarrow> ('c, 's) cluster" where
  "deliver s act C =
     (case act of
        ApplySnapshot m \<Rightarrow> C\<lparr>applyCh := (applyCh C)(s := applyCh C s @ [m]),
                            applying := (applying C)(s := True)\<rparr>
      | ApplyCommand m \<Rightarrow> C\<lparr>applyCh := (applyCh C)(s := applyCh C s @ [m])\<rparr>
      | _ \<Rightarrow> C)"

text \<open>A crash ends the goroutines of the peer; \<open>Make\<close> runs on a copy of its persister.\<close>

definition crash :: "int \<Rightarrow> ('c, 's) cluster \<Rightarrow> ('c, 's) cluster" where
  "crash s C =
     (set_srv s (restart (srv C s)) C)
       \<lparr>asks := (\<lambda>(c, t, p). if c = s then AskDone else asks C (c, t, p)),
        applying := (applying C)(s := False)\<rparr>"

inductive cstep :: "int \<Rightarrow> ('c, 's) cluster \<Rightarrow> ('c, 's) cluster \<Rightarrow> bool" for n :: int where
  timeout: "peer n s \<Longrightarrow> ticker_fire record (srv C s) = (rf, Some t) \<Longrightarrow>
     cstep n C (start_asks n s t (set_srv s rf C))"
| ask_stop: "peer n c \<Longrightarrow> asks C (c, t, p) = AskReady \<Longrightarrow>
     ask_prepare t (srv C c) = Some None \<Longrightarrow>
     cstep n C (C\<lparr>asks := (asks C)((c, t, p) := AskDone)\<rparr>)"
| ask_send: "peer n c \<Longrightarrow> asks C (c, t, p) = AskReady \<Longrightarrow>
     ask_prepare t (srv C c) = Some (Some args) \<Longrightarrow>
     cstep n C (C\<lparr>asks := (asks C)((c, t, p) := AskSent args),
                  rv_reqs := insert (c, t, p, args) (rv_reqs C)\<rparr>)"
| rv_handle: "peer n p \<Longrightarrow> (c, t, p, args) \<in> rv_reqs C \<Longrightarrow>
     RequestVote args (srv C p) = Some (rf, reply) \<Longrightarrow>
     cstep n C ((set_srv p rf C)\<lparr>rv_reps := insert (c, t, p, reply) (rv_reps C)\<rparr>)"
| ask_lost: "peer n c \<Longrightarrow> asks C (c, t, p) = AskSent args \<Longrightarrow>
     cstep n C (C\<lparr>asks := (asks C)((c, t, p) := AskDone)\<rparr>)"
| ask_recv: "peer n c \<Longrightarrow> asks C (c, t, p) = AskSent args \<Longrightarrow> (c, t, p, reply) \<in> rv_reps C \<Longrightarrow>
     ask_reply t reply (numGetVoted C (c, t)) (srv C c) = Some (rf, num) \<Longrightarrow>
     cstep n C ((set_srv c rf C)\<lparr>numGetVoted := (numGetVoted C)((c, t) := num),
                                 asks := (asks C)((c, t, p) := AskDone)\<rparr>)"
| heartbeat: "peer n l \<Longrightarrow> peer n p \<Longrightarrow> p \<noteq> l \<Longrightarrow> hb_send t p (srv C l) = Some (rf, m) \<Longrightarrow>
     cstep n C (send_hb l t p m (set_srv l rf C))"
| ae_handle: "peer n p \<Longrightarrow> (l, t, p, args) \<in> ae_reqs C \<Longrightarrow>
     AppendEntries args (srv C p) = Some (rf, reply) \<Longrightarrow>
     cstep n C ((set_srv p rf C)\<lparr>ae_reps := insert (l, t, p, args, reply) (ae_reps C)\<rparr>)"
| ae_recv: "peer n l \<Longrightarrow> (l, t, p, args, reply) \<in> ae_reps C \<Longrightarrow>
     hb_append_reply t p args reply (srv C l) = Some rf \<Longrightarrow> cstep n C (set_srv l rf C)"
| is_handle: "peer n p \<Longrightarrow> (l, t, p, args) \<in> is_reqs C \<Longrightarrow>
     InstallSnapshot args (srv C p) = Some (rf, reply) \<Longrightarrow>
     cstep n C ((set_srv p rf C)\<lparr>is_reps := insert (l, t, p, args, reply) (is_reps C)\<rparr>)"
| is_recv: "peer n l \<Longrightarrow> (l, t, p, args, reply) \<in> is_reps C \<Longrightarrow>
     hb_snapshot_reply t p args reply (srv C l) = Some rf \<Longrightarrow> cstep n C (set_srv l rf C)"
| start: "peer n s \<Longrightarrow> Start command (srv C s) = (rf, result) \<Longrightarrow> cstep n C (set_srv s rf C)"
| snapshot: "peer n s \<Longrightarrow> index \<le> lastApplied (srv C s) \<Longrightarrow>
     Snapshot index snap (srv C s) = Some rf \<Longrightarrow> cstep n C (set_srv s rf C)"
| apply_step: "peer n s \<Longrightarrow> \<not> applying C s \<Longrightarrow> applier_step (srv C s) = Some (rf, act) \<Longrightarrow>
     cstep n C (deliver s act (set_srv s rf C))"
| apply_resume: "peer n s \<Longrightarrow> applying C s \<Longrightarrow>
     cstep n C ((set_srv s (applier_resume (srv C s)) C)\<lparr>applying := (applying C)(s := False)\<rparr>)"
| crash_restart: "peer n s \<Longrightarrow> cstep n C (crash s C)"

inductive reachable :: "int \<Rightarrow> ('c, 's) cluster \<Rightarrow> bool" for n :: int where
  init: "reachable n (init_cluster n)"
| step: "reachable n C \<Longrightarrow> cstep n C D \<Longrightarrow> reachable n D"

section \<open>Steps of the peers\<close>

text \<open>
  The steps of a cluster that the service has no part in: those of \<open>cstep\<close> without \<open>Start\<close>,
  \<open>Snapshot\<close> and crashes.
\<close>

inductive peer_step :: "int \<Rightarrow> ('c, 's) cluster \<Rightarrow> ('c, 's) cluster \<Rightarrow> bool" for n :: int where
  p_timeout: "peer n s \<Longrightarrow> ticker_fire record (srv C s) = (rf, Some t) \<Longrightarrow>
     peer_step n C (start_asks n s t (set_srv s rf C))"
| p_ask_stop: "peer n c \<Longrightarrow> asks C (c, t, p) = AskReady \<Longrightarrow>
     ask_prepare t (srv C c) = Some None \<Longrightarrow>
     peer_step n C (C\<lparr>asks := (asks C)((c, t, p) := AskDone)\<rparr>)"
| p_ask_send: "peer n c \<Longrightarrow> asks C (c, t, p) = AskReady \<Longrightarrow>
     ask_prepare t (srv C c) = Some (Some args) \<Longrightarrow>
     peer_step n C (C\<lparr>asks := (asks C)((c, t, p) := AskSent args),
                      rv_reqs := insert (c, t, p, args) (rv_reqs C)\<rparr>)"
| p_rv_handle: "peer n p \<Longrightarrow> (c, t, p, args) \<in> rv_reqs C \<Longrightarrow>
     RequestVote args (srv C p) = Some (rf, reply) \<Longrightarrow>
     peer_step n C ((set_srv p rf C)\<lparr>rv_reps := insert (c, t, p, reply) (rv_reps C)\<rparr>)"
| p_ask_lost: "peer n c \<Longrightarrow> asks C (c, t, p) = AskSent args \<Longrightarrow>
     peer_step n C (C\<lparr>asks := (asks C)((c, t, p) := AskDone)\<rparr>)"
| p_ask_recv: "peer n c \<Longrightarrow> asks C (c, t, p) = AskSent args \<Longrightarrow> (c, t, p, reply) \<in> rv_reps C \<Longrightarrow>
     ask_reply t reply (numGetVoted C (c, t)) (srv C c) = Some (rf, num) \<Longrightarrow>
     peer_step n C ((set_srv c rf C)\<lparr>numGetVoted := (numGetVoted C)((c, t) := num),
                                     asks := (asks C)((c, t, p) := AskDone)\<rparr>)"
| p_heartbeat: "peer n l \<Longrightarrow> peer n p \<Longrightarrow> p \<noteq> l \<Longrightarrow> hb_send t p (srv C l) = Some (rf, m) \<Longrightarrow>
     peer_step n C (send_hb l t p m (set_srv l rf C))"
| p_ae_handle: "peer n p \<Longrightarrow> (l, t, p, args) \<in> ae_reqs C \<Longrightarrow>
     AppendEntries args (srv C p) = Some (rf, reply) \<Longrightarrow>
     peer_step n C ((set_srv p rf C)\<lparr>ae_reps := insert (l, t, p, args, reply) (ae_reps C)\<rparr>)"
| p_ae_recv: "peer n l \<Longrightarrow> (l, t, p, args, reply) \<in> ae_reps C \<Longrightarrow>
     hb_append_reply t p args reply (srv C l) = Some rf \<Longrightarrow> peer_step n C (set_srv l rf C)"
| p_is_handle: "peer n p \<Longrightarrow> (l, t, p, args) \<in> is_reqs C \<Longrightarrow>
     InstallSnapshot args (srv C p) = Some (rf, reply) \<Longrightarrow>
     peer_step n C ((set_srv p rf C)\<lparr>is_reps := insert (l, t, p, args, reply) (is_reps C)\<rparr>)"
| p_is_recv: "peer n l \<Longrightarrow> (l, t, p, args, reply) \<in> is_reps C \<Longrightarrow>
     hb_snapshot_reply t p args reply (srv C l) = Some rf \<Longrightarrow> peer_step n C (set_srv l rf C)"
| p_apply: "peer n s \<Longrightarrow> \<not> applying C s \<Longrightarrow> applier_step (srv C s) = Some (rf, act) \<Longrightarrow>
     peer_step n C (deliver s act (set_srv s rf C))"
| p_resume: "peer n s \<Longrightarrow> applying C s \<Longrightarrow>
     peer_step n C ((set_srv s (applier_resume (srv C s)) C)\<lparr>applying := (applying C)(s := False)\<rparr>)"

text \<open>Nothing else is left out.\<close>

lemma cstep_split:
  "cstep n C D \<longleftrightarrow> peer_step n C D \<or>
     (\<exists>s command rf result. peer n s \<and> Start command (srv C s) = (rf, result) \<and> D = set_srv s rf C) \<or>
     (\<exists>s index snap rf. peer n s \<and> index \<le> lastApplied (srv C s) \<and>
        Snapshot index snap (srv C s) = Some rf \<and> D = set_srv s rf C) \<or>
     (\<exists>s. peer n s \<and> D = crash s C)"
proof
  assume "cstep n C D"
  then show "peer_step n C D \<or>
     (\<exists>s command rf result. peer n s \<and> Start command (srv C s) = (rf, result) \<and> D = set_srv s rf C) \<or>
     (\<exists>s index snap rf. peer n s \<and> index \<le> lastApplied (srv C s) \<and>
        Snapshot index snap (srv C s) = Some rf \<and> D = set_srv s rf C) \<or>
     (\<exists>s. peer n s \<and> D = crash s C)"
    by cases (blast intro: peer_step.intros)+
next
  have "peer_step n C D \<Longrightarrow> cstep n C D"
    by (cases rule: peer_step.cases) (blast intro: cstep.intros)+
  then show "peer_step n C D \<or>
     (\<exists>s command rf result. peer n s \<and> Start command (srv C s) = (rf, result) \<and> D = set_srv s rf C) \<or>
     (\<exists>s index snap rf. peer n s \<and> index \<le> lastApplied (srv C s) \<and>
        Snapshot index snap (srv C s) = Some rf \<and> D = set_srv s rf C) \<or>
     (\<exists>s. peer n s \<and> D = crash s C) \<Longrightarrow> cstep n C D"
    by (blast intro: cstep.intros)
qed

lemma set_srv_simps [simp]:
  "srv (set_srv s rf C) = (srv C)(s := rf)"
  "asks (set_srv s rf C) = asks C" "numGetVoted (set_srv s rf C) = numGetVoted C"
  "rv_reqs (set_srv s rf C) = rv_reqs C" "rv_reps (set_srv s rf C) = rv_reps C"
  "ae_reqs (set_srv s rf C) = ae_reqs C" "ae_reps (set_srv s rf C) = ae_reps C"
  "is_reqs (set_srv s rf C) = is_reqs C" "is_reps (set_srv s rf C) = is_reps C"
  "applying (set_srv s rf C) = applying C" "applyCh (set_srv s rf C) = applyCh C"
  by (simp_all add: set_srv_def)

lemma start_asks_simps [simp]:
  "srv (start_asks n c t C) = srv C"
  "asks (start_asks n c t C) (c', t', p) =
     (if c' = c \<and> t' = t \<and> p \<noteq> c \<and> peer n p then AskReady else asks C (c', t', p))"
  "numGetVoted (start_asks n c t C) = (numGetVoted C)((c, t) := 1)"
  "rv_reqs (start_asks n c t C) = rv_reqs C" "rv_reps (start_asks n c t C) = rv_reps C"
  "ae_reqs (start_asks n c t C) = ae_reqs C" "ae_reps (start_asks n c t C) = ae_reps C"
  "is_reqs (start_asks n c t C) = is_reqs C" "is_reps (start_asks n c t C) = is_reps C"
  "applying (start_asks n c t C) = applying C" "applyCh (start_asks n c t C) = applyCh C"
  by (simp_all add: start_asks_def)

end
