(* ===== verification/RaftTree.thy ===== *)
theory RaftTree
  imports RaftState
begin

text \<open>
  The tree of log entries, the structure behind the proof of Raft's safety.  An entry created
  by the leader of term \<open>t\<close> at index \<open>i\<close> is the node \<open>(i, t)\<close>; a link \<open>(i, t, c, p)\<close>
  says that its command is \<open>c\<close> and that the entry before it in the creator's log has term
  \<open>p\<close>.  The log of a peer, compacted or not, is the path from its last node down to the
  root; \<open>anc E m k\<close> says that \<open>m\<close> lies on the path of \<open>k\<close>.
\<close>

type_synonym node = "int \<times> int"
type_synonym 'c link = "int \<times> int \<times> 'c option \<times> int"

definition nodes :: "'c link set \<Rightarrow> node set" where
  "nodes E = insert (0, 0) {(i, t). \<exists>c p. (i, t, c, p) \<in> E}"

definition par :: "'c link set \<Rightarrow> (node \<times> node) set" where
  "par E = {((i, t), (i - 1, p)) |i t c p. (i, t, c, p) \<in> E}"

definition anc :: "'c link set \<Rightarrow> node \<Rightarrow> node \<Rightarrow> bool" where
  "anc E m k \<longleftrightarrow> (k, m) \<in> (par E)\<^sup>*"

definition wf_links :: "'c link set \<Rightarrow> bool" where
  "wf_links E \<longleftrightarrow>
     (\<forall>i t c p c' p'. (i, t, c, p) \<in> E \<and> (i, t, c', p') \<in> E \<longrightarrow> c = c' \<and> p = p') \<and>
     (\<forall>i t c p. (i, t, c, p) \<in> E \<longrightarrow> 1 \<le> i \<and> 1 \<le> t \<and> 0 \<le> p \<and> p \<le> t \<and> (i - 1, p) \<in> nodes E)"

lemma wf_linksD:
  assumes "wf_links E" "(i, t, c, p) \<in> E"
  shows "1 \<le> i" "1 \<le> t" "0 \<le> p" "p \<le> t" "(i - 1, p) \<in> nodes E"
  using assms unfolding wf_links_def by blast+

lemma wf_links_fun:
  assumes "wf_links E" "(i, t, c, p) \<in> E" "(i, t, c', p') \<in> E"
  shows "c = c'" "p = p'"
  using assms unfolding wf_links_def by blast+

lemma wf_links_empty [simp]: "wf_links {}"
  by (simp add: wf_links_def)

lemma node_root [simp]: "(0, 0) \<in> nodes E"
  by (simp add: nodes_def)

lemma node_link: "(i, t, c, p) \<in> E \<Longrightarrow> (i, t) \<in> nodes E"
  by (auto simp: nodes_def)

lemma nodes_bounds:
  assumes "wf_links E" "(i, t) \<in> nodes E"
  shows "0 \<le> i" "0 \<le> t"
proof -
  have "0 \<le> i \<and> 0 \<le> t"
  proof (cases "(i, t) = (0, 0)")
    case False
    with assms(2) obtain c p where "(i, t, c, p) \<in> E" by (auto simp: nodes_def)
    from wf_linksD(1,2) [OF assms(1) this] show ?thesis by simp
  qed simp
  then show "0 \<le> i" "0 \<le> t" by simp_all
qed

lemma nodes_mono: "E \<subseteq> F \<Longrightarrow> nodes E \<subseteq> nodes F"
  by (auto simp: nodes_def)

section \<open>Ancestors\<close>

lemma anc_refl [simp, intro]: "anc E m m"
  by (simp add: anc_def)

lemma anc_trans [trans]: "anc E a b \<Longrightarrow> anc E b c \<Longrightarrow> anc E a c"
  by (auto simp: anc_def)

lemma par_mono: "E \<subseteq> F \<Longrightarrow> par E \<subseteq> par F"
  unfolding par_def by blast

lemma anc_mono: "E \<subseteq> F \<Longrightarrow> anc E a b \<Longrightarrow> anc F a b"
  unfolding anc_def using rtrancl_mono [OF par_mono] by blast

lemma anc_link: "(i, t, c, p) \<in> E \<Longrightarrow> anc E (i - 1, p) (i, t)"
  unfolding anc_def par_def by (rule r_into_rtrancl) blast

lemma anc_step_cases:
  assumes "wf_links E" "(i, t, c, p) \<in> E" "anc E m (i, t)"
  shows "m = (i, t) \<or> anc E m (i - 1, p)"
proof -
  have "((i, t), m) \<in> (par E)\<^sup>*" using assms(3) by (simp add: anc_def)
  then show ?thesis
  proof (cases rule: converse_rtranclE)
    case base
    then show ?thesis by simp
  next
    case (step y)
    then have "y = (i - 1, p)"
      using wf_links_fun [OF assms(1,2)] by (auto simp: par_def)
    with step show ?thesis by (simp add: anc_def)
  qed
qed

lemma par_single_valued: "wf_links E \<Longrightarrow> single_valued (par E)"
  unfolding single_valued_def par_def by (auto dest: wf_links_fun)

lemma anc_measure:
  assumes "wf_links E" "anc E m k"
  shows "m = k \<or> fst m < fst k" "snd m \<le> snd k"
proof -
  have "(k, m) \<in> (par E)\<^sup>*" using assms(2) by (simp add: anc_def)
  then have "(m = k \<or> fst m < fst k) \<and> snd m \<le> snd k"
    by (induction rule: rtrancl_induct)
      (auto simp: par_def dest: wf_linksD(4) [OF assms(1)])
  then show "m = k \<or> fst m < fst k" "snd m \<le> snd k" by auto
qed

lemma anc_fst_le: "wf_links E \<Longrightarrow> anc E m k \<Longrightarrow> fst m \<le> fst k"
  using anc_measure(1) by fastforce

lemma anc_eq: "wf_links E \<Longrightarrow> anc E m k \<Longrightarrow> fst k \<le> fst m \<Longrightarrow> m = k"
  using anc_measure(1) by fastforce

lemma anc_node:
  assumes "wf_links E" "anc E m k" "k \<in> nodes E"
  shows "m \<in> nodes E"
proof -
  have "(k, m) \<in> (par E)\<^sup>*" using assms(2) by (simp add: anc_def)
  then show ?thesis
    by (induction rule: rtrancl_induct)
      (auto simp: par_def assms(3) dest: wf_linksD(5) [OF assms(1)])
qed

text \<open>Two nodes on one path are ordered by their index; so a path has one node per index.\<close>

lemma anc_linear:
  assumes wf: "wf_links E" and "anc E a k" "anc E b k" "fst a \<le> fst b"
  shows "anc E a b"
proof -
  have "anc E a b \<or> anc E b a"
    using single_valued_confluent [OF par_single_valued [OF wf], of k a b] assms(2,3)
    by (auto simp: anc_def)
  then show ?thesis using anc_eq [OF wf, of b a] assms(4) by auto
qed

lemma anc_unique:
  assumes wf: "wf_links E" and "anc E a k" "anc E b k" "fst a = fst b"
  shows "a = b"
  using anc_linear [OF assms(1-3)] anc_eq [OF wf, of a b] assms(4) by simp

lemma anc_at:
  assumes wf: "wf_links E" and k: "anc E a k" "fst a \<le> j" "j \<le> fst k"
  obtains m where "anc E a m" "anc E m k" "fst m = j"
proof -
  have "(k, a) \<in> (par E)\<^sup>*" using k(1) by (simp add: anc_def)
  then have "fst a \<le> j \<Longrightarrow> j \<le> fst k \<Longrightarrow> \<exists>m. anc E a m \<and> anc E m k \<and> fst m = j"
  proof (induction rule: rtrancl_induct)
    case base
    then show ?case by (intro exI [of _ k]) auto
  next
    case (step y z)
    have zy: "anc E z y" using step(2) by (auto simp: anc_def)
    show ?case
    proof (cases "j = fst z")
      case True
      have "anc E z k" using step(1,2) by (simp add: anc_def)
      then show ?thesis using True by (intro exI [of _ z]) simp
    next
      case False
      then have "fst y \<le> j" using step(2,4) by (auto simp: par_def)
      then obtain m where "anc E y m" "anc E m k" "fst m = j" using step by blast
      then show ?thesis using zy anc_trans by blast
    qed
  qed
  with k(2,3) that show thesis by blast
qed

text \<open>A link for a fresh node changes nothing below the nodes that were there.\<close>

lemma anc_insert:
  assumes wf: "wf_links E" and new: "(i, t) \<notin> nodes E" and k: "k \<in> nodes E"
  shows "anc (insert (i, t, c, p) E) m k \<longleftrightarrow> anc E m k"
proof
  assume "anc E m k"
  then show "anc (insert (i, t, c, p) E) m k" by (rule anc_mono [rotated]) auto
next
  assume "anc (insert (i, t, c, p) E) m k"
  then have "(k, m) \<in> (par (insert (i, t, c, p) E))\<^sup>*" by (simp add: anc_def)
  then have "anc E m k \<and> m \<in> nodes E"
  proof (induction rule: rtrancl_induct)
    case base
    then show ?case using k by simp
  next
    case (step y z)
    then have "(y, z) \<in> par E" using new by (auto simp: par_def)
    then have "anc E z y" by (auto simp: anc_def)
    then show ?case using step.IH anc_trans anc_node [OF wf] by blast
  qed
  then show "anc E m k" ..
qed

lemma wf_links_insert:
  assumes "wf_links E" "(i, t) \<notin> nodes E" "1 \<le> i" "1 \<le> t" "0 \<le> p" "p \<le> t"
    "(i - 1, p) \<in> nodes E"
  shows "wf_links (insert (i, t, c, p) E)"
proof -
  have sub: "nodes E \<subseteq> nodes (insert (i, t, c, p) E)" by (rule nodes_mono) auto
  have fresh: "(i, t, c', p') \<notin> E" for c' p' using assms(2) node_link by blast
  show ?thesis
    unfolding wf_links_def
  proof (intro conjI allI impI)
    fix i' t' c1 p1 c2 p2
    assume "(i', t', c1, p1) \<in> insert (i, t, c, p) E \<and> (i', t', c2, p2) \<in> insert (i, t, c, p) E"
    then show "c1 = c2" "p1 = p2"
      using fresh wf_links_fun [OF assms(1)] by auto
  next
    fix i' t' c' p'
    assume "(i', t', c', p') \<in> insert (i, t, c, p) E"
    then have "1 \<le> i' \<and> 1 \<le> t' \<and> 0 \<le> p' \<and> p' \<le> t' \<and> (i' - 1, p') \<in> nodes E"
      using assms wf_linksD [OF assms(1)] by auto
    then show "1 \<le> i'" "1 \<le> t'" "0 \<le> p'" "p' \<le> t'" "(i' - 1, p') \<in> nodes (insert (i, t, c, p) E)"
      using sub by auto
  qed
qed

section \<open>Logs as paths\<close>

definition links_of :: "int \<Rightarrow> 'c LogEntry list \<Rightarrow> 'c link set" where
  "links_of base lg =
     {(base + int k, le_Term (lg ! k), le_Command (lg ! k), le_Term (lg ! (k - 1))) |k.
        0 < k \<and> k < length lg}"

definition node_at :: "int \<Rightarrow> 'c LogEntry list \<Rightarrow> nat \<Rightarrow> node" where
  "node_at base lg k = (base + int k, le_Term (lg ! k))"

definition top_of :: "int \<Rightarrow> 'c LogEntry list \<Rightarrow> node" where
  "top_of base lg = (base + int (length lg) - 1, le_Term (last lg))"

lemma top_of_node_at: "lg \<noteq> [] \<Longrightarrow> top_of base lg = node_at base lg (length lg - 1)"
  by (cases lg rule: rev_cases) (auto simp: top_of_def node_at_def)

lemma links_ofI:
  "0 < k \<Longrightarrow> k < length lg \<Longrightarrow>
   (base + int k, le_Term (lg ! k), le_Command (lg ! k), le_Term (lg ! (k - 1))) \<in> links_of base lg"
  by (auto simp: links_of_def)

lemma path_anc:
  assumes "links_of base lg \<subseteq> E" "j \<le> k" "k < length lg"
  shows "anc E (node_at base lg j) (node_at base lg k)"
  using assms(2,3)
proof (induction k)
  case 0
  then show ?case by simp
next
  case (Suc k)
  show ?case
  proof (cases "j = Suc k")
    case True
    then show ?thesis by simp
  next
    case False
    have "anc E (node_at base lg j) (node_at base lg k)"
      using Suc False by simp
    moreover have "(base + int (Suc k), le_Term (lg ! Suc k), le_Command (lg ! Suc k),
        le_Term (lg ! k)) \<in> E"
      using links_ofI [of "Suc k" lg base] Suc.prems assms(1) by auto
    then have "anc E (node_at base lg k) (node_at base lg (Suc k))"
      using anc_link by (fastforce simp: node_at_def)
    ultimately show ?thesis by (rule anc_trans)
  qed
qed

lemma path_anc_top:
  assumes "links_of base lg \<subseteq> E" "k < length lg"
  shows "anc E (node_at base lg k) (top_of base lg)"
proof -
  have "lg \<noteq> []" using assms(2) by auto
  then show ?thesis
    using path_anc [OF assms(1), of k "length lg - 1"] assms(2) by (simp add: top_of_node_at)
qed

lemma path_nth:
  assumes "wf_links E" "links_of base lg \<subseteq> E" "lg \<noteq> []"
    "anc E m (top_of base lg)" "base \<le> fst m"
  shows "nat (fst m - base) < length lg" "m = node_at base lg (nat (fst m - base))"
proof -
  have "fst m \<le> base + int (length lg) - 1"
    using anc_fst_le [OF assms(1,4)] by (simp add: top_of_def)
  then show lt: "nat (fst m - base) < length lg"
    using assms(3,5) by (simp add: nat_less_iff)
  show "m = node_at base lg (nat (fst m - base))"
    using anc_unique [OF assms(1,4) path_anc_top [OF assms(2) lt]] assms(5)
    by (simp add: node_at_def)
qed

lemma path_below:
  assumes "wf_links E" "links_of base lg \<subseteq> E" "lg \<noteq> []" "anc E m (top_of base lg)" "fst m \<le> base"
  shows "anc E m (node_at base lg 0)"
proof -
  have "0 < length lg" using assms(3) by simp
  then show ?thesis
    using anc_linear [OF assms(1,4) path_anc_top [OF assms(2)], of 0] assms(5)
    by (simp add: node_at_def)
qed

lemma links_of_drop:
  assumes "k < length lg"
  shows "links_of (base + int k) (drop k lg) \<subseteq> links_of base lg"
proof
  fix x assume "x \<in> links_of (base + int k) (drop k lg)"
  then obtain q where q: "0 < q" "q < length lg - k"
    "x = (base + int k + int q, le_Term (lg ! (k + q)), le_Command (lg ! (k + q)),
          le_Term (lg ! (k + (q - 1))))"
    by (auto simp: links_of_def)
  have "k + (q - 1) = k + q - 1" using q(1) by simp
  then show "x \<in> links_of base lg"
    using links_ofI [of "k + q" lg base] q by (simp add: add.assoc)
qed

lemma top_of_drop: "k < length lg \<Longrightarrow> top_of (base + int k) (drop k lg) = top_of base lg"
  by (simp add: top_of_def of_nat_diff)

lemma links_of_snoc:
  assumes "lg \<noteq> []"
  shows "links_of base (lg @ [e]) =
    insert (base + int (length lg), le_Term e, le_Command e, le_Term (last lg)) (links_of base lg)"
proof -
  have last: "lg ! (length lg - 1) = last lg"
    using assms by (simp add: last_conv_nth)
  have "links_of base (lg @ [e]) = {(base + int k, le_Term ((lg @ [e]) ! k),
      le_Command ((lg @ [e]) ! k), le_Term ((lg @ [e]) ! (k - 1))) |k.
        k = length lg \<or> 0 < k \<and> k < length lg}"
    using assms unfolding links_of_def
    by (intro Collect_cong ex_cong1) (auto simp: less_Suc_eq)
  also have "\<dots> = insert (base + int (length lg), le_Term e, le_Command e, le_Term (last lg))
      {(base + int k, le_Term (lg ! k), le_Command (lg ! k), le_Term (lg ! (k - 1))) |k.
        0 < k \<and> k < length lg}"
  proof -
    have "(lg @ [e]) ! (length lg - 1) = last lg"
      using last assms by (simp add: nth_append)
    moreover have "(lg @ [e]) ! k = lg ! k" "(lg @ [e]) ! (k - 1) = lg ! (k - 1)"
      if "k < length lg" for k
      using that by (simp_all add: nth_append)
    ultimately show ?thesis
      by (intro set_eqI) (smt (verit, ccfv_threshold) insert_iff mem_Collect_eq nth_append_length)
  qed
  finally show ?thesis unfolding links_of_def .
qed

end
