(* ===== verification/RaftInv.thy ===== *)
theory RaftInv
  imports RaftCluster RaftTree
begin

text \<open>
  The inductive invariant of the cluster.  It relates a cluster state to a ghost history:
  \<open>links\<close>, the tree of all entries ever appended by a leader; \<open>votes\<close>, every vote given
  (voter, term, candidate, the voter's last node); \<open>ldrs\<close>, every election won (term, leader,
  the leader's last node at that moment); \<open>acks\<close>, the facts "server \<open>s\<close>, while its term was
  \<open>t\<close>, had the term-\<open>t\<close> entry of index \<open>i\<close> on its path".  The ghost is not part of the
  model of the program: theorems about reachable clusters quantify it away.
\<close>

declare split_paired_All [simp del] split_paired_Ex [simp del]

record 'c ghost =
  links :: "'c link set"
  votes :: "(int \<times> int \<times> int \<times> node) set"
  ldrs :: "(int \<times> int \<times> node) set"
  acks :: "(int \<times> int \<times> int) set"

definition last_node :: "('c, 's) Raft \<Rightarrow> node" where
  "last_node rf = top_of (lastIncludedIndex rf) (log rf)"

text \<open>The up-to-date comparison of the voting rule, on nodes.\<close>

definition lex_le :: "node \<Rightarrow> node \<Rightarrow> bool" where
  "lex_le v w \<longleftrightarrow> snd v < snd w \<or> snd v = snd w \<and> fst v \<le> fst w"

definition committed :: "int \<Rightarrow> 'c ghost \<Rightarrow> node \<Rightarrow> bool" where
  "committed n g d \<longleftrightarrow> (\<exists>Q. majority n Q \<and> (\<forall>p\<in>Q. (p, fst d, snd d) \<in> acks g))"

definition covered :: "int \<Rightarrow> 'c ghost \<Rightarrow> int \<Rightarrow> node \<Rightarrow> bool" where
  "covered n g t m \<longleftrightarrow>
     m = (0, 0) \<or> (\<exists>d. committed n g d \<and> snd d \<le> t \<and> anc (links g) m d)"

text \<open>A leader elected after \<open>snd a\<close>, up to term \<open>u\<close>, whose log lacked \<open>a\<close>.\<close>

definition bad :: "'c ghost \<Rightarrow> node \<Rightarrow> int \<Rightarrow> bool" where
  "bad g a u \<longleftrightarrow> (\<exists>w l L. snd a < w \<and> w \<le> u \<and> (w, l, L) \<in> ldrs g \<and> \<not> anc (links g) a L)"

definition on_chain :: "'c ghost \<Rightarrow> int \<Rightarrow> node \<Rightarrow> bool" where
  "on_chain g t m \<longleftrightarrow> m \<in> nodes (links g) \<and>
     (\<exists>l L. (t, l, L) \<in> ldrs g \<and> (anc (links g) m L \<or> anc (links g) L m \<and> snd m = t))"

section \<open>The conjuncts\<close>

definition tree_inv :: "int \<Rightarrow> 'c ghost \<Rightarrow> bool" where
  "tree_inv n g \<longleftrightarrow>
     wf_links (links g) \<and>
     (\<forall>t l L l' L'. (t, l, L) \<in> ldrs g \<and> (t, l', L') \<in> ldrs g \<longrightarrow> l = l' \<and> L = L') \<and>
     (\<forall>t l L. (t, l, L) \<in> ldrs g \<longrightarrow>
        peer n l \<and> 1 \<le> t \<and> L \<in> nodes (links g) \<and> snd L < t) \<and>
     (\<forall>i t c p. (i, t, c, p) \<in> links g \<longrightarrow>
        (\<exists>l L. (t, l, L) \<in> ldrs g \<and> anc (links g) L (i - 1, p) \<and> ((i - 1, p) = L \<or> p = t))) \<and>
     (\<forall>i j t. (i, t) \<in> nodes (links g) \<and> (j, t) \<in> nodes (links g) \<and> 1 \<le> t \<and> i \<le> j \<longrightarrow>
        anc (links g) (i, t) (j, t))"

definition leader_inv :: "int \<Rightarrow> 'c ghost \<Rightarrow> int \<Rightarrow> ('c, 's) Raft \<Rightarrow> bool" where
  "leader_inv n g s rf \<longleftrightarrow>
     (\<exists>L. (currentTerm rf, s, L) \<in> ldrs g \<and> anc (links g) L (last_node rf) \<and>
        (last_node rf = L \<or> snd (last_node rf) = currentTerm rf)) \<and>
     (\<forall>i. (i, currentTerm rf) \<in> nodes (links g) \<longrightarrow>
        anc (links g) (i, currentTerm rf) (last_node rf)) \<and>
     (\<forall>p. peer n p \<and> p \<noteq> s \<longrightarrow>
        matchIndex rf ! nat p \<le> lastLogIndex rf \<and>
        (\<forall>i. i \<le> matchIndex rf ! nat p \<and> (i, currentTerm rf) \<in> nodes (links g) \<longrightarrow>
             (p, i, currentTerm rf) \<in> acks g))"

definition commit_inv :: "int \<Rightarrow> 'c ghost \<Rightarrow> ('c, 's) Raft \<Rightarrow> bool" where
  "commit_inv n g rf \<longleftrightarrow>
     lastIncludedIndex rf \<le> commitIndex rf \<and> lastApplied rf \<le> commitIndex rf \<and>
     (\<exists>m. fst m = commitIndex rf \<and> anc (links g) m (last_node rf) \<and>
          covered n g (currentTerm rf) m)"

definition srv_inv :: "int \<Rightarrow> 'c ghost \<Rightarrow> int \<Rightarrow> ('c, 's) Raft \<Rightarrow> bool" where
  "srv_inv n g s rf \<longleftrightarrow>
     raft_wf n s rf \<and> durable rf \<and> 0 \<le> currentTerm rf \<and>
     links_of (lastIncludedIndex rf) (log rf) \<subseteq> links g \<and>
     last_node rf \<in> nodes (links g) \<and> snd (last_node rf) \<le> currentTerm rf \<and>
     commit_inv n g rf \<and>
     (state rf = Leader \<longrightarrow> leader_inv n g s rf) \<and>
     (state rf = Candidate \<longrightarrow> snd (last_node rf) < currentTerm rf \<and> votedFor rf = s \<and>
        (\<forall>L. (currentTerm rf, s, L) \<notin> ldrs g))"

definition vote_inv :: "int \<Rightarrow> ('c, 's) cluster \<Rightarrow> 'c ghost \<Rightarrow> bool" where
  "vote_inv n C g \<longleftrightarrow>
     (\<forall>p t c v. (p, t, c, v) \<in> votes g \<longrightarrow>
        peer n p \<and> peer n c \<and> t \<le> currentTerm (srv C p) \<and> t \<le> currentTerm (srv C c) \<and>
        v \<in> nodes (links g) \<and>
        (currentTerm (srv C c) = t \<and> state (srv C c) = Candidate \<longrightarrow>
           lex_le v (last_node (srv C c)))) \<and>
     (\<forall>p t c v c' v'. (p, t, c, v) \<in> votes g \<and> (p, t, c', v') \<in> votes g \<longrightarrow> c = c') \<and>
     (\<forall>p. peer n p \<longrightarrow>
        (votedFor (srv C p) = -1 \<longrightarrow>
           (\<forall>c v. (p, currentTerm (srv C p), c, v) \<notin> votes g)) \<and>
        (votedFor (srv C p) \<noteq> -1 \<longrightarrow>
           (\<exists>v. (p, currentTerm (srv C p), votedFor (srv C p), v) \<in> votes g))) \<and>
     (\<forall>p u c v i t. (p, u, c, v) \<in> votes g \<and> (p, i, t) \<in> acks g \<and> t < u \<longrightarrow>
        anc (links g) (i, t) v \<or> bad g (i, t) u)"

definition ack_inv :: "int \<Rightarrow> ('c, 's) cluster \<Rightarrow> 'c ghost \<Rightarrow> bool" where
  "ack_inv n C g \<longleftrightarrow>
     (\<forall>s i t. (s, i, t) \<in> acks g \<longrightarrow>
        peer n s \<and> (i, t) \<in> nodes (links g) \<and> 1 \<le> t \<and> t \<le> currentTerm (srv C s) \<and>
        (anc (links g) (i, t) (last_node (srv C s)) \<or> bad g (i, t) (currentTerm (srv C s)))) \<and>
     (\<forall>s i. peer n s \<and> 1 \<le> currentTerm (srv C s) \<and>
        anc (links g) (i, currentTerm (srv C s)) (last_node (srv C s)) \<longrightarrow>
        (s, i, currentTerm (srv C s)) \<in> acks g)"

definition elected :: "int \<Rightarrow> 'c ghost \<Rightarrow> int \<Rightarrow> int \<Rightarrow> node \<Rightarrow> int \<Rightarrow> bool" where
  "elected n g t l L p \<longleftrightarrow>
     (\<exists>v. (p, t, l, v) \<in> votes g \<and> lex_le v L \<and> v \<in> nodes (links g) \<and>
        (\<forall>i t0. (p, i, t0) \<in> acks g \<and> t0 < t \<longrightarrow>
           anc (links g) (i, t0) v \<or> bad g (i, t0) (t - 1)))"

definition ldr_inv :: "int \<Rightarrow> ('c, 's) cluster \<Rightarrow> 'c ghost \<Rightarrow> bool" where
  "ldr_inv n C g \<longleftrightarrow>
     (\<forall>t l L. (t, l, L) \<in> ldrs g \<longrightarrow> t \<le> currentTerm (srv C l) \<and>
        (\<exists>Q. majority n Q \<and> (\<forall>p\<in>Q. elected n g t l L p)))"

definition count_inv :: "int \<Rightarrow> ('c, 's) cluster \<Rightarrow> 'c ghost \<Rightarrow> bool" where
  "count_inv n C g \<longleftrightarrow>
     (\<forall>c. peer n c \<and> state (srv C c) = Candidate \<longrightarrow>
        (\<exists>Q. Q \<subseteq> {0..<n} \<and> c \<in> Q \<and>
           int (card Q) = numGetVoted C (c, currentTerm (srv C c)) \<and>
           (\<forall>p\<in>Q. (\<exists>v. (p, currentTerm (srv C c), c, v) \<in> votes g) \<and>
                   (p = c \<or> asks C (c, currentTerm (srv C c), p) = AskDone)))) \<and>
     (\<forall>c t p args. peer n c \<and> (asks C (c, t, p) = AskReady \<or> asks C (c, t, p) = AskSent args) \<longrightarrow>
        peer n p \<and> p \<noteq> c)"

definition rv_inv :: "int \<Rightarrow> ('c, 's) cluster \<Rightarrow> 'c ghost \<Rightarrow> bool" where
  "rv_inv n C g \<longleftrightarrow>
     (\<forall>c t p args. (c, t, p, args) \<in> rv_reqs C \<longrightarrow>
        peer n c \<and> rv_Term args = t \<and> rv_CandidateId args = c \<and> t \<le> currentTerm (srv C c) \<and>
        (currentTerm (srv C c) = t \<and> state (srv C c) = Candidate \<longrightarrow>
           (rv_LastLogIndex args, rv_LastLogTerm args) = last_node (srv C c))) \<and>
     (\<forall>c t p r. (c, t, p, r) \<in> rv_reps C \<and> rvr_VoteGranted r \<longrightarrow>
        (\<exists>v. (p, t, c, v) \<in> votes g))"

text \<open>An AppendEntries message as a piece of path: the previous entry and the new ones.\<close>

definition ae_log :: "'c AppendEntriesArgs \<Rightarrow> 'c LogEntry list" where
  "ae_log args = \<lparr>le_Term = ae_PrevLogTerm args, le_Command = None\<rparr> # ae_Entries args"

definition ae_top :: "'c AppendEntriesArgs \<Rightarrow> node" where
  "ae_top args = top_of (ae_PreLogIndex args) (ae_log args)"

definition ae_ok :: "int \<Rightarrow> 'c ghost \<Rightarrow> int \<Rightarrow> int \<Rightarrow> int \<Rightarrow> 'c AppendEntriesArgs \<Rightarrow> bool" where
  "ae_ok n g l t p args \<longleftrightarrow>
     peer n l \<and> peer n p \<and> p \<noteq> l \<and> ae_Term args = t \<and> 0 \<le> ae_PreLogIndex args \<and>
     links_of (ae_PreLogIndex args) (ae_log args) \<subseteq> links g \<and> ae_top args \<in> nodes (links g) \<and>
     (\<exists>L. (t, l, L) \<in> ldrs g \<and> anc (links g) L (ae_top args) \<and>
        (ae_top args = L \<or> snd (ae_top args) = t)) \<and>
     (\<exists>m. fst m = ae_LeaderCommit args \<and> anc (links g) m (ae_top args) \<and> covered n g t m)"

definition is_node :: "'s InstallSnapShotArgs \<Rightarrow> node" where
  "is_node args = (is_LastIncludedIndex args, is_LastIncludeTerm args)"

definition is_ok :: "int \<Rightarrow> 'c ghost \<Rightarrow> int \<Rightarrow> int \<Rightarrow> int \<Rightarrow> 's InstallSnapShotArgs \<Rightarrow> bool" where
  "is_ok n g l t p args \<longleftrightarrow>
     peer n l \<and> peer n p \<and> p \<noteq> l \<and> is_Term args = t \<and> 0 \<le> is_LastIncludedIndex args \<and>
     (\<exists>L. (t, l, L) \<in> ldrs g) \<and> on_chain g t (is_node args) \<and> covered n g t (is_node args)"

definition acked_upto :: "'c ghost \<Rightarrow> int \<Rightarrow> int \<Rightarrow> int \<Rightarrow> bool" where
  "acked_upto g p t k \<longleftrightarrow>
     (\<forall>i. i \<le> k \<and> (i, t) \<in> nodes (links g) \<longrightarrow> (p, i, t) \<in> acks g)"

definition msg_inv :: "int \<Rightarrow> ('c, 's) cluster \<Rightarrow> 'c ghost \<Rightarrow> bool" where
  "msg_inv n C g \<longleftrightarrow>
     (\<forall>l t p args. (l, t, p, args) \<in> ae_reqs C \<longrightarrow> ae_ok n g l t p args) \<and>
     (\<forall>l t p args r. (l, t, p, args, r) \<in> ae_reps C \<longrightarrow>
        ae_ok n g l t p args \<and> (aer_Success r \<longrightarrow> acked_upto g p t (matched_upto args))) \<and>
     (\<forall>l t p args. (l, t, p, args) \<in> is_reqs C \<longrightarrow> is_ok n g l t p args) \<and>
     (\<forall>l t p args r. (l, t, p, args, r) \<in> is_reps C \<longrightarrow>
        is_ok n g l t p args \<and>
        (isr_Term r \<le> t \<longrightarrow> acked_upto g p t (is_LastIncludedIndex args)))"

definition delivered_ok :: "int \<Rightarrow> 'c ghost \<Rightarrow> ('c, 's) ApplyMsg \<Rightarrow> bool" where
  "delivered_ok n g m \<longleftrightarrow>
     (\<exists>t p d. (am_CommandIndex m, t, am_Command m, p) \<in> links g \<and> committed n g d \<and>
        anc (links g) (am_CommandIndex m, t) d)"

definition apply_inv :: "int \<Rightarrow> ('c, 's) cluster \<Rightarrow> 'c ghost \<Rightarrow> bool" where
  "apply_inv n C g \<longleftrightarrow>
     (\<forall>s m. m \<in> set (applyCh C s) \<and> am_CommandValid m \<longrightarrow> delivered_ok n g m)"

definition Inv :: "int \<Rightarrow> ('c, 's) cluster \<Rightarrow> 'c ghost \<Rightarrow> bool" where
  "Inv n C g \<longleftrightarrow>
     tree_inv n g \<and> (\<forall>s. peer n s \<longrightarrow> srv_inv n g s (srv C s)) \<and> vote_inv n C g \<and>
     ack_inv n C g \<and> ldr_inv n C g \<and> count_inv n C g \<and> rv_inv n C g \<and> msg_inv n C g \<and>
     apply_inv n C g"

lemma InvD:
  assumes "Inv n C g"
  shows "tree_inv n g" "\<And>s. peer n s \<Longrightarrow> srv_inv n g s (srv C s)" "vote_inv n C g"
    "ack_inv n C g" "ldr_inv n C g" "count_inv n C g" "rv_inv n C g" "msg_inv n C g"
    "apply_inv n C g"
  using assms by (simp_all add: Inv_def)

lemma tree_invD:
  assumes "tree_inv n g"
  shows "wf_links (links g)"
    "\<And>t l L l' L'. (t, l, L) \<in> ldrs g \<Longrightarrow> (t, l', L') \<in> ldrs g \<Longrightarrow> l = l' \<and> L = L'"
    "\<And>t l L. (t, l, L) \<in> ldrs g \<Longrightarrow> peer n l \<and> 1 \<le> t \<and> L \<in> nodes (links g) \<and> snd L < t"
    "\<And>i t c p. (i, t, c, p) \<in> links g \<Longrightarrow>
        \<exists>l L. (t, l, L) \<in> ldrs g \<and> anc (links g) L (i - 1, p) \<and> ((i - 1, p) = L \<or> p = t)"
    "\<And>i j t. (i, t) \<in> nodes (links g) \<Longrightarrow> (j, t) \<in> nodes (links g) \<Longrightarrow> 1 \<le> t \<Longrightarrow> i \<le> j \<Longrightarrow>
        anc (links g) (i, t) (j, t)"
  using assms unfolding tree_inv_def by blast+

lemma srv_invD:
  assumes "srv_inv n g s rf"
  shows "raft_wf n s rf" "durable rf" "0 \<le> currentTerm rf"
    "links_of (lastIncludedIndex rf) (log rf) \<subseteq> links g"
    "last_node rf \<in> nodes (links g)" "snd (last_node rf) \<le> currentTerm rf"
    "commit_inv n g rf" "state rf = Leader \<Longrightarrow> leader_inv n g s rf"
    "state rf = Candidate \<Longrightarrow> snd (last_node rf) < currentTerm rf"
    "state rf = Candidate \<Longrightarrow> votedFor rf = s"
    "state rf = Candidate \<Longrightarrow> (currentTerm rf, s, L) \<notin> ldrs g"
  using assms unfolding srv_inv_def by blast+

lemma vote_invD:
  assumes "vote_inv n C g"
  shows "\<And>p t c v. (p, t, c, v) \<in> votes g \<Longrightarrow> peer n p \<and> peer n c \<and>
        t \<le> currentTerm (srv C p) \<and> t \<le> currentTerm (srv C c) \<and> v \<in> nodes (links g)"
    "\<And>p t c v. (p, t, c, v) \<in> votes g \<Longrightarrow> currentTerm (srv C c) = t \<Longrightarrow>
        state (srv C c) = Candidate \<Longrightarrow> lex_le v (last_node (srv C c))"
    "\<And>p t c v c' v'. (p, t, c, v) \<in> votes g \<Longrightarrow> (p, t, c', v') \<in> votes g \<Longrightarrow> c = c'"
    "\<And>p c v. peer n p \<Longrightarrow> votedFor (srv C p) = -1 \<Longrightarrow>
        (p, currentTerm (srv C p), c, v) \<notin> votes g"
    "\<And>p. peer n p \<Longrightarrow> votedFor (srv C p) \<noteq> -1 \<Longrightarrow>
        \<exists>v. (p, currentTerm (srv C p), votedFor (srv C p), v) \<in> votes g"
    "\<And>p u c v i t. (p, u, c, v) \<in> votes g \<Longrightarrow> (p, i, t) \<in> acks g \<Longrightarrow> t < u \<Longrightarrow>
        anc (links g) (i, t) v \<or> bad g (i, t) u"
  using assms unfolding vote_inv_def by blast+

lemma ack_invD:
  assumes "ack_inv n C g"
  shows "\<And>s i t. (s, i, t) \<in> acks g \<Longrightarrow> peer n s \<and> (i, t) \<in> nodes (links g) \<and> 1 \<le> t \<and>
        t \<le> currentTerm (srv C s)"
    "\<And>s i t. (s, i, t) \<in> acks g \<Longrightarrow>
        anc (links g) (i, t) (last_node (srv C s)) \<or> bad g (i, t) (currentTerm (srv C s))"
    "\<And>s i. peer n s \<Longrightarrow> 1 \<le> currentTerm (srv C s) \<Longrightarrow>
        anc (links g) (i, currentTerm (srv C s)) (last_node (srv C s)) \<Longrightarrow>
        (s, i, currentTerm (srv C s)) \<in> acks g"
  using assms unfolding ack_inv_def by blast+

lemma ldr_invD:
  assumes "ldr_inv n C g" "(t, l, L) \<in> ldrs g"
  shows "t \<le> currentTerm (srv C l)" "\<exists>Q. majority n Q \<and> (\<forall>p\<in>Q. elected n g t l L p)"
  using assms unfolding ldr_inv_def by blast+

lemma msg_invD:
  assumes "msg_inv n C g"
  shows "\<And>l t p args. (l, t, p, args) \<in> ae_reqs C \<Longrightarrow> ae_ok n g l t p args"
    "\<And>l t p args r. (l, t, p, args, r) \<in> ae_reps C \<Longrightarrow> ae_ok n g l t p args"
    "\<And>l t p args r. (l, t, p, args, r) \<in> ae_reps C \<Longrightarrow> aer_Success r \<Longrightarrow>
        acked_upto g p t (matched_upto args)"
    "\<And>l t p args. (l, t, p, args) \<in> is_reqs C \<Longrightarrow> is_ok n g l t p args"
    "\<And>l t p args r. (l, t, p, args, r) \<in> is_reps C \<Longrightarrow> is_ok n g l t p args"
    "\<And>l t p args r. (l, t, p, args, r) \<in> is_reps C \<Longrightarrow> isr_Term r \<le> t \<Longrightarrow>
        acked_upto g p t (is_LastIncludedIndex args)"
  using assms unfolding msg_inv_def by blast+

section \<open>Chains and leader completeness\<close>

lemma lex_le_refl [simp]: "lex_le v v"
  by (simp add: lex_le_def)

lemma link_on_chain:
  assumes tr: "tree_inv n g" and nd: "(i, t) \<in> nodes (links g)" "1 \<le> t"
  obtains l L where "(t, l, L) \<in> ldrs g" "anc (links g) L (i, t)" "fst L < i"
proof -
  from nd obtain c p where lk: "(i, t, c, p) \<in> links g" by (auto simp: nodes_def)
  from tree_invD(4) [OF tr lk] obtain l L where
    L: "(t, l, L) \<in> ldrs g" "anc (links g) L (i - 1, p)" by blast
  have "fst L \<le> i - 1" using anc_fst_le [OF tree_invD(1) [OF tr] L(2)] by simp
  moreover have "anc (links g) L (i, t)" using L(2) anc_link [OF lk] by (rule anc_trans)
  ultimately show thesis using L(1) that by simp
qed

text \<open>An ancestor of a term-\<open>t\<close> node is below the election of term \<open>t\<close> or has term \<open>t\<close>.\<close>

lemma anc_of_term_node:
  assumes tr: "tree_inv n g" and lL: "(t, l, L) \<in> ldrs g"
    and d: "d \<in> nodes (links g)" "snd d = t" and m: "anc (links g) m d"
  shows "anc (links g) m L \<or> anc (links g) L m \<and> snd m = t"
proof -
  note wf = tree_invD(1) [OF tr]
  have t1: "1 \<le> t" using tree_invD(3) [OF tr lL] by simp
  have "(d, m) \<in> (par (links g))\<^sup>*" using m by (simp add: anc_def)
  then show ?thesis
  proof (induction rule: rtrancl_induct)
    case base
    obtain l' L' where L': "(t, l', L') \<in> ldrs g" "anc (links g) L' d"
      using link_on_chain [OF tr, of "fst d" t] d t1 by (metis prod.collapse)
    then show ?case using tree_invD(2) [OF tr lL L'(1)] d(2) by auto
  next
    case (step y z)
    obtain i u c p where yz: "(i, u, c, p) \<in> links g" "y = (i, u)" "z = (i - 1, p)"
      using step(2) by (auto simp: par_def)
    have zy: "anc (links g) z y" using anc_link [OF yz(1)] yz by simp
    show ?case
    proof (cases "anc (links g) y L")
      case True
      then show ?thesis using zy anc_trans by blast
    next
      case False
      then have u: "u = t" using step.IH yz(2) by auto
      obtain l' L' where L': "(t, l', L') \<in> ldrs g" "anc (links g) L' z" "z = L' \<or> p = t"
        using tree_invD(4) [OF tr yz(1)] u yz(3) by blast
      then have "L' = L" using tree_invD(2) [OF tr lL L'(1)] by simp
      then show ?thesis using L' yz(3) by auto
    qed
  qed
qed

lemma on_chain_anc:
  assumes tr: "tree_inv n g" and d: "on_chain g t d" and m: "anc (links g) m d"
  shows "on_chain g t m"
proof -
  from d obtain l L where L: "(t, l, L) \<in> ldrs g" "d \<in> nodes (links g)"
    "anc (links g) d L \<or> anc (links g) L d \<and> snd d = t"
    by (auto simp: on_chain_def)
  have "anc (links g) m L \<or> anc (links g) L m \<and> snd m = t"
    using L(3) anc_trans [OF m] anc_of_term_node [OF tr L(1,2) _ m] by blast
  then show ?thesis
    using L(1) anc_node [OF tree_invD(1) [OF tr] m L(2)] by (auto simp: on_chain_def)
qed

lemma on_chain_node:
  assumes "tree_inv n g" "(i, t) \<in> nodes (links g)" "1 \<le> t"
  shows "on_chain g t (i, t)"
proof -
  obtain l L where "(t, l, L) \<in> ldrs g" "anc (links g) L (i, t)"
    using link_on_chain [OF assms] .
  then show ?thesis using assms(2) by (auto simp: on_chain_def)
qed

lemma on_chain_linear:
  assumes tr: "tree_inv n g" and a: "on_chain g t a" and b: "on_chain g t b" and le: "fst a \<le> fst b"
  shows "anc (links g) a b"
proof -
  note wf = tree_invD(1) [OF tr]
  from a obtain l L where aL: "(t, l, L) \<in> ldrs g" "a \<in> nodes (links g)"
    "anc (links g) a L \<or> anc (links g) L a \<and> snd a = t" by (auto simp: on_chain_def)
  from b obtain l' L' where "(t, l', L') \<in> ldrs g" and bn: "b \<in> nodes (links g)"
    and "anc (links g) b L' \<or> anc (links g) L' b \<and> snd b = t" by (auto simp: on_chain_def)
  then have bL: "anc (links g) b L \<or> anc (links g) L b \<and> snd b = t"
    using tree_invD(2) [OF tr aL(1)] by blast
  have t1: "1 \<le> t" using tree_invD(3) [OF tr aL(1)] by simp
  consider (below) "anc (links g) a L" "anc (links g) b L"
    | (across) "anc (links g) a L" "anc (links g) L b"
    | (over) "anc (links g) L a" "anc (links g) b L"
    | (above) "snd a = t" "snd b = t"
    using aL(3) bL by blast
  then show ?thesis
  proof cases
    case below
    then show ?thesis using anc_linear [OF wf _ _ le] by blast
  next
    case across
    then show ?thesis by (rule anc_trans)
  next
    case over
    then have "fst L \<le> fst a" "fst b \<le> fst L" using anc_fst_le [OF wf] by blast+
    with le have "fst L = fst a" "fst b = fst L" by simp_all
    then have "L = a" "b = L" using over anc_eq [OF wf] by simp_all
    then show ?thesis by simp
  next
    case above
    then show ?thesis
      using tree_invD(5) [OF tr, of "fst a" t "fst b"] aL(2) bn t1 le by (metis prod.collapse)
  qed
qed

lemma on_chain_unique:
  assumes tr: "tree_inv n g" and "on_chain g t a" "on_chain g t b" "fst a = fst b"
  shows "a = b"
  using on_chain_linear [OF assms(1-3)] anc_eq [OF tree_invD(1) [OF tr], of a b] assms(4) by simp

lemma committed_ack:
  assumes "committed n g d" "ack_inv n C g"
  shows "d \<in> nodes (links g)" "1 \<le> snd d"
proof -
  from assms(1) obtain Q where Q: "majority n Q" "\<forall>p\<in>Q. (p, fst d, snd d) \<in> acks g"
    by (auto simp: committed_def)
  then obtain p where "(p, fst d, snd d) \<in> acks g"
    using majority_common [OF Q(1) Q(1)] by metis
  from ack_invD(1) [OF assms(2) this] show "d \<in> nodes (links g)" "1 \<le> snd d" by simp_all
qed

text \<open>
  Leader completeness: a committed node is on the path of every later leader.  The proof is
  Raft's: a voter of the later leader had acknowledged the node; its vote compared logs.
\<close>

lemma leader_completeness:
  assumes inv: "tree_inv n g" "ack_inv n C g" "ldr_inv n C g"
    and d: "committed n g d" and L: "(u, l, L) \<in> ldrs g" and lt: "snd d < u"
  shows "anc (links g) d L"
  using L lt
proof (induction "nat u" arbitrary: u l L rule: less_induct)
  case less
  note tr = inv(1) and wf = tree_invD(1) [OF inv(1)]
  have u1: "1 \<le> u" and LN: "L \<in> nodes (links g)" "snd L < u"
    using tree_invD(3) [OF tr less.prems(1)] by auto
  have IH: "anc (links g) d L'" if "(w, l', L') \<in> ldrs g" "snd d < w" "w < u" for w l' L'
  proof (rule less.hyps [OF _ that(1,2)])
    show "nat w < nat u" using that(3) u1 by linarith
  qed
  have nobad: "\<not> bad g d (u - 1)"
    using IH by (auto simp: bad_def)
  note dn = committed_ack [OF d inv(2)]
  obtain Q where Q: "majority n Q" "\<forall>p\<in>Q. (p, fst d, snd d) \<in> acks g"
    using d by (auto simp: committed_def)
  obtain R where R: "majority n R" "\<forall>p\<in>R. elected n g u l L p"
    using ldr_invD(2) [OF inv(3) less.prems(1)] by blast
  obtain p where p: "p \<in> Q" "p \<in> R" using majority_common [OF Q(1) R(1)] by blast
  obtain v where v: "lex_le v L" "v \<in> nodes (links g)"
    "\<forall>i t0. (p, i, t0) \<in> acks g \<and> t0 < u \<longrightarrow> anc (links g) (i, t0) v \<or> bad g (i, t0) (u - 1)"
    using R(2) p(2) by (auto simp: elected_def)
  have dv: "anc (links g) d v"
    using v(3) Q(2) p(1) less.prems(2) nobad by (metis prod.collapse)
  have le: "snd d \<le> snd v" "snd v \<le> snd L"
    using anc_measure(2) [OF wf dv] v(1) by (auto simp: lex_le_def)
  show ?case
  proof (cases "snd v = snd L")
    case True
    then have "anc (links g) v L"
      using tree_invD(5) [OF tr, of "fst v" "snd L" "fst L"] v(1,2) LN le dn
      by (auto simp: lex_le_def) (metis prod.collapse)
    with dv show ?thesis by (rule anc_trans)
  next
    case False
    then have big: "snd d < snd L" using le by simp
    have "(fst L, snd L) \<in> nodes (links g)" "1 \<le> snd L" using LN big dn(2) by simp_all
    then obtain l' L' where L': "(snd L, l', L') \<in> ldrs g" "anc (links g) L' (fst L, snd L)"
      by (rule link_on_chain [OF tr])
    have "anc (links g) d L'" using IH [OF L'(1) big LN(2)] .
    then show ?thesis using L'(2) anc_trans by simp
  qed
qed

lemma committed_on_chain:
  assumes inv: "tree_inv n g" "ack_inv n C g" "ldr_inv n C g"
    and d: "committed n g d" and L: "(u, l, L) \<in> ldrs g" and le: "snd d \<le> u"
  shows "on_chain g u d"
proof (cases "snd d = u")
  case True
  then show ?thesis
    using on_chain_node [OF inv(1), of "fst d" u] committed_ack [OF d inv(2)]
    by (metis prod.collapse)
next
  case False
  then show ?thesis
    using leader_completeness [OF inv d L] le L committed_ack [OF d inv(2)]
    by (auto simp: on_chain_def)
qed

text \<open>Any two committed nodes lie on one path.\<close>

lemma committed_linear:
  assumes inv: "tree_inv n g" "ack_inv n C g" "ldr_inv n C g"
    and a: "committed n g a" and b: "committed n g b" and le: "snd a \<le> snd b"
  shows "anc (links g) a b \<or> anc (links g) b a"
proof -
  note bn = committed_ack [OF b inv(2)]
  have "(fst b, snd b) \<in> nodes (links g)" "1 \<le> snd b" using bn by simp_all
  then obtain l L where "(snd b, l, L) \<in> ldrs g" by (rule link_on_chain [OF inv(1)])
  then have "on_chain g (snd b) a" "on_chain g (snd b) b"
    using committed_on_chain [OF inv] a b le by auto
  then show ?thesis using on_chain_linear [OF inv(1)] by (meson linear)
qed

lemma covered_linear:
  assumes inv: "tree_inv n g" "ack_inv n C g" "ldr_inv n C g"
    and a: "committed n g da" "anc (links g) a da"
    and b: "committed n g db" "anc (links g) b db" and le: "fst a \<le> fst b"
  shows "anc (links g) a b"
proof -
  have "anc (links g) da db \<or> anc (links g) db da"
    using committed_linear [OF inv a(1) b(1)] committed_linear [OF inv b(1) a(1)] by force
  then obtain d where "anc (links g) a d" "anc (links g) b d"
    using a(2) b(2) anc_trans by blast
  then show ?thesis using anc_linear [OF tree_invD(1) [OF inv(1)] _ _ le] by blast
qed

end
