(* ===== verification/RaftPreserve.thy ===== *)
theory RaftPreserve
  imports RaftInv
begin

text \<open>
  The invariant is kept when one peer moves.  \<open>Inv_set_srv\<close> is the general rule for a step of
  one peer that gives no vote and wins no election (the ghost only gains acknowledgements);
  \<open>Inv_grant\<close>, \<open>Inv_candidate\<close>, \<open>Inv_elect\<close> and \<open>Inv_append_own\<close> are the four moves
  that extend the ghost otherwise: a vote, a candidacy, an election won, an entry created.
\<close>

section \<open>Monotonicity in the acknowledgements\<close>

definition add_acks :: "(int \<times> int \<times> int) set \<Rightarrow> 'c ghost \<Rightarrow> 'c ghost" where
  "add_acks A g = g\<lparr>acks := acks g \<union> A\<rparr>"

lemma add_acks_simps [simp]:
  "links (add_acks A g) = links g" "votes (add_acks A g) = votes g"
  "ldrs (add_acks A g) = ldrs g" "acks (add_acks A g) = acks g \<union> A"
  by (simp_all add: add_acks_def)

lemma bad_add_acks [simp]: "bad (add_acks A g) a u = bad g a u"
  by (simp add: bad_def)

lemma on_chain_add_acks [simp]: "on_chain (add_acks A g) t m = on_chain g t m"
  by (simp add: on_chain_def)

lemma tree_inv_add_acks [simp]: "tree_inv n (add_acks A g) = tree_inv n g"
  by (simp add: tree_inv_def)

lemma committed_add_acks: "committed n g d \<Longrightarrow> committed n (add_acks A g) d"
  by (auto simp: committed_def)

lemma covered_add_acks: "covered n g t m \<Longrightarrow> covered n (add_acks A g) t m"
  unfolding covered_def add_acks_simps using committed_add_acks by blast

lemma covered_mono: "covered n g t m \<Longrightarrow> t \<le> u \<Longrightarrow> covered n g u m"
  by (force simp: covered_def)

lemma commit_inv_add_acks: "commit_inv n g rf \<Longrightarrow> commit_inv n (add_acks A g) rf"
  using covered_add_acks by (fastforce simp: commit_inv_def)

lemma leader_inv_add_acks: "leader_inv n g s rf \<Longrightarrow> leader_inv n (add_acks A g) s rf"
  unfolding leader_inv_def add_acks_simps by blast

lemma srv_inv_add_acks: "srv_inv n g s rf \<Longrightarrow> srv_inv n (add_acks A g) s rf"
  unfolding srv_inv_def using commit_inv_add_acks leader_inv_add_acks by fastforce

lemma acked_upto_add_acks: "acked_upto g p t k \<Longrightarrow> acked_upto (add_acks A g) p t k"
  by (auto simp: acked_upto_def)

lemma ae_ok_add_acks: "ae_ok n g l t p args \<Longrightarrow> ae_ok n (add_acks A g) l t p args"
  using covered_add_acks by (fastforce simp: ae_ok_def)

lemma is_ok_add_acks: "is_ok n g l t p args \<Longrightarrow> is_ok n (add_acks A g) l t p args"
  using covered_add_acks by (fastforce simp: is_ok_def)

lemma msg_inv_add_acks: "msg_inv n C g \<Longrightarrow> msg_inv n C (add_acks A g)"
  unfolding msg_inv_def
  by (meson ae_ok_add_acks is_ok_add_acks acked_upto_add_acks)

lemma delivered_add_acks: "delivered_ok n g m \<Longrightarrow> delivered_ok n (add_acks A g) m"
  using committed_add_acks by (fastforce simp: delivered_ok_def)

lemma apply_inv_add_acks: "apply_inv n C g \<Longrightarrow> apply_inv n C (add_acks A g)"
  unfolding apply_inv_def using delivered_add_acks by blast

lemma bad_mono: "bad g a u \<Longrightarrow> u \<le> w \<Longrightarrow> bad g a w"
  unfolding bad_def by (meson order_trans)

text \<open>
  A ghost that keeps the message predicates keeps the message invariant; the acknowledgements
  claimed by replies may be re-established from the message they answer.
\<close>

lemma msg_inv_mono:
  fixes C D :: "('c, 's) cluster" and g g' :: "'c ghost"
  assumes m: "msg_inv n C g"
    and same: "ae_reqs D = ae_reqs C" "ae_reps D = ae_reps C" "is_reqs D = is_reqs C"
      "is_reps D = is_reps C"
    and ae: "\<And>l t p (args :: 'c AppendEntriesArgs). ae_ok n g l t p args \<Longrightarrow> ae_ok n g' l t p args"
    and isn: "\<And>l t p (args :: 's InstallSnapShotArgs). is_ok n g l t p args \<Longrightarrow> is_ok n g' l t p args"
    and aek: "\<And>l t p (args :: 'c AppendEntriesArgs). ae_ok n g l t p args \<Longrightarrow>
       acked_upto g p t (matched_upto args) \<Longrightarrow> acked_upto g' p t (matched_upto args)"
    and isk: "\<And>l t p (args :: 's InstallSnapShotArgs). is_ok n g l t p args \<Longrightarrow>
       acked_upto g p t (is_LastIncludedIndex args) \<Longrightarrow>
       acked_upto g' p t (is_LastIncludedIndex args)"
  shows "msg_inv n D g'"
  unfolding msg_inv_def same
proof (intro conjI allI impI)
  fix l t p args assume "(l, t, p, args) \<in> ae_reqs C"
  then show "ae_ok n g' l t p args" by (intro ae msg_invD(1) [OF m])
next
  fix l t p args r assume a: "(l, t, p, args, r) \<in> ae_reps C"
  note ok = msg_invD(2) [OF m a]
  show "ae_ok n g' l t p args" by (rule ae [OF ok])
  show "acked_upto g' p t (matched_upto args)" if "aer_Success r"
    by (rule aek [OF ok msg_invD(3) [OF m a that]])
next
  fix l t p args assume "(l, t, p, args) \<in> is_reqs C"
  then show "is_ok n g' l t p args" by (intro isn msg_invD(4) [OF m])
next
  fix l t p args r assume a: "(l, t, p, args, r) \<in> is_reps C"
  note ok = msg_invD(5) [OF m a]
  show "is_ok n g' l t p args" by (rule isn [OF ok])
  show "acked_upto g' p t (is_LastIncludedIndex args)" if "isr_Term r \<le> t"
    by (rule isk [OF ok msg_invD(6) [OF m a that]])
qed

section \<open>One peer moves\<close>

definition own_acks :: "'c ghost \<Rightarrow> int \<Rightarrow> ('c, 's) Raft \<Rightarrow> (int \<times> int \<times> int) set" where
  "own_acks g s rf =
     {(s, i, currentTerm rf) |i. 1 \<le> currentTerm rf \<and>
        anc (links g) (i, currentTerm rf) (last_node rf)}"

lemma Inv_set_srv:
  fixes C :: "('c, 's) cluster"
  assumes inv: "Inv n C g" and s: "peer n s"
    and g': "g' = add_acks (own_acks g s rf) g"
    and ok: "srv_inv n g' s rf"
    and T: "currentTerm (srv C s) \<le> currentTerm rf"
    and cand: "state rf = Candidate \<Longrightarrow> state (srv C s) = Candidate \<and>
       currentTerm rf = currentTerm (srv C s) \<and> last_node rf = last_node (srv C s)"
    and vf: "currentTerm rf = currentTerm (srv C s) \<and> votedFor rf = votedFor (srv C s) \<or>
       currentTerm (srv C s) < currentTerm rf \<and> votedFor rf = -1"
    and path: "\<And>i t. (s, i, t) \<in> acks g \<Longrightarrow>
       anc (links g) (i, t) (last_node rf) \<or> bad g (i, t) (currentTerm rf)"
  shows "Inv n (set_srv s rf C) g'"
proof -
  note tr = InvD(1) [OF inv] and vi = vote_invD [OF InvD(3) [OF inv]]
    and ai = ack_invD [OF InvD(4) [OF inv]]
  let ?C = "set_srv s rf C"
  have wf: "wf_links (links g)" by (rule tree_invD(1) [OF tr])
  have Tmono: "t \<le> currentTerm (srv C p) \<Longrightarrow> t \<le> currentTerm (srv ?C p)" for t p
    using T by (auto intro: order_trans)
  have candC: "state (srv C c) = Candidate \<and> currentTerm (srv ?C c) = currentTerm (srv C c) \<and>
      last_node (srv ?C c) = last_node (srv C c)" if "state (srv ?C c) = Candidate" for c
    using that cand by (cases "c = s") auto
  have own: "i = j \<and> False" if "(p, i, t) \<in> own_acks g s rf" "t < u" "(p, u, c, v) \<in> votes g"
    for p i j t u c v
    using that vi(1) T by (fastforce simp: own_acks_def)
  have own': "(p, i, t) \<in> own_acks g s rf \<Longrightarrow> t < u \<Longrightarrow> (p, u, c, v) \<notin> votes g" for p i t u c v
    using own by blast
  have 1: "\<forall>p. peer n p \<longrightarrow> srv_inv n g' p (srv ?C p)"
    using InvD(2) [OF inv] ok unfolding g' by (auto intro: srv_inv_add_acks)
  have 2: "vote_inv n ?C g'"
    unfolding vote_inv_def g' add_acks_simps bad_add_acks
  proof (intro conjI allI impI; (elim conjE)?)
    fix p t c v assume pv: "(p, t, c, v) \<in> votes g"
    show "peer n p" "peer n c" "t \<le> currentTerm (srv ?C p)" "t \<le> currentTerm (srv ?C c)"
      "v \<in> nodes (links g)"
      using vi(1) [OF pv] Tmono by auto
    show "lex_le v (last_node (srv ?C c))"
      if "currentTerm (srv ?C c) = t" "state (srv ?C c) = Candidate"
      using candC [OF that(2)] vi(2) [OF pv] that(1) by simp
  next
    show "\<And>p t c v c' v'. (p, t, c, v) \<in> votes g \<Longrightarrow> (p, t, c', v') \<in> votes g \<Longrightarrow> c = c'"
      by (rule vi(3))
  next
    fix p c v assume p: "peer n p" and none: "votedFor (srv ?C p) = -1"
    show "(p, currentTerm (srv ?C p), c, v) \<notin> votes g"
    proof (cases "p = s \<and> currentTerm (srv C s) < currentTerm rf")
      case True
      then show ?thesis using vi(1) [of p "currentTerm rf" c v] by fastforce
    next
      case False
      then show ?thesis using vi(4) [OF p] none vf by (auto split: if_splits)
    qed
  next
    fix p assume p: "peer n p" and some: "votedFor (srv ?C p) \<noteq> -1"
    then show "\<exists>v. (p, currentTerm (srv ?C p), votedFor (srv ?C p), v) \<in> votes g"
      using vi(5) [OF p] vf by (auto split: if_splits)
  next
    fix p u c v i t
    assume pv: "(p, u, c, v) \<in> votes g" and a: "(p, i, t) \<in> acks g \<union> own_acks g s rf" and "t < u"
    then show "anc (links g) (i, t) v \<or> bad g (i, t) u"
      using vi(6) [OF pv] own' by blast
  qed
  have 3: "ack_inv n ?C g'"
    unfolding ack_inv_def g' add_acks_simps bad_add_acks
  proof (intro conjI allI impI)
    fix p i t assume a: "(p, i, t) \<in> acks g \<union> own_acks g s rf"
    show "peer n p" using a ai(1) s by (auto simp: own_acks_def)
    show "(i, t) \<in> nodes (links g)"
    proof (cases "(p, i, t) \<in> acks g")
      case False
      then have "anc (links g) (i, t) (last_node rf)" using a by (auto simp: own_acks_def)
      moreover have "last_node rf \<in> nodes (links g)" using srv_invD(5) [OF ok] by (simp add: g')
      ultimately show ?thesis by (rule anc_node [OF wf])
    qed (use ai(1) in blast)
    show "1 \<le> t" using a ai(1) by (auto simp: own_acks_def)
    show "t \<le> currentTerm (srv ?C p)" using a ai(1) T by (force simp: own_acks_def)
    show "anc (links g) (i, t) (last_node (srv ?C p)) \<or> bad g (i, t) (currentTerm (srv ?C p))"
      using a ai(2) [of p i t] path [of i t] by (auto simp: own_acks_def)
  next
    fix p i
    assume "peer n p \<and> 1 \<le> currentTerm (srv ?C p) \<and>
      anc (links g) (i, currentTerm (srv ?C p)) (last_node (srv ?C p))"
    then show "(p, i, currentTerm (srv ?C p)) \<in> acks g \<union> own_acks g s rf"
      using ai(3) [of p i] by (cases "p = s") (auto simp: own_acks_def)
  qed
  have elect: "elected n g' t l L p" if "elected n g t l L p" for t l L p
    using that own' unfolding elected_def g' add_acks_simps bad_add_acks by blast
  have 4: "ldr_inv n ?C g'"
    unfolding ldr_inv_def
  proof (intro allI impI conjI)
    fix t l L assume "(t, l, L) \<in> ldrs g'"
    then have L: "(t, l, L) \<in> ldrs g" by (simp add: g')
    show "t \<le> currentTerm (srv ?C l)" using ldr_invD(1) [OF InvD(5) [OF inv] L] Tmono by blast
    show "\<exists>Q. majority n Q \<and> (\<forall>p\<in>Q. elected n g' t l L p)"
      using ldr_invD(2) [OF InvD(5) [OF inv] L] elect by blast
  qed
  have 5: "count_inv n ?C g'"
    using InvD(6) [OF inv] candC unfolding count_inv_def g' add_acks_simps set_srv_simps(2,3)
    by metis
  have 6: "rv_inv n ?C g'"
    using InvD(7) [OF inv] candC Tmono unfolding rv_inv_def g' add_acks_simps set_srv_simps(4,5)
    by metis
  have 7: "msg_inv n ?C g'"
    using msg_inv_add_acks [OF InvD(8) [OF inv]] by (simp add: msg_inv_def g')
  have 8: "apply_inv n ?C g'"
    using apply_inv_add_acks [OF InvD(9) [OF inv]] by (simp add: apply_inv_def g')
  show ?thesis
    unfolding Inv_def using tr 1 2 3 4 5 6 7 8 by (simp add: g')
qed

text \<open>The same for a peer whose term, vote, role and last node stay as they are.\<close>

lemma own_acks_old:
  assumes "ack_inv n C g" "peer n s" "currentTerm rf = currentTerm (srv C s)"
    "last_node rf = last_node (srv C s)"
  shows "add_acks (own_acks g s rf) g = g"
proof -
  have "own_acks g s rf \<subseteq> acks g"
    using ack_invD(3) [OF assms(1,2)] assms(3,4) by (auto simp: own_acks_def)
  then have "acks g \<union> own_acks g s rf = acks g" by blast
  then show ?thesis by (simp add: add_acks_def)
qed

lemma Inv_set_same:
  assumes inv: "Inv n C g" and s: "peer n s" and ok: "srv_inv n g s rf"
    and same: "currentTerm rf = currentTerm (srv C s)" "votedFor rf = votedFor (srv C s)"
      "last_node rf = last_node (srv C s)"
    and cand: "state rf = Candidate \<Longrightarrow> state (srv C s) = Candidate"
  shows "Inv n (set_srv s rf C) g"
proof -
  note g = own_acks_old [OF InvD(4) [OF inv] s same(1,3)]
  show ?thesis
    by (rule Inv_set_srv [OF inv s, of g])
      (use g ok same cand ack_invD(2) [OF InvD(4) [OF inv]] in auto)
qed

section \<open>A vote is given\<close>

lemma Inv_grant:
  assumes inv: "Inv n C g" and s: "peer n s" and c: "peer n c"
    and rf: "rf = (srv C s)\<lparr>votedFor := c, persister := pz, electionGen := eg\<rparr>"
    and ok: "srv_inv n g s rf"
    and free: "votedFor (srv C s) = -1 \<or> votedFor (srv C s) = c"
    and Tc: "currentTerm (srv C s) \<le> currentTerm (srv C c)"
    and lex: "currentTerm (srv C c) = currentTerm (srv C s) \<Longrightarrow> state (srv C c) = Candidate \<Longrightarrow>
       lex_le (last_node (srv C s)) (last_node (srv C c))"
    and g': "g' = g\<lparr>votes := insert (s, currentTerm (srv C s), c, last_node (srv C s)) (votes g)\<rparr>"
  shows "Inv n (set_srv s rf C) g'"
proof -
  let ?C = "set_srv s rf C" and ?t = "currentTerm (srv C s)" and ?v = "last_node (srv C s)"
  note vi = vote_invD [OF InvD(3) [OF inv]] and ai = ack_invD [OF InvD(4) [OF inv]]
  have rfs [simp]: "currentTerm rf = ?t" "last_node rf = ?v" "state rf = state (srv C s)"
    using rf by (simp_all add: last_node_def)
  have same: "currentTerm (srv ?C p) = currentTerm (srv C p)"
    "last_node (srv ?C p) = last_node (srv C p)" "state (srv ?C p) = state (srv C p)" for p
    by simp_all
  have gs [simp]: "links g' = links g" "ldrs g' = ldrs g" "acks g' = acks g"
    "votes g' = insert (s, ?t, c, ?v) (votes g)" "bad g' = bad g"
    using g' by (simp_all add: fun_eq_iff bad_def)
  have cov: "covered n g' t m = covered n g t m" "committed n g' d = committed n g d"
    "on_chain g' t m = on_chain g t m" "acked_upto g' p t k = acked_upto g p t k" for t m d p k
    by (simp_all add: covered_def committed_def on_chain_def acked_upto_def)
  have sv: "srv_inv n g' p rf' = srv_inv n g p rf'" for p and rf' :: "('a, 'b) Raft"
    by (simp add: srv_inv_def commit_inv_def leader_inv_def cov)
  have sub: "?v \<in> nodes (links g)" by (rule srv_invD(5) [OF InvD(2) [OF inv s]])
  have fresh: "c' = c" if "(s, ?t, c', v') \<in> votes g" for c' v'
    using that vi(4,5) [OF s] vi(3) free by metis
  have cpos: "c \<noteq> -1" using c by (simp add: peer_def)
  have 1: "tree_inv n g'" using InvD(1) [OF inv] by (simp add: tree_inv_def)
  have 2: "\<forall>p. peer n p \<longrightarrow> srv_inv n g' p (srv ?C p)"
    using InvD(2) [OF inv] ok sv by auto
  have 3: "vote_inv n ?C g'"
    unfolding vote_inv_def
  proof (intro conjI allI impI; (elim conjE)?)
    fix p t c' v assume pv: "(p, t, c', v) \<in> votes g'"
    show "peer n p" "peer n c'" "t \<le> currentTerm (srv ?C p)" "t \<le> currentTerm (srv ?C c')"
      "v \<in> nodes (links g')"
    proof -
      have "peer n p \<and> peer n c' \<and> t \<le> currentTerm (srv C p) \<and> t \<le> currentTerm (srv C c') \<and>
          v \<in> nodes (links g)"
      proof (cases "(p, t, c', v) \<in> votes g")
        case True
        then show ?thesis by (rule vi(1))
      next
        case False
        then have "p = s" "t = ?t" "c' = c" "v = ?v" using pv by auto
        then show ?thesis using s c Tc sub by simp
      qed
      then show "peer n p" "peer n c'" "t \<le> currentTerm (srv ?C p)" "t \<le> currentTerm (srv ?C c')"
        "v \<in> nodes (links g')" unfolding same gs by blast+
    qed
    show "lex_le v (last_node (srv ?C c'))"
      if "currentTerm (srv ?C c') = t" "state (srv ?C c') = Candidate"
    proof (cases "(p, t, c', v) \<in> votes g")
      case True
      then show ?thesis using vi(2) that unfolding same by blast
    next
      case False
      then have "p = s" "t = ?t" "c' = c" "v = ?v" using pv by auto
      then show ?thesis using that lex unfolding same by blast
    qed
  next
    fix p t c' v c'' v'
    assume "(p, t, c', v) \<in> votes g'" "(p, t, c'', v') \<in> votes g'"
    then show "c' = c''" using vi(3) fresh unfolding gs insert_iff prod.inject by blast
  next
    fix p c' v assume p: "peer n p" and none: "votedFor (srv ?C p) = -1"
    then have "p \<noteq> s" using rf cpos by auto
    then show "(p, currentTerm (srv ?C p), c', v) \<notin> votes g'" using vi(4) [OF p] none by simp
  next
    fix p assume p: "peer n p" and some: "votedFor (srv ?C p) \<noteq> -1"
    then show "\<exists>v. (p, currentTerm (srv ?C p), votedFor (srv ?C p), v) \<in> votes g'"
      using vi(5) [OF p] rf by (cases "p = s") auto
  next
    fix p u c' v i t
    assume "(p, u, c', v) \<in> votes g'" "(p, i, t) \<in> acks g'" "t < u"
    then show "anc (links g') (i, t) v \<or> bad g' (i, t) u"
      using vi(6) [of p u c' v i t] ai(2) [of s i t] unfolding gs insert_iff prod.inject by blast
  qed
  have 4: "ack_inv n ?C g'"
    using InvD(4) [OF inv] by (simp add: ack_inv_def)
  have el: "elected n g' t l L p" if "elected n g t l L p" for t l L p
    using that unfolding elected_def by auto
  have 5: "ldr_inv n ?C g'"
    using InvD(5) [OF inv] el unfolding ldr_inv_def by (simp only: gs same) blast
  have 6: "count_inv n ?C g'"
    using InvD(6) [OF inv] unfolding count_inv_def set_srv_simps(2,3) same gs
    by (meson insertI2)
  have 7: "rv_inv n ?C g'"
    using InvD(7) [OF inv] unfolding rv_inv_def set_srv_simps(4,5) same gs
    by (meson insertI2)
  have 8: "msg_inv n ?C g'"
    using InvD(8) [OF inv] by (simp add: msg_inv_def ae_ok_def is_ok_def cov)
  have 9: "apply_inv n ?C g'"
    using InvD(9) [OF inv] by (simp add: apply_inv_def delivered_ok_def cov)
  show ?thesis unfolding Inv_def using 1 2 3 4 5 6 7 8 9 by simp
qed

section \<open>A candidacy\<close>

lemma Inv_candidate:
  assumes inv: "Inv n C g" and s: "peer n s"
    and rf: "state rf = Candidate" "currentTerm rf = currentTerm (srv C s)"
      "votedFor rf = votedFor (srv C s)" "last_node rf = last_node (srv C s)"
    and fol: "state (srv C s) = Follower"
    and ok: "srv_inv n g s rf"
    and own: "\<And>p v. (p, currentTerm rf, s, v) \<in> votes g \<Longrightarrow> v = last_node rf"
    and self: "(s, currentTerm rf, s, v0) \<in> votes g"
    and noreq: "\<And>p args. (s, currentTerm rf, p, args) \<notin> rv_reqs C"
  shows "Inv n (start_asks n s (currentTerm rf) (set_srv s rf C)) g"
proof -
  let ?C = "start_asks n s (currentTerm rf) (set_srv s rf C)"
  have same: "currentTerm (srv ?C p) = currentTerm (srv C p)"
    "votedFor (srv ?C p) = votedFor (srv C p)"
    "last_node (srv ?C p) = last_node (srv C p)" for p
    using rf by simp_all
  have st: "state (srv ?C p) = (if p = s then Candidate else state (srv C p))" for p
    using rf by simp
  note vi = vote_invD [OF InvD(3) [OF inv]]
  have 2: "\<forall>p. peer n p \<longrightarrow> srv_inv n g p (srv ?C p)"
    using InvD(2) [OF inv] ok by simp
  have 3: "vote_inv n ?C g"
    unfolding vote_inv_def same
  proof (intro conjI allI impI; (elim conjE)?)
    fix p t c v assume pv: "(p, t, c, v) \<in> votes g"
    from vi(1) [OF pv] show "peer n p" "peer n c" "t \<le> currentTerm (srv C p)"
      "t \<le> currentTerm (srv C c)" "v \<in> nodes (links g)" by blast+
    assume cur: "currentTerm (srv C c) = t" "state (srv ?C c) = Candidate"
    show "lex_le v (last_node (srv C c))"
    proof (cases "c = s")
      case True
      then have "v = last_node rf" using own pv cur(1) rf(2) by simp
      then show ?thesis using True rf(4) by simp
    next
      case False
      then show ?thesis using vi(2) [OF pv cur(1)] cur(2) st by simp
    qed
  qed (use vi(3-6) in blast)+
  have 4: "ack_inv n ?C g" using InvD(4) [OF inv] unfolding ack_inv_def same .
  have 5: "ldr_inv n ?C g" using InvD(5) [OF inv] unfolding ldr_inv_def same .
  have 6: "count_inv n ?C g"
    unfolding count_inv_def
  proof (intro conjI allI impI; (elim conjE)?)
    fix c assume c: "peer n c" "state (srv ?C c) = Candidate"
    show "\<exists>Q. Q \<subseteq> {0..<n} \<and> c \<in> Q \<and>
        int (card Q) = numGetVoted ?C (c, currentTerm (srv ?C c)) \<and>
        (\<forall>p\<in>Q. (\<exists>v. (p, currentTerm (srv ?C c), c, v) \<in> votes g) \<and>
              (p = c \<or> asks ?C (c, currentTerm (srv ?C c), p) = AskDone))"
    proof (cases "c = s")
      case True
      then show ?thesis
        using self s by (intro exI [of _ "{s}"]) (auto simp: peer_def)
    next
      case False
      then show ?thesis
        using InvD(6) [OF inv] c unfolding count_inv_def by simp
    qed
  next
    fix c t p args
    assume "peer n c" "asks ?C (c, t, p) = AskReady \<or> asks ?C (c, t, p) = AskSent args"
    then have "peer n p \<and> p \<noteq> c"
      using InvD(6) [OF inv] unfolding count_inv_def
      by (simp split: if_splits) blast
    then show "peer n p" "p \<noteq> c" by simp_all
  qed
  have 7: "rv_inv n ?C g"
    unfolding rv_inv_def same
  proof (intro conjI allI impI; (elim conjE)?)
    fix c t p args assume rq: "(c, t, p, args) \<in> rv_reqs ?C"
    then have rq': "(c, t, p, args) \<in> rv_reqs C" by simp
    from InvD(7) [OF inv] this show "peer n c" "rv_Term args = t" "rv_CandidateId args = c"
      "t \<le> currentTerm (srv C c)"
      unfolding rv_inv_def by blast+
    assume cur: "currentTerm (srv C c) = t" "state (srv ?C c) = Candidate"
    then have "c \<noteq> s" using noreq rq' rf(2) by auto
    then show "(rv_LastLogIndex args, rv_LastLogTerm args) = last_node (srv C c)"
      using InvD(7) [OF inv] rq' cur st unfolding rv_inv_def by metis
  next
    fix c t p r assume "(c, t, p, r) \<in> rv_reps ?C" "rvr_VoteGranted r"
    then have "(c, t, p, r) \<in> rv_reps C" "rvr_VoteGranted r" by simp_all
    then show "\<exists>v. (p, t, c, v) \<in> votes g" using InvD(7) [OF inv] unfolding rv_inv_def by blast
  qed
  have 8: "msg_inv n ?C g" using InvD(8) [OF inv] by (simp add: msg_inv_def)
  have 9: "apply_inv n ?C g" using InvD(9) [OF inv] by (simp add: apply_inv_def)
  show ?thesis unfolding Inv_def using InvD(1) [OF inv] 2 3 4 5 6 7 8 9 by blast
qed

section \<open>An election is won\<close>

lemma elected_terms_unique:
  assumes inv: "Inv n C g" and L: "(t, l, L) \<in> ldrs g"
    and R: "majority n R" "\<forall>p\<in>R. \<exists>v. (p, t, c, v) \<in> votes g"
  shows "l = c"
proof -
  obtain Q where Q: "majority n Q" "\<forall>p\<in>Q. elected n g t l L p"
    using ldr_invD(2) [OF InvD(5) [OF inv] L] by blast
  obtain p where "p \<in> Q" "p \<in> R" using majority_common [OF Q(1) R(1)] by blast
  then show ?thesis
    using Q(2) R(2) vote_invD(3) [OF InvD(3) [OF inv]] unfolding elected_def by blast
qed

lemma Inv_elect:
  fixes C :: "('c, 's) cluster" and g :: "'c ghost"
  assumes inv: "Inv n C g" and c: "peer n c"
    and cand: "state (srv C c) = Candidate" and t: "t = currentTerm (srv C c)"
    and rf: "rf = (srv C c)\<lparr>state := Leader, nextIndex := ni, matchIndex := replicate (nat n) 0\<rparr>"
    and len: "length ni = nat n"
    and Q: "majority n Q" "\<forall>p\<in>Q. \<exists>v. (p, t, c, v) \<in> votes g"
    and g': "g' = g\<lparr>ldrs := insert (t, c, last_node (srv C c)) (ldrs g)\<rparr>"
  shows "Inv n (set_srv c rf C) g'"
proof -
  let ?C = "set_srv c rf C" and ?L = "last_node (srv C c)"
  note tr = InvD(1) [OF inv] and si = srv_invD [OF InvD(2) [OF inv c]]
    and vi = vote_invD [OF InvD(3) [OF inv]]
  have noldr: "(t, l, L) \<notin> ldrs g" for l L
    using elected_terms_unique [OF inv _ Q] si(11) [OF cand] t by blast
  have rfs: "currentTerm rf = t" "last_node rf = ?L" "votedFor rf = votedFor (srv C c)"
    "lastLogIndex rf = lastLogIndex (srv C c)"
    using rf t by (simp_all add: last_node_def lastLogIndex_def)
  have same: "currentTerm (srv ?C p) = currentTerm (srv C p)"
    "votedFor (srv ?C p) = votedFor (srv C p)"
    "last_node (srv ?C p) = last_node (srv C p)" for p
    using rfs t by simp_all
  have st: "state (srv ?C p) = Candidate \<Longrightarrow> p \<noteq> c \<and> state (srv C p) = Candidate" for p
    using rf by (simp split: if_splits)
  have gs [simp]: "links g' = links g" "votes g' = votes g" "acks g' = acks g"
    "ldrs g' = insert (t, c, ?L) (ldrs g)" using g' by simp_all
  have bad: "bad g a u \<Longrightarrow> bad g' a u" for a u unfolding bad_def gs by blast
  have chain: "on_chain g u m \<Longrightarrow> on_chain g' u m" for u m unfolding on_chain_def gs by blast
  have cov: "covered n g' u m = covered n g u m" "committed n g' d = committed n g d"
    "acked_upto g' p u k = acked_upto g p u k" for u m d p k
    by (simp_all add: covered_def committed_def acked_upto_def)
  have T1: "1 \<le> t"
  proof -
    have "0 \<le> snd ?L"
      using nodes_bounds(2) [OF tree_invD(1) [OF tr], of "fst ?L" "snd ?L"] si(5) by simp
    then show ?thesis using si(9) [OF cand] t by simp
  qed
  have nonode: "(i, t) \<notin> nodes (links g)" for i
    using link_on_chain [OF tr _ T1] noldr by blast
  have 1: "tree_inv n g'"
    unfolding tree_inv_def gs
  proof (intro conjI allI impI; (elim conjE)?)
    show "wf_links (links g)" by (rule tree_invD(1) [OF tr])
    fix t1 l L l' L'
    assume "(t1, l, L) \<in> insert (t, c, ?L) (ldrs g)" "(t1, l', L') \<in> insert (t, c, ?L) (ldrs g)"
    then show "l = l'" "L = L'" using noldr tree_invD(2) [OF tr] by blast+
  next
    fix t1 l L assume "(t1, l, L) \<in> insert (t, c, ?L) (ldrs g)"
    then show "peer n l" "1 \<le> t1" "L \<in> nodes (links g)" "snd L < t1"
      using tree_invD(3) [OF tr, of t1 l L] c T1 si(5) si(9) [OF cand] t by blast+
  next
    fix i t1 c1 p1 assume "(i, t1, c1, p1) \<in> links g"
    then show "\<exists>l L. (t1, l, L) \<in> insert (t, c, ?L) (ldrs g) \<and> anc (links g) L (i - 1, p1) \<and>
        ((i - 1, p1) = L \<or> p1 = t1)" using tree_invD(4) [OF tr] by blast
  next
    fix i j t1 assume "(i, t1) \<in> nodes (links g)" "(j, t1) \<in> nodes (links g)" "1 \<le> t1" "i \<le> j"
    then show "anc (links g) (i, t1) (j, t1)" by (rule tree_invD(5) [OF tr])
  qed
  have cm: "commit_inv n g' rf' = commit_inv n g rf'" for rf' :: "('c, 's) Raft"
    by (simp add: commit_inv_def cov)
  have li: "leader_inv n g p rf' \<Longrightarrow> leader_inv n g' p rf'" for p and rf' :: "('c, 's) Raft"
    unfolding leader_inv_def gs by blast
  have sv: "srv_inv n g' p (srv C p)" if p: "peer n p" "p \<noteq> c" for p
    using InvD(2) [OF inv p(1)] p(2) li unfolding srv_inv_def cm gs by blast
  have me: "srv_inv n g' c rf"
  proof -
    have "raft_wf n c rf" using si(1) rf len by (simp add: raft_wf_def)
    moreover have "durable rf" using si(2) rf durable_cong [of rf "srv C c"] by simp
    moreover have "commit_inv n g' rf"
      using si(7) rf rfs t unfolding cm by (simp add: commit_inv_def)
    moreover have "leader_inv n g' c rf"
      unfolding leader_inv_def rfs gs using nonode rf lastLogIndex_bounds(2) [OF si(1)]
      by (auto simp: peer_def)
    ultimately show ?thesis
      using si(3-6) rf rfs t by (simp add: srv_inv_def)
  qed
  have 2: "\<forall>p. peer n p \<longrightarrow> srv_inv n g' p (srv ?C p)" using sv me by simp
  have 3: "vote_inv n ?C g'"
    unfolding vote_inv_def same gs
  proof (intro conjI allI impI; (elim conjE)?)
    fix p u d v assume pv: "(p, u, d, v) \<in> votes g"
    from vi(1) [OF pv] show "peer n p" "peer n d" "u \<le> currentTerm (srv C p)"
      "u \<le> currentTerm (srv C d)" "v \<in> nodes (links g)" by blast+
    assume "currentTerm (srv C d) = u" "state (srv ?C d) = Candidate"
    then show "lex_le v (last_node (srv C d))" using vi(2) [OF pv] st by blast
  qed (use vi(3-6) bad in blast)+
  have 4: "ack_inv n ?C g'"
    using InvD(4) [OF inv] bad unfolding ack_inv_def same gs by blast
  have el: "elected n g' u l L p" if "elected n g u l L p" for u l L p
    using that bad unfolding elected_def gs by blast
  have new: "elected n g' t c ?L p" if p: "p \<in> Q" for p
  proof -
    obtain v where v: "(p, t, c, v) \<in> votes g" using Q(2) p by blast
    have "bad g a (t - 1)" if "bad g a t" for a
      using that noldr unfolding bad_def by (metis order_le_less zle_diff1_eq)
    then have "\<forall>i t0. (p, i, t0) \<in> acks g \<and> t0 < t \<longrightarrow>
        anc (links g) (i, t0) v \<or> bad g' (i, t0) (t - 1)"
      using vi(6) [OF v] bad by blast
    then show ?thesis
      using v vi(1) [OF v] vi(2) [OF v _ cand] t unfolding elected_def gs by blast
  qed
  have 5: "ldr_inv n ?C g'"
    unfolding ldr_inv_def same
  proof (intro allI impI conjI)
    fix u l L assume uL: "(u, l, L) \<in> ldrs g'"
    show "u \<le> currentTerm (srv C l)"
      using uL ldr_invD(1) [OF InvD(5) [OF inv], of u l L] t by auto
    show "\<exists>Q. majority n Q \<and> (\<forall>p\<in>Q. elected n g' u l L p)"
    proof (cases "(u, l, L) \<in> ldrs g")
      case True
      then show ?thesis using ldr_invD(2) [OF InvD(5) [OF inv]] el by blast
    next
      case False
      then have "u = t" "l = c" "L = ?L" using uL by auto
      then show ?thesis using Q(1) new by blast
    qed
  qed
  have 6: "count_inv n ?C g'"
    using InvD(6) [OF inv] st unfolding count_inv_def same gs set_srv_simps(2,3) by blast
  have 7: "rv_inv n ?C g'"
    using InvD(7) [OF inv] st unfolding rv_inv_def same gs set_srv_simps(4,5) by blast
  have ao: "ae_ok n g l u p args \<Longrightarrow> ae_ok n g' l u p args" for l u p and args :: "'c AppendEntriesArgs"
    unfolding ae_ok_def gs cov by blast
  have io: "is_ok n g l u p args \<Longrightarrow> is_ok n g' l u p args" for l u p and args :: "'s InstallSnapShotArgs"
    using chain unfolding is_ok_def gs cov by blast
  have 8: "msg_inv n ?C g'"
    by (rule msg_inv_mono [OF InvD(8) [OF inv]]) (simp_all add: ao io cov)
  have 9: "apply_inv n ?C g'"
    using InvD(9) [OF inv] by (simp add: apply_inv_def delivered_ok_def cov)
  show ?thesis unfolding Inv_def using 1 2 3 4 5 6 7 8 9 by blast
qed

section \<open>The leader creates an entry\<close>

lemma ae_top_term:
  assumes tr: "tree_inv n g" and ok: "ae_ok n g l t p args" and L: "leader_inv n g l rf"
    and t: "currentTerm rf = t"
  shows "anc (links g) (ae_top args) (last_node rf)"
proof -
  obtain L where L0: "(t, l, L) \<in> ldrs g" "ae_top args = L \<or> snd (ae_top args) = t"
    using ok by (auto simp: ae_ok_def)
  obtain L' where L': "(t, l, L') \<in> ldrs g" "anc (links g) L' (last_node rf)"
    "\<And>i. (i, t) \<in> nodes (links g) \<Longrightarrow> anc (links g) (i, t) (last_node rf)"
    using L t by (auto simp: leader_inv_def)
  have "L = L'" using tree_invD(2) [OF tr L0(1) L'(1)] by simp
  moreover have "ae_top args \<in> nodes (links g)" using ok by (simp add: ae_ok_def)
  ultimately show ?thesis using L0(2) L' by (metis prod.collapse)
qed

lemma is_node_term:
  assumes tr: "tree_inv n g" and ok: "is_ok n g l t p args" and L: "leader_inv n g l' rf"
    and t: "currentTerm rf = t"
  shows "anc (links g) (is_node args) (last_node rf)"
proof -
  obtain l0 L0 where L0: "(t, l0, L0) \<in> ldrs g"
    "anc (links g) (is_node args) L0 \<or> snd (is_node args) = t"
    "is_node args \<in> nodes (links g)"
    using ok by (auto simp: is_ok_def on_chain_def)
  obtain L' where L': "(t, l', L') \<in> ldrs g" "anc (links g) L' (last_node rf)"
    "\<And>i. (i, t) \<in> nodes (links g) \<Longrightarrow> anc (links g) (i, t) (last_node rf)"
    using L t by (auto simp: leader_inv_def)
  have "L0 = L'" using tree_invD(2) [OF tr L0(1) L'(1)] by simp
  then show ?thesis using L0(2,3) L' anc_trans by (metis prod.collapse)
qed

lemma fst_last_node: "fst (last_node rf) = lastLogIndex rf"
  by (simp add: last_node_def top_of_def lastLogIndex_def)

lemma fst_ae_top: "fst (ae_top args) = matched_upto args"
  by (simp add: ae_top_def top_of_def ae_log_def matched_upto_def)

lemma Inv_append_own:
  fixes C :: "('c, 's) cluster" and g :: "'c ghost"
  assumes inv: "Inv n C g" and s: "peer n s" and ldr: "state (srv C s) = Leader"
    and t: "t = currentTerm (srv C s)"
    and rf: "rf = (srv C s)\<lparr>log := log (srv C s) @ [\<lparr>le_Term = t, le_Command = cmd\<rparr>],
                           persister := ps, replicateCh := rc\<rparr>"
    and dur: "durable rf"
    and i: "i = lastLogIndex (srv C s) + 1"
    and g': "g' = g\<lparr>links := insert (i, t, cmd, snd (last_node (srv C s))) (links g),
                   acks := insert (s, i, t) (acks g)\<rparr>"
  shows "Inv n (set_srv s rf C) g'"
proof -
  let ?C = "set_srv s rf C" and ?last = "last_node (srv C s)"
  note tr = InvD(1) [OF inv] and si = srv_invD [OF InvD(2) [OF inv s]]
    and vi = vote_invD [OF InvD(3) [OF inv]] and ai = ack_invD [OF InvD(4) [OF inv]]
  note wf = tree_invD(1) [OF tr] and li = si(8) [OF ldr]
  obtain L where L: "(t, s, L) \<in> ldrs g" "anc (links g) L ?last" "?last = L \<or> snd ?last = t"
    and allt: "\<And>k. (k, t) \<in> nodes (links g) \<Longrightarrow> anc (links g) (k, t) ?last"
    using li t unfolding leader_inv_def by blast
  have t1: "1 \<le> t" using tree_invD(3) [OF tr L(1)] by simp
  have lasti: "?last = (i - 1, snd ?last)"
    using i fst_last_node [of "srv C s"] by (metis add_diff_cancel_right' prod.collapse)
  have i1: "1 \<le> i" using lastLogIndex_bounds(2) [OF si(1)] i by simp
  have new: "(i, t) \<notin> nodes (links g)"
  proof
    assume "(i, t) \<in> nodes (links g)"
    from anc_fst_le [OF wf allt [OF this]] show False using i fst_last_node [of "srv C s"] by simp
  qed
  have gs [simp]: "links g' = insert (i, t, cmd, snd ?last) (links g)" "votes g' = votes g"
    "ldrs g' = ldrs g" "acks g' = insert (s, i, t) (acks g)" using g' by simp_all
  have wf': "wf_links (links g')"
    unfolding gs using wf new i1 t1 si(5,6) lasti nodes_bounds(2) [OF wf, of "fst ?last" "snd ?last"] t
    by (intro wf_links_insert) auto
  have sub: "links g \<subseteq> links g'" by auto
  have nsub: "m \<in> nodes (links g) \<Longrightarrow> m \<in> nodes (links g')" for m using nodes_mono [OF sub] by blast
  have nnew: "m \<in> nodes (links g') \<Longrightarrow> m = (i, t) \<or> m \<in> nodes (links g)" for m
    by (auto simp: nodes_def)
  have up: "anc (links g) a b \<Longrightarrow> anc (links g') a b" for a b by (rule anc_mono [OF sub])
  have stable: "anc (links g') a b = anc (links g) a b" if "b \<in> nodes (links g)" for a b
    unfolding gs by (rule anc_insert [OF wf new that])
  have Lstable: "anc (links g') a K = anc (links g) a K" if "(u, l, K) \<in> ldrs g" for a u l K
    using stable tree_invD(3) [OF tr that] by blast
  have link: "anc (links g') ?last (i, t)"
    using anc_link [of i t cmd "snd ?last" "links g'"] lasti by simp
  have rfs: "currentTerm rf = t" "state rf = Leader" "votedFor rf = votedFor (srv C s)"
    "lastIncludedIndex rf = lastIncludedIndex (srv C s)" "commitIndex rf = commitIndex (srv C s)"
    "lastApplied rf = lastApplied (srv C s)" "matchIndex rf = matchIndex (srv C s)"
    "lastLogIndex rf = i"
    using rf t ldr i by (simp_all add: lastLogIndex_def)
  have lastrf: "last_node rf = (i, t)"
    using rf i by (simp add: last_node_def top_of_def lastLogIndex_def)
  have logs: "links_of (lastIncludedIndex rf) (log rf) \<subseteq> links g'"
  proof -
    have "log (srv C s) \<noteq> []" using si(1) by auto
    then show ?thesis
      using si(4) rf i t lasti
      by (auto simp: links_of_snoc last_node_def top_of_def lastLogIndex_def)
  qed
  have bad: "bad g' a u = bad g a u" for a u
    unfolding bad_def gs(3) using Lstable by metis
  have com: "committed n g d \<Longrightarrow> committed n g' d" for d unfolding committed_def gs by blast
  have cov: "covered n g u m \<Longrightarrow> covered n g' u m" for u m
    unfolding covered_def using com up by blast
  have chain: "on_chain g u m \<Longrightarrow> on_chain g' u m" for u m
    unfolding on_chain_def gs(3) using nsub up by blast
  have 1: "tree_inv n g'"
    unfolding tree_inv_def gs(3)
  proof (intro conjI allI impI; (elim conjE)?)
    show "wf_links (links g')" by (rule wf')
    fix u l K l' K' assume "(u, l, K) \<in> ldrs g" "(u, l', K') \<in> ldrs g"
    then show "l = l'" "K = K'" using tree_invD(2) [OF tr] by blast+
  next
    fix u l K assume "(u, l, K) \<in> ldrs g"
    then show "peer n l" "1 \<le> u" "K \<in> nodes (links g')" "snd K < u"
      using tree_invD(3) [OF tr] nsub by blast+
  next
    fix k u c p assume "(k, u, c, p) \<in> links g'"
    then consider "k = i" "u = t" "p = snd ?last" | "(k, u, c, p) \<in> links g" by auto
    then show "\<exists>l K. (u, l, K) \<in> ldrs g \<and> anc (links g') K (k - 1, p) \<and> ((k - 1, p) = K \<or> p = u)"
    proof cases
      case 1
      then show ?thesis using L lasti up by metis
    next
      case 2
      then show ?thesis using tree_invD(4) [OF tr 2] up by blast
    qed
  next
    fix k j u assume k: "(k, u) \<in> nodes (links g')" and j: "(j, u) \<in> nodes (links g')"
      and u: "1 \<le> u" "k \<le> j"
    show "anc (links g') (k, u) (j, u)"
    proof (cases "(k, u) \<in> nodes (links g) \<and> (j, u) \<in> nodes (links g)")
      case True
      then show ?thesis using tree_invD(5) [OF tr] u up by blast
    next
      case False
      then have "u = t" using nnew [OF k] nnew [OF j] by auto
      have below: "k' < i" if "(k', t) \<in> nodes (links g)" for k'
        using anc_fst_le [OF wf allt [OF that]] i fst_last_node [of "srv C s"] by simp
      have "j = i" using False nnew [OF k] nnew [OF j] \<open>u = t\<close> u(2) below by force
      show ?thesis
      proof (cases "k = i")
        case True
        then show ?thesis using \<open>j = i\<close> by simp
      next
        case False
        then have "anc (links g') (k, t) ?last" using nnew [OF k] \<open>u = t\<close> allt up by blast
        then show ?thesis using link anc_trans \<open>j = i\<close> \<open>u = t\<close> by blast
      qed
    qed
  qed
  have unl: "p = s" if "leader_inv n g p rf'" "currentTerm rf' = t" for p and rf' :: "('c, 's) Raft"
    using that tree_invD(2) [OF tr L(1)] unfolding leader_inv_def by blast
  have le: "leader_inv n g' p (srv C p)" if p: "leader_inv n g p (srv C p)" "p \<noteq> s" "peer n p" for p
  proof -
    have "currentTerm (srv C p) \<noteq> t" using unl p by blast
    then have "(k, currentTerm (srv C p)) \<in> nodes (links g') \<Longrightarrow>
        (k, currentTerm (srv C p)) \<in> nodes (links g)" for k
      using nnew by blast
    then show ?thesis
      using p(1) up unfolding leader_inv_def gs(3,4) by fast
  qed
  have cm: "commit_inv n g' rf'" if "commit_inv n g rf'" for rf' :: "('c, 's) Raft"
    using that cov up unfolding commit_inv_def by blast
  have sv: "srv_inv n g' p (srv C p)" if p: "peer n p" "p \<noteq> s" for p
    using InvD(2) [OF inv p(1)] le p cm nsub sub unfolding srv_inv_def gs(3) by blast
  have me: "srv_inv n g' s rf"
  proof -
    have "raft_wf n s rf" using si(1) rf by (auto simp: raft_wf_def nth_append)
    moreover have "commit_inv n g' rf"
      using si(7) cov up link anc_trans t unfolding commit_inv_def rfs lastrf by blast
    moreover have "leader_inv n g' s rf"
      unfolding leader_inv_def rfs lastrf
    proof (intro conjI allI impI)
      show "\<exists>L. (t, s, L) \<in> ldrs g' \<and> anc (links g') L (i, t) \<and> ((i, t) = L \<or> snd (i, t) = t)"
        using L up link anc_trans by (metis gs(3) snd_conv)
      fix k assume "(k, t) \<in> nodes (links g')"
      then show "anc (links g') (k, t) (i, t)" using nnew allt up link anc_trans anc_refl by metis
    next
      fix p assume p: "peer n p \<and> p \<noteq> s"
      then have m: "matchIndex (srv C s) ! nat p < i"
        "\<And>k. k \<le> matchIndex (srv C s) ! nat p \<Longrightarrow> (k, t) \<in> nodes (links g) \<Longrightarrow> (p, k, t) \<in> acks g"
        using li t i unfolding leader_inv_def by auto
      then show "matchIndex (srv C s) ! nat p \<le> i" by simp
      fix k assume k: "k \<le> matchIndex (srv C s) ! nat p \<and> (k, t) \<in> nodes (links g')"
      then have "(k, t) \<in> nodes (links g)" using nnew [of "(k, t)"] m(1) by auto
      then have "(p, k, t) \<in> acks g" using m(2) k by blast
      then show "(p, k, t) \<in> acks g'" by simp
    qed
    moreover have "(i, t) \<in> nodes (links g')" by (auto simp: nodes_def)
    ultimately show ?thesis using dur logs rfs lastrf t1 by (simp add: srv_inv_def del: gs)
  qed
  have 2: "\<forall>p. peer n p \<longrightarrow> srv_inv n g' p (srv ?C p)" using sv me by simp
  have Ts: "currentTerm (srv ?C p) = currentTerm (srv C p)"
    "votedFor (srv ?C p) = votedFor (srv C p)" "state (srv ?C p) = state (srv C p)" for p
    using rfs t ldr by simp_all
  have lasts: "state (srv C p) = Candidate \<Longrightarrow> last_node (srv ?C p) = last_node (srv C p)" for p
    using ldr by auto
  have 3: "vote_inv n ?C g'"
    unfolding vote_inv_def Ts gs(2) bad
  proof (intro conjI allI impI; (elim conjE)?)
    fix p u c v assume pv: "(p, u, c, v) \<in> votes g"
    from vi(1) [OF pv] show "peer n p" "peer n c" "u \<le> currentTerm (srv C p)"
      "u \<le> currentTerm (srv C c)" "v \<in> nodes (links g')" using nsub by blast+
    assume "currentTerm (srv C c) = u" "state (srv C c) = Candidate"
    then show "lex_le v (last_node (srv ?C c))" using vi(2) [OF pv] lasts by metis
  next
    fix p u c v k u0 assume pv: "(p, u, c, v) \<in> votes g" and "(p, k, u0) \<in> acks g'" "u0 < u"
    moreover have "\<not> t < u" if "p = s" using vi(1) [OF pv] that t by auto
    ultimately have "(p, k, u0) \<in> acks g" by auto
    then show "anc (links g') (k, u0) v \<or> bad g (k, u0) u"
      using vi(6) [OF pv _ \<open>u0 < u\<close>] up by blast
  qed (use vi(3-5) in blast)+
  have 4: "ack_inv n ?C g'"
    unfolding ack_inv_def Ts bad
  proof (intro conjI allI impI; (elim conjE)?)
    fix p k u assume a: "(p, k, u) \<in> acks g'"
    show "peer n p" "(k, u) \<in> nodes (links g')" "1 \<le> u" "u \<le> currentTerm (srv C p)"
    proof -
      have "peer n p \<and> (k, u) \<in> nodes (links g') \<and> 1 \<le> u \<and> u \<le> currentTerm (srv C p)"
      proof (cases "(p, k, u) \<in> acks g")
        case True
        then show ?thesis using ai(1) nsub by blast
      next
        case False
        then show ?thesis using a s t t1 by (auto simp: nodes_def)
      qed
      then show "peer n p" "(k, u) \<in> nodes (links g')" "1 \<le> u" "u \<le> currentTerm (srv C p)"
        by blast+
    qed
    show "anc (links g') (k, u) (last_node (srv ?C p)) \<or> bad g (k, u) (currentTerm (srv C p))"
    proof (cases "(p, k, u) \<in> acks g")
      case True
      have l: "anc (links g') ?last (last_node rf)" using link lastrf by simp
      have "anc (links g') (k, u) (last_node (srv ?C p))"
        if "anc (links g) (k, u) (last_node (srv C p))"
        using up [OF that] anc_trans [OF _ l] by (cases "p = s") simp_all
      then show ?thesis using ai(2) [OF True] by blast
    next
      case False
      then show ?thesis using a lastrf by auto
    qed
  next
    fix p k assume p: "peer n p" "1 \<le> currentTerm (srv C p)"
      and k: "anc (links g') (k, currentTerm (srv C p)) (last_node (srv ?C p))"
    show "(p, k, currentTerm (srv C p)) \<in> acks g'"
    proof (cases "p = s")
      case False
      then show ?thesis
        using ai(3) [OF p] k stable srv_invD(5) [OF InvD(2) [OF inv p(1)]] by simp
    next
      case True
      then have "anc (links g') (k, t) (i, t)" using k lastrf t by simp
      then have "k = i \<or> anc (links g') (k, t) ?last"
        using anc_step_cases [OF wf', of i t cmd "snd ?last"] lasti by auto
      then show ?thesis using True ai(3) [OF s] stable si(5) t t1 by auto
    qed
  qed
  have el: "elected n g' u l K p" if e: "elected n g u l K p" "peer n p" for u l K p
  proof -
    obtain v where v: "(p, u, l, v) \<in> votes g" "lex_le v K" "v \<in> nodes (links g)"
      "\<forall>k t0. (p, k, t0) \<in> acks g \<and> t0 < u \<longrightarrow> anc (links g) (k, t0) v \<or> bad g (k, t0) (u - 1)"
      using e(1) by (auto simp: elected_def)
    have "(p, k, t0) \<in> acks g" if "(p, k, t0) \<in> acks g'" "t0 < u" for k t0
      using that vi(1) [OF v(1)] t by auto
    then show ?thesis
      using v up nsub unfolding elected_def bad gs(2) by metis
  qed
  have 5: "ldr_inv n ?C g'"
    unfolding ldr_inv_def Ts gs(3)
  proof (intro allI impI conjI)
    fix u l K assume uK: "(u, l, K) \<in> ldrs g"
    show "u \<le> currentTerm (srv C l)" by (rule ldr_invD(1) [OF InvD(5) [OF inv] uK])
    obtain Q where Q: "majority n Q" "\<forall>p\<in>Q. elected n g u l K p"
      using ldr_invD(2) [OF InvD(5) [OF inv] uK] by blast
    moreover have "peer n p" if "p \<in> Q" for p
      using Q(1) that by (auto simp: majority_def peer_def)
    ultimately show "\<exists>Q. majority n Q \<and> (\<forall>p\<in>Q. elected n g' u l K p)" using el by blast
  qed
  have 6: "count_inv n ?C g'"
    using InvD(6) [OF inv] unfolding count_inv_def Ts gs(2) set_srv_simps(2,3) .
  have 7: "rv_inv n ?C g'"
    using InvD(7) [OF inv] lasts unfolding rv_inv_def Ts gs(2) set_srv_simps(4,5) by metis
  have 8: "msg_inv n ?C g'"
  proof (rule msg_inv_mono [OF InvD(8) [OF inv]])
    fix l u p and args :: "'c AppendEntriesArgs" assume ok: "ae_ok n g l u p args"
    show "ae_ok n g' l u p args"
      using ok cov up nsub sub unfolding ae_ok_def gs(3) by blast
    assume k: "acked_upto g p u (matched_upto args)"
    show "acked_upto g' p u (matched_upto args)"
      unfolding acked_upto_def
    proof (intro allI impI)
      fix j assume j: "j \<le> matched_upto args \<and> (j, u) \<in> nodes (links g')"
      have "(j, u) \<noteq> (i, t)"
      proof
        assume eq: "(j, u) = (i, t)"
        then have "l = s" using ok tree_invD(2) [OF tr L(1)] by (auto simp: ae_ok_def)
        then have "anc (links g) (ae_top args) ?last"
          using ae_top_term [OF tr ok, of "srv C s"] li t eq by simp
        from anc_fst_le [OF wf this] show False
          using j eq i by (simp add: fst_ae_top fst_last_node)
      qed
      then show "(p, j, u) \<in> acks g'" using k j nnew by (auto simp: acked_upto_def)
    qed
  next
    fix l u p and args :: "'s InstallSnapShotArgs" assume ok: "is_ok n g l u p args"
    show "is_ok n g' l u p args"
      using ok cov chain unfolding is_ok_def gs(3) by blast
    assume k: "acked_upto g p u (is_LastIncludedIndex args)"
    show "acked_upto g' p u (is_LastIncludedIndex args)"
      unfolding acked_upto_def
    proof (intro allI impI)
      fix j assume j: "j \<le> is_LastIncludedIndex args \<and> (j, u) \<in> nodes (links g')"
      have "(j, u) \<noteq> (i, t)"
      proof
        assume eq: "(j, u) = (i, t)"
        then have "anc (links g) (is_node args) ?last"
          using is_node_term [OF tr ok li] t by simp
        from anc_fst_le [OF wf this] show False
          using j eq i by (simp add: is_node_def fst_last_node)
      qed
      then show "(p, j, u) \<in> acks g'" using k j nnew by (auto simp: acked_upto_def)
    qed
  qed simp_all
  have 9: "apply_inv n ?C g'"
    using InvD(9) [OF inv] com up sub
    unfolding apply_inv_def delivered_ok_def set_srv_simps by blast
  show ?thesis unfolding Inv_def using 1 2 3 4 5 6 7 8 9 by blast
qed

end
