(* ===== verification/RaftSteps.thy ===== *)
theory RaftSteps
  imports RaftPreserve
begin

text \<open>
  Every step of the cluster keeps the invariant: one lemma per rule of \<open>cstep\<close>, over the case
  lemmas of the handlers (\<open>RaftLocal\<close>) and the moves of the invariant (\<open>RaftPreserve\<close>).
\<close>

section \<open>Shared facts\<close>

lemma Inv_wf: "Inv n C g \<Longrightarrow> wf_links (links g)"
  by (rule tree_invD(1) [OF InvD(1)])

lemma srv_wf: "Inv n C g \<Longrightarrow> peer n s \<Longrightarrow> raft_wf n s (srv C s)"
  by (rule srv_invD(1) [OF InvD(2)])

lemma peer_bounds: "peer n s \<Longrightarrow> 0 \<le> s" "peer n s \<Longrightarrow> s < n"
  by (simp_all add: peer_def)

text \<open>A change of the messages and of the applier's channel only.\<close>

lemma Inv_msgs:
  assumes "Inv n C g" "srv D = srv C" "count_inv n D g" "rv_inv n D g" "msg_inv n D g" "apply_inv n D g"
  shows "Inv n D g"
proof -
  have "vote_inv n D g = vote_inv n C g" "ack_inv n D g = ack_inv n C g" "ldr_inv n D g = ldr_inv n C g"
    by (simp_all only: vote_inv_def ack_inv_def ldr_inv_def assms(2))
  then show ?thesis using assms by (simp add: Inv_def)
qed

lemma count_inv_upd [simp]:
  "count_inv n (C\<lparr>rv_reqs := R1\<rparr>) g = count_inv n C g"
  "count_inv n (C\<lparr>rv_reps := R2\<rparr>) g = count_inv n C g"
  "count_inv n (C\<lparr>ae_reqs := R3\<rparr>) g = count_inv n C g"
  "count_inv n (C\<lparr>ae_reps := R4\<rparr>) g = count_inv n C g"
  "count_inv n (C\<lparr>is_reqs := R5\<rparr>) g = count_inv n C g"
  "count_inv n (C\<lparr>is_reps := R6\<rparr>) g = count_inv n C g"
  "count_inv n (C\<lparr>applying := A\<rparr>) g = count_inv n C g"
  "count_inv n (C\<lparr>applyCh := H\<rparr>) g = count_inv n C g"
  by (simp_all add: count_inv_def)

lemma rv_inv_upd [simp]:
  "rv_inv n (C\<lparr>asks := K\<rparr>) g = rv_inv n C g" "rv_inv n (C\<lparr>numGetVoted := N\<rparr>) g = rv_inv n C g"
  "rv_inv n (C\<lparr>ae_reqs := R3\<rparr>) g = rv_inv n C g" "rv_inv n (C\<lparr>ae_reps := R4\<rparr>) g = rv_inv n C g"
  "rv_inv n (C\<lparr>is_reqs := R5\<rparr>) g = rv_inv n C g" "rv_inv n (C\<lparr>is_reps := R6\<rparr>) g = rv_inv n C g"
  "rv_inv n (C\<lparr>applying := A\<rparr>) g = rv_inv n C g" "rv_inv n (C\<lparr>applyCh := H\<rparr>) g = rv_inv n C g"
  by (simp_all add: rv_inv_def)

lemma msg_inv_upd [simp]:
  "msg_inv n (C\<lparr>asks := K\<rparr>) g = msg_inv n C g" "msg_inv n (C\<lparr>numGetVoted := N\<rparr>) g = msg_inv n C g"
  "msg_inv n (C\<lparr>rv_reqs := R1\<rparr>) g = msg_inv n C g" "msg_inv n (C\<lparr>rv_reps := R2\<rparr>) g = msg_inv n C g"
  "msg_inv n (C\<lparr>applying := A\<rparr>) g = msg_inv n C g" "msg_inv n (C\<lparr>applyCh := H\<rparr>) g = msg_inv n C g"
  by (simp_all add: msg_inv_def)

lemma apply_inv_upd [simp]:
  "apply_inv n (C\<lparr>asks := K\<rparr>) g = apply_inv n C g"
  "apply_inv n (C\<lparr>numGetVoted := N\<rparr>) g = apply_inv n C g"
  "apply_inv n (C\<lparr>rv_reqs := R1\<rparr>) g = apply_inv n C g"
  "apply_inv n (C\<lparr>rv_reps := R2\<rparr>) g = apply_inv n C g"
  "apply_inv n (C\<lparr>ae_reqs := R3\<rparr>) g = apply_inv n C g"
  "apply_inv n (C\<lparr>ae_reps := R4\<rparr>) g = apply_inv n C g"
  "apply_inv n (C\<lparr>is_reqs := R5\<rparr>) g = apply_inv n C g"
  "apply_inv n (C\<lparr>is_reps := R6\<rparr>) g = apply_inv n C g"
  "apply_inv n (C\<lparr>applying := A\<rparr>) g = apply_inv n C g"
  by (simp_all add: apply_inv_def)

lemma root_anc:
  assumes wf: "wf_links E"
  shows "k \<in> nodes E \<Longrightarrow> anc E (0, 0) k"
proof (induction "nat (fst k)" arbitrary: k rule: less_induct)
  case less
  show ?case
  proof (cases "k = (0, 0)")
    case False
    then obtain c p where lk: "(fst k, snd k, c, p) \<in> E"
      using less.prems by (cases k) (auto simp: nodes_def)
    have "anc E (0, 0) (fst k - 1, p)"
      using less.hyps [of "(fst k - 1, p)"] wf_linksD [OF wf lk] by simp
    then show ?thesis using anc_link [OF lk] anc_trans by (metis prod.collapse)
  qed simp
qed

lemma anc_root: "wf_links E \<Longrightarrow> anc E a (0, 0) \<Longrightarrow> 0 \<le> fst a \<Longrightarrow> a = (0, 0)"
  using anc_eq [of E a "(0, 0)"] by simp

lemma anc_fst_nonneg: "wf_links E \<Longrightarrow> anc E a k \<Longrightarrow> k \<in> nodes E \<Longrightarrow> 0 \<le> fst a \<and> 0 \<le> snd a"
  using anc_node [of E a k] nodes_bounds [of E "fst a" "snd a"] by simp

lemma covered_anc:
  assumes "wf_links (links g)" "covered n g t m" "anc (links g) a m" "m \<in> nodes (links g)"
  shows "covered n g t a"
proof (cases "m = (0, 0)")
  case True
  then have "a = (0, 0)"
    using anc_root [OF assms(1)] anc_fst_nonneg [OF assms(1,3,4)] assms(3) by simp
  then show ?thesis by (simp add: covered_def)
next
  case False
  then obtain d where d: "committed n g d" "snd d \<le> t" "anc (links g) m d"
    using assms(2) unfolding covered_def by blast
  have "anc (links g) a d" using assms(3) d(3) by (rule anc_trans)
  then show ?thesis unfolding covered_def using d by blast
qed

text \<open>The entry at \<open>lastIncludedIndex\<close> and the commit point of a peer.\<close>

definition base_node :: "('c, 's) Raft \<Rightarrow> node" where
  "base_node rf = (lastIncludedIndex rf, lastIncludeTerm rf)"

lemma base_node_at: "raft_wf n s rf \<Longrightarrow> base_node rf = node_at (lastIncludedIndex rf) (log rf) 0"
  by (auto simp: base_node_def node_at_def dest: raft_wfD)

lemma base_anc_last:
  assumes "srv_inv n g s rf"
  shows "anc (links g) (base_node rf) (last_node rf)"
  using path_anc_top [OF srv_invD(4) [OF assms], of 0] raft_wfD(6) [OF srv_invD(1) [OF assms]]
  by (simp add: base_node_at [OF srv_invD(1) [OF assms]] last_node_def)

lemma commit_node:
  assumes wf: "wf_links (links g)" and "srv_inv n g s rf"
  obtains m where "fst m = commitIndex rf" "anc (links g) m (last_node rf)"
    "covered n g (currentTerm rf) m" "m \<in> nodes (links g)" "lastIncludedIndex rf \<le> fst m"
    "lastApplied rf \<le> fst m"
proof -
  from srv_invD(7) [OF assms(2)] obtain m where m: "fst m = commitIndex rf"
    "anc (links g) m (last_node rf)" "covered n g (currentTerm rf) m"
    "lastIncludedIndex rf \<le> fst m" "lastApplied rf \<le> fst m"
    unfolding commit_inv_def by auto
  show thesis by (rule that [OF m(1-3) anc_node [OF wf m(2) srv_invD(5) [OF assms(2)]] m(4,5)])
qed

lemma base_covered:
  assumes wf: "wf_links (links g)" and ok: "srv_inv n g s rf"
  shows "covered n g (currentTerm rf) (base_node rf)"
proof -
  obtain m where m: "fst m = commitIndex rf" "anc (links g) m (last_node rf)"
    "covered n g (currentTerm rf) m" "m \<in> nodes (links g)" "lastIncludedIndex rf \<le> fst m"
    using commit_node [OF wf ok] by blast
  have "anc (links g) (base_node rf) m"
    by (rule anc_linear [OF wf base_anc_last [OF ok] m(2)]) (use m(5) in \<open>simp add: base_node_def\<close>)
  then show ?thesis using covered_anc [OF wf m(3) _ m(4)] by blast
qed

section \<open>A peer that steps down, or only changes its bookkeeping\<close>

text \<open>What a section that leaves log, commit point and leader bookkeeping alone may change.\<close>

definition same_log :: "('c, 's) Raft \<Rightarrow> ('c, 's) Raft \<Rightarrow> bool" where
  "same_log rf rf' \<longleftrightarrow>
     peers rf' = peers rf \<and> me rf' = me rf \<and> log rf' = log rf \<and>
     lastIncludedIndex rf' = lastIncludedIndex rf \<and> lastIncludeTerm rf' = lastIncludeTerm rf \<and>
     commitIndex rf' = commitIndex rf \<and> lastApplied rf' = lastApplied rf \<and>
     length (nextIndex rf') = length (nextIndex rf) \<and> matchIndex rf' = matchIndex rf"

lemma same_log_last: "same_log rf rf' \<Longrightarrow> last_node rf' = last_node rf"
  by (simp add: same_log_def last_node_def)

lemma srv_inv_follower:
  assumes wf: "wf_links (links g)" and ok: "srv_inv n g s rf" and same: "same_log rf rf'" "durable rf'"
    and T: "currentTerm rf \<le> currentTerm rf'" and st: "state rf' = Follower"
  shows "srv_inv n g s rf'"
proof -
  obtain m where m: "fst m = commitIndex rf" "anc (links g) m (last_node rf)"
    "covered n g (currentTerm rf) m" "lastIncludedIndex rf \<le> fst m" "lastApplied rf \<le> fst m"
    using commit_node [OF wf ok] by blast
  have "commit_inv n g rf'"
    unfolding commit_inv_def
    using m covered_mono [OF m(3) T] same_log_last [OF same(1)] same(1) by (auto simp: same_log_def)
  then show ?thesis
    using srv_invD(1-6) [OF ok] same T st same_log_last [OF same(1)]
    by (simp add: srv_inv_def same_log_def raft_wf_def)
qed

lemma srv_inv_same:
  assumes ok: "srv_inv n g s rf" and same: "same_log rf rf'" "durable rf'"
    and "currentTerm rf' = currentTerm rf" "state rf' = state rf" "votedFor rf' = votedFor rf"
  shows "srv_inv n g s rf'"
  using assms
  by (simp add: srv_inv_def same_log_def last_node_def raft_wf_def commit_inv_def leader_inv_def
      lastLogIndex_def)

lemma no_own_acks:
  assumes "wf_links (links g)" "last_node rf = m" "snd m < currentTerm rf"
  shows "own_acks g s rf = {}"
proof -
  have "\<not> anc (links g) (i, currentTerm rf) (last_node rf)" for i
  proof
    assume "anc (links g) (i, currentTerm rf) (last_node rf)"
    from anc_measure(2) [OF assms(1) this] show False using assms(2,3) by simp
  qed
  then show ?thesis by (simp add: own_acks_def)
qed

lemma Inv_follower:
  assumes inv: "Inv n C g" and s: "peer n s" and same: "same_log (srv C s) rf" and dur: "durable rf"
    and st: "state rf = Follower"
    and vf: "currentTerm rf = currentTerm (srv C s) \<and> votedFor rf = votedFor (srv C s) \<or>
       currentTerm (srv C s) < currentTerm rf \<and> votedFor rf = -1"
  shows "Inv n (set_srv s rf C) g"
proof (cases "currentTerm rf = currentTerm (srv C s)")
  case True
  have "srv_inv n g s rf"
    by (rule srv_inv_follower [OF Inv_wf [OF inv] InvD(2) [OF inv s] same dur _ st]) (use True in simp)
  then show ?thesis
    using True vf st same_log_last [OF same] by (intro Inv_set_same [OF inv s]) auto
next
  case False
  then have T: "currentTerm (srv C s) < currentTerm rf" using vf by auto
  note ok = InvD(2) [OF inv s] and last = same_log_last [OF same]
  have "own_acks g s rf = {}"
    by (rule no_own_acks [OF Inv_wf [OF inv] last]) (use srv_invD(6) [OF ok] T in simp)
  then have g: "add_acks (own_acks g s rf) g = g" by (simp add: add_acks_def)
  show ?thesis
  proof (rule Inv_set_srv [OF inv s, of g])
    show "srv_inv n g s rf" by (rule srv_inv_follower [OF Inv_wf [OF inv] ok same dur _ st]) (use T in simp)
    show "anc (links g) (i, t) (last_node rf) \<or> bad g (i, t) (currentTerm rf)"
      if "(s, i, t) \<in> acks g" for i t
      using ack_invD(2) [OF InvD(4) [OF inv] that] bad_mono T last by fastforce
  qed (use g vf T st in auto)
qed

lemma Inv_same:
  assumes inv: "Inv n C g" and s: "peer n s" and same: "same_log (srv C s) rf" "durable rf"
    and "currentTerm rf = currentTerm (srv C s)" "state rf = state (srv C s)"
      "votedFor rf = votedFor (srv C s)"
  shows "Inv n (set_srv s rf C) g"
  using assms same_log_last [OF same(1)]
  by (intro Inv_set_same [OF inv s] srv_inv_same [OF InvD(2) [OF inv s] same]) auto

lemma same_log_simps [simp]:
  "same_log rf rf" "same_log rf (persist rf)" "same_log rf (step_down t rf)"
  "same_log rf (accept_leader t rf)" "same_log rf (persist (accept_leader t rf))"
  "same_log rf (vote_term args rf)" "same_log rf (persist (vote_term args rf))"
  by (simp_all add: same_log_def)

text \<open>The three ways a handler takes a higher term.\<close>

lemma Inv_persist: "Inv n C g \<Longrightarrow> peer n s \<Longrightarrow> Inv n (set_srv s (persist (srv C s)) C) g"
  by (rule Inv_same) simp_all

lemma Inv_step_down:
  "Inv n C g \<Longrightarrow> peer n s \<Longrightarrow> currentTerm (srv C s) < t \<Longrightarrow> Inv n (set_srv s (step_down t (srv C s)) C) g"
  by (rule Inv_follower) simp_all

lemma Inv_accept_leader:
  "Inv n C g \<Longrightarrow> peer n s \<Longrightarrow> currentTerm (srv C s) \<le> t \<Longrightarrow>
     Inv n (set_srv s (persist (accept_leader t (srv C s))) C) g"
  by (rule Inv_follower) auto

lemma Inv_vote_term:
  assumes "Inv n C g" "peer n s"
  shows "Inv n (set_srv s (persist (vote_term args (srv C s))) C) g"
proof (cases "rv_Term args > currentTerm (srv C s)")
  case True
  then show ?thesis by (intro Inv_follower [OF assms]) auto
next
  case False
  then show ?thesis by (intro Inv_same [OF assms]) auto
qed

section \<open>Votes\<close>

lemma last_node_eq: "last_node rf = (lastLogIndex rf, le_Term (last (log rf)))"
  by (simp add: last_node_def top_of_def lastLogIndex_def)

lemma srv_inv_vote:
  assumes "srv_inv n g s rf" "same_log rf rf'" "durable rf'" "currentTerm rf' = currentTerm rf"
    "state rf' = state rf" "state rf = Candidate \<Longrightarrow> votedFor rf' = s"
  shows "srv_inv n g s rf'"
  using assms
  by (simp add: srv_inv_def same_log_def last_node_def raft_wf_def commit_inv_def leader_inv_def
      lastLogIndex_def)

lemma rv_invD:
  assumes "rv_inv n C g"
  shows "\<And>c t p args. (c, t, p, args) \<in> rv_reqs C \<Longrightarrow>
      peer n c \<and> rv_Term args = t \<and> rv_CandidateId args = c \<and> t \<le> currentTerm (srv C c)"
    "\<And>c t p args. (c, t, p, args) \<in> rv_reqs C \<Longrightarrow> currentTerm (srv C c) = t \<Longrightarrow>
      state (srv C c) = Candidate \<Longrightarrow>
      (rv_LastLogIndex args, rv_LastLogTerm args) = last_node (srv C c)"
    "\<And>c t p r. (c, t, p, r) \<in> rv_reps C \<Longrightarrow> rvr_VoteGranted r \<Longrightarrow> \<exists>v. (p, t, c, v) \<in> votes g"
  using assms unfolding rv_inv_def by blast+

lemma Inv_rv_rep:
  assumes inv: "Inv n C g" and r: "rvr_VoteGranted r \<Longrightarrow> \<exists>v. (p, t, c, v) \<in> votes g"
  shows "Inv n (C\<lparr>rv_reps := insert (c, t, p, r) (rv_reps C)\<rparr>) g"
proof (rule Inv_msgs [OF inv])
  show "rv_inv n (C\<lparr>rv_reps := insert (c, t, p, r) (rv_reps C)\<rparr>) g"
    using rv_invD [OF InvD(7) [OF inv]] r unfolding rv_inv_def by simp blast
qed (use InvD [OF inv] in simp_all)

lemma set_srv_twice [simp]: "set_srv s rf (set_srv s rf' C) = set_srv s rf C"
  by (simp add: set_srv_def)

lemma Inv_rv_handle:
  assumes inv: "Inv n C g" and p: "peer n p" and req: "(c, t, p, args) \<in> rv_reqs C"
    and run: "RequestVote args (srv C p) = Some (rf, reply)"
  shows "\<exists>g'. Inv n ((set_srv p rf C)\<lparr>rv_reps := insert (c, t, p, reply) (rv_reps C)\<rparr>) g' \<and>
    ldrs g \<subseteq> ldrs g'"
proof -
  have reply: "Inv n ((set_srv p rf C)\<lparr>rv_reps := insert (c, t, p, reply) (rv_reps C)\<rparr>) g'"
    if "Inv n (set_srv p rf C) g'" "rvr_VoteGranted reply \<Longrightarrow> \<exists>v. (p, t, c, v) \<in> votes g'" for g'
    using Inv_rv_rep [OF that] by simp
  define rf1 where "rf1 = persist (vote_term args (srv C p))"
  define C1 where "C1 = set_srv p rf1 C"
  have inv1: "Inv n C1 g" unfolding C1_def rf1_def by (rule Inv_vote_term [OF inv p])
  note rq = rv_invD(1) [OF InvD(7) [OF inv] req]
  note wf = srv_wf [OF inv p]
  from wf show ?thesis
  proof (cases rule: RequestVote_cases [where args = args])
    case stale
    then have "rf = persist (srv C p)" "\<not> rvr_VoteGranted reply" using run by auto
    then show ?thesis using reply Inv_persist [OF inv p] by blast
  next
    case deny
    then have "rf = rf1" "\<not> rvr_VoteGranted reply" using run by (auto simp: rf1_def)
    then show ?thesis using reply inv1 C1_def by blast
  next
    case grant
    have P: "srv C1 p = rf1" and last1: "last_node rf1 = last_node (srv C p)"
      and T1: "currentTerm rf1 = t"
      using same_log_last [OF same_log_simps(7)] grant(1) rq by (simp_all add: C1_def rf1_def)
    let ?X = "(vote_term args (srv C p))\<lparr>votedFor := c, electionGen := electionGen (srv C p) + 1\<rparr>"
    have X: "rf = persist ?X" using grant(4) run rq by simp
    have "persist ?X = (srv C1 p)\<lparr>votedFor := c, persister := persister (persist ?X),
        electionGen := electionGen (srv C p) + 1\<rparr>"
      by (simp add: P rf1_def persist_def)
    then obtain pz eg where rf: "rf = (srv C1 p)\<lparr>votedFor := c, persister := pz, electionGen := eg\<rparr>"
      unfolding X by blast
    have dur: "durable rf" using grant(4) run by auto
    have vf: "votedFor rf1 = -1 \<or> votedFor rf1 = c" using grant(3) rq by (simp add: rf1_def)
    let ?v = "(p, currentTerm (srv C1 p), c, last_node (srv C1 p))"
    have "Inv n (set_srv p rf C1) (g\<lparr>votes := insert ?v (votes g)\<rparr>)"
    proof (rule Inv_grant [OF inv1 p _ rf _ _ _ _ refl])
      show "peer n c" using rq by simp
      have ok1: "srv_inv n g p rf1" using InvD(2) [OF inv1 p] by (simp add: P)
      have "state rf1 = Candidate \<Longrightarrow> c = p"
        using srv_invD(10) [OF ok1] vf p by (auto simp: peer_def)
      then show "srv_inv n g p rf"
        by (intro srv_inv_vote [OF ok1 _ dur]) (simp_all add: rf P same_log_def)
      show "votedFor (srv C1 p) = -1 \<or> votedFor (srv C1 p) = c" using vf by (simp add: P)
      show "currentTerm (srv C1 p) \<le> currentTerm (srv C1 c)"
        using rq T1 by (simp add: P) (simp add: C1_def)
      show "lex_le (last_node (srv C1 p)) (last_node (srv C1 c))"
        if "currentTerm (srv C1 c) = currentTerm (srv C1 p)" "state (srv C1 c) = Candidate"
      proof (cases "c = p")
        case False
        then have "(rv_LastLogIndex args, rv_LastLogTerm args) = last_node (srv C c)"
          using rv_invD(2) [OF InvD(7) [OF inv] req] that T1 by (simp add: P) (simp add: C1_def)
        moreover have "srv C1 c = srv C c" using False by (simp add: C1_def)
        ultimately show ?thesis
          using grant(2) last1 by (auto simp: P log_ok_def lex_le_def last_node_eq)
      qed simp
    qed
    moreover have "set_srv p rf C1 = set_srv p rf C" by (simp add: C1_def)
    moreover have "\<exists>v. (p, t, c, v) \<in> votes (g\<lparr>votes := insert ?v (votes g)\<rparr>)"
      using P T1 by auto
    ultimately show ?thesis
      using reply [of "g\<lparr>votes := insert ?v (votes g)\<rparr>"] by (intro exI conjI) auto
  qed
qed

section \<open>Elections\<close>

lemma srv_inv_candidate:
  assumes "srv_inv n g s rf" "same_log rf rf'" "durable rf'" "currentTerm rf' = currentTerm rf"
    "state rf' = Candidate" "votedFor rf' = s" "snd (last_node rf) < currentTerm rf"
    "\<And>L. (currentTerm rf, s, L) \<notin> ldrs g"
  shows "srv_inv n g s rf'"
  using assms
  by (simp add: srv_inv_def same_log_def last_node_def raft_wf_def commit_inv_def)

lemma Inv_timeout:
  assumes inv: "Inv n C g" and s: "peer n s" and fire: "ticker_fire record (srv C s) = (rf, Some t)"
  shows "\<exists>g'. Inv n (start_asks n s t (set_srv s rf C)) g' \<and> ldrs g \<subseteq> ldrs g'"
proof -
  define R where "R = srv C s"
  define T where "T = currentTerm R + 1"
  have me: "me R = s" using srv_wf [OF inv s] by (auto simp: R_def)
  have rf: "rf = persist (R\<lparr>state := Candidate, currentTerm := T, votedFor := s\<rparr>)" and t: "t = T"
    using fire me by (auto simp: ticker_fire_def Let_def R_def T_def split: if_splits)
  define rf0 where "rf0 = step_down T R"
  define C0 where "C0 = set_srv s rf0 C"
  have inv0: "Inv n C0 g"
    unfolding C0_def rf0_def R_def by (rule Inv_step_down [OF inv s]) (simp add: T_def R_def)
  have S0: "srv C0 s = rf0" by (simp add: C0_def)
  define pz where "pz = persister (persist (rf0\<lparr>votedFor := s\<rparr>))"
  define rf1 where "rf1 = rf0\<lparr>votedFor := s, persister := pz, electionGen := electionGen rf0\<rparr>"
  have rf1: "rf1 = persist (rf0\<lparr>votedFor := s\<rparr>)" by (simp add: rf1_def pz_def persist_def)
  define g1 where "g1 = g\<lparr>votes := insert (s, currentTerm (srv C0 s), s, last_node (srv C0 s)) (votes g)\<rparr>"
  define C1 where "C1 = set_srv s rf1 C0"
  have S1: "srv C1 s = rf1" by (simp add: C1_def)
  have inv1: "Inv n C1 g1"
    unfolding C1_def
  proof (rule Inv_grant [OF inv0 s s _ _ _ _ _ g1_def])
    show "rf1 = (srv C0 s)\<lparr>votedFor := s, persister := pz, electionGen := electionGen rf0\<rparr>"
      by (simp add: rf1_def S0)
    have "srv_inv n g s rf0" using InvD(2) [OF inv0 s] by (simp add: S0)
    then show "srv_inv n g s rf1"
      by (rule srv_inv_vote) (simp_all add: rf1 same_log_def rf0_def)
  qed (simp_all add: S0 rf0_def)
  have last: "last_node rf1 = last_node R" "last_node rf0 = last_node R" "last_node rf = last_node R"
    by (simp_all add: rf1 rf0_def rf last_node_def)
  have cur: "currentTerm rf1 = T" "currentTerm rf0 = T" "currentTerm rf = T" "state rf1 = Follower"
    by (simp_all add: rf1 rf0_def rf)
  have g1: "votes g1 = insert (s, T, s, last_node R) (votes g)" "ldrs g1 = ldrs g"
    by (simp_all add: g1_def S0 cur last)
  have fresh: "(p, T, s, v) \<notin> votes g" "(T, s, L) \<notin> ldrs g" "(s, T, p, args) \<notin> rv_reqs C"
    for p v L args
    using vote_invD(1) [OF InvD(3) [OF inv], of p T s v] ldr_invD(1) [OF InvD(5) [OF inv], of T s L]
      rv_invD(1) [OF InvD(7) [OF inv], of s T p args] by (auto simp: T_def R_def)
  have "Inv n (start_asks n s (currentTerm rf) (set_srv s rf C1)) g1"
  proof (rule Inv_candidate [OF inv1 s])
    show "srv_inv n g1 s rf"
    proof (rule srv_inv_candidate)
      show "srv_inv n g1 s rf1" using InvD(2) [OF inv1 s] by (simp add: S1)
      show "snd (last_node rf1) < currentTerm rf1"
        using srv_invD(6) [OF InvD(2) [OF inv s]] by (simp add: last cur T_def R_def)
    qed (simp_all add: rf cur g1 fresh, simp add: same_log_def rf1 rf0_def)
    show "v = last_node rf" if "(p, currentTerm rf, s, v) \<in> votes g1" for p v
      using that fresh(1) by (auto simp: g1 cur last)
    show "(s, currentTerm rf, s, last_node R) \<in> votes g1" by (simp add: g1 cur)
    show "(s, currentTerm rf, p, args) \<notin> rv_reqs C1" for p args
      using fresh(3) by (simp add: C1_def C0_def cur)
  qed (simp_all add: S1 cur last, simp_all add: rf rf1)
  then show ?thesis by (intro exI [of _ g1]) (simp add: C1_def C0_def t cur g1)
qed

lemma count_invD:
  assumes "count_inv n C g"
  shows "\<And>c. peer n c \<Longrightarrow> state (srv C c) = Candidate \<Longrightarrow>
      \<exists>Q. Q \<subseteq> {0..<n} \<and> c \<in> Q \<and> int (card Q) = numGetVoted C (c, currentTerm (srv C c)) \<and>
        (\<forall>p\<in>Q. (\<exists>v. (p, currentTerm (srv C c), c, v) \<in> votes g) \<and>
               (p = c \<or> asks C (c, currentTerm (srv C c), p) = AskDone))"
    "\<And>c t p. peer n c \<Longrightarrow> asks C (c, t, p) = AskReady \<Longrightarrow> peer n p \<and> p \<noteq> c"
    "\<And>c t p args. peer n c \<Longrightarrow> asks C (c, t, p) = AskSent args \<Longrightarrow> peer n p \<and> p \<noteq> c"
  using assms unfolding count_inv_def by blast+

lemma count_invI:
  assumes "\<And>c. peer n c \<Longrightarrow> state (srv C c) = Candidate \<Longrightarrow>
      \<exists>Q. Q \<subseteq> {0..<n} \<and> c \<in> Q \<and> int (card Q) = numGetVoted C (c, currentTerm (srv C c)) \<and>
        (\<forall>p\<in>Q. (\<exists>v. (p, currentTerm (srv C c), c, v) \<in> votes g) \<and>
               (p = c \<or> asks C (c, currentTerm (srv C c), p) = AskDone))"
    "\<And>c t p. peer n c \<Longrightarrow> asks C (c, t, p) = AskReady \<Longrightarrow> peer n p \<and> p \<noteq> c"
    "\<And>c t p args. peer n c \<Longrightarrow> asks C (c, t, p) = AskSent args \<Longrightarrow> peer n p \<and> p \<noteq> c"
  shows "count_inv n C g"
  using assms unfolding count_inv_def by blast

text \<open>A goroutine of \<open>askForVote\<close> moves on without a vote.\<close>

lemma count_inv_asks:
  assumes inv: "count_inv n C g" and pc: "asks C (c, t, p) \<noteq> AskDone \<or> pc = AskDone"
    and to: "pc = AskDone \<or> (\<exists>args. pc = AskSent args) \<and> asks C (c, t, p) = AskReady"
  shows "count_inv n (C\<lparr>asks := (asks C)((c, t, p) := pc)\<rparr>) g"
proof (rule count_invI)
  fix d assume d: "peer n d" "state (srv (C\<lparr>asks := (asks C)((c, t, p) := pc)\<rparr>) d) = Candidate"
  then have "state (srv C d) = Candidate" by simp
  from count_invD(1) [OF inv d(1) this] obtain Q where
    "Q \<subseteq> {0..<n}" "d \<in> Q" "int (card Q) = numGetVoted C (d, currentTerm (srv C d))"
    "\<forall>q\<in>Q. (\<exists>v. (q, currentTerm (srv C d), d, v) \<in> votes g) \<and>
       (q = d \<or> asks C (d, currentTerm (srv C d), q) = AskDone)" by blast
  then show "\<exists>Q. Q \<subseteq> {0..<n} \<and> d \<in> Q \<and>
      int (card Q) = numGetVoted (C\<lparr>asks := (asks C)((c, t, p) := pc)\<rparr>)
        (d, currentTerm (srv (C\<lparr>asks := (asks C)((c, t, p) := pc)\<rparr>) d)) \<and>
      (\<forall>q\<in>Q. (\<exists>v. (q, currentTerm (srv (C\<lparr>asks := (asks C)((c, t, p) := pc)\<rparr>) d), d, v) \<in> votes g) \<and>
         (q = d \<or> asks (C\<lparr>asks := (asks C)((c, t, p) := pc)\<rparr>)
            (d, currentTerm (srv (C\<lparr>asks := (asks C)((c, t, p) := pc)\<rparr>) d), q) = AskDone))"
    using pc by (intro exI [of _ Q]) auto
next
  show "peer n q \<and> q \<noteq> d"
    if "peer n d" "asks (C\<lparr>asks := (asks C)((c, t, p) := pc)\<rparr>) (d, u, q) = AskReady" for d u q
    using that to count_invD(2) [OF inv, of d u q] by (auto split: if_splits)
  show "peer n q \<and> q \<noteq> d"
    if "peer n d" "asks (C\<lparr>asks := (asks C)((c, t, p) := pc)\<rparr>) (d, u, q) = AskSent args" for d u q args
    using that to count_invD(2,3) [OF inv, of d u q] by (auto split: if_splits)
qed

text \<open>A vote is counted.\<close>

lemma count_inv_vote:
  assumes inv: "count_inv n C g" and c: "peer n c" and pc: "asks C (c, t, p) = AskSent args"
    and v: "\<exists>v. (p, t, c, v) \<in> votes g"
    and D: "D = C\<lparr>numGetVoted := (numGetVoted C)((c, t) := numGetVoted C (c, t) + 1),
                 asks := (asks C)((c, t, p) := AskDone)\<rparr>"
  shows "count_inv n D g"
proof (rule count_invI)
  fix d assume d: "peer n d" "state (srv D d) = Candidate"
  then have "state (srv C d) = Candidate" by (simp add: D)
  from count_invD(1) [OF inv d(1) this] obtain Q where Q:
    "Q \<subseteq> {0..<n}" "d \<in> Q" "int (card Q) = numGetVoted C (d, currentTerm (srv C d))"
    "\<forall>q\<in>Q. (\<exists>v. (q, currentTerm (srv C d), d, v) \<in> votes g) \<and>
       (q = d \<or> asks C (d, currentTerm (srv C d), q) = AskDone)" by blast
  show "\<exists>Q. Q \<subseteq> {0..<n} \<and> d \<in> Q \<and> int (card Q) = numGetVoted D (d, currentTerm (srv D d)) \<and>
      (\<forall>q\<in>Q. (\<exists>v. (q, currentTerm (srv D d), d, v) \<in> votes g) \<and>
         (q = d \<or> asks D (d, currentTerm (srv D d), q) = AskDone))"
  proof (cases "d = c \<and> currentTerm (srv C d) = t")
    case True
    have p: "peer n p" "p \<noteq> c" using count_invD(3) [OF inv c pc] by auto
    have "p \<notin> Q" using Q(4) True pc p by auto
    moreover have "finite Q" using Q(1) finite_subset by blast
    ultimately have "int (card (insert p Q)) = numGetVoted C (c, t) + 1" using Q(3) True by auto
    then show ?thesis
      using Q(1,2,4) True v p by (intro exI [of _ "insert p Q"]) (auto simp: D peer_def)
  next
    case False
    then show ?thesis using Q by (intro exI [of _ Q]) (auto simp: D)
  qed
next
  show "peer n q \<and> q \<noteq> d" if "peer n d" "asks D (d, u, q) = AskReady" for d u q
    using that count_invD(2) [OF inv, of d u q] by (auto simp: D split: if_splits)
  show "peer n q \<and> q \<noteq> d" if "peer n d" "asks D (d, u, q) = AskSent a" for d u q a
    using that count_invD(3) [OF inv, of d u q a] by (auto simp: D split: if_splits)
qed

lemma Inv_ask_move:
  assumes inv: "Inv n C g" and pc: "asks C (c, t, p) \<noteq> AskDone \<or> pc = AskDone"
    and to: "pc = AskDone \<or> (\<exists>args. pc = AskSent args) \<and> asks C (c, t, p) = AskReady"
  shows "Inv n (C\<lparr>asks := (asks C)((c, t, p) := pc)\<rparr>) g"
  using InvD [OF inv] count_inv_asks [OF InvD(6) [OF inv] pc to] by (intro Inv_msgs [OF inv]) simp_all

lemma Inv_ask_send:
  assumes inv: "Inv n C g" and c: "peer n c" and pc: "asks C (c, t, p) = AskReady"
    and prep: "ask_prepare t (srv C c) = Some (Some args)"
  shows "Inv n (C\<lparr>asks := (asks C)((c, t, p) := AskSent args),
                 rv_reqs := insert (c, t, p, args) (rv_reqs C)\<rparr>) g"
proof -
  define C1 where "C1 = C\<lparr>asks := (asks C)((c, t, p) := AskSent args)\<rparr>"
  have inv1: "Inv n C1 g" unfolding C1_def by (rule Inv_ask_move [OF inv]) (simp_all add: pc)
  have cand: "state (srv C c) = Candidate" "currentTerm (srv C c) = t"
    and a: "args = \<lparr>rv_Term = t, rv_CandidateId = c, rv_LastLogIndex = lastLogIndex (srv C c),
      rv_LastLogTerm = le_Term (last (log (srv C c)))\<rparr>"
    using prep by (auto intro: ask_prepare_cases [OF srv_wf [OF inv c], of t])
  have "rv_inv n (C1\<lparr>rv_reqs := insert (c, t, p, args) (rv_reqs C1)\<rparr>) g"
    using rv_invD [OF InvD(7) [OF inv1]] cand a c unfolding rv_inv_def C1_def
    by (simp add: last_node_eq) blast
  then have "Inv n (C1\<lparr>rv_reqs := insert (c, t, p, args) (rv_reqs C1)\<rparr>) g"
    using InvD [OF inv1] by (intro Inv_msgs [OF inv1]) simp_all
  then show ?thesis by (simp add: C1_def)
qed

lemma set_srv_same [simp]: "set_srv s (srv C s) C = C"
  by (simp add: set_srv_def)

lemma Inv_ask_recv:
  assumes inv: "Inv n C g" and c: "peer n c" and pc: "asks C (c, t, p) = AskSent args"
    and rep: "(c, t, p, reply) \<in> rv_reps C"
    and run: "ask_reply t reply (numGetVoted C (c, t)) (srv C c) = Some (rf, num)"
  shows "\<exists>g'. Inv n ((set_srv c rf C)\<lparr>numGetVoted := (numGetVoted C)((c, t) := num),
                                     asks := (asks C)((c, t, p) := AskDone)\<rparr>) g' \<and>
    ldrs g \<subseteq> ldrs g'"
proof -
  let ?D = "(set_srv c rf C)\<lparr>numGetVoted := (numGetVoted C)((c, t) := num),
                             asks := (asks C)((c, t, p) := AskDone)\<rparr>"
  have quiet: "Inv n ?D g" if "Inv n (set_srv c rf C) g" "num = numGetVoted C (c, t)"
  proof -
    have same_num: "(set_srv c rf C)\<lparr>numGetVoted := numGetVoted C\<rparr> = set_srv c rf C"
      by (simp add: set_srv_def)
    show ?thesis using Inv_ask_move [OF that(1), of c t p AskDone] that(2) by (simp add: same_num)
  qed
  have counted: "Inv n ?D g'"
    if i: "Inv n (set_srv c rf C) g'" and "num = numGetVoted C (c, t) + 1"
      "\<exists>v. (p, t, c, v) \<in> votes g'" for g'
  proof (rule Inv_msgs [OF i])
    show "count_inv n ?D g'"
      by (rule count_inv_vote [OF InvD(6) [OF i] c _ that(3)]) (simp_all add: pc that(2))
  qed (use InvD [OF i] in simp_all)
  from srv_wf [OF inv c] show ?thesis
  proof (cases rule: ask_reply_cases [of _ _ _ reply t "numGetVoted C (c, t)"])
    case newer
    then show ?thesis using quiet Inv_step_down [OF inv c newer(1)] run by auto
  next
    case drop
    then show ?thesis using quiet inv run by auto
  next
    case vote
    have "\<exists>v. (p, t, c, v) \<in> votes g" using rv_invD(3) [OF InvD(7) [OF inv] rep vote(4)] .
    then show ?thesis using counted [of g] inv run vote by auto
  next
    case won
    have v: "\<exists>v. (p, t, c, v) \<in> votes g" using rv_invD(3) [OF InvD(7) [OF inv] rep won(4)] .
    obtain Q where Q: "Q \<subseteq> {0..<n}" "c \<in> Q" "int (card Q) = numGetVoted C (c, t)"
      "\<forall>q\<in>Q. (\<exists>v. (q, t, c, v) \<in> votes g) \<and> (q = c \<or> asks C (c, t, q) = AskDone)"
      using count_invD(1) [OF InvD(6) [OF inv] c won(2)] won(3) by blast
    have p: "peer n p" "p \<noteq> c" using count_invD(3) [OF InvD(6) [OF inv] c pc] by auto
    have "p \<notin> Q" using Q(4) pc p by auto
    moreover have "finite Q" using Q(1) finite_subset by blast
    ultimately have "int (card (insert p Q)) = numGetVoted C (c, t) + 1" using Q(3) by simp
    then have maj: "majority n (insert p Q)"
      using won(5) Q(1) p c by (auto simp: majority_def peer_def zdiv_int)
    define g' where "g' = g\<lparr>ldrs := insert (t, c, last_node (srv C c)) (ldrs g)\<rparr>"
    have "Inv n (set_srv c rf C) g'"
    proof (rule Inv_elect [OF inv c won(2) won(3) [symmetric] _ _ maj _ g'_def])
      show "rf = (srv C c)\<lparr>state := Leader, nextIndex := replicate (nat n) (lastLogIndex (srv C c) + 1),
          matchIndex := replicate (nat n) 0\<rparr>"
        using won(6) run by simp
      show "\<forall>q\<in>insert p Q. \<exists>v. (q, t, c, v) \<in> votes g" using Q(4) v by blast
    qed simp
    then show ?thesis using counted [of g'] v won(6) run by (auto simp: g'_def)
  qed
qed

end
