(* ===== verification/RaftRepl.thy ===== *)
theory RaftRepl
  imports RaftSteps
begin

text \<open>
  Replication keeps the invariant: the messages \<open>sendHeartBeat\<close> sends, the handlers of
  AppendEntries and InstallSnapshot, and the treatment of their replies.
\<close>

section \<open>Messages in flight\<close>

lemma Inv_ae_req:
  assumes inv: "Inv n C g" and ok: "ae_ok n g l t p args"
  shows "Inv n (C\<lparr>ae_reqs := insert (l, t, p, args) (ae_reqs C)\<rparr>) g"
proof (rule Inv_msgs [OF inv])
  show "msg_inv n (C\<lparr>ae_reqs := insert (l, t, p, args) (ae_reqs C)\<rparr>) g"
    using msg_invD [OF InvD(8) [OF inv]] ok unfolding msg_inv_def by simp
qed (use InvD [OF inv] in simp_all)

lemma Inv_is_req:
  assumes inv: "Inv n C g" and ok: "is_ok n g l t p args"
  shows "Inv n (C\<lparr>is_reqs := insert (l, t, p, args) (is_reqs C)\<rparr>) g"
proof (rule Inv_msgs [OF inv])
  show "msg_inv n (C\<lparr>is_reqs := insert (l, t, p, args) (is_reqs C)\<rparr>) g"
    using msg_invD [OF InvD(8) [OF inv]] ok unfolding msg_inv_def by simp
qed (use InvD [OF inv] in simp_all)

lemma Inv_ae_rep:
  assumes inv: "Inv n C g" and ok: "ae_ok n g l t p args"
    and ack: "aer_Success r \<Longrightarrow> acked_upto g p t (matched_upto args)"
  shows "Inv n (C\<lparr>ae_reps := insert (l, t, p, args, r) (ae_reps C)\<rparr>) g"
proof (rule Inv_msgs [OF inv])
  show "msg_inv n (C\<lparr>ae_reps := insert (l, t, p, args, r) (ae_reps C)\<rparr>) g"
    using msg_invD [OF InvD(8) [OF inv]] ok ack unfolding msg_inv_def by simp
qed (use InvD [OF inv] in simp_all)

lemma Inv_is_rep:
  assumes inv: "Inv n C g" and ok: "is_ok n g l t p args"
    and ack: "isr_Term r \<le> t \<Longrightarrow> acked_upto g p t (is_LastIncludedIndex args)"
  shows "Inv n (C\<lparr>is_reps := insert (l, t, p, args, r) (is_reps C)\<rparr>) g"
proof (rule Inv_msgs [OF inv])
  show "msg_inv n (C\<lparr>is_reps := insert (l, t, p, args, r) (is_reps C)\<rparr>) g"
    using msg_invD [OF InvD(8) [OF inv]] ok ack unfolding msg_inv_def by simp
qed (use InvD [OF inv] in simp_all)

section \<open>sendHeartBeat\<close>

text \<open>The first entry of a log gives its path only its term.\<close>

lemma links_of_head:
  assumes "le_Term e = le_Term e'"
  shows "links_of b (e # es) = links_of b (e' # es)"
  using assms by (auto simp: links_of_def nth_Cons split: nat.splits)

lemma top_of_head:
  assumes "le_Term e = le_Term e'"
  shows "top_of b (e # es) = top_of b (e' # es)"
  using assms by (simp add: top_of_def)

lemma leader_on_chain:
  assumes tr: "tree_inv n g" and ok: "srv_inv n g s rf" and ldr: "state rf = Leader"
  shows "on_chain g (currentTerm rf) (last_node rf)"
  using srv_invD(8) [OF ok ldr] srv_invD(5) [OF ok] unfolding leader_inv_def on_chain_def
  by (metis anc_refl)

lemma durable_nextIndex [simp]: "durable (rf\<lparr>nextIndex := ni\<rparr>) = durable rf"
  by (rule durable_cong) simp_all

lemma durable_matchIndex [simp]:
  "durable (rf\<lparr>nextIndex := ni, matchIndex := mi\<rparr>) = durable rf"
  "durable (rf\<lparr>nextIndex := ni, matchIndex := mi, commitIndex := c\<rparr>) = durable rf"
  by (rule durable_cong; simp)+

lemma Inv_nextIndex:
  assumes "Inv n C g" "peer n s" "length ni = nat n"
  shows "Inv n (set_srv s ((srv C s)\<lparr>nextIndex := ni\<rparr>) C) g"
  using assms srv_invD(2) [OF InvD(2) [OF assms(1,2)]] raft_wfD(9) [OF srv_wf [OF assms(1,2)]]
  by (intro Inv_same) (simp_all add: same_log_def)

lemma Inv_heartbeat:
  assumes inv: "Inv n C g" and l: "peer n l" and p: "peer n p" "p \<noteq> l"
    and run: "hb_send t p (srv C l) = Some (rf, m)"
  shows "Inv n (send_hb l t p m (set_srv l rf C)) g"
proof -
  define R where "R = srv C l"
  note wf = srv_wf [OF inv l, folded R_def] and ok = InvD(2) [OF inv l, folded R_def]
  note lwf = Inv_wf [OF inv] and tr = InvD(1) [OF inv]
  have next_ok: "Inv n (set_srv l (R\<lparr>nextIndex := ni\<rparr>) C) g" if "length ni = nat n" for ni
    using Inv_nextIndex [OF inv l that] by (simp add: R_def)
  note pb = peer_bounds [OF p(1)]
  from wf pb show ?thesis
  proof (cases rule: hb_send_cases [of _ _ _ _ t])
    case stop
    then show ?thesis using run inv by (simp add: send_hb_def R_def)
  next
    case (snap rf1)
    let ?args = "\<lparr>is_Term = t, is_LeaderId = l, is_LastIncludedIndex = lastIncludedIndex R,
        is_LastIncludeTerm = lastIncludeTerm R, is_Data = ps_snapshot (persister R)\<rparr>"
    have node: "is_node ?args = base_node R" by (simp add: is_node_def base_node_def)
    have "on_chain g t (base_node R)"
      using on_chain_anc [OF tr leader_on_chain [OF tr ok snap(1)] base_anc_last [OF ok]] snap(2)
      by simp
    moreover have "\<exists>L. (t, l, L) \<in> ldrs g"
      using srv_invD(8) [OF ok snap(1)] snap(2) by (auto simp: leader_inv_def)
    ultimately have "is_ok n g l t p ?args"
      using l p raft_wfD(8) [OF wf] base_covered [OF lwf ok] snap(2)
      unfolding is_ok_def node by simp
    then have "Inv n (send_hb l t p (HbSnapshot ?args) (set_srv l rf1 C)) g"
      using Inv_is_req [OF next_ok [OF snap(4), folded snap(3)]] by (simp add: send_hb_def)
    then show ?thesis using run snap(5) by (simp add: R_def)
  next
    case (append rf1 nx)
    define k where "k = nat (nx - 1 - lastIncludedIndex R)"
    let ?args = "\<lparr>ae_Term = t, ae_LeaderId = l, ae_PreLogIndex = nx - 1,
        ae_PrevLogTerm = le_Term (log R ! k),
        ae_Entries = drop (nat (nx - lastIncludedIndex R)) (log R),
        ae_LeaderCommit = commitIndex R\<rparr>"
    have k: "k < length (log R)" "nx - 1 = lastIncludedIndex R + int k"
      using append(5,6) by (simp_all add: lastLogIndex_def k_def)
    have d: "drop k (log R) = log R ! k # drop (nat (nx - lastIncludedIndex R)) (log R)"
    proof -
      have "nat (nx - lastIncludedIndex R) = Suc k" using append(5) by (simp add: k_def)
      then show ?thesis using k(1) by (simp add: Cons_nth_drop_Suc)
    qed
    have lnk: "links_of (nx - 1) (ae_log ?args) = links_of (nx - 1) (drop k (log R))"
      unfolding ae_log_def d by (simp, rule links_of_head) simp
    have "ae_top ?args = top_of (nx - 1) (drop k (log R))"
      unfolding ae_top_def ae_log_def d by (simp, rule top_of_head) simp
    also have "\<dots> = last_node R"
      unfolding last_node_def k(2) by (rule top_of_drop [OF k(1)])
    finally have top: "ae_top ?args = last_node R" .
    have "links_of (nx - 1) (drop k (log R)) \<subseteq> links_of (lastIncludedIndex R) (log R)"
      by (subst k(2)) (rule links_of_drop [OF k(1)])
    then have sub: "links_of (nx - 1) (ae_log ?args) \<subseteq> links g"
      using srv_invD(4) [OF ok] lnk by blast
    obtain mm where mm: "fst mm = commitIndex R" "anc (links g) mm (last_node R)"
      "covered n g t mm" using commit_node [OF lwf ok] append(2) by metis
    have "\<exists>L. (t, l, L) \<in> ldrs g \<and> anc (links g) L (last_node R) \<and>
        (last_node R = L \<or> snd (last_node R) = t)"
      using srv_invD(8) [OF ok append(1)] append(2) by (auto simp: leader_inv_def)
    then have "ae_ok n g l t p ?args"
      unfolding ae_ok_def top
      using l p srv_invD(5) [OF ok] mm sub raft_wfD(8) [OF wf] append(5) by simp blast
    then have "Inv n (send_hb l t p (HbAppend ?args) (set_srv l rf1 C)) g"
      using Inv_ae_req [OF next_ok [OF append(4), folded append(3)]] by (simp add: send_hb_def)
    then show ?thesis using run append(7) by (simp add: R_def k_def)
  qed
qed

section \<open>A follower's log is extended or replaced\<close>

lemma on_chainI:
  "m \<in> nodes (links g) \<Longrightarrow> (t, l, L) \<in> ldrs g \<Longrightarrow> anc (links g) m L \<Longrightarrow> on_chain g t m"
  unfolding on_chain_def by blast

lemma on_chain_snd:
  assumes "tree_inv n g" "on_chain g t w"
  shows "snd w \<le> t"
proof -
  obtain l L where L: "(t, l, L) \<in> ldrs g" "anc (links g) w L \<or> snd w = t"
    using assms(2) by (auto simp: on_chain_def)
  have "snd L < t" using tree_invD(3) [OF assms(1) L(1)] by simp
  then show ?thesis using L(2) anc_measure(2) [OF tree_invD(1) [OF assms(1)], of w L] by auto
qed

lemma covered_on_chain:
  assumes inv: "Inv n C g" and L: "(t, l, L) \<in> ldrs g" and m: "covered n g t m"
  shows "on_chain g t m"
proof (cases "m = (0, 0)")
  case True
  have "L \<in> nodes (links g)" using tree_invD(3) [OF InvD(1) [OF inv] L] by simp
  then show ?thesis using root_anc [OF Inv_wf [OF inv]] True by (intro on_chainI [OF _ L]) simp_all
next
  case False
  then obtain d where "committed n g d" "snd d \<le> t" "anc (links g) m d"
    using m unfolding covered_def by blast
  then show ?thesis
    using on_chain_anc [OF InvD(1) [OF inv]]
      committed_on_chain [OF InvD(1) [OF inv] InvD(4) [OF inv] InvD(5) [OF inv] _ L] by blast
qed

lemma covered_node: "Inv n C g \<Longrightarrow> covered n g t m \<Longrightarrow> m \<in> nodes (links g)"
  using committed_ack(1) [OF _ InvD(4)] anc_node [OF Inv_wf] unfolding covered_def
  by (metis node_root)

text \<open>Two covered nodes, even at different terms, lie on one path.\<close>

lemma covered_path:
  assumes inv: "Inv n C g" and a: "covered n g t a" and b: "covered n g u b" and le: "fst a \<le> fst b"
  shows "anc (links g) a b"
proof -
  note lwf = Inv_wf [OF inv]
  have na: "a \<in> nodes (links g)" and nb: "b \<in> nodes (links g)"
    using covered_node [OF inv] a b by blast+
  consider "a = (0, 0)" | "b = (0, 0)" | "a \<noteq> (0, 0)" "b \<noteq> (0, 0)" by blast
  then show ?thesis
  proof cases
    case 1
    then show ?thesis using root_anc [OF lwf nb] by simp
  next
    case 2
    have "0 \<le> fst a" using anc_fst_nonneg [OF lwf anc_refl na] by simp
    then have "(0, 0) = a" using anc_eq [OF lwf root_anc [OF lwf na]] le 2 by simp
    then show ?thesis using 2 by simp
  next
    case 3
    obtain da where da: "committed n g da" "anc (links g) a da"
      using a 3 unfolding covered_def by blast
    obtain db where db: "committed n g db" "anc (links g) b db"
      using b 3 unfolding covered_def by blast
    show ?thesis
      by (rule covered_linear [OF InvD(1) [OF inv] InvD(4) [OF inv] InvD(5) [OF inv] da db le])
  qed
qed

text \<open>
  What was on the path of \<open>v\<close> and lies on the chain of the term stays on the path of a chain
  node \<open>w\<close> that was not on the path of \<open>v\<close>.
\<close>

lemma keep_path:
  assumes tr: "tree_inv n g" and a: "on_chain g t a" "anc (links g) a v"
    and w: "on_chain g t w" "\<not> anc (links g) w v"
  shows "anc (links g) a w"
proof (cases "fst a \<le> fst w")
  case False
  then have "anc (links g) w a" using on_chain_linear [OF tr w(1) a(1)] by simp
  then show ?thesis using anc_trans a(2) w(2) by blast
qed (rule on_chain_linear [OF tr a(1) w(1)])

text \<open>
  A follower in term \<open>t\<close> takes a log whose last node is its old one, or the chain node \<open>w\<close>
  that it lacked; its commit point may advance to a covered node below \<open>w\<close>.
\<close>

lemma Inv_replace:
  assumes inv: "Inv n C g" and p: "peer n p" and R: "R = srv C p" "currentTerm R = t"
    and L: "(t, l, L) \<in> ldrs g" and w: "on_chain g t w"
    and new: "last_node rf = last_node R \<or> last_node rf = w \<and> \<not> anc (links g) w (last_node R)"
    and top: "anc (links g) w (last_node rf)"
    and m: "anc (links g) m w" "covered n g t m"
    and rf: "raft_wf n p rf" "durable rf" "links_of (lastIncludedIndex rf) (log rf) \<subseteq> links g"
      "currentTerm rf = t" "votedFor rf = votedFor R" "state rf = Follower"
    and commit: "lastIncludedIndex rf \<le> commitIndex rf" "lastApplied rf \<le> commitIndex rf"
      "commitIndex rf = max (commitIndex R) (fst m)"
    and g': "g' = add_acks (own_acks g p rf) g"
  shows "Inv n (set_srv p rf C) g'" "acked_upto g' p t (fst w)"
proof -
  note tr = InvD(1) [OF inv] and lwf = Inv_wf [OF inv] and ok = InvD(2) [OF inv p, folded R(1)]
  have wn: "w \<in> nodes (links g)" using w by (simp add: on_chain_def)
  have t1: "1 \<le> t" using tree_invD(3) [OF tr L] by simp
  have moved: "anc (links g) a (last_node rf)" if "on_chain g t a" "anc (links g) a (last_node R)" for a
    using new keep_path [OF tr that w] that(2) by auto
  obtain mo where mo: "fst mo = commitIndex R" "anc (links g) mo (last_node R)" "covered n g t mo"
    using commit_node [OF lwf ok] R(2) by metis
  show "Inv n (set_srv p rf C) g'"
  proof (rule Inv_set_srv [OF inv p g'])
    have "anc (links g) mo (last_node rf)"
      using moved [OF covered_on_chain [OF inv L mo(3)] mo(2)] .
    moreover have "anc (links g) m (last_node rf)" using m(1) top by (rule anc_trans)
    ultimately have "commit_inv n g rf"
      using commit mo(1,3) m(2) rf(4) unfolding commit_inv_def max_def by (metis linear)
    moreover have "last_node rf \<in> nodes (links g)" "snd (last_node rf) \<le> t"
      using new wn srv_invD(5,6) [OF ok] on_chain_snd [OF tr w] R(2) by auto
    ultimately have "srv_inv n g p rf" using rf t1 by (simp add: srv_inv_def)
    then show "srv_inv n g' p rf" unfolding g' by (rule srv_inv_add_acks)
    show "anc (links g) (i, u) (last_node rf) \<or> bad g (i, u) (currentTerm rf)"
      if a: "(p, i, u) \<in> acks g" for i u
    proof (cases "bad g (i, u) t")
      case False
      have in_v: "anc (links g) (i, u) (last_node R)"
        using ack_invD(2) [OF InvD(4) [OF inv] a] False R by simp
      have nd: "(i, u) \<in> nodes (links g)" "1 \<le> u" "u \<le> t"
        using ack_invD(1) [OF InvD(4) [OF inv] a] R by simp_all
      have "on_chain g t (i, u)"
      proof (cases "u = t")
        case True
        then show ?thesis using on_chain_node [OF tr] nd by simp
      next
        case neq: False
        then have "anc (links g) (i, u) L" using False L nd(3) unfolding bad_def by auto
        then show ?thesis by (rule on_chainI [OF nd(1) L])
      qed
      then show ?thesis using moved in_v by simp
    qed (simp add: rf(4))
  qed (use rf R in simp_all)
  show "acked_upto g' p t (fst w)"
    unfolding acked_upto_def
  proof (intro allI impI)
    fix i assume i: "i \<le> fst w \<and> (i, t) \<in> nodes (links g')"
    then have "on_chain g t (i, t)" using on_chain_node [OF tr _ t1] by (simp add: g')
    then have "anc (links g) (i, t) w" using on_chain_linear [OF tr _ w] i by simp
    then have "anc (links g) (i, t) (last_node rf)" using top by (rule anc_trans)
    then show "(p, i, t) \<in> acks g'" using t1 rf(4) by (simp add: g' own_acks_def)
  qed
qed

section \<open>AppendEntries\<close>

text \<open>The log after an accepted append is a path, ending in the old last node or the message's.\<close>

lemma merged_path:
  assumes wf: "wf_links E" and old: "links_of b lg0 \<subseteq> E" "q < length lg0"
    and msg: "links_of (b + int q) (e0 # ents) \<subseteq> E" "le_Term (lg0 ! q) = le_Term e0"
    and merged: "merged_log lg0 (Suc q) ents lg"
    and x: "x = top_of (b + int q) (e0 # ents)"
  shows "lg \<noteq> [] \<and> lg ! 0 = lg0 ! 0 \<and> links_of b lg \<subseteq> E \<and> anc E x (top_of b lg) \<and>
    (top_of b lg = top_of b lg0 \<or> top_of b lg = x \<and> \<not> anc E x (top_of b lg0))"
proof -
  let ?aes = "e0 # ents"
  have same_term: "le_Term (lg0 ! (q + j)) = le_Term (?aes ! j)"
    if "agree_upto lg0 (Suc q) ents m" "j \<le> m" for j m
  proof (cases j)
    case (Suc i)
    then show ?thesis using that by (auto simp: agree_upto_def)
  qed (use msg(2) in simp)
  have xn: "x = node_at (b + int q) ?aes (length ents)"
    using top_of_node_at [of ?aes] x by simp
  from merged consider
    (same) "lg = lg0" "agree_upto lg0 (Suc q) ents (length ents)"
  | (split) m where "m < length ents" "agree_upto lg0 (Suc q) ents m"
      "lg = take (Suc q + m) lg0 @ drop m ents"
      "Suc q + m < length lg0 \<longrightarrow> le_Term (lg0 ! (Suc q + m)) \<noteq> le_Term (ents ! m)"
    by (auto simp: merged_log_def)
  then show ?thesis
  proof cases
    case same
    have "x = node_at b lg0 (q + length ents)"
      using same_term [OF same(2), of "length ents"] by (simp add: xn node_at_def)
    moreover have "q + length ents < length lg0" using same(2) by (simp add: agree_upto_def)
    ultimately have "anc E x (top_of b lg0)" using path_anc_top [OF old(1)] by simp
    then show ?thesis using old same(1) by auto
  next
    case split
    have len: "Suc q + m \<le> length lg0" using split(2) by (simp add: agree_upto_def)
    have lo: "lg ! j = lg0 ! j" if "j < Suc q + m" for j
      using that len by (simp add: split(3) nth_append)
    have hi: "lg ! j = ?aes ! (j - q)" if "Suc q + m \<le> j" "j < length lg" for j
    proof -
      have "lg ! j = ents ! (m + (j - (Suc q + m)))"
        using that len split(1) by (simp add: split(3) nth_append)
      also have "m + (j - (Suc q + m)) = j - q - 1" using that(1) by simp
      finally show ?thesis using that(1) by (simp add: nth_Cons')
    qed
    have ll: "length lg = Suc q + length ents" using len split(1) by (simp add: split(3))
    have term_at: "le_Term (lg ! j) = le_Term (?aes ! (j - q))" if "q \<le> j" "j < length lg" for j
    proof (cases "j < Suc q + m")
      case True
      then show ?thesis using lo same_term [OF split(2), of "j - q"] that(1) by simp
    next
      case False
      then show ?thesis using hi [OF _ that(2)] by simp
    qed
    have "(b + int j, le_Term (lg ! j), le_Command (lg ! j), le_Term (lg ! (j - 1))) \<in> E"
      if j: "0 < j" "j < length lg" for j
    proof (cases "j < Suc q + m")
      case True
      then show ?thesis using lo [of j] lo [of "j - 1"] links_ofI [of j lg0 b] old(1) len j by auto
    next
      case False
      have "(b + int q + int (j - q), le_Term (?aes ! (j - q)), le_Command (?aes ! (j - q)),
          le_Term (?aes ! (j - q - 1))) \<in> E"
        using links_ofI [of "j - q" ?aes "b + int q"] msg(1) False j(2) ll by auto
      moreover have "j - 1 - q = j - q - 1" "q \<le> j - 1" using False by simp_all
      ultimately show ?thesis
        using hi [of j] term_at [of "j - 1"] False j by simp
    qed
    then have links: "links_of b lg \<subseteq> E" by (auto simp: links_of_def)
    have ne: "lg \<noteq> []" using ll by auto
    have "top_of b lg = node_at b lg (q + length ents)" using top_of_node_at [OF ne] ll by simp
    also have "\<dots> = x" using hi [of "q + length ents"] split(1) ll by (simp add: xn node_at_def)
    finally have topx: "top_of b lg = x" .
    have "\<not> anc E x (top_of b lg0)"
    proof
      assume "anc E x (top_of b lg0)"
      let ?d = "node_at (b + int q) ?aes (Suc m)"
      have "anc E ?d x" using path_anc_top [OF msg(1), of "Suc m"] split(1) x by simp
      then have "anc E ?d (top_of b lg0)" using \<open>anc E x (top_of b lg0)\<close> by (rule anc_trans)
      moreover have "lg0 \<noteq> []" "b \<le> fst ?d" using old(2) by (auto simp: node_at_def)
      ultimately have "nat (fst ?d - b) < length lg0" "?d = node_at b lg0 (nat (fst ?d - b))"
        using path_nth [OF wf old(1)] by blast+
      moreover have "nat (fst ?d - b) = Suc q + m" by (simp add: node_at_def)
      ultimately show False using split(4) by (simp add: node_at_def)
    qed
    then show ?thesis using ne lo [of 0] links topx by simp
  qed
qed

lemma Inv_ae_handle:
  assumes inv: "Inv n C g" and p: "peer n p" and req: "(l, t, p, args) \<in> ae_reqs C"
    and run: "AppendEntries args (srv C p) = Some (rf, reply)"
  shows "\<exists>g'. Inv n ((set_srv p rf C)\<lparr>ae_reps := insert (l, t, p, args, reply) (ae_reps C)\<rparr>) g' \<and>
    ldrs g \<subseteq> ldrs g'"
proof -
  define R where "R = srv C p"
  note wf = srv_wf [OF inv p, folded R_def]
  have ok: "ae_ok n g l t p args" by (rule msg_invD(1) [OF InvD(8) [OF inv] req])
  then have T: "ae_Term args = t" and pre: "0 \<le> ae_PreLogIndex args" by (simp_all add: ae_ok_def)
  have quiet: ?thesis if "Inv n (set_srv p rf C) g" "\<not> aer_Success reply"
  proof -
    have "Inv n ((set_srv p rf C)\<lparr>ae_reps := insert (l, t, p, args, reply) (ae_reps (set_srv p rf C))\<rparr>) g"
      by (rule Inv_ae_rep [OF that(1) ok]) (use that(2) in simp)
    then show ?thesis by (intro exI [of _ g]) simp
  qed
  from wf pre show ?thesis
  proof (cases rule: AppendEntries_cases)
    case stale
    then have "rf = persist R" "\<not> aer_Success reply" using run by (auto simp: R_def zero_reply_def)
    then show ?thesis using quiet Inv_persist [OF inv p] by (simp add: R_def)
  next
    case (reject r)
    then show ?thesis
      using quiet Inv_accept_leader [OF inv p, of t] run T by (simp add: R_def)
  next
    case (accept lg c)
    define R1 where "R1 = persist (accept_leader t R)"
    define C1 where "C1 = set_srv p R1 C"
    have inv1: "Inv n C1 g"
      using Inv_accept_leader [OF inv p, of t] accept(1) T by (simp add: C1_def R1_def R_def)
    have P: "srv C1 p = R1" by (simp add: C1_def)
    note ok1 = InvD(2) [OF inv1 p, unfolded P]
    have R1: "currentTerm R1 = t" "log R1 = log R" "lastIncludedIndex R1 = lastIncludedIndex R"
      "commitIndex R1 = commitIndex R" "lastApplied R1 = lastApplied R"
      using accept(1) T by (simp_all add: R1_def)
    have rf: "rf = persist ((accept_leader t R)\<lparr>log := lg, commitIndex := c\<rparr>)"
      using accept(7) run T by (simp add: R_def)
    define b where "b = lastIncludedIndex R"
    define q where "q = nat (ae_PreLogIndex args - b)"
    have q: "ae_PreLogIndex args = b + int q" "q < length (log R)"
      using accept(2,3) wf by (auto simp: q_def b_def lastLogIndex_def)
    have lwf: "wf_links (links g)" by (rule Inv_wf [OF inv])
    define new where "new = top_of b lg"
    define w where "w = ae_top args"
    note ok' = ok [unfolded ae_ok_def ae_log_def]
    have merged: "merged_log (log R) (Suc q) (ae_Entries args) lg"
      using accept(5) by (simp add: q_def b_def)
    have path: "lg \<noteq> [] \<and> lg ! 0 = log R ! 0 \<and> links_of b lg \<subseteq> links g \<and> anc (links g) w new \<and>
        (new = top_of b (log R) \<or> new = w \<and> \<not> anc (links g) w (top_of b (log R)))"
      unfolding new_def
    proof (rule merged_path [OF lwf _ q(2) _ _ merged])
      show "links_of b (log R) \<subseteq> links g" using srv_invD(4) [OF ok1] by (simp add: R1 b_def)
      show "le_Term (log R ! q) = le_Term \<lparr>le_Term = ae_PrevLogTerm args, le_Command = None\<rparr>"
        using accept(4) by (simp add: q_def b_def)
      show "w = top_of (b + int q) (\<lparr>le_Term = ae_PrevLogTerm args, le_Command = None\<rparr> # ae_Entries args)"
        by (simp add: w_def ae_top_def ae_log_def q(1))
    qed (use ok' q(1) in simp)
    have last: "last_node rf = new" "last_node R1 = top_of b (log R)"
      by (simp_all add: rf new_def last_node_def b_def R1)
    obtain L where L: "(t, l, L) \<in> ldrs g" "anc (links g) L w" "w = L \<or> snd w = t"
      using ok' by (auto simp: w_def)
    have wn: "w \<in> nodes (links g)" using ok' by (simp add: w_def)
    have w_chain: "on_chain g t w"
      using L wn anc_refl unfolding on_chain_def by metis
    obtain m where m: "fst m = ae_LeaderCommit args" "anc (links g) m w" "covered n g t m"
      using ok' by (auto simp: w_def)
    have "fst m \<le> fst new" using anc_fst_le [OF lwf anc_trans [OF m(2)]] path by simp
    then have c: "c = max (commitIndex R1) (fst m)"
      using accept(6) m(1) by (simp add: R1 new_def top_of_def b_def)
    have low: "lastIncludedIndex R \<le> commitIndex R" "lastApplied R \<le> commitIndex R"
      using srv_invD(7) [OF ok1] by (simp_all add: commit_inv_def R1)
    define g' where "g' = add_acks (own_acks g p rf) g"
    have rest: "raft_wf n p rf" "durable rf" "links_of (lastIncludedIndex rf) (log rf) \<subseteq> links g"
      "currentTerm rf = t" "votedFor rf = votedFor R1" "state rf = Follower"
      "lastIncludedIndex rf \<le> commitIndex rf" "lastApplied rf \<le> commitIndex rf"
      "commitIndex rf = max (commitIndex R1) (fst m)"
      using wf path accept(1) T c low R1(4) by (auto simp: rf R1_def raft_wf_def b_def)
    have new: "last_node rf = last_node R1 \<or> last_node rf = w \<and> \<not> anc (links g) w (last_node R1)"
      and top: "anc (links g) w (last_node rf)"
      using path by (simp_all add: last)
    note move = Inv_replace [OF inv1 p P [symmetric] R1(1) L(1) w_chain new top m(2,3) rest g'_def]
    have "fst w = matched_upto args" by (simp add: w_def fst_ae_top)
    then have "Inv n ((set_srv p rf C1)\<lparr>ae_reps := insert (l, t, p, args, reply) (ae_reps (set_srv p rf C1))\<rparr>) g'"
      using move ok by (intro Inv_ae_rep) (simp_all add: g'_def ae_ok_add_acks)
    then show ?thesis by (intro exI [of _ g']) (simp add: C1_def g'_def)
  qed
qed

section \<open>Replies to the leader\<close>

lemma Inv_match:
  assumes inv: "Inv n C g" and l: "peer n l" and R: "R = srv C l" "state R = Leader"
    and p: "peer n p" and k: "k \<le> lastLogIndex R" "acked_upto g p (currentTerm R) k"
    and ni: "length ni = nat n"
  shows "Inv n (set_srv l (R\<lparr>nextIndex := ni, matchIndex := (matchIndex R)[nat p := k]\<rparr>) C) g"
proof (rule Inv_set_same [OF inv l])
  let ?rf = "R\<lparr>nextIndex := ni, matchIndex := (matchIndex R)[nat p := k]\<rparr>"
  note ok = InvD(2) [OF inv l, folded R(1)]
  have last: "last_node ?rf = last_node R" by (simp add: last_node_def)
  note ld = srv_invD(8) [OF ok R(2), unfolded leader_inv_def]
  have "leader_inv n g l ?rf"
    unfolding leader_inv_def
  proof (intro conjI)
    show "\<forall>q. peer n q \<and> q \<noteq> l \<longrightarrow> matchIndex ?rf ! nat q \<le> lastLogIndex ?rf \<and>
        (\<forall>i. i \<le> matchIndex ?rf ! nat q \<and> (i, currentTerm ?rf) \<in> nodes (links g) \<longrightarrow>
             (q, i, currentTerm ?rf) \<in> acks g)"
    proof (intro allI impI, elim conjE)
      fix q assume q: "peer n q" "q \<noteq> l"
      have "matchIndex ?rf ! nat q = (if q = p then k else matchIndex R ! nat q)"
        using raft_wfD(10) [OF srv_invD(1) [OF ok]] q(1) p
        by (auto simp: nth_list_update peer_def)
      moreover have "lastLogIndex ?rf = lastLogIndex R" by (simp add: lastLogIndex_def)
      ultimately show "matchIndex ?rf ! nat q \<le> lastLogIndex ?rf \<and>
          (\<forall>i. i \<le> matchIndex ?rf ! nat q \<and> (i, currentTerm ?rf) \<in> nodes (links g) \<longrightarrow>
               (q, i, currentTerm ?rf) \<in> acks g)"
        using ld q k by (simp add: acked_upto_def)
    qed
  qed (use ld last in simp_all)
  then show "srv_inv n g l ?rf"
    using ok ni R(2) last by (simp add: srv_inv_def raft_wf_def commit_inv_def)
  show "currentTerm ?rf = currentTerm (srv C l)" "votedFor ?rf = votedFor (srv C l)"
    "last_node ?rf = last_node (srv C l)" "state ?rf = Candidate \<Longrightarrow> state (srv C l) = Candidate"
    using R last by simp_all
qed

text \<open>The leader commits an entry of its own term that a majority holds.\<close>

lemma Inv_commit:
  assumes inv: "Inv n C g" and l: "peer n l" and R: "R = srv C l" "state R = Leader"
    and c: "commitIndex R < c" "lastIncludedIndex R \<le> c" "c \<le> lastLogIndex R"
      "le_Term (log R ! nat (c - lastIncludedIndex R)) = currentTerm R"
    and maj: "n div 2 < int (card (confirmers c R))"
  shows "Inv n (set_srv l (R\<lparr>commitIndex := c\<rparr>) C) g"
proof (rule Inv_set_same [OF inv l])
  let ?rf = "R\<lparr>commitIndex := c\<rparr>" and ?t = "currentTerm R"
  note ok = InvD(2) [OF inv l, folded R(1)] and lwf = Inv_wf [OF inv]
  note wf = srv_invD(1) [OF ok] and ld = srv_invD(8) [OF ok R(2), unfolded leader_inv_def]
  have last: "last_node ?rf = last_node R" by (simp add: last_node_def)
  obtain L where L: "(?t, l, L) \<in> ldrs g" using ld by blast
  have t1: "1 \<le> ?t" using tree_invD(3) [OF InvD(1) [OF inv] L] by simp
  have "(c, ?t) = node_at (lastIncludedIndex R) (log R) (nat (c - lastIncludedIndex R))"
    using c by (simp add: node_at_def)
  moreover have "nat (c - lastIncludedIndex R) < length (log R)"
    using c wf by (auto simp: lastLogIndex_def)
  ultimately have anc: "anc (links g) (c, ?t) (last_node R)"
    using path_anc_top [OF srv_invD(4) [OF ok]] by (simp add: last_node_def)
  have nd: "(c, ?t) \<in> nodes (links g)" using anc_node [OF lwf anc srv_invD(5) [OF ok]] .
  have "(q, c, ?t) \<in> acks g" if "q \<in> confirmers c R" for q
  proof (cases "q = l")
    case True
    then show ?thesis using ack_invD(3) [OF InvD(4) [OF inv] l] t1 anc R(1) by simp
  next
    case False
    then have "peer n q" "c \<le> matchIndex R ! nat q"
      using that wf by (auto simp: confirmers_def peer_def)
    then show ?thesis using ld nd False by blast
  qed
  moreover have "majority n (confirmers c R)"
  proof -
    have "int (nat n div 2) = n div 2" using peer_bounds [OF l] by (simp add: zdiv_int)
    then have "nat n div 2 < card (confirmers c R)" using maj by linarith
    then show ?thesis using wf by (auto simp: majority_def confirmers_def)
  qed
  ultimately have "committed n g (c, ?t)" unfolding committed_def by auto
  then have "covered n g ?t (c, ?t)" unfolding covered_def by (intro disjI2 exI [of _ "(c, ?t)"]) simp
  then have "commit_inv n g ?rf"
    using anc c srv_invD(7) [OF ok] last unfolding commit_inv_def
    by (intro conjI exI [of _ "(c, ?t)"]) auto
  moreover have "leader_inv n g l ?rf" using ld last by (simp add: leader_inv_def lastLogIndex_def)
  moreover have "durable ?rf" using srv_invD(2) [OF ok] by (subst durable_cong [of _ R]) simp_all
  ultimately show "srv_inv n g l ?rf"
    using ok R(2) last by (simp add: srv_inv_def raft_wf_def)
  show "currentTerm ?rf = currentTerm (srv C l)" "votedFor ?rf = votedFor (srv C l)"
    "last_node ?rf = last_node (srv C l)" "state ?rf = Candidate \<Longrightarrow> state (srv C l) = Candidate"
    using R last by simp_all
qed

lemma Inv_ae_recv:
  assumes inv: "Inv n C g" and l: "peer n l" and rep: "(l, t, p, args, reply) \<in> ae_reps C"
    and run: "hb_append_reply t p args reply (srv C l) = Some rf"
  shows "Inv n (set_srv l rf C) g"
proof -
  define R where "R = srv C l"
  note wf = srv_wf [OF inv l, folded R_def] and ok = InvD(2) [OF inv l, folded R_def]
  note run = run [folded R_def] and msg = msg_invD(2,3) [OF InvD(8) [OF inv] rep]
  have p: "peer n p" using msg(1) by (simp add: ae_ok_def)
  from wf peer_bounds [OF p] show ?thesis
  proof (cases rule: hb_append_reply_cases [of _ _ _ _ reply t args])
    case newer
    then show ?thesis using run Inv_step_down [OF inv l, of "aer_Term reply"] by (simp add: R_def)
  next
    case drop
    then have "rf = srv C l" using run R_def by simp
    then show ?thesis using inv by simp
  next
    case (rejected ni)
    then show ?thesis using run Inv_nextIndex [OF inv l, of ni] by (simp add: R_def)
  next
    case (accepted ni c)
    define k where "k = matched_upto args"
    define R1 where "R1 = R\<lparr>nextIndex := ni, matchIndex := (matchIndex R)[nat p := k]\<rparr>"
    define C1 where "C1 = set_srv l R1 C"
    have top: "anc (links g) (ae_top args) (last_node R)"
      using ae_top_term [OF InvD(1) [OF inv] msg(1) srv_invD(8) [OF ok accepted(1)] accepted(2)] .
    have "k \<le> lastLogIndex R"
      using anc_fst_le [OF Inv_wf [OF inv] top] by (simp add: fst_ae_top fst_last_node k_def)
    then have inv1: "Inv n C1 g"
      unfolding C1_def R1_def
      using Inv_match [OF inv l R_def accepted(1) p] msg(2) [OF accepted(3)] accepted(2,4) k_def
      by simp
    have same: "C1 = set_srv l (R1\<lparr>commitIndex := commitIndex R\<rparr>) C" by (simp add: C1_def R1_def)
    have rf: "rf = R1\<lparr>commitIndex := c\<rparr>" using accepted(5) run by (simp add: R1_def k_def)
    have card: "confirmers c R1 = confirmers c (R\<lparr>matchIndex := (matchIndex R)[nat p := k]\<rparr>)"
      by (simp add: confirmers_def R1_def)
    show ?thesis
    proof (cases "c = commitIndex R")
      case True
      then show ?thesis using inv1 same rf by simp
    next
      case False
      then have "Inv n (set_srv l (R1\<lparr>commitIndex := c\<rparr>) C1) g"
        using accepted(1,6) card
        by (intro Inv_commit [OF inv1 l]) (simp_all add: C1_def R1_def k_def lastLogIndex_def)
      then show ?thesis by (simp add: rf C1_def)
    qed
  qed
qed

section \<open>InstallSnapshot\<close>

lemma Inv_is_recv:
  assumes inv: "Inv n C g" and l: "peer n l" and rep: "(l, t, p, args, reply) \<in> is_reps C"
    and run: "hb_snapshot_reply t p args reply (srv C l) = Some rf"
  shows "Inv n (set_srv l rf C) g"
proof -
  define R where "R = srv C l"
  note wf = srv_wf [OF inv l, folded R_def] and ok = InvD(2) [OF inv l, folded R_def]
  note run = run [folded R_def] and msg = msg_invD(5,6) [OF InvD(8) [OF inv] rep]
  have p: "peer n p" using msg(1) by (simp add: is_ok_def)
  from wf peer_bounds [OF p] show ?thesis
  proof (cases rule: hb_snapshot_reply_cases [of _ _ _ _ reply t args])
    case newer
    then show ?thesis using run Inv_step_down [OF inv l, of "isr_Term reply"] by (simp add: R_def)
  next
    case drop
    then have "rf = srv C l" using run R_def by simp
    then show ?thesis using inv by simp
  next
    case (installed ni)
    have top: "anc (links g) (is_node args) (last_node R)"
      using is_node_term [OF InvD(1) [OF inv] msg(1) srv_invD(8) [OF ok installed(1)] installed(2)] .
    have "is_LastIncludedIndex args \<le> lastLogIndex R"
      using anc_fst_le [OF Inv_wf [OF inv] top] by (simp add: is_node_def fst_last_node)
    then show ?thesis
      using Inv_match [OF inv l R_def installed(1) p] msg(2) [OF installed(3)] installed(2,4,5) run
      by simp
  qed
qed

text \<open>A peer whose snapshot already covers the message's has every entry below it.\<close>

lemma old_snapshot_acked:
  assumes inv: "Inv n C g" and p: "peer n p" and t: "currentTerm (srv C p) = t"
    and ok: "is_ok n g l t p args" and old: "is_LastIncludedIndex args \<le> lastIncludedIndex (srv C p)"
  shows "acked_upto g p t (is_LastIncludedIndex args)"
  unfolding acked_upto_def
proof (intro allI impI)
  note tr = InvD(1) [OF inv] and lwf = Inv_wf [OF inv] and okp = InvD(2) [OF inv p]
  obtain L where L: "(t, l, L) \<in> ldrs g" using ok by (auto simp: is_ok_def)
  have t1: "1 \<le> t" using tree_invD(3) [OF tr L] by simp
  fix i assume i: "i \<le> is_LastIncludedIndex args \<and> (i, t) \<in> nodes (links g)"
  have "anc (links g) (i, t) (is_node args)"
    using on_chain_linear [OF tr on_chain_node [OF tr _ t1]] i ok by (simp add: is_ok_def is_node_def)
  moreover have "anc (links g) (is_node args) (base_node (srv C p))"
    by (rule covered_path [OF inv _ base_covered [OF lwf okp], of t])
      (use ok old in \<open>simp_all add: is_ok_def is_node_def base_node_def\<close>)
  ultimately have "anc (links g) (i, t) (last_node (srv C p))"
    using base_anc_last [OF okp] anc_trans by blast
  then show "(p, i, t) \<in> acks g" using ack_invD(3) [OF InvD(4) [OF inv] p] t t1 by simp
qed

lemma Inv_is_handle:
  assumes inv: "Inv n C g" and p: "peer n p" and req: "(l, t, p, args) \<in> is_reqs C"
    and run: "InstallSnapshot args (srv C p) = Some (rf, reply)"
  shows "\<exists>g'. Inv n ((set_srv p rf C)\<lparr>is_reps := insert (l, t, p, args, reply) (is_reps C)\<rparr>) g' \<and>
    ldrs g \<subseteq> ldrs g'"
proof -
  define R where "R = srv C p"
  note wf = srv_wf [OF inv p, folded R_def]
  note run = run [folded R_def]
  have ok: "is_ok n g l t p args" by (rule msg_invD(4) [OF InvD(8) [OF inv] req])
  then have T: "is_Term args = t" by (simp add: is_ok_def)
  have replied: ?thesis if i: "Inv n (set_srv p rf C) g'" and "is_ok n g' l t p args"
    and "isr_Term reply \<le> t \<Longrightarrow> acked_upto g' p t (is_LastIncludedIndex args)"
    and mono: "ldrs g \<subseteq> ldrs g'" for g'
  proof -
    have "Inv n ((set_srv p rf C)\<lparr>is_reps := insert (l, t, p, args, reply) (is_reps (set_srv p rf C))\<rparr>) g'"
      by (rule Inv_is_rep [OF that(1-3)])
    then show ?thesis using mono by (intro exI [of _ g']) simp
  qed
  define R1 where "R1 = persist (accept_leader t R)"
  define C1 where "C1 = set_srv p R1 C"
  have P: "srv C1 p = R1" by (simp add: C1_def)
  have inv1: "Inv n C1 g" if "currentTerm R \<le> t"
    using Inv_accept_leader [OF inv p, of t] that by (simp add: C1_def R1_def R_def)
  from wf show ?thesis
  proof (cases rule: InstallSnapshot_cases [where args = args])
    case stale
    then have "rf = srv C p" "\<not> isr_Term reply \<le> t" using run T R_def by auto
    then show ?thesis using replied [of g] inv ok by simp
  next
    case old
    then have T1: "currentTerm R \<le> t" and rf: "rf = R1" using run T by (simp_all add: R1_def)
    have "acked_upto g p t (is_LastIncludedIndex args)"
      using old_snapshot_acked [OF inv1 [OF T1] p _ ok] old(2) T1 unfolding P by (simp add: R1_def)
    then show ?thesis using replied [of g] inv1 [OF T1] ok by (simp add: C1_def rf)
  next
    case (install rf' k)
    have T1: "currentTerm R \<le> t" using install(1) T by simp
    have rfe: "rf' = rf" using install(4) run by simp
    note inst = install(1-3,5-7) [unfolded rfe T]
    note inv1 = inv1 [OF T1]
    note ok1 = InvD(2) [OF inv1 p, unfolded P] and lwf = Inv_wf [OF inv]
    define b where "b = lastIncludedIndex R"
    define w where "w = is_node args"
    have R1: "currentTerm R1 = t" "log R1 = log R" "lastIncludedIndex R1 = b"
      "commitIndex R1 = commitIndex R" "lastApplied R1 = lastApplied R"
      "votedFor R1 = votedFor (accept_leader t R)" "peers R1 = peers R" "me R1 = me R"
      using T1 by (simp_all add: R1_def b_def)
    have lnk: "links_of b (log R) \<subseteq> links g" using srv_invD(4) [OF ok1] by (simp add: R1)
    have lastR1: "last_node R1 = top_of b (log R)" by (simp add: last_node_def R1)
    have k: "is_LastIncludedIndex args = b + int k" "0 < k"
      using inst(2,3) by (simp_all add: b_def)
    let ?hit = "k < length (log R) \<and> le_Term (log R ! k) = is_LastIncludeTerm args"
    let ?dummy = "\<lparr>le_Term = is_LastIncludeTerm args, le_Command = None\<rparr>"
    have f: "log rf = (if ?hit then drop k (log R) else [?dummy])"
      "lastIncludedIndex rf = is_LastIncludedIndex args"
      "lastIncludeTerm rf = is_LastIncludeTerm args"
      "commitIndex rf = max (commitIndex R) (is_LastIncludedIndex args)"
      "lastApplied rf = lastApplied R" "state rf = Follower" "currentTerm rf = t"
      "votedFor rf = votedFor R1" "peers rf = peers R" "me rf = me R"
      "nextIndex rf = nextIndex R" "matchIndex rf = matchIndex R"
      by ((subst inst(4), simp add: T1 R1(6))+)
    have "(last_node rf = last_node R1 \<or> last_node rf = w \<and> \<not> anc (links g) w (last_node R1)) \<and>
        anc (links g) w (last_node rf) \<and> links_of (lastIncludedIndex rf) (log rf) \<subseteq> links g"
    proof (cases ?hit)
      case True
      then have "node_at b (log R) k = w" by (simp add: node_at_def w_def is_node_def k)
      then show ?thesis
        using True path_anc_top [OF lnk, of k] top_of_drop [of k "log R" b]
          links_of_drop [of k "log R" b] lnk
        by (auto simp: f k(1) last_node_def lastR1 R1)
    next
      case False
      have "\<not> anc (links g) w (top_of b (log R))"
      proof
        assume "anc (links g) w (top_of b (log R))"
        moreover have "log R \<noteq> []" "b \<le> fst w" using wf k by (auto simp: w_def is_node_def)
        ultimately have "nat (fst w - b) < length (log R)" "w = node_at b (log R) (nat (fst w - b))"
          using path_nth [OF lwf lnk] by blast+
        then show False using False k by (simp add: w_def is_node_def node_at_def)
      qed
      moreover have "last_node rf = w"
        using False by (auto simp: f last_node_def top_of_def w_def is_node_def)
      ultimately show ?thesis using False by (auto simp: f links_of_def lastR1)
    qed
    then have new: "last_node rf = last_node R1 \<or> last_node rf = w \<and> \<not> anc (links g) w (last_node R1)"
      and top: "anc (links g) w (last_node rf)"
      and links: "links_of (lastIncludedIndex rf) (log rf) \<subseteq> links g" by blast+
    obtain L where L: "(t, l, L) \<in> ldrs g" using ok by (auto simp: is_ok_def)
    have w: "on_chain g t w" "covered n g t w" using ok by (simp_all add: is_ok_def w_def)
    have dur: "durable rf" by (rule durable_saved [OF inst(5)])
    have "raft_wf n p rf"
      using wf k(2) ok by (auto simp: raft_wf_def f is_ok_def)
    moreover have low: "lastApplied R \<le> commitIndex R"
      using srv_invD(7) [OF ok1] by (simp add: commit_inv_def R1)
    moreover have "fst w = is_LastIncludedIndex args" by (simp add: w_def is_node_def)
    ultimately have move: "Inv n (set_srv p rf C1) (add_acks (own_acks g p rf) g)"
        "acked_upto (add_acks (own_acks g p rf) g) p t (fst w)"
      by (intro Inv_replace [OF inv1 p P [symmetric] R1(1) L w(1) new top anc_refl w(2) _ dur links
            _ _ _ _ _ _ refl]; simp add: f R1)+
    show ?thesis
      using replied [of "add_acks (own_acks g p rf) g"] move is_ok_add_acks [OF ok]
      by (simp add: C1_def w_def is_node_def)
  qed
qed

end
