(* ===== verification/RaftSafety.thy ===== *)
theory RaftSafety
  imports RaftRepl
begin

text \<open>
  The remaining steps (new commands, snapshots, the applier, crashes), the invariant of every
  reachable cluster, and the theorems about Raft that follow from it.
\<close>

section \<open>Start, Snapshot and the applier\<close>

lemma Inv_start:
  assumes inv: "Inv n C g" and s: "peer n s" and run: "Start command (srv C s) = (rf, result)"
  shows "\<exists>g'. Inv n (set_srv s rf C) g' \<and> ldrs g \<subseteq> ldrs g'"
proof (cases "state (srv C s) = Leader")
  case False
  then have "rf = srv C s" using run by (simp add: Start_def)
  then show ?thesis using inv by auto
next
  case True
  define R where "R = srv C s"
  let ?R1 = "R\<lparr>log := log R @ [\<lparr>le_Term = currentTerm R, le_Command = command\<rparr>]\<rparr>"
  have rf: "rf = (persist ?R1)\<lparr>replicateCh := 1\<rparr>"
    using run True by (simp add: Start_def R_def Let_def)
  have "durable rf = durable (persist ?R1)" unfolding rf by (rule durable_cong) simp_all
  then have "durable rf" by simp
  moreover have "rf = R\<lparr>log := log R @ [\<lparr>le_Term = currentTerm R, le_Command = command\<rparr>],
      persister := persister (persist ?R1), replicateCh := 1\<rparr>"
    by (simp add: rf persist_def)
  ultimately have "Inv n (set_srv s rf C)
      (g\<lparr>links := insert (lastLogIndex R + 1, currentTerm R, command, snd (last_node R)) (links g),
         acks := insert (s, lastLogIndex R + 1, currentTerm R) (acks g)\<rparr>)"
    unfolding R_def by (intro Inv_append_own [OF inv s True refl _ _ refl refl])
  then show ?thesis by (intro exI conjI) auto
qed

text \<open>Changes of a peer that keep its term, vote, role and last node.\<close>

lemma srv_inv_trim:
  assumes ok: "srv_inv n g s rf" and wf: "raft_wf n s rf'" and dur: "durable rf'"
    and links: "links_of (lastIncludedIndex rf') (log rf') \<subseteq> links g"
    and last: "last_node rf' = last_node rf"
    and same: "currentTerm rf' = currentTerm rf" "votedFor rf' = votedFor rf" "state rf' = state rf"
      "matchIndex rf' = matchIndex rf" "commitIndex rf' = commitIndex rf"
    and low: "lastIncludedIndex rf' \<le> commitIndex rf" "lastApplied rf' \<le> commitIndex rf"
  shows "srv_inv n g s rf'"
proof -
  have "commit_inv n g rf'"
    using srv_invD(7) [OF ok] low by (simp add: commit_inv_def same last)
  moreover have "leader_inv n g s rf'" if "state rf = Leader"
    using srv_invD(8) [OF ok that] by (simp add: leader_inv_def same last flip: fst_last_node)
  ultimately show ?thesis using ok wf dur links by (simp add: srv_inv_def same last)
qed

lemma Inv_trim:
  assumes inv: "Inv n C g" and s: "peer n s" and wf: "raft_wf n s rf'" and dur: "durable rf'"
    and links: "links_of (lastIncludedIndex rf') (log rf') \<subseteq> links g"
    and last: "last_node rf' = last_node (srv C s)"
    and same: "currentTerm rf' = currentTerm (srv C s)" "votedFor rf' = votedFor (srv C s)"
      "state rf' = state (srv C s)" "matchIndex rf' = matchIndex (srv C s)"
      "commitIndex rf' = commitIndex (srv C s)"
    and low: "lastIncludedIndex rf' \<le> commitIndex (srv C s)" "lastApplied rf' \<le> commitIndex (srv C s)"
  shows "Inv n (set_srv s rf' C) g"
  using srv_inv_trim [OF InvD(2) [OF inv s] wf dur links last same low]
  by (intro Inv_set_same [OF inv s]) (simp_all add: same last)

lemma commit_bounds:
  assumes "Inv n C g" "peer n s"
  shows "lastIncludedIndex (srv C s) \<le> commitIndex (srv C s)"
    "lastApplied (srv C s) \<le> commitIndex (srv C s)"
  using srv_invD(7) [OF InvD(2) [OF assms]] by (simp_all add: commit_inv_def)

lemma Inv_snapshot:
  assumes inv: "Inv n C g" and s: "peer n s" and idx: "index \<le> lastApplied (srv C s)"
    and run: "Snapshot index snap (srv C s) = Some rf"
  shows "Inv n (set_srv s rf C) g"
  using srv_wf [OF inv s]
proof (cases rule: Snapshot_cases [where index = index and snap = snap])
  case keep
  then have "rf = srv C s" using run by simp
  then show ?thesis using inv by simp
next
  case (cut rf' k)
  define R where "R = srv C s"
  note wf = srv_wf [OF inv s, folded R_def]
  have e: "rf' = rf" using cut(1) run by simp
  obtain pz where rf: "rf = R\<lparr>lastIncludeTerm := le_Term (log R ! k), lastIncludedIndex := index,
      log := drop k (log R), persister := pz\<rparr>" using cut(6) unfolding e R_def by blast
  have k: "k < length (log R)" "index = lastIncludedIndex R + int k"
    using cut(2,4,5) by (simp_all add: R_def)
  have dur: "durable rf"
    using durable_Snapshot [OF wf srv_invD(2) [OF InvD(2) [OF inv s, folded R_def]]] run R_def by blast
  have links: "links_of index (drop k (log R)) \<subseteq> links g"
    using links_of_drop [OF k(1)] srv_invD(4) [OF InvD(2) [OF inv s]] unfolding k(2) R_def by blast
  show ?thesis
  proof (rule Inv_trim [OF inv s _ dur])
    show "raft_wf n s rf" using wf k by (auto simp: raft_wf_def rf)
    show "last_node rf = last_node (srv C s)"
      using top_of_drop [OF k(1), of "lastIncludedIndex R"] by (simp add: rf last_node_def k(2) R_def)
    show "lastIncludedIndex rf \<le> commitIndex (srv C s)"
      using idx commit_bounds [OF inv s] by (simp add: rf)
    show "lastApplied rf \<le> commitIndex (srv C s)" using commit_bounds [OF inv s] by (simp add: rf R_def)
  qed (use links in \<open>simp_all add: rf R_def\<close>)
qed

lemma Inv_lastApplied:
  assumes inv: "Inv n C g" and s: "peer n s" and k: "k \<le> commitIndex (srv C s)"
  shows "Inv n (set_srv s ((srv C s)\<lparr>lastApplied := k\<rparr>) C) g"
proof (rule Inv_trim [OF inv s])
  note ok = InvD(2) [OF inv s]
  show "durable ((srv C s)\<lparr>lastApplied := k\<rparr>)"
    by (rule durable_cong [THEN iffD2, OF _ _ _ _ _ _ _ _ srv_invD(2) [OF ok]]) simp_all
  show "raft_wf n s ((srv C s)\<lparr>lastApplied := k\<rparr>)"
    using srv_wf [OF inv s] by (simp add: raft_wf_def)
qed (use srv_invD(4) [OF InvD(2) [OF inv s]] commit_bounds [OF inv s] k
      in \<open>simp_all add: last_node_def\<close>)

lemma Inv_applying:
  assumes inv: "Inv n C g"
  shows "Inv n (C\<lparr>applying := A\<rparr>) g"
  by (rule Inv_msgs [OF inv]) (use InvD [OF inv] in simp_all)

lemma Inv_applyCh:
  assumes inv: "Inv n C g" and m: "am_CommandValid m \<Longrightarrow> delivered_ok n g m"
  shows "Inv n (C\<lparr>applyCh := (applyCh C)(s := applyCh C s @ [m])\<rparr>) g"
proof (rule Inv_msgs [OF inv])
  show "apply_inv n (C\<lparr>applyCh := (applyCh C)(s := applyCh C s @ [m])\<rparr>) g"
    using InvD(9) [OF inv] m by (auto simp: apply_inv_def)
qed (use InvD [OF inv] in simp_all)

text \<open>The applier sends only committed entries.\<close>

lemma delivered_entry:
  assumes inv: "Inv n C g" and s: "peer n s" and R: "R = srv C s"
    and i: "i \<le> commitIndex R" "lastIncludedIndex R < i"
      "nat (i - lastIncludedIndex R) < length (log R)"
    and e: "e = log R ! nat (i - lastIncludedIndex R)"
  shows "delivered_ok n g (command_msg i (le_Command e))"
proof -
  note ok = InvD(2) [OF inv s, folded R] and lwf = Inv_wf [OF inv]
  let ?b = "lastIncludedIndex R" and ?k = "nat (i - lastIncludedIndex R)"
  have "(?b + int ?k, le_Term e, le_Command e, le_Term (log R ! (?k - 1))) \<in> links g"
    using links_ofI [of ?k "log R" ?b] srv_invD(4) [OF ok] i(2,3) e by auto
  then have link: "(i, le_Term e, le_Command e, le_Term (log R ! (?k - 1))) \<in> links g"
    using i(2) by simp
  have "node_at ?b (log R) ?k = (i, le_Term e)" using i(2) e by (simp add: node_at_def)
  then have ti: "anc (links g) (i, le_Term e) (last_node R)"
    using path_anc_top [OF srv_invD(4) [OF ok] i(3)] by (simp add: last_node_def)
  obtain m where m: "fst m = commitIndex R" "anc (links g) m (last_node R)"
    "covered n g (currentTerm R) m" using commit_node [OF lwf ok] by metis
  have im: "anc (links g) (i, le_Term e) m" using anc_linear [OF lwf ti m(2)] i(1) m(1) by simp
  have "m \<noteq> (0, 0)" using m(1) i raft_wfD(8) [OF srv_invD(1) [OF ok]] by auto
  then obtain d where d: "committed n g d" "anc (links g) m d" using m(3) unfolding covered_def by blast
  have "anc (links g) (i, le_Term e) d" using im d(2) by (rule anc_trans)
  then show ?thesis unfolding delivered_ok_def command_msg_def using link d(1) by auto
qed

lemma Inv_apply_step:
  assumes inv: "Inv n C g" and s: "peer n s" and run: "applier_step (srv C s) = Some (rf, act)"
  shows "Inv n (deliver s act (set_srv s rf C)) g"
proof -
  define R where "R = srv C s"
  note wf = srv_wf [OF inv s, folded R_def] and run = run [folded R_def]
  show ?thesis
  proof (cases "lastApplied R < commitIndex R")
    case False
    then have "rf = R" "act = ApplyIdle" using run by (simp_all add: applier_step_def)
    then show ?thesis using inv by (simp add: deliver_def R_def)
  next
    case more: True
    show ?thesis
    proof (cases "lastApplied R < lastIncludedIndex R")
      case True
      then have "rf = R" "act = ApplySnapshot (snapshot_msg R)"
        using run more by (auto simp: applier_step_def)
      then show ?thesis
        using Inv_applying [OF Inv_applyCh [OF inv, of "snapshot_msg R" s]]
        by (simp add: deliver_def R_def snapshot_msg_def)
    next
      case False
      let ?i = "lastApplied R + 1"
      let ?rf = "R\<lparr>lastApplied := ?i\<rparr>" and ?si = "?i - lastIncludedIndex R"
      have moved: "Inv n (set_srv s ?rf C) g"
        using Inv_lastApplied [OF inv s, of ?i] more by (simp add: R_def)
      show ?thesis
      proof (cases "?si \<le> 0 \<or> int (length (log R)) \<le> ?si")
        case True
        then have "rf = ?rf" "act = ApplySkip"
          using run more False by (auto simp: applier_step_def sliceIndex_def Let_def)
        then show ?thesis using moved by (simp add: deliver_def)
      next
        case in_log: False
        then have "rf = ?rf" "act = ApplyCommand (command_msg ?i (le_Command (log R ! nat ?si)))"
          using run more False by (auto simp: applier_step_def sliceIndex_def Let_def go_simps)
        moreover have "delivered_ok n g (command_msg ?i (le_Command (log R ! nat ?si)))"
          by (rule delivered_entry [OF inv s R_def _ _ _ refl]) (use more in_log in auto)
        ultimately show ?thesis
          using Inv_applyCh [OF moved, of "command_msg ?i (le_Command (log R ! nat ?si))" s]
          by (simp add: deliver_def)
      qed
    qed
  qed
qed

lemma Inv_apply_resume:
  assumes "Inv n C g" "peer n s"
  shows "Inv n ((set_srv s (applier_resume (srv C s)) C)\<lparr>applying := A\<rparr>) g"
  using Inv_applying [OF Inv_lastApplied [OF assms commit_bounds(1) [OF assms]]]
  by (simp add: applier_resume_def)

section \<open>Crashes\<close>

lemma Inv_crash:
  assumes inv: "Inv n C g" and s: "peer n s"
  shows "Inv n (crash s C) g"
proof -
  define R where "R = srv C s"
  define C1 where "C1 = set_srv s (restart R) C"
  note ok = InvD(2) [OF inv s, folded R_def] and lwf = Inv_wf [OF inv]
  note dur = durableD [OF srv_invD(2) [OF ok]]
  have last: "last_node (restart R) = last_node R" by (simp add: last_node_def dur)
  have "commit_inv n g (restart R)"
    using base_covered [OF lwf ok] base_anc_last [OF ok]
    unfolding commit_inv_def last
    by (intro conjI exI [of _ "base_node R"]) (simp_all add: dur base_node_def)
  then have "srv_inv n g s (restart R)"
    using ok wf_restart [OF srv_invD(1) [OF ok] srv_invD(2) [OF ok]] durable_restart
    by (simp add: srv_inv_def last dur)
  then have inv1: "Inv n C1 g"
    unfolding C1_def by (intro Inv_set_same [OF inv s]) (simp_all add: R_def [symmetric] dur last)
  let ?D = "C1\<lparr>asks := (\<lambda>(c, t, p). if c = s then AskDone else asks C (c, t, p)),
               applying := (applying C)(s := False)\<rparr>"
  have "count_inv n ?D g"
  proof (rule count_invI)
    fix c assume c: "peer n c" "state (srv ?D c) = Candidate"
    then have "c \<noteq> s" "state (srv C1 c) = Candidate" by (auto simp: C1_def)
    from count_invD(1) [OF InvD(6) [OF inv1] c(1) this(2)] this(1)
    show "\<exists>Q. Q \<subseteq> {0..<n} \<and> c \<in> Q \<and> int (card Q) = numGetVoted ?D (c, currentTerm (srv ?D c)) \<and>
        (\<forall>p\<in>Q. (\<exists>v. (p, currentTerm (srv ?D c), c, v) \<in> votes g) \<and>
               (p = c \<or> asks ?D (c, currentTerm (srv ?D c), p) = AskDone))"
      by (simp add: C1_def)
  next
    show "peer n p \<and> p \<noteq> c" if "peer n c" "asks ?D (c, t, p) = AskReady" for c t p
      using that count_invD(2) [OF InvD(6) [OF inv], of c t p] by (auto split: if_splits)
    show "peer n p \<and> p \<noteq> c" if "peer n c" "asks ?D (c, t, p) = AskSent a" for c t p a
      using that count_invD(3) [OF InvD(6) [OF inv], of c t p a] by (auto split: if_splits)
  qed
  then have "Inv n ?D g"
    by (intro Inv_msgs [OF inv1]) (use InvD [OF inv1] in simp_all)
  then show ?thesis by (simp add: crash_def C1_def R_def)
qed

section \<open>Every reachable cluster satisfies the invariant\<close>

lemma Inv_init:
  "Inv n (init_cluster n :: ('c, 's) cluster) \<lparr>links = {}, votes = {}, ldrs = {}, acks = {}\<rparr>"
proof -
  let ?C = "init_cluster n :: ('c, 's) cluster"
  let ?M = "\<lambda>s. Make n s MakePersister :: ('c, 's) Raft"
  let ?g = "\<lparr>links = {}, votes = {}, ldrs = {}, acks = {}\<rparr> :: 'c ghost"
  have m: "?M s =
      \<lparr>peers = n, persister = MakePersister, me = s, dead = False, state = Follower,
        currentTerm = 0, votedFor = -1, log = [\<lparr>le_Term = 0, le_Command = None\<rparr>],
        lastIncludedIndex = 0, lastIncludeTerm = 0, commitIndex = 0, lastApplied = 0,
        nextIndex = replicate (nat n) 0, matchIndex = replicate (nat n) 0,
        electionGen = 0, replicateCh = 0\<rparr>" for s
    by (simp add: Make_def readPersist_def)
  have last: "last_node (?M s) = (0, 0)" for s
    by (simp add: m last_node_def top_of_def)
  have nodes: "nodes {} = {(0, 0)}" by (simp add: nodes_def)
  have f: "currentTerm (?M s) = 0" "votedFor (?M s) = -1"
    "log (?M s) = [\<lparr>le_Term = 0, le_Command = None\<rparr>]"
    "lastIncludedIndex (?M s) = 0" for s
    by (simp_all add: m)
  have "srv_inv n ?g s (?M s)" if "peer n s" for s
  proof -
    have "commit_inv n ?g (?M s)"
      unfolding commit_inv_def last by (intro conjI exI [of _ "(0, 0)"]) (simp_all add: f covered_def)
    then show ?thesis
      using wf_Make_fresh [of s n] peer_bounds [OF that] durable_Make [of n s MakePersister]
      by (simp add: srv_inv_def last f links_of_def)
  qed
  moreover have "tree_inv n ?g" by (auto simp: tree_inv_def nodes)
  moreover have "vote_inv n ?C ?g" "ack_inv n ?C ?g"
    by (simp_all add: vote_inv_def ack_inv_def init_cluster_def f)
  moreover have "ldr_inv n ?C ?g" "count_inv n ?C ?g"
    "rv_inv n ?C ?g" "msg_inv n ?C ?g" "apply_inv n ?C ?g"
    by (simp_all add: ldr_inv_def count_inv_def rv_inv_def msg_inv_def apply_inv_def
        init_cluster_def)
  moreover have "srv ?C = ?M"
    by (simp add: init_cluster_def)
  ultimately show ?thesis by (simp add: Inv_def)
qed

lemma Inv_cstep: "cstep n C D \<Longrightarrow> Inv n C g \<Longrightarrow> \<exists>g'. Inv n D g' \<and> ldrs g \<subseteq> ldrs g'"
proof (induction rule: cstep.induct)
  case (timeout s C gen rf t)
  then show ?case using Inv_timeout by blast
next
  case (ask_stop c C t p)
  then show ?case using Inv_ask_move [of n C g c t p AskDone] by blast
next
  case (ask_send c C t p args)
  then show ?case using Inv_ask_send by blast
next
  case (rv_handle p c t args C rf reply)
  then show ?case using Inv_rv_handle by blast
next
  case (ask_lost c C t p args)
  then show ?case using Inv_ask_move [of n C g c t p AskDone] by blast
next
  case (ask_recv c C t p args reply rf num)
  then show ?case using Inv_ask_recv by blast
next
  case (heartbeat l p t C rf m)
  then show ?case using Inv_heartbeat by blast
next
  case (ae_handle p l t args C rf reply)
  then show ?case using Inv_ae_handle by blast
next
  case (ae_recv l t p args reply C rf)
  then show ?case using Inv_ae_recv by blast
next
  case (is_handle p l t args C rf reply)
  then show ?case using Inv_is_handle by blast
next
  case (is_recv l t p args reply C rf)
  then show ?case using Inv_is_recv by blast
next
  case (start s command C rf result)
  then show ?case using Inv_start by blast
next
  case (snapshot s index C snap rf)
  then show ?case using Inv_snapshot by blast
next
  case (apply_step s C rf act)
  then show ?case using Inv_apply_step by blast
next
  case (apply_resume s C)
  then show ?case using Inv_apply_resume by blast
next
  case (crash_restart s C)
  then show ?case using Inv_crash by blast
qed

text \<open>The elections of the past stay in the history.\<close>

lemma Inv_csteps:
  assumes "(cstep n)\<^sup>*\<^sup>* C D" "Inv n C g"
  shows "\<exists>g'. Inv n D g' \<and> ldrs g \<subseteq> ldrs g'"
  using assms
proof (induction rule: rtranclp_induct)
  case (step D E)
  then obtain g1 where "Inv n D g1" "ldrs g \<subseteq> ldrs g1" by blast
  then show ?case using Inv_cstep [OF step.hyps(2)] by (meson order_trans)
qed blast

theorem reachable_Inv: "reachable n C \<Longrightarrow> \<exists>g. Inv n C g"
proof (induction rule: reachable.induct)
  case init
  show ?case using Inv_init by blast
next
  case (step C D)
  then show ?case using Inv_cstep by blast
qed

end
