(* ===== verification/RaftDemo.thy ===== *)
theory RaftDemo
  imports RaftCluster
begin

text \<open>
  A run of a cluster of three peers, evaluated step by step: peer 0 is elected in term 1 by
  peer 1, appends the command 7, replicates it to peer 1, commits and applies it.  The
  theorems about reachable clusters are instantiated at its states.
\<close>

definition demo_peer :: "int \<Rightarrow> ServerState \<Rightarrow> 'c LogEntry list \<Rightarrow> int \<Rightarrow> int \<Rightarrow> int list \<Rightarrow> int list \<Rightarrow>
    int \<Rightarrow> nat \<Rightarrow> ('c, 's) Raft" where
  "demo_peer i st lg ci la ni mi eg rc =
     \<lparr>peers = 3, persister = \<lparr>ps_raftstate = [GobInt 1, GobInt 0, GobLog lg, GobInt 0, GobInt 0],
        ps_snapshot = []\<rparr>, me = i, dead = False, state = st, currentTerm = 1, votedFor = 0,
      log = lg, lastIncludedIndex = 0, lastIncludeTerm = 0, commitIndex = ci, lastApplied = la,
      nextIndex = ni, matchIndex = mi, electionGen = eg, replicateCh = rc\<rparr>"

definition demo_log_of :: "'c \<Rightarrow> 'c LogEntry list" where
  "demo_log_of c = [\<lparr>le_Term = 0, le_Command = None\<rparr>, \<lparr>le_Term = 1, le_Command = Some c\<rparr>]"

definition demo_vote :: RequestVoteArgs where
  "demo_vote = \<lparr>rv_Term = 1, rv_CandidateId = 0, rv_LastLogIndex = 0, rv_LastLogTerm = 0\<rparr>"

definition demo_append_of :: "'c \<Rightarrow> 'c AppendEntriesArgs" where
  "demo_append_of c = \<lparr>ae_Term = 1, ae_LeaderId = 0, ae_PreLogIndex = 0, ae_PrevLogTerm = 0,
     ae_Entries = [\<lparr>le_Term = 1, le_Command = Some c\<rparr>], ae_LeaderCommit = 0\<rparr>"

lemmas demo_defs = demo_peer_def demo_log_of_def demo_vote_def demo_append_of_def

section \<open>The operations, evaluated\<close>

lemma demo_timeout:
  "ticker_fire 0 (Make 3 0 MakePersister) =
     (demo_peer 0 Candidate [\<lparr>le_Term = 0, le_Command = None\<rparr>] 0 0 [0, 0, 0] [0, 0, 0] 0 0, Some 1)"
  by (simp add: ticker_fire_def Make_def readPersist_def demo_defs persist_def encode_state_def
      Save_def ReadSnapshot_def ReadRaftState_def MakePersister_def numeral_3_eq_3)

lemma demo_prepare:
  "ask_prepare 1 (demo_peer 0 Candidate [\<lparr>le_Term = 0, le_Command = None\<rparr>] 0 0 ni mi 0 0) =
     Some (Some demo_vote)"
  by (simp add: ask_prepare_def demo_defs lastLogTerm_def lastLogIndex_def go_get_def)

lemma demo_RequestVote:
  "RequestVote demo_vote (Make 3 1 MakePersister) =
     Some (demo_peer 1 Follower [\<lparr>le_Term = 0, le_Command = None\<rparr>] 0 0 [0, 0, 0] [0, 0, 0] 1 0,
           \<lparr>rvr_Term = 1, rvr_VoteGranted = True\<rparr>)"
  by (simp add: RequestVote_def Make_def readPersist_def demo_defs persist_def encode_state_def
      Save_def ReadSnapshot_def ReadRaftState_def MakePersister_def lastLogTerm_def lastLogIndex_def go_get_def
      numeral_3_eq_3 Let_def)

lemma demo_elected:
  "ask_reply 1 \<lparr>rvr_Term = 1, rvr_VoteGranted = True\<rparr> 1
     (demo_peer 0 Candidate [\<lparr>le_Term = 0, le_Command = None\<rparr>] 0 0 [0, 0, 0] [0, 0, 0] 0 0) =
     Some (demo_peer 0 Leader [\<lparr>le_Term = 0, le_Command = None\<rparr>] 0 0 [1, 1, 1] [0, 0, 0] 0 0, 2)"
  by (simp add: ask_reply_def demo_defs become_leader_def peer_ids_def upto_rec1 go_set_def
      lastLogIndex_def)

lemma demo_Start:
  "Start (Some c) (demo_peer 0 Leader [\<lparr>le_Term = 0, le_Command = None\<rparr>] 0 0 [1, 1, 1] [0, 0, 0] 0 0) =
     (demo_peer 0 Leader (demo_log_of c) 0 0 [1, 1, 1] [0, 0, 0] 0 1, 1, 1, True)"
  by (simp add: Start_def demo_defs persist_def encode_state_def Save_def ReadSnapshot_def
      lastLogIndex_def Let_def)

lemma demo_send:
  "hb_send 1 1 (demo_peer 0 Leader (demo_log_of c) 0 0 [1, 1, 1] [0, 0, 0] 0 1) =
     Some (demo_peer 0 Leader (demo_log_of c) 0 0 [1, 1, 1] [0, 0, 0] 0 1, HbAppend (demo_append_of c))"
  by (simp add: hb_send_def demo_defs clamp_next_def make_append_def lastLogIndex_def go_get_def
      go_set_def go_from_def sliceIndex_def Let_def)

lemma demo_AppendEntries:
  "AppendEntries (demo_append_of c)
     (demo_peer 1 Follower [\<lparr>le_Term = 0, le_Command = None\<rparr>] 0 0 [0, 0, 0] [0, 0, 0] 1 0) =
     Some (demo_peer 1 Follower (demo_log_of c) 0 0 [0, 0, 0] [0, 0, 0] 2 0,
           zero_reply\<lparr>aer_Term := 1, aer_XLen := -1, aer_Success := True\<rparr>)"
  by (simp add: AppendEntries_def demo_defs persist_def encode_state_def Save_def ReadSnapshot_def
      lastLogIndex_def go_get_def sliceIndex_def accept_leader_def check_prev_def
      append_and_commit_def zero_reply_def Let_def)

lemma demo_reply:
  "hb_append_reply 1 1 (demo_append_of c) (zero_reply\<lparr>aer_Term := 1, aer_XLen := -1, aer_Success := True\<rparr>)
     (demo_peer 0 Leader (demo_log_of c) 0 0 [1, 1, 1] [0, 0, 0] 0 1) =
     Some (demo_peer 0 Leader (demo_log_of c) 1 0 [1, 2, 1] [0, 1, 0] 0 1)"
  by (simp add: hb_append_reply_def hb_accepted_def demo_defs lastLogIndex_def go_get_def go_set_def
      sliceIndex_def zero_reply_def commit_loop.simps peer_ids_def upto_rec1 Let_def)

lemma demo_apply:
  "applier_step (demo_peer 0 Leader (demo_log_of c) 1 0 [1, 2, 1] [0, 1, 0] 0 1) =
     Some (demo_peer 0 Leader (demo_log_of c) 1 1 [1, 2, 1] [0, 1, 0] 0 1, ApplyCommand (command_msg 1 (Some c)))"
  by (simp add: applier_step_def demo_defs go_get_def sliceIndex_def Let_def)

section \<open>The run\<close>

definition demo_elect_of :: "('c, 's) cluster" where
  "demo_elect_of =
     (let C1 = start_asks 3 0 1 (set_srv 0 (demo_peer 0 Candidate [\<lparr>le_Term = 0, le_Command = None\<rparr>]
                 0 0 [0, 0, 0] [0, 0, 0] 0 0) (init_cluster 3));
          C2 = C1\<lparr>asks := (asks C1)((0, 1, 1) := AskSent demo_vote),
                 rv_reqs := insert (0, 1, 1, demo_vote) (rv_reqs C1)\<rparr>;
          C3 = (set_srv 1 (demo_peer 1 Follower [\<lparr>le_Term = 0, le_Command = None\<rparr>]
                 0 0 [0, 0, 0] [0, 0, 0] 1 0) C2)
               \<lparr>rv_reps := insert (0, 1, 1, \<lparr>rvr_Term = 1, rvr_VoteGranted = True\<rparr>) (rv_reps C2)\<rparr>
      in (set_srv 0 (demo_peer 0 Leader [\<lparr>le_Term = 0, le_Command = None\<rparr>]
            0 0 [1, 1, 1] [0, 0, 0] 0 0) C3)
           \<lparr>numGetVoted := (numGetVoted C3)((0, 1) := 2), asks := (asks C3)((0, 1, 1) := AskDone)\<rparr>)"

definition demo_started_of :: "'c \<Rightarrow> ('c, 's) cluster" where
  "demo_started_of c = set_srv 0 (demo_peer 0 Leader (demo_log_of c) 0 0 [1, 1, 1] [0, 0, 0] 0 1) demo_elect_of"

definition demo_replicate_of :: "'c \<Rightarrow> ('c, 's) cluster" where
  "demo_replicate_of c =
     (let C6 = send_hb 0 1 1 (HbAppend (demo_append_of c))
                 (set_srv 0 (demo_peer 0 Leader (demo_log_of c) 0 0 [1, 1, 1] [0, 0, 0] 0 1) (demo_started_of c))
      in (set_srv 1 (demo_peer 1 Follower (demo_log_of c) 0 0 [0, 0, 0] [0, 0, 0] 2 0) C6)
           \<lparr>ae_reps := insert (0, 1, 1, (demo_append_of c),
              zero_reply\<lparr>aer_Term := 1, aer_XLen := -1, aer_Success := True\<rparr>) (ae_reps C6)\<rparr>)"

definition demo_final_of :: "'c \<Rightarrow> ('c, 's) cluster" where
  "demo_final_of c =
     (let C8 = set_srv 0 (demo_peer 0 Leader (demo_log_of c) 1 0 [1, 2, 1] [0, 1, 0] 0 1) (demo_replicate_of c)
      in deliver 0 (ApplyCommand (command_msg 1 (Some c)))
           (set_srv 0 (demo_peer 0 Leader (demo_log_of c) 1 1 [1, 2, 1] [0, 1, 0] 0 1) C8))"

lemma peer3 [simp]: "peer 3 0" "peer 3 1" "peer 3 2"
  by (simp_all add: peer_def)

lemma init_cluster_simps [simp]:
  "srv (init_cluster n) s = Make n s MakePersister" "asks (init_cluster n) k = AskIdle"
  "rv_reqs (init_cluster n) = {}" "rv_reps (init_cluster n) = {}" "ae_reqs (init_cluster n) = {}"
  "ae_reps (init_cluster n) = {}" "is_reqs (init_cluster n) = {}" "is_reps (init_cluster n) = {}"
  "applying (init_cluster n) = (\<lambda>_. False)" "applyCh (init_cluster n) = (\<lambda>_. [])"
  by (simp_all add: init_cluster_def)

text \<open>Steps of the peers alone, none of which is sending a snapshot.\<close>

definition demo_step :: "('c, 's) cluster \<Rightarrow> ('c, 's) cluster \<Rightarrow> bool" where
  "demo_step C D \<longleftrightarrow> peer_step 3 C D \<and> (\<forall>s. \<not> applying C s)"

lemma demo_steps_cstep: "demo_step\<^sup>*\<^sup>* C D \<Longrightarrow> (cstep 3)\<^sup>*\<^sup>* C D"
  by (induction rule: rtranclp_induct)
    (auto simp: demo_step_def cstep_split intro: rtranclp.rtrancl_into_rtrancl)

lemma demo_elect_steps: "demo_step\<^sup>*\<^sup>* (init_cluster 3 :: ('c, 's) cluster) demo_elect_of"
proof -
  define C1 where "C1 = start_asks 3 0 1 (set_srv 0 (demo_peer 0 Candidate [\<lparr>le_Term = 0, le_Command = None\<rparr>]
     0 0 [0, 0, 0] [0, 0, 0] 0 0) (init_cluster 3 :: ('c, 's) cluster))"
  define C2 where "C2 = C1\<lparr>asks := (asks C1)((0, 1, 1) := AskSent demo_vote),
     rv_reqs := insert (0, 1, 1, demo_vote) (rv_reqs C1)\<rparr>"
  define C3 where "C3 = (set_srv 1 (demo_peer 1 Follower [\<lparr>le_Term = 0, le_Command = None\<rparr>]
     0 0 [0, 0, 0] [0, 0, 0] 1 0) C2)
     \<lparr>rv_reps := insert (0, 1, 1, \<lparr>rvr_Term = 1, rvr_VoteGranted = True\<rparr>) (rv_reps C2)\<rparr>"
  have "peer_step 3 (init_cluster 3) C1" unfolding C1_def
    by (rule p_timeout [of _ _ 0]) (simp_all add: demo_timeout)
  moreover have "peer_step 3 C1 C2" unfolding C2_def
    by (rule p_ask_send) (simp_all add: C1_def demo_prepare)
  moreover have "peer_step 3 C2 C3" unfolding C3_def
    by (rule p_rv_handle [where args = demo_vote])
      (simp_all add: C2_def C1_def demo_RequestVote)
  moreover have "peer_step 3 C3 demo_elect_of"
    unfolding demo_elect_of_def Let_def C1_def [symmetric] C2_def [symmetric] C3_def [symmetric]
    by (rule p_ask_recv [where args = demo_vote and reply = "\<lparr>rvr_Term = 1, rvr_VoteGranted = True\<rparr>"])
      (simp_all add: C3_def C2_def C1_def demo_elected)
  ultimately have "demo_step (init_cluster 3) C1" "demo_step C1 C2" "demo_step C2 C3" "demo_step C3 demo_elect_of"
    by (simp_all add: demo_step_def C1_def C2_def C3_def)
  then show ?thesis by (meson converse_rtranclp_into_rtranclp rtranclp.rtrancl_refl)
qed

lemma elect_srv [simp]:
  "srv demo_elect_of 0 = demo_peer 0 Leader [\<lparr>le_Term = 0, le_Command = None\<rparr>] 0 0 [1, 1, 1] [0, 0, 0] 0 0"
  "srv demo_elect_of 1 = demo_peer 1 Follower [\<lparr>le_Term = 0, le_Command = None\<rparr>] 0 0 [0, 0, 0] [0, 0, 0] 1 0"
  "srv demo_elect_of 2 = Make 3 2 MakePersister"
  "ae_reqs demo_elect_of = {}" "ae_reps demo_elect_of = {}" "applying demo_elect_of = (\<lambda>_. False)"
  "applyCh demo_elect_of = (\<lambda>_. [])"
  by (simp_all add: demo_elect_of_def Let_def)

lemma demo_started: "cstep 3 demo_elect_of (demo_started_of c)"
  unfolding demo_started_of_def by (rule cstep.start [where command = "Some c"]) (simp_all add: demo_Start)

lemma demo_replicate_steps: "demo_step\<^sup>*\<^sup>* (demo_started_of c :: ('c, 's) cluster) (demo_replicate_of c)"
proof -
  define C6 where "C6 = send_hb 0 1 1 (HbAppend (demo_append_of c))
     (set_srv 0 (demo_peer 0 Leader (demo_log_of c) 0 0 [1, 1, 1] [0, 0, 0] 0 1) (demo_started_of c :: ('c, 's) cluster))"
  have "peer_step 3 (demo_started_of c) C6" unfolding C6_def
    by (rule p_heartbeat) (simp_all add: demo_started_of_def demo_send del: One_nat_def)
  moreover have "peer_step 3 C6 (demo_replicate_of c)"
    unfolding demo_replicate_of_def Let_def C6_def [symmetric]
    by (rule p_ae_handle [where args = "demo_append_of c"])
      (simp_all add: C6_def demo_started_of_def send_hb_def demo_AppendEntries)
  ultimately have "demo_step (demo_started_of c) C6" "demo_step C6 (demo_replicate_of c)"
    by (simp_all add: demo_step_def C6_def send_hb_def demo_started_of_def)
  then show ?thesis by (meson converse_rtranclp_into_rtranclp rtranclp.rtrancl_refl)
qed

lemma replicate_srv [simp]:
  "srv (demo_replicate_of c) 0 = demo_peer 0 Leader (demo_log_of c) 0 0 [1, 1, 1] [0, 0, 0] 0 1"
  "srv (demo_replicate_of c) 1 = demo_peer 1 Follower (demo_log_of c) 0 0 [0, 0, 0] [0, 0, 0] 2 0"
  "srv (demo_replicate_of c) 2 = Make 3 2 MakePersister"
  "ae_reps (demo_replicate_of c) = {(0, 1, 1, (demo_append_of c),
     zero_reply\<lparr>aer_Term := 1, aer_XLen := -1, aer_Success := True\<rparr>)}"
  "applying (demo_replicate_of c) = (\<lambda>_. False)" "applyCh (demo_replicate_of c) = (\<lambda>_. [])"
  by (simp_all add: demo_replicate_of_def demo_started_of_def Let_def send_hb_def)

lemma demo_final_steps: "demo_step\<^sup>*\<^sup>* (demo_replicate_of c :: ('c, 's) cluster) (demo_final_of c)"
proof -
  define C8 where "C8 = set_srv 0 (demo_peer 0 Leader (demo_log_of c) 1 0 [1, 2, 1] [0, 1, 0] 0 1) (demo_replicate_of c :: ('c, 's) cluster)"
  have "peer_step 3 (demo_replicate_of c) C8" unfolding C8_def
    by (rule p_ae_recv [OF peer3(1)]) (simp, simp only: replicate_srv, rule demo_reply)
  moreover have "peer_step 3 C8 (demo_final_of c)"
    unfolding demo_final_of_def Let_def C8_def [symmetric]
    by (rule p_apply) (simp_all add: C8_def demo_apply del: One_nat_def)
  ultimately have "demo_step (demo_replicate_of c) C8" "demo_step C8 (demo_final_of c)"
    by (simp_all add: demo_step_def C8_def)
  then show ?thesis by (meson converse_rtranclp_into_rtranclp rtranclp.rtrancl_refl)
qed

lemma final_srv [simp]:
  "srv (demo_final_of c) 0 = demo_peer 0 Leader (demo_log_of c) 1 1 [1, 2, 1] [0, 1, 0] 0 1"
  "srv (demo_final_of c) 1 = demo_peer 1 Follower (demo_log_of c) 0 0 [0, 0, 0] [0, 0, 0] 2 0"
  "srv (demo_final_of c) 2 = Make 3 2 MakePersister"
  "applyCh (demo_final_of c) 0 = [command_msg 1 (Some c)]"
  by (simp_all add: demo_final_of_def Let_def deliver_def)

section \<open>The run with the command 7\<close>

abbreviation demo_log :: "int LogEntry list" where
  "demo_log \<equiv> demo_log_of 7"

abbreviation demo_elect :: "(int, unit) cluster" where
  "demo_elect \<equiv> demo_elect_of"

abbreviation demo_replicate :: "(int, unit) cluster" where
  "demo_replicate \<equiv> demo_replicate_of 7"

abbreviation demo_final :: "(int, unit) cluster" where
  "demo_final \<equiv> demo_final_of 7"

lemma reachable_steps: "(cstep n)\<^sup>*\<^sup>* C D \<Longrightarrow> reachable n C \<Longrightarrow> reachable n D"
  by (induction rule: rtranclp_induct) (auto intro: reachable.step)

lemma reachable_elect: "reachable 3 demo_elect_of"
  by (rule reachable_steps [OF demo_steps_cstep [OF demo_elect_steps] reachable.init])

lemma elect_replicate: "(cstep 3)\<^sup>*\<^sup>* demo_elect_of (demo_replicate_of c)"
  by (rule converse_rtranclp_into_rtranclp [OF demo_started demo_steps_cstep [OF demo_replicate_steps]])

lemma replicate_final: "(cstep 3)\<^sup>*\<^sup>* (demo_replicate_of c) (demo_final_of c)"
  by (rule demo_steps_cstep [OF demo_final_steps])

lemma reachable_replicate: "reachable 3 (demo_replicate_of c)"
  by (rule reachable_steps [OF elect_replicate reachable_elect])

lemma reachable_final: "reachable 3 (demo_final_of c)"
  by (rule reachable_steps [OF replicate_final reachable_replicate])

lemma elect_final: "(cstep 3)\<^sup>*\<^sup>* demo_elect_of (demo_final_of c)"
  by (rule rtranclp_trans [OF elect_replicate replicate_final])

lemma reachable_demo: "reachable 3 demo_final"
  by (rule reachable_final)

end
