(* ===== verification/RaftTheorems.thy ===== *)
theory RaftTheorems
  imports RaftSafety RaftDemo
begin

text \<open>
  What the invariant of \<open>RaftSafety\<close> means for a reachable cluster, without the ghost history:
  election safety, log matching, state machine safety, leader completeness, replication on a
  majority, crash recovery, and the absence of index panics.
\<close>

section \<open>Entries of a peer\<close>

definition entry_at :: "('c, 's) Raft \<Rightarrow> int \<Rightarrow> 'c LogEntry option" where
  "entry_at rf i = go_get (log rf) (sliceIndex rf i)"

text \<open>The peer has the command at the index, or a snapshot that covers it.\<close>

definition holds_command :: "('c, 's) Raft \<Rightarrow> int \<Rightarrow> 'c option \<Rightarrow> bool" where
  "holds_command rf i c \<longleftrightarrow>
     i \<le> lastIncludedIndex rf \<or> map_option le_Command (entry_at rf i) = Some c"

lemma entry_at_Some:
  "entry_at rf i = Some e \<longleftrightarrow>
     lastIncludedIndex rf \<le> i \<and> nat (i - lastIncludedIndex rf) < length (log rf) \<and>
     e = log rf ! nat (i - lastIncludedIndex rf)"
  by (auto simp: entry_at_def go_get_def sliceIndex_def)

lemma entry_node:
  assumes ok: "srv_inv n g s rf" and e: "entry_at rf i = Some e"
  shows "anc (links g) (i, le_Term e) (last_node rf)"
proof -
  have "node_at (lastIncludedIndex rf) (log rf) (nat (i - lastIncludedIndex rf)) = (i, le_Term e)"
    using e by (simp add: entry_at_Some node_at_def)
  then show ?thesis
    using path_anc_top [OF srv_invD(4) [OF ok], of "nat (i - lastIncludedIndex rf)"] e
    by (simp add: entry_at_Some last_node_def)
qed

lemma entry_link:
  assumes ok: "srv_inv n g s rf" and e: "entry_at rf i = Some e" "lastIncludedIndex rf < i"
  shows "\<exists>q. (i, le_Term e, le_Command e, q) \<in> links g"
  using links_ofI [of "nat (i - lastIncludedIndex rf)" "log rf" "lastIncludedIndex rf"]
    srv_invD(4) [OF ok] e by (auto simp: entry_at_Some)

lemma node_entry:
  assumes wf: "wf_links (links g)" and ok: "srv_inv n g s rf"
    and i: "anc (links g) (i, t) (last_node rf)" "lastIncludedIndex rf \<le> i"
  obtains e where "entry_at rf i = Some e" "le_Term e = t"
proof -
  have ne: "log rf \<noteq> []" using srv_invD(1) [OF ok] by auto
  have "nat (i - lastIncludedIndex rf) < length (log rf)"
    "(i, t) = node_at (lastIncludedIndex rf) (log rf) (nat (i - lastIncludedIndex rf))"
    using path_nth [OF wf srv_invD(4) [OF ok] ne i(1) [unfolded last_node_def]] i(2) by simp_all
  then show thesis
    using i(2) that [of "log rf ! nat (i - lastIncludedIndex rf)"]
    by (simp add: entry_at_Some node_at_def)
qed

lemma holds_on_path:
  assumes wf: "wf_links (links g)" and ok: "srv_inv n g s rf"
    and i: "(i, t, c, q) \<in> links g" "anc (links g) (i, t) (last_node rf)"
  shows "holds_command rf i c"
proof (cases "i \<le> lastIncludedIndex rf")
  case False
  obtain e where e: "entry_at rf i = Some e" "le_Term e = t"
    using node_entry [OF wf ok i(2)] False by auto
  then have "le_Command e = c"
    using entry_link [OF ok e(1)] False wf_links_fun [OF wf i(1)] by auto
  then show ?thesis using e(1) by (simp add: holds_command_def)
qed (simp add: holds_command_def)

lemma delivered:
  assumes inv: "Inv n C g" and m: "m \<in> set (applyCh C s)" "am_CommandValid m"
  obtains t p d where "(am_CommandIndex m, t, am_Command m, p) \<in> links g" "committed n g d"
    "anc (links g) (am_CommandIndex m, t) d"
proof -
  have "delivered_ok n g m" using InvD(9) [OF inv] m unfolding apply_inv_def by blast
  then show thesis using that unfolding delivered_ok_def by blast
qed

section \<open>The theorems\<close>

lemma leaders_agree:
  assumes "reachable n C" and "(cstep n)\<^sup>*\<^sup>* C D"
    and "peer n a" "state (srv C a) = Leader" and "peer n b" "state (srv D b) = Leader"
    and "currentTerm (srv C a) = currentTerm (srv D b)"
  shows "a = b"
proof -
  obtain g where inv: "Inv n C g" using reachable_Inv [OF assms(1)] by blast
  obtain h where inv': "Inv n D h" and sub: "ldrs g \<subseteq> ldrs h"
    using Inv_csteps [OF assms(2) inv] by blast
  obtain K where "(currentTerm (srv C a), a, K) \<in> ldrs g"
    using srv_invD(8) [OF InvD(2) [OF inv assms(3)] assms(4)] unfolding leader_inv_def by blast
  then have K: "(currentTerm (srv D b), a, K) \<in> ldrs h" using sub assms(7) by auto
  obtain L where L: "(currentTerm (srv D b), b, L) \<in> ldrs h"
    using srv_invD(8) [OF InvD(2) [OF inv' assms(5)] assms(6)] unfolding leader_inv_def by blast
  show ?thesis using tree_invD(2) [OF InvD(1) [OF inv'] K L] by simp
qed

text \<open>
  C2 (election safety).  In every run there is at most one leader per term: a peer that leads a
  term in one reachable state and a peer that leads it in that or any later state are the same.
\<close>

theorem one_leader_per_term:
  assumes "reachable n C" and "(cstep n)\<^sup>*\<^sup>* C D"
    and "peer n a" "state (srv C a) = Leader" and "peer n b" "state (srv D b) = Leader"
    and "currentTerm (srv C a) = currentTerm (srv D b)"
  shows "a = b"
  by (rule leaders_agree [OF assms])

theorem one_leader_per_term_witness:
  "{b. peer 3 b \<and> state (srv demo_final b) = Leader \<and> currentTerm (srv demo_final b) = 1} = {0}"
proof -
  have leader: "state (srv demo_elect 0) = Leader" "currentTerm (srv demo_elect 0) = 1"
    "state (srv demo_final 0) = Leader" "currentTerm (srv demo_final 0) = 1"
    by (simp_all add: demo_peer_def)
  have "0 = b" if "peer 3 b" "state (srv demo_final b) = Leader" "currentTerm (srv demo_final b) = 1" for b
    by (rule one_leader_per_term [OF reachable_elect elect_final peer3(1) leader(1) that(1,2)])
      (simp only: that(3) leader(2))
  then show ?thesis using leader by (auto simp only: peer3)
qed

text \<open>
  C5 (log matching).  If the logs of two peers have an entry of the same term at an index,
  they agree, terms and commands, at every earlier index that both still keep in their logs.
\<close>

theorem logs_match:
  assumes "reachable n C" and "peer n a" "peer n b"
    and "entry_at (srv C a) i = Some e" "entry_at (srv C b) i = Some f" "le_Term e = le_Term f"
    and "j \<le> i" "lastIncludedIndex (srv C a) < j" "lastIncludedIndex (srv C b) < j"
  shows "entry_at (srv C a) j = entry_at (srv C b) j"
proof -
  obtain g where inv: "Inv n C g" using reachable_Inv [OF assms(1)] by blast
  note wf = Inv_wf [OF inv] and okA = InvD(2) [OF inv assms(2)] and okB = InvD(2) [OF inv assms(3)]
  have in_log: "\<exists>e'. entry_at (srv C s) j = Some e'"
    if "entry_at (srv C s) i = Some h" "lastIncludedIndex (srv C s) < j" for s h
    using that assms(7) by (auto simp: entry_at_Some)
  obtain ea eb where ea: "entry_at (srv C a) j = Some ea" and eb: "entry_at (srv C b) j = Some eb"
    using in_log assms(4,5,8,9) by blast
  have below: "anc (links g) (j, le_Term h') (i, le_Term h)"
    if "srv_inv n g s rf" "entry_at rf i = Some h" "entry_at rf j = Some h'" for s rf h h'
    by (rule anc_linear [OF wf entry_node [OF that(1,3)] entry_node [OF that(1,2)]])
      (simp add: assms(7))
  have eq: "le_Term ea = le_Term eb"
    using anc_unique [OF wf below [OF okA assms(4) ea] below [OF okB assms(5) eb, folded assms(6)]]
    by simp
  then have "le_Command ea = le_Command eb"
    using entry_link [OF okA ea assms(8)] entry_link [OF okB eb assms(9)] wf_links_fun(1) [OF wf]
    by auto
  then show ?thesis using eq ea eb by simp
qed

theorem logs_match_witness:
  "entry_at (srv demo_replicate 0) 1 = entry_at (srv demo_replicate 1) 1"
  by (rule logs_match [OF reachable_replicate, where i = 1
        and e = "\<lparr>le_Term = 1, le_Command = Some 7\<rparr>" and f = "\<lparr>le_Term = 1, le_Command = Some 7\<rparr>"])
    (simp_all add: demo_defs entry_at_def sliceIndex_def go_get_def)

lemma applied_agree:
  assumes "reachable n C"
    and "x \<in> set (applyCh C a)" "am_CommandValid x"
    and "y \<in> set (applyCh C b)" "am_CommandValid y"
    and "am_CommandIndex x = am_CommandIndex y"
  shows "am_Command x = am_Command y"
proof -
  obtain g where inv: "Inv n C g" using reachable_Inv [OF assms(1)] by blast
  note wf = Inv_wf [OF inv]
  obtain t p d where x: "(am_CommandIndex x, t, am_Command x, p) \<in> links g" "committed n g d"
    "anc (links g) (am_CommandIndex x, t) d" using delivered [OF inv assms(2,3)] .
  obtain u q f where y: "(am_CommandIndex y, u, am_Command y, q) \<in> links g" "committed n g f"
    "anc (links g) (am_CommandIndex y, u) f" using delivered [OF inv assms(4,5)] .
  have "anc (links g) (am_CommandIndex x, t) (am_CommandIndex y, u)"
    by (rule covered_linear [OF InvD(1) [OF inv] InvD(4) [OF inv] InvD(5) [OF inv] x(2,3) y(2,3)])
      (simp add: assms(6))
  then have "t = u" using anc_eq [OF wf] assms(6) by fastforce
  then show ?thesis using wf_links_fun(1) [OF wf x(1)] y(1) assms(6) by simp
qed

text \<open>
  C1 (state machine safety).  Two commands handed to the services of any two peers for the
  same index are the same command, whatever crashes and restarts happened in between.
\<close>

theorem applied_commands_agree:
  assumes "reachable n C"
    and "x \<in> set (applyCh C a)" "am_CommandValid x"
    and "y \<in> set (applyCh C b)" "am_CommandValid y"
    and "am_CommandIndex x = am_CommandIndex y"
  shows "am_Command x = am_Command y"
  by (rule applied_agree [OF assms])

theorem applied_commands_agree_witness:
  "am_Command (applyCh demo_final 0 ! 0) = am_Command (last (applyCh demo_final 0)) \<and>
   am_Command (applyCh demo_final 0 ! 0) = Some 7"
  by (intro conjI applied_commands_agree [OF reachable_final, where a = 0 and b = 0])
    (simp_all add: command_msg_def)

text \<open>
  C3 (leader completeness).  A leader whose term is the highest in the cluster has, in its log
  or its snapshot, every command that was ever handed to a service.
\<close>

theorem leader_has_applied_commands:
  assumes "reachable n C" and "x \<in> set (applyCh C a)" "am_CommandValid x"
    and "peer n l" "state (srv C l) = Leader"
    and "\<And>s. peer n s \<Longrightarrow> currentTerm (srv C s) \<le> currentTerm (srv C l)"
  shows "holds_command (srv C l) (am_CommandIndex x) (am_Command x)"
proof -
  obtain g where inv: "Inv n C g" using reachable_Inv [OF assms(1)] by blast
  note tr = InvD(1) [OF inv] and wf = Inv_wf [OF inv] and ok = InvD(2) [OF inv assms(4)]
  obtain t p d where x: "(am_CommandIndex x, t, am_Command x, p) \<in> links g" "committed n g d"
    "anc (links g) (am_CommandIndex x, t) d" using delivered [OF inv assms(2,3)] .
  note ld = srv_invD(8) [OF ok assms(5), unfolded leader_inv_def]
  obtain L where L: "(currentTerm (srv C l), l, L) \<in> ldrs g" "anc (links g) L (last_node (srv C l))"
    using ld by blast
  obtain Q where Q: "majority n Q" "\<forall>s\<in>Q. (s, fst d, snd d) \<in> acks g"
    using x(2) unfolding committed_def by blast
  obtain s where "s \<in> Q" using majority_common [OF Q(1) Q(1)] by blast
  then have "snd d \<le> currentTerm (srv C l)"
    using ack_invD(1) [OF InvD(4) [OF inv]] Q(2) assms(6) order_trans by blast
  moreover have "anc (links g) d (last_node (srv C l))" if "snd d = currentTerm (srv C l)"
    using ld committed_ack(1) [OF x(2) InvD(4) [OF inv]] that by (metis prod.collapse)
  moreover have "anc (links g) d L" if "snd d < currentTerm (srv C l)"
    using leader_completeness [OF tr InvD(4) [OF inv] InvD(5) [OF inv] x(2) L(1) that] .
  ultimately have "anc (links g) d (last_node (srv C l))"
    using L(2) anc_trans by (metis order_le_less)
  then show ?thesis using holds_on_path [OF wf ok x(1)] anc_trans [OF x(3)] by blast
qed

lemma peer3_cases: "peer 3 s \<Longrightarrow> s = 0 \<or> s = 1 \<or> s = 2"
  by (auto simp: peer_def)

theorem leader_has_applied_commands_witness:
  "holds_command (srv demo_final 0) 1 (Some 7) \<and> state (srv demo_final 0) = Leader"
proof -
  have m: "command_msg 1 (Some 7) \<in> set (applyCh demo_final 0)" by simp
  have "currentTerm (srv demo_final s) \<le> currentTerm (srv demo_final 0)" if "peer 3 s" for s
    using peer3_cases [OF that] by (auto simp: demo_peer_def Make_def readPersist_def)
  from leader_has_applied_commands [OF reachable_final m _ peer3(1) _ this]
  show ?thesis by (simp add: command_msg_def demo_peer_def)
qed

lemma applied_on_majority:
  assumes "reachable n C" and "x \<in> set (applyCh C a)" "am_CommandValid x"
  shows "\<exists>Q. majority n Q \<and> Q \<subseteq> {s. holds_command (srv C s) (am_CommandIndex x) (am_Command x)}"
proof -
  obtain g where inv: "Inv n C g" using reachable_Inv [OF assms(1)] by blast
  note tr = InvD(1) [OF inv] and wf = Inv_wf [OF inv] and ack = InvD(4) [OF inv]
  obtain t p d where x: "(am_CommandIndex x, t, am_Command x, p) \<in> links g" "committed n g d"
    "anc (links g) (am_CommandIndex x, t) d" using delivered [OF inv assms(2,3)] .
  obtain Q where Q: "majority n Q" "\<forall>s\<in>Q. (s, fst d, snd d) \<in> acks g"
    using x(2) unfolding committed_def by blast
  have "holds_command (srv C s) (am_CommandIndex x) (am_Command x)" if "s \<in> Q" for s
  proof -
    have a: "(s, fst d, snd d) \<in> acks g" using Q(2) that by blast
    have "\<not> bad g d (currentTerm (srv C s))"
      using leader_completeness [OF tr ack InvD(5) [OF inv] x(2)] unfolding bad_def by blast
    then have "anc (links g) d (last_node (srv C s))" using ack_invD(2) [OF ack a] by simp
    then show ?thesis
      using holds_on_path [OF wf InvD(2) [OF inv] x(1)] anc_trans [OF x(3)] ack_invD(1) [OF ack a]
      by blast
  qed
  then show ?thesis using Q(1) by blast
qed

text \<open>
  C4 (replication).  A command handed to any service is, at that moment and ever after, in the
  logs or the snapshots of a majority of the peers.
\<close>

theorem applied_commands_on_majority:
  assumes "reachable n C" and "x \<in> set (applyCh C a)" "am_CommandValid x"
  shows "\<exists>Q. majority n Q \<and> Q \<subseteq> {s. holds_command (srv C s) (am_CommandIndex x) (am_Command x)}"
  by (rule applied_on_majority [OF assms])

theorem applied_commands_on_majority_witness:
  "\<exists>Q. majority 3 Q \<and> Q \<subseteq> {s. holds_command (srv demo_final s) 1 (Some 7)}"
  using applied_commands_on_majority [OF reachable_final, where a = 0 and x = "command_msg 1 (Some 7)"]
  by (simp add: command_msg_def)

section \<open>No panics\<close>

text \<open>
  A peer panics when an index expression of a section it runs is out of range.  The rules list
  every section a reachable cluster can run, on the messages that are in flight.
\<close>

inductive panics :: "int \<Rightarrow> ('c, 's) cluster \<Rightarrow> bool" for n :: int and C :: "('c, 's) cluster" where
  "peer n c \<Longrightarrow> ask_prepare t (srv C c) = None \<Longrightarrow> panics n C"
| "peer n p \<Longrightarrow> (c, t, p, vargs) \<in> rv_reqs C \<Longrightarrow> RequestVote vargs (srv C p) = None \<Longrightarrow> panics n C"
| "peer n c \<Longrightarrow> ask_reply t vreply num (srv C c) = None \<Longrightarrow> panics n C"
| "peer n l \<Longrightarrow> peer n p \<Longrightarrow> hb_send t p (srv C l) = None \<Longrightarrow> panics n C"
| "peer n p \<Longrightarrow> (l, t, p, args) \<in> ae_reqs C \<Longrightarrow> AppendEntries args (srv C p) = None \<Longrightarrow> panics n C"
| "peer n l \<Longrightarrow> (l, t, p, args, reply) \<in> ae_reps C \<Longrightarrow>
     hb_append_reply t p args reply (srv C l) = None \<Longrightarrow> panics n C"
| "peer n p \<Longrightarrow> (l, t, p, sargs) \<in> is_reqs C \<Longrightarrow> InstallSnapshot sargs (srv C p) = None \<Longrightarrow>
     panics n C"
| "peer n l \<Longrightarrow> (l, t, p, sargs, sreply) \<in> is_reps C \<Longrightarrow>
     hb_snapshot_reply t p sargs sreply (srv C l) = None \<Longrightarrow> panics n C"
| "peer n s \<Longrightarrow> Snapshot index snap (srv C s) = None \<Longrightarrow> panics n C"
| "peer n s \<Longrightarrow> applier_step (srv C s) = None \<Longrightarrow> panics n C"

lemma applier_step_total: "applier_step rf \<noteq> None"
  by (auto simp: applier_step_def Let_def go_get_def)

text \<open>
  C7 (bounds).  No section of any peer of a reachable cluster indexes a log, \<open>nextIndex\<close> or
  \<open>matchIndex\<close> out of range: nothing panics.
\<close>

theorem raft_never_panics:
  assumes "reachable n C"
  shows "\<not> panics n C"
proof
  assume "panics n C"
  obtain g where inv: "Inv n C g" using reachable_Inv [OF assms] by blast
  note wf = srv_wf [OF inv] and pb = peer_bounds and msg = msg_invD [OF InvD(8) [OF inv]]
  from \<open>panics n C\<close> show False
  proof cases
    case (1 c t)
    show ?thesis
      by (rule ask_prepare_cases [OF wf [OF 1(1)], of t]) (use 1(2) in simp_all)
  next
    case (2 p c t vargs)
    show ?thesis
      by (rule RequestVote_cases [OF wf [OF 2(1)], of vargs]) (use 2(3) in simp_all)
  next
    case (3 c t vreply num)
    show ?thesis
      by (rule ask_reply_cases [OF wf [OF 3(1)], of vreply t num]) (use 3(2) in simp_all)
  next
    case (4 l p t)
    show ?thesis
      by (rule hb_send_cases [OF wf [OF 4(1)] pb [OF 4(2)], of t]) (use 4(3) in simp_all)
  next
    case (5 p l t args)
    have "0 \<le> ae_PreLogIndex args" using msg(1) [OF 5(2)] by (simp add: ae_ok_def)
    from wf [OF 5(1)] this show ?thesis
      by (rule AppendEntries_cases) (use 5(3) in simp_all)
  next
    case (6 l t p args reply)
    have "peer n p" using msg(2) [OF 6(2)] by (simp add: ae_ok_def)
    from hb_append_reply_cases [OF wf [OF 6(1)] pb [OF this], of reply t args] show ?thesis
      by (metis 6(3) option.distinct(1))
  next
    case (7 p l t sargs)
    show ?thesis
      by (rule InstallSnapshot_cases [OF wf [OF 7(1)], of sargs]) (use 7(3) in simp_all)
  next
    case (8 l t p sargs sreply)
    have "peer n p" using msg(5) [OF 8(2)] by (simp add: is_ok_def)
    from hb_snapshot_reply_cases [OF wf [OF 8(1)] pb [OF this], of sreply t sargs] show ?thesis
      by (metis 8(3) option.distinct(1))
  next
    case (9 s index snap)
    show ?thesis
      by (rule wf_Snapshot [OF wf [OF 9(1)], of index snap]) (use 9(2) in simp)
  next
    case (10 s)
    then show ?thesis using applier_step_total by blast
  qed
qed

theorem raft_never_panics_witness: "\<not> panics 3 demo_final"
  by (rule raft_never_panics [OF reachable_final])

section \<open>Crash recovery\<close>

text \<open>
  C6 (crash recovery).  Whenever a peer of a reachable cluster crashes, decoding what it had
  persisted gives back its term, its vote, its log and its snapshot position; it restarts as a
  follower that has applied nothing beyond its snapshot.
\<close>

theorem crash_recovers_state:
  assumes "reachable n C" and "peer n s" and "rf = srv C s" and "rf' = srv (crash s C) s"
  shows "currentTerm rf' = currentTerm rf \<and> votedFor rf' = votedFor rf \<and> log rf' = log rf \<and>
    lastIncludedIndex rf' = lastIncludedIndex rf \<and> lastIncludeTerm rf' = lastIncludeTerm rf \<and>
    state rf' = Follower \<and> commitIndex rf' = lastIncludedIndex rf \<and>
    lastApplied rf' = lastIncludedIndex rf"
proof -
  obtain g where inv: "Inv n C g" using reachable_Inv [OF assms(1)] by blast
  have "rf' = restart rf" by (simp add: assms(3,4) crash_def)
  then show ?thesis
    using durableD [OF srv_invD(2) [OF InvD(2) [OF inv assms(2)]]] by (simp add: assms(3))
qed

theorem crash_recovers_state_witness:
  "log (srv (crash 0 demo_final) 0) = demo_log \<and> votedFor (srv (crash 0 demo_final) 0) = 0 \<and>
   commitIndex (srv (crash 0 demo_final) 0) = 0"
  using crash_recovers_state [OF reachable_demo peer3(1) refl refl]
  by (simp add: demo_peer_def)

section \<open>Two corners the code does not handle\<close>

text \<open>
  C27 (lost entries).  \<open>applier\<close> sends a snapshot with the lock released.  When a newer snapshot
  is installed meanwhile, \<open>lastApplied\<close> jumps to it although only the older one was sent: the
  newer one is never sent, and the service misses every command between the two.
\<close>

theorem applier_skips_newer_snapshot:
  assumes "raft_wf n i rf" "lastApplied rf < lastIncludedIndex rf"
    and "lastIncludedIndex rf \<le> commitIndex rf" "commitIndex rf \<le> is_LastIncludedIndex args"
    and "lastIncludedIndex rf < is_LastIncludedIndex args" "currentTerm rf \<le> is_Term args"
  shows "\<exists>rf' reply. applier_step rf = Some (rf, ApplySnapshot (snapshot_msg rf)) \<and>
    am_SnapshotIndex (snapshot_msg rf) = lastIncludedIndex rf \<and>
    InstallSnapshot args rf = Some (rf', reply) \<and>
    lastApplied (applier_resume rf') = is_LastIncludedIndex args \<and>
    applier_step (applier_resume rf') = Some (applier_resume rf', ApplyIdle)"
  using assms(1)
proof (cases rule: InstallSnapshot_cases [where args = args])
  case (install rf' k)
  have "lastIncludedIndex rf' = is_LastIncludedIndex args"
    "commitIndex rf' = max (commitIndex rf) (is_LastIncludedIndex args)"
    by ((subst install(5), simp)+)
  then show ?thesis
    using assms install(4) by (auto simp: applier_step_def applier_resume_def snapshot_msg_def)
qed (use assms in simp_all)

theorem applier_skips_newer_snapshot_witness:
  "\<exists>rf' reply. InstallSnapshot \<lparr>is_Term = 1, is_LeaderId = 0, is_LastIncludedIndex = 9,
       is_LastIncludeTerm = 1, is_Data = [()]\<rparr>
     ((Make 3 1 MakePersister :: (int, unit) Raft)\<lparr>lastIncludedIndex := 5, commitIndex := 5\<rparr>) =
       Some (rf', reply) \<and>
     lastApplied (applier_resume rf') = 9 \<and>
     applier_step (applier_resume rf') = Some (applier_resume rf', ApplyIdle)"
  using applier_skips_newer_snapshot [of 3 1
      "(Make 3 1 MakePersister :: (int, unit) Raft)\<lparr>lastIncludedIndex := 5, commitIndex := 5\<rparr>"
      "\<lparr>is_Term = 1, is_LeaderId = 0, is_LastIncludedIndex = 9, is_LastIncludeTerm = 1,
        is_Data = [()]\<rparr>"]
  by (auto simp: Make_def readPersist_def raft_wf_def)

text \<open>
  A cluster of one peer never has a leader: the count of votes is compared with the majority
  only when a reply of another peer arrives.
\<close>

theorem single_peer_never_leads: "reachable 1 C \<Longrightarrow> state (srv C 0) \<noteq> Leader"
proof (induction rule: reachable.induct)
  case init
  show ?case by (simp add: init_cluster_def)
next
  case (step C D)
  obtain g where inv: "Inv 1 C g" using reachable_Inv [OF step(1)] by blast
  have zero: "s = 0" if "peer 1 s" for s using that by (simp add: peer_def)
  note msg = msg_invD [OF InvD(8) [OF inv]] and ct = count_invD(3) [OF InvD(6) [OF inv]]
  from step(2) show ?case
  proof cases
    case (timeout s gen rf t)
    then show ?thesis using zero step.IH by (auto simp: ticker_fire_def Let_def split: if_splits)
  next
    case (rv_handle p c t args rf reply)
    from srv_wf [OF inv rv_handle(2)] have "state rf \<noteq> Leader"
      by (cases rule: RequestVote_cases [where args = args])
        (use rv_handle(4) step.IH zero [OF rv_handle(2)] in \<open>auto split: if_splits\<close>)
    then show ?thesis using rv_handle(1) zero [OF rv_handle(2)] by simp
  next
    case (ask_recv c t p args reply rf num)
    then show ?thesis using ct zero by metis
  next
    case (heartbeat l p t rf m)
    then show ?thesis using zero by metis
  next
    case (ae_handle p l t args rf reply)
    then show ?thesis using msg(1) zero unfolding ae_ok_def by metis
  next
    case (ae_recv l t p args reply rf)
    then show ?thesis using msg(2) zero unfolding ae_ok_def by metis
  next
    case (is_handle p l t args rf reply)
    then show ?thesis using msg(4) zero unfolding is_ok_def by metis
  next
    case (is_recv l t p args reply rf)
    then show ?thesis using msg(5) zero unfolding is_ok_def by metis
  next
    case (start s command rf result)
    then show ?thesis using step.IH zero [OF start(2)] by (simp add: Start_def)
  next
    case (snapshot s index snap rf)
    from srv_wf [OF inv snapshot(2)] have "state rf = state (srv C s)"
    proof (cases rule: Snapshot_cases [where index = index and snap = snap])
      case (cut rf' k)
      have "state rf' = state (srv C s)" by (subst cut(6)) simp
      then show ?thesis using cut(1) snapshot(4) by simp
    qed (use snapshot(4) in simp)
    then show ?thesis using step.IH zero [OF snapshot(2)] snapshot(1) by simp
  next
    case (apply_step s rf act)
    have "state rf = state (srv C s)"
      using apply_step(4) by (auto simp: applier_step_def Let_def split: if_splits bind_splits)
    moreover have "srv (deliver s act (set_srv s rf C)) = (srv C)(s := rf)"
      by (simp add: deliver_def split: applier_act.splits)
    ultimately show ?thesis using step.IH zero [OF apply_step(2)] apply_step(1) by simp
  next
    case (apply_resume s)
    then show ?thesis using step.IH zero by (auto simp: applier_resume_def)
  next
    case (crash_restart s)
    then show ?thesis using step.IH by (auto simp: crash_def)
  qed (use step.IH in simp_all)
qed

end
