(* ===== verification/RaftTester.thy ===== *)
theory RaftTester
  imports RaftTheorems
begin

text \<open>
  The checks the tests run on Raft (\<open>src/raft1/server.go\<close>, \<open>src/raft1/test.go\<close>): the reader of an
  apply channel, which records what each server applied and compares it with all the others, the
  count of servers that applied an index, and the check for a single leader.  A Raft cluster as
  modelled passes them in every run; \<open>Fatal\<close> (\<open>None\<close>) is never reached.

  An error text is the constructor that says which one it is.  The encoded snapshot is the list of
  the two values encoded into it.
\<close>

datatype apply_err =
  CommitMismatch int
| OutOfOrder int
| OutOfOrderExpected int int
| NilSnapshot
| SnapshotDecode
| SnapshotIndexMismatch

datatype 'c snap_val = SnapIndex int | SnapLog "'c option list"

record 'c rfsrv =
  rs_lastApplied :: int
  rs_logs :: "int \<Rightarrow> 'c option option"

definition SnapShotInterval :: int where
  "SnapShotInterval = 10"

definition Logs :: "'c rfsrv \<Rightarrow> int \<Rightarrow> 'c option option" where
  "Logs rs i = rs_logs rs i"

section \<open>Comparing applied commands\<close>

text \<open>The loop over all servers; a later mismatch overwrites an earlier one.\<close>

primrec check_loop :: "int list \<Rightarrow> int \<Rightarrow> 'c option \<Rightarrow> (int \<Rightarrow> 'c rfsrv) \<Rightarrow> apply_err option \<Rightarrow>
    apply_err option" where
  "check_loop [] index v srvs err = err"
| "check_loop (j # js) index v srvs err =
     check_loop js index v srvs
       (case Logs (srvs j) index of
          None \<Rightarrow> err
        | Some old \<Rightarrow> if old \<noteq> v then Some (CommitMismatch j) else err)"

definition checkLogs :: "int \<Rightarrow> int \<Rightarrow> ('c, 's) ApplyMsg \<Rightarrow> (int \<Rightarrow> 'c rfsrv) \<Rightarrow>
    apply_err option \<times> bool \<times> (int \<Rightarrow> 'c rfsrv)" where
  "checkLogs n i m srvs =
     (let err = check_loop (peer_ids n) (am_CommandIndex m) (am_Command m) srvs None;
          myself = srvs i;
          prevok = (rs_logs myself (am_CommandIndex m - 1) \<noteq> None)
      in (err, prevok,
          srvs(i := myself\<lparr>rs_logs := (rs_logs myself)(am_CommandIndex m \<mapsto> am_Command m)\<rparr>)))"

text \<open>One message in \<open>applier\<close>; an error ends the process.\<close>

definition applier_read :: "int \<Rightarrow> int \<Rightarrow> ('c, 's) ApplyMsg \<Rightarrow> (int \<Rightarrow> 'c rfsrv) \<Rightarrow>
    (int \<Rightarrow> 'c rfsrv) option" where
  "applier_read n i m srvs =
     (if \<not> am_CommandValid m then Some srvs
      else case checkLogs n i m srvs of
        (err, prevok, srvs1) \<Rightarrow>
          let err1 = (if am_CommandIndex m > 1 \<and> \<not> prevok then Some (OutOfOrder (am_CommandIndex m))
                      else err)
          in if err1 \<noteq> None then None else Some srvs1)"

definition ingestSnap :: "'c snap_val list \<Rightarrow> int \<Rightarrow> 'c rfsrv \<Rightarrow> apply_err option \<times> 'c rfsrv" where
  "ingestSnap snapshot index rs =
     (case snapshot of
        [] \<Rightarrow> (Some NilSnapshot, rs)
      | SnapIndex li # SnapLog xlog # _ \<Rightarrow>
          if index \<noteq> -1 \<and> index \<noteq> li then (Some SnapshotIndexMismatch, rs)
          else (None, \<lparr>rs_lastApplied = li,
             rs_logs = (\<lambda>j. go_get xlog j)\<rparr>)
      | _ \<Rightarrow> (Some SnapshotDecode, rs))"

text \<open>
  One message in \<open>applierSnap\<close>: the result may carry the snapshot handed to \<open>raft.Snapshot\<close>.
  A missing key of \<open>rs.logs\<close> encodes as \<open>nil\<close>.
\<close>

definition applierSnap_read :: "int \<Rightarrow> int \<Rightarrow> ('c, 'c snap_val) ApplyMsg \<Rightarrow> (int \<Rightarrow> 'c rfsrv) \<Rightarrow>
    ((int \<Rightarrow> 'c rfsrv) \<times> (int \<times> 'c snap_val list) option) option" where
  "applierSnap_read n i m srvs =
     (if am_SnapshotValid m then
        (case ingestSnap (am_Snapshot m) (am_SnapshotIndex m) (srvs i) of
           (Some err, rs) \<Rightarrow> None
         | (None, rs) \<Rightarrow> Some (srvs(i := rs), None))
      else if am_CommandValid m then
        if am_CommandIndex m \<noteq> rs_lastApplied (srvs i) + 1 then None
        else case checkLogs n i m srvs of
          (err, prevok, srvs1) \<Rightarrow>
            let err1 = (if am_CommandIndex m > 1 \<and> \<not> prevok then Some (OutOfOrder (am_CommandIndex m))
                        else err);
                rs = (srvs1 i)\<lparr>rs_lastApplied := am_CommandIndex m\<rparr>;
                snap = (if (am_CommandIndex m + 1) mod SnapShotInterval = 0
                        then Some (am_CommandIndex m,
                          [SnapIndex (am_CommandIndex m),
                           SnapLog (map (\<lambda>j. case rs_logs rs j of None \<Rightarrow> None | Some v \<Rightarrow> v)
                                      [0..am_CommandIndex m])])
                        else None)
            in if err1 \<noteq> None then None else Some (srvs1(i := rs), snap)
      else Some (srvs, None))"

text \<open>A server starts with the snapshot of its persister, when it snapshots and has one.\<close>

definition newRfsrv :: "bool \<Rightarrow> 'c snap_val list \<Rightarrow> 'c rfsrv option" where
  "newRfsrv snapshot data =
     (let s = \<lparr>rs_lastApplied = 0, rs_logs = Map.empty\<rparr> in
      if snapshot \<and> data \<noteq> [] then
        (case ingestSnap data (-1) s of (None, rs) \<Rightarrow> Some rs | _ \<Rightarrow> None)
      else Some s)"

primrec committed_loop :: "int list \<Rightarrow> int \<Rightarrow> (int \<Rightarrow> 'c rfsrv) \<Rightarrow> int \<Rightarrow> 'c option \<Rightarrow>
    (int \<times> 'c option) option" where
  "committed_loop [] index srvs count cmd = Some (count, cmd)"
| "committed_loop (j # js) index srvs count cmd =
     (case Logs (srvs j) index of
        None \<Rightarrow> committed_loop js index srvs count cmd
      | Some cmd1 \<Rightarrow>
          if count > 0 \<and> cmd \<noteq> cmd1 then None
          else committed_loop js index srvs (count + 1) cmd1)"

definition nCommitted :: "int \<Rightarrow> int \<Rightarrow> (int \<Rightarrow> 'c rfsrv) \<Rightarrow> (int \<times> 'c option) option" where
  "nCommitted n index srvs = committed_loop (peer_ids n) index srvs 0 None"

definition checkNoAgreement :: "int \<Rightarrow> int \<Rightarrow> (int \<Rightarrow> 'c rfsrv) \<Rightarrow> bool option" where
  "checkNoAgreement n index srvs =
     do { (k, cmd) \<leftarrow> nCommitted n index srvs; if k > 0 then None else Some True }"

section \<open>Leaders\<close>

text \<open>
  One round of \<open>checkOneLeader\<close> on what \<open>GetState\<close> answered for the connected servers: \<open>Inl\<close> is
  the failure "two leaders in one term", \<open>Inr\<close> the leader of the highest term, if there is one.
  The map from terms to leaders is built in the order of the servers.
\<close>

primrec add_leaders :: "(int \<times> int \<times> bool) list \<Rightarrow> (int \<Rightarrow> int list) \<Rightarrow> int \<Rightarrow> int list" where
  "add_leaders [] leaders = leaders"
| "add_leaders (r # rs) leaders =
     (case r of (i, term, leader) \<Rightarrow>
        add_leaders rs (if leader then leaders(term := leaders term @ [i]) else leaders))"

definition check_leaders :: "(int \<times> int \<times> bool) list \<Rightarrow> int + int option" where
  "check_leaders answers =
     (let leaders = add_leaders answers (\<lambda>_. []);
          terms = map (\<lambda>(i, term, leader). term) (filter (\<lambda>(i, term, leader). leader) answers);
          dups = filter (\<lambda>t. length (leaders t) > 1) terms
      in case dups of
           t # _ \<Rightarrow> Inl t
         | [] \<Rightarrow> if terms = [] then Inr None
                 else Inr (Some (hd (leaders (fold max terms (-1))))))"

primrec terms_loop :: "(int \<times> int) list \<Rightarrow> int \<Rightarrow> int option" where
  "terms_loop [] t = Some t"
| "terms_loop (r # rs) t =
     (case r of (i, xterm) \<Rightarrow>
        if t = -1 then terms_loop rs xterm else if t \<noteq> xterm then None else terms_loop rs t)"

definition checkTerms :: "(int \<times> int) list \<Rightarrow> int option" where
  "checkTerms answers = terms_loop answers (-1)"

primrec checkNoLeader :: "(int \<times> int \<times> bool) list \<Rightarrow> bool" where
  "checkNoLeader [] = True"
| "checkNoLeader (r # rs) = (case r of (i, term, leader) \<Rightarrow> \<not> leader \<and> checkNoLeader rs)"

section \<open>Raft passes the checks\<close>

lemma applyCh_mono:
  assumes "cstep n C D"
  shows "set (applyCh C s) \<subseteq> set (applyCh D s)"
  using assms
proof cases
  case (heartbeat l p t rf m)
  then show ?thesis by (simp add: send_hb_def split: hb_msg.splits)
next
  case (apply_step s rf act)
  then show ?thesis by (auto simp: deliver_def split: applier_act.splits)
qed (simp_all add: crash_def)

text \<open>
  The tests' records next to a running cluster: readers take messages of the apply channels in any
  order and at any time, and a restarted server begins with an empty record.
\<close>

inductive observed :: "int \<Rightarrow> ('c, 's) cluster \<Rightarrow> (int \<Rightarrow> 'c rfsrv) \<Rightarrow> bool" for n :: int where
  observed_init: "observed n (init_cluster n) (\<lambda>_. \<lparr>rs_lastApplied = 0, rs_logs = Map.empty\<rparr>)"
| observed_step: "observed n C L \<Longrightarrow> cstep n C D \<Longrightarrow> observed n D L"
| observed_read: "observed n C L \<Longrightarrow> m \<in> set (applyCh C s) \<Longrightarrow> am_CommandValid m \<Longrightarrow>
     observed n C (snd (snd (checkLogs n s m L)))"
| observed_restart: "observed n C L \<Longrightarrow>
     observed n C (L(s := \<lparr>rs_lastApplied = 0, rs_logs = Map.empty\<rparr>))"

lemma observed_reachable: "observed n C L \<Longrightarrow> reachable n C"
  by (induction rule: observed.induct) (auto intro: reachable.intros)

lemma observed_applied:
  "observed n C L \<Longrightarrow> rs_logs (L j) k = Some v \<Longrightarrow>
     \<exists>m\<in>set (applyCh C j). am_CommandValid m \<and> am_CommandIndex m = k \<and> am_Command m = v"
proof (induction arbitrary: j k v rule: observed.induct)
  case (observed_step C L D)
  then show ?case using applyCh_mono [OF observed_step.hyps(2)] by blast
next
  case (observed_read C L m s)
  then show ?case by (auto simp: checkLogs_def Let_def split: if_splits)
qed (auto split: if_splits)

lemma check_loop_agree:
  "(\<And>j old. j \<in> set js \<Longrightarrow> rs_logs (srvs j) k = Some old \<Longrightarrow> old = v) \<Longrightarrow>
     check_loop js k v srvs err = err"
  by (induction js arbitrary: err) (auto simp: Logs_def split: option.splits)

lemma committed_loop_agree:
  "(\<And>j old. rs_logs (srvs j) k = Some old \<Longrightarrow> old = v) \<Longrightarrow> (0 < count \<Longrightarrow> cmd = v) \<Longrightarrow>
     0 \<le> count \<Longrightarrow> committed_loop js k srvs count cmd \<noteq> None"
proof (induction js arbitrary: count cmd)
  case (Cons j js)
  show ?case
  proof (cases "rs_logs (srvs j) k")
    case None
    then show ?thesis using Cons by (simp add: Logs_def)
  next
    case (Some old)
    then have "old = v" using Cons.prems(1) by blast
    then have "\<not> (0 < count \<and> cmd \<noteq> old)" using Cons.prems(2) by blast
    moreover have "committed_loop js k srvs (count + 1) old \<noteq> None"
      using Cons.IH [of "count + 1" old] Cons.prems(1,3) \<open>old = v\<close> by simp
    ultimately show ?thesis using Some by (simp add: Logs_def)
  qed
qed simp

text \<open>
  C33 (the tests' comparison).  In every run of a Raft cluster, with any crashes and any order in
  which the apply channels are read: comparing a message with what the other servers applied
  finds no mismatch, and counting the servers that applied an index does not fail.
\<close>

theorem raft_passes_checkLogs:
  assumes "observed n C L" and "m \<in> set (applyCh C s)" "am_CommandValid m"
  shows "fst (checkLogs n s m L) = None \<and> nCommitted n k L \<noteq> None"
proof
  note reach = observed_reachable [OF assms(1)]
  have "old = am_Command m" if "rs_logs (L j) (am_CommandIndex m) = Some old" for j old
    using observed_applied [OF assms(1) that] applied_agree [OF reach _ _ assms(2,3)] by blast
  then show "fst (checkLogs n s m L) = None"
    by (simp add: checkLogs_def Let_def check_loop_agree)
  show "nCommitted n k L \<noteq> None"
  proof (cases "\<exists>j v. rs_logs (L j) k = Some v")
    case True
    then obtain i v where v: "rs_logs (L i) k = Some v" by blast
    have "old = v" if "rs_logs (L j) k = Some old" for j old
      using observed_applied [OF assms(1) that] observed_applied [OF assms(1) v]
        applied_agree [OF reach] by metis
    then show ?thesis unfolding nCommitted_def by (intro committed_loop_agree) auto
  next
    case False
    then show ?thesis unfolding nCommitted_def by (intro committed_loop_agree [where v = None]) auto
  qed
qed

text \<open>The answers of the servers asked one after the other while the cluster runs.\<close>

inductive answers :: "int \<Rightarrow> ('c, 's) cluster \<Rightarrow> int list \<Rightarrow> (int \<times> int \<times> bool) list \<Rightarrow> bool"
  for n :: int where
  answers_end: "answers n C [] []"
| answers_ask: "(cstep n)\<^sup>*\<^sup>* C D \<Longrightarrow> peer n i \<Longrightarrow> answers n D is rs \<Longrightarrow>
     answers n C (i # is) ((i, GetState (srv D i)) # rs)"

lemma add_leaders_eq:
  "add_leaders rs f t = f t @ map fst (filter (\<lambda>(i, term, leader). leader \<and> term = t) rs)"
  by (induction rs arbitrary: f) (auto split: prod.splits)

lemma answers_fst: "answers n C is rs \<Longrightarrow> map fst rs = is"
  by (induction rule: answers.induct) auto

lemma answers_leader:
  "answers n C is rs \<Longrightarrow> (i, t, True) \<in> set rs \<Longrightarrow>
     \<exists>D. (cstep n)\<^sup>*\<^sup>* C D \<and> peer n i \<and> state (srv D i) = Leader \<and> currentTerm (srv D i) = t"
  by (induction rule: answers.induct) (auto simp: GetState_def intro: rtranclp_trans)

lemma answers_one_leader:
  assumes "answers n C is rs" "reachable n C" "(i, t, True) \<in> set rs" "(j, t, True) \<in> set rs"
  shows "i = j"
  using assms
proof (induction rule: answers.induct)
  case (answers_ask C D k "is" rs)
  have D: "reachable n D" by (rule reachable_steps [OF answers_ask(1,5)])
  have first: "x = y" if eq: "(x, t, True) = (k, GetState (srv D k))" and y: "(y, t, True) \<in> set rs" for x y
  proof -
    obtain E where E: "(cstep n)\<^sup>*\<^sup>* D E" "peer n y" "state (srv E y) = Leader"
      "currentTerm (srv E y) = t" using answers_leader [OF answers_ask(3) y] by blast
    have "state (srv D k) = Leader" "currentTerm (srv D k) = t" "x = k"
      using eq by (auto simp: GetState_def)
    then show ?thesis using leaders_agree [OF D E(1) answers_ask(2) _ E(2,3)] E(4) by simp
  qed
  show ?case
    using answers_ask.prems(2,3) first answers_ask.IH [OF D] by (auto dest: sym)
qed simp

lemma distinct_all_eq:
  assumes "distinct xs" "\<And>x y. x \<in> set xs \<Longrightarrow> y \<in> set xs \<Longrightarrow> x = y"
  shows "length xs \<le> 1"
proof (cases xs)
  case (Cons a ys)
  then have "set ys \<subseteq> {a}" using assms(2) by auto
  then have "ys = []" using assms(1) Cons by (cases ys) auto
  then show ?thesis using Cons by simp
qed simp

text \<open>
  The tests' election check.  However the cluster runs while the servers are asked one after
  the other, the check for a single leader never finds two leaders in one term.
\<close>

theorem checkOneLeader_never_fails:
  assumes "reachable n C" and "answers n C is rs" and "distinct is"
  shows "\<exists>l. check_leaders rs = Inr l"
proof -
  have small: "length (add_leaders rs (\<lambda>_. []) t) \<le> 1" for t
  proof -
    let ?xs = "filter (\<lambda>(i, term, leader). leader \<and> term = t) rs"
    have "distinct (map fst ?xs)"
      using answers_fst [OF assms(2)] assms(3) by (metis distinct_map_filter)
    moreover have "x = y" if "x \<in> set (map fst ?xs)" "y \<in> set (map fst ?xs)" for x y
      using that answers_one_leader [OF assms(2,1)] by auto
    ultimately have "length (map fst ?xs) \<le> 1"
      by (rule distinct_all_eq)
    then show ?thesis by (simp add: add_leaders_eq)
  qed
  have "filter (\<lambda>t. length (add_leaders rs (\<lambda>_. []) t) > 1) ts = []" for ts
    using small by (simp add: filter_empty_conv not_less)
  then show ?thesis by (simp add: check_leaders_def Let_def)
qed

lemma reachable_observed:
  "reachable n C \<Longrightarrow> observed n C (\<lambda>_. \<lparr>rs_lastApplied = 0, rs_logs = Map.empty\<rparr>)"
  by (induction rule: reachable.induct) (auto intro: observed.intros)

theorem raft_passes_checkLogs_witness:
  "\<exists>L. rs_logs (L 0) 1 = Some (Some 7) \<and> fst (checkLogs 3 0 (command_msg 1 (Some 7) :: (int, unit) ApplyMsg) L) = None \<and>
     nCommitted 3 1 L \<noteq> None"
proof -
  let ?L0 = "\<lambda>_. \<lparr>rs_lastApplied = 0, rs_logs = Map.empty\<rparr> :: int rfsrv"
  let ?m = "command_msg 1 (Some 7) :: (int, unit) ApplyMsg"
  let ?L = "snd (snd (checkLogs 3 0 ?m ?L0))"
  have m: "?m \<in> set (applyCh demo_final 0)" "am_CommandValid ?m" by (simp_all add: command_msg_def)
  have "observed 3 demo_final ?L"
    by (rule observed_read [OF reachable_observed [OF reachable_final] m])
  from raft_passes_checkLogs [OF this m, of 1] show ?thesis
    by (intro exI [of _ ?L] conjI) (simp_all add: checkLogs_def Let_def command_msg_def)
qed

theorem checkOneLeader_never_fails_witness:
  "\<exists>l. check_leaders [(0, 1, True), (1, 1, False)] = Inr l \<and> l = Some 0"
proof -
  have a: "answers 3 demo_elect [0, 1] [(0, 1, True), (1, 1, False)]"
  proof -
    have "answers 3 demo_elect [0, 1] [(0, GetState (srv demo_elect 0)), (1, GetState (srv demo_elect 1))]"
      by (intro answers.intros rtranclp.rtrancl_refl) simp_all
    then show ?thesis by (simp add: GetState_def demo_peer_def)
  qed
  have "\<exists>l. check_leaders [(0::int, 1::int, True), (1, 1, False)] = Inr l"
    by (rule checkOneLeader_never_fails [OF reachable_elect a]) simp
  then show ?thesis by (auto simp: check_leaders_def Let_def)
qed

end
