(* ===== verification/RaftAgree.thy ===== *)
theory RaftAgree
  imports RaftTester
begin

text \<open>
  The tests' agreement (\<open>one\<close> and \<open>wait\<close> of \<open>src/raft1/test.go\<close>).  Both poll a running cluster, so
  what they read is an argument: for each round of \<open>one\<close> the answer of \<open>Start\<close> at each server that
  is connected and alive, and the records of the servers at each poll of the two seconds that
  follow; for each round of \<open>wait\<close> the records and the terms.  The ten seconds are over, or the test
  is finished, when the list of rounds ends.
\<close>

datatype one_outcome = OneFatal | OneIndex int

text \<open>The round over the servers, from the one after \<open>starts\<close>: its new value and the index.\<close>

primrec try_servers :: "nat \<Rightarrow> int \<Rightarrow> (int \<Rightarrow> (int \<times> bool) option) \<Rightarrow> int \<Rightarrow> int \<times> int" where
  "try_servers 0 n start starts = (starts, -1)"
| "try_servers (Suc k) n start starts =
     (let starts = (starts + 1) mod n in
      case start starts of
        Some (index1, True) \<Rightarrow> (starts, index1)
      | _ \<Rightarrow> try_servers k n start starts)"

text \<open>The polls of two seconds: fatal, agreed, or time over.\<close>

datatype poll_outcome = PollFatal | Agreed | PollTimeout

primrec poll_loop :: "int \<Rightarrow> int \<Rightarrow> 'c option \<Rightarrow> int \<Rightarrow> (int \<Rightarrow> 'c rfsrv) list \<Rightarrow> poll_outcome" where
  "poll_loop n index cmd expectedServers [] = PollTimeout"
| "poll_loop n index cmd expectedServers (L # Ls) =
     (case nCommitted n index L of
        None \<Rightarrow> PollFatal
      | Some (nd, cmd1) \<Rightarrow>
          if nd > 0 \<and> nd \<ge> expectedServers \<and> cmd1 = cmd then Agreed
          else poll_loop n index cmd expectedServers Ls)"

primrec one_loop :: "int \<Rightarrow> 'c option \<Rightarrow> int \<Rightarrow> bool \<Rightarrow> bool \<Rightarrow> int \<Rightarrow>
    ((int \<Rightarrow> (int \<times> bool) option) \<times> (int \<Rightarrow> 'c rfsrv) list) list \<Rightarrow> one_outcome" where
  "one_loop n cmd expectedServers retry finished starts [] =
     (if finished then OneIndex (-1) else OneFatal)"
| "one_loop n cmd expectedServers retry finished starts (r # rs) =
     (case r of (start, polls) \<Rightarrow>
      case try_servers (nat n) n start starts of (starts, index) \<Rightarrow>
        if index \<noteq> -1 then
          (case poll_loop n index cmd expectedServers polls of
             PollFatal \<Rightarrow> OneFatal
           | Agreed \<Rightarrow> OneIndex index
           | PollTimeout \<Rightarrow>
               if \<not> retry then OneFatal
               else one_loop n cmd expectedServers retry finished starts rs)
        else one_loop n cmd expectedServers retry finished starts rs)"

definition one_agree :: "int \<Rightarrow> 'c option \<Rightarrow> int \<Rightarrow> bool \<Rightarrow> bool \<Rightarrow>
    ((int \<Rightarrow> (int \<times> bool) option) \<times> (int \<Rightarrow> 'c rfsrv) list) list \<Rightarrow> one_outcome" where
  "one_agree n cmd expectedServers retry finished rounds =
     one_loop n cmd expectedServers retry finished 0 rounds"

text \<open>
  \<open>wait\<close>: a round reads the records and, when a starting term was given, asks the servers for
  their terms in order, where a killed one (\<open>None\<close>) is a nil dereference.
\<close>

datatype 'c wait_outcome = WaitFatal | WaitMoved | WaitCmd "'c option"

primrec moved_on :: "int \<Rightarrow> int option list \<Rightarrow> bool option" where
  "moved_on startTerm [] = Some False"
| "moved_on startTerm (t # ts) =
     do { t \<leftarrow> t; if t > startTerm then Some True else moved_on startTerm ts }"

definition wait_end :: "int \<Rightarrow> int \<Rightarrow> int \<Rightarrow> (int \<Rightarrow> 'c rfsrv) \<Rightarrow> 'c wait_outcome" where
  "wait_end np index n L =
     (case nCommitted np index L of
        None \<Rightarrow> WaitFatal
      | Some (nd, cmd) \<Rightarrow> if nd < n then WaitFatal else WaitCmd cmd)"

fun wait_loop :: "nat \<Rightarrow> int \<Rightarrow> int \<Rightarrow> int \<Rightarrow> int \<Rightarrow> (int \<Rightarrow> 'c rfsrv) \<Rightarrow>
    ((int \<Rightarrow> 'c rfsrv) \<times> int option list) list \<Rightarrow> 'c wait_outcome" where
  "wait_loop 0 np index n startTerm final rs = wait_end np index n final"
| "wait_loop (Suc k) np index n startTerm final [] = wait_end np index n final"
| "wait_loop (Suc k) np index n startTerm final ((L, ts) # rs) =
     (case nCommitted np index L of
        None \<Rightarrow> WaitFatal
      | Some (nd, cmd) \<Rightarrow>
          if nd \<ge> n then wait_end np index n final
          else if startTerm > -1 then
            (case moved_on startTerm ts of
               None \<Rightarrow> WaitFatal
             | Some True \<Rightarrow> WaitMoved
             | Some False \<Rightarrow> wait_loop k np index n startTerm final rs)
          else wait_loop k np index n startTerm final rs)"

definition wait_commit :: "int \<Rightarrow> int \<Rightarrow> int \<Rightarrow> int \<Rightarrow> (int \<Rightarrow> 'c rfsrv) \<Rightarrow>
    ((int \<Rightarrow> 'c rfsrv) \<times> int option list) list \<Rightarrow> 'c wait_outcome" where
  "wait_commit np index n startTerm final rounds =
     wait_loop 30 np index n startTerm final rounds"

section \<open>What agreement means\<close>

text \<open>The servers that recorded a command at an index.\<close>

definition holders :: "int \<Rightarrow> int \<Rightarrow> 'c option \<Rightarrow> (int \<Rightarrow> 'c rfsrv) \<Rightarrow> int set" where
  "holders n index cmd L = {j. 0 \<le> j \<and> j < n \<and> rs_logs (L j) index = Some cmd}"

lemma committed_loop_Some:
  "committed_loop js k L c cmd = Some (c', cmd') \<Longrightarrow> 0 \<le> c \<Longrightarrow>
     c' = c + int (length (filter (\<lambda>j. rs_logs (L j) k = Some cmd') js)) \<and>
     (0 < c \<longrightarrow> cmd' = cmd) \<and> (\<forall>j\<in>set js. \<forall>v. rs_logs (L j) k = Some v \<longrightarrow> v = cmd')"
proof (induction js arbitrary: c cmd)
  case (Cons j js)
  show ?case
  proof (cases "rs_logs (L j) k")
    case None
    then show ?thesis using Cons by (simp add: Logs_def)
  next
    case (Some v)
    then have "\<not> (0 < c \<and> cmd \<noteq> v)" "committed_loop js k L (c + 1) v = Some (c', cmd')"
      using Cons.prems by (auto simp: Logs_def split: if_splits)
    with Cons.IH [of "c + 1" v] Cons.prems(2) Some show ?thesis by auto
  qed
qed simp

lemma nCommitted_Some:
  assumes "nCommitted n k L = Some (c, cmd)"
  shows "c = int (card (holders n k cmd L))"
    "\<And>j v. 0 \<le> j \<Longrightarrow> j < n \<Longrightarrow> rs_logs (L j) k = Some v \<Longrightarrow> v = cmd"
proof -
  note * = committed_loop_Some [OF assms [unfolded nCommitted_def]]
  have "card (set (filter (\<lambda>j. rs_logs (L j) k = Some cmd) (peer_ids n))) =
      length (filter (\<lambda>j. rs_logs (L j) k = Some cmd) (peer_ids n))"
    by (rule distinct_card) simp
  moreover have "set (filter (\<lambda>j. rs_logs (L j) k = Some cmd) (peer_ids n)) = holders n k cmd L"
    by (auto simp: holders_def)
  ultimately show "c = int (card (holders n k cmd L))" using * by simp
  show "v = cmd" if "0 \<le> j" "j < n" "rs_logs (L j) k = Some v" for j v
    using * that by (simp add: Ball_def)
qed

lemma poll_loop_Agreed:
  "poll_loop n k cmd e Ls = Agreed \<Longrightarrow>
     \<exists>L\<in>set Ls. e \<le> int (card (holders n k cmd L)) \<and> 0 < card (holders n k cmd L) \<and>
       (\<forall>j v. 0 \<le> j \<and> j < n \<and> rs_logs (L j) k = Some v \<longrightarrow> v = cmd)"
proof (induction Ls)
  case (Cons L Ls)
  then obtain c cmd' where c: "nCommitted n k L = Some (c, cmd')" by (auto split: option.splits)
  show ?case
  proof (cases "c > 0 \<and> c \<ge> e \<and> cmd' = cmd")
    case True
    then show ?thesis using nCommitted_Some [OF c] by auto
  next
    case False
    then show ?thesis using Cons c by auto
  qed
qed simp

lemma try_servers_range:
  "try_servers k n start s = (s', index) \<Longrightarrow> index \<noteq> -1 \<Longrightarrow> 0 < n \<Longrightarrow>
     0 \<le> s' \<and> s' < n \<and> start s' = Some (index, True)"
  by (induction k arbitrary: s) (auto simp: Let_def split: option.splits bool.splits prod.splits)

text \<open>
  What \<open>one\<close> promises.  When \<open>one\<close> returns an index, a connected server took the command at that
  index as leader, and at some poll afterwards at least the expected number of servers had
  applied the command there and no server had applied another one.
\<close>

theorem one_returns_agreed_index:
  assumes "one_agree n cmd expected retry finished rounds = OneIndex k" "k \<noteq> -1" "0 < n"
  shows "\<exists>start polls s L. (start, polls) \<in> set rounds \<and> 0 \<le> s \<and> s < n \<and> start s = Some (k, True) \<and>
     L \<in> set polls \<and> expected \<le> int (card (holders n k cmd L)) \<and> 0 < card (holders n k cmd L) \<and>
     (\<forall>j v. 0 \<le> j \<and> j < n \<and> rs_logs (L j) k = Some v \<longrightarrow> v = cmd)"
proof -
  have "one_loop n cmd expected retry finished s0 rounds = OneIndex k \<Longrightarrow> ?thesis" for s0
  proof (induction rounds arbitrary: s0)
    case (Cons r rs)
    obtain start polls s index where r: "r = (start, polls)" "try_servers (nat n) n start s0 = (s, index)"
      by (metis surj_pair)
    show ?case
    proof (cases "index \<noteq> -1 \<and> poll_loop n index cmd expected polls = Agreed")
      case True
      then have "k = index" using Cons.prems r by simp
      then show ?thesis
        using poll_loop_Agreed [of n k cmd expected polls] True try_servers_range [OF r(2)] assms(3) r(1)
        by auto
    next
      case False
      then have "one_loop n cmd expected retry finished s rs = OneIndex k"
        using Cons.prems r by (auto split: if_splits poll_outcome.splits)
      from Cons.IH [OF this] show ?thesis by auto
    qed
  qed (use assms(2) in \<open>auto split: if_splits\<close>)
  then show ?thesis using assms(1) by (simp add: one_agree_def)
qed

text \<open>What \<open>wait\<close> returns: a command that enough servers have applied, and no server another.\<close>

theorem wait_returns_agreed_command:
  assumes "wait_commit np k n startTerm final rounds = WaitCmd cmd"
  shows "n \<le> int (card (holders np k cmd final)) \<and>
     (\<forall>j v. 0 \<le> j \<and> j < np \<and> rs_logs (final j) k = Some v \<longrightarrow> v = cmd)"
proof -
  have "wait_loop i np k n startTerm final rounds = WaitCmd cmd \<Longrightarrow> wait_end np k n final = WaitCmd cmd" for i
    by (induction i np k n startTerm final rounds rule: wait_loop.induct)
      (auto split: option.splits prod.splits if_splits bool.splits)
  then have "wait_end np k n final = WaitCmd cmd" using assms unfolding wait_commit_def .
  then obtain c where "nCommitted np k final = Some (c, cmd)" "n \<le> c"
    by (auto simp: wait_end_def split: option.splits if_splits)
  then show ?thesis using nCommitted_Some [of np k final c cmd] by auto
qed

section \<open>A run with three servers\<close>

text \<open>Servers 1 and 2 have applied the command at index 1; server 1 was the leader.\<close>

definition demo_logs :: "int \<Rightarrow> nat rfsrv" where
  "demo_logs j = \<lparr>rs_lastApplied = 0, rs_logs = (if j = 0 then Map.empty else [1 \<mapsto> Some 7])\<rparr>"

definition demo_rounds :: "((int \<Rightarrow> (int \<times> bool) option) \<times> (int \<Rightarrow> nat rfsrv) list) list" where
  "demo_rounds = [(\<lambda>_. None, []), (\<lambda>s. if s = 1 then Some (1, True) else Some (0, False), [demo_logs])]"

lemma demo_committed: "nCommitted 3 1 demo_logs = Some (2, Some 7)"
  by (simp add: nCommitted_def peer_ids_def upto_rec1 demo_logs_def Logs_def)

lemma demo_one: "one_agree 3 (Some 7) 2 True False demo_rounds = OneIndex 1"
  by (simp add: one_agree_def demo_rounds_def numeral_3_eq_3 Let_def demo_committed)

lemma one_returns_agreed_index_demo:
  "\<exists>L. L \<in> {demo_logs} \<and> 2 \<le> int (card (holders 3 1 (Some 7) L))"
  using one_returns_agreed_index [OF demo_one] by (auto simp: demo_rounds_def split: if_splits)

lemma wait_returns_agreed_command_demo: "2 \<le> int (card (holders 3 1 (Some 7) demo_logs))"
  by (rule wait_returns_agreed_command [of 3 1 2 "-1" demo_logs "[]" "Some 7", THEN conjunct1])
    (simp add: wait_commit_def wait_end_def demo_committed numeral_eq_Suc)

end
