(* ===== verification/MrCoord.thy ===== *)
theory MrCoord
  imports GoPrelude
begin

text \<open>
  The MapReduce coordinator of lab 1 (\<open>src/mr/coordinator.go\<close>, messages of \<open>src/mr/rpc.go\<close>).
  Each handler holds the coordinator's mutex from its first statement to its return, so it is one
  function on the state.  \<open>clk k\<close> is the \<open>k\<close>-th reading of \<open>time.Now().Unix()\<close> during a call.
  \<open>None\<close> is a run-time panic (an index out of range, a negative length).
\<close>

section \<open>State and messages\<close>

datatype coordinatorState = mapPhase | reducePhase | donePhase

datatype taskState = idle | inProgress | completed

datatype taskType = mapTask | reduceTask | doneTask

record task =
  tk_state :: taskState
  tk_start :: int
  tk_mapFile :: string

record Coordinator =
  currentPhase :: coordinatorState
  nMap :: int
  nReduce :: int
  mapFinish :: int
  reduceFinish :: int
  co_mapTask :: "task list"
  co_reduceTask :: "task list"

record GetTaskReply =
  gt_TaskType :: taskType
  gt_Wait :: bool
  gt_Id :: int
  gt_File :: string
  gt_NReduce :: int

record FinishTaskArgs =
  ft_TaskType :: taskType
  ft_Id :: int

definition zero_GetTaskReply :: GetTaskReply where
  "zero_GetTaskReply = \<lparr>gt_TaskType = mapTask, gt_Wait = False, gt_Id = 0, gt_File = '''', gt_NReduce = 0\<rparr>"

section \<open>Handlers\<close>

text \<open>
  The loop over the tasks: the first one that is idle, or in progress for more than ten seconds,
  is stamped and chosen.
\<close>

fun get_loop :: "(nat \<Rightarrow> int) \<Rightarrow> nat \<Rightarrow> task list \<Rightarrow> (task list \<times> nat) option" where
  "get_loop clk k [] = None"
| "get_loop clk k (t # ts) = (case tk_state t of
     idle \<Rightarrow> Some (t\<lparr>tk_state := inProgress, tk_start := clk k\<rparr> # ts, 0)
   | inProgress \<Rightarrow>
       if clk k - tk_start t > 10 then Some (t\<lparr>tk_start := clk (Suc k)\<rparr> # ts, 0)
       else map_option (\<lambda>(ts', i). (t # ts', Suc i)) (get_loop clk (Suc k) ts)
   | completed \<Rightarrow> map_option (\<lambda>(ts', i). (t # ts', Suc i)) (get_loop clk k ts))"

definition GetTask :: "(nat \<Rightarrow> int) \<Rightarrow> Coordinator \<Rightarrow> Coordinator \<times> GetTaskReply" where
  "GetTask clk c = (case currentPhase c of
     mapPhase \<Rightarrow> (case get_loop clk 0 (co_mapTask c) of
         None \<Rightarrow> (c, zero_GetTaskReply\<lparr>gt_Wait := True\<rparr>)
       | Some (ts, i) \<Rightarrow> (c\<lparr>co_mapTask := ts\<rparr>,
           zero_GetTaskReply\<lparr>gt_TaskType := mapTask, gt_File := tk_mapFile (ts ! i),
             gt_Id := int i, gt_NReduce := nReduce c\<rparr>))
   | reducePhase \<Rightarrow> (case get_loop clk 0 (co_reduceTask c) of
         None \<Rightarrow> (c, zero_GetTaskReply\<lparr>gt_Wait := True\<rparr>)
       | Some (ts, i) \<Rightarrow> (c\<lparr>co_reduceTask := ts\<rparr>,
           zero_GetTaskReply\<lparr>gt_TaskType := reduceTask, gt_Id := int i\<rparr>))
   | donePhase \<Rightarrow> (c, zero_GetTaskReply\<lparr>gt_TaskType := doneTask\<rparr>))"

definition finish_at :: "int \<Rightarrow> task list \<Rightarrow> task list option" where
  "finish_at i ts = do {
     t \<leftarrow> go_get ts i;
     go_set ts i (t\<lparr>tk_state := completed\<rparr>)
   }"

text \<open>The second component is the \<open>error\<close> of the handler, if any.\<close>

definition FinishTask :: "FinishTaskArgs \<Rightarrow> Coordinator \<Rightarrow> (Coordinator \<times> string option) option" where
  "FinishTask args c = (case ft_TaskType args of
     mapTask \<Rightarrow> do {
       ts \<leftarrow> finish_at (ft_Id args) (co_mapTask c);
       let c = c\<lparr>co_mapTask := ts, mapFinish := mapFinish c + 1\<rparr>;
       Some (if mapFinish c = nMap c then c\<lparr>currentPhase := reducePhase\<rparr> else c, None)
     }
   | reduceTask \<Rightarrow> do {
       ts \<leftarrow> finish_at (ft_Id args) (co_reduceTask c);
       let c = c\<lparr>co_reduceTask := ts, reduceFinish := reduceFinish c + 1\<rparr>;
       Some (if reduceFinish c = nReduce c then c\<lparr>currentPhase := donePhase\<rparr> else c, None)
     }
   | doneTask \<Rightarrow> Some (c, Some ''got wrong finishTask taskType''))"

definition Done :: "Coordinator \<Rightarrow> bool" where
  "Done c \<longleftrightarrow> currentPhase c = donePhase"

definition MakeCoordinator :: "string list \<Rightarrow> int \<Rightarrow> Coordinator option" where
  "MakeCoordinator files nr =
     (if nr < 0 then None
      else Some \<lparr>currentPhase = mapPhase, nMap = int (length files), nReduce = nr,
        mapFinish = 0, reduceFinish = 0,
        co_mapTask = map (\<lambda>f. \<lparr>tk_state = idle, tk_start = 0, tk_mapFile = f\<rparr>) files,
        co_reduceTask = replicate (nat nr) \<lparr>tk_state = idle, tk_start = 0, tk_mapFile = ''''\<rparr>\<rparr>)"

section \<open>The loop over the tasks\<close>

definition completed_tasks :: "task list \<Rightarrow> nat set" where
  "completed_tasks ts = {i. i < length ts \<and> tk_state (ts ! i) = completed}"

text \<open>What handing out task \<open>i\<close> of \<open>ts\<close> gives.\<close>

definition handed :: "task list \<Rightarrow> nat \<Rightarrow> task list \<Rightarrow> bool" where
  "handed ts i ts' \<longleftrightarrow> i < length ts \<and> tk_state (ts ! i) \<noteq> completed \<and>
     (\<exists>now. ts' = ts[i := (ts ! i)\<lparr>tk_state := inProgress, tk_start := now\<rparr>])"

lemma handed_Cons: "handed ts i ts' \<Longrightarrow> handed (t # ts) (Suc i) (t # ts')"
  by (auto simp: handed_def)

lemma get_loop_Some:
  "get_loop clk k ts = Some (ts', i) \<Longrightarrow>
     handed ts i ts' \<and> (\<forall>j < i. tk_state (ts ! j) \<noteq> idle) \<and>
     (tk_state (ts ! i) = inProgress \<longrightarrow> (\<exists>m \<ge> k. clk m - tk_start (ts ! i) > 10))"
proof (induction clk k ts arbitrary: ts' i rule: get_loop.induct)
  case (2 clk k t ts)
  note later = handed_Cons [of ts _ _ t]
  show ?case
  proof (cases "tk_state t")
    case idle
    then show ?thesis using "2.prems" by (auto simp: handed_def)
  next
    case inProgress
    show ?thesis
    proof (cases "clk k - tk_start t > 10")
      case True
      then have "ts' = t\<lparr>tk_start := clk (Suc k)\<rparr> # ts" "i = 0" using "2.prems" inProgress by auto
      moreover have "t\<lparr>tk_start := clk (Suc k)\<rparr> = t\<lparr>tk_state := inProgress, tk_start := clk (Suc k)\<rparr>"
        using inProgress by simp
      ultimately show ?thesis using True inProgress by (auto simp: handed_def)
    next
      case False
      then obtain us j where us: "get_loop clk (Suc k) ts = Some (us, j)" "ts' = t # us" "i = Suc j"
        using "2.prems" inProgress by auto
      then show ?thesis
        using "2.IH"(1) [OF inProgress False us(1)] inProgress
        by (auto simp: later less_Suc_eq_0_disj dest: Suc_leD)
    qed
  next
    case completed
    then obtain us j where us: "get_loop clk k ts = Some (us, j)" "ts' = t # us" "i = Suc j"
      using "2.prems" by auto
    then show ?thesis
      using "2.IH"(2) [OF completed us(1)] completed by (auto simp: later less_Suc_eq_0_disj)
  qed
qed simp

lemma get_loop_None: "get_loop clk k ts = None \<Longrightarrow> t \<in> set ts \<Longrightarrow> tk_state t \<noteq> idle"
  by (induction clk k ts rule: get_loop.induct) (auto split: taskState.splits if_splits)

text \<open>Long after everything was handed out, the first task that is not completed is chosen.\<close>

lemma get_loop_first:
  assumes "\<And>t. t \<in> set ts \<Longrightarrow> now - tk_start t > 10"
    and "i < length ts" "tk_state (ts ! i) \<noteq> completed" "\<And>j. j < i \<Longrightarrow> tk_state (ts ! j) = completed"
  shows "\<exists>ts'. get_loop (\<lambda>_. now) k ts = Some (ts', i)"
  using assms
proof (induction ts arbitrary: i)
  case (Cons t ts)
  show ?case
  proof (cases i)
    case 0
    then show ?thesis using Cons.prems by (auto split: taskState.splits)
  next
    case (Suc j)
    then have "tk_state t = completed" using Cons.prems(4) [of 0] by simp
    moreover have "\<exists>ts'. get_loop (\<lambda>_. now) k ts = Some (ts', j)"
      using Cons.prems Cons.prems(4) [of "Suc _"] Suc by (intro Cons.IH) auto
    ultimately show ?thesis using Suc by auto
  qed
qed simp

lemma handed_simps:
  assumes "handed ts i ts'"
  shows "i < length ts" "length ts' = length ts" "tk_state (ts ! i) \<noteq> completed"
    "tk_state (ts' ! i) = inProgress" "j \<noteq> i \<Longrightarrow> ts' ! j = ts ! j"
    "tk_mapFile (ts' ! j) = tk_mapFile (ts ! j)" "completed_tasks ts' = completed_tasks ts"
proof -
  show *: "i < length ts" "length ts' = length ts" "tk_state (ts ! i) \<noteq> completed"
    "tk_state (ts' ! i) = inProgress" "j \<noteq> i \<Longrightarrow> ts' ! j = ts ! j"
    "tk_mapFile (ts' ! j) = tk_mapFile (ts ! j)"
    using assms by (auto simp: handed_def nth_list_update)
  show "completed_tasks ts' = completed_tasks ts"
    using assms by (auto simp: handed_def completed_tasks_def nth_list_update split: if_splits)
qed

section \<open>Functional behaviour of the handlers\<close>

text \<open>The tasks of the current phase, and the ones it leaves alone.\<close>

definition current_tasks :: "Coordinator \<Rightarrow> task list" where
  "current_tasks c = (if currentPhase c = mapPhase then co_mapTask c else co_reduceTask c)"

lemma GetTask_cases:
  assumes "GetTask clk c = (c', rep)"
  obtains (done_) "Done c" "c' = c" "gt_TaskType rep = doneTask" "\<not> gt_Wait rep"
  | (wait) "\<not> Done c" "c' = c" "gt_Wait rep" "get_loop clk 0 (current_tasks c) = None"
  | (map) i ts where "currentPhase c = mapPhase" "get_loop clk 0 (co_mapTask c) = Some (ts, i)"
      "c' = c\<lparr>co_mapTask := ts\<rparr>" "handed (co_mapTask c) i ts"
      "rep = zero_GetTaskReply\<lparr>gt_TaskType := mapTask, gt_File := tk_mapFile (co_mapTask c ! i),
         gt_Id := int i, gt_NReduce := nReduce c\<rparr>"
  | (reduce) i ts where "currentPhase c = reducePhase" "get_loop clk 0 (co_reduceTask c) = Some (ts, i)"
      "c' = c\<lparr>co_reduceTask := ts\<rparr>" "handed (co_reduceTask c) i ts"
      "rep = zero_GetTaskReply\<lparr>gt_TaskType := reduceTask, gt_Id := int i\<rparr>"
proof (cases "currentPhase c")
  case mapPhase
  show ?thesis
  proof (cases "get_loop clk 0 (co_mapTask c)")
    case None
    then show ?thesis
      using assms mapPhase by (intro wait) (auto simp: GetTask_def Done_def current_tasks_def)
  next
    case (Some p)
    then obtain ts i where p: "get_loop clk 0 (co_mapTask c) = Some (ts, i)" by (cases p) auto
    have "handed (co_mapTask c) i ts" using get_loop_Some [OF p] by simp
    then show ?thesis
      using assms mapPhase p handed_simps(6) [of "co_mapTask c" i ts i]
      by (intro map [of ts i]) (auto simp: GetTask_def)
  qed
next
  case reducePhase
  show ?thesis
  proof (cases "get_loop clk 0 (co_reduceTask c)")
    case None
    then show ?thesis
      using assms reducePhase by (intro wait) (auto simp: GetTask_def Done_def current_tasks_def)
  next
    case (Some p)
    then obtain ts i where p: "get_loop clk 0 (co_reduceTask c) = Some (ts, i)" by (cases p) auto
    have "handed (co_reduceTask c) i ts" using get_loop_Some [OF p] by simp
    then show ?thesis
      using assms reducePhase p by (intro reduce [of ts i]) (auto simp: GetTask_def)
  qed
next
  case donePhase
  then show ?thesis
    using assms by (intro done_) (auto simp: GetTask_def Done_def zero_GetTaskReply_def)
qed

lemma finish_at_eq:
  "i < length ts \<Longrightarrow> finish_at (int i) ts = Some (ts[i := (ts ! i)\<lparr>tk_state := completed\<rparr>])"
  by (simp add: finish_at_def go_simps)

lemma completed_finish:
  "i < length ts \<Longrightarrow> completed_tasks (ts[i := (ts ! i)\<lparr>tk_state := completed\<rparr>]) = insert i (completed_tasks ts)"
  by (auto simp: completed_tasks_def nth_list_update)

lemma finite_completed [simp]: "finite (completed_tasks ts)"
  by (simp add: completed_tasks_def)

lemma completed_le: "card (completed_tasks ts) \<le> length ts"
  using card_mono [of "{..<length ts}" "completed_tasks ts"] by (auto simp: completed_tasks_def)

lemma all_completed:
  "card (completed_tasks ts) = length ts \<Longrightarrow> i < length ts \<Longrightarrow> tk_state (ts ! i) = completed"
  using card_subset_eq [of "{..<length ts}" "completed_tasks ts"] by (auto simp: completed_tasks_def)

lemma not_idle_take:
  assumes "\<forall>j < i. tk_state (ts ! j) \<noteq> idle"
  shows "idle \<notin> tk_state ` set (take i ts)"
proof
  assume "idle \<in> tk_state ` set (take i ts)"
  then obtain j where "j < length (take i ts)" "tk_state (take i ts ! j) = idle"
    by (metis imageE in_set_conv_nth)
  then show False using assms by simp
qed

section \<open>Properties\<close>

text \<open>
  What a worker is given.  Before the job is done, \<open>GetTask\<close> either answers \<open>Wait\<close>, changing
  nothing, and then no task of the current phase is idle; or it hands out a task that was idle or
  had been in progress for more than ten seconds, with every earlier task already out, and marks
  just that one.  The phase and the counters never change.
\<close>

theorem GetTask_hands_out:
  assumes "\<not> Done c" "GetTask clk c = (c', rep)"
  shows "currentPhase c' = currentPhase c \<and> mapFinish c' = mapFinish c \<and> reduceFinish c' = reduceFinish c \<and>
    (if gt_Wait rep then c' = c \<and> idle \<notin> tk_state ` set (current_tasks c)
     else \<exists>i. gt_Id rep = int i \<and> handed (current_tasks c) i (current_tasks c') \<and>
       idle \<notin> tk_state ` set (take i (current_tasks c)) \<and>
       (tk_state (current_tasks c ! i) = idle \<or>
        (\<exists>m. clk m - tk_start (current_tasks c ! i) > 10)))"
  using assms(2)
proof (cases rule: GetTask_cases)
  case wait
  then show ?thesis using get_loop_None [of clk 0 "current_tasks c"] by force
next
  case (map i ts)
  have "idle \<notin> tk_state ` set (take i (co_mapTask c))"
    using get_loop_Some [OF map(2)] by (intro not_idle_take) simp
  then show ?thesis
    using map get_loop_Some [OF map(2)]
    by (cases "tk_state (co_mapTask c ! i)")
      (auto simp: zero_GetTaskReply_def current_tasks_def handed_def)
next
  case (reduce i ts)
  have "idle \<notin> tk_state ` set (take i (co_reduceTask c))"
    using get_loop_Some [OF reduce(2)] by (intro not_idle_take) simp
  then show ?thesis
    using reduce get_loop_Some [OF reduce(2)]
    by (cases "tk_state (co_reduceTask c ! i)")
      (auto simp: zero_GetTaskReply_def current_tasks_def handed_def)
qed (use assms(1) in simp)

definition demo_job :: Coordinator where
  "demo_job = the (MakeCoordinator [''a'', ''b''] 1)"

theorem GetTask_hands_out_witness:
  "gt_Id (snd (GetTask (\<lambda>_. 5) demo_job)) = 0 \<and>
   currentPhase (fst (GetTask (\<lambda>_. 5) demo_job)) = mapPhase \<and> mapFinish (fst (GetTask (\<lambda>_. 5) demo_job)) = 0"
proof -
  have "\<not> Done demo_job" by (simp add: demo_job_def MakeCoordinator_def Done_def)
  from GetTask_hands_out [OF this, of "\<lambda>_. 5"] show ?thesis
    by (simp add: demo_job_def MakeCoordinator_def GetTask_def zero_GetTaskReply_def)
qed

text \<open>
  A task finished twice is counted twice.  \<open>FinishTask\<close> counts calls, not tasks.  When a task
  is handed out a second time after ten seconds and both workers report it, the map phase of a
  two-file job ends although the second file was never handed out to anybody, and its contents are
  missing from the output.
\<close>

theorem FinishTask_counts_twice:
  "\<exists>c1 c2 c3 c4. GetTask (\<lambda>_. 0) demo_job = (c1, zero_GetTaskReply\<lparr>gt_File := ''a'', gt_NReduce := 1\<rparr>) \<and>
     GetTask (\<lambda>_. 11) c1 = (c2, zero_GetTaskReply\<lparr>gt_File := ''a'', gt_NReduce := 1\<rparr>) \<and>
     FinishTask \<lparr>ft_TaskType = mapTask, ft_Id = 0\<rparr> c2 = Some (c3, None) \<and>
     FinishTask \<lparr>ft_TaskType = mapTask, ft_Id = 0\<rparr> c3 = Some (c4, None) \<and>
     currentPhase c4 = reducePhase \<and> tk_state (co_mapTask c4 ! 1) = idle"
  by (simp add: demo_job_def MakeCoordinator_def GetTask_def FinishTask_def finish_at_def go_simps
      zero_GetTaskReply_def Let_def)


end
