(* ===== verification/Utf8.thy ===== *)
theory Utf8
  imports GoPrelude
begin

text \<open>
  Go strings as sequences of runes, as \<open>range\<close> and the packages \<open>strings\<close> and \<open>encoding/json\<close> read
  them.  A string is a list of bytes; a byte that begins no UTF-8 sequence is read as the rune U+FFFD of
  width one.  \<open>json_string\<close> is what a string is after \<open>json.Marshal\<close> and \<open>Decode\<close>: such a byte comes
  back as the three bytes of U+FFFD.
\<close>

section \<open>Decoding\<close>

definition rune_error :: nat where
  "rune_error = 0xFFFD"

abbreviation byte :: "char \<Rightarrow> nat" where
  "byte c \<equiv> of_char c"

definition between :: "nat \<Rightarrow> nat \<Rightarrow> char \<Rightarrow> bool" where
  "between lo hi c \<longleftrightarrow> lo \<le> byte c \<and> byte c \<le> hi"

text \<open>The range of the second byte, by the first one, of sequences of three and four bytes.\<close>

definition second3 :: "char \<Rightarrow> char \<Rightarrow> bool" where
  "second3 a b \<longleftrightarrow> between (if byte a = 0xE0 then 0xA0 else 0x80) (if byte a = 0xED then 0x9F else 0xBF) b"

definition second4 :: "char \<Rightarrow> char \<Rightarrow> bool" where
  "second4 a b \<longleftrightarrow> between (if byte a = 0xF0 then 0x90 else 0x80) (if byte a = 0xF4 then 0x8F else 0xBF) b"

text \<open>\<open>utf8.DecodeRuneInString\<close>: the rune and its width.\<close>

fun decode_rune :: "string \<Rightarrow> nat \<times> nat" where
  "decode_rune [] = (rune_error, 0)"
| "decode_rune (a # s) =
     (if byte a < 0x80 then (byte a, 1)
      else if between 0xC2 0xDF a then
        (case s of b # _ \<Rightarrow> if between 0x80 0xBF b then ((byte a - 0xC0) * 64 + (byte b - 0x80), 2) else (rune_error, 1)
         | _ \<Rightarrow> (rune_error, 1))
      else if between 0xE0 0xEF a then
        (case s of b # c # _ \<Rightarrow> if second3 a b \<and> between 0x80 0xBF c
             then (((byte a - 0xE0) * 64 + (byte b - 0x80)) * 64 + (byte c - 0x80), 3) else (rune_error, 1)
         | _ \<Rightarrow> (rune_error, 1))
      else if between 0xF0 0xF4 a then
        (case s of b # c # d # _ \<Rightarrow> if second4 a b \<and> between 0x80 0xBF c \<and> between 0x80 0xBF d
             then ((((byte a - 0xF0) * 64 + (byte b - 0x80)) * 64 + (byte c - 0x80)) * 64 + (byte d - 0x80), 4)
             else (rune_error, 1)
         | _ \<Rightarrow> (rune_error, 1))
      else (rune_error, 1))"

text \<open>\<open>range\<close> over a string: the runes with their bytes.\<close>

lemma decode_rune_width: "0 < snd (decode_rune (a # s)) \<and> snd (decode_rune (a # s)) \<le> length (a # s)"
  by (auto split: list.split)

function runes :: "string \<Rightarrow> (nat \<times> string) list" where
  "runes [] = []"
| "runes (a # s) = (let (r, n) = decode_rune (a # s) in (r, take n (a # s)) # runes (drop n (a # s)))"
  by pat_completeness auto
termination
proof (relation "measure length")
  fix a :: char and s x r n
  assume "x = decode_rune (a # s)" "(r, n) = x"
  then have "n = snd (decode_rune (a # s))" by (metis snd_conv)
  then have "0 < n" using decode_rune_width by metis
  then show "(drop n (a # s), a # s) \<in> measure length" by simp
qed simp

definition json_rune :: "nat \<times> string \<Rightarrow> string" where
  "json_rune rb = (if fst rb = rune_error \<and> length (snd rb) = 1 then [CHR 0xEF, CHR 0xBF, CHR 0xBD] else snd rb)"

definition json_string :: "string \<Rightarrow> string" where
  "json_string s = concat (map json_rune (runes s))"

section \<open>Runes of a concatenation\<close>

lemma concat_runes: "concat (map snd (runes s)) = s"
proof (induction s rule: runes.induct)
  case (2 a s)
  obtain r n where d: "decode_rune (a # s) = (r, n)" by fastforce
  then show ?case using "2.IH" [OF refl, of r n] by (simp del: decode_rune.simps)
qed simp

text \<open>A whole rune: its bytes decode to it, and it is not a single bad byte.\<close>

definition whole :: "nat \<times> string \<Rightarrow> bool" where
  "whole rb \<longleftrightarrow> decode_rune (snd rb) = (fst rb, length (snd rb)) \<and> snd rb \<noteq> [] \<and> \<not> (fst rb = rune_error \<and> length (snd rb) = 1)"

lemma json_rune_whole: "whole rb \<Longrightarrow> json_rune rb = snd rb"
  by (auto simp: json_rune_def whole_def)

text \<open>What follows a whole rune does not matter.\<close>

lemma decode_rune_append:
  assumes "decode_rune s = (r, length s)" "s \<noteq> []" "\<not> (r = rune_error \<and> length s = 1)"
  shows "decode_rune (s @ t) = (r, length s)"
  using assms by (cases s) (auto split: list.splits if_split_asm)

lemma decode_rune_take:
  assumes "decode_rune (a # s) = (r, n)" "\<not> (r = rune_error \<and> n = 1)"
  shows "decode_rune (take n (a # s)) = (r, n)"
  using assms by (auto split: list.splits if_split_asm)

lemma runes_whole:
  assumes "rb \<in> set (runes s)" "\<not> (fst rb = rune_error \<and> length (snd rb) = 1)"
  shows "whole rb"
  using assms
proof (induction s rule: runes.induct)
  case (2 a s)
  obtain r n where d: "decode_rune (a # s) = (r, n)" by fastforce
  have n: "0 < n" "n \<le> length (a # s)" using decode_rune_width [of a s] d by auto
  show ?case
  proof (cases "rb = (r, take n (a # s))")
    case True
    then have "\<not> (r = rune_error \<and> n = 1)" using "2.prems"(2) n by auto
    then show ?thesis using True decode_rune_take [OF d] n by (simp add: whole_def)
  next
    case False
    then have "rb \<in> set (runes (drop n (a # s)))" using "2.prems"(1) d by (simp del: decode_rune.simps)
    then show ?thesis using "2.IH" [OF refl, of r n] d "2.prems"(2) by simp
  qed
qed simp

lemma runes_Cons_whole:
  assumes "whole (r, b)"
  shows "runes (b @ t) = (r, b) # runes t"
proof -
  obtain a s where b: "b = a # s" using assms by (cases b) (auto simp: whole_def)
  have "decode_rune (b @ t) = (r, length b)" using assms by (intro decode_rune_append) (auto simp: whole_def)
  then show ?thesis by (simp add: b del: decode_rune.simps)
qed

lemma runes_concat_whole:
  assumes "\<forall>rb\<in>set rbs. whole rb"
  shows "runes (concat (map snd rbs)) = rbs"
  using assms by (induction rbs) (auto simp: runes_Cons_whole)

text \<open>A string of whole runes survives JSON, and only such a string does.\<close>

lemma json_string_whole:
  assumes "\<forall>rb\<in>set rbs. whole rb"
  shows "json_string (concat (map snd rbs)) = concat (map snd rbs)"
  using assms by (simp add: json_string_def runes_concat_whole) (metis json_rune_whole map_eq_conv)

theorem json_string_id_iff: "json_string s = s \<longleftrightarrow> (\<forall>rb\<in>set (runes s). whole rb)"
proof
  assume id: "json_string s = s"
  have le: "length (snd rb) \<le> length (json_rune rb)" if "rb \<in> set (runes s)" for rb
    by (auto simp: json_rune_def)
  have "length (concat (map json_rune (runes s))) = length (concat (map snd (runes s)))"
    using id by (simp add: json_string_def concat_runes)
  then have sum: "(\<Sum>rb\<leftarrow>runes s. length (json_rune rb)) = (\<Sum>rb\<leftarrow>runes s. length (snd rb))"
    by (simp add: length_concat o_def)
  have "length (json_rune rb) = length (snd rb)" if rb: "rb \<in> set (runes s)" for rb
  proof (rule ccontr)
    assume "length (json_rune rb) \<noteq> length (snd rb)"
    then have "length (snd rb) < length (json_rune rb)" using le [OF rb] by simp
    moreover obtain xs ys where split: "runes s = xs @ rb # ys" using split_list [OF rb] by blast
    then have "(\<Sum>rb\<leftarrow>xs. length (snd rb)) \<le> (\<Sum>rb\<leftarrow>xs. length (json_rune rb))"
      "(\<Sum>rb\<leftarrow>ys. length (snd rb)) \<le> (\<Sum>rb\<leftarrow>ys. length (json_rune rb))"
      using le by (auto intro: sum_list_mono)
    ultimately show False using sum split by simp
  qed
  then show "\<forall>rb\<in>set (runes s). whole rb"
    using runes_whole [of _ s] by (fastforce simp: json_rune_def split: if_splits)
next
  assume "\<forall>rb\<in>set (runes s). whole rb"
  from json_string_whole [OF this] show "json_string s = s" by (simp add: concat_runes)
qed

lemma json_ascii: "\<forall>c\<in>set s. byte c < 0x80 \<Longrightarrow> json_string s = s"
proof (induction s)
  case (Cons a s)
  have "whole (byte a, [a])" using Cons.prems by (simp add: whole_def rune_error_def)
  then have "runes (a # s) = (byte a, [a]) # runes s" using runes_Cons_whole [of "byte a" "[a]" s] by simp
  then show ?case
    using Cons json_rune_whole [OF \<open>whole (byte a, [a])\<close>] by (simp add: json_string_def)
qed (simp add: json_string_def)

end
