(* ===== verification/MrWorker.thy ===== *)
theory MrWorker
  imports Utf8 "HOL-Library.Multiset" "HOL-Library.List_Lexorder" "HOL-Library.Char_ord"
begin

text \<open>
  What a MapReduce worker of lab 1 does with one task (\<open>src/mr/worker.go\<close>), and the sequential
  program it is compared with (\<open>src/main/mrsequential.go\<close>).  An intermediate file \<open>mr-m-r\<close> is the
  list of the key/value pairs that decoding its JSON objects gives, which are those that were encoded
  except for bytes that are no UTF-8 (\<open>json_kv\<close>); an output file is the list of its lines.  \<open>slices.SortFunc\<close> and \<open>sort.Sort\<close> only promise a permutation that is sorted by
  key, so the sorting function is the parameter \<open>sortf\<close>.  Go compares strings bytewise, as the
  lexicographic order of HOL's strings does.
\<close>

section \<open>Map tasks\<close>

record KeyValue =
  kv_Key :: string
  kv_Value :: string

text \<open>\<open>h.Sum32() & 0x7fffffff\<close>.\<close>

unbundle bit_operations_syntax

definition ihash :: "string \<Rightarrow> int" where
  "ihash key = uint (fnv32a key AND 0x7fffffff)"

text \<open>\<open>json.Marshal(kv)\<close> and \<open>dec.Decode(&kv)\<close> of it.\<close>

definition json_kv :: "KeyValue \<Rightarrow> KeyValue" where
  "json_kv kv = \<lparr>kv_Key = json_string (kv_Key kv), kv_Value = json_string (kv_Value kv)\<rparr>"

text \<open>
  The \<open>n\<close> temporary files of a map task: each pair is appended to the file of its bucket.
  With \<open>n = 0\<close> the first pair divides by zero, which is \<open>None\<close>, as is a bucket out of range.
\<close>

fun bucket_loop :: "int \<Rightarrow> KeyValue list \<Rightarrow> KeyValue list list \<Rightarrow> KeyValue list list option" where
  "bucket_loop n [] tmp = Some tmp"
| "bucket_loop n (kv # kvs) tmp =
     (if n = 0 then None
      else do {
        let r = ihash (kv_Key kv) mod n;
        f \<leftarrow> go_get tmp r;
        tmp \<leftarrow> go_set tmp r (f @ [json_kv kv]);
        bucket_loop n kvs tmp
      })"

definition map_files :: "(string \<Rightarrow> string \<Rightarrow> KeyValue list) \<Rightarrow> string \<Rightarrow> string \<Rightarrow> int \<Rightarrow>
    KeyValue list list option" where
  "map_files mapf file content n =
     (if n < 0 then None else bucket_loop n (mapf file content) (replicate (nat n) []))"

section \<open>Reduce tasks\<close>

text \<open>The loops over \<open>i\<close> and \<open>j\<close> that collect the values of each run of equal keys.\<close>

lemma dropWhile_shorter [termination_simp]: "length (dropWhile P xs) < Suc (length xs)"
  by (rule le_imp_less_Suc) (rule length_dropWhile_le)

fun shuffle :: "KeyValue list \<Rightarrow> (string \<times> string list) list" where
  "shuffle [] = []"
| "shuffle (kv # kva) =
     (kv_Key kv, kv_Value kv # map kv_Value (takeWhile (\<lambda>x. kv_Key x = kv_Key kv) kva))
       # shuffle (dropWhile (\<lambda>x. kv_Key x = kv_Key kv) kva)"

text \<open>\<open>fmt.Fprintf(file, "%v %v\n", key, value)\<close>.\<close>

definition out_line :: "string \<Rightarrow> string \<Rightarrow> string" where
  "out_line key out = key @ '' '' @ out @ [CHR 0x0A]"

definition reduce_lines :: "(KeyValue list \<Rightarrow> KeyValue list) \<Rightarrow> (string \<Rightarrow> string list \<Rightarrow> string) \<Rightarrow>
    KeyValue list \<Rightarrow> string list" where
  "reduce_lines sortf reducef kva =
     map (\<lambda>(key, values). out_line key (reducef key values)) (shuffle (sortf kva))"

text \<open>
  A reduce task reads the files \<open>mr-m-r\<close> it finds, in the order of \<open>names\<close>, their map numbers.
\<close>

definition reduce_input :: "(nat \<times> nat \<Rightarrow> KeyValue list option) \<Rightarrow> nat list \<Rightarrow> nat \<Rightarrow> KeyValue list" where
  "reduce_input files names r = concat (map (\<lambda>m. case files (m, r) of None \<Rightarrow> [] | Some kvs \<Rightarrow> kvs) names)"

section \<open>The sequential program\<close>

definition mrsequential :: "(KeyValue list \<Rightarrow> KeyValue list) \<Rightarrow> (string \<Rightarrow> string \<Rightarrow> KeyValue list) \<Rightarrow>
    (string \<Rightarrow> string list \<Rightarrow> string) \<Rightarrow> (string \<times> string) list \<Rightarrow> string list" where
  "mrsequential sortf mapf reducef input =
     reduce_lines sortf reducef (concat (map (\<lambda>(name, content). mapf name content) input))"

section \<open>What the library functions promise\<close>

definition sorts_by_key :: "(KeyValue list \<Rightarrow> KeyValue list) \<Rightarrow> bool" where
  "sorts_by_key sortf \<longleftrightarrow> (\<forall>kva. mset (sortf kva) = mset kva \<and> sorted (map kv_Key (sortf kva)))"

text \<open>A reduce function whose result does not depend on the order of the values.\<close>

definition order_blind :: "(string \<Rightarrow> string list \<Rightarrow> string) \<Rightarrow> bool" where
  "order_blind reducef \<longleftrightarrow> (\<forall>key xs ys. mset xs = mset ys \<longrightarrow> reducef key xs = reducef key ys)"

lemma sorts_by_key_sort_key: "sorts_by_key (sort_key kv_Key)"
  by (simp add: sorts_by_key_def)

section \<open>Buckets\<close>

lemma ihash_nonneg [simp]: "0 \<le> ihash key"
  by (simp add: ihash_def)

definition bucket :: "int \<Rightarrow> nat \<Rightarrow> KeyValue list \<Rightarrow> KeyValue list" where
  "bucket n r kvs = filter (\<lambda>kv. ihash (kv_Key kv) mod n = int r) kvs"

lemma bucket_loop_eq:
  assumes "0 < n" "length tmp = nat n"
  shows "bucket_loop n kvs tmp = Some (map (\<lambda>r. tmp ! r @ map json_kv (bucket n r kvs)) [0..<nat n])"
  using assms(2)
proof (induction kvs arbitrary: tmp)
  case Nil
  then show ?case by (simp add: bucket_def) (metis map_nth)
next
  case (Cons kv kvs)
  let ?r = "ihash (kv_Key kv) mod n"
  have r: "0 \<le> ?r" "?r < n" using assms(1) by auto
  have "bucket_loop n (kv # kvs) tmp = bucket_loop n kvs (tmp[nat ?r := tmp ! nat ?r @ [json_kv kv]])"
    using assms(1) r Cons.prems by (simp add: go_simps Let_def)
  also have "\<dots> = Some (map (\<lambda>r. tmp ! r @ map json_kv (bucket n r (kv # kvs))) [0..<nat n])"
    using r Cons.prems by (subst Cons.IH) (auto simp: bucket_def nth_list_update)
  finally show ?case .
qed

lemma map_files_eq:
  "0 < n \<Longrightarrow> map_files mapf file content n =
     Some (map (\<lambda>r. map json_kv (bucket n r (mapf file content))) [0..<nat n])"
  by (simp add: map_files_def bucket_loop_eq cong: map_cong)

section \<open>Grouping\<close>

definition values_of :: "KeyValue list \<Rightarrow> string \<Rightarrow> string list" where
  "values_of kva key = map kv_Value (filter (\<lambda>x. kv_Key x = key) kva)"

lemma sorted_list_of_set_least:
  fixes k :: "'a :: linorder"
  assumes "finite A" "\<And>x. x \<in> A \<Longrightarrow> k < x"
  shows "sorted_list_of_set (insert k A) = k # sorted_list_of_set A"
proof -
  have "sorted_list_of_set (set (k # sorted_list_of_set A)) = k # sorted_list_of_set A"
    using assms by (intro sorted_list_of_set.idem_if_sorted_distinct) (auto simp: less_imp_le)
  then show ?thesis using assms(1) by simp
qed

lemma sorted_map_dropWhile: "sorted (map f xs) \<Longrightarrow> sorted (map f (dropWhile P xs))"
  by (induction xs) auto

lemma shuffle_sorted:
  assumes "sorted (map kv_Key kva)"
  shows "shuffle kva = map (\<lambda>k. (k, values_of kva k)) (sorted_list_of_set (kv_Key ` set kva))"
  using assms
proof (induction kva rule: shuffle.induct)
  case (2 kv kva)
  let ?k = "kv_Key kv" and ?eq = "\<lambda>x. kv_Key x = kv_Key kv"
  let ?rest = "dropWhile ?eq kva"
  have sorted: "sorted (map kv_Key kva)" and le: "\<And>x. x \<in> set kva \<Longrightarrow> ?k \<le> kv_Key x"
    using "2.prems" by auto
  have "sorted (map kv_Key ?rest)"
    by (rule sorted_map_dropWhile) (rule sorted)
  have gt: "?k < kv_Key x" if x: "x \<in> set ?rest" for x
  proof -
    obtain y ys where r: "?rest = y # ys" using x by (cases ?rest) auto
    have "\<not> ?eq y" using r hd_dropWhile [of ?eq kva] by simp
    moreover have "?k \<le> kv_Key y" using le [of y] r set_dropWhileD [of y ?eq kva] by simp
    moreover have "kv_Key y \<le> kv_Key x" using \<open>sorted (map kv_Key ?rest)\<close> r x by auto
    ultimately show ?thesis by order
  qed
  have split: "kva = takeWhile ?eq kva @ ?rest" by simp
  have none: "filter ?eq ?rest = []" using gt by (force simp: filter_empty_conv)
  have all: "filter ?eq (takeWhile ?eq kva) = takeWhile ?eq kva"
    by (auto simp: filter_id_conv dest: set_takeWhileD)
  have "filter ?eq kva = takeWhile ?eq kva" using split none all by (metis append_Nil2 filter_append)
  then have head: "values_of (kv # kva) ?k = kv_Value kv # map kv_Value (takeWhile ?eq kva)"
    by (simp add: values_of_def)
  have "set kva = set (takeWhile ?eq kva) \<union> set ?rest" using split by (metis set_append)
  then have keys: "kv_Key ` set (kv # kva) = insert ?k (kv_Key ` set ?rest)"
    by (auto dest: set_takeWhileD)
  have "sorted_list_of_set (insert ?k (kv_Key ` set ?rest)) = ?k # sorted_list_of_set (kv_Key ` set ?rest)"
    using gt by (intro sorted_list_of_set_least) auto
  moreover have "values_of (kv # kva) k = values_of ?rest k" if "k \<in> kv_Key ` set ?rest" for k
  proof -
    have "k \<noteq> ?k" using that gt by force
    then have "filter (\<lambda>x. kv_Key x = k) (takeWhile ?eq kva) = []"
      by (auto simp: filter_empty_conv dest: set_takeWhileD)
    then have "filter (\<lambda>x. kv_Key x = k) kva = filter (\<lambda>x. kv_Key x = k) ?rest"
      by (subst split) (simp del: takeWhile_dropWhile_id)
    then show ?thesis using \<open>k \<noteq> ?k\<close> by (simp add: values_of_def)
  qed
  ultimately show ?case
    using "2.IH" \<open>sorted (map kv_Key ?rest)\<close> head keys by simp
qed simp

section \<open>Reduce tasks produce a canonical output\<close>

lemma mset_values_of: "mset xs = mset ys \<Longrightarrow> mset (values_of xs k) = mset (values_of ys k)"
  by (simp add: values_of_def mset_filter)

lemma order_blindD: "order_blind reducef \<Longrightarrow> mset xs = mset ys \<Longrightarrow> reducef k xs = reducef k ys"
  unfolding order_blind_def by blast

lemma reduce_lines_eq:
  assumes "sorts_by_key sortf" "order_blind reducef"
  shows "reduce_lines sortf reducef kva =
    map (\<lambda>k. out_line k (reducef k (values_of kva k))) (sorted_list_of_set (kv_Key ` set kva))"
proof -
  have m: "mset (sortf kva) = mset kva" and s: "sorted (map kv_Key (sortf kva))"
    using assms(1) by (auto simp: sorts_by_key_def)
  have "reducef k (values_of (sortf kva) k) = reducef k (values_of kva k)" for k
    by (rule order_blindD [OF assms(2) mset_values_of [OF m]])
  then show ?thesis
    by (simp add: reduce_lines_def shuffle_sorted [OF s] mset_eq_setD [OF m])
qed

corollary reduce_lines_mset:
  assumes "sorts_by_key sortf" "order_blind reducef" "mset xs = mset ys"
  shows "reduce_lines sortf reducef xs = reduce_lines sortf reducef ys"
proof -
  have "reducef k (values_of xs k) = reducef k (values_of ys k)" for k
    by (rule order_blindD [OF assms(2) mset_values_of [OF assms(3)]])
  then show ?thesis
    by (simp add: reduce_lines_eq [OF assms(1,2)] mset_eq_setD [OF assms(3)])
qed

text \<open>
  The buckets of all the map outputs, reduced one by one, give the lines of the sequential
  program, each once.
\<close>

lemma bucket_concat: "bucket n r (concat kss) = concat (map (bucket n r) kss)"
  by (induction kss) (simp_all add: bucket_def)

lemma values_of_bucket:
  "ihash k mod n = int r \<Longrightarrow> values_of (bucket n r kva) k = values_of kva k"
  by (auto simp: values_of_def bucket_def intro!: arg_cong [where f = "map kv_Value"] filter_cong)

lemma mset_sorted_list_of_set: "finite A \<Longrightarrow> mset (sorted_list_of_set A) = mset_set A"
  using mset_set_set [of "sorted_list_of_set A"] by simp

lemma buckets_cover:
  assumes "0 < n"
  shows "mset (concat (map (\<lambda>r. sorted_list_of_set (kv_Key ` set (bucket n r kva))) [0..<nat n]))
    = mset_set (kv_Key ` set kva)"
proof -
  let ?K = "\<lambda>r. kv_Key ` set (bucket n r kva)"
  have "mset (concat (map (\<lambda>r. sorted_list_of_set (?K r)) [0..<m]))
      = mset_set (\<Union>r<m. ?K r)" for m
  proof (induction m)
    case (Suc m)
    have "(\<Union>r<m. ?K r) \<inter> ?K m = {}" by (auto simp: bucket_def)
    then show ?case
      using Suc mset_set_Union [of "\<Union>r<m. ?K r" "?K m"] by (simp add: lessThan_Suc Un_commute mset_sorted_list_of_set)
  qed simp
  moreover have "(\<Union>r<nat n. ?K r) = kv_Key ` set kva"
  proof -
    have "\<exists>r<nat n. ihash (kv_Key kv) mod n = int r" for kv
      using assms by (intro exI [of _ "nat (ihash (kv_Key kv) mod n)"]) auto
    then show ?thesis by (fastforce simp: bucket_def)
  qed
  ultimately show ?thesis by simp
qed

lemma reduce_buckets:
  assumes "sorts_by_key sortf" "order_blind reducef" "0 < n"
  shows "mset (concat (map (\<lambda>r. reduce_lines sortf reducef (bucket n r kva)) [0..<nat n]))
    = mset (reduce_lines sortf reducef kva)"
proof -
  let ?line = "\<lambda>k. out_line k (reducef k (values_of kva k))"
    and ?keys = "\<lambda>r. sorted_list_of_set (kv_Key ` set (bucket n r kva))"
  have "values_of (bucket n r kva) k = values_of kva k" if "k \<in> set (?keys r)" for r k
    using that by (intro values_of_bucket) (auto simp: bucket_def)
  then have "map (\<lambda>k. out_line k (reducef k (values_of (bucket n r kva) k))) (?keys r)
      = map ?line (?keys r)" for r
    by (intro map_cong [OF refl]) metis
  then have "concat (map (\<lambda>r. reduce_lines sortf reducef (bucket n r kva)) [0..<nat n])
      = map ?line (concat (map ?keys [0..<nat n]))"
    by (simp only: reduce_lines_eq [OF assms(1,2)] map_concat map_map o_def)
  then show ?thesis
    using buckets_cover [OF assms(3), of kva]
    by (simp add: reduce_lines_eq [OF assms(1,2)] mset_sorted_list_of_set del: mset_concat)
qed

end
