(* ===== verification/MrSystem.thy ===== *)
theory MrSystem
  imports MrCoord MrWorker
begin

text \<open>
  A whole MapReduce job of lab 1: the coordinator, any number of workers (\<open>Worker\<close> of
  \<open>src/mr/worker.go\<close>) and the files they share.  A worker that fails to read or write a file,
  loses a reply or is killed simply stops; another number stands for the process that is started
  instead.  The temporary files of a map task are private until they are renamed one by one.

  The coordinator hands a task out again after ten seconds, whether the first worker is gone or only
  slow, so any number of workers can be busy with the same task, and report it.  The coordinator counts
  reports: a second one during the task's phase ends the phase too early.  A step that does this is
  marked as a slip, as is an output file whose renaming fails, which the worker does not notice.  Without
  a slip the job computes what the sequential program does; with one it may not
  (\<open>second_report_loses_words\<close>).
\<close>

section \<open>Workers and files\<close>

record mr_conf =
  cf_names :: "string list"
  cf_content :: "string \<Rightarrow> string"
  cf_map :: "string \<Rightarrow> string \<Rightarrow> KeyValue list"
  cf_reduce :: "string \<Rightarrow> string list \<Rightarrow> string"
  cf_sort :: "KeyValue list \<Rightarrow> KeyValue list"
  cf_nReduce :: int

text \<open>
  \<open>MapJob m i tmp\<close> has its buckets \<open>tmp\<close> in temporary files and has renamed the first \<open>i\<close>.  A reduce
  job has its input still to read, has the lines of its output in a temporary file, or has renamed it.
\<close>

datatype reduce_pc = Reading | Writing "string list" | Reporting

datatype job = MapJob nat nat "KeyValue list list" | ReduceJob nat reduce_pc

record mr_sys =
  coord :: Coordinator
  busy :: "nat \<Rightarrow> job option"
  files :: "nat \<times> nat \<Rightarrow> KeyValue list option"
  outs :: "nat \<Rightarrow> string list option"

text \<open>What a worker starts with a reply that is not \<open>Wait\<close>.\<close>

definition take_task :: "mr_conf \<Rightarrow> GetTaskReply \<Rightarrow> job option" where
  "take_task cf rep = (case gt_TaskType rep of
     mapTask \<Rightarrow> map_option (MapJob (nat (gt_Id rep)) 0)
       (map_files (cf_map cf) (gt_File rep) (cf_content cf (gt_File rep)) (gt_NReduce rep))
   | reduceTask \<Rightarrow> Some (ReduceJob (nat (gt_Id rep)) Reading)
   | doneTask \<Rightarrow> None)"

definition set_busy :: "nat \<Rightarrow> job option \<Rightarrow> mr_sys \<Rightarrow> mr_sys" where
  "set_busy w j S = S\<lparr>busy := (busy S)(w := j)\<rparr>"

definition rename_bucket :: "nat \<Rightarrow> nat \<Rightarrow> KeyValue list list \<Rightarrow> mr_sys \<Rightarrow> mr_sys" where
  "rename_bucket m i tmp S = S\<lparr>files := (files S)((m, i) \<mapsto> tmp ! i)\<rparr>"

text \<open>\<open>filepath.Glob("mr-*-r")\<close>, less what is not of the form \<open>mr-m-r\<close>: the map numbers, in some order.\<close>

definition globs :: "(nat \<times> nat \<Rightarrow> KeyValue list option) \<Rightarrow> nat \<Rightarrow> nat list \<Rightarrow> bool" where
  "globs fs r ms \<longleftrightarrow> distinct ms \<and> set ms = {m. fs (m, r) \<noteq> None}"

definition output_of :: "mr_conf \<Rightarrow> nat \<Rightarrow> nat list \<Rightarrow> mr_sys \<Rightarrow> string list" where
  "output_of cf r ms S = reduce_lines (cf_sort cf) (cf_reduce cf) (reduce_input (files S) ms r)"

definition rename_output :: "nat \<Rightarrow> string list \<Rightarrow> mr_sys \<Rightarrow> mr_sys" where
  "rename_output r lines S = S\<lparr>outs := (outs S)(r \<mapsto> lines)\<rparr>"

text \<open>
  The mark of a step says whether it is a slip.  A reduce job lists the files and reads them in one step:
  a file never changes once it is there, so later readings give the same.
\<close>

definition reported :: "task list \<Rightarrow> nat \<Rightarrow> bool" where
  "reported ts i \<longleftrightarrow> tk_state (ts ! i) = completed"

inductive mr_step :: "mr_conf \<Rightarrow> mr_sys \<Rightarrow> bool \<Rightarrow> mr_sys \<Rightarrow> bool" for cf :: mr_conf where
  get: "busy S w = None \<Longrightarrow> GetTask clk (coord S) = (c, rep) \<Longrightarrow> \<not> gt_Wait rep \<Longrightarrow>
    take_task cf rep = Some j \<Longrightarrow> mr_step cf S False (set_busy w (Some j) (S\<lparr>coord := c\<rparr>))"
| get_lost: "GetTask clk (coord S) = (c, rep) \<Longrightarrow> mr_step cf S False (S\<lparr>coord := c\<rparr>)"
| rename: "busy S w = Some (MapJob m i tmp) \<Longrightarrow> i < length tmp \<Longrightarrow>
    mr_step cf S False (set_busy w (Some (MapJob m (Suc i) tmp)) (rename_bucket m i tmp S))"
| read: "busy S w = Some (ReduceJob r Reading) \<Longrightarrow> globs (files S) r ms \<Longrightarrow>
    mr_step cf S False (set_busy w (Some (ReduceJob r (Writing (output_of cf r ms S)))) S)"
| emit: "busy S w = Some (ReduceJob r (Writing lines)) \<Longrightarrow>
    mr_step cf S False (set_busy w (Some (ReduceJob r Reporting)) (rename_output r lines S))"
| emit_fails: "busy S w = Some (ReduceJob r (Writing lines)) \<Longrightarrow>
    mr_step cf S True (set_busy w (Some (ReduceJob r Reporting)) S)"
| finish_map: "busy S w = Some (MapJob m i tmp) \<Longrightarrow> i = length tmp \<Longrightarrow>
    FinishTask \<lparr>ft_TaskType = mapTask, ft_Id = int m\<rparr> (coord S) = Some (c, None) \<Longrightarrow>
    mr_step cf S (currentPhase (coord S) = mapPhase \<and> reported (co_mapTask (coord S)) m)
      (set_busy w None (S\<lparr>coord := c\<rparr>))"
| finish_reduce: "busy S w = Some (ReduceJob r Reporting) \<Longrightarrow>
    FinishTask \<lparr>ft_TaskType = reduceTask, ft_Id = int r\<rparr> (coord S) = Some (c, None) \<Longrightarrow>
    mr_step cf S (currentPhase (coord S) = reducePhase \<and> reported (co_reduceTask (coord S)) r)
      (set_busy w None (S\<lparr>coord := c\<rparr>))"
| crash: "mr_step cf S False (set_busy w None S)"

definition mr_start :: "mr_conf \<Rightarrow> mr_sys option" where
  "mr_start cf = map_option (\<lambda>c. \<lparr>coord = c, busy = (\<lambda>_. None), files = (\<lambda>_. None), outs = (\<lambda>_. None)\<rparr>)
     (MakeCoordinator (cf_names cf) (cf_nReduce cf))"

text \<open>The runs, with whether there has been a slip.\<close>

inductive mr_run :: "mr_conf \<Rightarrow> bool \<Rightarrow> mr_sys \<Rightarrow> bool" for cf :: mr_conf where
  start: "mr_start cf = Some S \<Longrightarrow> mr_run cf False S"
| step: "mr_run cf d S \<Longrightarrow> mr_step cf S e T \<Longrightarrow> mr_run cf (d \<or> e) T"

text \<open>The steps that are no slips.\<close>

definition mr_next :: "mr_conf \<Rightarrow> mr_sys \<Rightarrow> mr_sys \<Rightarrow> bool" where
  "mr_next cf S T \<longleftrightarrow> mr_step cf S False T"

lemma mr_nextI: "mr_step cf S e T \<Longrightarrow> \<not> e \<Longrightarrow> mr_next cf S T"
  by (simp add: mr_next_def)

lemma mr_run_next: "(mr_next cf)\<^sup>*\<^sup>* S T \<Longrightarrow> mr_run cf d S \<Longrightarrow> mr_run cf d T"
proof (induction rule: rtranclp_induct)
  case (step T U)
  then show ?case using mr_run.step [of cf d T False U] by (simp add: mr_next_def)
qed simp

lemma sys_simps [simp]:
  "coord (set_busy w j S) = coord S" "busy (set_busy w j S) = (busy S)(w := j)"
  "files (set_busy w j S) = files S" "outs (set_busy w j S) = outs S"
  "coord (rename_bucket m i tmp S) = coord S" "busy (rename_bucket m i tmp S) = busy S"
  "files (rename_bucket m i tmp S) = (files S)((m, i) \<mapsto> tmp ! i)" "outs (rename_bucket m i tmp S) = outs S"
  "coord (rename_output r lines S) = coord S" "busy (rename_output r lines S) = busy S"
  "files (rename_output r lines S) = files S" "outs (rename_output r lines S) = (outs S)(r \<mapsto> lines)"
  by (simp_all add: set_busy_def rename_bucket_def rename_output_def)

section \<open>The invariant of every run\<close>

definition map_out :: "mr_conf \<Rightarrow> nat \<Rightarrow> KeyValue list" where
  "map_out cf m = cf_map cf (cf_names cf ! m) (cf_content cf (cf_names cf ! m))"

definition buckets :: "mr_conf \<Rightarrow> nat \<Rightarrow> KeyValue list list" where
  "buckets cf m = map (\<lambda>r. map json_kv (bucket (cf_nReduce cf) r (map_out cf m))) [0..<nat (cf_nReduce cf)]"

definition conf_ok :: "mr_conf \<Rightarrow> bool" where
  "conf_ok cf \<longleftrightarrow> cf_names cf \<noteq> [] \<and> 0 < cf_nReduce cf \<and> sorts_by_key (cf_sort cf) \<and> order_blind (cf_reduce cf)"

definition phase_of :: "int \<Rightarrow> int \<Rightarrow> int \<Rightarrow> int \<Rightarrow> coordinatorState" where
  "phase_of mf m rf r = (if mf < m then mapPhase else if rf < r then reducePhase else donePhase)"

definition coord_inv :: "mr_conf \<Rightarrow> Coordinator \<Rightarrow> bool" where
  "coord_inv cf c \<longleftrightarrow>
     length (co_mapTask c) = length (cf_names cf) \<and> length (co_reduceTask c) = nat (cf_nReduce cf) \<and>
     nMap c = int (length (cf_names cf)) \<and> nReduce c = cf_nReduce cf \<and>
     (\<forall>m < length (cf_names cf). tk_mapFile (co_mapTask c ! m) = cf_names cf ! m) \<and>
     int (card (completed_tasks (co_mapTask c))) \<le> mapFinish c \<and>
     int (card (completed_tasks (co_reduceTask c))) \<le> reduceFinish c \<and>
     currentPhase c = phase_of (mapFinish c) (nMap c) (reduceFinish c) (nReduce c) \<and>
     (currentPhase c = mapPhase \<longrightarrow> reduceFinish c = 0 \<and> (\<forall>r < nat (cf_nReduce cf). tk_state (co_reduceTask c ! r) = idle))"

definition job_ok :: "mr_conf \<Rightarrow> mr_sys \<Rightarrow> job \<Rightarrow> bool" where
  "job_ok cf S j = (case j of
     MapJob m i tmp \<Rightarrow> m < length (cf_names cf) \<and> tmp = buckets cf m \<and> i \<le> length tmp \<and>
       (\<forall>r < i. files S (m, r) = Some (tmp ! r))
   | ReduceJob r pc \<Rightarrow> r < nat (cf_nReduce cf) \<and> currentPhase (coord S) \<noteq> mapPhase)"

definition files_inv :: "mr_conf \<Rightarrow> mr_sys \<Rightarrow> bool" where
  "files_inv cf S \<longleftrightarrow>
     (\<forall>m r kvs. files S (m, r) = Some kvs \<longrightarrow>
        m < length (cf_names cf) \<and> r < nat (cf_nReduce cf) \<and> kvs = buckets cf m ! r) \<and>
     (\<forall>m r. m \<in> completed_tasks (co_mapTask (coord S)) \<longrightarrow> r < nat (cf_nReduce cf) \<longrightarrow> files S (m, r) \<noteq> None)"

definition mr_inv :: "mr_conf \<Rightarrow> mr_sys \<Rightarrow> bool" where
  "mr_inv cf S \<longleftrightarrow> coord_inv cf (coord S) \<and> files_inv cf S \<and> (\<forall>w j. busy S w = Some j \<longrightarrow> job_ok cf S j)"

lemma mr_inv_parts:
  assumes "mr_inv cf S"
  shows "coord_inv cf (coord S)" "files_inv cf S" "busy S w = Some j \<Longrightarrow> job_ok cf S j"
  using assms by (auto simp: mr_inv_def)

lemma length_buckets [simp]: "length (buckets cf m) = nat (cf_nReduce cf)"
  by (simp add: buckets_def)

lemma mr_inv_start:
  assumes "mr_start cf = Some S" "conf_ok cf"
  shows "mr_inv cf S"
  using assms
  by (auto simp: mr_start_def MakeCoordinator_def mr_inv_def coord_inv_def files_inv_def conf_ok_def
      completed_tasks_def phase_of_def)

text \<open>Handing a task out.\<close>

lemma coord_inv_GetTask:
  assumes "coord_inv cf c" "GetTask clk c = (c', rep)"
  shows "coord_inv cf c'"
  using assms(2)
proof (cases rule: GetTask_cases)
  case (map i ts)
  then show ?thesis
    using assms(1) handed_simps(2,6,7) [OF map(4)] by (auto simp: coord_inv_def)
next
  case (reduce i ts)
  then show ?thesis
    using assms(1) handed_simps(2,7) [OF reduce(4)] by (auto simp: coord_inv_def)
qed (use assms(1) in simp_all)

lemma GetTask_keeps:
  assumes "GetTask clk c = (c', rep)"
  shows "completed_tasks (co_mapTask c') = completed_tasks (co_mapTask c)"
    "completed_tasks (co_reduceTask c') = completed_tasks (co_reduceTask c)"
    "currentPhase c' = currentPhase c" "mapFinish c' = mapFinish c" "reduceFinish c' = reduceFinish c"
    "nMap c' = nMap c" "nReduce c' = nReduce c"
  using assms by (cases rule: GetTask_cases; simp add: handed_simps(7))+

text \<open>Reporting a task.\<close>

lemma card_completed_finish:
  assumes "i < length ts"
  shows "card (completed_tasks (ts[i := (ts ! i)\<lparr>tk_state := completed\<rparr>])) =
    (if reported ts i then card (completed_tasks ts) else Suc (card (completed_tasks ts)))"
proof -
  have "i \<in> completed_tasks ts \<longleftrightarrow> reported ts i" using assms by (simp add: completed_tasks_def reported_def)
  then show ?thesis by (simp add: completed_finish [OF assms] insert_absorb)
qed

lemma FinishTask_map:
  assumes "FinishTask \<lparr>ft_TaskType = mapTask, ft_Id = int m\<rparr> c = Some (c', e)" "m < length (co_mapTask c)"
  shows "c' = c\<lparr>co_mapTask := (co_mapTask c)[m := (co_mapTask c ! m)\<lparr>tk_state := completed\<rparr>],
    mapFinish := mapFinish c + 1,
    currentPhase := (if mapFinish c + 1 = nMap c then reducePhase else currentPhase c)\<rparr>"
  using assms by (auto simp: FinishTask_def finish_at_eq Let_def split: if_splits)

lemma FinishTask_reduce:
  assumes "FinishTask \<lparr>ft_TaskType = reduceTask, ft_Id = int r\<rparr> c = Some (c', e)" "r < length (co_reduceTask c)"
  shows "c' = c\<lparr>co_reduceTask := (co_reduceTask c)[r := (co_reduceTask c ! r)\<lparr>tk_state := completed\<rparr>],
    reduceFinish := reduceFinish c + 1,
    currentPhase := (if reduceFinish c + 1 = nReduce c then donePhase else currentPhase c)\<rparr>"
  using assms by (auto simp: FinishTask_def finish_at_eq Let_def split: if_splits)

lemma coord_invD:
  assumes "coord_inv cf c"
  shows "nMap c = int (length (cf_names cf))" "nReduce c = cf_nReduce cf"
    "currentPhase c = phase_of (mapFinish c) (nMap c) (reduceFinish c) (nReduce c)"
    "mapFinish c < nMap c \<Longrightarrow> reduceFinish c = 0"
    "currentPhase c = mapPhase \<longleftrightarrow> mapFinish c < nMap c"
proof -
  show "nMap c = int (length (cf_names cf))" "nReduce c = cf_nReduce cf"
    and ph: "currentPhase c = phase_of (mapFinish c) (nMap c) (reduceFinish c) (nReduce c)"
    using assms unfolding coord_inv_def by blast+
  then show it: "currentPhase c = mapPhase \<longleftrightarrow> mapFinish c < nMap c" by (simp add: phase_of_def)
  show "mapFinish c < nMap c \<Longrightarrow> reduceFinish c = 0"
    using assms it unfolding coord_inv_def by blast
qed

lemma finish_map_coord:
  assumes inv: "coord_inv cf c" and m: "m < length (cf_names cf)"
    and fin: "FinishTask \<lparr>ft_TaskType = mapTask, ft_Id = int m\<rparr> c = Some (c', e)" and cf: "conf_ok cf"
  shows "coord_inv cf c'" "currentPhase c \<noteq> mapPhase \<Longrightarrow> currentPhase c' = currentPhase c"
proof -
  let ?ts = "(co_mapTask c)[m := (co_mapTask c ! m)\<lparr>tk_state := completed\<rparr>]"
  have len: "m < length (co_mapTask c)" using inv m(1) by (simp add: coord_inv_def)
  note c' = FinishTask_map [OF fin len]
  have names: "tk_mapFile (?ts ! k) = tk_mapFile (co_mapTask c ! k)" for k
    using len by (cases "k = m") simp_all
  have ph: "(if mapFinish c + 1 = nMap c then reducePhase else currentPhase c) =
      phase_of (mapFinish c + 1) (nMap c) (reduceFinish c) (nReduce c)"
    "currentPhase c \<noteq> mapPhase \<Longrightarrow> mapFinish c + 1 \<noteq> nMap c"
    using coord_invD [OF inv] cf unfolding conf_ok_def phase_of_def by (simp_all split: if_splits)
  then show "currentPhase c \<noteq> mapPhase \<Longrightarrow> currentPhase c' = currentPhase c" by (simp add: c')
  have 1: "currentPhase c' = phase_of (mapFinish c') (nMap c') (reduceFinish c') (nReduce c')" using ph(1) by (simp add: c')
  have 2: "currentPhase c = mapPhase" if "currentPhase c' = mapPhase"
    using that by (simp add: c' split: if_splits)
  have 3: "int (card (completed_tasks (co_mapTask c'))) \<le> mapFinish c'"
    using inv card_completed_finish [OF len] by (simp add: c' coord_inv_def)
  have 4: "length (co_mapTask c') = length (co_mapTask c)" "\<And>k. tk_mapFile (co_mapTask c' ! k) = tk_mapFile (co_mapTask c ! k)"
    "co_reduceTask c' = co_reduceTask c" "nMap c' = nMap c" "nReduce c' = nReduce c" "reduceFinish c' = reduceFinish c"
    using names by (simp_all add: c')
  note I = inv [unfolded coord_inv_def]
  show "coord_inv cf c'"
    unfolding coord_inv_def 4 using I 1 [unfolded 4] 2 3 by (intro conjI) blast+
qed

lemma finish_reduce_coord:
  assumes inv: "coord_inv cf c" and r: "r < nat (cf_nReduce cf)" "currentPhase c \<noteq> mapPhase"
    and fin: "FinishTask \<lparr>ft_TaskType = reduceTask, ft_Id = int r\<rparr> c = Some (c', e)"
  shows "coord_inv cf c'" "currentPhase c' \<noteq> mapPhase"
proof -
  let ?ts = "(co_reduceTask c)[r := (co_reduceTask c ! r)\<lparr>tk_state := completed\<rparr>]"
  have len: "r < length (co_reduceTask c)" using inv r(1) by (simp add: coord_inv_def)
  note c' = FinishTask_reduce [OF fin len]
  have ph: "(if reduceFinish c + 1 = nReduce c then donePhase else currentPhase c) =
      phase_of (mapFinish c) (nMap c) (reduceFinish c + 1) (nReduce c)"
    using coord_invD [OF inv] r(2) unfolding phase_of_def by (simp split: if_splits)
  show "currentPhase c' \<noteq> mapPhase" using r(2) by (simp add: c')
  then show "coord_inv cf c'"
    using inv ph card_completed_finish [OF len] by (auto simp: coord_inv_def c')
qed

section \<open>Every step keeps the invariant\<close>

lemma job_ok_mono:
  assumes "job_ok cf S j" "\<And>m r v. files S (m, r) = Some v \<Longrightarrow> v = buckets cf m ! r \<Longrightarrow> files T (m, r) = Some v"
    and "currentPhase (coord S) \<noteq> mapPhase \<Longrightarrow> currentPhase (coord T) \<noteq> mapPhase"
  shows "job_ok cf T j"
  using assms by (cases j) (auto simp: job_ok_def)

lemma take_task_ok:
  assumes inv: "coord_inv cf (coord S)" and cf: "conf_ok cf" and get: "GetTask clk (coord S) = (c, rep)"
    and "\<not> gt_Wait rep" "take_task cf rep = Some j"
  shows "job_ok cf (S\<lparr>coord := c\<rparr>) j"
    "\<exists>i. if currentPhase (coord S) = mapPhase then j = MapJob i 0 (buckets cf i) \<and> \<not> reported (co_mapTask c) i
      else j = ReduceJob i Reading \<and> \<not> reported (co_reduceTask c) i"
proof -
  have "job_ok cf (S\<lparr>coord := c\<rparr>) j \<and>
    (\<exists>i. if currentPhase (coord S) = mapPhase then j = MapJob i 0 (buckets cf i) \<and> \<not> reported (co_mapTask c) i
      else j = ReduceJob i Reading \<and> \<not> reported (co_reduceTask c) i)"
    using get
  proof (cases rule: GetTask_cases)
    case (map i ts)
    have i: "i < length (cf_names cf)" using handed_simps(1) [OF map(4)] inv by (simp add: coord_inv_def)
    then have "tk_mapFile (co_mapTask (coord S) ! i) = cf_names cf ! i" "nReduce (coord S) = cf_nReduce cf"
      using inv by (simp_all add: coord_inv_def)
    then have "j = MapJob i 0 (buckets cf i)"
      using assms(5) map(5) cf
      by (simp add: take_task_def zero_GetTaskReply_def map_files_eq conf_ok_def buckets_def map_out_def)
    then show ?thesis using i map(1,3) handed_simps(4) [OF map(4)] by (simp add: job_ok_def reported_def)
  next
    case (reduce i ts)
    have "i < nat (cf_nReduce cf)" using handed_simps(1) [OF reduce(4)] inv by (simp add: coord_inv_def)
    moreover have "j = ReduceJob i Reading"
      using assms(5) reduce(5) by (simp add: take_task_def zero_GetTaskReply_def)
    ultimately show ?thesis using reduce(1,3) handed_simps(4) [OF reduce(4)] by (simp add: job_ok_def reported_def)
  qed (use assms(4,5) in \<open>simp_all add: take_task_def\<close>)
  then show "job_ok cf (S\<lparr>coord := c\<rparr>) j"
    "\<exists>i. if currentPhase (coord S) = mapPhase then j = MapJob i 0 (buckets cf i) \<and> \<not> reported (co_mapTask c) i
      else j = ReduceJob i Reading \<and> \<not> reported (co_reduceTask c) i" by blast+
qed

lemma mr_inv_GetTask:
  assumes inv: "mr_inv cf S" and get: "GetTask clk (coord S) = (c, rep)"
  shows "mr_inv cf (S\<lparr>coord := c\<rparr>)"
proof -
  note keeps = GetTask_keeps [OF get]
  have "job_ok cf (S\<lparr>coord := c\<rparr>) k" if "busy S v = Some k" for v k
    by (rule job_ok_mono [OF mr_inv_parts(3) [OF inv that]]) (simp_all add: keeps(3))
  then show ?thesis
    using coord_inv_GetTask [OF mr_inv_parts(1) [OF inv] get] mr_inv_parts(2) [OF inv] keeps(1)
    by (simp add: mr_inv_def files_inv_def)
qed

text \<open>A worker turns to another job, the rest being the same.\<close>

lemma job_ok_set_busy [simp]: "job_ok cf (set_busy w j S) k \<longleftrightarrow> job_ok cf S k"
  by (cases k) (simp_all add: job_ok_def)

lemma mr_inv_set_busy:
  "mr_inv cf S \<Longrightarrow> (\<And>j. jo = Some j \<Longrightarrow> job_ok cf S j) \<Longrightarrow> mr_inv cf (set_busy w jo S)"
  by (auto simp: mr_inv_def files_inv_def)

lemma mr_inv_step:
  assumes step: "mr_step cf S e T" and inv: "mr_inv cf S" and cf: "conf_ok cf"
  shows "mr_inv cf T"
  using step
proof cases
  case (get w clk c rep j)
  show ?thesis
    unfolding get(2) using take_task_ok(1) [OF mr_inv_parts(1) [OF inv] cf get(4-6)]
    by (intro mr_inv_set_busy mr_inv_GetTask [OF inv get(4)]) simp
next
  case (get_lost clk c rep)
  then show ?thesis using mr_inv_GetTask [OF inv] by simp
next
  case (rename w m i tmp)
  let ?S = "rename_bucket m i tmp S"
  have job: "m < length (cf_names cf)" "tmp = buckets cf m" "\<forall>r < i. files S (m, r) = Some (tmp ! r)"
    using mr_inv_parts(3) [OF inv rename(3)] by (simp_all add: job_ok_def)
  have "job_ok cf ?S k" if "busy S v = Some k" for v k
    by (rule job_ok_mono [OF mr_inv_parts(3) [OF inv that]]) (simp_all add: job(2))
  then have "mr_inv cf ?S"
    using mr_inv_parts(1,2) [OF inv] job rename(4) by (auto simp: mr_inv_def files_inv_def)
  moreover have "job_ok cf ?S (MapJob m (Suc i) tmp)"
    using job rename(4) by (simp add: job_ok_def less_Suc_eq)
  ultimately show ?thesis unfolding rename(2) by (intro mr_inv_set_busy) simp_all
next
  case (read w r ms)
  then show ?thesis
    using mr_inv_parts(3) [OF inv read(3)] unfolding read(2) by (intro mr_inv_set_busy inv) (auto simp: job_ok_def)
next
  case (emit w r lines)
  have "job_ok cf (rename_output r lines S) k" if "busy S v = Some k" for v k
    by (rule job_ok_mono [OF mr_inv_parts(3) [OF inv that]]) simp_all
  then have "mr_inv cf (rename_output r lines S)"
    using mr_inv_parts(1,2) [OF inv] by (auto simp: mr_inv_def files_inv_def)
  then show ?thesis
    using mr_inv_parts(3) [OF inv emit(3)] unfolding emit(2) by (intro mr_inv_set_busy) (auto simp: job_ok_def)
next
  case (emit_fails w r lines)
  then show ?thesis
    using mr_inv_parts(3) [OF inv emit_fails(3)] unfolding emit_fails(2)
    by (intro mr_inv_set_busy inv) (auto simp: job_ok_def)
next
  case (finish_map w m i tmp c)
  let ?S = "S\<lparr>coord := c\<rparr>"
  have job: "m < length (cf_names cf)" "tmp = buckets cf m" "\<forall>r < i. files S (m, r) = Some (tmp ! r)"
    using mr_inv_parts(3) [OF inv finish_map(3)] by (simp_all add: job_ok_def)
  note fin = finish_map_coord [OF mr_inv_parts(1) [OF inv] job(1) finish_map(5) cf]
  have len: "m < length (co_mapTask (coord S))"
    using job(1) mr_inv_parts(1) [OF inv] by (simp add: coord_inv_def)
  have "job_ok cf ?S k" if "busy S v = Some k" for v k
    by (rule job_ok_mono [OF mr_inv_parts(3) [OF inv that]]) (simp_all add: fin(2))
  moreover have "files S (m, r) \<noteq> None" if "r < nat (cf_nReduce cf)" for r
    using job(2,3) finish_map(4) that by simp
  then have "files_inv cf ?S"
    using mr_inv_parts(2) [OF inv] completed_finish [OF len]
    by (auto simp: files_inv_def FinishTask_map [OF finish_map(5) len])
  ultimately have "mr_inv cf ?S" using fin(1) by (simp add: mr_inv_def)
  then show ?thesis unfolding finish_map(2) by (rule mr_inv_set_busy) simp
next
  case (finish_reduce w r c)
  let ?S = "S\<lparr>coord := c\<rparr>"
  have job: "r < nat (cf_nReduce cf)" "currentPhase (coord S) \<noteq> mapPhase"
    using mr_inv_parts(3) [OF inv finish_reduce(3)] by (simp_all add: job_ok_def)
  note fin = finish_reduce_coord [OF mr_inv_parts(1) [OF inv] job finish_reduce(4)]
  have len: "r < length (co_reduceTask (coord S))"
    using job(1) mr_inv_parts(1) [OF inv] by (simp add: coord_inv_def)
  have "job_ok cf ?S k" if "busy S v = Some k" for v k
    by (rule job_ok_mono [OF mr_inv_parts(3) [OF inv that]]) (simp_all add: fin(2))
  then have "mr_inv cf ?S"
    using fin(1) mr_inv_parts(2) [OF inv]
    by (simp add: mr_inv_def files_inv_def FinishTask_reduce [OF finish_reduce(4) len])
  then show ?thesis unfolding finish_reduce(2) by (rule mr_inv_set_busy) simp
next
  case (crash w)
  then show ?thesis using mr_inv_set_busy [OF inv, of None w] by simp
qed

lemma mr_inv_run: "mr_run cf d S \<Longrightarrow> conf_ok cf \<Longrightarrow> mr_inv cf S"
  by (induction rule: mr_run.induct) (auto intro: mr_inv_start mr_inv_step)

section \<open>A job can always be finished\<close>

text \<open>The reports still needed.\<close>

definition missing :: "Coordinator \<Rightarrow> nat" where
  "missing c = nat (nMap c - mapFinish c) + nat (nReduce c - reduceFinish c)"

lemma missing_GetTask: "GetTask clk c = (c', rep) \<Longrightarrow> missing c' = missing c"
  using GetTask_keeps [of clk c c' rep] by (simp add: missing_def)

lemma finish_map_job:
  assumes "mr_inv cf S" "conf_ok cf" "busy S w = Some (MapJob m i tmp)" "currentPhase (coord S) = mapPhase"
    and "\<not> reported (co_mapTask (coord S)) m"
  shows "\<exists>T. (mr_next cf)\<^sup>*\<^sup>* S T \<and> missing (coord T) < missing (coord S)"
  using assms(1,3-)
proof (induction "length tmp - i" arbitrary: i S)
  case 0
  have job: "m < length (cf_names cf)" "i \<le> length tmp"
    using mr_inv_parts(3) [OF "0.prems"(1,2)] by (auto simp: job_ok_def)
  have inv: "coord_inv cf (coord S)" by (rule mr_inv_parts(1) [OF "0.prems"(1)])
  then have len: "m < length (co_mapTask (coord S))" using job(1) by (simp add: coord_inv_def)
  then obtain c where c: "FinishTask \<lparr>ft_TaskType = mapTask, ft_Id = int m\<rparr> (coord S) = Some (c, None)"
    by (auto simp: FinishTask_def finish_at_eq Let_def)
  have "mr_next cf S (set_busy w None (S\<lparr>coord := c\<rparr>))"
    by (rule mr_nextI [OF finish_map [OF "0.prems"(2) _ c]]) (use "0.hyps" "0.prems"(4) job(2) in simp_all)
  moreover have "mapFinish (coord S) < nMap (coord S)"
    using inv "0.prems"(3) by (simp add: coord_inv_def phase_of_def split: if_splits)
  then have "missing c < missing (coord S)" by (simp add: FinishTask_map [OF c len] missing_def)
  ultimately show ?case by (intro exI [of _ "set_busy w None (S\<lparr>coord := c\<rparr>)"]) auto
next
  case (Suc k)
  let ?T = "set_busy w (Some (MapJob m (Suc i) tmp)) (rename_bucket m i tmp S)"
  have st: "mr_step cf S False ?T"
    by (rule rename [OF Suc.prems(2)]) (use Suc.hyps(2) in simp)
  have "\<exists>U. (mr_next cf)\<^sup>*\<^sup>* ?T U \<and> missing (coord U) < missing (coord ?T)"
    by (rule Suc.hyps(1)) (use Suc.hyps(2) Suc.prems(3,4) mr_inv_step [OF st Suc.prems(1) assms(2)] in simp_all)
  then show ?case using mr_nextI [OF st] by (auto intro: converse_rtranclp_into_rtranclp)
qed

lemma globs_exist:
  assumes "files_inv cf S"
  obtains ms where "globs (files S) r ms"
proof -
  have "{m. files S (m, r) \<noteq> None} \<subseteq> {..<length (cf_names cf)}"
    using assms by (auto simp: files_inv_def)
  then have "finite {m. files S (m, r) \<noteq> None}" by (rule finite_subset) simp
  then show thesis
    using that finite_distinct_list [of "{m. files S (m, r) \<noteq> None}"] unfolding globs_def by blast
qed

lemma finish_reduce_job:
  assumes "mr_inv cf S" "busy S w = Some (ReduceJob r Reading)" "currentPhase (coord S) = reducePhase"
    and "\<not> reported (co_reduceTask (coord S)) r"
  shows "\<exists>T. (mr_next cf)\<^sup>*\<^sup>* S T \<and> missing (coord T) < missing (coord S)"
proof -
  have inv: "coord_inv cf (coord S)" by (rule mr_inv_parts(1) [OF assms(1)])
  have "r < nat (cf_nReduce cf)" using mr_inv_parts(3) [OF assms(1,2)] by (simp add: job_ok_def)
  then have len: "r < length (co_reduceTask (coord S))" using inv by (simp add: coord_inv_def)
  then obtain c where c: "FinishTask \<lparr>ft_TaskType = reduceTask, ft_Id = int r\<rparr> (coord S) = Some (c, None)"
    by (auto simp: FinishTask_def finish_at_eq Let_def)
  obtain ms where ms: "globs (files S) r ms" using globs_exist mr_inv_parts(2) [OF assms(1)] by blast
  let ?lines = "output_of cf r ms S"
  let ?S1 = "set_busy w (Some (ReduceJob r (Writing ?lines))) S"
  let ?S2 = "set_busy w (Some (ReduceJob r Reporting)) (rename_output r ?lines ?S1)"
  let ?S3 = "set_busy w None (?S2\<lparr>coord := c\<rparr>)"
  have "mr_next cf S ?S1" by (rule mr_nextI [OF read [OF assms(2) ms]]) simp
  moreover have "mr_next cf ?S1 ?S2" by (rule mr_nextI [OF emit]) simp_all
  moreover have "mr_next cf ?S2 ?S3" by (rule mr_nextI [OF finish_reduce [where w = w and r = r]]) (use c assms(4) in auto)
  ultimately have "(mr_next cf)\<^sup>*\<^sup>* S ?S3"
    by (meson converse_rtranclp_into_rtranclp rtranclp.rtrancl_refl)
  moreover have "reduceFinish (coord S) < nReduce (coord S)"
    using inv assms(3) by (simp add: coord_inv_def phase_of_def split: if_splits)
  then have "missing c < missing (coord S)" by (simp add: FinishTask_reduce [OF c len] missing_def)
  ultimately show ?thesis by (intro exI [of _ ?S3]) simp
qed

lemma late_clock: "\<exists>now. \<forall>t \<in> set ts. now - tk_start t > 10"
proof (induction ts)
  case (Cons t ts)
  then obtain now where "\<forall>t \<in> set ts. now - tk_start t > 10" by blast
  then have "\<forall>u \<in> set ts. max now (tk_start t + 11) - tk_start u > 10" by (auto simp: max_def)
  then show ?case by (intro exI [of _ "max now (tk_start t + 11)"]) simp
qed simp

lemma handed_exists:
  assumes "i < length ts" "tk_state (ts ! i) \<noteq> completed"
    "\<And>j. j < i \<Longrightarrow> tk_state (ts ! j) = completed"
  obtains now ts' where "get_loop (\<lambda>_. now) 0 ts = Some (ts', i)"
  using late_clock [of ts] get_loop_first [OF _ assms] by metis

lemma first_uncompleted:
  assumes "card (completed_tasks ts) < length ts"
  obtains i where "i < length ts" "tk_state (ts ! i) \<noteq> completed"
    "\<And>j. j < i \<Longrightarrow> tk_state (ts ! j) = completed"
proof -
  have "\<exists>i. i < length ts \<and> tk_state (ts ! i) \<noteq> completed"
  proof (rule ccontr)
    assume "\<not> ?thesis"
    then have "completed_tasks ts = {..<length ts}" by (auto simp: completed_tasks_def)
    then show False using assms by simp
  qed
  then obtain i where "i < length ts" "tk_state (ts ! i) \<noteq> completed"
    "\<And>j. j < i \<Longrightarrow> \<not> (j < length ts \<and> tk_state (ts ! j) \<noteq> completed)"
    using exists_least_iff [of "\<lambda>i. i < length ts \<and> tk_state (ts ! i) \<noteq> completed"] by blast
  then show thesis using that [of i] by (metis order.strict_trans)
qed

text \<open>
  Before the job is done, a fresh worker that asks long after everything was handed out gets the first
  task of the phase that is not completed, does it and reports it.
\<close>

lemma uncompleted_task:
  assumes "coord_inv cf c" "\<not> Done c"
  shows "\<exists>now c' rep. GetTask (\<lambda>_. now) c = (c', rep) \<and> \<not> gt_Wait rep \<and> gt_TaskType rep \<noteq> doneTask"
proof (cases "currentPhase c")
  case mapPhase
  then have "card (completed_tasks (co_mapTask c)) < length (co_mapTask c)"
    using assms(1) by (simp add: coord_inv_def phase_of_def split: if_splits)
  then obtain now ts i where "get_loop (\<lambda>_. now) 0 (co_mapTask c) = Some (ts, i)"
    by (metis first_uncompleted handed_exists)
  then show ?thesis
    using mapPhase by (intro exI [of _ now]) (simp add: GetTask_def zero_GetTaskReply_def)
next
  case reducePhase
  then have "int (card (completed_tasks (co_reduceTask c))) < cf_nReduce cf" "length (co_reduceTask c) = nat (cf_nReduce cf)"
    using assms(1) by (auto simp: coord_inv_def phase_of_def split: if_splits)
  then have "card (completed_tasks (co_reduceTask c)) < length (co_reduceTask c)" by linarith
  then obtain now ts i where "get_loop (\<lambda>_. now) 0 (co_reduceTask c) = Some (ts, i)"
    by (metis first_uncompleted handed_exists)
  then show ?thesis
    using reducePhase by (intro exI [of _ now]) (simp add: GetTask_def zero_GetTaskReply_def)
qed (use assms(2) in \<open>simp add: Done_def\<close>)

lemma take_task_Some:
  assumes "coord_inv cf c" "conf_ok cf" "GetTask clk c = (c', rep)" "\<not> gt_Wait rep" "gt_TaskType rep \<noteq> doneTask"
  shows "\<exists>j. take_task cf rep = Some j"
  using assms(3)
proof (cases rule: GetTask_cases)
  case (map i ts)
  then show ?thesis
    using coord_invD(2) [OF assms(1)] assms(2)
    by (simp add: take_task_def zero_GetTaskReply_def map_files_eq conf_ok_def)
next
  case (reduce i ts)
  then show ?thesis by (simp add: take_task_def zero_GetTaskReply_def)
qed (use assms(4,5) in simp_all)

lemma progress:
  assumes inv: "mr_inv cf S" and cf: "conf_ok cf" and "\<not> Done (coord S)"
  shows "\<exists>T. (mr_next cf)\<^sup>*\<^sup>* S T \<and> missing (coord T) < missing (coord S)"
proof -
  let ?S = "set_busy 0 None S"
  obtain now c rep where g: "GetTask (\<lambda>_. now) (coord S) = (c, rep)" "\<not> gt_Wait rep" "gt_TaskType rep \<noteq> doneTask"
    using uncompleted_task [OF mr_inv_parts(1) [OF inv] assms(3)] by blast
  obtain j where j: "take_task cf rep = Some j"
    using take_task_Some [OF mr_inv_parts(1) [OF inv] cf g] by blast
  let ?T = "set_busy 0 (Some j) (?S\<lparr>coord := c\<rparr>)"
  have steps: "mr_step cf S False ?S" "mr_step cf ?S False ?T"
    using mr_step.crash mr_step.get [OF _ _ g(2) j, of ?S 0 "\<lambda>_. now" c] g(1) by simp_all
  have invT: "mr_inv cf ?T" by (rule mr_inv_step [OF steps(2) mr_inv_step [OF steps(1) inv cf] cf])
  obtain i where i: "if currentPhase (coord S) = mapPhase then j = MapJob i 0 (buckets cf i) \<and> \<not> reported (co_mapTask c) i
      else j = ReduceJob i Reading \<and> \<not> reported (co_reduceTask c) i"
    using take_task_ok(2) [OF mr_inv_parts(1) [OF inv] cf g(1,2) j] by blast
  have "\<exists>U. (mr_next cf)\<^sup>*\<^sup>* ?T U \<and> missing (coord U) < missing (coord ?T)"
  proof (cases "currentPhase (coord S) = mapPhase")
    case True
    then show ?thesis
      using i GetTask_keeps(3) [OF g(1)] by (intro finish_map_job [OF invT cf, of 0 i 0 "buckets cf i"]) simp_all
  next
    case False
    then have "currentPhase (coord ?T) = reducePhase"
      using assms(3) GetTask_keeps(3) [OF g(1)] by (cases "currentPhase (coord S)") (simp_all add: Done_def)
    then show ?thesis using i False by (intro finish_reduce_job [OF invT, of 0 i]) simp_all
  qed
  then obtain U where "(mr_next cf)\<^sup>*\<^sup>* ?T U" "missing (coord U) < missing (coord S)"
    using missing_GetTask [OF g(1)] by auto
  then show ?thesis using steps [folded mr_next_def] by (meson converse_rtranclp_into_rtranclp)
qed


lemma finishable:
  assumes "conf_ok cf" "mr_run cf d S"
  shows "\<exists>T. (mr_next cf)\<^sup>*\<^sup>* S T \<and> Done (coord T)"
  using mr_inv_run [OF assms(2,1)]
proof (induction "missing (coord S)" arbitrary: S rule: less_induct)
  case less
  show ?case
  proof (cases "Done (coord S)")
    case False
    then obtain T where T: "(mr_next cf)\<^sup>*\<^sup>* S T" "missing (coord T) < missing (coord S)"
      using progress [OF less.prems assms(1)] by blast
    have "mr_inv cf T" using T(1)
      by (induction rule: rtranclp_induct) (auto simp: mr_next_def less.prems intro: mr_inv_step [OF _ _ assms(1)])
    then show ?thesis using less.hyps [OF T(2)] T(1) by (meson rtranclp_trans)
  qed blast
qed

section \<open>Runs without a slip\<close>

definition all_pairs :: "mr_conf \<Rightarrow> KeyValue list" where
  "all_pairs cf = concat (map (map_out cf) [0..<length (cf_names cf)])"

definition final_out :: "mr_conf \<Rightarrow> nat \<Rightarrow> string list" where
  "final_out cf r = reduce_lines (cf_sort cf) (cf_reduce cf) (bucket (cf_nReduce cf) r (all_pairs cf))"

text \<open>The pairs that \<open>Map\<close> emits survive JSON: their strings are UTF-8 (\<open>Utf8.json_string_id_iff\<close>).\<close>

definition json_safe :: "mr_conf \<Rightarrow> bool" where
  "json_safe cf \<longleftrightarrow> (\<forall>f\<in>set (cf_names cf). \<forall>kv\<in>set (cf_map cf f (cf_content cf f)). json_kv kv = kv)"

definition counted :: "mr_conf \<Rightarrow> Coordinator \<Rightarrow> bool" where
  "counted cf c \<longleftrightarrow>
     (case currentPhase c of
        mapPhase \<Rightarrow> mapFinish c = int (card (completed_tasks (co_mapTask c)))
      | reducePhase \<Rightarrow> completed_tasks (co_mapTask c) = {..<length (cf_names cf)} \<and>
          reduceFinish c = int (card (completed_tasks (co_reduceTask c)))
      | donePhase \<Rightarrow> completed_tasks (co_mapTask c) = {..<length (cf_names cf)} \<and>
          completed_tasks (co_reduceTask c) = {..<nat (cf_nReduce cf)})"

definition outs_ok :: "mr_conf \<Rightarrow> mr_sys \<Rightarrow> bool" where
  "outs_ok cf S \<longleftrightarrow>
     (\<forall>w r lines. busy S w = Some (ReduceJob r (Writing lines)) \<longrightarrow> lines = final_out cf r) \<and>
     (\<forall>w r. busy S w = Some (ReduceJob r Reporting) \<longrightarrow> outs S r = Some (final_out cf r)) \<and>
     (\<forall>r\<in>completed_tasks (co_reduceTask (coord S)). outs S r = Some (final_out cf r))"

text \<open>A reduce task that reads all its files computes the final output.\<close>

lemma mset_enumeration: "distinct ms \<Longrightarrow> set ms = {..<n} \<Longrightarrow> mset ms = mset [0..<n]"
  using set_eq_iff_mset_eq_distinct [of ms "[0..<n]"] by (simp add: lessThan_atLeast0)

lemma mset_concat_map_cong:
  "mset ms = mset ns \<Longrightarrow> mset (concat (map f ms)) = mset (concat (map f ns))"
  unfolding mset_concat sum_mset_sum_list [symmetric] by simp

lemma read_all_final:
  assumes cf: "conf_ok cf" "json_safe cf" and "files_inv cf S" "globs (files S) r ms"
    and "completed_tasks (co_mapTask (coord S)) = {..<length (cf_names cf)}" "r < nat (cf_nReduce cf)"
  shows "output_of cf r ms S = final_out cf r"
proof -
  let ?n = "length (cf_names cf)"
  have safe: "map json_kv (bucket k i (map_out cf m)) = bucket k i (map_out cf m)" if "m < ?n" for k i m
    using cf(2) that by (intro map_idI) (auto simp: json_safe_def map_out_def bucket_def)
  have stored: "files S (m, r) = Some (bucket (cf_nReduce cf) r (map_out cf m))" if m: "m < ?n" for m
  proof -
    obtain kvs where kvs: "files S (m, r) = Some kvs" using assms(3,5,6) m unfolding files_inv_def by blast
    then have "kvs = buckets cf m ! r" using assms(3) unfolding files_inv_def by blast
    then show ?thesis using kvs assms(6) safe [OF m] by (simp add: buckets_def)
  qed
  have "m < ?n" if "files S (m, r) = Some kvs" for m kvs
    using assms(3) that by (simp add: files_inv_def)
  then have "set ms = {..<?n}"
    using assms(4) stored by (auto simp: globs_def)
  then have perm: "mset ms = mset [0..<?n]" and "\<And>m. m \<in> set ms \<Longrightarrow> m < ?n"
    using assms(4) mset_enumeration by (auto simp: globs_def)
  then have "reduce_input (files S) ms r = concat (map (\<lambda>m. bucket (cf_nReduce cf) r (map_out cf m)) ms)"
    using stored unfolding reduce_input_def by (intro arg_cong [where f = concat] map_cong) auto
  then have "mset (reduce_input (files S) ms r) = mset (bucket (cf_nReduce cf) r (all_pairs cf))"
    using mset_concat_map_cong [OF perm] by (simp add: all_pairs_def bucket_concat o_def del: mset_concat)
  then show ?thesis
    unfolding final_out_def output_of_def using cf(1) by (intro reduce_lines_mset) (auto simp: conf_ok_def)
qed

lemma completed_all:
  "card (completed_tasks ts) = length ts \<Longrightarrow> completed_tasks ts = {..<length ts}"
  using card_subset_eq [of "{..<length ts}" "completed_tasks ts"] by (auto simp: completed_tasks_def)

lemma counted_maps:
  "counted cf c \<Longrightarrow> currentPhase c \<noteq> mapPhase \<Longrightarrow> completed_tasks (co_mapTask c) = {..<length (cf_names cf)}"
  by (cases "currentPhase c") (simp_all add: counted_def)

lemma counted_finish_map:
  assumes inv: "coord_inv cf c" "counted cf c" and m: "m < length (cf_names cf)"
    and fin: "FinishTask \<lparr>ft_TaskType = mapTask, ft_Id = int m\<rparr> c = Some (c', e)" and cf: "conf_ok cf"
    and slip: "\<not> (currentPhase c = mapPhase \<and> reported (co_mapTask c) m)"
  shows "counted cf c'"
proof -
  let ?ts = "(co_mapTask c)[m := (co_mapTask c ! m)\<lparr>tk_state := completed\<rparr>]"
  have len: "m < length (co_mapTask c)" "length (co_mapTask c) = length (cf_names cf)"
    using inv(1) m by (simp_all add: coord_inv_def)
  note c' = FinishTask_map [OF fin len(1)]
  show ?thesis
  proof (cases "currentPhase c = mapPhase")
    case True
    then have n: "mapFinish c = int (card (completed_tasks (co_mapTask c)))" using inv(2) by (simp add: counted_def)
    then have card: "mapFinish c + 1 = int (card (completed_tasks ?ts))"
      using slip True card_completed_finish [OF len(1)] by simp
    show ?thesis
    proof (cases "mapFinish c + 1 = nMap c")
      case all: True
      have "completed_tasks ?ts = {..<length (cf_names cf)}"
        using completed_all [of ?ts] card all coord_invD(1) [OF inv(1)] len(2) by simp
      moreover have "completed_tasks (co_reduceTask c) = {}" "reduceFinish c = 0"
        using inv(1) True by (auto simp: coord_inv_def completed_tasks_def)
      ultimately show ?thesis using all by (simp add: c' counted_def)
    qed (use card True in \<open>simp add: c' counted_def\<close>)
  next
    case False
    then have "completed_tasks ?ts = {..<length (cf_names cf)}"
      using counted_maps [OF inv(2)] completed_finish [OF len(1)] m by auto
    moreover have "currentPhase c' = currentPhase c" using finish_map_coord(2) [OF inv(1) m fin cf] False by simp
    ultimately show ?thesis
      using inv(2) False by (cases "currentPhase c") (simp_all add: c' counted_def split: if_splits)
  qed
qed

lemma counted_finish_reduce:
  assumes inv: "coord_inv cf c" "counted cf c" and r: "r < nat (cf_nReduce cf)" "currentPhase c \<noteq> mapPhase"
    and fin: "FinishTask \<lparr>ft_TaskType = reduceTask, ft_Id = int r\<rparr> c = Some (c', e)"
    and slip: "\<not> (currentPhase c = reducePhase \<and> reported (co_reduceTask c) r)"
  shows "counted cf c'"
proof -
  let ?ts = "(co_reduceTask c)[r := (co_reduceTask c ! r)\<lparr>tk_state := completed\<rparr>]"
  have len: "r < length (co_reduceTask c)" "length (co_reduceTask c) = nat (cf_nReduce cf)"
    using inv(1) r by (simp_all add: coord_inv_def)
  note c' = FinishTask_reduce [OF fin len(1)] and maps = counted_maps [OF inv(2) r(2)]
  show ?thesis
  proof (cases "currentPhase c")
    case reducePhase
    then have n: "reduceFinish c = int (card (completed_tasks (co_reduceTask c)))" using inv(2) by (simp add: counted_def)
    then have card: "reduceFinish c + 1 = int (card (completed_tasks ?ts))"
      using slip reducePhase card_completed_finish [OF len(1)] by simp
    show ?thesis
    proof (cases "reduceFinish c + 1 = nReduce c")
      case True
      have "completed_tasks ?ts = {..<nat (cf_nReduce cf)}"
        using completed_all [of ?ts] card True coord_invD(2) [OF inv(1)] len(2) by simp
      then show ?thesis using True maps by (simp add: c' counted_def)
    qed (use card maps reducePhase in \<open>simp add: c' counted_def\<close>)
  next
    case donePhase
    then have "completed_tasks ?ts = {..<nat (cf_nReduce cf)}"
      using inv(2) completed_finish [OF len(1)] r(1) by (auto simp: counted_def)
    then show ?thesis using maps donePhase by (simp add: c' counted_def)
  qed (use r(2) in simp)
qed

lemma counted_GetTask: "GetTask clk c = (c', rep) \<Longrightarrow> counted cf c' \<longleftrightarrow> counted cf c"
  using GetTask_keeps [of clk c c' rep] by (cases "currentPhase c") (simp_all add: counted_def)

lemma clean_step:
  assumes step: "mr_step cf S False T" and inv: "mr_inv cf S" and cf: "conf_ok cf" "json_safe cf"
    and clean: "counted cf (coord S)" "outs_ok cf S"
  shows "counted cf (coord T) \<and> outs_ok cf T"
  using step
proof cases
  case (get w clk c rep j)
  note keeps = GetTask_keeps [OF get(3)]
  have "counted cf c" using clean(1) by (simp add: counted_GetTask [OF get(3)])
  moreover obtain i where "j = MapJob i 0 (buckets cf i) \<or> j = ReduceJob i Reading"
    using take_task_ok(2) [OF mr_inv_parts(1) [OF inv] cf(1) get(3-5)] by (metis (full_types))
  then have "outs_ok cf (set_busy w (Some j) (S\<lparr>coord := c\<rparr>))"
    using clean(2) by (auto simp: outs_ok_def keeps)
  ultimately show ?thesis by (simp add: get(1))
next
  case (get_lost clk c rep)
  note keeps = GetTask_keeps [OF get_lost(2)]
  show ?thesis using clean by (simp add: get_lost(1) counted_GetTask [OF get_lost(2)] outs_ok_def keeps)
next
  case (rename w m i tmp)
  show ?thesis using clean by (simp add: rename(1) outs_ok_def)
next
  case (read w r ms)
  have r: "r < nat (cf_nReduce cf)" "currentPhase (coord S) \<noteq> mapPhase"
    using mr_inv_parts(3) [OF inv read(2)] by (simp_all add: job_ok_def)
  have "output_of cf r ms S = final_out cf r"
    by (rule read_all_final [OF cf mr_inv_parts(2) [OF inv] read(3) counted_maps [OF clean(1) r(2)] r(1)])
  then show ?thesis using clean by (simp add: read(1) outs_ok_def)
next
  case (emit w r lines)
  have "lines = final_out cf r" using clean(2) emit(2) by (auto simp: outs_ok_def)
  then show ?thesis using clean by (auto simp: emit(1) outs_ok_def)
next
  case (finish_map w m i tmp c)
  have m: "m < length (cf_names cf)" using mr_inv_parts(3) [OF inv finish_map(3)] by (simp add: job_ok_def)
  then have len: "m < length (co_mapTask (coord S))" using mr_inv_parts(1) [OF inv] by (simp add: coord_inv_def)
  have "counted cf c"
    by (rule counted_finish_map [OF mr_inv_parts(1) [OF inv] clean(1) m finish_map(5) cf(1)]) (use finish_map(1) in simp)
  moreover have "outs_ok cf (set_busy w None (S\<lparr>coord := c\<rparr>))"
    using clean(2) by (simp add: outs_ok_def FinishTask_map [OF finish_map(5) len])
  ultimately show ?thesis by (simp add: finish_map(2))
next
  case (finish_reduce w r c)
  have r: "r < nat (cf_nReduce cf)" "currentPhase (coord S) \<noteq> mapPhase"
    using mr_inv_parts(3) [OF inv finish_reduce(3)] by (simp_all add: job_ok_def)
  then have len: "r < length (co_reduceTask (coord S))" using mr_inv_parts(1) [OF inv] by (simp add: coord_inv_def)
  have "counted cf c"
    by (rule counted_finish_reduce [OF mr_inv_parts(1) [OF inv] clean(1) r finish_reduce(4)]) (use finish_reduce(1) in simp)
  moreover have "outs S r = Some (final_out cf r)" using clean(2) finish_reduce(3) by (auto simp: outs_ok_def)
  then have "outs_ok cf (set_busy w None (S\<lparr>coord := c\<rparr>))"
    using clean(2) by (simp add: outs_ok_def FinishTask_reduce [OF finish_reduce(4) len] completed_finish [OF len])
  ultimately show ?thesis by (simp add: finish_reduce(2))
next
  case (crash w)
  show ?thesis using clean by (simp add: crash(1) outs_ok_def)
qed simp

lemma clean_run:
  assumes "mr_run cf d S" "\<not> d" "conf_ok cf" "json_safe cf"
  shows "counted cf (coord S) \<and> outs_ok cf S"
  using assms(1,2)
proof induction
  case (start S)
  then show ?case
    using assms(3)
    by (cases "cf_nReduce cf < 0") (auto simp: mr_start_def MakeCoordinator_def counted_def outs_ok_def completed_tasks_def)
next
  case (step d S e T)
  then show ?case using clean_step [OF _ mr_inv_run [OF step.hyps(1) assms(3)] assms(3,4)] by simp
qed

section \<open>The output of a finished job\<close>

lemma done_outs:
  assumes "conf_ok cf" "json_safe cf" "mr_run cf False S" "Done (coord S)" "r < nat (cf_nReduce cf)"
  shows "outs S r = Some (final_out cf r)"
  using clean_run [OF assms(3) _ assms(1,2)] assms(4,5) by (simp add: Done_def counted_def outs_ok_def)

lemma all_pairs_eq:
  "all_pairs cf = concat (map (\<lambda>f. cf_map cf f (cf_content cf f)) (cf_names cf))"
proof -
  have "map (\<lambda>m. cf_map cf (cf_names cf ! m) (cf_content cf (cf_names cf ! m))) [0..<length (cf_names cf)]
      = map (\<lambda>f. cf_map cf f (cf_content cf f)) (cf_names cf)"
    by (rule nth_equalityI) simp_all
  then show ?thesis by (simp add: all_pairs_def map_out_def [abs_def])
qed

lemma done_lines:
  assumes "conf_ok cf" "json_safe cf" "mr_run cf False S" "Done (coord S)" "sorts_by_key sortf"
  shows "mset (concat (map (\<lambda>r. the (outs S r)) [0..<nat (cf_nReduce cf)])) =
    mset (reduce_lines sortf (cf_reduce cf) (all_pairs cf))"
proof -
  have "map (\<lambda>r. the (outs S r)) [0..<nat (cf_nReduce cf)] = map (final_out cf) [0..<nat (cf_nReduce cf)]"
    using done_outs [OF assms(1-4)] by (intro map_cong) auto
  moreover have "reduce_lines sortf (cf_reduce cf) kva = reduce_lines (cf_sort cf) (cf_reduce cf) kva" for kva
    using assms(1,5) by (simp add: reduce_lines_eq conf_ok_def)
  ultimately show ?thesis
    using reduce_buckets [of "cf_sort cf" "cf_reduce cf" "cf_nReduce cf" "all_pairs cf"] assms(1)
    unfolding final_out_def [abs_def] conf_ok_def by metis
qed

section \<open>Examples\<close>

definition demo_conf :: mr_conf where
  "demo_conf = \<lparr>cf_names = [''f''], cf_content = (\<lambda>_. ''x''),
     cf_map = (\<lambda>_ content. [\<lparr>kv_Key = content, kv_Value = content\<rparr>]), cf_reduce = (\<lambda>_ values. concat (sort values)),
     cf_sort = sort_key kv_Key, cf_nReduce = 2\<rparr>"

lemma sort_mset: "mset xs = mset ys \<Longrightarrow> sort xs = sort (ys :: 'a :: linorder list)"
  by (metis mset_sort properties_for_sort sorted_sort)

lemma order_blind_sort: "order_blind (\<lambda>_ values. concat (sort values))"
  unfolding order_blind_def by (intro allI impI arg_cong [where f = concat] sort_mset)

lemma demo_conf_ok: "conf_ok demo_conf" "json_safe demo_conf"
  by (simp_all add: conf_ok_def demo_conf_def order_blind_sort sorts_by_key_sort_key json_safe_def json_kv_def json_ascii)

lemma run_exists: "conf_ok cf \<Longrightarrow> \<exists>S. mr_run cf False S"
  by (auto simp: mr_start_def MakeCoordinator_def conf_ok_def intro!: exI mr_run.start)

lemma done_exists: "conf_ok cf \<Longrightarrow> \<exists>S. mr_run cf False S \<and> Done (coord S)"
  using run_exists finishable mr_run_next by blast

text \<open>One reduce task and two input files, each of which gives one pair.\<close>

definition two_files :: mr_conf where
  "two_files = \<lparr>cf_names = [''f'', ''g''], cf_content = (\<lambda>_. ''''),
     cf_map = (\<lambda>name _. [\<lparr>kv_Key = name, kv_Value = ''1''\<rparr>]), cf_reduce = (\<lambda>_ values. concat (sort values)),
     cf_sort = sort_key kv_Key, cf_nReduce = 1\<rparr>"

lemma two_files_ok: "conf_ok two_files"
  by (simp add: conf_ok_def two_files_def order_blind_sort sorts_by_key_sort_key)

lemma two_files_task: "take_task two_files (zero_GetTaskReply\<lparr>gt_File := ''f'', gt_NReduce := 1\<rparr>) =
    Some (MapJob 0 0 [[\<lparr>kv_Key = ''f'', kv_Value = ''1''\<rparr>]])"
  by (simp add: take_task_def two_files_def zero_GetTaskReply_def map_files_eq bucket_def json_kv_def json_ascii)

lemma run_clean: "mr_run cf d S \<Longrightarrow> mr_step cf S False T \<Longrightarrow> mr_run cf d T"
  using mr_run.step [of cf d S False T] by simp

lemma run_slip: "mr_run cf d S \<Longrightarrow> mr_step cf S True T \<Longrightarrow> mr_run cf True T"
  using mr_run.step [of cf d S True T] by simp

lemma finish_mapI:
  "busy S w = Some (MapJob m (length tmp) tmp) \<Longrightarrow> FinishTask \<lparr>ft_TaskType = mapTask, ft_Id = int m\<rparr> (coord S) = Some (c, None) \<Longrightarrow>
     e = (currentPhase (coord S) = mapPhase \<and> reported (co_mapTask (coord S)) m) \<Longrightarrow>
     mr_step cf S e (set_busy w None (S\<lparr>coord := c\<rparr>))"
  using finish_map [of S w m "length tmp" tmp] by simp

lemma finish_reduceI:
  "busy S w = Some (ReduceJob r Reporting) \<Longrightarrow> FinishTask \<lparr>ft_TaskType = reduceTask, ft_Id = int r\<rparr> (coord S) = Some (c, None) \<Longrightarrow>
     e = (currentPhase (coord S) = reducePhase \<and> reported (co_reduceTask (coord S)) r) \<Longrightarrow>
     mr_step cf S e (set_busy w None (S\<lparr>coord := c\<rparr>))"
  using finish_reduce [of S w r] by simp

section \<open>Properties\<close>

text \<open>
  C28 (MapReduce computes what the sequential program computes).  Take a job with at least one input
  file and one reduce task, a reduce function that ignores the order of its values, keys and values that
  are UTF-8, and any two sorting functions.  However many workers run, crash, lose replies, are slow and
  have their task given to another one as well, the output of a run without a slip is right: in every
  state in which the coordinator says \<open>Done\<close> every output file is there, and together they hold exactly
  the lines of \<open>mrsequential\<close>.  A slip is a second report of a task while the phase of the task lasts,
  or an output file that cannot be renamed; \<open>second_report_loses_words\<close> shows that the condition is needed.
\<close>

theorem mapreduce_matches_sequential:
  assumes "conf_ok cf" "json_safe cf" "mr_run cf False S" "Done (coord S)" "sorts_by_key sortf"
  shows "None \<notin> outs S ` {..<nat (cf_nReduce cf)} \<and>
    mset (concat (map (\<lambda>r. the (outs S r)) [0..<nat (cf_nReduce cf)])) =
    mset (mrsequential sortf (cf_map cf) (cf_reduce cf) (map (\<lambda>f. (f, cf_content cf f)) (cf_names cf)))"
proof -
  have "None \<notin> outs S ` {..<nat (cf_nReduce cf)}"
    using done_outs [OF assms(1-4)] by force
  then show ?thesis
    using done_lines [OF assms] by (simp add: mrsequential_def all_pairs_eq o_def)
qed

theorem mapreduce_matches_sequential_witness:
  "\<exists>S. mr_run demo_conf False S \<and> Done (coord S) \<and> None \<notin> outs S ` {..<2} \<and>
    mset (concat (map (\<lambda>r. the (outs S r)) [0..<2])) = {#''x x\<newline>''#}"
proof -
  obtain S where S: "mr_run demo_conf False S" "Done (coord S)" using done_exists [OF demo_conf_ok(1)] by blast
  have seq: "mrsequential (sort_key kv_Key) (cf_map demo_conf) (cf_reduce demo_conf)
      (map (\<lambda>f. (f, cf_content demo_conf f)) (cf_names demo_conf)) = [''x x\<newline>'']"
    and n: "nat (cf_nReduce demo_conf) = 2"
    by (simp_all add: demo_conf_def mrsequential_def reduce_lines_def out_line_def)
  show ?thesis
    by (rule exI [of _ S])
      (use mapreduce_matches_sequential [OF demo_conf_ok S sorts_by_key_sort_key, unfolded seq n] S in simp)
qed

text \<open>
  C29 (a job can always be finished).  From every state of every run, whatever has crashed, whichever
  tasks have been handed out twice, reported twice or reported after their phase, and whichever output
  files could not be renamed, some continuation by workers that do their work brings the coordinator to
  \<open>Done\<close>, without a further slip: no handler panics on the way, and the coordinator is never stuck in a
  phase.
\<close>

theorem mapreduce_can_finish:
  assumes "conf_ok cf" "mr_run cf slipped S"
  shows "\<exists>T. (mr_next cf)\<^sup>*\<^sup>* S T \<and> Done (coord T)"
  using assms by (rule finishable)

theorem mapreduce_can_finish_witness:
  "\<exists>S T. mr_run demo_conf False S \<and> (mr_next demo_conf)\<^sup>*\<^sup>* S T \<and> Done (coord T)"
proof -
  obtain S where S: "mr_run demo_conf False S" using run_exists [OF demo_conf_ok(1)] by blast
  show ?thesis using mapreduce_can_finish [OF demo_conf_ok(1) S] S by blast
qed

text \<open>
  A slow worker can lose the words of a whole file.  Of a job with two input files and one reduce task,
  worker 0 takes the first file; eleven seconds later the coordinator gives it to worker 1 as well, and
  both report it.  The coordinator counts two reports, so the map phase is over although nobody has read
  the second file.  The job ends, with an output that misses its words.
\<close>

theorem second_report_loses_words:
  "\<exists>S. mr_run two_files True S \<and> Done (coord S) \<and> outs S 0 = Some [''f 1\<newline>''] \<and>
    mrsequential (cf_sort two_files) (cf_map two_files) (cf_reduce two_files)
      (map (\<lambda>f. (f, cf_content two_files f)) (cf_names two_files)) = [''f 1\<newline>'', ''g 1\<newline>'']"
proof -
  let ?t = "\<lambda>s n. \<lparr>tk_state = s, tk_start = n, tk_mapFile = ''f''\<rparr>"
  let ?g = "\<lparr>tk_state = idle, tk_start = 0, tk_mapFile = ''g''\<rparr>"
  let ?r = "\<lambda>s. \<lparr>tk_state = s, tk_start = 0, tk_mapFile = ''''\<rparr>"
  let ?c = "\<lambda>ph mf rf ts rs. \<lparr>currentPhase = ph, nMap = 2, nReduce = 1, mapFinish = mf, reduceFinish = rf,
    co_mapTask = ts, co_reduceTask = rs\<rparr>"
  let ?kv = "[\<lparr>kv_Key = ''f'', kv_Value = ''1''\<rparr>]"
  let ?j = "\<lambda>i. Some (MapJob 0 i [?kv])"
  let ?S0 = "\<lparr>coord = ?c mapPhase 0 0 [?t idle 0, ?g] [?r idle], busy = (\<lambda>_. None), files = (\<lambda>_. None), outs = (\<lambda>_. None)\<rparr>"
  let ?S1 = "set_busy 0 (?j 0) (?S0\<lparr>coord := ?c mapPhase 0 0 [?t inProgress 0, ?g] [?r idle]\<rparr>)"
  let ?S2 = "set_busy 1 (?j 0) (?S1\<lparr>coord := ?c mapPhase 0 0 [?t inProgress 11, ?g] [?r idle]\<rparr>)"
  let ?S3 = "set_busy 0 (?j 1) (rename_bucket 0 0 [?kv] ?S2)"
  let ?S4 = "set_busy 0 None (?S3\<lparr>coord := ?c mapPhase 1 0 [?t completed 11, ?g] [?r idle]\<rparr>)"
  let ?S5 = "set_busy 1 (?j 1) (rename_bucket 0 0 [?kv] ?S4)"
  let ?S6 = "set_busy 1 None (?S5\<lparr>coord := ?c reducePhase 2 0 [?t completed 11, ?g] [?r idle]\<rparr>)"
  let ?S7 = "set_busy 0 (Some (ReduceJob 0 Reading)) (?S6\<lparr>coord := ?c reducePhase 2 0 [?t completed 11, ?g] [?r inProgress]\<rparr>)"
  let ?S8 = "set_busy 0 (Some (ReduceJob 0 (Writing [''f 1\<newline>'']))) ?S7"
  let ?S9 = "set_busy 0 (Some (ReduceJob 0 Reporting)) (rename_output 0 [''f 1\<newline>''] ?S8)"
  let ?S10 = "set_busy 0 None (?S9\<lparr>coord := ?c donePhase 2 1 [?t completed 11, ?g] [?r completed]\<rparr>)"
  note eval = GetTask_def FinishTask_def finish_at_def go_get_def go_set_def
  have 0: "mr_run two_files False ?S0"
    by (rule mr_run.start) (simp add: mr_start_def MakeCoordinator_def two_files_def)
  have 1: "mr_run two_files False ?S1"
    by (rule run_clean [OF 0 get [where w = 0 and clk = "\<lambda>_. 0" and rep = "zero_GetTaskReply\<lparr>gt_File := ''f'', gt_NReduce := 1\<rparr>"]])
      (simp_all add: eval two_files_task, simp_all add: zero_GetTaskReply_def)
  have 2: "mr_run two_files False ?S2"
    by (rule run_clean [OF 1 get [where w = 1 and clk = "\<lambda>_. 11" and rep = "zero_GetTaskReply\<lparr>gt_File := ''f'', gt_NReduce := 1\<rparr>"]])
      (simp_all add: eval two_files_task, simp_all add: zero_GetTaskReply_def)
  have 3: "mr_run two_files False ?S3"
    by (rule run_clean [OF 2]) (use rename [of ?S2 0 0 0 "[?kv]" two_files] in simp)
  have "mr_step two_files ?S3 False ?S4"
    by (rule finish_mapI [where m = 0 and tmp = "[?kv]"]) (simp_all add: eval reported_def)
  note 4 = run_clean [OF 3 this]
  have 5: "mr_run two_files False ?S5"
    by (rule run_clean [OF 4]) (use rename [of ?S4 1 0 0 "[?kv]" two_files] in simp)
  have "mr_step two_files ?S5 True ?S6"
    by (rule finish_mapI [where m = 0 and tmp = "[?kv]"]) (simp_all add: eval reported_def)
  note 6 = run_slip [OF 5 this]
  have 7: "mr_run two_files True ?S7"
    by (rule run_clean [OF 6 get [where w = 0 and clk = "\<lambda>_. 0" and rep = "zero_GetTaskReply\<lparr>gt_TaskType := reduceTask\<rparr>"]])
      (simp_all add: eval take_task_def zero_GetTaskReply_def)
  have "globs (files ?S7) 0 [0]" by (auto simp: globs_def)
  moreover have "output_of two_files 0 [0] ?S7 = [''f 1\<newline>'']"
    by (simp add: output_of_def reduce_input_def two_files_def reduce_lines_def out_line_def)
  ultimately have 8: "mr_run two_files True ?S8"
    using run_clean [OF 7 read [of ?S7 0 0 "[0]" two_files]] by simp
  have 9: "mr_run two_files True ?S9"
    by (rule run_clean [OF 8]) (use emit [of ?S8 0 0 "[''f 1\<newline>'']" two_files] in simp)
  have "mr_step two_files ?S9 False ?S10"
    by (rule finish_reduceI [where r = 0]) (simp_all add: eval reported_def)
  note 10 = run_clean [OF 9 this]
  have "mrsequential (cf_sort two_files) (cf_map two_files) (cf_reduce two_files)
      (map (\<lambda>f. (f, cf_content two_files f)) (cf_names two_files)) = [''f 1\<newline>'', ''g 1\<newline>'']"
    by (simp add: two_files_def mrsequential_def reduce_lines_def out_line_def)
  then show ?thesis using 10 by (intro exI [of _ ?S10]) (simp add: Done_def)
qed

text \<open>
  An empty job never ends.  Without input files the phase change, which only happens when a
  map task is reported, never comes: every \<open>GetTask\<close> answers \<open>Wait\<close> and no reachable state is
  \<open>Done\<close>.
\<close>

theorem empty_job_waits_for_ever:
  assumes "cf_names cf = []" "mr_run cf slipped S"
  shows "\<not> Done (coord S) \<and> GetTask clk (coord S) = (coord S, zero_GetTaskReply\<lparr>gt_Wait := True\<rparr>)"
proof -
  have wait: "GetTask clk c = (c, zero_GetTaskReply\<lparr>gt_Wait := True\<rparr>)"
    if "currentPhase c = mapPhase" "co_mapTask c = []" for clk c
    using that by (simp add: GetTask_def)
  have "currentPhase (coord S) = mapPhase \<and> co_mapTask (coord S) = [] \<and> (\<forall>w. busy S w = None)"
    using assms(2)
  proof induction
    case (start S)
    then show ?case
      using assms(1) by (auto simp: mr_start_def MakeCoordinator_def split: if_splits)
  next
    case (step d S e T)
    from step.hyps(2) show ?case
      by cases (use step.IH wait in auto)
  qed
  then show ?thesis using wait by (simp add: Done_def)
qed

theorem empty_job_waits_for_ever_witness:
  "\<exists>S. mr_run (demo_conf\<lparr>cf_names := []\<rparr>) False S \<and> \<not> Done (coord S)"
proof -
  obtain S where "mr_start (demo_conf\<lparr>cf_names := []\<rparr>) = Some S"
    by (simp add: mr_start_def MakeCoordinator_def demo_conf_def)
  then have "mr_run (demo_conf\<lparr>cf_names := []\<rparr>) False S" by (rule mr_run.start)
  then show ?thesis using empty_job_waits_for_ever [of "demo_conf\<lparr>cf_names := []\<rparr>" False S] by auto
qed

end
