(* ===== verification/MrApps.thy ===== *)
theory MrApps
  imports MrSystem
begin

text \<open>
  The MapReduce applications of \<open>src/mrapps/\<close> that compute something: word count (\<open>wc.go\<close>),
  the inverted index (\<open>indexer.go\<close>), the crash-test application (\<open>nocrash.go\<close>, \<open>crash.go\<close>, whose
  random exits are the crashes of the job model) and \<open>early_exit.go\<close>.  What they promise a job is
  the locale \<open>mr_app\<close>: a reduce function that ignores the order of its values.  \<open>unicode.IsLetter\<close>
  is the parameter \<open>letter\<close>, on runes; the rune U+FFFD, which stands for bytes that are no UTF-8, is no
  letter.
\<close>

section \<open>Library functions\<close>

text \<open>\<open>strings.FieldsFunc\<close>, which cuts a string at runes, and \<open>strings.Join\<close>.\<close>

fun fields :: "('a \<Rightarrow> bool) \<Rightarrow> 'a list \<Rightarrow> 'a list list" where
  "fields sep [] = []"
| "fields sep (c # cs) =
     (if sep c then fields sep cs
      else (c # takeWhile (\<lambda>c. \<not> sep c) cs) # fields sep (dropWhile (\<lambda>c. \<not> sep c) cs))"

abbreviation text_of :: "(nat \<times> string) list \<Rightarrow> string" where
  "text_of rs \<equiv> concat (map snd rs)"

definition fields_func :: "(nat \<Rightarrow> bool) \<Rightarrow> string \<Rightarrow> string list" where
  "fields_func sep s = map text_of (fields (\<lambda>(r, _). sep r) (runes s))"

fun join :: "string \<Rightarrow> string list \<Rightarrow> string" where
  "join sep [] = ''''"
| "join sep [s] = s"
| "join sep (s # t # ss) = s @ sep @ join sep (t # ss)"

section \<open>The applications\<close>

definition wc_Map :: "(nat \<Rightarrow> bool) \<Rightarrow> string \<Rightarrow> string \<Rightarrow> KeyValue list" where
  "wc_Map letter filename contents =
     map (\<lambda>w. \<lparr>kv_Key = w, kv_Value = ''1''\<rparr>) (fields_func (\<lambda>r. \<not> letter r) contents)"

definition wc_Reduce :: "string \<Rightarrow> string list \<Rightarrow> string" where
  "wc_Reduce key values = itoa (length values)"

text \<open>\<open>order\<close> is the iteration order of the map of words.\<close>

definition indexer_Map :: "(string set \<Rightarrow> string list) \<Rightarrow> (nat \<Rightarrow> bool) \<Rightarrow> string \<Rightarrow> string \<Rightarrow> KeyValue list" where
  "indexer_Map order letter document value =
     map (\<lambda>w. \<lparr>kv_Key = w, kv_Value = document\<rparr>)
       (order (set (fields_func (\<lambda>x. \<not> letter x) value)))"

definition indexer_Reduce :: "string \<Rightarrow> string list \<Rightarrow> string" where
  "indexer_Reduce key values = itoa (length values) @ '' '' @ join '','' (sort values)"

definition nocrash_Map :: "string \<Rightarrow> string \<Rightarrow> KeyValue list" where
  "nocrash_Map filename contents =
     [\<lparr>kv_Key = ''a'', kv_Value = filename\<rparr>,
      \<lparr>kv_Key = ''b'', kv_Value = itoa (length filename)\<rparr>,
      \<lparr>kv_Key = ''c'', kv_Value = itoa (length contents)\<rparr>,
      \<lparr>kv_Key = ''d'', kv_Value = ''xyzzy''\<rparr>]"

definition nocrash_Reduce :: "string \<Rightarrow> string list \<Rightarrow> string" where
  "nocrash_Reduce key values = join '' '' (sort values)"

definition early_exit_Map :: "string \<Rightarrow> string \<Rightarrow> KeyValue list" where
  "early_exit_Map filename contents = [\<lparr>kv_Key = filename, kv_Value = ''1''\<rparr>]"

definition early_exit_Reduce :: "string \<Rightarrow> string list \<Rightarrow> string" where
  "early_exit_Reduce key values = itoa (length values)"

section \<open>What an application promises, and what a job makes of it\<close>

locale mr_app =
  fixes mapf :: "string \<Rightarrow> string \<Rightarrow> KeyValue list"
    and reducef :: "string \<Rightarrow> string list \<Rightarrow> string"
  assumes order_irrelevant: "mset xs = mset ys \<Longrightarrow> reducef key xs = reducef key ys"
begin

definition job :: "mr_conf \<Rightarrow> bool" where
  "job cf \<longleftrightarrow> cf_map cf = mapf \<and> cf_reduce cf = reducef \<and> cf_names cf \<noteq> [] \<and> 0 < cf_nReduce cf \<and>
     sorts_by_key (cf_sort cf)"

lemma conf_ok_job: "job cf \<Longrightarrow> conf_ok cf"
  unfolding job_def conf_ok_def order_blind_def using order_irrelevant by metis

definition pairs :: "mr_conf \<Rightarrow> KeyValue list" where
  "pairs cf = concat (map (\<lambda>f. mapf f (cf_content cf f)) (cf_names cf))"

lemma job_output:
  assumes "job cf" "json_safe cf" "mr_run cf False S" "Done (coord S)"
  shows "mset (concat (map (\<lambda>r. the (outs S r)) [0..<nat (cf_nReduce cf)])) =
    mset (map (\<lambda>k. out_line k (reducef k (values_of (pairs cf) k)))
      (sorted_list_of_set (kv_Key ` set (pairs cf))))"
proof -
  have "sorts_by_key (cf_sort cf)" using assms(1) by (simp add: job_def)
  then show ?thesis
    using done_lines [OF conf_ok_job [OF assms(1)] assms(2-4), of "cf_sort cf"] assms(1)
      conf_ok_job [OF assms(1)]
    by (simp add: reduce_lines_eq conf_ok_def all_pairs_eq job_def pairs_def)
qed

end

interpretation wc: mr_app "wc_Map letter" wc_Reduce for letter
  by unfold_locales (metis wc_Reduce_def size_mset)

interpretation indexer: mr_app "indexer_Map order letter" indexer_Reduce for order letter
  by unfold_locales (metis indexer_Reduce_def size_mset sort_mset)

interpretation nocrash: mr_app nocrash_Map nocrash_Reduce
  by unfold_locales (metis nocrash_Reduce_def sort_mset)

interpretation early_exit: mr_app early_exit_Map early_exit_Reduce
  by unfold_locales (metis early_exit_Reduce_def size_mset)

section \<open>Properties\<close>

abbreviation letters :: "(nat \<Rightarrow> bool) \<Rightarrow> string \<Rightarrow> (nat \<times> string) list" where
  "letters letter s \<equiv> filter (\<lambda>(r, _). letter r) (runes s)"

definition words :: "(nat \<Rightarrow> bool) \<Rightarrow> string \<Rightarrow> string list" where
  "words letter s = fields_func (\<lambda>r. \<not> letter r) s"

definition all_words :: "(nat \<Rightarrow> bool) \<Rightarrow> mr_conf \<Rightarrow> string list" where
  "all_words letter cf = concat (map (\<lambda>f. words letter (cf_content cf f)) (cf_names cf))"

lemma fields_elements: "ws \<in> set (fields sep xs) \<Longrightarrow> ws \<noteq> [] \<and> (\<forall>x\<in>set ws. x \<in> set xs \<and> \<not> sep x)"
proof (induction sep xs rule: fields.induct)
  case (2 sep c cs)
  show ?case
  proof (cases "\<not> sep c \<and> ws = c # takeWhile (\<lambda>c. \<not> sep c) cs")
    case False
    then have "ws \<in> set (fields sep cs) \<and> sep c \<or> ws \<in> set (fields sep (dropWhile (\<lambda>c. \<not> sep c) cs)) \<and> \<not> sep c"
      using "2.prems" by (simp split: if_splits)
    then show ?thesis using "2.IH" set_dropWhileD [of _ "\<lambda>c. \<not> sep c" cs] by fastforce
  qed (auto dest: set_takeWhileD)
qed simp

lemma fields_concat: "concat (fields sep xs) = filter (\<lambda>x. \<not> sep x) xs"
proof (induction sep xs rule: fields.induct)
  case (2 sep c cs)
  have "filter (\<lambda>x. \<not> sep x) cs = takeWhile (\<lambda>x. \<not> sep x) cs @ filter (\<lambda>x. \<not> sep x) (dropWhile (\<lambda>x. \<not> sep x) cs)"
    by (induction cs) auto
  then show ?case using 2 by simp
qed simp

text \<open>A word consists of whole runes, so that it is UTF-8 whatever the text is.\<close>

lemma words_runes:
  assumes "\<not> letter rune_error" "w \<in> set (words letter s)"
  shows "w \<noteq> [] \<and> json_string w = w \<and> (\<forall>rb\<in>set (runes w). letter (fst rb))"
proof -
  obtain ws where ws: "ws \<in> set (fields (\<lambda>(r, _). \<not> letter r) (runes s))" "w = text_of ws"
    using assms(2) by (auto simp: words_def fields_func_def)
  have el: "ws \<noteq> []" "rb \<in> set (runes s)" "letter (fst rb)" if "rb \<in> set ws" for rb
    using fields_elements [OF ws(1)] that by auto
  have whole: "\<forall>rb\<in>set ws. whole rb"
  proof
    fix rb assume "rb \<in> set ws"
    then have "rb \<in> set (runes s)" "letter (fst rb)" by (rule el(2), rule el(3))
    then show "whole rb" using assms(1) by (intro runes_whole) auto
  qed
  have "ws \<noteq> []" using fields_elements [OF ws(1)] by simp
  then have "w \<noteq> []" using whole by (cases ws) (auto simp: ws(2) whole_def)
  then show ?thesis
    using json_string_whole [OF whole] runes_concat_whole [OF whole] el(3) by (simp add: ws(2))
qed

lemma words_concat: "concat (words letter s) = text_of (letters letter s)"
proof -
  have "concat (map text_of xss) = text_of (concat xss)" for xss
    by (induction xss) simp_all
  then show ?thesis
    by (simp add: words_def fields_func_def fields_concat) (simp add: case_prod_unfold)
qed

lemma concat_words:
  "concat (concat (map (\<lambda>f. words letter (g f)) fs)) = concat (map (\<lambda>f. text_of (letters letter (g f))) fs)"
  by (induction fs) (simp_all add: words_concat)

lemma wc_json_safe:
  assumes "\<not> letter rune_error" "cf_map cf = wc_Map letter"
  shows "json_safe cf"
  using words_runes [where letter = letter, OF assms(1)]
  by (auto simp: json_safe_def assms(2) wc_Map_def json_kv_def json_ascii simp flip: words_def)

lemma wc_pairs: "wc.pairs letter cf = map (\<lambda>w. \<lparr>kv_Key = w, kv_Value = ''1''\<rparr>) (all_words letter cf)"
  by (simp add: wc.pairs_def all_words_def wc_Map_def words_def map_concat o_def)

lemma wc_values: "length (values_of (wc.pairs letter cf) w) = count_list (all_words letter cf) w"
proof -
  have "(\<lambda>x. x = w) = (=) w" by auto
  then show ?thesis by (simp add: wc_pairs values_of_def filter_map o_def count_list_eq_length_filter)
qed

text \<open>
  C30 (word count).  Let U+FFFD be no letter.  A word-count job that finishes after a run without a slip
  (no task reported twice in its phase, no output file that cannot be renamed) has one output line for
  every word of the input files, the word and the decimal number of its occurrences in all of them
  together, and no other line.  The words are the maximal runs of letters: not empty, every rune a letter,
  and together the letters of the texts in order.
\<close>

theorem wc_counts_words:
  assumes "wc.job letter cf" "\<not> letter rune_error" "mr_run cf False S" "Done (coord S)"
  shows "mset (concat (map (\<lambda>r. the (outs S r)) [0..<nat (cf_nReduce cf)])) =
    mset (map (\<lambda>w. out_line w (itoa (count_list (all_words letter cf) w)))
      (sorted_list_of_set (set (all_words letter cf)))) \<and>
    (\<forall>w\<in>set (all_words letter cf). w \<noteq> [] \<and> (\<forall>rb\<in>set (runes w). letter (fst rb))) \<and>
    concat (all_words letter cf) = concat (map (\<lambda>f. text_of (letters letter (cf_content cf f))) (cf_names cf))"
proof (intro conjI)
  have safe: "json_safe cf" using assms(1,2) by (intro wc_json_safe) (simp_all add: wc.job_def)
  show "mset (concat (map (\<lambda>r. the (outs S r)) [0..<nat (cf_nReduce cf)])) =
    mset (map (\<lambda>w. out_line w (itoa (count_list (all_words letter cf) w)))
      (sorted_list_of_set (set (all_words letter cf))))"
    using wc.job_output [OF assms(1) safe assms(3,4)]
    by (simp add: wc_Reduce_def wc_values) (simp add: wc_pairs image_comp o_def)
  show "\<forall>w\<in>set (all_words letter cf). w \<noteq> [] \<and> (\<forall>rb\<in>set (runes w). letter (fst rb))"
    using words_runes [where letter = letter, OF assms(2)] by (auto simp: all_words_def)
  show "concat (all_words letter cf) = concat (map (\<lambda>f. text_of (letters letter (cf_content cf f))) (cf_names cf))"
    by (simp add: all_words_def concat_words)
qed

text \<open>Latin letters, and some others; the first text holds a letter of two bytes and a byte that is no UTF-8.\<close>

definition demo_letter :: "nat \<Rightarrow> bool" where
  "demo_letter r \<longleftrightarrow> r \<in> {65..90} \<or> r \<in> {97..122} \<or> r \<in> {0xC0..0x24F}"

definition demo_text :: mr_conf where
  "demo_text = \<lparr>cf_names = [''f'', ''e''],
     cf_content = (\<lambda>f. if f = ''f'' then [CHR ''b'', CHR 0xFF, CHR 0xC3, CHR 0xA9, CHR '' '', CHR ''b''] else ''b''),
     cf_map = wc_Map demo_letter, cf_reduce = wc_Reduce, cf_sort = sort_key kv_Key, cf_nReduce = 2\<rparr>"

lemma demo_words:
  "all_words demo_letter demo_text = [''b'', [CHR 0xC3, CHR 0xA9], ''b'', ''b'']"
  "all_words demo_letter (demo_text\<lparr>cf_map := m, cf_reduce := r\<rparr>) = [''b'', [CHR 0xC3, CHR 0xA9], ''b'', ''b'']"
  "words demo_letter (cf_content demo_text ''f'') = [''b'', [CHR 0xC3, CHR 0xA9], ''b'']"
  "words demo_letter (cf_content demo_text ''e'') = [''b'']"
  by (simp_all add: demo_text_def all_words_def words_def fields_func_def demo_letter_def between_def rune_error_def)

lemma digits: "char_of (49 :: nat) = CHR ''1''" "char_of (50 :: nat) = CHR ''2''" "char_of (51 :: nat) = CHR ''3''"
  by code_simp+

lemma demo_sorted: "sorted_list_of_set (set [''b'', [CHR 0xC3, CHR 0xA9], ''b'', ''b'']) = [''b'', [CHR 0xC3, CHR 0xA9]]"
  by (simp only: sorted_list_of_set_sort_remdups) simp

lemma demo_rune_error: "\<not> demo_letter rune_error"
  by (simp add: demo_letter_def rune_error_def)

theorem wc_counts_words_witness:
  "\<exists>S. mr_run demo_text False S \<and> Done (coord S) \<and>
     mset (concat (map (\<lambda>r. the (outs S r)) [0..<2])) = {#''b 3\<newline>'', [CHR 0xC3, CHR 0xA9] @ '' 1\<newline>''#}"
proof -
  have job: "wc.job demo_letter demo_text"
    by (simp add: wc.job_def demo_text_def sorts_by_key_sort_key)
  obtain S where S: "mr_run demo_text False S" "Done (coord S)"
    using done_exists [OF wc.conf_ok_job [OF job]] by blast
  have lines: "map (\<lambda>w. out_line w (itoa (count_list (all_words demo_letter demo_text) w)))
      (sorted_list_of_set (set (all_words demo_letter demo_text))) = [''b 3\<newline>'', [CHR 0xC3, CHR 0xA9] @ '' 1\<newline>'']"
    unfolding demo_words demo_sorted by (simp add: out_line_def itoa.simps digits)
  have n: "nat (cf_nReduce demo_text) = 2" by (simp add: demo_text_def)
  show ?thesis
    by (rule exI [of _ S]) (use wc_counts_words [OF job demo_rune_error S, unfolded lines n] S in simp)
qed

lemma values_of_concat: "values_of (concat kss) w = concat (map (\<lambda>kvs. values_of kvs w) kss)"
  by (induction kss) (simp_all add: values_of_def)

lemma values_of_single:
  "distinct ws \<Longrightarrow> values_of (map (\<lambda>w. \<lparr>kv_Key = w, kv_Value = f\<rparr>) ws) w = (if w \<in> set ws then [f] else [])"
  by (induction ws) (auto simp: values_of_def)

lemma concat_if_filter: "concat (map (\<lambda>x. if P x then [x] else []) xs) = filter P xs"
  by (induction xs) auto

text \<open>
  Inverted index.  An indexer job that finishes after a run without a slip has one output line for every
  word of the input files, whose names are UTF-8: the word, the number of files it occurs in, and their
  names, sorted and separated by commas.
\<close>

theorem indexer_lists_documents:
  assumes "indexer.job order letter cf" "\<not> letter rune_error" "\<And>f. f \<in> set (cf_names cf) \<Longrightarrow> json_string f = f"
    and run: "mr_run cf False S" "Done (coord S)"
    and order: "\<And>W. finite W \<Longrightarrow> distinct (order W) \<and> set (order W) = W"
  shows "mset (concat (map (\<lambda>r. the (outs S r)) [0..<nat (cf_nReduce cf)])) =
    mset (map (\<lambda>w. let docs = filter (\<lambda>f. w \<in> set (words letter (cf_content cf f))) (cf_names cf)
        in out_line w (itoa (length docs) @ '' '' @ join '','' (sort docs)))
      (sorted_list_of_set (set (all_words letter cf))))"
proof -
  let ?W = "\<lambda>f. set (words letter (cf_content cf f))"
  have order: "distinct (order (?W f))" "set (order (?W f)) = ?W f" for f
    using assms(6) by auto
  have "cf_map cf = indexer_Map order letter" using assms(1) by (simp add: indexer.job_def)
  then have safe: "json_safe cf"
    using assms(3) words_runes [where letter = letter, OF assms(2)] order(2) unfolding json_safe_def indexer_Map_def
    by (auto simp: json_kv_def simp flip: words_def)
  have pairs: "indexer.pairs order letter cf =
      concat (map (\<lambda>f. map (\<lambda>w. \<lparr>kv_Key = w, kv_Value = f\<rparr>) (order (?W f))) (cf_names cf))"
    by (simp add: indexer.pairs_def indexer_Map_def words_def)
  have "values_of (indexer.pairs order letter cf) w = filter (\<lambda>f. w \<in> ?W f) (cf_names cf)" for w
    using order by (simp add: pairs values_of_concat values_of_single o_def concat_if_filter)
  moreover have "kv_Key ` set (indexer.pairs order letter cf) = set (all_words letter cf)"
    using order(2) by (simp add: pairs all_words_def image_UN image_image)
  ultimately show ?thesis
    using indexer.job_output [OF assms(1) safe run] by (simp add: indexer_Reduce_def Let_def)
qed

theorem indexer_lists_documents_witness:
  "\<exists>S. mr_run (demo_text\<lparr>cf_map := indexer_Map sorted_list_of_set demo_letter, cf_reduce := indexer_Reduce\<rparr>) False S \<and>
     Done (coord S) \<and>
     mset (concat (map (\<lambda>r. the (outs S r)) [0..<2])) = {#''b 2 e,f\<newline>'', [CHR 0xC3, CHR 0xA9] @ '' 1 f\<newline>''#}"
proof -
  let ?cf = "demo_text\<lparr>cf_map := indexer_Map sorted_list_of_set demo_letter, cf_reduce := indexer_Reduce\<rparr>"
  have job: "indexer.job sorted_list_of_set demo_letter ?cf"
    by (simp add: indexer.job_def demo_text_def sorts_by_key_sort_key)
  obtain S where S: "mr_run ?cf False S" "Done (coord S)"
    using done_exists [OF indexer.conf_ok_job [OF job]] by blast
  have names: "\<And>f. f \<in> set (cf_names ?cf) \<Longrightarrow> json_string f = f"
    by (auto simp: demo_text_def intro!: json_ascii)
  have content: "cf_content ?cf = cf_content demo_text" by simp
  have lines: "map (\<lambda>w. let docs = filter (\<lambda>f. w \<in> set (words demo_letter (cf_content ?cf f))) (cf_names ?cf)
        in out_line w (itoa (length docs) @ '' '' @ join '','' (sort docs)))
      (sorted_list_of_set (set (all_words demo_letter ?cf))) = [''b 2 e,f\<newline>'', [CHR 0xC3, CHR 0xA9] @ '' 1 f\<newline>'']"
    unfolding demo_words(2) demo_sorted content
    using demo_words(3,4) by (simp add: demo_text_def out_line_def itoa.simps digits)
  have n: "nat (cf_nReduce ?cf) = 2" by (simp add: demo_text_def)
  show ?thesis
    by (rule exI [of _ S])
      (use indexer_lists_documents [OF job demo_rune_error names S, unfolded lines n] S in simp)
qed

end
