(* ===== verification/KvRpc.thy ===== *)
theory KvRpc
  imports GoPrelude
begin

text \<open>
  The wire types of the key/value services (\<open>src/kvsrv1/rpc/rpc.go\<close>) and the contract every
  key/value state machine of the repository keeps.  The error strings of the source are the
  constructors of a datatype; \<open>ErrUnset\<close> is the zero value \<open>""\<close> an untouched reply has.

  The locale \<open>cas_store\<close> is the contract: a state maps keys to a value and a version, \<open>Get\<close>
  reads it, \<open>Put\<close> installs a value exactly when the version it names is the current one (0 for
  a missing key) and bumps the version.  The lab 2 server, the replicated server of lab 4 and the
  shard group of lab 5 are interpretations of it, and what clients rely on (a version names one
  value, at most one \<open>Put\<close> of a version succeeds, versions count successful \<open>Put\<close>s) is proved once
  here.
\<close>

section \<open>Messages\<close>

datatype Err =
  OK | ErrNoKey | ErrVersion | ErrMaybe | ErrWrongLeader | ErrWrongGroup | ErrStaleNum | ErrUnset

type_synonym Tversion = "64 word"

record PutArgs =
  pa_Key :: string
  pa_Value :: string
  pa_Version :: Tversion

record PutReply =
  pr_Err :: Err

record GetArgs =
  ga_Key :: string

record GetReply =
  gr_Value :: string
  gr_Version :: Tversion
  gr_Err :: Err

text \<open>\<open>var reply rpc.PutReply\<close> and \<open>var reply rpc.GetReply\<close>.\<close>

definition zero_PutReply :: PutReply where
  "zero_PutReply = \<lparr>pr_Err = ErrUnset\<rparr>"

definition zero_GetReply :: GetReply where
  "zero_GetReply = \<lparr>gr_Value = [], gr_Version = 0, gr_Err = ErrUnset\<rparr>"

section \<open>The contract of a key/value state machine\<close>

text \<open>
  The abstract store and the two operations on it: what \<open>Get\<close> answers and what \<open>Put\<close> does.
\<close>

type_synonym store = "string \<Rightarrow> (string \<times> Tversion) option"

definition spec_get :: "store \<Rightarrow> string \<Rightarrow> GetReply" where
  "spec_get m k = (case m k of
     Some (v, n) \<Rightarrow> \<lparr>gr_Value = v, gr_Version = n, gr_Err = OK\<rparr>
   | None \<Rightarrow> \<lparr>gr_Value = [], gr_Version = 0, gr_Err = ErrNoKey\<rparr>)"

definition current_version :: "store \<Rightarrow> string \<Rightarrow> Tversion" where
  "current_version m k = (case m k of Some (v, n) \<Rightarrow> n | None \<Rightarrow> 0)"

definition spec_put :: "store \<Rightarrow> PutArgs \<Rightarrow> store \<times> Err" where
  "spec_put m a =
     (if pa_Version a = current_version m (pa_Key a)
      then (m(pa_Key a \<mapsto> (pa_Value a, pa_Version a + 1)), OK)
      else (m, if m (pa_Key a) = None then ErrNoKey else ErrVersion))"

fun spec_puts :: "store \<Rightarrow> PutArgs list \<Rightarrow> store" where
  "spec_puts m [] = m"
| "spec_puts m (a # as) = spec_puts (fst (spec_put m a)) as"

text \<open>How many of a sequence of \<open>Put\<close>s succeed on a key.\<close>

fun successes :: "string \<Rightarrow> store \<Rightarrow> PutArgs list \<Rightarrow> nat" where
  "successes k m [] = 0"
| "successes k m (a # as) =
     (if pa_Key a = k \<and> snd (spec_put m a) = OK then 1 else 0)
     + successes k (fst (spec_put m a)) as"

lemma spec_put_OK_iff:
  "snd (spec_put m a) = OK \<longleftrightarrow> pa_Version a = current_version m (pa_Key a)"
  by (simp add: spec_put_def)

lemma spec_put_not_OK:
  "snd (spec_put m a) \<noteq> OK \<Longrightarrow> fst (spec_put m a) = m"
  by (auto simp: spec_put_def)

lemma spec_put_codes: "snd (spec_put m a) \<in> {OK, ErrNoKey, ErrVersion}"
  by (simp add: spec_put_def)

lemma spec_put_other: "k \<noteq> pa_Key a \<Longrightarrow> fst (spec_put m a) k = m k"
  by (simp add: spec_put_def)

lemma spec_put_dom: "m k \<noteq> None \<Longrightarrow> fst (spec_put m a) k \<noteq> None"
  by (simp add: spec_put_def)

lemma spec_puts_dom: "m k \<noteq> None \<Longrightarrow> spec_puts m as k \<noteq> None"
  by (induction as arbitrary: m) (simp_all add: spec_put_dom del: not_None_eq)

lemma spec_puts_append [simp]: "spec_puts m (as @ bs) = spec_puts (spec_puts m as) bs"
  by (induction as arbitrary: m) simp_all

lemma successes_append [simp]:
  "successes k m (as @ bs) = successes k m as + successes k (spec_puts m as) bs"
  by (induction as arbitrary: m) simp_all

lemma successes_le: "successes k m as \<le> length as"
proof (induction as arbitrary: m)
  case (Cons a as)
  show ?case using Cons [of "fst (spec_put m a)"] by simp
qed simp

text \<open>The version of a key counts the successful \<open>Put\<close>s on it, modulo \<open>2^64\<close>.\<close>

lemma current_version_put:
  "current_version (fst (spec_put m a)) k =
     current_version m k + (if pa_Key a = k \<and> snd (spec_put m a) = OK then 1 else 0)"
  by (simp add: spec_put_def current_version_def)

lemma current_version_puts:
  "current_version (spec_puts m as) k = current_version m k + of_nat (successes k m as)"
  by (induction as arbitrary: m) (simp_all add: current_version_put)

lemma of_nat_word64_eq_0: "(of_nat j :: 64 word) = 0 \<Longrightarrow> j < 2 ^ 64 \<Longrightarrow> j = 0"
  by (auto simp: word_of_nat_eq_0_iff dest: dvd_imp_le)

lemma of_nat_word64_inj:
  assumes "(of_nat i :: Tversion) = of_nat j" "i < 2 ^ 64" "j < 2 ^ 64"
  shows "i = j"
  using assms by (simp add: word_of_nat_eq_iff take_bit_nat_eq_self)

text \<open>Without \<open>2^64\<close> successful \<open>Put\<close>s in between, an unchanged version means an unchanged entry.\<close>

lemma no_success_same:
  "successes k m as = 0 \<Longrightarrow> spec_puts m as k = m k"
proof (induction as arbitrary: m)
  case (Cons a as)
  have "fst (spec_put m a) k = m k"
    using Cons.prems spec_put_other [of k a m] spec_put_not_OK [of m a]
    by (cases "pa_Key a = k") (auto split: if_splits)
  then show ?case using Cons by (simp split: if_splits)
qed simp

lemma version_fixes_entry:
  assumes "current_version (spec_puts m as) k = current_version m k"
    and "length as < 2 ^ 64"
  shows "spec_puts m as k = m k"
proof -
  have "(of_nat (successes k m as) :: Tversion) = 0"
    using assms(1) by (simp add: current_version_puts)
  moreover have "successes k m as < 2 ^ 64"
    using successes_le [of k m as] assms(2) by simp
  ultimately show ?thesis by (simp add: of_nat_word64_eq_0 no_success_same)
qed

locale cas_store =
  fixes tab :: "'s \<Rightarrow> store"
    and get :: "'s \<Rightarrow> string \<Rightarrow> GetReply"
    and put :: "'s \<Rightarrow> PutArgs \<Rightarrow> 's \<times> Err"
  assumes get_law: "get s k = spec_get (tab s) k"
    and put_tab: "tab (fst (put s a)) = fst (spec_put (tab s) a)"
    and put_err: "snd (put s a) = snd (spec_put (tab s) a)"
begin

fun puts :: "'s \<Rightarrow> PutArgs list \<Rightarrow> 's" where
  "puts s [] = s"
| "puts s (a # as) = puts (fst (put s a)) as"

lemma tab_puts: "tab (puts s as) = spec_puts (tab s) as"
  by (induction as arbitrary: s) (simp_all add: put_tab)

lemma get_after_put:
  assumes "snd (put s a) = OK"
  shows "get (fst (put s a)) (pa_Key a) =
    \<lparr>gr_Value = pa_Value a, gr_Version = pa_Version a + 1, gr_Err = OK\<rparr>"
  using assms by (auto simp: get_law put_tab put_err spec_put_def spec_get_def split: if_splits)

lemma get_other_key:
  "k \<noteq> pa_Key a \<Longrightarrow> get (fst (put s a)) k = get s k"
  by (simp add: get_law put_tab spec_get_def spec_put_other)

lemma put_failed: "snd (put s a) \<noteq> OK \<Longrightarrow> tab (fst (put s a)) = tab s"
  by (simp add: put_tab put_err spec_put_not_OK)

text \<open>
  Compare-and-set: a \<open>Put\<close> with the version a \<open>Get\<close> returned succeeds exactly when the entry is
  still the one that \<open>Get\<close> saw, whatever other \<open>Put\<close>s ran in between.
\<close>

lemma put_after_get:
  assumes "length as < 2 ^ 64"
  shows "snd (put (puts s as) \<lparr>pa_Key = k, pa_Value = v, pa_Version = gr_Version (get s k)\<rparr>) = OK
     \<longleftrightarrow> tab (puts s as) k = tab s k"
proof -
  have v: "gr_Version (get s k) = current_version (tab s) k"
    by (simp add: get_law spec_get_def current_version_def split: option.splits prod.splits)
  show ?thesis
    using version_fixes_entry [of "tab s" as k] assms
    by (auto simp: put_err spec_put_OK_iff v tab_puts) (simp add: current_version_def)
qed

lemma second_put_fails:
  assumes "snd (put s a) = OK" "pa_Key b = pa_Key a" "pa_Version b = pa_Version a"
    and "length as < 2 ^ 64 - 1"
  shows "snd (put (puts (fst (put s a)) as) b) = ErrVersion"
proof -
  let ?m = "fst (spec_put (tab s) a)" and ?k = "pa_Key a"
  have cv: "current_version ?m ?k = current_version (tab s) ?k + 1"
    using assms(1) by (simp add: current_version_put put_err)
  have "\<not> (of_nat (Suc (successes ?k ?m as)) :: Tversion) = 0"
    using of_nat_word64_eq_0 [of "Suc (successes ?k ?m as)"] successes_le [of ?k ?m as] assms(4)
    by linarith
  then have "current_version (spec_puts ?m as) ?k \<noteq> current_version (tab s) ?k"
    unfolding current_version_puts cv by (simp add: add.assoc)
  moreover have "pa_Version b = current_version (tab s) ?k"
    using assms(1,3) by (simp add: put_err spec_put_OK_iff)
  moreover have "?m ?k \<noteq> None"
    using assms(1) by (simp add: put_err spec_put_def split: if_splits)
  then have "spec_puts ?m as ?k \<noteq> None" by (rule spec_puts_dom)
  ultimately show ?thesis
    using assms(2) by (simp add: put_err put_tab tab_puts spec_put_def)
qed

end

end
