(* ===== verification/Rsm.thy ===== *)
theory Rsm
  imports RaftOps KvRpc
begin

text \<open>
  The replicated state machine layer (\<open>src/kvraft1/rsm/rsm.go\<close>): \<open>Submit\<close>, cut at the points
  where it releases the lock or waits, and one iteration of \<open>reader\<close>.  The interface
  \<open>StateMachine\<close> (\<open>DoOp\<close>, \<open>Snapshot\<close>, \<open>Restore\<close>) is three arguments here; the services that
  implement it are in \<open>KvRaft\<close> and \<open>ShardGrp\<close>.  What \<open>Start\<close>, \<open>GetState\<close> and
  \<open>PersistBytes\<close> of the Raft peer return is an argument of the step that calls them.

  A channel of capacity one is a list of at most one reply in the store \<open>chans\<close>; \<open>make\<close>
  takes the next free name.  A send on a full channel blocks, which is \<open>None\<close>.
\<close>

section \<open>State\<close>

record 'req Op =
  op_Me :: int
  op_Req :: 'req

type_synonym 'rep opReply = "Err \<times> 'rep option"

record ('rep, 's) RSM =
  rsm_me :: int
  maxraftstate :: int
  sm :: 's
  waiting :: "int \<Rightarrow> nat option"
  chans :: "nat \<Rightarrow> 'rep opReply list"
  next_chan :: nat

text \<open>\<open>MakeRSM\<close>: the state machine is restored when the persister holds a snapshot.\<close>

definition MakeRSM :: "('b list \<Rightarrow> 's \<Rightarrow> 's) \<Rightarrow> int \<Rightarrow> ('r, 'b) Persister \<Rightarrow> int \<Rightarrow> 's \<Rightarrow> ('rep, 's) RSM" where
  "MakeRSM Restore i ps mrs s =
     \<lparr>rsm_me = i, maxraftstate = mrs,
      sm = (let data = ReadSnapshot ps in if length data > 0 then Restore data s else s),
      waiting = Map.empty, chans = (\<lambda>_. []), next_chan = 0\<rparr>"

section \<open>Submit\<close>

text \<open>The lock-held section up to \<open>Unlock\<close>; \<open>st\<close> is what \<open>Start\<close> returned.\<close>

definition submit_start :: "int \<times> int \<times> bool \<Rightarrow> ('rep, 's) RSM \<Rightarrow> ('rep, 's) RSM \<times> 'rep opReply option" where
  "submit_start st rsm = (case st of (index, preTerm, isLeader) \<Rightarrow>
     (let ch = next_chan rsm;
          rsm1 = rsm\<lparr>waiting := (waiting rsm)(index \<mapsto> ch), chans := (chans rsm)(ch := []),
                     next_chan := ch + 1\<rparr>
      in if \<not> isLeader
         then (rsm1\<lparr>waiting := (waiting rsm1)(index := None)\<rparr>, Some (ErrWrongLeader, None))
         else (rsm1, None)))"

text \<open>\<open>case opReply := <-result\<close>, and the clean-up that follows it.\<close>

definition submit_recv :: "nat \<Rightarrow> ('rep, 's) RSM \<Rightarrow> (('rep, 's) RSM \<times> 'rep opReply) option" where
  "submit_recv ch rsm = (case chans rsm ch of
     [] \<Rightarrow> None
   | r # rs \<Rightarrow> Some (rsm\<lparr>chans := (chans rsm)(ch := rs)\<rparr>, r))"

definition submit_delete :: "int \<Rightarrow> ('rep, 's) RSM \<Rightarrow> ('rep, 's) RSM" where
  "submit_delete index rsm = rsm\<lparr>waiting := (waiting rsm)(index := None)\<rparr>"

text \<open>\<open>case <-ticker.C\<close>: \<open>gs\<close> is what \<open>GetState\<close> returned.\<close>

definition submit_tick :: "int \<times> bool \<Rightarrow> int \<Rightarrow> int \<Rightarrow> ('rep, 's) RSM \<Rightarrow> ('rep, 's) RSM \<times> 'rep opReply option" where
  "submit_tick gs preTerm index rsm = (case gs of (curTerm, isLeader) \<Rightarrow>
     if \<not> isLeader \<or> curTerm \<noteq> preTerm
     then (submit_delete index rsm, Some (ErrWrongLeader, None))
     else (rsm, None))"

section \<open>The reader\<close>

definition send :: "nat \<Rightarrow> 'rep opReply \<Rightarrow> ('rep, 's) RSM \<Rightarrow> ('rep, 's) RSM option" where
  "send ch r rsm =
     (if chans rsm ch = [] then Some (rsm\<lparr>chans := (chans rsm)(ch := [r])\<rparr>) else None)"

text \<open>The reply goes to whoever waits at the index, if the operation was submitted here.\<close>

definition reply_waiting :: "'req Op \<Rightarrow> int \<Rightarrow> 'rep \<Rightarrow> ('rep, 's) RSM \<Rightarrow> ('rep, 's) RSM option" where
  "reply_waiting op index result rsm = (case waiting rsm index of
     Some ch \<Rightarrow> if op_Me op = rsm_me rsm then send ch (OK, Some result) rsm else Some rsm
   | None \<Rightarrow> Some rsm)"

text \<open>
  One message of \<open>applyCh\<close>.  The second result is the call of the peer's \<open>Snapshot\<close> it makes.
  A command that is not an \<open>Op\<close> fails the type assertion.
\<close>

definition reader_apply ::
  "('s \<Rightarrow> 'req \<Rightarrow> 's \<times> 'rep) \<Rightarrow> ('s \<Rightarrow> 'b list) \<Rightarrow> ('b list \<Rightarrow> 's \<Rightarrow> 's) \<Rightarrow> int \<Rightarrow>
   ('req Op, 'b) ApplyMsg \<Rightarrow> ('rep, 's) RSM \<Rightarrow> (('rep, 's) RSM \<times> (int \<times> 'b list) option) option" where
  "reader_apply DoOp Snap Rest persistBytes command rsm =
     do {
       (rsm, snap) \<leftarrow>
         (if am_CommandValid command then do {
            op \<leftarrow> am_Command command;
            let sres = DoOp (sm rsm) (op_Req op);
            rsm2 \<leftarrow> reply_waiting op (am_CommandIndex command) (snd sres) (rsm\<lparr>sm := fst sres\<rparr>);
            Some (rsm2, if maxraftstate rsm2 \<noteq> -1 \<and> persistBytes \<ge> maxraftstate rsm2
                        then Some (am_CommandIndex command, Snap (sm rsm2)) else None)
          } else Some (rsm, None));
       Some (if am_SnapshotValid command then rsm\<lparr>sm := Rest (am_Snapshot command) (sm rsm)\<rparr> else rsm,
             snap)
     }"

text \<open>The channel is closed by \<open>Kill\<close>: everyone waiting is told to look elsewhere.\<close>

fun send_all :: "nat list \<Rightarrow> ('rep, 's) RSM \<Rightarrow> ('rep, 's) RSM option" where
  "send_all [] rsm = Some rsm"
| "send_all (ch # chs) rsm = Option.bind (send ch (ErrWrongLeader, None) rsm) (send_all chs)"

lemma reply_waiting_sm:
  "reply_waiting op index result rsm = Some rsm' \<Longrightarrow> sm rsm' = sm rsm"
  by (auto simp: reply_waiting_def send_def split: option.splits if_splits)

section \<open>The interface StateMachine and replica convergence\<close>

text \<open>
  What the layer needs of a service: a view of its state that \<open>DoOp\<close> works on
  deterministically and that a snapshot carries over.
\<close>

locale state_machine =
  fixes DoOp :: "'s \<Rightarrow> 'req \<Rightarrow> 's \<times> 'rep"
    and Snapshot :: "'s \<Rightarrow> 'b list"
    and Restore :: "'b list \<Rightarrow> 's \<Rightarrow> 's"
    and view :: "'s \<Rightarrow> 'v"
  assumes view_DoOp: "view s = view t \<Longrightarrow>
      view (fst (DoOp s r)) = view (fst (DoOp t r)) \<and> snd (DoOp s r) = snd (DoOp t r)"
    and view_Restore: "view (Restore (Snapshot s) t) = view s"
begin

definition run :: "'s \<Rightarrow> 'req list \<Rightarrow> 's" where
  "run s rs = fold (\<lambda>r s. fst (DoOp s r)) rs s"

lemma run_simps [simp]:
  "run s [] = s" "run s (r # rs) = run (fst (DoOp s r)) rs"
  "run s (rs @ qs) = run (run s rs) qs"
  by (simp_all add: run_def)

lemma view_run: "view s = view t \<Longrightarrow> view (run s rs) = view (run t rs)"
proof (induction rs arbitrary: s t)
  case (Cons r rs)
  have "view (fst (DoOp s r)) = view (fst (DoOp t r))"
    using view_DoOp [OF Cons.prems, of r] by blast
  then show ?case unfolding run_simps by (rule Cons.IH)
qed simp

text \<open>
  \<open>stream s0 ops k ms e\<close>: messages that are consistent with a log of operations \<open>ops\<close>, for a
  replica that has applied \<open>k\<close> of them and ends with \<open>e\<close> applied.  Commands come in order,
  and a snapshot is that of a run of the operations it covers.
\<close>

inductive stream ::
  "'s \<Rightarrow> 'req Op list \<Rightarrow> nat \<Rightarrow> ('req Op, 'b) ApplyMsg list \<Rightarrow> nat \<Rightarrow> bool"
  for s0 :: 's and ops :: "'req Op list" where
  finished: "k \<le> length ops \<Longrightarrow> stream s0 ops k [] k"
| command: "k < length ops \<Longrightarrow> am_CommandValid m \<Longrightarrow> \<not> am_SnapshotValid m \<Longrightarrow>
    am_Command m = Some (ops ! k) \<Longrightarrow> am_CommandIndex m = int k + 1 \<Longrightarrow>
    stream s0 ops (Suc k) ms e \<Longrightarrow> stream s0 ops k (m # ms) e"
| snapshot: "j \<le> length ops \<Longrightarrow> \<not> am_CommandValid m \<Longrightarrow> am_SnapshotValid m \<Longrightarrow>
    am_Snapshot m = Snapshot t \<Longrightarrow> view t = view (run s0 (map op_Req (take j ops))) \<Longrightarrow>
    stream s0 ops j ms e \<Longrightarrow> stream s0 ops k (m # ms) e"

inductive reads ::
  "('rep, 's) RSM \<Rightarrow> ('req Op, 'b) ApplyMsg list \<Rightarrow> ('rep, 's) RSM \<Rightarrow> bool" where
  none: "reads rsm [] rsm"
| msg: "reader_apply DoOp Snapshot Restore pb m rsm = Some (rsm1, snap) \<Longrightarrow> sm rsm2 = sm rsm1 \<Longrightarrow>
    reads rsm2 ms rsm3 \<Longrightarrow> reads rsm (m # ms) rsm3"

lemma reader_apply_sm:
  assumes "reader_apply DoOp Snapshot Restore pb m rsm = Some (rsm', snap)"
  shows "sm rsm' = (let s1 = (if am_CommandValid m
      then fst (DoOp (sm rsm) (op_Req (the (am_Command m)))) else sm rsm)
    in if am_SnapshotValid m then Restore (am_Snapshot m) s1 else s1)"
    and "snap = Some (i, b) \<Longrightarrow> am_CommandValid m \<and> i = am_CommandIndex m \<and>
      b = Snapshot (fst (DoOp (sm rsm) (op_Req (the (am_Command m)))))"
proof -
  obtain rsm2 sn where r: "(if am_CommandValid m
      then sm rsm2 = fst (DoOp (sm rsm) (op_Req (the (am_Command m))))
      else sm rsm2 = sm rsm)"
    and out: "rsm' = (if am_SnapshotValid m
      then rsm2\<lparr>sm := Restore (am_Snapshot m) (sm rsm2)\<rparr> else rsm2)" "snap = sn"
    and sn: "sn = Some (i, b) \<longrightarrow> am_CommandValid m \<and> i = am_CommandIndex m \<and> b = Snapshot (sm rsm2)"
    using assms
    by (auto simp: reader_apply_def bind_eq_Some_conv' Let_def dest!: reply_waiting_sm
        split: if_splits)
  show "sm rsm' = (let s1 = (if am_CommandValid m
      then fst (DoOp (sm rsm) (op_Req (the (am_Command m)))) else sm rsm)
    in if am_SnapshotValid m then Restore (am_Snapshot m) s1 else s1)"
    using r out(1) by (simp add: Let_def split: if_splits)
  show "am_CommandValid m \<and> i = am_CommandIndex m \<and>
      b = Snapshot (fst (DoOp (sm rsm) (op_Req (the (am_Command m)))))" if "snap = Some (i, b)"
    using r sn out(2) that by simp
qed

text \<open>
  Whatever mixture of commands and snapshots a replica reads, and whatever \<open>Submit\<close> does to the
  waiting table in between, its state is that of a plain run of a prefix of the log.
\<close>

lemma replica_follows_log:
  assumes "stream s0 ops k ms e" "reads rsm ms rsm'"
    and "view (sm rsm) = view (run s0 (map op_Req (take k ops)))"
  shows "view (sm rsm') = view (run s0 (map op_Req (take e ops)))"
  using assms
proof (induction arbitrary: rsm)
  case (finished k)
  then show ?case by (auto elim: reads.cases)
next
  case (command k m ms e)
  obtain rsm1 rsm2 pb snap where r: "reader_apply DoOp Snapshot Restore pb m rsm = Some (rsm1, snap)"
    "sm rsm2 = sm rsm1" "reads rsm2 ms rsm'"
    using command.prems(1) by (auto elim: reads.cases)
  have "sm rsm2 = fst (DoOp (sm rsm) (op_Req (ops ! k)))"
    using reader_apply_sm(1) [OF r(1)] r(2) command.hyps by simp
  then have "view (sm rsm2) = view (run s0 (map op_Req (take (Suc k) ops)))"
    using view_DoOp [OF command.prems(2), of "op_Req (ops ! k)"] command.hyps(1)
    by (simp add: take_Suc_conv_app_nth)
  then show ?case using command.IH r(3) by blast
next
  case (snapshot j m t ms e k)
  obtain rsm1 rsm2 pb snap where r: "reader_apply DoOp Snapshot Restore pb m rsm = Some (rsm1, snap)"
    "sm rsm2 = sm rsm1" "reads rsm2 ms rsm'"
    using snapshot.prems(1) by (auto elim: reads.cases)
  have "sm rsm2 = Restore (Snapshot t) (sm rsm)"
    using reader_apply_sm(1) [OF r(1)] r(2) snapshot.hyps by simp
  then have "view (sm rsm2) = view (run s0 (map op_Req (take j ops)))"
    using view_Restore snapshot.hyps(5) by simp
  then show ?case using snapshot.IH r(3) by blast
qed

end

section \<open>Properties\<close>

text \<open>
  A reply is the applied operation's result.  Applying a command never changes anybody's
  channel but the one registered at its index; that one gets the result of \<open>DoOp\<close> if the
  operation was submitted at this server, and the send does not block as long as the channel has
  not been answered before.
\<close>

theorem reader_apply_replies:
  assumes "am_CommandValid m" "\<not> am_SnapshotValid m" "am_Command m = Some op"
    and "\<And>ch. waiting rsm (am_CommandIndex m) = Some ch \<Longrightarrow> chans rsm ch = []"
  shows "\<exists>rsm' snap. reader_apply DoOp Snap Rest pb m rsm = Some (rsm', snap) \<and>
    sm rsm' = fst (DoOp (sm rsm) (op_Req op)) \<and> waiting rsm' = waiting rsm \<and>
    (\<forall>ch. chans rsm' ch =
       (if waiting rsm (am_CommandIndex m) = Some ch \<and> op_Me op = rsm_me rsm
        then [(OK, Some (snd (DoOp (sm rsm) (op_Req op))))] else chans rsm ch)) \<and>
    (snap \<noteq> None \<longleftrightarrow> maxraftstate rsm \<noteq> -1 \<and> pb \<ge> maxraftstate rsm)"
  using assms
  by (auto simp: reader_apply_def reply_waiting_def send_def Let_def split: option.splits)

definition demo_rsm :: "(nat, nat) RSM" where
  "demo_rsm = MakeRSM (\<lambda>_ s. s) 7 (MakePersister :: (nat, nat) Persister) (-1) 40"

theorem reader_apply_replies_witness:
  "\<exists>rsm'. reader_apply (\<lambda>s r. (s + r, s)) (\<lambda>s. [s]) (\<lambda>_ s. s) 0
      (command_msg 1 (Some \<lparr>op_Me = 7, op_Req = 2\<rparr>)) demo_rsm = Some (rsm', None) \<and> sm rsm' = 42"
  using reader_apply_replies [of "command_msg 1 (Some \<lparr>op_Me = 7, op_Req = 2\<rparr>)"
      "\<lparr>op_Me = 7, op_Req = 2\<rparr>" demo_rsm "\<lambda>s r. (s + r, s)" "\<lambda>s. [s]" "\<lambda>_ s. s" 0]
  by (auto simp: command_msg_def demo_rsm_def MakeRSM_def Let_def simp del: not_None_eq)

end
