(* ===== verification/KvServer.thy ===== *)
theory KvServer
  imports KvRpc
begin

text \<open>
  The single-machine key/value server of lab 2 (\<open>src/kvsrv1/server.go\<close>): its table, \<open>Get\<close> and
  \<open>Put\<close>, each one lock-held section.  It is an interpretation of the contract \<open>cas_store\<close>.
\<close>

record entry =
  e_value :: string
  e_version :: Tversion

record KVServer =
  table :: "string \<Rightarrow> entry option"

definition MakeKVServer :: KVServer where
  "MakeKVServer = \<lparr>table = Map.empty\<rparr>"

definition KVServer_Get :: "KVServer \<Rightarrow> GetArgs \<Rightarrow> GetReply" where
  "KVServer_Get kv args = (case table kv (ga_Key args) of
     Some e \<Rightarrow> \<lparr>gr_Value = e_value e, gr_Version = e_version e, gr_Err = OK\<rparr>
   | None \<Rightarrow> \<lparr>gr_Value = '''', gr_Version = 0, gr_Err = ErrNoKey\<rparr>)"

definition KVServer_Put :: "KVServer \<Rightarrow> PutArgs \<Rightarrow> KVServer \<times> PutReply" where
  "KVServer_Put kv args = (case table kv (pa_Key args) of
     Some e \<Rightarrow>
       if pa_Version args = e_version e
       then (kv\<lparr>table := (table kv)(pa_Key args \<mapsto>
               \<lparr>e_value = pa_Value args, e_version = pa_Version args + 1\<rparr>)\<rparr>, \<lparr>pr_Err = OK\<rparr>)
       else (kv, \<lparr>pr_Err = ErrVersion\<rparr>)
   | None \<Rightarrow>
       if pa_Version args \<noteq> 0 then (kv, \<lparr>pr_Err = ErrNoKey\<rparr>)
       else (kv\<lparr>table := (table kv)(pa_Key args \<mapsto>
               \<lparr>e_value = pa_Value args, e_version = pa_Version args + 1\<rparr>)\<rparr>, \<lparr>pr_Err = OK\<rparr>))"

definition StartKVServer :: "'ends \<Rightarrow> 'gid \<Rightarrow> int \<Rightarrow> 'persister \<Rightarrow> KVServer list" where
  "StartKVServer ends gid srv persister = [MakeKVServer]"

text \<open>The store a server's table denotes.\<close>

definition kv_abs :: "KVServer \<Rightarrow> store" where
  "kv_abs kv k = map_option (\<lambda>e. (e_value e, e_version e)) (table kv k)"

definition kv_put :: "KVServer \<Rightarrow> PutArgs \<Rightarrow> KVServer \<times> Err" where
  "kv_put kv a = (case KVServer_Put kv a of (kv', r) \<Rightarrow> (kv', pr_Err r))"

lemma kv_abs_Make [simp]: "kv_abs MakeKVServer = Map.empty"
  by (simp add: kv_abs_def MakeKVServer_def fun_eq_iff)

lemma KVServer_Get_abs [kv_simps]:
  "KVServer_Get kv args = spec_get (kv_abs kv) (ga_Key args)"
  by (simp add: KVServer_Get_def spec_get_def kv_abs_def split: option.splits)

lemma KVServer_Put_abs [kv_simps]:
  "kv_abs (fst (KVServer_Put kv args)) = fst (spec_put (kv_abs kv) args)"
  "snd (KVServer_Put kv args) = \<lparr>pr_Err = snd (spec_put (kv_abs kv) args)\<rparr>"
  by (auto simp: KVServer_Put_def spec_put_def kv_abs_def current_version_def fun_eq_iff
      split: option.splits)

interpretation kvsrv: cas_store kv_abs "\<lambda>kv k. KVServer_Get kv \<lparr>ga_Key = k\<rparr>" kv_put
  by unfold_locales (simp_all add: kv_put_def case_prod_beta kv_simps)

end
