(* ===== verification/KvClerk.thy ===== *)
theory KvClerk
  imports KvServer
begin

text \<open>
  The clerk of lab 2 (\<open>src/kvsrv1/client.go\<close>) over an unreliable network.  A call of the clerk
  is run against a script: one entry per RPC attempt saying what the network did to it (lost the
  request, executed it and lost the reply, or delivered the reply) and which \<open>Put\<close>s of other
  clients the server executed before.  \<open>Clerk.Get\<close> and \<open>Clerk.Put\<close> retry for ever, so the result
  is \<open>None\<close> when the script ends first.  The list of replies the server gave to the call's own
  requests, delivered or not, is recorded: it is what "performed exactly once" is about.
\<close>

datatype attempt =
  ReqLost "PutArgs list" | ReplyLost "PutArgs list" | Replied "PutArgs list"

fun others :: "attempt \<Rightarrow> PutArgs list" where
  "others (ReqLost as) = as"
| "others (ReplyLost as) = as"
| "others (Replied as) = as"

definition serve_puts :: "KVServer \<Rightarrow> PutArgs list \<Rightarrow> KVServer" where
  "serve_puts kv as = fold (\<lambda>a kv. fst (KVServer_Put kv a)) as kv"

record Clerk =
  ck_clnt :: nat
  ck_server :: string

definition MakeClerk :: "nat \<Rightarrow> string \<Rightarrow> Clerk" where
  "MakeClerk clnt server = \<lparr>ck_clnt = clnt, ck_server = server\<rparr>"

fun Clerk_Get_loop :: "GetArgs \<Rightarrow> attempt list \<Rightarrow> KVServer \<Rightarrow> KVServer \<times> GetReply option" where
  "Clerk_Get_loop args [] kv = (kv, None)"
| "Clerk_Get_loop args (at # script) kv =
     (let kv = serve_puts kv (others at) in
      case at of
        Replied _ \<Rightarrow> (kv, Some (KVServer_Get kv args))
      | _ \<Rightarrow> Clerk_Get_loop args script kv)"

definition Clerk_Get :: "string \<Rightarrow> attempt list \<Rightarrow> KVServer \<Rightarrow> KVServer \<times> GetReply option" where
  "Clerk_Get key script kv = Clerk_Get_loop \<lparr>ga_Key = key\<rparr> script kv"

text \<open>What \<open>Put\<close> returns for a delivered reply: \<open>ErrVersion\<close> is conclusive on the first attempt only.\<close>

definition put_result :: "bool \<Rightarrow> Err \<Rightarrow> Err" where
  "put_result firstCall err =
     (if err = ErrVersion then if firstCall then ErrVersion else ErrMaybe else err)"

fun Clerk_Put_loop ::
  "bool \<Rightarrow> PutArgs \<Rightarrow> attempt list \<Rightarrow> KVServer \<Rightarrow> KVServer \<times> Err list \<times> Err option" where
  "Clerk_Put_loop firstCall args [] kv = (kv, [], None)"
| "Clerk_Put_loop firstCall args (at # script) kv =
     (let kv = serve_puts kv (others at) in
      case at of
        ReqLost _ \<Rightarrow> Clerk_Put_loop False args script kv
      | ReplyLost _ \<Rightarrow>
          (let (kv, reply) = KVServer_Put kv args;
               (kv, own, res) = Clerk_Put_loop False args script kv
           in (kv, pr_Err reply # own, res))
      | Replied _ \<Rightarrow>
          (let (kv, reply) = KVServer_Put kv args
           in (kv, [pr_Err reply], Some (put_result firstCall (pr_Err reply)))))"

definition Clerk_Put ::
  "string \<Rightarrow> string \<Rightarrow> Tversion \<Rightarrow> attempt list \<Rightarrow> KVServer \<Rightarrow> KVServer \<times> Err list \<times> Err option" where
  "Clerk_Put key value version script kv =
     Clerk_Put_loop True \<lparr>pa_Key = key, pa_Value = value, pa_Version = version\<rparr> script kv"

text \<open>How many \<open>Put\<close>s of other clients a script runs.\<close>

definition interference :: "attempt list \<Rightarrow> nat" where
  "interference script = (\<Sum>at\<leftarrow>script. length (others at))"

lemma interference_simps [simp]:
  "interference [] = 0"
  "interference (at # script) = length (others at) + interference script"
  by (simp_all add: interference_def)

lemma serve_puts_abs [kv_simps]: "kv_abs (serve_puts kv as) = spec_puts (kv_abs kv) as"
  by (induction as arbitrary: kv) (simp_all add: serve_puts_def kv_simps)

lemma KVServer_Put_cases:
  obtains (stored) "KVServer_Put kv a = (fst (KVServer_Put kv a), \<lparr>pr_Err = OK\<rparr>)"
      "pa_Version a = current_version (kv_abs kv) (pa_Key a)"
      "kv_abs (fst (KVServer_Put kv a)) =
         (kv_abs kv)(pa_Key a \<mapsto> (pa_Value a, pa_Version a + 1))"
  | (nokey) "KVServer_Put kv a = (kv, \<lparr>pr_Err = ErrNoKey\<rparr>)" "kv_abs kv (pa_Key a) = None"
      "pa_Version a \<noteq> 0"
  | (version) "KVServer_Put kv a = (kv, \<lparr>pr_Err = ErrVersion\<rparr>)" "kv_abs kv (pa_Key a) \<noteq> None"
      "pa_Version a \<noteq> current_version (kv_abs kv) (pa_Key a)"
proof (cases "pa_Version a = current_version (kv_abs kv) (pa_Key a)")
  case True
  then have "snd (KVServer_Put kv a) = \<lparr>pr_Err = OK\<rparr>"
    by (simp add: kv_simps spec_put_def)
  then have "KVServer_Put kv a = (fst (KVServer_Put kv a), \<lparr>pr_Err = OK\<rparr>)"
    by (metis prod.collapse)
  moreover have "kv_abs (fst (KVServer_Put kv a)) =
      (kv_abs kv)(pa_Key a \<mapsto> (pa_Value a, pa_Version a + 1))"
    using True by (simp add: kv_simps spec_put_def)
  ultimately show ?thesis using stored True by blast
next
  case False
  show ?thesis
  proof (cases "table kv (pa_Key a)")
    case None
    then show ?thesis
      using False nokey by (simp add: KVServer_Put_def kv_abs_def current_version_def)
  next
    case (Some e)
    then show ?thesis
      using False version by (simp add: KVServer_Put_def kv_abs_def current_version_def)
  qed
qed

text \<open>
  After the call's own \<open>Put\<close> has been executed, the version has moved on and every later attempt
  of the call is refused, as long as the versions have not gone all the way round.
\<close>

lemma Clerk_Put_after_success:
  assumes "current_version (kv_abs kv) (pa_Key args) = pa_Version args + 1 + of_nat c"
    and "kv_abs kv (pa_Key args) \<noteq> None"
    and "c + interference script < 2 ^ 64 - 1"
    and "Clerk_Put_loop False args script kv = (kv', own, res)"
  shows "set own \<subseteq> {ErrVersion} \<and> res \<in> {None, Some ErrMaybe}"
  using assms
proof (induction script arbitrary: kv c own)
  case (Cons at script)
  let ?kv = "serve_puts kv (others at)" and ?k = "pa_Key args"
  let ?d = "c + successes ?k (kv_abs kv) (others at)"
  have d: "?d + interference script < 2 ^ 64 - 1"
    using Cons.prems(3) successes_le [of ?k "kv_abs kv" "others at"] by simp
  have cv: "current_version (kv_abs ?kv) ?k = pa_Version args + 1 + of_nat ?d"
    using Cons.prems(1) by (simp add: kv_simps current_version_puts)
  have some: "kv_abs ?kv ?k \<noteq> None"
    using Cons.prems(2) by (simp add: kv_simps spec_puts_dom del: not_None_eq)
  have "(of_nat (Suc ?d) :: Tversion) \<noteq> 0"
    using of_nat_word64_eq_0 [of "Suc ?d"] d by linarith
  then have "current_version (kv_abs ?kv) ?k \<noteq> pa_Version args"
    unfolding cv by (simp add: add.assoc)
  then have put: "KVServer_Put ?kv args = (?kv, \<lparr>pr_Err = ErrVersion\<rparr>)"
    using some by (cases rule: KVServer_Put_cases [of ?kv args]) auto
  show ?case
  proof (cases at)
    case (ReqLost as)
    then show ?thesis using Cons.IH [OF cv some d] Cons.prems(4) by (simp add: Let_def)
  next
    case (ReplyLost as)
    then obtain own' where "Clerk_Put_loop False args script ?kv = (kv', own', res)"
      and "own = ErrVersion # own'"
      using Cons.prems(4) put by (auto simp: Let_def split: prod.splits)
    then show ?thesis using Cons.IH [OF cv some d] by auto
  next
    case (Replied as)
    then show ?thesis using Cons.prems(4) put by (auto simp: Let_def put_result_def)
  qed
qed auto

lemma Clerk_Put_cases:
  assumes "interference script < 2 ^ 64 - 1"
    and "Clerk_Put_loop firstCall args script kv = (kv', own, res)"
  shows "count_list own OK \<le> 1 \<and>
    (res = Some OK \<longrightarrow> count_list own OK = 1) \<and>
    (res \<in> {Some ErrVersion, Some ErrNoKey} \<longrightarrow> OK \<notin> set own) \<and>
    (res = Some ErrVersion \<longrightarrow> firstCall) \<and>
    (res \<noteq> None \<longrightarrow> the res \<in> {OK, ErrVersion, ErrNoKey, ErrMaybe})"
  using assms
proof (induction script arbitrary: kv firstCall own)
  case (Cons at script)
  let ?kv = "serve_puts kv (others at)"
  have i: "interference script < 2 ^ 64 - 1" using Cons.prems(1) by simp
  show ?case
  proof (cases at)
    case (ReqLost as)
    then have "Clerk_Put_loop False args script ?kv = (kv', own, res)"
      using Cons.prems(2) by (simp add: Let_def)
    then show ?thesis using Cons.IH [OF i] by blast
  next
    case (ReplyLost as)
    let ?kv1 = "fst (KVServer_Put ?kv args)" and ?e = "pr_Err (snd (KVServer_Put ?kv args))"
    obtain own' where l: "Clerk_Put_loop False args script ?kv1 = (kv', own', res)"
      and own: "own = ?e # own'"
      using Cons.prems(2) ReplyLost by (auto simp: Let_def split: prod.splits)
    show ?thesis
    proof (cases rule: KVServer_Put_cases [of ?kv args])
      case stored
      then have "current_version (kv_abs ?kv1) (pa_Key args) = pa_Version args + 1 + of_nat 0"
        and "kv_abs ?kv1 (pa_Key args) \<noteq> None"
        by (simp_all add: current_version_def)
      from Clerk_Put_after_success [OF this _ l] i
      have "set own' \<subseteq> {ErrVersion}" "res \<in> {None, Some ErrMaybe}" by auto
      moreover from this(1) have "OK \<notin> set own'" by auto
      ultimately show ?thesis using own by (auto simp: count_list_0_iff)
    next
      case nokey
      then show ?thesis using Cons.IH [OF i l] own by (auto simp: count_list_0_iff)
    next
      case version
      then show ?thesis using Cons.IH [OF i l] own by (auto simp: count_list_0_iff)
    qed
  next
    case (Replied as)
    then show ?thesis
      using Cons.prems(2)
      by (cases rule: KVServer_Put_cases [of ?kv args])
        (auto simp: Let_def put_result_def split: prod.splits if_splits)
  qed
qed auto

text \<open>The call returns as soon as one reply is delivered.\<close>

lemma Clerk_Put_returns:
  "(\<exists>as. Replied as \<in> set script) \<Longrightarrow>
     snd (snd (Clerk_Put_loop firstCall args script kv)) \<noteq> None"
  by (induction script arbitrary: kv firstCall)
    (auto simp: Let_def split: attempt.splits prod.splits, metis snd_conv option.distinct(1))

lemma Clerk_Get_returns:
  "(\<exists>as. Replied as \<in> set script) \<Longrightarrow> snd (Clerk_Get_loop args script kv) \<noteq> None"
  by (induction script arbitrary: kv) (auto simp: Let_def split: attempt.splits)

text \<open>\<open>Get\<close> never changes the server and answers from a state between call and return.\<close>

lemma Clerk_Get_linear:
  assumes "Clerk_Get_loop args script kv = (kv', Some r)"
  shows "\<exists>pre post as. script = pre @ Replied as # post \<and>
    kv' = serve_puts kv (concat (map others pre) @ as) \<and> r = KVServer_Get kv' args"
  using assms
proof (induction script arbitrary: kv)
  case (Cons at script)
  show ?case
  proof (cases "\<exists>as. at = Replied as")
    case True
    then show ?thesis using Cons.prems by (force simp: Let_def intro: exI [of _ "[]"])
  next
    case False
    then have "Clerk_Get_loop args script (serve_puts kv (others at)) = (kv', Some r)"
      using Cons.prems by (cases at) (auto simp: Let_def)
    then obtain pre post as where "script = pre @ Replied as # post"
      "kv' = serve_puts (serve_puts kv (others at)) (concat (map others pre) @ as)"
      "r = KVServer_Get kv' args"
      using Cons.IH by blast
    then show ?thesis
      by (intro exI [of _ "at # pre"] exI [of _ post] exI [of _ as]) (simp add: serve_puts_def)
  qed
qed simp

section \<open>Properties\<close>

text \<open>
  C16 (at-most-once and what the error codes mean).  Whatever the network loses, and whatever other
  clients write in the meantime (fewer than \<open>2^64 - 1\<close> \<open>Put\<close>s, so that versions do not come
  round), one call of \<open>Clerk.Put\<close> is performed at the server at most once; it was performed
  exactly once when it returns \<open>OK\<close>, not at all when it returns \<open>ErrVersion\<close> or \<open>ErrNoKey\<close>;
  the only other answer is \<open>ErrMaybe\<close>; and the call returns when some reply gets through.
\<close>

theorem Clerk_Put_at_most_once:
  assumes "interference script < 2 ^ 64 - 1"
    and "Clerk_Put key value version script kv = (kv', own, res)"
  shows "count_list own OK \<le> 1 \<and>
    (res = Some OK \<longrightarrow> count_list own OK = 1) \<and>
    (res = Some ErrVersion \<or> res = Some ErrNoKey \<longrightarrow> count_list own OK = 0) \<and>
    ((\<exists>as. Replied as \<in> set script) \<longrightarrow>
       res \<in> {Some OK, Some ErrVersion, Some ErrNoKey, Some ErrMaybe})"
proof -
  note run = assms(2) [unfolded Clerk_Put_def]
  note cases = Clerk_Put_cases [OF assms(1) run]
  have "res \<noteq> None" if "\<exists>as. Replied as \<in> set script"
    using Clerk_Put_returns [OF that] run by (metis snd_conv)
  then have "(\<exists>as. Replied as \<in> set script) \<longrightarrow>
      res \<in> {Some OK, Some ErrVersion, Some ErrNoKey, Some ErrMaybe}"
    using cases by (cases res) auto
  moreover have "count_list own OK = 0" if "res = Some ErrVersion \<or> res = Some ErrNoKey"
    using cases that by (auto simp: count_list_0_iff)
  ultimately show ?thesis using cases by blast
qed

text \<open>
  Both histories behind \<open>ErrMaybe\<close>: the first request is executed and its reply lost, or the
  first request is lost and another client takes the version.
\<close>

lemma demo_maybe_done:
  "Clerk_Put ''k'' ''x'' 0 [ReplyLost [], Replied []] MakeKVServer =
     (\<lparr>table = [''k'' \<mapsto> \<lparr>e_value = ''x'', e_version = 1\<rparr>]\<rparr>, [OK, ErrVersion], Some ErrMaybe)"
  by (simp add: Clerk_Put_def serve_puts_def MakeKVServer_def KVServer_Put_def put_result_def)

lemma demo_maybe_not_done:
  "Clerk_Put ''k'' ''x'' 0
     [ReqLost [], Replied [\<lparr>pa_Key = ''k'', pa_Value = ''y'', pa_Version = 0\<rparr>]] MakeKVServer =
     (\<lparr>table = [''k'' \<mapsto> \<lparr>e_value = ''y'', e_version = 1\<rparr>]\<rparr>, [ErrVersion], Some ErrMaybe)"
  by (simp add: Clerk_Put_def serve_puts_def MakeKVServer_def KVServer_Put_def put_result_def)

theorem Clerk_Put_at_most_once_witness:
  "count_list [OK, ErrVersion] OK \<le> 1 \<and> Some ErrMaybe \<noteq> Some OK \<and>
   snd (snd (Clerk_Put ''k'' ''x'' 0 [ReplyLost [], Replied []] MakeKVServer)) = Some ErrMaybe"
  using Clerk_Put_at_most_once [OF _ demo_maybe_done] by (simp add: demo_maybe_done)

text \<open>
  Compare-and-set: a \<open>Put\<close> that names the version an earlier \<open>Get\<close> returned is accepted
  exactly when the entry is still the one that \<open>Get\<close> returned, and once a \<open>Put\<close> has been
  accepted every other \<open>Put\<close> of that version is refused, as long as fewer than \<open>2^64 - 1\<close>
  \<open>Put\<close>s run in between.
\<close>

theorem KVServer_compare_and_set:
  assumes "length as < 2 ^ 64 - 1"
  shows "(pr_Err (snd (KVServer_Put (serve_puts kv as) \<lparr>pa_Key = k, pa_Value = v,
            pa_Version = gr_Version (KVServer_Get kv \<lparr>ga_Key = k\<rparr>)\<rparr>)) = OK
          \<longleftrightarrow> table (serve_puts kv as) k = table kv k) \<and>
    (pr_Err (snd (KVServer_Put kv \<lparr>pa_Key = k, pa_Value = v, pa_Version = n\<rparr>)) = OK \<longrightarrow>
     pr_Err (snd (KVServer_Put
        (serve_puts (fst (KVServer_Put kv \<lparr>pa_Key = k, pa_Value = v, pa_Version = n\<rparr>)) as)
        \<lparr>pa_Key = k, pa_Value = w, pa_Version = n\<rparr>)) = ErrVersion)"
proof -
  have puts: "kvsrv.puts kv as = serve_puts kv as" for kv
    by (induction as arbitrary: kv) (simp_all add: serve_puts_def kv_put_def case_prod_beta)
  have inj: "kv_abs kv k = kv_abs kv' k \<longleftrightarrow> table kv k = table kv' k" for kv kv'
    by (cases "table kv k"; cases "table kv' k") (auto simp: kv_abs_def)
  have len: "length as < 2 ^ 64" using assms by simp
  show ?thesis
    using kvsrv.put_after_get [OF len, of kv k v]
      kvsrv.second_put_fails [OF _ _ _ assms, of kv "\<lparr>pa_Key = k, pa_Value = v, pa_Version = n\<rparr>"
        "\<lparr>pa_Key = k, pa_Value = w, pa_Version = n\<rparr>"]
    by (simp add: puts inj kv_put_def case_prod_beta)
qed

theorem KVServer_compare_and_set_witness:
  "pr_Err (snd (KVServer_Put (serve_puts MakeKVServer
      [\<lparr>pa_Key = ''k'', pa_Value = ''y'', pa_Version = 0\<rparr>])
      \<lparr>pa_Key = ''k'', pa_Value = ''x'', pa_Version = 0\<rparr>)) \<noteq> OK"
  using KVServer_compare_and_set
    [of "[\<lparr>pa_Key = ''k'', pa_Value = ''y'', pa_Version = 0\<rparr>]" MakeKVServer "''k''" "''x''" 0 "''z''"]
  by (simp add: serve_puts_def MakeKVServer_def KVServer_Put_def KVServer_Get_def)

end
