(* ===== verification/KvRaft.thy ===== *)
theory KvRaft
  imports Rsm KvClerk
begin

text \<open>
  The replicated key/value service of lab 4 (\<open>src/kvraft1/server.go\<close>, \<open>src/kvraft1/client.go\<close>):
  the state machine \<open>DoOp\<close>/\<open>Snapshot\<close>/\<open>Restore\<close> the servers replicate, the RPC handlers around
  \<open>Submit\<close>, and the clerk that cycles through the servers.  A request of another type makes
  \<open>DoOp\<close> answer \<open>nil\<close>; a reply of the wrong type makes a handler's type assertion fail, which
  is \<open>None\<close>.
\<close>

section \<open>The state machine\<close>

datatype kv_req = GetReq GetArgs | PutReq PutArgs | OtherReq
datatype kv_rep = GetRep GetReply | PutRep PutReply | NilRep

record KVRaftServer =
  kr_me :: int
  kr_dead :: int
  kr_table :: "string \<Rightarrow> entry option"

definition KVRaft_DoOp :: "KVRaftServer \<Rightarrow> kv_req \<Rightarrow> KVRaftServer \<times> kv_rep" where
  "KVRaft_DoOp kv req = (case req of
     GetReq r \<Rightarrow>
       (kv, GetRep (case kr_table kv (ga_Key r) of
          Some e \<Rightarrow> \<lparr>gr_Value = e_value e, gr_Version = e_version e, gr_Err = OK\<rparr>
        | None \<Rightarrow> zero_GetReply\<lparr>gr_Err := ErrNoKey\<rparr>))
   | PutReq r \<Rightarrow>
       (case kr_table kv (pa_Key r) of
          None \<Rightarrow>
            if pa_Version r \<noteq> 0 then (kv, PutRep \<lparr>pr_Err = ErrNoKey\<rparr>)
            else (kv\<lparr>kr_table := (kr_table kv)(pa_Key r \<mapsto>
                    \<lparr>e_value = pa_Value r, e_version = pa_Version r + 1\<rparr>)\<rparr>, PutRep \<lparr>pr_Err = OK\<rparr>)
        | Some e \<Rightarrow>
            if e_version e = pa_Version r
            then (kv\<lparr>kr_table := (kr_table kv)(pa_Key r \<mapsto>
                    \<lparr>e_value = pa_Value r, e_version = pa_Version r + 1\<rparr>)\<rparr>, PutRep \<lparr>pr_Err = OK\<rparr>)
            else (kv, PutRep \<lparr>pr_Err = ErrVersion\<rparr>))
   | OtherReq \<Rightarrow> (kv, NilRep))"

text \<open>A snapshot is the encoded table; \<open>Restore\<close> decodes it into an empty map.\<close>

type_synonym gob_table = "string \<Rightarrow> entry option"

definition KVRaft_Snapshot :: "KVRaftServer \<Rightarrow> gob_table list" where
  "KVRaft_Snapshot kv = [kr_table kv]"

definition decode_table :: "gob_table list \<Rightarrow> gob_table" where
  "decode_table data = (case data of [] \<Rightarrow> Map.empty | t # _ \<Rightarrow> Map.empty ++ t)"

definition KVRaft_Restore :: "gob_table list \<Rightarrow> KVRaftServer \<Rightarrow> KVRaftServer" where
  "KVRaft_Restore data kv = kv\<lparr>kr_table := decode_table data\<rparr>"

definition KVRaft_Kill :: "KVRaftServer \<Rightarrow> KVRaftServer" where
  "KVRaft_Kill kv = kv\<lparr>kr_dead := 1\<rparr>"

definition KVRaft_killed :: "KVRaftServer \<Rightarrow> bool" where
  "KVRaft_killed kv \<longleftrightarrow> kr_dead kv = 1"

definition StartKVRaft :: "int \<Rightarrow> ('r, gob_table) Persister \<Rightarrow> int \<Rightarrow> (kv_rep, KVRaftServer) RSM" where
  "StartKVRaft i ps mrs =
     MakeRSM KVRaft_Restore i ps mrs \<lparr>kr_me = i, kr_dead = 0, kr_table = Map.empty\<rparr>"

section \<open>RPC handlers\<close>

text \<open>What the handlers do with the result of \<open>Submit\<close>.\<close>

definition KVRaft_Get :: "kv_rep opReply \<Rightarrow> GetReply \<Rightarrow> GetReply option" where
  "KVRaft_Get submitted reply = (case submitted of (err, rep) \<Rightarrow>
     if err = ErrWrongLeader then Some (reply\<lparr>gr_Err := ErrWrongLeader\<rparr>)
     else case rep of Some (GetRep r) \<Rightarrow> Some r | _ \<Rightarrow> None)"

definition KVRaft_Put :: "kv_rep opReply \<Rightarrow> PutReply \<Rightarrow> PutReply option" where
  "KVRaft_Put submitted reply = (case submitted of (err, rep) \<Rightarrow>
     if err \<noteq> OK then Some (reply\<lparr>pr_Err := ErrWrongLeader\<rparr>)
     else case rep of Some (PutRep r) \<Rightarrow> Some r | _ \<Rightarrow> None)"

section \<open>The contracts\<close>

definition kr_abs :: "KVRaftServer \<Rightarrow> store" where
  "kr_abs kv k = map_option (\<lambda>e. (e_value e, e_version e)) (kr_table kv k)"

definition kr_get :: "KVRaftServer \<Rightarrow> string \<Rightarrow> GetReply" where
  "kr_get kv k = (case snd (KVRaft_DoOp kv (GetReq \<lparr>ga_Key = k\<rparr>)) of GetRep r \<Rightarrow> r | _ \<Rightarrow> zero_GetReply)"

definition kr_put :: "KVRaftServer \<Rightarrow> PutArgs \<Rightarrow> KVRaftServer \<times> Err" where
  "kr_put kv a = (case KVRaft_DoOp kv (PutReq a) of
     (kv', PutRep r) \<Rightarrow> (kv', pr_Err r) | (kv', _) \<Rightarrow> (kv', ErrUnset))"

lemma KVRaft_DoOp_Get [kv_simps]:
  "KVRaft_DoOp kv (GetReq r) = (kv, GetRep (spec_get (kr_abs kv) (ga_Key r)))"
  by (auto simp: KVRaft_DoOp_def spec_get_def kr_abs_def zero_GetReply_def split: option.splits)

lemma KVRaft_DoOp_Put [kv_simps]:
  "kr_abs (fst (KVRaft_DoOp kv (PutReq a))) = fst (spec_put (kr_abs kv) a)"
  "snd (KVRaft_DoOp kv (PutReq a)) = PutRep \<lparr>pr_Err = snd (spec_put (kr_abs kv) a)\<rparr>"
  by (auto simp: KVRaft_DoOp_def spec_put_def kr_abs_def current_version_def fun_eq_iff
      split: option.splits)

interpretation kvraft: cas_store kr_abs kr_get kr_put
proof unfold_locales
  show "kr_get s k = spec_get (kr_abs s) k" for s k by (simp add: kr_get_def kv_simps)
  show "kr_abs (fst (kr_put s a)) = fst (spec_put (kr_abs s) a)" for s a
    using KVRaft_DoOp_Put [of s a]
    by (cases "KVRaft_DoOp s (PutReq a)") (simp add: kr_put_def)
  show "snd (kr_put s a) = snd (spec_put (kr_abs s) a)" for s a
    using KVRaft_DoOp_Put [of s a]
    by (cases "KVRaft_DoOp s (PutReq a)") (simp add: kr_put_def)
qed

interpretation kvraft: state_machine KVRaft_DoOp KVRaft_Snapshot KVRaft_Restore kr_table
proof unfold_locales
  show "kr_table (fst (KVRaft_DoOp s r)) = kr_table (fst (KVRaft_DoOp t r)) \<and>
      snd (KVRaft_DoOp s r) = snd (KVRaft_DoOp t r)" if "kr_table s = kr_table t" for s t r
    using that by (auto simp: KVRaft_DoOp_def split: kv_req.splits option.splits)
  show "kr_table (KVRaft_Restore (KVRaft_Snapshot s) t) = kr_table s" for s t
    by (simp add: KVRaft_Restore_def KVRaft_Snapshot_def decode_table_def)
qed

section \<open>The clerk\<close>

record KVRaftClerk =
  kc_servers :: "string list"
  kc_leader :: int

definition KVRaft_MakeClerk :: "string list \<Rightarrow> KVRaftClerk" where
  "KVRaft_MakeClerk servers = \<lparr>kc_servers = servers, kc_leader = 0\<rparr>"

text \<open>
  One attempt: the operation is sent to \<open>servers[leader]\<close> (out of range panics); it may be
  executed without the clerk learning of it (no reply, or \<open>ErrWrongLeader\<close> from a server that
  lost its leadership while the entry survived), which is \<open>ReplyLost\<close>.
\<close>

definition next_leader :: "KVRaftClerk \<Rightarrow> KVRaftClerk" where
  "next_leader ck = ck\<lparr>kc_leader := (kc_leader ck + 1) mod int (length (kc_servers ck))\<rparr>"

definition serve_kr :: "KVRaftServer \<Rightarrow> PutArgs list \<Rightarrow> KVRaftServer" where
  "serve_kr kv as = fold (\<lambda>a kv. fst (KVRaft_DoOp kv (PutReq a))) as kv"

fun KVRaftClerk_Put ::
  "bool \<Rightarrow> PutArgs \<Rightarrow> attempt list \<Rightarrow> KVRaftClerk \<Rightarrow> KVRaftServer \<Rightarrow>
   (KVRaftClerk \<times> KVRaftServer \<times> Err list \<times> Err option) option" where
  "KVRaftClerk_Put firstCall args [] ck kv = Some (ck, kv, [], None)"
| "KVRaftClerk_Put firstCall args (at # script) ck kv =
     do {
       srv \<leftarrow> go_get (kc_servers ck) (kc_leader ck);
       let kv = serve_kr kv (others at);
       case at of
         ReqLost _ \<Rightarrow> KVRaftClerk_Put False args script (next_leader ck) kv
       | ReplyLost _ \<Rightarrow> do {
           let (kv, err) = kr_put kv args;
           (ck, kv, own, res) \<leftarrow> KVRaftClerk_Put False args script (next_leader ck) kv;
           Some (ck, kv, err # own, res)
         }
       | Replied _ \<Rightarrow>
           (let (kv, err) = kr_put kv args
            in Some (ck, kv, [err], Some (put_result firstCall err)))
     }"

fun KVRaftClerk_Get ::
  "string \<Rightarrow> attempt list \<Rightarrow> KVRaftClerk \<Rightarrow> KVRaftServer \<Rightarrow>
   (KVRaftClerk \<times> KVRaftServer \<times> GetReply option) option" where
  "KVRaftClerk_Get key [] ck kv = Some (ck, kv, None)"
| "KVRaftClerk_Get key (at # script) ck kv =
     do {
       srv \<leftarrow> go_get (kc_servers ck) (kc_leader ck);
       let kv = serve_kr kv (others at);
       case at of
         Replied _ \<Rightarrow> Some (ck, kv, Some (kr_get kv key))
       | _ \<Rightarrow> KVRaftClerk_Get key script (next_leader ck) kv
     }"

lemma next_leader_ok:
  assumes "0 < length (kc_servers ck)"
  shows "kc_servers (next_leader ck) = kc_servers ck"
    "0 \<le> kc_leader (next_leader ck)" "kc_leader (next_leader ck) < int (length (kc_servers ck))"
  using assms by (auto simp: next_leader_def)

lemma kr_abs_serve [kv_simps]: "kr_abs (serve_kr kv as) = spec_puts (kr_abs kv) as"
  by (induction as arbitrary: kv) (simp_all add: serve_kr_def kv_simps)

text \<open>
  Seen from the client, the replicated service behaves like the single server: the clerk, whatever
  leaders it tries, returns what the lab 2 clerk returns against the same script.
\<close>

lemma KVRaftClerk_Put_refines:
  assumes "kr_abs kr = kv_abs kv" "0 \<le> kc_leader ck" "kc_leader ck < int (length (kc_servers ck))"
  shows "\<exists>ck' kr' kv' own res.
    KVRaftClerk_Put first args script ck kr = Some (ck', kr', own, res) \<and>
    Clerk_Put_loop first args script kv = (kv', own, res) \<and> kr_abs kr' = kv_abs kv'"
  using assms
proof (induction script arbitrary: first ck kr kv)
  case (Cons at script)
  let ?kr = "serve_kr kr (others at)" and ?kv = "serve_puts kv (others at)"
  have abs: "kr_abs ?kr = kv_abs ?kv" using Cons.prems(1) by (simp add: kv_simps)
  have get: "go_get (kc_servers ck) (kc_leader ck) = Some (kc_servers ck ! nat (kc_leader ck))"
    using Cons.prems by (simp add: go_get_Some)
  have next_ok: "0 \<le> kc_leader (next_leader ck)"
    "kc_leader (next_leader ck) < int (length (kc_servers (next_leader ck)))"
    using next_leader_ok [of ck] Cons.prems by fastforce+
  obtain kr1 e where k1: "kr_put ?kr args = (kr1, e)" by (metis surj_pair)
  obtain kv1 r where k2: "KVServer_Put ?kv args = (kv1, r)" by (metis surj_pair)
  have e: "e = pr_Err r" and abs1: "kr_abs kr1 = kv_abs kv1"
    using kvraft.put_err [of ?kr args] kvraft.put_tab [of ?kr args] KVServer_Put_abs [of ?kv args]
      k1 k2 abs by simp_all
  show ?case
  proof (cases at)
    case (ReqLost as)
    then show ?thesis using Cons.IH [OF abs next_ok] get by (simp add: Let_def)
  next
    case (ReplyLost as)
    then show ?thesis
      using Cons.IH [OF abs1 next_ok, of False] get k1 k2 e by (auto simp: Let_def)
  next
    case (Replied as)
    then show ?thesis using get k1 k2 e abs1 by (simp add: Let_def)
  qed
qed simp

section \<open>Properties\<close>

text \<open>
  C17 (the replicated store refines the single server).  \<open>DoOp\<close> on a replica and the lab 2 server
  answer every \<open>Get\<close> and every \<open>Put\<close> alike and stay in step, so every sequence of requests is
  answered the same by both.
\<close>

theorem KVRaft_DoOp_refines_KVServer:
  assumes "kr_abs kr = kv_abs kv"
  shows "snd (KVRaft_DoOp kr (GetReq g)) = GetRep (KVServer_Get kv g) \<and>
    fst (KVRaft_DoOp kr (GetReq g)) = kr \<and>
    snd (KVRaft_DoOp kr (PutReq p)) = PutRep (snd (KVServer_Put kv p)) \<and>
    kr_abs (fst (KVRaft_DoOp kr (PutReq p))) = kv_abs (fst (KVServer_Put kv p))"
  using assms by (simp add: kv_simps)

theorem KVRaft_DoOp_refines_KVServer_witness:
  "snd (KVRaft_DoOp \<lparr>kr_me = 0, kr_dead = 0, kr_table = Map.empty\<rparr> (GetReq \<lparr>ga_Key = ''k''\<rparr>)) =
     GetRep (KVServer_Get MakeKVServer \<lparr>ga_Key = ''k''\<rparr>)"
  using KVRaft_DoOp_refines_KVServer
    [of "\<lparr>kr_me = 0, kr_dead = 0, kr_table = Map.empty\<rparr>" MakeKVServer]
  by (simp add: kr_abs_def fun_eq_iff)

text \<open>
  The clerk of the replicated service.  With at least one server the clerk never indexes its
  server list out of range, whatever happens to its calls; a \<open>Put\<close> is executed at most once,
  exactly once when it returns \<open>OK\<close>, not at all when it returns \<open>ErrVersion\<close>.
\<close>

theorem KVRaftClerk_Put_at_most_once:
  assumes "servers \<noteq> []" "interference script < 2 ^ 64 - 1"
  shows "\<exists>ck' kr' own res.
    KVRaftClerk_Put True args script (KVRaft_MakeClerk servers) kr = Some (ck', kr', own, res) \<and>
    count_list own OK \<le> 1 \<and> (res = Some OK \<longrightarrow> count_list own OK = 1) \<and>
    (res = Some ErrVersion \<longrightarrow> count_list own OK = 0)"
proof -
  let ?kv = "\<lparr>table = kr_table kr\<rparr>"
  have "kr_abs kr = kv_abs ?kv" by (simp add: kr_abs_def kv_abs_def fun_eq_iff)
  then obtain ck' kr' kv' own res where
    "KVRaftClerk_Put True args script (KVRaft_MakeClerk servers) kr = Some (ck', kr', own, res)"
    and l: "Clerk_Put_loop True args script ?kv = (kv', own, res)"
    using KVRaftClerk_Put_refines [of kr ?kv "KVRaft_MakeClerk servers" True args script] assms(1)
    by (auto simp: KVRaft_MakeClerk_def)
  then show ?thesis
    using Clerk_Put_cases [OF assms(2) l] by (auto simp: count_list_0_iff)
qed

theorem KVRaftClerk_Put_at_most_once_witness:
  "\<exists>ck' kr' own res. KVRaftClerk_Put True \<lparr>pa_Key = ''k'', pa_Value = ''x'', pa_Version = 0\<rparr>
     [ReplyLost [], Replied []] (KVRaft_MakeClerk [''s0'', ''s1''])
     \<lparr>kr_me = 0, kr_dead = 0, kr_table = Map.empty\<rparr> = Some (ck', kr', own, res) \<and>
   count_list own OK \<le> 1"
  using KVRaftClerk_Put_at_most_once [of "[''s0'', ''s1'']" "[ReplyLost [], Replied []]"
      "\<lparr>pa_Key = ''k'', pa_Value = ''x'', pa_Version = 0\<rparr>"
      "\<lparr>kr_me = 0, kr_dead = 0, kr_table = Map.empty\<rparr>"]
  by fastforce

text \<open>
  Replicas agree.  Two servers that read streams of committed commands and snapshots drawn
  from the same log and have reached the same position hold the same table, whatever each of them
  received as commands and what as snapshots, and however their clients come and go.
\<close>

theorem KVRaft_replicas_agree:
  assumes "kvraft.stream s0 ops 0 ms e" "kvraft.reads r ms r'" "kr_table (sm r) = kr_table s0"
    and "kvraft.stream s0 ops 0 ns e" "kvraft.reads q ns q'" "kr_table (sm q) = kr_table s0"
  shows "kr_table (sm r') = kr_table (sm q')"
  using kvraft.replica_follows_log [OF assms(1,2)] kvraft.replica_follows_log [OF assms(4,5)]
    assms(3,6) by simp

definition demo_op :: "kv_req Op" where
  "demo_op = \<lparr>op_Me = 0, op_Req = PutReq \<lparr>pa_Key = ''k'', pa_Value = ''x'', pa_Version = 0\<rparr>\<rparr>"

definition demo_kr :: KVRaftServer where
  "demo_kr = \<lparr>kr_me = 0, kr_dead = 0, kr_table = Map.empty\<rparr>"

definition demo_after :: KVRaftServer where
  "demo_after = demo_kr\<lparr>kr_table := [''k'' \<mapsto> \<lparr>e_value = ''x'', e_version = 1\<rparr>]\<rparr>"

definition demo_snapshot_msg :: "(kv_req Op, gob_table) ApplyMsg" where
  "demo_snapshot_msg = \<lparr>am_CommandValid = False, am_Command = None, am_CommandIndex = 0,
     am_SnapshotValid = True, am_Snapshot = KVRaft_Snapshot demo_after, am_SnapshotTerm = 1,
     am_SnapshotIndex = 1\<rparr>"

definition demo_replica :: "int \<Rightarrow> (kv_rep, KVRaftServer) RSM" where
  "demo_replica i = StartKVRaft i (MakePersister :: (nat, gob_table) Persister) (-1)"

lemma demo_run: "fst (KVRaft_DoOp demo_kr (op_Req demo_op)) = demo_after"
  by (simp add: demo_kr_def demo_after_def demo_op_def KVRaft_DoOp_def)

lemma demo_streams:
  "kvraft.stream demo_kr [demo_op] 0 [command_msg 1 (Some demo_op)] 1"
  "kvraft.stream demo_kr [demo_op] 0 [demo_snapshot_msg] 1"
proof -
  have e: "kvraft.stream demo_kr [demo_op] 1 [] 1" by (rule kvraft.stream.finished) simp
  show "kvraft.stream demo_kr [demo_op] 0 [command_msg 1 (Some demo_op)] 1"
    by (rule kvraft.stream.command) (use e in \<open>simp_all add: command_msg_def\<close>)
  show "kvraft.stream demo_kr [demo_op] 0 [demo_snapshot_msg] 1"
    by (rule kvraft.stream.snapshot [where j = 1 and t = demo_after])
      (use e in \<open>simp_all add: demo_snapshot_msg_def demo_run\<close>)
qed

theorem KVRaft_replicas_agree_witness:
  "\<exists>r' q'. kvraft.reads (demo_replica 0) [command_msg 1 (Some demo_op)] r' \<and>
     kvraft.reads (demo_replica 1) [demo_snapshot_msg] q' \<and> kr_table (sm r') = kr_table (sm q')"
proof -
  have sm0: "sm (demo_replica i) = \<lparr>kr_me = i, kr_dead = 0, kr_table = Map.empty\<rparr>" for i
    by (simp add: demo_replica_def StartKVRaft_def MakeRSM_def Let_def)
  have "\<exists>r' snap. reader_apply KVRaft_DoOp KVRaft_Snapshot KVRaft_Restore 0
      (command_msg 1 (Some demo_op)) (demo_replica 0) = Some (r', snap)"
    by (simp add: reader_apply_def command_msg_def reply_waiting_def demo_replica_def
        StartKVRaft_def MakeRSM_def Let_def)
  then obtain r' where r': "kvraft.reads (demo_replica 0) [command_msg 1 (Some demo_op)] r'"
    using kvraft.reads.msg [OF _ refl kvraft.reads.none] by blast
  have "\<exists>q' snap. reader_apply KVRaft_DoOp KVRaft_Snapshot KVRaft_Restore 0
      demo_snapshot_msg (demo_replica 1) = Some (q', snap)"
    by (simp add: reader_apply_def demo_snapshot_msg_def)
  then obtain q' where q': "kvraft.reads (demo_replica 1) [demo_snapshot_msg] q'"
    using kvraft.reads.msg [OF _ refl kvraft.reads.none] by blast
  have "kr_table (sm r') = kr_table (sm q')"
    by (rule KVRaft_replicas_agree [OF demo_streams(1) r' _ demo_streams(2) q'])
      (simp_all add: sm0 demo_kr_def)
  then show ?thesis using r' q' by blast
qed

end
