(* ===== verification/ShardCfg.thy ===== *)
theory ShardCfg
  imports GoPrelude "HOL-Library.Finite_Map"
begin

text \<open>
  The shard configurations of lab 5 (\<open>src/shardkv1/shardcfg/shardcfg.go\<close>): the key hash, the
  assignment of shards to groups, \<open>Join\<close>, \<open>Leave\<close> and the balancing loop.  The array \<open>Shards\<close>
  is a list (the invariant fixes its length to \<open>NShards\<close>), the map \<open>Groups\<close> a finite map.  Where
  \<open>Join\<close> ranges over a Go map, the order of the iteration is the order of a list argument.
  \<open>log.Fatalf\<close> is \<open>None\<close>.
\<close>

section \<open>Data\<close>

definition NShards :: int where
  "NShards = 12"

definition NumFirst :: int where
  "NumFirst = 1"

definition Key2Shard :: "string \<Rightarrow> int" where
  "Key2Shard key = uint (fnv32a key) mod NShards"

record ShardConfig =
  Num :: int
  Shards :: "int list"
  Groups :: "(int, string list) fmap"

definition MakeShardConfig :: ShardConfig where
  "MakeShardConfig = \<lparr>Num = 0, Shards = replicate (nat NShards) 0, Groups = fmempty\<rparr>"

definition Copy :: "ShardConfig \<Rightarrow> ShardConfig" where
  "Copy cfg =
     (let c = MakeShardConfig\<lparr>Num := Num cfg, Shards := Shards cfg\<rparr>
      in c\<lparr>Groups := fold (\<lambda>k m. fmupd k (the (fmlookup (Groups cfg) k)) m)
             (sorted_list_of_fset (fmdom (Groups cfg))) (Groups c)\<rparr>)"

section \<open>Balancing\<close>

definition counts :: "int list \<Rightarrow> int \<Rightarrow> int" where
  "counts shards g = int (count_list shards g)"

text \<open>One step of the loop over the sorted groups; the accumulator is \<open>(mg, mn, lg, ln)\<close>.\<close>

definition analyze_step :: "int list \<Rightarrow> int \<Rightarrow> int \<times> int \<times> int \<times> int \<Rightarrow> int \<times> int \<times> int \<times> int" where
  "analyze_step shards g acc = (case acc of (mg, mn, lg, ln) \<Rightarrow>
     (let (ln, lg) = (if counts shards g < ln then (counts shards g, g) else (ln, lg));
          (mn, mg) = (if counts shards g > mn then (counts shards g, g) else (mn, mg))
      in (mg, mn, lg, ln)))"

definition analyze :: "ShardConfig \<Rightarrow> int \<times> int \<times> int \<times> int" where
  "analyze c = fold (analyze_step (Shards c)) (sorted_list_of_fset (fmdom (Groups c)))
     (-1, -1, -1, 257)"

definition least :: "ShardConfig \<Rightarrow> int" where
  "least c = (case analyze c of (_, _, lg, _) \<Rightarrow> lg)"

text \<open>The loop that gives every shard of a vanished group to the least loaded group.\<close>

fun assign_loop :: "nat list \<Rightarrow> ShardConfig \<Rightarrow> ShardConfig" where
  "assign_loop [] c = c"
| "assign_loop (s # ss) c =
     (case fmlookup (Groups c) (Shards c ! s) of
        None \<Rightarrow> assign_loop ss (c\<lparr>Shards := (Shards c)[s := least c]\<rparr>)
      | Some _ \<Rightarrow> assign_loop ss c)"

text \<open>The inner loop that moves the first shard of \<open>mg\<close> to \<open>lg\<close>.\<close>

fun move_one :: "int \<Rightarrow> int \<Rightarrow> int list \<Rightarrow> int list" where
  "move_one mg lg [] = []"
| "move_one mg lg (g # gs) = (if g = mg then lg # gs else g # move_one mg lg gs)"

lemma count_move_one:
  "mg \<noteq> lg \<Longrightarrow> mg \<in> set gs \<Longrightarrow> count_list (move_one mg lg gs) g =
     (if g = mg then count_list gs g - 1 else if g = lg then count_list gs g + 1
      else count_list gs g)"
  by (induction gs) (auto simp: Suc_diff_le count_list_0_iff neq0_conv [symmetric]
      simp del: neq0_conv)

lemma length_move_one [simp]: "length (move_one mg lg gs) = length gs"
  by (induction gs) auto

lemma set_move_one: "set (move_one mg lg gs) \<subseteq> insert lg (set gs)"
  by (induction gs) auto

text \<open>What the loop of \<open>analyze\<close> computes: a most and a least loaded group.\<close>

lemma analyze_fold:
  assumes "fold (analyze_step shards) gs (mg0, mn0, lg0, ln0) = (mg, mn, lg, ln)"
  shows "mn0 \<le> mn \<and> ln \<le> ln0 \<and> (\<forall>g\<in>set gs. counts shards g \<le> mn \<and> ln \<le> counts shards g) \<and>
    ((mg, mn) = (mg0, mn0) \<or> mg \<in> set gs \<and> mn = counts shards mg) \<and>
    ((lg, ln) = (lg0, ln0) \<or> lg \<in> set gs \<and> ln = counts shards lg)"
  using assms
proof (induction gs arbitrary: mg0 mn0 lg0 ln0)
  case (Cons g gs)
  obtain mg1 mn1 lg1 ln1 where s: "analyze_step shards g (mg0, mn0, lg0, ln0) = (mg1, mn1, lg1, ln1)"
    by (metis prod_cases4)
  then have "mn0 \<le> mn1 \<and> ln1 \<le> ln0 \<and> counts shards g \<le> mn1 \<and> ln1 \<le> counts shards g \<and>
     ((mg1, mn1) = (mg0, mn0) \<or> mg1 = g \<and> mn1 = counts shards g) \<and>
     ((lg1, ln1) = (lg0, ln0) \<or> lg1 = g \<and> ln1 = counts shards g)"
    by (auto simp: analyze_step_def Let_def split: if_splits)
  then show ?case using Cons.IH [of mg1 mn1 lg1 ln1] Cons.prems s by auto
qed simp

abbreviation group_ids :: "ShardConfig \<Rightarrow> int set" where
  "group_ids c \<equiv> fset (fmdom (Groups c))"

lemma analyze_facts:
  assumes "analyze c = (mg, mn, lg, ln)"
  shows "\<And>g. g \<in> group_ids c \<Longrightarrow> counts (Shards c) g \<le> mn \<and> ln \<le> counts (Shards c) g"
    and "mn = -1 \<or> mg \<in> group_ids c \<and> mn = counts (Shards c) mg"
    and "ln = 257 \<or> lg \<in> group_ids c \<and> ln = counts (Shards c) lg"
    and "-1 \<le> mn" "ln \<le> 257" "0 \<le> ln"
proof -
  note f = analyze_fold [OF assms [unfolded analyze_def]]
  show "\<And>g. g \<in> group_ids c \<Longrightarrow> counts (Shards c) g \<le> mn \<and> ln \<le> counts (Shards c) g"
    and "mn = -1 \<or> mg \<in> group_ids c \<and> mn = counts (Shards c) mg"
    and l: "ln = 257 \<or> lg \<in> group_ids c \<and> ln = counts (Shards c) lg"
    and "-1 \<le> mn" "ln \<le> 257"
    using f by auto
  show "0 \<le> ln" using l by (auto simp: counts_def)
qed

text \<open>
  The balancing loop.  It can only be seen to end for arrays of at most 256 shards, the bound
  \<open>257\<close> of \<open>analyze\<close> being its idea of infinity, so it is a partial function.
\<close>

partial_function (option) rebalance_loop :: "ShardConfig \<Rightarrow> ShardConfig option" where
  "rebalance_loop c =
     (case analyze c of (mg, mn, lg, ln) \<Rightarrow>
       if mn < ln + 2 then Some c
       else rebalance_loop (c\<lparr>Shards := move_one mg lg (Shards c)\<rparr>))"

declare rebalance_loop.simps [code]

definition Rebalance :: "ShardConfig \<Rightarrow> ShardConfig option" where
  "Rebalance c =
     (if fmdom (Groups c) = {||} then Some (c\<lparr>Shards := map (\<lambda>_. 0) (Shards c)\<rparr>)
      else rebalance_loop (assign_loop [0..<length (Shards c)] c))"

text \<open>A move makes the sum of the squared loads smaller.\<close>

definition imbalance :: "ShardConfig \<Rightarrow> nat" where
  "imbalance c = (\<Sum>g \<in> group_ids c. count_list (Shards c) g ^ 2)"

lemma square_move: "b + 2 \<le> (a::nat) \<Longrightarrow> (a - 1)\<^sup>2 + (b + 1)\<^sup>2 < a\<^sup>2 + b\<^sup>2"
proof -
  assume "b + 2 \<le> a"
  then obtain d where "a = b + 2 + d" using le_Suc_ex by blast
  then show ?thesis by (simp add: power2_eq_square algebra_simps)
qed

lemma analyze_bounded:
  assumes "analyze c = (mg, mn, lg, ln)" and "length (Shards c) \<le> 256"
    and "group_ids c \<noteq> {}"
  shows "mg \<in> group_ids c" "mn = counts (Shards c) mg"
    "lg \<in> group_ids c" "ln = counts (Shards c) lg"
proof -
  note a = analyze_facts [OF assms(1)]
  obtain g where g: "g \<in> group_ids c" using assms(3) by blast
  have "counts (Shards c) g \<le> 256"
    using count_le_length [of "Shards c" g] assms(2) by (simp add: counts_def)
  moreover have "0 \<le> counts (Shards c) g" by (simp add: counts_def)
  ultimately have "mn \<noteq> -1" "ln \<noteq> 257" using a(1) [OF g] by auto
  then show "mg \<in> group_ids c" "mn = counts (Shards c) mg"
    "lg \<in> group_ids c" "ln = counts (Shards c) lg"
    using a(2,3) by auto
qed

lemma imbalance_move:
  assumes "analyze c = (mg, mn, lg, ln)" and "\<not> mn < ln + 2"
    and "length (Shards c) \<le> 256" and "group_ids c \<noteq> {}"
  shows "imbalance (c\<lparr>Shards := move_one mg lg (Shards c)\<rparr>) < imbalance c"
proof -
  note a = analyze_facts [OF assms(1)] and b = analyze_bounded [OF assms(1,3,4)]
  let ?G = "group_ids c" and ?n = "count_list (Shards c)"
    and ?n' = "count_list (move_one mg lg (Shards c))"
  have le: "?n lg + 2 \<le> ?n mg" "mg \<noteq> lg"
    using b(2,4) assms(2) by (auto simp: counts_def)
  have mem: "mg \<in> set (Shards c)"
    using le(1) count_list_0_iff [of "Shards c" mg] by (cases "?n mg") auto
  note n' = count_move_one [OF le(2) mem]
  have split: "(\<Sum>g\<in>?G. f g) = f mg + (f lg + (\<Sum>g\<in>?G - {mg} - {lg}. f g))" for f :: "int \<Rightarrow> nat"
    using b(1,3) le(2) by (simp add: sum.remove [of ?G mg] sum.remove [of "?G - {mg}" lg])
  have "(\<Sum>g\<in>?G - {mg} - {lg}. (?n' g)\<^sup>2) = (\<Sum>g\<in>?G - {mg} - {lg}. (?n g)\<^sup>2)"
    by (rule sum.cong) (auto simp: n')
  then show ?thesis
    using square_move [OF le(1)] le(2) by (simp add: imbalance_def split n')
qed

text \<open>What the configuration looks like when the loop ends.\<close>

definition assigned :: "ShardConfig \<Rightarrow> bool" where
  "assigned c \<longleftrightarrow> (\<forall>g\<in>set (Shards c). g \<in> group_ids c)"

definition balanced :: "ShardConfig \<Rightarrow> bool" where
  "balanced c \<longleftrightarrow>
     (\<forall>g\<in>group_ids c. \<forall>h\<in>group_ids c. counts (Shards c) g \<le> counts (Shards c) h + 1)"

lemma rebalance_loop_ends:
  assumes "length (Shards c) \<le> 256" "group_ids c \<noteq> {}" "assigned c"
  shows "\<exists>c'. rebalance_loop c = Some c' \<and> balanced c' \<and> assigned c' \<and>
    Num c' = Num c \<and> Groups c' = Groups c \<and> length (Shards c') = length (Shards c)"
  using assms
proof (induction "imbalance c" arbitrary: c rule: less_induct)
  case less
  obtain mg mn lg ln where a: "analyze c = (mg, mn, lg, ln)" by (metis prod_cases4)
  show ?case
  proof (cases "mn < ln + 2")
    case True
    have "counts (Shards c) g \<le> counts (Shards c) h + 1"
      if "g \<in> group_ids c" "h \<in> group_ids c" for g h
      using analyze_facts(1) [OF a that(1)] analyze_facts(1) [OF a that(2)] True by linarith
    then have "balanced c" by (auto simp: balanced_def)
    then show ?thesis using True less.prems(3) by (simp add: rebalance_loop.simps a)
  next
    case False
    let ?c = "c\<lparr>Shards := move_one mg lg (Shards c)\<rparr>"
    have lg: "lg \<in> group_ids c" by (rule analyze_bounded(3) [OF a less.prems(1,2)])
    have "assigned ?c"
      using less.prems(3) lg set_move_one [of mg lg "Shards c"] by (auto simp: assigned_def)
    then have "\<exists>c'. rebalance_loop ?c = Some c' \<and> balanced c' \<and> assigned c' \<and>
        Num c' = Num ?c \<and> Groups c' = Groups ?c \<and> length (Shards c') = length (Shards ?c)"
      using less.hyps [OF imbalance_move [OF a False less.prems(1,2)]] less.prems by simp
    then show ?thesis using False by (simp add: rebalance_loop.simps [of c] a)
  qed
qed

lemma assign_loop_frame [simp]:
  "Num (assign_loop ss c) = Num c" "Groups (assign_loop ss c) = Groups c"
  "length (Shards (assign_loop ss c)) = length (Shards c)"
  by (induction ss c rule: assign_loop.induct) (auto split: option.splits)

lemma fmlookup_eq_None_iff: "fmlookup m k = None \<longleftrightarrow> k \<notin> fset (fmdom m)"
  by (meson fmdomE fmdomI fmdom_notD fmdom_notI)

lemma assign_loop_assigns:
  assumes "length (Shards c) \<le> 256" "group_ids c \<noteq> {}" "set ss \<subseteq> {..<length (Shards c)}"
    and "distinct ss"
  shows "\<forall>s < length (Shards c). if s \<in> set ss then Shards (assign_loop ss c) ! s \<in> group_ids c
    else Shards (assign_loop ss c) ! s = Shards c ! s"
  using assms
proof (induction ss arbitrary: c)
  case (Cons s ss)
  show ?case
  proof (cases "fmlookup (Groups c) (Shards c ! s)")
    case None
    let ?c = "c\<lparr>Shards := (Shards c)[s := least c]\<rparr>"
    obtain mg mn lg ln where a: "analyze c = (mg, mn, lg, ln)" by (metis prod_cases4)
    then have "least c \<in> group_ids c"
      using analyze_bounded(3) [OF a Cons.prems(1,2)] by (simp add: least_def)
    moreover have "\<forall>t < length (Shards ?c). if t \<in> set ss
        then Shards (assign_loop ss ?c) ! t \<in> group_ids ?c
        else Shards (assign_loop ss ?c) ! t = Shards ?c ! t"
      using Cons.prems by (intro Cons.IH) auto
    ultimately show ?thesis
      using None Cons.prems(3,4) by (auto simp: nth_list_update)
  next
    case (Some g)
    then have "Shards c ! s \<in> group_ids c" by (metis fmdomI)
    then show ?thesis using Some Cons.IH [of c] Cons.prems by auto
  qed
qed simp

lemma no_groups_iff: "group_ids c = {} \<longleftrightarrow> fmdom (Groups c) = {||}"
  by (metis bot_fset.rep_eq fset_inject)

lemma Rebalance_ok:
  assumes "length (Shards c) = nat NShards"
  obtains c' where "Rebalance c = Some c'" "Num c' = Num c" "Groups c' = Groups c"
    "length (Shards c') = nat NShards" "balanced c'"
    "if group_ids c = {} then \<forall>g\<in>set (Shards c'). g = 0 else assigned c'"
proof (cases "group_ids c = {}")
  case True
  then show thesis
    using that [of "c\<lparr>Shards := map (\<lambda>_. 0) (Shards c)\<rparr>"] assms
    by (auto simp: Rebalance_def balanced_def no_groups_iff)
next
  case False
  let ?c = "assign_loop [0..<length (Shards c)] c"
  have len: "length (Shards c) \<le> 256" using assms by (simp add: NShards_def)
  have "assigned ?c"
    using assign_loop_assigns [OF len False, of "[0..<length (Shards c)]"]
    by (auto simp: assigned_def in_set_conv_nth lessThan_atLeast0)
  then obtain c' where "rebalance_loop ?c = Some c'" "balanced c'" "assigned c'" "Num c' = Num ?c"
    "Groups c' = Groups ?c" "length (Shards c') = length (Shards ?c)"
    using rebalance_loop_ends [of ?c] len False by auto
  then show thesis using that [of c'] False assms by (auto simp: Rebalance_def no_groups_iff)
qed

section \<open>Join, Leave and queries\<close>

text \<open>
  \<open>Join\<close> ranges over the map of new groups; \<open>None\<close> is \<open>log.Fatalf\<close> (a server name in two
  groups, or no group at all), and the flag is the \<open>bool\<close> it returns.
\<close>

definition clashes :: "ShardConfig \<Rightarrow> string list \<Rightarrow> bool" where
  "clashes cfg servers \<longleftrightarrow>
     (\<exists>xgid \<in> group_ids cfg. \<exists>s1 \<in> set (the (fmlookup (Groups cfg) xgid)). s1 \<in> set servers)"

fun join_loop :: "(int \<times> string list) list \<Rightarrow> ShardConfig \<Rightarrow> bool \<Rightarrow>
    (ShardConfig \<times> bool) option" where
  "join_loop [] cfg changed = (if \<not> changed then None else Some (cfg\<lparr>Num := Num cfg + 1\<rparr>, True))"
| "join_loop ((gid, servers) # rest) cfg changed =
     (if fmlookup (Groups cfg) gid \<noteq> None then Some (cfg, False)
      else if clashes cfg servers then None
      else join_loop rest (cfg\<lparr>Groups := fmupd gid servers (Groups cfg)\<rparr>) True)"

definition Join :: "(int \<times> string list) list \<Rightarrow> ShardConfig \<Rightarrow> (ShardConfig \<times> bool) option" where
  "Join servers cfg = join_loop servers cfg False"

fun leave_loop :: "int list \<Rightarrow> ShardConfig \<Rightarrow> bool \<Rightarrow> (ShardConfig \<times> bool) option" where
  "leave_loop [] cfg changed = (if \<not> changed then None else Some (cfg\<lparr>Num := Num cfg + 1\<rparr>, True))"
| "leave_loop (gid # rest) cfg changed =
     (if fmlookup (Groups cfg) gid = None then Some (cfg, False)
      else leave_loop rest (cfg\<lparr>Groups := fmdrop gid (Groups cfg)\<rparr>) True)"

definition Leave :: "int list \<Rightarrow> ShardConfig \<Rightarrow> (ShardConfig \<times> bool) option" where
  "Leave gids cfg = leave_loop gids cfg False"

definition JoinBalance :: "(int \<times> string list) list \<Rightarrow> ShardConfig \<Rightarrow> (ShardConfig \<times> bool) option" where
  "JoinBalance servers cfg = Option.bind (Join servers cfg) (\<lambda>(cfg, ok).
     if \<not> ok then Some (cfg, False) else map_option (\<lambda>cfg. (cfg, True)) (Rebalance cfg))"

definition LeaveBalance :: "int list \<Rightarrow> ShardConfig \<Rightarrow> (ShardConfig \<times> bool) option" where
  "LeaveBalance gids cfg = Option.bind (Leave gids cfg) (\<lambda>(cfg, ok).
     if \<not> ok then Some (cfg, False) else map_option (\<lambda>cfg. (cfg, True)) (Rebalance cfg))"

definition GidServers :: "ShardConfig \<Rightarrow> int \<Rightarrow> (int \<times> string list \<times> bool) option" where
  "GidServers cfg sh = map_option (\<lambda>gid. case fmlookup (Groups cfg) gid of
       Some srvs \<Rightarrow> (gid, srvs, True) | None \<Rightarrow> (gid, [], False)) (go_get (Shards cfg) sh)"

definition IsMember :: "ShardConfig \<Rightarrow> int \<Rightarrow> bool" where
  "IsMember cfg gid = (gid \<in> set (Shards cfg))"

text \<open>The tester's check of a configuration: \<open>False\<close> is one of its \<open>fatalf\<close>s.\<close>

definition check_step :: "int list \<Rightarrow> int \<Rightarrow> int \<times> int \<Rightarrow> int \<times> int" where
  "check_step shards g acc = (case acc of (mn, mx) \<Rightarrow>
     (if counts shards g < mn then counts shards g else mn,
      if counts shards g > mx then counts shards g else mx))"

definition CheckConfig :: "ShardConfig \<Rightarrow> int list \<Rightarrow> bool" where
  "CheckConfig cfg groups \<longleftrightarrow>
     fcard (fmdom (Groups cfg)) = length groups \<and>
     (\<forall>g \<in> set groups. fmlookup (Groups cfg) g \<noteq> None) \<and>
     (length groups > 0 \<longrightarrow> (\<forall>g \<in> set (Shards cfg). fmlookup (Groups cfg) g \<noteq> None)) \<and>
     (case fold (check_step (Shards cfg)) (sorted_list_of_fset (fmdom (Groups cfg))) (257, 0) of
        (mn, mx) \<Rightarrow> \<not> mx > mn + 1)"

lemma check_fold:
  assumes "fold (check_step shards) gs (mn0, mx0) = (mn, mx)"
  shows "(mn = mn0 \<or> (\<exists>g\<in>set gs. mn = counts shards g)) \<and>
    (mx = mx0 \<or> (\<exists>g\<in>set gs. mx = counts shards g))"
  using assms
proof (induction gs arbitrary: mn0 mx0)
  case (Cons g gs)
  then show ?case
    using Cons.IH [of "fst (check_step shards g (mn0, mx0))" "snd (check_step shards g (mn0, mx0))"]
    by (auto simp: check_step_def split: if_splits)
qed simp

lemma balanced_CheckConfig:
  assumes "balanced cfg" "if group_ids cfg = {} then True else assigned cfg"
    and "length (Shards cfg) \<le> 256"
    and "distinct groups" "set groups = group_ids cfg"
  shows "CheckConfig cfg groups"
proof -
  obtain mn mx where f: "fold (check_step (Shards cfg))
      (sorted_list_of_fset (fmdom (Groups cfg))) (257, 0) = (mn, mx)"
    by (metis surj_pair)
  have le: "counts (Shards cfg) g \<le> 256" for g
    using count_le_length [of "Shards cfg" g] assms(3) by (simp add: counts_def)
  have ge: "0 \<le> counts (Shards cfg) g" for g by (simp add: counts_def)
  have "\<not> mx > mn + 1"
    using check_fold [OF f] assms(1) le ge
    by (auto simp: balanced_def) (smt (verit) le ge)+
  moreover have "fcard (fmdom (Groups cfg)) = length groups"
    using assms(4,5) distinct_card [of groups] by (simp add: fcard.rep_eq)
  moreover have "g \<in> group_ids cfg" if "g \<in> set (Shards cfg)" "length groups > 0" for g
    using assms(2,5) that by (auto simp: assigned_def split: if_splits)
  ultimately show ?thesis
    using f assms(5) by (auto simp: CheckConfig_def fmlookup_eq_None_iff simp del: not_None_eq)
qed

lemma join_loop_True:
  "join_loop servers cfg changed = Some (cfg', True) \<Longrightarrow>
     Num cfg' = Num cfg + 1 \<and> Shards cfg' = Shards cfg \<and>
     Groups cfg' = fold (\<lambda>(gid, srvs). fmupd gid srvs) servers (Groups cfg) \<and>
     (changed \<or> servers \<noteq> []) \<and> (\<forall>g \<in> fst ` set servers. g \<notin> group_ids cfg) \<and>
     distinct (map fst servers)"
  by (induction servers cfg changed rule: join_loop.induct)
    (auto simp: fmlookup_eq_None_iff split: if_splits simp del: not_None_eq)

lemma group_ids_fold_upd [simp]:
  "fset (fmdom (fold (\<lambda>(gid, srvs). fmupd gid srvs) servers m)) = fst ` set servers \<union> fset (fmdom m)"
  by (induction servers arbitrary: m) auto

lemma leave_loop_True:
  "leave_loop gids cfg changed = Some (cfg', True) \<Longrightarrow>
     Num cfg' = Num cfg + 1 \<and> Shards cfg' = Shards cfg \<and>
     Groups cfg' = fold fmdrop gids (Groups cfg) \<and>
     (changed \<or> gids \<noteq> []) \<and> set gids \<subseteq> group_ids cfg \<and> distinct gids"
  by (induction gids cfg changed rule: leave_loop.induct)
    (auto simp: fmlookup_eq_None_iff split: if_splits simp del: not_None_eq)

lemma group_ids_fold_drop [simp]:
  "fset (fmdom (fold fmdrop gids m)) = fset (fmdom m) - set gids"
  by (induction gids arbitrary: m) auto

text \<open>A re-join or an unknown group makes the answer \<open>False\<close> with the number unchanged.\<close>

lemma join_loop_False:
  "join_loop servers cfg changed = Some (cfg', False) \<Longrightarrow>
     Num cfg' = Num cfg \<and> Shards cfg' = Shards cfg \<and>
     (\<exists>done gid srvs rest. servers = done @ (gid, srvs) # rest \<and>
        Groups cfg' = fold (\<lambda>(gid, srvs). fmupd gid srvs) done (Groups cfg) \<and>
        gid \<in> group_ids cfg')"
proof (induction servers cfg changed rule: join_loop.induct)
  case (2 gid servers rest cfg changed)
  show ?case
  proof (cases "fmlookup (Groups cfg) gid")
    case None
    then have "join_loop rest (cfg\<lparr>Groups := fmupd gid servers (Groups cfg)\<rparr>) True = Some (cfg', False)"
      using "2.prems" by (simp split: if_splits)
    with "2.IH" None "2.prems" obtain done' g s rest' where
      "Num cfg' = Num cfg" "Shards cfg' = Shards cfg" "rest = done' @ (g, s) # rest'"
      "Groups cfg' = fold (\<lambda>(gid, srvs). fmupd gid srvs) done' (fmupd gid servers (Groups cfg))"
      "g \<in> group_ids cfg'"
      by (auto split: if_splits)
    then show ?thesis by (intro conjI exI [of _ "(gid, servers) # done'"]) auto
  next
    case (Some x)
    then have "cfg' = cfg" using "2.prems" by simp
    moreover have "gid \<in> group_ids cfg" using Some by (metis fmdomI)
    ultimately show ?thesis by (intro conjI exI [of _ "[]"]) auto
  qed
qed (auto split: if_splits)

section \<open>How little a rebalance moves\<close>

lemma count_list_update_int:
  "s < length xs \<Longrightarrow> int (count_list (xs[s := y]) x) =
     int (count_list xs x) + (if y = x then 1 else 0) - (if xs ! s = x then 1 else 0)"
proof (induction xs arbitrary: s)
  case (Cons a xs)
  show ?case
  proof (cases s)
    case (Suc t)
    then have "int (count_list (xs[t := y]) x) =
        int (count_list xs x) + (if y = x then 1 else 0) - (if xs ! t = x then 1 else 0)"
      using Cons by simp
    then show ?thesis unfolding Suc by (simp split: if_splits)
  qed simp
qed simp

lemma balanced_rebalance_loop:
  assumes "balanced c" "length (Shards c) \<le> 256" "group_ids c \<noteq> {}"
  shows "rebalance_loop c = Some c"
proof -
  obtain mg mn lg ln where a: "analyze c = (mg, mn, lg, ln)" by (metis prod_cases4)
  note b = analyze_bounded [OF a assms(2,3)]
  have "mn \<le> ln + 1" using assms(1) b unfolding balanced_def by blast
  then show ?thesis by (simp add: rebalance_loop.simps a)
qed

lemma assign_loop_balanced:
  assumes "balanced c" "length (Shards c) \<le> 256" "group_ids c \<noteq> {}"
    and "set ss \<subseteq> {..<length (Shards c)}"
  shows "balanced (assign_loop ss c)"
  using assms
proof (induction ss arbitrary: c)
  case (Cons s ss)
  show ?case
  proof (cases "fmlookup (Groups c) (Shards c ! s)")
    case None
    let ?c = "c\<lparr>Shards := (Shards c)[s := least c]\<rparr>"
    obtain mg mn lg ln where a: "analyze c = (mg, mn, lg, ln)" by (metis prod_cases4)
    note b = analyze_bounded [OF a Cons.prems(2,3)] and f = analyze_facts(1) [OF a]
    have "counts (Shards ?c) g = counts (Shards c) g + (if g = lg then 1 else 0)"
      if "g \<in> group_ids c" for g
      using count_list_update_int [of s "Shards c" lg g] Cons.prems(4) None that a
      by (auto simp: counts_def least_def fmlookup_eq_None_iff)
    then have "balanced ?c"
      using Cons.prems(1) f b(4) by (fastforce simp: balanced_def)
    then have "balanced (assign_loop ss ?c)"
      using Cons.prems by (intro Cons.IH) auto
    then show ?thesis using None by simp
  next
    case (Some x)
    then show ?thesis using Cons by simp
  qed
qed simp

lemma assign_loop_id: "assigned c \<Longrightarrow> set ss \<subseteq> {..<length (Shards c)} \<Longrightarrow> assign_loop ss c = c"
proof (induction ss arbitrary: c)
  case (Cons s ss)
  then have "Shards c ! s \<in> group_ids c" by (auto simp: assigned_def)
  then have "fmlookup (Groups c) (Shards c ! s) \<noteq> None" by (simp add: fmlookup_eq_None_iff)
  then show ?case using Cons by (auto simp del: not_None_eq)
qed simp

text \<open>
  The loop's invariant after groups \<open>N\<close> have joined a balanced configuration: the old groups stay
  within one shard of each other and no new group is ahead of any group.
\<close>

definition joining :: "int set \<Rightarrow> ShardConfig \<Rightarrow> bool" where
  "joining N c \<longleftrightarrow>
     (\<forall>g\<in>group_ids c - N. \<forall>h\<in>group_ids c - N. counts (Shards c) g \<le> counts (Shards c) h + 1) \<and>
     (\<forall>g\<in>group_ids c \<inter> N. \<forall>h\<in>group_ids c. counts (Shards c) g \<le> counts (Shards c) h + 1)"

lemma move_one_nth:
  "s < length gs \<Longrightarrow> move_one mg lg gs ! s = gs ! s \<or> move_one mg lg gs ! s = lg"
  by (induction gs arbitrary: s) (auto simp: nth_Cons')

lemma joining_loop:
  assumes "joining N c" "length (Shards c) \<le> 256" "group_ids c \<noteq> {}"
    and "rebalance_loop c = Some c'" "s < length (Shards c)"
  shows "Shards c' ! s = Shards c ! s \<or> Shards c' ! s \<in> N"
  using assms
proof (induction "imbalance c" arbitrary: c rule: less_induct)
  case less
  obtain mg mn lg ln where a: "analyze c = (mg, mn, lg, ln)" by (metis prod_cases4)
  note b = analyze_bounded [OF a less.prems(2,3)] and f = analyze_facts [OF a]
  show ?case
  proof (cases "mn < ln + 2")
    case True
    then show ?thesis using less.prems(4) by (simp add: rebalance_loop.simps [of c] a)
  next
    case False
    let ?c = "c\<lparr>Shards := move_one mg lg (Shards c)\<rparr>"
    have far: "\<not> counts (Shards c) mg \<le> counts (Shards c) lg + 1" using b(2,4) False by simp
    have "mg \<notin> N" using less.prems(1) b(1,3) far unfolding joining_def by blast
    then have lgN: "lg \<in> N" using less.prems(1) b(1,3) far unfolding joining_def by blast
    have "mg \<noteq> lg" using b False by auto
    moreover have "mg \<in> set (Shards c)"
      using b(2) False f(6) count_list_0_iff [of "Shards c" mg] by (force simp: counts_def)
    ultimately have n: "counts (move_one mg lg (Shards c)) g = (if g = mg then mn - 1 else if g = lg then ln + 1
        else counts (Shards c) g)" for g
      using count_move_one [of mg lg "Shards c" g] b(2,4) False f(6)
      by (auto simp: counts_def of_nat_diff)
    have "counts (Shards ?c) g \<le> counts (Shards ?c) h + 1"
      if "g \<in> group_ids c - N" "h \<in> group_ids c - N" for g h
    proof -
      have "counts (Shards c) g \<le> counts (Shards c) h + 1"
        and "mn \<le> counts (Shards c) h + 1"
        using less.prems(1) that b(1,2) \<open>mg \<notin> N\<close> unfolding joining_def by auto
      moreover have "counts (Shards c) g \<le> mn" using f(1) that(1) by blast
      moreover have "g \<noteq> lg" "h \<noteq> lg" using that lgN by auto
      ultimately show ?thesis by (simp add: n)
    qed
    moreover have "counts (Shards ?c) g \<le> counts (Shards ?c) h + 1"
      if "g \<in> group_ids c \<inter> N" "h \<in> group_ids c" for g h
    proof -
      have "counts (Shards c) g \<le> counts (Shards c) h + 1"
        using less.prems(1) that unfolding joining_def by auto
      moreover have "counts (Shards c) g \<le> mn" "ln \<le> counts (Shards c) h"
        using f(1) that by auto
      moreover have "g \<noteq> mg" using that \<open>mg \<notin> N\<close> by auto
      ultimately show ?thesis using False b(4) by (auto simp: n)
    qed
    ultimately have "joining N ?c" by (simp add: joining_def)
    moreover have "rebalance_loop ?c = Some c'"
      using less.prems(4) False by (simp add: rebalance_loop.simps [of c] a)
    ultimately have "Shards c' ! s = Shards ?c ! s \<or> Shards c' ! s \<in> N"
      using less.hyps [OF imbalance_move [OF a False less.prems(2,3)]] less.prems by simp
    then show ?thesis using move_one_nth [of s "Shards c" mg lg] less.prems(5) lgN by auto
  qed
qed

section \<open>Properties\<close>

text \<open>The configurations the controller works with: \<open>NShards\<close> shards, balanced, all assigned.\<close>

definition config_ok :: "ShardConfig \<Rightarrow> bool" where
  "config_ok c \<longleftrightarrow> length (Shards c) = nat NShards \<and> balanced c \<and>
     (if group_ids c = {} then \<forall>g\<in>set (Shards c). g = 0 else assigned c)"

lemma config_ok_Make: "config_ok MakeShardConfig"
  by (simp add: config_ok_def MakeShardConfig_def balanced_def NShards_def)

lemma Rebalance_config_ok:
  "length (Shards c) = nat NShards \<Longrightarrow>
     \<exists>c'. Rebalance c = Some c' \<and> config_ok c' \<and> Num c' = Num c \<and> Groups c' = Groups c"
  by (rule Rebalance_ok [of c]) (auto simp: config_ok_def)

lemma config_ok_CheckConfig:
  "config_ok c \<Longrightarrow> distinct gids \<Longrightarrow> set gids = group_ids c \<Longrightarrow> CheckConfig c gids"
  by (rule balanced_CheckConfig) (auto simp: config_ok_def NShards_def)

text \<open>
  C21 (\<open>Rebalance\<close> terminates and balances).  On every configuration of \<open>NShards\<close> shards,
  whatever its shards are assigned to, the balancing loop ends; afterwards every shard belongs to
  a group of the configuration (or to group 0 when there is none), no two groups differ by more
  than one shard, number and groups are unchanged, and the tester's \<open>CheckConfig\<close> accepts it.
\<close>

theorem Rebalance_balances:
  assumes "length (Shards c) = nat NShards"
  shows "\<exists>c'. Rebalance c = Some c' \<and> Num c' = Num c \<and> Groups c' = Groups c \<and>
    length (Shards c') = nat NShards \<and>
    (\<forall>g\<in>set (Shards c'). if group_ids c = {} then g = 0 else g \<in> group_ids c) \<and>
    (\<forall>g\<in>group_ids c. \<forall>h\<in>group_ids c. counts (Shards c') g \<le> counts (Shards c') h + 1) \<and>
    CheckConfig c' (sorted_list_of_fset (fmdom (Groups c)))"
proof -
  obtain c' where c': "Rebalance c = Some c'" "config_ok c'" "Num c' = Num c" "Groups c' = Groups c"
    using Rebalance_config_ok [OF assms] by blast
  moreover have "CheckConfig c' (sorted_list_of_fset (fmdom (Groups c)))"
    using c'(2,4) by (intro config_ok_CheckConfig) (simp_all add: sorted_list_of_fset.rep_eq)
  ultimately show ?thesis
    by (auto simp: config_ok_def assigned_def balanced_def split: if_splits)
qed

definition demo_config :: ShardConfig where
  "demo_config = \<lparr>Num = 3, Shards = [1, 1, 1, 1, 1, 1, 1, 1, 1, 2, 2, 7],
     Groups = fmupd 1 [''a''] (fmupd 2 [''b''] (fmupd 3 [''c''] fmempty))\<rparr>"

theorem Rebalance_balances_witness:
  "\<exists>c'. Rebalance demo_config = Some c' \<and> Num c' = 3 \<and> set (Shards c') \<subseteq> {1, 2, 3}"
  using Rebalance_balances [of demo_config] by (auto simp: demo_config_def NShards_def)

lemma JoinBalance_result:
  assumes "config_ok c" and "JoinBalance servers c = Some (c', True)"
  shows "config_ok c' \<and> Num c' = Num c + 1 \<and> group_ids c' = group_ids c \<union> fst ` set servers \<and>
    (\<forall>s < nat NShards. Shards c' ! s = Shards c ! s \<or> Shards c' ! s \<in> fst ` set servers)"
proof -
  obtain c1 where c1: "Join servers c = Some (c1, True)" "Rebalance c1 = Some c'"
    using assms(2) by (auto simp: JoinBalance_def bind_eq_Some_conv' split: if_splits)
  note j = join_loop_True [OF c1(1) [unfolded Join_def]]
  have len: "length (Shards c1) = nat NShards" using j assms(1) by (simp add: config_ok_def)
  obtain c2 where "Rebalance c1 = Some c2" "config_ok c2" "Num c2 = Num c1" "Groups c2 = Groups c1"
    using Rebalance_config_ok [OF len] by blast
  then have c': "config_ok c'" "Num c' = Num c1" "Groups c' = Groups c1" using c1(2) by auto
  have ids: "group_ids c1 = fst ` set servers \<union> group_ids c" using j by simp
  have ne: "group_ids c1 \<noteq> {}" using ids j by auto
  have "Shards c' ! s = Shards c ! s \<or> Shards c' ! s \<in> fst ` set servers" if s: "s < nat NShards" for s
  proof (cases "group_ids c = {}")
    case True
    then have "Shards c' ! s \<in> group_ids c1"
      using c' ne s by (auto simp: config_ok_def assigned_def)
    then show ?thesis using True ids by simp
  next
    case False
    let ?N = "fst ` set servers"
    have asg: "assigned c" and bal: "balanced c" using assms(1) False by (auto simp: config_ok_def)
    have a1: "assigned c1" using asg j ids by (auto simp: assigned_def)
    have zero: "counts (Shards c1) g = 0" if "g \<in> ?N" for g
      using asg j that by (auto simp: assigned_def counts_def count_list_0_iff)
    have "joining ?N c1"
      using bal j ids zero by (auto simp: joining_def balanced_def counts_def)
    moreover have "rebalance_loop c1 = Some c'"
      using c1(2) assign_loop_id [OF a1] ne by (simp add: Rebalance_def no_groups_iff lessThan_atLeast0)
    ultimately show ?thesis
      using joining_loop [of ?N c1 c' s] len ne s j by (simp add: NShards_def)
  qed
  then show ?thesis using c' j ids by auto
qed

definition demo_joined :: ShardConfig where
  "demo_joined = \<lparr>Num = 1, Shards = replicate 12 1, Groups = fmupd 1 [''a''] fmempty\<rparr>"

lemma demo_join: "JoinBalance [(1, [''a''])] MakeShardConfig = Some (demo_joined, True)"
  by code_simp

text \<open>What the caller of \<open>Join\<close> guarantees: new groups, and no server name used twice.\<close>

definition joinable :: "(int \<times> string list) list \<Rightarrow> ShardConfig \<Rightarrow> bool" where
  "joinable servers cfg \<longleftrightarrow> distinct (map fst servers) \<and>
     disjnt (fst ` set servers) (group_ids cfg) \<and>
     list_all (\<lambda>(gid, names). \<not> clashes cfg names) servers \<and>
     pairwise (\<lambda>(g, xs) (h, ys). disjnt (set xs) (set ys)) (set servers)"

lemma clashes_fmupd:
  "gid \<notin> group_ids cfg \<Longrightarrow> clashes (cfg\<lparr>Groups := fmupd gid names (Groups cfg)\<rparr>) servers \<longleftrightarrow>
     clashes cfg servers \<or> \<not> disjnt (set names) (set servers)"
  by (auto simp: clashes_def disjnt_def)

lemma join_loop_succeeds:
  "joinable servers cfg \<Longrightarrow> changed \<or> servers \<noteq> [] \<Longrightarrow> \<exists>cfg'. join_loop servers cfg changed = Some (cfg', True)"
proof (induction servers cfg changed rule: join_loop.induct)
  case (2 gid servers rest cfg changed)
  have new: "gid \<notin> group_ids cfg" "\<not> clashes cfg servers"
    using "2.prems"(1) by (auto simp: joinable_def disjnt_def)
  then have none: "fmlookup (Groups cfg) gid = None" by (simp add: fmlookup_eq_None_iff)
  let ?cfg = "cfg\<lparr>Groups := fmupd gid servers (Groups cfg)\<rparr>"
  have "disjnt (set servers) (set ys)" if "(h, ys) \<in> set rest" for h ys
  proof -
    have "h \<noteq> gid" using that "2.prems"(1) by (force simp: joinable_def)
    then show ?thesis using that "2.prems"(1) by (auto simp: joinable_def pairwise_def)
  qed
  then have "list_all (\<lambda>(gid, names). \<not> clashes ?cfg names) rest"
    using "2.prems"(1) new(1) by (auto simp: joinable_def list_all_iff clashes_fmupd)
  moreover have "pairwise (\<lambda>(g, xs) (h, ys). disjnt (set xs) (set ys)) (set rest)"
    using "2.prems"(1) by (auto simp: joinable_def pairwise_insert)
  ultimately have "joinable rest ?cfg"
    using "2.prems"(1) by (auto simp: joinable_def disjnt_iff)
  then show ?case using "2.IH" none new by simp
qed auto

text \<open>
  Joining moves shards only to the new groups.  \<open>JoinBalance\<close> of new groups on a balanced
  configuration succeeds: the number is one higher, the new groups are added, the result is
  balanced, and every shard is either where it was or in one of the new groups.
\<close>

theorem JoinBalance_minimal:
  assumes "config_ok c" "joinable servers c" "servers \<noteq> []"
  shows "\<exists>c'. JoinBalance servers c = Some (c', True) \<and>
    config_ok c' \<and> Num c' = Num c + 1 \<and> group_ids c' = group_ids c \<union> fst ` set servers \<and>
    (\<forall>s < nat NShards. Shards c' ! s = Shards c ! s \<or> Shards c' ! s \<in> fst ` set servers)"
proof -
  obtain c1 where c1: "Join servers c = Some (c1, True)"
    using join_loop_succeeds [OF assms(2), of False] assms(3) by (auto simp: Join_def)
  have "length (Shards c1) = nat NShards"
    using join_loop_True [OF c1 [unfolded Join_def]] assms(1) by (simp add: config_ok_def)
  then obtain c' where "JoinBalance servers c = Some (c', True)"
    using c1 by (auto simp: JoinBalance_def elim: Rebalance_ok)
  then show ?thesis using JoinBalance_result [OF assms(1)] by blast
qed

theorem JoinBalance_minimal_witness:
  "config_ok demo_joined \<and> group_ids demo_joined = {1}"
proof -
  have "joinable [(1, [''a''])] MakeShardConfig"
    by (simp add: joinable_def MakeShardConfig_def clashes_def)
  then show ?thesis
    using JoinBalance_minimal [OF config_ok_Make, of "[(1, [''a''])]"] demo_join
    by (auto simp: MakeShardConfig_def)
qed

lemma leave_loop_succeeds:
  "set gids \<subseteq> group_ids cfg \<Longrightarrow> distinct gids \<Longrightarrow> changed \<or> gids \<noteq> [] \<Longrightarrow>
     \<exists>cfg'. leave_loop gids cfg changed = Some (cfg', True)"
proof (induction gids cfg changed rule: leave_loop.induct)
  case (2 gid rest cfg changed)
  then have "fmlookup (Groups cfg) gid \<noteq> None" "set rest \<subseteq> group_ids cfg - {gid}"
    by (auto simp: fmlookup_eq_None_iff)
  then show ?case using "2.IH" "2.prems"(2) by auto
qed simp

lemma LeaveBalance_result:
  assumes "config_ok c" and "LeaveBalance gids c = Some (c', True)"
  shows "config_ok c' \<and> Num c' = Num c + 1 \<and> group_ids c' = group_ids c - set gids \<and>
    (group_ids c' \<noteq> {} \<longrightarrow>
      (\<forall>s < nat NShards. Shards c ! s \<notin> set gids \<longrightarrow> Shards c' ! s = Shards c ! s))"
proof -
  obtain c1 where c1: "Leave gids c = Some (c1, True)" "Rebalance c1 = Some c'"
    using assms(2) by (auto simp: LeaveBalance_def bind_eq_Some_conv' split: if_splits)
  note l = leave_loop_True [OF c1(1) [unfolded Leave_def]]
  have len: "length (Shards c1) = nat NShards" using l assms(1) by (simp add: config_ok_def)
  obtain c2 where "Rebalance c1 = Some c2" "config_ok c2" "Num c2 = Num c1" "Groups c2 = Groups c1"
    using Rebalance_config_ok [OF len] by blast
  then have c': "config_ok c'" "Num c' = Num c1" "Groups c' = Groups c1" using c1(2) by auto
  have ids: "group_ids c1 = group_ids c - set gids" using l by simp
  have "Shards c' ! s = Shards c ! s"
    if ne: "group_ids c' \<noteq> {}" and s: "s < nat NShards" "Shards c ! s \<notin> set gids" for s
  proof -
    have ne: "group_ids c \<noteq> {}" "group_ids c1 \<noteq> {}" using ne ids c'(3) by auto
    let ?ss = "[0..<length (Shards c1)]"
    have len256: "length (Shards c1) \<le> 256" using len by (simp add: NShards_def)
    have asg: "assigned c" and bal: "balanced c" using assms(1) ne(1) by (auto simp: config_ok_def)
    have b1: "balanced c1" using bal ids l by (auto simp: balanced_def)
    have "balanced (assign_loop ?ss c1)"
      by (rule assign_loop_balanced [OF b1 len256 ne(2)]) auto
    then have c'_eq: "c' = assign_loop ?ss c1"
      using c1(2) ne(2) balanced_rebalance_loop [of "assign_loop ?ss c1"] len256
      by (simp add: Rebalance_def no_groups_iff)
    have keep: "Shards (assign_loop ss d) ! s = Shards d ! s"
      if "Shards d ! s \<in> group_ids d" "distinct ss" for ss d
      using that
    proof (induction ss arbitrary: d)
      case (Cons t ss)
      show ?case
      proof (cases "fmlookup (Groups d) (Shards d ! t)")
        case None
        then have "t \<noteq> s" using Cons.prems(1) by (auto simp: fmlookup_eq_None_iff)
        then show ?thesis using Cons None by simp
      qed (use Cons in simp)
    qed simp
    have "Shards c1 ! s \<in> group_ids c1"
      using asg l ids s len by (auto simp: assigned_def)
    then show ?thesis using keep [of c1 ?ss] c'_eq l by simp
  qed
  then show ?thesis using c' l ids by auto
qed

lemma demo_leave:
  "LeaveBalance [1] (demo_joined\<lparr>Groups := fmupd 2 [''b''] (Groups demo_joined),
      Shards := [1, 2, 1, 2, 1, 2, 1, 2, 1, 2, 1, 2]\<rparr>)
   = Some (\<lparr>Num = 2, Shards = replicate 12 2, Groups = fmupd 2 [''b''] fmempty\<rparr>, True)"
  by code_simp

text \<open>
  Leaving moves only the shards of the groups that leave.  \<open>LeaveBalance\<close> of groups of a
  balanced configuration succeeds: the number goes up by one, the groups are gone, the result is
  balanced, and when some group is left behind every shard of a remaining group stays where it was.
\<close>

theorem LeaveBalance_minimal:
  assumes "config_ok c" "set gids \<subseteq> group_ids c" "distinct gids" "gids \<noteq> []"
  shows "\<exists>c'. LeaveBalance gids c = Some (c', True) \<and>
    config_ok c' \<and> Num c' = Num c + 1 \<and> group_ids c' = group_ids c - set gids \<and>
    (group_ids c' \<noteq> {} \<longrightarrow>
      (\<forall>s < nat NShards. Shards c ! s \<notin> set gids \<longrightarrow> Shards c' ! s = Shards c ! s))"
proof -
  obtain c1 where c1: "Leave gids c = Some (c1, True)"
    using leave_loop_succeeds [OF assms(2,3), of False] assms(4) by (auto simp: Leave_def)
  have "length (Shards c1) = nat NShards"
    using leave_loop_True [OF c1 [unfolded Leave_def]] assms(1) by (simp add: config_ok_def)
  then obtain c' where "LeaveBalance gids c = Some (c', True)"
    using c1 by (auto simp: LeaveBalance_def elim: Rebalance_ok)
  then show ?thesis using LeaveBalance_result [OF assms(1)] by blast
qed

theorem LeaveBalance_minimal_witness:
  "config_ok \<lparr>Num = 2, Shards = replicate 12 2, Groups = fmupd 2 [''b''] fmempty\<rparr>"
proof -
  let ?c = "demo_joined\<lparr>Groups := fmupd 2 [''b''] (Groups demo_joined),
      Shards := [1, 2, 1, 2, 1, 2, 1, 2, 1, 2, 1, 2]\<rparr>"
  have "config_ok ?c"
    by (auto simp: config_ok_def demo_joined_def NShards_def balanced_def assigned_def counts_def)
  moreover have "set [1] \<subseteq> group_ids ?c" by (simp add: demo_joined_def)
  ultimately show ?thesis using LeaveBalance_minimal [of ?c "[1]"] demo_leave by auto
qed

text \<open>
  A refused \<open>Join\<close> is not undone.  When \<open>Join\<close> answers \<open>False\<close> because a group is already
  there, the groups the map iteration reached before it have been added to the configuration, while
  the number stays: two iteration orders of one request leave different configurations.
\<close>

theorem Join_refused_partial:
  "Join [(2, [''b'']), (1, [''a''])] demo_joined =
     Some (demo_joined\<lparr>Groups := fmupd 2 [''b''] (Groups demo_joined)\<rparr>, False) \<and>
   Join [(1, [''a'']), (2, [''b''])] demo_joined = Some (demo_joined, False)"
  by (simp add: Join_def demo_joined_def clashes_def)

text \<open>Every key has a shard, and a configuration of \<open>NShards\<close> shards names the group of it.\<close>

lemma Key2Shard_range:
  "0 \<le> Key2Shard key \<and> Key2Shard key < NShards \<and>
   (length (Shards c) = nat NShards \<longrightarrow> GidServers c (Key2Shard key) \<noteq> None)"
  by (auto simp: Key2Shard_def NShards_def GidServers_def go_get_def)

end
