(* ===== verification/ShardGrp.thy ===== *)
theory ShardGrp
  imports KvRaft ShardCfg
begin

text \<open>
  A shard group of lab 5 (\<open>src/shardkv1/shardgrp/server.go\<close>, \<open>client.go\<close>,
  \<open>shardrpc/shardrpc.go\<close>): the state machine its servers replicate, with the status and the
  configuration number of every shard, the handlers around \<open>Submit\<close>, and the group's clerk.
  \<open>kv.nums\<close> and \<open>kv.status\<close> are slices, so a shard number out of range panics (\<open>None\<close>).
\<close>

section \<open>Data\<close>

datatype grpStatus = Absent | Serving | Flozen

record FreezeShardArgs =
  fa_Shard :: int
  fa_Num :: int

record FreezeShardReply =
  fr_State :: "gob_table list"
  fr_Num :: int
  fr_Err :: Err

record InstallShardArgs =
  ia_Shard :: int
  ia_State :: "gob_table list"
  ia_Num :: int

record InstallShardReply =
  ir_Err :: Err

record DeleteShardArgs =
  da_Shard :: int
  da_Num :: int

record DeleteShardReply =
  dr_Err :: Err

datatype shard_req =
    SGet GetArgs | SPut PutArgs | SFreeze FreezeShardArgs
  | SInstall InstallShardArgs | SDelete DeleteShardArgs | SOther

datatype shard_rep =
    RGet GetReply | RPut PutReply | RFreeze FreezeShardReply
  | RInstall InstallShardReply | RDelete DeleteShardReply | RNil

record ShardKV =
  sk_me :: int
  sk_dead :: int
  sk_gid :: int
  sk_table :: gob_table
  sk_status :: "grpStatus list"
  sk_nums :: "int list"

section \<open>The operations\<close>

definition sk_get :: "GetArgs \<Rightarrow> ShardKV \<Rightarrow> GetReply option" where
  "sk_get r kv = do {
     st \<leftarrow> go_get (sk_status kv) (Key2Shard (ga_Key r));
     Some (if st \<noteq> Serving then zero_GetReply\<lparr>gr_Err := ErrWrongGroup\<rparr>
       else case sk_table kv (ga_Key r) of
         Some e \<Rightarrow> \<lparr>gr_Value = e_value e, gr_Version = e_version e, gr_Err = OK\<rparr>
       | None \<Rightarrow> zero_GetReply\<lparr>gr_Err := ErrNoKey\<rparr>)
   }"

definition store_entry :: "PutArgs \<Rightarrow> ShardKV \<Rightarrow> ShardKV" where
  "store_entry r kv = kv\<lparr>sk_table := (sk_table kv)(pa_Key r \<mapsto>
     \<lparr>e_value = pa_Value r, e_version = pa_Version r + 1\<rparr>)\<rparr>"

definition sk_put :: "PutArgs \<Rightarrow> ShardKV \<Rightarrow> (ShardKV \<times> PutReply) option" where
  "sk_put r kv = do {
     st \<leftarrow> go_get (sk_status kv) (Key2Shard (pa_Key r));
     Some (if st \<noteq> Serving then (kv, \<lparr>pr_Err = ErrWrongGroup\<rparr>)
       else case sk_table kv (pa_Key r) of
         None \<Rightarrow>
           if pa_Version r \<noteq> 0 then (kv, \<lparr>pr_Err = ErrNoKey\<rparr>)
           else (store_entry r kv, \<lparr>pr_Err = OK\<rparr>)
       | Some e \<Rightarrow>
           if e_version e = pa_Version r then (store_entry r kv, \<lparr>pr_Err = OK\<rparr>)
           else (kv, \<lparr>pr_Err = ErrVersion\<rparr>))
   }"

text \<open>The part of a table that belongs to a shard.\<close>

definition shard_table :: "int \<Rightarrow> gob_table \<Rightarrow> gob_table" where
  "shard_table s t k = (if Key2Shard k \<noteq> s then None else t k)"

definition sk_set :: "int \<Rightarrow> int \<Rightarrow> grpStatus \<Rightarrow> ShardKV \<Rightarrow> ShardKV option" where
  "sk_set s num st kv = do {
     nums \<leftarrow> go_set (sk_nums kv) s num;
     status \<leftarrow> go_set (sk_status kv) s st;
     Some (kv\<lparr>sk_nums := nums, sk_status := status\<rparr>)
   }"

definition sk_freeze :: "FreezeShardArgs \<Rightarrow> ShardKV \<Rightarrow> (ShardKV \<times> FreezeShardReply) option" where
  "sk_freeze r kv = do {
     num \<leftarrow> go_get (sk_nums kv) (fa_Shard r);
     let rep = \<lparr>fr_State = [], fr_Num = num, fr_Err = ErrUnset\<rparr>;
     if fa_Num r < num then Some (kv, rep\<lparr>fr_Err := ErrStaleNum\<rparr>)
     else do {
       st \<leftarrow> go_get (sk_status kv) (fa_Shard r);
       if fa_Num r = num \<and> st \<noteq> Flozen then Some (kv, rep\<lparr>fr_Err := ErrStaleNum\<rparr>)
       else do {
         kv \<leftarrow> sk_set (fa_Shard r) (fa_Num r) Flozen kv;
         Some (kv, rep\<lparr>fr_Err := OK, fr_State := [shard_table (fa_Shard r) (sk_table kv)]\<rparr>)
       }
     }
   }"

definition sk_install :: "InstallShardArgs \<Rightarrow> ShardKV \<Rightarrow> (ShardKV \<times> InstallShardReply) option" where
  "sk_install r kv = do {
     num \<leftarrow> go_get (sk_nums kv) (ia_Shard r);
     if num > ia_Num r then Some (kv, \<lparr>ir_Err = ErrStaleNum\<rparr>)
     else do {
       st \<leftarrow> go_get (sk_status kv) (ia_Shard r);
       if num = ia_Num r then Some (kv, \<lparr>ir_Err = if st \<noteq> Serving then ErrStaleNum else OK\<rparr>)
       else do {
         kv \<leftarrow> sk_set (ia_Shard r) (ia_Num r) Serving kv;
         Some (kv\<lparr>sk_table := sk_table kv ++ decode_table (ia_State r)\<rparr>, \<lparr>ir_Err = OK\<rparr>)
       }
     }
   }"

definition sk_delete :: "DeleteShardArgs \<Rightarrow> ShardKV \<Rightarrow> (ShardKV \<times> DeleteShardReply) option" where
  "sk_delete r kv = do {
     num \<leftarrow> go_get (sk_nums kv) (da_Shard r);
     if da_Num r < num then Some (kv, \<lparr>dr_Err = ErrStaleNum\<rparr>)
     else do {
       st \<leftarrow> go_get (sk_status kv) (da_Shard r);
       if da_Num r = num \<and> st = Absent then Some (kv, \<lparr>dr_Err = OK\<rparr>)
       else if da_Num r = num \<and> st = Serving then Some (kv, \<lparr>dr_Err = ErrStaleNum\<rparr>)
       else do {
         kv \<leftarrow> sk_set (da_Shard r) (da_Num r) Absent kv;
         Some (kv\<lparr>sk_table := (\<lambda>k. if Key2Shard k \<noteq> da_Shard r then sk_table kv k else None)\<rparr>,
               \<lparr>dr_Err = OK\<rparr>)
       }
     }
   }"

definition ShardGrp_DoOp :: "ShardKV \<Rightarrow> shard_req \<Rightarrow> (ShardKV \<times> shard_rep) option" where
  "ShardGrp_DoOp kv req = (case req of
     SGet r \<Rightarrow> map_option (\<lambda>rep. (kv, RGet rep)) (sk_get r kv)
   | SPut r \<Rightarrow> map_option (\<lambda>(kv, rep). (kv, RPut rep)) (sk_put r kv)
   | SFreeze r \<Rightarrow> map_option (\<lambda>(kv, rep). (kv, RFreeze rep)) (sk_freeze r kv)
   | SInstall r \<Rightarrow> map_option (\<lambda>(kv, rep). (kv, RInstall rep)) (sk_install r kv)
   | SDelete r \<Rightarrow> map_option (\<lambda>(kv, rep). (kv, RDelete rep)) (sk_delete r kv)
   | SOther \<Rightarrow> Some (kv, RNil))"

text \<open>
  A snapshot encodes table, status and numbers in this order; \<open>Restore\<close> decodes them one after
  the other, keeping the default of a value that does not decode.
\<close>

datatype gob_shard = GTable gob_table | GStatus "grpStatus list" | GNums "int list"

definition ShardGrp_Snapshot :: "ShardKV \<Rightarrow> gob_shard list" where
  "ShardGrp_Snapshot kv = [GTable (sk_table kv), GStatus (sk_status kv), GNums (sk_nums kv)]"

fun decode_gtable :: "gob_shard list \<Rightarrow> gob_table \<times> gob_shard list" where
  "decode_gtable (GTable t # r) = (t, r)"
| "decode_gtable r = (Map.empty, r)"

fun decode_gstatus :: "gob_shard list \<Rightarrow> grpStatus list \<times> gob_shard list" where
  "decode_gstatus (GStatus s # r) = (s, r)"
| "decode_gstatus r = (replicate (nat NShards) Absent, r)"

fun decode_gnums :: "gob_shard list \<Rightarrow> int list \<times> gob_shard list" where
  "decode_gnums (GNums n # r) = (n, r)"
| "decode_gnums r = (replicate (nat NShards) 0, r)"

definition ShardGrp_Restore :: "gob_shard list \<Rightarrow> ShardKV \<Rightarrow> ShardKV" where
  "ShardGrp_Restore data kv =
     (let (t, r1) = decode_gtable data; (s, r2) = decode_gstatus r1; (n, r3) = decode_gnums r2
      in kv\<lparr>sk_table := t, sk_status := s, sk_nums := n\<rparr>)"

definition Gid1 :: int where
  "Gid1 = 1"

definition StartServerShardGrp :: "int \<Rightarrow> int \<Rightarrow> ShardKV" where
  "StartServerShardGrp gid i =
     \<lparr>sk_me = i, sk_dead = 0, sk_gid = gid, sk_table = Map.empty,
      sk_status = replicate (nat NShards) (if gid = Gid1 then Serving else Absent),
      sk_nums = replicate (nat NShards) 0\<rparr>"

definition ShardGrp_Kill :: "ShardKV \<Rightarrow> ShardKV" where
  "ShardGrp_Kill kv = kv\<lparr>sk_dead := 1\<rparr>"

definition ShardGrp_killed :: "ShardKV \<Rightarrow> bool" where
  "ShardGrp_killed kv \<longleftrightarrow> sk_dead kv = 1"

section \<open>RPC handlers\<close>

definition ShardGrp_Get :: "shard_rep opReply \<Rightarrow> GetReply \<Rightarrow> GetReply option" where
  "ShardGrp_Get submitted reply = (case submitted of (err, rep) \<Rightarrow>
     if err = ErrWrongLeader then Some (reply\<lparr>gr_Err := ErrWrongLeader\<rparr>)
     else case rep of Some (RGet r) \<Rightarrow> Some r | _ \<Rightarrow> None)"

definition ShardGrp_Put :: "shard_rep opReply \<Rightarrow> PutReply \<Rightarrow> PutReply option" where
  "ShardGrp_Put submitted reply = (case submitted of (err, rep) \<Rightarrow>
     if err = ErrWrongLeader then Some (reply\<lparr>pr_Err := ErrWrongLeader\<rparr>)
     else case rep of Some (RPut r) \<Rightarrow> Some r | _ \<Rightarrow> None)"

definition ShardGrp_FreezeShard :: "shard_rep opReply \<Rightarrow> FreezeShardReply \<Rightarrow> FreezeShardReply option" where
  "ShardGrp_FreezeShard submitted reply = (case submitted of (err, rep) \<Rightarrow>
     if err = ErrWrongLeader then Some (reply\<lparr>fr_Err := ErrWrongLeader\<rparr>)
     else case rep of Some (RFreeze r) \<Rightarrow> Some r | _ \<Rightarrow> None)"

definition ShardGrp_InstallShard :: "shard_rep opReply \<Rightarrow> InstallShardReply \<Rightarrow> InstallShardReply option" where
  "ShardGrp_InstallShard submitted reply = (case submitted of (err, rep) \<Rightarrow>
     if err = ErrWrongLeader then Some (reply\<lparr>ir_Err := ErrWrongLeader\<rparr>)
     else case rep of Some (RInstall r) \<Rightarrow> Some r | _ \<Rightarrow> None)"

definition ShardGrp_DeleteShard :: "shard_rep opReply \<Rightarrow> DeleteShardReply \<Rightarrow> DeleteShardReply option" where
  "ShardGrp_DeleteShard submitted reply = (case submitted of (err, rep) \<Rightarrow>
     if err = ErrWrongLeader then Some (reply\<lparr>dr_Err := ErrWrongLeader\<rparr>)
     else case rep of Some (RDelete r) \<Rightarrow> Some r | _ \<Rightarrow> None)"

section \<open>The group's clerk\<close>

record ShardGrpClerk =
  sgc_servers :: "string list"
  sgc_leader :: int

definition ShardGrp_MakeClerk :: "string list \<Rightarrow> ShardGrpClerk" where
  "ShardGrp_MakeClerk servers = \<lparr>sgc_servers = servers, sgc_leader = 0\<rparr>"

definition sgc_next :: "ShardGrpClerk \<Rightarrow> ShardGrpClerk" where
  "sgc_next ck = ck\<lparr>sgc_leader := (sgc_leader ck + 1) mod int (length (sgc_servers ck))\<rparr>"

text \<open>
  The network as the clerk sees it: \<open>call i\<close> is what the \<open>i\<close>-th RPC of the call brings back,
  \<open>None\<close> when no reply comes.  \<open>Get\<close> and \<open>Put\<close> try every server once; the other operations
  retry for ever, so they run on a script and give \<open>None\<close> when it ends.
\<close>

fun sgc_get_loop :: "nat \<Rightarrow> GetReply option list \<Rightarrow> ShardGrpClerk \<Rightarrow> GetReply" where
  "sgc_get_loop 0 calls ck = \<lparr>gr_Value = '''', gr_Version = 0, gr_Err = ErrWrongGroup\<rparr>"
| "sgc_get_loop (Suc i) calls ck = (case calls of
     Some reply # calls' \<Rightarrow>
       if gr_Err reply = ErrWrongLeader then sgc_get_loop i calls' (sgc_next ck) else reply
   | None # calls' \<Rightarrow> sgc_get_loop i calls' (sgc_next ck)
   | [] \<Rightarrow> sgc_get_loop i [] (sgc_next ck))"

definition ShardGrpClerk_Get :: "GetReply option list \<Rightarrow> ShardGrpClerk \<Rightarrow> GetReply" where
  "ShardGrpClerk_Get calls ck =
     (if length (sgc_servers ck) = 0 then \<lparr>gr_Value = '''', gr_Version = 0, gr_Err = ErrWrongGroup\<rparr>
      else sgc_get_loop (length (sgc_servers ck)) calls ck)"

fun sgc_put_loop :: "nat \<Rightarrow> bool \<Rightarrow> PutReply option list \<Rightarrow> ShardGrpClerk \<Rightarrow> Err" where
  "sgc_put_loop 0 firstCall calls ck = ErrWrongGroup"
| "sgc_put_loop (Suc i) firstCall calls ck = (case calls of
     Some reply # calls' \<Rightarrow>
       if pr_Err reply = ErrWrongLeader then sgc_put_loop i False calls' (sgc_next ck)
       else put_result firstCall (pr_Err reply)
   | None # calls' \<Rightarrow> sgc_put_loop i False calls' (sgc_next ck)
   | [] \<Rightarrow> sgc_put_loop i False [] (sgc_next ck))"

definition ShardGrpClerk_Put :: "PutReply option list \<Rightarrow> ShardGrpClerk \<Rightarrow> Err" where
  "ShardGrpClerk_Put calls ck =
     (if length (sgc_servers ck) = 0 then ErrWrongGroup
      else sgc_put_loop (length (sgc_servers ck)) True calls ck)"

fun ShardGrpClerk_FreezeShard ::
  "FreezeShardReply option list \<Rightarrow> ShardGrpClerk \<Rightarrow> (gob_table list \<times> Err) option" where
  "ShardGrpClerk_FreezeShard calls ck =
     (if length (sgc_servers ck) = 0 then Some ([], ErrWrongGroup)
      else case calls of
        [] \<Rightarrow> None
      | None # calls' \<Rightarrow> ShardGrpClerk_FreezeShard calls' (sgc_next ck)
      | Some reply # calls' \<Rightarrow>
          if fr_Err reply = ErrWrongLeader then ShardGrpClerk_FreezeShard calls' (sgc_next ck)
          else if fr_Err reply \<noteq> OK then Some ([], fr_Err reply)
          else Some (fr_State reply, fr_Err reply))"

fun ShardGrpClerk_InstallShard :: "InstallShardReply option list \<Rightarrow> ShardGrpClerk \<Rightarrow> Err option" where
  "ShardGrpClerk_InstallShard calls ck =
     (if length (sgc_servers ck) = 0 then Some ErrWrongGroup
      else case calls of
        [] \<Rightarrow> None
      | None # calls' \<Rightarrow> ShardGrpClerk_InstallShard calls' (sgc_next ck)
      | Some reply # calls' \<Rightarrow>
          if ir_Err reply = ErrWrongLeader then ShardGrpClerk_InstallShard calls' (sgc_next ck)
          else Some (ir_Err reply))"

fun ShardGrpClerk_DeleteShard :: "DeleteShardReply option list \<Rightarrow> ShardGrpClerk \<Rightarrow> Err option" where
  "ShardGrpClerk_DeleteShard calls ck =
     (if length (sgc_servers ck) = 0 then Some ErrWrongGroup
      else case calls of
        [] \<Rightarrow> None
      | None # calls' \<Rightarrow> ShardGrpClerk_DeleteShard calls' (sgc_next ck)
      | Some reply # calls' \<Rightarrow>
          if dr_Err reply = ErrWrongLeader then ShardGrpClerk_DeleteShard calls' (sgc_next ck)
          else Some (dr_Err reply))"

declare ShardGrpClerk_FreezeShard.simps [simp del] ShardGrpClerk_InstallShard.simps [simp del]
  ShardGrpClerk_DeleteShard.simps [simp del]

section \<open>A server shard by shard\<close>

text \<open>
  The slices have one entry per shard in every state a server is ever in, so no operation on a
  valid shard panics.  What an operation does is stated shard by shard: the status, the number and
  the part of the store.
\<close>

definition sk_wf :: "ShardKV \<Rightarrow> bool" where
  "sk_wf kv \<longleftrightarrow> length (sk_status kv) = nat NShards \<and> length (sk_nums kv) = nat NShards"

definition valid_shard :: "int \<Rightarrow> bool" where
  "valid_shard s \<longleftrightarrow> 0 \<le> s \<and> s < NShards"

definition stat :: "ShardKV \<Rightarrow> int \<Rightarrow> grpStatus" where
  "stat kv s = sk_status kv ! nat s"

definition num :: "ShardKV \<Rightarrow> int \<Rightarrow> int" where
  "num kv s = sk_nums kv ! nat s"

definition table_store :: "gob_table \<Rightarrow> store" where
  "table_store t k = map_option (\<lambda>e. (e_value e, e_version e)) (t k)"

definition part :: "int \<Rightarrow> store \<Rightarrow> store" where
  "part s m k = (if Key2Shard k \<noteq> s then None else m k)"

definition tab :: "ShardKV \<Rightarrow> int \<Rightarrow> store" where
  "tab kv s = part s (table_store (sk_table kv))"

lemma valid_Key2Shard [simp]: "valid_shard (Key2Shard k)"
  by (simp add: valid_shard_def Key2Shard_def NShards_def)

lemma table_store_shard [simp]: "table_store (shard_table s t) = part s (table_store t)"
  by (simp add: fun_eq_iff table_store_def shard_table_def part_def)

lemma table_store_empty [simp]: "table_store Map.empty = Map.empty"
  by (simp add: fun_eq_iff table_store_def)

lemma table_store_add: "table_store (t ++ u) = table_store t ++ table_store u"
  by (auto simp: fun_eq_iff table_store_def map_add_def split: option.splits)

lemma part_part: "part s (part t m) = (if s = t then part s m else Map.empty)"
  by (auto simp: fun_eq_iff part_def)

lemma part_add: "part s (m ++ m') = part s m ++ part s m'"
  by (auto simp: fun_eq_iff part_def map_add_def split: option.splits)

lemma go_get_shard:
  "sk_wf kv \<Longrightarrow> valid_shard s \<Longrightarrow> go_get (sk_status kv) s = Some (stat kv s)"
  "sk_wf kv \<Longrightarrow> valid_shard s \<Longrightarrow> go_get (sk_nums kv) s = Some (num kv s)"
  by (simp_all add: sk_wf_def valid_shard_def go_get_def stat_def num_def NShards_def)

lemma sk_set_eq:
  assumes "sk_wf kv" "valid_shard s"
  obtains kv' where "sk_set s n st kv = Some kv'" "sk_wf kv'" "sk_table kv' = sk_table kv"
    "\<And>s'. valid_shard s' \<Longrightarrow> stat kv' s' = (if s' = s then st else stat kv s')"
    "\<And>s'. valid_shard s' \<Longrightarrow> num kv' s' = (if s' = s then n else num kv s')"
proof
  let ?kv = "kv\<lparr>sk_nums := (sk_nums kv)[nat s := n], sk_status := (sk_status kv)[nat s := st]\<rparr>"
  show "sk_set s n st kv = Some ?kv" "sk_wf ?kv"
    using assms by (auto simp: sk_set_def sk_wf_def valid_shard_def go_set_def NShards_def)
  show "stat ?kv s' = (if s' = s then st else stat kv s')"
    "num ?kv s' = (if s' = s then n else num kv s')" if "valid_shard s'" for s'
    using that assms by (auto simp: stat_def num_def sk_wf_def valid_shard_def NShards_def
        nth_list_update nat_eq_iff)
qed simp

lemma sk_get_eq:
  assumes "sk_wf kv"
  shows "sk_get r kv = Some (if stat kv (Key2Shard (ga_Key r)) \<noteq> Serving
     then \<lparr>gr_Value = '''', gr_Version = 0, gr_Err = ErrWrongGroup\<rparr>
     else spec_get (tab kv (Key2Shard (ga_Key r))) (ga_Key r))"
  using assms by (auto simp: sk_get_def go_get_shard zero_GetReply_def spec_get_def tab_def part_def
      table_store_def split: option.splits)

lemma tab_store_entry:
  "tab (store_entry r kv) s = (if s = Key2Shard (pa_Key r)
     then (tab kv s)(pa_Key r \<mapsto> (pa_Value r, pa_Version r + 1)) else tab kv s)"
  by (auto simp: fun_eq_iff tab_def part_def table_store_def store_entry_def)

lemma store_entry_frame [simp]:
  "sk_wf (store_entry r kv) = sk_wf kv" "stat (store_entry r kv) = stat kv"
  "num (store_entry r kv) = num kv"
  by (simp_all add: store_entry_def sk_wf_def stat_def num_def fun_eq_iff)

lemma sk_put_cases:
  assumes "sk_wf kv"
  obtains (wrong) "sk_put r kv = Some (kv, \<lparr>pr_Err = ErrWrongGroup\<rparr>)"
      "stat kv (Key2Shard (pa_Key r)) \<noteq> Serving"
  | (served) kv' where "stat kv (Key2Shard (pa_Key r)) = Serving" "sk_wf kv'"
      "sk_put r kv = Some (kv', \<lparr>pr_Err = snd (spec_put (tab kv (Key2Shard (pa_Key r))) r)\<rparr>)"
      "stat kv' = stat kv" "num kv' = num kv"
      "\<And>s. tab kv' s = (if s = Key2Shard (pa_Key r) then fst (spec_put (tab kv s) r) else tab kv s)"
proof (cases "stat kv (Key2Shard (pa_Key r)) = Serving")
  case False
  then show thesis using wrong assms by (simp add: sk_put_def go_get_shard)
next
  case True
  let ?s = "Key2Shard (pa_Key r)"
  have look: "tab kv ?s (pa_Key r) = map_option (\<lambda>e. (e_value e, e_version e)) (sk_table kv (pa_Key r))"
    by (simp add: tab_def part_def table_store_def)
  show thesis
  proof (cases "pa_Version r = current_version (tab kv ?s) (pa_Key r)")
    case version: True
    have "sk_put r kv = Some (store_entry r kv, \<lparr>pr_Err = OK\<rparr>)"
      using assms True version look
      by (auto simp: sk_put_def go_get_shard current_version_def split: option.splits)
    then show thesis
      using version True assms by (intro served [of "store_entry r kv"])
        (simp_all add: spec_put_def tab_store_entry)
  next
    case version: False
    have "sk_put r kv = Some (kv, \<lparr>pr_Err = snd (spec_put (tab kv ?s) r)\<rparr>)"
      using assms True version look
      by (auto simp: sk_put_def go_get_shard current_version_def spec_put_def split: option.splits)
    then show thesis
      using version True assms by (intro served [of kv]) (simp_all add: spec_put_def)
  qed
qed

lemma sk_freeze_cases:
  assumes "sk_wf kv" "valid_shard (fa_Shard r)"
  obtains (stale) "sk_freeze r kv = Some (kv, \<lparr>fr_State = [], fr_Num = num kv (fa_Shard r),
        fr_Err = ErrStaleNum\<rparr>)"
      "fa_Num r < num kv (fa_Shard r) \<or>
       fa_Num r = num kv (fa_Shard r) \<and> stat kv (fa_Shard r) \<noteq> Flozen"
  | (frozen) kv' where "num kv (fa_Shard r) \<le> fa_Num r"
      "fa_Num r = num kv (fa_Shard r) \<Longrightarrow> stat kv (fa_Shard r) = Flozen"
      "sk_freeze r kv = Some (kv', \<lparr>fr_State = [shard_table (fa_Shard r) (sk_table kv)],
        fr_Num = num kv (fa_Shard r), fr_Err = OK\<rparr>)"
      "sk_wf kv'" "tab kv' = tab kv"
      "\<And>s'. valid_shard s' \<Longrightarrow> stat kv' s' = (if s' = fa_Shard r then Flozen else stat kv s')"
      "\<And>s'. valid_shard s' \<Longrightarrow> num kv' s' = (if s' = fa_Shard r then fa_Num r else num kv s')"
proof -
  obtain kv' where kv': "sk_set (fa_Shard r) (fa_Num r) Flozen kv = Some kv'" "sk_wf kv'"
    "sk_table kv' = sk_table kv"
    "\<And>s'. valid_shard s' \<Longrightarrow> stat kv' s' = (if s' = fa_Shard r then Flozen else stat kv s')"
    "\<And>s'. valid_shard s' \<Longrightarrow> num kv' s' = (if s' = fa_Shard r then fa_Num r else num kv s')"
    using sk_set_eq [OF assms] by blast
  have "tab kv' = tab kv" using kv'(3) by (intro ext) (simp add: tab_def)
  then show thesis
    using stale frozen [of kv'] kv' assms
    by (cases "fa_Num r < num kv (fa_Shard r) \<or>
        fa_Num r = num kv (fa_Shard r) \<and> stat kv (fa_Shard r) \<noteq> Flozen")
      (auto simp: sk_freeze_def go_get_shard Let_def)
qed

lemma sk_install_cases:
  assumes "sk_wf kv" "valid_shard (ia_Shard r)"
  obtains (stale) "sk_install r kv = Some (kv, \<lparr>ir_Err = ErrStaleNum\<rparr>)"
      "ia_Num r < num kv (ia_Shard r) \<or>
       ia_Num r = num kv (ia_Shard r) \<and> stat kv (ia_Shard r) \<noteq> Serving"
  | (again) "sk_install r kv = Some (kv, \<lparr>ir_Err = OK\<rparr>)"
      "ia_Num r = num kv (ia_Shard r)" "stat kv (ia_Shard r) = Serving"
  | (installed) kv' where "num kv (ia_Shard r) < ia_Num r"
      "sk_install r kv = Some (kv', \<lparr>ir_Err = OK\<rparr>)" "sk_wf kv'"
      "\<And>s'. tab kv' s' = tab kv s' ++ part s' (table_store (decode_table (ia_State r)))"
      "\<And>s'. valid_shard s' \<Longrightarrow> stat kv' s' = (if s' = ia_Shard r then Serving else stat kv s')"
      "\<And>s'. valid_shard s' \<Longrightarrow> num kv' s' = (if s' = ia_Shard r then ia_Num r else num kv s')"
proof -
  obtain kv1 where kv1: "sk_set (ia_Shard r) (ia_Num r) Serving kv = Some kv1" "sk_wf kv1"
    "sk_table kv1 = sk_table kv"
    "\<And>s'. valid_shard s' \<Longrightarrow> stat kv1 s' = (if s' = ia_Shard r then Serving else stat kv s')"
    "\<And>s'. valid_shard s' \<Longrightarrow> num kv1 s' = (if s' = ia_Shard r then ia_Num r else num kv s')"
    using sk_set_eq [OF assms] by blast
  let ?kv' = "kv1\<lparr>sk_table := sk_table kv1 ++ decode_table (ia_State r)\<rparr>"
  have "tab ?kv' s' = tab kv s' ++ part s' (table_store (decode_table (ia_State r)))" for s'
    using kv1(3) by (simp add: tab_def table_store_add part_add)
  moreover have "sk_wf ?kv'" "stat ?kv' = stat kv1" "num ?kv' = num kv1"
    using kv1(2) by (simp_all add: sk_wf_def stat_def num_def fun_eq_iff)
  ultimately show thesis
    using stale again installed [of ?kv'] kv1 assms
    by (cases "ia_Num r < num kv (ia_Shard r)"; cases "ia_Num r = num kv (ia_Shard r)";
        cases "stat kv (ia_Shard r) = Serving") (auto simp: sk_install_def go_get_shard)
qed

lemma sk_delete_cases:
  assumes "sk_wf kv" "valid_shard (da_Shard r)"
  obtains (stale) "sk_delete r kv = Some (kv, \<lparr>dr_Err = ErrStaleNum\<rparr>)"
      "da_Num r < num kv (da_Shard r) \<or>
       da_Num r = num kv (da_Shard r) \<and> stat kv (da_Shard r) = Serving"
  | (again) "sk_delete r kv = Some (kv, \<lparr>dr_Err = OK\<rparr>)"
      "da_Num r = num kv (da_Shard r)" "stat kv (da_Shard r) = Absent"
  | (deleted) kv' where "num kv (da_Shard r) \<le> da_Num r"
      "da_Num r = num kv (da_Shard r) \<Longrightarrow> stat kv (da_Shard r) = Flozen"
      "sk_delete r kv = Some (kv', \<lparr>dr_Err = OK\<rparr>)" "sk_wf kv'"
      "\<And>s'. tab kv' s' = (if s' = da_Shard r then Map.empty else tab kv s')"
      "\<And>s'. valid_shard s' \<Longrightarrow> stat kv' s' = (if s' = da_Shard r then Absent else stat kv s')"
      "\<And>s'. valid_shard s' \<Longrightarrow> num kv' s' = (if s' = da_Shard r then da_Num r else num kv s')"
proof -
  obtain kv1 where kv1: "sk_set (da_Shard r) (da_Num r) Absent kv = Some kv1" "sk_wf kv1"
    "sk_table kv1 = sk_table kv"
    "\<And>s'. valid_shard s' \<Longrightarrow> stat kv1 s' = (if s' = da_Shard r then Absent else stat kv s')"
    "\<And>s'. valid_shard s' \<Longrightarrow> num kv1 s' = (if s' = da_Shard r then da_Num r else num kv s')"
    using sk_set_eq [OF assms] by blast
  let ?kv' = "kv1\<lparr>sk_table := (\<lambda>k. if Key2Shard k \<noteq> da_Shard r then sk_table kv1 k else None)\<rparr>"
  have tab: "tab ?kv' s' = (if s' = da_Shard r then Map.empty else tab kv s')" for s'
    using kv1(3) by (auto simp: tab_def part_def table_store_def fun_eq_iff)
  have frame: "sk_wf ?kv'" "stat ?kv' = stat kv1" "num ?kv' = num kv1"
    using kv1(2) by (simp_all add: sk_wf_def stat_def num_def fun_eq_iff)
  have eq: "sk_delete r kv = Some (
      if da_Num r < num kv (da_Shard r) then (kv, \<lparr>dr_Err = ErrStaleNum\<rparr>)
      else if da_Num r = num kv (da_Shard r) \<and> stat kv (da_Shard r) = Absent
      then (kv, \<lparr>dr_Err = OK\<rparr>)
      else if da_Num r = num kv (da_Shard r) \<and> stat kv (da_Shard r) = Serving
      then (kv, \<lparr>dr_Err = ErrStaleNum\<rparr>) else (?kv', \<lparr>dr_Err = OK\<rparr>))"
    using assms kv1(1) by (simp add: sk_delete_def go_get_shard)
  consider "da_Num r < num kv (da_Shard r)"
    | "da_Num r = num kv (da_Shard r)" "stat kv (da_Shard r) = Serving"
    | "da_Num r = num kv (da_Shard r)" "stat kv (da_Shard r) = Absent"
    | "num kv (da_Shard r) \<le> da_Num r" "da_Num r = num kv (da_Shard r) \<longrightarrow> stat kv (da_Shard r) = Flozen"
    by (cases "stat kv (da_Shard r)") linarith+
  then show thesis
  proof cases
    case 4
    then have "sk_delete r kv = Some (?kv', \<lparr>dr_Err = OK\<rparr>)" using eq by auto
    then show thesis using deleted [of ?kv'] 4 kv1(4,5) tab frame by simp
  qed (use stale again eq in simp_all)
qed

lemma Start_ok:
  "sk_wf (StartServerShardGrp gid i)"
  "valid_shard s \<Longrightarrow> stat (StartServerShardGrp gid i) s = (if gid = Gid1 then Serving else Absent)"
  "valid_shard s \<Longrightarrow> num (StartServerShardGrp gid i) s = 0"
  "tab (StartServerShardGrp gid i) s = Map.empty"
  by (auto simp: sk_wf_def StartServerShardGrp_def stat_def num_def valid_shard_def NShards_def
      tab_def part_def fun_eq_iff)

section \<open>Properties\<close>

text \<open>The interface of the replication layer, for states and requests that do not panic.\<close>

definition ShardGrp_apply :: "ShardKV \<Rightarrow> shard_req \<Rightarrow> ShardKV \<times> shard_rep" where
  "ShardGrp_apply kv req = (case ShardGrp_DoOp kv req of Some r \<Rightarrow> r | None \<Rightarrow> (kv, RNil))"

definition sk_view :: "ShardKV \<Rightarrow> gob_table \<times> grpStatus list \<times> int list" where
  "sk_view kv = (sk_table kv, sk_status kv, sk_nums kv)"

lemma sk_view_same:
  assumes "sk_view s = sk_view t"
  obtains m d g where "t = s\<lparr>sk_me := m, sk_dead := d, sk_gid := g\<rparr>"
  by (rule that [of "sk_gid t" "sk_dead t" "sk_me t"])
    (use assms in \<open>cases s; cases t; simp add: sk_view_def\<close>)

lemma ShardGrp_apply_view:
  "sk_view (fst (ShardGrp_apply (s\<lparr>sk_me := m, sk_dead := d, sk_gid := g\<rparr>) r)) =
     sk_view (fst (ShardGrp_apply s r)) \<and>
   snd (ShardGrp_apply (s\<lparr>sk_me := m, sk_dead := d, sk_gid := g\<rparr>) r) = snd (ShardGrp_apply s r)"
  by (cases r) (auto simp: ShardGrp_apply_def ShardGrp_DoOp_def sk_get_def sk_put_def store_entry_def
      sk_freeze_def sk_install_def sk_delete_def sk_set_def sk_view_def Let_def
      split: Option.bind_split option.splits)

interpretation shardgrp: state_machine ShardGrp_apply ShardGrp_Snapshot ShardGrp_Restore sk_view
proof unfold_locales
  show "sk_view (fst (ShardGrp_apply s r)) = sk_view (fst (ShardGrp_apply t r)) \<and>
      snd (ShardGrp_apply s r) = snd (ShardGrp_apply t r)" if "sk_view s = sk_view t" for s t r
    using sk_view_same [OF that] ShardGrp_apply_view by metis
  show "sk_view (ShardGrp_Restore (ShardGrp_Snapshot s) t) = sk_view s" for s t
    by (simp add: ShardGrp_Restore_def ShardGrp_Snapshot_def sk_view_def)
qed

definition req_valid :: "shard_req \<Rightarrow> bool" where
  "req_valid req = (case req of SFreeze r \<Rightarrow> valid_shard (fa_Shard r)
     | SInstall r \<Rightarrow> valid_shard (ia_Shard r) | SDelete r \<Rightarrow> valid_shard (da_Shard r) | _ \<Rightarrow> True)"

text \<open>
  C22 (a group's server is safe to drive).  In a well-formed state every request about an existing
  shard is executed without a panic, keeps the state well formed, and never lowers the
  configuration number of a shard.
\<close>

theorem ShardGrp_DoOp_safe:
  assumes "sk_wf kv" "req_valid req"
  shows "\<exists>kv' rep. ShardGrp_DoOp kv req = Some (kv', rep) \<and> sk_wf kv' \<and>
    (\<forall>s. valid_shard s \<longrightarrow> num kv s \<le> num kv' s)"
proof (cases req)
  case (SGet r)
  then show ?thesis using assms(1) sk_get_eq [OF assms(1), of r] by (simp add: ShardGrp_DoOp_def)
next
  case (SPut r)
  from assms(1) show ?thesis
    by (cases rule: sk_put_cases [where r = r]) (use SPut assms(1) in \<open>auto simp: ShardGrp_DoOp_def\<close>)
next
  case (SFreeze r)
  have "valid_shard (fa_Shard r)" using assms(2) SFreeze by (simp add: req_valid_def)
  from assms(1) this show ?thesis
    by (cases rule: sk_freeze_cases) (use SFreeze assms(1) in \<open>auto simp: ShardGrp_DoOp_def\<close>)
next
  case (SInstall r)
  have "valid_shard (ia_Shard r)" using assms(2) SInstall by (simp add: req_valid_def)
  from assms(1) this show ?thesis
    by (cases rule: sk_install_cases) (use SInstall assms(1) in \<open>auto simp: ShardGrp_DoOp_def\<close>)
next
  case (SDelete r)
  have "valid_shard (da_Shard r)" using assms(2) SDelete by (simp add: req_valid_def)
  from assms(1) this show ?thesis
    by (cases rule: sk_delete_cases) (use SDelete assms(1) in \<open>auto simp: ShardGrp_DoOp_def\<close>)
qed (use assms(1) in \<open>simp add: ShardGrp_DoOp_def\<close>)

theorem ShardGrp_DoOp_safe_witness:
  "\<exists>kv' rep. ShardGrp_DoOp (StartServerShardGrp 1 0) (SFreeze \<lparr>fa_Shard = 11, fa_Num = 2\<rparr>) =
     Some (kv', rep) \<and> num kv' 11 \<ge> 0"
proof -
  have "valid_shard 11" by (simp add: valid_shard_def NShards_def)
  with ShardGrp_DoOp_safe [OF Start_ok(1) [of 1 0], of "SFreeze \<lparr>fa_Shard = 11, fa_Num = 2\<rparr>"]
  show ?thesis using Start_ok(3) [of 11 1 0] by (fastforce simp: req_valid_def)
qed

text \<open>
  Freezing is final and repeatable.  Once a shard is frozen for number \<open>n\<close>, the group rejects
  every \<open>Get\<close> and \<open>Put\<close> of its keys without effect, and a repeated freeze for \<open>n\<close> changes
  nothing and returns the same state again, so a controller that lost the reply can ask again.
\<close>

theorem ShardGrp_freeze_final:
  assumes "sk_wf kv" "valid_shard s"
    and "sk_freeze \<lparr>fa_Shard = s, fa_Num = n\<rparr> kv = Some (kv', rep)" "fr_Err rep = OK"
  shows "(\<forall>r. Key2Shard (pa_Key r) = s \<longrightarrow> sk_put r kv' = Some (kv', \<lparr>pr_Err = ErrWrongGroup\<rparr>)) \<and>
    (\<forall>r. Key2Shard (ga_Key r) = s \<longrightarrow> map_option gr_Err (sk_get r kv') = Some ErrWrongGroup) \<and>
    (\<exists>rep'. sk_freeze \<lparr>fa_Shard = s, fa_Num = n\<rparr> kv' = Some (kv', rep') \<and> fr_Err rep' = OK \<and>
       fr_State rep' = fr_State rep)"
proof -
  let ?r = "\<lparr>fa_Shard = s, fa_Num = n\<rparr>"
  have "valid_shard (fa_Shard ?r)" using assms(2) by simp
  from assms(1) this have "sk_wf kv' \<and> stat kv' s = Flozen \<and> num kv' s = n \<and>
      fr_State rep = [shard_table s (sk_table kv')]"
  proof (cases rule: sk_freeze_cases)
    case (frozen kv1)
    then have "kv1 = kv'" using assms(3) by auto
    moreover have "sk_table kv1 = sk_table kv"
      using frozen(3) by (auto simp: sk_freeze_def bind_eq_Some_conv' sk_set_def Let_def split: if_splits)
    ultimately show ?thesis using frozen assms(2,3) by auto
  qed (use assms(3,4) in auto)
  then have f: "sk_wf kv'" "stat kv' s = Flozen" "num kv' s = n"
    "fr_State rep = [shard_table s (sk_table kv')]" by auto
  have "(sk_status kv')[nat s := Flozen] = sk_status kv'" "(sk_nums kv')[nat s := n] = sk_nums kv'"
    using f(2,3) by (metis stat_def list_update_id, metis num_def list_update_id)
  then have same: "sk_set s n Flozen kv' = Some kv'"
    using f(1) assms(2) by (simp add: sk_set_def go_set_def sk_wf_def valid_shard_def NShards_def)
  then have "sk_freeze ?r kv' = Some (kv', \<lparr>fr_State = [shard_table s (sk_table kv')], fr_Num = n, fr_Err = OK\<rparr>)"
    using f(1-3) assms(2) by (simp add: sk_freeze_def go_get_shard Let_def)
  moreover have "sk_put r kv' = Some (kv', \<lparr>pr_Err = ErrWrongGroup\<rparr>)" if "Key2Shard (pa_Key r) = s" for r
    using go_get_shard(1) [OF f(1) assms(2)] f(2) that by (simp add: sk_put_def)
  moreover have "map_option gr_Err (sk_get r kv') = Some ErrWrongGroup" if "Key2Shard (ga_Key r) = s" for r
    using f(1,2) that by (simp add: sk_get_eq)
  ultimately show ?thesis using f(4) by auto
qed

theorem ShardGrp_freeze_final_witness:
  "\<exists>kv' rep rep'. sk_freeze \<lparr>fa_Shard = 0, fa_Num = 2\<rparr> (StartServerShardGrp 1 0) = Some (kv', rep) \<and>
     sk_freeze \<lparr>fa_Shard = 0, fa_Num = 2\<rparr> kv' = Some (kv', rep') \<and> fr_State rep' = fr_State rep"
proof -
  let ?kv = "StartServerShardGrp 1 0" and ?r = "\<lparr>fa_Shard = 0, fa_Num = 2\<rparr>"
  have v: "valid_shard 0" by (simp add: valid_shard_def NShards_def)
  have "\<exists>kv' rep. sk_freeze ?r ?kv = Some (kv', rep) \<and> fr_Err rep = OK"
    by (simp add: sk_freeze_def StartServerShardGrp_def NShards_def go_get_def sk_set_def go_set_def Let_def)
  then obtain kv' rep where "sk_freeze ?r ?kv = Some (kv', rep)" "fr_Err rep = OK" by blast
  with ShardGrp_freeze_final [OF Start_ok(1) v this] show ?thesis by blast
qed

end
