(* ===== verification/ShardMigrate.thy ===== *)
theory ShardMigrate
  imports ShardGrp
begin

text \<open>
  Moving shards between groups (\<open>src/shardkv1\<close>): many controllers, each running the freeze,
  install, post and delete phases of \<open>ChangeConfigTo\<close> with lost, repeated and late RPCs, while
  clients read and write.  \<open>cfgs N\<close> is the configuration number \<open>N\<close>; the controllers agree on it
  through the configuration keys of the key/value server.  A step is one request executed by a
  shard group (whose replicas agree, see \<open>KvRaft\<close> and \<open>Rsm\<close>), or the posting of the next
  configuration.  What a step needs is what the code has done before it sends the request:
  freezing for \<open>N + 1\<close> follows a read of the posted configuration \<open>N\<close>, installing carries the
  state of an accepted freeze, posting follows an accepted install of every moved shard, and
  deleting follows the posting.
\<close>

section \<open>The system\<close>

datatype event = EvGet string GetReply | EvPut PutArgs Err

record migration =
  grps :: "int \<Rightarrow> ShardKV"
  curN :: int
  freezes :: "(int \<times> int \<times> gob_table list) set"
  installs :: "(int \<times> int) set"
  mtrace :: "event list"

definition owner :: "(int \<Rightarrow> ShardConfig) \<Rightarrow> int \<Rightarrow> int \<Rightarrow> int" where
  "owner cfgs N s = Shards (cfgs N) ! nat s"

definition mig_init :: migration where
  "mig_init = \<lparr>grps = (\<lambda>g. StartServerShardGrp g 0), curN = 1, freezes = {}, installs = {},
     mtrace = []\<rparr>"

definition set_grp :: "int \<Rightarrow> ShardKV \<Rightarrow> migration \<Rightarrow> migration" where
  "set_grp g kv C = C\<lparr>grps := (grps C)(g := kv)\<rparr>"

definition log_event :: "event \<Rightarrow> migration \<Rightarrow> migration" where
  "log_event e C = C\<lparr>mtrace := mtrace C @ [e]\<rparr>"

inductive mig_step :: "(int \<Rightarrow> ShardConfig) \<Rightarrow> migration \<Rightarrow> migration \<Rightarrow> bool"
  for cfgs :: "int \<Rightarrow> ShardConfig" where
  get: "sk_get r (grps C g) = Some rep \<Longrightarrow>
    mig_step cfgs C (log_event (EvGet (ga_Key r) rep) C)"
| put: "sk_put r (grps C g) = Some (kv, rep) \<Longrightarrow>
    mig_step cfgs C (log_event (EvPut r (pr_Err rep)) (set_grp g kv C))"
| freeze: "1 \<le> N \<Longrightarrow> N \<le> curN C \<Longrightarrow> valid_shard s \<Longrightarrow> owner cfgs N s \<noteq> owner cfgs (N + 1) s \<Longrightarrow>
    sk_freeze \<lparr>fa_Shard = s, fa_Num = N + 1\<rparr> (grps C (owner cfgs N s)) = Some (kv, rep) \<Longrightarrow>
    F = (if fr_Err rep = OK then {(s, N + 1, fr_State rep)} else {}) \<Longrightarrow>
    mig_step cfgs C (set_grp (owner cfgs N s) kv (C\<lparr>freezes := freezes C \<union> F\<rparr>))"
| install: "(s, K, d) \<in> freezes C \<Longrightarrow>
    sk_install \<lparr>ia_Shard = s, ia_State = d, ia_Num = K\<rparr> (grps C (owner cfgs K s)) = Some (kv, rep) \<Longrightarrow>
    I = (if ir_Err rep = OK then {(s, K)} else {}) \<Longrightarrow>
    mig_step cfgs C (set_grp (owner cfgs K s) kv (C\<lparr>installs := installs C \<union> I\<rparr>))"
| post: "(\<And>s. valid_shard s \<Longrightarrow> owner cfgs (curN C) s \<noteq> owner cfgs (curN C + 1) s \<Longrightarrow>
      (s, curN C + 1) \<in> installs C) \<Longrightarrow>
    mig_step cfgs C (C\<lparr>curN := curN C + 1\<rparr>)"
| delete: "1 \<le> N \<Longrightarrow> N + 1 \<le> curN C \<Longrightarrow> valid_shard s \<Longrightarrow>
    owner cfgs N s \<noteq> owner cfgs (N + 1) s \<Longrightarrow>
    sk_delete \<lparr>da_Shard = s, da_Num = N + 1\<rparr> (grps C (owner cfgs N s)) = Some (kv, rep) \<Longrightarrow>
    mig_step cfgs C (set_grp (owner cfgs N s) kv C)"

inductive mig_reach :: "(int \<Rightarrow> ShardConfig) \<Rightarrow> migration \<Rightarrow> bool"
  for cfgs :: "int \<Rightarrow> ShardConfig" where
  init: "mig_reach cfgs mig_init"
| step: "mig_reach cfgs C \<Longrightarrow> mig_step cfgs C C' \<Longrightarrow> mig_reach cfgs C'"

inductive_cases mig_stepE: "mig_step cfgs C C'"

section \<open>The specification: one store\<close>

text \<open>
  Requests answered with \<open>ErrWrongGroup\<close> had no effect and are retried by the clerk; all the
  others must be answered as by a single store that executes them in this order.
\<close>

fun ev_ok :: "store \<Rightarrow> event \<Rightarrow> bool" where
  "ev_ok m (EvGet k r) \<longleftrightarrow> gr_Err r = ErrWrongGroup \<or> r = spec_get m k"
| "ev_ok m (EvPut a e) \<longleftrightarrow> e = ErrWrongGroup \<or> e = snd (spec_put m a)"

fun ev_after :: "store \<Rightarrow> event \<Rightarrow> store" where
  "ev_after m (EvGet k r) = m"
| "ev_after m (EvPut a e) = (if e = ErrWrongGroup then m else fst (spec_put m a))"

fun explains :: "store \<Rightarrow> event list \<Rightarrow> bool" where
  "explains m [] \<longleftrightarrow> True"
| "explains m (e # es) \<longleftrightarrow> ev_ok m e \<and> explains (ev_after m e) es"

definition after :: "event list \<Rightarrow> store" where
  "after es = fold (\<lambda>e m. ev_after m e) es Map.empty"

lemma explains_snoc [simp]:
  "explains m (es @ [e]) \<longleftrightarrow> explains m es \<and> ev_ok (fold (\<lambda>e m. ev_after m e) es m) e"
  by (induction es arbitrary: m) auto

lemma after_snoc [simp]: "after (es @ [e]) = ev_after (after es) e"
  by (simp add: after_def)

section \<open>One shard\<close>

text \<open>
  The invariant of one shard, in terms of its owner in each configuration, and of its status,
  number and part of the store in every group.  Either the current owner serves it; or it is
  frozen there and on its way; or the next owner already serves it.
\<close>

definition serving_here ::
  "(int \<Rightarrow> int) \<Rightarrow> int \<Rightarrow> (int \<Rightarrow> grpStatus) \<Rightarrow> (int \<Rightarrow> int) \<Rightarrow> (int \<Rightarrow> store) \<Rightarrow>
   (int \<times> gob_table list) set \<Rightarrow> int set \<Rightarrow> store \<Rightarrow> bool" where
  "serving_here own N st nm tb Fz In A \<longleftrightarrow>
     st (own N) = Serving \<and> tb (own N) = A \<and> (\<forall>x. nm x \<le> N) \<and>
     (\<forall>x. x \<noteq> own N \<longrightarrow> st x \<noteq> Serving) \<and> (\<forall>d. (N + 1, d) \<notin> Fz) \<and> N + 1 \<notin> In"

definition in_transit ::
  "(int \<Rightarrow> int) \<Rightarrow> int \<Rightarrow> (int \<Rightarrow> grpStatus) \<Rightarrow> (int \<Rightarrow> int) \<Rightarrow> (int \<Rightarrow> store) \<Rightarrow>
   (int \<times> gob_table list) set \<Rightarrow> int set \<Rightarrow> store \<Rightarrow> bool" where
  "in_transit own N st nm tb Fz In A \<longleftrightarrow>
     own N \<noteq> own (N + 1) \<and> st (own N) = Flozen \<and> nm (own N) = N + 1 \<and> tb (own N) = A \<and>
     (\<forall>x. x \<noteq> own N \<longrightarrow> nm x \<le> N) \<and> (\<forall>x. st x \<noteq> Serving) \<and>
     (\<forall>d. (N + 1, d) \<in> Fz \<longrightarrow> (\<exists>t. d = [t] \<and> table_store t = A)) \<and> N + 1 \<notin> In"

definition moved ::
  "(int \<Rightarrow> int) \<Rightarrow> int \<Rightarrow> (int \<Rightarrow> grpStatus) \<Rightarrow> (int \<Rightarrow> int) \<Rightarrow> (int \<Rightarrow> store) \<Rightarrow> store \<Rightarrow> bool" where
  "moved own N st nm tb A \<longleftrightarrow>
     own N \<noteq> own (N + 1) \<and> st (own (N + 1)) = Serving \<and> nm (own (N + 1)) = N + 1 \<and>
     tb (own (N + 1)) = A \<and> st (own N) = Flozen \<and> nm (own N) = N + 1 \<and>
     (\<forall>x. x \<noteq> own N \<and> x \<noteq> own (N + 1) \<longrightarrow> nm x \<le> N) \<and> (\<forall>x. x \<noteq> own (N + 1) \<longrightarrow> st x \<noteq> Serving)"

definition past_moves ::
  "(int \<Rightarrow> int) \<Rightarrow> int \<Rightarrow> (int \<Rightarrow> grpStatus) \<Rightarrow> (int \<Rightarrow> int) \<Rightarrow> bool" where
  "past_moves own N st nm \<longleftrightarrow>
     (\<forall>M. 1 \<le> M \<and> M < N \<and> own M \<noteq> own (M + 1) \<longrightarrow>
        M + 1 \<le> nm (own M) \<and> (nm (own M) = M + 1 \<longrightarrow> st (own M) \<noteq> Serving) \<and>
        M + 1 \<le> nm (own (M + 1)) \<and> (nm (own (M + 1)) = M + 1 \<longrightarrow> st (own (M + 1)) = Serving))"

definition shard_ok ::
  "(int \<Rightarrow> int) \<Rightarrow> int \<Rightarrow> (int \<Rightarrow> grpStatus) \<Rightarrow> (int \<Rightarrow> int) \<Rightarrow> (int \<Rightarrow> store) \<Rightarrow>
   (int \<times> gob_table list) set \<Rightarrow> int set \<Rightarrow> store \<Rightarrow> bool" where
  "shard_ok own N st nm tb Fz In A \<longleftrightarrow>
     1 \<le> N \<and> (\<forall>x. dom (tb x) \<subseteq> dom A) \<and> past_moves own N st nm \<and>
     (\<forall>K d. (K, d) \<in> Fz \<longrightarrow> 2 \<le> K \<and> K \<le> N + 1 \<and> own (K - 1) \<noteq> own K) \<and> (\<forall>K\<in>In. K \<le> N + 1) \<and>
     (serving_here own N st nm tb Fz In A \<or> in_transit own N st nm tb Fz In A \<or>
      moved own N st nm tb A)"

lemma shard_ok_cases:
  assumes "shard_ok own N st nm tb Fz In A"
  obtains (serving) "serving_here own N st nm tb Fz In A"
  | (transit) "in_transit own N st nm tb Fz In A"
  | (moved) "moved own N st nm tb A"
  using assms unfolding shard_ok_def by blast

lemma shard_okD:
  assumes "shard_ok own N st nm tb Fz In A"
  shows "1 \<le> N" "\<And>x. dom (tb x) \<subseteq> dom A" "past_moves own N st nm"
    "\<And>K d. (K, d) \<in> Fz \<Longrightarrow> 2 \<le> K \<and> K \<le> N + 1 \<and> own (K - 1) \<noteq> own K"
    "\<And>K. K \<in> In \<Longrightarrow> K \<le> N + 1"
  using assms unfolding shard_ok_def by blast+

lemma shard_okI:
  assumes "1 \<le> N" "\<And>x. dom (tb x) \<subseteq> dom A" "past_moves own N st nm"
    "\<And>K d. (K, d) \<in> Fz \<Longrightarrow> 2 \<le> K \<and> K \<le> N + 1 \<and> own (K - 1) \<noteq> own K"
    "\<And>K. K \<in> In \<Longrightarrow> K \<le> N + 1"
    "serving_here own N st nm tb Fz In A \<or> in_transit own N st nm tb Fz In A \<or>
      moved own N st nm tb A"
  shows "shard_ok own N st nm tb Fz In A"
  using assms unfolding shard_ok_def by blast

lemma past_movesD:
  assumes "past_moves own N st nm" "1 \<le> M" "M < N" "own M \<noteq> own (M + 1)"
  shows "M + 1 \<le> nm (own M)" "nm (own M) = M + 1 \<Longrightarrow> st (own M) \<noteq> Serving"
    "M + 1 \<le> nm (own (M + 1))" "nm (own (M + 1)) = M + 1 \<Longrightarrow> st (own (M + 1)) = Serving"
  using assms unfolding past_moves_def by blast+

lemma shard_ok_serving:
  assumes ok: "shard_ok own N st nm tb Fz In A" and x: "st x = Serving"
  shows "tb x = A" and "st y = Serving \<Longrightarrow> x = y"
proof -
  have "tb x = A \<and> (st y = Serving \<longrightarrow> x = y)"
    using ok
  proof (cases rule: shard_ok_cases)
    case serving
    then have "x = own N" using x unfolding serving_here_def by blast
    then show ?thesis using serving unfolding serving_here_def by metis
  next
    case transit
    then show ?thesis using x unfolding in_transit_def by blast
  next
    case moved
    then have "x = own (N + 1)" using x unfolding moved_def by blast
    then show ?thesis using moved unfolding moved_def by metis
  qed
  then show "tb x = A" and "st y = Serving \<Longrightarrow> x = y" by auto
qed

lemma shard_ok_put:
  assumes ok: "shard_ok own N st nm tb Fz In A" and x: "st x = Serving" and A': "dom A \<subseteq> dom A'"
  shows "shard_ok own N st nm (tb(x := A')) Fz In A'"
proof -
  have "serving_here own N st nm (tb(x := A')) Fz In A' \<or> moved own N st nm (tb(x := A')) A'"
    using ok
  proof (cases rule: shard_ok_cases)
    case serving
    then have "x = own N" using x unfolding serving_here_def by blast
    then show ?thesis using serving unfolding serving_here_def by simp
  next
    case transit
    then show ?thesis using x unfolding in_transit_def by blast
  next
    case moved
    then have "x = own (N + 1)" using x unfolding moved_def by blast
    then show ?thesis using moved unfolding moved_def by simp
  qed
  moreover have "dom ((tb(x := A')) y) \<subseteq> dom A'" for y
    using shard_okD(2) [OF ok, of y] A' by (cases "y = x") auto
  ultimately show ?thesis using shard_okD [OF ok] by (intro shard_okI) blast+
qed

lemma shard_ok_freeze:
  assumes ok: "shard_ok own N st nm tb Fz In A" and M: "1 \<le> M" "M \<le> N" "own M \<noteq> own (M + 1)"
    and le: "nm (own M) \<le> M + 1" and eq: "nm (own M) = M + 1 \<Longrightarrow> st (own M) = Flozen"
    and t: "table_store t = tb (own M)"
  shows "shard_ok own N (st(own M := Flozen)) (nm(own M := M + 1)) tb (insert (M + 1, [t]) Fz) In A"
proof (cases "nm (own M) = M + 1")
  case True
  then have same: "st(own M := Flozen) = st" "nm(own M := M + 1) = nm"
    using eq by (auto simp: fun_eq_iff)
  have "serving_here own N st nm tb (insert (M + 1, [t]) Fz) In A \<or>
      in_transit own N st nm tb (insert (M + 1, [t]) Fz) In A \<or> moved own N st nm tb A"
    using ok
  proof (cases rule: shard_ok_cases)
    case serving
    then have "M \<noteq> N" using True unfolding serving_here_def by (metis zle_add1_eq_le less_irrefl)
    then show ?thesis using serving unfolding serving_here_def by simp
  next
    case transit
    then show ?thesis using t unfolding in_transit_def by auto
  qed blast
  then show ?thesis
    unfolding same using shard_okD [OF ok] M by (intro shard_okI) auto
next
  case False
  have "\<not> M < N" using past_movesD(1) [OF shard_okD(3) [OF ok] M(1) _ M(3)] le False by auto
  then have "M = N" using M(2) by simp
  have sh: "serving_here own N st nm tb Fz In A"
    using ok False unfolding shard_ok_def in_transit_def moved_def \<open>M = N\<close> by blast
  have "in_transit own N (st(own M := Flozen)) (nm(own M := M + 1)) tb (insert (M + 1, [t]) Fz) In A"
    using sh M(3) t unfolding serving_here_def in_transit_def \<open>M = N\<close> by auto
  moreover have "past_moves own N (st(own M := Flozen)) (nm(own M := M + 1))"
    using shard_okD(3) [OF ok] sh unfolding past_moves_def serving_here_def \<open>M = N\<close>
    by (smt (verit, best) fun_upd_apply grpStatus.distinct(5))
  ultimately show ?thesis
    using shard_okD [OF ok] M by (intro shard_okI) auto
qed

lemma shard_ok_install:
  assumes ok: "shard_ok own N st nm tb Fz In A" and d: "(K, d) \<in> Fz" and lt: "nm (own K) < K"
  shows "shard_ok own N (st(own K := Serving)) (nm(own K := K))
      (tb(own K := tb (own K) ++ table_store (decode_table d))) Fz (insert K In) A"
proof -
  have K: "2 \<le> K" "K \<le> N + 1" "own (K - 1) \<noteq> own K" using shard_okD(4) [OF ok d] by auto
  have "\<not> K \<le> N" using past_movesD(3) [OF shard_okD(3) [OF ok], of "K - 1"] K lt by auto
  then have KN: "K = N + 1" using K(2) by simp
  have tr: "in_transit own N st nm tb Fz In A"
    using ok d lt unfolding shard_ok_def serving_here_def moved_def KN by auto
  then obtain t where t: "d = [t]" "table_store t = A" using d unfolding in_transit_def KN by blast
  have "dom (tb (own K)) \<subseteq> dom A" by (rule shard_okD(2) [OF ok])
  then have tbA: "tb (own K) ++ table_store (decode_table d) = A"
    using t by (simp add: decode_table_def map_add_subsumed2 map_le_def fun_eq_iff map_add_def
        split: option.splits) blast
  have "moved own N (st(own K := Serving)) (nm(own K := K))
      (tb(own K := tb (own K) ++ table_store (decode_table d))) A"
    using tr tbA unfolding moved_def in_transit_def KN by auto
  moreover have "past_moves own N (st(own K := Serving)) (nm(own K := K))"
    using shard_okD(3) [OF ok] tr unfolding past_moves_def in_transit_def KN
    by (smt (verit, best) fun_upd_apply)
  moreover have "dom ((tb(own K := tb (own K) ++ table_store (decode_table d))) x) \<subseteq> dom A" for x
    using shard_okD(2) [OF ok, of x] unfolding tbA by (cases "x = own K") auto
  ultimately show ?thesis using shard_okD [OF ok] K by (intro shard_okI) auto
qed

lemma shard_ok_install_again:
  assumes ok: "shard_ok own N st nm tb Fz In A" and d: "(K, d) \<in> Fz"
    and eq: "nm (own K) = K" "st (own K) = Serving"
  shows "shard_ok own N st nm tb Fz (insert K In) A"
proof -
  have "serving_here own N st nm tb Fz (insert K In) A \<or> moved own N st nm tb A"
    using ok
  proof (cases rule: shard_ok_cases)
    case serving
    then have "K \<noteq> N + 1" using eq(1) unfolding serving_here_def by (metis zle_add1_eq_le less_irrefl)
    then show ?thesis using serving unfolding serving_here_def by simp
  next
    case transit
    then show ?thesis using eq(2) unfolding in_transit_def by blast
  qed blast
  then show ?thesis using shard_okD [OF ok] d by (intro shard_okI) blast+
qed

lemma shard_ok_post:
  assumes ok: "shard_ok own N st nm tb Fz In A" and moves: "own N \<noteq> own (N + 1) \<Longrightarrow> N + 1 \<in> In"
  shows "shard_ok own (N + 1) st nm tb Fz In A"
proof -
  have late: "(N + 1 + 1, d) \<notin> Fz" "N + 1 + 1 \<notin> In" for d
    using shard_okD(4,5) [OF ok] by fastforce+
  have "serving_here own (N + 1) st nm tb Fz In A \<and> past_moves own (N + 1) st nm"
    using ok
  proof (cases rule: shard_ok_cases)
    case serving
    then have "own (N + 1) = own N" using moves unfolding serving_here_def by auto
    then have "serving_here own (N + 1) st nm tb Fz In A"
      using serving late unfolding serving_here_def by (auto intro: order_trans)
    moreover have "past_moves own (N + 1) st nm"
      using shard_okD(3) [OF ok] \<open>own (N + 1) = own N\<close> unfolding past_moves_def
      by (metis zless_add1_eq)
    ultimately show ?thesis ..
  next
    case transit
    then show ?thesis using moves unfolding in_transit_def by blast
  next
    case moved
    then have "serving_here own (N + 1) st nm tb Fz In A"
      using late unfolding moved_def serving_here_def
      by (metis add_increasing2 order_refl zero_le_one)
    moreover have "past_moves own (N + 1) st nm"
      unfolding past_moves_def
    proof (intro allI impI)
      fix M assume M: "1 \<le> M \<and> M < N + 1 \<and> own M \<noteq> own (M + 1)"
      show "M + 1 \<le> nm (own M) \<and> (nm (own M) = M + 1 \<longrightarrow> st (own M) \<noteq> Serving) \<and>
        M + 1 \<le> nm (own (M + 1)) \<and> (nm (own (M + 1)) = M + 1 \<longrightarrow> st (own (M + 1)) = Serving)"
      proof (cases "M = N")
        case True
        then show ?thesis using moved unfolding moved_def by auto
      next
        case False
        then show ?thesis using past_movesD [OF shard_okD(3) [OF ok], of M] M by auto
      qed
    qed
    ultimately show ?thesis ..
  qed
  then show ?thesis using shard_okD [OF ok] by (intro shard_okI) force+
qed

lemma shard_ok_delete:
  assumes ok: "shard_ok own N st nm tb Fz In A" and M: "1 \<le> M" "M + 1 \<le> N" "own M \<noteq> own (M + 1)"
    and le: "nm (own M) \<le> M + 1" and eq: "nm (own M) = M + 1 \<Longrightarrow> st (own M) = Flozen"
  shows "shard_ok own N (st(own M := Absent)) (nm(own M := M + 1)) (tb(own M := Map.empty)) Fz In A"
proof -
  have "M + 1 \<le> nm (own M)" using past_movesD(1) [OF shard_okD(3) [OF ok] M(1) _ M(3)] M(2) by simp
  then have n: "nm (own M) = M + 1" "st (own M) = Flozen" using le eq by auto
  then have nm: "nm(own M := M + 1) = nm" by auto
  have "serving_here own N (st(own M := Absent)) nm (tb(own M := Map.empty)) Fz In A
      \<or> in_transit own N (st(own M := Absent)) nm (tb(own M := Map.empty)) Fz In A
      \<or> moved own N (st(own M := Absent)) nm (tb(own M := Map.empty)) A"
    using ok
  proof (cases rule: shard_ok_cases)
    case serving
    then have "own M \<noteq> own N" using n unfolding serving_here_def by auto
    then show ?thesis using serving unfolding serving_here_def by auto
  next
    case transit
    then have "own M \<noteq> own N" using n M(2) unfolding in_transit_def by auto
    then show ?thesis using transit unfolding in_transit_def by auto
  next
    case moved
    then have "own M \<noteq> own N" "own M \<noteq> own (N + 1)" using n M(2) unfolding moved_def by auto
    then show ?thesis using moved unfolding moved_def by auto
  qed
  moreover have "past_moves own N (st(own M := Absent)) nm"
    unfolding past_moves_def
  proof (intro allI impI)
    fix L assume L: "1 \<le> L \<and> L < N \<and> own L \<noteq> own (L + 1)"
    note p = past_movesD [OF shard_okD(3) [OF ok], of L]
    have "own (L + 1) \<noteq> own M" if "nm (own (L + 1)) = L + 1"
      using p(4) L that n by auto
    then show "L + 1 \<le> nm (own L) \<and> (nm (own L) = L + 1 \<longrightarrow> (st(own M := Absent)) (own L) \<noteq> Serving) \<and>
        L + 1 \<le> nm (own (L + 1)) \<and>
        (nm (own (L + 1)) = L + 1 \<longrightarrow> (st(own M := Absent)) (own (L + 1)) = Serving)"
      using p L by auto
  qed
  moreover have "dom ((tb(own M := Map.empty)) x) \<subseteq> dom A" for x
    using shard_okD(2) [OF ok, of x] by (cases "x = own M") auto
  ultimately show ?thesis unfolding nm using shard_okD [OF ok] by (intro shard_okI) blast+
qed

section \<open>All shards\<close>

definition mig_inv :: "(int \<Rightarrow> ShardConfig) \<Rightarrow> migration \<Rightarrow> bool" where
  "mig_inv cfgs C \<longleftrightarrow>
     (\<forall>g. sk_wf (grps C g)) \<and>
     (\<forall>s K d. (s, K, d) \<in> freezes C \<longrightarrow> valid_shard s \<and> (\<exists>t. d = [shard_table s t])) \<and>
     (\<forall>s. valid_shard s \<longrightarrow>
        shard_ok (\<lambda>N. owner cfgs N s) (curN C) (\<lambda>g. stat (grps C g) s) (\<lambda>g. num (grps C g) s)
          (\<lambda>g. tab (grps C g) s) {(K, d). (s, K, d) \<in> freezes C} {K. (s, K) \<in> installs C}
          (part s (after (mtrace C)))) \<and>
     explains Map.empty (mtrace C)"

lemma mig_invD:
  assumes "mig_inv cfgs C"
  shows "sk_wf (grps C g)" "(s, K, d) \<in> freezes C \<Longrightarrow> valid_shard s \<and> (\<exists>t. d = [shard_table s t])"
    "valid_shard s \<Longrightarrow>
      shard_ok (\<lambda>N. owner cfgs N s) (curN C) (\<lambda>g. stat (grps C g) s) (\<lambda>g. num (grps C g) s)
        (\<lambda>g. tab (grps C g) s) {(K, d). (s, K, d) \<in> freezes C} {K. (s, K) \<in> installs C}
        (part s (after (mtrace C)))"
    "explains Map.empty (mtrace C)"
  using assms unfolding mig_inv_def by blast+

lemma set_grp_simps [simp]:
  "grps (set_grp g kv C) = (grps C)(g := kv)" "curN (set_grp g kv C) = curN C"
  "freezes (set_grp g kv C) = freezes C" "installs (set_grp g kv C) = installs C"
  "mtrace (set_grp g kv C) = mtrace C"
  "grps (log_event e C) = grps C" "curN (log_event e C) = curN C"
  "freezes (log_event e C) = freezes C" "installs (log_event e C) = installs C"
  "mtrace (log_event e C) = mtrace C @ [e]"
  by (simp_all add: set_grp_def log_event_def)

lemma spec_get_part: "spec_get (part (Key2Shard k) m) k = spec_get m k"
  by (simp add: spec_get_def part_def)

lemma spec_put_part:
  "snd (spec_put (part (Key2Shard (pa_Key a)) m) a) = snd (spec_put m a)"
  "fst (spec_put (part (Key2Shard (pa_Key a)) m) a) = part (Key2Shard (pa_Key a)) (fst (spec_put m a))"
  "s \<noteq> Key2Shard (pa_Key a) \<Longrightarrow> part s (fst (spec_put m a)) = part s m"
  by (auto simp: spec_put_def part_def current_version_def fun_eq_iff)

lemma spec_put_dom_mono: "dom m \<subseteq> dom (fst (spec_put m a))"
  by (auto simp: spec_put_def)

lemma spec_codes: "gr_Err (spec_get m k) \<noteq> ErrWrongGroup" "snd (spec_put m a) \<noteq> ErrWrongGroup"
  by (auto simp: spec_get_def spec_put_def split: option.splits)

text \<open>A request about one shard changes one group's part of that shard only.\<close>

lemma shard_ok_other:
  assumes "shard_ok own N (\<lambda>x. stat (G x) t) (\<lambda>x. num (G x) t) (\<lambda>x. tab (G x) t) Fz In A"
    and "stat kv t = stat (G g) t" "num kv t = num (G g) t" "tab kv t = tab (G g) t"
  shows "shard_ok own N (\<lambda>x. stat ((G(g := kv)) x) t) (\<lambda>x. num ((G(g := kv)) x) t)
      (\<lambda>x. tab ((G(g := kv)) x) t) Fz In A"
proof -
  have "(\<lambda>x. stat ((G(g := kv)) x) t) = (\<lambda>x. stat (G x) t)"
    "(\<lambda>x. num ((G(g := kv)) x) t) = (\<lambda>x. num (G x) t)"
    "(\<lambda>x. tab ((G(g := kv)) x) t) = (\<lambda>x. tab (G x) t)"
    using assms(2-4) by (auto simp: fun_eq_iff)
  then show ?thesis using assms(1) by (simp only:)
qed

lemma grp_upd_here:
  "(\<lambda>x. f ((G(g := kv)) x) s) = (\<lambda>x. f (G x) s)(g := f kv s)"
  by auto

lemma mig_inv_init:
  assumes "\<And>s. valid_shard s \<Longrightarrow> owner cfgs 1 s = Gid1"
  shows "mig_inv cfgs mig_init"
proof -
  have "part s (after []) = Map.empty" for s by (simp add: after_def part_def fun_eq_iff)
  then show ?thesis
    using assms by (auto simp: mig_inv_def mig_init_def Start_ok shard_ok_def past_moves_def
        serving_here_def)
qed

lemma mig_inv_step:
  assumes inv: "mig_inv cfgs C" and step: "mig_step cfgs C C'"
  shows "mig_inv cfgs C'"
  using step
proof cases
  case (get r g rep)
  let ?s = "Key2Shard (ga_Key r)"
  note ok = mig_invD(3) [OF inv valid_Key2Shard [of "ga_Key r"]]
  have "ev_ok (after (mtrace C)) (EvGet (ga_Key r) rep)"
  proof (cases "stat (grps C g) ?s = Serving")
    case True
    then have "tab (grps C g) ?s = part ?s (after (mtrace C))"
      using shard_ok_serving(1) [OF ok, of g] by simp
    then show ?thesis using sk_get_eq [OF mig_invD(1) [OF inv], of r g] get(2) True
      by (simp add: spec_get_part)
  next
    case False
    then show ?thesis using sk_get_eq [OF mig_invD(1) [OF inv], of r g] get(2) by auto
  qed
  then show ?thesis
    using inv get(1) by (simp add: mig_inv_def after_def)
next
  case (put r g kv rep)
  let ?s = "Key2Shard (pa_Key r)" and ?A = "after (mtrace C)"
  note ok = mig_invD(3) [OF inv valid_Key2Shard [of "pa_Key r"]]
  show ?thesis
    using mig_invD(1) [OF inv, of g]
  proof (cases rule: sk_put_cases [where r = r])
    case wrong
    then have "C' = log_event (EvPut r ErrWrongGroup) C"
      using put by (simp add: set_grp_def log_event_def)
    then show ?thesis using inv by (simp add: mig_inv_def after_def)
  next
    case (served kv')
    have A: "tab (grps C g) ?s = part ?s ?A"
      using shard_ok_serving(1) [OF ok, of g] served(1) by simp
    have kv: "kv = kv'" "pr_Err rep = snd (spec_put ?A r)"
      using put(2) served(3) by (auto simp: A spec_put_part)
    have C': "mtrace C' = mtrace C @ [EvPut r (pr_Err rep)]" "grps C' = (grps C)(g := kv')"
      "curN C' = curN C" "freezes C' = freezes C" "installs C' = installs C"
      using put(1) kv(1) by simp_all
    have after: "after (mtrace C') = fst (spec_put ?A r)"
      using spec_codes(2) by (simp add: C' kv(2))
    have "shard_ok (\<lambda>N. owner cfgs N s) (curN C') (\<lambda>g. stat (grps C' g) s) (\<lambda>g. num (grps C' g) s)
        (\<lambda>g. tab (grps C' g) s) {(K, d). (s, K, d) \<in> freezes C'} {K. (s, K) \<in> installs C'}
        (part s (after (mtrace C')))" if s: "valid_shard s" for s
    proof (cases "s = ?s")
      case False
      then show ?thesis
        unfolding after unfolding C' spec_put_part(3) [OF False]
        by (intro shard_ok_other [OF mig_invD(3) [OF inv s]]) (use served in simp_all)
    next
      case True
      have st: "(\<lambda>x. stat (((grps C)(g := kv')) x) ?s) = (\<lambda>x. stat (grps C x) ?s)"
        "(\<lambda>x. num (((grps C)(g := kv')) x) ?s) = (\<lambda>x. num (grps C x) ?s)"
        using served by auto
      have tb: "(\<lambda>x. tab (((grps C)(g := kv')) x) ?s) =
          (\<lambda>x. tab (grps C x) ?s)(g := part ?s (fst (spec_put ?A r)))"
        using served(6) [of ?s] by (intro ext) (simp add: A spec_put_part(2))
      have "dom (part ?s ?A) \<subseteq> dom (part ?s (fst (spec_put ?A r)))"
        using spec_put_dom_mono [of "part ?s ?A" r] by (simp add: spec_put_part)
      from shard_ok_put [OF ok _ this, of g] served(1) show ?thesis
        unfolding True after unfolding C' st tb by simp
    qed
    moreover have "explains Map.empty (mtrace C')"
      using mig_invD(4) [OF inv] kv(2) by (simp add: C' after_def)
    moreover have "sk_wf (grps C' x)" for x
      using mig_invD(1) [OF inv] served(2) by (simp add: C')
    ultimately show ?thesis
      using mig_invD(2) [OF inv] unfolding mig_inv_def C'(4) by blast
  qed
next
  case (freeze N s kv rep F)
  let ?g = "owner cfgs N s" and ?r = "\<lparr>fa_Shard = s, fa_Num = N + 1\<rparr>"
  note ok = mig_invD(3) [OF inv freeze(4)]
  have C': "curN C' = curN C" "freezes C' = freezes C \<union> F" "installs C' = installs C"
    "mtrace C' = mtrace C" "grps C' = (grps C)(?g := kv)"
    using freeze(1) by simp_all
  have s': "valid_shard (fa_Shard ?r)" using freeze(4) by simp
  show ?thesis
    using mig_invD(1) [OF inv, of ?g] s'
  proof (cases rule: sk_freeze_cases)
    case stale
    then have "kv = grps C ?g" "F = {}" using freeze(6,7) by auto
    then have "C' = C" using freeze(1) by (simp add: set_grp_def)
    then show ?thesis using inv by simp
  next
    case (frozen kv')
    have kv: "kv = kv'" "F = {(s, N + 1, [shard_table s (sk_table (grps C ?g))])}"
      using freeze(6,7) frozen(3) by auto
    have "shard_ok (\<lambda>N. owner cfgs N t) (curN C') (\<lambda>g. stat (grps C' g) t) (\<lambda>g. num (grps C' g) t)
        (\<lambda>g. tab (grps C' g) t) {(K, d). (t, K, d) \<in> freezes C'} {K. (t, K) \<in> installs C'}
        (part t (after (mtrace C')))" if t: "valid_shard t" for t
    proof (cases "t = s")
      case False
      have Fz: "{(K, d). (t, K, d) \<in> freezes C \<union> F} = {(K, d). (t, K, d) \<in> freezes C}"
        using False kv(2) by auto
      show ?thesis
        unfolding C' kv(1) Fz
        by (intro shard_ok_other [OF mig_invD(3) [OF inv t]]) (use frozen(5-7) t False in simp_all)
    next
      case True
      have tb: "(\<lambda>x. tab (((grps C)(?g := kv')) x) s) = (\<lambda>x. tab (grps C x) s)"
        using frozen(5) by auto
      have Fz: "{(K, d). (s, K, d) \<in> freezes C \<union> F} =
          insert (N + 1, [shard_table s (sk_table (grps C ?g))]) {(K, d). (s, K, d) \<in> freezes C}"
        using kv(2) by auto
      have up: "stat kv' s = Flozen" "num kv' s = N + 1"
        using frozen(6,7) [OF freeze(4)] by simp_all
      show ?thesis
        unfolding True C' kv(1) tb Fz grp_upd_here [of stat] grp_upd_here [of num] up
        by (rule shard_ok_freeze [OF ok freeze(2,3,5)]) (use frozen(1,2) in \<open>simp_all add: tab_def\<close>)
    qed
    moreover have "sk_wf (grps C' x)" for x
      using mig_invD(1) [OF inv] frozen(4) by (simp add: C' kv(1))
    moreover have "valid_shard t \<and> (\<exists>u. d = [shard_table t u])" if "(t, K, d) \<in> freezes C'" for t K d
      using that mig_invD(2) [OF inv] freeze(4) unfolding C' kv(2) by blast
    ultimately show ?thesis
      using mig_invD(4) [OF inv] unfolding mig_inv_def C'(4) by blast
  qed
next
  case (install s K d kv rep I)
  let ?g = "owner cfgs K s" and ?r = "\<lparr>ia_Shard = s, ia_State = d, ia_Num = K\<rparr>"
  have s: "valid_shard s" using mig_invD(2) [OF inv install(2)] by blast
  note ok = mig_invD(3) [OF inv s]
  have C': "curN C' = curN C" "freezes C' = freezes C" "installs C' = installs C \<union> I"
    "mtrace C' = mtrace C" "grps C' = (grps C)(?g := kv)"
    using install(1) by simp_all
  have In: "{K'. (s, K') \<in> installs C \<union> {(s, K)}} = insert K {K'. (s, K') \<in> installs C}"
    "t \<noteq> s \<Longrightarrow> {K'. (t, K') \<in> installs C \<union> {(s, K)}} = {K'. (t, K') \<in> installs C}" for t
    by auto
  have s': "valid_shard (ia_Shard ?r)" using s by simp
  show ?thesis
    using mig_invD(1) [OF inv, of ?g] s'
  proof (cases rule: sk_install_cases)
    case stale
    then have "kv = grps C ?g" "I = {}" using install(3,4) by auto
    then have "C' = C" using install(1) by (simp add: set_grp_def)
    then show ?thesis using inv by simp
  next
    case again
    then have kv: "kv = grps C ?g" "I = {(s, K)}" using install(3,4) by auto
    have "shard_ok (\<lambda>N. owner cfgs N t) (curN C') (\<lambda>g. stat (grps C' g) t) (\<lambda>g. num (grps C' g) t)
        (\<lambda>g. tab (grps C' g) t) {(K, d). (t, K, d) \<in> freezes C'} {K. (t, K) \<in> installs C'}
        (part t (after (mtrace C')))" if t: "valid_shard t" for t
    proof (cases "t = s")
      case True
      show ?thesis
        unfolding True C' kv fun_upd_triv In(1)
        by (rule shard_ok_install_again [OF ok, of K d]) (use again install(2) in simp_all)
    next
      case False
      show ?thesis unfolding C' kv fun_upd_triv In(2) [OF False] by (rule mig_invD(3) [OF inv t])
    qed
    then show ?thesis
      using mig_invD(1,2,4) [OF inv] unfolding mig_inv_def C'(2,4) C'(5) kv(1) fun_upd_triv by blast
  next
    case (installed kv')
    have kv: "kv = kv'" "I = {(s, K)}" using install(3,4) installed(2) by auto
    obtain t0 where d: "d = [shard_table s t0]" using mig_invD(2) [OF inv install(2)] by blast
    have data: "part t (table_store (decode_table d)) =
        (if t = s then table_store (decode_table d) else Map.empty)" for t
      by (simp add: d decode_table_def part_part)
    have "shard_ok (\<lambda>N. owner cfgs N t) (curN C') (\<lambda>g. stat (grps C' g) t) (\<lambda>g. num (grps C' g) t)
        (\<lambda>g. tab (grps C' g) t) {(K, d). (t, K, d) \<in> freezes C'} {K. (t, K) \<in> installs C'}
        (part t (after (mtrace C')))" if t: "valid_shard t" for t
    proof (cases "t = s")
      case False
      show ?thesis
        unfolding C' kv In(2) [OF False]
        by (intro shard_ok_other [OF mig_invD(3) [OF inv t]])
          (use installed(4-6) t False in \<open>simp_all add: data\<close>)
    next
      case True
      have up: "stat kv' s = Serving" "num kv' s = K"
        "tab kv' s = tab (grps C ?g) s ++ table_store (decode_table d)"
        using installed(4-6) s by (simp_all add: data)
      show ?thesis
        unfolding True C' kv In(1) grp_upd_here [of stat] grp_upd_here [of num] grp_upd_here [of tab] up
        by (rule shard_ok_install [OF ok]) (use install(2) installed(1) in simp_all)
    qed
    moreover have "sk_wf (grps C' x)" for x
      using mig_invD(1) [OF inv] installed(3) by (simp add: C' kv(1))
    ultimately show ?thesis
      using mig_invD(2,4) [OF inv] unfolding mig_inv_def C'(2,4) by blast
  qed
next
  case post
  have "shard_ok (\<lambda>N. owner cfgs N s) (curN C + 1) (\<lambda>g. stat (grps C g) s) (\<lambda>g. num (grps C g) s)
      (\<lambda>g. tab (grps C g) s) {(K, d). (s, K, d) \<in> freezes C} {K. (s, K) \<in> installs C}
      (part s (after (mtrace C)))" if s: "valid_shard s" for s
    by (rule shard_ok_post [OF mig_invD(3) [OF inv s]]) (use post(2) s in simp)
  then show ?thesis using mig_invD(1,2,4) [OF inv] unfolding mig_inv_def post(1) by simp
next
  case (delete N s kv rep)
  let ?g = "owner cfgs N s" and ?r = "\<lparr>da_Shard = s, da_Num = N + 1\<rparr>"
  note ok = mig_invD(3) [OF inv delete(4)]
  have C': "curN C' = curN C" "freezes C' = freezes C" "installs C' = installs C"
    "mtrace C' = mtrace C" "grps C' = (grps C)(?g := kv)"
    using delete(1) by simp_all
  have s': "valid_shard (da_Shard ?r)" using delete(4) by simp
  show ?thesis
    using mig_invD(1) [OF inv, of ?g] s'
  proof (cases rule: sk_delete_cases)
    case stale
    then have "C' = C" using delete(1,6) by (simp add: set_grp_def)
    then show ?thesis using inv by simp
  next
    case again
    then have "C' = C" using delete(1,6) by (simp add: set_grp_def)
    then show ?thesis using inv by simp
  next
    case (deleted kv')
    have kv: "kv = kv'" using delete(6) deleted(3) by auto
    have "shard_ok (\<lambda>N. owner cfgs N t) (curN C') (\<lambda>g. stat (grps C' g) t) (\<lambda>g. num (grps C' g) t)
        (\<lambda>g. tab (grps C' g) t) {(K, d). (t, K, d) \<in> freezes C'} {K. (t, K) \<in> installs C'}
        (part t (after (mtrace C')))" if t: "valid_shard t" for t
    proof (cases "t = s")
      case False
      show ?thesis
        unfolding C' kv
        by (intro shard_ok_other [OF mig_invD(3) [OF inv t]]) (use deleted(5-7) t False in simp_all)
    next
      case True
      have up: "stat kv' s = Absent" "num kv' s = N + 1" "tab kv' s = Map.empty"
        using deleted(5-7) delete(4) by simp_all
      show ?thesis
        unfolding True C' kv grp_upd_here [of stat] grp_upd_here [of num] grp_upd_here [of tab] up
        by (rule shard_ok_delete [OF ok delete(2,3,5)]) (use deleted(1,2) in simp_all)
    qed
    moreover have "sk_wf (grps C' x)" for x
      using mig_invD(1) [OF inv] deleted(4) by (simp add: C' kv)
    ultimately show ?thesis
      using mig_invD(2,4) [OF inv] unfolding mig_inv_def C'(2,4) by blast
  qed
qed

section \<open>Properties\<close>

lemma mig_inv_reach:
  assumes "mig_reach cfgs C" "\<And>s. valid_shard s \<Longrightarrow> owner cfgs 1 s = Gid1"
  shows "mig_inv cfgs C"
  using assms by (induction) (auto intro: mig_inv_init mig_inv_step)

text \<open>
  C11 (the sharded store is one store).  Start from a first configuration that gives every shard to
  \<open>Gid1\<close>, and let any sequence of configurations be installed by any number of controllers whose
  RPCs may be lost, repeated and executed late, while clients send \<open>Get\<close> and \<open>Put\<close> to any group
  at any time.  In every reachable state: every reply that is not \<open>ErrWrongGroup\<close> is the one a
  single store executing these requests in this order gives; at most one group serves a shard; and
  a group that serves a shard holds exactly that store's part of it.
\<close>

theorem sharded_store_linearizable:
  assumes "mig_reach cfgs C" "\<And>s. valid_shard s \<Longrightarrow> owner cfgs 1 s = Gid1"
  shows "explains Map.empty (mtrace C) \<and>
    (\<forall>s g h. valid_shard s \<and> stat (grps C g) s = Serving \<longrightarrow>
       tab (grps C g) s = part s (after (mtrace C)) \<and> (stat (grps C h) s = Serving \<longrightarrow> g = h))"
proof -
  note inv = mig_inv_reach [OF assms]
  have "tab (grps C g) s = part s (after (mtrace C)) \<and> (stat (grps C h) s = Serving \<longrightarrow> g = h)"
    if "valid_shard s" "stat (grps C g) s = Serving" for s g h
    using shard_ok_serving(1) [OF mig_invD(3) [OF inv that(1)], of g]
      shard_ok_serving(2) [OF mig_invD(3) [OF inv that(1)], of g h] that(2) by simp
  then show ?thesis using mig_invD(4) [OF inv] by blast
qed

text \<open>
  C12 (no data is lost in transit).  In every reachable state the current owner of a shard, or its
  next owner, holds the whole of the shard's data.
\<close>

theorem shard_data_never_lost:
  assumes "mig_reach cfgs C" "\<And>s. valid_shard s \<Longrightarrow> owner cfgs 1 s = Gid1" "valid_shard s"
  shows "\<exists>g \<in> {owner cfgs (curN C) s, owner cfgs (curN C + 1) s}.
    stat (grps C g) s \<noteq> Absent \<and> tab (grps C g) s = part s (after (mtrace C))"
proof -
  let ?g = "owner cfgs (curN C) s" and ?h = "owner cfgs (curN C + 1) s"
  from mig_invD(3) [OF mig_inv_reach [OF assms(1,2)] assms(3)]
  have "stat (grps C ?g) s \<noteq> Absent \<and> tab (grps C ?g) s = part s (after (mtrace C)) \<or>
    stat (grps C ?h) s \<noteq> Absent \<and> tab (grps C ?h) s = part s (after (mtrace C))"
    by (cases rule: shard_ok_cases) (simp_all add: serving_here_def in_transit_def moved_def)
  then show ?thesis by blast
qed

text \<open>A run that moves shard \<open>Key2Shard ''k''\<close> from group 1 to group 2 under a written key.\<close>

definition demo_cfgs :: "int \<Rightarrow> ShardConfig" where
  "demo_cfgs N = \<lparr>Num = N, Shards = replicate 12 (if N \<le> 1 then 1 else 2),
     Groups = fmupd 1 [''a''] (fmupd 2 [''b''] fmempty)\<rparr>"

lemma demo_owner: "valid_shard s \<Longrightarrow> owner demo_cfgs N s = (if N \<le> 1 then 1 else 2)"
  by (auto simp: owner_def demo_cfgs_def valid_shard_def NShards_def)

lemma demo_owner_init: "valid_shard s \<Longrightarrow> owner demo_cfgs 1 s = Gid1"
  by (simp add: demo_owner Gid1_def)

lemma demo_mig:
  "\<exists>C. mig_reach demo_cfgs C \<and> mtrace C =
     [EvPut \<lparr>pa_Key = ''k'', pa_Value = ''x'', pa_Version = 0\<rparr> OK] \<and>
     stat (grps C 1) (Key2Shard ''k'') = Flozen"
proof -
  let ?a = "\<lparr>pa_Key = ''k'', pa_Value = ''x'', pa_Version = 0\<rparr>" and ?s = "Key2Shard ''k''"
  have o: "owner demo_cfgs 1 ?s = 1" "owner demo_cfgs (1 + 1) ?s = 2"
    by (simp_all add: demo_owner)
  have st: "stat (grps mig_init 1) ?s = Serving" "sk_wf (grps mig_init 1)"
    "tab (grps mig_init 1) ?s = Map.empty" "num (grps mig_init 1) ?s = 0"
    by (simp_all add: mig_init_def Start_ok Gid1_def)
  obtain kv where put: "sk_put ?a (grps mig_init 1) = Some (kv, \<lparr>pr_Err = OK\<rparr>)"
    and kv: "sk_wf kv" "num kv ?s = 0"
  proof -
    from st(2) show thesis
      by (cases rule: sk_put_cases [where r = ?a])
        (use st that in \<open>auto simp: spec_put_def current_version_def\<close>)
  qed
  let ?C1 = "log_event (EvPut ?a OK) (set_grp 1 kv mig_init)"
  have "mig_step demo_cfgs mig_init ?C1" using mig_step.put [OF put] by simp
  then have r1: "mig_reach demo_cfgs ?C1" using mig_reach.init mig_reach.step by blast
  let ?r = "\<lparr>fa_Shard = ?s, fa_Num = 1 + 1\<rparr>"
  have "\<exists>kv' rep. sk_freeze ?r kv = Some (kv', rep) \<and> stat kv' ?s = Flozen"
  proof -
    have "valid_shard (fa_Shard ?r)" by simp
    from kv(1) this show ?thesis by (cases rule: sk_freeze_cases) (use kv(2) in auto)
  qed
  then obtain kv' rep where f: "sk_freeze ?r kv = Some (kv', rep)" "stat kv' ?s = Flozen" by blast
  have "sk_freeze ?r (grps ?C1 (owner demo_cfgs 1 ?s)) = Some (kv', rep)" using f(1) o(1) by simp
  from mig_step.freeze [OF _ _ valid_Key2Shard _ this refl] o
  have "\<exists>C2. mig_step demo_cfgs ?C1 C2 \<and> mtrace C2 = mtrace ?C1 \<and> grps C2 1 = kv'"
    by (force simp: mig_init_def)
  then show ?thesis
    using mig_reach.step [OF r1] f(2) by (force simp: mig_init_def)
qed

theorem sharded_store_linearizable_witness:
  "\<exists>C. mig_reach demo_cfgs C \<and> explains Map.empty (mtrace C) \<and> length (mtrace C) = 1"
proof -
  obtain C where C: "mig_reach demo_cfgs C"
    "mtrace C = [EvPut \<lparr>pa_Key = ''k'', pa_Value = ''x'', pa_Version = 0\<rparr> OK]"
    using demo_mig by blast
  show ?thesis using sharded_store_linearizable [OF C(1) demo_owner_init] C by auto
qed

theorem shard_data_never_lost_witness:
  "\<exists>C g. mig_reach demo_cfgs C \<and> stat (grps C 1) (Key2Shard ''k'') = Flozen \<and>
     tab (grps C g) (Key2Shard ''k'') ''k'' = Some (''x'', 1)"
proof -
  obtain C where C: "mig_reach demo_cfgs C"
    "mtrace C = [EvPut \<lparr>pa_Key = ''k'', pa_Value = ''x'', pa_Version = 0\<rparr> OK]"
    "stat (grps C 1) (Key2Shard ''k'') = Flozen"
    using demo_mig by blast
  obtain g where "tab (grps C g) (Key2Shard ''k'') = part (Key2Shard ''k'') (after (mtrace C))"
    using shard_data_never_lost [OF C(1) demo_owner_init valid_Key2Shard [of "''k''"]] by blast
  moreover have "part (Key2Shard ''k'') (after (mtrace C)) ''k'' = Some (''x'', 1)"
    by (simp add: C(2) after_def part_def spec_put_def current_version_def)
  ultimately show ?thesis using C(1,3) by metis
qed

end
