(* ===== verification/ShardCtrl.thy ===== *)
theory ShardCtrl
  imports ShardMigrate
begin

text \<open>
  The shard controller of lab 5 (\<open>src/shardkv1/shardctrler/shardctrler.go\<close>).  Any number of
  controllers keep the configuration and the next configuration under two keys of one lab 2
  server.  The control state of a controller says where in \<open>InitController\<close>, \<open>InitConfig\<close> or
  \<open>ChangeConfigTo\<close> it is and holds the local variables that are live there; each handler is the
  code between two calls.  Calls of the clerk retry until a reply arrives, so a step is one
  executed (or lost) RPC of the clerk.

  \<open>String\<close> and \<open>FromString\<close> are \<open>encoding/json\<close>: they are the parameters \<open>enc\<close> and \<open>dec\<close>, of
  which only this is used: decoding an encoded configuration gives it back, and the empty string
  does not decode (\<open>log.Fatalf\<close>).
\<close>

section \<open>Control states and handlers\<close>

datatype ctrl_pc =
    CIdle
  | CInitGet
  | CInitCur ShardConfig
  | CInitConfig ShardConfig bool
  | CGetCfg ShardConfig
  | CGetNext ShardConfig ShardConfig Tversion
  | CPutNext ShardConfig ShardConfig Tversion Tversion bool
  | CCheckNext ShardConfig ShardConfig Tversion
  | CMove ShardConfig ShardConfig Tversion
  | CPost ShardConfig ShardConfig Tversion bool
  | CCheckCur ShardConfig ShardConfig Tversion
  | CDelete ShardConfig ShardConfig
  | CFatal

text \<open>\<open>MakeShardCtrler\<close> fixes the two names.\<close>

definition cfgName :: string where "cfgName = ''kun''"
definition nextName :: string where "nextName = ''kun-next''"

lemma names_differ [simp]: "cfgName \<noteq> nextName" "nextName \<noteq> cfgName"
  by (simp_all add: cfgName_def nextName_def)

definition from_string :: "(string \<Rightarrow> ShardConfig option) \<Rightarrow> string \<Rightarrow> (ShardConfig \<Rightarrow> ctrl_pc) \<Rightarrow> ctrl_pc" where
  "from_string dec s k = (case dec s of None \<Rightarrow> CFatal | Some c \<Rightarrow> k c)"

definition init_next :: "(string \<Rightarrow> ShardConfig option) \<Rightarrow> GetReply \<Rightarrow> ctrl_pc" where
  "init_next dec r = (if gr_Err r \<noteq> OK then CIdle else from_string dec (gr_Value r) CInitCur)"

definition init_cur :: "(string \<Rightarrow> ShardConfig option) \<Rightarrow> ShardConfig \<Rightarrow> GetReply \<Rightarrow> ctrl_pc" where
  "init_cur dec nxt r = from_string dec (gr_Value r) (\<lambda>cur.
     if Num nxt > Num cur then CGetCfg nxt else CIdle)"

definition got_cfg :: "(string \<Rightarrow> ShardConfig option) \<Rightarrow> ShardConfig \<Rightarrow> GetReply \<Rightarrow> ctrl_pc" where
  "got_cfg dec new r = from_string dec (gr_Value r) (\<lambda>old.
     if Num new \<le> Num old then CIdle else CGetNext new old (gr_Version r))"

definition got_next :: "(ShardConfig \<Rightarrow> string) \<Rightarrow> (string \<Rightarrow> ShardConfig option) \<Rightarrow>
    ShardConfig \<Rightarrow> ShardConfig \<Rightarrow> Tversion \<Rightarrow> GetReply \<Rightarrow> ctrl_pc" where
  "got_next enc dec new old version r =
     (if gr_Err r = OK then from_string dec (gr_Value r) (\<lambda>nxt.
        if Num nxt > Num old then if enc nxt \<noteq> enc new then CIdle else CMove new old version
        else CPutNext new old version (gr_Version r) True)
      else if gr_Err r = ErrNoKey then CPutNext new old version 0 True
      else CIdle)"

definition put_next :: "ShardConfig \<Rightarrow> ShardConfig \<Rightarrow> Tversion \<Rightarrow> Err \<Rightarrow> ctrl_pc" where
  "put_next new old version err =
     (if err \<noteq> OK then CCheckNext new old version else CMove new old version)"

definition check_next :: "(ShardConfig \<Rightarrow> string) \<Rightarrow> (string \<Rightarrow> ShardConfig option) \<Rightarrow>
    ShardConfig \<Rightarrow> ShardConfig \<Rightarrow> Tversion \<Rightarrow> GetReply \<Rightarrow> ctrl_pc" where
  "check_next enc dec new old version r =
     (if gr_Err r \<noteq> OK then CIdle
      else from_string dec (gr_Value r) (\<lambda>got.
        if enc got \<noteq> enc new then CIdle else CMove new old version))"

text \<open>The shards the two loops over \<open>old.Shards\<close> start a goroutine for.\<close>

definition moved_shards :: "ShardConfig \<Rightarrow> ShardConfig \<Rightarrow> int list" where
  "moved_shards old new =
     filter (\<lambda>s. Shards new ! nat s \<noteq> Shards old ! nat s) [0..int (length (Shards old)) - 1]"

text \<open>One goroutine of the first loop: freeze at the old group, install at the new one.\<close>

definition move_shard :: "(gob_table list \<times> Err) \<Rightarrow> (gob_table list \<Rightarrow> Err) \<Rightarrow> bool" where
  "move_shard frozen install = (case frozen of (st, err) \<Rightarrow>
     if err \<noteq> OK then False else install st = OK)"

definition moves_done :: "bool \<Rightarrow> ShardConfig \<Rightarrow> ShardConfig \<Rightarrow> Tversion \<Rightarrow> ctrl_pc" where
  "moves_done failed new old version = (if failed then CIdle else CPost new old version True)"

definition post :: "ShardConfig \<Rightarrow> ShardConfig \<Rightarrow> Tversion \<Rightarrow> Err \<Rightarrow> ctrl_pc" where
  "post new old version err = (if err = OK then CDelete new old else CCheckCur new old version)"

definition check_cur :: "(string \<Rightarrow> ShardConfig option) \<Rightarrow> ShardConfig \<Rightarrow> ShardConfig \<Rightarrow> Tversion \<Rightarrow>
    GetReply \<Rightarrow> ctrl_pc" where
  "check_cur dec new old version r =
     (if gr_Err r \<noteq> OK then CPost new old version True
      else from_string dec (gr_Value r) (\<lambda>cur.
        if Num cur > Num new then CIdle
        else if Num cur = Num new then CDelete new old
        else CPost new old (gr_Version r) True))"

text \<open>\<open>Query\<close>.\<close>

definition Query :: "(string \<Rightarrow> ShardConfig option) \<Rightarrow> KVServer \<Rightarrow> ShardConfig option" where
  "Query dec kv = dec (gr_Value (KVServer_Get kv \<lparr>ga_Key = cfgName\<rparr>))"

section \<open>Steps\<close>

text \<open>Which \<open>Get\<close> or \<open>Put\<close> a control state is in, and what follows it.\<close>

fun get_of :: "ctrl_pc \<Rightarrow> string option" where
  "get_of CInitGet = Some nextName"
| "get_of (CInitCur nxt) = Some cfgName"
| "get_of (CGetCfg new) = Some cfgName"
| "get_of (CGetNext new old v) = Some nextName"
| "get_of (CCheckNext new old v) = Some nextName"
| "get_of (CCheckCur new old v) = Some cfgName"
| "get_of _ = None"

fun on_get :: "(ShardConfig \<Rightarrow> string) \<Rightarrow> (string \<Rightarrow> ShardConfig option) \<Rightarrow> ctrl_pc \<Rightarrow> GetReply \<Rightarrow> ctrl_pc" where
  "on_get enc dec CInitGet r = init_next dec r"
| "on_get enc dec (CInitCur nxt) r = init_cur dec nxt r"
| "on_get enc dec (CGetCfg new) r = got_cfg dec new r"
| "on_get enc dec (CGetNext new old v) r = got_next enc dec new old v r"
| "on_get enc dec (CCheckNext new old v) r = check_next enc dec new old v r"
| "on_get enc dec (CCheckCur new old v) r = check_cur dec new old v r"
| "on_get enc dec pc r = pc"

fun put_of :: "ctrl_pc \<Rightarrow> (string \<times> ShardConfig \<times> Tversion \<times> bool) option" where
  "put_of (CInitConfig cfg f) = Some (cfgName, cfg, 0, f)"
| "put_of (CPutNext new old v nver f) = Some (nextName, new, nver, f)"
| "put_of (CPost new old v f) = Some (cfgName, new, v, f)"
| "put_of _ = None"

fun retry :: "ctrl_pc \<Rightarrow> ctrl_pc" where
  "retry (CInitConfig cfg f) = CInitConfig cfg False"
| "retry (CPutNext new old v nver f) = CPutNext new old v nver False"
| "retry (CPost new old v f) = CPost new old v False"
| "retry pc = pc"

fun on_put :: "ctrl_pc \<Rightarrow> Err \<Rightarrow> ctrl_pc" where
  "on_put (CInitConfig cfg f) err = CIdle"
| "on_put (CPutNext new old v nver f) err = put_next new old v err"
| "on_put (CPost new old v f) err = post new old v err"
| "on_put pc err = pc"

definition cfg_args :: "(ShardConfig \<Rightarrow> string) \<Rightarrow> string \<Rightarrow> ShardConfig \<Rightarrow> Tversion \<Rightarrow> PutArgs" where
  "cfg_args enc k c v = \<lparr>pa_Key = k, pa_Value = enc c, pa_Version = v\<rparr>"

record 'i ctl =
  ct_srv :: KVServer
  ct_pc :: "'i \<Rightarrow> ctrl_pc"

definition ctl_init :: "'i ctl" where
  "ctl_init = \<lparr>ct_srv = MakeKVServer, ct_pc = (\<lambda>_. CIdle)\<rparr>"

definition ctl_goto :: "'i \<Rightarrow> ctrl_pc \<Rightarrow> 'i ctl \<Rightarrow> 'i ctl" where
  "ctl_goto i pc S = S\<lparr>ct_pc := (ct_pc S)(i := pc)\<rparr>"

definition ctl_serve :: "PutArgs \<Rightarrow> 'i ctl \<Rightarrow> 'i ctl" where
  "ctl_serve a S = S\<lparr>ct_srv := fst (KVServer_Put (ct_srv S) a)\<rparr>"

definition ctl_answer :: "PutArgs \<Rightarrow> bool \<Rightarrow> 'i ctl \<Rightarrow> Err" where
  "ctl_answer a f S = put_result f (pr_Err (snd (KVServer_Put (ct_srv S) a)))"

inductive ctl_step :: "(ShardConfig \<Rightarrow> string) \<Rightarrow> (string \<Rightarrow> ShardConfig option) \<Rightarrow> ShardConfig set \<Rightarrow>
    'i ctl \<Rightarrow> 'i ctl \<Rightarrow> bool"
  for enc :: "ShardConfig \<Rightarrow> string" and dec :: "string \<Rightarrow> ShardConfig option"
    and cfgs :: "ShardConfig set" where
  call: "ct_pc S i = CIdle \<Longrightarrow> new \<in> cfgs \<Longrightarrow> pc \<in> {CInitGet, CInitConfig new True, CGetCfg new} \<Longrightarrow>
    ctl_step enc dec cfgs S (ctl_goto i pc S)"
| get: "get_of (ct_pc S i) = Some k \<Longrightarrow>
    ctl_step enc dec cfgs S
      (ctl_goto i (on_get enc dec (ct_pc S i) (KVServer_Get (ct_srv S) \<lparr>ga_Key = k\<rparr>)) S)"
| lost: "put_of (ct_pc S i) = Some (k, c, v, f) \<Longrightarrow>
    ctl_step enc dec cfgs S (ctl_goto i (retry (ct_pc S i)) S)"
| silent: "put_of (ct_pc S i) = Some (k, c, v, f) \<Longrightarrow> a = cfg_args enc k c v \<Longrightarrow>
    ctl_step enc dec cfgs S (ctl_goto i (retry (ct_pc S i)) (ctl_serve a S))"
| put: "put_of (ct_pc S i) = Some (k, c, v, f) \<Longrightarrow> a = cfg_args enc k c v \<Longrightarrow>
    ctl_step enc dec cfgs S (ctl_goto i (on_put (ct_pc S i) (ctl_answer a f S)) (ctl_serve a S))"
| moves: "ct_pc S i = CMove new old v \<Longrightarrow>
    ctl_step enc dec cfgs S (ctl_goto i (moves_done failed new old v) S)"
| deletes: "ct_pc S i = CDelete new old \<Longrightarrow> ctl_step enc dec cfgs S (ctl_goto i CIdle S)"

inductive ctl_run :: "(ShardConfig \<Rightarrow> string) \<Rightarrow> (string \<Rightarrow> ShardConfig option) \<Rightarrow> ShardConfig set \<Rightarrow>
    nat \<Rightarrow> 'i ctl \<Rightarrow> bool"
  for enc :: "ShardConfig \<Rightarrow> string" and dec :: "string \<Rightarrow> ShardConfig option"
    and cfgs :: "ShardConfig set" where
  init: "ctl_run enc dec cfgs 0 ctl_init"
| step: "ctl_run enc dec cfgs m S \<Longrightarrow> ctl_step enc dec cfgs S S' \<Longrightarrow> ctl_run enc dec cfgs (Suc m) S'"

section \<open>The invariant\<close>

text \<open>
  \<open>hc\<close> and \<open>hn\<close> list the configurations the two keys have held, oldest first; version \<open>j\<close> of a
  key is entry \<open>j - 1\<close>.  Their numbers strictly increase.
\<close>

definition cfg_entry :: "(ShardConfig \<Rightarrow> string) \<Rightarrow> ShardConfig list \<Rightarrow> (string \<times> Tversion) option" where
  "cfg_entry enc h = (if h = [] then None else Some (enc (last h), of_nat (length h)))"

definition rising :: "ShardConfig list \<Rightarrow> bool" where
  "rising h \<longleftrightarrow> sorted_wrt (\<lambda>a b. Num a < Num b) h"

text \<open>Version \<open>v\<close> of the key was current when its number was below \<open>n\<close>.\<close>

definition below :: "ShardConfig list \<Rightarrow> Tversion \<Rightarrow> int \<Rightarrow> bool" where
  "below h v n \<longleftrightarrow> (\<exists>j \<le> length h. v = of_nat j \<and> (0 < j \<longrightarrow> Num (h ! (j - 1)) < n))"

definition ctl_pc_inv :: "ShardConfig set \<Rightarrow> ShardConfig list \<Rightarrow> ShardConfig list \<Rightarrow> ctrl_pc \<Rightarrow> bool" where
  "ctl_pc_inv cfgs hc hn pc = (case pc of
     CInitCur nxt \<Rightarrow> nxt \<in> cfgs
   | CInitConfig cfg f \<Rightarrow> cfg \<in> cfgs
   | CGetCfg new \<Rightarrow> new \<in> cfgs
   | CGetNext new old v \<Rightarrow> new \<in> cfgs \<and> below hc v (Num new) \<and> Num old < Num new
   | CPutNext new old v nver f \<Rightarrow> new \<in> cfgs \<and> below hc v (Num new) \<and> below hn nver (Num new)
   | CCheckNext new old v \<Rightarrow> new \<in> cfgs \<and> below hc v (Num new)
   | CMove new old v \<Rightarrow> new \<in> set hn \<and> below hc v (Num new)
   | CPost new old v f \<Rightarrow> new \<in> set hn \<and> below hc v (Num new)
   | CCheckCur new old v \<Rightarrow> new \<in> set hn \<and> below hc v (Num new)
   | CDelete new old \<Rightarrow> new \<in> set hn
   | _ \<Rightarrow> True)"

definition ctl_inv :: "(ShardConfig \<Rightarrow> string) \<Rightarrow> ShardConfig set \<Rightarrow> nat \<Rightarrow> ShardConfig list \<Rightarrow>
    ShardConfig list \<Rightarrow> 'i ctl \<Rightarrow> bool" where
  "ctl_inv enc cfgs m hc hn S \<longleftrightarrow>
     length hc \<le> m \<and> length hn \<le> m \<and> rising hc \<and> rising hn \<and> set hc \<union> set hn \<subseteq> cfgs \<and>
     kv_abs (ct_srv S) cfgName = cfg_entry enc hc \<and> kv_abs (ct_srv S) nextName = cfg_entry enc hn \<and>
     (\<forall>i. ctl_pc_inv cfgs hc hn (ct_pc S i))"

lemma ctl_simps [simp]:
  "ct_srv (ctl_goto i pc S) = ct_srv S" "ct_pc (ctl_goto i pc S) = (ct_pc S)(i := pc)"
  "ct_srv (ctl_serve a S) = fst (KVServer_Put (ct_srv S) a)" "ct_pc (ctl_serve a S) = ct_pc S"
  by (simp_all add: ctl_goto_def ctl_serve_def)

lemma below_snoc: "below h v n \<Longrightarrow> below (h @ [c]) v n"
proof -
  assume "below h v n"
  then obtain j where "j \<le> length h" "v = of_nat j" "0 < j \<longrightarrow> Num (h ! (j - 1)) < n"
    by (auto simp: below_def)
  then show ?thesis unfolding below_def by (intro exI [of _ j]) (auto simp: nth_append)
qed

lemma pc_inv_grow:
  "ctl_pc_inv cfgs hc hn pc \<Longrightarrow> ctl_pc_inv cfgs (hc @ [c]) hn pc"
  "ctl_pc_inv cfgs hc hn pc \<Longrightarrow> ctl_pc_inv cfgs hc (hn @ [c]) pc"
  by (cases pc; auto simp: ctl_pc_inv_def below_snoc)+

lemma rising_snoc: "rising h \<Longrightarrow> (h \<noteq> [] \<Longrightarrow> Num (last h) < Num c) \<Longrightarrow> rising (h @ [c])"
  by (cases h rule: rev_cases) (auto simp: rising_def sorted_wrt_append)

lemma rising_unique: "rising h \<Longrightarrow> a \<in> set h \<Longrightarrow> b \<in> set h \<Longrightarrow> Num a = Num b \<Longrightarrow> a = b"
  by (auto simp: rising_def in_set_conv_nth sorted_wrt_iff_nth_less)
    (metis less_irrefl linorder_neqE_nat)

lemma below_current:
  assumes "below h v n" "v = of_nat (length h)" "length h < 2 ^ 64" "h \<noteq> []"
  shows "Num (last h) < n"
proof -
  obtain j where j: "j \<le> length h" "v = of_nat j" "0 < j \<longrightarrow> Num (h ! (j - 1)) < n"
    using assms(1) by (auto simp: below_def)
  then have "j = length h" using assms(2,3) by (intro of_nat_word64_inj) auto
  then show ?thesis using j assms(4) by (auto simp: last_conv_nth)
qed

lemma get_cfg_reply:
  assumes "kv_abs kv k = cfg_entry enc h" "r = KVServer_Get kv \<lparr>ga_Key = k\<rparr>"
  shows "h = [] \<Longrightarrow> gr_Err r = ErrNoKey \<and> gr_Value r = ''''"
    "h \<noteq> [] \<Longrightarrow> gr_Err r = OK \<and> gr_Value r = enc (last h) \<and> gr_Version r = of_nat (length h)"
  using assms by (auto simp: kv_simps spec_get_def cfg_entry_def)

lemma put_cfg:
  assumes "kv_abs kv k = cfg_entry enc h"
  shows "kv_abs (fst (KVServer_Put kv (cfg_args enc k c v))) k =
      cfg_entry enc (if v = of_nat (length h) then h @ [c] else h)"
    "pr_Err (snd (KVServer_Put kv (cfg_args enc k c v))) = OK \<longleftrightarrow> v = of_nat (length h)"
proof -
  have "current_version (kv_abs kv) k = of_nat (length h)"
    using assms by (simp add: current_version_def cfg_entry_def)
  then show "kv_abs (fst (KVServer_Put kv (cfg_args enc k c v))) k =
      cfg_entry enc (if v = of_nat (length h) then h @ [c] else h)"
    "pr_Err (snd (KVServer_Put kv (cfg_args enc k c v))) = OK \<longleftrightarrow> v = of_nat (length h)"
    using assms by (auto simp: kv_simps spec_put_def cfg_args_def cfg_entry_def)
qed

lemma put_cfg_other:
  "k \<noteq> k' \<Longrightarrow> kv_abs (fst (KVServer_Put kv (cfg_args enc k c v))) k' = kv_abs kv k'"
  by (simp add: kv_simps cfg_args_def spec_put_other)

lemma below_now: "h \<noteq> [] \<Longrightarrow> Num (last h) < n \<Longrightarrow> below h (of_nat (length h)) n"
  by (auto simp: below_def last_conv_nth intro!: exI [of _ "length h"])

lemma below_zero: "below h 0 n"
  by (auto simp: below_def intro!: exI [of _ 0])

text \<open>The codec, as far as the controllers rely on it.\<close>

definition codec :: "(ShardConfig \<Rightarrow> string) \<Rightarrow> (string \<Rightarrow> ShardConfig option) \<Rightarrow> ShardConfig set \<Rightarrow> bool" where
  "codec enc dec cfgs \<longleftrightarrow> (\<forall>c\<in>cfgs. dec (enc c) = Some c) \<and> dec '''' = None"

lemma on_get_inv:
  assumes inv: "ctl_inv enc cfgs m hc hn S" and codec: "codec enc dec cfgs"
    and k: "get_of (ct_pc S i) = Some k" and r: "r = KVServer_Get (ct_srv S) \<lparr>ga_Key = k\<rparr>"
  shows "ctl_pc_inv cfgs hc hn (on_get enc dec (ct_pc S i) r)"
proof -
  have pc: "ctl_pc_inv cfgs hc hn (ct_pc S i)" and sub: "set hc \<union> set hn \<subseteq> cfgs"
    and ent: "kv_abs (ct_srv S) cfgName = cfg_entry enc hc" "kv_abs (ct_srv S) nextName = cfg_entry enc hn"
    using inv by (simp_all add: ctl_inv_def)
  have c: "hc = [] \<and> gr_Err r = ErrNoKey \<and> gr_Value r = '''' \<or> hc \<noteq> [] \<and> gr_Err r = OK \<and>
      dec (gr_Value r) = Some (last hc) \<and> gr_Version r = of_nat (length hc)" if "k = cfgName"
  proof (cases "hc = []")
    case False
    then have "last hc \<in> cfgs" using sub last_in_set [of hc] by blast
    then show ?thesis using get_cfg_reply(2) [OF ent(1), of r] r that codec False by (simp add: codec_def)
  qed (use get_cfg_reply(1) [OF ent(1), of r] r that in simp)
  have n: "hn = [] \<and> gr_Err r = ErrNoKey \<and> gr_Value r = '''' \<or> hn \<noteq> [] \<and> gr_Err r = OK \<and>
      dec (gr_Value r) = Some (last hn) \<and> gr_Version r = of_nat (length hn) \<and>
      last hn \<in> cfgs" if "k = nextName"
  proof (cases "hn = []")
    case False
    then have "last hn \<in> cfgs" using sub last_in_set [of hn] by blast
    then show ?thesis using get_cfg_reply(2) [OF ent(2), of r] r that codec False by (simp add: codec_def)
  qed (use get_cfg_reply(1) [OF ent(2), of r] r that in simp)
  have empty: "dec '''' = None" using codec by (simp add: codec_def)
  have inj: "a = b" if "enc a = enc b" "a \<in> cfgs" "b \<in> cfgs" for a b
    using codec that unfolding codec_def by (metis option.inject)
  show ?thesis
    using k
  proof (cases "ct_pc S i")
    case CInitGet
    then show ?thesis using n k by (auto simp: init_next_def from_string_def ctl_pc_inv_def)
  next
    case (CInitCur nxt)
    then show ?thesis using c k pc empty by (auto simp: init_cur_def from_string_def ctl_pc_inv_def)
  next
    case (CGetCfg new)
    then show ?thesis
      using c k pc empty below_now [of hc]
      by (auto simp: got_cfg_def from_string_def ctl_pc_inv_def)
  next
    case (CGetNext new old v)
    then show ?thesis
      using n k pc empty inj [of "last hn" new] last_in_set [of hn] below_now [of hn "Num new"]
      by (auto simp: got_next_def from_string_def ctl_pc_inv_def below_zero)
  next
    case (CCheckNext new old v)
    then show ?thesis
      using n k pc empty inj [of "last hn" new] last_in_set [of hn]
      by (auto simp: check_next_def from_string_def ctl_pc_inv_def)
  next
    case (CCheckCur new old v)
    then show ?thesis
      using c k pc empty below_now [of hc]
      by (auto simp: check_cur_def from_string_def ctl_pc_inv_def)
  qed simp_all
qed

lemma put_inv:
  assumes inv: "ctl_inv enc cfgs m hc hn S" and m: "Suc m < 2 ^ 64"
    and p: "put_of (ct_pc S i) = Some (k, c, v, f)" and a: "a = cfg_args enc k c v"
    and pc: "pc = retry (ct_pc S i) \<or> pc = on_put (ct_pc S i) (ctl_answer a f S)"
  shows "\<exists>hc' hn'. ctl_inv enc cfgs (Suc m) hc' hn' (ctl_goto i pc (ctl_serve a S)) \<and>
    hc' = (if k = cfgName \<and> v = of_nat (length hc) then hc @ [c] else hc) \<and>
    hn' = (if k \<noteq> cfgName \<and> v = of_nat (length hn) then hn @ [c] else hn)"
proof -
  have pcs: "\<And>i. ctl_pc_inv cfgs hc hn (ct_pc S i)" and sub: "set hc \<union> set hn \<subseteq> cfgs"
    and ent: "kv_abs (ct_srv S) cfgName = cfg_entry enc hc" "kv_abs (ct_srv S) nextName = cfg_entry enc hn"
    and len: "length hc \<le> m" "length hn \<le> m" and ris: "rising hc" "rising hn"
    using inv by (simp_all add: ctl_inv_def)
  have ok: "ctl_answer a f S = OK \<longleftrightarrow> pr_Err (snd (KVServer_Put (ct_srv S) a)) = OK"
    by (auto simp: ctl_answer_def put_result_def)
  show ?thesis
  proof (cases "k = cfgName")
    case True
    let ?hc = "if v = of_nat (length hc) then hc @ [c] else hc"
    have c: "c \<in> cfgs" "below hc v (Num c)"
      using p pcs [of i] True sub
      by (cases "ct_pc S i"; auto simp: ctl_pc_inv_def below_zero)+
    have "rising ?hc"
      using ris(1) rising_snoc below_current [OF c(2)] len(1) m by auto
    moreover have "ctl_pc_inv cfgs ?hc hn pc"
      using p pcs [of i] True pc pc_inv_grow(1)
      by (cases "ct_pc S i") (auto simp: ctl_pc_inv_def post_def below_snoc)
    ultimately have "ctl_inv enc cfgs (Suc m) ?hc hn (ctl_goto i pc (ctl_serve a S))"
      using c(1) len ris sub ent(2) put_cfg(1) [OF ent(1)] put_cfg_other [of cfgName nextName] True a
        pcs pc_inv_grow(1) [OF pcs]
      by (auto simp: ctl_inv_def)
    then show ?thesis using True by simp
  next
    case False
    let ?hn = "if v = of_nat (length hn) then hn @ [c] else hn"
    have k: "k = nextName" using p False by (cases "ct_pc S i") auto
    have c: "c \<in> cfgs" "below hn v (Num c)"
      using p pcs [of i] False by (cases "ct_pc S i"; auto simp: ctl_pc_inv_def)+
    have "rising ?hn"
      using ris(2) rising_snoc below_current [OF c(2)] len(2) m by auto
    moreover have "ctl_pc_inv cfgs hc ?hn pc"
      using p pcs [of i] False pc put_cfg(2) [OF ent(2), of c v] ok a k
      by (cases "ct_pc S i") (auto simp: ctl_pc_inv_def put_next_def below_snoc)
    ultimately have "ctl_inv enc cfgs (Suc m) hc ?hn (ctl_goto i pc (ctl_serve a S))"
      using c(1) len ris sub ent(1) put_cfg(1) [OF ent(2)] put_cfg_other [of nextName cfgName] k a
        pcs pc_inv_grow(2) [OF pcs]
      by (auto simp: ctl_inv_def)
    then show ?thesis using False by simp
  qed
qed

lemma ctl_inv_goto:
  assumes "ctl_inv enc cfgs m hc hn S" "ctl_pc_inv cfgs hc hn pc"
  shows "ctl_inv enc cfgs (Suc m) hc hn (ctl_goto i pc S)"
  using assms by (auto simp: ctl_inv_def)

lemma ctl_inv_step:
  assumes "ctl_inv enc cfgs m hc hn S" "codec enc dec cfgs" "Suc m < 2 ^ 64"
    and "ctl_step enc dec cfgs S S'"
  shows "\<exists>hc' hn'. ctl_inv enc cfgs (Suc m) hc' hn' S' \<and> (\<exists>c. hc' = hc \<or> hc' = hc @ [c])"
  using assms(4)
proof cases
  case (call i new pc)
  then have "ctl_pc_inv cfgs hc hn pc" by (auto simp: ctl_pc_inv_def)
  then show ?thesis using ctl_inv_goto [OF assms(1)] call(1) by blast
next
  case (get i k)
  then show ?thesis
    using ctl_inv_goto [OF assms(1) on_get_inv [OF assms(1,2) get(2) refl]] by blast
next
  case (lost i k c v f)
  have "ctl_pc_inv cfgs hc hn (ct_pc S i)" using assms(1) by (simp add: ctl_inv_def)
  then have "ctl_pc_inv cfgs hc hn (retry (ct_pc S i))"
    by (cases "ct_pc S i") (auto simp: ctl_pc_inv_def)
  then show ?thesis using ctl_inv_goto [OF assms(1)] lost(1) by blast
next
  case (silent i k c v f a)
  then show ?thesis using put_inv [OF assms(1,3) silent(2,3)] by metis
next
  case (put i k c v f a)
  then show ?thesis using put_inv [OF assms(1,3) put(2,3)] by metis
next
  case (moves i new old v failed)
  have "ctl_pc_inv cfgs hc hn (ct_pc S i)" using assms(1) by (simp add: ctl_inv_def)
  then have "ctl_pc_inv cfgs hc hn (moves_done failed new old v)"
    using moves(2) by (auto simp: ctl_pc_inv_def moves_done_def)
  then show ?thesis using ctl_inv_goto [OF assms(1)] moves(1) by blast
next
  case (deletes i new old)
  have "ctl_pc_inv cfgs hc hn CIdle" by (simp add: ctl_pc_inv_def)
  then show ?thesis using ctl_inv_goto [OF assms(1)] deletes(1) by blast
qed

lemma ctl_inv_run:
  assumes "ctl_run enc dec cfgs m S" "codec enc dec cfgs" "m < 2 ^ 64"
  shows "\<exists>hc hn. ctl_inv enc cfgs m hc hn S"
  using assms
proof induction
  case init
  have "ctl_inv enc cfgs 0 [] [] ctl_init"
    by (auto simp: ctl_inv_def ctl_init_def rising_def cfg_entry_def ctl_pc_inv_def)
  then show ?case by blast
next
  case (step m S S')
  then obtain hc hn where "ctl_inv enc cfgs m hc hn S" by auto
  from ctl_inv_step [OF this step.prems(1,2) step.hyps(2)] show ?case by blast
qed

text \<open>What \<open>Query\<close> returns is the last configuration the key has held.\<close>

lemma ctl_query:
  assumes "ctl_inv enc cfgs m hc hn S" "codec enc dec cfgs"
  shows "Query dec (ct_srv S) = (if hc = [] then None else Some (last hc))"
proof -
  have ent: "kv_abs (ct_srv S) cfgName = cfg_entry enc hc" and sub: "set hc \<subseteq> cfgs"
    using assms(1) by (simp_all add: ctl_inv_def)
  show ?thesis
  proof (cases "hc = []")
    case True
    then show ?thesis using get_cfg_reply(1) [OF ent refl] assms(2) by (simp add: Query_def codec_def)
  next
    case False
    then have "last hc \<in> cfgs" using sub last_in_set by blast
    then show ?thesis
      using get_cfg_reply(2) [OF ent refl] assms(2) False by (simp add: Query_def codec_def)
  qed
qed

section \<open>Properties\<close>

text \<open>The configuration a controller is installing, from the moment it has claimed it.\<close>

fun claimed :: "ctrl_pc \<Rightarrow> ShardConfig option" where
  "claimed (CMove new old v) = Some new"
| "claimed (CPost new old v f) = Some new"
| "claimed (CCheckCur new old v) = Some new"
| "claimed (CDelete new old) = Some new"
| "claimed _ = None"

lemma claimed_inv:
  "ctl_pc_inv cfgs hc hn pc \<Longrightarrow> claimed pc = Some new \<Longrightarrow> new \<in> set hn"
  by (cases pc) (auto simp: ctl_pc_inv_def)

text \<open>
  C18 (one configuration per number).  However many controllers run concurrently, crash between two
  calls or lose replies, two controllers that are moving shards, posting or cleaning up for
  configurations of the same number are working on the same configuration.
\<close>

theorem one_config_per_number:
  assumes "ctl_run enc dec cfgs m S" "codec enc dec cfgs" "m < 2 ^ 64"
    and "claimed (ct_pc S i) = Some a" "claimed (ct_pc S j) = Some b" "Num a = Num b"
  shows "a = b"
proof -
  obtain hc hn where "ctl_inv enc cfgs m hc hn S" using ctl_inv_run [OF assms(1-3)] by blast
  then have "rising hn" "ctl_pc_inv cfgs hc hn (ct_pc S i)" "ctl_pc_inv cfgs hc hn (ct_pc S j)"
    by (simp_all add: ctl_inv_def)
  then show ?thesis using claimed_inv assms(4-6) rising_unique by metis
qed

text \<open>
  Configurations only advance: whatever step a controller takes, the posted configuration
  afterwards is the same as before or has a higher number; once there is one there always is one.
\<close>

theorem posted_config_advances:
  assumes "ctl_run enc dec cfgs m S" "codec enc dec cfgs" "Suc m < 2 ^ 64"
    and "ctl_step enc dec cfgs S S'" "Query dec (ct_srv S) = Some c"
  shows "\<exists>c'. Query dec (ct_srv S') = Some c' \<and> (c' = c \<or> Num c < Num c')"
proof -
  have m: "m < 2 ^ 64" using assms(3) by simp
  obtain hc hn where inv: "ctl_inv enc cfgs m hc hn S" using ctl_inv_run [OF assms(1,2) m] by blast
  obtain hc' hn' d where inv': "ctl_inv enc cfgs (Suc m) hc' hn' S'" and hc': "hc' = hc \<or> hc' = hc @ [d]"
    using ctl_inv_step [OF inv assms(2-4)] by blast
  have c: "hc \<noteq> []" "c = last hc" using ctl_query [OF inv assms(2)] assms(5) by (auto split: if_splits)
  have "rising hc'" using inv' by (simp add: ctl_inv_def)
  then have "last hc' = c \<or> Num c < Num (last hc')"
    using hc' c by (auto simp: rising_def sorted_wrt_append)
  then show ?thesis using ctl_query [OF inv' assms(2)] hc' c by auto
qed

definition demo_next :: ShardConfig where
  "demo_next = demo_joined\<lparr>Num := 2\<rparr>"

definition demo_enc :: "ShardConfig \<Rightarrow> string" where
  "demo_enc c = (if Num c = 1 then ''1'' else ''2'')"

definition demo_dec :: "string \<Rightarrow> ShardConfig option" where
  "demo_dec s = (if s = ''1'' then Some demo_joined else if s = ''2'' then Some demo_next else None)"

lemma demo_codec: "codec demo_enc demo_dec {demo_joined, demo_next}"
  by (simp add: codec_def demo_enc_def demo_dec_def demo_joined_def demo_next_def)

definition demo_posted :: "unit ctl" where
  "demo_posted = ctl_goto () CIdle (ctl_serve (cfg_args demo_enc cfgName demo_joined 0)
     (ctl_goto () (CInitConfig demo_joined True) ctl_init))"

definition demo_claimed :: "unit ctl" where
  "demo_claimed = ctl_goto () (CMove demo_next demo_joined 1)
     (ctl_serve (cfg_args demo_enc nextName demo_next 0)
       (ctl_goto () (CPutNext demo_next demo_joined 1 0 True)
         (ctl_goto () (CGetNext demo_next demo_joined 1)
           (ctl_goto () (CGetCfg demo_next) demo_posted))))"

lemmas demo_ctl_simps = ctl_init_def cfg_args_def KVServer_Put_def KVServer_Get_def MakeKVServer_def
  demo_enc_def demo_dec_def demo_next_def demo_joined_def

abbreviation demo_run :: "nat \<Rightarrow> unit ctl \<Rightarrow> bool" where
  "demo_run \<equiv> ctl_run demo_enc demo_dec {demo_joined, demo_next}"

lemma demo_posted_run: "demo_run (Suc (Suc 0)) demo_posted"
proof -
  let ?S1 = "ctl_goto () (CInitConfig demo_joined True) ctl_init"
  have "demo_run (Suc 0) ?S1"
    by (intro ctl_run.step [OF ctl_run.init] ctl_step.call [where new = demo_joined])
      (simp_all add: ctl_init_def)
  moreover have "ctl_step demo_enc demo_dec {demo_joined, demo_next} ?S1 demo_posted"
    using ctl_step.put [where S = ?S1 and i = "()" and k = cfgName and c = demo_joined and v = 0
        and f = True and enc = demo_enc and dec = demo_dec and cfgs = "{demo_joined, demo_next}", OF _ refl]
    by (simp add: demo_posted_def)
  ultimately show ?thesis by (rule ctl_run.step)
qed

lemma demo_claimed_run: "demo_run (Suc (Suc (Suc (Suc (Suc (Suc 0)))))) demo_claimed"
proof -
  let ?S3 = "ctl_goto () (CGetCfg demo_next) demo_posted"
  let ?S4 = "ctl_goto () (CGetNext demo_next demo_joined 1) ?S3"
  let ?S5 = "ctl_goto () (CPutNext demo_next demo_joined 1 0 True) ?S4"
  have "demo_run (Suc (Suc (Suc 0))) ?S3"
    by (intro ctl_run.step [OF demo_posted_run] ctl_step.call [where new = demo_next])
      (simp_all add: demo_posted_def)
  moreover have "on_get demo_enc demo_dec (ct_pc ?S3 ()) (KVServer_Get (ct_srv ?S3) \<lparr>ga_Key = cfgName\<rparr>)
      = CGetNext demo_next demo_joined 1"
    by (simp add: demo_posted_def demo_ctl_simps got_cfg_def from_string_def)
  then have "ctl_step demo_enc demo_dec {demo_joined, demo_next} ?S3 ?S4"
    using ctl_step.get [where S = ?S3 and i = "()" and k = cfgName and enc = demo_enc
        and dec = demo_dec and cfgs = "{demo_joined, demo_next}"] by simp
  moreover have "on_get demo_enc demo_dec (ct_pc ?S4 ()) (KVServer_Get (ct_srv ?S4) \<lparr>ga_Key = nextName\<rparr>)
      = CPutNext demo_next demo_joined 1 0 True"
    by (simp add: demo_posted_def demo_ctl_simps got_next_def)
  then have "ctl_step demo_enc demo_dec {demo_joined, demo_next} ?S4 ?S5"
    using ctl_step.get [where S = ?S4 and i = "()" and k = nextName and enc = demo_enc
        and dec = demo_dec and cfgs = "{demo_joined, demo_next}"] by simp
  moreover have "ctl_answer (cfg_args demo_enc nextName demo_next 0) True ?S5 = OK"
    by (simp add: demo_posted_def demo_ctl_simps ctl_answer_def put_result_def)
  then have "ctl_step demo_enc demo_dec {demo_joined, demo_next} ?S5 demo_claimed"
    using ctl_step.put [where S = ?S5 and i = "()" and k = nextName and c = demo_next and v = 0
        and f = True and enc = demo_enc and dec = demo_dec and cfgs = "{demo_joined, demo_next}", OF _ refl]
    by (simp add: demo_claimed_def put_next_def)
  ultimately show ?thesis by (metis ctl_run.step)
qed

theorem one_config_per_number_witness:
  "claimed (ct_pc demo_claimed ()) = Some demo_next \<and> demo_next = demo_next\<lparr>Num := 2\<rparr>"
proof -
  have c: "claimed (ct_pc demo_claimed ()) = Some demo_next" by (simp add: demo_claimed_def)
  have "demo_next = demo_next"
    by (rule one_config_per_number [OF demo_claimed_run demo_codec _ c c]) simp_all
  then show ?thesis using c by (simp add: demo_next_def)
qed

theorem posted_config_advances_witness:
  "\<exists>c'. Query demo_dec (ct_srv (ctl_goto () CInitGet demo_posted)) = Some c' \<and>
     (c' = demo_joined \<or> Num demo_joined < Num c')"
proof -
  have "ctl_step demo_enc demo_dec {demo_joined, demo_next} demo_posted (ctl_goto () CInitGet demo_posted)"
    by (rule ctl_step.call [where new = demo_joined]) (simp_all add: demo_posted_def)
  moreover have "Query demo_dec (ct_srv demo_posted) = Some demo_joined"
    by (simp add: Query_def demo_posted_def demo_ctl_simps)
  ultimately show ?thesis
    by (intro posted_config_advances [OF demo_posted_run demo_codec]) simp_all
qed

end
