(* ===== verification/ShardClerk.thy ===== *)
theory ShardClerk
  imports ShardCtrl
begin

text \<open>
  The client of the sharded service (\<open>src/shardkv1/client.go\<close>): look up the shard's group in the
  current configuration, ask its clerk, and start over on \<open>ErrWrongGroup\<close>.  A call runs on a
  script with one entry per round: the configuration \<open>Query\<close> returns and what the RPCs of the
  group's clerk bring back.  The loop has no bound, so the result is \<open>None\<close> when the script ends.
\<close>

record ShardKVClerk =
  skc_clnt :: nat
  skc_leader :: int

definition ShardKV_MakeClerk :: "nat \<Rightarrow> ShardKVClerk" where
  "ShardKV_MakeClerk clnt = \<lparr>skc_clnt = clnt, skc_leader = 0\<rparr>"

text \<open>\<open>cfg.Groups[cfg.Shards[shardId]]\<close>; a missing group is an empty server list.\<close>

definition group_servers :: "ShardConfig \<Rightarrow> int \<Rightarrow> string list option" where
  "group_servers cfg shardId = do {
     grpId \<leftarrow> go_get (Shards cfg) shardId;
     Some (case fmlookup (Groups cfg) grpId of None \<Rightarrow> [] | Some servers \<Rightarrow> servers)
   }"

fun ShardKVClerk_Get :: "string \<Rightarrow> (ShardConfig \<times> GetReply option list) list \<Rightarrow> GetReply option option" where
  "ShardKVClerk_Get key [] = Some None"
| "ShardKVClerk_Get key ((cfg, calls) # rounds) = do {
     servers \<leftarrow> group_servers cfg (Key2Shard key);
     let r = ShardGrpClerk_Get calls (ShardGrp_MakeClerk servers);
     if gr_Err r \<noteq> ErrWrongGroup then Some (Some r) else ShardKVClerk_Get key rounds
   }"

fun ShardKVClerk_Put :: "string \<Rightarrow> bool \<Rightarrow> (ShardConfig \<times> PutReply option list) list \<Rightarrow> Err option option" where
  "ShardKVClerk_Put key may_be [] = Some None"
| "ShardKVClerk_Put key may_be ((cfg, calls) # rounds) = do {
     servers \<leftarrow> group_servers cfg (Key2Shard key);
     let err = ShardGrpClerk_Put calls (ShardGrp_MakeClerk servers);
     if err = ErrWrongGroup then ShardKVClerk_Put key True rounds
     else if err = ErrVersion \<and> may_be then Some (Some ErrMaybe)
     else Some (Some err)
   }"

lemma group_servers_Some:
  "length (Shards cfg) = nat NShards \<Longrightarrow> \<exists>srvs. group_servers cfg (Key2Shard key) = Some srvs"
  by (auto simp: group_servers_def go_get_def Key2Shard_def NShards_def)

text \<open>The group's clerk says \<open>ErrVersion\<close> only on a reply to its first RPC.\<close>

lemma sgc_put_loop_ErrVersion:
  "sgc_put_loop i first calls ck = ErrVersion \<Longrightarrow>
     first \<and> (\<exists>reply rest. calls = Some reply # rest \<and> pr_Err reply = ErrVersion)"
proof (induction i first calls ck rule: sgc_put_loop.induct)
  case (2 i first calls ck)
  then show ?case by (auto simp: put_result_def split: list.splits option.splits if_splits)
qed simp

lemma ShardGrpClerk_Put_ErrVersion:
  "ShardGrpClerk_Put calls ck = ErrVersion \<Longrightarrow>
     \<exists>reply rest. calls = Some reply # rest \<and> pr_Err reply = ErrVersion"
  using sgc_put_loop_ErrVersion by (auto simp: ShardGrpClerk_Put_def split: if_splits)

text \<open>The clerk of a group never passes \<open>ErrWrongLeader\<close> on.\<close>

lemma sgc_put_loop_not_leader: "sgc_put_loop i first calls ck \<noteq> ErrWrongLeader"
  by (induction i first calls ck rule: sgc_put_loop.induct)
    (auto simp: put_result_def split: list.splits option.splits)

lemma put_clerk_may_be: "ShardKVClerk_Put key True rounds \<noteq> Some (Some ErrVersion)"
proof (induction rounds)
  case (Cons r rounds)
  then show ?case by (cases r) (auto simp: bind_eq_Some_conv' Let_def)
qed simp

section \<open>Properties\<close>

text \<open>
  C23 (the sharded clerk's answers).  With configurations of \<open>NShards\<close> shards a \<open>Put\<close> never
  indexes out of range; it never returns \<open>ErrWrongGroup\<close> or \<open>ErrWrongLeader\<close> to the application;
  and it returns \<open>ErrVersion\<close> only when the first RPC of the first round was answered
  \<open>ErrVersion\<close>, so that no other request of the call was ever sent and the \<open>Put\<close> was definitely
  not performed.
\<close>

theorem ShardKVClerk_Put_answers:
  assumes "\<forall>(cfg, calls) \<in> set rounds. length (Shards cfg) = nat NShards"
  shows "\<exists>res. ShardKVClerk_Put key False rounds = Some res \<and>
    res \<noteq> Some ErrWrongGroup \<and> res \<noteq> Some ErrWrongLeader \<and>
    (res = Some ErrVersion \<longrightarrow> (\<exists>cfg reply calls rest.
       rounds = (cfg, Some reply # calls) # rest \<and> pr_Err reply = ErrVersion))"
proof -
  have total: "\<exists>res. ShardKVClerk_Put key f rs = Some res \<and>
      res \<noteq> Some ErrWrongGroup \<and> res \<noteq> Some ErrWrongLeader"
    if "\<forall>(cfg, calls) \<in> set rs. length (Shards cfg) = nat NShards" for f rs
    using that
  proof (induction key f rs rule: ShardKVClerk_Put.induct)
    case (2 key f cfg calls rs)
    obtain srvs where "group_servers cfg (Key2Shard key) = Some srvs"
      using group_servers_Some "2.prems" by fastforce
    then show ?case
      using "2.IH" [OF _ refl] "2.prems" sgc_put_loop_not_leader
      by (auto simp: Let_def ShardGrpClerk_Put_def)
  qed simp
  obtain res where res: "ShardKVClerk_Put key False rounds = Some res" "res \<noteq> Some ErrWrongGroup"
    "res \<noteq> Some ErrWrongLeader"
    using total [OF assms] by blast
  have "\<exists>cfg reply calls rest. rounds = (cfg, Some reply # calls) # rest \<and> pr_Err reply = ErrVersion"
    if v: "res = Some ErrVersion"
  proof (cases rounds)
    case Nil
    then show ?thesis using res v by simp
  next
    case (Cons r rest)
    obtain cfg calls where "r = (cfg, calls)" by (cases r)
    then have "\<exists>srvs. ShardGrpClerk_Put calls (ShardGrp_MakeClerk srvs) = ErrVersion"
      using res(1) v Cons put_clerk_may_be [of key rest]
      by (auto simp: bind_eq_Some_conv' Let_def split: if_splits)
    then show ?thesis using ShardGrpClerk_Put_ErrVersion Cons \<open>r = (cfg, calls)\<close> by blast
  qed
  then show ?thesis using res by blast
qed

theorem ShardKVClerk_Put_answers_witness:
  "\<exists>res. ShardKVClerk_Put ''k'' False [(demo_joined, [None]), (demo_joined, [Some \<lparr>pr_Err = ErrVersion\<rparr>])]
     = Some res \<and> res \<noteq> Some ErrVersion"
proof -
  let ?rs = "[(demo_joined, [None]), (demo_joined, [Some \<lparr>pr_Err = ErrVersion\<rparr>])]"
  have "\<forall>(cfg, calls) \<in> set ?rs. length (Shards cfg) = nat NShards"
    by (simp add: demo_joined_def NShards_def)
  from ShardKVClerk_Put_answers [OF this, of "''k''"] show ?thesis by auto
qed

end
