(* ===== verification/LockSvc.thy ===== *)
theory LockSvc
  imports KvClerk
begin

text \<open>
  The lock client of lab 2 (\<open>src/kvsrv1/lock/lock.go\<close>) on top of the clerk and the server.  The
  control state of a client says where in \<open>Acquire\<close> or \<open>Release\<close> it is, down to the attempts
  of the clerk's \<open>Put\<close>; one step is one executed RPC (or one lost one).  Any number of clients
  share one server.  The owner identities come from the \<open>uuid\<close> package, which is not part of
  the repository: they are a parameter \<open>ident\<close>, assumed to be distinct and not empty.
\<close>

datatype lock_pc =
    Idle
  | AcquireGet
  | AcquirePut Tversion bool
  | AcquireCheck
  | Held
  | ReleaseGet
  | ReleasePut Tversion bool
  | ReleaseCheck

record 'c lock_sys =
  lk_srv :: KVServer
  lk_pc :: "'c \<Rightarrow> lock_pc"

definition MakeLock :: "'c lock_sys" where
  "MakeLock = \<lparr>lk_srv = MakeKVServer, lk_pc = (\<lambda>_. Idle)\<rparr>"

section \<open>The branches of Acquire and Release\<close>

definition acquire_get :: "string \<Rightarrow> GetReply \<Rightarrow> lock_pc" where
  "acquire_get me r =
     (if gr_Err r = OK \<and> gr_Value r = me then Held
      else if gr_Err r \<noteq> ErrNoKey \<and> gr_Value r \<noteq> '''' then AcquireGet
      else AcquirePut (gr_Version r) True)"

definition acquire_put :: "Err \<Rightarrow> lock_pc" where
  "acquire_put err = (case err of OK \<Rightarrow> Held | ErrMaybe \<Rightarrow> AcquireCheck | _ \<Rightarrow> AcquireGet)"

definition acquire_check :: "string \<Rightarrow> GetReply \<Rightarrow> lock_pc" where
  "acquire_check me r = (if gr_Err r = OK \<and> gr_Value r = me then Held else AcquireGet)"

definition release_get :: "string \<Rightarrow> GetReply \<Rightarrow> lock_pc" where
  "release_get me r =
     (if gr_Err r \<noteq> OK \<or> gr_Value r \<noteq> me then Idle else ReleasePut (gr_Version r) True)"

definition release_put :: "Err \<Rightarrow> lock_pc" where
  "release_put err = (case err of OK \<Rightarrow> Idle | ErrMaybe \<Rightarrow> ReleaseCheck | _ \<Rightarrow> ReleaseGet)"

definition release_check :: "string \<Rightarrow> GetReply \<Rightarrow> lock_pc" where
  "release_check me r = (if gr_Err r \<noteq> OK \<or> gr_Value r \<noteq> me then Idle else ReleaseGet)"

definition lock_args :: "string \<Rightarrow> string \<Rightarrow> Tversion \<Rightarrow> PutArgs" where
  "lock_args l v ver = \<lparr>pa_Key = l, pa_Value = v, pa_Version = ver\<rparr>"

section \<open>Steps\<close>

definition goto :: "'c \<Rightarrow> lock_pc \<Rightarrow> 'c lock_sys \<Rightarrow> 'c lock_sys" where
  "goto c pc S = S\<lparr>lk_pc := (lk_pc S)(c := pc)\<rparr>"

definition serve :: "PutArgs \<Rightarrow> 'c lock_sys \<Rightarrow> 'c lock_sys" where
  "serve a S = S\<lparr>lk_srv := fst (KVServer_Put (lk_srv S) a)\<rparr>"

definition answer :: "PutArgs \<Rightarrow> bool \<Rightarrow> 'c lock_sys \<Rightarrow> Err" where
  "answer a firstCall S = put_result firstCall (pr_Err (snd (KVServer_Put (lk_srv S) a)))"

inductive lock_step :: "string \<Rightarrow> ('c \<Rightarrow> string) \<Rightarrow> 'c lock_sys \<Rightarrow> 'c lock_sys \<Rightarrow> bool"
  for l :: string and ident :: "'c \<Rightarrow> string" where
  acquire: "lk_pc S c = Idle \<Longrightarrow> lock_step l ident S (goto c AcquireGet S)"
| acq_get: "lk_pc S c = AcquireGet \<Longrightarrow> r = KVServer_Get (lk_srv S) \<lparr>ga_Key = l\<rparr> \<Longrightarrow>
    lock_step l ident S (goto c (acquire_get (ident c) r) S)"
| acq_lost: "lk_pc S c = AcquirePut v f \<Longrightarrow> lock_step l ident S (goto c (AcquirePut v False) S)"
| acq_silent: "lk_pc S c = AcquirePut v f \<Longrightarrow> a = lock_args l (ident c) v \<Longrightarrow>
    lock_step l ident S (goto c (AcquirePut v False) (serve a S))"
| acq_put: "lk_pc S c = AcquirePut v f \<Longrightarrow> a = lock_args l (ident c) v \<Longrightarrow>
    lock_step l ident S (goto c (acquire_put (answer a f S)) (serve a S))"
| acq_check: "lk_pc S c = AcquireCheck \<Longrightarrow> r = KVServer_Get (lk_srv S) \<lparr>ga_Key = l\<rparr> \<Longrightarrow>
    lock_step l ident S (goto c (acquire_check (ident c) r) S)"
| release: "lk_pc S c = Held \<Longrightarrow> lock_step l ident S (goto c ReleaseGet S)"
| rel_get: "lk_pc S c = ReleaseGet \<Longrightarrow> r = KVServer_Get (lk_srv S) \<lparr>ga_Key = l\<rparr> \<Longrightarrow>
    lock_step l ident S (goto c (release_get (ident c) r) S)"
| rel_lost: "lk_pc S c = ReleasePut v f \<Longrightarrow> lock_step l ident S (goto c (ReleasePut v False) S)"
| rel_silent: "lk_pc S c = ReleasePut v f \<Longrightarrow> a = lock_args l '''' v \<Longrightarrow>
    lock_step l ident S (goto c (ReleasePut v False) (serve a S))"
| rel_put: "lk_pc S c = ReleasePut v f \<Longrightarrow> a = lock_args l '''' v \<Longrightarrow>
    lock_step l ident S (goto c (release_put (answer a f S)) (serve a S))"
| rel_check: "lk_pc S c = ReleaseCheck \<Longrightarrow> r = KVServer_Get (lk_srv S) \<lparr>ga_Key = l\<rparr> \<Longrightarrow>
    lock_step l ident S (goto c (release_check (ident c) r) S)"
| other: "pa_Key a \<noteq> l \<Longrightarrow> lock_step l ident S (serve a S)"

inductive lock_run :: "string \<Rightarrow> ('c \<Rightarrow> string) \<Rightarrow> nat \<Rightarrow> 'c lock_sys \<Rightarrow> bool"
  for l :: string and ident :: "'c \<Rightarrow> string" where
  init: "lock_run l ident 0 MakeLock"
| step: "lock_run l ident m S \<Longrightarrow> lock_step l ident S S' \<Longrightarrow> lock_run l ident (Suc m) S'"

text \<open>
  What a client does next when it is the one to move and its RPC is executed and answered at the
  first attempt: a call of \<open>Acquire\<close> or \<open>Release\<close>, or one of their RPCs.
\<close>

definition answered :: "string \<Rightarrow> ('c \<Rightarrow> string) \<Rightarrow> 'c \<Rightarrow> 'c lock_sys \<Rightarrow> 'c lock_sys" where
  "answered l ident c S =
     (let r = KVServer_Get (lk_srv S) \<lparr>ga_Key = l\<rparr> in
      case lk_pc S c of
        Idle \<Rightarrow> goto c AcquireGet S
      | AcquireGet \<Rightarrow> goto c (acquire_get (ident c) r) S
      | AcquirePut v f \<Rightarrow> (let a = lock_args l (ident c) v in goto c (acquire_put (answer a f S)) (serve a S))
      | AcquireCheck \<Rightarrow> goto c (acquire_check (ident c) r) S
      | Held \<Rightarrow> goto c ReleaseGet S
      | ReleaseGet \<Rightarrow> goto c (release_get (ident c) r) S
      | ReleasePut v f \<Rightarrow> (let a = lock_args l '''' v in goto c (release_put (answer a f S)) (serve a S))
      | ReleaseCheck \<Rightarrow> goto c (release_check (ident c) r) S)"

lemma answered_step: "lock_step l ident S (answered l ident c S)"
  by (cases "lk_pc S c") (auto simp: answered_def Let_def intro: lock_step.intros)

lemma answered_run:
  "lock_run l ident m S \<Longrightarrow> lock_run l ident (m + k) ((answered l ident c ^^ k) S)"
  by (induction k) (auto intro: lock_run.step answered_step)

section \<open>The invariant\<close>

text \<open>
  \<open>h\<close> lists the values the lock key has had, by version; a missing key counts as the empty
  value of version 0.
\<close>

definition lock_entry :: "string list \<Rightarrow> (string \<times> Tversion) option" where
  "lock_entry h = (if length h \<le> 1 then None else Some (last h, of_nat (length h - 1)))"

definition at_version :: "string list \<Rightarrow> Tversion \<Rightarrow> string \<Rightarrow> bool" where
  "at_version h v x \<longleftrightarrow> (\<exists>j < length h. v = of_nat j \<and> h ! j = x)"

definition pc_inv :: "string \<Rightarrow> string list \<Rightarrow> lock_pc \<Rightarrow> bool" where
  "pc_inv me h pc = (case pc of
     Held \<Rightarrow> last h = me
   | Idle \<Rightarrow> last h \<noteq> me
   | AcquirePut v f \<Rightarrow> at_version h v ''''
   | ReleasePut v f \<Rightarrow> at_version h v me
   | _ \<Rightarrow> True)"

definition lock_inv :: "string \<Rightarrow> ('c \<Rightarrow> string) \<Rightarrow> nat \<Rightarrow> string list \<Rightarrow> 'c lock_sys \<Rightarrow> bool" where
  "lock_inv l ident m h S \<longleftrightarrow>
     h \<noteq> [] \<and> hd h = '''' \<and> length h \<le> Suc m \<and>
     kv_abs (lk_srv S) l = lock_entry h \<and> (\<forall>c. pc_inv (ident c) h (lk_pc S c))"

lemma goto_simps [simp]:
  "lk_srv (goto c pc S) = lk_srv S"
  "lk_pc (goto c pc S) = (lk_pc S)(c := pc)"
  "lk_pc (serve a S) = lk_pc S"
  "lk_srv (serve a S) = fst (KVServer_Put (lk_srv S) a)"
  by (simp_all add: goto_def serve_def)

lemma at_version_snoc: "at_version h v x \<Longrightarrow> at_version (h @ [y]) v x"
  by (auto simp: at_version_def nth_append intro: less_SucI)

lemma at_version_last:
  "h \<noteq> [] \<Longrightarrow> at_version h (of_nat (length h - 1)) (last h)"
  by (auto simp: at_version_def last_conv_nth intro!: exI [of _ "length h - 1"])

lemma at_version_current:
  assumes "at_version h v x" "v = of_nat (length h - 1)" "length h \<le> 2 ^ 64"
  shows "x = last h"
proof -
  obtain j where j: "j < length h" "v = of_nat j" "h ! j = x"
    using assms(1) by (auto simp: at_version_def)
  then have "j = length h - 1"
    using assms(2,3) by (intro of_nat_word64_inj) auto
  moreover have "h \<noteq> []" using j(1) by auto
  ultimately show ?thesis using j by (simp add: last_conv_nth)
qed

lemma current_version_lock:
  "h \<noteq> [] \<Longrightarrow> m l = lock_entry h \<Longrightarrow> current_version m l = of_nat (length h - 1)"
  by (cases h) (auto simp: lock_entry_def current_version_def Suc_le_eq)

lemma get_lock:
  assumes "h \<noteq> []" "hd h = ''''" "kv_abs kv l = lock_entry h"
    and "r = KVServer_Get kv \<lparr>ga_Key = l\<rparr>"
  shows "gr_Value r = last h" "gr_Version r = of_nat (length h - 1)"
    "gr_Err r = (if length h \<le> 1 then ErrNoKey else OK)"
  using assms by (cases h; auto simp: kv_simps spec_get_def lock_entry_def Suc_le_eq)+

text \<open>
  A \<open>Put\<close> on the lock key appends to the history exactly when its version is the last one.
\<close>

lemma put_lock:
  assumes "h \<noteq> []" "kv_abs kv l = lock_entry h"
  shows "kv_abs (fst (KVServer_Put kv (lock_args l x v))) l =
      lock_entry (if v = of_nat (length h - 1) then h @ [x] else h)"
    "pr_Err (snd (KVServer_Put kv (lock_args l x v))) = OK \<longleftrightarrow> v = of_nat (length h - 1)"
  using assms current_version_lock [of h "kv_abs kv" l]
  by (auto simp: kv_simps spec_put_def lock_args_def lock_entry_def Suc_le_eq)

lemma serve_other:
  "pa_Key a \<noteq> l \<Longrightarrow> kv_abs (fst (KVServer_Put kv a)) l = kv_abs kv l"
  by (simp add: kv_simps spec_put_other)

lemma answer_OK: "answer a f S = OK \<longleftrightarrow> pr_Err (snd (KVServer_Put (lk_srv S) a)) = OK"
  by (auto simp: answer_def put_result_def)

lemma lock_inv_goto:
  assumes "lock_inv l ident m h S" "pc_inv (ident c) h pc"
  shows "lock_inv l ident (Suc m) h (goto c pc S)"
  using assms by (auto simp: lock_inv_def)

text \<open>The one place where the history grows: an executed \<open>Put\<close> of client \<open>c\<close>.\<close>

lemma lock_inv_serve:
  assumes inv: "lock_inv l ident m h S" and id: "inj ident" "\<And>c. ident c \<noteq> ''''"
    and m: "Suc m \<le> 2 ^ 64"
    and from_h: "at_version h v y" "x \<noteq> y" "{x, y} = {ident c, ''''}"
    and h': "h' = (if v = of_nat (length h - 1) then h @ [x] else h)"
    and pc: "pc_inv (ident c) h' pc"
  shows "lock_inv l ident (Suc m) h' (goto c pc (serve (lock_args l x v) S))"
proof -
  have h: "h \<noteq> []" "hd h = ''''" "length h \<le> Suc m" "kv_abs (lk_srv S) l = lock_entry h"
    and pcs: "\<And>d. pc_inv (ident d) h (lk_pc S d)"
    using inv by (simp_all add: lock_inv_def)
  have "pc_inv (ident d) h' (lk_pc S d)" if d: "d \<noteq> c" for d
  proof (cases "v = of_nat (length h - 1)")
    case True
    then have "y = last h" using at_version_current [OF from_h(1)] h(3) m by simp
    moreover have "ident d \<noteq> ident c" using id(1) d by (auto dest: injD)
    moreover have "x \<in> {ident c, ''''}" "y \<in> {ident c, ''''}" using from_h(3) by blast+
    ultimately have "last h \<noteq> ident d" "x \<noteq> ident d" using id(2) [of d] by force+
    moreover have "h' = h @ [x]" using True h' by simp
    ultimately show ?thesis
      using pcs [of d] at_version_snoc [of h]
      unfolding pc_inv_def by (cases "lk_pc S d") simp_all
  qed (use pcs h' in simp)
  then show ?thesis
    using h pc put_lock(1) [OF h(1,4), of x v] h' by (auto simp: lock_inv_def)
qed

lemma lock_inv_step:
  assumes step: "lock_step l ident S S'" and inv: "lock_inv l ident m h S"
    and id: "inj ident" "\<And>c. ident c \<noteq> ''''" and m: "Suc m \<le> 2 ^ 64"
  shows "\<exists>h'. lock_inv l ident (Suc m) h' S'"
proof -
  have h: "h \<noteq> []" "hd h = ''''" "length h \<le> Suc m" "kv_abs (lk_srv S) l = lock_entry h"
    and pcs: "\<And>d. pc_inv (ident d) h (lk_pc S d)"
    using inv by (simp_all add: lock_inv_def)
  note get = get_lock [OF h(1,2,4)] and put = put_lock [OF h(1,4)]
  have one: "last h = ''''" if "length h \<le> 1" using that h(1,2) by (cases h) auto
  show ?thesis
    using step
  proof cases
    case (acq_get c r)
    have "pc_inv (ident c) h (acquire_get (ident c) r)"
      using get [OF acq_get(3)] at_version_last [OF h(1)] one
      by (auto simp: acquire_get_def pc_inv_def split: if_splits)
    then show ?thesis using acq_get(1) lock_inv_goto [OF inv] by blast
  next
    case (acq_silent c v f a)
    have "at_version h v ''''" using pcs [of c] acq_silent(2) by (simp add: pc_inv_def)
    then have "lock_inv l ident (Suc m) (if v = of_nat (length h - 1) then h @ [ident c] else h)
        (goto c (AcquirePut v False) (serve (lock_args l (ident c) v) S))"
      by (intro lock_inv_serve [OF inv id m]) (auto simp: id pc_inv_def at_version_snoc)
    then show ?thesis using acq_silent by blast
  next
    case (acq_put c v f a)
    have "at_version h v ''''" using pcs [of c] acq_put(2) by (simp add: pc_inv_def)
    moreover have "pc_inv (ident c) (if v = of_nat (length h - 1) then h @ [ident c] else h)
        (acquire_put (answer a f S))"
      using put(2) [of "ident c" v] answer_OK [of a f S] acq_put(3)
      by (auto simp: acquire_put_def pc_inv_def split: Err.splits)
    ultimately have "lock_inv l ident (Suc m)
        (if v = of_nat (length h - 1) then h @ [ident c] else h)
        (goto c (acquire_put (answer a f S)) (serve (lock_args l (ident c) v) S))"
      by (intro lock_inv_serve [OF inv id m]) (auto simp: id)
    then show ?thesis using acq_put by blast
  next
    case (acq_check c r)
    have "pc_inv (ident c) h (acquire_check (ident c) r)"
      using get [OF acq_check(3)] by (auto simp: acquire_check_def pc_inv_def split: if_splits)
    then show ?thesis using acq_check(1) lock_inv_goto [OF inv] by blast
  next
    case (rel_get c r)
    have "pc_inv (ident c) h (release_get (ident c) r)"
      using get [OF rel_get(3)] at_version_last [OF h(1)] one id(2) [of c]
      by (auto simp: release_get_def pc_inv_def split: if_splits)
    then show ?thesis using rel_get(1) lock_inv_goto [OF inv] by blast
  next
    case (rel_silent c v f a)
    have "at_version h v (ident c)" using pcs [of c] rel_silent(2) by (simp add: pc_inv_def)
    then have "lock_inv l ident (Suc m) (if v = of_nat (length h - 1) then h @ [''''] else h)
        (goto c (ReleasePut v False) (serve (lock_args l '''' v) S))"
      using id(2) [of c]
      by (intro lock_inv_serve [OF inv id m]) (auto simp: pc_inv_def at_version_snoc)
    then show ?thesis using rel_silent by blast
  next
    case (rel_put c v f a)
    have "at_version h v (ident c)" using pcs [of c] rel_put(2) by (simp add: pc_inv_def)
    moreover have "pc_inv (ident c) (if v = of_nat (length h - 1) then h @ [''''] else h)
        (release_put (answer a f S))"
      using put(2) [of "''''" v] answer_OK [of a f S] rel_put(3) id(2) [of c]
      by (auto simp: release_put_def pc_inv_def split: Err.splits)
    ultimately have "lock_inv l ident (Suc m)
        (if v = of_nat (length h - 1) then h @ [''''] else h)
        (goto c (release_put (answer a f S)) (serve (lock_args l '''' v) S))"
      using id(2) [of c] by (intro lock_inv_serve [OF inv id m]) auto
    then show ?thesis using rel_put by blast
  next
    case (rel_check c r)
    have "pc_inv (ident c) h (release_check (ident c) r)"
      using get [OF rel_check(3)] one id(2) [of c]
      by (auto simp: release_check_def pc_inv_def split: if_splits)
    then show ?thesis using rel_check(1) lock_inv_goto [OF inv] by blast
  next
    case (other a)
    then show ?thesis
      using inv serve_other [OF other(2)] by (auto simp: lock_inv_def)
  next
    case (acquire c)
    have "pc_inv (ident c) h AcquireGet" by (simp add: pc_inv_def)
    then show ?thesis using acquire(1) lock_inv_goto [OF inv] by blast
  next
    case (release c)
    have "pc_inv (ident c) h ReleaseGet" by (simp add: pc_inv_def)
    then show ?thesis using release(1) lock_inv_goto [OF inv] by blast
  next
    case (acq_lost c v f)
    then have "pc_inv (ident c) h (AcquirePut v False)"
      using pcs [of c] by (simp add: pc_inv_def)
    then show ?thesis using acq_lost(1) lock_inv_goto [OF inv] by blast
  next
    case (rel_lost c v f)
    then have "pc_inv (ident c) h (ReleasePut v False)"
      using pcs [of c] by (simp add: pc_inv_def)
    then show ?thesis using rel_lost(1) lock_inv_goto [OF inv] by blast
  qed
qed

lemma lock_inv_run:
  assumes "lock_run l ident m S" "inj ident" "\<And>c. ident c \<noteq> ''''" "m \<le> 2 ^ 64"
  shows "\<exists>h. lock_inv l ident m h S"
  using assms
proof induction
  case init
  have "lock_inv l ident 0 [''''] MakeLock"
    using init(2) by (auto simp: lock_inv_def MakeLock_def lock_entry_def pc_inv_def dest: sym)
  then show ?case by blast
next
  case (step m S S')
  then show ?case using lock_inv_step by fastforce
qed

section \<open>Properties\<close>

text \<open>
  C13 (mutual exclusion).  In every run of at most \<open>2^64\<close> steps of any number of lock clients,
  whatever RPCs are lost and however the attempts interleave, a client that has returned from
  \<open>Acquire\<close> and not called \<open>Release\<close> is the owner the server stores, and no other client is
  in that position.
\<close>

theorem lock_mutual_exclusion:
  assumes "lock_run l ident m S" "inj ident" "\<And>c. ident c \<noteq> ''''" "m \<le> 2 ^ 64"
    and "lk_pc S c = Held"
  shows "gr_Value (KVServer_Get (lk_srv S) \<lparr>ga_Key = l\<rparr>) = ident c \<and>
    (\<forall>d. lk_pc S d = Held \<longrightarrow> d = c)"
proof -
  obtain h where inv: "lock_inv l ident m h S" using lock_inv_run [OF assms(1-4)] by blast
  then have h: "h \<noteq> []" "hd h = ''''" "kv_abs (lk_srv S) l = lock_entry h"
    and pcs: "\<And>d. pc_inv (ident d) h (lk_pc S d)"
    by (simp_all add: lock_inv_def)
  have held: "last h = ident d" if "lk_pc S d = Held" for d
    using pcs [of d] that by (simp add: pc_inv_def)
  have "d = c" if "lk_pc S d = Held" for d
    using held [OF that] held [OF assms(5)] assms(2) by (metis injD)
  then show ?thesis using get_lock(1) [OF h refl] held [OF assms(5)] by simp
qed

definition demo_ident :: "bool \<Rightarrow> string" where
  "demo_ident b = (if b then ''a'' else ''b'')"

lemma demo_ident_ok: "inj demo_ident" "demo_ident b \<noteq> ''''"
  by (auto simp: demo_ident_def inj_def)

definition demo_lock :: "bool lock_sys" where
  "demo_lock = goto True Held
     (serve (lock_args ''l'' ''a'' 0) (goto True (AcquirePut 0 True)
       (goto True AcquireGet (goto False AcquireGet MakeLock))))"

lemma demo_lock_run: "lock_run ''l'' demo_ident 4 demo_lock"
proof -
  let ?S0 = "MakeLock :: bool lock_sys"
  let ?S1 = "goto False AcquireGet ?S0" let ?S2 = "goto True AcquireGet ?S1"
  let ?S3 = "goto True (AcquirePut 0 True) ?S2"
  have "lock_run ''l'' demo_ident (Suc 0) ?S1"
    by (intro lock_run.step [OF lock_run.init] lock_step.acquire) (simp add: MakeLock_def)
  then have "lock_run ''l'' demo_ident (Suc (Suc 0)) ?S2"
    by (rule lock_run.step) (rule lock_step.acquire, simp add: MakeLock_def)
  moreover have "lock_step ''l'' demo_ident ?S2 (goto True (acquire_get (demo_ident True)
      (KVServer_Get (lk_srv ?S2) \<lparr>ga_Key = ''l''\<rparr>)) ?S2)"
    by (rule lock_step.acq_get) simp_all
  moreover have "acquire_get (demo_ident True) (KVServer_Get (lk_srv ?S2) \<lparr>ga_Key = ''l''\<rparr>)
      = AcquirePut 0 True"
    by (simp add: MakeLock_def MakeKVServer_def KVServer_Get_def acquire_get_def)
  ultimately have "lock_run ''l'' demo_ident (Suc (Suc (Suc 0))) ?S3"
    by (metis lock_run.step)
  moreover have "lock_step ''l'' demo_ident ?S3 (goto True
      (acquire_put (answer (lock_args ''l'' (demo_ident True) 0) True ?S3))
      (serve (lock_args ''l'' (demo_ident True) 0) ?S3))"
    by (rule lock_step.acq_put) simp_all
  moreover have "answer (lock_args ''l'' (demo_ident True) 0) True ?S3 = OK"
    by (simp add: answer_def put_result_def lock_args_def MakeLock_def MakeKVServer_def
        KVServer_Put_def)
  then have "acquire_put (answer (lock_args ''l'' (demo_ident True) 0) True ?S3) = Held"
    by (simp add: acquire_put_def)
  ultimately have "lock_run ''l'' demo_ident (Suc (Suc (Suc (Suc 0))))
      (goto True Held (serve (lock_args ''l'' (demo_ident True) 0) ?S3))"
    by (metis lock_run.step)
  then have "lock_run ''l'' demo_ident (Suc (Suc (Suc (Suc 0)))) demo_lock"
    by (simp add: demo_lock_def demo_ident_def)
  then show ?thesis by (simp add: numeral_eq_Suc)
qed

lemma demo_lock_pc: "lk_pc demo_lock True = Held" "lk_pc demo_lock False = AcquireGet"
  by (simp_all add: demo_lock_def)

theorem lock_mutual_exclusion_witness:
  "lk_pc demo_lock True = Held \<and>
   gr_Value (KVServer_Get (lk_srv demo_lock) \<lparr>ga_Key = ''l''\<rparr>) = ''a'' \<and>
   lk_pc demo_lock False \<noteq> Held"
  using lock_mutual_exclusion [OF demo_lock_run demo_ident_ok _ demo_lock_pc(1)] demo_lock_pc(1)
  by (auto simp: demo_ident_def)

text \<open>
  C14 (no orphaned lock).  The server never names as owner a client that is outside \<open>Acquire\<close>
  and \<open>Release\<close> and does not hold the lock: an \<open>Acquire\<close> whose reply was lost is not forgotten,
  and a \<open>Release\<close> only returns once the lock is not the caller's.
\<close>

theorem lock_never_orphaned:
  assumes "lock_run l ident m S" "inj ident" "\<And>c. ident c \<noteq> ''''" "m \<le> 2 ^ 64"
    and "lk_pc S c = Idle"
  shows "gr_Value (KVServer_Get (lk_srv S) \<lparr>ga_Key = l\<rparr>) \<noteq> ident c"
proof -
  obtain h where "lock_inv l ident m h S" using lock_inv_run [OF assms(1-4)] by blast
  then have h: "h \<noteq> []" "hd h = ''''" "kv_abs (lk_srv S) l = lock_entry h"
    and "pc_inv (ident c) h (lk_pc S c)"
    by (simp_all add: lock_inv_def)
  then show ?thesis using get_lock(1) [OF h refl] assms(5) by (simp add: pc_inv_def)
qed

text \<open>The holder of \<open>demo_lock\<close> has released it again, while the other client is in \<open>Acquire\<close>.\<close>

definition demo_released :: "bool lock_sys" where
  "demo_released = (answered ''l'' demo_ident True ^^ 3) demo_lock"

lemma demo_released_run: "lock_run ''l'' demo_ident 7 demo_released"
  using answered_run [OF demo_lock_run, of 3 True] by (simp add: demo_released_def)

lemma demo_released_pc: "lk_pc demo_released True = Idle" "lk_pc demo_released False = AcquireGet"
  by (simp_all add: demo_released_def demo_lock_def answered_def numeral_3_eq_3 MakeLock_def MakeKVServer_def
      KVServer_Get_def KVServer_Put_def lock_args_def release_get_def release_put_def answer_def put_result_def
      demo_ident_def)

theorem lock_never_orphaned_witness:
  "gr_Value (KVServer_Get (lk_srv demo_released) \<lparr>ga_Key = ''l''\<rparr>) \<noteq> ''a''"
  using lock_never_orphaned [OF demo_released_run demo_ident_ok _ demo_released_pc(1)] by (simp add: demo_ident_def)



end
