(* ===== verification/LabRpc.thy ===== *)
theory LabRpc
  imports GoPrelude
begin

text \<open>
  The simulated network all RPCs of labs 2 to 5 go through (\<open>src/labrpc/labrpc.go\<close>): client ends,
  servers with their services, the switches a test flips, and the life of one call.  \<open>processReq\<close>
  is cut where it sleeps or waits; every lock-held section is one function.  Any number of calls,
  the test's switches and the rest of the program interleave.

  \<open>'n\<close> are the names of ends and servers, \<open>'w\<close> the state of the objects the services belong to
  (a handler runs on it as one step), \<open>'a\<close> and \<open>'r\<close> the arguments and replies, which arrive as they
  were sent (gob's round trip).  Servers are pointers: a \<open>nat\<close> into \<open>heap\<close>.  A random choice is an
  argument or a rule of the step relation.
\<close>

type_synonym ('w, 'a, 'r) handler = "'a \<Rightarrow> 'w \<Rightarrow> 'w \<times> 'r"

record ('w, 'a, 'r) Service =
  sv_name :: string
  sv_methods :: "string \<Rightarrow> ('w, 'a, 'r) handler option"

record ('w, 'a, 'r) Server =
  services :: "string \<Rightarrow> ('w, 'a, 'r) Service option"
  srv_count :: int

record 'n ClientEnd =
  ce_endname :: 'n

record 'n Network =
  reliable :: bool
  longDelays :: bool
  longReordering :: bool
  net_ends :: "'n \<Rightarrow> 'n ClientEnd option"
  enabled :: "'n \<Rightarrow> bool option"
  servers :: "'n \<Rightarrow> nat option option"
  connections :: "'n \<Rightarrow> 'n option option"
  rn_done :: bool
  rn_count :: "32 word"
  rn_bytes :: "64 word"

record ('n, 'a) reqMsg =
  rq_endname :: 'n
  rq_svcMeth :: string
  rq_args :: 'a

record 'r replyMsg =
  rm_ok :: bool
  rm_reply :: "'r option"

section \<open>Servers and services\<close>

definition MakeServer :: "('w, 'a, 'r) Server" where
  "MakeServer = \<lparr>services = Map.empty, srv_count = 0\<rparr>"

definition AddService :: "('w, 'a, 'r) Service \<Rightarrow> ('w, 'a, 'r) Server \<Rightarrow> ('w, 'a, 'r) Server" where
  "AddService svc rs = rs\<lparr>services := (services rs)(sv_name svc \<mapsto> svc)\<rparr>"

text \<open>What reflection says of a method of the receiver.\<close>

record ('w, 'a, 'r) gomethod =
  gm_name :: string
  gm_pkgPath :: string
  gm_numIn :: int
  gm_in2_ptr :: bool
  gm_numOut :: int
  gm_func :: "('w, 'a, 'r) handler"

primrec service_methods :: "('w, 'a, 'r) gomethod list \<Rightarrow> (string \<Rightarrow> ('w, 'a, 'r) handler option) \<Rightarrow>
    string \<Rightarrow> ('w, 'a, 'r) handler option" where
  "service_methods [] ms = ms"
| "service_methods (m # rest) ms =
     (if gm_pkgPath m \<noteq> '''' \<or> gm_numIn m \<noteq> 3 \<or> \<not> gm_in2_ptr m \<or> gm_numOut m \<noteq> 0
      then service_methods rest ms
      else service_methods rest (ms(gm_name m \<mapsto> gm_func m)))"

definition MakeService :: "string \<Rightarrow> ('w, 'a, 'r) gomethod list \<Rightarrow> ('w, 'a, 'r) Service" where
  "MakeService tname ms = \<lparr>sv_name = tname, sv_methods = service_methods ms Map.empty\<rparr>"

text \<open>\<open>strings.LastIndex(s, ".")\<close>, from the right end.\<close>

primrec last_dot :: "string \<Rightarrow> int \<Rightarrow> int \<Rightarrow> int" where
  "last_dot [] i found = found"
| "last_dot (c # cs) i found = last_dot cs (i + 1) (if c = CHR ''.'' then i else found)"

text \<open>An unknown service or method is \<open>log.Fatalf\<close>; a name without a dot panics.\<close>

definition Service_dispatch :: "string \<Rightarrow> ('n, 'a) reqMsg \<Rightarrow> ('w, 'a, 'r) Service \<Rightarrow> 'w \<Rightarrow>
    ('w \<times> 'r replyMsg) option" where
  "Service_dispatch methname req svc w =
     (case sv_methods svc methname of
        None \<Rightarrow> None
      | Some f \<Rightarrow> (case f (rq_args req) w of (w', r) \<Rightarrow> Some (w', \<lparr>rm_ok = True, rm_reply = Some r\<rparr>)))"

definition Server_dispatch :: "('n, 'a) reqMsg \<Rightarrow> ('w, 'a, 'r) Server \<Rightarrow> 'w \<Rightarrow>
    (('w, 'a, 'r) Server \<times> 'w \<times> 'r replyMsg) option" where
  "Server_dispatch req rs w =
     (let rs1 = rs\<lparr>srv_count := srv_count rs + 1\<rparr>;
          dot = last_dot (rq_svcMeth req) 0 (-1)
      in do {
        serviceName \<leftarrow> go_upto (rq_svcMeth req) dot;
        methodName \<leftarrow> go_from (rq_svcMeth req) (dot + 1);
        svc \<leftarrow> services rs1 serviceName;
        (w', r) \<leftarrow> Service_dispatch methodName req svc w;
        Some (rs1, w', r)
      })"

section \<open>The network's switches\<close>

definition MakeNetwork :: "'n Network" where
  "MakeNetwork = \<lparr>reliable = True, longDelays = False, longReordering = False, net_ends = Map.empty,
     enabled = Map.empty, servers = Map.empty, connections = Map.empty, rn_done = False,
     rn_count = 0, rn_bytes = 0\<rparr>"

definition Cleanup :: "'n Network \<Rightarrow> 'n Network" where
  "Cleanup rn = rn\<lparr>rn_done := True\<rparr>"

definition Reliable :: "bool \<Rightarrow> 'n Network \<Rightarrow> 'n Network" where
  "Reliable yes rn = rn\<lparr>reliable := yes\<rparr>"

definition IsReliable :: "'n Network \<Rightarrow> bool" where
  "IsReliable rn = reliable rn"

definition LongReordering :: "bool \<Rightarrow> 'n Network \<Rightarrow> 'n Network" where
  "LongReordering yes rn = rn\<lparr>longReordering := yes\<rparr>"

definition LongDelays :: "bool \<Rightarrow> 'n Network \<Rightarrow> 'n Network" where
  "LongDelays yes rn = rn\<lparr>longDelays := yes\<rparr>"

definition IsLongDelays :: "'n Network \<Rightarrow> bool" where
  "IsLongDelays rn = longDelays rn"

text \<open>A missing key of a Go map reads as the zero value: \<open>false\<close> or \<open>nil\<close>.\<close>

definition is_enabled :: "'n \<Rightarrow> 'n Network \<Rightarrow> bool" where
  "is_enabled e rn \<longleftrightarrow> enabled rn e = Some True"

definition server_of :: "'n \<Rightarrow> 'n Network \<Rightarrow> nat option" where
  "server_of nm rn = (case servers rn nm of None \<Rightarrow> None | Some p \<Rightarrow> p)"

definition readEndnameInfo :: "'n \<Rightarrow> 'n Network \<Rightarrow> bool \<times> 'n option \<times> nat option \<times> bool \<times> bool" where
  "readEndnameInfo endname rn =
     (let servername = (case connections rn endname of None \<Rightarrow> None | Some c \<Rightarrow> c);
          server = (case servername of None \<Rightarrow> None | Some nm \<Rightarrow> server_of nm rn)
      in (is_enabled endname rn, servername, server, reliable rn, longReordering rn))"

definition isServerDead :: "'n \<Rightarrow> 'n \<Rightarrow> nat \<Rightarrow> 'n Network \<Rightarrow> bool" where
  "isServerDead endname servername server rn \<longleftrightarrow>
     \<not> is_enabled endname rn \<or> server_of servername rn \<noteq> Some server"

definition MakeEnd :: "'n \<Rightarrow> 'n Network \<Rightarrow> ('n Network \<times> 'n ClientEnd) option" where
  "MakeEnd endname rn =
     (if net_ends rn endname \<noteq> None then None
      else let e = \<lparr>ce_endname = endname\<rparr>
           in Some (rn\<lparr>net_ends := (net_ends rn)(endname \<mapsto> e), enabled := (enabled rn)(endname \<mapsto> False),
                       connections := (connections rn)(endname \<mapsto> None)\<rparr>, e))"

definition DeleteEnd :: "'n \<Rightarrow> 'n Network \<Rightarrow> 'n Network option" where
  "DeleteEnd endname rn =
     (if net_ends rn endname = None then None
      else Some (rn\<lparr>net_ends := (net_ends rn)(endname := None), enabled := (enabled rn)(endname := None),
                    connections := (connections rn)(endname := None)\<rparr>))"

definition AddServer :: "'n \<Rightarrow> nat \<Rightarrow> 'n Network \<Rightarrow> 'n Network" where
  "AddServer servername rs rn = rn\<lparr>servers := (servers rn)(servername \<mapsto> Some rs)\<rparr>"

definition DeleteServer :: "'n \<Rightarrow> 'n Network \<Rightarrow> 'n Network" where
  "DeleteServer servername rn = rn\<lparr>servers := (servers rn)(servername \<mapsto> None)\<rparr>"

definition Connect :: "'n \<Rightarrow> 'n \<Rightarrow> 'n Network \<Rightarrow> 'n Network" where
  "Connect endname servername rn =
     rn\<lparr>connections := (connections rn)(endname \<mapsto> Some servername)\<rparr>"

definition Enable :: "'n \<Rightarrow> bool \<Rightarrow> 'n Network \<Rightarrow> 'n Network" where
  "Enable endname on rn = rn\<lparr>enabled := (enabled rn)(endname \<mapsto> on)\<rparr>"

text \<open>The count of a server that is not there is a nil dereference.\<close>

definition GetCount :: "'n \<Rightarrow> (nat \<Rightarrow> ('w, 'a, 'r) Server) \<Rightarrow> 'n Network \<Rightarrow> int option" where
  "GetCount servername hp rn = map_option (\<lambda>p. srv_count (hp p)) (server_of servername rn)"

definition GetTotalCount :: "'n Network \<Rightarrow> int" where
  "GetTotalCount rn = sint (rn_count rn)"

definition GetTotalBytes :: "'n Network \<Rightarrow> int" where
  "GetTotalBytes rn = sint (rn_bytes rn)"

text \<open>The network's goroutine takes a request from \<open>endCh\<close>.\<close>

definition take_request :: "int \<Rightarrow> 'n Network \<Rightarrow> 'n Network" where
  "take_request len rn = rn\<lparr>rn_count := rn_count rn + 1, rn_bytes := rn_bytes rn + of_int len\<rparr>"

section \<open>The life of a call\<close>

text \<open>
  Where the goroutine of \<open>processReq\<close> for a call is: not yet looked up; about to execute the
  request at the server found (with the flags read then); waiting for the handler's goroutine;
  about to send the reply to the caller (some replies wait for a timer first); done.
\<close>

datatype ('n, 'r) call_pc =
  NoCall
| Begin
| Found 'n nat bool bool
| Waiting 'n nat bool bool
| Replying "'r replyMsg"
| Answered "'r replyMsg"

text \<open>The goroutine that runs the handler, which may outlive the wait for it.\<close>

datatype 'r handler_pc = NotRun | Running nat | Ran "'r replyMsg"

record ('n, 'w, 'a, 'r) sys =
  net :: "'n Network"
  heap :: "nat \<Rightarrow> ('w, 'a, 'r) Server"
  objs :: 'w
  reqs :: "nat \<Rightarrow> ('n, 'a) reqMsg option"
  call_at :: "nat \<Rightarrow> ('n, 'r) call_pc"
  handler_at :: "nat \<Rightarrow> 'r handler_pc"
  executed :: "(nat \<times> nat \<times> 'r replyMsg) list"

text \<open>\<open>executed\<close> is the history: which call ran at which server with which reply, oldest first.\<close>

definition no_reply :: "'r replyMsg" where
  "no_reply = \<lparr>rm_ok = False, rm_reply = None\<rparr>"

definition processReq_lookup :: "('n, 'a) reqMsg \<Rightarrow> 'n Network \<Rightarrow> ('n, 'r) call_pc" where
  "processReq_lookup req rn =
     (case readEndnameInfo (rq_endname req) rn of
        (en, Some nm, Some p, rel, lr) \<Rightarrow> if en then Found nm p rel lr else Replying no_reply
      | _ \<Rightarrow> Replying no_reply)"

text \<open>
  The end of \<open>processReq\<close> once the handler has returned, \<open>drop\<close> being the random choice to lose
  the reply; with long reordering the reply may wait, which only delays the step to the caller.
\<close>

definition processReq_reply :: "('n, 'a) reqMsg \<Rightarrow> 'n \<Rightarrow> nat \<Rightarrow> bool \<Rightarrow> bool \<Rightarrow> 'r replyMsg \<Rightarrow>
    'n Network \<Rightarrow> ('n, 'r) call_pc" where
  "processReq_reply req nm p rel lose r rn =
     (if isServerDead (rq_endname req) nm p rn then Replying no_reply
      else if \<not> rel \<and> lose then Replying no_reply
      else Replying r)"

definition set_call :: "nat \<Rightarrow> ('n, 'r) call_pc \<Rightarrow> ('n, 'w, 'a, 'r) sys \<Rightarrow> ('n, 'w, 'a, 'r) sys" where
  "set_call i c s = s\<lparr>call_at := (call_at s)(i := c)\<rparr>"

definition answer_caller :: "(('r \<Rightarrow> int) \<Rightarrow> 'r replyMsg \<Rightarrow> 'n Network \<Rightarrow> 'n Network)" where
  "answer_caller rlen r rn =
     (case rm_reply r of None \<Rightarrow> rn | Some v \<Rightarrow> rn\<lparr>rn_bytes := rn_bytes rn + of_int (rlen v)\<rparr>)"

text \<open>The switches a test may flip at any time.\<close>

datatype 'n net_switch =
  SwReliable bool | SwLongReordering bool | SwLongDelays bool | SwCleanup
| SwMakeEnd 'n | SwDeleteEnd 'n | SwAddServer 'n nat | SwDeleteServer 'n
| SwConnect 'n 'n | SwEnable 'n bool

primrec switch :: "'n net_switch \<Rightarrow> 'n Network \<Rightarrow> 'n Network option" where
  "switch (SwReliable b) rn = Some (Reliable b rn)"
| "switch (SwLongReordering b) rn = Some (LongReordering b rn)"
| "switch (SwLongDelays b) rn = Some (LongDelays b rn)"
| "switch SwCleanup rn = Some (Cleanup rn)"
| "switch (SwMakeEnd e) rn = map_option fst (MakeEnd e rn)"
| "switch (SwDeleteEnd e) rn = DeleteEnd e rn"
| "switch (SwAddServer nm p) rn = Some (AddServer nm p rn)"
| "switch (SwDeleteServer nm) rn = Some (DeleteServer nm rn)"
| "switch (SwConnect e nm) rn = Some (Connect e nm rn)"
| "switch (SwEnable e b) rn = Some (Enable e b rn)"

inductive rpc_step :: "('a \<Rightarrow> int) \<Rightarrow> ('r \<Rightarrow> int) \<Rightarrow> ('n, 'w, 'a, 'r) sys \<Rightarrow> ('n, 'w, 'a, 'r) sys \<Rightarrow> bool"
  for alen :: "'a \<Rightarrow> int" and rlen :: "'r \<Rightarrow> int" where
  send: "call_at s i = NoCall \<Longrightarrow>
     rpc_step alen rlen s (set_call i Begin (s\<lparr>reqs := (reqs s)(i \<mapsto> req),
       net := take_request (alen (rq_args req)) (net s)\<rparr>))"
| send_closed: "call_at s i = NoCall \<Longrightarrow> rn_done (net s) \<Longrightarrow>
     rpc_step alen rlen s (set_call i (Answered no_reply) s)"
| lookup: "call_at s i = Begin \<Longrightarrow> reqs s i = Some req \<Longrightarrow>
     rpc_step alen rlen s (set_call i (processReq_lookup req (net s)) s)"
| drop_request: "call_at s i = Found nm p False lr \<Longrightarrow>
     rpc_step alen rlen s (set_call i (Replying no_reply) s)"
| launch: "call_at s i = Found nm p rel lr \<Longrightarrow>
     rpc_step alen rlen s (set_call i (Waiting nm p rel lr)
       (s\<lparr>handler_at := (handler_at s)(i := Running p)\<rparr>))"
| handle: "handler_at s i = Running p \<Longrightarrow> reqs s i = Some req \<Longrightarrow>
     Server_dispatch req (heap s p) (objs s) = Some (rs, w, r) \<Longrightarrow>
     rpc_step alen rlen s (s\<lparr>heap := (heap s)(p := rs), objs := w,
       handler_at := (handler_at s)(i := Ran r), executed := executed s @ [(i, p, r)]\<rparr>)"
| returned: "call_at s i = Waiting nm p rel lr \<Longrightarrow> handler_at s i = Ran r \<Longrightarrow> reqs s i = Some req \<Longrightarrow>
     rpc_step alen rlen s (set_call i (processReq_reply req nm p rel lose r (net s)) s)"
| dead: "call_at s i = Waiting nm p rel lr \<Longrightarrow> reqs s i = Some req \<Longrightarrow>
     isServerDead (rq_endname req) nm p (net s) \<Longrightarrow>
     rpc_step alen rlen s (set_call i (Replying no_reply) s)"
| answer: "call_at s i = Replying r \<Longrightarrow>
     rpc_step alen rlen s (set_call i (Answered r) (s\<lparr>net := answer_caller rlen r (net s)\<rparr>))"
| flip: "switch sw (net s) = Some rn \<Longrightarrow> rpc_step alen rlen s (s\<lparr>net := rn\<rparr>)"
| add_service: "rpc_step alen rlen s (s\<lparr>heap := (heap s)(p := AddService svc (heap s p))\<rparr>)"
| program: "rpc_step alen rlen s (s\<lparr>objs := w\<rparr>)"

definition init_sys :: "(nat \<Rightarrow> ('w, 'a, 'r) Server) \<Rightarrow> 'w \<Rightarrow> ('n, 'w, 'a, 'r) sys" where
  "init_sys hp w = \<lparr>net = MakeNetwork, heap = hp, objs = w, reqs = Map.empty, call_at = (\<lambda>_. NoCall),
     handler_at = (\<lambda>_. NotRun), executed = []\<rparr>"

inductive rpc_reach :: "('a \<Rightarrow> int) \<Rightarrow> ('r \<Rightarrow> int) \<Rightarrow> ('n, 'w, 'a, 'r) sys \<Rightarrow> bool"
  for alen :: "'a \<Rightarrow> int" and rlen :: "'r \<Rightarrow> int" where
  start: "rpc_reach alen rlen (init_sys hp w)"
| step: "rpc_reach alen rlen s \<Longrightarrow> rpc_step alen rlen s s' \<Longrightarrow> rpc_reach alen rlen s'"

lemma set_call_simps [simp]:
  "call_at (set_call i c s) j = (if j = i then c else call_at s j)" "net (set_call i c s) = net s"
  "heap (set_call i c s) = heap s" "objs (set_call i c s) = objs s" "reqs (set_call i c s) = reqs s"
  "handler_at (set_call i c s) = handler_at s" "executed (set_call i c s) = executed s"
  by (simp_all add: set_call_def)

text \<open>The executions of one call.\<close>

definition runs :: "nat \<Rightarrow> (nat \<times> nat \<times> 'r replyMsg) list \<Rightarrow> (nat \<times> nat \<times> 'r replyMsg) list" where
  "runs i h = filter (\<lambda>x. fst x = i) h"

section \<open>A call is executed at most once\<close>

text \<open>The invariant of one call.\<close>

fun call_ok :: "('n, 'a) reqMsg option \<Rightarrow> ('n, 'r) call_pc \<Rightarrow> 'r handler_pc \<Rightarrow>
    (nat \<times> nat \<times> 'r replyMsg) list \<Rightarrow> bool" where
  "call_ok q c NotRun h =
     (h = [] \<and> (case c of Waiting _ _ _ _ \<Rightarrow> False | Replying m \<Rightarrow> \<not> rm_ok m | Answered m \<Rightarrow> \<not> rm_ok m
                | NoCall \<Rightarrow> q = None | _ \<Rightarrow> q \<noteq> None))"
| "call_ok q c (Running p) h =
     (h = [] \<and> q \<noteq> None \<and> (case c of Waiting _ p' _ _ \<Rightarrow> p' = p | Replying m \<Rightarrow> \<not> rm_ok m
                | Answered m \<Rightarrow> \<not> rm_ok m | _ \<Rightarrow> False))"
| "call_ok q c (Ran r) h =
     ((\<exists>i p. h = [(i, p, r)] \<and> (case c of Waiting _ p' _ _ \<Rightarrow> p' = p | _ \<Rightarrow> True)) \<and> q \<noteq> None \<and> rm_ok r \<and>
      (case c of Waiting _ _ _ _ \<Rightarrow> True | Replying m \<Rightarrow> rm_ok m \<longrightarrow> m = r | Answered m \<Rightarrow> rm_ok m \<longrightarrow> m = r
       | _ \<Rightarrow> False))"

definition rpc_inv :: "('n, 'w, 'a, 'r) sys \<Rightarrow> bool" where
  "rpc_inv s \<longleftrightarrow> (\<forall>i. call_ok (reqs s i) (call_at s i) (handler_at s i) (runs i (executed s)))"

lemma no_reply_ok [simp]: "\<not> rm_ok no_reply"
  by (simp add: no_reply_def)

lemma processReq_lookup_cases:
  "(\<exists>nm p rel lr. processReq_lookup req rn = Found nm p rel lr) \<or>
   processReq_lookup req rn = Replying no_reply"
  by (simp add: processReq_lookup_def case_prod_unfold split: option.splits)

lemma processReq_reply_cases:
  "processReq_reply req nm p rel lose r rn = Replying no_reply \<or>
   processReq_reply req nm p rel lose r rn = Replying r"
  by (simp add: processReq_reply_def)

lemma dispatch_ok:
  "Server_dispatch req rs w = Some (rs', w', r) \<Longrightarrow> rm_ok r"
  by (auto simp: Server_dispatch_def Service_dispatch_def Let_def bind_eq_Some_conv'
      case_prod_unfold split: option.splits)

lemma runs_snoc: "runs i (h @ [(j, p, r)]) = (if j = i then runs i h @ [(j, p, r)] else runs i h)"
  by (simp add: runs_def)

text \<open>Only the call \<open>i\<close> moves.\<close>

lemma rpc_inv_move:
  assumes inv: "rpc_inv s"
    and same: "\<And>j. j \<noteq> i \<Longrightarrow> reqs s' j = reqs s j \<and> call_at s' j = call_at s j \<and>
      handler_at s' j = handler_at s j \<and> runs j (executed s') = runs j (executed s)"
    and mine: "call_ok (reqs s i) (call_at s i) (handler_at s i) (runs i (executed s)) \<Longrightarrow>
      call_ok (reqs s' i) (call_at s' i) (handler_at s' i) (runs i (executed s'))"
  shows "rpc_inv s'"
  using inv same mine unfolding rpc_inv_def by metis

lemma rpc_inv_step:
  fixes s s' :: "('n, 'w, 'a, 'r) sys"
  assumes "rpc_step alen rlen s s'" "rpc_inv s"
  shows "rpc_inv s'"
  using assms
proof (induction rule: rpc_step.induct)
  case (send s i req)
  show ?case
    by (rule rpc_inv_move [OF send(2), of i])
      (simp_all, use send(1) in \<open>cases "handler_at s i"; simp\<close>)
next
  case (send_closed s i)
  show ?case
    by (rule rpc_inv_move [OF send_closed(3), of i])
      (simp_all, use send_closed(1) in \<open>cases "handler_at s i"; simp\<close>)
next
  case (lookup s i req)
  let ?c = "processReq_lookup req (net s) :: ('n, 'r) call_pc"
  show ?case
  proof (rule rpc_inv_move [OF lookup(3), of i])
    assume ok: "call_ok (reqs s i) (call_at s i) (handler_at s i) (runs i (executed s))"
    have "call_ok (reqs s i) ?c (handler_at s i) (runs i (executed s))"
      using processReq_lookup_cases [where 'b = 'r, of req "net s"]
    proof (elim disjE exE)
      fix nm p rel lr assume "?c = Found nm p rel lr"
      then show ?thesis using ok lookup(1,2) by (cases "handler_at s i") auto
    next
      assume "?c = Replying no_reply"
      then show ?thesis using ok lookup(1,2) by (cases "handler_at s i") auto
    qed
    then show "call_ok (reqs (set_call i ?c s) i) (call_at (set_call i ?c s) i)
        (handler_at (set_call i ?c s) i) (runs i (executed (set_call i ?c s)))" by simp
  qed simp_all
next
  case (drop_request s i nm p lr)
  show ?case
    by (rule rpc_inv_move [OF drop_request(2), of i])
      (simp_all, use drop_request(1) in \<open>cases "handler_at s i"; simp\<close>)
next
  case (launch s i nm p rel lr)
  show ?case
    by (rule rpc_inv_move [OF launch(2), of i])
      (simp_all, use launch(1) in \<open>cases "handler_at s i"; simp\<close>)
next
  case (handle s i p req rs w r)
  have "rm_ok r" by (rule dispatch_ok [OF handle(3)])
  with handle(1,2) show ?case
    by (intro rpc_inv_move [OF handle(4), of i]) (auto simp: runs_snoc split: call_pc.splits)
next
  case (returned s i nm p rel lr r req lose)
  let ?c = "processReq_reply req nm p rel lose r (net s)"
  show ?case
  proof (rule rpc_inv_move [OF returned(4), of i])
    assume "call_ok (reqs s i) (call_at s i) (handler_at s i) (runs i (executed s))"
    then have "call_ok (reqs s i) ?c (handler_at s i) (runs i (executed s))"
      using processReq_reply_cases [of req nm p rel lose r "net s"] returned(1,2)
      by (elim disjE) (simp, blast)+
    then show "call_ok (reqs (set_call i ?c s) i) (call_at (set_call i ?c s) i)
        (handler_at (set_call i ?c s) i) (runs i (executed (set_call i ?c s)))" by simp
  qed simp_all
next
  case (dead s i nm p rel lr req)
  show ?case
    by (rule rpc_inv_move [OF dead(4), of i])
      (simp_all, use dead(1) in \<open>cases "handler_at s i"; auto\<close>)
next
  case (answer s i r)
  show ?case
    by (rule rpc_inv_move [OF answer(2), of i])
      (simp_all, use answer(1) in \<open>cases "handler_at s i"; simp\<close>)
qed (simp_all add: rpc_inv_def)

lemma rpc_reach_inv: "rpc_reach alen rlen s \<Longrightarrow> rpc_inv s"
proof (induction rule: rpc_reach.induct)
  case (start hp w)
  show ?case by (simp add: rpc_inv_def init_sys_def runs_def)
next
  case (step s s')
  then show ?case using rpc_inv_step by blast
qed

lemma call_okD: "rpc_reach alen rlen s \<Longrightarrow> call_ok (reqs s i) (call_at s i) (handler_at s i) (runs i (executed s))"
  using rpc_reach_inv by (auto simp: rpc_inv_def)

lemma runs_fst: "runs i h = [(j, p, r)] \<Longrightarrow> j = i"
  by (auto simp: runs_def filter_eq_Cons_iff)

text \<open>
  C31 (at most once).  However the network, the test's switches and all other calls interleave:
  a call that returned true was executed exactly once, and the reply is the one its handler
  produced; a call that returned false was executed at most once.
\<close>

theorem call_executed_at_most_once:
  assumes "rpc_reach alen rlen s" and "call_at s i = Answered m"
  shows "if rm_ok m then \<exists>p. runs i (executed s) = [(i, p, m)] else length (runs i (executed s)) \<le> 1"
  using call_okD [OF assms(1), of i] assms(2)
  by (cases "handler_at s i") (auto dest: runs_fst)

section \<open>A deleted server never answers\<close>

text \<open>
  Deleted servers.  From the moment a server is deleted, and as long as the same server is not
  added again under its name, no call that was waiting for it returns true: the caller is
  told that it failed even if the handler still runs.
\<close>

theorem deleted_server_never_answers:
  assumes "call_at s i = Waiting nm p rel lr" and "server_of nm (net s) \<noteq> Some p"
    and "(\<lambda>x y. rpc_step alen rlen x y \<and> server_of nm (net y) \<noteq> Some p)\<^sup>*\<^sup>* s s'"
  shows "call_at s' i = Waiting nm p rel lr \<or> call_at s' i = Replying no_reply \<or>
    call_at s' i = Answered no_reply"
proof -
  have "server_of nm (net s') \<noteq> Some p \<and> (call_at s' i = Waiting nm p rel lr \<or>
      call_at s' i = Replying no_reply \<or> call_at s' i = Answered no_reply)"
    using assms(3)
  proof (induction rule: rtranclp_induct)
    case base
    show ?case using assms by simp
  next
    case (step x y)
    have "rpc_step alen rlen x y" using step.hyps by simp
    then have "call_at y i = Waiting nm p rel lr \<or> call_at y i = Replying no_reply \<or>
        call_at y i = Answered no_reply"
      using step.IH
      by cases (auto simp: processReq_reply_def isServerDead_def split: if_splits)
    then show ?case using step.hyps by simp
  qed
  then show ?thesis by simp
qed

section \<open>A lossy network that executes a request at most once\<close>

text \<open>
  What a program may rely on, without the goroutines of a call.  A request is sent, goes to the server
  its end leads to at some later moment or is dropped, and may then be executed there, once; the caller
  gets the reply of that execution or a failure, whether the request was executed or not.  The wiring
  changes when the test flips a switch, servers get services, and the program's own goroutines work on
  its objects; only an execution enters the log.
\<close>

datatype ('n, 'a, 'r) fate = Unsent | Sent "('n, 'a) reqMsg" | Routed "('n, 'a) reqMsg" nat | Dropped | Executed "'r replyMsg"

record ('n, 'w, 'a, 'r) lossy =
  lo_fate :: "nat \<Rightarrow> ('n, 'a, 'r) fate"
  lo_got :: "nat \<Rightarrow> 'r replyMsg option"
  lo_log :: "(nat \<times> nat \<times> 'r replyMsg) list"
  lo_route :: "'n \<Rightarrow> nat option"
  lo_heap :: "nat \<Rightarrow> ('w, 'a, 'r) Server"
  lo_objs :: 'w

inductive lossy_step :: "('n, 'w, 'a, 'r) lossy \<Rightarrow> ('n, 'w, 'a, 'r) lossy \<Rightarrow> bool" where
  l_send: "lo_fate a i = Unsent \<Longrightarrow> lossy_step a (a\<lparr>lo_fate := (lo_fate a)(i := Sent req)\<rparr>)"
| l_refuse: "lo_fate a i = Unsent \<Longrightarrow>
     lossy_step a (a\<lparr>lo_fate := (lo_fate a)(i := Dropped), lo_got := (lo_got a)(i \<mapsto> no_reply)\<rparr>)"
| l_route: "lo_fate a i = Sent req \<Longrightarrow> lo_route a (rq_endname req) = Some p \<Longrightarrow>
     lossy_step a (a\<lparr>lo_fate := (lo_fate a)(i := Routed req p)\<rparr>)"
| l_drop: "lo_fate a i = Sent req \<or> lo_fate a i = Routed req p \<Longrightarrow>
     lossy_step a (a\<lparr>lo_fate := (lo_fate a)(i := Dropped)\<rparr>)"
| l_execute: "lo_fate a i = Routed req p \<Longrightarrow>
     Server_dispatch req (lo_heap a p) (lo_objs a) = Some (rs, w, r) \<Longrightarrow>
     lossy_step a (a\<lparr>lo_fate := (lo_fate a)(i := Executed r), lo_log := lo_log a @ [(i, p, r)],
       lo_heap := (lo_heap a)(p := rs), lo_objs := w\<rparr>)"
| l_receive: "lo_fate a i = Executed r \<Longrightarrow> lo_got a i = None \<Longrightarrow>
     lossy_step a (a\<lparr>lo_got := (lo_got a)(i \<mapsto> r)\<rparr>)"
| l_fail: "lo_fate a i \<noteq> Unsent \<Longrightarrow> lo_got a i = None \<Longrightarrow>
     lossy_step a (a\<lparr>lo_got := (lo_got a)(i \<mapsto> no_reply)\<rparr>)"
| l_rewire: "lossy_step a (a\<lparr>lo_route := ro\<rparr>)"
| l_service: "lossy_step a (a\<lparr>lo_heap := (lo_heap a)(p := AddService svc (lo_heap a p))\<rparr>)"
| l_program: "lossy_step a (a\<lparr>lo_objs := w\<rparr>)"

definition lossy_init :: "(nat \<Rightarrow> ('w, 'a, 'r) Server) \<Rightarrow> 'w \<Rightarrow> ('n, 'w, 'a, 'r) lossy" where
  "lossy_init hp w = \<lparr>lo_fate = (\<lambda>_. Unsent), lo_got = Map.empty, lo_log = [], lo_route = Map.empty,
     lo_heap = hp, lo_objs = w\<rparr>"

text \<open>The log of this network has no request twice, and what a caller got as a reply is in it.\<close>

definition lossy_ok :: "('n, 'w, 'a, 'r) lossy \<Rightarrow> bool" where
  "lossy_ok a \<longleftrightarrow> distinct (map fst (lo_log a)) \<and>
     (\<forall>i r. lo_fate a i = Executed r \<longleftrightarrow> (\<exists>p. (i, p, r) \<in> set (lo_log a))) \<and>
     (\<forall>i m. lo_got a i = Some m \<longrightarrow> m = no_reply \<or> lo_fate a i = Executed m)"

lemma lossy_ok_cong:
  assumes "lossy_ok a" "lo_log b = lo_log a"
    and "\<And>i r. lo_fate b i = Executed r \<longleftrightarrow> lo_fate a i = Executed r"
    and "\<And>i m. lo_got b i = Some m \<Longrightarrow> lo_got a i = Some m \<or> m = no_reply \<or> lo_fate a i = Executed m"
  shows "lossy_ok b"
  using assms(1) unfolding lossy_ok_def assms(2,3) using assms(4) by blast

lemma lossy_ok_step:
  assumes "lossy_step a b" "lossy_ok a"
  shows "lossy_ok b"
  using assms(1)
proof cases
  case (l_execute i req p rs w r)
  have old: "\<And>m. lo_fate a i \<noteq> Executed m" using l_execute(2) by simp
  then have new: "\<And>q m. (i, q, m) \<notin> set (lo_log a)" using assms(2) unfolding lossy_ok_def by blast
  have fate: "lo_fate b j = Executed m \<longleftrightarrow> (\<exists>q. (j, q, m) \<in> set (lo_log b))" for j m
  proof (cases "j = i")
    case True
    then show ?thesis using new l_execute(1) by auto
  next
    case False
    then show ?thesis using assms(2) l_execute(1) by (simp add: lossy_ok_def)
  qed
  have "m = no_reply \<or> lo_fate b j = Executed m" if "lo_got b j = Some m" for j m
  proof -
    have "lo_got a j = Some m" using that l_execute(1) by simp
    then have "m = no_reply \<or> lo_fate a j = Executed m" using assms(2) unfolding lossy_ok_def by blast
    then show ?thesis using old l_execute(1) by (cases "j = i") simp_all
  qed
  moreover have "distinct (map fst (lo_log b))"
    using assms(2) l_execute(1) new by (force simp: lossy_ok_def)
  ultimately show ?thesis using fate unfolding lossy_ok_def by blast
qed (rule lossy_ok_cong [OF assms(2)], auto split: if_split_asm)+

lemma lossy_at_most_once:
  assumes "lossy_step\<^sup>*\<^sup>* (lossy_init hp w) a"
  shows "distinct (map fst (lo_log a)) \<and>
     (\<forall>i m. lo_got a i = Some m \<longrightarrow> m = no_reply \<or> (\<exists>p. (i, p, m) \<in> set (lo_log a)))"
proof -
  from assms have "lossy_ok a"
  proof (induction rule: rtranclp_induct)
    case base
    show ?case by (simp add: lossy_ok_def lossy_init_def)
  next
    case (step b c)
    then show ?case by (blast intro: lossy_ok_step)
  qed
  then show ?thesis unfolding lossy_ok_def by blast
qed

text \<open>The view of the simulated network as such a one.\<close>

fun got :: "('n, 'r) call_pc \<Rightarrow> 'r replyMsg option" where
  "got (Answered m) = Some m"
| "got _ = None"

fun fate_of :: "('n, 'a) reqMsg option \<Rightarrow> ('n, 'r) call_pc \<Rightarrow> 'r handler_pc \<Rightarrow> ('n, 'a, 'r) fate" where
  "fate_of q c (Ran r) = Executed r"
| "fate_of q c (Running p) = Routed (the q) p"
| "fate_of q NoCall NotRun = Unsent"
| "fate_of q Begin NotRun = Sent (the q)"
| "fate_of q (Found nm p rel lr) NotRun = Routed (the q) p"
| "fate_of q c NotRun = Dropped"

definition route_of :: "'n Network \<Rightarrow> 'n \<Rightarrow> nat option" where
  "route_of rn e = (if is_enabled e rn then Option.bind (Option.bind (connections rn e) id) (\<lambda>nm. server_of nm rn) else None)"

definition lossy_of :: "('n, 'w, 'a, 'r) sys \<Rightarrow> ('n, 'w, 'a, 'r) lossy" where
  "lossy_of s =
     \<lparr>lo_fate = (\<lambda>i. fate_of (reqs s i) (call_at s i) (handler_at s i)), lo_got = (\<lambda>i. got (call_at s i)),
      lo_log = executed s, lo_route = route_of (net s), lo_heap = heap s, lo_objs = objs s\<rparr>"

lemma lossy_of_move:
  assumes "\<And>j. j \<noteq> i \<Longrightarrow> reqs s' j = reqs s j \<and> call_at s' j = call_at s j \<and> handler_at s' j = handler_at s j"
    and "executed s' = executed s" "heap s' = heap s" "objs s' = objs s" "route_of (net s') = route_of (net s)"
  shows "lossy_of s' = (lossy_of s)
    \<lparr>lo_fate := (lo_fate (lossy_of s))(i := fate_of (reqs s' i) (call_at s' i) (handler_at s' i)),
     lo_got := (lo_got (lossy_of s))(i := got (call_at s' i))\<rparr>"
proof -
  have "fate_of (reqs s' j) (call_at s' j) (handler_at s' j) = fate_of (reqs s j) (call_at s j) (handler_at s j)"
    "got (call_at s' j) = got (call_at s j)" if "j \<noteq> i" for j
    using assms(1) [OF that] by simp_all
  then show ?thesis using assms(2-5) by (auto simp: lossy_of_def fun_eq_iff)
qed

lemma got_upd: "got (call_at s i) = None \<Longrightarrow> (lossy_of s)\<lparr>lo_fate := f, lo_got := (lo_got (lossy_of s))(i := None)\<rparr> =
    (lossy_of s)\<lparr>lo_fate := f\<rparr>"
  by (simp add: lossy_of_def fun_upd_idem)

lemma fate_upd: "fate_of (reqs s i) (call_at s i) (handler_at s i) = x \<Longrightarrow>
    (lossy_of s)\<lparr>lo_fate := (lo_fate (lossy_of s))(i := x), lo_got := g\<rparr> = (lossy_of s)\<lparr>lo_got := g\<rparr>"
  by (auto simp: lossy_of_def fun_upd_idem)

lemma route_take [simp]: "route_of (take_request len rn) = route_of rn"
  by (simp add: route_of_def take_request_def is_enabled_def server_of_def fun_eq_iff)

lemma route_answer [simp]: "route_of (answer_caller rlen r rn) = route_of rn"
  by (simp add: route_of_def answer_caller_def is_enabled_def server_of_def fun_eq_iff split: option.split)

lemma lookup_route:
  "processReq_lookup req rn = (case route_of rn (rq_endname req) of None \<Rightarrow> Replying no_reply
     | Some p \<Rightarrow> Found (the (fst (snd (readEndnameInfo (rq_endname req) rn)))) p (reliable rn) (longReordering rn))"
  by (auto simp: processReq_lookup_def route_of_def readEndnameInfo_def Let_def split: option.splits)

lemma got_reply [simp]: "got (processReq_reply req nm p rel lose r rn) = None"
  using processReq_reply_cases [of req nm p rel lose r rn] by auto

text \<open>A reply that is not ok is the empty one.\<close>

lemma failed_reply:
  assumes "rpc_reach alen rlen s" "call_at s i = Replying m \<or> call_at s i = Answered m" "\<not> rm_ok m"
  shows "m = no_reply"
  using assms
proof (induction arbitrary: i m rule: rpc_reach.induct)
  case (start hp w)
  then show ?case by (simp add: init_sys_def)
next
  case (step s s')
  show ?case
    using step.hyps(2) step.prems step.IH call_okD [OF step.hyps(1), of i]
    by cases (auto simp: processReq_reply_def processReq_lookup_def split: if_splits option.splits prod.splits)
qed

lemma not_run:
  assumes "rpc_reach alen rlen s" "call_at s i = NoCall \<or> call_at s i = Begin \<or> call_at s i = Found nm p rel lr"
  shows "handler_at s i = NotRun"
  using call_okD [OF assms(1), of i] assms(2) by (cases "handler_at s i") auto

lemma lookup_lossy:
  assumes "rpc_reach alen rlen s" "call_at s i = Begin" "reqs s i = Some req"
  shows "lossy_step (lossy_of s) (lossy_of (set_call i (processReq_lookup req (net s)) s))"
proof -
  let ?t = "set_call i (processReq_lookup req (net s)) s"
  have h: "handler_at s i = NotRun" using not_run [OF assms(1)] assms(2) by blast
  have f: "lo_fate (lossy_of s) i = Sent req" using h assms(2,3) by (simp add: lossy_of_def)
  show ?thesis
  proof (cases "route_of (net s) (rq_endname req)")
    case None
    then have "lossy_of ?t = (lossy_of s)\<lparr>lo_fate := (lo_fate (lossy_of s))(i := Dropped)\<rparr>"
      using lossy_of_move [of i ?t s] got_upd [of s i] assms(2,3) h by (simp add: lookup_route)
    then show ?thesis using l_drop f by metis
  next
    case (Some p)
    then have "lossy_of ?t = (lossy_of s)\<lparr>lo_fate := (lo_fate (lossy_of s))(i := Routed req p)\<rparr>"
      using lossy_of_move [of i ?t s] got_upd [of s i] assms(2,3) h by (simp add: lookup_route)
    moreover have "lo_route (lossy_of s) (rq_endname req) = Some p" using Some by (simp add: lossy_of_def)
    ultimately show ?thesis using l_route [OF f] by metis
  qed
qed

lemma answer_lossy:
  assumes "rpc_reach alen rlen s" "call_at s i = Replying r"
  shows "lossy_step (lossy_of s) (lossy_of (set_call i (Answered r) (s\<lparr>net := answer_caller rlen r (net s)\<rparr>)))"
proof -
  let ?t = "set_call i (Answered r) (s\<lparr>net := answer_caller rlen r (net s)\<rparr>)"
  have ok: "call_ok (reqs s i) (Replying r) (handler_at s i) (runs i (executed s))"
    using call_okD [OF assms(1), of i] assms(2) by simp
  have "fate_of (reqs s i) (Answered r) (handler_at s i) = fate_of (reqs s i) (call_at s i) (handler_at s i)"
    using assms(2) by (cases "handler_at s i") simp_all
  then have e: "lossy_of ?t = (lossy_of s)\<lparr>lo_got := (lo_got (lossy_of s))(i \<mapsto> r)\<rparr>"
    using lossy_of_move [of i ?t s] fate_upd [of s i] by simp
  have g: "lo_got (lossy_of s) i = None" using assms(2) by (simp add: lossy_of_def)
  show ?thesis
  proof (cases "rm_ok r")
    case True
    then have "lo_fate (lossy_of s) i = Executed r" using ok by (cases "handler_at s i") (auto simp: lossy_of_def)
    then show ?thesis using l_receive g e by metis
  next
    case False
    then have "r = no_reply" using failed_reply [OF assms(1)] assms(2) by blast
    moreover have "lo_fate (lossy_of s) i \<noteq> Unsent" using assms(2) by (cases "handler_at s i") (simp_all add: lossy_of_def)
    ultimately show ?thesis using l_fail g e by metis
  qed
qed

lemma lossy_sim:
  fixes s s' :: "('n, 'w, 'a, 'r) sys"
  assumes "rpc_reach alen rlen s" and "rpc_step alen rlen s s'"
  shows "lossy_step (lossy_of s) (lossy_of s') \<or> lossy_of s' = lossy_of s"
  using assms(2)
proof cases
  case (send i req)
  have h: "handler_at s i = NotRun" using not_run [OF assms(1)] send(2) by blast
  have "lossy_of s' = (lossy_of s)\<lparr>lo_fate := (lo_fate (lossy_of s))(i := Sent req)\<rparr>"
    using lossy_of_move [of i s' s] got_upd [of s i] send h by simp
  moreover have "lo_fate (lossy_of s) i = Unsent" using h send(2) by (simp add: lossy_of_def)
  ultimately show ?thesis using l_send by metis
next
  case (send_closed i)
  have h: "handler_at s i = NotRun" using not_run [OF assms(1)] send_closed(2) by blast
  have "lossy_of s' = (lossy_of s)\<lparr>lo_fate := (lo_fate (lossy_of s))(i := Dropped),
      lo_got := (lo_got (lossy_of s))(i \<mapsto> no_reply)\<rparr>"
    using lossy_of_move [of i s' s] send_closed h by simp
  moreover have "lo_fate (lossy_of s) i = Unsent" using h send_closed(2) by (simp add: lossy_of_def)
  ultimately show ?thesis using l_refuse by metis
next
  case (lookup i req)
  then show ?thesis using lookup_lossy [OF assms(1)] by blast
next
  case (drop_request i nm p lr)
  have h: "handler_at s i = NotRun" using not_run [OF assms(1)] drop_request(2) by blast
  have "lossy_of s' = (lossy_of s)\<lparr>lo_fate := (lo_fate (lossy_of s))(i := Dropped)\<rparr>"
    using lossy_of_move [of i s' s] got_upd [of s i] drop_request h by simp
  moreover have "lo_fate (lossy_of s) i = Routed (the (reqs s i)) p" using h drop_request(2) by (simp add: lossy_of_def)
  ultimately show ?thesis using l_drop by metis
next
  case (launch i nm p rel lr)
  have h: "handler_at s i = NotRun" using not_run [OF assms(1)] launch(2) by blast
  have "lossy_of s' = lossy_of s"
    using lossy_of_move [of i s' s] got_upd [of s i] fate_upd [of s i] launch h by simp (simp add: lossy_of_def)
  then show ?thesis by simp
next
  case (handle i p req rs w r)
  have f: "lo_fate (lossy_of s) i = Routed req p" using handle(2,3) by (simp add: lossy_of_def)
  have "lossy_of s' = (lossy_of s)\<lparr>lo_fate := (lo_fate (lossy_of s))(i := Executed r),
      lo_log := lo_log (lossy_of s) @ [(i, p, r)], lo_heap := (lo_heap (lossy_of s))(p := rs), lo_objs := w\<rparr>"
    by (auto simp: lossy_of_def handle(1) fun_eq_iff)
  moreover have "Server_dispatch req (lo_heap (lossy_of s) p) (lo_objs (lossy_of s)) = Some (rs, w, r)"
    using handle(4) by (simp add: lossy_of_def)
  ultimately show ?thesis using l_execute [OF f] by metis
next
  case (returned i nm p rel lr r req lose)
  have "lossy_of s' = lossy_of s"
    using lossy_of_move [of i s' s] got_upd [of s i] fate_upd [of s i] returned by simp (simp add: lossy_of_def)
  then show ?thesis by simp
next
  case (dead i nm p rel lr req)
  have "handler_at s i \<noteq> NotRun" using call_okD [OF assms(1), of i] dead(2) by auto
  then have "lossy_of s' = lossy_of s"
    using lossy_of_move [of i s' s] got_upd [of s i] fate_upd [of s i] dead
    by (cases "handler_at s i") (simp_all, simp_all add: lossy_of_def)
  then show ?thesis by simp
next
  case (answer i r)
  then show ?thesis using answer_lossy [OF assms(1)] by blast
next
  case (flip sw rn)
  then have "lossy_of s' = (lossy_of s)\<lparr>lo_route := route_of rn\<rparr>" by (simp add: lossy_of_def)
  then show ?thesis using l_rewire by metis
next
  case (add_service p svc)
  then have "lossy_of s' = (lossy_of s)\<lparr>lo_heap := (lo_heap (lossy_of s))(p := AddService svc (lo_heap (lossy_of s) p))\<rparr>"
    by (simp add: lossy_of_def)
  then show ?thesis using l_service by metis
next
  case (program w)
  then have "lossy_of s' = (lossy_of s)\<lparr>lo_objs := w\<rparr>" by (simp add: lossy_of_def)
  then show ?thesis using l_program by metis
qed

lemma lossy_run:
  assumes "rpc_reach alen rlen s"
  shows "\<exists>hp w. lossy_step\<^sup>*\<^sup>* (lossy_init hp w) (lossy_of s)"
  using assms
proof (induction rule: rpc_reach.induct)
  case (start hp w)
  have "lossy_of (init_sys hp w) = lossy_init hp w"
    by (simp add: lossy_of_def init_sys_def lossy_init_def route_of_def MakeNetwork_def is_enabled_def fun_eq_iff)
  then show ?case by (metis rtranclp.rtrancl_refl)
next
  case (step s s')
  then show ?case using lossy_sim [OF step.hyps] by (metis rtranclp.rtrancl_into_rtrancl)
qed

text \<open>
  C32 (what the network guarantees).  The simulated network refines the lossy network: every step of it
  is one step there, or changes nothing there, and every state it reaches is one that the lossy network
  reaches from its start.  The log of executions, the replies the callers got and the state of the servers
  are the same in both.  So no request is in the log twice, and what a caller got is the reply of an
  execution in the log, at the server the request was routed to, or a failure.
\<close>

theorem labrpc_refines_lossy_network:
  fixes s s' :: "('n, 'w, 'a, 'r) sys"
  assumes "rpc_reach alen rlen s" and "rpc_step alen rlen s s'"
  shows "(lossy_step (lossy_of s) (lossy_of s') \<or> lossy_of s' = lossy_of s) \<and>
    (\<exists>hp w. lossy_step\<^sup>*\<^sup>* (lossy_init hp w) (lossy_of s')) \<and>
    distinct (map fst (lo_log (lossy_of s'))) \<and>
    (\<forall>i m. lo_got (lossy_of s') i = Some m \<longrightarrow> m = no_reply \<or> (\<exists>p. (i, p, m) \<in> set (lo_log (lossy_of s'))))"
proof -
  obtain hp w where run: "lossy_step\<^sup>*\<^sup>* (lossy_init hp w) (lossy_of s')"
    using lossy_run [OF rpc_reach.step [OF assms]] by blast
  then show ?thesis using lossy_sim [OF assms] lossy_at_most_once [OF run] by blast
qed

section \<open>A run\<close>

text \<open>
  One call of the method \<open>S.Add\<close>, which adds its argument to a counter and returns the sum, over
  a reliable network.
\<close>

definition demo_server :: "(int, int, int) Server" where
  "demo_server = AddService (MakeService ''S''
     [\<lparr>gm_name = ''Add'', gm_pkgPath = '''', gm_numIn = 3, gm_in2_ptr = True, gm_numOut = 0,
       gm_func = (\<lambda>a w. (w + a, w + a))\<rparr>]) MakeServer"

definition demo_req :: "(nat, int) reqMsg" where
  "demo_req = \<lparr>rq_endname = 1, rq_svcMeth = ''S.Add'', rq_args = 5\<rparr>"

definition demo_net :: "nat Network" where
  "demo_net = MakeNetwork\<lparr>net_ends := [1 \<mapsto> \<lparr>ce_endname = 1\<rparr>], enabled := [1 \<mapsto> True],
     servers := [2 \<mapsto> Some 0], connections := [1 \<mapsto> Some 2]\<rparr>"

definition demo_waiting :: "(nat, int, int, int) sys" where
  "demo_waiting = \<lparr>net = take_request 8 demo_net, heap = (\<lambda>_. demo_server), objs = 10,
     reqs = [0 \<mapsto> demo_req], call_at = (\<lambda>i. if i = 0 then Waiting 2 0 True False else NoCall),
     handler_at = (\<lambda>i. if i = 0 then Running 0 else NotRun), executed = []\<rparr>"

definition demo_answered :: "(nat, int, int, int) sys" where
  "demo_answered = demo_waiting\<lparr>net := answer_caller (\<lambda>_. 8) \<lparr>rm_ok = True, rm_reply = Some (15::int)\<rparr> (take_request 8 demo_net),
     heap := (\<lambda>_. demo_server)(0 := demo_server\<lparr>srv_count := 1\<rparr>), objs := 15,
     call_at := (\<lambda>i. if i = 0 then Answered \<lparr>rm_ok = True, rm_reply = Some 15\<rparr> else NoCall),
     handler_at := (\<lambda>i. if i = 0 then Ran \<lparr>rm_ok = True, rm_reply = Some 15\<rparr> else NotRun),
     executed := [(0, 0, \<lparr>rm_ok = True, rm_reply = Some 15\<rparr>)]\<rparr>"

lemma demo_dispatch:
  "Server_dispatch demo_req demo_server 10 =
     Some (demo_server\<lparr>srv_count := 1\<rparr>, 15, \<lparr>rm_ok = True, rm_reply = Some 15\<rparr>)"
  by (simp add: Server_dispatch_def demo_req_def demo_server_def MakeService_def AddService_def
      MakeServer_def Service_dispatch_def go_upto_def go_from_def)

lemma rpc_flip:
  "rpc_reach alen rlen (s\<lparr>net := rn\<rparr>) \<Longrightarrow> switch sw rn = Some rn' \<Longrightarrow> rpc_reach alen rlen (s\<lparr>net := rn'\<rparr>)"
  using rpc_reach.step [OF _ rpc_step.flip [of sw "s\<lparr>net := rn\<rparr>" rn']] by simp

lemma demo_net_reach:
  "rpc_reach (\<lambda>_. 8) (\<lambda>_. 8) ((init_sys (\<lambda>_. demo_server) 10)\<lparr>net := demo_net\<rparr>)"
proof -
  let ?s = "init_sys (\<lambda>_. demo_server) 10 :: (nat, int, int, int) sys"
  define n1 :: "nat Network" where "n1 = MakeNetwork\<lparr>net_ends := [1 \<mapsto> \<lparr>ce_endname = 1\<rparr>],
     enabled := [1 \<mapsto> False], connections := [1 \<mapsto> None]\<rparr>"
  have "rpc_reach (\<lambda>_. 8) (\<lambda>_. 8) (?s\<lparr>net := MakeNetwork\<rparr>)"
    using rpc_reach.start [of _ _ "\<lambda>_. demo_server" 10] by (simp add: init_sys_def)
  from rpc_flip [OF this, of "SwMakeEnd 1" n1] have "rpc_reach (\<lambda>_. 8) (\<lambda>_. 8) (?s\<lparr>net := n1\<rparr>)"
    by (simp add: n1_def MakeEnd_def MakeNetwork_def Let_def)
  from rpc_flip [OF rpc_flip [OF rpc_flip [OF this]], of "SwAddServer 2 0" _ "SwConnect 1 2" _
      "SwEnable 1 True" demo_net]
  show ?thesis
    by (simp add: n1_def demo_net_def Enable_def Connect_def AddServer_def MakeNetwork_def)
qed

lemma demo_waiting_reach: "rpc_reach (\<lambda>_. 8) (\<lambda>_. 8) demo_waiting"
proof -
  define s1 :: "(nat, int, int, int) sys" where
    "s1 = \<lparr>net = take_request 8 demo_net, heap = (\<lambda>_. demo_server), objs = 10,
       reqs = [0 \<mapsto> demo_req], call_at = (\<lambda>i. if i = 0 then Begin else NoCall),
       handler_at = (\<lambda>_. NotRun), executed = []\<rparr>"
  define s2 where "s2 = s1\<lparr>call_at := (\<lambda>i. if i = 0 then Found 2 0 True False else NoCall)\<rparr>"
  have "rpc_reach (\<lambda>_. 8) (\<lambda>_. 8) s1"
    using rpc_reach.step [OF demo_net_reach rpc_step.send [of _ 0 _ _ demo_req]]
    by (simp add: s1_def init_sys_def set_call_def fun_upd_def fun_eq_iff)
  moreover have "(processReq_lookup demo_req (net s1) :: (nat, int) call_pc) = Found 2 0 True False"
    by (simp add: processReq_lookup_def readEndnameInfo_def demo_req_def demo_net_def MakeNetwork_def
        take_request_def is_enabled_def server_of_def s1_def)
  then have "s2 = set_call 0 (processReq_lookup demo_req (net s1)) s1"
    by (simp add: s2_def s1_def set_call_def fun_upd_def fun_eq_iff)
  then have "rpc_step (\<lambda>_. 8) (\<lambda>_. 8) s1 s2"
    using rpc_step.lookup [of s1 0 demo_req] by (simp add: s1_def)
  moreover have "demo_waiting = set_call 0 (Waiting 2 0 True False)
      (s2\<lparr>handler_at := (handler_at s2)(0 := Running 0)\<rparr>)"
    by (simp add: demo_waiting_def s2_def s1_def set_call_def fun_upd_def fun_eq_iff)
  then have "rpc_step (\<lambda>_. 8) (\<lambda>_. 8) s2 demo_waiting"
    using rpc_step.launch [of s2 0 2 0 True False] by (simp add: s2_def)
  ultimately show ?thesis by (blast intro: rpc_reach.step)
qed

lemma demo_answered_reach: "rpc_reach (\<lambda>_. 8) (\<lambda>_. 8) demo_answered"
proof -
  let ?r = "\<lparr>rm_ok = True, rm_reply = Some (15::int)\<rparr>"
  define s4 where "s4 = demo_waiting\<lparr>heap := (\<lambda>_. demo_server)(0 := demo_server\<lparr>srv_count := 1\<rparr>),
     objs := 15, handler_at := (\<lambda>i. if i = 0 then Ran ?r else NotRun), executed := [(0, 0, ?r)]\<rparr>"
  define s5 where "s5 = s4\<lparr>call_at := (\<lambda>i. if i = 0 then Replying ?r else NoCall)\<rparr>"
  have "s4 = demo_waiting\<lparr>heap := (heap demo_waiting)(0 := demo_server\<lparr>srv_count := 1\<rparr>), objs := 15,
      handler_at := (handler_at demo_waiting)(0 := Ran ?r), executed := executed demo_waiting @ [(0, 0, ?r)]\<rparr>"
    by (simp add: s4_def demo_waiting_def fun_upd_def fun_eq_iff)
  then have "rpc_step (\<lambda>_. 8) (\<lambda>_. 8) demo_waiting s4"
    using rpc_step.handle [of demo_waiting 0 0 demo_req] demo_dispatch
    by (simp add: demo_waiting_def)
  moreover have "processReq_reply demo_req 2 0 True False ?r (net s4) = Replying ?r"
    by (simp add: processReq_reply_def isServerDead_def s4_def demo_waiting_def demo_net_def
        demo_req_def take_request_def is_enabled_def server_of_def MakeNetwork_def)
  then have "s5 = set_call 0 (processReq_reply demo_req 2 0 True False ?r (net s4)) s4"
    by (simp add: s5_def s4_def demo_waiting_def set_call_def fun_upd_def fun_eq_iff)
  then have "rpc_step (\<lambda>_. 8) (\<lambda>_. 8) s4 s5"
    using rpc_step.returned [of s4 0 2 0 True False ?r demo_req _ _ False]
    by (simp add: s4_def demo_waiting_def)
  moreover have final: "demo_answered = set_call 0 (Answered ?r)
      (s5\<lparr>net := answer_caller (\<lambda>_. 8) ?r (net s5)\<rparr>)"
    by (simp add: demo_answered_def s5_def s4_def demo_waiting_def set_call_def fun_upd_def fun_eq_iff)
  have "rpc_step (\<lambda>_. 8) (\<lambda>_. 8) s5 demo_answered"
    unfolding final by (rule rpc_step.answer) (simp add: s5_def)
  ultimately show ?thesis using demo_waiting_reach by (blast intro: rpc_reach.step)
qed

theorem call_executed_at_most_once_witness:
  "\<exists>p. runs 0 (executed demo_answered) = [(0, p, \<lparr>rm_ok = True, rm_reply = Some 15\<rparr>)]"
  using call_executed_at_most_once [OF demo_answered_reach, of 0 "\<lparr>rm_ok = True, rm_reply = Some 15\<rparr>"]
  by (simp add: demo_answered_def)

theorem labrpc_refines_lossy_network_witness:
  "\<exists>t. rpc_step (\<lambda>_. 8) (\<lambda>_. 8) demo_waiting t \<and> lossy_step (lossy_of demo_waiting) (lossy_of t)"
proof -
  let ?r = "\<lparr>rm_ok = True, rm_reply = Some (15::int)\<rparr>"
  let ?t = "demo_waiting\<lparr>heap := (heap demo_waiting)(0 := demo_server\<lparr>srv_count := 1\<rparr>), objs := 15,
      handler_at := (handler_at demo_waiting)(0 := Ran ?r), executed := executed demo_waiting @ [(0, 0, ?r)]\<rparr>"
  have st: "rpc_step (\<lambda>_. 8) (\<lambda>_. 8) demo_waiting ?t"
    using rpc_step.handle [of demo_waiting 0 0 demo_req] demo_dispatch
    by (simp add: demo_waiting_def)
  have "lossy_of ?t \<noteq> lossy_of demo_waiting" by (simp add: lossy_of_def demo_waiting_def)
  then show ?thesis using labrpc_refines_lossy_network [OF demo_waiting_reach st] st by blast
qed

theorem deleted_server_never_answers_witness:
  "call_at (set_call 0 (Replying no_reply) (demo_waiting\<lparr>net := DeleteServer 2 (net demo_waiting)\<rparr>)) 0 =
     Replying no_reply"
proof -
  let ?s = "demo_waiting\<lparr>net := DeleteServer 2 (net demo_waiting)\<rparr>"
  let ?t = "set_call 0 (Replying no_reply) ?s"
  have gone: "server_of 2 (net ?s) \<noteq> Some 0" by (simp add: server_of_def DeleteServer_def)
  have at: "call_at ?s 0 = Waiting 2 0 True False" by (simp add: demo_waiting_def)
  have "rpc_step (\<lambda>_. 8) (\<lambda>_. 8) ?s ?t"
    by (rule rpc_step.dead [OF at, of demo_req])
      (use gone in \<open>simp_all add: isServerDead_def, simp add: demo_waiting_def\<close>)
  then have "(\<lambda>x y. rpc_step (\<lambda>_. 8) (\<lambda>_. 8) x y \<and> server_of 2 (net y) \<noteq> Some 0)\<^sup>*\<^sup>* ?s ?t"
    using gone by (intro r_into_rtranclp) simp
  from deleted_server_never_answers [OF at gone this] show ?thesis by simp
qed

end
