(* ===== verification/TestGroup.thy ===== *)
theory TestGroup
  imports LabRpc Persist
begin

text \<open>
  The servers of a test (\<open>src/tester1/group.go\<close>, \<open>srv.go\<close>) on the simulated network: a group of
  servers with a client end from each to each, the switches that connect, disconnect, partition,
  shut down and start them, and the persister that outlives a server.

  \<open>Randstring\<close> is the parameter \<open>rnd\<close> on a counter, of which only that its values differ is used.
  The function \<open>mks\<close> of the test makes the services of a server; \<open>'v\<close> is the type of a service
  (\<open>IService\<close>) and \<open>mk\<close> is \<open>labrpc.MakeService\<close> on it.  A \<open>log.Fatalf\<close> of the network is \<open>None\<close>.
  Every function that touches the network takes and returns it.
\<close>

record ('r, 's, 'v) TServer =
  ts_saved :: "('r, 's) Persister option"
  ts_svcs :: "'v list"
  ts_endNames :: "string list"
  ts_clntEnds :: "string ClientEnd list"

record ('r, 's, 'v) ServerGrp =
  sg_srvs :: "('r, 's, 'v) TServer list"
  sg_servernames :: "string list"
  sg_gid :: int
  sg_connected :: "bool list"

text \<open>The network, the number of random strings drawn, the labrpc servers and the next pointer.\<close>

record ('w, 'a, 'r) tnet =
  tn_net :: "string Network"
  tn_rand :: nat
  tn_heap :: "nat \<Rightarrow> ('w, 'a, 'r) Server"
  tn_next :: nat

definition ServerName :: "int \<Rightarrow> int \<Rightarrow> string" where
  "ServerName gid i = ''server-'' @ itoa_int gid @ ''-'' @ itoa_int i"

section \<open>One server\<close>

text \<open>The loop of \<open>makeServer\<close>, for \<open>j\<close> in a list of indexes.\<close>

primrec make_ends :: "(nat \<Rightarrow> string) \<Rightarrow> int \<Rightarrow> int list \<Rightarrow> ('w, 'a, 'x) tnet \<Rightarrow>
    ((string \<times> string ClientEnd) list \<times> ('w, 'a, 'x) tnet) option" where
  "make_ends rnd gid [] tn = Some ([], tn)"
| "make_ends rnd gid (j # js) tn =
     do {
       let name = rnd (tn_rand tn);
       (rn, e) \<leftarrow> MakeEnd name (tn_net tn);
       (es, tn1) \<leftarrow> make_ends rnd gid js
         (tn\<lparr>tn_net := Connect name (ServerName gid j) rn, tn_rand := tn_rand tn + 1\<rparr>);
       Some ((name, e) # es, tn1)
     }"

definition makeServer :: "(nat \<Rightarrow> string) \<Rightarrow> int \<Rightarrow> int \<Rightarrow> ('w, 'a, 'x) tnet \<Rightarrow>
    (('r, 's, 'v) TServer \<times> ('w, 'a, 'x) tnet) option" where
  "makeServer rnd gid nsrv tn =
     do {
       (es, tn1) \<leftarrow> make_ends rnd gid (peer_ids nsrv) tn;
       Some (\<lparr>ts_saved = None, ts_svcs = [], ts_endNames = map fst es, ts_clntEnds = map snd es\<rparr>, tn1)
     }"

definition startServer :: "(nat \<Rightarrow> string) \<Rightarrow> int \<Rightarrow> ('r, 's, 'v) TServer \<Rightarrow> ('w, 'a, 'x) tnet \<Rightarrow>
    (('r, 's, 'v) TServer \<times> ('w, 'a, 'x) tnet) option" where
  "startServer rnd gid s tn =
     do {
       (srv, tn1) \<leftarrow> makeServer rnd gid (int (length (ts_endNames s))) tn;
       Some (srv\<lparr>ts_saved := Some (case ts_saved s of None \<Rightarrow> MakePersister
                                   | Some ps \<Rightarrow> PersisterCopy ps)\<rparr>, tn1)
     }"

text \<open>The loops over \<open>to\<close> and \<open>from\<close>; an index out of range panics.\<close>

primrec enable_ends :: "int list \<Rightarrow> string list \<Rightarrow> bool list \<Rightarrow> string Network \<Rightarrow> string Network option" where
  "enable_ends [] names connected rn = Some rn"
| "enable_ends (j # js) names connected rn =
     do {
       c \<leftarrow> go_get connected j;
       if c then do {
         name \<leftarrow> go_get names j;
         enable_ends js names connected (Enable name True rn)
       }
       else enable_ends js names connected rn
     }"

primrec disable_ends :: "int list \<Rightarrow> string list \<Rightarrow> string Network \<Rightarrow> string Network option" where
  "disable_ends [] names rn = Some rn"
| "disable_ends (j # js) names rn =
     do { name \<leftarrow> go_get names j; disable_ends js names (Enable name False rn) }"

text \<open>Shutting down copies the persister and kills the services, which are returned.\<close>

definition shutdownServer :: "('r, 's, 'v) TServer \<Rightarrow> ('r, 's, 'v) TServer \<times> 'v list" where
  "shutdownServer s =
     (s\<lparr>ts_saved := map_option PersisterCopy (ts_saved s), ts_svcs := []\<rparr>, ts_svcs s)"

section \<open>A group of servers\<close>

primrec make_srvs :: "(nat \<Rightarrow> string) \<Rightarrow> int \<Rightarrow> int \<Rightarrow> int list \<Rightarrow> ('w, 'a, 'x) tnet \<Rightarrow>
    (('r, 's, 'v) TServer list \<times> ('w, 'a, 'x) tnet) option" where
  "make_srvs rnd gid n [] tn = Some ([], tn)"
| "make_srvs rnd gid n (i # is) tn =
     do {
       (srv, tn1) \<leftarrow> makeServer rnd gid n tn;
       (rest, tn2) \<leftarrow> make_srvs rnd gid n is tn1;
       Some (srv # rest, tn2)
     }"

definition makeSrvGrp :: "(nat \<Rightarrow> string) \<Rightarrow> int \<Rightarrow> int \<Rightarrow> ('w, 'a, 'x) tnet \<Rightarrow>
    (('r, 's, 'v) ServerGrp \<times> ('w, 'a, 'x) tnet) option" where
  "makeSrvGrp rnd gid n tn =
     do {
       (srvs, tn1) \<leftarrow> make_srvs rnd gid n (peer_ids n) tn;
       Some (\<lparr>sg_srvs = srvs, sg_servernames = map (ServerName gid) (peer_ids n), sg_gid = gid,
              sg_connected = replicate (nat n) False\<rparr>, tn1)
     }"

definition grp_N :: "('r, 's, 'v) ServerGrp \<Rightarrow> int" where
  "grp_N sg = int (length (sg_srvs sg))"

definition grp_all :: "('r, 's, 'v) ServerGrp \<Rightarrow> int list" where
  "grp_all sg = peer_ids (int (length (sg_srvs sg)))"

definition SrvName :: "('r, 's, 'v) ServerGrp \<Rightarrow> int \<Rightarrow> string option" where
  "SrvName sg i = go_get (sg_servernames sg) i"

primrec SrvNamesTo :: "('r, 's, 'v) ServerGrp \<Rightarrow> int list \<Rightarrow> string list option" where
  "SrvNamesTo sg [] = Some []"
| "SrvNamesTo sg (i # to) =
     do { n \<leftarrow> go_get (sg_servernames sg) i; ns \<leftarrow> SrvNamesTo sg to; Some (n # ns) }"

definition IsConnected :: "('r, 's, 'v) ServerGrp \<Rightarrow> int \<Rightarrow> bool option" where
  "IsConnected sg i = go_get (sg_connected sg) i"

text \<open>The incoming ends of server \<open>i\<close>, from the servers in the list.\<close>

primrec enable_incoming :: "int \<Rightarrow> int list \<Rightarrow> ('r, 's, 'v) ServerGrp \<Rightarrow> string Network \<Rightarrow>
    string Network option" where
  "enable_incoming i [] sg rn = Some rn"
| "enable_incoming i (j # js) sg rn =
     do {
       c \<leftarrow> IsConnected sg j;
       if c then do {
         s \<leftarrow> go_get (sg_srvs sg) j;
         name \<leftarrow> go_get (ts_endNames s) i;
         enable_incoming i js sg (Enable name True rn)
       }
       else enable_incoming i js sg rn
     }"

primrec disable_incoming :: "int \<Rightarrow> int list \<Rightarrow> ('r, 's, 'v) ServerGrp \<Rightarrow> string Network \<Rightarrow>
    string Network option" where
  "disable_incoming i [] sg rn = Some rn"
| "disable_incoming i (j # js) sg rn =
     do {
       s \<leftarrow> go_get (sg_srvs sg) j;
       name \<leftarrow> go_get (ts_endNames s) i;
       disable_incoming i js sg (Enable name False rn)
     }"

definition grp_connect :: "int \<Rightarrow> int list \<Rightarrow> ('r, 's, 'v) ServerGrp \<times> string Network \<Rightarrow>
    (('r, 's, 'v) ServerGrp \<times> string Network) option" where
  "grp_connect i to st =
     (case st of (sg, rn) \<Rightarrow> do {
        con \<leftarrow> go_set (sg_connected sg) i True;
        let sg1 = sg\<lparr>sg_connected := con\<rparr>;
        s \<leftarrow> go_get (sg_srvs sg1) i;
        rn1 \<leftarrow> enable_ends to (ts_endNames s) (sg_connected sg1) rn;
        rn2 \<leftarrow> enable_incoming i to sg1 rn1;
        Some (sg1, rn2)
      })"

definition grp_disconnect :: "int \<Rightarrow> int list \<Rightarrow> ('r, 's, 'v) ServerGrp \<times> string Network \<Rightarrow>
    (('r, 's, 'v) ServerGrp \<times> string Network) option" where
  "grp_disconnect i from_list st =
     (case st of (sg, rn) \<Rightarrow> do {
        con \<leftarrow> go_set (sg_connected sg) i False;
        let sg1 = sg\<lparr>sg_connected := con\<rparr>;
        s \<leftarrow> go_get (sg_srvs sg1) i;
        rn1 \<leftarrow> disable_ends from_list (ts_endNames s) rn;
        rn2 \<leftarrow> disable_incoming i from_list sg1 rn1;
        Some (sg1, rn2)
      })"

primrec for_each :: "('i \<Rightarrow> 'st \<Rightarrow> 'st option) \<Rightarrow> 'i list \<Rightarrow> 'st \<Rightarrow> 'st option" where
  "for_each f [] st = Some st"
| "for_each f (i # is) st = Option.bind (f i st) (for_each f is)"

definition ConnectOne :: "int \<Rightarrow> ('r, 's, 'v) ServerGrp \<times> string Network \<Rightarrow>
    (('r, 's, 'v) ServerGrp \<times> string Network) option" where
  "ConnectOne i st = grp_connect i (grp_all (fst st)) st"

definition ConnectAll :: "('r, 's, 'v) ServerGrp \<times> string Network \<Rightarrow>
    (('r, 's, 'v) ServerGrp \<times> string Network) option" where
  "ConnectAll st = for_each ConnectOne (grp_all (fst st)) st"

definition DisconnectAll :: "int \<Rightarrow> ('r, 's, 'v) ServerGrp \<times> string Network \<Rightarrow>
    (('r, 's, 'v) ServerGrp \<times> string Network) option" where
  "DisconnectAll i st = grp_disconnect i (grp_all (fst st)) st"

definition Partition :: "int list \<Rightarrow> int list \<Rightarrow> ('r, 's, 'v) ServerGrp \<times> string Network \<Rightarrow>
    (('r, 's, 'v) ServerGrp \<times> string Network) option" where
  "Partition p1 p2 st =
     do {
       st1 \<leftarrow> for_each (\<lambda>i st. Option.bind (grp_disconnect i p2 st) (grp_connect i p1)) p1 st;
       for_each (\<lambda>i st. Option.bind (grp_disconnect i p1 st) (grp_connect i p2)) p2 st1
     }"

section \<open>Starting and shutting down\<close>

definition StartServer :: "(nat \<Rightarrow> string) \<Rightarrow>
    (string ClientEnd list \<Rightarrow> int \<Rightarrow> int \<Rightarrow> ('r, 's) Persister \<Rightarrow> 'v list) \<Rightarrow>
    ('v \<Rightarrow> ('w, 'a, 'x) Service) \<Rightarrow> int \<Rightarrow> ('r, 's, 'v) ServerGrp \<times> ('w, 'a, 'x) tnet \<Rightarrow>
    (('r, 's, 'v) ServerGrp \<times> ('w, 'a, 'x) tnet) option" where
  "StartServer rnd mks mk i st =
     (case st of (sg, tn) \<Rightarrow> do {
        old \<leftarrow> go_get (sg_srvs sg) i;
        (srv, tn1) \<leftarrow> startServer rnd (sg_gid sg) old tn;
        ps \<leftarrow> ts_saved srv;
        let svcs = mks (ts_clntEnds srv) (sg_gid sg) i ps;
        srvs \<leftarrow> go_set (sg_srvs sg) i (srv\<lparr>ts_svcs := svcs\<rparr>);
        let labsrv = fold (\<lambda>v. AddService (mk v)) svcs MakeServer;
        Some (sg\<lparr>sg_srvs := srvs\<rparr>,
              tn1\<lparr>tn_heap := (tn_heap tn1)(tn_next tn1 := labsrv), tn_next := tn_next tn1 + 1,
                  tn_net := AddServer (ServerName (sg_gid sg) i) (tn_next tn1) (tn_net tn1)\<rparr>)
      })"

definition ShutdownServer :: "int \<Rightarrow> ('r, 's, 'v) ServerGrp \<times> string Network \<Rightarrow>
    (('r, 's, 'v) ServerGrp \<times> string Network \<times> 'v list) option" where
  "ShutdownServer i st =
     do {
       (sg, rn) \<leftarrow> DisconnectAll i st;
       let rn1 = DeleteServer (ServerName (sg_gid sg) i) rn;
       s \<leftarrow> go_get (sg_srvs sg) i;
       let (s1, killed) = shutdownServer s;
       srvs \<leftarrow> go_set (sg_srvs sg) i s1;
       Some (sg\<lparr>sg_srvs := srvs\<rparr>, rn1, killed)
     }"

text \<open>
  \<open>MakePartition\<close>: everyone but the leader \<open>l\<close> fills \<open>p1\<close>, then \<open>p2\<close>; the leader goes last into
  \<open>p2\<close>.  The slices start as zeros.
\<close>

primrec partition_loop :: "int list \<Rightarrow> int \<Rightarrow> int \<Rightarrow> int list \<Rightarrow> int list \<Rightarrow>
    (int list \<times> int list) option" where
  "partition_loop [] l j p1 p2 = Some (p1, p2)"
| "partition_loop (i # is) l j p1 p2 =
     (if i \<noteq> l then
        if j < int (length p1) then do {
          p1 \<leftarrow> go_set p1 j i; partition_loop is l (j + 1) p1 p2
        }
        else do {
          p2 \<leftarrow> go_set p2 (j - int (length p1)) i; partition_loop is l (j + 1) p1 p2
        }
      else partition_loop is l j p1 p2)"

definition MakePartition :: "int \<Rightarrow> ('r, 's, 'v) ServerGrp \<Rightarrow> (int list \<times> int list) option" where
  "MakePartition l sg =
     (let n = grp_N sg in
      do {
        (p1, p2) \<leftarrow> partition_loop (peer_ids n) l 0 (replicate (nat (n div 2 + 1)) 0)
                      (replicate (nat (n div 2)) 0);
        p2 \<leftarrow> go_set p2 (int (length p2) - 1) l;
        Some (p1, p2)
      })"

text \<open>The largest state of all servers; a server that was never started has none, which panics.\<close>

primrec size_loop :: "(('r, 's) Persister \<Rightarrow> nat) \<Rightarrow> ('r, 's, 'v) TServer list \<Rightarrow> nat \<Rightarrow> nat option" where
  "size_loop f [] m = Some m"
| "size_loop f (s # ss) m =
     do { ps \<leftarrow> ts_saved s; size_loop f ss (if f ps > m then f ps else m) }"

definition LogSize :: "('r \<Rightarrow> nat) \<Rightarrow> ('r, 's, 'v) ServerGrp \<Rightarrow> nat option" where
  "LogSize enc_len sg = size_loop (RaftStateSize enc_len) (sg_srvs sg) 0"

definition grp_SnapshotSize :: "('s \<Rightarrow> nat) \<Rightarrow> ('r, 's, 'v) ServerGrp \<Rightarrow> nat option" where
  "grp_SnapshotSize enc_len sg = size_loop (SnapshotSize enc_len) (sg_srvs sg) 0"

definition RpcCount :: "int \<Rightarrow> ('r, 's, 'v) ServerGrp \<times> ('w, 'a, 'x) tnet \<Rightarrow> int option" where
  "RpcCount server st =
     (case st of (sg, tn) \<Rightarrow> GetCount (ServerName (sg_gid sg) server) (tn_heap tn) (tn_net tn))"

definition Services :: "('r, 's, 'v) ServerGrp \<Rightarrow> 'v list list" where
  "Services sg = map ts_svcs (sg_srvs sg)"

text \<open>The services that \<open>cleanup\<close> kills.\<close>

definition grp_cleanup :: "('r, 's, 'v) ServerGrp \<Rightarrow> 'v list" where
  "grp_cleanup sg = concat (map ts_svcs (sg_srvs sg))"

definition start_all :: "(nat \<Rightarrow> string) \<Rightarrow>
    (string ClientEnd list \<Rightarrow> int \<Rightarrow> int \<Rightarrow> ('r, 's) Persister \<Rightarrow> 'v list) \<Rightarrow>
    ('v \<Rightarrow> ('w, 'a, 'x) Service) \<Rightarrow> ('r, 's, 'v) ServerGrp \<times> ('w, 'a, 'x) tnet \<Rightarrow>
    (('r, 's, 'v) ServerGrp \<times> ('w, 'a, 'x) tnet) option" where
  "start_all rnd mks mk st = for_each (StartServer rnd mks mk) (grp_all (fst st)) st"

definition StartServers :: "(nat \<Rightarrow> string) \<Rightarrow>
    (string ClientEnd list \<Rightarrow> int \<Rightarrow> int \<Rightarrow> ('r, 's) Persister \<Rightarrow> 'v list) \<Rightarrow>
    ('v \<Rightarrow> ('w, 'a, 'x) Service) \<Rightarrow> ('r, 's, 'v) ServerGrp \<times> ('w, 'a, 'x) tnet \<Rightarrow>
    (('r, 's, 'v) ServerGrp \<times> ('w, 'a, 'x) tnet) option" where
  "StartServers rnd mks mk st =
     do {
       (sg, tn) \<leftarrow> start_all rnd mks mk st;
       (sg, rn) \<leftarrow> ConnectAll (sg, tn_net tn);
       Some (sg, tn\<lparr>tn_net := rn\<rparr>)
     }"

primrec shutdown_loop :: "int list \<Rightarrow> ('r, 's, 'v) ServerGrp \<times> string Network \<Rightarrow>
    (('r, 's, 'v) ServerGrp \<times> string Network \<times> 'v list) option" where
  "shutdown_loop [] st = Some (fst st, snd st, [])"
| "shutdown_loop (i # is) st =
     do {
       (sg, rn, k1) \<leftarrow> ShutdownServer i st;
       (sg, rn, k2) \<leftarrow> shutdown_loop is (sg, rn);
       Some (sg, rn, k1 @ k2)
     }"

definition Shutdown :: "('r, 's, 'v) ServerGrp \<times> string Network \<Rightarrow>
    (('r, 's, 'v) ServerGrp \<times> string Network \<times> 'v list) option" where
  "Shutdown st = shutdown_loop (grp_all (fst st)) st"

section \<open>The groups of a test\<close>

type_synonym ('r, 's, 'v) Groups = "int \<Rightarrow> ('r, 's, 'v) ServerGrp option"

definition newGroups :: "('r, 's, 'v) Groups" where
  "newGroups = Map.empty"

definition MakeGroup :: "(nat \<Rightarrow> string) \<Rightarrow> int \<Rightarrow> int \<Rightarrow>
    ('r, 's, 'v) Groups \<times> ('w, 'a, 'x) tnet \<Rightarrow> (('r, 's, 'v) Groups \<times> ('w, 'a, 'x) tnet) option" where
  "MakeGroup rnd gid nsrv st =
     (case st of (gs, tn) \<Rightarrow> do {
        (sg, tn) \<leftarrow> makeSrvGrp rnd gid nsrv tn;
        Some (gs(gid \<mapsto> sg), tn)
      })"

definition lookupGroup :: "int \<Rightarrow> ('r, 's, 'v) Groups \<Rightarrow> ('r, 's, 'v) ServerGrp option" where
  "lookupGroup gid gs = gs gid"

definition delete_group :: "int \<Rightarrow> ('r, 's, 'v) Groups \<Rightarrow> ('r, 's, 'v) Groups" where
  "delete_group gid gs = gs(gid := None)"

section \<open>Connections as a relation\<close>

text \<open>
  What the ends of a group amount to: the set of connected servers and the pairs of servers whose
  end is enabled.  Each switch has a reference definition on these two sets.
\<close>

definition end_name :: "('r, 's, 'v) ServerGrp \<Rightarrow> int \<Rightarrow> int \<Rightarrow> string" where
  "end_name sg i j = ts_endNames (sg_srvs sg ! nat i) ! nat j"

definition group_ok :: "int \<Rightarrow> ('r, 's, 'v) ServerGrp \<Rightarrow> bool" where
  "group_ok n sg \<longleftrightarrow>
     0 \<le> n \<and> length (sg_srvs sg) = nat n \<and> length (sg_connected sg) = nat n \<and>
     (\<forall>s\<in>set (sg_srvs sg). length (ts_endNames s) = nat n) \<and>
     inj_on (\<lambda>(i, j). end_name sg i j) ({0..<n} \<times> {0..<n})"

definition links_up :: "int \<Rightarrow> ('r, 's, 'v) ServerGrp \<times> string Network \<Rightarrow> int set \<times> (int \<times> int) set" where
  "links_up n st =
     ({i. 0 \<le> i \<and> i < n \<and> sg_connected (fst st) ! nat i},
      {(i, j). 0 \<le> i \<and> i < n \<and> 0 \<le> j \<and> j < n \<and> is_enabled (end_name (fst st) i j) (snd st)})"

definition conn :: "int \<Rightarrow> int set \<Rightarrow> int set \<times> (int \<times> int) set \<Rightarrow> int set \<times> (int \<times> int) set" where
  "conn i T KE = (insert i (fst KE), snd KE \<union> {i} \<times> (T \<inter> insert i (fst KE)) \<union> (T \<inter> insert i (fst KE)) \<times> {i})"

definition disc :: "int \<Rightarrow> int set \<Rightarrow> int set \<times> (int \<times> int) set \<Rightarrow> int set \<times> (int \<times> int) set" where
  "disc i T KE = (fst KE - {i}, snd KE - {i} \<times> T - T \<times> {i})"

lemma is_enabled_Enable [simp]:
  "is_enabled nm (Enable e b rn) \<longleftrightarrow> (if nm = e then b else is_enabled nm rn)"
  by (auto simp: is_enabled_def Enable_def)

lemma enable_ends_eq:
  "set js \<subseteq> {0..<int (length con)} \<Longrightarrow> length names = length con \<Longrightarrow>
     \<exists>rn'. enable_ends js names con rn = Some rn' \<and>
       (\<forall>nm. is_enabled nm rn' \<longleftrightarrow> is_enabled nm rn \<or> (\<exists>j\<in>set js. con ! nat j \<and> nm = names ! nat j))"
proof (induction js arbitrary: rn)
  case (Cons j js)
  show ?case
  proof (cases "con ! nat j")
    case True
    obtain rn' where "enable_ends js names con (Enable (names ! nat j) True rn) = Some rn'"
      "\<forall>nm. is_enabled nm rn' \<longleftrightarrow> is_enabled nm (Enable (names ! nat j) True rn) \<or>
         (\<exists>j\<in>set js. con ! nat j \<and> nm = names ! nat j)"
      using Cons.IH [of "Enable (names ! nat j) True rn"] Cons.prems by auto
    then show ?thesis using Cons.prems True by (auto simp: go_simps)
  next
    case False
    then show ?thesis using Cons.IH [of rn] Cons.prems by (auto simp: go_simps)
  qed
qed simp

lemma disable_ends_eq:
  "set js \<subseteq> {0..<int (length names)} \<Longrightarrow>
     \<exists>rn'. disable_ends js names rn = Some rn' \<and>
       (\<forall>nm. is_enabled nm rn' \<longleftrightarrow> is_enabled nm rn \<and> nm \<notin> (\<lambda>j. names ! nat j) ` set js)"
proof (induction js arbitrary: rn)
  case (Cons j js)
  obtain rn' where "disable_ends js names (Enable (names ! nat j) False rn) = Some rn'"
    "\<forall>nm. is_enabled nm rn' \<longleftrightarrow> is_enabled nm (Enable (names ! nat j) False rn) \<and>
       nm \<notin> (\<lambda>j. names ! nat j) ` set js"
    using Cons.IH [of "Enable (names ! nat j) False rn"] Cons.prems by auto
  then show ?case using Cons.prems by (auto simp: go_simps)
qed simp

lemma group_okD:
  assumes "group_ok n sg"
  shows "0 \<le> n" "length (sg_srvs sg) = nat n" "length (sg_connected sg) = nat n"
    "\<And>i. 0 \<le> i \<Longrightarrow> i < n \<Longrightarrow> length (ts_endNames (sg_srvs sg ! nat i)) = nat n"
    "\<And>i j k l. 0 \<le> i \<Longrightarrow> i < n \<Longrightarrow> 0 \<le> j \<Longrightarrow> j < n \<Longrightarrow> 0 \<le> k \<Longrightarrow> k < n \<Longrightarrow> 0 \<le> l \<Longrightarrow> l < n \<Longrightarrow>
       end_name sg i j = end_name sg k l \<longleftrightarrow> i = k \<and> j = l"
proof -
  show "end_name sg i j = end_name sg k l \<longleftrightarrow> i = k \<and> j = l"
    if "0 \<le> i" "i < n" "0 \<le> j" "j < n" "0 \<le> k" "k < n" "0 \<le> l" "l < n" for i j k l
    using assms that inj_onD [of "\<lambda>(i, j). end_name sg i j" "{0..<n} \<times> {0..<n}" "(i, j)" "(k, l)"]
    by (auto simp: group_ok_def)
qed (use assms in \<open>auto simp: group_ok_def\<close>)

lemma enable_incoming_eq:
  assumes ok: "group_ok n sg" and i: "0 \<le> i" "i < n"
  shows "set js \<subseteq> {0..<n} \<Longrightarrow>
     \<exists>rn'. enable_incoming i js sg rn = Some rn' \<and>
       (\<forall>nm. is_enabled nm rn' \<longleftrightarrow> is_enabled nm rn \<or>
          (\<exists>j\<in>set js. sg_connected sg ! nat j \<and> nm = end_name sg j i))"
proof (induction js arbitrary: rn)
  case (Cons j js)
  have j: "0 \<le> j" "j < n" using Cons.prems by auto
  note len = group_okD(2,3) [OF ok] group_okD(4) [OF ok j]
  show ?case
  proof (cases "sg_connected sg ! nat j")
    case True
    obtain rn' where "enable_incoming i js sg (Enable (end_name sg j i) True rn) = Some rn'"
      "\<forall>nm. is_enabled nm rn' \<longleftrightarrow> is_enabled nm (Enable (end_name sg j i) True rn) \<or>
         (\<exists>j\<in>set js. sg_connected sg ! nat j \<and> nm = end_name sg j i)"
      using Cons.IH [of "Enable (end_name sg j i) True rn"] Cons.prems by auto
    then show ?thesis using j i len True by (auto simp: go_simps IsConnected_def end_name_def)
  next
    case False
    then show ?thesis using Cons.IH [of rn] Cons.prems j len by (auto simp: go_simps IsConnected_def)
  qed
qed simp

lemma disable_incoming_eq:
  assumes ok: "group_ok n sg" and i: "0 \<le> i" "i < n"
  shows "set js \<subseteq> {0..<n} \<Longrightarrow>
     \<exists>rn'. disable_incoming i js sg rn = Some rn' \<and>
       (\<forall>nm. is_enabled nm rn' \<longleftrightarrow> is_enabled nm rn \<and> nm \<notin> (\<lambda>j. end_name sg j i) ` set js)"
proof (induction js arbitrary: rn)
  case (Cons j js)
  have j: "0 \<le> j" "j < n" using Cons.prems by auto
  note len = group_okD(2,3) [OF ok] group_okD(4) [OF ok j]
  obtain rn' where "disable_incoming i js sg (Enable (end_name sg j i) False rn) = Some rn'"
    "\<forall>nm. is_enabled nm rn' \<longleftrightarrow> is_enabled nm (Enable (end_name sg j i) False rn) \<and>
       nm \<notin> (\<lambda>j. end_name sg j i) ` set js"
    using Cons.IH [of "Enable (end_name sg j i) False rn"] Cons.prems by auto
  then show ?case using j i len by (auto simp: go_simps end_name_def)
qed simp

lemma grp_connect_refines:
  assumes ok: "group_ok n sg" and i: "0 \<le> i" "i < n" and to: "set to \<subseteq> {0..<n}"
  obtains sg' rn' where "grp_connect i to (sg, rn) = Some (sg', rn')" "group_ok n sg'"
    "sg_srvs sg' = sg_srvs sg" "links_up n (sg', rn') = conn i (set to) (links_up n (sg, rn))"
proof -
  let ?sg = "sg\<lparr>sg_connected := (sg_connected sg)[nat i := True]\<rparr>"
  have names: "end_name ?sg = end_name sg" by (simp add: end_name_def fun_eq_iff)
  have ok1: "group_ok n ?sg" using ok by (simp add: group_ok_def names)
  note len = group_okD(1-3) [OF ok] group_okD(4) [OF ok i]
  have con: "(sg_connected sg)[nat i := True] ! nat j \<longleftrightarrow> j = i \<or> sg_connected sg ! nat j"
    if "0 \<le> j" "j < n" for j using that len i by (auto simp: nth_list_update)
  obtain rn1 where rn1: "enable_ends to (ts_endNames (sg_srvs sg ! nat i)) (sg_connected ?sg) rn = Some rn1"
    "\<And>nm. is_enabled nm rn1 \<longleftrightarrow> is_enabled nm rn \<or>
       (\<exists>j\<in>set to. sg_connected ?sg ! nat j \<and> nm = end_name sg i j)"
    using enable_ends_eq [of to "sg_connected ?sg" "ts_endNames (sg_srvs sg ! nat i)" rn] to len
    by (auto simp: end_name_def)
  obtain rn2 where rn2: "enable_incoming i to ?sg rn1 = Some rn2"
    "\<And>nm. is_enabled nm rn2 \<longleftrightarrow> is_enabled nm rn1 \<or>
       (\<exists>j\<in>set to. sg_connected ?sg ! nat j \<and> nm = end_name sg j i)"
    using enable_incoming_eq [OF ok1 i to, of rn1] by (auto simp: names)
  have "grp_connect i to (sg, rn) = Some (?sg, rn2)"
    using i len rn1(1) rn2(1) by (simp add: grp_connect_def go_simps Let_def)
  moreover have "links_up n (?sg, rn2) = conn i (set to) (links_up n (sg, rn))"
  proof -
    have fst_eq: "{j. 0 \<le> j \<and> j < n \<and> (sg_connected sg)[nat i := True] ! nat j} =
        insert i {j. 0 \<le> j \<and> j < n \<and> sg_connected sg ! nat j}"
      using con i by auto
    have "is_enabled (end_name sg a b) rn2 \<longleftrightarrow> is_enabled (end_name sg a b) rn \<or>
        (a = i \<and> b \<in> set to \<and> (b = i \<or> sg_connected sg ! nat b)) \<or>
        (b = i \<and> a \<in> set to \<and> (a = i \<or> sg_connected sg ! nat a))"
      if ab: "0 \<le> a" "a < n" "0 \<le> b" "b < n" for a b
    proof -
      have nm: "end_name sg a b = end_name sg i j \<longleftrightarrow> a = i \<and> b = j"
        "end_name sg a b = end_name sg j i \<longleftrightarrow> a = j \<and> b = i" if "j \<in> set to" for j
      proof -
        have j: "0 \<le> j" "j < n" using to that by auto
        show "end_name sg a b = end_name sg i j \<longleftrightarrow> a = i \<and> b = j"
          "end_name sg a b = end_name sg j i \<longleftrightarrow> a = j \<and> b = i"
          by (rule group_okD(5) [OF ok ab i j], rule group_okD(5) [OF ok ab j i])
      qed
      show ?thesis
        by (simp only: rn1(2) rn2(2)) (use ab con nm in \<open>auto simp del: nat_0_le\<close>)
    qed
    then show ?thesis using to i by (auto simp: links_up_def conn_def names fst_eq)
  qed
  ultimately show thesis using that ok1 by simp
qed

lemma grp_disconnect_refines:
  assumes ok: "group_ok n sg" and i: "0 \<le> i" "i < n" and fr: "set fr \<subseteq> {0..<n}"
  obtains sg' rn' where "grp_disconnect i fr (sg, rn) = Some (sg', rn')" "group_ok n sg'"
    "sg_srvs sg' = sg_srvs sg" "links_up n (sg', rn') = disc i (set fr) (links_up n (sg, rn))"
proof -
  let ?sg = "sg\<lparr>sg_connected := (sg_connected sg)[nat i := False]\<rparr>"
  have names: "end_name ?sg = end_name sg" by (simp add: end_name_def fun_eq_iff)
  have ok1: "group_ok n ?sg" using ok by (simp add: group_ok_def names)
  note len = group_okD(1-3) [OF ok] group_okD(4) [OF ok i]
  obtain rn1 where rn1: "disable_ends fr (ts_endNames (sg_srvs sg ! nat i)) rn = Some rn1"
    "\<And>nm. is_enabled nm rn1 \<longleftrightarrow> is_enabled nm rn \<and> nm \<notin> end_name sg i ` set fr"
    using disable_ends_eq [of fr "ts_endNames (sg_srvs sg ! nat i)" rn] fr len
    by (auto simp: end_name_def)
  obtain rn2 where rn2: "disable_incoming i fr ?sg rn1 = Some rn2"
    "\<And>nm. is_enabled nm rn2 \<longleftrightarrow> is_enabled nm rn1 \<and> nm \<notin> (\<lambda>j. end_name sg j i) ` set fr"
    using disable_incoming_eq [OF ok1 i fr, of rn1] by (auto simp: names)
  have "grp_disconnect i fr (sg, rn) = Some (?sg, rn2)"
    using i len rn1(1) rn2(1) by (simp add: grp_disconnect_def go_simps Let_def)
  moreover have "links_up n (?sg, rn2) = disc i (set fr) (links_up n (sg, rn))"
  proof -
    have fst_eq: "{j. 0 \<le> j \<and> j < n \<and> (sg_connected sg)[nat i := False] ! nat j} =
        {j. 0 \<le> j \<and> j < n \<and> sg_connected sg ! nat j} - {i}"
      using len i by (auto simp: nth_list_update)
    have "is_enabled (end_name sg a b) rn2 \<longleftrightarrow> is_enabled (end_name sg a b) rn \<and>
        \<not> (a = i \<and> b \<in> set fr) \<and> \<not> (b = i \<and> a \<in> set fr)"
      if ab: "0 \<le> a" "a < n" "0 \<le> b" "b < n" for a b
    proof -
      have nm: "end_name sg a b = end_name sg i j \<longleftrightarrow> a = i \<and> b = j"
        "end_name sg a b = end_name sg j i \<longleftrightarrow> a = j \<and> b = i" if "j \<in> set fr" for j
      proof -
        have j: "0 \<le> j" "j < n" using fr that by auto
        show "end_name sg a b = end_name sg i j \<longleftrightarrow> a = i \<and> b = j"
          "end_name sg a b = end_name sg j i \<longleftrightarrow> a = j \<and> b = i"
          by (rule group_okD(5) [OF ok ab i j], rule group_okD(5) [OF ok ab j i])
      qed
      show ?thesis by (simp only: rn1(2) rn2(2) image_iff) (use nm in auto)
    qed
    then show ?thesis by (auto simp: links_up_def disc_def names fst_eq)
  qed
  ultimately show thesis using that ok1 by simp
qed

section \<open>Partitions\<close>

lemma part_loop_refines:
  assumes "group_ok n sg" "set p \<subseteq> {0..<n}" "set q \<subseteq> {0..<n}" "set is \<subseteq> {0..<n}"
  shows "\<exists>sg' rn'. for_each (\<lambda>i st. Option.bind (grp_disconnect i q st) (grp_connect i p)) is (sg, rn) =
      Some (sg', rn') \<and> group_ok n sg' \<and> sg_srvs sg' = sg_srvs sg \<and>
    links_up n (sg', rn') = fold (\<lambda>i KE. conn i (set p) (disc i (set q) KE)) is (links_up n (sg, rn))"
  using assms
proof (induction "is" arbitrary: sg rn)
  case (Cons i "is")
  then have i: "0 \<le> i" "i < n" by auto
  obtain sg1 rn1 where 1: "grp_disconnect i q (sg, rn) = Some (sg1, rn1)" "group_ok n sg1"
    "sg_srvs sg1 = sg_srvs sg" "links_up n (sg1, rn1) = disc i (set q) (links_up n (sg, rn))"
    by (rule grp_disconnect_refines [OF Cons.prems(1) i Cons.prems(3)])
  obtain sg2 rn2 where 2: "grp_connect i p (sg1, rn1) = Some (sg2, rn2)" "group_ok n sg2"
    "sg_srvs sg2 = sg_srvs sg1" "links_up n (sg2, rn2) = conn i (set p) (links_up n (sg1, rn1))"
    by (rule grp_connect_refines [OF 1(2) i Cons.prems(2)])
  show ?case using Cons.IH [OF 2(2) Cons.prems(2,3), of rn2] Cons.prems(4) 1 2 by auto
qed simp

lemma conn_disc:
  "conn x P (disc x Q (K, Y)) =
     (insert x K, Y - {x} \<times> Q - Q \<times> {x} \<union> {x} \<times> (P \<inter> insert x K) \<union> (P \<inter> insert x K) \<times> {x})"
  by (simp add: conn_def disc_def)

text \<open>One half of a partition: the servers \<open>P\<close> leave \<open>Q\<close> and join one another.\<close>

lemma part_half_fold:
  assumes PQ: "P \<inter> Q = {}" and "set is \<subseteq> P"
  shows "\<exists>X. set is \<times> set is \<subseteq> X \<and> X \<subseteq> P \<times> P \<and>
    fold (\<lambda>i KE. conn i P (disc i Q KE)) is (K, E) =
      (K \<union> set is, (E - set is \<times> Q - Q \<times> set is) \<union> X)"
  using assms(2)
proof (induction "is" rule: rev_induct)
  case (snoc x xs)
  then obtain X where X: "set xs \<times> set xs \<subseteq> X" "X \<subseteq> P \<times> P"
    "fold (\<lambda>i KE. conn i P (disc i Q KE)) xs (K, E) =
       (K \<union> set xs, (E - set xs \<times> Q - Q \<times> set xs) \<union> X)" by (simp only: set_append) blast
  let ?L = "P \<inter> insert x (K \<union> set xs)"
  have "set (xs @ [x]) \<times> set (xs @ [x]) \<subseteq> X \<union> {x} \<times> ?L \<union> ?L \<times> {x}"
    using X(1) snoc.prems by auto
  moreover have "X \<union> {x} \<times> ?L \<union> ?L \<times> {x} \<subseteq> P \<times> P" using X(2) snoc.prems by auto
  moreover have "X - {x} \<times> Q - Q \<times> {x} = X" using X(2) PQ by auto
  then have "((E - set xs \<times> Q - Q \<times> set xs) \<union> X) - {x} \<times> Q - Q \<times> {x} =
      (E - insert x (set xs) \<times> Q - Q \<times> insert x (set xs)) \<union> X" by blast
  then have "fold (\<lambda>i KE. conn i P (disc i Q KE)) (xs @ [x]) (K, E) =
      (K \<union> set (xs @ [x]), (E - set (xs @ [x]) \<times> Q - Q \<times> set (xs @ [x])) \<union>
         (X \<union> {x} \<times> ?L \<union> ?L \<times> {x}))"
    by (simp add: X(3) conn_disc Un_assoc)
  ultimately show ?case by blast
qed (auto intro: exI [of _ "{}"])

lemma part_half_folds:
  assumes "P = set p" "Q = set q" "P \<inter> Q = {}"
  obtains E' where "fold (\<lambda>i KE. conn i Q (disc i P KE)) q (fold (\<lambda>i KE. conn i P (disc i Q KE)) p (K, E)) =
      (K \<union> P \<union> Q, E')"
    "P \<times> P \<subseteq> E'" "Q \<times> Q \<subseteq> E'" "E' \<inter> (P \<times> Q \<union> Q \<times> P) = {}"
proof -
  obtain X where X: "P \<times> P \<subseteq> X" "X \<subseteq> P \<times> P"
    "fold (\<lambda>i KE. conn i P (disc i Q KE)) p (K, E) = (K \<union> P, (E - P \<times> Q - Q \<times> P) \<union> X)"
    using part_half_fold [of P Q p K E] assms by blast
  obtain Y where Y: "Q \<times> Q \<subseteq> Y" "Y \<subseteq> Q \<times> Q"
    "fold (\<lambda>i KE. conn i Q (disc i P KE)) q (K \<union> P, (E - P \<times> Q - Q \<times> P) \<union> X) =
      (K \<union> P \<union> Q, ((E - P \<times> Q - Q \<times> P) \<union> X - Q \<times> P - P \<times> Q) \<union> Y)"
    using part_half_fold [of Q P q "K \<union> P" "(E - P \<times> Q - Q \<times> P) \<union> X"] assms by blast
  show thesis by (rule that [of "((E - P \<times> Q - Q \<times> P) \<union> X - Q \<times> P - P \<times> Q) \<union> Y"])
      (use assms(3) X Y in auto)
qed

lemma Partition_links:
  assumes ok: "group_ok n sg" and p: "set p1 \<subseteq> {0..<n}" "set p2 \<subseteq> {0..<n}" "set p1 \<inter> set p2 = {}"
  obtains sg' rn' where "Partition p1 p2 (sg, rn) = Some (sg', rn')" "sg_srvs sg' = sg_srvs sg"
    "\<And>i j. i \<in> set p1 \<union> set p2 \<Longrightarrow> j \<in> set p1 \<union> set p2 \<Longrightarrow>
       is_enabled (end_name sg' i j) rn' \<longleftrightarrow> (i \<in> set p1 \<longleftrightarrow> j \<in> set p1)"
proof -
  obtain sg1 rn1 where 1: "for_each (\<lambda>i st. Option.bind (grp_disconnect i p2 st) (grp_connect i p1)) p1 (sg, rn) =
      Some (sg1, rn1)" "group_ok n sg1" "sg_srvs sg1 = sg_srvs sg"
    "links_up n (sg1, rn1) = fold (\<lambda>i KE. conn i (set p1) (disc i (set p2) KE)) p1 (links_up n (sg, rn))"
    using part_loop_refines [OF ok p(1,2,1)] by blast
  obtain sg2 rn2 where 2: "for_each (\<lambda>i st. Option.bind (grp_disconnect i p1 st) (grp_connect i p2)) p2 (sg1, rn1) =
      Some (sg2, rn2)" "sg_srvs sg2 = sg_srvs sg1"
    "links_up n (sg2, rn2) = fold (\<lambda>i KE. conn i (set p2) (disc i (set p1) KE)) p2 (links_up n (sg1, rn1))"
    using part_loop_refines [OF 1(2) p(2,1,2)] by blast
  obtain K0 E0 where KE: "links_up n (sg, rn) = (K0, E0)" by (cases "links_up n (sg, rn)")
  obtain E where E: "snd (links_up n (sg2, rn2)) = E" "set p1 \<times> set p1 \<subseteq> E" "set p2 \<times> set p2 \<subseteq> E"
    "E \<inter> (set p1 \<times> set p2 \<union> set p2 \<times> set p1) = {}"
    by (rule part_half_folds [OF refl refl p(3), of K0 E0]) (simp add: 1(4) 2(3) KE)
  have en: "is_enabled (end_name sg2 i j) rn2 \<longleftrightarrow> (i, j) \<in> E"
    if "i \<in> set p1 \<union> set p2" "j \<in> set p1 \<union> set p2" for i j
    using that p by (auto simp: links_up_def simp flip: E(1))
  have E_iff: "(i, j) \<in> E \<longleftrightarrow> (i \<in> set p1 \<longleftrightarrow> j \<in> set p1)"
    if "i \<in> set p1 \<union> set p2" "j \<in> set p1 \<union> set p2" for i j using that E(2-4) p(3) by blast
  have "Partition p1 p2 (sg, rn) = Some (sg2, rn2)" by (simp only: Partition_def 1(1) 2(1) bind.bind_lunit)
  moreover have "sg_srvs sg2 = sg_srvs sg" by (simp add: 1(3) 2(2))
  ultimately show thesis by (rule that) (simp add: en E_iff)
qed

text \<open>
  After a partition the two sides are cut off and each is whole.  Whatever was connected
  before, for two disjoint parts of a group the call \<open>Partition\<close> succeeds, every server of a part
  can reach every server of its part, no server can reach one of the other part, and a request
  across is answered with the failure reply, not delivered.
\<close>

theorem Partition_isolates:
  assumes ok: "group_ok n sg" and p: "set p1 \<subseteq> {0..<n}" "set p2 \<subseteq> {0..<n}" "set p1 \<inter> set p2 = {}"
  shows "\<exists>sg' rn'. Partition p1 p2 (sg, rn) = Some (sg', rn') \<and> sg_srvs sg' = sg_srvs sg \<and>
    (\<forall>i j. i \<in> set p1 \<union> set p2 \<longrightarrow> j \<in> set p1 \<union> set p2 \<longrightarrow>
      (is_enabled (end_name sg' i j) rn' \<longleftrightarrow> (i \<in> set p1 \<longleftrightarrow> j \<in> set p1)) \<and>
      (\<forall>req. (i \<in> set p1) \<noteq> (j \<in> set p1) \<longrightarrow> rq_endname req = end_name sg' i j \<longrightarrow>
         processReq_lookup req rn' = (Replying no_reply :: (string, 'w) call_pc)))"
proof -
  obtain sg' rn' where P: "Partition p1 p2 (sg, rn) = Some (sg', rn')" "sg_srvs sg' = sg_srvs sg"
    "\<And>i j. i \<in> set p1 \<union> set p2 \<Longrightarrow> j \<in> set p1 \<union> set p2 \<Longrightarrow>
       is_enabled (end_name sg' i j) rn' \<longleftrightarrow> (i \<in> set p1 \<longleftrightarrow> j \<in> set p1)"
    by (rule Partition_links [OF assms, of rn], rule that)
  have off: "processReq_lookup req rn' = (Replying no_reply :: (string, 'w) call_pc)"
    if "\<not> is_enabled (rq_endname req) rn'" for req
    using that by (simp add: processReq_lookup_def readEndnameInfo_def split: option.split)
  have "(is_enabled (end_name sg' i j) rn' \<longleftrightarrow> (i \<in> set p1 \<longleftrightarrow> j \<in> set p1)) \<and>
      (\<forall>req. (i \<in> set p1) \<noteq> (j \<in> set p1) \<longrightarrow> rq_endname req = end_name sg' i j \<longrightarrow>
         processReq_lookup req rn' = (Replying no_reply :: (string, 'w) call_pc))"
    if "i \<in> set p1 \<union> set p2" "j \<in> set p1 \<union> set p2" for i j
    using P(3) [OF that] off by metis
  then show ?thesis using P(1,2) by blast
qed

section \<open>Choosing the partition\<close>

lemma partition_loop_eq:
  assumes "length (filter (\<lambda>i. i \<noteq> l) is) + j \<le> length p1 + length p2"
  shows "\<exists>q1 q2. partition_loop is l (int j) p1 p2 = Some (q1, q2) \<and>
    length q1 = length p1 \<and> length q2 = length p2 \<and>
    q1 @ q2 = take j (p1 @ p2) @ filter (\<lambda>i. i \<noteq> l) is @
      drop (j + length (filter (\<lambda>i. i \<noteq> l) is)) (p1 @ p2)"
  using assms
proof (induction "is" arbitrary: j p1 p2)
  case (Cons i "is")
  have upd: "take (Suc j) (xs[j := i]) = take j xs @ [i]" "drop (Suc j + k) (xs[j := i]) = drop (Suc j + k) xs"
    if "j < length xs" for xs k using that by (auto simp: take_Suc_conv_app_nth)
  consider "i = l" | "i \<noteq> l" "j < length p1" | "i \<noteq> l" "length p1 \<le> j" by linarith
  then show ?case
  proof cases
    case 1
    then show ?thesis using Cons.IH [of j p1 p2] Cons.prems by simp
  next
    case 2
    then have "(p1 @ p2)[j := i] = p1[j := i] @ p2" by (simp add: list_update_append)
    then show ?thesis
      using Cons.IH [of "Suc j" "p1[j := i]" p2] Cons.prems 2 upd [of "p1 @ p2"]
      by (simp add: go_simps algebra_simps)
  next
    case 3
    then have "(p1 @ p2)[j := i] = p1 @ p2[j - length p1 := i]"
      "nat (int j - int (length p1)) = j - length p1"
      by (simp_all add: list_update_append)
    then show ?thesis
      using Cons.IH [of "Suc j" p1 "p2[j - length p1 := i]"] Cons.prems 3 upd [of "p1 @ p2"]
      by (simp add: go_simps algebra_simps)
  qed
next
  case Nil
  then show ?case
    using append_take_drop_id [of j "p1 @ p2"] by (simp del: take_append drop_append)
qed

lemma length_others:
  assumes "0 \<le> l" "l < n"
  shows "length (filter (\<lambda>i. i \<noteq> l) (peer_ids n)) = nat n - 1"
proof -
  have "set (filter (\<lambda>i. i \<noteq> l) (peer_ids n)) = {0..<n} - {l}" by auto
  then have "length (filter (\<lambda>i. i \<noteq> l) (peer_ids n)) = card ({0..<n} - {l})"
    by (metis distinct_card distinct_filter distinct_peer_ids)
  then show ?thesis using assms by simp
qed

lemma MakePartition_parts:
  assumes n: "n = grp_N sg" "2 \<le> n" and l: "0 \<le> l" "l < n"
  shows "\<exists>p1 p2. MakePartition l sg = Some (p1, p2) \<and>
    int (length p1) = n div 2 + 1 \<and> int (length p2) = n div 2 \<and>
    p1 @ p2 = filter (\<lambda>i. i \<noteq> l) (peer_ids n) @ (if even n then [0] else []) @ [l]"
proof -
  let ?os = "filter (\<lambda>i. i \<noteq> l) (peer_ids n)"
  let ?z = "replicate (nat (n div 2 + 1)) 0 @ replicate (nat (n div 2)) (0::int)"
  have z: "?z = replicate (nat (n div 2 * 2 + 1)) 0" using n(2) by (simp flip: replicate_add)
  note los = length_others [OF l]
  let ?z1 = "replicate (nat (n div 2 + 1)) (0::int)" and ?z2 = "replicate (nat (n div 2)) (0::int)"
  have "length ?os + 0 \<le> length ?z1 + length ?z2" using n(2) by (simp add: los)
  then obtain q1 q2 where q1: "partition_loop (peer_ids n) l (int 0) ?z1 ?z2 = Some (q1, q2)"
    "length q1 = length ?z1" "length q2 = length ?z2"
    "q1 @ q2 = take 0 ?z @ ?os @ drop (0 + length ?os) ?z"
    using partition_loop_eq by blast
  then have q: "partition_loop (peer_ids n) l 0 ?z1 ?z2 = Some (q1, q2)"
    "length q1 = nat (n div 2 + 1)" "length q2 = nat (n div 2)" "q1 @ q2 = ?os @ drop (nat n - 1) ?z"
    by (simp_all only: los int_ops(1) length_replicate take_0 append_Nil add_0)
  let ?k = "nat (n div 2) - 1"
  have k: "?k < length q2" "nat (int (length q2) - 1) = ?k" using n(2) q(3) by auto
  have "q1 @ q2[?k := l] = (q1 @ q2)[length q1 + ?k := l]" by (simp add: list_update_append)
  also have "\<dots> = ?os @ (if even n then [0] else []) @ [l]"
  proof (cases "even n")
    case True
    then have e: "nat (n div 2 * 2 + 1) - (nat n - 1) = 2" "length q1 + ?k = length ?os + 1"
      using n(2) by (auto simp: q(2) los)
    have "drop (nat n - 1) ?z = [0, 0]" by (simp only: z drop_replicate e(1) numeral_2_eq_2 replicate.simps)
    then show ?thesis using True by (simp only: q(4) e(2) list_update_append) simp
  next
    case False
    then have e: "nat (n div 2 * 2 + 1) - (nat n - 1) = 1" "length q1 + ?k = length ?os"
      using n(2) by (auto simp: q(2) los elim!: oddE)
    have "drop (nat n - 1) ?z = [0]" unfolding z drop_replicate e(1) by simp
    then show ?thesis using False by (simp only: q(4) e(2) list_update_append) simp
  qed
  finally have app: "q1 @ q2[?k := l] = ?os @ (if even n then [0] else []) @ [l]" .
  have "MakePartition l sg = Some (q1, q2[?k := l])"
    using q(1) k by (simp add: MakePartition_def Let_def go_set_def flip: n(1)) (use k(1) in auto)
  moreover have "int (length q1) = n div 2 + 1" "int (length (q2[?k := l])) = n div 2"
    using q(2,3) n(2) by simp_all
  ultimately show ?thesis using app by blast
qed

text \<open>
  What \<open>MakePartition\<close> returns.  For a leader of a group of at least two servers, the two
  parts read one after the other are the other servers in order, then the leader, with a zero
  between them when the number of servers is even.
\<close>

theorem MakePartition_eq:
  assumes n: "n = grp_N sg" "2 \<le> n" and l: "0 \<le> l" "l < n"
  shows "\<exists>p1 p2. MakePartition l sg = Some (p1, p2) \<and>
    int (length p1) = n div 2 + 1 \<and> int (length p2) = n div 2 \<and>
    p1 @ p2 = filter (\<lambda>i. i \<noteq> l) (peer_ids n) @ (if even n then [0] else []) @ [l]"
  by (rule MakePartition_parts [OF assms])

theorem MakePartition_eq_witness:
  "\<exists>p1 p2. MakePartition 1 \<lparr>sg_srvs = replicate 3 s, sg_servernames = [], sg_gid = 0,
      sg_connected = []\<rparr> = Some (p1, p2) \<and> int (length p1) = 3 div 2 + 1 \<and>
    int (length p2) = 3 div 2 \<and> p1 @ p2 = [0, 2, 1]"
  using MakePartition_eq [of 3 "\<lparr>sg_srvs = replicate 3 s, sg_servernames = [], sg_gid = 0,
      sg_connected = []\<rparr>" 1] by (simp add: grp_N_def peer_ids_def upto_rec1)

section \<open>A new group\<close>

definition fresh_ends :: "(nat \<Rightarrow> string) \<Rightarrow> ('w, 'a, 'x) tnet \<Rightarrow> bool" where
  "fresh_ends rnd tn \<longleftrightarrow> inj rnd \<and> (\<forall>k\<ge>tn_rand tn. net_ends (tn_net tn) (rnd k) = None)"

text \<open>What \<open>makeServer\<close> leaves alone: the ends made before it.\<close>

definition net_grows :: "nat \<Rightarrow> (nat \<Rightarrow> string) \<Rightarrow> string Network \<Rightarrow> string Network \<Rightarrow> bool" where
  "net_grows r rnd rn rn' \<longleftrightarrow>
     (\<forall>k<r. connections rn' (rnd k) = connections rn (rnd k) \<and> enabled rn' (rnd k) = enabled rn (rnd k))"

lemma make_ends_eq:
  assumes "fresh_ends rnd tn"
  shows "\<exists>es tn'. make_ends rnd gid js tn = Some (es, tn') \<and> fresh_ends rnd tn' \<and>
    tn_rand tn' = tn_rand tn + length js \<and>
    map fst es = map rnd [tn_rand tn..<tn_rand tn + length js] \<and>
    net_grows (tn_rand tn) rnd (tn_net tn) (tn_net tn') \<and>
    (\<forall>k<length js. connections (tn_net tn') (rnd (tn_rand tn + k)) = Some (Some (ServerName gid (js ! k))) \<and>
       \<not> is_enabled (rnd (tn_rand tn + k)) (tn_net tn'))"
  using assms
proof (induction js arbitrary: tn)
  case (Cons j js)
  let ?r = "tn_rand tn"
  obtain rn e where e: "MakeEnd (rnd ?r) (tn_net tn) = Some (rn, e)"
    "net_ends rn = (net_ends (tn_net tn))(rnd ?r \<mapsto> e)"
    "enabled rn = (enabled (tn_net tn))(rnd ?r \<mapsto> False)"
    "connections rn = (connections (tn_net tn))(rnd ?r \<mapsto> None)"
    using Cons.prems by (simp add: MakeEnd_def fresh_ends_def Let_def)
  have inj: "rnd k = rnd k' \<longleftrightarrow> k = k'" for k k' using Cons.prems by (simp add: fresh_ends_def inj_eq)
  let ?tn = "tn\<lparr>tn_net := Connect (rnd ?r) (ServerName gid j) rn, tn_rand := ?r + 1\<rparr>"
  have "fresh_ends rnd ?tn" using Cons.prems e by (simp add: fresh_ends_def Connect_def inj_eq)
  from Cons.IH [OF this] obtain es tn' where IH: "make_ends rnd gid js ?tn = Some (es, tn')"
    "fresh_ends rnd tn'" "tn_rand tn' = Suc ?r + length js"
    "map fst es = map rnd [Suc ?r..<Suc ?r + length js]"
    "net_grows (Suc ?r) rnd (tn_net ?tn) (tn_net tn')"
    "\<And>k. k < length js \<Longrightarrow>
       connections (tn_net tn') (rnd (Suc ?r + k)) = Some (Some (ServerName gid (js ! k))) \<and>
       \<not> is_enabled (rnd (Suc ?r + k)) (tn_net tn')" by auto
  have "connections (tn_net tn') (rnd (?r + k)) = Some (Some (ServerName gid ((j # js) ! k))) \<and>
       \<not> is_enabled (rnd (?r + k)) (tn_net tn')" if "k < Suc (length js)" for k
  proof (cases k)
    case 0
    then show ?thesis using IH(5) e by (simp add: net_grows_def Connect_def is_enabled_def)
  next
    case (Suc m)
    then show ?thesis using IH(6) [of m] that by simp
  qed
  moreover have "net_grows ?r rnd (tn_net tn) (tn_net tn')"
    using IH(5) e by (simp add: net_grows_def Connect_def inj)
  moreover have "MakeEnd (rnd ?r) (tn_net tn) = Some (rn, e) \<Longrightarrow> ce_endname e = rnd ?r"
    by (auto simp: MakeEnd_def Let_def split: if_splits)
  ultimately show ?case using e(1) IH(1-4) by (simp add: upt_conv_Cons del: upt_Suc)
qed (auto simp: net_grows_def)

lemma make_srvs_eq:
  assumes "fresh_ends rnd tn"
  shows "\<exists>(srvs :: ('r, 's, 'v) TServer list) tn'. make_srvs rnd gid (int n) is tn = Some (srvs, tn') \<and> fresh_ends rnd tn' \<and>
    length srvs = length is \<and> net_grows (tn_rand tn) rnd (tn_net tn) (tn_net tn') \<and>
    (\<forall>i<length is. ts_saved (srvs ! i) = None \<and>
       ts_endNames (srvs ! i) = map rnd [tn_rand tn + i * n..<tn_rand tn + i * n + n] \<and>
       (\<forall>j<n. connections (tn_net tn') (rnd (tn_rand tn + i * n + j)) = Some (Some (ServerName gid (int j))) \<and>
          \<not> is_enabled (rnd (tn_rand tn + i * n + j)) (tn_net tn')))"
  using assms
proof (induction "is" arbitrary: tn)
  case (Cons x xs)
  let ?r = "tn_rand tn"
  have len: "length (peer_ids (int n)) = n" "\<And>k. k < n \<Longrightarrow> peer_ids (int n) ! k = int k"
    by (simp_all add: peer_ids_def nth_upto)
  obtain es tn1 where 1: "make_ends rnd gid (peer_ids (int n)) tn = Some (es, tn1)" "fresh_ends rnd tn1"
    "tn_rand tn1 = ?r + n" "map fst es = map rnd [?r..<?r + n]"
    "net_grows ?r rnd (tn_net tn) (tn_net tn1)"
    "\<And>k. k < n \<Longrightarrow> connections (tn_net tn1) (rnd (?r + k)) = Some (Some (ServerName gid (int k))) \<and>
       \<not> is_enabled (rnd (?r + k)) (tn_net tn1)"
    using make_ends_eq [OF Cons.prems, of gid "peer_ids (int n)"] by (auto simp: len)
  obtain srvs :: "('r, 's, 'v) TServer list" and tn2 where 2: "make_srvs rnd gid (int n) xs tn1 = Some (srvs, tn2)" "fresh_ends rnd tn2"
    "length srvs = length xs" "net_grows (?r + n) rnd (tn_net tn1) (tn_net tn2)"
    "\<forall>i<length xs. ts_saved (srvs ! i) = None \<and>
       ts_endNames (srvs ! i) = map rnd [?r + n + i * n..<?r + n + i * n + n] \<and>
       (\<forall>j<n. connections (tn_net tn2) (rnd (?r + n + i * n + j)) = Some (Some (ServerName gid (int j))) \<and>
          \<not> is_enabled (rnd (?r + n + i * n + j)) (tn_net tn2))"
    using Cons.IH [OF 1(2)] by (auto simp: 1(3))
  obtain s :: "('r, 's, 'v) TServer" where s: "makeServer rnd gid (int n) tn = Some (s, tn1)" "ts_saved s = None"
    "ts_endNames s = map rnd [?r..<?r + n]"
    using 1(1,4) by (simp add: makeServer_def)
  have "ts_saved ((s # srvs) ! i) = None \<and>
       ts_endNames ((s # srvs) ! i) = map rnd [?r + i * n..<?r + i * n + n] \<and>
       (\<forall>j<n. connections (tn_net tn2) (rnd (?r + i * n + j)) = Some (Some (ServerName gid (int j))) \<and>
          \<not> is_enabled (rnd (?r + i * n + j)) (tn_net tn2))" if "i < Suc (length xs)" for i
  proof (cases i)
    case 0
    then show ?thesis using s 1(6) 2(4) by (simp add: net_grows_def is_enabled_def)
  next
    case (Suc m)
    then show ?thesis using spec [OF 2(5), of m] that by (simp add: algebra_simps)
  qed
  moreover have "net_grows ?r rnd (tn_net tn) (tn_net tn2)"
    using 1(5) 2(4) by (simp add: net_grows_def)
  ultimately show ?case using s(1) 2(1-3) by simp
qed (auto simp: net_grows_def)

text \<open>A group whose servers' ends have the random strings from \<open>r\<close> on, in order.\<close>

lemma grid_group_ok:
  assumes inj: "inj rnd" and len: "length (sg_srvs sg) = n" "length (sg_connected sg) = n"
    and names: "\<And>i. i < n \<Longrightarrow> ts_endNames (sg_srvs sg ! i) = map rnd [r + i * n..<r + i * n + n]"
  shows "group_ok (int n) sg"
    and "0 \<le> x \<Longrightarrow> x < int n \<Longrightarrow> 0 \<le> y \<Longrightarrow> y < int n \<Longrightarrow> end_name sg x y = rnd (r + nat x * n + nat y)"
proof -
  have name: "end_name sg x y = rnd (r + nat x * n + nat y)" if "0 \<le> x" "x < int n" "0 \<le> y" "y < int n" for x y
    using names [of "nat x"] that by (simp add: end_name_def nat_less_iff)
  then show "0 \<le> x \<Longrightarrow> x < int n \<Longrightarrow> 0 \<le> y \<Longrightarrow> y < int n \<Longrightarrow> end_name sg x y = rnd (r + nat x * n + nat y)" .
  have arith: "i = k \<and> j = l" if "i * n + j = k * n + l" "j < n" "l < n" for i j k l :: nat
  proof -
    have "(i * n + j) div n = (k * n + l) div n" "(i * n + j) mod n = (k * n + l) mod n"
      by (simp_all only: that(1))
    then show ?thesis using that(2,3) by simp
  qed
  have "i = k \<and> j = l" if "end_name sg i j = end_name sg k l"
    "i \<in> {0..<int n}" "j \<in> {0..<int n}" "k \<in> {0..<int n}" "l \<in> {0..<int n}" for i j k l
  proof -
    have "r + nat i * n + nat j = r + nat k * n + nat l"
      using that name [of i j] name [of k l] inj by (simp add: inj_eq)
    then show ?thesis using arith [of "nat i" "nat j" "nat k" "nat l"] that(2-5)
      by (simp add: nat_less_iff eq_nat_nat_iff)
  qed
  then have "inj_on (\<lambda>(i, j). end_name sg i j) ({0..<int n} \<times> {0..<int n})"
    by (intro inj_onI) auto
  moreover have "\<forall>s\<in>set (sg_srvs sg). length (ts_endNames s) = n"
    using names len by (auto simp: in_set_conv_nth)
  ultimately show "group_ok (int n) sg" by (simp add: group_ok_def len)
qed

text \<open>
  A new group.  On a network with fresh random strings \<open>makeSrvGrp\<close> returns, for every
  number of servers, a group in which every ordered pair of servers has an end of its own, the end
  from \<open>i\<close> to \<open>j\<close> leads to server \<open>j\<close>, and no end is enabled and no server connected.
\<close>

theorem makeSrvGrp_ok:
  assumes "fresh_ends rnd tn"
  shows "\<exists>(sg :: ('r, 's, 'v) ServerGrp) tn'. makeSrvGrp rnd gid (int n) tn = Some (sg, tn') \<and> fresh_ends rnd tn' \<and>
    group_ok (int n) sg \<and> links_up (int n) (sg, tn_net tn') = ({}, {}) \<and>
    (\<forall>i<n. \<forall>j<n. connections (tn_net tn') (end_name sg (int i) (int j)) =
       Some (Some (ServerName gid (int j))))"
proof -
  let ?r = "tn_rand tn"
  have len: "length (peer_ids (int n)) = n" by (simp add: peer_ids_def)
  obtain srvs :: "('r, 's, 'v) TServer list" and tn' where 1: "make_srvs rnd gid (int n) (peer_ids (int n)) tn = Some (srvs, tn')"
    "fresh_ends rnd tn'" "length srvs = n"
    "\<forall>i<n. ts_endNames (srvs ! i) = map rnd [?r + i * n..<?r + i * n + n] \<and>
       (\<forall>j<n. connections (tn_net tn') (rnd (?r + i * n + j)) = Some (Some (ServerName gid (int j))) \<and>
          \<not> is_enabled (rnd (?r + i * n + j)) (tn_net tn'))"
    using make_srvs_eq [OF assms, of gid n "peer_ids (int n)"] by (auto simp: len)
  let ?sg = "\<lparr>sg_srvs = srvs, sg_servernames = map (ServerName gid) (peer_ids (int n)), sg_gid = gid,
    sg_connected = replicate n False\<rparr>"
  have inj: "inj rnd" using assms by (simp add: fresh_ends_def)
  note grid = grid_group_ok [of rnd ?sg n ?r, OF inj]
  have name': "end_name ?sg i j = rnd (?r + nat i * n + nat j)" if "i \<in> {0..<int n}" "j \<in> {0..<int n}" for i j
    by (rule grid(2)) (use 1 that in simp_all)
  have "group_ok (int n) ?sg" by (rule grid(1)) (use 1 in simp_all)
  moreover have "links_up (int n) (?sg, tn_net tn') = ({}, {})"
  proof -
    have "\<not> is_enabled (end_name ?sg i j) (tn_net tn')" if "0 \<le> i" "i < int n" "0 \<le> j" "j < int n" for i j
      using 1(4) that name' [of i j] by (simp add: nat_less_iff)
    then show ?thesis by (auto simp: links_up_def)
  qed
  moreover have "makeSrvGrp rnd gid (int n) tn = Some (?sg, tn')" by (simp add: makeSrvGrp_def 1(1))
  ultimately show ?thesis using 1(2,4) name' by auto
qed

section \<open>The partition that cuts off a leader\<close>

text \<open>The two parts of an odd group: disjoint, covering the group, the leader in the second.\<close>

lemma MakePartition_odd:
  assumes "n = grp_N sg" "odd n" "3 \<le> n" "0 \<le> l" "l < n"
  obtains p1 p2 where "MakePartition l sg = Some (p1, p2)" "set p1 \<inter> set p2 = {}"
    "set p1 \<union> set p2 = {0..<n}" "l \<in> set p2" "int (length p1) = n div 2 + 1" "int (length p2) = n div 2"
proof -
  obtain p1 p2 where p: "MakePartition l sg = Some (p1, p2)" "int (length p1) = n div 2 + 1"
    "int (length p2) = n div 2" "p1 @ p2 = filter (\<lambda>i. i \<noteq> l) (peer_ids n) @ [l]"
    using MakePartition_parts [of n sg l] assms by auto
  have "distinct (p1 @ p2)" by (simp add: p(4))
  moreover have "set (p1 @ p2) = {0..<n}" unfolding p(4) using assms(4,5) by auto
  moreover have "p2 \<noteq> []" using p(3) assms by auto
  then have "l = last p2" using arg_cong [OF p(4), of last] by simp
  then have "l \<in> set p2" using \<open>p2 \<noteq> []\<close> by simp
  ultimately show thesis using that p(1-3) by auto
qed

text \<open>
  C34 (the tester cuts a leader off).  For an odd group of at least three servers, whatever its
  connections, the partition that \<open>MakePartition\<close> chooses for a leader can be installed with
  \<open>Partition\<close>, and then the servers the leader can reach, itself among them, are less than half of
  the group, while every server it cannot reach reaches a majority.
\<close>

theorem leader_cut_off:
  assumes "group_ok n sg" "odd n" "3 \<le> n" "0 \<le> l" "l < n"
  shows "\<exists>p1 p2 sg' rn'. MakePartition l sg = Some (p1, p2) \<and>
    Partition p1 p2 (sg, rn) = Some (sg', rn') \<and>
    (let up = (\<lambda>i. {j \<in> {0..<n}. is_enabled (end_name sg' i j) rn'}) in
      l \<in> up l \<and> 2 * int (card (up l)) < n \<and>
      (\<forall>i\<in>{0..<n} - up l. n < 2 * int (card (up i))))"
proof -
  have "n = grp_N sg" using assms(1) by (simp add: group_ok_def grp_N_def)
  from MakePartition_odd [OF this assms(2-5)] obtain p1 p2 where
    p: "MakePartition l sg = Some (p1, p2)" "set p1 \<inter> set p2 = {}" "set p1 \<union> set p2 = {0..<n}"
    "l \<in> set p2" "int (length p1) = n div 2 + 1" "int (length p2) = n div 2"
    by metis
  then have sub: "set p1 \<subseteq> {0..<n}" "set p2 \<subseteq> {0..<n}" by auto
  obtain sg' rn' where P: "Partition p1 p2 (sg, rn) = Some (sg', rn')"
    "\<And>i j. i \<in> {0..<n} \<Longrightarrow> j \<in> {0..<n} \<Longrightarrow>
       is_enabled (end_name sg' i j) rn' \<longleftrightarrow> (i \<in> set p1 \<longleftrightarrow> j \<in> set p1)"
    by (rule Partition_links [OF assms(1) sub p(2), of rn]) (simp add: p(3))
  have half: "n = 2 * (n div 2) + 1" using assms(2) by presburger
  have c2: "int (card (set p2)) \<le> n div 2" using card_length [of p2] p(6) by linarith
  have "card (set p1) + card (set p2) = nat n"
    using card_Un_disjoint [of "set p1" "set p2"] p(2,3) by simp
  then have c1: "n div 2 < int (card (set p1))" using c2 half assms(3) by linarith
  have up: "{j \<in> {0..<n}. is_enabled (end_name sg' i j) rn'} = (if i \<in> set p1 then set p1 else set p2)"
    if "i \<in> {0..<n}" for i
  proof -
    have "{j \<in> {0..<n}. is_enabled (end_name sg' i j) rn'} = {j \<in> {0..<n}. i \<in> set p1 \<longleftrightarrow> j \<in> set p1}"
      by (rule Collect_cong) (use P(2) [OF that] in blast)
    also have "\<dots> = (if i \<in> set p1 then set p1 else set p2)"
      unfolding p(3) [symmetric] using p(2) by auto
    finally show ?thesis .
  qed
  have l: "l \<in> {0..<n}" "l \<notin> set p1" using p(2,4) sub by auto
  let ?up = "\<lambda>i. {j \<in> {0..<n}. is_enabled (end_name sg' i j) rn'}"
  have card: "2 * int (card (set p2)) < n" "n < 2 * int (card (set p1))" using c1 c2 half by linarith+
  have upl: "?up l = set p2" using up [OF l(1)] l(2) by simp
  have "?up i = set p1" if "i \<in> {0..<n} - ?up l" for i
  proof -
    have "i \<in> {0..<n}" "i \<in> set p1" using that p(3) by (auto simp only: upl)
    then show ?thesis using up by simp
  qed
  then have "l \<in> ?up l \<and> 2 * int (card (?up l)) < n \<and> (\<forall>i\<in>{0..<n} - ?up l. n < 2 * int (card (?up i)))"
    using card p(4) by (simp only: upl) simp
  then show ?thesis unfolding Let_def using p(1) P(1) by blast
qed

section \<open>A group of three\<close>

definition demo_grp :: "(nat, nat, nat) ServerGrp" where
  "demo_grp = \<lparr>sg_srvs = map (\<lambda>es. \<lparr>ts_saved = None, ts_svcs = [], ts_endNames = es, ts_clntEnds = []\<rparr>)
      [[''aa'', ''ab'', ''ac''], [''ba'', ''bb'', ''bc''], [''ca'', ''cb'', ''cc'']],
    sg_servernames = map (ServerName 1) [0, 1, 2], sg_gid = 1, sg_connected = [True, False, True]\<rparr>"

lemma three: "{0..<3::int} = {0, 1, 2}" by auto

lemma demo_grp_ok: "group_ok 3 demo_grp"
  by (auto simp: group_ok_def demo_grp_def three end_name_def inj_on_def)

theorem Partition_isolates_witness:
  "\<exists>sg' rn'. Partition [0, 2] [1] (demo_grp, MakeNetwork) = Some (sg', rn') \<and>
     is_enabled (end_name sg' 0 2) rn' \<and> \<not> is_enabled (end_name sg' 0 1) rn'"
proof -
  have sets: "set [0, 2] \<subseteq> {0..<3::int}" "set [1] \<subseteq> {0..<3::int}" "set [0, 2] \<inter> set [1::int] = {}" by auto
  show ?thesis using Partition_isolates [OF demo_grp_ok sets, of MakeNetwork]
    by (elim ex_forward) (simp add: all_conj_distrib, blast)
qed

theorem leader_cut_off_witness:
  "\<exists>p1 p2 sg' rn'. MakePartition 0 demo_grp = Some (p1, p2) \<and>
     Partition p1 p2 (demo_grp, MakeNetwork) = Some (sg', rn') \<and>
     2 * card {j \<in> {0..<3}. is_enabled (end_name sg' 0 j) rn'} < 3"
  using leader_cut_off [OF demo_grp_ok, of 0 MakeNetwork] by (auto simp: Let_def)

theorem makeSrvGrp_ok_witness:
  "\<exists>(sg :: (nat, nat, nat) ServerGrp) tn'. makeSrvGrp (\<lambda>k. replicate k CHR ''x'') 1 (int 3)
      \<lparr>tn_net = MakeNetwork, tn_rand = 0, tn_heap = (\<lambda>_. MakeServer), tn_next = 0\<rparr> = Some (sg, tn') \<and>
     group_ok (int 3) sg"
proof -
  have "fresh_ends (\<lambda>k. replicate k CHR ''x'')
      \<lparr>tn_net = MakeNetwork, tn_rand = 0, tn_heap = (\<lambda>_. MakeServer), tn_next = 0\<rparr>"
    by (auto simp: fresh_ends_def MakeNetwork_def inj_on_def)
  from makeSrvGrp_ok [OF this, of 1 3] show ?thesis by blast
qed

end
