(* ===== verification/TestClnts.thy ===== *)
theory TestClnts
  imports LabRpc
begin

text \<open>
  The clients of a test (\<open>src/tester1/clnts.go\<close>): every clerk has a \<open>Clnt\<close> that makes a client end
  per server on first use, and the test decides which servers a client may reach.  The ends live in
  the network of \<^theory_text>\<open>LabRpc\<close>.

  \<open>Randstring\<close> is the parameter \<open>rnd\<close> on a counter, of which only that its values differ is used.  A
  \<open>*Clnt\<close> is a number into \<open>tc_heap\<close>.  \<open>None\<close> is a \<open>log.Fatalf\<close> of the network or a panic; the \<open>nil\<close>
  list of servers (all of them) is \<open>None\<close> in \<open>cl_srvs\<close>.
\<close>

record Clnt =
  cl_ends :: "(string \<times> string) list"
  cl_srvs :: "string list option"

text \<open>\<open>Clnts\<close> with the network: \<open>tc_clerks\<close> is its map of clients, \<open>None\<close> when it is \<open>nil\<close>.\<close>

record tclnts =
  tc_net :: "string Network"
  tc_rand :: nat
  tc_heap :: "nat \<Rightarrow> Clnt"
  tc_next :: nat
  tc_clerks :: "nat list option"

definition makeClntTo :: "string list option \<Rightarrow> Clnt" where
  "makeClntTo srvs = \<lparr>cl_ends = [], cl_srvs = srvs\<rparr>"

definition allowedL :: "Clnt \<Rightarrow> string \<Rightarrow> bool" where
  "allowedL clnt server = (case cl_srvs clnt of None \<Rightarrow> True | Some ns \<Rightarrow> server \<in> set ns)"

text \<open>The end to a server: the one made before, or a new one.\<close>

definition clnt_makeEnd :: "(nat \<Rightarrow> string) \<Rightarrow> nat \<Rightarrow> string \<Rightarrow> tclnts \<Rightarrow> (string \<times> tclnts) option" where
  "clnt_makeEnd rnd c server st =
     (case map_of (cl_ends (tc_heap st c)) server of
        Some name \<Rightarrow> Some (name, st)
      | None \<Rightarrow>
          let name = rnd (tc_rand st); clnt = tc_heap st c
          in do {
            (rn, e) \<leftarrow> MakeEnd name (tc_net st);
            let rn1 = Enable name (allowedL clnt server) (Connect name server rn);
            Some (name, st\<lparr>tc_net := rn1, tc_rand := tc_rand st + 1,
              tc_heap := (tc_heap st)(c := clnt\<lparr>cl_ends := (server, name) # cl_ends clnt\<rparr>)\<rparr>)
          })"

text \<open>A call: the request that goes out on that end.\<close>

definition clnt_Call :: "(nat \<Rightarrow> string) \<Rightarrow> nat \<Rightarrow> string \<Rightarrow> string \<Rightarrow> 'a \<Rightarrow> tclnts \<Rightarrow>
    ((string, 'a) reqMsg \<times> tclnts) option" where
  "clnt_Call rnd c server method args st =
     do {
       (name, st) \<leftarrow> clnt_makeEnd rnd c server st;
       Some (\<lparr>rq_endname = name, rq_svcMeth = method, rq_args = args\<rparr>, st)
     }"

definition clnt_ConnectAll :: "nat \<Rightarrow> tclnts \<Rightarrow> tclnts" where
  "clnt_ConnectAll c st = st\<lparr>
     tc_net := fold (\<lambda>(srv, name). Enable name True) (cl_ends (tc_heap st c)) (tc_net st),
     tc_heap := (tc_heap st)(c := (tc_heap st c)\<lparr>cl_srvs := None\<rparr>)\<rparr>"

definition clnt_ConnectTo :: "nat \<Rightarrow> string list option \<Rightarrow> tclnts \<Rightarrow> tclnts" where
  "clnt_ConnectTo c srvs st =
     (let clnt = (tc_heap st c)\<lparr>cl_srvs := srvs\<rparr>
      in st\<lparr>tc_net := fold (\<lambda>(srv, name) rn. if allowedL clnt srv then Enable name True rn else rn)
                        (cl_ends clnt) (tc_net st),
            tc_heap := (tc_heap st)(c := clnt)\<rparr>)"

definition clnt_Disconnect :: "nat \<Rightarrow> string \<Rightarrow> tclnts \<Rightarrow> tclnts" where
  "clnt_Disconnect c srv st = st\<lparr>
     tc_net := fold (\<lambda>(s, name) rn. if s = srv then Enable name False rn else rn)
                 (cl_ends (tc_heap st c)) (tc_net st)\<rparr>"

definition clnt_DisconnectAll :: "nat \<Rightarrow> tclnts \<Rightarrow> tclnts" where
  "clnt_DisconnectAll c st = st\<lparr>
     tc_net := fold (\<lambda>(srv, name). Enable name False) (cl_ends (tc_heap st c)) (tc_net st),
     tc_heap := (tc_heap st)(c := (tc_heap st c)\<lparr>cl_srvs := Some []\<rparr>)\<rparr>"

fun delete_ends :: "string list \<Rightarrow> string Network \<Rightarrow> string Network option" where
  "delete_ends [] rn = Some rn"
| "delete_ends (name # names) rn = Option.bind (DeleteEnd name rn) (delete_ends names)"

definition clnt_remove :: "nat \<Rightarrow> tclnts \<Rightarrow> tclnts option" where
  "clnt_remove c st =
     do { rn \<leftarrow> delete_ends (map snd (cl_ends (tc_heap st c))) (tc_net st); Some (st\<lparr>tc_net := rn\<rparr>) }"

section \<open>All clients of a test\<close>

definition makeClnts :: "string Network \<Rightarrow> tclnts" where
  "makeClnts rn = \<lparr>tc_net = rn, tc_rand = 0, tc_heap = (\<lambda>_. makeClntTo None), tc_next = 0, tc_clerks = Some []\<rparr>"

definition Clnts_makeEnd :: "(nat \<Rightarrow> string) \<Rightarrow> string \<Rightarrow> tclnts \<Rightarrow> (string ClientEnd \<times> tclnts) option" where
  "Clnts_makeEnd rnd servername st =
     (let name = rnd (tc_rand st)
      in do {
        (rn, e) \<leftarrow> MakeEnd name (tc_net st);
        Some (e, st\<lparr>tc_net := Enable name True (Connect name servername rn), tc_rand := tc_rand st + 1\<rparr>)
      })"

text \<open>Writing to the \<open>nil\<close> map, after \<open>cleanup\<close>, panics.\<close>

definition MakeClientTo :: "string list option \<Rightarrow> tclnts \<Rightarrow> (nat \<times> tclnts) option" where
  "MakeClientTo srvs st =
     (let c = tc_next st
      in do {
        cs \<leftarrow> tc_clerks st;
        Some (c, st\<lparr>tc_heap := (tc_heap st)(c := makeClntTo srvs), tc_next := c + 1, tc_clerks := Some (c # cs)\<rparr>)
      })"

definition MakeClient :: "tclnts \<Rightarrow> (nat \<times> tclnts) option" where
  "MakeClient st = MakeClientTo None st"

fun remove_all :: "nat list \<Rightarrow> tclnts \<Rightarrow> tclnts option" where
  "remove_all [] st = Some st"
| "remove_all (c # cs) st = Option.bind (clnt_remove c st) (remove_all cs)"

definition clnts_cleanup :: "tclnts \<Rightarrow> tclnts option" where
  "clnts_cleanup st =
     do {
       st \<leftarrow> remove_all (case tc_clerks st of None \<Rightarrow> [] | Some cs \<Rightarrow> cs) st;
       Some (st\<lparr>tc_clerks := None\<rparr>)
     }"

definition DeleteClient :: "nat \<Rightarrow> tclnts \<Rightarrow> tclnts option" where
  "DeleteClient c st = (case tc_clerks st of
     None \<Rightarrow> Some st
   | Some cs \<Rightarrow>
       if c \<in> set cs
       then do { st \<leftarrow> clnt_remove c st; Some (st\<lparr>tc_clerks := Some (removeAll c cs)\<rparr>) }
       else Some st)"

text \<open>What a test does with its clients, and with the servers.\<close>

datatype clnts_op =
  OpMakeClientTo "string list option" | OpCall nat string | OpConnectAll nat
| OpConnectTo nat "string list option" | OpDisconnect nat string | OpDisconnectAll nat
| OpDeleteClient nat | OpMakeEnd string | OpCleanup
| OpAddServer string nat | OpDeleteServer string | OpReliable bool

primrec clnts_do :: "(nat \<Rightarrow> string) \<Rightarrow> clnts_op \<Rightarrow> tclnts \<Rightarrow> tclnts option" where
  "clnts_do rnd (OpMakeClientTo srvs) st = map_option snd (MakeClientTo srvs st)"
| "clnts_do rnd (OpCall c server) st = map_option snd (clnt_makeEnd rnd c server st)"
| "clnts_do rnd (OpConnectAll c) st = Some (clnt_ConnectAll c st)"
| "clnts_do rnd (OpConnectTo c srvs) st = Some (clnt_ConnectTo c srvs st)"
| "clnts_do rnd (OpDisconnect c srv) st = Some (clnt_Disconnect c srv st)"
| "clnts_do rnd (OpDisconnectAll c) st = Some (clnt_DisconnectAll c st)"
| "clnts_do rnd (OpDeleteClient c) st = DeleteClient c st"
| "clnts_do rnd (OpMakeEnd server) st = map_option snd (Clnts_makeEnd rnd server st)"
| "clnts_do rnd OpCleanup st = clnts_cleanup st"
| "clnts_do rnd (OpAddServer nm p) st = Some (st\<lparr>tc_net := AddServer nm p (tc_net st)\<rparr>)"
| "clnts_do rnd (OpDeleteServer nm) st = Some (st\<lparr>tc_net := DeleteServer nm (tc_net st)\<rparr>)"
| "clnts_do rnd (OpReliable b) st = Some (st\<lparr>tc_net := Reliable b (tc_net st)\<rparr>)"

fun clnts_run :: "(nat \<Rightarrow> string) \<Rightarrow> clnts_op list \<Rightarrow> tclnts \<Rightarrow> tclnts option" where
  "clnts_run rnd [] st = Some st"
| "clnts_run rnd (op # ops) st = Option.bind (clnts_do rnd op st) (clnts_run rnd ops)"

section \<open>What the loops do\<close>

lemma fold_enable_if:
  "fold (\<lambda>(s, name) rn. if P s then Enable name b rn else rn) es rn =
     rn\<lparr>enabled := (\<lambda>n. if \<exists>s. (s, n) \<in> set es \<and> P s then Some b else enabled rn n)\<rparr>"
proof (induction es arbitrary: rn)
  case (Cons e es)
  obtain x m where e: "e = (x, m)" by (cases e)
  have "(\<lambda>n. if \<exists>s. (s, n) \<in> set es \<and> P s then Some b
        else enabled (if P x then Enable m b rn else rn) n) =
      (\<lambda>n. if \<exists>s. (s, n) \<in> set (e # es) \<and> P s then Some b else enabled rn n)"
    by (auto simp: e Enable_def fun_eq_iff)
  then show ?case by (simp add: e Cons.IH Enable_def)
qed simp

lemma fold_enable:
  "fold (\<lambda>(s, name). Enable name b) es rn =
     rn\<lparr>enabled := (\<lambda>n. if n \<in> snd ` set es then Some b else enabled rn n)\<rparr>"
proof -
  have "(\<exists>s. (s, n) \<in> set es) \<longleftrightarrow> n \<in> snd ` set es" for n by force
  then show ?thesis using fold_enable_if [of "\<lambda>_. True" b es rn] by simp
qed

lemma delete_ends_all:
  assumes "distinct names" "\<And>n. n \<in> set names \<Longrightarrow> net_ends rn n \<noteq> None"
  shows "delete_ends names rn = Some (rn\<lparr>
    net_ends := (\<lambda>n. if n \<in> set names then None else net_ends rn n),
    enabled := (\<lambda>n. if n \<in> set names then None else enabled rn n),
    connections := (\<lambda>n. if n \<in> set names then None else connections rn n)\<rparr>)"
  using assms
proof (induction names arbitrary: rn)
  case (Cons a names)
  let ?rn = "rn\<lparr>net_ends := (net_ends rn)(a := None), enabled := (enabled rn)(a := None),
    connections := (connections rn)(a := None)\<rparr>"
  have "DeleteEnd a rn = Some ?rn" using Cons.prems(2) [of a] by (simp add: DeleteEnd_def)
  moreover have "net_ends ?rn n \<noteq> None" if "n \<in> set names" for n using Cons.prems that by auto
  ultimately show ?case using Cons.IH [of ?rn] Cons.prems(1) by (auto simp: fun_eq_iff)
qed simp

section \<open>The ends in the network\<close>

abbreviation ends_of :: "tclnts \<Rightarrow> nat \<Rightarrow> (string \<times> string) set" where
  "ends_of st c \<equiv> set (cl_ends (tc_heap st c))"

definition clnts_ok :: "(nat \<Rightarrow> string) \<Rightarrow> tclnts \<Rightarrow> bool" where
  "clnts_ok rnd st \<longleftrightarrow>
     (\<forall>c x n. (x, n) \<in> ends_of st c \<longrightarrow> n \<in> rnd ` {..<tc_rand st} \<and>
        (connections (tc_net st) n = None \<or> connections (tc_net st) n = Some (Some x))) \<and>
     (\<forall>c d x y n. (x, n) \<in> ends_of st c \<longrightarrow> (y, n) \<in> ends_of st d \<longrightarrow> c = d \<and> x = y) \<and>
     (\<forall>n. net_ends (tc_net st) n \<noteq> None \<longrightarrow> n \<in> rnd ` {..<tc_rand st}) \<and>
     (\<forall>c. distinct (map fst (cl_ends (tc_heap st c)))) \<and>
     (\<forall>cs. tc_clerks st = Some cs \<longrightarrow> distinct cs \<and> set cs \<subseteq> {..<tc_next st} \<and>
        (\<forall>c\<in>set cs. \<forall>(x, n)\<in>ends_of st c.
           net_ends (tc_net st) n \<noteq> None \<and> connections (tc_net st) n = Some (Some x)))"

lemma clnts_okD:
  assumes "clnts_ok rnd st"
  shows "(x, n) \<in> ends_of st c \<Longrightarrow> n \<in> rnd ` {..<tc_rand st}"
    "(x, n) \<in> ends_of st c \<Longrightarrow> connections (tc_net st) n = None \<or> connections (tc_net st) n = Some (Some x)"
    "(x, n) \<in> ends_of st c \<Longrightarrow> (y, n) \<in> ends_of st d \<Longrightarrow> c = d \<and> x = y"
    "net_ends (tc_net st) n \<noteq> None \<Longrightarrow> n \<in> rnd ` {..<tc_rand st}"
    "distinct (map fst (cl_ends (tc_heap st c)))"
    "tc_clerks st = Some cs \<Longrightarrow> distinct cs \<and> set cs \<subseteq> {..<tc_next st}"
    "tc_clerks st = Some cs \<Longrightarrow> c \<in> set cs \<Longrightarrow> (x, n) \<in> ends_of st c \<Longrightarrow>
       net_ends (tc_net st) n \<noteq> None \<and> connections (tc_net st) n = Some (Some x)"
  using assms unfolding clnts_ok_def by blast+

lemma clnts_okI:
  assumes "\<And>c x n. (x, n) \<in> ends_of st c \<Longrightarrow> n \<in> rnd ` {..<tc_rand st} \<and>
      (connections (tc_net st) n = None \<or> connections (tc_net st) n = Some (Some x))"
    "\<And>c d x y n. (x, n) \<in> ends_of st c \<Longrightarrow> (y, n) \<in> ends_of st d \<Longrightarrow> c = d \<and> x = y"
    "\<And>n. net_ends (tc_net st) n \<noteq> None \<Longrightarrow> n \<in> rnd ` {..<tc_rand st}"
    "\<And>c. distinct (map fst (cl_ends (tc_heap st c)))"
    "\<And>cs. tc_clerks st = Some cs \<Longrightarrow> distinct cs \<and> set cs \<subseteq> {..<tc_next st}"
    "\<And>cs c x n. tc_clerks st = Some cs \<Longrightarrow> c \<in> set cs \<Longrightarrow> (x, n) \<in> ends_of st c \<Longrightarrow>
       net_ends (tc_net st) n \<noteq> None \<and> connections (tc_net st) n = Some (Some x)"
  shows "clnts_ok rnd st"
  using assms unfolding clnts_ok_def by blast

text \<open>Changing which ends are enabled, which servers a client may reach, and the servers keeps it.\<close>

lemma clnts_ok_switch:
  assumes "clnts_ok rnd st" "tc_rand st' = tc_rand st" "tc_next st' = tc_next st" "tc_clerks st' = tc_clerks st"
    "\<And>c. cl_ends (tc_heap st' c) = cl_ends (tc_heap st c)"
    "net_ends (tc_net st') = net_ends (tc_net st)" "connections (tc_net st') = connections (tc_net st)"
  shows "clnts_ok rnd st'"
  using assms(1) unfolding clnts_ok_def assms(2-) .

lemma clnts_ok_start: "clnts_ok rnd (makeClnts MakeNetwork)"
  by (simp add: clnts_ok_def makeClnts_def makeClntTo_def MakeNetwork_def)

lemma fresh_name:
  assumes "clnts_ok rnd st" "inj rnd"
  shows "net_ends (tc_net st) (rnd (tc_rand st)) = None" "(x, rnd (tc_rand st)) \<notin> ends_of st c"
proof -
  have "rnd (tc_rand st) \<notin> rnd ` {..<tc_rand st}" using assms(2) by (auto dest: injD)
  then show "net_ends (tc_net st) (rnd (tc_rand st)) = None" "(x, rnd (tc_rand st)) \<notin> ends_of st c"
    using clnts_okD(1,4) [OF assms(1)] by blast+
qed

text \<open>A new end: it is fresh, connected to the server and enabled when the server is allowed.\<close>

definition end_added :: "string \<Rightarrow> string \<Rightarrow> bool \<Rightarrow> string Network \<Rightarrow> string Network" where
  "end_added name server on rn = rn\<lparr>net_ends := (net_ends rn)(name \<mapsto> \<lparr>ce_endname = name\<rparr>),
     enabled := (enabled rn)(name \<mapsto> on), connections := (connections rn)(name \<mapsto> Some server)\<rparr>"

lemma make_connect_enable:
  assumes "net_ends rn name = None"
  obtains rn' e where "MakeEnd name rn = Some (rn', e)"
    "\<And>b. Enable name b (Connect name server rn') = end_added name server b rn"
  using assms by (auto simp: MakeEnd_def Enable_def Connect_def end_added_def Let_def)

lemma clnt_makeEnd_cases:
  assumes ok: "clnts_ok rnd st" and inj: "inj rnd"
  obtains (old) name where "clnt_makeEnd rnd c server st = Some (name, st)" "(server, name) \<in> ends_of st c"
  | (added) "clnt_makeEnd rnd c server st = Some (rnd (tc_rand st), st\<lparr>
        tc_net := end_added (rnd (tc_rand st)) server (allowedL (tc_heap st c) server) (tc_net st),
        tc_rand := tc_rand st + 1,
        tc_heap := (tc_heap st)(c := (tc_heap st c)\<lparr>cl_ends := (server, rnd (tc_rand st)) # cl_ends (tc_heap st c)\<rparr>)\<rparr>)"
      "\<And>n. (server, n) \<notin> ends_of st c"
proof (cases "map_of (cl_ends (tc_heap st c)) server")
  case None
  then have "\<And>n. (server, n) \<notin> ends_of st c" by (force simp: map_of_eq_None_iff)
  moreover obtain rn' e where "MakeEnd (rnd (tc_rand st)) (tc_net st) = Some (rn', e)"
    "\<And>b. Enable (rnd (tc_rand st)) b (Connect (rnd (tc_rand st)) server rn') = end_added (rnd (tc_rand st)) server b (tc_net st)"
    by (rule make_connect_enable [OF fresh_name(1) [OF ok inj], of server]) blast
  ultimately show ?thesis using added None by (simp add: clnt_makeEnd_def Let_def)
next
  case (Some name)
  then show ?thesis using old map_of_SomeD by (fastforce simp: clnt_makeEnd_def)
qed

lemma end_added_simps [simp]:
  "net_ends (end_added name server b rn) = (net_ends rn)(name \<mapsto> \<lparr>ce_endname = name\<rparr>)"
  "enabled (end_added name server b rn) = (enabled rn)(name \<mapsto> b)"
  "connections (end_added name server b rn) = (connections rn)(name \<mapsto> Some server)"
  "servers (end_added name server b rn) = servers rn"
  by (simp_all add: end_added_def)

lemma clnts_ok_end_added:
  assumes ok: "clnts_ok rnd st" and inj: "inj rnd" and no: "\<And>n. (server, n) \<notin> ends_of st c"
    and st': "tc_net st' = end_added (rnd (tc_rand st)) server b (tc_net st)" "tc_rand st' = tc_rand st + 1"
      "tc_next st' = tc_next st" "tc_clerks st' = tc_clerks st"
      "\<And>d. cl_ends (tc_heap st' d) = (if d = c then (server, rnd (tc_rand st)) # cl_ends (tc_heap st d) else cl_ends (tc_heap st d))"
  shows "clnts_ok rnd st'"
proof -
  let ?m = "rnd (tc_rand st)"
  note D = clnts_okD [OF ok] and fresh = fresh_name [OF ok inj]
  have ends: "(x, n) \<in> ends_of st' d \<longleftrightarrow> (x, n) \<in> ends_of st d \<or> d = c \<and> x = server \<and> n = ?m" for x n d
    by (auto simp: st'(5))
  have neq: "n \<noteq> ?m" if "(x, n) \<in> ends_of st d" for x n d using fresh(2) that by blast
  have lt: "rnd ` {..<tc_rand st + 1} = insert ?m (rnd ` {..<tc_rand st})" by (auto simp: less_Suc_eq)
  show ?thesis
  proof (rule clnts_okI)
    fix d show "distinct (map fst (cl_ends (tc_heap st' d)))"
      using D(5) [of d] no by (auto simp: st'(5))
  next
    fix d x n assume "(x, n) \<in> ends_of st' d"
    then show "n \<in> rnd ` {..<tc_rand st'} \<and> (connections (tc_net st') n = None \<or> connections (tc_net st') n = Some (Some x))"
      using D(1,2) [of x n d] neq [of x n d] unfolding ends lt st'(1,2) by auto
  next
    fix d e x y n assume "(x, n) \<in> ends_of st' d" "(y, n) \<in> ends_of st' e"
    then show "d = e \<and> x = y"
      using D(3) [of x n d y e] neq [of x n d] neq [of y n e] unfolding ends by blast
  next
    fix n assume "net_ends (tc_net st') n \<noteq> None"
    then show "n \<in> rnd ` {..<tc_rand st'}" using D(4) [of n] unfolding lt st'(1,2) by (auto split: if_splits)
  next
    fix cs d x n assume "tc_clerks st' = Some cs" "d \<in> set cs" "(x, n) \<in> ends_of st' d"
    then show "net_ends (tc_net st') n \<noteq> None \<and> connections (tc_net st') n = Some (Some x)"
      using D(7) [of cs d x n] neq [of x n d] unfolding ends st'(1,4) by auto
  qed (use D(6) in \<open>simp add: st'(3,4)\<close>)
qed

lemma clnts_ok_makeEnd:
  assumes "clnts_ok rnd st" "inj rnd" "clnt_makeEnd rnd c server st = Some (name, st')"
  shows "clnts_ok rnd st'" "(server, name) \<in> ends_of st' c" "tc_next st' = tc_next st" "tc_clerks st' = tc_clerks st"
proof -
  have "clnts_ok rnd st' \<and> (server, name) \<in> ends_of st' c \<and> tc_next st' = tc_next st \<and> tc_clerks st' = tc_clerks st"
  proof (rule clnt_makeEnd_cases [OF assms(1,2), of c server], goal_cases)
    case (1 n)
    then show ?case using assms by simp
  next
    case 2
    then have "clnts_ok rnd st'"
      using assms(3) by (intro clnts_ok_end_added [OF assms(1,2) 2(2)]) auto
    then show ?case using 2 assms(3) by auto
  qed
  then show "clnts_ok rnd st'" "(server, name) \<in> ends_of st' c" "tc_next st' = tc_next st" "tc_clerks st' = tc_clerks st"
    by simp_all
qed

text \<open>\<open>clnts.makeEnd\<close>: an end that no client owns.\<close>

lemma clnts_ok_Clnts_makeEnd:
  assumes ok: "clnts_ok rnd st" and inj: "inj rnd"
  shows "\<exists>e st'. Clnts_makeEnd rnd server st = Some (e, st') \<and> clnts_ok rnd st' \<and>
    tc_net st' = end_added (rnd (tc_rand st)) server True (tc_net st) \<and> tc_heap st' = tc_heap st \<and>
    tc_next st' = tc_next st \<and> tc_clerks st' = tc_clerks st"
proof -
  let ?m = "rnd (tc_rand st)"
  let ?st' = "st\<lparr>tc_net := end_added ?m server True (tc_net st), tc_rand := tc_rand st + 1\<rparr>"
  obtain rn' e where "MakeEnd ?m (tc_net st) = Some (rn', e)"
    "\<And>b. Enable ?m b (Connect ?m server rn') = end_added ?m server b (tc_net st)"
    by (rule make_connect_enable [OF fresh_name(1) [OF ok inj], of server]) blast
  then have "Clnts_makeEnd rnd server st = Some (e, ?st')" by (simp add: Clnts_makeEnd_def Let_def)
  moreover have "clnts_ok rnd ?st'"
  proof -
    note D = clnts_okD [OF ok]
    have lt: "rnd ` {..<tc_rand st + 1} = insert ?m (rnd ` {..<tc_rand st})" by (auto simp: less_Suc_eq)
    have neq: "n \<noteq> ?m" if "(x, n) \<in> ends_of st d" for x n d using fresh_name(2) [OF ok inj] that by blast
    show ?thesis
    proof (rule clnts_okI)
      fix d x n assume "(x, n) \<in> ends_of ?st' d"
      then show "n \<in> rnd ` {..<tc_rand ?st'} \<and> (connections (tc_net ?st') n = None \<or> connections (tc_net ?st') n = Some (Some x))"
        using D(1,2) [of x n d] neq [of x n d] lt by auto
    next
      fix n assume "net_ends (tc_net ?st') n \<noteq> None"
      then show "n \<in> rnd ` {..<tc_rand ?st'}" using D(4) [of n] lt by (auto split: if_splits)
    next
      fix cs d x n assume "tc_clerks ?st' = Some cs" "d \<in> set cs" "(x, n) \<in> ends_of ?st' d"
      then show "net_ends (tc_net ?st') n \<noteq> None \<and> connections (tc_net ?st') n = Some (Some x)"
        using D(7) [of cs d x n] neq [of x n d] by auto
    qed (use D(3,5,6) in simp_all)
  qed
  ultimately show ?thesis by auto
qed

lemma clnts_ok_MakeClientTo:
  assumes ok: "clnts_ok rnd st" and r: "MakeClientTo srvs st = Some (c, st')"
  shows "clnts_ok rnd st'"
proof -
  note D = clnts_okD [OF ok]
  obtain cs where cs: "tc_clerks st = Some cs" "c = tc_next st"
    "st' = st\<lparr>tc_heap := (tc_heap st)(c := makeClntTo srvs), tc_next := c + 1, tc_clerks := Some (c # cs)\<rparr>"
    using r by (auto simp: MakeClientTo_def Let_def split: Option.bind_splits)
  have ends: "(x, n) \<in> ends_of st' d \<longleftrightarrow> d \<noteq> c \<and> (x, n) \<in> ends_of st d" for x n d
    by (simp add: cs(3) makeClntTo_def)
  show ?thesis
  proof (rule clnts_okI)
    fix d show "distinct (map fst (cl_ends (tc_heap st' d)))"
      using D(5) [of d] by (simp add: cs(3) makeClntTo_def)
  next
    fix cs' d x n assume "tc_clerks st' = Some cs'" "d \<in> set cs'" "(x, n) \<in> ends_of st' d"
    then show "net_ends (tc_net st') n \<noteq> None \<and> connections (tc_net st') n = Some (Some x)"
      using D(7) [OF cs(1), of d x n] unfolding ends by (auto simp: cs(3))
  next
    fix cs' assume "tc_clerks st' = Some cs'"
    then show "distinct cs' \<and> set cs' \<subseteq> {..<tc_next st'}" using D(6) [OF cs(1)] by (auto simp: cs(2,3))
  next
    fix d x n assume "(x, n) \<in> ends_of st' d"
    then show "n \<in> rnd ` {..<tc_rand st'} \<and> (connections (tc_net st') n = None \<or> connections (tc_net st') n = Some (Some x))"
      using D(1,2) [of x n d] unfolding ends by (simp add: cs(3))
  next
    fix d e x y n assume "(x, n) \<in> ends_of st' d" "(y, n) \<in> ends_of st' e"
    then show "d = e \<and> x = y" using D(3) [of x n d y e] unfolding ends by blast
  next
    fix n assume "net_ends (tc_net st') n \<noteq> None"
    then show "n \<in> rnd ` {..<tc_rand st'}" using D(4) [of n] by (simp add: cs(3))
  qed
qed

text \<open>Removing a client deletes its ends, once.\<close>

lemma ends_distinct:
  assumes "clnts_ok rnd st"
  shows "distinct (map snd (cl_ends (tc_heap st c)))"
proof -
  have "inj_on snd (ends_of st c)"
    by (rule inj_onI) (metis clnts_okD(3) [OF assms] prod.collapse)
  moreover have "distinct (cl_ends (tc_heap st c))"
    using clnts_okD(5) [OF assms, of c] by (simp add: distinct_map)
  ultimately show ?thesis by (simp add: distinct_map)
qed

lemma clnt_remove_ok:
  assumes ok: "clnts_ok rnd st" and cs: "tc_clerks st = Some cs" "c \<in> set cs"
  shows "\<exists>st'. clnt_remove c st = Some st' \<and>
    clnts_ok rnd (st'\<lparr>tc_clerks := Some (removeAll c cs)\<rparr>) \<and> st' = st\<lparr>tc_net := tc_net st'\<rparr> \<and>
    (\<forall>n. is_enabled n (tc_net st') \<longrightarrow> is_enabled n (tc_net st))"
proof -
  note D = clnts_okD [OF ok]
  let ?ns = "map snd (cl_ends (tc_heap st c))" and ?rn = "tc_net st"
  let ?rn' = "?rn\<lparr>net_ends := (\<lambda>n. if n \<in> set ?ns then None else net_ends ?rn n),
    enabled := (\<lambda>n. if n \<in> set ?ns then None else enabled ?rn n),
    connections := (\<lambda>n. if n \<in> set ?ns then None else connections ?rn n)\<rparr>"
  have "delete_ends ?ns ?rn = Some ?rn'"
    using D(7) [OF cs] by (intro delete_ends_all ends_distinct [OF ok]) auto
  then have "clnt_remove c st = Some (st\<lparr>tc_net := ?rn'\<rparr>)" by (simp add: clnt_remove_def)
  moreover have "clnts_ok rnd (st\<lparr>tc_net := ?rn', tc_clerks := Some (removeAll c cs)\<rparr>)" (is "clnts_ok rnd ?st'")
  proof -
    show ?thesis
    proof (rule clnts_okI)
      fix d x n assume "(x, n) \<in> ends_of ?st' d"
      then show "n \<in> rnd ` {..<tc_rand ?st'} \<and> (connections (tc_net ?st') n = None \<or> connections (tc_net ?st') n = Some (Some x))"
        using D(1,2) [of x n d] by auto
    next
      fix n assume "net_ends (tc_net ?st') n \<noteq> None"
      then show "n \<in> rnd ` {..<tc_rand ?st'}" using D(4) [of n] by (auto split: if_splits)
    next
      fix cs' d x n assume h: "tc_clerks ?st' = Some cs'" "d \<in> set cs'" "(x, n) \<in> ends_of ?st' d"
      then have d: "d \<in> set cs" "d \<noteq> c" "(x, n) \<in> ends_of st d" by auto
      have "n \<notin> set ?ns" using D(3) [OF d(3), of _ c] d(2) by fastforce
      then show "net_ends (tc_net ?st') n \<noteq> None \<and> connections (tc_net ?st') n = Some (Some x)"
        using D(7) [OF cs(1) d(1,3)] by simp
    qed (use D(3,5) D(6) [OF cs(1)] in \<open>auto simp: distinct_removeAll\<close>)
  qed
  moreover have "is_enabled n ?rn" if "is_enabled n ?rn'" for n
    using that by (simp add: is_enabled_def split: if_splits)
  ultimately show ?thesis by auto
qed

lemma remove_all_ok:
  assumes "clnts_ok rnd st" "tc_clerks st = Some cs"
  shows "\<exists>st'. remove_all cs st = Some st' \<and> clnts_ok rnd (st'\<lparr>tc_clerks := None\<rparr>) \<and> st' = st\<lparr>tc_net := tc_net st'\<rparr> \<and>
    (\<forall>n. is_enabled n (tc_net st') \<longrightarrow> is_enabled n (tc_net st))"
proof -
  have "\<exists>st'. remove_all cs' st = Some st' \<and> clnts_ok rnd (st'\<lparr>tc_clerks := Some rest\<rparr>) \<and> st' = st\<lparr>tc_net := tc_net st'\<rparr> \<and>
      (\<forall>n. is_enabled n (tc_net st') \<longrightarrow> is_enabled n (tc_net st))"
    if "clnts_ok rnd (st\<lparr>tc_clerks := Some (cs' @ rest)\<rparr>)" for cs' rest st
    using that
  proof (induction cs' arbitrary: st)
    case Nil
    then show ?case by simp
  next
    case (Cons c cs')
    let ?st = "st\<lparr>tc_clerks := Some ((c # cs') @ rest)\<rparr>"
    have dist: "c \<notin> set (cs' @ rest)" using clnts_okD(6) [OF Cons.prems, of "(c # cs') @ rest"] by simp
    obtain st1 where st1: "clnt_remove c ?st = Some st1" "st1 = ?st\<lparr>tc_net := tc_net st1\<rparr>"
      "clnts_ok rnd (st1\<lparr>tc_clerks := Some (removeAll c ((c # cs') @ rest))\<rparr>)"
      "\<forall>n. is_enabled n (tc_net st1) \<longrightarrow> is_enabled n (tc_net ?st)"
      using clnt_remove_ok [OF Cons.prems, of "(c # cs') @ rest" c] by auto
    let ?st1 = "st\<lparr>tc_net := tc_net st1\<rparr>"
    have "clnt_remove c st = Some ?st1" using st1(1,2) by (auto simp: clnt_remove_def split: Option.bind_splits)
    moreover have "clnts_ok rnd (?st1\<lparr>tc_clerks := Some (cs' @ rest)\<rparr>)"
      using st1(3) dist by (rule_tac clnts_ok_switch [OF st1(3)]) (subst st1(2), simp)+
    ultimately show ?case using Cons.IH [of ?st1] st1(4) by auto
  qed
  from this [of cs "[]" st] assms show ?thesis
    by (auto simp: clnts_ok_def)
qed

lemma DeleteClient_ok:
  assumes ok: "clnts_ok rnd st"
  shows "\<exists>st'. DeleteClient c st = Some st' \<and> clnts_ok rnd st' \<and> tc_next st' = tc_next st \<and>
    tc_heap st' = tc_heap st \<and> (\<forall>n. is_enabled n (tc_net st') \<longrightarrow> is_enabled n (tc_net st))"
proof (cases "\<exists>cs. tc_clerks st = Some cs \<and> c \<in> set cs")
  case True
  then obtain cs where cs: "tc_clerks st = Some cs" "c \<in> set cs" by blast
  obtain st1 where st1: "clnt_remove c st = Some st1" "st1 = st\<lparr>tc_net := tc_net st1\<rparr>"
    "clnts_ok rnd (st1\<lparr>tc_clerks := Some (removeAll c cs)\<rparr>)"
    "\<forall>n. is_enabled n (tc_net st1) \<longrightarrow> is_enabled n (tc_net st)" using clnt_remove_ok [OF ok cs] by blast
  have "tc_next st1 = tc_next st \<and> tc_heap st1 = tc_heap st" by (subst (1 2) st1(2)) simp
  then show ?thesis using st1(1,3,4) cs by (simp add: DeleteClient_def)
next
  case False
  then show ?thesis using ok by (auto simp: DeleteClient_def split: option.split)
qed

lemma clnts_cleanup_ok:
  assumes ok: "clnts_ok rnd st"
  shows "\<exists>st'. clnts_cleanup st = Some st' \<and> clnts_ok rnd st' \<and> tc_next st' = tc_next st \<and>
    tc_heap st' = tc_heap st \<and> (\<forall>n. is_enabled n (tc_net st') \<longrightarrow> is_enabled n (tc_net st))"
proof (cases "tc_clerks st")
  case None
  then have "clnts_ok rnd (st\<lparr>tc_clerks := None\<rparr>)" by (intro clnts_ok_switch [OF ok]) simp_all
  then show ?thesis using None by (simp add: clnts_cleanup_def)
next
  case (Some cs)
  obtain st1 where st1: "remove_all cs st = Some st1" "st1 = st\<lparr>tc_net := tc_net st1\<rparr>"
    "clnts_ok rnd (st1\<lparr>tc_clerks := None\<rparr>)"
    "\<forall>n. is_enabled n (tc_net st1) \<longrightarrow> is_enabled n (tc_net st)" using remove_all_ok [OF ok Some] by blast
  have "tc_next st1 = tc_next st \<and> tc_heap st1 = tc_heap st" by (subst (1 2) st1(2)) simp
  then show ?thesis using st1(1,3,4) Some by (simp add: clnts_cleanup_def)
qed

lemma clnts_do_ok:
  assumes ok: "clnts_ok rnd st" and inj: "inj rnd" and r: "clnts_do rnd op st = Some st'"
  shows "clnts_ok rnd st'" and "tc_next st \<le> tc_next st'"
proof -
  have "clnts_ok rnd st' \<and> tc_next st \<le> tc_next st'"
  proof (cases op)
    case (OpMakeClientTo srvs)
    then obtain c where "MakeClientTo srvs st = Some (c, st')" using r by auto
    then show ?thesis using clnts_ok_MakeClientTo [OF ok] by (auto simp: MakeClientTo_def Let_def split: Option.bind_splits)
  next
    case (OpCall c server)
    then show ?thesis using r clnts_ok_makeEnd [OF ok inj] by auto
  next
    case (OpConnectAll c)
    then show ?thesis using r ok by (auto simp: clnt_ConnectAll_def fold_enable intro: clnts_ok_switch)
  next
    case (OpConnectTo c srvs)
    then show ?thesis using r ok by (auto simp: clnt_ConnectTo_def Let_def fold_enable_if intro: clnts_ok_switch)
  next
    case (OpDisconnect c srv)
    then show ?thesis using r ok by (auto simp: clnt_Disconnect_def fold_enable_if intro: clnts_ok_switch)
  next
    case (OpDisconnectAll c)
    then show ?thesis using r ok by (auto simp: clnt_DisconnectAll_def fold_enable intro: clnts_ok_switch)
  next
    case (OpDeleteClient c)
    then show ?thesis using r DeleteClient_ok [OF ok, of c] by auto
  next
    case (OpMakeEnd server)
    then show ?thesis using r clnts_ok_Clnts_makeEnd [OF ok inj, of server] by auto
  next
    case OpCleanup
    then show ?thesis using r clnts_cleanup_ok [OF ok] by auto
  qed (use r ok in \<open>auto simp: AddServer_def DeleteServer_def Reliable_def intro: clnts_ok_switch\<close>)
  then show "clnts_ok rnd st'" "tc_next st \<le> tc_next st'" by blast+
qed

lemma clnts_run_ok:
  "clnts_ok rnd st \<Longrightarrow> inj rnd \<Longrightarrow> clnts_run rnd ops st = Some st' \<Longrightarrow> clnts_ok rnd st' \<and> tc_next st \<le> tc_next st'"
proof (induction ops arbitrary: st)
  case (Cons op ops)
  then obtain st1 where "clnts_do rnd op st = Some st1" "clnts_run rnd ops st1 = Some st'"
    by (auto split: Option.bind_splits)
  then show ?case using clnts_do_ok [OF Cons.prems(1,2)] Cons.IH [of st1] Cons.prems(2) by fastforce
qed simp

section \<open>Which servers a client reaches\<close>

text \<open>Client \<open>c\<close> is limited to the servers in \<open>S\<close>: its list allows no other, and no end to another is enabled.\<close>

definition limited :: "string set \<Rightarrow> nat \<Rightarrow> tclnts \<Rightarrow> bool" where
  "limited S c st \<longleftrightarrow> c < tc_next st \<and> (\<exists>T. cl_srvs (tc_heap st c) = Some T \<and> set T \<subseteq> S) \<and>
     (\<forall>(x, n)\<in>ends_of st c. is_enabled n (tc_net st) \<longrightarrow> x \<in> S)"

definition keeps_limit :: "nat \<Rightarrow> string set \<Rightarrow> clnts_op \<Rightarrow> bool" where
  "keeps_limit c S op = (case op of
     OpConnectAll d \<Rightarrow> d \<noteq> c
   | OpConnectTo d srvs \<Rightarrow> d = c \<longrightarrow> (case srvs of None \<Rightarrow> False | Some T \<Rightarrow> set T \<subseteq> S)
   | _ \<Rightarrow> True)"

lemma limited_DisconnectAll: "c < tc_next st \<Longrightarrow> limited S c (clnt_DisconnectAll c st)"
  by (force simp: limited_def clnt_DisconnectAll_def fold_enable is_enabled_def)

text \<open>Ends of other clients being enabled does not matter to it.\<close>

lemma limited_mono:
  assumes "limited S c st" "tc_next st \<le> tc_next st'" "tc_heap st' c = tc_heap st c"
    "\<And>x n. (x, n) \<in> ends_of st c \<Longrightarrow> is_enabled n (tc_net st') \<Longrightarrow> is_enabled n (tc_net st)"
  shows "limited S c st'"
  using assms by (auto simp: limited_def)

lemma limited_step:
  assumes ok: "clnts_ok rnd st" and inj: "inj rnd" and r: "clnts_do rnd op st = Some st'"
    and keep: "keeps_limit c S op" and lim: "limited S c st"
  shows "limited S c st'"
proof -
  have other: "n \<notin> snd ` ends_of st d" if "(x, n) \<in> ends_of st c" "d \<noteq> c" for x n d
    using clnts_okD(3) [OF ok that(1), of _ d] that(2) by force
  have fresh: "(x, rnd (tc_rand st)) \<notin> ends_of st d" for x d by (rule fresh_name(2) [OF ok inj])
  show ?thesis
  proof (cases op)
    case (OpMakeClientTo srvs)
    then show ?thesis using r lim
      by (intro limited_mono [OF lim]) (auto simp: MakeClientTo_def Let_def limited_def split: Option.bind_splits)
  next
    case (OpCall d server)
    then obtain name where call: "clnt_makeEnd rnd d server st = Some (name, st')" using r by auto
    show ?thesis
    proof (rule clnt_makeEnd_cases [OF ok inj, of d server])
      fix n assume "clnt_makeEnd rnd d server st = Some (n, st)"
      then show ?thesis using call lim by simp
    next
      assume "clnt_makeEnd rnd d server st = Some (rnd (tc_rand st), st\<lparr>
        tc_net := end_added (rnd (tc_rand st)) server (allowedL (tc_heap st d) server) (tc_net st),
        tc_rand := tc_rand st + 1,
        tc_heap := (tc_heap st)(d := (tc_heap st d)\<lparr>cl_ends := (server, rnd (tc_rand st)) # cl_ends (tc_heap st d)\<rparr>)\<rparr>)"
      then have st': "st' = st\<lparr>
        tc_net := end_added (rnd (tc_rand st)) server (allowedL (tc_heap st d) server) (tc_net st),
        tc_rand := tc_rand st + 1,
        tc_heap := (tc_heap st)(d := (tc_heap st d)\<lparr>cl_ends := (server, rnd (tc_rand st)) # cl_ends (tc_heap st d)\<rparr>)\<rparr>"
        using call by simp
      show ?thesis using lim fresh
        by (auto simp: st' limited_def is_enabled_def allowedL_def)
    qed
  next
    case (OpConnectAll d)
    then show ?thesis using r keep other
      by (intro limited_mono [OF lim]) (auto simp: clnt_ConnectAll_def fold_enable is_enabled_def keeps_limit_def)
  next
    case (OpConnectTo d srvs)
    show ?thesis
    proof (cases "d = c")
      case True
      then obtain T where T: "srvs = Some T" "set T \<subseteq> S"
        using keep OpConnectTo by (auto simp: keeps_limit_def split: option.splits)
      have "x \<in> S" if "(x, n) \<in> ends_of st c" "is_enabled n (tc_net st')" for x n
      proof (cases "\<exists>y. (y, n) \<in> ends_of st c \<and> y \<in> set T")
        case True
        then show ?thesis using clnts_okD(3) [OF ok that(1)] T(2) by blast
      next
        case False
        then have "is_enabled n (tc_net st)" using that(2) r OpConnectTo \<open>d = c\<close> T(1)
          by (auto simp: clnt_ConnectTo_def Let_def fold_enable_if is_enabled_def allowedL_def split: if_splits)
        then show ?thesis using lim that(1) by (auto simp: limited_def)
      qed
      then show ?thesis using r lim OpConnectTo True T
        by (auto simp: clnt_ConnectTo_def Let_def limited_def)
    next
      case False
      then show ?thesis using r other OpConnectTo
        by (intro limited_mono [OF lim])
          (force simp: clnt_ConnectTo_def Let_def fold_enable_if is_enabled_def split: if_splits)+
    qed
  next
    case (OpDisconnect d srv)
    then show ?thesis using r
      by (intro limited_mono [OF lim]) (auto simp: clnt_Disconnect_def fold_enable_if is_enabled_def split: if_splits)
  next
    case (OpDisconnectAll d)
    show ?thesis
    proof (cases "d = c")
      case True
      have "c < tc_next st" using lim by (simp add: limited_def)
      then show ?thesis using limited_DisconnectAll [of c st S] r OpDisconnectAll True by simp
    next
      case False
      then show ?thesis using r OpDisconnectAll
        by (intro limited_mono [OF lim]) (auto simp: clnt_DisconnectAll_def fold_enable is_enabled_def split: if_splits)
    qed
  next
    case (OpDeleteClient d)
    then show ?thesis using r DeleteClient_ok [OF ok, of d] by (intro limited_mono [OF lim]) auto
  next
    case (OpMakeEnd server)
    then show ?thesis using r clnts_ok_Clnts_makeEnd [OF ok inj, of server] fresh
      by (intro limited_mono [OF lim]) (auto simp: is_enabled_def split: if_splits)
  next
    case OpCleanup
    then show ?thesis using r clnts_cleanup_ok [OF ok] by (intro limited_mono [OF lim]) auto
  qed (use r in \<open>auto intro!: limited_mono [OF lim] simp: AddServer_def DeleteServer_def Reliable_def is_enabled_def\<close>)
qed

lemma limited_run:
  "clnts_ok rnd st \<Longrightarrow> inj rnd \<Longrightarrow> limited S c st \<Longrightarrow> list_all (keeps_limit c S) ops \<Longrightarrow>
     clnts_run rnd ops st = Some st' \<Longrightarrow> limited S c st' \<and> clnts_ok rnd st'"
proof (induction ops arbitrary: st)
  case (Cons op ops)
  then obtain st1 where st1: "clnts_do rnd op st = Some st1" "clnts_run rnd ops st1 = Some st'"
    by (auto split: Option.bind_splits)
  then show ?case
    using Cons.IH [of st1] Cons.prems(2,4) clnts_do_ok(1) [OF Cons.prems(1,2) st1(1)]
      limited_step [OF Cons.prems(1,2) st1(1) _ Cons.prems(3)] by simp
qed simp

text \<open>What the network finds for a call on an end.\<close>

lemma lookup_Found_iff:
  "processReq_lookup req rn = Found nm p rel lr \<longleftrightarrow>
     is_enabled (rq_endname req) rn \<and> connections rn (rq_endname req) = Some (Some nm) \<and>
     server_of nm rn = Some p \<and> rel = reliable rn \<and> lr = longReordering rn"
  by (auto simp: processReq_lookup_def readEndnameInfo_def split: option.splits)

text \<open>
  C38 (a client reaches only the servers it is allowed to).  Whatever a test did before, once it has
  disconnected a client from all servers and then only allowed it servers in \<open>S\<close>, a call of that client
  to a server either finds no server or finds the very server it named, and that server is in \<open>S\<close>;
  other clients, new ends, deleted clients, and servers that come and go make no difference.
\<close>

theorem client_reaches_only_allowed:
  assumes "inj rnd" and "clnts_run rnd ops0 (makeClnts MakeNetwork) = Some st0" and "c < tc_next st0"
    and "clnts_run rnd (OpDisconnectAll c # ops) st0 = Some st" and "list_all (keeps_limit c S) ops"
    and "clnt_Call rnd c server method args st = Some (req, st')"
    and "processReq_lookup req (tc_net st') = Found nm p rel lr"
  shows "nm = server \<and> server \<in> S"
proof -
  have ok0: "clnts_ok rnd st0" using clnts_run_ok [OF clnts_ok_start assms(1,2)] by simp
  then have "clnts_ok rnd (clnt_DisconnectAll c st0)"
    using clnts_do_ok(1) [OF ok0 assms(1), of "OpDisconnectAll c"] by simp
  then have st: "limited S c st" "clnts_ok rnd st"
    using limited_run [OF _ assms(1) limited_DisconnectAll [OF assms(3)] assms(5)] assms(4) by simp_all
  obtain name where call: "clnt_makeEnd rnd c server st = Some (name, st')" "rq_endname req = name"
    using assms(6) by (auto simp: clnt_Call_def split: Option.bind_splits)
  note ok' = clnts_ok_makeEnd [OF st(2) assms(1) call(1)]
  have "limited S c st'"
    using limited_step [OF st(2) assms(1), of "OpCall c server" st'] call(1) st(1) by (simp add: keeps_limit_def)
  then show ?thesis
    using assms(7) clnts_okD(2) [OF ok'(1,2)] ok'(2) unfolding lookup_Found_iff call(2) by (auto simp: limited_def)
qed

text \<open>A client of the test that has been connected to all servers finds every server there is.\<close>

theorem connected_client_reaches_all:
  assumes "inj rnd" and "clnts_run rnd ops (makeClnts MakeNetwork) = Some st"
    and "tc_clerks st = Some cs" and "c \<in> set cs" and "server_of server (tc_net st) = Some p"
    and "clnt_Call rnd c server method args (clnt_ConnectAll c st) = Some (req, st')"
  shows "\<exists>rel lr. processReq_lookup req (tc_net st') = Found server p rel lr"
proof -
  have ok: "clnts_ok rnd st" using clnts_run_ok [OF clnts_ok_start assms(1,2)] by simp
  let ?st = "clnt_ConnectAll c st"
  have ok1: "clnts_ok rnd ?st" using clnts_do_ok(1) [OF ok assms(1), of "OpConnectAll c"] by simp
  have all: "is_enabled n (tc_net ?st)" if "(x, n) \<in> ends_of ?st c" for x n
    using that by (auto simp: clnt_ConnectAll_def fold_enable is_enabled_def image_iff)
  have srv: "server_of server (tc_net ?st) = Some p" "cl_srvs (tc_heap ?st c) = None" "tc_clerks ?st = Some cs"
    using assms(3,5) by (simp_all add: clnt_ConnectAll_def fold_enable server_of_def)
  obtain name where call: "clnt_makeEnd rnd c server ?st = Some (name, st')" "rq_endname req = name"
    using assms(6) by (auto simp: clnt_Call_def split: Option.bind_splits)
  note ok' = clnts_ok_makeEnd [OF ok1 assms(1) call(1)]
  have "connections (tc_net st') name = Some (Some server)"
    using clnts_okD(7) [OF ok'(1) _ assms(4) ok'(2)] ok'(4) srv(3) by simp
  moreover have "is_enabled name (tc_net st') \<and> server_of server (tc_net st') = Some p"
    by (rule clnt_makeEnd_cases [OF ok1 assms(1), of c server])
      (use call(1) all srv in \<open>auto simp: is_enabled_def allowedL_def server_of_def\<close>)
  ultimately show ?thesis by (simp add: lookup_Found_iff call(2))
qed

text \<open>Nothing a test does is fatal, but making a client after the clean-up.\<close>

theorem clnts_never_fatal:
  assumes "inj rnd" and "clnts_run rnd ops (makeClnts MakeNetwork) = Some st"
    and "\<And>srvs. op = OpMakeClientTo srvs \<Longrightarrow> tc_clerks st \<noteq> None"
  shows "\<exists>st'. clnts_do rnd op st = Some st'"
proof -
  have ok: "clnts_ok rnd st" using clnts_run_ok [OF clnts_ok_start assms(1,2)] by simp
  show ?thesis
  proof (cases op)
    case (OpMakeClientTo srvs)
    then show ?thesis using assms(3) by (auto simp: MakeClientTo_def Let_def)
  next
    case (OpCall c server)
    then show ?thesis by (rule_tac clnt_makeEnd_cases [OF ok assms(1), of c server]) auto
  next
    case (OpDeleteClient c)
    then show ?thesis using DeleteClient_ok [OF ok, of c] by auto
  next
    case (OpMakeEnd server)
    then show ?thesis using clnts_ok_Clnts_makeEnd [OF ok assms(1), of server] by auto
  next
    case OpCleanup
    then show ?thesis using clnts_cleanup_ok [OF ok] by auto
  qed simp_all
qed

lemma inj_itoa: "inj itoa"
  by (rule inj_on_inverseI [of _ atoi]) simp

text \<open>The client has used both servers, is cut off, and is then allowed the second one.\<close>

theorem client_reaches_only_allowed_witness:
  "\<exists>st0 st req st' p rel lr.
     clnts_run itoa [OpAddServer ''a'' 0, OpAddServer ''b'' 1, OpMakeClientTo None, OpCall 0 ''a'', OpCall 0 ''b'']
       (makeClnts MakeNetwork) = Some st0 \<and>
     clnts_run itoa [OpDisconnectAll 0, OpConnectTo 0 (Some [''b''])] st0 = Some st \<and>
     clnt_Call itoa 0 ''b'' ''KV.Get'' () st = Some (req, st') \<and>
     processReq_lookup req (tc_net st') = (Found ''b'' p rel lr :: (string, unit) call_pc) \<and> ''b'' \<in> {''b''}"
proof -
  have digits: "char_of (48 :: nat) = CHR ''0''" "char_of (49 :: nat) = CHR ''1''" by code_simp+
  let ?ops0 = "[OpAddServer ''a'' 0, OpAddServer ''b'' 1, OpMakeClientTo None, OpCall 0 ''a'', OpCall 0 ''b'']"
  obtain st0 where st0: "clnts_run itoa ?ops0 (makeClnts MakeNetwork) = Some st0"
    "tc_heap st0 0 = \<lparr>cl_ends = [(''b'', ''1''), (''a'', ''0'')], cl_srvs = None\<rparr>" "tc_next st0 = 1"
    "connections (tc_net st0) ''1'' = Some (Some ''b'')" "server_of ''b'' (tc_net st0) = Some 1"
    by (simp add: makeClnts_def MakeNetwork_def MakeClientTo_def makeClntTo_def clnt_makeEnd_def MakeEnd_def
        Enable_def Connect_def AddServer_def allowedL_def server_of_def Let_def itoa.simps digits)
  let ?st1 = "clnt_ConnectTo 0 (Some [''b'']) (clnt_DisconnectAll 0 st0)"
  have st1: "clnts_run itoa [OpDisconnectAll 0, OpConnectTo 0 (Some [''b''])] st0 = Some ?st1" by simp
  let ?req = "\<lparr>rq_endname = ''1'', rq_svcMeth = ''KV.Get'', rq_args = ()\<rparr>"
  have call: "clnt_Call itoa 0 ''b'' ''KV.Get'' () ?st1 = Some (?req, ?st1)"
    by (simp add: clnt_Call_def clnt_makeEnd_def clnt_ConnectTo_def clnt_DisconnectAll_def st0 Let_def)
  have found: "\<exists>rel lr. processReq_lookup ?req (tc_net ?st1) = (Found ''b'' 1 rel lr :: (string, unit) call_pc)"
    using st0 by (simp add: lookup_Found_iff clnt_ConnectTo_def clnt_DisconnectAll_def Let_def is_enabled_def
        allowedL_def Enable_def server_of_def)
  then obtain rel lr where f: "processReq_lookup ?req (tc_net ?st1) = (Found ''b'' 1 rel lr :: (string, unit) call_pc)" by blast
  have "''b'' = ''b'' \<and> ''b'' \<in> {''b''}"
    by (rule client_reaches_only_allowed [OF inj_itoa st0(1) _ st1 _ call f])
      (simp_all add: st0(3) keeps_limit_def)
  then show ?thesis using st0(1) st1 call f by blast
qed

text \<open>
  \<open>ConnectTo\<close> alone does not disconnect: an end made before stays enabled, so the client still
  reaches a server that is not in its new list.
\<close>

theorem ConnectTo_keeps_old_ends:
  "\<exists>st req st'. clnts_run itoa [OpAddServer ''a'' 0, OpMakeClientTo None, OpCall 0 ''a'', OpConnectTo 0 (Some [''b''])]
       (makeClnts MakeNetwork) = Some st \<and> \<not> allowedL (tc_heap st 0) ''a'' \<and>
     clnt_Call itoa 0 ''a'' ''KV.Get'' () st = Some (req, st') \<and>
     processReq_lookup req (tc_net st') = Found ''a'' 0 True False"
  by (simp add: makeClnts_def MakeNetwork_def MakeClientTo_def makeClntTo_def clnt_makeEnd_def MakeEnd_def
      Enable_def Connect_def AddServer_def allowedL_def server_of_def Let_def itoa.simps clnt_ConnectTo_def
      clnt_Call_def lookup_Found_iff is_enabled_def)

end
