(* ===== verification/KvClients.thy ===== *)
theory KvClients
  imports KvClerk
begin

text \<open>
  Any number of clients of the tests (\<open>kvtest1/kvtest.go\<close>, \<open>runClient\<close> and \<open>SpawnClientsAndWait\<close>)
  against one key/value server over a network that may lose, delay and repeat requests.  A client
  is a program over its own state: what it does next, and how it goes on with the answer; the
  calls of \<open>Clerk.Get\<close> and \<open>Clerk.Put\<close> are those of \<open>kvsrv1/client.go\<close>, one RPC per step.

  The locale \<open>kv_clients\<close> asks one thing of a program: that it only puts with version 0 or with a
  version it got.  Then what the clerks answer a client bounds how many of its puts succeeded.
\<close>

datatype action = ActGet string | ActPut PutArgs | ActChoose | ActStop

record 'p client_prog =
  p_next :: "'p \<Rightarrow> action"
  p_got :: "'p \<Rightarrow> GetReply \<Rightarrow> 'p option"
  p_put :: "'p \<Rightarrow> Err \<Rightarrow> 'p option"
  p_choose :: "'p \<Rightarrow> 'p \<Rightarrow> bool"

text \<open>
  \<open>ks_call\<close> is a client's \<open>Put\<close> in progress with its \<open>firstCall\<close>, \<open>ks_sent\<close> the requests that are
  still on the way.  The history \<open>ks_hist\<close> of successful puts (\<open>None\<close> for the test's own set-up) and
  the counts of what the clerks answered are ghosts.
\<close>

record 'p kvsys =
  ks_srv :: KVServer
  ks_prog :: "nat \<Rightarrow> 'p"
  ks_call :: "nat \<Rightarrow> (PutArgs \<times> bool) option"
  ks_sent :: "(nat \<times> PutArgs) set"
  ks_failed :: bool
  ks_hist :: "(nat option \<times> PutArgs) list"
  ks_oks :: "nat \<Rightarrow> nat"
  ks_maybes :: "nat \<Rightarrow> nat"

text \<open>The client goes on, or the test has failed.\<close>

definition go_on :: "nat \<Rightarrow> 'p option \<Rightarrow> 'p kvsys \<Rightarrow> 'p kvsys" where
  "go_on c p s = (case p of
     Some p \<Rightarrow> s\<lparr>ks_prog := (ks_prog s)(c := p)\<rparr>
   | None \<Rightarrow> s\<lparr>ks_failed := True\<rparr>)"

text \<open>The server executes a put of client \<open>c\<close>.\<close>

definition exec_put :: "nat \<Rightarrow> PutArgs \<Rightarrow> 'p kvsys \<Rightarrow> 'p kvsys \<times> Err" where
  "exec_put c a s =
     (let (srv, r) = KVServer_Put (ks_srv s) a
      in (s\<lparr>ks_srv := srv,
            ks_hist := (if pr_Err r = OK then ks_hist s @ [(Some c, a)] else ks_hist s)\<rparr>, pr_Err r))"

definition count_answer :: "nat \<Rightarrow> Err \<Rightarrow> 'p kvsys \<Rightarrow> 'p kvsys" where
  "count_answer c err s = s\<lparr>
     ks_oks := (ks_oks s)(c := ks_oks s c + (if err = OK then 1 else 0)),
     ks_maybes := (ks_maybes s)(c := ks_maybes s c + (if err = ErrMaybe then 1 else 0))\<rparr>"

text \<open>What a client's calls show of a step: a \<open>Get\<close> with its reply, a \<open>Put\<close> that begins or returns.\<close>

datatype event = EvNone | EvGet nat string GetReply | EvCall nat PutArgs | EvRet nat PutArgs Err

inductive kv_step :: "'p client_prog \<Rightarrow> bool \<Rightarrow> 'p kvsys \<Rightarrow> event \<Rightarrow> 'p kvsys \<Rightarrow> bool"
  for P :: "'p client_prog" and lossy :: bool where
  ks_choose: "ks_call s c = None \<Longrightarrow> p_next P (ks_prog s c) = ActChoose \<Longrightarrow>
     p_choose P (ks_prog s c) p \<Longrightarrow> kv_step P lossy s EvNone (go_on c (Some p) s)"
| ks_get: "ks_call s c = None \<Longrightarrow> p_next P (ks_prog s c) = ActGet k \<Longrightarrow>
     r = KVServer_Get (ks_srv s) \<lparr>ga_Key = k\<rparr> \<Longrightarrow>
     kv_step P lossy s (EvGet c k r) (go_on c (p_got P (ks_prog s c) r) s)"
| ks_start: "ks_call s c = None \<Longrightarrow> p_next P (ks_prog s c) = ActPut a \<Longrightarrow>
     kv_step P lossy s (EvCall c a) (s\<lparr>ks_call := (ks_call s)(c \<mapsto> (a, True))\<rparr>)"
| ks_reply: "ks_call s c = Some (a, first) \<Longrightarrow> exec_put c a s = (s1, err) \<Longrightarrow>
     kv_step P lossy s (EvRet c a (put_result first err))
       (go_on c (p_put P (ks_prog s c) (put_result first err))
         (count_answer c (put_result first err) (s1\<lparr>ks_call := (ks_call s1)(c := None)\<rparr>)))"
| ks_reply_lost: "lossy \<Longrightarrow> ks_call s c = Some (a, first) \<Longrightarrow> exec_put c a s = (s1, err) \<Longrightarrow>
     kv_step P lossy s EvNone (s1\<lparr>ks_call := (ks_call s1)(c \<mapsto> (a, False))\<rparr>)"
| ks_request_lost: "lossy \<Longrightarrow> ks_call s c = Some (a, first) \<Longrightarrow>
     kv_step P lossy s EvNone
       (s\<lparr>ks_call := (ks_call s)(c \<mapsto> (a, False)), ks_sent := insert (c, a) (ks_sent s)\<rparr>)"
| ks_late: "(c, a) \<in> ks_sent s \<Longrightarrow> exec_put c a s = (s1, err) \<Longrightarrow> kv_step P lossy s EvNone s1"

section \<open>The history of a key\<close>

definition on_key :: "string \<Rightarrow> (nat option \<times> PutArgs) list \<Rightarrow> (nat option \<times> PutArgs) list" where
  "on_key k H = filter (\<lambda>x. pa_Key (snd x) = k) H"

definition of_client :: "nat option \<Rightarrow> (nat option \<times> PutArgs) list \<Rightarrow> (nat option \<times> PutArgs) list" where
  "of_client c H = filter (\<lambda>x. fst x = c) H"

definition nputs :: "string \<Rightarrow> (nat option \<times> PutArgs) list \<Rightarrow> nat" where
  "nputs k H = length (on_key k H)"

text \<open>The server's table is what the history says; the \<open>j\<close>-th success on a key had version \<open>j\<close>.\<close>

definition hist_ok :: "KVServer \<Rightarrow> (nat option \<times> PutArgs) list \<Rightarrow> bool" where
  "hist_ok srv H \<longleftrightarrow> (\<forall>k.
     kv_abs srv k = (if on_key k H = [] then None
                     else Some (pa_Value (snd (last (on_key k H))), of_nat (nputs k H))) \<and>
     (\<forall>j<nputs k H. pa_Version (snd (on_key k H ! j)) = of_nat j))"

definition kv_start :: "'p kvsys \<Rightarrow> bool" where
  "kv_start s \<longleftrightarrow> hist_ok (ks_srv s) (ks_hist s) \<and> fst ` set (ks_hist s) \<subseteq> {None} \<and>
     ks_call s = (\<lambda>_. None) \<and> ks_sent s = {} \<and> \<not> ks_failed s \<and> ks_oks s = (\<lambda>_. 0) \<and> ks_maybes s = (\<lambda>_. 0)"

definition kv_reach :: "'p client_prog \<Rightarrow> bool \<Rightarrow> 'p kvsys \<Rightarrow> 'p kvsys \<Rightarrow> bool" where
  "kv_reach P lossy s0 s \<longleftrightarrow> kv_start s0 \<and> (\<lambda>s s'. \<exists>ev. kv_step P lossy s ev s')\<^sup>*\<^sup>* s0 s"

lemma nputs_append: "nputs k (H @ [(c, a)]) = nputs k H + (if pa_Key a = k then 1 else 0)"
  by (simp add: nputs_def on_key_def)

lemma nputs_le: "nputs k H \<le> length H"
  by (simp add: nputs_def on_key_def)

lemma hist_ok_version: "hist_ok srv H \<Longrightarrow> current_version (kv_abs srv) k = of_nat (nputs k H)"
  by (simp add: hist_ok_def current_version_def nputs_def)

lemma hist_ok_missing: "hist_ok srv H \<Longrightarrow> kv_abs srv k = None \<longleftrightarrow> nputs k H = 0"
  by (simp add: hist_ok_def nputs_def)

lemma nputs_mono: "nputs k H \<le> nputs k (H @ [x])"
  using nputs_append [of k H "fst x" "snd x"] by simp

lemma exec_frame:
  assumes "exec_put c a s = (s1, err)"
  shows "ks_prog s1 = ks_prog s" "ks_call s1 = ks_call s" "ks_sent s1 = ks_sent s"
    "ks_failed s1 = ks_failed s" "ks_oks s1 = ks_oks s" "ks_maybes s1 = ks_maybes s"
    "nputs k (ks_hist s) \<le> nputs k (ks_hist s1)" "length (ks_hist s) \<le> length (ks_hist s1)"
  using assms nputs_mono [of k "ks_hist s"] by (auto simp: exec_put_def split: prod.splits if_splits)

text \<open>The execution of a put: it is added to the history when it succeeds.\<close>

lemma exec_put_cases:
  assumes "exec_put c a s = (s1, err)" "hist_ok (ks_srv s) (ks_hist s)"
  obtains (success) "err = OK" "pa_Version a = of_nat (nputs (pa_Key a) (ks_hist s))"
      "ks_hist s1 = ks_hist s @ [(Some c, a)]"
      "hist_ok (ks_srv s1) (ks_hist s @ [(Some c, a)])"
  | (refused) "err \<in> {ErrVersion, ErrNoKey}" "pa_Version a \<noteq> of_nat (nputs (pa_Key a) (ks_hist s))"
      "err = ErrNoKey \<longleftrightarrow> nputs (pa_Key a) (ks_hist s) = 0"
      "ks_hist s1 = ks_hist s" "hist_ok (ks_srv s1) (ks_hist s)"
proof -
  let ?m = "kv_abs (ks_srv s)" and ?H = "ks_hist s"
  obtain srv r where r: "KVServer_Put (ks_srv s) a = (srv, r)" by (cases "KVServer_Put (ks_srv s) a")
  have s1: "s1 = s\<lparr>ks_srv := srv, ks_hist := (if pr_Err r = OK then ?H @ [(Some c, a)] else ?H)\<rparr>"
    "err = pr_Err r"
    using assms(1) by (auto simp: exec_put_def r)
  have err: "pr_Err r = snd (spec_put ?m a)" "kv_abs srv = fst (spec_put ?m a)"
    using KVServer_Put_abs [of "ks_srv s" a] by (simp_all add: r)
  note cv = hist_ok_version [OF assms(2), of "pa_Key a"]
  show thesis
  proof (cases "pa_Version a = of_nat (nputs (pa_Key a) ?H)")
    case True
    then have 1: "pr_Err r = OK" "kv_abs srv = ?m(pa_Key a \<mapsto> (pa_Value a, pa_Version a + 1))"
      using cv by (simp_all add: err spec_put_def)
    have "hist_ok srv (?H @ [(Some c, a)])"
      unfolding hist_ok_def
    proof (intro allI conjI impI)
      fix k j
      show "kv_abs srv k = (if on_key k (?H @ [(Some c, a)]) = [] then None
          else Some (pa_Value (snd (last (on_key k (?H @ [(Some c, a)])))),
                     of_nat (nputs k (?H @ [(Some c, a)]))))"
        using assms(2) True by (auto simp: 1(2) hist_ok_def on_key_def nputs_append nputs_def)
      assume "j < nputs k (?H @ [(Some c, a)])"
      then show "pa_Version (snd (on_key k (?H @ [(Some c, a)]) ! j)) = of_nat j"
        using assms(2) True by (auto simp: hist_ok_def on_key_def nputs_def nth_append less_Suc_eq)
    qed
    then show ?thesis using success 1 True s1 by simp
  next
    case False
    then have 1: "pr_Err r \<noteq> OK" "kv_abs srv = ?m" "pr_Err r = (if ?m (pa_Key a) = None then ErrNoKey else ErrVersion)"
      using cv by (simp_all add: err spec_put_def)
    moreover have "hist_ok srv ?H" using assms(2) by (simp add: hist_ok_def 1(2))
    ultimately show ?thesis
      using refused False s1 hist_ok_missing [OF assms(2), of "pa_Key a"] by auto
  qed
qed

section \<open>What the clerks' answers say\<close>

text \<open>A put that a client is repeating may have succeeded when its version is no longer current.\<close>

definition pend :: "(PutArgs \<times> bool) option \<Rightarrow> (nat option \<times> PutArgs) list \<Rightarrow> nat" where
  "pend call H = (case call of
     Some (a, False) \<Rightarrow> if unat (pa_Version a) < nputs (pa_Key a) H then 1 else 0
   | _ \<Rightarrow> 0)"

definition version_known :: "PutArgs \<Rightarrow> (nat option \<times> PutArgs) list \<Rightarrow> bool" where
  "version_known a H \<longleftrightarrow> unat (pa_Version a) \<le> nputs (pa_Key a) H"

definition answers_ok :: "'p kvsys \<Rightarrow> bool" where
  "answers_ok s \<longleftrightarrow> hist_ok (ks_srv s) (ks_hist s) \<and>
     (\<forall>c a f. ks_call s c = Some (a, f) \<longrightarrow> version_known a (ks_hist s)) \<and>
     (\<forall>c a. (c, a) \<in> ks_sent s \<longrightarrow>
        unat (pa_Version a) < nputs (pa_Key a) (ks_hist s) \<or> ks_call s c = Some (a, False)) \<and>
     (\<forall>c. ks_oks s c \<le> length (of_client (Some c) (ks_hist s)) \<and>
        length (of_client (Some c) (ks_hist s)) \<le> ks_oks s c + ks_maybes s c + pend (ks_call s c) (ks_hist s))"

lemma answers_okD:
  assumes "answers_ok s"
  shows "hist_ok (ks_srv s) (ks_hist s)"
    "\<And>c a f. ks_call s c = Some (a, f) \<Longrightarrow> version_known a (ks_hist s)"
    "\<And>c a. (c, a) \<in> ks_sent s \<Longrightarrow>
       unat (pa_Version a) < nputs (pa_Key a) (ks_hist s) \<or> ks_call s c = Some (a, False)"
    "\<And>c. ks_oks s c \<le> length (of_client (Some c) (ks_hist s))"
    "\<And>c. length (of_client (Some c) (ks_hist s)) \<le> ks_oks s c + ks_maybes s c + pend (ks_call s c) (ks_hist s)"
  using assms by (auto simp: answers_ok_def)

lemma answers_okI:
  assumes "hist_ok (ks_srv s) (ks_hist s)"
    "\<And>c a f. ks_call s c = Some (a, f) \<Longrightarrow> version_known a (ks_hist s)"
    "\<And>c a. (c, a) \<in> ks_sent s \<Longrightarrow>
       unat (pa_Version a) < nputs (pa_Key a) (ks_hist s) \<or> ks_call s c = Some (a, False)"
    "\<And>c. ks_oks s c \<le> length (of_client (Some c) (ks_hist s))"
    "\<And>c. length (of_client (Some c) (ks_hist s)) \<le> ks_oks s c + ks_maybes s c + pend (ks_call s c) (ks_hist s)"
  shows "answers_ok s"
  using assms unfolding answers_ok_def by blast

lemma pend_mono: "nputs (pa_Key a) H \<le> nputs (pa_Key a) H' \<Longrightarrow> pend (Some (a, f)) H \<le> pend (Some (a, f)) H'"
  by (simp add: pend_def split: bool.split)

lemma pend_simps [simp]: "pend None H = 0" "pend (Some (a, True)) H = 0"
  by (simp_all add: pend_def)

lemma of_client_append: "of_client c (H @ [(d, a)]) = of_client c H @ (if d = c then [(d, a)] else [])"
  by (simp add: of_client_def)

lemma go_on_simps [simp]:
  "ks_srv (go_on c p s) = ks_srv s" "ks_call (go_on c p s) = ks_call s" "ks_sent (go_on c p s) = ks_sent s"
  "ks_hist (go_on c p s) = ks_hist s" "ks_oks (go_on c p s) = ks_oks s" "ks_maybes (go_on c p s) = ks_maybes s"
  by (simp_all add: go_on_def split: option.split)

lemma count_answer_simps [simp]:
  "ks_srv (count_answer c e s) = ks_srv s" "ks_call (count_answer c e s) = ks_call s"
  "ks_sent (count_answer c e s) = ks_sent s" "ks_hist (count_answer c e s) = ks_hist s"
  "ks_prog (count_answer c e s) = ks_prog s" "ks_failed (count_answer c e s) = ks_failed s"
  "ks_oks (count_answer c e s) = (ks_oks s)(c := ks_oks s c + (if e = OK then 1 else 0))"
  "ks_maybes (count_answer c e s) = (ks_maybes s)(c := ks_maybes s c + (if e = ErrMaybe then 1 else 0))"
  by (simp_all add: count_answer_def)

lemma answers_ok_go_on [simp]: "answers_ok (go_on c p s) = answers_ok s"
  by (simp add: answers_ok_def)

text \<open>The server executing a put whose version is known and which is being waited for or stale.\<close>

lemma version_known_append: "version_known a H \<Longrightarrow> version_known a (H @ [x])"
  using nputs_append [of "pa_Key a" H "fst x" "snd x"] by (simp add: version_known_def)

lemma answers_ok_exec:
  assumes ok: "answers_ok s" and ex: "exec_put c a s = (s1, err)"
    and call: "ks_call s c = Some (a, False) \<or> unat (pa_Version a) < nputs (pa_Key a) (ks_hist s)"
    and len: "length (ks_hist s1) < 2 ^ 64"
  shows "answers_ok s1"
proof (rule exec_put_cases [OF ex])
  show "hist_ok (ks_srv s) (ks_hist s)" using ok by (simp add: answers_ok_def)
next
  let ?H = "ks_hist s" and ?H' = "ks_hist s @ [(Some c, a)]"
  assume d: "pa_Version a = of_nat (nputs (pa_Key a) ?H)"
    "ks_hist s1 = ?H'" "hist_ok (ks_srv s1) ?H'"
  then have "nputs (pa_Key a) ?H < 2 ^ 64" using len nputs_le [of "pa_Key a" ?H] by simp
  then have u: "unat (pa_Version a) = nputs (pa_Key a) ?H" by (simp add: d(1) unat_of_nat64)
  then have call: "ks_call s c = Some (a, False)" using call by simp
  have counts: "ks_oks s x \<le> length (of_client (Some x) ?H') \<and>
      length (of_client (Some x) ?H') \<le> ks_oks s x + ks_maybes s x + pend (ks_call s x) ?H'" for x
  proof -
    have "ks_oks s x \<le> length (of_client (Some x) ?H)"
      "length (of_client (Some x) ?H) \<le> ks_oks s x + ks_maybes s x + pend (ks_call s x) ?H"
      using ok by (simp_all add: answers_ok_def)
    moreover have "pend (ks_call s c) ?H = 0" "pend (ks_call s c) ?H' = 1"
      using u by (simp_all add: call pend_def nputs_append)
    moreover have "pend (ks_call s x) ?H \<le> pend (ks_call s x) ?H'"
      by (cases "ks_call s x") (auto intro: pend_mono nputs_mono)
    ultimately show ?thesis by (cases "x = c") (auto simp: of_client_append)
  qed
  have sent: "unat (pa_Version b) < nputs (pa_Key b) ?H' \<or> ks_call s x = Some (b, False)"
    if "(x, b) \<in> ks_sent s" for x b
  proof -
    have "unat (pa_Version b) < nputs (pa_Key b) ?H \<or> ks_call s x = Some (b, False)"
      using ok that unfolding answers_ok_def by blast
    then show ?thesis using nputs_mono [of "pa_Key b" ?H "(Some c, a)"] by (auto intro: less_le_trans)
  qed
  have "version_known b ?H'" if "ks_call s x = Some (b, f)" for x b f
    by (rule version_known_append, rule answers_okD(2) [OF ok that])
  then show ?thesis
    by (intro answers_okI) (use d(3) counts sent in \<open>simp_all add: d(2) exec_frame [OF ex]\<close>)
next
  assume "ks_hist s1 = ks_hist s" "hist_ok (ks_srv s1) (ks_hist s)"
  then show ?thesis using ok by (simp add: answers_ok_def exec_frame [OF ex])
qed

text \<open>Whether it succeeds or not, after a put its version is no longer the current one.\<close>

lemma put_used:
  assumes "exec_put c a s = (s1, err)" "hist_ok (ks_srv s) (ks_hist s)" "version_known a (ks_hist s)"
    "length (ks_hist s1) < 2 ^ 64"
  shows "unat (pa_Version a) < nputs (pa_Key a) (ks_hist s1)"
proof -
  have small: "nputs (pa_Key a) (ks_hist s) < 2 ^ 64"
    using assms(4) nputs_le [of "pa_Key a" "ks_hist s"] exec_frame(8) [OF assms(1)] by linarith
  show ?thesis
    by (rule exec_put_cases [OF assms(1,2)])
      (use assms(3) small in \<open>auto simp: version_known_def unat_of_nat64 nputs_append word_unat_eq_iff\<close>)
qed

lemma kv_step_hist: "kv_step P lossy s ev s' \<Longrightarrow> length (ks_hist s) \<le> length (ks_hist s')"
  by (erule kv_step.cases) (auto simp: exec_frame)

locale kv_clients =
  fixes P :: "'p client_prog" and known :: "'p \<Rightarrow> string \<Rightarrow> Tversion set"
  assumes next_known: "p_next P p = ActPut a \<Longrightarrow> pa_Version a = 0 \<or> pa_Version a \<in> known p (pa_Key a)"
    and choose_known: "p_choose P p p' \<Longrightarrow> known p' k \<subseteq> known p k"
    and got_known: "p_next P p = ActGet k \<Longrightarrow> p_got P p r = Some p' \<Longrightarrow>
      known p' k' \<subseteq> known p k' \<union> (if k' = k then {gr_Version r} else {})"
    and put_known: "p_put P p e = Some p' \<Longrightarrow> known p' k \<subseteq> known p k"
begin

definition versions_ok :: "'p kvsys \<Rightarrow> bool" where
  "versions_ok s \<longleftrightarrow> (\<forall>c k v. v \<in> known (ks_prog s c) k \<longrightarrow> unat v \<le> nputs k (ks_hist s))"

definition kv_inv :: "'p kvsys \<Rightarrow> bool" where
  "kv_inv s \<longleftrightarrow> (length (ks_hist s) < 2 ^ 64 \<longrightarrow> answers_ok s \<and> versions_ok s)"

lemma versions_ok_go_on:
  assumes "versions_ok s" "\<And>p' k v. p = Some p' \<Longrightarrow> v \<in> known p' k \<Longrightarrow> unat v \<le> nputs k (ks_hist s)"
  shows "versions_ok (go_on c p s)"
  using assms by (auto simp: versions_ok_def go_on_def split: option.split)

lemma versions_ok_exec: "exec_put c a s = (s1, err) \<Longrightarrow> versions_ok s \<Longrightarrow> versions_ok s1"
  unfolding versions_ok_def using exec_frame(1,7) [of c a s s1 err] by (metis order_trans)

text \<open>Waiting on: the attempt is no longer the first.\<close>

lemma answers_ok_wait:
  assumes "answers_ok s" "ks_call s c = Some (a, f)"
  shows "answers_ok (s\<lparr>ks_call := (ks_call s)(c \<mapsto> (a, False))\<rparr>)"
proof -
  have "pend (ks_call s c) H \<le> pend (Some (a, False)) H" for H
    using assms(2) by (cases f) simp_all
  then have "length (of_client (Some x) (ks_hist s)) \<le> ks_oks s x + ks_maybes s x +
      pend (((ks_call s)(c \<mapsto> (a, False))) x) (ks_hist s)" for x
    using answers_okD(5) [OF assms(1), of x] by (auto intro: order_trans)
  moreover have "unat (pa_Version b) < nputs (pa_Key b) (ks_hist s) \<or>
      ((ks_call s)(c \<mapsto> (a, False))) x = Some (b, False)" if "(x, b) \<in> ks_sent s" for x b
    using answers_okD(3) [OF assms(1) that] assms(2) by auto
  ultimately show ?thesis
    by (intro answers_okI) (use answers_okD [OF assms(1)] assms(2) in \<open>auto split: if_splits\<close>)
qed

lemma answers_ok_sent:
  "answers_ok s \<Longrightarrow> ks_call s c = Some (a, False) \<Longrightarrow> answers_ok (s\<lparr>ks_sent := insert (c, a) (ks_sent s)\<rparr>)"
  by (auto simp: answers_ok_def)

text \<open>The reply arrives: the call ends, and its version is no longer current.\<close>

lemma answers_ok_reply:
  assumes ok: "answers_ok s" and call: "ks_call s c = Some (a, first)"
    and ex: "exec_put c a s = (s1, err)" and len: "length (ks_hist s1) < 2 ^ 64"
  shows "answers_ok (count_answer c (put_result first err) (s1\<lparr>ks_call := (ks_call s1)(c := None)\<rparr>))"
    (is "answers_ok ?s'") and "err = OK \<or> err = ErrVersion"
proof -
  let ?H = "ks_hist s"
  have hist: "hist_ok (ks_srv s) ?H" and known: "version_known a ?H"
    and counts: "\<And>x. ks_oks s x \<le> length (of_client (Some x) ?H)"
      "\<And>x. length (of_client (Some x) ?H) \<le> ks_oks s x + ks_maybes s x + pend (ks_call s x) ?H"
    using ok call by (auto simp: answers_ok_def)
  have small: "nputs (pa_Key a) ?H < 2 ^ 64"
    using len nputs_le [of "pa_Key a" ?H] exec_frame(8) [OF ex] by linarith
  have sent: "unat (pa_Version b) < nputs (pa_Key b) ?H \<or> ks_call s x = Some (b, False)"
    if "(x, b) \<in> ks_sent s" for x b using ok that unfolding answers_ok_def by blast
  show "err = OK \<or> err = ErrVersion"
    by (rule exec_put_cases [OF ex hist])
      (use known small in \<open>auto simp: version_known_def unat_of_nat64 word_unat_eq_iff\<close>)
  show "answers_ok ?s'"
  proof (rule exec_put_cases [OF ex hist])
    let ?H' = "?H @ [(Some c, a)]"
    assume d: "err = OK" "pa_Version a = of_nat (nputs (pa_Key a) ?H)"
      "ks_hist s1 = ?H'" "hist_ok (ks_srv s1) ?H'"
    then have u: "unat (pa_Version a) = nputs (pa_Key a) ?H" using small by (simp add: unat_of_nat64)
    have "pend (ks_call s c) ?H = 0" using u by (simp add: call pend_def split: bool.split)
    moreover have "pend (ks_call s x) ?H \<le> pend (ks_call s x) ?H'" for x
      by (cases "ks_call s x") (auto intro: pend_mono nputs_mono)
    ultimately have "length (of_client (Some c) ?H') \<le> ks_oks s c + 1 + ks_maybes s c"
      "x \<noteq> c \<Longrightarrow> length (of_client (Some x) ?H') \<le> ks_oks s x + ks_maybes s x + pend (ks_call s x) ?H'" for x
      using counts(2) [of c] counts(2) [of x] by (auto simp: of_client_append intro: order_trans)
    moreover have "unat (pa_Version b) < nputs (pa_Key b) ?H' \<or> ((ks_call s)(c := None)) x = Some (b, False)"
      if "(x, b) \<in> ks_sent s" for x b
      using sent [OF that] u call nputs_mono [of "pa_Key b" ?H "(Some c, a)"]
      by (auto simp: nputs_append split: if_splits)
    ultimately show ?thesis
      by (intro answers_okI)
        (use d(4) counts(1) answers_okD(2) [OF ok] in
          \<open>auto simp: d(1,3) exec_frame [OF ex] put_result_def of_client_append le_SucI
            intro!: version_known_append split: if_splits\<close>)
  next
    assume r: "err \<in> {ErrVersion, ErrNoKey}" "pa_Version a \<noteq> of_nat (nputs (pa_Key a) ?H)"
      "ks_hist s1 = ?H" "hist_ok (ks_srv s1) ?H"
    have less: "unat (pa_Version a) < nputs (pa_Key a) ?H"
      using known r(2) small by (auto simp: version_known_def word_unat_eq_iff unat_of_nat64 le_less)
    have "length (of_client (Some c) ?H) \<le> ks_oks s c + (ks_maybes s c + (if first then 0 else 1))"
      using counts(2) [of c] less call by (auto simp: pend_def split: bool.splits)
    moreover have "put_result first err \<noteq> OK" "put_result first err = ErrMaybe \<longleftrightarrow> \<not> first"
      using \<open>err = OK \<or> err = ErrVersion\<close> r(1) by (auto simp: put_result_def)
    moreover have "unat (pa_Version b) < nputs (pa_Key b) ?H \<or> ((ks_call s)(c := None)) x = Some (b, False)"
      if "(x, b) \<in> ks_sent s" for x b using sent [OF that] less call by auto
    ultimately show ?thesis
      by (intro answers_okI)
        (use r(4) counts answers_okD(2) [OF ok] in \<open>auto simp: r(3) exec_frame [OF ex] split: if_splits\<close>)
  qed
qed

end

text \<open>
  The same interface with an invariant \<open>I\<close> of the history and one of every program: \<open>Q c p H m n w\<close> of
  client \<open>c\<close> with the history and its counts of \<open>OK\<close> and \<open>ErrMaybe\<close> answers, where \<open>w\<close> says that the
  put it is at may already have been executed.  A program that keeps \<open>Q\<close> never fails its test.
\<close>

text \<open>The history has the put of client \<open>c\<close> at its version's place.\<close>

definition put_done :: "nat \<Rightarrow> PutArgs \<Rightarrow> (nat option \<times> PutArgs) list \<Rightarrow> bool" where
  "put_done c a H \<longleftrightarrow> unat (pa_Version a) < nputs (pa_Key a) H \<and>
     on_key (pa_Key a) H ! unat (pa_Version a) = (Some c, a)"

definition waiting :: "(PutArgs \<times> bool) option \<Rightarrow> bool" where
  "waiting call = (case call of Some (_, False) \<Rightarrow> True | _ \<Rightarrow> False)"

lemma waiting_simps [simp]: "\<not> waiting None" "waiting (Some (a, f)) \<longleftrightarrow> \<not> f"
  by (simp_all add: waiting_def split: bool.split)

locale kv_program = kv_clients P known
  for P :: "'p client_prog" and known :: "'p \<Rightarrow> string \<Rightarrow> Tversion set" +
  fixes Q :: "nat \<Rightarrow> 'p \<Rightarrow> (nat option \<times> PutArgs) list \<Rightarrow> nat \<Rightarrow> nat \<Rightarrow> bool \<Rightarrow> bool"
    and I :: "(nat option \<times> PutArgs) list \<Rightarrow> bool"
  assumes I_put: "I H \<Longrightarrow> Q c p H m n w \<Longrightarrow> p_next P p = ActPut a \<Longrightarrow>
      unat (pa_Version a) = nputs (pa_Key a) H \<Longrightarrow> I (H @ [(Some c, a)])"
    and Q_own: "I H \<Longrightarrow> Q c p H m n w \<Longrightarrow> p_next P p = ActPut a \<Longrightarrow>
      unat (pa_Version a) = nputs (pa_Key a) H \<Longrightarrow> Q c p (H @ [(Some c, a)]) m n True"
    and Q_other: "I H \<Longrightarrow> I (H @ [(Some d, a)]) \<Longrightarrow> Q c p H m n w \<Longrightarrow> d \<noteq> c \<Longrightarrow> Q c p (H @ [(Some d, a)]) m n w"
    and Q_wait: "Q c p H m n False \<Longrightarrow> p_next P p = ActPut a \<Longrightarrow> Q c p H m n True"
    and Q_choose: "Q c p H m n False \<Longrightarrow> p_next P p = ActChoose \<Longrightarrow> p_choose P p p' \<Longrightarrow> Q c p' H m n False"
    and Q_got: "I H \<Longrightarrow> Q c p H m n False \<Longrightarrow> p_next P p = ActGet k \<Longrightarrow> hist_ok srv H \<Longrightarrow>
      length H < 2 ^ 64 \<Longrightarrow>
      \<exists>p'. p_got P p (spec_get (kv_abs srv) k) = Some p' \<and> Q c p' H m n False"
    and Q_put: "I H \<Longrightarrow> Q c p H m n (err \<noteq> ErrVersion) \<Longrightarrow> p_next P p = ActPut a \<Longrightarrow>
      err \<in> {OK, ErrVersion, ErrMaybe} \<Longrightarrow> unat (pa_Version a) < nputs (pa_Key a) H \<Longrightarrow>
      (err = OK \<Longrightarrow> put_done c a H) \<Longrightarrow>
      \<exists>p'. p_put P p err = Some p' \<and>
        Q c p' H (m + (if err = OK then 1 else 0)) (n + (if err = ErrMaybe then 1 else 0)) False"
begin

definition prog_inv :: "'p kvsys \<Rightarrow> bool" where
  "prog_inv s \<longleftrightarrow> \<not> ks_failed s \<and> I (ks_hist s) \<and>
     (\<forall>c. Q c (ks_prog s c) (ks_hist s) (ks_oks s c) (ks_maybes s c) (waiting (ks_call s c))) \<and>
     (\<forall>c a f. ks_call s c = Some (a, f) \<longrightarrow> p_next P (ks_prog s c) = ActPut a)"

definition all_inv :: "'p kvsys \<Rightarrow> bool" where
  "all_inv s \<longleftrightarrow> answers_ok s \<and> versions_ok s \<and> prog_inv s"

lemma prog_invD:
  assumes "prog_inv s"
  shows "\<not> ks_failed s" "I (ks_hist s)"
    "\<And>c. Q c (ks_prog s c) (ks_hist s) (ks_oks s c) (ks_maybes s c) (waiting (ks_call s c))"
    "\<And>c a f. ks_call s c = Some (a, f) \<Longrightarrow> p_next P (ks_prog s c) = ActPut a"
  using assms by (auto simp: prog_inv_def)

text \<open>The server executes a put that is being waited for, or a stale one.\<close>

lemma prog_exec:
  assumes inv: "prog_inv s" and hist: "hist_ok (ks_srv s) (ks_hist s)"
    and ex: "exec_put c a s = (s1, err)" and len: "length (ks_hist s1) < 2 ^ 64"
    and call: "err = OK \<Longrightarrow> \<exists>f. ks_call s c = Some (a, f)"
  shows "I (ks_hist s1)"
    and "Q d (ks_prog s d) (ks_hist s1) (ks_oks s d) (ks_maybes s d)
           (waiting (ks_call s d) \<or> d = c \<and> err = OK)"
proof -
  note [simp] = exec_frame [OF ex]
  have "I (ks_hist s1) \<and> Q d (ks_prog s d) (ks_hist s1) (ks_oks s d) (ks_maybes s d)
           (waiting (ks_call s d) \<or> d = c \<and> err = OK)"
  proof (rule exec_put_cases [OF ex hist])
    assume d: "err = OK" "pa_Version a = of_nat (nputs (pa_Key a) (ks_hist s))"
      "ks_hist s1 = ks_hist s @ [(Some c, a)]"
    have "nputs (pa_Key a) (ks_hist s) < 2 ^ 64"
      using len nputs_le [of "pa_Key a" "ks_hist s"] by (simp add: d(3))
    then have u: "unat (pa_Version a) = nputs (pa_Key a) (ks_hist s)" by (simp add: d(2) unat_of_nat64)
    have nx: "p_next P (ks_prog s c) = ActPut a" using call [OF d(1)] prog_invD(4) [OF inv] by blast
    note QI = prog_invD(2,3) [OF inv]
    show ?thesis
      using I_put [OF QI nx u] Q_own [OF QI nx u] Q_other [OF QI(1) I_put [OF QI nx u] QI(2) [of d]] d(1)
      by (cases "d = c") (simp_all add: d(3))
  next
    assume d: "err \<in> {ErrVersion, ErrNoKey}" "ks_hist s1 = ks_hist s"
    then show ?thesis using prog_invD(2,3) [OF inv] by auto
  qed
  then show "I (ks_hist s1)" "Q d (ks_prog s d) (ks_hist s1) (ks_oks s d) (ks_maybes s d)
           (waiting (ks_call s d) \<or> d = c \<and> err = OK)" by blast+
qed

lemma put_done_exec:
  assumes "exec_put c a s = (s1, OK)" "hist_ok (ks_srv s) (ks_hist s)" "length (ks_hist s1) < 2 ^ 64"
  shows "put_done c a (ks_hist s1)"
proof (rule exec_put_cases [OF assms(1,2)])
  assume d: "pa_Version a = of_nat (nputs (pa_Key a) (ks_hist s))" "ks_hist s1 = ks_hist s @ [(Some c, a)]"
  then have "nputs (pa_Key a) (ks_hist s) < 2 ^ 64"
    using assms(3) nputs_le [of "pa_Key a" "ks_hist s"] by simp
  then have "unat (pa_Version a) = nputs (pa_Key a) (ks_hist s)" by (simp add: d(1) unat_of_nat64)
  then show ?thesis by (simp add: put_done_def d(2) nputs_append) (simp add: on_key_def nputs_def nth_append)
qed simp

end

text \<open>Every step keeps the invariants.\<close>

context kv_program
begin

lemma all_invD:
  assumes "all_inv s"
  shows "answers_ok s" "versions_ok s" "prog_inv s" "hist_ok (ks_srv s) (ks_hist s)"
  using assms by (auto simp: all_inv_def intro: answers_okD(1))

lemma inv_choose:
  assumes inv: "all_inv s" and c: "ks_call s c = None" "p_next P (ks_prog s c) = ActChoose"
    "p_choose P (ks_prog s c) p"
  shows "all_inv (go_on c (Some p) s)"
proof -
  note A = all_invD [OF inv]
  have "Q c p (ks_hist s) (ks_oks s c) (ks_maybes s c) False"
    using Q_choose [OF _ c(2,3)] prog_invD(3) [OF A(3), of c] c(1) by simp
  then have "prog_inv (go_on c (Some p) s)" using A(3) c(1) by (auto simp: prog_inv_def go_on_def)
  moreover have "versions_ok (go_on c (Some p) s)"
    using A(2) choose_known [OF c(3)] by (intro versions_ok_go_on) (auto simp: versions_ok_def dest!: subsetD)
  ultimately show ?thesis using A(1) by (simp add: all_inv_def)
qed

lemma inv_get:
  assumes inv: "all_inv s" and c: "ks_call s c = None" "p_next P (ks_prog s c) = ActGet k"
    and len: "length (ks_hist s) < 2 ^ 64"
  shows "all_inv (go_on c (p_got P (ks_prog s c) (KVServer_Get (ks_srv s) \<lparr>ga_Key = k\<rparr>)) s)"
proof -
  note A = all_invD [OF inv]
  let ?r = "spec_get (kv_abs (ks_srv s)) k"
  have "Q c (ks_prog s c) (ks_hist s) (ks_oks s c) (ks_maybes s c) False"
    using prog_invD(3) [OF A(3), of c] c(1) by simp
  then obtain p where p: "p_got P (ks_prog s c) ?r = Some p"
    "Q c p (ks_hist s) (ks_oks s c) (ks_maybes s c) False"
    using Q_got [OF prog_invD(2) [OF A(3)] _ c(2) A(4) len] by blast
  have "gr_Version ?r = of_nat (nputs k (ks_hist s))"
    using hist_ok_version [OF A(4), of k]
    by (simp add: spec_get_def current_version_def split: option.splits prod.splits)
  then have "unat (gr_Version ?r) \<le> nputs k (ks_hist s)" by (simp add: unat_of_nat)
  then have "unat v \<le> nputs k' (ks_hist s)" if "v \<in> known p k'" for v k'
    using that A(2) got_known [OF c(2) p(1), of k'] by (cases "k' = k") (auto simp: versions_ok_def)
  then have "versions_ok (go_on c (Some p) s)" using A(2) by (intro versions_ok_go_on) auto
  moreover have "prog_inv (go_on c (Some p) s)"
    using A(3) p(2) c(1) by (auto simp: prog_inv_def go_on_def)
  ultimately show ?thesis using A(1) p(1) by (simp add: all_inv_def kv_simps)
qed

lemma inv_start:
  assumes inv: "all_inv s" and c: "ks_call s c = None" "p_next P (ks_prog s c) = ActPut a"
  shows "all_inv (s\<lparr>ks_call := (ks_call s)(c \<mapsto> (a, True))\<rparr>)" (is "all_inv ?s'")
proof -
  note A = all_invD [OF inv]
  have "version_known a (ks_hist s)"
    using next_known [OF c(2)] A(2) by (auto simp: versions_ok_def version_known_def)
  moreover have "unat (pa_Version b) < nputs (pa_Key b) (ks_hist s) \<or>
      ((ks_call s)(c \<mapsto> (a, True))) x = Some (b, False)" if "(x, b) \<in> ks_sent s" for x b
    using answers_okD(3) [OF A(1) that] c(1) by auto
  moreover have "length (of_client (Some x) (ks_hist s)) \<le> ks_oks s x + ks_maybes s x +
      pend (((ks_call s)(c \<mapsto> (a, True))) x) (ks_hist s)" for x
    using answers_okD(5) [OF A(1), of x] c(1) by auto
  ultimately have "answers_ok ?s'"
    by (intro answers_okI) (use answers_okD(1,2,4) [OF A(1)] in \<open>auto split: if_splits\<close>)
  moreover have "waiting (ks_call ?s' x) = waiting (ks_call s x)" for x using c(1) by simp
  then have "prog_inv ?s'" using A(3) c(2) unfolding prog_inv_def by (auto split: if_splits)
  ultimately show ?thesis using A(2) by (simp add: all_inv_def versions_ok_def)
qed

lemma inv_wait:
  assumes inv: "all_inv s" and c: "ks_call s c = Some (a, f)"
  shows "all_inv (s\<lparr>ks_call := (ks_call s)(c \<mapsto> (a, False))\<rparr>)" (is "all_inv ?w")
proof -
  note A = all_invD [OF inv]
  have "Q c (ks_prog s c) (ks_hist s) (ks_oks s c) (ks_maybes s c) True"
    using prog_invD(3) [OF A(3), of c] c Q_wait [OF _ prog_invD(4) [OF A(3) c]] by (cases f) simp_all
  then have "prog_inv ?w" using A(3) c unfolding prog_inv_def by auto
  then show ?thesis using answers_ok_wait [OF A(1) c] A(2) by (simp add: all_inv_def versions_ok_def)
qed

lemma inv_exec:
  assumes inv: "all_inv s" and ex: "exec_put c a s = (s1, err)" and len: "length (ks_hist s1) < 2 ^ 64"
    and call: "ks_call s c = Some (a, False) \<or> unat (pa_Version a) < nputs (pa_Key a) (ks_hist s)"
  shows "all_inv s1"
proof -
  note A = all_invD [OF inv] and [simp] = exec_frame [OF ex]
  have w: "ks_call s c = Some (a, False)" if "err = OK"
  proof (rule exec_put_cases [OF ex A(4)])
    assume d: "pa_Version a = of_nat (nputs (pa_Key a) (ks_hist s))" "ks_hist s1 = ks_hist s @ [(Some c, a)]"
    then have "nputs (pa_Key a) (ks_hist s) < 2 ^ 64"
      using len nputs_le [of "pa_Key a" "ks_hist s"] by simp
    then show ?thesis using call by (simp add: d(1) unat_of_nat64)
  qed (use that in simp)
  have "Q d (ks_prog s d) (ks_hist s1) (ks_oks s d) (ks_maybes s d) (waiting (ks_call s d))" for d
    using prog_exec(2) [OF A(3,4) ex len, of d] w by (cases "d = c \<and> err = OK") auto
  then have "prog_inv s1"
    using prog_exec(1) [OF A(3,4) ex len] w A(3) by (auto simp: prog_inv_def)
  then show ?thesis
    using answers_ok_exec [OF A(1) ex call len] versions_ok_exec [OF ex A(2)] by (simp add: all_inv_def)
qed

lemma inv_reply:
  assumes inv: "all_inv s" and c: "ks_call s c = Some (a, first)"
    and ex: "exec_put c a s = (s1, err)" and len: "length (ks_hist s1) < 2 ^ 64"
  shows "all_inv (go_on c (p_put P (ks_prog s c) (put_result first err))
     (count_answer c (put_result first err) (s1\<lparr>ks_call := (ks_call s1)(c := None)\<rparr>)))"
proof -
  note A = all_invD [OF inv] and F = exec_frame [OF ex]
  let ?e = "put_result first err"
  let ?t = "count_answer c ?e (s1\<lparr>ks_call := (ks_call s1)(c := None)\<rparr>)"
  note R = answers_ok_reply [OF A(1) c ex len]
  note E = prog_exec [OF A(3,4) ex len, OF exI [of _ first], OF c]
  have e: "?e \<in> {OK, ErrVersion, ErrMaybe}" "?e = OK \<longleftrightarrow> err = OK" "?e = ErrVersion \<Longrightarrow> first"
    "err = OK \<or> first \<or> ?e = ErrMaybe"
    using R(2) by (auto simp: put_result_def split: if_splits)
  have "Q c (ks_prog s c) (ks_hist s1) (ks_oks s c) (ks_maybes s c) (?e \<noteq> ErrVersion)"
    using E(2) [of c] c e R(2) by (cases first) (auto simp: put_result_def split: if_splits)
  moreover have "unat (pa_Version a) < nputs (pa_Key a) (ks_hist s1)"
    by (rule put_used [OF ex A(4) answers_okD(2) [OF A(1) c] len])
  moreover have "?e = OK \<Longrightarrow> put_done c a (ks_hist s1)"
    using put_done_exec [of c a s s1] ex A(4) len e(2) by simp
  ultimately have "\<exists>p. p_put P (ks_prog s c) ?e = Some p \<and>
      Q c p (ks_hist s1) (ks_oks ?t c) (ks_maybes ?t c) False"
    using Q_put [OF E(1) _ prog_invD(4) [OF A(3) c] e(1), of c "ks_oks s c" "ks_maybes s c"] F(5,6) by simp
  then obtain p where p: "p_put P (ks_prog s c) ?e = Some p"
    "Q c p (ks_hist s1) (ks_oks ?t c) (ks_maybes ?t c) False" by blast
  have V: "versions_ok s1" by (rule versions_ok_exec [OF ex A(2)])
  then have "unat v \<le> nputs k (ks_hist s1)" if "v \<in> known p k" for v k
    using put_known [OF p(1), of k] that F(1) by (auto simp: versions_ok_def)
  then have "versions_ok (go_on c (Some p) ?t)"
    using V by (intro versions_ok_go_on) (simp_all add: versions_ok_def)
  moreover have "Q d (ks_prog s d) (ks_hist s1) (ks_oks s d) (ks_maybes s d) (waiting (ks_call s d))"
    if "d \<noteq> c" for d using E(2) [of d] that by simp
  then have "prog_inv (go_on c (Some p) ?t)"
    using A(3) p(2) E(1) F by (auto simp: prog_inv_def go_on_def)
  ultimately show ?thesis using R(1) p(1) by (simp add: all_inv_def)
qed

lemma all_inv_step:
  assumes inv: "all_inv s" and step: "kv_step P lossy s ev s'" and len: "length (ks_hist s') < 2 ^ 64"
  shows "all_inv s'"
  using step
proof cases
  case (ks_choose c p)
  then show ?thesis using inv_choose [OF inv] by simp
next
  case (ks_get c k)
  then show ?thesis using inv_get [OF inv] len by simp
next
  case (ks_start c a)
  then show ?thesis using inv_start [OF inv] by simp
next
  case (ks_reply c a first s1 err)
  then show ?thesis using inv_reply [OF inv ks_reply(3,4)] len by simp
next
  case (ks_reply_lost c a first s1 err)
  let ?w = "s\<lparr>ks_call := (ks_call s)(c \<mapsto> (a, False))\<rparr>"
  have "exec_put c a ?w = (s', err)"
    using ks_reply_lost(2,5) by (auto simp: exec_put_def split: prod.splits)
  then show ?thesis using inv_exec [OF inv_wait [OF inv ks_reply_lost(4)]] len by simp
next
  case (ks_request_lost c a first)
  let ?w = "s\<lparr>ks_call := (ks_call s)(c \<mapsto> (a, False))\<rparr>"
  have w: "all_inv ?w" by (rule inv_wait [OF inv ks_request_lost(4)])
  have "answers_ok (?w\<lparr>ks_sent := insert (c, a) (ks_sent ?w)\<rparr>)"
    by (rule answers_ok_sent) (use w in \<open>simp_all add: all_inv_def\<close>)
  then show ?thesis
    using w by (simp add: ks_request_lost(2) all_inv_def prog_inv_def versions_ok_def)
next
  case (ks_late c a err)
  then show ?thesis
    using inv_exec [OF inv ks_late(3) len] answers_okD(3) [OF all_invD(1) [OF inv] ks_late(2)] by auto
qed

text \<open>So they hold in every state the clients reach before the versions overflow.\<close>

lemma all_inv_reach:
  assumes "kv_reach P lossy s0 s" "all_inv s0" "length (ks_hist s) < 2 ^ 64"
  shows "all_inv s"
proof -
  have "(\<lambda>s s'. \<exists>ev. kv_step P lossy s ev s')\<^sup>*\<^sup>* s0 s" using assms(1) by (simp add: kv_reach_def)
  then show ?thesis using assms(3)
  proof induction
    case base
    then show ?case using assms(2) by simp
  next
    case (step s s')
    then obtain ev where "kv_step P lossy s ev s'" by blast
    then show ?case using all_inv_step [of s lossy ev s'] kv_step_hist [of P lossy s ev s'] step(3,4) by auto
  qed
qed

lemma all_inv_start:
  assumes "kv_start s" "\<And>c k v. v \<in> known (ks_prog s c) k \<Longrightarrow> v = 0"
    "I (ks_hist s)" "\<And>c. Q c (ks_prog s c) (ks_hist s) 0 0 False"
  shows "all_inv s"
proof -
  have "of_client (Some c) (ks_hist s) = []" for c
    using assms(1) by (force simp: kv_start_def of_client_def filter_empty_conv)
  then have "answers_ok s" using assms(1) by (auto simp: kv_start_def answers_ok_def)
  moreover have "versions_ok s" using assms(2) by (auto simp: versions_ok_def dest!: assms(2))
  moreover have "prog_inv s" using assms(1,3,4) by (simp add: kv_start_def prog_inv_def)
  ultimately show ?thesis by (simp add: all_inv_def)
qed

end

text \<open>Without losses no request is repeated and no clerk answers \<open>ErrMaybe\<close>.\<close>

definition no_repeats :: "'p kvsys \<Rightarrow> bool" where
  "no_repeats s \<longleftrightarrow> ks_sent s = {} \<and> ks_maybes s = (\<lambda>_. 0) \<and> (\<forall>c a f. ks_call s c = Some (a, f) \<longrightarrow> f)"

lemma exec_put_not_maybe: "exec_put c a s = (s1, err) \<Longrightarrow> err \<noteq> ErrMaybe"
  using KVServer_Put_abs [of "ks_srv s" a]
  by (auto simp: exec_put_def spec_put_def split: prod.splits if_splits)

lemma no_repeats_step: "no_repeats s \<Longrightarrow> kv_step P False s ev s' \<Longrightarrow> no_repeats s'"
  by (erule kv_step.cases)
    (auto simp: no_repeats_def put_result_def exec_frame dest: exec_put_not_maybe split: if_splits)

lemma no_repeats_reach:
  assumes "kv_reach P False s0 s"
  shows "no_repeats s"
proof -
  have "(\<lambda>s s'. \<exists>ev. kv_step P False s ev s')\<^sup>*\<^sup>* s0 s" "no_repeats s0"
    using assms by (auto simp: kv_reach_def kv_start_def no_repeats_def)
  then show ?thesis by (induction rule: rtranclp_induct) (auto intro: no_repeats_step)
qed

end
