(* ===== verification/KvTest.thy ===== *)
theory KvTest
  imports KvClients
begin

text \<open>
  The concurrent tests of \<open>kvtest1/kvtest.go\<close>: many clients put to the same keys
  (\<open>OnePut\<close>, \<open>OneClientPut\<close>) and \<open>CheckPutConcurrent\<close> compares the version at the server with what
  the clients counted.  The values are JSON documents: \<open>json\<close> and \<open>unjson\<close> stand for
  \<open>encoding/json\<close>, of which the proofs only use that decoding an encoded value gives it back.

  A client is a program of \<^theory_text>\<open>KvClients\<close>; where the test calls \<open>t.Fatalf\<close>, its next state is \<open>None\<close>.
\<close>

record EntryV =
  ev_Id :: int
  ev_V :: Tversion

record ClntRes =
  Nok :: int
  Nmaybe :: int

text \<open>\<open>GetJson\<close> on the reply of the clerk; \<open>None\<close> is \<open>Fatalf\<close>.\<close>

definition GetJson :: "(string \<Rightarrow> 'e option) \<Rightarrow> GetReply \<Rightarrow> ('e \<times> Tversion) option" where
  "GetJson unjson r =
     (if gr_Err r = OK
      then (case unjson (gr_Value r) of Some e \<Rightarrow> Some (e, gr_Version r) | None \<Rightarrow> None)
      else None)"

definition PutJson :: "('e \<Rightarrow> string) \<Rightarrow> string \<Rightarrow> 'e \<Rightarrow> Tversion \<Rightarrow> PutArgs" where
  "PutJson json key v ver = \<lparr>pa_Key = key, pa_Value = json v, pa_Version = ver\<rparr>"

section \<open>The put test\<close>

text \<open>
  Where a client is: at the \<open>select\<close> of \<open>OneClientPut\<close>, in the \<open>PutJson\<close> or in the \<open>GetJson\<close> of
  \<open>OnePut\<close> with its local variables \<open>key\<close>, \<open>ver\<close> and \<open>err\<close>, or returned.
\<close>

datatype put_pc = AtSelect | AtPutJson string Tversion | AtGetJson string Tversion Err | Returned

record put_client =
  pcl_me :: int
  pcl_verm :: "string \<Rightarrow> Tversion"
  pcl_pc :: put_pc
  pcl_res :: ClntRes

definition OneClientPut_start :: "nat \<Rightarrow> nat \<Rightarrow> put_client" where
  "OneClientPut_start n c =
     \<lparr>pcl_me = int c, pcl_verm = (\<lambda>_. 0), pcl_pc = (if c < n then AtSelect else Returned),
      pcl_res = \<lparr>Nok = 0, Nmaybe = 0\<rparr>\<rparr>"

text \<open>The \<open>select\<close>: return, or take a key, at random when the test says so.\<close>

definition OneClientPut_select :: "bool \<Rightarrow> string list \<Rightarrow> put_client \<Rightarrow> put_client \<Rightarrow> bool" where
  "OneClientPut_select randomkeys ka p p' \<longleftrightarrow> p' = p\<lparr>pcl_pc := Returned\<rparr> \<or>
     (\<exists>k\<in>set (if randomkeys then ka else take 1 ka). p' = p\<lparr>pcl_pc := AtPutJson k (pcl_verm p k)\<rparr>)"

text \<open>\<open>verm[k], ok = ts.OnePut(...)\<close> and the counting.\<close>

definition OneClientPut_count :: "string \<Rightarrow> Tversion \<Rightarrow> bool \<Rightarrow> put_client \<Rightarrow> put_client" where
  "OneClientPut_count k ver ok p = p\<lparr>
     pcl_verm := (pcl_verm p)(k := ver), pcl_pc := AtSelect,
     pcl_res := (if ok then (pcl_res p)\<lparr>Nok := Nok (pcl_res p) + 1\<rparr>
                 else (pcl_res p)\<lparr>Nmaybe := Nmaybe (pcl_res p) + 1\<rparr>)\<rparr>"

text \<open>\<open>OnePut\<close>: the put was answered; what was read back.\<close>

definition OnePut_put :: "put_client \<Rightarrow> Err \<Rightarrow> put_client option" where
  "OnePut_put p err = (case pcl_pc p of
     AtPutJson k ver \<Rightarrow>
       if \<not> (err = OK \<or> err = ErrVersion \<or> err = ErrMaybe) then None
       else Some (p\<lparr>pcl_pc := AtGetJson k ver err\<rparr>)
   | _ \<Rightarrow> None)"

definition OnePut_get :: "(string \<Rightarrow> EntryV option) \<Rightarrow> put_client \<Rightarrow> GetReply \<Rightarrow> put_client option" where
  "OnePut_get unjson p r = (case pcl_pc p of
     AtGetJson k ver err \<Rightarrow>
       (case GetJson unjson r of
          None \<Rightarrow> None
        | Some (e, ver0) \<Rightarrow>
            if err = OK \<and> ver0 = ver + 1 \<and> ev_Id e \<noteq> pcl_me p \<and> ev_V e \<noteq> ver then None
            else if err = OK \<or> err = ErrMaybe
            then Some (OneClientPut_count k ver0 (err = OK) p)
            else Some (p\<lparr>pcl_pc := AtPutJson k ver0\<rparr>))
   | _ \<Rightarrow> None)"

definition OnePut_next :: "(EntryV \<Rightarrow> string) \<Rightarrow> put_client \<Rightarrow> action" where
  "OnePut_next json p = (case pcl_pc p of
     AtSelect \<Rightarrow> ActChoose
   | AtPutJson k ver \<Rightarrow> ActPut (PutJson json k \<lparr>ev_Id = pcl_me p, ev_V = ver\<rparr> ver)
   | AtGetJson k ver err \<Rightarrow> ActGet k
   | Returned \<Rightarrow> ActStop)"

definition OneClientPut ::
    "(EntryV \<Rightarrow> string) \<Rightarrow> (string \<Rightarrow> EntryV option) \<Rightarrow> bool \<Rightarrow> string list \<Rightarrow> put_client client_prog" where
  "OneClientPut json unjson randomkeys ka =
     \<lparr>p_next = OnePut_next json, p_got = OnePut_get unjson, p_put = OnePut_put,
      p_choose = OneClientPut_select randomkeys ka\<rparr>"

text \<open>\<open>SpawnClientsAndWait\<close>: the clients' results, once they have all returned.\<close>

definition put_results :: "nat \<Rightarrow> put_client kvsys \<Rightarrow> ClntRes list option" where
  "put_results n s = (if list_all (\<lambda>c. pcl_pc (ks_prog s c) = Returned) [0..<n]
     then Some (map (\<lambda>c. pcl_res (ks_prog s c)) [0..<n]) else None)"

text \<open>The counts are \<open>int\<close>s, converted to the \<open>uint64\<close> of the versions.\<close>

definition CheckPutConcurrent ::
    "(string \<Rightarrow> EntryV option) \<Rightarrow> KVServer \<Rightarrow> string \<Rightarrow> ClntRes list \<Rightarrow> ClntRes \<Rightarrow> bool \<Rightarrow> ClntRes option" where
  "CheckPutConcurrent unjson srv key rs res reliable =
     (case GetJson unjson (KVServer_Get srv \<lparr>ga_Key = key\<rparr>) of
        None \<Rightarrow> None
      | Some (e, ver0) \<Rightarrow>
          (let res = fold (\<lambda>r res. res\<lparr>Nok := Nok res + Nok r, Nmaybe := Nmaybe res + Nmaybe r\<rparr>) rs res
           in if reliable
              then (if ver0 \<noteq> of_int (Nok res) then None else Some res)
              else if of_int (Nok res + Nmaybe res) < ver0 then None else Some res))"

section \<open>The clients' invariant\<close>

text \<open>Of the history: who put what; and of a client: what its counts and its place say.\<close>

definition put_hist :: "(EntryV \<Rightarrow> string) \<Rightarrow> nat \<Rightarrow> string list \<Rightarrow> (nat option \<times> PutArgs) list \<Rightarrow> bool" where
  "put_hist json n ka H \<longleftrightarrow> (\<forall>x\<in>set H. \<exists>c<n. fst x = Some c \<and> pa_Key (snd x) \<in> set ka \<and>
     pa_Value (snd x) = json \<lparr>ev_Id = int c, ev_V = pa_Version (snd x)\<rparr>)"

definition put_pc_ok :: "(EntryV \<Rightarrow> string) \<Rightarrow> string list \<Rightarrow> nat \<Rightarrow> put_pc \<Rightarrow> (nat option \<times> PutArgs) list \<Rightarrow> bool" where
  "put_pc_ok json ka c pc H = (case pc of
     AtPutJson k ver \<Rightarrow> k \<in> set ka
   | AtGetJson k ver err \<Rightarrow> k \<in> set ka \<and> err \<in> {OK, ErrVersion, ErrMaybe} \<and> unat ver < nputs k H \<and>
       (err = OK \<longrightarrow> put_done c (PutJson json k \<lparr>ev_Id = int c, ev_V = ver\<rparr> ver) H)
   | _ \<Rightarrow> True)"

definition answered :: "Err \<Rightarrow> put_pc \<Rightarrow> nat" where
  "answered err pc = (case pc of AtGetJson k ver e \<Rightarrow> if e = err then 1 else 0 | _ \<Rightarrow> 0)"

definition some_put :: "string list \<Rightarrow> (nat option \<times> PutArgs) list \<Rightarrow> bool" where
  "some_put ka H \<longleftrightarrow> (\<exists>k\<in>set ka. nputs k H > 0)"

definition put_client_ok ::
    "(EntryV \<Rightarrow> string) \<Rightarrow> nat \<Rightarrow> string list \<Rightarrow>
     nat \<Rightarrow> put_client \<Rightarrow> (nat option \<times> PutArgs) list \<Rightarrow> nat \<Rightarrow> nat \<Rightarrow> bool \<Rightarrow> bool" where
  "put_client_ok json n ka c p H m m' w \<longleftrightarrow> pcl_me p = int c \<and> (c < n \<or> pcl_pc p = Returned) \<and>
     Nok (pcl_res p) + int (answered OK (pcl_pc p)) = int m \<and>
     Nmaybe (pcl_res p) + int (answered ErrMaybe (pcl_pc p)) = int m' \<and>
     (m + m' > 0 \<longrightarrow> some_put ka H) \<and> put_pc_ok json ka c (pcl_pc p) H"

definition put_known :: "put_client \<Rightarrow> string \<Rightarrow> Tversion set" where
  "put_known p k = insert (pcl_verm p k)
     (case pcl_pc p of AtPutJson k' ver \<Rightarrow> if k' = k then {ver} else {} | _ \<Rightarrow> {})"

lemma put_done_append: "put_done c a H \<Longrightarrow> put_done c a (H @ [x])"
  by (auto simp: put_done_def on_key_def nputs_def nth_append)

lemma some_put_append: "some_put ka H \<Longrightarrow> some_put ka (H @ [x])"
  by (auto simp: some_put_def intro: less_le_trans [OF _ nputs_mono])

lemma some_putI: "k \<in> set ka \<Longrightarrow> n < nputs k H \<Longrightarrow> some_put ka H"
  unfolding some_put_def by (metis gr_zeroI not_less_zero)

lemma put_pc_ok_append: "put_pc_ok json ka c pc H \<Longrightarrow> put_pc_ok json ka c pc (H @ [x])"
  using put_done_append nputs_mono [of _ H x]
  by (auto simp: put_pc_ok_def split: put_pc.splits intro: less_le_trans)

lemma put_client_ok_append:
  "put_client_ok json n ka c p H m m' w \<Longrightarrow> put_client_ok json n ka c p (H @ [x]) m m' w'"
  using some_put_append put_pc_ok_append by (auto simp: put_client_ok_def)

text \<open>Reading back what the last put wrote: the decoding succeeds, and an \<open>OK\<close> put at \<open>ver\<close> reads itself.\<close>

lemma last_put:
  assumes "hist_ok srv H" "0 < nputs k H"
  shows "spec_get (kv_abs srv) k =
    \<lparr>gr_Value = pa_Value (snd (last (on_key k H))), gr_Version = of_nat (nputs k H), gr_Err = OK\<rparr>"
  using assms by (auto simp: hist_ok_def spec_get_def nputs_def)

lemma last_on_key: "0 < nputs k H \<Longrightarrow> last (on_key k H) \<in> set H \<and> pa_Key (snd (last (on_key k H))) = k"
  using last_in_set [of "on_key k H"] by (auto simp: nputs_def on_key_def)

locale json_codec =
  fixes json :: "'e \<Rightarrow> string" and unjson :: "string \<Rightarrow> 'e option"
  assumes unjson_json: "unjson (json e) = Some e"

lemma put_get_ok:
  assumes codec: "json_codec json unjson" and I: "put_hist json n ka H"
    and Q: "put_client_ok json n ka c p H m m' False"
    and nx: "OnePut_next json p = ActGet k" and hist: "hist_ok srv H" and len: "length H < 2 ^ 64"
  shows "\<exists>p'. OnePut_get unjson p (spec_get (kv_abs srv) k) = Some p' \<and> put_client_ok json n ka c p' H m m' False"
proof -
  obtain ver err where pc: "pcl_pc p = AtGetJson k ver err"
    using nx by (auto simp: OnePut_next_def split: put_pc.splits)
  have q: "k \<in> set ka" "err \<in> {OK, ErrVersion, ErrMaybe}" "unat ver < nputs k H"
    "err = OK \<Longrightarrow> put_done c (PutJson json k \<lparr>ev_Id = int c, ev_V = ver\<rparr> ver) H" "pcl_me p = int c"
    using Q by (auto simp: put_client_ok_def put_pc_ok_def pc)
  have pos: "0 < nputs k H" using q(3) by simp
  obtain d where d: "d < n" "fst (last (on_key k H)) = Some d" "pa_Value (snd (last (on_key k H))) =
      json \<lparr>ev_Id = int d, ev_V = pa_Version (snd (last (on_key k H)))\<rparr>" (is "_ = json ?e")
    using I last_on_key [OF pos] by (auto simp: put_hist_def)
  have got: "GetJson unjson (spec_get (kv_abs srv) k) = Some (?e, of_nat (nputs k H))"
    using last_put [OF hist pos] d(3) json_codec.unjson_json [OF codec] by (simp add: GetJson_def)
  have mine: "d = c" if "err = OK" "of_nat (nputs k H) = ver + 1"
  proof -
    have "nputs k H < 2 ^ 64" using len nputs_le [of k H] by linarith
    then have "nputs k H = unat (ver + 1)" using that(2) unat_of_nat64 by metis
    then have "nputs k H = Suc (unat ver)"
      using pos by (metis add.commute neq0_conv unat_0 unatSuc)
    then have "last (on_key k H) = on_key k H ! unat ver"
      by (metis diff_Suc_1 last_conv_nth length_0_conv nat.simps(3) nputs_def)
    then show ?thesis using q(4) [OF that(1)] d(2) by (simp add: put_done_def PutJson_def)
  qed
  then show ?thesis
    using Q q pos by (auto simp: OnePut_get_def pc got put_client_ok_def put_pc_ok_def answered_def OneClientPut_count_def)
qed

lemma OnePut_next_cases:
  "OnePut_next json p = ActPut a \<Longrightarrow> \<exists>k ver. pcl_pc p = AtPutJson k ver \<and>
     a = PutJson json k \<lparr>ev_Id = pcl_me p, ev_V = ver\<rparr> ver"
  "OnePut_next json p = ActGet k \<Longrightarrow> \<exists>ver err. pcl_pc p = AtGetJson k ver err"
  "OnePut_next json p = ActChoose \<Longrightarrow> pcl_pc p = AtSelect"
  by (auto simp: OnePut_next_def split: put_pc.splits)

lemma put_program:
  assumes "json_codec json unjson"
  shows "kv_program (OneClientPut json unjson rk ka) put_known (put_client_ok json n ka) (put_hist json n ka)"
proof (unfold_locales, goal_cases)
  case (1 p a)
  then show ?case by (auto simp: OneClientPut_def put_known_def PutJson_def dest!: OnePut_next_cases)
next
  case (2 p p' k)
  then show ?case
    by (auto simp: OneClientPut_def OneClientPut_select_def put_known_def split: put_pc.splits if_splits)
next
  case (3 p k r p' k')
  then show ?case
    by (auto simp: OneClientPut_def OnePut_get_def GetJson_def OneClientPut_count_def put_known_def
        dest!: OnePut_next_cases split: if_splits option.splits)
next
  case (4 p e p' k)
  then show ?case by (auto simp: OneClientPut_def OnePut_put_def put_known_def split: put_pc.splits if_splits)
next
  case (5 H c p m m' w a)
  then show ?case
    by (auto simp: OneClientPut_def put_hist_def put_client_ok_def put_pc_ok_def PutJson_def dest!: OnePut_next_cases)
next
  case (6 H c p m m' w a)
  then show ?case by (blast intro: put_client_ok_append)
next
  case (7 c p H m m' w d a)
  then show ?case by (blast intro: put_client_ok_append)
next
  case (8 c p H m m' a)
  then show ?case by (simp add: put_client_ok_def)
next
  case (9 c p H m m' p')
  then have "pcl_pc p = AtSelect" by (auto simp: OneClientPut_def dest: OnePut_next_cases)
  then show ?case using 9
    by (auto simp: OneClientPut_def OneClientPut_select_def put_client_ok_def put_pc_ok_def answered_def
        split: if_splits dest: in_set_takeD)
next
  case (10 H c p m m' k srv)
  then show ?case using put_get_ok [OF assms] by (simp add: OneClientPut_def)
next
  case (11 H c p m m' err a)
  then obtain k ver where pc: "pcl_pc p = AtPutJson k ver" "a = PutJson json k \<lparr>ev_Id = pcl_me p, ev_V = ver\<rparr> ver"
    by (auto simp: OneClientPut_def dest: OnePut_next_cases)
  then have "some_put ka H" if "k \<in> set ka" using 11(5) that by (auto simp: PutJson_def intro: some_putI)
  then show ?case using 11(2,4,5,6) pc
    by (auto simp: OneClientPut_def OnePut_put_def put_client_ok_def put_pc_ok_def answered_def PutJson_def)
qed

section \<open>The test passes\<close>

text \<open>The clients' puts, counted client by client.\<close>

lemma sum_of_client:
  assumes "\<forall>x\<in>set H. \<exists>c<n. fst x = Some c"
  shows "length H = (\<Sum>c<n. length (of_client (Some c) H))"
  using assms
proof (induction H)
  case (Cons x H)
  then obtain c where c: "c < n" "fst x = Some c" by auto
  have "(\<Sum>d<n. length (of_client (Some d) (x # H))) =
      (\<Sum>d<n. (if d = c then 1 else 0) + length (of_client (Some d) H))"
    using c(2) by (intro sum.cong) (auto simp: of_client_def)
  then show ?case using Cons c by (simp add: sum.distrib)
qed (simp add: of_client_def)

definition put_test_start :: "nat \<Rightarrow> put_client kvsys \<Rightarrow> bool" where
  "put_test_start n s \<longleftrightarrow> kv_start s \<and> ks_hist s = [] \<and> ks_prog s = OneClientPut_start n"

lemma put_test_inv:
  assumes codec: "json_codec json unjson" and start: "put_test_start n s0"
    and reach: "kv_reach (OneClientPut json unjson rk ka) lossy s0 s" and len: "length (ks_hist s) < 2 ^ 64"
  shows "kv_program.all_inv (OneClientPut json unjson rk ka) put_known (put_client_ok json n ka) (put_hist json n ka) s"
proof -
  note prog = put_program [OF codec, of rk ka n]
  have "kv_program.all_inv (OneClientPut json unjson rk ka) put_known (put_client_ok json n ka) (put_hist json n ka) s0"
    using start by (intro kv_program.all_inv_start [OF prog])
      (auto simp: put_test_start_def OneClientPut_start_def put_known_def put_hist_def put_client_ok_def
        put_pc_ok_def answered_def split: put_pc.splits if_splits)
  then show ?thesis using kv_program.all_inv_reach [OF prog reach _ len] by simp
qed

lemma put_results_count:
  assumes inv: "kv_program.all_inv (OneClientPut json unjson rk ka) put_known (put_client_ok json n ka) (put_hist json n ka) s"
    and codec: "json_codec json unjson" and rs: "put_results n s = Some rs"
  shows "rs = map (\<lambda>c. \<lparr>Nok = int (ks_oks s c), Nmaybe = int (ks_maybes s c)\<rparr>) [0..<n]"
    and "c < n \<Longrightarrow> ks_call s c = None"
    and "c < n \<Longrightarrow> ks_oks s c + ks_maybes s c > 0 \<Longrightarrow> some_put ka (ks_hist s)"
proof -
  note prog = put_program [OF codec, of rk ka n]
  note P = kv_program.prog_invD [OF prog kv_program.all_invD(3) [OF prog inv]]
  have ret: "pcl_pc (ks_prog s c) = Returned" if "c < n" for c
    using rs that by (auto simp: put_results_def list_all_iff split: if_splits)
  have res: "pcl_res (ks_prog s c) = \<lparr>Nok = int (ks_oks s c), Nmaybe = int (ks_maybes s c)\<rparr>" if "c < n" for c
    using P(3) [of c] ret [OF that] by (cases "pcl_res (ks_prog s c)") (auto simp: put_client_ok_def answered_def)
  show "rs = map (\<lambda>c. \<lparr>Nok = int (ks_oks s c), Nmaybe = int (ks_maybes s c)\<rparr>) [0..<n]"
    using rs res by (auto simp: put_results_def split: if_splits)
  show "c < n \<Longrightarrow> ks_call s c = None"
    using P(4) [of c] ret [of c] by (cases "ks_call s c") (auto simp: OneClientPut_def OnePut_next_def)
  show "c < n \<Longrightarrow> ks_oks s c + ks_maybes s c > 0 \<Longrightarrow> some_put ka (ks_hist s)"
    using P(3) [of c] by (simp add: put_client_ok_def)
qed

lemma add_results:
  "fold (\<lambda>r res. res\<lparr>Nok := Nok res + Nok r, Nmaybe := Nmaybe res + Nmaybe r\<rparr>) rs res =
     \<lparr>Nok = Nok res + (\<Sum>r\<leftarrow>rs. Nok r), Nmaybe = Nmaybe res + (\<Sum>r\<leftarrow>rs. Nmaybe r)\<rparr>"
  by (induction rs arbitrary: res) simp_all

lemma sum_list_int_upt: "(\<Sum>c\<leftarrow>[0..<n]. int (f c)) = int (\<Sum>c<n. f c)"
  by (simp add: interv_sum_list_conv_sum_set_nat lessThan_atLeast0)

text \<open>The version at the server lies between the clients' counts.\<close>

lemma put_results_version:
  assumes inv: "kv_program.all_inv (OneClientPut json unjson rk [k]) put_known (put_client_ok json n [k]) (put_hist json n [k]) s"
    and codec: "json_codec json unjson" and rs: "put_results n s = Some rs"
  shows "(\<Sum>r\<leftarrow>rs. Nok r) \<le> int (nputs k (ks_hist s))"
    and "int (nputs k (ks_hist s)) \<le> (\<Sum>r\<leftarrow>rs. Nok r) + (\<Sum>r\<leftarrow>rs. Nmaybe r)"
proof -
  note prog = put_program [OF codec, of rk "[k]" n]
  note R = put_results_count [OF inv codec rs]
  let ?l = "\<lambda>c. length (of_client (Some c) (ks_hist s))"
  have A: "ks_oks s c \<le> ?l c" "?l c \<le> ks_oks s c + ks_maybes s c" if "c < n" for c
    using answers_okD(4,5) [OF kv_program.all_invD(1) [OF prog inv], of c] R(2) [OF that] by auto
  have I: "put_hist json n [k] (ks_hist s)"
    by (rule kv_program.prog_invD(2) [OF prog kv_program.all_invD(3) [OF prog inv]])
  then have "filter (\<lambda>x. pa_Key (snd x) = k) (ks_hist s) = ks_hist s"
    by (intro filter_True) (auto simp: put_hist_def)
  moreover have "\<forall>x\<in>set (ks_hist s). \<exists>c<n. fst x = Some c"
    using I unfolding put_hist_def by blast
  ultimately have "nputs k (ks_hist s) = (\<Sum>c<n. ?l c)"
    using sum_of_client by (simp add: nputs_def on_key_def)
  moreover have "(\<Sum>c<n. ks_oks s c) \<le> (\<Sum>c<n. ?l c)" by (rule sum_mono) (simp add: A)
  moreover have "(\<Sum>c<n. ?l c) \<le> (\<Sum>c<n. ks_oks s c) + (\<Sum>c<n. ks_maybes s c)"
    unfolding sum.distrib [symmetric] by (rule sum_mono) (simp add: A)
  moreover have "(\<Sum>r\<leftarrow>rs. Nok r) = int (\<Sum>c<n. ks_oks s c)" "(\<Sum>r\<leftarrow>rs. Nmaybe r) = int (\<Sum>c<n. ks_maybes s c)"
    by (simp_all add: R(1) comp_def sum_list_int_upt del: of_nat_sum)
  ultimately show "(\<Sum>r\<leftarrow>rs. Nok r) \<le> int (nputs k (ks_hist s))"
    "int (nputs k (ks_hist s)) \<le> (\<Sum>r\<leftarrow>rs. Nok r) + (\<Sum>r\<leftarrow>rs. Nmaybe r)" by linarith+
qed

text \<open>What \<open>CheckPutConcurrent\<close> reads and compares.\<close>

lemma put_checked:
  assumes inv: "kv_program.all_inv (OneClientPut json unjson rk [k]) put_known (put_client_ok json n [k]) (put_hist json n [k]) s"
    and codec: "json_codec json unjson" and pos: "0 < nputs k (ks_hist s)"
  shows "CheckPutConcurrent unjson (ks_srv s) k rs res reliable \<noteq> None \<longleftrightarrow>
    (let res = fold (\<lambda>r res. res\<lparr>Nok := Nok res + Nok r, Nmaybe := Nmaybe res + Nmaybe r\<rparr>) rs res;
         ver0 = of_nat (nputs k (ks_hist s)) :: Tversion
     in if reliable then ver0 = of_int (Nok res) else ver0 \<le> of_int (Nok res + Nmaybe res))"
proof -
  note prog = put_program [OF codec, of rk "[k]" n]
  note A = kv_program.all_invD [OF prog inv]
  obtain e where "pa_Value (snd (last (on_key k (ks_hist s)))) = json e"
    using kv_program.prog_invD(2) [OF prog A(3)] last_on_key [OF pos] by (auto simp: put_hist_def)
  then have "GetJson unjson (spec_get (kv_abs (ks_srv s)) k) = Some (e, of_nat (nputs k (ks_hist s)))"
    using last_put [OF A(4) pos] json_codec.unjson_json [OF codec] by (simp add: GetJson_def)
  then show ?thesis by (auto simp: CheckPutConcurrent_def Let_def kv_simps)
qed

text \<open>The number of puts as a \<open>uint64\<close> against the clients' \<open>int\<close> counts.\<close>

lemma version_le_count: "int n \<le> i \<Longrightarrow> i < 2 ^ 64 \<Longrightarrow> (of_nat n :: Tversion) \<le> of_int i"
  by (simp add: word_le_nat_alt unat_of_nat64 flip: of_nat_nat)

text \<open>\<open>encoding/json\<close> of an \<open>EntryV\<close>.\<close>

definition Marshal_EntryV :: "EntryV \<Rightarrow> string" where
  "Marshal_EntryV e = ''{\"Id\":'' @ itoa_int (ev_Id e) @ '',\"V\":'' @ itoa (unat (ev_V e)) @ ''}''"

definition Unmarshal_EntryV :: "string \<Rightarrow> EntryV option" where
  "Unmarshal_EntryV s =
     (let i = takeWhile (\<lambda>c. c \<noteq> CHR '','') (drop 6 s);
          v = takeWhile (\<lambda>c. c \<noteq> CHR ''}'') (drop 5 (drop (length i) (drop 6 s)))
      in if s = ''{\"Id\":'' @ i @ '',\"V\":'' @ v @ ''}''
         then Some \<lparr>ev_Id = atoi_int i, ev_V = of_nat (atoi v)\<rparr> else None)"

lemma itoa_no: "of_char c \<in> {44 :: nat, 125} \<Longrightarrow> c \<notin> set (itoa n)"
  using itoa_digits [of c n] by auto

lemma itoa_int_no: "of_char c \<in> {44 :: nat, 125} \<Longrightarrow> c \<notin> set (itoa_int i)"
  using itoa_no by (auto simp: itoa_int_def)

lemma takeWhile_sep: "c \<notin> set xs \<Longrightarrow> takeWhile (\<lambda>x. x \<noteq> c) (xs @ c # ys) = xs"
  by (subst takeWhile_append2) auto

interpretation entry_codec: json_codec Marshal_EntryV Unmarshal_EntryV
proof
  fix e :: EntryV
  have 1: "takeWhile (\<lambda>c. c \<noteq> CHR '','') (drop 6 (Marshal_EntryV e)) = itoa_int (ev_Id e)"
    using takeWhile_sep [OF itoa_int_no [of "CHR '',''"], of "ev_Id e"] by (simp add: Marshal_EntryV_def)
  have 2: "takeWhile (\<lambda>c. c \<noteq> CHR ''}'') (drop 5 (drop (length (itoa_int (ev_Id e))) (drop 6 (Marshal_EntryV e)))) = itoa (unat (ev_V e))"
    using takeWhile_sep [OF itoa_no [of "CHR ''}''"], of "unat (ev_V e)" "[]"] by (simp add: Marshal_EntryV_def)
  show "Unmarshal_EntryV (Marshal_EntryV e) = Some e"
    unfolding Unmarshal_EntryV_def 1 Let_def 2 by (simp add: Marshal_EntryV_def)
qed

interpretation put_clients: kv_program "OneClientPut Marshal_EntryV Unmarshal_EntryV randomkeys ka"
  put_known "put_client_ok Marshal_EntryV n ka" "put_hist Marshal_EntryV n ka" for randomkeys ka n
  by (rule put_program) (rule entry_codec.json_codec_axioms)

text \<open>
  C35 (the concurrent put test passes).  Any number of clients run \<open>OneClientPut\<close> on the keys \<open>ka\<close>
  against a key/value server that starts empty, in any interleaving and with requests and replies
  lost, delayed and repeated when the network is unreliable.  Then no client ever calls \<open>Fatalf\<close>
  (no wrong error, no undecodable value, no foreign value under its own version), and once they have
  all returned and counted at least one put to their one key, \<open>CheckPutConcurrent\<close> accepts: on a
  reliable network the server's version is the number of successful puts, on an unreliable one it is at
  most that and the number of \<open>ErrMaybe\<close> answers.
\<close>

theorem put_test_passes:
  assumes "json_codec json unjson" and "put_test_start n s0"
    and "kv_reach (OneClientPut json unjson randomkeys ka) lossy s0 s" and "length (ks_hist s) < 2 ^ 64"
  shows "\<not> ks_failed s \<and>
    (\<forall>k rs. ka = [k] \<and> put_results n s = Some rs \<and> (\<exists>r\<in>set rs. Nok r + Nmaybe r > 0) \<and>
       (lossy \<longrightarrow> (\<Sum>r\<leftarrow>rs. Nok r) + (\<Sum>r\<leftarrow>rs. Nmaybe r) < 2 ^ 64) \<longrightarrow>
       CheckPutConcurrent unjson (ks_srv s) k rs \<lparr>Nok = 0, Nmaybe = 0\<rparr> (\<not> lossy) =
         Some \<lparr>Nok = (\<Sum>r\<leftarrow>rs. Nok r), Nmaybe = (\<Sum>r\<leftarrow>rs. Nmaybe r)\<rparr>)"
proof (intro conjI allI impI)
  note prog = put_program [OF assms(1), of randomkeys ka n]
  note inv = put_test_inv [OF assms]
  note A = kv_program.all_invD [OF prog inv]
  show "\<not> ks_failed s" using kv_program.prog_invD(1) [OF prog A(3)] .
  fix k rs
  assume h: "ka = [k] \<and> put_results n s = Some rs \<and> (\<exists>r\<in>set rs. Nok r + Nmaybe r > 0) \<and>
    (lossy \<longrightarrow> (\<Sum>r\<leftarrow>rs. Nok r) + (\<Sum>r\<leftarrow>rs. Nmaybe r) < 2 ^ 64)"
  have ka: "ka = [k]" and rs: "put_results n s = Some rs" using h by blast+
  note C = put_results_count [OF inv assms(1) rs]
  obtain c where "c < n" "ks_oks s c + ks_maybes s c > 0" using h by (force simp: C(1))
  then have pos: "0 < nputs k (ks_hist s)" using C(3) by (auto simp: some_put_def ka)
  note V = put_results_version [OF inv [unfolded ka] assms(1) rs]
  have "(\<Sum>r\<leftarrow>rs. Nmaybe r) = 0" if "\<not> lossy"
    using no_repeats_reach [of _ s0 s] assms(3) that by (simp add: no_repeats_def C(1) comp_def)
  then have "int (nputs k (ks_hist s)) = (\<Sum>r\<leftarrow>rs. Nok r)" if "\<not> lossy" using V that by simp
  then have "(of_nat (nputs k (ks_hist s)) :: Tversion) = of_int (\<Sum>r\<leftarrow>rs. Nok r)" if "\<not> lossy"
    using that by (metis of_int_of_nat_eq)
  moreover have "(of_nat (nputs k (ks_hist s)) :: Tversion) \<le> of_int ((\<Sum>r\<leftarrow>rs. Nok r) + (\<Sum>r\<leftarrow>rs. Nmaybe r))"
    if "lossy" by (rule version_le_count [OF V(2)]) (use h that in simp)
  ultimately have "CheckPutConcurrent unjson (ks_srv s) k rs \<lparr>Nok = 0, Nmaybe = 0\<rparr> (\<not> lossy) \<noteq> None"
    unfolding put_checked [OF inv [unfolded ka] assms(1) pos] by (cases lossy) (simp_all add: add_results)
  then show "CheckPutConcurrent unjson (ks_srv s) k rs \<lparr>Nok = 0, Nmaybe = 0\<rparr> (\<not> lossy) =
      Some \<lparr>Nok = (\<Sum>r\<leftarrow>rs. Nok r), Nmaybe = (\<Sum>r\<leftarrow>rs. Nmaybe r)\<rparr>"
    by (auto simp: CheckPutConcurrent_def add_results Let_def split: option.splits if_splits)
qed

lemma kv_reach_step: "kv_reach P lossy s0 s \<Longrightarrow> \<exists>ev. kv_step P lossy s ev s' \<Longrightarrow> kv_reach P lossy s0 s'"
  by (auto simp: kv_reach_def intro: rtranclp.rtrancl_into_rtrancl)

text \<open>One client: its put is executed, the reply is lost, the repeated request is refused.\<close>

definition put_demo_start :: "put_client kvsys" where
  "put_demo_start = \<lparr>ks_srv = MakeKVServer, ks_prog = OneClientPut_start 1, ks_call = (\<lambda>_. None),
     ks_sent = {}, ks_failed = False, ks_hist = [], ks_oks = (\<lambda>_. 0), ks_maybes = (\<lambda>_. 0)\<rparr>"

lemmas put_demo_simps =
  OneClientPut_def OnePut_next_def OnePut_put_def OnePut_get_def OneClientPut_select_def OneClientPut_count_def
  OneClientPut_start_def put_demo_start_def go_on_def count_answer_def exec_put_def put_result_def
  KVServer_Put_def KVServer_Get_def MakeKVServer_def GetJson_def PutJson_def entry_codec.unjson_json

lemma put_demo_run:
  "\<exists>s. kv_reach (OneClientPut Marshal_EntryV Unmarshal_EntryV False [''k'']) True put_demo_start s \<and>
     length (ks_hist s) < 2 ^ 64 \<and> put_results 1 s = Some [\<lparr>Nok = 0, Nmaybe = 1\<rparr>]"
proof -
  let ?P = "OneClientPut Marshal_EntryV Unmarshal_EntryV False [''k'']" and ?s0 = put_demo_start
  let ?a = "PutJson Marshal_EntryV ''k'' \<lparr>ev_Id = 0, ev_V = 0\<rparr> 0"
  have r0: "kv_reach ?P True ?s0 ?s0"
    by (simp add: kv_reach_def kv_start_def put_demo_start_def hist_ok_def on_key_def nputs_def)
  define p1 where "p1 = (ks_prog ?s0 0)\<lparr>pcl_pc := AtPutJson ''k'' 0\<rparr>"
  define s1 where "s1 = go_on 0 (Some p1) ?s0"
  have "\<exists>ev. kv_step ?P True ?s0 ev s1"
    unfolding s1_def by (rule exI, rule ks_choose) (simp_all add: p1_def put_demo_simps)
  note r1 = kv_reach_step [OF r0 this]
  define s2 where "s2 = s1\<lparr>ks_call := (ks_call s1)(0 \<mapsto> (?a, True))\<rparr>"
  have "\<exists>ev. kv_step ?P True s1 ev s2"
    unfolding s2_def by (rule exI, rule ks_start) (simp_all add: s1_def p1_def put_demo_simps)
  note r2 = kv_reach_step [OF r1 this]
  obtain t err where t: "exec_put 0 ?a s2 = (t, err)" by fastforce
  define s3 where "s3 = t\<lparr>ks_call := (ks_call t)(0 \<mapsto> (?a, False))\<rparr>"
  have "\<exists>ev. kv_step ?P True s2 ev s3"
    unfolding s3_def by (rule exI, rule ks_reply_lost [OF _ _ t]) (simp_all add: s2_def)
  note r3 = kv_reach_step [OF r2 this]
  obtain u err' where u: "exec_put 0 ?a s3 = (u, err')" by fastforce
  define s4 where "s4 = go_on 0 (p_put ?P (ks_prog s3 0) (put_result False err'))
       (count_answer 0 (put_result False err') (u\<lparr>ks_call := (ks_call u)(0 := None)\<rparr>))"
  have "\<exists>ev. kv_step ?P True s3 ev s4"
    unfolding s4_def by (rule exI, rule ks_reply [OF _ u]) (simp add: s3_def)
  note r4 = kv_reach_step [OF r3 this]
  have s4: "ks_prog s4 0 = p1\<lparr>pcl_pc := AtGetJson ''k'' 0 ErrMaybe\<rparr>" "ks_call s4 0 = None"
      "ks_srv s4 = fst (KVServer_Put MakeKVServer ?a)" "length (ks_hist s4) = 1"
    using t u by (auto simp: s4_def s3_def s2_def s1_def p1_def put_demo_simps)
  define s5 where "s5 = go_on 0 (p_got ?P (ks_prog s4 0) (KVServer_Get (ks_srv s4) \<lparr>ga_Key = ''k''\<rparr>)) s4"
  have "\<exists>ev. kv_step ?P True s4 ev s5"
    unfolding s5_def by (rule exI, rule ks_get [OF s4(2)]) (simp_all add: s4(1) OneClientPut_def OnePut_next_def)
  note r5 = kv_reach_step [OF r4 this]
  define s6 where "s6 = go_on 0 (Some ((ks_prog s5 0)\<lparr>pcl_pc := Returned\<rparr>)) s5"
  have "\<exists>ev. kv_step ?P True s5 ev s6"
    unfolding s6_def
    by (rule exI, rule ks_choose) (simp_all add: s5_def s4 p1_def put_demo_simps)
  note r6 = kv_reach_step [OF r5 this]
  moreover have "put_results 1 s6 = Some [\<lparr>Nok = 0, Nmaybe = 1\<rparr>]"
    by (simp add: put_results_def s6_def s5_def s4 p1_def put_demo_simps)
  moreover have "length (ks_hist s6) < 2 ^ 64" by (simp add: s6_def s5_def s4)
  ultimately show ?thesis by blast
qed

theorem put_test_passes_witness:
  "\<exists>s. put_results 1 s = Some [\<lparr>Nok = 0, Nmaybe = 1\<rparr>] \<and>
     CheckPutConcurrent Unmarshal_EntryV (ks_srv s) ''k'' [\<lparr>Nok = 0, Nmaybe = 1\<rparr>] \<lparr>Nok = 0, Nmaybe = 0\<rparr> False =
       Some \<lparr>Nok = 0, Nmaybe = 1\<rparr>"
proof -
  obtain s where s: "kv_reach (OneClientPut Marshal_EntryV Unmarshal_EntryV False [''k'']) True put_demo_start s"
    "length (ks_hist s) < 2 ^ 64" "put_results 1 s = Some [\<lparr>Nok = 0, Nmaybe = 1\<rparr>]"
    using put_demo_run by blast
  have "put_test_start 1 put_demo_start"
    by (simp add: put_test_start_def kv_start_def put_demo_start_def hist_ok_def on_key_def nputs_def)
  from put_test_passes [OF entry_codec.json_codec_axioms this s(1,2)] s(3) show ?thesis by fastforce
qed

end
