(* ===== verification/KvAppend.thy ===== *)
theory KvAppend
  imports KvTest
begin

text \<open>
  The append test of \<open>kvtest1/kvtest.go\<close>: every client keeps appending \<open>(me, i)\<close> to the list that is the
  value of one key, with \<open>Clerk.Get\<close> and a conditional \<open>Clerk.Put\<close> (\<open>OneClientAppend\<close>), and
  \<open>CheckAppends\<close> accepts the final list only when each client's entries are increasing, no more of
  them are missing than its clerk answered \<open>ErrMaybe\<close>, and the server's version counts them all.
\<close>

text \<open>The source's \<open>entry\<close> and \<open>EntryN\<close>.\<close>

record EntryN =
  en_Id :: int
  en_N :: int

text \<open>At the \<open>select\<close>, in \<open>GetJson\<close>, in \<open>PutJson\<close> with the list read and its version, or returned.\<close>

datatype app_pc = AppSelect | AppGetJson | AppPutJson "EntryN list" Tversion | AppReturned

record app_client =
  acl_me :: int
  acl_i :: int
  acl_pc :: app_pc
  acl_nok :: int
  acl_nmay :: int

definition OneClientAppend_start :: "nat \<Rightarrow> nat \<Rightarrow> app_client" where
  "OneClientAppend_start n c = \<lparr>acl_me = int c, acl_i = 0,
     acl_pc = (if c < n then AppSelect else AppReturned), acl_nok = 0, acl_nmay = 0\<rparr>"

definition OneClientAppend_select :: "app_client \<Rightarrow> app_client \<Rightarrow> bool" where
  "OneClientAppend_select p p' \<longleftrightarrow> p' \<in> {p\<lparr>acl_pc := AppReturned\<rparr>, p\<lparr>acl_pc := AppGetJson\<rparr>}"

definition OneClientAppend_next :: "(EntryN list \<Rightarrow> string) \<Rightarrow> app_client \<Rightarrow> action" where
  "OneClientAppend_next json p = (case acl_pc p of
     AppSelect \<Rightarrow> ActChoose
   | AppGetJson \<Rightarrow> ActGet ''k''
   | AppPutJson es ver \<Rightarrow> ActPut (PutJson json ''k'' (es @ [\<lparr>en_Id = acl_me p, en_N = acl_i p\<rparr>]) ver)
   | AppReturned \<Rightarrow> ActStop)"

definition OneClientAppend_get ::
    "(string \<Rightarrow> EntryN list option) \<Rightarrow> app_client \<Rightarrow> GetReply \<Rightarrow> app_client option" where
  "OneClientAppend_get unjson p r = (case GetJson unjson r of
     None \<Rightarrow> None
   | Some (es, ver) \<Rightarrow> Some (p\<lparr>acl_pc := AppPutJson es ver\<rparr>))"

definition OneClientAppend_put :: "app_client \<Rightarrow> Err \<Rightarrow> app_client option" where
  "OneClientAppend_put p err = Some (
     if err = OK then p\<lparr>acl_nok := acl_nok p + 1, acl_i := acl_i p + 1, acl_pc := AppSelect\<rparr>
     else if err = ErrMaybe then p\<lparr>acl_nmay := acl_nmay p + 1, acl_i := acl_i p + 1, acl_pc := AppSelect\<rparr>
     else p\<lparr>acl_pc := AppGetJson\<rparr>)"

definition OneClientAppend ::
    "(EntryN list \<Rightarrow> string) \<Rightarrow> (string \<Rightarrow> EntryN list option) \<Rightarrow> app_client client_prog" where
  "OneClientAppend json unjson =
     \<lparr>p_next = OneClientAppend_next json, p_got = OneClientAppend_get unjson,
      p_put = OneClientAppend_put, p_choose = OneClientAppend_select\<rparr>"

definition append_results :: "nat \<Rightarrow> app_client kvsys \<Rightarrow> ClntRes list option" where
  "append_results n s = (if list_all (\<lambda>c. acl_pc (ks_prog s c) = AppReturned) [0..<n]
     then Some (map (\<lambda>c. \<lparr>Nok = acl_nok (ks_prog s c), Nmaybe = acl_nmay (ks_prog s c)\<rparr>) [0..<n]) else None)"

section \<open>The check\<close>

text \<open>The maps \<open>expect\<close> and \<open>skipped\<close>; a missing key of a Go map reads as \<open>0\<close>.  \<open>None\<close> is \<open>Fatalf\<close>.\<close>

fun scan_appends :: "EntryN list \<Rightarrow> (int \<Rightarrow> int) \<Rightarrow> (int \<Rightarrow> int) \<Rightarrow> ((int \<Rightarrow> int) \<times> (int \<Rightarrow> int)) option" where
  "scan_appends [] expect skipped = Some (expect, skipped)"
| "scan_appends (e # es) expect skipped =
     (if expect (en_Id e) > en_N e then None
      else if expect (en_Id e) = en_N e
      then scan_appends es (expect(en_Id e := expect (en_Id e) + 1)) skipped
      else scan_appends es (expect(en_Id e := en_N e + 1))
             (skipped(en_Id e := skipped (en_Id e) + (en_N e - expect (en_Id e)))))"

text \<open>The keys of \<open>expect\<close> are the clients and whoever has an entry; \<open>rs[c]\<close> panics out of range.\<close>

definition CheckAppends :: "EntryN list \<Rightarrow> int \<Rightarrow> ClntRes list \<Rightarrow> Tversion \<Rightarrow> bool" where
  "CheckAppends es nclnt rs ver = (case scan_appends es (\<lambda>_. 0) (\<lambda>_. 0) of
     None \<Rightarrow> False
   | Some (expect, skipped) \<Rightarrow> int (length es) + 1 = sint ver \<and>
       list_all (\<lambda>c. case go_get rs c of
           None \<Rightarrow> False
         | Some r \<Rightarrow> \<not> skipped c > Nmaybe r \<and> \<not> expect c > Nok r + Nmaybe r)
         ([0..nclnt - 1] @ map en_Id es))"

text \<open>The numbers a client appended, in the order of the list.\<close>

definition ns_of :: "int \<Rightarrow> EntryN list \<Rightarrow> int list" where
  "ns_of c es = map en_N (filter (\<lambda>e. en_Id e = c) es)"

lemma ns_of_simps [simp]:
  "ns_of c [] = []" "ns_of c (es @ es') = ns_of c es @ ns_of c es'"
  "ns_of c (e # es) = (if en_Id e = c then en_N e # ns_of c es else ns_of c es)"
  by (simp_all add: ns_of_def)

text \<open>What the scan computes when every client's numbers increase.\<close>

lemma scan_appends_increasing:
  assumes "\<And>c. sorted_wrt (<) (ns_of c es)" "\<And>c x. x \<in> set (ns_of c es) \<Longrightarrow> expect c \<le> x"
  shows "\<exists>expect' skipped'. scan_appends es expect skipped = Some (expect', skipped') \<and>
    (\<forall>c. expect' c = (if ns_of c es = [] then expect c else last (ns_of c es) + 1) \<and>
       skipped' c = skipped c + (expect' c - expect c) - int (length (ns_of c es)))"
  using assms
proof (induction es arbitrary: expect skipped)
  case (Cons e es)
  let ?c = "en_Id e"
  let ?expect = "expect(?c := en_N e + 1)"
  let ?skipped = "skipped(?c := skipped ?c + (en_N e - expect ?c))"
  have le: "expect ?c \<le> en_N e" using Cons.prems(2) [of "en_N e" ?c] by simp
  have eq: "scan_appends (e # es) expect skipped = scan_appends es ?expect ?skipped"
    using le by (cases "expect ?c = en_N e") simp_all
  have 1: "sorted_wrt (<) (ns_of c es)" for c using Cons.prems(1) [of c] by (simp split: if_splits)
  have 2: "?expect c \<le> x" if "x \<in> set (ns_of c es)" for c x
    using Cons.prems(1) [of c] Cons.prems(2) [of x c] that by (auto split: if_splits)
  obtain expect' skipped' where r: "scan_appends es ?expect ?skipped = Some (expect', skipped')"
    "\<And>c. expect' c = (if ns_of c es = [] then ?expect c else last (ns_of c es) + 1)"
    "\<And>c. skipped' c = ?skipped c + (expect' c - ?expect c) - int (length (ns_of c es))"
    using Cons.IH [of ?expect ?skipped, OF 1 2] by blast
  have "expect' c = (if ns_of c (e # es) = [] then expect c else last (ns_of c (e # es)) + 1) \<and>
      skipped' c = skipped c + (expect' c - expect c) - int (length (ns_of c (e # es)))" for c
    using r(2,3) [of c] by (cases "?c = c") auto
  then show ?case using r(1) eq by auto
qed auto

section \<open>The clients' invariant\<close>

text \<open>The history of the key and the list it has produced.\<close>

inductive app_hist :: "(EntryN list \<Rightarrow> string) \<Rightarrow> nat \<Rightarrow> (nat option \<times> PutArgs) list \<Rightarrow> EntryN list \<Rightarrow> bool"
  for json :: "EntryN list \<Rightarrow> string" and n :: nat where
  empty_list: "app_hist json n [(None, PutJson json ''k'' [] 0)] []"
| appended: "app_hist json n H es \<Longrightarrow> c < n \<Longrightarrow> 0 \<le> i \<Longrightarrow> (\<And>x. x \<in> set (ns_of (int c) es) \<Longrightarrow> x < i) \<Longrightarrow>
     app_hist json n (H @ [(Some c, PutJson json ''k'' (es @ [\<lparr>en_Id = int c, en_N = i\<rparr>]) ver)])
       (es @ [\<lparr>en_Id = int c, en_N = i\<rparr>])"

lemma PutJson_simps [simp]:
  "pa_Key (PutJson json k v ver) = k" "pa_Value (PutJson json k v ver) = json v"
  "pa_Version (PutJson json k v ver) = ver"
  by (simp_all add: PutJson_def)

lemma app_hist_value: "app_hist json n H es \<Longrightarrow> H \<noteq> [] \<and> pa_Value (snd (last H)) = json es"
  by (induction rule: app_hist.induct) simp_all

lemma app_hist_keys: "app_hist json n H es \<Longrightarrow> on_key ''k'' H = H"
  by (induction rule: app_hist.induct) (simp_all add: on_key_def)

lemma app_hist_length: "app_hist json n H es \<Longrightarrow> length H = length es + 1"
  by (induction rule: app_hist.induct) simp_all

lemma app_hist_unique:
  "json_codec json unjson \<Longrightarrow> app_hist json n H es \<Longrightarrow> app_hist json n H es' \<Longrightarrow> es = es'"
  using app_hist_value json_codec.unjson_json by (metis option.inject)

lemma app_hist_numbers:
  "app_hist json n H es \<Longrightarrow> sorted_wrt (<) (ns_of c es) \<and> (\<forall>x\<in>set (ns_of c es). 0 \<le> x)"
  by (induction rule: app_hist.induct) (auto simp: sorted_wrt_append)

lemma app_hist_ids: "app_hist json n H es \<Longrightarrow> e \<in> set es \<Longrightarrow> 0 \<le> en_Id e \<and> en_Id e < int n"
  by (induction rule: app_hist.induct) auto

lemma app_hist_count: "app_hist json n H es \<Longrightarrow> length (ns_of (int c) es) = length (of_client (Some c) H)"
  by (induction rule: app_hist.induct) (auto simp: of_client_def)

lemma app_hist_snoc:
  assumes "app_hist json n (H @ [(Some d, a)]) es'"
  shows "\<exists>es i. app_hist json n H es \<and> es' = es @ [\<lparr>en_Id = int d, en_N = i\<rparr>]"
  using assms by cases auto

definition app_known :: "app_client \<Rightarrow> string \<Rightarrow> Tversion set" where
  "app_known p k = (case acl_pc p of AppPutJson es ver \<Rightarrow> if k = ''k'' then {ver} else {} | _ \<Rightarrow> {})"

text \<open>
  Of a client: it has used the numbers below \<open>i\<close>, and \<open>i\<close> itself when the put in progress is already
  in the history; the list it read is the key's value as long as its version is current.
\<close>

definition app_used :: "nat \<Rightarrow> app_client \<Rightarrow> (nat option \<times> PutArgs) list \<Rightarrow> EntryN list \<Rightarrow> bool \<Rightarrow> bool" where
  "app_used c p H es w \<longleftrightarrow> (\<forall>x\<in>set (ns_of (int c) es). x < acl_i p \<or>
     x = acl_i p \<and> w \<and> (case acl_pc p of AppPutJson es' ver \<Rightarrow> unat ver < length H | _ \<Rightarrow> False))"

definition app_client_ok ::
    "(EntryN list \<Rightarrow> string) \<Rightarrow> nat \<Rightarrow>
     nat \<Rightarrow> app_client \<Rightarrow> (nat option \<times> PutArgs) list \<Rightarrow> nat \<Rightarrow> nat \<Rightarrow> bool \<Rightarrow> bool" where
  "app_client_ok json n c p H m m' w \<longleftrightarrow> acl_me p = int c \<and> (c < n \<or> acl_pc p = AppReturned) \<and>
     acl_nok p = int m \<and> acl_nmay p = int m' \<and> acl_i p = int m + int m' \<and>
     (\<forall>es. app_hist json n H es \<longrightarrow> app_used c p H es w) \<and>
     (case acl_pc p of AppPutJson es ver \<Rightarrow> unat ver \<le> length H \<and> (unat ver = length H \<longrightarrow> app_hist json n H es)
      | _ \<Rightarrow> True)"

definition app_ok :: "(EntryN list \<Rightarrow> string) \<Rightarrow> nat \<Rightarrow> (nat option \<times> PutArgs) list \<Rightarrow> bool" where
  "app_ok json n H \<longleftrightarrow> (\<exists>es. app_hist json n H es)"

lemma OneClientAppend_next_cases:
  "OneClientAppend_next json p = ActPut a \<Longrightarrow> \<exists>es ver. acl_pc p = AppPutJson es ver \<and>
     a = PutJson json ''k'' (es @ [\<lparr>en_Id = acl_me p, en_N = acl_i p\<rparr>]) ver"
  "OneClientAppend_next json p = ActGet k \<Longrightarrow> acl_pc p = AppGetJson \<and> k = ''k''"
  "OneClientAppend_next json p = ActChoose \<Longrightarrow> acl_pc p = AppSelect"
  by (auto simp: OneClientAppend_next_def split: app_pc.splits)

lemma app_ok_key: "app_ok json n H \<Longrightarrow> nputs ''k'' H = length H"
  using app_hist_keys by (auto simp: app_ok_def nputs_def)

text \<open>The put in progress succeeds: the client's number is new.\<close>

lemma app_own:
  assumes codec: "json_codec json unjson" and I: "app_ok json n H"
    and Q: "app_client_ok json n c p H m m' w" and nx: "OneClientAppend_next json p = ActPut a"
    and ver: "unat (pa_Version a) = nputs (pa_Key a) H"
  shows "app_ok json n (H @ [(Some c, a)])" and "app_client_ok json n c p (H @ [(Some c, a)]) m m' True"
proof -
  let ?e = "\<lparr>en_Id = int c, en_N = acl_i p\<rparr>"
  obtain es v where pc: "acl_pc p = AppPutJson es v" "a = PutJson json ''k'' (es @ [?e]) v"
    using OneClientAppend_next_cases(1) [OF nx] Q by (auto simp: app_client_ok_def)
  have v: "unat v = length H" using ver app_ok_key [OF I] by (simp add: pc(2))
  have q: "c < n" "app_hist json n H es" "app_used c p H es w" "0 \<le> acl_i p"
    using Q v by (auto simp: app_client_ok_def pc(1))
  have "x < acl_i p" if "x \<in> set (ns_of (int c) es)" for x
    using q(3) that v by (auto simp: app_used_def pc(1))
  then have H': "app_hist json n (H @ [(Some c, a)]) (es @ [?e])"
    unfolding pc(2) by (rule app_hist.appended [OF q(2,1,4)])
  then show "app_ok json n (H @ [(Some c, a)])" by (auto simp: app_ok_def)
  have "app_used c p (H @ [(Some c, a)]) es' True" if "app_hist json n (H @ [(Some c, a)]) es'" for es'
    using app_hist_unique [OF codec H' that] q(3) v by (auto simp: app_used_def pc(1))
  then show "app_client_ok json n c p (H @ [(Some c, a)]) m m' True"
    using Q v by (simp add: app_client_ok_def pc(1))
qed

lemma app_other:
  assumes codec: "json_codec json unjson" and I': "app_ok json n (H @ [(Some d, a)])"
    and Q: "app_client_ok json n c p H m m' w" and d: "d \<noteq> c"
  shows "app_client_ok json n c p (H @ [(Some d, a)]) m m' w"
proof -
  have "app_used c p (H @ [(Some d, a)]) es' w" if es': "app_hist json n (H @ [(Some d, a)]) es'" for es'
  proof -
    obtain es i where es: "app_hist json n H es" "es' = es @ [\<lparr>en_Id = int d, en_N = i\<rparr>]"
      using app_hist_snoc [OF es'] by blast
    then have "app_used c p H es w" using Q by (simp add: app_client_ok_def)
    then show ?thesis using d by (auto simp: app_used_def es(2) split: app_pc.splits)
  qed
  then show ?thesis using Q by (auto simp: app_client_ok_def split: app_pc.splits)
qed

lemma append_program:
  assumes codec: "json_codec json unjson"
  shows "kv_program (OneClientAppend json unjson) app_known (app_client_ok json n) (app_ok json n)"
proof (unfold_locales, goal_cases)
  case (1 p a)
  then show ?case by (auto simp: OneClientAppend_def app_known_def dest!: OneClientAppend_next_cases)
next
  case (2 p p' k)
  then show ?case by (auto simp: OneClientAppend_def OneClientAppend_select_def app_known_def)
next
  case (3 p k r p' k')
  then show ?case
    by (auto simp: OneClientAppend_def OneClientAppend_get_def GetJson_def app_known_def
        dest!: OneClientAppend_next_cases split: if_splits option.splits)
next
  case (4 p e p' k)
  then show ?case
    by (auto simp: OneClientAppend_def OneClientAppend_put_def app_known_def split: if_splits)
next
  case (5 H c p m m' w a)
  then show ?case using app_own(1) [OF codec] by (simp add: OneClientAppend_def)
next
  case (6 H c p m m' w a)
  then show ?case using app_own(2) [OF codec] by (simp add: OneClientAppend_def)
next
  case (7 H d a c p m m' w)
  then show ?case using app_other [OF codec] by blast
next
  case (8 c p H m m' a)
  then show ?case by (auto simp: app_client_ok_def app_used_def)
next
  case (9 c p H m m' p')
  then show ?case
    by (auto simp: OneClientAppend_def OneClientAppend_select_def app_client_ok_def app_used_def
        dest!: OneClientAppend_next_cases)
next
  case (10 H c p m m' k srv)
  then obtain es where es: "app_hist json n H es" by (auto simp: app_ok_def)
  have pc: "acl_pc p = AppGetJson" "k = ''k''"
    using 10(3) by (auto simp: OneClientAppend_def dest: OneClientAppend_next_cases)
  have n: "nputs ''k'' H = length H" "0 < length H" "on_key ''k'' H = H"
    using app_ok_key [OF 10(1)] app_hist_length [OF es] app_hist_keys [OF es] by simp_all
  then have "GetJson unjson (spec_get (kv_abs srv) ''k'') = Some (es, of_nat (length H))"
    using last_put [OF 10(4), of "''k''"] app_hist_value [OF es] json_codec.unjson_json [OF codec]
    by (simp add: GetJson_def)
  then show ?case using 10(2,5) es pc(1)
    by (auto simp: pc(2) OneClientAppend_def OneClientAppend_get_def app_client_ok_def app_used_def unat_of_nat64)
next
  case (11 H c p m m' err a)
  then obtain es ver where pc: "acl_pc p = AppPutJson es ver"
    by (auto simp: OneClientAppend_def dest: OneClientAppend_next_cases)
  have "x < acl_i p + 1 \<and> (err = ErrVersion \<longrightarrow> x < acl_i p)"
    if "app_hist json n H es'" "x \<in> set (ns_of (int c) es')" for es' x
    using 11(2) that by (fastforce simp: app_client_ok_def app_used_def)
  then show ?case using 11(2,4) pc
    by (auto simp: OneClientAppend_def OneClientAppend_put_def app_client_ok_def app_used_def)
qed

definition append_test_start :: "(EntryN list \<Rightarrow> string) \<Rightarrow> nat \<Rightarrow> app_client kvsys \<Rightarrow> bool" where
  "append_test_start json n s \<longleftrightarrow> kv_start s \<and> ks_hist s = [(None, PutJson json ''k'' [] 0)] \<and>
     ks_prog s = OneClientAppend_start n"

lemma append_test_inv:
  assumes codec: "json_codec json unjson" and start: "append_test_start json n s0"
    and reach: "kv_reach (OneClientAppend json unjson) lossy s0 s" and len: "length (ks_hist s) < 2 ^ 64"
  shows "kv_program.all_inv (OneClientAppend json unjson) app_known (app_client_ok json n) (app_ok json n) s"
proof -
  note prog = append_program [OF codec, of n]
  have H: "app_hist json n [(None, PutJson json ''k'' [] 0)] []" by (rule app_hist.empty_list)
  have H0: "es = []" if "app_hist json n [(None, PutJson json ''k'' [] 0)] es" for es
    using app_hist_unique [OF codec H that] by simp
  have "kv_program.all_inv (OneClientAppend json unjson) app_known (app_client_ok json n) (app_ok json n) s0"
    using start H by (intro kv_program.all_inv_start [OF prog])
      (auto simp: append_test_start_def OneClientAppend_start_def app_known_def app_ok_def app_client_ok_def
        app_used_def intro: H dest!: H0 split: app_pc.splits if_splits)
  then show ?thesis using kv_program.all_inv_reach [OF prog reach _ len] by simp
qed

lemma append_results_count:
  assumes inv: "kv_program.all_inv (OneClientAppend json unjson) app_known (app_client_ok json n) (app_ok json n) s"
    and codec: "json_codec json unjson" and rs: "append_results n s = Some rs" and es: "app_hist json n (ks_hist s) es"
  shows "rs = map (\<lambda>c. \<lparr>Nok = int (ks_oks s c), Nmaybe = int (ks_maybes s c)\<rparr>) [0..<n]"
    and "c < n \<Longrightarrow> int (ks_oks s c) \<le> int (length (ns_of (int c) es))"
    and "c < n \<Longrightarrow> x \<in> set (ns_of (int c) es) \<Longrightarrow> x < int (ks_oks s c) + int (ks_maybes s c)"
proof -
  note prog = append_program [OF codec, of n]
  note P = kv_program.prog_invD [OF prog kv_program.all_invD(3) [OF prog inv]]
  have ret: "acl_pc (ks_prog s c) = AppReturned" if "c < n" for c
    using rs that by (auto simp: append_results_def list_all_iff split: if_splits)
  show "rs = map (\<lambda>c. \<lparr>Nok = int (ks_oks s c), Nmaybe = int (ks_maybes s c)\<rparr>) [0..<n]"
    using rs P(3) by (auto simp: append_results_def app_client_ok_def split: if_splits)
  show "c < n \<Longrightarrow> int (ks_oks s c) \<le> int (length (ns_of (int c) es))"
    using answers_okD(4) [OF kv_program.all_invD(1) [OF prog inv], of c] app_hist_count [OF es, of c] by simp
  show "c < n \<Longrightarrow> x \<in> set (ns_of (int c) es) \<Longrightarrow> x < int (ks_oks s c) + int (ks_maybes s c)"
    using P(3) [of c] es ret [of c] by (auto simp: app_client_ok_def app_used_def)
qed

text \<open>A list whose entries are the clients', with increasing numbers and as many as were answered, is accepted.\<close>

lemma CheckAppends_accepts:
  assumes es: "app_hist json n H es" and ver: "sint ver = int (length H)"
    and rs: "rs = map (\<lambda>c. \<lparr>Nok = int (oks c), Nmaybe = int (maybes c)\<rparr>) [0..<n]"
    and oks: "\<And>c. c < n \<Longrightarrow> int (oks c) \<le> int (length (ns_of (int c) es))"
    and used: "\<And>c x. c < n \<Longrightarrow> x \<in> set (ns_of (int c) es) \<Longrightarrow> x < int (oks c) + int (maybes c)"
  shows "CheckAppends es (int n) rs ver"
proof -
  obtain expect skipped where scan: "scan_appends es (\<lambda>_. 0) (\<lambda>_. 0) = Some (expect, skipped)"
    "\<And>c. expect c = (if ns_of c es = [] then 0 else last (ns_of c es) + 1)"
    "\<And>c. skipped c = 0 + (expect c - 0) - int (length (ns_of c es))"
    using scan_appends_increasing [of es "\<lambda>_. 0" "\<lambda>_. 0"] app_hist_numbers [OF es] by blast
  have ok: "go_get rs c = Some \<lparr>Nok = int (oks (nat c)), Nmaybe = int (maybes (nat c))\<rparr> \<and>
      skipped c \<le> int (maybes (nat c)) \<and> expect c \<le> int (oks (nat c)) + int (maybes (nat c))"
    if "0 \<le> c" "c < int n" for c
  proof -
    have "nat c < n" "int (nat c) = c" using that by simp_all
    then show ?thesis
      using scan(2,3) [of c] oks [OF \<open>nat c < n\<close>] used [OF \<open>nat c < n\<close>, of "last (ns_of c es)"] that
      by (auto simp: go_get_def rs)
  qed
  have "0 \<le> c \<and> c < int n" if "c \<in> set ([0..int n - 1] @ map en_Id es)" for c
    using that app_hist_ids [OF es] by auto
  then have "case go_get rs c of None \<Rightarrow> False
      | Some r \<Rightarrow> \<not> skipped c > Nmaybe r \<and> \<not> expect c > Nok r + Nmaybe r"
    if "c \<in> set ([0..int n - 1] @ map en_Id es)" for c using ok [of c] that by fastforce
  then show ?thesis
    using app_hist_length [OF es] ver unfolding CheckAppends_def scan(1) list_all_iff by simp
qed

text \<open>
  C37 (the append test passes).  Any number of clients run \<open>OneClientAppend\<close> against a key/value server
  that holds the empty list, in any interleaving and with requests and replies lost, delayed and
  repeated.  No client ever calls \<open>Fatalf\<close>, and when they have all returned, \<open>CheckAppends\<close> accepts the
  list at the server: each client's numbers increase, no more of them are missing than its clerk
  answered \<open>ErrMaybe\<close>, and the version counts the appends.
\<close>

theorem append_test_passes:
  assumes "json_codec json unjson" and "append_test_start json n s0"
    and "kv_reach (OneClientAppend json unjson) lossy s0 s" and "length (ks_hist s) < 2 ^ 63"
  shows "\<not> ks_failed s \<and>
    (\<forall>rs. append_results n s = Some rs \<longrightarrow>
       (\<exists>es ver. GetJson unjson (KVServer_Get (ks_srv s) \<lparr>ga_Key = ''k''\<rparr>) = Some (es, ver) \<and>
          CheckAppends es (int n) rs ver))"
proof (intro conjI allI impI)
  note prog = append_program [OF assms(1), of n]
  have inv: "kv_program.all_inv (OneClientAppend json unjson) app_known (app_client_ok json n) (app_ok json n) s"
    by (rule append_test_inv [OF assms(1-3)]) (use assms(4) in simp)
  note A = kv_program.all_invD [OF prog inv] and P = kv_program.prog_invD [OF prog kv_program.all_invD(3) [OF prog inv]]
  show "\<not> ks_failed s" using P(1) .
  fix rs assume rs: "append_results n s = Some rs"
  obtain es where es: "app_hist json n (ks_hist s) es" using P(2) by (auto simp: app_ok_def)
  have n: "nputs ''k'' (ks_hist s) = length (ks_hist s)" "on_key ''k'' (ks_hist s) = ks_hist s"
    using app_ok_key [OF P(2)] app_hist_keys [OF es] by simp_all
  have get: "GetJson unjson (KVServer_Get (ks_srv s) \<lparr>ga_Key = ''k''\<rparr>) = Some (es, of_nat (length (ks_hist s)))"
    using last_put [OF A(4), of "''k''"] n app_hist_value [OF es] json_codec.unjson_json [OF assms(1)]
    by (simp add: GetJson_def kv_simps)
  have "sint (of_nat (length (ks_hist s)) :: Tversion) = int (length (ks_hist s))"
    using assms(4) by (simp add: signed_of_nat signed_take_bit_int_eq_self)
  then have "CheckAppends es (int n) rs (of_nat (length (ks_hist s)))"
    by (rule CheckAppends_accepts [OF es _ append_results_count [OF inv assms(1) rs es]])
  then show "\<exists>es ver. GetJson unjson (KVServer_Get (ks_srv s) \<lparr>ga_Key = ''k''\<rparr>) = Some (es, ver) \<and>
      CheckAppends es (int n) rs ver" using get by blast
qed

text \<open>\<open>encoding/json\<close> of a list of entries, and of a reader for what it prints.\<close>

definition Marshal_EntryN :: "EntryN \<Rightarrow> string" where
  "Marshal_EntryN e = ''{\"Id\":'' @ itoa_int (en_Id e) @ '',\"N\":'' @ itoa_int (en_N e) @ ''}''"

fun entries_text :: "EntryN list \<Rightarrow> string" where
  "entries_text [] = '']''"
| "entries_text (e # es) = Marshal_EntryN e @ (if es = [] then '']'' else '','' @ entries_text es)"

definition Marshal_entries :: "EntryN list \<Rightarrow> string" where
  "Marshal_entries es = ''['' @ entries_text es"

fun read_entries :: "nat \<Rightarrow> string \<Rightarrow> EntryN list" where
  "read_entries 0 s = []"
| "read_entries (Suc fuel) s =
     (if take 1 s \<noteq> ''{'' then []
      else let i = takeWhile (\<lambda>c. c \<noteq> CHR '','') (drop 6 s);
               s = drop 5 (drop (length i) (drop 6 s));
               v = takeWhile (\<lambda>c. c \<noteq> CHR ''}'') s
           in \<lparr>en_Id = atoi_int i, en_N = atoi_int v\<rparr> # read_entries fuel (drop 2 (drop (length v) s)))"

definition Unmarshal_entries :: "string \<Rightarrow> EntryN list option" where
  "Unmarshal_entries s =
     (let es = read_entries (length s) (drop 1 s) in if s = Marshal_entries es then Some es else None)"

lemma entries_text_length: "length es < length (entries_text es)"
  by (induction es rule: entries_text.induct) (auto simp: Marshal_EntryN_def)

lemma read_entries_text: "length es \<le> fuel \<Longrightarrow> read_entries fuel (entries_text es) = es"
proof (induction fuel arbitrary: es)
  case (Suc fuel)
  show ?case
  proof (cases es)
    case (Cons e es')
    let ?t = "if es' = [] then '']'' else '','' @ entries_text es'"
    have 1: "takeWhile (\<lambda>c. c \<noteq> CHR '','') (drop 6 (Marshal_EntryN e @ ?t)) = itoa_int (en_Id e)"
      using takeWhile_sep [OF itoa_int_no [of "CHR '',''"], of "en_Id e"] by (simp add: Marshal_EntryN_def)
    have 2: "drop 5 (drop (length (itoa_int (en_Id e))) (drop 6 (Marshal_EntryN e @ ?t))) =
        itoa_int (en_N e) @ CHR ''}'' # ?t"
      by (simp add: Marshal_EntryN_def)
    have 3: "takeWhile (\<lambda>c. c \<noteq> CHR ''}'') (itoa_int (en_N e) @ CHR ''}'' # ?t) = itoa_int (en_N e)"
      by (rule takeWhile_sep) (simp add: itoa_int_no)
    have 4: "take 1 (Marshal_EntryN e @ ?t) = ''{''" by (simp add: Marshal_EntryN_def)
    have 5: "read_entries fuel (drop 2 (CHR ''}'' # ?t)) = es'"
    proof (cases "es' = []")
      case True
      then show ?thesis by (cases fuel) simp_all
    next
      case False
      then show ?thesis using Suc.IH [of es'] Suc.prems Cons by (simp del: entries_text.simps read_entries.simps)
    qed
    show ?thesis
      by (simp only: Cons entries_text.simps read_entries.simps 4 Let_def 1 2 3) (use 5 in simp)
  qed simp
qed simp

interpretation entries_codec: json_codec Marshal_entries Unmarshal_entries
proof
  fix es
  have "length es \<le> length (Marshal_entries es)"
    using entries_text_length [of es] by (simp add: Marshal_entries_def)
  then have "read_entries (length (Marshal_entries es)) (entries_text es) = es" by (rule read_entries_text)
  then show "Unmarshal_entries (Marshal_entries es) = Some es"
    by (simp add: Unmarshal_entries_def Marshal_entries_def Let_def)
qed

interpretation append_clients: kv_program "OneClientAppend Marshal_entries Unmarshal_entries"
  app_known "app_client_ok Marshal_entries n" "app_ok Marshal_entries n" for n
  by (rule append_program) (rule entries_codec.json_codec_axioms)

definition append_demo_start :: "app_client kvsys" where
  "append_demo_start = \<lparr>ks_srv = fst (KVServer_Put MakeKVServer (PutJson Marshal_entries ''k'' [] 0)),
     ks_prog = OneClientAppend_start 1, ks_call = (\<lambda>_. None), ks_sent = {}, ks_failed = False,
     ks_hist = [(None, PutJson Marshal_entries ''k'' [] 0)], ks_oks = (\<lambda>_. 0), ks_maybes = (\<lambda>_. 0)\<rparr>"

lemmas append_demo_simps =
  OneClientAppend_def OneClientAppend_next_def OneClientAppend_put_def OneClientAppend_get_def
  OneClientAppend_select_def OneClientAppend_start_def append_demo_start_def go_on_def count_answer_def
  exec_put_def put_result_def KVServer_Put_def KVServer_Get_def MakeKVServer_def GetJson_def PutJson_def
  entries_codec.unjson_json

lemma append_demo_begins: "append_test_start Marshal_entries 1 append_demo_start"
  by (auto simp: append_test_start_def kv_start_def append_demo_start_def hist_ok_def on_key_def nputs_def
      kv_abs_def KVServer_Put_def MakeKVServer_def PutJson_def)

lemma append_demo_run:
  "\<exists>s. kv_reach (OneClientAppend Marshal_entries Unmarshal_entries) False append_demo_start s \<and>
     length (ks_hist s) < 2 ^ 63 \<and> append_results 1 s = Some [\<lparr>Nok = 1, Nmaybe = 0\<rparr>]"
proof -
  let ?P = "OneClientAppend Marshal_entries Unmarshal_entries" and ?s0 = append_demo_start
  let ?a = "PutJson Marshal_entries ''k'' [\<lparr>en_Id = 0, en_N = 0\<rparr>] 1"
  have r0: "kv_reach ?P False ?s0 ?s0"
    using append_demo_begins by (simp add: kv_reach_def append_test_start_def)
  define s1 where "s1 = go_on 0 (Some ((ks_prog ?s0 0)\<lparr>acl_pc := AppGetJson\<rparr>)) ?s0"
  have "\<exists>ev. kv_step ?P False ?s0 ev s1"
    unfolding s1_def by (rule exI, rule ks_choose) (simp_all add: append_demo_simps)
  note r1 = kv_reach_step [OF r0 this]
  define s2 where "s2 = go_on 0 (p_got ?P (ks_prog s1 0) (KVServer_Get (ks_srv s1) \<lparr>ga_Key = ''k''\<rparr>)) s1"
  have "\<exists>ev. kv_step ?P False s1 ev s2"
    unfolding s2_def by (rule exI, rule ks_get) (simp_all add: s1_def append_demo_simps)
  note r2 = kv_reach_step [OF r1 this]
  define s3 where "s3 = s2\<lparr>ks_call := (ks_call s2)(0 \<mapsto> (?a, True))\<rparr>"
  have "\<exists>ev. kv_step ?P False s2 ev s3"
    unfolding s3_def by (rule exI, rule ks_start) (simp_all add: s2_def s1_def append_demo_simps)
  note r3 = kv_reach_step [OF r2 this]
  obtain t err where t: "exec_put 0 ?a s3 = (t, err)" by fastforce
  define s4 where "s4 = go_on 0 (p_put ?P (ks_prog s3 0) (put_result True err))
       (count_answer 0 (put_result True err) (t\<lparr>ks_call := (ks_call t)(0 := None)\<rparr>))"
  have "\<exists>ev. kv_step ?P False s3 ev s4"
    unfolding s4_def by (rule exI, rule ks_reply [OF _ t]) (simp add: s3_def)
  note r4 = kv_reach_step [OF r3 this]
  have s4: "acl_pc (ks_prog s4 0) = AppSelect" "acl_nok (ks_prog s4 0) = 1" "acl_nmay (ks_prog s4 0) = 0"
      "ks_call s4 0 = None" "length (ks_hist s4) = 2"
    using t by (auto simp: s4_def s3_def s2_def s1_def append_demo_simps)
  define s5 where "s5 = go_on 0 (Some ((ks_prog s4 0)\<lparr>acl_pc := AppReturned\<rparr>)) s4"
  have "\<exists>ev. kv_step ?P False s4 ev s5"
    unfolding s5_def by (rule exI, rule ks_choose) (simp_all add: s4 OneClientAppend_def OneClientAppend_next_def OneClientAppend_select_def)
  note r5 = kv_reach_step [OF r4 this]
  moreover have "append_results 1 s5 = Some [\<lparr>Nok = 1, Nmaybe = 0\<rparr>]"
    by (simp add: append_results_def s5_def s4 go_on_def)
  moreover have "length (ks_hist s5) < 2 ^ 63" by (simp add: s5_def s4)
  ultimately show ?thesis by blast
qed

theorem append_test_passes_witness:
  "\<exists>s es ver. append_results 1 s = Some [\<lparr>Nok = 1, Nmaybe = 0\<rparr>] \<and>
     GetJson Unmarshal_entries (KVServer_Get (ks_srv s) \<lparr>ga_Key = ''k''\<rparr>) = Some (es, ver) \<and>
     CheckAppends es 1 [\<lparr>Nok = 1, Nmaybe = 0\<rparr>] ver"
proof -
  obtain s where s: "kv_reach (OneClientAppend Marshal_entries Unmarshal_entries) False append_demo_start s"
    "length (ks_hist s) < 2 ^ 63" "append_results 1 s = Some [\<lparr>Nok = 1, Nmaybe = 0\<rparr>]"
    using append_demo_run by blast
  from append_test_passes [OF entries_codec.json_codec_axioms append_demo_begins s(1,2)] s(3)
  show ?thesis by fastforce
qed

end
