(* ===== verification/PorcModel.thy ===== *)
theory PorcModel
  imports KvRaft "HOL-Library.Finite_Map" "HOL-Library.List_Lexorder" "HOL-Library.Char_ord"
begin

text \<open>
  The specification the tests check histories against (\<open>src/models1/kv.go\<close>): the porcupine model
  of one key, its step function and the partition of a history by key.  The checker itself
  (\<open>github.com/anishathalye/porcupine\<close>) is not in the repository; what is shown here is that the
  histories the services produce are accepted step by step, in the order they were executed, and
  exactly where they are not.
\<close>

section \<open>The model\<close>

record KvInput =
  in_Op :: "8 word"
  in_Key :: string
  in_Value :: string
  in_Version :: "64 word"

record KvOutput =
  out_Value :: string
  out_Version :: "64 word"
  out_Err :: Err

record KvState =
  st_Value :: string
  st_Version :: "64 word"

type_synonym porc_op = "KvInput \<times> KvOutput"

text \<open>\<open>m[key] = append(m[key], v)\<close> for every operation, then the groups in the order of the keys.\<close>

definition part_step :: "porc_op \<Rightarrow> (string, porc_op list) fmap \<Rightarrow> (string, porc_op list) fmap" where
  "part_step v m =
     (let key = in_Key (fst v);
          old = (case fmlookup m key of None \<Rightarrow> [] | Some l \<Rightarrow> l)
      in fmupd key (old @ [v]) m)"

definition KvModel_Partition :: "porc_op list \<Rightarrow> porc_op list list" where
  "KvModel_Partition history =
     (let m = fold part_step history fmempty
      in map (\<lambda>k. the (fmlookup m k)) (sorted_list_of_fset (fmdom m)))"

definition KvModel_Init :: KvState where
  "KvModel_Init = \<lparr>st_Value = '''', st_Version = 0\<rparr>"

text \<open>\<open>None\<close> is the state \<open>"<invalid>"\<close>.\<close>

definition KvModel_Step :: "KvState \<Rightarrow> KvInput \<Rightarrow> KvOutput \<Rightarrow> bool \<times> KvState option" where
  "KvModel_Step st inp out =
     (if in_Op inp = 0 then (out_Value out = st_Value st, Some st)
      else if in_Op inp = 1 then
        if st_Version st = in_Version inp
        then (out_Err out = OK \<or> out_Err out = ErrMaybe,
              Some \<lparr>st_Value = in_Value inp, st_Version = st_Version st + 1\<rparr>)
        else (out_Err out = ErrVersion \<or> out_Err out = ErrMaybe, Some st)
      else (False, None))"

text \<open>A sequential history is accepted when every step is.\<close>

fun steps_ok :: "KvState \<Rightarrow> porc_op list \<Rightarrow> bool" where
  "steps_ok st [] \<longleftrightarrow> True"
| "steps_ok st ((inp, out) # ops) \<longleftrightarrow>
     (case KvModel_Step st inp out of
        (ok, Some st') \<Rightarrow> ok \<and> steps_ok st' ops
      | (ok, None) \<Rightarrow> False)"

section \<open>Histories of a key/value state machine\<close>

datatype kv_call = CallGet string | CallPut PutArgs

definition get_op :: "string \<Rightarrow> GetReply \<Rightarrow> porc_op" where
  "get_op k r = (\<lparr>in_Op = 0, in_Key = k, in_Value = '''', in_Version = 0\<rparr>,
     \<lparr>out_Value = gr_Value r, out_Version = gr_Version r, out_Err = gr_Err r\<rparr>)"

definition put_op :: "PutArgs \<Rightarrow> Err \<Rightarrow> porc_op" where
  "put_op a e = (\<lparr>in_Op = 1, in_Key = pa_Key a, in_Value = pa_Value a, in_Version = pa_Version a\<rparr>,
     \<lparr>out_Value = '''', out_Version = 0, out_Err = e\<rparr>)"

fun history :: "('s \<Rightarrow> string \<Rightarrow> GetReply) \<Rightarrow> ('s \<Rightarrow> PutArgs \<Rightarrow> 's \<times> Err) \<Rightarrow> 's \<Rightarrow> kv_call list \<Rightarrow> porc_op list" where
  "history get put s [] = []"
| "history get put s (CallGet k # cs) = get_op k (get s k) # history get put s cs"
| "history get put s (CallPut a # cs) =
     put_op a (snd (put s a)) # history get put (fst (put s a)) cs"

text \<open>The model's state of a key in a store; a missing key is the empty value of version 0.\<close>

definition key_state :: "store \<Rightarrow> string \<Rightarrow> KvState" where
  "key_state m k = (case m k of
     Some (v, n) \<Rightarrow> \<lparr>st_Value = v, st_Version = n\<rparr> | None \<Rightarrow> KvModel_Init)"

lemma key_state_version: "st_Version (key_state m k) = current_version m k"
  by (simp add: key_state_def current_version_def KvModel_Init_def split: option.splits)

lemma step_get: "KvModel_Step (key_state m k) (fst (get_op k (spec_get m k))) (snd (get_op k (spec_get m k)))
    = (True, Some (key_state m k))"
  by (auto simp: KvModel_Step_def get_op_def key_state_def spec_get_def KvModel_Init_def
      split: option.splits)

lemma step_put:
  assumes "snd (spec_put m a) \<noteq> ErrNoKey"
  shows "KvModel_Step (key_state m (pa_Key a)) (fst (put_op a (snd (spec_put m a))))
      (snd (put_op a (snd (spec_put m a)))) = (True, Some (key_state (fst (spec_put m a)) (pa_Key a)))"
proof (cases "pa_Version a = current_version m (pa_Key a)")
  case True
  then show ?thesis
    by (simp add: KvModel_Step_def put_op_def key_state_version spec_put_def)
      (simp add: key_state_def)
next
  case False
  then show ?thesis
    using assms by (auto simp: KvModel_Step_def put_op_def key_state_version spec_put_def
        split: if_splits)
qed

text \<open>An \<open>ErrNoKey\<close> answer of a \<open>Put\<close> is not in the model.\<close>

lemma step_put_nokey:
  "snd (spec_put m a) = ErrNoKey \<Longrightarrow>
     \<not> fst (KvModel_Step (key_state m (pa_Key a)) (fst (put_op a ErrNoKey)) (snd (put_op a ErrNoKey)))"
  by (auto simp: KvModel_Step_def put_op_def key_state_version spec_put_def split: if_splits)

lemma in_Key_ops [simp]: "in_Key (fst (get_op k r)) = k" "in_Key (fst (put_op a e)) = pa_Key a"
  by (simp_all add: get_op_def put_op_def)

section \<open>The partition\<close>

definition by_key :: "string \<Rightarrow> porc_op list \<Rightarrow> porc_op list" where
  "by_key k h = filter (\<lambda>v. in_Key (fst v) = k) h"

lemma part_fold:
  "fmlookup (fold part_step h m) k =
     (if by_key k h = [] then fmlookup m k
      else Some ((case fmlookup m k of None \<Rightarrow> [] | Some l \<Rightarrow> l) @ by_key k h))"
proof (induction h arbitrary: m)
  case (Cons v h)
  show ?case
    using Cons [of "part_step v m"] by (auto simp: part_step_def by_key_def Let_def split: option.splits)
qed (simp add: by_key_def)

lemma part_dom: "fset (fmdom (fold part_step h fmempty)) = (\<lambda>v. in_Key (fst v)) ` set h"
proof -
  have "k \<in> fset (fmdom (fold part_step h fmempty)) \<longleftrightarrow> by_key k h \<noteq> []" for k
    using part_fold [of h fmempty k] by (metis fmdom_notI fmdomI fmempty_lookup option.distinct(1))
  then show ?thesis by (auto simp: by_key_def filter_empty_conv)
qed

lemma Partition_eq:
  "KvModel_Partition h = map (\<lambda>k. by_key k h) (sorted_list_of_set ((\<lambda>v. in_Key (fst v)) ` set h))"
proof -
  have "the (fmlookup (fold part_step h fmempty) k) = by_key k h"
    if "k \<in> (\<lambda>v. in_Key (fst v)) ` set h" for k
  proof -
    have "by_key k h \<noteq> []" using that by (auto simp: by_key_def filter_empty_conv)
    then show ?thesis by (simp add: part_fold)
  qed
  then show ?thesis
    by (simp add: KvModel_Partition_def sorted_list_of_fset.rep_eq part_dom)
qed

context cas_store
begin

text \<open>Restricted to a key, a history without an \<open>ErrNoKey\<close> answer to a \<open>Put\<close> is accepted.\<close>

lemma history_accepted:
  assumes "\<forall>v \<in> set (history get put s cs). in_Op (fst v) = 1 \<longrightarrow> out_Err (snd v) \<noteq> ErrNoKey"
  shows "steps_ok (key_state (tab s) k) (by_key k (history get put s cs))"
  using assms
proof (induction cs arbitrary: s)
  case (Cons c cs)
  show ?case
  proof (cases c)
    case (CallGet k')
    then have "steps_ok (key_state (tab s) k) (by_key k (history get put s cs))"
      using Cons by simp
    then show ?thesis
      using step_get [of "tab s" k'] CallGet get_law [of s k']
        in_Key_ops(1) [of k' "spec_get (tab s) k'"]
      by (cases "get_op k' (spec_get (tab s) k')") (auto simp: by_key_def)
  next
    case (CallPut a)
    let ?s = "fst (put s a)"
    have ne: "snd (spec_put (tab s) a) \<noteq> ErrNoKey"
      using Cons.prems CallPut by (simp add: put_op_def put_err)
    have "steps_ok (key_state (tab ?s) k) (by_key k (history get put ?s cs))"
      using Cons CallPut by simp
    moreover have "key_state (tab ?s) k = key_state (tab s) k" if "k \<noteq> pa_Key a"
      using that by (simp add: key_state_def put_tab spec_put_other)
    ultimately show ?thesis
      using step_put [OF ne] CallPut in_Key_ops(2) [of a "snd (spec_put (tab s) a)"]
      by (cases "put_op a (snd (spec_put (tab s) a))") (auto simp: by_key_def put_err put_tab)
  qed
qed (simp add: by_key_def)

end

section \<open>Properties\<close>

text \<open>
  The partition.  \<open>Partition\<close> splits a history into its keys' sub-histories: every group is
  not empty and holds exactly the operations on one key in their order, the groups are sorted by
  key, and every operation is in the group of its key.
\<close>

theorem Partition_correct:
  "KvModel_Partition h = map (\<lambda>k. filter (\<lambda>v. in_Key (fst v) = k) h)
     (sorted_list_of_set ((\<lambda>v. in_Key (fst v)) ` set h)) \<and>
   [] \<notin> set (KvModel_Partition h) \<and> \<Union> (set ` set (KvModel_Partition h)) = set h"
  by (fastforce simp: Partition_eq by_key_def filter_empty_conv dest!: sym [of "[]"])

text \<open>
  C26 (the services pass the checker).  Execute any sequence of \<open>Get\<close>s and \<open>Put\<close>s at the lab 2
  server or at a replica of the lab 4 service, starting empty.  If no \<open>Put\<close> is answered
  \<open>ErrNoKey\<close>, every partition of the recorded history is accepted by \<open>KvModel.Step\<close> in the
  order of execution.
\<close>

theorem services_pass_checker:
  fixes cs :: "kv_call list"
  defines "h1 \<equiv> history (\<lambda>kv k. KVServer_Get kv \<lparr>ga_Key = k\<rparr>) kv_put MakeKVServer cs"
    and "h2 \<equiv> history kr_get kr_put \<lparr>kr_me = 0, kr_dead = 0, kr_table = Map.empty\<rparr> cs"
  assumes "h \<in> {h1, h2}"
    and "\<forall>v \<in> set h. in_Op (fst v) = 1 \<longrightarrow> out_Err (snd v) \<noteq> ErrNoKey"
  shows "\<forall>part \<in> set (KvModel_Partition h). steps_ok KvModel_Init part"
proof
  fix part assume "part \<in> set (KvModel_Partition h)"
  then obtain k where k: "part = by_key k h" by (auto simp: Partition_eq)
  have init: "key_state (kv_abs MakeKVServer) k = KvModel_Init"
    "key_state (kr_abs \<lparr>kr_me = 0, kr_dead = 0, kr_table = Map.empty\<rparr>) k = KvModel_Init"
    by (simp_all add: key_state_def kr_abs_def)
  show "steps_ok KvModel_Init part"
    using assms(3) kvsrv.history_accepted [of MakeKVServer cs k]
      kvraft.history_accepted [of "\<lparr>kr_me = 0, kr_dead = 0, kr_table = Map.empty\<rparr>" cs k]
      assms(4) init by (auto simp: k h1_def h2_def)
qed

definition demo_calls :: "kv_call list" where
  "demo_calls = [CallGet ''k'', CallPut \<lparr>pa_Key = ''k'', pa_Value = ''x'', pa_Version = 0\<rparr>,
     CallPut \<lparr>pa_Key = ''k'', pa_Value = ''y'', pa_Version = 0\<rparr>, CallGet ''k'']"

theorem services_pass_checker_witness:
  "list_all (steps_ok KvModel_Init) (KvModel_Partition
      (history (\<lambda>kv k. KVServer_Get kv \<lparr>ga_Key = k\<rparr>) kv_put MakeKVServer demo_calls))"
  unfolding list_all_iff by (rule services_pass_checker [of _ demo_calls])
    (auto simp: demo_calls_def kv_put_def KVServer_Put_def KVServer_Get_def MakeKVServer_def
      get_op_def put_op_def)

text \<open>
  Where the checker and the servers disagree.  A \<open>Put\<close> with a non-zero version on a missing
  key is answered \<open>ErrNoKey\<close>, as the comment on \<open>Put\<close> promises, but the model accepts only
  \<open>ErrVersion\<close> or \<open>ErrMaybe\<close> there: a history that contains this answer fails the check.
\<close>

theorem checker_rejects_ErrNoKey:
  assumes "pa_Version a \<noteq> 0"
  shows "pr_Err (snd (KVServer_Put MakeKVServer a)) = ErrNoKey \<and>
    \<not> steps_ok KvModel_Init [put_op a (pr_Err (snd (KVServer_Put MakeKVServer a)))]"
  using assms by (auto simp: KVServer_Put_def MakeKVServer_def put_op_def KvModel_Step_def KvModel_Init_def)

theorem checker_rejects_ErrNoKey_witness:
  "\<not> steps_ok KvModel_Init [put_op \<lparr>pa_Key = ''k'', pa_Value = ''x'', pa_Version = 3\<rparr> ErrNoKey]"
  using checker_rejects_ErrNoKey [of "\<lparr>pa_Key = ''k'', pa_Value = ''x'', pa_Version = 3\<rparr>"] by auto

end
