(* ===== verification/KvLog.thy ===== *)
theory KvLog
  imports KvAppend PorcModel "HOL-Library.Multiset"
begin

text \<open>
  The log of the operations of a test (\<open>kvtest1/porcupine.go\<close>): \<open>Get\<close> and \<open>Put\<close> around the clerk's
  calls append an \<open>Operation\<close> with the times of the call and of the return, and \<open>CheckPorcupine\<close> hands
  the log to the checker with the model \<open>KvModel\<close> (\<^theory_text>\<open>PorcModel\<close>).  The checker is not in the
  repository: what is relied on is that it only calls a history illegal when it is not linearizable.

  The history of any number of the clients of \<^theory_text>\<open>KvClients\<close> is linearizable once no call is in progress: a
  put takes effect when the server executes it, or, if it never is, when it returns.
\<close>

record Operation =
  opn_ClientId :: nat
  opn_Input :: KvInput
  opn_Call :: nat
  opn_Output :: KvOutput
  opn_Return :: nat

text \<open>\<open>Get\<close> and \<open>Put\<close> with their \<open>start\<close> and \<open>end\<close>.\<close>

definition log_Get :: "string \<Rightarrow> GetReply \<Rightarrow> nat \<Rightarrow> nat \<Rightarrow> nat \<Rightarrow> Operation" where
  "log_Get key r cli start fin =
     \<lparr>opn_ClientId = cli, opn_Input = fst (get_op key r), opn_Call = start,
      opn_Output = snd (get_op key r), opn_Return = fin\<rparr>"

definition log_Put :: "PutArgs \<Rightarrow> Err \<Rightarrow> nat \<Rightarrow> nat \<Rightarrow> nat \<Rightarrow> Operation" where
  "log_Put a err cli start fin =
     \<lparr>opn_ClientId = cli, opn_Input = fst (put_op a err), opn_Call = start,
      opn_Output = snd (put_op a err), opn_Return = fin\<rparr>"

definition OpLog_Append :: "Operation \<Rightarrow> Operation list \<Rightarrow> Operation list" where
  "OpLog_Append opn operations = operations @ [opn]"

text \<open>The checker: \<open>Illegal\<close> fails the test, \<open>Unknown\<close> (it took too long) does not.\<close>

datatype CheckResult = Illegal | Unknown | Legal

definition checkPorcupine :: "(Operation list \<Rightarrow> CheckResult) \<Rightarrow> Operation list \<Rightarrow> unit option" where
  "checkPorcupine CheckOperations operations =
     (if CheckOperations operations = Illegal then None else Some ())"

text \<open>A history is linearizable when the operations on each key can be put in an order that keeps the
  order of operations that do not overlap and that the model accepts.\<close>

definition real_time :: "Operation list \<Rightarrow> bool" where
  "real_time = sorted_wrt (\<lambda>x y. \<not> opn_Return y < opn_Call x)"

definition io :: "Operation \<Rightarrow> porc_op" where
  "io x = (opn_Input x, opn_Output x)"

definition linearizable :: "Operation list \<Rightarrow> bool" where
  "linearizable h \<longleftrightarrow> (\<forall>k. \<exists>lin. mset lin = mset (filter (\<lambda>x. in_Key (opn_Input x) = k) h) \<and>
     real_time lin \<and> steps_ok KvModel_Init (map io lin))"

section \<open>The clients with their log\<close>

record oplog =
  lg_now :: nat
  lg_called :: "nat \<Rightarrow> nat"
  lg_log :: "Operation list"

text \<open>
  The clock moves with every step.  A \<open>Get\<close> is one step of the clients: its call (\<open>start\<close>) may be any
  time before, and every operation may return (\<open>fin\<close>) any time after, its last step.
\<close>

definition log_event :: "event \<Rightarrow> nat \<Rightarrow> nat \<Rightarrow> oplog \<Rightarrow> oplog" where
  "log_event ev start fin l = (let l1 = l\<lparr>lg_now := lg_now l + 1\<rparr> in
     case ev of
       EvNone \<Rightarrow> l1
     | EvGet c k r \<Rightarrow> l1\<lparr>lg_log := OpLog_Append (log_Get k r c start fin) (lg_log l)\<rparr>
     | EvCall c a \<Rightarrow> l1\<lparr>lg_called := (lg_called l)(c := lg_now l)\<rparr>
     | EvRet c a err \<Rightarrow> l1\<lparr>lg_log := OpLog_Append (log_Put a err c (lg_called l c) fin) (lg_log l)\<rparr>)"

inductive log_reach :: "'p client_prog \<Rightarrow> bool \<Rightarrow> 'p kvsys \<Rightarrow> 'p kvsys \<Rightarrow> oplog \<Rightarrow> bool"
  for P :: "'p client_prog" and lossy :: bool and s0 :: "'p kvsys" where
  log_start: "kv_start s0 \<Longrightarrow> log_reach P lossy s0 s0 \<lparr>lg_now = 0, lg_called = (\<lambda>_. 0), lg_log = []\<rparr>"
| log_step: "log_reach P lossy s0 s l \<Longrightarrow> kv_step P lossy s ev s' \<Longrightarrow> start \<le> lg_now l \<Longrightarrow> lg_now l \<le> fin \<Longrightarrow>
     log_reach P lossy s0 s' (log_event ev start fin l)"

lemma log_reach_kv: "log_reach P lossy s0 s l \<Longrightarrow> kv_reach P lossy s0 s"
proof (induction rule: log_reach.induct)
  case log_start
  then show ?case by (simp add: kv_reach_def)
next
  case (log_step s l ev s' start fin)
  then show ?case
    by (auto simp: kv_reach_def intro: rtranclp.rtrancl_into_rtrancl [where b = s])
qed

section \<open>Runs of the model\<close>

fun run_model :: "KvState \<Rightarrow> porc_op list \<Rightarrow> KvState option" where
  "run_model st [] = Some st"
| "run_model st ((inp, out) # ops) =
     (case KvModel_Step st inp out of (True, Some st') \<Rightarrow> run_model st' ops | _ \<Rightarrow> None)"

lemma steps_ok_run: "run_model st ops = Some st' \<Longrightarrow> steps_ok st ops"
  by (induction st ops rule: run_model.induct) (auto split: prod.splits option.splits bool.splits)

lemma run_model_append: "run_model st (xs @ ys) = Option.bind (run_model st xs) (\<lambda>st. run_model st ys)"
  by (induction st xs rule: run_model.induct) (auto split: prod.splits option.splits bool.splits)

text \<open>A put that was applied is as well accepted with the answer \<open>ErrMaybe\<close>.\<close>

lemma run_model_maybe:
  assumes "run_model st (xs @ put_op a OK # ys) = Some st'"
  shows "run_model st (xs @ put_op a ErrMaybe # ys) = Some st'"
proof -
  have "KvModel_Step st (fst (put_op a OK)) (snd (put_op a OK)) = (True, Some st1) \<Longrightarrow>
      KvModel_Step st (fst (put_op a ErrMaybe)) (snd (put_op a ErrMaybe)) = (True, Some st1)" for st st1
    by (auto simp: KvModel_Step_def put_op_def split: if_splits)
  then have "run_model st (put_op a OK # ys) = Some st' \<Longrightarrow> run_model st (put_op a ErrMaybe # ys) = Some st'" for st
    by (auto simp: put_op_def split: prod.splits option.splits bool.splits)
  then show ?thesis using assms by (auto simp: run_model_append bind_eq_Some_conv)
qed

section \<open>The linearization\<close>

text \<open>
  The points at which the operations take effect, oldest first.  A put that was executed while its
  call is still in progress is an entry that is not done; it stands with the answer \<open>OK\<close>.
\<close>

record lin_entry =
  ln_at :: nat
  ln_op :: Operation
  ln_done :: bool

definition key_ops :: "string \<Rightarrow> lin_entry list \<Rightarrow> porc_op list" where
  "key_ops k L = map (\<lambda>x. io (ln_op x)) (filter (\<lambda>x. in_Key (opn_Input (ln_op x)) = k) L)"

definition in_time :: "oplog \<Rightarrow> lin_entry \<Rightarrow> bool" where
  "in_time l x \<longleftrightarrow> ln_at x < lg_now l \<and> opn_Call (ln_op x) \<le> ln_at x \<and>
     (ln_done x \<longrightarrow> ln_at x \<le> opn_Return (ln_op x))"

text \<open>An entry that is not done is the executed put of its client's call.\<close>

definition executed_call :: "'p kvsys \<Rightarrow> oplog \<Rightarrow> lin_entry \<Rightarrow> nat \<Rightarrow> PutArgs \<Rightarrow> bool" where
  "executed_call s l x c a \<longleftrightarrow> ks_call s c = Some (a, False) \<and>
     unat (pa_Version a) < nputs (pa_Key a) (ks_hist s) \<and> ln_op x = log_Put a OK c (lg_called l c) 0"

definition lin_ok :: "'p kvsys \<Rightarrow> oplog \<Rightarrow> lin_entry list \<Rightarrow> bool" where
  "lin_ok s l L \<longleftrightarrow> sorted_wrt (\<lambda>x y. ln_at x < ln_at y) L \<and>
     mset (map ln_op (filter ln_done L)) = mset (lg_log l) \<and>
     (\<forall>x\<in>set L. in_time l x) \<and>
     (\<forall>x\<in>set L. \<not> ln_done x \<longrightarrow> (\<exists>c a. executed_call s l x c a)) \<and>
     (\<forall>x\<in>set L. \<forall>y\<in>set L. \<not> ln_done x \<longrightarrow> \<not> ln_done y \<longrightarrow>
        opn_ClientId (ln_op x) = opn_ClientId (ln_op y) \<longrightarrow> x = y) \<and>
     (\<forall>c. ks_call s c \<noteq> None \<longrightarrow> lg_called l c < lg_now l) \<and>
     (\<forall>k. run_model KvModel_Init (key_ops k L) = Some (key_state (kv_abs (ks_srv s)) k))"

lemma lin_okD:
  assumes "lin_ok s l L"
  shows "sorted_wrt (\<lambda>x y. ln_at x < ln_at y) L" "mset (map ln_op (filter ln_done L)) = mset (lg_log l)"
    "x \<in> set L \<Longrightarrow> in_time l x" "x \<in> set L \<Longrightarrow> \<not> ln_done x \<Longrightarrow> \<exists>c a. executed_call s l x c a"
    "x \<in> set L \<Longrightarrow> y \<in> set L \<Longrightarrow> \<not> ln_done x \<Longrightarrow> \<not> ln_done y \<Longrightarrow>
       opn_ClientId (ln_op x) = opn_ClientId (ln_op y) \<Longrightarrow> x = y"
    "ks_call s c \<noteq> None \<Longrightarrow> lg_called l c < lg_now l"
    "run_model KvModel_Init (key_ops k L) = Some (key_state (kv_abs (ks_srv s)) k)"
  using assms unfolding lin_ok_def by blast+

lemma lin_okI:
  assumes "sorted_wrt (\<lambda>x y. ln_at x < ln_at y) L" "mset (map ln_op (filter ln_done L)) = mset (lg_log l)"
    "\<And>x. x \<in> set L \<Longrightarrow> in_time l x" "\<And>x. x \<in> set L \<Longrightarrow> \<not> ln_done x \<Longrightarrow> \<exists>c a. executed_call s l x c a"
    "\<And>x y. x \<in> set L \<Longrightarrow> y \<in> set L \<Longrightarrow> \<not> ln_done x \<Longrightarrow> \<not> ln_done y \<Longrightarrow>
       opn_ClientId (ln_op x) = opn_ClientId (ln_op y) \<Longrightarrow> x = y"
    "\<And>c. ks_call s c \<noteq> None \<Longrightarrow> lg_called l c < lg_now l"
    "\<And>k. run_model KvModel_Init (key_ops k L) = Some (key_state (kv_abs (ks_srv s)) k)"
  shows "lin_ok s l L"
  using assms unfolding lin_ok_def by blast

lemma log_op_simps [simp]:
  "opn_ClientId (log_Put a e c t f) = c" "opn_ClientId (log_Get k r c t f) = c"
  "in_Key (opn_Input (log_Put a e c t f)) = pa_Key a" "in_Key (opn_Input (log_Get k r c t f)) = k"
  "opn_Call (log_Put a e c t f) = t" "opn_Call (log_Get k r c t f) = t"
  "opn_Return (log_Put a e c t f) = f" "opn_Return (log_Get k r c t f) = f"
  "io (log_Put a e c t f) = put_op a e" "io (log_Get k r c t f) = get_op k r"
  by (simp_all add: log_Put_def log_Get_def io_def)

lemma key_ops_append [simp]: "key_ops k (L @ L') = key_ops k L @ key_ops k L'"
  by (simp add: key_ops_def)

lemma key_ops_Cons:
  "key_ops k (x # L) = (if in_Key (opn_Input (ln_op x)) = k then io (ln_op x) # key_ops k L else key_ops k L)"
  by (simp add: key_ops_def)

text \<open>A linearization of a system with no call in progress is one of its log.\<close>

lemma lin_ok_linearizable:
  assumes ok: "lin_ok s l L" and idle: "\<And>c. ks_call s c = None"
  shows "linearizable (lg_log l)"
  unfolding linearizable_def
proof (intro allI exI conjI)
  fix k
  let ?K = "filter (\<lambda>x. in_Key (opn_Input (ln_op x)) = k) L"
  have done_all: "ln_done x" if "x \<in> set L" for x
    using lin_okD(4) [OF ok that] idle by (auto simp: executed_call_def)
  then have "mset (map ln_op L) = mset (lg_log l)"
    using lin_okD(2) [OF ok] by (metis filter_True)
  then show "mset (map ln_op ?K) = mset (filter (\<lambda>x. in_Key (opn_Input x) = k) (lg_log l))"
    by (metis (mono_tags, lifting) filter_map comp_def filter_cong mset_filter)
  have "sorted_wrt (\<lambda>x y. ln_at x < ln_at y) ?K" using lin_okD(1) [OF ok] by (rule sorted_wrt_filter)
  then have "sorted_wrt (\<lambda>x y. \<not> opn_Return (ln_op y) < opn_Call (ln_op x)) ?K"
  proof (rule sorted_wrt_mono_rel [rotated])
    fix x y assume "x \<in> set ?K" "y \<in> set ?K" "ln_at x < ln_at y"
    then show "\<not> opn_Return (ln_op y) < opn_Call (ln_op x)"
      using lin_okD(3) [OF ok, of x] lin_okD(3) [OF ok, of y] done_all by (auto simp: in_time_def)
  qed
  then show "real_time (map ln_op ?K)" by (simp add: real_time_def sorted_wrt_map)
  show "steps_ok KvModel_Init (map io (map ln_op ?K))"
    using steps_ok_run [OF lin_okD(7) [OF ok, of k]] by (simp add: key_ops_def comp_def)
qed

text \<open>Time passes, calls begin, requests are lost.\<close>

lemma lin_ok_keep:
  assumes ok: "lin_ok s l L" and srv: "kv_abs (ks_srv s') = kv_abs (ks_srv s)"
    and mono: "\<And>k. nputs k (ks_hist s) \<le> nputs k (ks_hist s')"
    and call: "\<And>c a. ks_call s c = Some (a, False) \<Longrightarrow> ks_call s' c = Some (a, False) \<and> lg_called l' c = lg_called l c"
    and log: "lg_log l' = lg_log l" "lg_now l \<le> lg_now l'"
    and called: "\<And>c. ks_call s' c \<noteq> None \<Longrightarrow> lg_called l' c < lg_now l'"
  shows "lin_ok s' l' L"
proof (rule lin_okI)
  fix x assume x: "x \<in> set L"
  then show "in_time l' x" using lin_okD(3) [OF ok x] log(2) by (auto simp: in_time_def)
  assume "\<not> ln_done x"
  then obtain c a where "executed_call s l x c a" using lin_okD(4) [OF ok x] by blast
  then have "executed_call s' l' x c a"
    using call [of c a] mono [of "pa_Key a"] by (auto simp: executed_call_def)
  then show "\<exists>c a. executed_call s' l' x c a" by blast
qed (use lin_okD(1,2,5,7) [OF ok] in \<open>auto simp: srv log called\<close>)

definition not_executed :: "nat \<Rightarrow> lin_entry list \<Rightarrow> bool" where
  "not_executed c L \<longleftrightarrow> (\<forall>x\<in>set L. ln_done x \<or> opn_ClientId (ln_op x) \<noteq> c)"

lemma executed_client: "executed_call s l x c a \<Longrightarrow> opn_ClientId (ln_op x) = c"
  by (simp add: executed_call_def)

text \<open>An operation of client \<open>c\<close> takes effect now.\<close>

lemma lin_ok_append:
  assumes ok: "lin_ok s l L" and no: "not_executed c L" and client: "opn_ClientId opn = c"
    and time: "opn_Call opn \<le> lg_now l" "d \<Longrightarrow> lg_now l \<le> opn_Return opn"
    and log: "lg_now l' = lg_now l + 1" "lg_log l' = lg_log l @ (if d then [opn] else [])" "lg_called l' = lg_called l"
    and mono: "\<And>k. nputs k (ks_hist s) \<le> nputs k (ks_hist s')"
    and call: "\<And>b. b \<noteq> c \<Longrightarrow> ks_call s' b = ks_call s b" "ks_call s' c \<noteq> None \<Longrightarrow> ks_call s c \<noteq> None"
    and pend: "\<not> d \<Longrightarrow> \<exists>a. executed_call s' l' \<lparr>ln_at = lg_now l, ln_op = opn, ln_done = d\<rparr> c a"
    and model: "KvModel_Step (key_state (kv_abs (ks_srv s)) (in_Key (opn_Input opn))) (opn_Input opn) (opn_Output opn) =
        (True, Some (key_state (kv_abs (ks_srv s')) (in_Key (opn_Input opn))))"
      "\<And>k. k \<noteq> in_Key (opn_Input opn) \<Longrightarrow> kv_abs (ks_srv s') k = kv_abs (ks_srv s) k"
  shows "lin_ok s' l' (L @ [\<lparr>ln_at = lg_now l, ln_op = opn, ln_done = d\<rparr>])" (is "lin_ok s' l' (L @ [?e])")
proof (rule lin_okI)
  show "sorted_wrt (\<lambda>x y. ln_at x < ln_at y) (L @ [?e])"
    using lin_okD(1,3) [OF ok] by (auto simp: sorted_wrt_append in_time_def)
  show "mset (map ln_op (filter ln_done (L @ [?e]))) = mset (lg_log l')"
    using lin_okD(2) [OF ok] by (simp add: log(2))
  fix k
  have "key_state (kv_abs (ks_srv s')) k = key_state (kv_abs (ks_srv s)) k" if "k \<noteq> in_Key (opn_Input opn)"
    using model(2) [OF that] by (simp add: key_state_def)
  then show "run_model KvModel_Init (key_ops k (L @ [?e])) = Some (key_state (kv_abs (ks_srv s')) k)"
    using lin_okD(7) [OF ok, of k] model(1) by (auto simp: run_model_append key_ops_Cons io_def key_ops_def)
next
  fix x assume "x \<in> set (L @ [?e])"
  then show "in_time l' x" using lin_okD(3) [OF ok, of x] time by (auto simp: in_time_def log(1))
  assume "\<not> ln_done x"
  show "\<exists>c a. executed_call s' l' x c a"
  proof (cases "x \<in> set L")
    case True
    then obtain b a where b: "executed_call s l x b a" using lin_okD(4) [OF ok True] \<open>\<not> ln_done x\<close> by blast
    then have "b \<noteq> c" using no True \<open>\<not> ln_done x\<close> executed_client [OF b] by (auto simp: not_executed_def)
    then have "executed_call s' l' x b a"
      using b call(1) [of b] mono [of "pa_Key a"] by (auto simp: executed_call_def log(3))
    then show ?thesis by blast
  next
    case False
    then show ?thesis using \<open>x \<in> set (L @ [?e])\<close> \<open>\<not> ln_done x\<close> pend by auto
  qed
next
  fix x y assume "x \<in> set (L @ [?e])" "y \<in> set (L @ [?e])" "\<not> ln_done x" "\<not> ln_done y"
    "opn_ClientId (ln_op x) = opn_ClientId (ln_op y)"
  then show "x = y" using lin_okD(5) [OF ok, of x y] no client by (auto simp: not_executed_def)
next
  fix b assume "ks_call s' b \<noteq> None"
  then have "ks_call s b \<noteq> None" using call by (cases "b = c") auto
  then show "lg_called l' b < lg_now l'" using lin_okD(6) [OF ok, of b] by (simp add: log(1,3))
qed

text \<open>A put that was executed returns \<open>ErrMaybe\<close>.\<close>

lemma lin_ok_convert:
  assumes ok: "lin_ok s l (L1 @ x # L2)" and x: "\<not> ln_done x" "executed_call s l x c a"
    and srv: "kv_abs (ks_srv s') = kv_abs (ks_srv s)" and mono: "\<And>k. nputs k (ks_hist s) \<le> nputs k (ks_hist s')"
    and call: "ks_call s' = (ks_call s)(c := None)" and fin: "lg_now l \<le> fin"
  shows "lin_ok s' (log_event (EvRet c a ErrMaybe) start fin l)
     (L1 @ \<lparr>ln_at = ln_at x, ln_op = log_Put a ErrMaybe c (lg_called l c) fin, ln_done = True\<rparr> # L2)"
    (is "lin_ok s' ?l' (L1 @ ?x' # L2)")
proof (rule lin_okI)
  have op: "ln_op x = log_Put a OK c (lg_called l c) 0" using x(2) by (simp add: executed_call_def)
  show "sorted_wrt (\<lambda>x y. ln_at x < ln_at y) (L1 @ ?x' # L2)"
    using lin_okD(1) [OF ok] by (simp add: sorted_wrt_append)
  show "mset (map ln_op (filter ln_done (L1 @ ?x' # L2))) = mset (lg_log ?l')"
    using lin_okD(2) [OF ok] x(1) by (simp add: log_event_def Let_def OpLog_Append_def)
  show "run_model KvModel_Init (key_ops k (L1 @ ?x' # L2)) = Some (key_state (kv_abs (ks_srv s')) k)" for k
    using lin_okD(7) [OF ok, of k] run_model_maybe by (auto simp: srv key_ops_Cons op split: if_splits)
  have now: "lg_now ?l' = lg_now l + 1" "lg_called ?l' = lg_called l" by (simp_all add: log_event_def Let_def)
  have other: "y \<in> set (L1 @ x # L2) \<and> opn_ClientId (ln_op y) \<noteq> c" if "y \<in> set (L1 @ ?x' # L2)" "\<not> ln_done y" for y
  proof -
    have y: "y \<in> set L1 \<union> set L2" using that by auto
    moreover have "y \<noteq> x"
      using lin_okD(1) [OF ok] y by (auto simp: sorted_wrt_append)
    ultimately show ?thesis
      using lin_okD(5) [OF ok, of y x] x that(2) executed_client [OF x(2)] by auto
  qed
  fix y assume y: "y \<in> set (L1 @ ?x' # L2)"
  show "in_time ?l' y"
  proof (cases "y = ?x'")
    case True
    then show ?thesis using lin_okD(3) [OF ok, of x] fin by (simp add: in_time_def now op)
  next
    case False
    then show ?thesis using lin_okD(3) [OF ok, of y] y by (auto simp: in_time_def now)
  qed
  {
    assume "\<not> ln_done y"
    then obtain b a' where b: "executed_call s l y b a'" "b \<noteq> c"
      using other [OF y] lin_okD(4) [OF ok, of y] executed_client [of s l y] by blast
    then have "executed_call s' ?l' y b a'"
      using mono [of "pa_Key a'"] by (auto simp: executed_call_def call now)
    then show "\<exists>c a. executed_call s' ?l' y c a" by blast
  }
  fix z assume "z \<in> set (L1 @ ?x' # L2)" "\<not> ln_done y" "\<not> ln_done z" "opn_ClientId (ln_op y) = opn_ClientId (ln_op z)"
  then show "y = z" using other [OF y] other [of z] lin_okD(5) [OF ok, of y z] by blast
next
  fix b assume "ks_call s' b \<noteq> None"
  then show "lg_called (log_event (EvRet c a ErrMaybe) start fin l) b < lg_now (log_event (EvRet c a ErrMaybe) start fin l)"
    using lin_okD(6) [OF ok, of b] by (auto simp: call log_event_def Let_def split: if_splits)
qed

lemma exec_put_abs:
  "exec_put c a s = (s1, err) \<Longrightarrow>
     kv_abs (ks_srv s1) = fst (spec_put (kv_abs (ks_srv s)) a) \<and> err = snd (spec_put (kv_abs (ks_srv s)) a)"
  using KVServer_Put_abs [of "ks_srv s" a] by (auto simp: exec_put_def split: prod.splits)

lemma step_refused:
  assumes "pa_Version a \<noteq> current_version m (pa_Key a)" "e = ErrVersion \<or> e = ErrMaybe"
  shows "KvModel_Step (key_state m (pa_Key a)) (fst (put_op a e)) (snd (put_op a e)) =
    (True, Some (key_state m (pa_Key a)))"
  using assms by (auto simp: KvModel_Step_def put_op_def key_state_version)

lemma not_executed_idle: "lin_ok s l L \<Longrightarrow> ks_call s c = None \<Longrightarrow> not_executed c L"
  using lin_okD(4) executed_client by (fastforce simp: not_executed_def executed_call_def)

text \<open>A put that succeeds had not been executed before.\<close>

lemma not_executed_success:
  assumes ok: "lin_ok s l L" and call: "ks_call s c = Some (a, f)" and ex: "exec_put c a s = (s1, OK)"
    and hist: "hist_ok (ks_srv s) (ks_hist s)" and len: "length (ks_hist s1) < 2 ^ 64"
  shows "not_executed c L"
  unfolding not_executed_def
proof (intro ballI)
  fix x assume x: "x \<in> set L"
  show "ln_done x \<or> opn_ClientId (ln_op x) \<noteq> c"
  proof (rule ccontr)
    assume "\<not> (ln_done x \<or> opn_ClientId (ln_op x) \<noteq> c)"
    then obtain b where "executed_call s l x c b"
      using lin_okD(4) [OF ok x] executed_client by blast
    then have less: "unat (pa_Version a) < nputs (pa_Key a) (ks_hist s)" using call by (simp add: executed_call_def)
    then have "version_known a (ks_hist s)" by (simp add: version_known_def)
    show False
    proof (rule exec_put_cases [OF ex hist])
      assume d: "pa_Version a = of_nat (nputs (pa_Key a) (ks_hist s))" "ks_hist s1 = ks_hist s @ [(Some c, a)]"
      then have "nputs (pa_Key a) (ks_hist s) < 2 ^ 64"
        using len nputs_le [of "pa_Key a" "ks_hist s"] by simp
      then show False using less by (simp add: d(1) unat_of_nat64)
    qed simp
  qed
qed

text \<open>The server executes a put that its client goes on waiting for.\<close>

lemma lin_ok_execute:
  assumes ok: "lin_ok s l L" and call: "ks_call s c = Some (a, f)" and ex: "exec_put c a s = (s1, err)"
    and hist: "hist_ok (ks_srv s) (ks_hist s)" and len: "length (ks_hist s1) < 2 ^ 64"
    and s': "ks_srv s' = ks_srv s1" "ks_hist s' = ks_hist s1" "ks_call s' = (ks_call s)(c \<mapsto> (a, False))"
  shows "\<exists>L'. lin_ok s' (log_event EvNone start fin l) L'"
proof (rule exec_put_cases [OF ex hist])
  let ?l' = "log_event EvNone start fin l" and ?m = "kv_abs (ks_srv s)"
  have l': "lg_now ?l' = lg_now l + 1" "lg_log ?l' = lg_log l" "lg_called ?l' = lg_called l"
    by (simp_all add: log_event_def Let_def)
  have mono: "nputs k (ks_hist s) \<le> nputs k (ks_hist s')" for k using exec_frame(7) [OF ex] s'(2) by simp
  {
    assume d: "err = OK" "pa_Version a = of_nat (nputs (pa_Key a) (ks_hist s))" "ks_hist s1 = ks_hist s @ [(Some c, a)]"
    have small: "nputs (pa_Key a) (ks_hist s) < 2 ^ 64"
      using len nputs_le [of "pa_Key a" "ks_hist s"] by (simp add: d(3))
    have "executed_call s' ?l' \<lparr>ln_at = lg_now l, ln_op = log_Put a OK c (lg_called l c) 0, ln_done = False\<rparr> c a"
      using small by (simp add: executed_call_def s' d(2,3) nputs_append unat_of_nat64 l')
    moreover have "kv_abs (ks_srv s') = fst (spec_put ?m a)" "snd (spec_put ?m a) = OK"
      using exec_put_abs [OF ex] d(1) s'(1) by simp_all
    moreover have "not_executed c L"
      using not_executed_success [OF ok call _ hist len] ex d(1) by simp
    moreover have "lg_called l c < lg_now l" using lin_okD(6) [OF ok, of c] call by simp
    ultimately have "lin_ok s' ?l' (L @ [\<lparr>ln_at = lg_now l, ln_op = log_Put a OK c (lg_called l c) 0, ln_done = False\<rparr>])"
      using step_put [of ?m a]
      by (intro lin_ok_append [OF ok, of c])
        (use call mono in \<open>auto simp: l' s' spec_put_other log_Put_def put_op_def\<close>)
    then show ?thesis by blast
  next
    assume d: "ks_hist s1 = ks_hist s" "err \<in> {ErrVersion, ErrNoKey}"
    then have "kv_abs (ks_srv s') = ?m"
      using exec_put_abs [OF ex] s'(1) by (auto simp: spec_put_def split: if_splits)
    then have "lin_ok s' ?l' L"
      by (rule lin_ok_keep [OF ok _ mono]) (use call lin_okD(6) [OF ok] in \<open>auto simp: l' s' less_SucI split: if_splits\<close>)
    then show ?thesis by blast
  }
qed

text \<open>A put returns: it takes effect now unless it has before.\<close>

lemma lin_ok_return:
  assumes ok: "lin_ok s l L" and call: "ks_call s c = Some (a, first)" and ex: "exec_put c a s = (s1, err)"
    and hist: "hist_ok (ks_srv s) (ks_hist s)" and len: "length (ks_hist s1) < 2 ^ 64"
    and err: "err = OK \<or> err = ErrVersion" and fin: "lg_now l \<le> fin"
    and s': "ks_srv s' = ks_srv s1" "ks_hist s' = ks_hist s1" "ks_call s' = (ks_call s)(c := None)"
  shows "\<exists>L'. lin_ok s' (log_event (EvRet c a (put_result first err)) start fin l) L'"
proof -
  let ?e = "put_result first err" and ?m = "kv_abs (ks_srv s)"
  let ?l' = "log_event (EvRet c a ?e) start fin l" and ?op = "log_Put a ?e c (lg_called l c) fin"
  have mono: "nputs k (ks_hist s) \<le> nputs k (ks_hist s')" for k using exec_frame(7) [OF ex] s'(2) by simp
  have abs: "kv_abs (ks_srv s') = fst (spec_put ?m a)" "err = snd (spec_put ?m a)"
    using exec_put_abs [OF ex] s'(1) by simp_all
  have now: "lg_called l c < lg_now l" using lin_okD(6) [OF ok, of c] call by simp
  have append: "lin_ok s' ?l' (L @ [\<lparr>ln_at = lg_now l, ln_op = ?op, ln_done = True\<rparr>])"
    if "not_executed c L" "KvModel_Step (key_state ?m (pa_Key a)) (fst (put_op a ?e)) (snd (put_op a ?e)) =
        (True, Some (key_state (kv_abs (ks_srv s')) (pa_Key a)))"
    by (rule lin_ok_append [OF ok that(1)])
      (use that(2) mono now fin call in
        \<open>auto simp: log_event_def Let_def OpLog_Append_def s'(3) abs(1) spec_put_other log_Put_def put_op_def\<close>)
  show ?thesis
  proof (cases "err = OK")
    case True
    then have "not_executed c L" using not_executed_success [OF ok call _ hist len] ex by simp
    then show ?thesis using append step_put [of ?m a] abs True by (auto simp: put_result_def)
  next
    case False
    then have same: "kv_abs (ks_srv s') = ?m" and ver: "pa_Version a \<noteq> current_version ?m (pa_Key a)"
      using abs by (auto simp: spec_put_def split: if_splits)
    show ?thesis
    proof (cases "not_executed c L")
      case True
      have "?e = ErrVersion \<or> ?e = ErrMaybe" using err False by (auto simp: put_result_def)
      then show ?thesis using append [OF True] step_refused [OF ver] same by auto
    next
      case False
      then obtain x where x: "x \<in> set L" "\<not> ln_done x" "opn_ClientId (ln_op x) = c" by (auto simp: not_executed_def)
      then obtain b where b: "executed_call s l x c b" using lin_okD(4) [OF ok x(1)] executed_client by blast
      then have "b = a" "\<not> first" using call by (auto simp: executed_call_def)
      then have "?e = ErrMaybe" using err \<open>err \<noteq> OK\<close> by (simp add: put_result_def)
      moreover obtain L1 L2 where "L = L1 @ x # L2" using split_list [OF x(1)] by blast
      ultimately show ?thesis
        using lin_ok_convert [OF _ x(2) b [unfolded \<open>b = a\<close>] same mono s'(3) fin] ok by metis
    qed
  qed
qed

text \<open>Every step of the clients extends the linearization.\<close>

context kv_program
begin

lemma lin_ok_step:
  assumes inv: "all_inv s" and step: "kv_step P lossy s ev s'" and len: "length (ks_hist s') < 2 ^ 64"
    and ok: "lin_ok s l L" and time: "start \<le> lg_now l" "lg_now l \<le> fin"
  shows "\<exists>L'. lin_ok s' (log_event ev start fin l) L'"
  using step
proof cases
  case (ks_choose c p)
  then have "lin_ok s' (log_event ev start fin l) L"
    by (intro lin_ok_keep [OF ok]) (use lin_okD(6) [OF ok] in \<open>auto simp: log_event_def Let_def less_SucI\<close>)
  then show ?thesis by blast
next
  case (ks_get c k r)
  have "r = spec_get (kv_abs (ks_srv s)) k" by (simp add: ks_get(5) kv_simps)
  then have "lin_ok s' (log_event ev start fin l) (L @ [\<lparr>ln_at = lg_now l, ln_op = log_Get k r c start fin, ln_done = True\<rparr>])"
    using step_get [of "kv_abs (ks_srv s)" k]
    by (intro lin_ok_append [OF ok not_executed_idle [OF ok ks_get(3)]])
      (use time in \<open>auto simp: ks_get(1,2) log_event_def Let_def OpLog_Append_def log_Get_def get_op_def\<close>)
  then show ?thesis by blast
next
  case (ks_start c a)
  then have "lin_ok s' (log_event ev start fin l) L"
    by (intro lin_ok_keep [OF ok]) (use lin_okD(6) [OF ok] in \<open>auto simp: log_event_def Let_def less_SucI\<close>)
  then show ?thesis by blast
next
  case (ks_reply c a first s1 err)
  have len1: "length (ks_hist s1) < 2 ^ 64" using len by (simp add: ks_reply(2))
  show ?thesis unfolding ks_reply(1)
    by (rule lin_ok_return [OF ok ks_reply(3,4) all_invD(4) [OF inv] len1 _ time(2)])
      (use answers_ok_reply(2) [OF all_invD(1) [OF inv] ks_reply(3,4) len1] exec_frame(2) [OF ks_reply(4)]
        in \<open>simp_all add: ks_reply(2)\<close>)
next
  case (ks_reply_lost c a first s1 err)
  show ?thesis unfolding ks_reply_lost(1)
    by (rule lin_ok_execute [OF ok ks_reply_lost(4,5) all_invD(4) [OF inv]])
      (use len exec_frame(2) [OF ks_reply_lost(5)] in \<open>simp_all add: ks_reply_lost(2)\<close>)
next
  case (ks_request_lost c a first)
  then have "ks_call s b \<noteq> None" if "ks_call s' b \<noteq> None" for b using that by (auto split: if_splits)
  then have "lin_ok s' (log_event ev start fin l) L"
    by (intro lin_ok_keep [OF ok])
      (use lin_okD(6) [OF ok] ks_request_lost in \<open>auto simp add: log_event_def Let_def less_SucI simp del: not_None_eq\<close>)
  then show ?thesis by blast
next
  case (ks_late c a err)
  note A = all_invD [OF inv]
  show ?thesis
  proof (cases "ks_call s c = Some (a, False)")
    case True
    then have "ks_call s' = (ks_call s)(c \<mapsto> (a, False))" using exec_frame(2) [OF ks_late(3)] by (simp add: fun_upd_idem)
    then show ?thesis unfolding ks_late(1)
      by (intro lin_ok_execute [OF ok True ks_late(3) A(4) len]) simp_all
  next
    case False
    then have "unat (pa_Version a) < nputs (pa_Key a) (ks_hist s)" using answers_okD(3) [OF A(1) ks_late(2)] by blast
    then have "kv_abs (ks_srv s') = kv_abs (ks_srv s)"
      by (rule_tac exec_put_cases [OF ks_late(3) A(4)])
        (use exec_put_abs [OF ks_late(3)] len nputs_le [of "pa_Key a" "ks_hist s"] in
          \<open>auto simp: spec_put_def unat_of_nat64 split: if_splits\<close>)
    then have "lin_ok s' (log_event ev start fin l) L" unfolding ks_late(1)
      by (rule lin_ok_keep [OF ok])
        (use lin_okD(6) [OF ok] exec_frame [OF ks_late(3)] in \<open>auto simp: log_event_def Let_def less_SucI\<close>)
    then show ?thesis by blast
  qed
qed

lemma log_reach_lin:
  assumes "log_reach P lossy s0 s l" "all_inv s0" "ks_hist s0 = []" "length (ks_hist s) < 2 ^ 64"
  shows "\<exists>L. lin_ok s l L"
  using assms(1,4)
proof (induction rule: log_reach.induct)
  case log_start
  have "kv_abs (ks_srv s0) k = None" for k
    using all_invD(4) [OF assms(2)] assms(3) by (simp add: hist_ok_def on_key_def)
  then have "lin_ok s0 \<lparr>lg_now = 0, lg_called = (\<lambda>_. 0), lg_log = []\<rparr> []"
    using log_start by (intro lin_okI) (auto simp: kv_start_def key_ops_def key_state_def)
  then show ?case by blast
next
  case (log_step s l ev s' start fin)
  have len: "length (ks_hist s) < 2 ^ 64" using kv_step_hist [OF log_step(2)] log_step(6) by simp
  obtain L where L: "lin_ok s l L" using log_step(5) [OF len] by blast
  have "all_inv s" using all_inv_reach [OF log_reach_kv [OF log_step(1)] assms(2) len] .
  from lin_ok_step [OF this log_step(2,6) L log_step(3,4)] show ?case .
qed

end

text \<open>Every run of the clients has a log.\<close>

lemma log_reach_exists: "kv_reach P lossy s0 s \<Longrightarrow> \<exists>l. log_reach P lossy s0 s l"
proof -
  assume r: "kv_reach P lossy s0 s"
  then have "(\<lambda>s s'. \<exists>ev. kv_step P lossy s ev s')\<^sup>*\<^sup>* s0 s" by (simp add: kv_reach_def)
  then show "\<exists>l. log_reach P lossy s0 s l"
  proof induction
    case base
    then show ?case using r log_start [of s0 P lossy] by (auto simp: kv_reach_def)
  next
    case (step s s')
    then show ?case by (meson log_reach.log_step order_refl)
  qed
qed

text \<open>
  C36 (the put test's history is linearizable).  When all clients of the concurrent put test have
  returned, whatever the network lost, delayed and repeated, the log that \<open>Get\<close> and \<open>Put\<close> of the test wrote,
  with any times of call and return around the steps, is linearizable with respect to \<open>KvModel\<close>; so
  \<open>CheckPorcupine\<close> does not fail, for any checker that calls only histories illegal that are not
  linearizable.
\<close>

theorem put_test_linearizable:
  assumes "json_codec json unjson" and "put_test_start n s0"
    and "log_reach (OneClientPut json unjson randomkeys ka) lossy s0 s l" and "length (ks_hist s) < 2 ^ 64"
    and "put_results n s = Some rs"
    and "\<And>h. CheckOperations h = Illegal \<Longrightarrow> \<not> linearizable h"
  shows "linearizable (lg_log l) \<and> checkPorcupine CheckOperations (lg_log l) \<noteq> None"
proof -
  note prog = put_program [OF assms(1), of randomkeys ka n]
  have s0: "ks_hist s0 = []" "kv_reach (OneClientPut json unjson randomkeys ka) lossy s0 s0"
    using assms(2) by (simp_all add: put_test_start_def kv_reach_def)
  note inv0 = put_test_inv [OF assms(1,2) s0(2), unfolded s0(1), simplified]
  note inv = put_test_inv [OF assms(1,2) log_reach_kv [OF assms(3)] assms(4)]
  note P = kv_program.prog_invD [OF prog kv_program.all_invD(3) [OF prog inv]]
  have "pcl_pc (ks_prog s c) = Returned" for c
    using P(3) [of c] assms(5) by (auto simp: put_client_ok_def put_results_def list_all_iff split: if_splits)
  then have "ks_call s c = None" for c
    using P(4) [of c] by (cases "ks_call s c") (auto simp: OneClientPut_def OnePut_next_def)
  moreover obtain L where "lin_ok s l L"
    using kv_program.log_reach_lin [OF prog assms(3) inv0 s0(1) assms(4)] by blast
  ultimately have "linearizable (lg_log l)" by (metis lin_ok_linearizable)
  then show ?thesis using assms(6) by (auto simp: checkPorcupine_def)
qed

theorem put_test_linearizable_witness:
  "\<exists>s l. put_results 1 s = Some [\<lparr>Nok = 0, Nmaybe = 1\<rparr>] \<and>
     log_reach (OneClientPut Marshal_EntryV Unmarshal_EntryV False [''k'']) True put_demo_start s l \<and>
     linearizable (lg_log l) \<and> checkPorcupine (\<lambda>h. if linearizable h then Legal else Illegal) (lg_log l) \<noteq> None"
proof -
  obtain s where s: "kv_reach (OneClientPut Marshal_EntryV Unmarshal_EntryV False [''k'']) True put_demo_start s"
    "length (ks_hist s) < 2 ^ 64" "put_results 1 s = Some [\<lparr>Nok = 0, Nmaybe = 1\<rparr>]"
    using put_demo_run by blast
  obtain l where l: "log_reach (OneClientPut Marshal_EntryV Unmarshal_EntryV False [''k'']) True put_demo_start s l"
    using log_reach_exists [OF s(1)] by blast
  have "put_test_start 1 put_demo_start"
    by (simp add: put_test_start_def kv_start_def put_demo_start_def hist_ok_def on_key_def nputs_def)
  have "linearizable (lg_log l) \<and>
      checkPorcupine (\<lambda>h. if linearizable h then Legal else Illegal) (lg_log l) \<noteq> None"
    by (rule put_test_linearizable [OF entry_codec.json_codec_axioms \<open>put_test_start 1 put_demo_start\<close> l s(2,3)])
      (simp split: if_splits)
  then show ?thesis using s(3) l by blast
qed

end
