(* ===== verification/KvPuts.thy ===== *)
theory KvPuts
  imports KvTest
begin

text \<open>
  The sequential helpers of the key/value tests (\<open>kvtest1/kvtest.go\<close>): \<open>PutAtLeastOnce\<close>, \<open>CheckGet\<close>,
  \<open>MakeKeys\<close>, \<open>SpreadPuts\<close> and \<open>PutAtLeastOnceJson\<close>, with the clerk of \<^theory_text>\<open>KvClerk\<close> run against one
  script of the network per call.  A result \<open>None\<close> is a call that is still waiting when its script
  ends; a version \<open>None\<close> is \<open>Fatalf\<close>.
\<close>

fun PutAtLeastOnce :: "string \<Rightarrow> string \<Rightarrow> Tversion \<Rightarrow> attempt list list \<Rightarrow> KVServer \<Rightarrow>
    (KVServer \<times> Tversion option) option" where
  "PutAtLeastOnce key value ver [] kv = None"
| "PutAtLeastOnce key value ver (script # scripts) kv =
     (case Clerk_Put key value ver script kv of
        (kv1, own, None) \<Rightarrow> None
      | (kv1, own, Some err) \<Rightarrow>
          if err = OK then Some (kv1, Some (ver + 1))
          else if err = ErrMaybe \<or> err = ErrVersion then PutAtLeastOnce key value (ver + 1) scripts kv1
          else if ver \<noteq> 0 then Some (kv1, None)
          else PutAtLeastOnce key value ver scripts kv1)"

definition CheckGet :: "string \<Rightarrow> string \<Rightarrow> Tversion \<Rightarrow> attempt list \<Rightarrow> KVServer \<Rightarrow> (KVServer \<times> bool) option" where
  "CheckGet key value version script kv =
     (case Clerk_Get key script kv of
        (kv1, None) \<Rightarrow> None
      | (kv1, Some r) \<Rightarrow> Some (kv1, gr_Err r = OK \<and> \<not> (gr_Value r \<noteq> value \<or> gr_Version r \<noteq> version)))"

definition MakeKeys :: "nat \<Rightarrow> string list" where
  "MakeKeys n = map (\<lambda>i. ''k'' @ itoa i) [0..<n]"

text \<open>The two loops of \<open>SpreadPutsSize\<close>, which ignores what its puts return.\<close>

fun spread_puts :: "(string \<times> string) list \<Rightarrow> attempt list list \<Rightarrow> KVServer \<Rightarrow> KVServer option" where
  "spread_puts [] scripts kv = Some kv"
| "spread_puts ((k, v) # kvs) [] kv = None"
| "spread_puts ((k, v) # kvs) (script # scripts) kv =
     (case Clerk_Put k v 0 script kv of
        (kv1, own, None) \<Rightarrow> None
      | (kv1, own, Some err) \<Rightarrow> spread_puts kvs scripts kv1)"

fun spread_checks :: "(string \<times> string) list \<Rightarrow> attempt list list \<Rightarrow> KVServer \<Rightarrow> (KVServer \<times> bool) option" where
  "spread_checks [] scripts kv = Some (kv, True)"
| "spread_checks ((k, v) # kvs) [] kv = None"
| "spread_checks ((k, v) # kvs) (script # scripts) kv =
     (case CheckGet k v 1 script kv of
        None \<Rightarrow> None
      | Some (kv1, ok) \<Rightarrow> if ok then spread_checks kvs scripts kv1 else Some (kv1, False))"

definition SpreadPutsSize :: "nat \<Rightarrow> (nat \<Rightarrow> string) \<Rightarrow> attempt list list \<Rightarrow> attempt list list \<Rightarrow> KVServer \<Rightarrow>
    (KVServer \<times> bool) option" where
  "SpreadPutsSize n randstr puts gets kv =
     (let kvs = zip (MakeKeys n) (map randstr [0..<n])
      in case spread_puts kvs puts kv of None \<Rightarrow> None | Some kv1 \<Rightarrow> spread_checks kvs gets kv1)"

text \<open>It puts at version \<open>0\<close> in every round, whatever \<open>ver\<close> is.\<close>

fun PutAtLeastOnceJson :: "('e \<Rightarrow> string) \<Rightarrow> string \<Rightarrow> 'e \<Rightarrow> Tversion \<Rightarrow> attempt list list \<Rightarrow> KVServer \<Rightarrow>
    (KVServer \<times> Tversion) option" where
  "PutAtLeastOnceJson json key value ver [] kv = None"
| "PutAtLeastOnceJson json key value ver (script # scripts) kv =
     (case Clerk_Put key (json value) 0 script kv of
        (kv1, own, None) \<Rightarrow> None
      | (kv1, own, Some err) \<Rightarrow>
          if err \<noteq> ErrMaybe then Some (kv1, ver)
          else PutAtLeastOnceJson json key value (ver + 1) scripts kv1)"

section \<open>One client per key\<close>

text \<open>No other client puts to the keys.\<close>

definition alone :: "string set \<Rightarrow> attempt list \<Rightarrow> bool" where
  "alone K script \<longleftrightarrow> (\<forall>at\<in>set script. \<forall>a\<in>set (others at). pa_Key a \<notin> K)"

lemma serve_others: "\<forall>a\<in>set as. pa_Key a \<noteq> k \<Longrightarrow> kv_abs (serve_puts kv as) k = kv_abs kv k"
  unfolding serve_puts_abs
proof (induction as arbitrary: kv rule: rev_induct)
  case (snoc a as)
  then have "k \<noteq> pa_Key a" by auto
  then show ?case using snoc spec_put_other [of k a] by simp
qed simp

lemma others_alone: "alone K (at # script) \<Longrightarrow> k \<in> K \<Longrightarrow> kv_abs (serve_puts kv (others at)) k = kv_abs kv k"
  by (rule serve_others) (auto simp: alone_def)

text \<open>A put at a version that has passed changes nothing and is refused.\<close>

lemma alone_put_stale:
  assumes "alone K script" "k \<in> K" "kv_abs kv k \<noteq> None" "ver \<noteq> current_version (kv_abs kv) k"
    "Clerk_Put_loop first \<lparr>pa_Key = k, pa_Value = v, pa_Version = ver\<rparr> script kv = (kv', own, Some err)"
  shows "kv_abs kv' k = kv_abs kv k \<and> err \<in> {ErrVersion, ErrMaybe} \<and> (err = ErrVersion \<longrightarrow> first)"
  using assms
proof (induction script arbitrary: kv first own)
  case (Cons at script)
  let ?kv = "serve_puts kv (others at)" and ?a = "\<lparr>pa_Key = k, pa_Value = v, pa_Version = ver\<rparr>"
  have same: "kv_abs ?kv k = kv_abs kv k" by (rule others_alone [OF Cons.prems(1,2)])
  then have cv: "current_version (kv_abs ?kv) k = current_version (kv_abs kv) k" by (simp add: current_version_def)
  have put: "KVServer_Put ?kv ?a = (?kv, \<lparr>pr_Err = ErrVersion\<rparr>)"
    by (cases rule: KVServer_Put_cases [of ?kv ?a]) (use Cons.prems(3,4) same cv in simp_all)
  have al: "alone K script" using Cons.prems(1) by (simp add: alone_def)
  note IH = Cons.IH [OF al Cons.prems(2), of ?kv]
  show ?case
    using Cons.prems(3-5) IH [of False] same put cv
    by (cases at) (fastforce simp: Let_def put_result_def split: prod.splits if_splits)+
qed simp

text \<open>A put at the current version is executed exactly once, and answered \<open>OK\<close> or \<open>ErrMaybe\<close>.\<close>

lemma alone_put_current:
  assumes "alone K script" "k \<in> K" "ver = current_version (kv_abs kv) k" "ver + 1 \<noteq> ver"
    "Clerk_Put_loop first \<lparr>pa_Key = k, pa_Value = v, pa_Version = ver\<rparr> script kv = (kv', own, Some err)"
  shows "kv_abs kv' k = Some (v, ver + 1) \<and> err \<in> {OK, ErrMaybe}"
  using assms
proof (induction script arbitrary: kv first own)
  case (Cons at script)
  let ?kv = "serve_puts kv (others at)" and ?a = "\<lparr>pa_Key = k, pa_Value = v, pa_Version = ver\<rparr>"
  have same: "kv_abs ?kv k = kv_abs kv k" by (rule others_alone [OF Cons.prems(1,2)])
  then have cv: "current_version (kv_abs ?kv) k = ver" using Cons.prems(3) by (simp add: current_version_def)
  obtain kv1 where put: "KVServer_Put ?kv ?a = (kv1, \<lparr>pr_Err = OK\<rparr>)" "kv_abs kv1 = (kv_abs ?kv)(k \<mapsto> (v, ver + 1))"
    by (cases rule: KVServer_Put_cases [of ?kv ?a]) (use cv in \<open>auto simp: current_version_def\<close>)
  have al: "alone K script" using Cons.prems(1) by (simp add: alone_def)
  have later: "kv_abs kv' k = Some (v, ver + 1) \<and> err \<in> {ErrMaybe}"
    if "Clerk_Put_loop False ?a script kv1 = (kv', own1, Some err)" for own1
    using alone_put_stale [OF al Cons.prems(2) _ _ that] put(2) Cons.prems(4) by (auto simp: current_version_def)
  show ?case
  proof (cases at)
    case (ReqLost as)
    then show ?thesis using Cons.IH [OF al Cons.prems(2) cv [symmetric] Cons.prems(4)] Cons.prems(5) by (simp add: Let_def)
  next
    case (ReplyLost as)
    then show ?thesis using Cons.prems(5) put(1) later by (auto simp: Let_def split: prod.splits)
  next
    case (Replied as)
    then show ?thesis using Cons.prems(5) put by (auto simp: Let_def put_result_def)
  qed
qed simp

lemma alone_put_other:
  assumes "alone K script" "k' \<in> K" "k' \<noteq> k"
    "Clerk_Put_loop first \<lparr>pa_Key = k, pa_Value = v, pa_Version = ver\<rparr> script kv = (kv', own, res)"
  shows "kv_abs kv' k' = kv_abs kv k'"
  using assms
proof (induction script arbitrary: kv first own)
  case (Cons at script)
  let ?kv = "serve_puts kv (others at)" and ?a = "\<lparr>pa_Key = k, pa_Value = v, pa_Version = ver\<rparr>"
  have same: "kv_abs ?kv k' = kv_abs kv k'" by (rule others_alone [OF Cons.prems(1,2)])
  have put: "kv_abs (fst (KVServer_Put ?kv ?a)) k' = kv_abs ?kv k'"
    using Cons.prems(3) by (simp add: kv_simps spec_put_other)
  have al: "alone K script" using Cons.prems(1) by (simp add: alone_def)
  note IH = Cons.IH [OF al Cons.prems(2,3)]
  show ?case
    using Cons.prems(4) IH [of False ?kv] IH [of False "fst (KVServer_Put ?kv ?a)"] same put
    by (cases at) (auto simp: Let_def split: prod.splits)
qed simp

lemma alone_get:
  assumes "alone K script" "k \<in> K" "Clerk_Get key script kv = (kv', Some r)"
  shows "kv_abs kv' k = kv_abs kv k \<and> r = spec_get (kv_abs kv') key"
proof -
  obtain pre post as where g: "script = pre @ Replied as # post"
    "kv' = serve_puts kv (concat (map others pre) @ as)" "r = KVServer_Get kv' \<lparr>ga_Key = key\<rparr>"
    using Clerk_Get_linear [of "\<lparr>ga_Key = key\<rparr>" script kv kv' r] assms(3) by (auto simp: Clerk_Get_def)
  have "\<forall>a\<in>set (concat (map others pre) @ as). pa_Key a \<noteq> k"
    using assms(1,2) by (auto simp: g(1) alone_def)
  then have "kv_abs kv' k = kv_abs kv k" unfolding g(2) by (rule serve_others)
  then show ?thesis by (simp add: g(3) kv_simps)
qed

section \<open>PutAtLeastOnce\<close>

text \<open>One round of the loop.\<close>

lemma put_round:
  assumes "alone {key} script" "unat ver \<le> unat (current_version (kv_abs kv) key)"
    "unat (current_version (kv_abs kv) key) + 1 < 2 ^ 64"
    "Clerk_Put key value ver script kv = (kv1, own, Some err)"
  shows "err = OK \<Longrightarrow> kv_abs kv1 key = Some (value, ver + 1)"
    and "err \<in> {OK, ErrMaybe, ErrVersion}"
    and "err \<noteq> OK \<Longrightarrow> unat (ver + 1) \<le> unat (current_version (kv_abs kv1) key) \<and>
      unat (current_version (kv_abs kv1) key) \<le> unat (current_version (kv_abs kv) key) + 1 \<and>
      unat (current_version (kv_abs kv1) key) - unat (ver + 1) \<le> unat (current_version (kv_abs kv) key) - unat ver - 1"
proof -
  let ?cur = "current_version (kv_abs kv) key"
  have suc: "unat (ver + 1) = unat ver + 1"
  proof -
    have "unat ver + 1 < 2 ^ 64" using assms(2,3) by linarith
    then show ?thesis by (simp add: unat_word_ariths take_bit_nat_eq_self flip: take_bit_eq_mod)
  qed
  note run = assms(4) [unfolded Clerk_Put_def]
  have "(err = OK \<longrightarrow> kv_abs kv1 key = Some (value, ver + 1)) \<and> err \<in> {OK, ErrMaybe, ErrVersion} \<and>
    (err \<noteq> OK \<longrightarrow> unat (ver + 1) \<le> unat (current_version (kv_abs kv1) key) \<and>
      unat (current_version (kv_abs kv1) key) \<le> unat ?cur + 1 \<and>
      unat (current_version (kv_abs kv1) key) - unat (ver + 1) \<le> unat ?cur - unat ver - 1)"
  proof (cases "ver = ?cur")
    case True
    have "ver + 1 \<noteq> ver" by simp
    then have "kv_abs kv1 key = Some (value, ver + 1) \<and> err \<in> {OK, ErrMaybe}"
      using alone_put_current [OF assms(1) _ True _ run] by simp
    then show ?thesis using True suc by (auto simp: current_version_def)
  next
    case False
    then have "?cur \<noteq> 0" using assms(2) by (metis unat_0 le_zero_eq unsigned_eq_0_iff)
    then have "kv_abs kv key \<noteq> None" by (cases "kv_abs kv key") (auto simp: current_version_def)
    then have "kv_abs kv1 key = kv_abs kv key \<and> err \<in> {ErrVersion, ErrMaybe}"
      using alone_put_stale [OF assms(1) _ _ False run] by simp
    moreover have "unat ver < unat ?cur" using False assms(2) by (metis le_neq_implies_less word_unat_eq_iff)
    ultimately show ?thesis using suc by (auto simp: current_version_def)
  qed
  then show "err = OK \<Longrightarrow> kv_abs kv1 key = Some (value, ver + 1)" "err \<in> {OK, ErrMaybe, ErrVersion}"
    "err \<noteq> OK \<Longrightarrow> unat (ver + 1) \<le> unat (current_version (kv_abs kv1) key) \<and>
      unat (current_version (kv_abs kv1) key) \<le> unat ?cur + 1 \<and>
      unat (current_version (kv_abs kv1) key) - unat (ver + 1) \<le> unat ?cur - unat ver - 1" by blast+
qed

text \<open>
  What \<open>PutAtLeastOnce\<close> guarantees.  When no other client puts to the key and the version passed is not
  ahead of the server's, \<open>PutAtLeastOnce\<close> never calls \<open>Fatalf\<close>; when it returns, the key has the
  value under the version returned; and it does return once as many of its puts have been answered
  as the version was behind and the next one is answered at once.
\<close>

theorem PutAtLeastOnce_writes:
  assumes "list_all (alone {key}) scripts"
    and "unat ver \<le> unat (current_version (kv_abs kv) key)"
    and "unat (current_version (kv_abs kv) key) + length scripts < 2 ^ 64 - 1"
  shows "(\<forall>kv' r. PutAtLeastOnce key value ver scripts kv = Some (kv', r) \<longrightarrow>
      (\<exists>n. r = Some n \<and> kv_abs kv' key = Some (value, n))) \<and>
    (\<forall>pre as rest post. scripts = pre @ (Replied as # rest) # post \<and>
       unat (current_version (kv_abs kv) key) - unat ver \<le> length pre \<and>
       list_all (\<lambda>script. \<exists>as. Replied as \<in> set script) pre \<longrightarrow>
       PutAtLeastOnce key value ver scripts kv \<noteq> None)"
  using assms
proof (induction scripts arbitrary: ver kv)
  case (Cons script scripts)
  let ?cur = "current_version (kv_abs kv) key"
  obtain kv1 own res where run: "Clerk_Put key value ver script kv = (kv1, own, res)" by (metis prod_cases3)
  have al: "alone {key} script" "list_all (alone {key}) scripts" using Cons.prems(1) by simp_all
  have lt: "unat ?cur + 1 < 2 ^ 64" using Cons.prems(3) by simp
  show ?case
  proof (cases res)
    case None
    then have "\<nexists>as. Replied as \<in> set script"
      using Clerk_Put_returns run by (metis Clerk_Put_def snd_conv)
    moreover have "\<not> (script # scripts = pre @ (Replied as # rest) # post \<and>
        list_all (\<lambda>script. \<exists>as. Replied as \<in> set script) pre)" for pre as rest post
      using calculation by (cases pre) auto
    ultimately show ?thesis using None run by auto
  next
    case (Some err)
    note R = put_round [OF al(1) Cons.prems(2) lt run [unfolded Some]]
    show ?thesis
    proof (cases "err = OK")
      case True
      then have "PutAtLeastOnce key value ver (script # scripts) kv = Some (kv1, Some (ver + 1))"
        by (simp add: run Some)
      then show ?thesis unfolding \<open>PutAtLeastOnce key value ver (script # scripts) kv = _\<close> using R(1) True by simp
    next
      case False
      have eq: "PutAtLeastOnce key value ver (script # scripts) kv = PutAtLeastOnce key value (ver + 1) scripts kv1"
        using R(2) False by (auto simp: run Some)
      note IH = Cons.IH [OF al(2), of "ver + 1" kv1]
      have le: "unat (ver + 1) \<le> unat (current_version (kv_abs kv1) key)"
        "unat (current_version (kv_abs kv1) key) + length scripts < 2 ^ 64 - 1"
        using R(3) [OF False] Cons.prems(3) by simp_all
      have "PutAtLeastOnce key value (ver + 1) scripts kv1 \<noteq> None"
        if "script # scripts = pre @ (Replied as # rest) # post" "unat ?cur - unat ver \<le> length pre"
          "list_all (\<lambda>script. \<exists>as. Replied as \<in> set script) pre" for pre as rest post
      proof (cases pre)
        case Nil
        then have "ver = ?cur" using that(2) Cons.prems(2) by (simp add: word_unat_eq_iff)
        moreover have "kv_abs (serve_puts kv as) key = kv_abs kv key"
          using others_alone [of "{key}" "Replied as" rest key kv] al(1) that(1) Nil by simp
        ultimately have "err = OK"
          using run that(1) Nil Some
          by (auto simp: Clerk_Put_def Let_def current_version_def put_result_def
              intro: KVServer_Put_cases [of "serve_puts kv as" "\<lparr>pa_Key = key, pa_Value = value, pa_Version = ver\<rparr>"]
              split: prod.splits)
        then show ?thesis using False by simp
      next
        case (Cons a list)
        then show ?thesis using IH [OF le] that R(3) [OF False] by auto
      qed
      then show ?thesis unfolding eq using IH [OF le] by blast
    qed
  qed
qed simp

theorem PutAtLeastOnce_writes_witness:
  "\<exists>kv' n. PutAtLeastOnce ''k'' ''x'' 0 [[ReplyLost [], Replied []], [Replied []]] MakeKVServer = Some (kv', Some n) \<and>
     kv_abs kv' ''k'' = Some (''x'', n)"
proof -
  let ?scripts = "[[ReplyLost [], Replied []], [Replied []]]"
  have ok: "list_all (alone {''k''}) ?scripts" by (simp add: alone_def)
  have cur: "current_version (kv_abs MakeKVServer) ''k'' = 0" by (simp add: current_version_def)
  have bounds: "unat (0 :: Tversion) \<le> unat (current_version (kv_abs MakeKVServer) ''k'')"
    "unat (current_version (kv_abs MakeKVServer) ''k'') + length ?scripts < 2 ^ 64 - 1" by (simp_all add: current_version_def)
  note W = PutAtLeastOnce_writes [OF ok bounds, of "''x''"]
  have "PutAtLeastOnce ''k'' ''x'' 0 ?scripts MakeKVServer \<noteq> None"
    by (rule W [THEN conjunct2, rule_format, of "[[ReplyLost [], Replied []]]" "[]" "[]" "[]"])
      (simp add: current_version_def)
  then obtain kv' r where run: "PutAtLeastOnce ''k'' ''x'' 0 ?scripts MakeKVServer = Some (kv', r)" by auto
  then obtain n where "r = Some n" "kv_abs kv' ''k'' = Some (''x'', n)" using W by blast
  then show ?thesis using run by blast
qed

section \<open>SpreadPuts\<close>

lemma MakeKeys_distinct: "distinct (MakeKeys n)"
  by (auto simp: MakeKeys_def distinct_map inj_on_def dest: arg_cong [of _ _ atoi])

lemma spread_puts_stores:
  assumes "distinct (map fst kvs)" "fst ` set kvs \<subseteq> K" "list_all (alone K) scripts"
    "\<And>k v. (k, v) \<in> set kvs \<Longrightarrow> kv_abs kv k = None" "spread_puts kvs scripts kv = Some kv'"
  shows "(\<forall>(k, v)\<in>set kvs. kv_abs kv' k = Some (v, 1)) \<and>
    (\<forall>k\<in>K - fst ` set kvs. kv_abs kv' k = kv_abs kv k)"
  using assms
proof (induction kvs scripts kv rule: spread_puts.induct)
  case (3 k v kvs script scripts kv)
  obtain kv1 own err where run: "Clerk_Put k v 0 script kv = (kv1, own, Some err)"
    "spread_puts kvs scripts kv1 = Some kv'"
    using "3.prems"(5) by (auto split: prod.splits option.splits)
  have K: "k \<in> K" "alone K script" "fst ` set kvs \<subseteq> K" "list_all (alone K) scripts" "k \<notin> fst ` set kvs"
    using "3.prems"(1-3) by auto
  have "kv_abs kv k = None" using "3.prems"(4) by auto
  then have new: "kv_abs kv1 k = Some (v, 1)"
    using alone_put_current [OF K(2,1), of 0 kv True v] run(1) by (simp add: current_version_def Clerk_Put_def)
  have old: "kv_abs kv1 k' = kv_abs kv k'" if "k' \<in> K" "k' \<noteq> k" for k'
    using alone_put_other [OF K(2) that] run(1) by (simp add: Clerk_Put_def)
  have "kv_abs kv1 k' = None" if "(k', v') \<in> set kvs" for k' v'
  proof -
    have "k' \<in> K" "k' \<noteq> k" using that K(3,5) by (auto simp: image_iff)
    then show ?thesis using old "3.prems"(4) that by auto
  qed
  note IH = "3.IH" [OF run(1) [symmetric] refl refl _ K(3,4) this run(2)]
  have IH': "(\<forall>(k, v)\<in>set kvs. kv_abs kv' k = Some (v, 1)) \<and> (\<forall>k\<in>K - fst ` set kvs. kv_abs kv' k = kv_abs kv1 k)"
    by (rule IH) (use "3.prems"(1) in simp_all)
  then show ?case using new old K(1,5) by auto
qed auto

lemma spread_checks_pass:
  assumes "fst ` set kvs \<subseteq> K" "list_all (alone K) scripts" "\<And>k v. (k, v) \<in> set kvs \<Longrightarrow> kv_abs kv k = Some (v, 1)"
    "spread_checks kvs scripts kv = Some (kv', ok)"
  shows "ok"
  using assms
proof (induction kvs scripts kv rule: spread_checks.induct)
  case (3 k v kvs script scripts kv)
  obtain kv1 r where run: "Clerk_Get k script kv = (kv1, Some r)"
    using "3.prems"(4) by (auto simp: CheckGet_def split: prod.splits option.splits)
  have same: "kv_abs kv1 k' = kv_abs kv k' \<and> r = spec_get (kv_abs kv1) k" if "k' \<in> K" for k'
    using alone_get [OF _ that run] "3.prems"(2) by simp
  have "k \<in> K" using "3.prems"(1) by simp
  have "kv_abs kv k = Some (v, 1)" by (rule "3.prems"(3)) simp
  then have ok: "CheckGet k v 1 script kv = Some (kv1, True)"
    using same [OF \<open>k \<in> K\<close>] by (simp add: CheckGet_def run spec_get_def)
  have "kv_abs kv1 k' = Some (v', 1)" if "(k', v') \<in> set kvs" for k' v'
  proof -
    have "k' \<in> K" using "3.prems"(1) that by force
    moreover have "kv_abs kv k' = Some (v', 1)" by (rule "3.prems"(3)) (simp add: that)
    ultimately show ?thesis using same by simp
  qed
  then show ?case using "3.IH" [OF ok refl] "3.prems" ok by simp
qed auto

text \<open>
  \<open>SpreadPuts\<close> on keys that are not there finds every key at version 1 with its value, whatever the
  network lost, although it ignores the answers of its puts.
\<close>

theorem SpreadPutsSize_checks:
  assumes "SpreadPutsSize n randstr puts gets kv = Some (kv', ok)"
    and "list_all (alone (set (MakeKeys n))) puts" and "list_all (alone (set (MakeKeys n))) gets"
    and "\<And>k. k \<in> set (MakeKeys n) \<Longrightarrow> kv_abs kv k = None"
  shows ok
proof -
  let ?kvs = "zip (MakeKeys n) (map randstr [0..<n])"
  have len: "length (MakeKeys n) = n" by (simp add: MakeKeys_def)
  obtain kv1 where run: "spread_puts ?kvs puts kv = Some kv1" "spread_checks ?kvs gets kv1 = Some (kv', ok)"
    using assms(1) by (auto simp: SpreadPutsSize_def Let_def split: option.splits)
  have keys: "map fst ?kvs = MakeKeys n" by (simp add: len)
  then have sub: "fst ` set ?kvs \<subseteq> set (MakeKeys n)" by (metis list.set_map order_refl)
  have "(\<forall>(k, v)\<in>set ?kvs. kv_abs kv1 k = Some (v, 1)) \<and>
      (\<forall>k\<in>set (MakeKeys n) - fst ` set ?kvs. kv_abs kv1 k = kv_abs kv k)"
  proof (rule spread_puts_stores [OF _ sub assms(2) _ run(1)])
    show "distinct (map fst ?kvs)" unfolding keys by (rule MakeKeys_distinct)
    show "kv_abs kv k = None" if "(k, v) \<in> set ?kvs" for k v
      using assms(4) set_zip_leftD [OF that] .
  qed
  then show ?thesis using spread_checks_pass [OF sub assms(3) _ run(2)] by fast
qed

text \<open>
  \<open>PutAtLeastOnceJson\<close> puts at version \<open>0\<close> whatever version it is given: on a key that has been
  written it returns without ever writing.
\<close>

theorem PutAtLeastOnceJson_never_writes:
  assumes "PutAtLeastOnceJson json key v ver scripts kv = Some (kv', ver')"
    and "list_all (alone {key}) scripts" and "kv_abs kv key = Some (old, n)" and "n \<noteq> 0"
  shows "kv_abs kv' key = Some (old, n)"
  using assms
proof (induction json key v ver scripts kv rule: PutAtLeastOnceJson.induct)
  case (2 json key v ver script scripts kv)
  obtain kv1 own err where run: "Clerk_Put key (json v) 0 script kv = (kv1, own, Some err)"
    using "2.prems"(1) by (auto split: prod.splits option.splits)
  have "kv_abs kv1 key = kv_abs kv key"
    using alone_put_stale [of "{key}" script key kv 0 True "json v"] "2.prems"(2-4) run
    by (auto simp: current_version_def Clerk_Put_def)
  then show ?case using 2 run by (auto split: if_splits)
qed simp

end
