(* ===== verification/GraphSearch.thy ===== *)
theory GraphSearch
  imports GoPrelude
begin

text \<open>
  Depth-first search as the repository writes it twice (the serial crawler of
  \<open>class/lecture2/crawler.go\<close> and the type check of \<open>labgob.go\<close>): a loop over items, each with an
  action of its own and a node; a node that has not been seen is marked, then the items of its
  edges are searched, then the rest.  The locale has the recursion as its laws; what it proves is
  that the search returns when finitely many nodes can be reached, and what it has seen then.
\<close>

definition edges :: "('n \<Rightarrow> 'i list) \<Rightarrow> ('i \<Rightarrow> 'n) \<Rightarrow> ('n \<times> 'n) set" where
  "edges succ node = {(n, node i) | n i. i \<in> set (succ n)}"

definition reach :: "('n \<Rightarrow> 'i list) \<Rightarrow> ('i \<Rightarrow> 'n) \<Rightarrow> 'n set \<Rightarrow> 'n set" where
  "reach succ node N = (edges succ node)\<^sup>* `` N"

lemma reach_self: "n \<in> N \<Longrightarrow> n \<in> reach succ node N"
  by (auto simp: reach_def)

lemma reach_step: "n \<in> reach succ node N \<Longrightarrow> i \<in> set (succ n) \<Longrightarrow> node i \<in> reach succ node N"
  by (auto simp: reach_def edges_def intro: rtrancl_into_rtrancl)

lemma reach_least:
  assumes "N \<subseteq> V" "\<And>n i. n \<in> V \<Longrightarrow> i \<in> set (succ n) \<Longrightarrow> node i \<in> V"
  shows "reach succ node N \<subseteq> V"
proof
  fix x
  assume "x \<in> reach succ node N"
  then obtain n where "n \<in> N" "(n, x) \<in> (edges succ node)\<^sup>*" by (auto simp: reach_def)
  from this(2) show "x \<in> V"
    by induction (use assms \<open>n \<in> N\<close> in \<open>auto simp: edges_def\<close>)
qed

locale graph_search =
  fixes succ :: "'n \<Rightarrow> 'i list" and node :: "'i \<Rightarrow> 'n"
    and seen :: "'st \<Rightarrow> 'n set" and act :: "'i \<Rightarrow> 'st \<Rightarrow> 'st" and mark :: "'n \<Rightarrow> 'st \<Rightarrow> 'st"
    and search :: "'i list \<Rightarrow> 'st \<Rightarrow> 'st option"
    and cost :: "'st \<Rightarrow> nat" and weight :: "'i \<Rightarrow> nat"
  assumes search_Nil: "search [] st = Some st"
    and search_Cons: "search (i # is) st =
      (if node i \<in> seen (act i st) then search is (act i st)
       else Option.bind (search (succ (node i)) (mark (node i) (act i st))) (search is))"
    and seen_act: "seen (act i st) = seen st"
    and seen_mark: "seen (mark n st) = insert n (seen st)"
    and cost_act: "cost (act i st) = cost st + weight i"
    and cost_mark: "cost (mark n st) = cost st"
begin

definition weights :: "'i list \<Rightarrow> nat" where
  "weights is = sum_list (map weight is)"

text \<open>What a search over \<open>is\<close> from \<open>st\<close> has done when it returns \<open>st'\<close>.\<close>

definition searched :: "'n set \<Rightarrow> 'i list \<Rightarrow> 'st \<Rightarrow> 'st \<Rightarrow> bool" where
  "searched U is st st' \<longleftrightarrow>
     seen st \<subseteq> seen st' \<and> seen st' \<subseteq> seen st \<union> U \<and> node ` set is \<subseteq> seen st' \<and>
     (\<forall>n\<in>seen st' - seen st. node ` set (succ n) \<subseteq> seen st') \<and>
     cost st' = cost st + weights is + (\<Sum>n\<in>seen st' - seen st. weights (succ n))"

lemma searched_Nil: "searched U [] st st"
  by (simp add: searched_def weights_def)

lemma searched_old:
  assumes "node i \<in> seen st" "searched U is (act i st) st'"
  shows "searched U (i # is) st st'"
  using assms by (auto simp: searched_def seen_act cost_act weights_def)

lemma searched_new:
  assumes U: "finite U" "node i \<in> U" "node i \<notin> seen st"
    and 1: "searched U (succ (node i)) (mark (node i) (act i st)) st1" and 2: "searched U is st1 st'"
  shows "searched U (i # is) st st'"
proof -
  let ?n = "node i"
  have s1: "insert ?n (seen st) \<subseteq> seen st1" "seen st1 \<subseteq> insert ?n (seen st) \<union> U"
    "node ` set (succ ?n) \<subseteq> seen st1"
    "\<forall>n\<in>seen st1 - insert ?n (seen st). node ` set (succ n) \<subseteq> seen st1"
    "cost st1 = cost st + weight i + weights (succ ?n) +
       (\<Sum>n\<in>seen st1 - insert ?n (seen st). weights (succ n))"
    using 1 by (simp_all add: searched_def seen_act seen_mark cost_act cost_mark)
  have s2: "seen st1 \<subseteq> seen st'" "seen st' \<subseteq> seen st1 \<union> U" "node ` set is \<subseteq> seen st'"
    "\<forall>n\<in>seen st' - seen st1. node ` set (succ n) \<subseteq> seen st'"
    "cost st' = cost st1 + weights is + (\<Sum>n\<in>seen st' - seen st1. weights (succ n))"
    using 2 by (simp_all add: searched_def)
  have split: "seen st' - seen st = insert ?n ((seen st1 - insert ?n (seen st)) \<union> (seen st' - seen st1))"
    using s1(1) s2(1) U(3) by auto
  have fin: "finite (seen st1 - insert ?n (seen st))" "finite (seen st' - seen st1)"
    by (rule finite_subset [OF _ U(1)], use s1(2) s2(2) in blast)+
  have "(\<Sum>n\<in>seen st' - seen st. weights (succ n)) = weights (succ ?n) +
      ((\<Sum>n\<in>seen st1 - insert ?n (seen st). weights (succ n)) + (\<Sum>n\<in>seen st' - seen st1. weights (succ n)))"
    unfolding split using fin s1(1)
    by (subst sum.insert) (auto simp: sum.union_disjoint [symmetric] intro!: sum.union_disjoint)
  then have "cost st' = cost st + weights (i # is) + (\<Sum>n\<in>seen st' - seen st. weights (succ n))"
    using s1(5) s2(5) by (simp add: weights_def)
  moreover have "\<forall>n\<in>seen st' - seen st. node ` set (succ n) \<subseteq> seen st'"
    unfolding split using s1(3,4) s2(1,4) by blast
  ultimately show ?thesis
    using s1(1,2) s2(1-3) U(2) by (auto simp: searched_def)
qed

text \<open>The search returns, having seen what it should; \<open>P\<close> is any invariant of its actions.\<close>

lemma search_total:
  assumes U: "finite U" "\<And>n i. n \<in> U \<Longrightarrow> i \<in> set (succ n) \<Longrightarrow> node i \<in> U"
    and P: "\<And>i st. P st \<Longrightarrow> P (act i st)" "\<And>n st. n \<notin> seen st \<Longrightarrow> P st \<Longrightarrow> P (mark n st)"
  shows "node ` set items \<subseteq> U \<Longrightarrow> P st \<Longrightarrow> \<exists>st'. search items st = Some st' \<and> searched U items st st' \<and> P st'"
proof (induction "(items, st)" arbitrary: items st
    rule: wf_induct_rule [OF wf_measures [of "[\<lambda>(items, st). card (U - seen st), \<lambda>(items, st). length items]"]])
  case less: (1 is0 st)
  show ?case
  proof (cases is0)
    case Nil
    then show ?thesis using less.prems(2) searched_Nil by (auto simp: search_Nil)
  next
    case (Cons i js)
    let ?st = "act i st"
    have Pst: "P ?st" and sub: "node ` set js \<subseteq> U" "node i \<in> U"
      using less.prems Cons P(1) by auto
    show ?thesis
    proof (cases "node i \<in> seen st")
      case True
      obtain st' where "search js ?st = Some st'" "searched U js ?st st'" "P st'"
        using less.hyps [OF _ sub(1) Pst] Cons by (auto simp: seen_act)
      then show ?thesis using True Cons searched_old [OF True] by (auto simp: search_Cons seen_act)
    next
      case False
      let ?m = "mark (node i) ?st"
      have "U - seen ?m \<subset> U - seen st" using False sub(2) by (auto simp: seen_mark seen_act)
      then have c: "card (U - seen ?m) < card (U - seen st)" using U(1) by (simp add: psubset_card_mono)
      have "node ` set (succ (node i)) \<subseteq> U" using U(2) sub(2) by auto
      then obtain st1 where st1: "search (succ (node i)) ?m = Some st1"
        "searched U (succ (node i)) ?m st1" "P st1"
        using less.hyps [of "succ (node i)" ?m] P(2) [OF _ Pst, of "node i"] c False
        by (auto simp: seen_act)
      have "insert (node i) (seen st) \<subseteq> seen st1"
        using st1(2) by (simp add: searched_def seen_mark seen_act)
      then have "U - seen st1 \<subseteq> U - seen ?m" by (auto simp: seen_mark seen_act)
      then have "card (U - seen st1) < card (U - seen st)"
        using c U(1) by (meson card_mono finite_Diff le_less_trans)
      then obtain st' where "search js st1 = Some st'" "searched U js st1 st'" "P st'"
        using less.hyps [OF _ sub(1) st1(3)] by auto
      then show ?thesis
        using False Cons st1 searched_new [OF U(1) sub(2) False st1(2)]
        by (auto simp: search_Cons seen_act)
    qed
  qed
qed

text \<open>From a state in which nothing has been seen, exactly the reachable nodes are seen.\<close>

lemma search_reaches:
  assumes fin: "finite (reach succ node (node ` set items))" and st: "seen st = {}" "P st"
    and P: "\<And>i st. P st \<Longrightarrow> P (act i st)" "\<And>n st. n \<notin> seen st \<Longrightarrow> P st \<Longrightarrow> P (mark n st)"
  obtains st' where "search items st = Some st'" "seen st' = reach succ node (node ` set items)"
    "cost st' = cost st + weights items + (\<Sum>n\<in>seen st'. weights (succ n))" "P st'"
proof -
  let ?U = "reach succ node (node ` set items)"
  obtain st' where st': "search items st = Some st'" "searched ?U items st st'" "P st'"
    using search_total [of ?U P items st] fin reach_step P st(2) by (metis reach_self subsetI)
  moreover have "?U \<subseteq> seen st'"
    by (rule reach_least) (use st'(2) st(1) in \<open>simp add: searched_def image_subset_iff\<close>)+
  ultimately show thesis using that st(1) by (simp add: searched_def)
qed

end

end
