(* ===== verification/LabGob.thy ===== *)
theory LabGob
  imports GraphSearch
begin

text \<open>
  The checks that \<open>labgob/labgob.go\<close> wraps around \<open>encoding/gob\<close>: \<open>checkType\<close> complains once about
  every field name that does not start with a capital letter, in all types a type is built of;
  \<open>checkDefault\<close> warns when a decoder is given a variable that is not in its default state.

  Reflection is a graph: \<open>kind\<close> gives the kind of a type with the types it is built of, \<open>val\<close> the
  shape of a value with the values inside it; both may be cyclic, as a list type is.  Field names
  are ASCII.  The package variables \<open>checked\<close> and \<open>errorCount\<close>, and the lines printed, are the state.
\<close>

datatype 't gokind =
  KStruct string "(string \<times> 't) list"
| KSlice 't
| KArray 't
| KPtr 't
| KMap 't 't
| KBasic

record 't gobst =
  checked :: "'t \<Rightarrow> bool"
  errorCount :: nat
  printed :: "string list"

definition gob_init :: "'t gobst" where
  "gob_init = \<lparr>checked = (\<lambda>_. False), errorCount = 0, printed = []\<rparr>"

text \<open>\<open>unicode.IsUpper\<close> on the first character; an empty name has none.\<close>

definition capitalized :: "string \<Rightarrow> bool" where
  "capitalized name = (case name of [] \<Rightarrow> False | c # _ \<Rightarrow> (of_char c :: nat) \<in> {65..90})"

definition complain :: "string option \<Rightarrow> 't gobst \<Rightarrow> 't gobst" where
  "complain field st =
     (case field of
        Some f \<Rightarrow> if \<not> capitalized f
                  then st\<lparr>errorCount := errorCount st + 1,
                          printed := printed st @ [''labgob error: lower-case field '' @ f]\<rparr>
                  else st
      | None \<Rightarrow> st)"

text \<open>What the switch of \<open>checkType\<close> goes into, with the field's name in a struct.\<close>

definition components :: "'t gokind \<Rightarrow> (string option \<times> 't) list" where
  "components k =
     (case k of
        KStruct name flds \<Rightarrow> map (\<lambda>(f, t). (Some f, t)) flds
      | KSlice t \<Rightarrow> [(None, t)]
      | KArray t \<Rightarrow> [(None, t)]
      | KPtr t \<Rightarrow> [(None, t)]
      | KMap key elem \<Rightarrow> [(None, elem), (None, key)]
      | KBasic \<Rightarrow> [])"

definition set_checked :: "'t \<Rightarrow> 't gobst \<Rightarrow> 't gobst" where
  "set_checked t st = st\<lparr>checked := (checked st)(t := True)\<rparr>"

text \<open>\<open>checkType\<close> for each component of a list, the complaint about its name first.\<close>

partial_function (option) check_components :: "('t \<Rightarrow> 't gokind) \<Rightarrow> (string option \<times> 't) list \<Rightarrow>
    't gobst \<Rightarrow> 't gobst option" where
  "check_components kind is st =
     (case is of
        [] \<Rightarrow> Some st
      | i # is \<Rightarrow>
          if checked (complain (fst i) st) (snd i)
          then check_components kind is (complain (fst i) st)
          else Option.bind
            (check_components kind (components (kind (snd i)))
              (set_checked (snd i) (complain (fst i) st)))
            (check_components kind is))"

definition checkType :: "('t \<Rightarrow> 't gokind) \<Rightarrow> 't \<Rightarrow> 't gobst \<Rightarrow> 't gobst option" where
  "checkType kind t st = check_components kind [(None, t)] st"

section \<open>Default values\<close>

text \<open>A basic value with the name of its type and whether it is the default; other kinds.\<close>

datatype 'v govalue =
  VStruct "(string \<times> 'v) list"
| VPtr "'v option"
| VBasic string bool
| VOther

definition default_warning :: "string \<Rightarrow> string \<Rightarrow> 't gobst \<Rightarrow> 't gobst" where
  "default_warning tname name st =
     (let st1 = (if errorCount st < 1
                 then st\<lparr>printed := printed st @
                        [''labgob warning: Decoding into a non-default variable/field '' @
                           (if name = '''' then tname else name) @ '' may not work'']\<rparr>
                 else st)
      in st1\<lparr>errorCount := errorCount st1 + 1\<rparr>)"

definition field_name :: "string \<Rightarrow> string \<Rightarrow> string" where
  "field_name name f = (if name \<noteq> '''' then name @ ''.'' @ f else f)"

function checkDefault1 :: "('v \<Rightarrow> 'v govalue) \<Rightarrow> 'v \<Rightarrow> nat \<Rightarrow> string \<Rightarrow> 't gobst \<Rightarrow> 't gobst" where
  "checkDefault1 val v depth name st =
     (if depth > 3 then st
      else case val v of
        VStruct flds \<Rightarrow>
          fold (\<lambda>(f, vv). checkDefault1 val vv (depth + 1) (field_name name f)) flds st
      | VPtr None \<Rightarrow> st
      | VPtr (Some e) \<Rightarrow> checkDefault1 val e (depth + 1) name st
      | VBasic tname is_default \<Rightarrow> if \<not> is_default then default_warning tname name st else st
      | VOther \<Rightarrow> st)"
  by auto
termination
  by (relation "measure (\<lambda>(val, v, depth, name, st). 4 - depth)") auto

declare checkDefault1.simps [simp del]

text \<open>\<open>nil\<close> is \<open>None\<close>.\<close>

definition checkDefault :: "('v \<Rightarrow> 'v govalue) \<Rightarrow> 'v option \<Rightarrow> 't gobst \<Rightarrow> 't gobst" where
  "checkDefault val v st = (case v of None \<Rightarrow> st | Some v \<Rightarrow> checkDefault1 val v 1 '''' st)"

text \<open>What \<open>Encode\<close>, \<open>Register\<close> and \<open>Decode\<close> check of a value of type \<open>typ v\<close> before calling gob.\<close>

definition checkValue :: "('t \<Rightarrow> 't gokind) \<Rightarrow> ('v \<Rightarrow> 't) \<Rightarrow> 'v \<Rightarrow> 't gobst \<Rightarrow> 't gobst option" where
  "checkValue kind typ v st = checkType kind (typ v) st"

definition Encode_check :: "('t \<Rightarrow> 't gokind) \<Rightarrow> ('v \<Rightarrow> 't) \<Rightarrow> 'v \<Rightarrow> 't gobst \<Rightarrow> 't gobst option" where
  "Encode_check kind typ e st = checkValue kind typ e st"

definition Decode_check :: "('t \<Rightarrow> 't gokind) \<Rightarrow> ('v \<Rightarrow> 't) \<Rightarrow> ('v \<Rightarrow> 'v govalue) \<Rightarrow> 'v \<Rightarrow>
    't gobst \<Rightarrow> 't gobst option" where
  "Decode_check kind typ val e st =
     map_option (checkDefault val (Some e)) (checkValue kind typ e st)"

definition Register_check :: "('t \<Rightarrow> 't gokind) \<Rightarrow> ('v \<Rightarrow> 't) \<Rightarrow> 'v \<Rightarrow> 't gobst \<Rightarrow> 't gobst option" where
  "Register_check kind typ v st = checkValue kind typ v st"

section \<open>The types are checked once\<close>

text \<open>The lower-case fields of a type.\<close>

definition lower_fields :: "'t gokind \<Rightarrow> string list" where
  "lower_fields k = (case k of KStruct name flds \<Rightarrow> filter (\<lambda>f. \<not> capitalized f) (map fst flds) | _ \<Rightarrow> [])"

definition built_of :: "('t \<Rightarrow> 't gokind) \<Rightarrow> 't \<Rightarrow> 't set" where
  "built_of kind t = reach (\<lambda>t. components (kind t)) snd {t}"

text \<open>The types checked so far include what they are built of.\<close>

definition checked_closed :: "('t \<Rightarrow> 't gokind) \<Rightarrow> 't gobst \<Rightarrow> bool" where
  "checked_closed kind st \<longleftrightarrow> (\<forall>t. checked st t \<longrightarrow> (\<forall>i\<in>set (components (kind t)). checked st (snd i)))"

lemma complain_simps [simp]:
  "checked (complain f st) = checked st"
  "errorCount (complain f st) =
     errorCount st + (case f of Some f \<Rightarrow> if capitalized f then 0 else 1 | None \<Rightarrow> 0)"
  "complain None st = st"
  by (simp_all add: complain_def split: option.split)

interpretation gob: graph_search "\<lambda>t. components (kind t)" snd "\<lambda>st. {t. checked st t}"
  "\<lambda>i. complain (fst i)" set_checked "check_components kind" errorCount
  "\<lambda>i. case fst i of Some f \<Rightarrow> if capitalized f then 0 else 1 | None \<Rightarrow> 0" for kind
  by unfold_locales
    (auto simp: set_checked_def check_components.simps [of _ "[]"] check_components.simps [of _ "_ # _"]
      split: option.split)

lemma weights_components: "gob.weights (components k) = length (lower_fields k)"
proof -
  have "sum_list (map (\<lambda>i. case fst i of Some f \<Rightarrow> if capitalized f then 0 else 1 | None \<Rightarrow> 0)
      (map (\<lambda>(f, t). (Some f, t)) flds)) = length (filter (\<lambda>f. \<not> capitalized f) (map fst flds))"
    for flds :: "(string \<times> 'a) list" by (induction flds) auto
  then show ?thesis
    by (cases k) (simp_all add: gob.weights_def components_def lower_fields_def)
qed

lemma weights_start: "gob.weights [(None, t)] = 0"
  by (simp add: gob.weights_def)

text \<open>
  Every type is checked once: \<open>checkType\<close> returns on every type that is built of finitely
  many types, recursive ones included.  It then has checked exactly the types the type is built
  of besides those checked before, has added to \<open>errorCount\<close> the number of lower-case fields of
  the types that were new, and a second call changes nothing.
\<close>

theorem checkType_complains_once:
  assumes "finite (built_of kind t)" "checked_closed kind st"
  shows "\<exists>st'. checkType kind t st = Some st' \<and> checked_closed kind st' \<and>
    {u. checked st' u} = {u. checked st u} \<union> built_of kind t \<and>
    errorCount st' = errorCount st +
      (\<Sum>u\<in>built_of kind t - {u. checked st u}. length (lower_fields (kind u))) \<and>
    checkType kind t st' = Some st'"
proof -
  let ?U = "built_of kind t"
  have U: "t \<in> ?U" "\<And>u i. u \<in> ?U \<Longrightarrow> i \<in> set (components (kind u)) \<Longrightarrow> snd i \<in> ?U"
    unfolding built_of_def by (simp add: reach_self, rule reach_step [where node = snd])
  obtain st' where st': "check_components kind [(None, t)] st = Some st'"
    "gob.searched kind ?U [(None, t)] st st'"
    using gob.search_total [of ?U kind "\<lambda>_. True" "[(None, t)]" st] assms(1) U by auto
  have c: "checked_closed kind st'"
    using st'(2) assms(2) unfolding gob.searched_def checked_closed_def by blast
  then have "?U \<subseteq> {u. checked st' u}"
    unfolding built_of_def
    by (intro reach_least) (use st'(2) in \<open>auto simp: gob.searched_def checked_closed_def\<close>)
  then have eq: "{u. checked st' u} = {u. checked st u} \<union> ?U"
    using st'(2) by (auto simp: gob.searched_def)
  then have "{u. checked st' u} - {u. checked st u} = ?U - {u. checked st u}" by blast
  then have "errorCount st' = errorCount st + (\<Sum>u\<in>?U - {u. checked st u}. length (lower_fields (kind u)))"
    using st'(2) by (simp add: gob.searched_def weights_components weights_start)
  moreover have "checkType kind t st' = Some st'"
    using eq U(1) by (auto simp: checkType_def check_components.simps)
  ultimately show ?thesis using st'(1) c eq by (auto simp: checkType_def)
qed

section \<open>Non-default values are counted\<close>

text \<open>The basic values that are not the default within \<open>d\<close> levels, as the names to warn of.\<close>

primrec non_defaults :: "nat \<Rightarrow> ('v \<Rightarrow> 'v govalue) \<Rightarrow> 'v \<Rightarrow> string \<Rightarrow> string list" where
  "non_defaults 0 val v name = []"
| "non_defaults (Suc d) val v name =
     (case val v of
        VStruct flds \<Rightarrow> concat (map (\<lambda>(f, vv). non_defaults d val vv (field_name name f)) flds)
      | VPtr None \<Rightarrow> []
      | VPtr (Some e) \<Rightarrow> non_defaults d val e name
      | VBasic tname is_default \<Rightarrow> if is_default then [] else [if name = '''' then tname else name]
      | VOther \<Rightarrow> [])"

definition warned :: "string list \<Rightarrow> 't gobst \<Rightarrow> 't gobst" where
  "warned ns st = st\<lparr>errorCount := errorCount st + length ns,
     printed := printed st @ (if errorCount st = 0
       then map (\<lambda>n. ''labgob warning: Decoding into a non-default variable/field '' @ n @ '' may not work'')
              (take 1 ns) else [])\<rparr>"

lemma warned_Nil [simp]: "warned [] st = st"
  by (simp add: warned_def)

lemma warned_warned: "warned ms (warned ns st) = warned (ns @ ms) st"
  by (cases ns) (simp_all add: warned_def)

lemma default_warning_eq:
  "default_warning tname name st = warned [if name = '''' then tname else name] st"
  by (simp add: default_warning_def warned_def Let_def)

lemma checkDefault1_eq:
  "depth + d = 4 \<Longrightarrow> checkDefault1 val v depth name st = warned (non_defaults d val v name) st"
proof (induction d arbitrary: depth v name st)
  case 0
  then show ?case by (simp add: checkDefault1.simps)
next
  case (Suc d)
  have "depth + 1 + d = 4" using Suc.prems by simp
  note IH = Suc.IH [OF this, simplified]
  have "fold (\<lambda>(f, vv). checkDefault1 val vv (depth + 1) (field_name name f)) flds st =
      warned (concat (map (\<lambda>(f, vv). non_defaults d val vv (field_name name f)) flds)) st" for flds
    by (induction flds arbitrary: st) (auto simp: IH warned_warned)
  then show ?case using Suc.prems IH
    by (subst checkDefault1.simps) (simp add: default_warning_eq split: govalue.split option.split)
qed

text \<open>
  What decoding into a used variable warns of.  \<open>checkDefault\<close> adds to \<open>errorCount\<close> the number of
  basic values that are not the default down to three levels of structs and pointers, and prints
  one warning, of the first of them, if nothing has been complained about before.
\<close>

theorem checkDefault_warns_of_first:
  "checkDefault val (Some v) st = warned (non_defaults 3 val v '''') st"
  by (simp add: checkDefault_def checkDefault1_eq)

section \<open>A recursive type\<close>

text \<open>\<open>type Node struct { Key string; next *Node }\<close>: 0 is \<open>Node\<close>, 1 \<open>string\<close>, 2 \<open>*Node\<close>.\<close>

definition demo_kind :: "nat \<Rightarrow> nat gokind" where
  "demo_kind t = (if t = 0 then KStruct ''Node'' [(''Key'', 1), (''next'', 2)]
     else if t = 2 then KPtr 0 else KBasic)"

lemma demo_built: "built_of demo_kind 0 = {0, 1, 2}"
proof
  show "built_of demo_kind 0 \<subseteq> {0, 1, 2}"
    unfolding built_of_def by (rule reach_least) (auto simp: demo_kind_def components_def split: if_splits)
  have 0: "0 \<in> built_of demo_kind 0" by (simp add: built_of_def reach_self)
  have "(Some ''Key'', 1) \<in> set (components (demo_kind 0))" "(Some ''next'', 2) \<in> set (components (demo_kind 0))"
    by (simp_all add: demo_kind_def components_def)
  then have "1 \<in> built_of demo_kind 0" "2 \<in> built_of demo_kind 0"
    using reach_step [OF 0 [unfolded built_of_def]] unfolding built_of_def by force+
  then show "{0, 1, 2} \<subseteq> built_of demo_kind 0" using 0 by simp
qed

theorem checkType_complains_once_witness:
  "\<exists>st'. checkType demo_kind 0 gob_init = Some st' \<and> errorCount st' = 1 \<and>
     checkType demo_kind 0 st' = Some st'"
proof -
  have "finite (built_of demo_kind 0)" "checked_closed demo_kind gob_init"
    by (simp_all add: demo_built checked_closed_def gob_init_def)
  from checkType_complains_once [OF this] show ?thesis
    by (elim ex_forward) (simp add: demo_built gob_init_def demo_kind_def lower_fields_def capitalized_def)
qed

end
