(* ===== verification/Crawler.thy ===== *)
theory Crawler
  imports GraphSearch "HOL-Library.Multiset"
begin

text \<open>
  The three web crawlers of \<open>class/lecture2/crawler.go\<close>: serial, concurrent with a mutex, and
  concurrent with a channel and a coordinator.  A fetcher is a function to the URLs of a page,
  \<open>None\<close> being its error.  Besides the map \<open>fetched\<close> the state records the calls of \<open>Fetch\<close> in
  order.  On a web of finitely many pages all three return, and the calls they make are the same
  up to order: one for each page that can be reached.
\<close>

type_synonym fetcher = "string \<Rightarrow> string list option"

record fakeResult =
  fr_body :: string
  fr_urls :: "string list"

definition fake_Fetch :: "(string \<Rightarrow> fakeResult option) \<Rightarrow> fetcher" where
  "fake_Fetch f url = (case f url of Some res \<Rightarrow> Some (fr_urls res) | None \<Rightarrow> None)"

record crawl =
  fetched :: "string \<Rightarrow> bool"
  calls :: "string list"

definition set_fetched :: "string \<Rightarrow> crawl \<Rightarrow> crawl" where
  "set_fetched url st = st\<lparr>fetched := (fetched st)(url := True)\<rparr>"

definition call_Fetch :: "string \<Rightarrow> crawl \<Rightarrow> crawl" where
  "call_Fetch url st = st\<lparr>calls := calls st @ [url]\<rparr>"

definition makeState :: crawl where
  "makeState = \<lparr>fetched = (\<lambda>_. False), calls = []\<rparr>"

section \<open>The serial crawler\<close>

text \<open>\<open>Serial\<close> for each URL of a list; an endless web makes it run for ever, which is \<open>None\<close>.\<close>

partial_function (option) Serial_for :: "fetcher \<Rightarrow> string list \<Rightarrow> crawl \<Rightarrow> crawl option" where
  "Serial_for fetcher us st =
     (case us of
        [] \<Rightarrow> Some st
      | u # us \<Rightarrow>
          if fetched st u then Serial_for fetcher us st
          else case fetcher u of
            None \<Rightarrow> Serial_for fetcher us (call_Fetch u (set_fetched u st))
          | Some urls \<Rightarrow>
              Option.bind (Serial_for fetcher urls (call_Fetch u (set_fetched u st)))
                (Serial_for fetcher us))"

definition Serial :: "string \<Rightarrow> fetcher \<Rightarrow> crawl \<Rightarrow> crawl option" where
  "Serial url fetcher st = Serial_for fetcher [url] st"

section \<open>The concurrent crawler with a mutex\<close>

definition testAndSet :: "string \<Rightarrow> crawl \<Rightarrow> bool \<times> crawl" where
  "testAndSet url st = (fetched st url, set_fetched url st)"

text \<open>
  A goroutine of \<open>ConcurrentMutex\<close>: at \<open>testAndSet\<close>, at \<open>Fetch\<close>, in the loop (the URLs still to be
  spawned, the goroutines spawned, which run meanwhile) and in \<open>Wait\<close>, or returned.
\<close>

datatype cm_thread =
  CmTest string
| CmFetch string
| CmLoop "string list" "cm_thread list"
| CmDone

inductive cm_step :: "fetcher \<Rightarrow> cm_thread \<times> crawl \<Rightarrow> cm_thread \<times> crawl \<Rightarrow> bool"
  for fetcher :: fetcher where
  cm_seen: "testAndSet u st = (True, st') \<Longrightarrow> cm_step fetcher (CmTest u, st) (CmDone, st')"
| cm_new: "testAndSet u st = (False, st') \<Longrightarrow> cm_step fetcher (CmTest u, st) (CmFetch u, st')"
| cm_err: "fetcher u = None \<Longrightarrow> cm_step fetcher (CmFetch u, st) (CmDone, call_Fetch u st)"
| cm_urls: "fetcher u = Some urls \<Longrightarrow>
     cm_step fetcher (CmFetch u, st) (CmLoop urls [], call_Fetch u st)"
| cm_spawn: "cm_step fetcher (CmLoop (u # us) ts, st) (CmLoop us (ts @ [CmTest u]), st)"
| cm_child: "cm_step fetcher (t, st) (t', st') \<Longrightarrow>
     cm_step fetcher (CmLoop us (ts @ t # ts'), st) (CmLoop us (ts @ t' # ts'), st')"
| cm_wait: "set ts \<subseteq> {CmDone} \<Longrightarrow> cm_step fetcher (CmLoop [] ts, st) (CmDone, st)"

section \<open>The concurrent crawler with a channel\<close>

text \<open>
  The coordinator's state and the goroutines: workers that are fetching, and senders blocked on
  the unbuffered channel with the URLs they send.
\<close>

record chan_crawl =
  cc_n :: int
  cc_fetched :: "string \<Rightarrow> bool"
  cc_calls :: "string list"
  cc_workers :: "string multiset"
  cc_senders :: "string list multiset"
  cc_over :: bool

text \<open>The inner loop of \<open>coordinator\<close>.\<close>

primrec coordinator_for :: "string list \<Rightarrow> chan_crawl \<Rightarrow> chan_crawl" where
  "coordinator_for [] c = c"
| "coordinator_for (u # us) c =
     coordinator_for us
       (if \<not> cc_fetched c u
        then c\<lparr>cc_fetched := (cc_fetched c)(u := True), cc_n := cc_n c + 1,
               cc_workers := add_mset u (cc_workers c)\<rparr>
        else c)"

text \<open>One round of \<open>coordinator\<close> with a message it received.\<close>

definition coordinator_round :: "string list \<Rightarrow> chan_crawl \<Rightarrow> chan_crawl" where
  "coordinator_round urls c =
     (let c1 = coordinator_for urls c;
          c2 = c1\<lparr>cc_n := cc_n c1 - 1\<rparr>
      in if cc_n c2 = 0 then c2\<lparr>cc_over := True\<rparr> else c2)"

text \<open>\<open>worker\<close>: the page, or no URLs on an error, is sent.\<close>

definition worker_urls :: "fetcher \<Rightarrow> string \<Rightarrow> string list" where
  "worker_urls fetcher u = (case fetcher u of None \<Rightarrow> [] | Some urls \<Rightarrow> urls)"

definition ConcurrentChannel :: "string \<Rightarrow> chan_crawl" where
  "ConcurrentChannel url = \<lparr>cc_n = 1, cc_fetched = (\<lambda>_. False), cc_calls = [],
     cc_workers = {#}, cc_senders = {#[url]#}, cc_over = False\<rparr>"

inductive chan_step :: "fetcher \<Rightarrow> chan_crawl \<Rightarrow> chan_crawl \<Rightarrow> bool" for fetcher :: fetcher where
  chan_work: "u \<in># cc_workers c \<Longrightarrow>
     chan_step fetcher c (c\<lparr>cc_workers := cc_workers c - {#u#}, cc_calls := cc_calls c @ [u],
       cc_senders := add_mset (worker_urls fetcher u) (cc_senders c)\<rparr>)"
| chan_receive: "urls \<in># cc_senders c \<Longrightarrow> \<not> cc_over c \<Longrightarrow>
     chan_step fetcher c (coordinator_round urls (c\<lparr>cc_senders := cc_senders c - {#urls#}\<rparr>))"

section \<open>The pages of a web\<close>

text \<open>\<open>pages f url\<close> is what can be reached from \<open>url\<close>.\<close>

definition links :: "fetcher \<Rightarrow> string \<Rightarrow> string list" where
  "links fetcher u = (case fetcher u of None \<Rightarrow> [] | Some urls \<Rightarrow> urls)"

definition pages :: "fetcher \<Rightarrow> string \<Rightarrow> string set" where
  "pages fetcher url = reach (links fetcher) (\<lambda>u. u) {url}"

lemma pages_self: "url \<in> pages f url"
  by (simp add: pages_def reach_self)

lemma pages_step: "u \<in> pages f url \<Longrightarrow> v \<in> set (links f u) \<Longrightarrow> v \<in> pages f url"
  unfolding pages_def by (rule reach_step [where node = "\<lambda>u. u"])

lemma pages_least: "url \<in> V \<Longrightarrow> (\<And>u v. u \<in> V \<Longrightarrow> v \<in> set (links f u) \<Longrightarrow> v \<in> V) \<Longrightarrow> pages f url \<subseteq> V"
  unfolding pages_def by (rule reach_least) auto

lemma crawl_simps [simp]:
  "fetched (set_fetched u st) = (fetched st)(u := True)" "calls (set_fetched u st) = calls st"
  "fetched (call_Fetch u st) = fetched st" "calls (call_Fetch u st) = calls st @ [u]"
  "fetched makeState = (\<lambda>_. False)" "calls makeState = []"
  by (simp_all add: set_fetched_def call_Fetch_def makeState_def)

interpretation crawl: graph_search "links f" "\<lambda>u. u" "\<lambda>st. {u. fetched st u}" "\<lambda>u st. st"
  "\<lambda>u st. call_Fetch u (set_fetched u st)" "Serial_for f" "\<lambda>st. 0" "\<lambda>u. 0" for f
proof
  show "Serial_for f (u # us) st =
      (if u \<in> {u. fetched st u} then Serial_for f us st
       else Option.bind (Serial_for f (links f u) (call_Fetch u (set_fetched u st))) (Serial_for f us))"
    for u us st
    by (subst Serial_for.simps)
      (simp add: links_def Serial_for.simps [of f "[]"] split: option.split)
qed (auto simp: Serial_for.simps [of _ "[]"])

lemma Serial_pages:
  assumes "finite (pages f url)"
  obtains st where "Serial url f makeState = Some st" "mset (calls st) = mset_set (pages f url)"
proof -
  let ?P = "\<lambda>st. distinct (calls st) \<and> set (calls st) = {u. fetched st u}"
  obtain st where "Serial_for f [url] makeState = Some st" "{u. fetched st u} = pages f url" "?P st"
    by (rule crawl.search_reaches [where P = ?P and items = "[url]" and st = makeState and f = f])
      (use assms in \<open>auto simp: pages_def\<close>)
  moreover from this have "mset (calls st) = mset_set (pages f url)"
    by (metis mset_set_set)
  ultimately show thesis using that by (simp add: Serial_def)
qed

section \<open>The goroutines of the mutex crawler\<close>

text \<open>What the goroutines of a tree have marked but not fetched, what they will test, their work.\<close>

primrec fetching :: "cm_thread \<Rightarrow> string multiset" where
  "fetching (CmTest u) = {#}"
| "fetching (CmFetch u) = {#u#}"
| "fetching (CmLoop us ts) = sum_list (map fetching ts)"
| "fetching CmDone = {#}"

primrec todo :: "cm_thread \<Rightarrow> string set" where
  "todo (CmTest u) = {u}"
| "todo (CmFetch u) = {}"
| "todo (CmLoop us ts) = set us \<union> \<Union> (set (map todo ts))"
| "todo CmDone = {}"

primrec work :: "fetcher \<Rightarrow> cm_thread \<Rightarrow> nat" where
  "work f (CmTest u) = 2"
| "work f (CmFetch u) = 3 * length (links f u) + 2"
| "work f (CmLoop us ts) = 3 * length us + sum_list (map (work f) ts) + 1"
| "work f CmDone = 0"

text \<open>What a step does, \<open>N\<close> being the URLs it marks.\<close>

definition cm_effect :: "fetcher \<Rightarrow> cm_thread \<times> crawl \<Rightarrow> cm_thread \<times> crawl \<Rightarrow> string set \<Rightarrow> bool" where
  "cm_effect f x y N \<longleftrightarrow> (case (x, y) of ((t, st), (t', st')) \<Rightarrow>
     finite N \<and> N \<subseteq> todo t \<and> N \<subseteq> set_mset (fetching t') \<and> N \<inter> {u. fetched st u} = {} \<and>
     {u. fetched st' u} = {u. fetched st u} \<union> N \<and>
     mset (calls st') + fetching t' = mset (calls st) + fetching t + mset_set N \<and>
     todo t \<subseteq> todo t' \<union> {u. fetched st' u} \<and>
     todo t' \<subseteq> todo t \<union> (\<Union>u\<in>set_mset (fetching t). set (links f u)) \<and>
     (\<forall>u. u \<in># fetching t \<longrightarrow> u \<in># fetching t' \<or> set (links f u) \<subseteq> todo t') \<and>
     (N = {} \<longrightarrow> work f t' < work f t))"

lemma in_sum_list: "x \<in># sum_list (map g ts) \<longleftrightarrow> (\<exists>t\<in>set ts. x \<in># g t)"
  by (induction ts) auto

lemma cm_step_effect: "cm_step f x y \<Longrightarrow> \<exists>N. cm_effect f x y N"
proof (induction rule: cm_step.induct)
  case (cm_seen u st st')
  then have "fetched st u" "st' = set_fetched u st" by (auto simp: testAndSet_def)
  then show ?case by (intro exI [of _ "{}"]) (simp add: cm_effect_def insert_absorb fun_upd_idem)
next
  case (cm_new u st st')
  then show ?case by (intro exI [of _ "{u}"]) (auto simp: cm_effect_def testAndSet_def)
next
  case (cm_child t st t' st' us ts ts')
  then obtain N where "cm_effect f (t, st) (t', st') N" by blast
  then show ?case
    by (intro exI [of _ N]) (auto simp: cm_effect_def in_sum_list)
next
  case (cm_wait ts st)
  then have "sum_list (map fetching ts) = {#}" by (induction ts) auto
  then show ?case using cm_wait by (intro exI [of _ "{}"]) (auto simp: cm_effect_def)
qed (auto intro!: exI [of _ "{}"] simp: cm_effect_def links_def)

lemma cm_progress: "t \<noteq> CmDone \<Longrightarrow> \<exists>y. cm_step f (t, st) y"
proof (induction t)
  case (CmTest u)
  then show ?case 
    by (cases "testAndSet u st"; cases "fst (testAndSet u st)") (auto intro: cm_seen cm_new)
next
  case (CmFetch u)
  then show ?case by (cases "f u") (auto intro: cm_err cm_urls)
next
  case (CmLoop us ts)
  show ?case
  proof (cases "set ts \<subseteq> {CmDone}")
    case True
    then show ?thesis by (cases us) (auto intro: cm_wait cm_spawn)
  next
    case False
    then obtain t where t: "t \<in> set ts" "t \<noteq> CmDone" by blast
    obtain t' st' where "cm_step f (t, st) (t', st')" using CmLoop.IH [OF t] by auto
    then show ?thesis using split_list [OF t(1)] by (auto intro: cm_child)
  qed
qed simp

definition cm_inv :: "fetcher \<Rightarrow> string \<Rightarrow> cm_thread \<times> crawl \<Rightarrow> bool" where
  "cm_inv f url x \<longleftrightarrow> (case x of (t, st) \<Rightarrow>
     {u. fetched st u} \<subseteq> pages f url \<and> todo t \<subseteq> pages f url \<and>
     mset (calls st) + fetching t = mset_set {u. fetched st u} \<and>
     url \<in> {u. fetched st u} \<union> todo t \<and>
     (\<forall>u. fetched st u \<and> u \<notin># fetching t \<longrightarrow> set (links f u) \<subseteq> {u. fetched st u} \<union> todo t))"

lemma cm_inv_step:
  assumes fin: "finite (pages f url)" and inv: "cm_inv f url x" and step: "cm_step f x y"
  shows "cm_inv f url y"
proof -
  obtain t st t' st' where xy: "x = (t, st)" "y = (t', st')" by fastforce
  obtain N where "cm_effect f x y N" using cm_step_effect [OF step] by blast
  then have N: "finite N" "N \<subseteq> todo t" "N \<inter> {u. fetched st u} = {}"
    "{u. fetched st' u} = {u. fetched st u} \<union> N"
    "mset (calls st') + fetching t' = mset (calls st) + fetching t + mset_set N"
    "todo t \<subseteq> todo t' \<union> {u. fetched st' u}"
    "todo t' \<subseteq> todo t \<union> (\<Union>u\<in>set_mset (fetching t). set (links f u))"
    "\<And>u. u \<in># fetching t \<Longrightarrow> u \<in># fetching t' \<or> set (links f u) \<subseteq> todo t'"
    "N \<subseteq> set_mset (fetching t')"
    unfolding cm_effect_def xy prod.case by blast+
  have I: "{u. fetched st u} \<subseteq> pages f url" "todo t \<subseteq> pages f url"
    "mset (calls st) + fetching t = mset_set {u. fetched st u}" "url \<in> {u. fetched st u} \<union> todo t"
    "\<And>u. fetched st u \<Longrightarrow> u \<notin># fetching t \<Longrightarrow> set (links f u) \<subseteq> {u. fetched st u} \<union> todo t"
    using inv by (auto simp: cm_inv_def xy)
  have finF: "finite {u. fetched st u}" using finite_subset [OF I(1) fin] .
  have "set_mset (fetching t) \<subseteq> {u. fetched st u}"
    using arg_cong [OF I(3), of set_mset] finF by auto
  then have "(\<Union>u\<in>set_mset (fetching t). set (links f u)) \<subseteq> pages f url"
    using I(1) pages_step [of _ f url] by blast
  then have "todo t' \<subseteq> pages f url" using N(7) I(2) by blast
  moreover have "mset (calls st') + fetching t' = mset_set {u. fetched st' u}"
    using N(1,3) finF by (simp add: N(4,5) I(3) mset_set_Union Int_commute)
  moreover have "set (links f u) \<subseteq> {u. fetched st' u} \<union> todo t'"
    if u: "fetched st' u" "u \<notin># fetching t'" for u
  proof (cases "u \<in># fetching t")
    case True
    then show ?thesis using N(8) u(2) by blast
  next
    case False
    have "u \<notin> N" using N(9) u(2) by blast
    then have "fetched st u" using u(1) N(4) by blast
    from I(5) [OF this False] show ?thesis using N(4,6) by blast
  qed
  ultimately show ?thesis using I(1,2,4) N(2,4,6) by (auto simp: cm_inv_def xy)
qed

lemma cm_inv_start: "cm_inv f url (CmTest url, makeState)"
  by (simp add: cm_inv_def pages_self)

lemma cm_inv_reach:
  assumes "finite (pages f url)" "(cm_step f)\<^sup>*\<^sup>* (CmTest url, makeState) x"
  shows "cm_inv f url x"
  using assms(2) by induction (auto intro: cm_inv_start cm_inv_step [OF assms(1)])

lemma cm_done_pages:
  assumes "finite (pages f url)" "cm_inv f url (CmDone, st)"
  shows "mset (calls st) = mset_set (pages f url)"
proof -
  have "pages f url \<subseteq> {u. fetched st u}"
    by (rule pages_least) (use assms(2) in \<open>auto simp: cm_inv_def\<close>)
  then have "{u. fetched st u} = pages f url" using assms(2) by (auto simp: cm_inv_def)
  then show ?thesis using assms(2) by (simp add: cm_inv_def)
qed

text \<open>Every step marks a page or makes the goroutines' remaining work smaller.\<close>

definition cm_measure :: "fetcher \<Rightarrow> string \<Rightarrow> ((cm_thread \<times> crawl) \<times> (cm_thread \<times> crawl)) set" where
  "cm_measure f url = measures [\<lambda>x. card (pages f url - {u. fetched (snd x) u}), \<lambda>x. work f (fst x)]"

lemma cm_step_decreases:
  assumes fin: "finite (pages f url)" and inv: "cm_inv f url x" and step: "cm_step f x y"
  shows "(y, x) \<in> cm_measure f url"
proof -
  obtain t st t' st' where xy: "x = (t, st)" "y = (t', st')" by fastforce
  obtain N where N: "N \<subseteq> todo t" "N \<inter> {u. fetched st u} = {}"
    "{u. fetched st' u} = {u. fetched st u} \<union> N" "N = {} \<longrightarrow> work f t' < work f t"
    using cm_step_effect [OF step] by (auto simp: cm_effect_def xy)
  have "N \<subseteq> pages f url" using N(1) inv by (auto simp: cm_inv_def xy)
  then have "N \<noteq> {} \<Longrightarrow> pages f url - {u. fetched st' u} \<subset> pages f url - {u. fetched st u}"
    using N(2,3) by blast
  then show ?thesis using N(3,4) fin
    by (cases "N = {}") (auto simp: cm_measure_def xy psubset_card_mono)
qed

section \<open>The coordinator\<close>

definition pending_urls :: "chan_crawl \<Rightarrow> string set" where
  "pending_urls c = (\<Union>urls\<in>set_mset (cc_senders c). set urls)"

definition chan_inv :: "fetcher \<Rightarrow> string \<Rightarrow> chan_crawl \<Rightarrow> bool" where
  "chan_inv f url c \<longleftrightarrow>
     cc_n c = int (size (cc_workers c) + size (cc_senders c)) \<and> (cc_over c \<longleftrightarrow> cc_n c = 0) \<and>
     {u. cc_fetched c u} \<subseteq> pages f url \<and> pending_urls c \<subseteq> pages f url \<and>
     mset (cc_calls c) + cc_workers c = mset_set {u. cc_fetched c u} \<and>
     url \<in> {u. cc_fetched c u} \<union> pending_urls c \<and>
     (\<forall>u\<in>set (cc_calls c). set (links f u) \<subseteq> {u. cc_fetched c u} \<union> pending_urls c)"

lemma worker_urls_links: "worker_urls f u = links f u"
  by (simp add: worker_urls_def links_def)

text \<open>The inner loop marks the URLs that are new and starts a worker for each.\<close>

lemma coordinator_for_effect:
  "finite {u. cc_fetched c u} \<Longrightarrow>
     (\<exists>N. finite N \<and> N \<inter> {u. cc_fetched c u} = {} \<and> set us \<subseteq> {u. cc_fetched c u} \<union> N \<and> N \<subseteq> set us \<and>
       {u. cc_fetched (coordinator_for us c) u} = {u. cc_fetched c u} \<union> N \<and>
       cc_workers (coordinator_for us c) = cc_workers c + mset_set N \<and>
       cc_n (coordinator_for us c) = cc_n c + int (card N)) \<and>
     cc_senders (coordinator_for us c) = cc_senders c \<and> cc_calls (coordinator_for us c) = cc_calls c \<and>
     cc_over (coordinator_for us c) = cc_over c"
proof (induction us arbitrary: c)
  case (Cons u us)
  show ?case
  proof (cases "cc_fetched c u")
    case True
    then show ?thesis using Cons.IH [OF Cons.prems] by (auto 0 4)
  next
    case False
    let ?c = "c\<lparr>cc_fetched := (cc_fetched c)(u := True), cc_n := cc_n c + 1,
               cc_workers := add_mset u (cc_workers c)\<rparr>"
    have eq: "{v. cc_fetched ?c v} = insert u {v. cc_fetched c v}" by auto
    have "finite {v. cc_fetched ?c v}" using Cons.prems by (simp only: eq finite_insert)
    from Cons.IH [OF this] obtain N where N: "finite N" "N \<inter> {v. cc_fetched ?c v} = {}"
      "set us \<subseteq> {v. cc_fetched ?c v} \<union> N" "N \<subseteq> set us"
      "{v. cc_fetched (coordinator_for us ?c) v} = {v. cc_fetched ?c v} \<union> N"
      "cc_workers (coordinator_for us ?c) = cc_workers ?c + mset_set N"
      "cc_n (coordinator_for us ?c) = cc_n ?c + int (card N)" and
      rest: "cc_senders (coordinator_for us ?c) = cc_senders ?c" "cc_calls (coordinator_for us ?c) = cc_calls ?c"
        "cc_over (coordinator_for us ?c) = cc_over ?c"
      by blast
    have u: "u \<notin> N" using N(2) by auto
    show ?thesis
    proof (intro conjI exI [of _ "insert u N"])
      show "insert u N \<inter> {v. cc_fetched c v} = {}" using N(2) False by auto
      show "set (u # us) \<subseteq> {v. cc_fetched c v} \<union> insert u N" using N(3) by auto
      show "{v. cc_fetched (coordinator_for (u # us) c) v} = {v. cc_fetched c v} \<union> insert u N"
        using N(5) False by auto
    qed (use N u rest False in auto)
  qed
qed (auto intro: exI [of _ "{}"])

lemma chan_inv_start: "chan_inv f url (ConcurrentChannel url)"
  by (simp add: chan_inv_def ConcurrentChannel_def pending_urls_def pages_self)

lemma size_minus1: "x \<in># M \<Longrightarrow> size M = Suc (size (M - {#x#}))"
  by (metis insert_DiffM size_add_mset)

lemma chan_inv_work:
  assumes "chan_inv f url c" "u \<in># cc_workers c"
  shows "chan_inv f url (c\<lparr>cc_workers := cc_workers c - {#u#}, cc_calls := cc_calls c @ [u],
    cc_senders := add_mset (worker_urls f u) (cc_senders c)\<rparr>)"
proof -
  have "u \<in># mset (cc_calls c) + cc_workers c" using assms(2) by simp
  then have "cc_fetched c u"
    using assms(1) by (metis chan_inv_def count_mset_set(2,3) mem_Collect_eq not_in_iff)
  then have "set (links f u) \<subseteq> pages f url"
    using assms(1) pages_step [of u f url] by (auto simp: chan_inv_def)
  moreover have "mset (cc_calls c @ [u]) + (cc_workers c - {#u#}) = mset (cc_calls c) + cc_workers c"
    using assms(2) by simp
  moreover note size_minus1 [OF assms(2)]
  moreover have "pending_urls (c\<lparr>cc_workers := cc_workers c - {#u#}, cc_calls := cc_calls c @ [u],
      cc_senders := add_mset (worker_urls f u) (cc_senders c)\<rparr>) = set (links f u) \<union> pending_urls c"
    by (simp add: pending_urls_def worker_urls_links)
  ultimately show ?thesis using assms(1) unfolding chan_inv_def by auto
qed

text \<open>A round with a message: the URLs \<open>N\<close> it marks, and what is pending afterwards.\<close>

lemma coordinator_round_effect:
  assumes fin: "finite (pages f url)" and inv: "chan_inv f url c" and m: "urls \<in># cc_senders c"
  defines "c' \<equiv> coordinator_round urls (c\<lparr>cc_senders := cc_senders c - {#urls#}\<rparr>)"
  shows "\<exists>N. N \<subseteq> set urls \<and> N \<inter> {u. cc_fetched c u} = {} \<and> finite N \<and>
      set urls \<subseteq> {u. cc_fetched c' u} \<and> {u. cc_fetched c' u} = {u. cc_fetched c u} \<union> N \<and>
      cc_workers c' = cc_workers c + mset_set N \<and> cc_n c' = cc_n c + int (card N) - 1 \<and>
      cc_senders c' = cc_senders c - {#urls#} \<and> cc_calls c' = cc_calls c \<and>
      (\<not> cc_over c \<longrightarrow> cc_over c' = (cc_n c' = 0))"
proof -
  let ?c = "c\<lparr>cc_senders := cc_senders c - {#urls#}\<rparr>"
  have "finite {u. cc_fetched ?c u}"
    using inv fin by (auto simp: chan_inv_def intro: finite_subset)
  from coordinator_for_effect [OF this, of urls] obtain N where
    N: "finite N" "N \<inter> {u. cc_fetched c u} = {}" "set urls \<subseteq> {u. cc_fetched c u} \<union> N" "N \<subseteq> set urls"
    "{u. cc_fetched (coordinator_for urls ?c) u} = {u. cc_fetched c u} \<union> N"
    "cc_workers (coordinator_for urls ?c) = cc_workers c + mset_set N"
    "cc_n (coordinator_for urls ?c) = cc_n c + int (card N)" and
    rest: "cc_senders (coordinator_for urls ?c) = cc_senders ?c" "cc_calls (coordinator_for urls ?c) = cc_calls c"
      "cc_over (coordinator_for urls ?c) = cc_over c"
    by auto
  have c': "cc_fetched c' = cc_fetched (coordinator_for urls ?c)"
    "cc_workers c' = cc_workers (coordinator_for urls ?c)" "cc_n c' = cc_n (coordinator_for urls ?c) - 1"
    "cc_senders c' = cc_senders (coordinator_for urls ?c)" "cc_calls c' = cc_calls (coordinator_for urls ?c)"
    "cc_over c' = (cc_n c' = 0 \<or> cc_over (coordinator_for urls ?c))"
    by (simp_all add: c'_def coordinator_round_def Let_def)
  show ?thesis unfolding c' by (rule exI [of _ N]) (simp add: N rest)
qed

lemma chan_inv_receive:
  assumes fin: "finite (pages f url)" and inv: "chan_inv f url c"
    and m: "urls \<in># cc_senders c" "\<not> cc_over c"
  shows "chan_inv f url (coordinator_round urls (c\<lparr>cc_senders := cc_senders c - {#urls#}\<rparr>))"
proof -
  let ?c = "coordinator_round urls (c\<lparr>cc_senders := cc_senders c - {#urls#}\<rparr>)"
  obtain N where N: "N \<subseteq> set urls" "N \<inter> {u. cc_fetched c u} = {}" "finite N"
    "set urls \<subseteq> {u. cc_fetched ?c u}" "{u. cc_fetched ?c u} = {u. cc_fetched c u} \<union> N"
    "cc_workers ?c = cc_workers c + mset_set N" "cc_n ?c = cc_n c + int (card N) - 1"
    "cc_senders ?c = cc_senders c - {#urls#}" "cc_calls ?c = cc_calls c" "cc_over ?c = (cc_n ?c = 0)"
    using coordinator_round_effect [OF fin inv m(1)] m(2) by blast
  have I: "cc_n c = int (size (cc_workers c) + size (cc_senders c))" "{u. cc_fetched c u} \<subseteq> pages f url"
    "pending_urls c \<subseteq> pages f url" "mset (cc_calls c) + cc_workers c = mset_set {u. cc_fetched c u}"
    "url \<in> {u. cc_fetched c u} \<union> pending_urls c"
    "\<forall>u\<in>set (cc_calls c). set (links f u) \<subseteq> {u. cc_fetched c u} \<union> pending_urls c"
    using inv by (auto simp: chan_inv_def)
  have finF: "finite {u. cc_fetched c u}" using finite_subset [OF I(2) fin] .
  have sub: "pending_urls ?c \<subseteq> pending_urls c"
    by (auto simp: pending_urls_def N(8) dest: in_diffD)
  have sub': "pending_urls c \<subseteq> pending_urls ?c \<union> {u. cc_fetched ?c u}"
  proof
    fix x
    assume "x \<in> pending_urls c"
    then obtain us where us: "us \<in># cc_senders c" "x \<in> set us" by (auto simp: pending_urls_def)
    show "x \<in> pending_urls ?c \<union> {u. cc_fetched ?c u}"
    proof (cases "us = urls")
      case True
      then show ?thesis using us(2) N(4) by blast
    next
      case False
      have "us \<in># add_mset urls (cc_senders c - {#urls#})" using us(1) m(1) by simp
      then have "us \<in># cc_senders ?c" using False by (simp add: N(8))
      then show ?thesis using us(2) by (auto simp: pending_urls_def)
    qed
  qed
  have "set urls \<subseteq> pages f url" using I(3) m(1) by (auto simp: pending_urls_def)
  moreover have "cc_n ?c = int (size (cc_workers ?c) + size (cc_senders ?c))"
    using size_minus1 [OF m(1)] by (simp add: I(1) N(6,7,8))
  moreover have "mset (cc_calls ?c) + cc_workers ?c = mset_set {u. cc_fetched ?c u}"
    unfolding N(5,6,9) using I(4) N(2,3) finF
    by (simp add: mset_set_Union Int_commute flip: add.assoc)
  ultimately show ?thesis
    unfolding chan_inv_def N(9) using I(2,3,5,6) N(1,5,10) sub sub' by blast
qed

lemma chan_inv_step:
  assumes "finite (pages f url)" "chan_inv f url c" "chan_step f c c'"
  shows "chan_inv f url c'"
  using assms(3) by cases (use assms(2) chan_inv_work chan_inv_receive [OF assms(1)] in auto)

lemma chan_inv_reach:
  assumes "finite (pages f url)" "(chan_step f)\<^sup>*\<^sup>* (ConcurrentChannel url) c"
  shows "chan_inv f url c"
  using assms(2) by induction (auto intro: chan_inv_start chan_inv_step [OF assms(1)])

lemma chan_over_pages:
  assumes "finite (pages f url)" "chan_inv f url c" "cc_over c"
  shows "mset (cc_calls c) = mset_set (pages f url)"
proof -
  have "int (size (cc_workers c) + size (cc_senders c)) = 0" using assms(2,3) unfolding chan_inv_def by metis
  then have "size (cc_workers c) = 0" "size (cc_senders c) = 0" by linarith+
  then have e: "cc_workers c = {#}" "cc_senders c = {#}" by simp_all
  then have calls: "mset (cc_calls c) = mset_set {u. cc_fetched c u}" "pending_urls c = {}"
    using assms(2) by (auto simp: chan_inv_def pending_urls_def)
  have sub: "{u. cc_fetched c u} \<subseteq> pages f url" using assms(2) by (auto simp: chan_inv_def)
  have "set (cc_calls c) = {u. cc_fetched c u}"
    using calls(1) finite_subset [OF sub assms(1)] by (metis finite_set_mset_mset_set set_mset_mset)
  then have "pages f url \<subseteq> {u. cc_fetched c u}"
    by (intro pages_least) (use assms(2) calls(2) in \<open>auto simp: chan_inv_def\<close>)
  then have "{u. cc_fetched c u} = pages f url" using sub by blast
  then show ?thesis using calls(1) by simp
qed

lemma chan_progress:
  assumes "chan_inv f url c" "\<not> cc_over c"
  shows "\<exists>c'. chan_step f c c'"
proof -
  have "cc_workers c \<noteq> {#} \<or> cc_senders c \<noteq> {#}" using assms by (auto simp: chan_inv_def)
  then show ?thesis using chan_work [of _ c f] chan_receive [of _ c f] assms(2) by blast
qed

definition chan_measure :: "fetcher \<Rightarrow> string \<Rightarrow> (chan_crawl \<times> chan_crawl) set" where
  "chan_measure f url = measures [\<lambda>c. card (pages f url - {u. cc_fetched c u}),
     \<lambda>c. 2 * size (cc_workers c) + size (cc_senders c)]"

lemma chan_step_decreases:
  assumes fin: "finite (pages f url)" and inv: "chan_inv f url c" and step: "chan_step f c c'"
  shows "(c', c) \<in> chan_measure f url"
  using step
proof cases
  case (chan_work u)
  then show ?thesis using size_minus1 [of u "cc_workers c"] by (simp add: chan_measure_def)
next
  case (chan_receive urls)
  then obtain N where N: "N \<subseteq> set urls" "N \<inter> {u. cc_fetched c u} = {}"
    "{u. cc_fetched c' u} = {u. cc_fetched c u} \<union> N" "cc_workers c' = cc_workers c + mset_set N"
    "cc_senders c' = cc_senders c - {#urls#}"
    using coordinator_round_effect [OF fin inv chan_receive(2)] by blast
  have "set urls \<subseteq> pages f url" using inv chan_receive(2) by (auto simp: chan_inv_def pending_urls_def)
  then have "N \<noteq> {} \<Longrightarrow> pages f url - {u. cc_fetched c' u} \<subset> pages f url - {u. cc_fetched c u}"
    using N(1,2,3) by blast
  moreover have "size (cc_senders c) = Suc (size (cc_senders c'))"
    using size_minus1 [OF chan_receive(2)] by (simp add: N(5))
  ultimately show ?thesis using N(3,4) fin
    by (cases "N = {}") (auto simp: chan_measure_def psubset_card_mono)
qed

lemma no_infinite_run:
  assumes "wf R" "I (run 0)" "\<And>x y. I x \<Longrightarrow> step x y \<Longrightarrow> I y \<and> (y, x) \<in> R"
  shows "\<exists>i. \<not> step (run i) (run (Suc i))"
proof (rule ccontr)
  assume no: "\<not> ?thesis"
  then have "I (run i)" for i by (induction i) (use assms in auto)
  then have "(run (Suc i), run i) \<in> R" for i using no assms(3) by blast
  then show False using assms(1) by (auto simp: wf_iff_no_infinite_down_chain)
qed

section \<open>The web of the source\<close>

definition golang :: string where "golang = ''http://golang.org/''"

text \<open>The variable \<open>fetcher\<close>.\<close>

definition golang_web :: "string \<Rightarrow> fakeResult option" where
  "golang_web =
     [golang \<mapsto> \<lparr>fr_body = ''The Go Programming Language'',
        fr_urls = [''http://golang.org/pkg/'', ''http://golang.org/cmd/'']\<rparr>,
      ''http://golang.org/pkg/'' \<mapsto> \<lparr>fr_body = ''Packages'',
        fr_urls = [golang, ''http://golang.org/cmd/'', ''http://golang.org/pkg/fmt/'', ''http://golang.org/pkg/os/'']\<rparr>,
      ''http://golang.org/pkg/fmt/'' \<mapsto> \<lparr>fr_body = ''Package fmt'', fr_urls = [golang, ''http://golang.org/pkg/'']\<rparr>,
      ''http://golang.org/pkg/os/'' \<mapsto> \<lparr>fr_body = ''Package os'', fr_urls = [golang, ''http://golang.org/pkg/'']\<rparr>]"

lemma golang_finite: "finite (pages (fake_Fetch golang_web) golang)"
proof (rule finite_subset)
  show "pages (fake_Fetch golang_web) golang \<subseteq> {golang, ''http://golang.org/pkg/'', ''http://golang.org/cmd/'',
      ''http://golang.org/pkg/fmt/'', ''http://golang.org/pkg/os/''}"
    by (rule pages_least)
      (auto simp: links_def fake_Fetch_def golang_web_def golang_def split: if_splits)
qed simp

section \<open>The three crawlers\<close>

text \<open>
  C39 (the crawlers do the same).  On a web with finitely many pages \<open>Serial\<close> returns and fetches
  every page that can be reached exactly once; and however the goroutines of \<open>ConcurrentMutex\<close> or
  the workers of \<open>ConcurrentChannel\<close> interleave, when they return they have made the same calls of
  \<open>Fetch\<close>, in some order.
\<close>

theorem crawlers_fetch_the_same:
  assumes "finite (pages f url)"
  shows "\<exists>st. Serial url f makeState = Some st \<and> mset (calls st) = mset_set (pages f url) \<and>
    (\<forall>st'. (cm_step f)\<^sup>*\<^sup>* (CmTest url, makeState) (CmDone, st') \<longrightarrow> mset (calls st') = mset (calls st)) \<and>
    (\<forall>c. (chan_step f)\<^sup>*\<^sup>* (ConcurrentChannel url) c \<and> cc_over c \<longrightarrow> mset (cc_calls c) = mset (calls st))"
proof -
  obtain st where st: "Serial url f makeState = Some st" "mset (calls st) = mset_set (pages f url)"
    by (rule Serial_pages [OF assms])
  moreover have "mset (calls st') = mset_set (pages f url)"
    if "(cm_step f)\<^sup>*\<^sup>* (CmTest url, makeState) (CmDone, st')" for st'
    using cm_done_pages [OF assms] cm_inv_reach [OF assms that] by blast
  moreover have "mset (cc_calls c) = mset_set (pages f url)"
    if "(chan_step f)\<^sup>*\<^sup>* (ConcurrentChannel url) c" "cc_over c" for c
    using chan_over_pages [OF assms _ that(2)] chan_inv_reach [OF assms that(1)] by blast
  ultimately show ?thesis by auto
qed

theorem crawlers_fetch_the_same_witness:
  "\<exists>st. Serial golang (fake_Fetch golang_web) makeState = Some st \<and>
     mset (calls st) = mset_set (pages (fake_Fetch golang_web) golang)"
  using crawlers_fetch_the_same [OF golang_finite] by blast

text \<open>
  The concurrent crawlers return.  On a web with finitely many pages neither concurrent
  crawler runs for ever, and neither can be stuck: as long as it has not returned, some goroutine
  can take a step.
\<close>

theorem crawlers_terminate:
  assumes "finite (pages f url)"
  shows "(\<nexists>run. run 0 = (CmTest url, makeState) \<and> (\<forall>i. cm_step f (run i) (run (Suc i)))) \<and>
    (\<nexists>run. run 0 = ConcurrentChannel url \<and> (\<forall>i. chan_step f (run i) (run (Suc i)))) \<and>
    (\<forall>t st. (cm_step f)\<^sup>*\<^sup>* (CmTest url, makeState) (t, st) \<longrightarrow> t = CmDone \<or> (\<exists>x. cm_step f (t, st) x)) \<and>
    (\<forall>c. (chan_step f)\<^sup>*\<^sup>* (ConcurrentChannel url) c \<longrightarrow> cc_over c \<or> (\<exists>c'. chan_step f c c'))"
proof (intro conjI allI impI notI; (elim exE conjE)?)
  fix run
  assume run: "run 0 = (CmTest url, makeState)" "\<forall>i. cm_step f (run i) (run (Suc i))"
  have "\<exists>i. \<not> cm_step f (run i) (run (Suc i))"
  proof (rule no_infinite_run [where I = "cm_inv f url" and R = "cm_measure f url"])
    fix x y
    assume "cm_inv f url x" "cm_step f x y"
    then show "cm_inv f url y \<and> (y, x) \<in> cm_measure f url"
      using cm_inv_step [OF assms] cm_step_decreases [OF assms] by blast
  qed (simp_all add: run(1) cm_inv_start cm_measure_def)
  then show False using run(2) by blast
next
  fix run
  assume run: "run 0 = ConcurrentChannel url" "\<forall>i. chan_step f (run i) (run (Suc i))"
  have "\<exists>i. \<not> chan_step f (run i) (run (Suc i))"
  proof (rule no_infinite_run [where I = "chan_inv f url" and R = "chan_measure f url"])
    fix c c'
    assume "chan_inv f url c" "chan_step f c c'"
    then show "chan_inv f url c' \<and> (c', c) \<in> chan_measure f url"
      using chan_inv_step [OF assms] chan_step_decreases [OF assms] by blast
  qed (simp_all add: run(1) chan_inv_start chan_measure_def)
  then show False using run(2) by blast
next
  fix t st
  show "t = CmDone \<or> (\<exists>x. cm_step f (t, st) x)" using cm_progress by blast
next
  fix c
  assume "(chan_step f)\<^sup>*\<^sup>* (ConcurrentChannel url) c"
  then show "cc_over c \<or> (\<exists>c'. chan_step f c c')"
    using chan_progress chan_inv_reach [OF assms] by blast
qed

theorem crawlers_terminate_witness:
  "\<nexists>run. run 0 = ConcurrentChannel golang \<and> (\<forall>i. chan_step (fake_Fetch golang_web) (run i) (run (Suc i)))"
  using crawlers_terminate [OF golang_finite] by blast

end
