(* ===== verification/Annot.thy ===== *)
theory Annot
  imports GoPrelude
begin

text \<open>
  The annotations of a test's visualization (\<open>src/tester1/annotation.go\<close>): points, intervals and
  continuous annotations, of which each tag has at most one going on; and the record of which servers
  are connected and which have crashed, from which the annotation of the current fault is made.

  Times are arguments: \<open>t\<close> is what \<open>timestamp()\<close> returns.  Where the source ranges over the map of
  continuous annotations, the order of the tags is an argument.  The package variables \<open>annotation\<close>
  and \<open>finfo\<close> (\<open>nil\<close> is \<open>None\<close>) are the state; a nil dereference or an index out of range is \<open>None\<close>.
\<close>

record Annotation =
  a_Tag :: string
  a_Start :: int
  a_End :: int
  a_Description :: string
  a_Details :: string
  a_Color :: string

record Continuous =
  c_start :: int
  c_desp :: string
  c_details :: string
  c_bgcolor :: string

record annotator =
  an_annotations :: "Annotation list"
  an_continuous :: "string \<Rightarrow> Continuous option"
  an_finalized :: bool

record CheckerBegin =
  ck_ts :: int
  ck_details :: string

record FrameworkInfo =
  fi_nservers :: int
  fi_connected :: "bool list"
  fi_crashed :: "bool list"
  fi_ckbegin :: CheckerBegin

record astate =
  as_an :: annotator
  as_fi :: "FrameworkInfo option"

definition COLOR_INFO :: string where "COLOR_INFO = ''#FAFAFA''"
definition COLOR_NEUTRAL :: string where "COLOR_NEUTRAL = ''#FFECB3''"
definition COLOR_SUCCESS :: string where "COLOR_SUCCESS = ''#C8E6C9''"
definition COLOR_FAILURE :: string where "COLOR_FAILURE = ''#FFCDD2''"
definition COLOR_FAULT :: string where "COLOR_FAULT = ''#B3E5FC''"
definition COLOR_USER :: string where "COLOR_USER = ''#FFF176''"
definition TAG_CHECKER :: string where "TAG_CHECKER = ''$ Checker''"
definition TAG_PARTITION :: string where "TAG_PARTITION = ''$ Failure''"
definition TAG_INFO :: string where "TAG_INFO = ''$ Test Info''"

definition mkAnnotation :: annotator where
  "mkAnnotation = \<lparr>an_annotations = [], an_continuous = Map.empty, an_finalized = False\<rparr>"

definition mkFrameworkInfo :: "int \<Rightarrow> FrameworkInfo" where
  "mkFrameworkInfo nservers =
     \<lparr>fi_nservers = nservers, fi_connected = replicate (nat nservers) True,
      fi_crashed = replicate (nat nservers) False, fi_ckbegin = \<lparr>ck_ts = 0, ck_details = ''''\<rparr>\<rparr>"

definition astate_init :: astate where
  "astate_init = \<lparr>as_an = mkAnnotation, as_fi = None\<rparr>"

section \<open>The annotations\<close>

definition annot_clear :: "annotator \<Rightarrow> annotator" where
  "annot_clear an = an\<lparr>an_annotations := [], an_continuous := Map.empty, an_finalized := False\<rparr>"

definition annotatePointColor :: "int \<Rightarrow> string \<Rightarrow> string \<Rightarrow> string \<Rightarrow> string \<Rightarrow> annotator \<Rightarrow> annotator" where
  "annotatePointColor t tag desp details bgcolor an =
     an\<lparr>an_annotations := an_annotations an @
       [\<lparr>a_Tag = tag, a_Start = t, a_End = 0, a_Description = desp, a_Details = details, a_Color = bgcolor\<rparr>]\<rparr>"

definition annotateIntervalColor ::
    "int \<Rightarrow> string \<Rightarrow> int \<Rightarrow> string \<Rightarrow> string \<Rightarrow> string \<Rightarrow> annotator \<Rightarrow> annotator" where
  "annotateIntervalColor t tag start desp details bgcolor an =
     an\<lparr>an_annotations := an_annotations an @
       [\<lparr>a_Tag = tag, a_Start = start, a_End = t, a_Description = desp, a_Details = details, a_Color = bgcolor\<rparr>]\<rparr>"

definition concretize :: "string \<Rightarrow> Continuous \<Rightarrow> int \<Rightarrow> Annotation" where
  "concretize tag cont t = \<lparr>a_Tag = tag, a_Start = c_start cont, a_End = t,
     a_Description = c_desp cont, a_Details = c_details cont, a_Color = c_bgcolor cont\<rparr>"

definition annotateContinuousColor ::
    "int \<Rightarrow> string \<Rightarrow> string \<Rightarrow> string \<Rightarrow> string \<Rightarrow> annotator \<Rightarrow> annotator" where
  "annotateContinuousColor t tag desp details bgcolor an =
     (let next_cont = \<lparr>c_start = t, c_desp = desp, c_details = details, c_bgcolor = bgcolor\<rparr> in
      case an_continuous an tag of
        None \<Rightarrow> an\<lparr>an_continuous := (an_continuous an)(tag \<mapsto> next_cont)\<rparr>
      | Some cont \<Rightarrow> an\<lparr>an_annotations := an_annotations an @ [concretize tag cont t],
                        an_continuous := (an_continuous an)(tag \<mapsto> next_cont)\<rparr>)"

text \<open>When nothing is going on the zero value of the map is concretized all the same.\<close>

definition zero_Continuous :: Continuous where
  "zero_Continuous = \<lparr>c_start = 0, c_desp = '''', c_details = '''', c_bgcolor = ''''\<rparr>"

definition annotateContinuousEnd :: "int \<Rightarrow> string \<Rightarrow> annotator \<Rightarrow> annotator" where
  "annotateContinuousEnd t tag an =
     (let cont = (case an_continuous an tag of Some cont \<Rightarrow> cont | None \<Rightarrow> zero_Continuous)
      in an\<lparr>an_annotations := an_annotations an @ [concretize tag cont t],
            an_continuous := (an_continuous an)(tag := None)\<rparr>)"

definition annot_finalize :: "int \<Rightarrow> string list \<Rightarrow> annotator \<Rightarrow> annotator \<times> Annotation list" where
  "annot_finalize t tags an =
     (an\<lparr>an_finalized := True\<rparr>,
      an_annotations an @ map (\<lambda>tag. concretize tag (the (an_continuous an tag)) t) tags)"

definition end_annotation :: "int \<Rightarrow> string \<Rightarrow> Annotation" where
  "end_annotation t text' = \<lparr>a_Tag = TAG_INFO, a_Start = t, a_End = 0, a_Description = text',
     a_Details = text', a_Color = COLOR_INFO\<rparr>"

definition FinalizeAnnotations :: "int \<Rightarrow> int \<Rightarrow> string list \<Rightarrow> string \<Rightarrow> annotator \<Rightarrow> annotator \<times> Annotation list" where
  "FinalizeAnnotations t t' tags end' an =
     (let (an1, annotations) = annot_finalize t tags an in (an1, annotations @ [end_annotation t' end']))"

text \<open>\<open>cleanup\<close>: what is written to the visualization file, if anything.\<close>

definition annot_cleanup :: "string \<Rightarrow> int \<Rightarrow> int \<Rightarrow> string list \<Rightarrow> bool \<Rightarrow> string \<Rightarrow> annotator \<Rightarrow>
    annotator \<times> Annotation list option" where
  "annot_cleanup enabled t t' tags failed end' an =
     (if enabled = ''never'' \<or> \<not> failed \<and> enabled \<noteq> ''always'' \<or> an_finalized an
      then (annot_clear an, None)
      else let (an1, annotations) = annot_finalize t tags an
           in if length annotations = 0 then (an1, None)
              else (an1, Some (annotations @ [end_annotation t' end'])))"

section \<open>What the test framework annotates\<close>

definition on_an :: "(annotator \<Rightarrow> annotator) \<Rightarrow> astate \<Rightarrow> astate" where
  "on_an f st = st\<lparr>as_an := f (as_an st)\<rparr>"

definition Annotate :: "int \<Rightarrow> string \<Rightarrow> string \<Rightarrow> string \<Rightarrow> astate \<Rightarrow> astate" where
  "Annotate t tag desp details = on_an (annotatePointColor t tag desp details COLOR_USER)"

definition AnnotateInterval :: "int \<Rightarrow> string \<Rightarrow> int \<Rightarrow> string \<Rightarrow> string \<Rightarrow> astate \<Rightarrow> astate" where
  "AnnotateInterval t tag start desp details = on_an (annotateIntervalColor t tag start desp details COLOR_USER)"

definition AnnotateContinuous :: "int \<Rightarrow> string \<Rightarrow> string \<Rightarrow> string \<Rightarrow> astate \<Rightarrow> astate" where
  "AnnotateContinuous t tag desp details = on_an (annotateContinuousColor t tag desp details COLOR_USER)"

definition AnnotateInfo :: "int \<Rightarrow> string \<Rightarrow> string \<Rightarrow> astate \<Rightarrow> astate" where
  "AnnotateInfo t desp details = on_an (annotatePointColor t TAG_INFO desp details COLOR_INFO)"

definition AnnotateInfoInterval :: "int \<Rightarrow> int \<Rightarrow> string \<Rightarrow> string \<Rightarrow> astate \<Rightarrow> astate" where
  "AnnotateInfoInterval t start desp details = on_an (annotateIntervalColor t TAG_INFO start desp details COLOR_INFO)"

definition AnnotateTest :: "int \<Rightarrow> string \<Rightarrow> int \<Rightarrow> astate \<Rightarrow> astate" where
  "AnnotateTest t desp nservers st =
     (let details = desp @ '' ('' @ itoa_int nservers @ '' servers)''
      in AnnotateInfo t details details
           (st\<lparr>as_fi := Some (mkFrameworkInfo nservers), as_an := annot_clear (as_an st)\<rparr>))"

definition AnnotateCheckerBegin :: "int \<Rightarrow> string \<Rightarrow> astate \<Rightarrow> astate option" where
  "AnnotateCheckerBegin t details st =
     do { fi \<leftarrow> as_fi st; Some (st\<lparr>as_fi := Some (fi\<lparr>fi_ckbegin := \<lparr>ck_ts = t, ck_details = details\<rparr>\<rparr>)\<rparr>) }"

text \<open>The reset of the begin at the end is on a copy of the struct and has no effect.\<close>

definition AnnotateCheckerEnd :: "int \<Rightarrow> string \<Rightarrow> string \<Rightarrow> string \<Rightarrow> astate \<Rightarrow> astate option" where
  "AnnotateCheckerEnd t desp details color st =
     do {
       fi \<leftarrow> as_fi st;
       let ckbegin = fi_ckbegin fi;
       if ck_ts ckbegin = 0
       then Some (on_an (annotatePointColor t TAG_CHECKER desp details color) st)
       else Some (on_an (annotateIntervalColor t TAG_CHECKER (ck_ts ckbegin) desp
                           (ck_details ckbegin @ '': '' @ details) color) st)
     }"

definition AnnotateCheckerSuccess :: "int \<Rightarrow> string \<Rightarrow> string \<Rightarrow> astate \<Rightarrow> astate option" where
  "AnnotateCheckerSuccess t desp details = AnnotateCheckerEnd t desp details COLOR_SUCCESS"

definition AnnotateCheckerFailure :: "int \<Rightarrow> string \<Rightarrow> string \<Rightarrow> astate \<Rightarrow> astate option" where
  "AnnotateCheckerFailure t desp details = AnnotateCheckerEnd t desp details COLOR_FAILURE"

definition AnnotateCheckerNeutral :: "int \<Rightarrow> string \<Rightarrow> string \<Rightarrow> astate \<Rightarrow> astate option" where
  "AnnotateCheckerNeutral t desp details = AnnotateCheckerEnd t desp details COLOR_NEUTRAL"

definition SetAnnotationFinalized :: "astate \<Rightarrow> astate" where
  "SetAnnotationFinalized = on_an (\<lambda>an. an\<lparr>an_finalized := True\<rparr>)"

definition GetAnnotationFinalized :: "astate \<Rightarrow> bool" where
  "GetAnnotationFinalized st = an_finalized (as_an st)"

text \<open>The visualization written, if any, and the state at the exit that follows.\<close>

definition AnnotateCheckerFailureBeforeExit :: "string \<Rightarrow> int \<Rightarrow> int \<Rightarrow> int \<Rightarrow> string list \<Rightarrow> string \<Rightarrow>
    string \<Rightarrow> astate \<Rightarrow> (astate \<times> Annotation list option) option" where
  "AnnotateCheckerFailureBeforeExit enabled t t' t'' tags desp details st =
     do {
       st1 \<leftarrow> AnnotateCheckerFailure t desp details st;
       let (an, out) = annot_cleanup enabled t' t'' tags True ''test failed'' (as_an st1);
       Some (st1\<lparr>as_an := an\<rparr>, out)
     }"

section \<open>The current fault\<close>

text \<open>\<open>%v\<close> of a slice of ints.\<close>

fun show_words :: "string list \<Rightarrow> string" where
  "show_words [] = ''''"
| "show_words [w] = w"
| "show_words (w # ws) = w @ '' '' @ show_words ws"

definition show_ints :: "int list \<Rightarrow> string" where
  "show_ints is = ''['' @ show_words (map itoa_int is) @ '']''"

text \<open>The loop over the servers, from server \<open>i\<close>: the connected servers, the crashed ones, and what
  is written for those cut off.  The two slices have the same length in every state reached; a
  server without an entry in \<open>crashed\<close> is an index out of range.\<close>

fun fault_loop :: "int \<Rightarrow> bool list \<Rightarrow> bool list \<Rightarrow> (int list \<times> int list \<times> string) option" where
  "fault_loop i [] crs = Some ([], [], '''')"
| "fault_loop i (c # cs) [] = None"
| "fault_loop i (c # cs) (x # xs) =
     do {
       (conn, crashes, out) \<leftarrow> fault_loop (i + 1) cs xs;
       if x then Some (conn, i # crashes, out)
       else if c then Some (i # conn, crashes, out)
       else Some (conn, crashes, ''['' @ itoa_int i @ ''] '' @ out)
     }"

definition fault_text :: "bool list \<Rightarrow> bool list \<Rightarrow> string option" where
  "fault_text connected crashed =
     do {
       (conn, crashes, out) \<leftarrow> fault_loop 0 connected crashed;
       Some (''partition = '' @ out @ (if length conn > 0 then show_ints conn else '''') @
             (if length crashes > 0 then '' / crash = '' @ show_ints crashes else ''''))
     }"

definition no_fault :: "int \<Rightarrow> bool list \<Rightarrow> bool list \<Rightarrow> bool" where
  "no_fault nservers connected crashed \<longleftrightarrow>
     replicate (nat nservers) True = connected \<and> replicate (nat nservers) False = crashed"

definition annotateFault :: "int \<Rightarrow> astate \<Rightarrow> astate option" where
  "annotateFault t st =
     do {
       fi \<leftarrow> as_fi st;
       if no_fault (fi_nservers fi) (fi_connected fi) (fi_crashed fi)
       then Some (on_an (annotateContinuousEnd t TAG_PARTITION) st)
       else do {
         s \<leftarrow> fault_text (fi_connected fi) (fi_crashed fi);
         Some (on_an (annotateContinuousColor t TAG_PARTITION s s COLOR_FAULT) st)
       }
     }"

text \<open>\<open>copy\<close> writes as many elements as the shorter slice has.\<close>

definition go_copy :: "'a list \<Rightarrow> 'a list \<Rightarrow> 'a list" where
  "go_copy dst src = take (length dst) src @ drop (length src) dst"

definition AnnotateConnection :: "int \<Rightarrow> bool list \<Rightarrow> astate \<Rightarrow> astate option" where
  "AnnotateConnection t connection st =
     do {
       fi \<leftarrow> as_fi st;
       if fi_connected fi = connection then Some st
       else annotateFault t
              (st\<lparr>as_fi := Some (fi\<lparr>fi_connected := go_copy (fi_connected fi) connection\<rparr>)\<rparr>)
     }"

definition AnnotateTwoPartitions :: "int \<Rightarrow> int list \<Rightarrow> int list \<Rightarrow> astate \<Rightarrow> astate" where
  "AnnotateTwoPartitions t p1 p2 =
     (let s = ''partition = '' @ show_ints p1 @ '' '' @ show_ints p2
      in on_an (annotateContinuousColor t TAG_PARTITION s s COLOR_FAULT))"

definition AnnotateClearFailure :: "int \<Rightarrow> astate \<Rightarrow> astate option" where
  "AnnotateClearFailure t st =
     do {
       fi \<leftarrow> as_fi st;
       Some (on_an (annotateContinuousEnd t TAG_PARTITION)
         (st\<lparr>as_fi := Some (fi\<lparr>fi_crashed := map (\<lambda>_. False) (fi_crashed fi),
                             fi_connected := map (\<lambda>_. True) (fi_connected fi)\<rparr>)\<rparr>))
     }"

text \<open>The loops of \<open>AnnotateShutdown\<close> (\<open>to = True\<close>) and \<open>AnnotateRestart\<close> (\<open>to = False\<close>): the servers
  crashed after it, and whether one of them has changed.\<close>

fun set_crashed :: "bool \<Rightarrow> int list \<Rightarrow> bool list \<Rightarrow> bool \<Rightarrow> (bool list \<times> bool) option" where
  "set_crashed to [] crashed changed = Some (crashed, changed)"
| "set_crashed to (i # is) crashed changed =
     do {
       c \<leftarrow> go_get crashed i;
       crashed' \<leftarrow> go_set crashed i to;
       set_crashed to is crashed' (if c \<noteq> to then True else changed)
     }"

definition annotate_crashes :: "bool \<Rightarrow> int \<Rightarrow> int list \<Rightarrow> astate \<Rightarrow> astate option" where
  "annotate_crashes to t servers st =
     do {
       fi \<leftarrow> as_fi st;
       (crashed, changed) \<leftarrow> set_crashed to servers (fi_crashed fi) False;
       let st1 = st\<lparr>as_fi := Some (fi\<lparr>fi_crashed := crashed\<rparr>)\<rparr>;
       if \<not> changed then Some st1 else annotateFault t st1
     }"

definition AnnotateShutdown :: "int \<Rightarrow> int list \<Rightarrow> astate \<Rightarrow> astate option" where
  "AnnotateShutdown = annotate_crashes True"

definition AnnotateRestart :: "int \<Rightarrow> int list \<Rightarrow> astate \<Rightarrow> astate option" where
  "AnnotateRestart = annotate_crashes False"

definition AnnotateShutdownAll :: "int \<Rightarrow> astate \<Rightarrow> astate option" where
  "AnnotateShutdownAll t st =
     do { fi \<leftarrow> as_fi st; AnnotateShutdown t (peer_ids (fi_nservers fi)) st }"

definition AnnotateRestartAll :: "int \<Rightarrow> astate \<Rightarrow> astate option" where
  "AnnotateRestartAll t st =
     do { fi \<leftarrow> as_fi st; AnnotateRestart t (peer_ids (fi_nservers fi)) st }"

section \<open>What is shown is the current fault\<close>

text \<open>Calls of the framework and of the user after \<open>AnnotateTest\<close>, in the order of their effects.\<close>

datatype annot_event =
    EvConnection int "bool list"
  | EvShutdown int "int list"
  | EvShutdownAll int
  | EvRestart int "int list"
  | EvRestartAll int
  | EvClear int
  | EvPoint int string string string
  | EvContinuous int string string string

fun annot_step :: "annot_event \<Rightarrow> astate \<Rightarrow> astate option" where
  "annot_step (EvConnection t connection) st = AnnotateConnection t connection st"
| "annot_step (EvShutdown t servers) st = AnnotateShutdown t servers st"
| "annot_step (EvShutdownAll t) st = AnnotateShutdownAll t st"
| "annot_step (EvRestart t servers) st = AnnotateRestart t servers st"
| "annot_step (EvRestartAll t) st = AnnotateRestartAll t st"
| "annot_step (EvClear t) st = AnnotateClearFailure t st"
| "annot_step (EvPoint t tag desp details) st = Some (Annotate t tag desp details st)"
| "annot_step (EvContinuous t tag desp details) st = Some (AnnotateContinuous t tag desp details st)"

fun annot_run :: "annot_event list \<Rightarrow> astate \<Rightarrow> astate option" where
  "annot_run [] st = Some st"
| "annot_run (e # es) st = Option.bind (annot_step e st) (annot_run es)"

text \<open>Servers are in range, and the tag of the faults is left to the framework.\<close>

fun event_ok :: "int \<Rightarrow> annot_event \<Rightarrow> bool" where
  "event_ok n (EvShutdown t servers) = (\<forall>i \<in> set servers. 0 \<le> i \<and> i < n)"
| "event_ok n (EvRestart t servers) = (\<forall>i \<in> set servers. 0 \<le> i \<and> i < n)"
| "event_ok n (EvContinuous t tag desp details) = (tag \<noteq> TAG_PARTITION)"
| "event_ok n _ = True"

text \<open>A well-formed record of \<open>n\<close> servers, and an annotation that shows it.\<close>

definition fi_wf :: "int \<Rightarrow> FrameworkInfo \<Rightarrow> bool" where
  "fi_wf n fi \<longleftrightarrow> fi_nservers fi = n \<and> length (fi_connected fi) = nat n \<and> length (fi_crashed fi) = nat n"

definition shows_fault :: "annotator \<Rightarrow> FrameworkInfo \<Rightarrow> bool" where
  "shows_fault an fi \<longleftrightarrow>
     (if no_fault (fi_nservers fi) (fi_connected fi) (fi_crashed fi)
      then an_continuous an TAG_PARTITION = None
      else \<exists>cont. an_continuous an TAG_PARTITION = Some cont \<and>
             fault_text (fi_connected fi) (fi_crashed fi) = Some (c_desp cont) \<and>
             c_details cont = c_desp cont \<and> c_bgcolor cont = COLOR_FAULT)"

definition fault_inv :: "int \<Rightarrow> astate \<Rightarrow> bool" where
  "fault_inv n st \<longleftrightarrow> (\<exists>fi. as_fi st = Some fi \<and> fi_wf n fi \<and> shows_fault (as_an st) fi)"

lemma fault_invI:
  "as_fi st = Some fi \<Longrightarrow> fi_wf n fi \<Longrightarrow> shows_fault (as_an st) fi \<Longrightarrow> fault_inv n st"
  by (auto simp: fault_inv_def)

lemma on_an_simps [simp]:
  "as_fi (on_an f st) = as_fi st" "as_an (on_an f st) = f (as_an st)"
  by (simp_all add: on_an_def)

lemma an_continuous_point [simp]:
  "an_continuous (annotatePointColor t tag desp details c an) = an_continuous an"
  by (simp add: annotatePointColor_def)

lemma an_continuous_Color [simp]:
  "an_continuous (annotateContinuousColor t tag desp details c an) =
     (an_continuous an)(tag \<mapsto> \<lparr>c_start = t, c_desp = desp, c_details = details, c_bgcolor = c\<rparr>)"
  by (simp add: annotateContinuousColor_def Let_def split: option.splits)

lemma an_continuous_End [simp]:
  "an_continuous (annotateContinuousEnd t tag an) = (an_continuous an)(tag := None)"
  by (simp add: annotateContinuousEnd_def Let_def)

lemma length_go_copy [simp]: "length (go_copy dst src) = length dst"
  by (simp add: go_copy_def)

lemma fault_loop_total: "length cs = length xs \<Longrightarrow> \<exists>r. fault_loop i cs xs = Some r"
proof (induction cs xs arbitrary: i rule: list_induct2)
  case (Cons c cs x xs)
  from Cons.IH [of "i + 1"] obtain conn crashes out where "fault_loop (i + 1) cs xs = Some (conn, crashes, out)"
    by auto
  then show ?case by simp
qed simp

lemma fault_text_total: "length cs = length xs \<Longrightarrow> \<exists>s. fault_text cs xs = Some s"
  using fault_loop_total [of cs xs 0] by (auto simp: fault_text_def)

text \<open>\<open>annotateFault\<close> makes the annotation current, whatever it was.\<close>

lemma annotateFault_shows:
  assumes "as_fi st = Some fi" "fi_wf n fi"
  shows "\<exists>st'. annotateFault t st = Some st' \<and> fault_inv n st'"
proof -
  from assms(2) obtain s where "fault_text (fi_connected fi) (fi_crashed fi) = Some s"
    using fault_text_total by (fastforce simp: fi_wf_def)
  with assms show ?thesis
    by (auto simp: annotateFault_def fault_inv_def shows_fault_def)
qed

lemma set_crashed_True: "set_crashed to js crs True = Some (crs', ch') \<Longrightarrow> ch'"
  by (induction js arbitrary: crs) (auto split: Option.bind_splits)

lemma set_crashed_total:
  assumes "\<forall>i \<in> set js. 0 \<le> i \<and> i < int (length crs)"
  shows "\<exists>crs' ch'. set_crashed to js crs ch = Some (crs', ch') \<and> length crs' = length crs \<and>
           (\<not> ch' \<longrightarrow> crs' = crs)"
  using assms
proof (induction js arbitrary: crs ch)
  case (Cons i js)
  let ?crs = "crs[nat i := to]" and ?ch = "if crs ! nat i \<noteq> to then True else ch"
  obtain crs' ch' where r: "set_crashed to js ?crs ?ch = Some (crs', ch')" "length crs' = length crs"
      "\<not> ch' \<longrightarrow> crs' = ?crs"
    using Cons.IH [of ?crs ?ch] Cons.prems by auto
  have "?crs = crs" if "\<not> ch'"
  proof -
    have "crs ! nat i = to" using that r(1) set_crashed_True by (metis (full_types))
    then show ?thesis using list_update_id [of crs "nat i"] by simp
  qed
  with r Cons.prems show ?case by (auto simp: go_simps simp del: if_True if_False)
qed simp

text \<open>Each operation keeps the annotation current.\<close>

lemma AnnotateConnection_shows:
  assumes "fault_inv n st"
  shows "\<exists>st'. AnnotateConnection t connection st = Some st' \<and> fault_inv n st'"
proof -
  from assms obtain fi where fi: "as_fi st = Some fi" "fi_wf n fi" by (auto simp: fault_inv_def)
  let ?fi = "fi\<lparr>fi_connected := go_copy (fi_connected fi) connection\<rparr>"
  have "fi_wf n ?fi" using fi(2) by (simp add: fi_wf_def)
  then show ?thesis
    using assms fi(1) annotateFault_shows [of "st\<lparr>as_fi := Some ?fi\<rparr>" ?fi n t]
    by (auto simp: AnnotateConnection_def)
qed

lemma annotate_crashes_shows:
  assumes "fault_inv n st" "\<forall>i \<in> set servers. 0 \<le> i \<and> i < n"
  shows "\<exists>st'. annotate_crashes to t servers st = Some st' \<and> fault_inv n st'"
proof -
  from assms(1) obtain fi where fi: "as_fi st = Some fi" "fi_wf n fi" "shows_fault (as_an st) fi"
    by (auto simp: fault_inv_def)
  have "\<forall>i \<in> set servers. 0 \<le> i \<and> i < int (length (fi_crashed fi))"
    using fi(2) assms(2) by (auto simp: fi_wf_def)
  then obtain crs ch where c: "set_crashed to servers (fi_crashed fi) False = Some (crs, ch)"
      "length crs = length (fi_crashed fi)" "\<not> ch \<longrightarrow> crs = fi_crashed fi"
    using set_crashed_total by blast
  let ?fi = "fi\<lparr>fi_crashed := crs\<rparr>"
  have "fi_wf n ?fi" using fi(2) c(2) by (simp add: fi_wf_def)
  then show ?thesis
    using fi c annotateFault_shows [of "st\<lparr>as_fi := Some ?fi\<rparr>" ?fi n t]
    by (cases ch) (auto simp: annotate_crashes_def Let_def intro: fault_invI)
qed

lemma AnnotateClearFailure_shows:
  assumes "fault_inv n st"
  shows "\<exists>st'. AnnotateClearFailure t st = Some st' \<and> fault_inv n st'"
proof -
  from assms obtain fi where fi: "as_fi st = Some fi" "fi_wf n fi" by (auto simp: fault_inv_def)
  then show ?thesis
    by (simp add: AnnotateClearFailure_def fault_inv_def fi_wf_def shows_fault_def no_fault_def
          map_replicate_const)
qed

lemma annot_step_shows:
  assumes "fault_inv n st" "event_ok n e"
  shows "\<exists>st'. annot_step e st = Some st' \<and> fault_inv n st'"
proof (cases e)
  case (EvShutdownAll t)
  obtain fi where "as_fi st = Some fi" "fi_nservers fi = n"
    using assms(1) by (auto simp: fault_inv_def fi_wf_def)
  with EvShutdownAll show ?thesis
    using annotate_crashes_shows [OF assms(1), of "peer_ids n"]
    by (simp add: AnnotateShutdownAll_def AnnotateShutdown_def)
next
  case (EvRestartAll t)
  obtain fi where "as_fi st = Some fi" "fi_nservers fi = n"
    using assms(1) by (auto simp: fault_inv_def fi_wf_def)
  with EvRestartAll show ?thesis
    using annotate_crashes_shows [OF assms(1), of "peer_ids n"]
    by (simp add: AnnotateRestartAll_def AnnotateRestart_def)
qed (use assms AnnotateConnection_shows annotate_crashes_shows AnnotateClearFailure_shows in
      \<open>auto simp: AnnotateShutdown_def AnnotateRestart_def Annotate_def AnnotateContinuous_def
         fault_inv_def shows_fault_def\<close>)

lemma annot_run_shows:
  "fault_inv n st \<Longrightarrow> \<forall>e \<in> set es. event_ok n e \<Longrightarrow>
     \<exists>st'. annot_run es st = Some st' \<and> fault_inv n st'"
proof (induction es arbitrary: st)
  case (Cons e es)
  then obtain st1 where "annot_step e st = Some st1" "fault_inv n st1"
    using annot_step_shows by (metis list.set_intros(1))
  with Cons show ?case by simp
qed simp

lemma replicate_bool: "length xs = k \<Longrightarrow> replicate k b = xs \<longleftrightarrow> (\<not> b) \<notin> set xs"
  by (induction xs arbitrary: k) auto

lemma no_fault_iff:
  "length cs = nat n \<Longrightarrow> length xs = nat n \<Longrightarrow> no_fault n cs xs \<longleftrightarrow> False \<notin> set cs \<and> True \<notin> set xs"
  by (simp add: no_fault_def replicate_bool)

lemma AnnotateTest_fault_inv: "fault_inv n (AnnotateTest t desp n st)"
  by (simp add: AnnotateTest_def Let_def AnnotateInfo_def fault_inv_def fi_wf_def shows_fault_def
        mkFrameworkInfo_def no_fault_def annot_clear_def)

text \<open>
  The fault shown is the current one: after \<open>AnnotateTest\<close> and any calls of the framework that
  connect and disconnect, shut down and restart servers or clear the failures, mixed with annotations
  of the user under other tags, none of them panics, and a fault is shown exactly when some server
  is cut off or crashed: its text is the one of the servers' current state, in the colour of faults.
\<close>

theorem fault_annotation_current:
  assumes "\<forall>e \<in> set es. event_ok n e"
  shows "\<exists>st fi. annot_run es (AnnotateTest t desp n st0) = Some st \<and> as_fi st = Some fi \<and>
     (case an_continuous (as_an st) TAG_PARTITION of
        None \<Rightarrow> False \<notin> set (fi_connected fi) \<and> True \<notin> set (fi_crashed fi)
      | Some cont \<Rightarrow> (False \<in> set (fi_connected fi) \<or> True \<in> set (fi_crashed fi)) \<and>
          fault_text (fi_connected fi) (fi_crashed fi) = Some (c_desp cont) \<and>
          c_details cont = c_desp cont \<and> c_bgcolor cont = COLOR_FAULT)"
proof -
  obtain st fi where st: "annot_run es (AnnotateTest t desp n st0) = Some st" "as_fi st = Some fi"
      "fi_wf n fi" "shows_fault (as_an st) fi"
    using annot_run_shows [OF AnnotateTest_fault_inv assms, of t desp st0] unfolding fault_inv_def by blast
  then have "no_fault n (fi_connected fi) (fi_crashed fi) \<longleftrightarrow>
        False \<notin> set (fi_connected fi) \<and> True \<notin> set (fi_crashed fi)"
    by (simp add: no_fault_iff fi_wf_def)
  with st show ?thesis
    by (auto simp: shows_fault_def fi_wf_def split: option.splits if_splits)
qed

text \<open>Server 1 is cut off, then server 2 crashes.\<close>

lemmas annot_exec = AnnotateTest_def AnnotateInfo_def AnnotateConnection_def AnnotateShutdown_def
  AnnotateRestart_def AnnotateRestartAll_def annotate_crashes_def annotateFault_def fault_text_def
  no_fault_def mkFrameworkInfo_def annot_clear_def go_get_def go_set_def go_copy_def peer_ids_def
  show_ints_def itoa_int_def

theorem fault_annotation_current_witness:
  "\<exists>st fi cont. annot_run [EvConnection 5 [True, False, True], EvShutdown 6 [2]] (AnnotateTest 4 ''demo'' 3 astate_init) = Some st \<and>
      as_fi st = Some fi \<and> an_continuous (as_an st) TAG_PARTITION = Some cont \<and>
      fi_connected fi = [True, False, True] \<and> fi_crashed fi = [False, False, True] \<and>
      fault_text (fi_connected fi) (fi_crashed fi) = Some (c_desp cont)"
proof -
  let ?es = "[EvConnection 5 [True, False, True], EvShutdown 6 [2]]"
  obtain st fi where st: "annot_run ?es (AnnotateTest 4 ''demo'' 3 astate_init) = Some st" "as_fi st = Some fi"
      "case an_continuous (as_an st) TAG_PARTITION of
         None \<Rightarrow> False \<notin> set (fi_connected fi) \<and> True \<notin> set (fi_crashed fi)
       | Some cont \<Rightarrow> (False \<in> set (fi_connected fi) \<or> True \<in> set (fi_crashed fi)) \<and>
          fault_text (fi_connected fi) (fi_crashed fi) = Some (c_desp cont) \<and>
          c_details cont = c_desp cont \<and> c_bgcolor cont = COLOR_FAULT"
    using fault_annotation_current [of ?es 3 4 "''demo''" astate_init] by auto
  have "map_option (\<lambda>st. map_option (\<lambda>fi. (fi_connected fi, fi_crashed fi)) (as_fi st))
          (annot_run ?es (AnnotateTest 4 ''demo'' 3 astate_init)) =
        Some (Some ([True, False, True], [False, False, True]))"
    by code_simp
  with st(1,2) have "fi_connected fi = [True, False, True] \<and> fi_crashed fi = [False, False, True]"
    by simp
  with st show ?thesis by (auto split: option.splits)
qed

lemma fault_shown_example:
  "map_option (\<lambda>st. map_option c_desp (an_continuous (as_an st) TAG_PARTITION))
     (annot_run [EvConnection 5 [True, False, True], EvShutdown 6 [2]] (AnnotateTest 4 ''demo'' 3 astate_init))
   = Some (Some ''partition = [1] [0] / crash = [2]'')"
  by code_simp

text \<open>
  Ending an annotation that is not going on (\<open>annotateContinuousEnd\<close> misses a return) leaves an
  interval without a text from time 0 in the visualization: this is what \<open>AnnotateClearFailure\<close>
  does in a test without faults.
\<close>

theorem AnnotateClearFailure_draws_from_epoch:
  assumes "fault_inv n st" "an_continuous (as_an st) TAG_PARTITION = None"
  shows "\<exists>st'. AnnotateClearFailure t st = Some st' \<and>
     an_annotations (as_an st') = an_annotations (as_an st) @
       [\<lparr>a_Tag = TAG_PARTITION, a_Start = 0, a_End = t, a_Description = '''', a_Details = '''', a_Color = ''''\<rparr>]"
  using assms
  by (auto simp: AnnotateClearFailure_def fault_inv_def annotateContinuousEnd_def concretize_def
        zero_Continuous_def)

theorem AnnotateClearFailure_draws_from_epoch_witness:
  "\<exists>st'. AnnotateClearFailure 9 (AnnotateTest 4 ''demo'' 3 astate_init) = Some st' \<and>
     length (an_annotations (as_an st')) = 2"
proof -
  let ?st = "AnnotateTest 4 ''demo'' 3 astate_init"
  have "an_continuous (as_an ?st) TAG_PARTITION = None" "length (an_annotations (as_an ?st)) = 1"
    by (simp_all add: annot_exec Let_def annotatePointColor_def)
  then show ?thesis
    using AnnotateClearFailure_draws_from_epoch [OF AnnotateTest_fault_inv, of 4 "''demo''" 3 astate_init 9]
    by auto
qed

text \<open>
  A checker's end does not reset its begin, so that a second end without a begin draws an interval
  from the first begin, with its text.
\<close>

theorem AnnotateCheckerEnd_keeps_begin:
  assumes "AnnotateCheckerEnd t desp details color st = Some st'"
  shows "as_fi st' = as_fi st"
  using assms by (auto simp: AnnotateCheckerEnd_def Let_def split: Option.bind_splits if_splits)

theorem AnnotateCheckerEnd_keeps_begin_witness:
  "\<exists>st'. AnnotateCheckerEnd 7 ''ok'' '''' COLOR_SUCCESS (AnnotateTest 4 ''demo'' 3 astate_init) = Some st' \<and>
     as_fi st' = as_fi (AnnotateTest 4 ''demo'' 3 astate_init)"
proof -
  obtain st' where "AnnotateCheckerEnd 7 ''ok'' '''' COLOR_SUCCESS (AnnotateTest 4 ''demo'' 3 astate_init) = Some st'"
    by (simp add: AnnotateCheckerEnd_def annot_exec Let_def)
  then show ?thesis using AnnotateCheckerEnd_keeps_begin by blast
qed

end
