(* ===== verification/TestConfig.thy ===== *)
theory TestConfig
  imports TestGroup TestClnts Annot "HOL-Library.Multiset"
begin

text \<open>
  The configuration of a test (\<open>src/tester1/config.go\<close>): the clients and the groups of servers on one
  network, the start and the end of groups, the counters of a test, and the random helpers.

  The clocks, whether the test has failed, and the random numbers are arguments; a nil dereference
  and a \<open>log.Fatalf\<close> of the network are \<open>None\<close>.
\<close>

section \<open>State\<close>

definition GRP0 :: int where "GRP0 = 0"

text \<open>
  The network and the random strings are those of \<open>cf_tn\<close>; \<open>cf_clnts\<close> gets them for each operation
  on the clients.  Times are in nanoseconds.
\<close>

record ('r, 's, 'v, 'w, 'a, 'x) Config =
  cf_clnts :: tclnts
  cf_groups :: "('r, 's, 'v) Groups"
  cf_tn :: "('w, 'a, 'x) tnet"
  cf_failed :: bool
  cf_start :: int
  cf_t0 :: int
  cf_rpcs0 :: int
  cf_ops :: "32 word"

type_synonym ('r, 's, 'v) mksrv = "string ClientEnd list \<Rightarrow> int \<Rightarrow> int \<Rightarrow> ('r, 's) Persister \<Rightarrow> 'v list"

definition on_clnts :: "(tclnts \<Rightarrow> ('y \<times> tclnts) option) \<Rightarrow> ('r, 's, 'v, 'w, 'a, 'x) Config \<Rightarrow>
    ('y \<times> ('r, 's, 'v, 'w, 'a, 'x) Config) option" where
  "on_clnts f cfg =
     do {
       (y, cl) \<leftarrow> f ((cf_clnts cfg)\<lparr>tc_net := tn_net (cf_tn cfg), tc_rand := tn_rand (cf_tn cfg)\<rparr>);
       Some (y, cfg\<lparr>cf_clnts := cl, cf_tn := (cf_tn cfg)\<lparr>tn_net := tc_net cl, tn_rand := tc_rand cl\<rparr>\<rparr>)
     }"

section \<open>Groups\<close>

definition cfg_Group :: "int \<Rightarrow> ('r, 's, 'v, 'w, 'a, 'x) Config \<Rightarrow> ('r, 's, 'v) ServerGrp option" where
  "cfg_Group gid cfg = lookupGroup gid (cf_groups cfg)"

definition MakeGroupStart :: "(nat \<Rightarrow> string) \<Rightarrow> int \<Rightarrow> int \<Rightarrow> ('r, 's, 'v) mksrv \<Rightarrow>
    ('v \<Rightarrow> ('w, 'a, 'x) Service) \<Rightarrow> ('r, 's, 'v, 'w, 'a, 'x) Config \<Rightarrow>
    ('r, 's, 'v, 'w, 'a, 'x) Config option" where
  "MakeGroupStart rnd gid nsrv mks mk cfg =
     do {
       (gs, tn) \<leftarrow> MakeGroup rnd gid nsrv (cf_groups cfg, cf_tn cfg);
       sg \<leftarrow> lookupGroup gid gs;
       (sg, tn) \<leftarrow> StartServers rnd mks mk (sg, tn);
       Some (cfg\<lparr>cf_groups := gs(gid \<mapsto> sg), cf_tn := tn\<rparr>)
     }"

text \<open>The services of the group are killed and returned.\<close>

definition ExitGroup :: "int \<Rightarrow> ('r, 's, 'v, 'w, 'a, 'x) Config \<Rightarrow>
    ('r, 's, 'v, 'w, 'a, 'x) Config option" where
  "ExitGroup gid cfg =
     do {
       sg \<leftarrow> cfg_Group gid cfg;
       (sg, rn, killed) \<leftarrow> Shutdown (sg, tn_net (cf_tn cfg));
       Some (cfg\<lparr>cf_groups := delete_group gid (cf_groups cfg), cf_tn := (cf_tn cfg)\<lparr>tn_net := rn\<rparr>\<rparr>)
     }"

text \<open>\<open>now\<close> is the time; the group of the test is started before the clients are made.\<close>

definition zero_tnet :: "('w, 'a, 'x) tnet" where
  "zero_tnet = \<lparr>tn_net = MakeNetwork, tn_rand = 0, tn_heap = (\<lambda>_. MakeServer), tn_next = 0\<rparr>"

definition MakeConfig :: "(nat \<Rightarrow> string) \<Rightarrow> int \<Rightarrow> int \<Rightarrow> bool \<Rightarrow> ('r, 's, 'v) mksrv \<Rightarrow>
    ('v \<Rightarrow> ('w, 'a, 'x) Service) \<Rightarrow> ('r, 's, 'v, 'w, 'a, 'x) Config option" where
  "MakeConfig rnd now n rel mks mk =
     do {
       let cfg = \<lparr>cf_clnts = makeClnts MakeNetwork, cf_groups = newGroups, cf_tn = zero_tnet,
                  cf_failed = False, cf_start = 0, cf_t0 = 0, cf_rpcs0 = 0, cf_ops = 0\<rparr>;
       cfg \<leftarrow> MakeGroupStart rnd GRP0 n mks mk cfg;
       let cfg = cfg\<lparr>cf_clnts := makeClnts (tn_net (cf_tn cfg)), cf_start := now\<rparr>;
       Some (cfg\<lparr>cf_tn := (cf_tn cfg)\<lparr>tn_net := Reliable rel (tn_net (cf_tn cfg))\<rparr>\<rparr>)
     }"

section \<open>The network's switches and the counters of a test\<close>

definition on_net :: "(string Network \<Rightarrow> string Network) \<Rightarrow> ('r, 's, 'v, 'w, 'a, 'x) Config \<Rightarrow>
    ('r, 's, 'v, 'w, 'a, 'x) Config" where
  "on_net f cfg = cfg\<lparr>cf_tn := (cf_tn cfg)\<lparr>tn_net := f (tn_net (cf_tn cfg))\<rparr>\<rparr>"

definition SetReliable :: "bool \<Rightarrow> ('r, 's, 'v, 'w, 'a, 'x) Config \<Rightarrow> ('r, 's, 'v, 'w, 'a, 'x) Config" where
  "SetReliable yes = on_net (Reliable yes)"

definition SetLongReordering :: "bool \<Rightarrow> ('r, 's, 'v, 'w, 'a, 'x) Config \<Rightarrow> ('r, 's, 'v, 'w, 'a, 'x) Config" where
  "SetLongReordering yes = on_net (LongReordering yes)"

definition SetLongDelays :: "bool \<Rightarrow> ('r, 's, 'v, 'w, 'a, 'x) Config \<Rightarrow> ('r, 's, 'v, 'w, 'a, 'x) Config" where
  "SetLongDelays yes = on_net (LongDelays yes)"

definition cfg_IsReliable :: "('r, 's, 'v, 'w, 'a, 'x) Config \<Rightarrow> bool" where
  "cfg_IsReliable cfg = IsReliable (tn_net (cf_tn cfg))"

definition RpcTotal :: "('r, 's, 'v, 'w, 'a, 'x) Config \<Rightarrow> int" where
  "RpcTotal cfg = GetTotalCount (tn_net (cf_tn cfg))"

definition BytesTotal :: "('r, 's, 'v, 'w, 'a, 'x) Config \<Rightarrow> int" where
  "BytesTotal cfg = GetTotalBytes (tn_net (cf_tn cfg))"

text \<open>The line \<open>Begin\<close> prints, and the counters it resets.\<close>

definition cfg_Begin :: "int \<Rightarrow> string \<Rightarrow> ('r, 's, 'v, 'w, 'a, 'x) Config \<Rightarrow>
    string \<times> ('r, 's, 'v, 'w, 'a, 'x) Config" where
  "cfg_Begin now description cfg =
     (let rel = (if \<not> cfg_IsReliable cfg then ''unreliable'' else ''reliable'')
      in (description @ '' ('' @ rel @ '' network)...'',
          cfg\<lparr>cf_t0 := now, cf_rpcs0 := RpcTotal cfg, cf_ops := 0\<rparr>))"

definition cfg_Op :: "('r, 's, 'v, 'w, 'a, 'x) Config \<Rightarrow> ('r, 's, 'v, 'w, 'a, 'x) Config" where
  "cfg_Op cfg = cfg\<lparr>cf_ops := cf_ops cfg + 1\<rparr>"

text \<open>The limit of two minutes; \<open>Fatal\<close> marks the test as failed and ends it (\<open>None\<close>).\<close>

definition CheckTimeout :: "int \<Rightarrow> ('r, 's, 'v, 'w, 'a, 'x) Config \<Rightarrow> ('r, 's, 'v, 'w, 'a, 'x) Config option" where
  "CheckTimeout now cfg =
     (if \<not> cf_failed cfg \<and> now - cf_start cfg > 120 * 1000000000 then None else Some cfg)"

text \<open>What \<open>End\<close> prints when the test has not failed: the time, the servers, the RPCs and the operations.\<close>

definition cfg_End :: "int \<Rightarrow> int \<Rightarrow> ('r, 's, 'v, 'w, 'a, 'x) Config \<Rightarrow> (int \<times> int \<times> int \<times> int) option option" where
  "cfg_End now now' cfg =
     do {
       cfg \<leftarrow> CheckTimeout now cfg;
       if cf_failed cfg = False then do {
         sg \<leftarrow> cfg_Group GRP0 cfg;
         Some (Some (now' - cf_t0 cfg, grp_N sg, RpcTotal cfg - cf_rpcs0 cfg, sint (cf_ops cfg)))
       } else Some None
     }"

text \<open>
  \<open>Cleanup\<close>: the annotations' clean-up gets the end of the visualization; \<open>vis\<close> is that operation of
  \<open>Annot\<close> with its environment and its clock.  \<open>gids\<close> is the order of the map of groups, whose
  services are killed and returned.
\<close>

definition cfg_Cleanup :: "int \<Rightarrow> int list \<Rightarrow> (bool \<Rightarrow> string \<Rightarrow> annotator \<Rightarrow> annotator \<times> Annotation list option) \<Rightarrow>
    ('r, 's, 'v, 'w, 'a, 'x) Config \<times> annotator \<Rightarrow>
    (('r, 's, 'v, 'w, 'a, 'x) Config \<times> 'v list \<times> annotator \<times> Annotation list option) option" where
  "cfg_Cleanup now gids vis st =
     (case st of (cfg, an) \<Rightarrow> do {
        (_, cfg) \<leftarrow> on_clnts (\<lambda>cl. map_option (\<lambda>cl. ((), cl)) (clnts_cleanup cl)) cfg;
        let killed = concat (map (\<lambda>gid. grp_cleanup (the (cf_groups cfg gid))) gids);
        let cfg = on_net Cleanup cfg;
        let (an, out) = (if cf_failed cfg then vis True ''test failed'' an else vis False ''test passed'' an);
        cfg \<leftarrow> CheckTimeout now cfg;
        Some (cfg, killed, an, out)
      })"

section \<open>Random helpers\<close>

text \<open>\<open>base64.URLEncoding\<close> on a list of bytes, which are numbers below 256.\<close>

definition b64_alphabet :: string where
  "b64_alphabet = ''ABCDEFGHIJKLMNOPQRSTUVWXYZabcdefghijklmnopqrstuvwxyz0123456789-_''"

definition b64_char :: "nat \<Rightarrow> char" where
  "b64_char i = b64_alphabet ! i"

fun b64_encode :: "nat list \<Rightarrow> string" where
  "b64_encode [] = []"
| "b64_encode [a] = [b64_char (a div 4), b64_char (a mod 4 * 16), CHR ''='', CHR ''='']"
| "b64_encode [a, b] =
     [b64_char (a div 4), b64_char (a mod 4 * 16 + b div 16), b64_char (b mod 16 * 4), CHR ''='']"
| "b64_encode (a # b # c # rest) =
     [b64_char (a div 4), b64_char (a mod 4 * 16 + b div 16), b64_char (b mod 16 * 4 + c div 64), b64_char (c mod 64)]
       @ b64_encode rest"

text \<open>\<open>bs\<close> are the \<open>2*n\<close> bytes read; slicing past the end panics.\<close>

definition Randstring :: "nat \<Rightarrow> nat list \<Rightarrow> string option" where
  "Randstring n bs = go_upto (b64_encode bs) (int n)"

text \<open>\<open>js ! i\<close> is the value of \<open>rand.Intn(i + 1)\<close>.\<close>

definition go_swap :: "nat \<Rightarrow> nat \<Rightarrow> 'a list \<Rightarrow> 'a list" where
  "go_swap i j sa = sa[i := sa ! j, j := sa ! i]"

definition random_handles :: "(nat \<Rightarrow> nat) \<Rightarrow> 'a list \<Rightarrow> 'a list" where
  "random_handles js kvh = fold (\<lambda>i sa. go_swap i (js i) sa) [0..<length kvh] kvh"

section \<open>The shuffle\<close>

lemma length_shuffle [simp]: "length (fold (\<lambda>i sa. go_swap i (js i) sa) is sa) = length sa"
  by (induction "is" arbitrary: sa) (simp_all add: go_swap_def)

lemma mset_go_swap: "i < length sa \<Longrightarrow> j < length sa \<Longrightarrow> mset (go_swap i j sa) = mset sa"
  unfolding go_swap_def by (rule mset_swap)

text \<open>Swapping twice, and what the first \<open>k\<close> swaps leave alone.\<close>

lemma go_swap_swap: "i < length sa \<Longrightarrow> j < length sa \<Longrightarrow> go_swap i j (go_swap i j sa) = sa"
  unfolding go_swap_def by (rule nth_equalityI) (auto simp: nth_list_update)

definition shuffled :: "(nat \<Rightarrow> nat) \<Rightarrow> nat \<Rightarrow> 'a list \<Rightarrow> 'a list" where
  "shuffled js k sa = fold (\<lambda>i sa. go_swap i (js i) sa) [0..<k] sa"

lemma shuffled_Suc: "shuffled js (Suc k) sa = go_swap k (js k) (shuffled js k sa)"
  by (simp add: shuffled_def)

lemma shuffled_cong: "(\<And>i. i < k \<Longrightarrow> js i = js' i) \<Longrightarrow> shuffled js k sa = shuffled js' k sa"
  unfolding shuffled_def by (rule fold_cong) auto

lemma mset_shuffled:
  "(\<And>i. i < k \<Longrightarrow> js i \<le> i) \<Longrightarrow> k \<le> length sa \<Longrightarrow> mset (shuffled js k sa) = mset sa"
proof (induction k)
  case (Suc k)
  have "js k \<le> k" "length (shuffled js k sa) = length sa" using Suc.prems(1) by (simp_all add: shuffled_def)
  then have "mset (shuffled js (Suc k) sa) = mset (shuffled js k sa)"
    using Suc.prems(2) unfolding shuffled_Suc by (intro mset_go_swap) linarith+
  then show ?case using Suc.IH Suc.prems by simp
qed (simp add: shuffled_def)

text \<open>Every arrangement of the first \<open>k\<close> elements comes from some numbers.\<close>

lemma shuffled_reaches:
  assumes "mset ys = mset xs" "k \<le> length xs" "drop k ys = drop k xs"
  shows "\<exists>js. (\<forall>i<k. js i \<le> i) \<and> shuffled js k xs = ys"
  using assms
proof (induction k arbitrary: ys)
  case 0
  then show ?case by (simp add: shuffled_def)
next
  case (Suc k)
  have len: "length ys = length xs" using Suc.prems(1) by (rule mset_eq_length)
  have k: "k < length xs" using Suc.prems(2) by simp
  have cut: "mset (take (Suc k) ys) = mset (take (Suc k) xs)"
    using Suc.prems(1,3) by (metis add_right_cancel append_take_drop_id mset_append)
  have "xs ! k \<in> set (take (Suc k) xs)" using k by (simp add: take_Suc_conv_app_nth)
  then have "xs ! k \<in> set (take (Suc k) ys)" using cut by (metis set_mset_mset)
  then obtain p where p: "p \<le> k" "ys ! p = xs ! k"
    using k len by (auto simp: in_set_conv_nth less_Suc_eq_le)
  let ?zs = "go_swap k p ys"
  have "mset ?zs = mset xs" using mset_go_swap [of k ys p] k len p(1) Suc.prems(1) by simp
  moreover have "drop k ?zs = drop k xs"
  proof (rule nth_equalityI)
    fix i assume i: "i < length (drop k ?zs)"
    have "?zs ! (k + i) = xs ! (k + i)"
    proof (cases i)
      case 0
      then show ?thesis using p k len by (auto simp: go_swap_def nth_list_update)
    next
      case (Suc j)
      have "ys ! (k + i) = xs ! (k + i)"
        using arg_cong [OF Suc.prems(3), of "\<lambda>l. l ! j"] i Suc len by (simp add: go_swap_def)
      then show ?thesis using p(1) Suc i by (simp add: go_swap_def nth_list_update)
    qed
    then show "drop k ?zs ! i = drop k xs ! i" using i k len by (simp add: go_swap_def)
  qed (use len in \<open>simp add: go_swap_def\<close>)
  ultimately obtain js where js: "\<forall>i<k. js i \<le> i" "shuffled js k xs = ?zs"
    using Suc.IH [of ?zs] k by auto
  let ?js = "js(k := p)"
  have "shuffled ?js (Suc k) xs = go_swap k p ?zs"
    using js(2) shuffled_cong [of k ?js js xs] by (simp add: shuffled_Suc)
  also have "\<dots> = ys" using go_swap_swap [of k ys p] k len p(1) by simp
  finally have "shuffled ?js (Suc k) xs = ys" .
  moreover have "\<forall>i<Suc k. ?js i \<le> i" using js(1) p(1) by (simp add: less_Suc_eq)
  ultimately show ?case by blast
qed

section \<open>The encoding\<close>

lemma b64_char_in: "i < 64 \<Longrightarrow> b64_char i \<in> set b64_alphabet"
  unfolding b64_char_def by (rule nth_mem) (simp add: b64_alphabet_def)

lemma distinct_b64: "distinct b64_alphabet" "length b64_alphabet = 64"
  by (simp_all add: b64_alphabet_def)

lemma b64_char_inj: "i < 64 \<Longrightarrow> j < 64 \<Longrightarrow> b64_char i = b64_char j \<longleftrightarrow> i = j"
  using nth_eq_iff_index_eq [OF distinct_b64(1)] distinct_b64(2) by (simp add: b64_char_def)

text \<open>A prefix that the data cover has no padding.\<close>

lemma b64_prefix:
  assumes "\<forall>b\<in>set bs. b < 256" "6 * m \<le> 8 * length bs"
  shows "m \<le> length (b64_encode bs) \<and> set (take m (b64_encode bs)) \<subseteq> set b64_alphabet"
  using assms
proof (induction bs arbitrary: m rule: b64_encode.induct)
  case (2 a)
  then have "m \<le> 1" "a div 4 < 64" by auto
  then show ?case using b64_char_in [of "a div 4"] by (cases m) auto
next
  case (3 a b)
  then have "m \<le> 2" "a div 4 < 64" "a mod 4 * 16 + b div 16 < 64" by auto
  then show ?case
    using b64_char_in [of "a div 4"] b64_char_in [of "a mod 4 * 16 + b div 16"] by (auto simp: take_Cons')
next
  case (4 a b c rest)
  have n: "a div 4 < 64" "a mod 4 * 16 + b div 16 < 64" "b mod 16 * 4 + c div 64 < 64" "c mod 64 < 64"
    using "4.prems"(1) by auto
  have "m - 4 \<le> length (b64_encode rest) \<and> set (take (m - 4) (b64_encode rest)) \<subseteq> set b64_alphabet"
    using "4.IH" [of "m - 4"] "4.prems" by simp
  moreover obtain q where q: "b64_encode (a # b # c # rest) = q @ b64_encode rest" "length q = 4"
    "set q \<subseteq> set b64_alphabet" using n [THEN b64_char_in] by simp
  have "set (take m q) \<subseteq> set b64_alphabet" using q(3) set_take_subset [of m q] by blast
  ultimately show ?case unfolding q(1) by (auto simp: q(2))
qed simp

section \<open>Starting a group\<close>

lemma AddServer_simps [simp]:
  "connections (AddServer nm p rn) = connections rn" "enabled (AddServer nm p rn) = enabled rn"
  "net_ends (AddServer nm p rn) = net_ends rn" "is_enabled e (AddServer nm p rn) \<longleftrightarrow> is_enabled e rn"
  "server_of x (AddServer nm p rn) = (if x = nm then Some p else server_of x rn)"
  by (simp_all add: AddServer_def is_enabled_def server_of_def)

lemma make_ends_servers: "make_ends rnd gid js tn = Some (es, tn') \<Longrightarrow> server_of x (tn_net tn') = server_of x (tn_net tn)"
  by (induction js arbitrary: tn es)
    (fastforce simp: bind_eq_Some_conv' MakeEnd_def Connect_def server_of_def Let_def split: if_splits)+

lemma make_ends_names: "make_ends rnd gid js tn = Some (es, tn') \<Longrightarrow> map ce_endname (map snd es) = map fst es"
proof (induction js arbitrary: tn es)
  case (Cons j js)
  then obtain rn e es' tn1 where 1: "MakeEnd (rnd (tn_rand tn)) (tn_net tn) = Some (rn, e)"
    "make_ends rnd gid js tn1 = Some (es', tn')" "es = (rnd (tn_rand tn), e) # es'"
    by (auto simp: bind_eq_Some_conv' Let_def)
  have "ce_endname e = rnd (tn_rand tn)" using 1(1) by (auto simp: MakeEnd_def Let_def split: if_splits)
  then show ?case using Cons.IH [OF 1(2)] 1(3) by simp
qed simp

text \<open>One server: it has new ends, none enabled, the last persister and services made from it.\<close>

definition last_saved :: "('r, 's, 'v) TServer \<Rightarrow> ('r, 's) Persister" where
  "last_saved s = (case ts_saved s of None \<Rightarrow> MakePersister | Some ps \<Rightarrow> ps)"

lemma StartServer_eq:
  assumes fresh: "fresh_ends rnd tn" and i: "i < length (sg_srvs sg)" and n: "length (ts_endNames (sg_srvs sg ! i)) = n"
  obtains sg' tn' where "StartServer rnd mks mk (int i) (sg, tn) = Some (sg', tn')" "fresh_ends rnd tn'"
    "tn_rand tn' = tn_rand tn + n" "net_grows (tn_rand tn) rnd (tn_net tn) (tn_net tn')"
    "\<forall>k<n. connections (tn_net tn') (rnd (tn_rand tn + k)) = Some (Some (ServerName (sg_gid sg) (int k))) \<and>
       \<not> is_enabled (rnd (tn_rand tn + k)) (tn_net tn')"
    "\<exists>s. sg' = sg\<lparr>sg_srvs := (sg_srvs sg)[i := s]\<rparr> \<and> ts_endNames s = map rnd [tn_rand tn..<tn_rand tn + n] \<and>
       map ce_endname (ts_clntEnds s) = ts_endNames s \<and> ts_saved s = Some (last_saved (sg_srvs sg ! i)) \<and>
       ts_svcs s = mks (ts_clntEnds s) (sg_gid sg) (int i) (last_saved (sg_srvs sg ! i))"
    "server_of (ServerName (sg_gid sg) (int i)) (tn_net tn') \<noteq> None"
    "\<forall>x. server_of x (tn_net tn) \<noteq> None \<longrightarrow> server_of x (tn_net tn') \<noteq> None"
proof -
  have len: "length (peer_ids (int n)) = n" "\<And>k. k < n \<Longrightarrow> peer_ids (int n) ! k = int k"
    by (simp_all add: peer_ids_def nth_upto)
  let ?g = "sg_gid sg" and ?r = "tn_rand tn" and ?old = "sg_srvs sg ! i"
  obtain es tn1 where 1: "make_ends rnd ?g (peer_ids (int n)) tn = Some (es, tn1)" "fresh_ends rnd tn1"
    "tn_rand tn1 = ?r + n" "map fst es = map rnd [?r..<?r + n]"
    "net_grows ?r rnd (tn_net tn) (tn_net tn1)"
    "\<forall>k<n. connections (tn_net tn1) (rnd (?r + k)) = Some (Some (ServerName ?g (int k))) \<and>
       \<not> is_enabled (rnd (?r + k)) (tn_net tn1)"
    using make_ends_eq [OF fresh, of ?g "peer_ids (int n)"] by (auto simp: len)
  note servers = make_ends_servers [OF 1(1)]
  let ?ps = "last_saved ?old"
  let ?s = "\<lparr>ts_saved = Some ?ps, ts_svcs = mks (map snd es) ?g (int i) ?ps, ts_endNames = map fst es, ts_clntEnds = map snd es\<rparr>"
  define tn' where "tn' = tn1\<lparr>tn_heap := (tn_heap tn1)(tn_next tn1 := fold (\<lambda>v. AddService (mk v)) (ts_svcs ?s) MakeServer),
    tn_next := tn_next tn1 + 1, tn_net := AddServer (ServerName ?g (int i)) (tn_next tn1) (tn_net tn1)\<rparr>"
  have "StartServer rnd mks mk (int i) (sg, tn) = Some (sg\<lparr>sg_srvs := (sg_srvs sg)[i := ?s]\<rparr>, tn')"
    using i n 1(1)
    by (simp add: StartServer_def startServer_def makeServer_def last_saved_def go_simps Let_def tn'_def split: option.split)
  moreover have "fresh_ends rnd tn'" "tn_rand tn' = ?r + n" using 1(2,3) by (simp_all add: fresh_ends_def tn'_def)
  moreover have "net_grows ?r rnd (tn_net tn) (tn_net tn')" using 1(5) by (simp add: net_grows_def tn'_def)
  moreover have "\<forall>k<n. connections (tn_net tn') (rnd (?r + k)) = Some (Some (ServerName ?g (int k))) \<and>
      \<not> is_enabled (rnd (?r + k)) (tn_net tn')" using 1(6) by (simp add: tn'_def)
  moreover have "\<exists>s. sg\<lparr>sg_srvs := (sg_srvs sg)[i := ?s]\<rparr> = sg\<lparr>sg_srvs := (sg_srvs sg)[i := s]\<rparr> \<and>
      ts_endNames s = map rnd [?r..<?r + n] \<and> map ce_endname (ts_clntEnds s) = ts_endNames s \<and> ts_saved s = Some ?ps \<and> ts_svcs s = mks (ts_clntEnds s) ?g (int i) ?ps"
    using 1(4) make_ends_names [OF 1(1)] by (intro exI [of _ ?s]) simp
  moreover have "server_of x (tn_net tn') \<noteq> None" if "x = ServerName ?g (int i) \<or> server_of x (tn_net tn) \<noteq> None" for x
    using that servers by (auto simp: tn'_def)
  ultimately show thesis using that by blast
qed

text \<open>
  All servers: the ends of server \<open>i\<close> are the \<open>i\<close>-th run of \<open>n\<close> random strings.  \<open>started\<close> says so of
  the first \<open>k\<close> servers; \<open>ps\<close> are the persisters they are started from.
\<close>

definition started :: "(nat \<Rightarrow> string) \<Rightarrow> ('r, 's, 'v) mksrv \<Rightarrow> (nat \<Rightarrow> ('r, 's) Persister) \<Rightarrow>
    nat \<Rightarrow> nat \<Rightarrow> nat \<Rightarrow> ('r, 's, 'v) ServerGrp \<times> ('w, 'a, 'x) tnet \<Rightarrow> bool" where
  "started rnd mks ps r n k st \<longleftrightarrow> (case st of (sg, tn) \<Rightarrow>
     fresh_ends rnd tn \<and> tn_rand tn = r + k * n \<and> length (sg_srvs sg) = n \<and>
     (\<forall>i<n. length (ts_endNames (sg_srvs sg ! i)) = n \<and> last_saved (sg_srvs sg ! i) = ps i) \<and>
     (\<forall>i<k. ts_endNames (sg_srvs sg ! i) = map rnd [r + i * n..<r + i * n + n] \<and>
        map ce_endname (ts_clntEnds (sg_srvs sg ! i)) = ts_endNames (sg_srvs sg ! i) \<and>
        ts_saved (sg_srvs sg ! i) = Some (ps i) \<and>
        ts_svcs (sg_srvs sg ! i) = mks (ts_clntEnds (sg_srvs sg ! i)) (sg_gid sg) (int i) (ps i) \<and>
        server_of (ServerName (sg_gid sg) (int i)) (tn_net tn) \<noteq> None \<and>
        (\<forall>j<n. connections (tn_net tn) (rnd (r + i * n + j)) = Some (Some (ServerName (sg_gid sg) (int j))) \<and>
           \<not> is_enabled (rnd (r + i * n + j)) (tn_net tn))))"

lemma for_each_append: "for_each f (xs @ ys) st = Option.bind (for_each f xs st) (for_each f ys)"
  by (induction xs arbitrary: st) (auto split: bind_split)

lemma start_first:
  assumes init: "started rnd mks ps r n 0 (sg, tn)" and k: "k \<le> n"
  shows "\<exists>sg' tn'. for_each (StartServer rnd mks mk) (map int [0..<k]) (sg, tn) = Some (sg', tn') \<and>
    started rnd mks ps r n k (sg', tn') \<and> sg_gid sg' = sg_gid sg \<and> sg_servernames sg' = sg_servernames sg \<and>
    sg_connected sg' = sg_connected sg"
  using k
proof (induction k)
  case 0
  then show ?case using init by simp
next
  case (Suc k)
  then obtain sg1 tn1 where 1: "for_each (StartServer rnd mks mk) (map int [0..<k]) (sg, tn) = Some (sg1, tn1)"
    "started rnd mks ps r n k (sg1, tn1)" "sg_gid sg1 = sg_gid sg" "sg_servernames sg1 = sg_servernames sg"
    "sg_connected sg1 = sg_connected sg" by auto
  note st = 1(2) [unfolded started_def prod.case]
  have k: "k < length (sg_srvs sg1)" "length (ts_endNames (sg_srvs sg1 ! k)) = n" using st Suc.prems by auto
  obtain sg2 tn2 where 2: "StartServer rnd mks mk (int k) (sg1, tn1) = Some (sg2, tn2)" "fresh_ends rnd tn2"
    "tn_rand tn2 = tn_rand tn1 + n" "net_grows (tn_rand tn1) rnd (tn_net tn1) (tn_net tn2)"
    "\<forall>j<n. connections (tn_net tn2) (rnd (tn_rand tn1 + j)) = Some (Some (ServerName (sg_gid sg1) (int j))) \<and>
       \<not> is_enabled (rnd (tn_rand tn1 + j)) (tn_net tn2)"
    "\<exists>s. sg2 = sg1\<lparr>sg_srvs := (sg_srvs sg1)[k := s]\<rparr> \<and> ts_endNames s = map rnd [tn_rand tn1..<tn_rand tn1 + n] \<and>
       map ce_endname (ts_clntEnds s) = ts_endNames s \<and> ts_saved s = Some (last_saved (sg_srvs sg1 ! k)) \<and>
       ts_svcs s = mks (ts_clntEnds s) (sg_gid sg1) (int k) (last_saved (sg_srvs sg1 ! k))"
    "server_of (ServerName (sg_gid sg1) (int k)) (tn_net tn2) \<noteq> None"
    "\<forall>x. server_of x (tn_net tn1) \<noteq> None \<longrightarrow> server_of x (tn_net tn2) \<noteq> None"
    by (rule StartServer_eq [where mks = mks and mk = mk and rnd = rnd and tn = tn1, OF _ k]) (use st in auto)
  have psk: "last_saved (sg_srvs sg1 ! k) = ps k" using st Suc.prems by simp
  obtain s where s: "sg2 = sg1\<lparr>sg_srvs := (sg_srvs sg1)[k := s]\<rparr>" "ts_endNames s = map rnd [tn_rand tn1..<tn_rand tn1 + n]"
    "map ce_endname (ts_clntEnds s) = ts_endNames s" "ts_saved s = Some (ps k)" "ts_svcs s = mks (ts_clntEnds s) (sg_gid sg1) (int k) (ps k)"
    using 2(6) unfolding psk by blast
  have r: "tn_rand tn1 = r + k * n" using st by simp
  have old: "connections (tn_net tn2) (rnd (r + i * n + j)) = connections (tn_net tn1) (rnd (r + i * n + j)) \<and>
      is_enabled (rnd (r + i * n + j)) (tn_net tn2) = is_enabled (rnd (r + i * n + j)) (tn_net tn1)"
    if "i < k" "j < n" for i j
  proof -
    have "Suc i * n \<le> k * n" using that(1) by (intro mult_le_mono1) simp
    then have "r + i * n + j < tn_rand tn1" using that(2) r by simp
    then show ?thesis using 2(4) by (simp add: net_grows_def is_enabled_def)
  qed
  have "started rnd mks ps r n (Suc k) (sg2, tn2)"
    unfolding started_def prod.case
  proof (intro conjI allI impI)
    fix i assume i: "i < Suc k"
    show "ts_endNames (sg_srvs sg2 ! i) = map rnd [r + i * n..<r + i * n + n]"
      "map ce_endname (ts_clntEnds (sg_srvs sg2 ! i)) = ts_endNames (sg_srvs sg2 ! i)"
      "ts_saved (sg_srvs sg2 ! i) = Some (ps i)"
      "ts_svcs (sg_srvs sg2 ! i) = mks (ts_clntEnds (sg_srvs sg2 ! i)) (sg_gid sg2) (int i) (ps i)"
      "server_of (ServerName (sg_gid sg2) (int i)) (tn_net tn2) \<noteq> None"
      using st s 2(7,8) i k(1) r by (auto simp: less_Suc_eq)
    fix j assume j: "j < n"
    show "connections (tn_net tn2) (rnd (r + i * n + j)) = Some (Some (ServerName (sg_gid sg2) (int j)))"
      "\<not> is_enabled (rnd (r + i * n + j)) (tn_net tn2)"
      using st s(1) 2(5) old i j r by (auto simp: less_Suc_eq)
  qed (use 2(2,3) r s st k(1) in \<open>auto simp: nth_list_update last_saved_def\<close>)
  then show ?case using 1 2(1) s(1) by (simp add: for_each_append)
qed

lemma peer_ids_upt: "peer_ids (int n) = map int [0..<n]"
  by (rule nth_equalityI) (simp_all add: peer_ids_def nth_upto)

text \<open>\<open>ConnectAll\<close> connects everyone with everyone.\<close>

lemma connect_all_refines:
  assumes "group_ok n sg" "set is \<subseteq> {0..<n}"
  shows "\<exists>sg' rn'. for_each ConnectOne is (sg, rn) = Some (sg', rn') \<and> group_ok n sg' \<and> sg_srvs sg' = sg_srvs sg \<and>
    links_up n (sg', rn') = fold (\<lambda>i. conn i {0..<n}) is (links_up n (sg, rn))"
  using assms
proof (induction "is" arbitrary: sg rn)
  case (Cons i "is")
  then have i: "0 \<le> i" "i < n" by auto
  have all: "set (grp_all sg) = {0..<n}" using Cons.prems(1) by (simp add: grp_all_def group_ok_def)
  obtain sg1 rn1 where 1: "grp_connect i (grp_all sg) (sg, rn) = Some (sg1, rn1)" "group_ok n sg1"
    "sg_srvs sg1 = sg_srvs sg" "links_up n (sg1, rn1) = conn i (set (grp_all sg)) (links_up n (sg, rn))"
    by (rule grp_connect_refines [OF Cons.prems(1) i]) (use all in auto)
  then show ?case using Cons.IH [OF 1(2), of rn1] Cons.prems(2) all by (auto simp: ConnectOne_def)
qed simp

lemma fold_conn_fst: "fst (fold (\<lambda>i. conn i A) is (K, E)) = K \<union> set is"
  by (induction "is" arbitrary: K E) (auto simp: conn_def)

lemma fold_conn_all:
  "set is \<subseteq> A \<Longrightarrow> fold (\<lambda>i. conn i A) is (K, E) = (K \<union> set is, E') \<Longrightarrow> set is \<times> set is \<subseteq> E'"
proof (induction "is" arbitrary: E' rule: rev_induct)
  case (snoc x xs)
  obtain E1 where 1: "fold (\<lambda>i. conn i A) xs (K, E) = (K \<union> set xs, E1)"
    using fold_conn_fst [of A xs K E] by (metis prod.collapse)
  have "set xs \<times> set xs \<subseteq> E1" using snoc.IH [OF _ 1] snoc.prems(1) by simp
  moreover have "E' = E1 \<union> {x} \<times> (A \<inter> insert x (K \<union> set xs)) \<union> (A \<inter> insert x (K \<union> set xs)) \<times> {x}"
  proof -
    have "conn x A (K \<union> set xs, E1) = (K \<union> set (xs @ [x]), E')" using snoc.prems(2) 1 by simp
    then show ?thesis by (simp add: conn_def)
  qed
  moreover have "insert x (set xs) \<subseteq> A \<inter> insert x (K \<union> set xs)" using snoc.prems(1) by auto
  ultimately show ?case by fastforce
qed simp

text \<open>The switches leave the connections, the ends and the servers alone.\<close>

definition same_wires :: "string Network \<Rightarrow> string Network \<Rightarrow> bool" where
  "same_wires rn rn' \<longleftrightarrow> connections rn' = connections rn \<and> servers rn' = servers rn \<and> net_ends rn' = net_ends rn"

lemma same_wires_refl [simp]: "same_wires rn rn"
  by (simp add: same_wires_def)

lemma same_wires_trans: "same_wires a b \<Longrightarrow> same_wires b c \<Longrightarrow> same_wires a c"
  by (simp add: same_wires_def)

lemma same_wires_Enable [simp]: "same_wires (Enable e b rn) rn' \<longleftrightarrow> same_wires rn rn'"
  by (simp add: same_wires_def Enable_def)

lemma enable_ends_wires: "enable_ends js names con rn = Some rn' \<Longrightarrow> same_wires rn rn'"
  by (induction js arbitrary: rn)
    (fastforce simp: bind_eq_Some_conv' split: if_splits)+

lemma disable_ends_wires: "disable_ends js names rn = Some rn' \<Longrightarrow> same_wires rn rn'"
  by (induction js arbitrary: rn)
    (fastforce simp: bind_eq_Some_conv')+

lemma enable_incoming_wires: "enable_incoming i js sg rn = Some rn' \<Longrightarrow> same_wires rn rn'"
  by (induction js arbitrary: rn)
    (fastforce simp: bind_eq_Some_conv' split: if_splits)+

lemma disable_incoming_wires: "disable_incoming i js sg rn = Some rn' \<Longrightarrow> same_wires rn rn'"
  by (induction js arbitrary: rn)
    (fastforce simp: bind_eq_Some_conv')+

lemma grp_connect_wires: "grp_connect i to (sg, rn) = Some (sg', rn') \<Longrightarrow> same_wires rn rn'"
  by (auto simp: grp_connect_def bind_eq_Some_conv' Let_def
      dest!: enable_ends_wires enable_incoming_wires intro: same_wires_trans)

lemma grp_disconnect_wires: "grp_disconnect i fr (sg, rn) = Some (sg', rn') \<Longrightarrow> same_wires rn rn'"
  by (auto simp: grp_disconnect_def bind_eq_Some_conv' Let_def
      dest!: disable_ends_wires disable_incoming_wires intro: same_wires_trans)

lemma connect_all_wires: "for_each ConnectOne is (sg, rn) = Some (sg', rn') \<Longrightarrow> same_wires rn rn'"
proof (induction "is" arbitrary: sg rn)
  case (Cons i "is")
  then obtain sg1 rn1 where 1: "ConnectOne i (sg, rn) = Some (sg1, rn1)"
    "for_each ConnectOne is (sg1, rn1) = Some (sg', rn')" by (auto simp: bind_eq_Some_conv')
  show ?case
    by (rule same_wires_trans [OF grp_connect_wires [OF 1(1) [unfolded ConnectOne_def]] Cons.IH [OF 1(2)]])
qed simp

lemma ConnectAll_frame:
  assumes "ConnectAll (sg, rn) = Some (sg', rn')"
  shows "connections rn' = connections rn" "server_of x rn' = server_of x rn" "net_ends rn' = net_ends rn"
  using connect_all_wires [OF assms [unfolded ConnectAll_def]] by (simp_all add: same_wires_def server_of_def)

lemma connect_all_names:
  "for_each ConnectOne is (sg, rn) = Some (sg', rn') \<Longrightarrow> sg_gid sg' = sg_gid sg \<and> sg_servernames sg' = sg_servernames sg"
proof (induction "is" arbitrary: sg rn)
  case (Cons i "is")
  then obtain sg1 rn1 where 1: "ConnectOne i (sg, rn) = Some (sg1, rn1)"
    "for_each ConnectOne is (sg1, rn1) = Some (sg', rn')"
    by (auto simp: bind_eq_Some_conv')
  have "sg_gid sg1 = sg_gid sg \<and> sg_servernames sg1 = sg_servernames sg"
    using 1(1) by (auto simp: ConnectOne_def grp_connect_def bind_eq_Some_conv' Let_def)
  then show ?case using Cons.IH [OF 1(2)] by simp
qed simp

lemma ConnectAll_up:
  assumes ok: "group_ok (int n) sg"
  obtains sg' rn' where "ConnectAll (sg, rn) = Some (sg', rn')" "group_ok (int n) sg'" "sg_srvs sg' = sg_srvs sg"
    "sg_gid sg' = sg_gid sg" "sg_servernames sg' = sg_servernames sg"
    "\<forall>i<n. IsConnected sg' (int i) = Some True \<and> (\<forall>j<n. is_enabled (end_name sg (int i) (int j)) rn')"
proof -
  let ?is = "map int [0..<n]"
  have all: "grp_all sg = ?is" using ok by (simp add: grp_all_def group_ok_def peer_ids_upt)
  have ids: "set ?is = {0..<int n}" by (simp flip: peer_ids_upt)
  obtain sg' rn' where 3: "for_each ConnectOne ?is (sg, rn) = Some (sg', rn')" "group_ok (int n) sg'"
    "sg_srvs sg' = sg_srvs sg"
    "links_up (int n) (sg', rn') = fold (\<lambda>i. conn i {0..<int n}) ?is (links_up (int n) (sg, rn))"
    using connect_all_refines [OF ok, of ?is rn] ids by auto
  obtain K E where KE: "links_up (int n) (sg, rn) = (K, E)" by fastforce
  have K: "K \<subseteq> {0..<int n}" using KE by (auto simp: links_up_def)
  have up: "fst (links_up (int n) (sg', rn')) = {0..<int n}"
    using fold_conn_fst [of "{0..<int n}" ?is K E] K ids by (auto simp: 3(4) KE)
  then have sub: "{0..<int n} \<times> {0..<int n} \<subseteq> snd (links_up (int n) (sg', rn'))"
    using fold_conn_all [of ?is "{0..<int n}" K E "snd (links_up (int n) (sg', rn'))"] K ids
    by (simp add: 3(4) KE prod_eq_iff Un_absorb1)
  have en: "is_enabled (end_name sg' (int i) (int j)) rn'" if "i < n" "j < n" for i j
    using subsetD [OF sub, of "(int i, int j)"] that by (simp add: links_up_def)
  have con: "IsConnected sg' (int i) = Some True" if "i < n" for i
  proof -
    have "int i \<in> fst (links_up (int n) (sg', rn'))" using up that by simp
    then show ?thesis using group_okD(3) [OF 3(2)] that by (simp add: links_up_def IsConnected_def go_simps)
  qed
  have "end_name sg' = end_name sg" by (intro ext) (simp add: end_name_def 3(3))
  then show ?thesis
    using en con all 3(1) connect_all_names [OF 3(1)] by (intro that [OF _ 3(2,3)]) (auto simp: ConnectAll_def)
qed

section \<open>Properties\<close>

text \<open>
  Starting the servers of a group, for the first time or again, on a network with fresh random
  strings: afterwards every server is connected, has the persister it had last (a new one at first)
  and the services the test's function makes from it and from its ends, and every server reaches every server of the
  group: the end between them is enabled, leads to the other's name, and a server is registered
  there.
\<close>

definition group_up :: "('r, 's, 'v) mksrv \<Rightarrow> (nat \<Rightarrow> ('r, 's) Persister) \<Rightarrow> nat \<Rightarrow>
    ('r, 's, 'v) ServerGrp \<Rightarrow> string Network \<Rightarrow> bool" where
  "group_up mks ps n sg rn \<longleftrightarrow> group_ok (int n) sg \<and>
    (\<forall>i<n. IsConnected sg (int i) = Some True \<and> ts_saved (sg_srvs sg ! i) = Some (ps i) \<and>
       map ce_endname (ts_clntEnds (sg_srvs sg ! i)) = ts_endNames (sg_srvs sg ! i) \<and>
       ts_svcs (sg_srvs sg ! i) = mks (ts_clntEnds (sg_srvs sg ! i)) (sg_gid sg) (int i) (ps i) \<and>
       (\<forall>j<n. is_enabled (end_name sg (int i) (int j)) rn \<and>
          connections rn (end_name sg (int i) (int j)) = Some (Some (ServerName (sg_gid sg) (int j))) \<and>
          server_of (ServerName (sg_gid sg) (int j)) rn \<noteq> None))"

text \<open>The names of the ends are random strings that have been drawn.\<close>

definition drawn :: "nat \<Rightarrow> (nat \<Rightarrow> string) \<Rightarrow> nat \<Rightarrow> ('r, 's, 'v) ServerGrp \<Rightarrow> bool" where
  "drawn r rnd n sg \<longleftrightarrow> (\<forall>i<n. \<forall>j<n. end_name sg (int i) (int j) \<in> rnd ` {..<r})"

theorem StartServers_connects:
  assumes "fresh_ends rnd tn" "group_ok (int n) sg"
  shows "\<exists>sg' tn'. StartServers rnd mks mk (sg, tn) = Some (sg', tn') \<and> fresh_ends rnd tn' \<and>
    sg_gid sg' = sg_gid sg \<and> sg_servernames sg' = sg_servernames sg \<and> drawn (tn_rand tn') rnd n sg' \<and>
    group_up mks (\<lambda>i. last_saved (sg_srvs sg ! i)) n sg' (tn_net tn')"
proof -
  note ok = group_okD [OF assms(2)]
  let ?r = "tn_rand tn" and ?ps = "\<lambda>i. last_saved (sg_srvs sg ! i)"
  have all: "grp_all sg = map int [0..<n]" using ok(2) by (simp add: grp_all_def peer_ids_upt)
  have "started rnd mks ?ps ?r n 0 (sg, tn)"
    using assms(1) ok(2) ok(4) [of "int _"] by (simp add: started_def)
  then obtain sg1 tn1 where 2: "start_all rnd mks mk (sg, tn) = Some (sg1, tn1)" "started rnd mks ?ps ?r n n (sg1, tn1)"
    "sg_gid sg1 = sg_gid sg" "sg_servernames sg1 = sg_servernames sg" "sg_connected sg1 = sg_connected sg"
    using start_first [of rnd mks ?ps ?r n sg tn n mk] all by (auto simp: start_all_def)
  note st = 2(2) [unfolded started_def prod.case]
  have inj: "inj rnd" using st by (simp add: fresh_ends_def)
  have names: "ts_endNames (sg_srvs sg1 ! i) = map rnd [?r + i * n..<?r + i * n + n]" if "i < n" for i using st that by simp
  have ok1: "group_ok (int n) sg1" by (rule grid_group_ok [OF inj _ _ names]) (use st 2(5) ok(3) in simp_all)
  have name: "end_name sg1 (int i) (int j) = rnd (?r + i * n + j)" if "i < n" "j < n" for i j
    using grid_group_ok(2) [OF inj _ _ names, of "int i" "int j"] st 2(5) ok(3) that by simp
  obtain sg2 rn2 where 3: "ConnectAll (sg1, tn_net tn1) = Some (sg2, rn2)" "group_ok (int n) sg2"
    "sg_srvs sg2 = sg_srvs sg1" "sg_gid sg2 = sg_gid sg" "sg_servernames sg2 = sg_servernames sg"
    "\<forall>i<n. IsConnected sg2 (int i) = Some True \<and> (\<forall>j<n. is_enabled (end_name sg1 (int i) (int j)) rn2)"
    using ConnectAll_up [OF ok1, of "tn_net tn1"] 2(3,4) by auto
  have frame: "connections rn2 = connections (tn_net tn1)" "\<And>x. server_of x rn2 = server_of x (tn_net tn1)"
    "net_ends rn2 = net_ends (tn_net tn1)"
    using ConnectAll_frame [OF 3(1)] by simp_all
  have name2: "end_name sg2 (int i) (int j) = end_name sg1 (int i) (int j)" for i j by (simp add: end_name_def 3(3))
  have "StartServers rnd mks mk (sg, tn) = Some (sg2, tn1\<lparr>tn_net := rn2\<rparr>)"
    using 2(1) 3(1) by (simp add: StartServers_def)
  moreover have "fresh_ends rnd (tn1\<lparr>tn_net := rn2\<rparr>)" using st frame(3) by (simp add: fresh_ends_def)
  moreover have "group_up mks ?ps n sg2 rn2"
    unfolding group_up_def using 3 st 2(3) frame(1,2) name name2 by auto
  moreover have "drawn (tn_rand tn1) rnd n sg2"
  proof -
    have "?r + i * n + j < tn_rand tn1" if "i < n" "j < n" for i j
    proof -
      have "Suc i * n \<le> n * n" using that(1) by (intro mult_le_mono1) simp
      then show ?thesis using that(2) st by simp
    qed
    then show ?thesis using name name2 by (auto simp: drawn_def)
  qed
  ultimately show ?thesis using 3(4,5) by auto
qed

lemma make_srvs_unsaved: "make_srvs rnd gid n is tn = Some (srvs, tn') \<Longrightarrow> \<forall>s\<in>set srvs. ts_saved s = None"
  by (induction "is" arbitrary: tn srvs) (auto simp: bind_eq_Some_conv' makeServer_def)

theorem MakeGroupStart_connects:
  fixes cfg :: "('r, 's, 'v, 'w, 'a, 'x) Config"
  assumes "fresh_ends rnd (cf_tn cfg)"
  shows "\<exists>cfg' sg. MakeGroupStart rnd gid (int n) mks mk cfg = Some cfg' \<and> cfg_Group gid cfg' = Some sg \<and>
    fresh_ends rnd (cf_tn cfg') \<and> sg_gid sg = gid \<and> sg_servernames sg = map (ServerName gid) (peer_ids (int n)) \<and>
    drawn (tn_rand (cf_tn cfg')) rnd n sg \<and>
    group_up mks (\<lambda>_. MakePersister) n sg (tn_net (cf_tn cfg'))"
proof -
  obtain sg :: "('r, 's, 'v) ServerGrp" and tn where 1: "makeSrvGrp rnd gid (int n) (cf_tn cfg) = Some (sg, tn)"
    "fresh_ends rnd tn" "group_ok (int n) sg"
    using makeSrvGrp_ok [OF assms, of gid n] by blast
  have sg: "sg_gid sg = gid" "\<forall>s\<in>set (sg_srvs sg). ts_saved s = None"
    "sg_servernames sg = map (ServerName gid) (peer_ids (int n))"
    using 1(1) by (auto simp: makeSrvGrp_def bind_eq_Some_conv' dest!: make_srvs_unsaved)
  have new: "last_saved (sg_srvs sg ! i) = MakePersister" if "i < n" for i
    using that sg(2) group_okD(2) [OF 1(3)] by (simp add: last_saved_def)
  obtain sg' tn' where 2: "StartServers rnd mks mk (sg, tn) = Some (sg', tn')" "fresh_ends rnd tn'"
    "sg_gid sg' = gid" "sg_servernames sg' = map (ServerName gid) (peer_ids (int n))"
    "group_up mks (\<lambda>i. last_saved (sg_srvs sg ! i)) n sg' (tn_net tn')" "drawn (tn_rand tn') rnd n sg'"
    using StartServers_connects [OF 1(2,3), of mks mk] sg(1,3) by auto
  define cfg' where "cfg' = cfg\<lparr>cf_groups := (cf_groups cfg)(gid \<mapsto> sg'), cf_tn := tn'\<rparr>"
  have "MakeGroupStart rnd gid (int n) mks mk cfg = Some cfg'"
    using 1(1) 2(1) by (simp add: MakeGroupStart_def MakeGroup_def lookupGroup_def cfg'_def)
  moreover have "cfg_Group gid cfg' = Some sg'" by (simp add: cfg_Group_def lookupGroup_def cfg'_def)
  moreover have "group_up mks (\<lambda>_. MakePersister) n sg' (tn_net tn')"
    using 2(5) new by (simp add: group_up_def)
  ultimately show ?thesis using 2(2-4,6) by (auto simp: cfg'_def)
qed

lemma MakeConfig_up:
  assumes "inj rnd"
  shows "\<exists>cfg sg. MakeConfig rnd now (int n) rel mks mk = Some cfg \<and> cfg_Group GRP0 cfg = Some sg \<and>
    sg_gid sg = GRP0 \<and> group_up mks (\<lambda>_. MakePersister) n sg (tn_net (cf_tn cfg)) \<and>
    cfg_IsReliable cfg = rel \<and> cf_start cfg = now \<and> fresh_ends rnd (cf_tn cfg) \<and> cf_failed cfg = False"
proof -
  let ?c0 = "\<lparr>cf_clnts = makeClnts MakeNetwork, cf_groups = newGroups, cf_tn = zero_tnet,
                  cf_failed = False, cf_start = 0, cf_t0 = 0, cf_rpcs0 = 0, cf_ops = 0\<rparr>"
  have fresh: "fresh_ends rnd (cf_tn ?c0)" using assms by (simp add: fresh_ends_def zero_tnet_def MakeNetwork_def)
  obtain c1 sg where c1: "MakeGroupStart rnd GRP0 (int n) mks mk ?c0 = Some c1" "cfg_Group GRP0 c1 = Some sg"
    "fresh_ends rnd (cf_tn c1)" "sg_gid sg = GRP0" "group_up mks (\<lambda>_. MakePersister) n sg (tn_net (cf_tn c1))"
    using MakeGroupStart_connects [OF fresh, of GRP0 n mks mk] by blast
  have "cf_failed c1 = False" using c1(1) by (auto simp: MakeGroupStart_def bind_eq_Some_conv')
  with c1 show ?thesis
    by (auto simp: MakeConfig_def Let_def cfg_Group_def cfg_IsReliable_def IsReliable_def Reliable_def
        group_up_def is_enabled_def server_of_def fresh_ends_def)
qed

theorem MakeGroupStart_connects_witness:
  obtains cfg :: "(nat, nat, nat, nat, nat, nat) Config" and sg where
    "MakeConfig (\<lambda>k. replicate k CHR ''x'') 0 (int 2) True (\<lambda>_ _ i _. [nat i])
      (\<lambda>_. \<lparr>sv_name = ''S'', sv_methods = Map.empty\<rparr>) = Some cfg"
    "cfg_Group GRP0 cfg = Some sg" "group_ok (int 2) sg" "sg_gid sg = GRP0" "IsConnected sg (int 1) = Some True"
    "ts_svcs (sg_srvs sg ! 1) = [1]"
proof -
  have "inj (\<lambda>k. replicate k CHR ''x'')" by (rule injI) (metis length_replicate)
  then obtain cfg :: "(nat, nat, nat, nat, nat, nat) Config" and sg where
    1: "MakeConfig (\<lambda>k. replicate k CHR ''x'') 0 (int 2) True (\<lambda>_ _ i _. [nat i])
      (\<lambda>_. \<lparr>sv_name = ''S'', sv_methods = Map.empty\<rparr>) = Some cfg"
    "cfg_Group GRP0 cfg = Some sg" "sg_gid sg = GRP0"
    "group_up (\<lambda>_ _ i _. [nat i]) (\<lambda>_. MakePersister) 2 sg (tn_net (cf_tn cfg))"
    using MakeConfig_up [of "\<lambda>k. replicate k CHR ''x''"] by blast
  have "group_ok (int 2) sg" "\<forall>i<2. IsConnected sg (int i) = Some True \<and> ts_svcs (sg_srvs sg ! i) = [i]"
    using 1(4) by (simp_all add: group_up_def)
  moreover from this(2) have "IsConnected sg (int 1) = Some True" "ts_svcs (sg_srvs sg ! 1) = [1]"
    by (auto dest: spec [of _ 1])
  ultimately show ?thesis using that 1(1-3) by blast
qed

lemma fold_disc_all:
  "set is \<subseteq> A \<Longrightarrow> fold (\<lambda>i. disc i A) is (K, E) = (K - set is, E - set is \<times> A - A \<times> set is)"
  by (induction "is" arbitrary: K E) (auto simp: disc_def)

lemma map_Copy: "map_option PersisterCopy ps = ps"
  by (cases ps) simp_all

lemma ShutdownServer_eq:
  assumes ok: "group_ok n sg" and i: "0 \<le> i" "i < n"
  obtains sg' rn' where "ShutdownServer i (sg, rn) = Some (sg', rn', ts_svcs (sg_srvs sg ! nat i))" "group_ok n sg'"
    "end_name sg' = end_name sg" "sg_gid sg' = sg_gid sg" "map ts_saved (sg_srvs sg') = map ts_saved (sg_srvs sg)"
    "\<forall>j. j \<noteq> nat i \<longrightarrow> sg_srvs sg' ! j = sg_srvs sg ! j"
    "net_ends rn' = net_ends rn" "links_up n (sg', rn') = disc i {0..<n} (links_up n (sg, rn))"
    "\<forall>x. server_of x rn' = (if x = ServerName (sg_gid sg) i then None else server_of x rn)"
proof -
  have all: "set (grp_all sg) = {0..<n}" using group_okD(1,2) [OF ok] by (simp add: grp_all_def)
  obtain sg1 rn1 where 1: "grp_disconnect i (grp_all sg) (sg, rn) = Some (sg1, rn1)" "group_ok n sg1"
    "sg_srvs sg1 = sg_srvs sg" "links_up n (sg1, rn1) = disc i (set (grp_all sg)) (links_up n (sg, rn))"
    by (rule grp_disconnect_refines [OF ok i]) (use all in auto)
  have gid: "sg_gid sg1 = sg_gid sg" using 1(1) by (auto simp: grp_disconnect_def bind_eq_Some_conv' Let_def)
  let ?rn = "DeleteServer (ServerName (sg_gid sg) i) rn1"
  let ?s = "fst (shutdownServer (sg_srvs sg1 ! nat i))"
  let ?sg = "sg1\<lparr>sg_srvs := (sg_srvs sg1)[nat i := ?s]\<rparr>"
  have len: "nat i < length (sg_srvs sg1)" using group_okD(2) [OF 1(2)] i by simp
  have names: "end_name ?sg = end_name sg1"
    using len by (intro ext) (auto simp: end_name_def nth_list_update shutdownServer_def)
  have links: "links_up n (?sg, ?rn) = links_up n (sg1, rn1)"
    using names by (simp add: links_up_def is_enabled_def DeleteServer_def)
  have wires: "servers rn1 = servers rn" "net_ends rn1 = net_ends rn"
    using grp_disconnect_wires [OF 1(1)] by (simp_all add: same_wires_def)
  have "end_name sg1 = end_name sg" by (intro ext) (simp add: end_name_def 1(3))
  moreover have "ShutdownServer i (sg, rn) = Some (?sg, ?rn, ts_svcs (sg_srvs sg ! nat i))"
    using 1(1,3) len i gid by (simp add: ShutdownServer_def DisconnectAll_def go_simps shutdownServer_def)
  moreover have "group_ok n ?sg"
    using 1(2) names len by (auto simp: group_ok_def shutdownServer_def dest!: set_update_subset_insert [THEN subsetD])
  moreover have "map ts_saved (sg_srvs ?sg) = map ts_saved (sg_srvs sg)"
    using 1(3) len by (simp add: map_update list_update_same_conv shutdownServer_def map_Copy)
  moreover have "server_of x ?rn = (if x = ServerName (sg_gid sg) i then None else server_of x rn)" for x
    using wires(1) by (simp add: server_of_def DeleteServer_def)
  moreover have "net_ends ?rn = net_ends rn" using wires(2) by (simp add: DeleteServer_def)
  ultimately show ?thesis
    using names links 1(3,4) all gid by (intro that [of ?sg ?rn]) auto
qed

lemma shutdown_loop_eq:
  assumes "group_ok n sg" "set is \<subseteq> {0..<n}" "distinct is"
  shows "\<exists>sg' rn'. shutdown_loop is (sg, rn) = Some (sg', rn', concat (map (\<lambda>i. ts_svcs (sg_srvs sg ! nat i)) is)) \<and>
    group_ok n sg' \<and> end_name sg' = end_name sg \<and> sg_gid sg' = sg_gid sg \<and>
    map ts_saved (sg_srvs sg') = map ts_saved (sg_srvs sg) \<and> net_ends rn' = net_ends rn \<and>
    links_up n (sg', rn') = fold (\<lambda>i. disc i {0..<n}) is (links_up n (sg, rn)) \<and>
    (\<forall>x. server_of x rn' = (if x \<in> ServerName (sg_gid sg) ` set is then None else server_of x rn))"
  using assms
proof (induction "is" arbitrary: sg rn)
  case (Cons i "is")
  then have i: "0 \<le> i" "i < n" by auto
  obtain sg1 rn1 k where 1: "ShutdownServer i (sg, rn) = Some (sg1, rn1, ts_svcs (sg_srvs sg ! nat i))" "group_ok n sg1"
    "end_name sg1 = end_name sg" "sg_gid sg1 = sg_gid sg" "map ts_saved (sg_srvs sg1) = map ts_saved (sg_srvs sg)"
    "\<forall>j. j \<noteq> nat i \<longrightarrow> sg_srvs sg1 ! j = sg_srvs sg ! j"
    "net_ends rn1 = net_ends rn" "links_up n (sg1, rn1) = disc i {0..<n} (links_up n (sg, rn))"
    "\<forall>x. server_of x rn1 = (if x = ServerName (sg_gid sg) i then None else server_of x rn)"
    by (rule ShutdownServer_eq [OF Cons.prems(1) i])
  have "concat (map (\<lambda>i. ts_svcs (sg_srvs sg1 ! nat i)) is) = concat (map (\<lambda>i. ts_svcs (sg_srvs sg ! nat i)) is)"
  proof (intro arg_cong [of _ _ concat] map_cong refl)
    fix x assume x: "x \<in> set is"
    then have "0 \<le> x" "x \<noteq> i" using Cons.prems(2,3) by auto
    then show "ts_svcs (sg_srvs sg1 ! nat x) = ts_svcs (sg_srvs sg ! nat x)" using 1(6) i by (simp add: eq_nat_nat_iff)
  qed
  moreover obtain sg' rn' where "shutdown_loop is (sg1, rn1) = Some (sg', rn', concat (map (\<lambda>i. ts_svcs (sg_srvs sg1 ! nat i)) is))"
    "group_ok n sg'" "end_name sg' = end_name sg1" "sg_gid sg' = sg_gid sg1"
    "map ts_saved (sg_srvs sg') = map ts_saved (sg_srvs sg1)" "net_ends rn' = net_ends rn1"
    "links_up n (sg', rn') = fold (\<lambda>i. disc i {0..<n}) is (links_up n (sg1, rn1))"
    "\<forall>x. server_of x rn' = (if x \<in> ServerName (sg_gid sg1) ` set is then None else server_of x rn1)"
    using Cons.IH [OF 1(2), of rn1] Cons.prems(2,3) by auto
  ultimately show ?case using 1 by auto
qed simp

text \<open>
  The end of a group.  \<open>ExitGroup\<close> of a group succeeds: the group is gone, the other groups are
  left alone, none of its servers is registered at the network, and no end between its servers is
  enabled; so a request that a server of it still sends to another is answered with a failure.
\<close>

theorem ExitGroup_removes:
  assumes "cfg_Group gid cfg = Some sg" "group_ok (int n) sg" "sg_gid sg = gid"
  shows "\<exists>cfg'. ExitGroup gid cfg = Some cfg' \<and> cfg_Group gid cfg' = None \<and>
    (\<forall>g. g \<noteq> gid \<longrightarrow> cfg_Group g cfg' = cfg_Group g cfg) \<and>
    (\<forall>i<n. server_of (ServerName gid (int i)) (tn_net (cf_tn cfg')) = None) \<and>
    (\<forall>i<n. \<forall>j<n. \<not> is_enabled (end_name sg (int i) (int j)) (tn_net (cf_tn cfg')) \<and>
       (\<forall>req. rq_endname req = end_name sg (int i) (int j) \<longrightarrow>
          processReq_lookup req (tn_net (cf_tn cfg')) = (Replying no_reply :: (string, 'z) call_pc)))"
proof -
  have all: "grp_all sg = map int [0..<n]" using assms(2) by (simp add: grp_all_def group_ok_def peer_ids_upt)
  have ids: "set (map int [0..<n]) = {0..<int n}" by (simp flip: peer_ids_upt)
  obtain sg' rn' killed where s: "Shutdown (sg, tn_net (cf_tn cfg)) = Some (sg', rn', killed)"
    "end_name sg' = end_name sg"
    "links_up (int n) (sg', rn') = fold (\<lambda>i. disc i {0..<int n}) (map int [0..<n]) (links_up (int n) (sg, tn_net (cf_tn cfg)))"
    "\<forall>x. server_of x rn' = (if x \<in> ServerName (sg_gid sg) ` {0..<int n} then None else server_of x (tn_net (cf_tn cfg)))"
    using shutdown_loop_eq [OF assms(2), of "map int [0..<n]" "tn_net (cf_tn cfg)"] all ids
    by (auto simp: Shutdown_def distinct_map)
  obtain K E where KE: "links_up (int n) (sg, tn_net (cf_tn cfg)) = (K, E)" by fastforce
  have "E \<subseteq> {0..<int n} \<times> {0..<int n}" using KE by (auto simp: links_up_def)
  then have "snd (links_up (int n) (sg', rn')) = {}"
    using fold_disc_all [of "map int [0..<n]" "{0..<int n}" K E] ids by (auto simp: s(3) KE)
  then have off: "\<not> is_enabled (end_name sg (int i) (int j)) rn'" if "i < n" "j < n" for i j
    using that s(2) by (auto simp: links_up_def)
  define cfg' where "cfg' = cfg\<lparr>cf_groups := delete_group gid (cf_groups cfg), cf_tn := (cf_tn cfg)\<lparr>tn_net := rn'\<rparr>\<rparr>"
  have "ExitGroup gid cfg = Some cfg'" using assms(1) s(1) by (simp add: ExitGroup_def cfg'_def)
  moreover have "processReq_lookup req rn' = (Replying no_reply :: (string, 'z) call_pc)"
    if "i < n" "j < n" "rq_endname req = end_name sg (int i) (int j)" for i j and req :: "(string, 'y) reqMsg"
    using off [OF that(1,2)] that(3) by (simp add: processReq_lookup_def readEndnameInfo_def Let_def split: option.splits)
  moreover have "server_of (ServerName gid (int i)) rn' = None" if "i < n" for i
    using s(4) that assms(3) by auto
  ultimately show ?thesis
    using off by (intro exI [of _ cfg']) (auto simp: cfg'_def cfg_Group_def lookupGroup_def delete_group_def)
qed


theorem ExitGroup_removes_witness:
  "\<exists>(cfg :: (nat, nat, nat, nat, nat, nat) Config) cfg'.
     MakeConfig (\<lambda>k. replicate k CHR ''x'') 0 (int 2) True (\<lambda>_ _ i _. [nat i])
       (\<lambda>_. \<lparr>sv_name = ''S'', sv_methods = Map.empty\<rparr>) = Some cfg \<and>
     ExitGroup GRP0 cfg = Some cfg' \<and> cfg_Group GRP0 cfg' = None \<and>
     server_of (ServerName GRP0 1) (tn_net (cf_tn cfg')) = None"
proof -
  obtain cfg :: "(nat, nat, nat, nat, nat, nat) Config" and sg where
    1: "MakeConfig (\<lambda>k. replicate k CHR ''x'') 0 (int 2) True (\<lambda>_ _ i _. [nat i])
      (\<lambda>_. \<lparr>sv_name = ''S'', sv_methods = Map.empty\<rparr>) = Some cfg"
    "cfg_Group GRP0 cfg = Some sg" "group_ok (int 2) sg" "sg_gid sg = GRP0"
    by (rule MakeGroupStart_connects_witness)
  show ?thesis
    using ExitGroup_removes [OF 1(2-4)] 1(1) by (metis of_nat_1 one_less_numeral_iff semiring_norm(76))
qed

section \<open>The random helpers\<close>

text \<open>
  \<open>random_handles\<close> gives a permutation of the handles, and every permutation for some random
  numbers, so that a test can meet its servers in any order.
\<close>
theorem random_handles_permutes:
  "mset ys = mset xs \<longleftrightarrow> (\<exists>js. (\<forall>i < length xs. js i \<le> i) \<and> random_handles js xs = ys)"
proof
  assume "mset ys = mset xs"
  moreover from this have "length ys = length xs" by (rule mset_eq_length)
  ultimately show "\<exists>js. (\<forall>i < length xs. js i \<le> i) \<and> random_handles js xs = ys"
    using shuffled_reaches [of ys xs "length xs"] by (auto simp: random_handles_def shuffled_def)
next
  assume "\<exists>js. (\<forall>i < length xs. js i \<le> i) \<and> random_handles js xs = ys"
  then show "mset ys = mset xs"
    using mset_shuffled [of "length xs" _ xs] by (auto simp: random_handles_def shuffled_def)
qed

text \<open>\<open>Randstring n\<close> returns \<open>n\<close> characters of the alphabet; the padding is never reached.\<close>
theorem Randstring_length:
  assumes "length bs = 2 * n" "\<forall>b\<in>set bs. b < 256"
  shows "\<exists>s. Randstring n bs = Some s \<and> length s = n \<and> set s \<subseteq> set b64_alphabet"
  using b64_prefix [OF assms(2), of n] assms(1) by (simp add: Randstring_def go_simps)

theorem Randstring_length_witness: "Randstring 3 [1, 2, 3, 4, 5, 6] = Some ''AQI''"
proof -
  have "\<exists>s. Randstring 3 [1, 2, 3, 4, 5, 6] = Some s \<and> length s = 3 \<and> set s \<subseteq> set b64_alphabet"
    by (rule Randstring_length) simp_all
  then show ?thesis by (auto simp: Randstring_def b64_char_def b64_alphabet_def go_upto_def)
qed


section \<open>A restart\<close>

text \<open>
  A shutdown and a restart of a group: every service is killed once, while the group is down no
  server of it is registered, and afterwards every server is up as before with a service made from
  what its persister held, so that nothing that was saved is lost.
\<close>
theorem restart_keeps_persisted:
  assumes "group_ok (int n) sg" "fresh_ends rnd tn"
  shows "\<exists>sg1 rn1 sg2 tn2. Shutdown (sg, tn_net tn) = Some (sg1, rn1, concat (map ts_svcs (sg_srvs sg))) \<and>
    (\<forall>i<n. server_of (ServerName (sg_gid sg) (int i)) rn1 = None) \<and>
    StartServers rnd mks mk (sg1, tn\<lparr>tn_net := rn1\<rparr>) = Some (sg2, tn2) \<and> sg_gid sg2 = sg_gid sg \<and>
    group_up mks (\<lambda>i. last_saved (sg_srvs sg ! i)) n sg2 (tn_net tn2)"
proof -
  have n: "length (sg_srvs sg) = n" using group_okD(2) [OF assms(1)] by simp
  then have all: "grp_all sg = map int [0..<n]" by (simp add: grp_all_def peer_ids_upt)
  have ids: "set (map int [0..<n]) = {0..<int n}" by (simp flip: peer_ids_upt)
  have svcs: "concat (map (\<lambda>i. ts_svcs (sg_srvs sg ! nat i)) (map int [0..<n])) = concat (map ts_svcs (sg_srvs sg))"
    by (rule arg_cong [of _ _ concat]) (rule nth_equalityI, simp_all add: n)
  obtain sg1 rn1 where 1: "Shutdown (sg, tn_net tn) = Some (sg1, rn1, concat (map ts_svcs (sg_srvs sg)))"
    "group_ok (int n) sg1" "sg_gid sg1 = sg_gid sg" "map ts_saved (sg_srvs sg1) = map ts_saved (sg_srvs sg)"
    "net_ends rn1 = net_ends (tn_net tn)"
    "\<forall>x. server_of x rn1 = (if x \<in> ServerName (sg_gid sg) ` {0..<int n} then None else server_of x (tn_net tn))"
    using shutdown_loop_eq [OF assms(1), of "map int [0..<n]" "tn_net tn"] all ids svcs
    by (auto simp: Shutdown_def distinct_map)
  have fresh: "fresh_ends rnd (tn\<lparr>tn_net := rn1\<rparr>)" using assms(2) 1(5) by (simp add: fresh_ends_def)
  have "length (sg_srvs sg1) = n" using group_okD(2) [OF 1(2)] by simp
  then have saved: "last_saved (sg_srvs sg1 ! i) = last_saved (sg_srvs sg ! i)" if "i < n" for i
    using arg_cong [OF 1(4), of "\<lambda>l. l ! i"] that n by (simp add: last_saved_def)
  obtain sg2 tn2 where 2: "StartServers rnd mks mk (sg1, tn\<lparr>tn_net := rn1\<rparr>) = Some (sg2, tn2)"
    "sg_gid sg2 = sg_gid sg" "group_up mks (\<lambda>i. last_saved (sg_srvs sg1 ! i)) n sg2 (tn_net tn2)"
    using StartServers_connects [OF fresh 1(2), of mks mk] 1(3) by auto
  have "group_up mks (\<lambda>i. last_saved (sg_srvs sg ! i)) n sg2 (tn_net tn2)"
    using 2(3) saved by (simp add: group_up_def)
  then show ?thesis using 1(1,6) 2(1,2) by (intro exI conjI) auto
qed

section \<open>The other groups\<close>

text \<open>
  What a start of a group leaves alone: the ends with drawn names still lead where they did, those
  enabled still are, and no server goes away.
\<close>

definition net_keeps :: "nat \<Rightarrow> (nat \<Rightarrow> string) \<Rightarrow> string Network \<Rightarrow> string Network \<Rightarrow> bool" where
  "net_keeps r rnd rn rn' \<longleftrightarrow>
     (\<forall>k<r. connections rn' (rnd k) = connections rn (rnd k) \<and> (is_enabled (rnd k) rn \<longrightarrow> is_enabled (rnd k) rn')) \<and>
     (\<forall>x. server_of x rn \<noteq> None \<longrightarrow> server_of x rn' \<noteq> None)"

lemma net_keeps_refl [simp]: "net_keeps r rnd rn rn"
  by (simp add: net_keeps_def)

lemma net_keeps_trans:
  "net_keeps r rnd a b \<Longrightarrow> net_keeps r' rnd b c \<Longrightarrow> r \<le> r' \<Longrightarrow> net_keeps r rnd a c"
  by (simp add: net_keeps_def)

lemma make_ends_keeps:
  "make_ends rnd gid js tn = Some (es, tn') \<Longrightarrow> inj rnd \<Longrightarrow>
     net_keeps (tn_rand tn) rnd (tn_net tn) (tn_net tn') \<and> tn_rand tn \<le> tn_rand tn'"
proof (induction js arbitrary: tn es)
  case (Cons j js)
  let ?name = "rnd (tn_rand tn)"
  from Cons.prems(1) obtain rn e es' where 1: "MakeEnd ?name (tn_net tn) = Some (rn, e)"
    "make_ends rnd gid js (tn\<lparr>tn_net := Connect ?name (ServerName gid j) rn, tn_rand := tn_rand tn + 1\<rparr>) = Some (es', tn')"
    by (auto simp: bind_eq_Some_conv' Let_def)
  have "net_keeps (tn_rand tn) rnd (tn_net tn) (Connect ?name (ServerName gid j) rn)"
    using 1(1) Cons.prems(2)
    by (auto simp: net_keeps_def MakeEnd_def Connect_def is_enabled_def server_of_def inj_eq Let_def split: if_splits)
  then show ?case using Cons.IH [OF 1(2) Cons.prems(2)] net_keeps_trans [of "tn_rand tn"] by fastforce
qed simp

lemma StartServer_keeps:
  assumes "StartServer rnd mks mk i (sg, tn) = Some (sg', tn')" "inj rnd"
  shows "net_keeps (tn_rand tn) rnd (tn_net tn) (tn_net tn') \<and> tn_rand tn \<le> tn_rand tn'"
proof -
  obtain js es tn1 p where "make_ends rnd (sg_gid sg) js tn = Some (es, tn1)"
    "tn_net tn' = AddServer (ServerName (sg_gid sg) i) p (tn_net tn1)" "tn_rand tn' = tn_rand tn1"
    using assms(1) by (auto simp: StartServer_def startServer_def makeServer_def bind_eq_Some_conv' Let_def)
  then show ?thesis using make_ends_keeps assms(2) by (fastforce simp: net_keeps_def)
qed

lemma start_all_keeps:
  "for_each (StartServer rnd mks mk) is (sg, tn) = Some (sg', tn') \<Longrightarrow> inj rnd \<Longrightarrow>
     net_keeps (tn_rand tn) rnd (tn_net tn) (tn_net tn') \<and> tn_rand tn \<le> tn_rand tn'"
proof (induction "is" arbitrary: sg tn)
  case (Cons i "is")
  then obtain sg1 tn1 where 1: "StartServer rnd mks mk i (sg, tn) = Some (sg1, tn1)"
    "for_each (StartServer rnd mks mk) is (sg1, tn1) = Some (sg', tn')" by (auto simp: bind_eq_Some_conv')
  show ?case
    using StartServer_keeps [OF 1(1) Cons.prems(2)] Cons.IH [OF 1(2) Cons.prems(2)] net_keeps_trans by fastforce
qed simp

text \<open>Connecting only enables ends.\<close>

lemma enable_ends_mono: "enable_ends js names con rn = Some rn' \<Longrightarrow> is_enabled e rn \<Longrightarrow> is_enabled e rn'"
  by (induction js arbitrary: rn) (auto simp: bind_eq_Some_conv' is_enabled_def Enable_def split: if_splits)

lemma enable_incoming_mono: "enable_incoming i js sg rn = Some rn' \<Longrightarrow> is_enabled e rn \<Longrightarrow> is_enabled e rn'"
  by (induction js arbitrary: rn) (auto simp: bind_eq_Some_conv' is_enabled_def Enable_def split: if_splits)

lemma connect_all_mono: "for_each ConnectOne is (sg, rn) = Some (sg', rn') \<Longrightarrow> is_enabled e rn \<Longrightarrow> is_enabled e rn'"
proof (induction "is" arbitrary: sg rn)
  case (Cons i "is")
  then obtain sg1 rn1 where 1: "ConnectOne i (sg, rn) = Some (sg1, rn1)"
    "for_each ConnectOne is (sg1, rn1) = Some (sg', rn')" by (auto simp: bind_eq_Some_conv')
  have "is_enabled e rn1"
    using 1(1) Cons.prems(2)
    by (auto simp: ConnectOne_def grp_connect_def bind_eq_Some_conv' Let_def dest: enable_ends_mono enable_incoming_mono)
  then show ?case by (rule Cons.IH [OF 1(2)])
qed simp

lemma make_srvs_keeps:
  fixes srvs :: "('r, 's, 'v) TServer list"
  shows "make_srvs rnd gid n is tn = Some (srvs, tn') \<Longrightarrow> inj rnd \<Longrightarrow>
     net_keeps (tn_rand tn) rnd (tn_net tn) (tn_net tn') \<and> tn_rand tn \<le> tn_rand tn'"
proof (induction "is" arbitrary: tn srvs)
  case (Cons i "is")
  then obtain es tn1 and srvs1 :: "('r, 's, 'v) TServer list" where 1: "make_ends rnd gid (peer_ids n) tn = Some (es, tn1)"
    "make_srvs rnd gid n is tn1 = Some (srvs1, tn')" by (auto simp: makeServer_def bind_eq_Some_conv')
  show ?case
    using make_ends_keeps [OF 1(1) Cons.prems(2)] Cons.IH [OF 1(2) Cons.prems(2)] net_keeps_trans by fastforce
qed simp

lemma MakeGroupStart_keeps:
  fixes cfg :: "('r, 's, 'v, 'w, 'a, 'x) Config"
  assumes "MakeGroupStart rnd gid n mks mk cfg = Some cfg'" "inj rnd"
  shows "net_keeps (tn_rand (cf_tn cfg)) rnd (tn_net (cf_tn cfg)) (tn_net (cf_tn cfg'))"
    "tn_rand (cf_tn cfg) \<le> tn_rand (cf_tn cfg')" "g \<noteq> gid \<Longrightarrow> cfg_Group g cfg' = cfg_Group g cfg"
proof -
  obtain srvs :: "('r, 's, 'v) TServer list" and tn1 sg1 sg2 tn2 sg3 rn3 where 1: "make_srvs rnd gid n (peer_ids n) (cf_tn cfg) = Some (srvs, tn1)"
    "for_each (StartServer rnd mks mk) (grp_all sg1) (sg1, tn1) = Some (sg2, tn2)"
    "for_each ConnectOne (grp_all sg2) (sg2, tn_net tn2) = Some (sg3, rn3)" "cf_tn cfg' = tn2\<lparr>tn_net := rn3\<rparr>"
    "cf_groups cfg' = (cf_groups cfg)(gid \<mapsto> sg3)"
    using assms(1) by (auto simp: MakeGroupStart_def MakeGroup_def makeSrvGrp_def lookupGroup_def StartServers_def
        start_all_def ConnectAll_def bind_eq_Some_conv')
  have "same_wires (tn_net tn2) rn3" by (rule connect_all_wires [OF 1(3)])
  then have "net_keeps (tn_rand tn2) rnd (tn_net tn2) rn3"
    using connect_all_mono [OF 1(3)] by (auto simp: net_keeps_def same_wires_def server_of_def)
  then show "net_keeps (tn_rand (cf_tn cfg)) rnd (tn_net (cf_tn cfg)) (tn_net (cf_tn cfg'))"
    "tn_rand (cf_tn cfg) \<le> tn_rand (cf_tn cfg')"
    using make_srvs_keeps [OF 1(1) assms(2)] start_all_keeps [OF 1(2) assms(2)] 1(4)
    by (auto intro: net_keeps_trans)
  show "cfg_Group g cfg' = cfg_Group g cfg" if "g \<noteq> gid" using that 1(5) by (simp add: cfg_Group_def lookupGroup_def)
qed

lemma group_up_keeps:
  assumes up: "group_up mks ps n sg rn" and drawn: "drawn r rnd n sg" and keeps: "net_keeps r rnd rn rn'"
  shows "group_up mks ps n sg rn'"
  unfolding group_up_def
proof (intro conjI allI impI)
  note up' = up [unfolded group_up_def]
  show "group_ok (int n) sg" using up' by blast
  fix i assume i: "i < n"
  then show "IsConnected sg (int i) = Some True" "ts_saved (sg_srvs sg ! i) = Some (ps i)"
    "map ce_endname (ts_clntEnds (sg_srvs sg ! i)) = ts_endNames (sg_srvs sg ! i)"
    "ts_svcs (sg_srvs sg ! i) = mks (ts_clntEnds (sg_srvs sg ! i)) (sg_gid sg) (int i) (ps i)"
    using up' by blast+
  fix j assume j: "j < n"
  obtain k where k: "k < r" "end_name sg (int i) (int j) = rnd k" using drawn i j unfolding drawn_def by blast
  have "is_enabled (end_name sg (int i) (int j)) rn"
    "connections rn (end_name sg (int i) (int j)) = Some (Some (ServerName (sg_gid sg) (int j)))"
    "server_of (ServerName (sg_gid sg) (int j)) rn \<noteq> None"
    using up' i j by blast+
  then show "is_enabled (end_name sg (int i) (int j)) rn'"
    "connections rn' (end_name sg (int i) (int j)) = Some (Some (ServerName (sg_gid sg) (int j)))"
    "server_of (ServerName (sg_gid sg) (int j)) rn' \<noteq> None"
    using keeps k unfolding net_keeps_def by simp_all
qed

text \<open>So a group that is up stays up when another one is started.\<close>

theorem MakeGroupStart_others:
  assumes "MakeGroupStart rnd gid n mks mk cfg = Some cfg'" "inj rnd" "g \<noteq> gid"
    and "cfg_Group g cfg = Some sg" "group_up mks' ps m sg (tn_net (cf_tn cfg))" "drawn (tn_rand (cf_tn cfg)) rnd m sg"
  shows "cfg_Group g cfg' = Some sg \<and> group_up mks' ps m sg (tn_net (cf_tn cfg')) \<and>
    drawn (tn_rand (cf_tn cfg')) rnd m sg"
proof -
  note keeps = MakeGroupStart_keeps [OF assms(1,2)]
  have "group_up mks' ps m sg (tn_net (cf_tn cfg'))" by (rule group_up_keeps [OF assms(5,6) keeps(1)])
  moreover have "drawn (tn_rand (cf_tn cfg')) rnd m sg"
    using assms(6) keeps(2) unfolding drawn_def by (meson image_mono lessThan_subset_iff subsetD)
  ultimately show ?thesis using keeps(3) [OF assms(3)] assms(4) by simp
qed

end
