(* ===== verification/RsmSystem.thy ===== *)
theory RsmSystem
  imports RaftTheorems Rsm
begin

text \<open>
  The whole stack of a replicated service: a cluster of Raft peers (\<open>raft1/raft.go\<close>), each with the
  replicated state machine layer (\<open>kvraft1/rsm/rsm.go\<close>) and a service on top of it.  The reader of a
  server takes the messages its applier sends, executes them, answers the waiting \<open>Submit\<close> and
  hands snapshots back to its peer; \<open>Submit\<close>s come and go; servers crash and restart from what
  they persisted, with a new service.

  The theory proves for any service that satisfies the locale \<open>durable_machine\<close> that there is one
  log of requests all servers execute, whatever they received as commands and what as snapshots,
  that the reader neither fails nor blocks, and that every \<open>OK\<close> answer of a \<open>Submit\<close> is the result
  of executing that log up to the call's index.
\<close>

section \<open>The system\<close>

text \<open>
  Where a call of \<open>Submit\<close> is: waiting in the \<open>select\<close>; after its ticker, with what \<open>GetState\<close>
  answered; with a reply in hand and the table entry still to delete; or returned.
\<close>

datatype 'rep call_pc =
    InSelect
  | Ticked "int \<times> bool"
  | GotReply "'rep opReply"
  | Returned "'rep opReply"

record ('req, 'rep) call =
  call_index :: int
  call_term :: int
  call_req :: 'req
  call_pc :: "'rep call_pc"

text \<open>
  \<open>taken s\<close> is how many messages of \<open>applyCh\<close> the reader of \<open>s\<close> has taken, \<open>snapping s\<close> the
  call of \<open>Snapshot\<close> it is about to make, and \<open>calls s\<close> the calls by the names of their channels.
\<close>

record ('req, 'rep, 's, 'b) rsys =
  rc :: "('req Op, 'b) cluster"
  svc :: "int \<Rightarrow> ('rep, 's) RSM"
  taken :: "int \<Rightarrow> nat"
  snapping :: "int \<Rightarrow> (int \<times> 'b list) option"
  calls :: "int \<Rightarrow> nat \<Rightarrow> ('req, 'rep) call option"

definition start_svc ::
    "('b list \<Rightarrow> 's \<Rightarrow> 's) \<Rightarrow> int \<Rightarrow> (int \<Rightarrow> 's) \<Rightarrow> int \<Rightarrow> ('c, 'b) Raft \<Rightarrow> ('rep, 's) RSM" where
  "start_svc Rest mrs ini s rf = MakeRSM Rest s (persister rf) mrs (ini s)"

definition rsys_init ::
    "('b list \<Rightarrow> 's \<Rightarrow> 's) \<Rightarrow> int \<Rightarrow> (int \<Rightarrow> 's) \<Rightarrow> int \<Rightarrow> ('req, 'rep, 's, 'b) rsys" where
  "rsys_init Rest mrs ini n =
     \<lparr>rc = init_cluster n, svc = (\<lambda>s. start_svc Rest mrs ini s (srv (init_cluster n) s :: ('req Op, 'b) Raft)),
      taken = (\<lambda>_. 0), snapping = (\<lambda>_. None), calls = (\<lambda>_. Map.empty)\<rparr>"

definition set_call ::
    "int \<Rightarrow> nat \<Rightarrow> ('req, 'rep) call \<Rightarrow> ('req, 'rep, 's, 'b) rsys \<Rightarrow> ('req, 'rep, 's, 'b) rsys" where
  "set_call s ch c S = S\<lparr>calls := (calls S)(s := (calls S s)(ch \<mapsto> c))\<rparr>"

definition set_svc ::
    "int \<Rightarrow> ('rep, 's) RSM \<Rightarrow> ('req, 'rep, 's, 'b) rsys \<Rightarrow> ('req, 'rep, 's, 'b) rsys" where
  "set_svc s r S = S\<lparr>svc := (svc S)(s := r)\<rparr>"

text \<open>The server comes up again with a new service; its callers are gone with the process.\<close>

definition sys_crash ::
    "('b list \<Rightarrow> 's \<Rightarrow> 's) \<Rightarrow> int \<Rightarrow> (int \<Rightarrow> 's) \<Rightarrow> int \<Rightarrow> ('req, 'rep, 's, 'b) rsys \<Rightarrow>
     ('req, 'rep, 's, 'b) rsys" where
  "sys_crash Rest mrs ini s S =
     S\<lparr>rc := crash s (rc S), svc := (svc S)(s := start_svc Rest mrs ini s (srv (crash s (rc S)) s)),
       taken := (taken S)(s := length (applyCh (rc S) s)), snapping := (snapping S)(s := None),
       calls := (calls S)(s := Map.empty)\<rparr>"

inductive rsys_step ::
    "('s \<Rightarrow> 'req \<Rightarrow> 's \<times> 'rep) \<Rightarrow> ('s \<Rightarrow> 'b list) \<Rightarrow> ('b list \<Rightarrow> 's \<Rightarrow> 's) \<Rightarrow> int \<Rightarrow> (int \<Rightarrow> 's) \<Rightarrow>
     int \<Rightarrow> ('req, 'rep, 's, 'b) rsys \<Rightarrow> ('req, 'rep, 's, 'b) rsys \<Rightarrow> bool"
  for DoOp :: "'s \<Rightarrow> 'req \<Rightarrow> 's \<times> 'rep" and Snap :: "'s \<Rightarrow> 'b list" and Rest :: "'b list \<Rightarrow> 's \<Rightarrow> 's"
    and mrs :: int and ini :: "int \<Rightarrow> 's" and n :: int where
  s_peers: "peer_step n (rc S) D \<Longrightarrow> rsys_step DoOp Snap Rest mrs ini n S (S\<lparr>rc := D\<rparr>)"
| s_submit: "peer n s \<Longrightarrow>
     Start (Some \<lparr>op_Me = rsm_me (svc S s), op_Req = req\<rparr>) (srv (rc S) s) = (rf, index, term, isLeader) \<Longrightarrow>
     submit_start (index, term, isLeader) (svc S s) = (r, ans) \<Longrightarrow>
     rsys_step DoOp Snap Rest mrs ini n S
       (set_call s (next_chan (svc S s))
          \<lparr>call_index = index, call_term = term, call_req = req,
           call_pc = (case ans of None \<Rightarrow> InSelect | Some a \<Rightarrow> Returned a)\<rparr>
          (set_svc s r (S\<lparr>rc := set_srv s rf (rc S)\<rparr>)))"
| s_recv: "peer n s \<Longrightarrow> calls S s ch = Some c \<Longrightarrow> call_pc c = InSelect \<Longrightarrow>
     submit_recv ch (svc S s) = Some (r, rep) \<Longrightarrow>
     rsys_step DoOp Snap Rest mrs ini n S (set_call s ch (c\<lparr>call_pc := GotReply rep\<rparr>) (set_svc s r S))"
| s_recv_end: "peer n s \<Longrightarrow> calls S s ch = Some c \<Longrightarrow> call_pc c = GotReply rep \<Longrightarrow>
     rsys_step DoOp Snap Rest mrs ini n S
       (set_call s ch (c\<lparr>call_pc := Returned rep\<rparr>) (set_svc s (submit_delete (call_index c) (svc S s)) S))"
| s_tick: "peer n s \<Longrightarrow> calls S s ch = Some c \<Longrightarrow> call_pc c = InSelect \<Longrightarrow>
     rsys_step DoOp Snap Rest mrs ini n S
       (set_call s ch (c\<lparr>call_pc := Ticked (GetState (srv (rc S) s))\<rparr>) S)"
| s_tick_end: "peer n s \<Longrightarrow> calls S s ch = Some c \<Longrightarrow> call_pc c = Ticked gs \<Longrightarrow>
     submit_tick gs (call_term c) (call_index c) (svc S s) = (r, ans) \<Longrightarrow>
     rsys_step DoOp Snap Rest mrs ini n S
       (set_call s ch (c\<lparr>call_pc := (case ans of None \<Rightarrow> InSelect | Some a \<Rightarrow> Returned a)\<rparr>) (set_svc s r S))"
| s_read: "peer n s \<Longrightarrow> taken S s < length (applyCh (rc S) s) \<Longrightarrow> snapping S s = None \<Longrightarrow>
     reader_apply DoOp Snap Rest pb (applyCh (rc S) s ! taken S s) (svc S s) = Some (r, snap) \<Longrightarrow>
     rsys_step DoOp Snap Rest mrs ini n S
       ((set_svc s r S)\<lparr>taken := (taken S)(s := taken S s + 1), snapping := (snapping S)(s := snap)\<rparr>)"
| s_snapshot: "peer n s \<Longrightarrow> snapping S s = Some (index, data) \<Longrightarrow>
     Snapshot index data (srv (rc S) s) = Some rf \<Longrightarrow>
     rsys_step DoOp Snap Rest mrs ini n S
       (S\<lparr>rc := set_srv s rf (rc S), snapping := (snapping S)(s := None)\<rparr>)"
| s_crash: "peer n s \<Longrightarrow> rsys_step DoOp Snap Rest mrs ini n S (sys_crash Rest mrs ini s S)"

text \<open>
  The runs in which no newer snapshot is installed at a peer while its applier is sending an older
  one (\<open>RaftTheorems.applier_skips_newer_snapshot\<close> shows that the service misses commands otherwise).
\<close>

definition in_order :: "('c, 's) cluster \<Rightarrow> ('c, 's) cluster \<Rightarrow> bool" where
  "in_order C D \<longleftrightarrow> (\<forall>s. applying C s \<and> applying D s \<longrightarrow>
     lastIncludedIndex (srv D s) = lastIncludedIndex (srv C s))"

definition rsys_steps where
  "rsys_steps DoOp Snap Rest mrs ini n =
     (\<lambda>S T. rsys_step DoOp Snap Rest mrs ini n S T \<and> in_order (rc S) (rc T))\<^sup>*\<^sup>*"

lemma rsys_steps_refl [simp]: "rsys_steps DoOp Snap Rest mrs ini n S S"
  by (simp add: rsys_steps_def)

lemma rsys_steps_step:
  "rsys_steps DoOp Snap Rest mrs ini n S T \<Longrightarrow> rsys_step DoOp Snap Rest mrs ini n T U \<Longrightarrow>
   in_order (rc T) (rc U) \<Longrightarrow> rsys_steps DoOp Snap Rest mrs ini n S U"
  unfolding rsys_steps_def by (simp add: rtranclp.rtrancl_into_rtrancl)

lemma rsys_steps_trans:
  "rsys_steps DoOp Snap Rest mrs ini n S T \<Longrightarrow> rsys_steps DoOp Snap Rest mrs ini n T U \<Longrightarrow>
   rsys_steps DoOp Snap Rest mrs ini n S U"
  unfolding rsys_steps_def by (rule rtranclp_trans)

section \<open>What the sections of a peer do to applied entries and snapshots\<close>

text \<open>Every entry but the first, which stands for the snapshot, has a command.\<close>

definition cmds :: "'c LogEntry list \<Rightarrow> bool" where
  "cmds lg \<longleftrightarrow> (\<forall>e\<in>set (tl lg). le_Command e \<noteq> None)"

definition cmds_all :: "'c LogEntry list \<Rightarrow> bool" where
  "cmds_all lg \<longleftrightarrow> (\<forall>e\<in>set lg. le_Command e \<noteq> None)"

text \<open>A section that leaves the applied index, the snapshot and the commands alone.\<close>

definition quiet :: "('c, 's) Raft \<Rightarrow> ('c, 's) Raft \<Rightarrow> bool" where
  "quiet rf rf' \<longleftrightarrow> lastApplied rf' = lastApplied rf \<and> lastIncludedIndex rf' = lastIncludedIndex rf \<and>
     ps_snapshot (persister rf') = ps_snapshot (persister rf) \<and> (cmds (log rf) \<longrightarrow> cmds (log rf'))"

lemma quietI:
  "lastApplied rf' = lastApplied rf \<Longrightarrow> lastIncludedIndex rf' = lastIncludedIndex rf \<Longrightarrow>
   ps_snapshot (persister rf') = ps_snapshot (persister rf) \<Longrightarrow> log rf' = log rf \<Longrightarrow> quiet rf rf'"
  by (simp add: quiet_def)

lemma quiet_refl [simp]: "quiet rf rf"
  by (simp add: quiet_def)

lemma cmds_drop: "cmds lg \<Longrightarrow> 0 < k \<Longrightarrow> cmds_all (drop k lg)"
  by (cases lg; cases k) (auto simp: cmds_def cmds_all_def dest: in_set_dropD)

lemma cmds_all_cmds: "cmds_all lg \<Longrightarrow> cmds lg"
  by (cases lg) (simp_all add: cmds_def cmds_all_def)

lemma cmds_drop0: "cmds lg \<Longrightarrow> cmds (drop k lg)"
  by (cases k) (auto intro: cmds_all_cmds cmds_drop)

lemma cmds_append:
  "cmds lg \<Longrightarrow> cmds_all es \<Longrightarrow> lg \<noteq> [] \<Longrightarrow> cmds (lg @ es)"
  by (auto simp: cmds_def cmds_all_def)

lemma cmds_take: "cmds lg \<Longrightarrow> cmds (take k lg)"
  by (cases lg; cases k) (auto simp: cmds_def dest: in_set_takeD)

lemma merged_log_cmds:
  assumes "merged_log lg k ents lg'" "cmds lg" "cmds_all ents" "lg \<noteq> []" "0 < k"
  shows "cmds lg'"
  using assms(1) unfolding merged_log_def
proof
  assume "\<exists>m<length ents. agree_upto lg k ents m \<and> lg' = take (k + m) lg @ drop m ents \<and>
    (k + m < length lg \<longrightarrow> le_Term (lg ! (k + m)) \<noteq> le_Term (ents ! m))"
  then obtain m where "lg' = take (k + m) lg @ drop m ents" by blast
  moreover have "cmds_all (drop m ents)" using assms(3) by (auto simp: cmds_all_def dest: in_set_dropD)
  moreover have "take (k + m) lg \<noteq> []" using assms(4,5) by simp
  ultimately show ?thesis using cmds_append cmds_take assms(2) by metis
qed (use assms in simp)

lemma ticker_fire_quiet: "ticker_fire record rf = (rf', t) \<Longrightarrow> quiet rf rf'"
  by (auto simp: ticker_fire_def Let_def intro: quietI split: if_splits)

lemma RequestVote_quiet:
  "raft_wf n i rf \<Longrightarrow> RequestVote args rf = Some (rf', reply) \<Longrightarrow> quiet rf rf'"
  by (cases rule: RequestVote_cases [where args = args]) (auto intro!: quietI)

lemma ask_reply_quiet:
  "raft_wf n i rf \<Longrightarrow> ask_reply t reply num rf = Some (rf', num') \<Longrightarrow> quiet rf rf'"
  by (cases rule: ask_reply_cases [of _ _ _ reply t num]) (auto intro!: quietI)

lemma hb_append_reply_quiet:
  assumes "raft_wf n i rf" "0 \<le> p" "p < n" "hb_append_reply t p args reply rf = Some rf'"
  shows "quiet rf rf'"
  using assms(1-3)
  by (cases rule: hb_append_reply_cases [of _ _ _ _ reply t args])
    (use assms(4) in \<open>auto intro!: quietI\<close>)

lemma hb_snapshot_reply_quiet:
  assumes "raft_wf n i rf" "0 \<le> p" "p < n" "hb_snapshot_reply t p args reply rf = Some rf'"
  shows "quiet rf rf'"
  using assms(1-3)
  by (cases rule: hb_snapshot_reply_cases [of _ _ _ _ reply t args])
    (use assms(4) in \<open>auto intro!: quietI\<close>)

lemma hb_send_effect:
  assumes "raft_wf n i rf" "0 \<le> p" "p < n" "hb_send t p rf = Some (rf', m)"
  shows "quiet rf rf'"
    and "m = HbSnapshot sargs \<Longrightarrow> is_LastIncludedIndex sargs = lastIncludedIndex rf \<and>
           is_Data sargs = ps_snapshot (persister rf)"
    and "m = HbAppend args \<Longrightarrow> cmds (log rf) \<Longrightarrow> cmds_all (ae_Entries args)"
proof -
  have fields: "rf1 = rf\<lparr>nextIndex := nextIndex rf1\<rparr> \<Longrightarrow> quiet rf rf1" for rf1
    by (cases rf, cases rf1) (auto intro!: quietI)
  from assms(1-3) have "quiet rf rf' \<and>
    (m = HbSnapshot sargs \<longrightarrow> is_LastIncludedIndex sargs = lastIncludedIndex rf \<and>
       is_Data sargs = ps_snapshot (persister rf)) \<and>
    (m = HbAppend args \<longrightarrow> cmds (log rf) \<longrightarrow> cmds_all (ae_Entries args))"
    by (cases rule: hb_send_cases [of _ _ _ _ t])
      (use assms(4) fields in \<open>auto intro!: cmds_drop\<close>)
  then show "quiet rf rf'"
    and "m = HbSnapshot sargs \<Longrightarrow> is_LastIncludedIndex sargs = lastIncludedIndex rf \<and>
           is_Data sargs = ps_snapshot (persister rf)"
    and "m = HbAppend args \<Longrightarrow> cmds (log rf) \<Longrightarrow> cmds_all (ae_Entries args)" by blast+
qed

lemma AppendEntries_quiet:
  assumes "raft_wf n i rf" "0 \<le> ae_PreLogIndex args" "cmds_all (ae_Entries args)"
    "AppendEntries args rf = Some (rf', reply)"
  shows "quiet rf rf'"
  using assms(1,2)
proof (cases rule: AppendEntries_cases)
  case (accept lg c)
  have "log rf \<noteq> []" using assms(1) by auto
  then have "cmds (log rf) \<Longrightarrow> cmds lg"
    using merged_log_cmds [OF accept(5) _ assms(3)] by simp
  with accept(7) assms(4) show ?thesis by (auto simp: quiet_def)
qed (use assms(4) in \<open>auto intro!: quietI\<close>)

lemma Start_effect:
  assumes "raft_wf n i rf" "Start (Some c) rf = (rf', index, term, isLeader)"
  shows "quiet rf rf'" "isLeader \<Longrightarrow> 1 \<le> index"
proof -
  have "log rf \<noteq> []" using assms(1) by auto
  then have "cmds (log rf) \<Longrightarrow> cmds (log rf @ [\<lparr>le_Term = currentTerm rf, le_Command = Some c\<rparr>])"
    by (intro cmds_append) (simp_all add: cmds_all_def)
  then show "quiet rf rf'"
    using assms(2) by (auto simp: Start_def Let_def quiet_def split: if_splits)
  have "0 \<le> lastIncludedIndex rf" "0 < length (log rf)" using assms(1) by auto
  then have "1 \<le> lastIncludedIndex rf + int (length (log rf))" by linarith
  then show "isLeader \<Longrightarrow> 1 \<le> index"
    using assms(2) by (auto simp: Start_def Let_def lastLogIndex_def split: if_splits)
qed

lemma InstallSnapshot_effect:
  assumes "raft_wf n i rf" "InstallSnapshot args rf = Some (rf', reply)"
  shows "quiet rf rf' \<or> lastApplied rf' = lastApplied rf \<and> (cmds (log rf) \<longrightarrow> cmds (log rf')) \<and>
     lastIncludedIndex rf < is_LastIncludedIndex args \<and>
     lastIncludedIndex rf' = is_LastIncludedIndex args \<and> ps_snapshot (persister rf') = is_Data args"
  using assms(1)
proof (cases rule: InstallSnapshot_cases [where args = args])
  case (install rf1 k)
  obtain pz where rf1: "rf1 = (accept_leader (is_Term args) rf)
         \<lparr>log := (if k < length (log rf) \<and> le_Term (log rf ! k) = is_LastIncludeTerm args
                 then drop k (log rf)
                 else [\<lparr>le_Term = is_LastIncludeTerm args, le_Command = None\<rparr>]),
          lastIncludedIndex := is_LastIncludedIndex args,
          lastIncludeTerm := is_LastIncludeTerm args,
          commitIndex := max (commitIndex rf) (is_LastIncludedIndex args),
          persister := pz\<rparr>" using install(5) by blast
  have "rf' = rf1" using install(4) assms(2) by simp
  then show ?thesis
    using install(2,7) cmds_drop0 [of "log rf" k] by (auto simp: rf1 cmds_def)
qed (use assms(2) in \<open>auto intro!: quietI\<close>)

lemma Snapshot_effect:
  assumes "raft_wf n i rf" "Snapshot index data rf = Some rf'"
  shows "quiet rf rf' \<or> lastApplied rf' = lastApplied rf \<and> (cmds (log rf) \<longrightarrow> cmds (log rf')) \<and>
     lastIncludedIndex rf < index \<and> lastIncludedIndex rf' = index \<and> ps_snapshot (persister rf') = data"
  using assms(1)
proof (cases rule: Snapshot_cases [where index = index and snap = data])
  case (cut rf1 k)
  obtain pz where rf1: "rf1 = rf\<lparr>lastIncludeTerm := le_Term (log rf ! k), lastIncludedIndex := index,
               log := drop k (log rf), persister := pz\<rparr>" using cut(6) by blast
  have "rf' = rf1" using cut(1) assms(2) by simp
  then show ?thesis
    using cut(2,8) cmds_drop0 [of "log rf" k] by (auto simp: rf1)
qed (use assms(2) in \<open>auto intro!: quietI\<close>)

section \<open>The applier\<close>

lemma commit_le_last:
  assumes inv: "Inv n C g" and s: "peer n s"
  shows "commitIndex (srv C s) \<le> lastLogIndex (srv C s)"
proof -
  obtain m where "fst m = commitIndex (srv C s)" "anc (links g) m (last_node (srv C s))"
    using srv_invD(7) [OF InvD(2) [OF inv s]] by (auto simp: commit_inv_def)
  then show ?thesis
    using anc_fst_le [OF Inv_wf [OF inv]] fst_last_node [of "srv C s"] by metis
qed

text \<open>Its \<open>continue\<close> without a message is dead code, and a command is never \<open>nil\<close>.\<close>

lemma applier_effect:
  assumes inv: "Inv n C g" and s: "peer n s" and cm: "cmds (log (srv C s))"
    and run: "applier_step (srv C s) = Some (rf, act)"
  obtains (idle) "rf = srv C s" "act = ApplyIdle"
  | (snap) "rf = srv C s" "lastApplied (srv C s) < lastIncludedIndex (srv C s)"
      "act = ApplySnapshot (snapshot_msg (srv C s))"
  | (command) op where "lastIncludedIndex (srv C s) \<le> lastApplied (srv C s)"
      "rf = (srv C s)\<lparr>lastApplied := lastApplied (srv C s) + 1\<rparr>"
      "act = ApplyCommand (command_msg (lastApplied (srv C s) + 1) (Some op))"
proof -
  define R where "R = srv C s"
  note run = run [folded R_def]
  let ?si = "lastApplied R + 1 - lastIncludedIndex R"
  show thesis
  proof (cases "lastApplied R < commitIndex R")
    case False
    then show thesis using run by (intro idle) (simp_all add: applier_step_def R_def)
  next
    case more: True
    show thesis
    proof (cases "lastApplied R < lastIncludedIndex R")
      case True
      then show thesis using run more by (intro snap) (auto simp: applier_step_def R_def)
    next
      case False
      have "commitIndex R \<le> lastIncludedIndex R + int (length (log R)) - 1"
        using commit_le_last [OF inv s] by (simp add: R_def lastLogIndex_def)
      then have si: "0 < ?si" "?si < int (length (log R))" using more False by linarith+
      then have "log R ! nat ?si \<in> set (tl (log R))"
        by (cases "log R"; cases "nat ?si") auto
      then obtain op where op: "le_Command (log R ! nat ?si) = Some op"
        using cm by (auto simp: cmds_def R_def)
      show thesis
        by (rule command [of op])
          (use run more False si op in \<open>auto simp: applier_step_def sliceIndex_def Let_def go_simps R_def\<close>)
    qed
  qed
qed

lemma reply_waiting_free:
  assumes "\<And>ch. waiting R i = Some ch \<Longrightarrow> chans R ch = []"
  shows "\<exists>r. reply_waiting op i res R = Some r \<and> sm r = sm R \<and> rsm_me r = rsm_me R \<and>
    next_chan r = next_chan R \<and> waiting r = waiting R \<and>
    (\<forall>ch. chans r ch = (if waiting R i = Some ch \<and> op_Me op = rsm_me R then [(OK, Some res)] else chans R ch))"
  using assms by (cases "waiting R i") (auto simp: reply_waiting_def send_def)

section \<open>Without snapshots\<close>

text \<open>
  With \<open>maxraftstate = -1\<close> the service never takes a snapshot, so no peer ever has or sends one, and
  every run is in order.
\<close>

definition no_snaps :: "int \<Rightarrow> ('req, 'rep, 's, 'b) rsys \<Rightarrow> bool" where
  "no_snaps n S \<longleftrightarrow> reachable n (rc S) \<and> is_reqs (rc S) = {} \<and>
     (\<forall>s. lastIncludedIndex (srv (rc S) s) = 0 \<and> snapping S s = None \<and> maxraftstate (svc S s) = -1)"

lemma hb_send_no_snapshot:
  assumes wf: "raft_wf n i rf" and p: "0 \<le> p" "p < n" and zero: "lastIncludedIndex rf = 0"
  shows "hb_send t p rf \<noteq> Some (rf', HbSnapshot args)"
proof
  assume run: "hb_send t p rf = Some (rf', HbSnapshot args)"
  let ?nx = "min (max 1 (nextIndex rf ! nat p)) (lastLogIndex rf + 1)"
  have "0 \<le> lastLogIndex rf" using lastLogIndex_bounds [OF wf] by simp
  then have "1 \<le> ?nx" by simp
  moreover have "length (nextIndex rf) = nat n" using wf by auto
  ultimately show False
    using run p zero by (auto simp: hb_send_def clamp_next_eq [OF wf p] go_get_def nat_less_iff
        split: if_splits)
qed

lemma reader_apply_no_snapshot:
  assumes "reader_apply DoOp Snap Rest pb m r = Some (r', snap)" "maxraftstate r = -1"
  shows "snap = None \<and> maxraftstate r' = -1"
proof -
  have "maxraftstate r2 = maxraftstate r1" if "reply_waiting op i res r1 = Some r2" for op i res r1 r2
    using that by (auto simp: reply_waiting_def send_def split: option.splits if_splits)
  then show ?thesis
    using assms by (fastforce simp: reader_apply_def Let_def bind_eq_Some_conv' split: if_splits)
qed

lemma no_snaps_peer_step:
  assumes inv: "no_snaps n S" and run: "peer_step n (rc S) D"
  shows "is_reqs D = {} \<and> (\<forall>s. lastIncludedIndex (srv D s) = 0)"
proof -
  obtain g where g: "Inv n (rc S) g" using reachable_Inv inv unfolding no_snaps_def by blast
  have zero: "lastIncludedIndex (srv (rc S) s) = 0" "is_reqs (rc S) = {}" for s
    using inv by (simp_all add: no_snaps_def)
  note wf = srv_wf [OF g] and pb = peer_bounds and msg = msg_invD [OF InvD(8) [OF g]]
  have calm: "quiet (srv (rc S) s) rf \<Longrightarrow> lastIncludedIndex rf = 0" for s rf
    using zero by (simp add: quiet_def)
  from run show ?thesis
  proof cases
    case (p_timeout s rec rf t)
    then show ?thesis using zero calm [OF ticker_fire_quiet] by auto
  next
    case (p_rv_handle p c t args rf reply)
    then show ?thesis using zero calm [OF RequestVote_quiet [OF wf]] by auto
  next
    case (p_ask_recv c t p args reply rf num)
    then show ?thesis using zero calm [OF ask_reply_quiet [OF wf]] by auto
  next
    case (p_heartbeat l p t rf m)
    have "m \<noteq> HbSnapshot args" for args
      using hb_send_no_snapshot [OF wf [OF p_heartbeat(2)] pb [OF p_heartbeat(3)]] zero p_heartbeat(5) by blast
    moreover have "lastIncludedIndex rf = 0"
      by (rule calm [OF hb_send_effect(1) [OF wf [OF p_heartbeat(2)] pb [OF p_heartbeat(3)] p_heartbeat(5)]])
    ultimately show ?thesis using zero by (cases m) (auto simp: p_heartbeat(1) send_hb_def)
  next
    case (p_ae_handle p l t args rf reply)
    have "0 \<le> ae_PreLogIndex args" using msg(1) [OF p_ae_handle(3)] by (simp add: ae_ok_def)
    from wf [OF p_ae_handle(2)] this have "lastIncludedIndex rf = 0"
      by (cases rule: AppendEntries_cases) (use p_ae_handle(4) zero in auto)
    then show ?thesis using zero by (auto simp: p_ae_handle(1))
  next
    case (p_ae_recv l t p args reply rf)
    have "peer n p" using msg(2) [OF p_ae_recv(3)] by (simp add: ae_ok_def)
    then have "lastIncludedIndex rf = 0"
      using calm [OF hb_append_reply_quiet [OF wf [OF p_ae_recv(2)] pb]] p_ae_recv(4) by blast
    then show ?thesis using zero by (auto simp: p_ae_recv(1))
  next
    case (p_is_recv l t p args reply rf)
    have "peer n p" using msg(5) [OF p_is_recv(3)] by (simp add: is_ok_def)
    then have "lastIncludedIndex rf = 0"
      using calm [OF hb_snapshot_reply_quiet [OF wf [OF p_is_recv(2)] pb]] p_is_recv(4) by blast
    then show ?thesis using zero by (auto simp: p_is_recv(1))
  next
    case (p_apply s rf act)
    then have "lastIncludedIndex rf = 0"
      using zero by (auto simp: applier_step_def Let_def go_get_def split: if_splits)
    then show ?thesis using zero by (auto simp: p_apply(1) deliver_def split: applier_act.splits)
  qed (use zero in \<open>auto simp: applier_resume_def\<close>)
qed

lemma no_snaps_step:
  assumes inv: "no_snaps n S" and run: "rsys_step DoOp Snap Rest (-1) ini n S T"
  shows "no_snaps n T \<and> in_order (rc S) (rc T)"
proof -
  note reach = inv [unfolded no_snaps_def, THEN conjunct1]
  obtain g where g: "Inv n (rc S) g" using reachable_Inv [OF reach] by blast
  have step: "reachable n D" if "cstep n (rc S) D" for D by (rule reachable.step [OF reach that])
  have "no_snaps n T"
    using run
  proof cases
    case (s_peers D)
    then show ?thesis
      using inv no_snaps_peer_step [OF inv] step [of D] by (simp add: no_snaps_def cstep_split)
  next
    case (s_submit s req rf index t isLeader r ans)
    have "lastIncludedIndex rf = 0"
      using Start_effect(1) [OF srv_wf [OF g s_submit(2)] s_submit(3)] inv by (simp add: quiet_def no_snaps_def)
    moreover have "maxraftstate r = -1"
      using s_submit(4) inv by (auto simp: submit_start_def no_snaps_def Let_def split: if_splits)
    ultimately show ?thesis
      using inv step [OF cstep.start [OF s_submit(2,3)]]
      by (simp add: no_snaps_def s_submit(1) set_call_def set_svc_def)
  next
    case (s_recv s ch c r rep)
    then show ?thesis
      using inv by (auto simp: no_snaps_def set_call_def set_svc_def submit_recv_def split: list.splits)
  next
    case (s_tick_end s ch c gs r ans)
    then show ?thesis
      using inv by (auto simp: no_snaps_def set_call_def set_svc_def submit_tick_def submit_delete_def
          split: prod.splits if_splits)
  next
    case (s_read s pb r snap)
    then show ?thesis
      using inv reader_apply_no_snapshot [OF s_read(5)] by (auto simp: no_snaps_def set_svc_def)
  next
    case (s_snapshot s index data rf)
    then show ?thesis using inv by (simp add: no_snaps_def)
  next
    case (s_crash s)
    have "lastIncludedIndex (restart (srv (rc S) s)) = 0"
      using durableD(4) [OF srv_invD(2) [OF InvD(2) [OF g s_crash(2)]]] inv by (simp add: no_snaps_def)
    then show ?thesis
      using inv step [OF cstep.crash_restart [OF s_crash(2)]]
      by (auto simp: no_snaps_def s_crash(1) sys_crash_def crash_def start_svc_def MakeRSM_def)
  qed (use inv in \<open>simp_all add: no_snaps_def set_call_def set_svc_def submit_delete_def\<close>)
  then show ?thesis using inv by (simp add: no_snaps_def in_order_def)
qed

lemma no_snaps_init: "no_snaps n (rsys_init Rest (-1) ini n)"
  by (simp add: no_snaps_def rsys_init_def reachable.init start_svc_def MakeRSM_def Make_def readPersist_def
      MakePersister_def ReadRaftState_def)

lemma no_snaps_in_order:
  assumes "(rsys_step DoOp Snap Rest (-1) ini n)\<^sup>*\<^sup>* S T" "no_snaps n S"
  shows "rsys_steps DoOp Snap Rest (-1) ini n S T \<and> no_snaps n T"
  using assms(1)
proof (induction rule: rtranclp_induct)
  case base
  then show ?case using assms(2) by (simp add: rsys_steps_def)
next
  case (step T U)
  then show ?case
    using no_snaps_step [of n T] unfolding rsys_steps_def
    by (metis (no_types, lifting) rtranclp.rtrancl_into_rtrancl)
qed

section \<open>One log\<close>

text \<open>The state of a service that executes a list of operations one after the other.\<close>

definition run_ops :: "('s \<Rightarrow> 'req \<Rightarrow> 's \<times> 'rep) \<Rightarrow> 's \<Rightarrow> 'req Op list \<Rightarrow> 's" where
  "run_ops DoOp s0 ops = fold (\<lambda>op s. fst (DoOp s (op_Req op))) ops s0"

text \<open>
  If the call has returned \<open>OK\<close>, the operation at its index in the log was submitted at this
  server, and the reply is that operation's result after the ones before it.
\<close>

definition answered_from_log ::
    "('s \<Rightarrow> 'req \<Rightarrow> 's \<times> 'rep) \<Rightarrow> 's \<Rightarrow> 'req Op list \<Rightarrow> int \<Rightarrow> ('req, 'rep) call \<Rightarrow> bool" where
  "answered_from_log DoOp s0 ops s c \<longleftrightarrow>
     (\<forall>rep. call_pc c = Returned (OK, rep) \<longrightarrow>
        1 \<le> call_index c \<and> call_index c \<le> int (length ops) \<and>
        op_Me (ops ! nat (call_index c - 1)) = s \<and>
        rep = Some (snd (DoOp (run_ops DoOp s0 (take (nat (call_index c - 1)) ops))
                          (op_Req (ops ! nat (call_index c - 1))))))"

text \<open>
  The servers execute the log \<open>ops\<close>: each is at some position of it, as far as \<open>view\<close> can tell;
  answers come from it; and each operation is in the logs or snapshots of a majority.
\<close>

definition executes_log ::
    "('s \<Rightarrow> 'req \<Rightarrow> 's \<times> 'rep) \<Rightarrow> ('s \<Rightarrow> 'v) \<Rightarrow> 's \<Rightarrow> int \<Rightarrow> 'req Op list \<Rightarrow>
     ('req, 'rep, 's, 'b) rsys \<Rightarrow> bool" where
  "executes_log DoOp view s0 n ops S \<longleftrightarrow>
     (\<forall>s. peer n s \<longrightarrow> (\<exists>k \<le> length ops. view (sm (svc S s)) = view (run_ops DoOp s0 (take k ops)))) \<and>
     (\<forall>s ch c. peer n s \<longrightarrow> calls S s ch = Some c \<longrightarrow> answered_from_log DoOp s0 ops s c) \<and>
     (\<forall>j < length ops. \<exists>Q. majority n Q \<and>
        Q \<subseteq> {p. holds_command (srv (rc S) p) (int j + 1) (Some (ops ! j))})"

section \<open>The contract of a service\<close>

text \<open>
  Besides what \<open>state_machine\<close> asks for, a snapshot must not be empty: \<open>MakeRSM\<close> only restores a
  snapshot with some data in it.
\<close>

locale durable_machine = state_machine +
  assumes Snapshot_nonempty: "Snapshot s \<noteq> []"

text \<open>The service as it starts on the servers of a cluster of \<open>n\<close>.\<close>

locale replicated_service = durable_machine DoOp Snap Rest view
  for DoOp :: "'s \<Rightarrow> 'req \<Rightarrow> 's \<times> 'rep" and Snap :: "'s \<Rightarrow> 'b list" and Rest :: "'b list \<Rightarrow> 's \<Rightarrow> 's"
    and view :: "'s \<Rightarrow> 'v" +
  fixes mrs :: int and ini :: "int \<Rightarrow> 's" and s0 :: 's and n :: int
  assumes ini_view: "view (ini s) = view s0"
begin

text \<open>The state after the first \<open>k\<close> operations of a log, and the result of the next one.\<close>

definition state_at :: "'req Op list \<Rightarrow> nat \<Rightarrow> 's" where
  "state_at ops k = run s0 (map op_Req (take k ops))"

definition result_at :: "'req Op list \<Rightarrow> nat \<Rightarrow> 'rep" where
  "result_at ops k = snd (DoOp (state_at ops k) (op_Req (ops ! k)))"

definition snap_ok :: "'req Op list \<Rightarrow> int \<Rightarrow> 'b list \<Rightarrow> bool" where
  "snap_ok ops i d \<longleftrightarrow> 0 \<le> i \<and> i \<le> int (length ops) \<and>
     (if i = 0 then d = [] else \<exists>t. d = Snap t \<and> view t = view (state_at ops (nat i)))"

text \<open>Messages that take a reader from position \<open>k\<close> of the log to position \<open>e\<close>.\<close>

fun follows :: "'req Op list \<Rightarrow> nat \<Rightarrow> ('req Op, 'b) ApplyMsg list \<Rightarrow> nat \<Rightarrow> bool" where
  "follows ops k [] e \<longleftrightarrow> k = e"
| "follows ops k (m # ms) e \<longleftrightarrow>
     (if am_CommandValid m
      then \<not> am_SnapshotValid m \<and> am_CommandIndex m = int k + 1 \<and> k < length ops \<and>
           am_Command m = Some (ops ! k) \<and> follows ops (Suc k) ms e
      else am_SnapshotValid m \<and> int k < am_SnapshotIndex m \<and>
           snap_ok ops (am_SnapshotIndex m) (am_Snapshot m) \<and>
           follows ops (nat (am_SnapshotIndex m)) ms e)"

definition answer_ok :: "'req Op list \<Rightarrow> int \<Rightarrow> int \<Rightarrow> 'rep opReply \<Rightarrow> bool" where
  "answer_ok ops s i a \<longleftrightarrow> (fst a = OK \<longrightarrow>
     1 \<le> i \<and> i \<le> int (length ops) \<and> op_Me (ops ! nat (i - 1)) = s \<and>
     snd a = Some (result_at ops (nat (i - 1))))"

definition call_ok :: "'req Op list \<Rightarrow> int \<Rightarrow> nat \<Rightarrow> ('rep, 's) RSM \<Rightarrow> nat \<Rightarrow> ('req, 'rep) call \<Rightarrow> bool" where
  "call_ok ops s k r ch c \<longleftrightarrow> ch < next_chan r \<and>
     (\<forall>a \<in> set (chans r ch). answer_ok ops s (call_index c) a \<and> call_index c \<le> int k) \<and>
     (case call_pc c of GotReply a \<Rightarrow> answer_ok ops s (call_index c) a
        | Returned a \<Rightarrow> answer_ok ops s (call_index c) a | _ \<Rightarrow> True)"

definition rsm_ok :: "'req Op list \<Rightarrow> int \<Rightarrow> nat \<Rightarrow> ('rep, 's) RSM \<Rightarrow> (nat \<Rightarrow> ('req, 'rep) call option) \<Rightarrow> bool" where
  "rsm_ok ops s k r cs \<longleftrightarrow> rsm_me r = s \<and> view (sm r) = view (state_at ops k) \<and>
     (\<forall>i ch. waiting r i = Some ch \<longrightarrow> (\<exists>c. cs ch = Some c \<and> call_index c = i)) \<and>
     (\<forall>ch c. cs ch = Some c \<longrightarrow> call_ok ops s k r ch c)"

text \<open>The reader's next call of \<open>Snapshot\<close>, if any.\<close>

definition pending_ok :: "'req Op list \<Rightarrow> int \<Rightarrow> nat \<Rightarrow> (int \<times> 'b list) option \<Rightarrow> bool" where
  "pending_ok ops la k p \<longleftrightarrow> (case p of None \<Rightarrow> True
     | Some (i, d) \<Rightarrow> i = int k \<and> 0 < i \<and> i \<le> la \<and> snap_ok ops i d)"

definition peer_ok :: "'req Op list \<Rightarrow> bool \<Rightarrow> ('req Op, 'b) Raft \<Rightarrow> bool" where
  "peer_ok ops sending rf \<longleftrightarrow> 0 \<le> lastApplied rf \<and> lastApplied rf \<le> int (length ops) \<and>
     snap_ok ops (lastIncludedIndex rf) (ps_snapshot (persister rf)) \<and> cmds (log rf) \<and>
     (sending \<longrightarrow> lastApplied rf \<le> lastIncludedIndex rf)"

text \<open>Where the messages sent so far lead to.\<close>

definition sent_upto :: "bool \<Rightarrow> ('c, 'd) Raft \<Rightarrow> nat" where
  "sent_upto sending rf = nat (if sending then lastIncludedIndex rf else lastApplied rf)"

definition reader_ok :: "'req Op list \<Rightarrow> int \<Rightarrow> bool \<Rightarrow> ('req Op, 'b) Raft \<Rightarrow> ('req Op, 'b) ApplyMsg list \<Rightarrow>
    ('rep, 's) RSM \<Rightarrow> (int \<times> 'b list) option \<Rightarrow> (nat \<Rightarrow> ('req, 'rep) call option) \<Rightarrow> bool" where
  "reader_ok ops s sending rf unread r p cs \<longleftrightarrow>
     (\<forall>m \<in> set unread. am_CommandValid m \<longrightarrow> am_CommandIndex m \<le> lastApplied rf) \<and>
     (\<exists>k \<le> length ops. follows ops k unread (sent_upto sending rf) \<and>
        pending_ok ops (lastApplied rf) k p \<and> rsm_ok ops s k r cs)"

definition server_ok :: "'req Op list \<Rightarrow> ('req, 'rep, 's, 'b) rsys \<Rightarrow> int \<Rightarrow> bool" where
  "server_ok ops S s \<longleftrightarrow> peer_ok ops (applying (rc S) s) (srv (rc S) s) \<and>
     taken S s \<le> length (applyCh (rc S) s) \<and>
     reader_ok ops s (applying (rc S) s) (srv (rc S) s) (drop (taken S s) (applyCh (rc S) s))
       (svc S s) (snapping S s) (calls S s)"

definition msgs_ok :: "'req Op list \<Rightarrow> ('req Op, 'b) cluster \<Rightarrow> bool" where
  "msgs_ok ops C \<longleftrightarrow>
     (\<forall>l t p args. (l, t, p, args) \<in> is_reqs C \<longrightarrow> snap_ok ops (is_LastIncludedIndex args) (is_Data args)) \<and>
     (\<forall>l t p args. (l, t, p, args) \<in> ae_reqs C \<longrightarrow> cmds_all (ae_Entries args)) \<and>
     (\<forall>s m. m \<in> set (applyCh C s) \<longrightarrow> am_CommandValid m \<longrightarrow>
        1 \<le> am_CommandIndex m \<and> am_CommandIndex m \<le> int (length ops) \<and>
        am_Command m = Some (ops ! nat (am_CommandIndex m - 1)))"

definition complete :: "'req Op list \<Rightarrow> ('req Op, 'b) cluster \<Rightarrow> bool" where
  "complete ops C \<longleftrightarrow> (\<forall>j < length ops. \<exists>s. \<exists>m \<in> set (applyCh C s). am_CommandValid m \<and> am_CommandIndex m = int j + 1)"

definition sys_inv :: "'req Op list \<Rightarrow> ('req, 'rep, 's, 'b) rsys \<Rightarrow> bool" where
  "sys_inv ops S \<longleftrightarrow> reachable n (rc S) \<and> (\<forall>s. peer n s \<longrightarrow> server_ok ops S s) \<and> msgs_ok ops (rc S) \<and>
     complete ops (rc S)"

subsection \<open>A longer log\<close>

lemma state_at_append [simp]: "k \<le> length ops \<Longrightarrow> state_at (ops @ xs) k = state_at ops k"
  by (simp add: state_at_def)

lemma result_at_append [simp]: "k < length ops \<Longrightarrow> result_at (ops @ xs) k = result_at ops k"
  by (simp add: result_at_def nth_append)

lemma snap_ok_append: "snap_ok ops i d \<Longrightarrow> snap_ok (ops @ xs) i d"
  by (auto simp: snap_ok_def split: if_splits)

lemma follows_append: "follows ops k ms e \<Longrightarrow> follows (ops @ xs) k ms e"
  by (induction ms arbitrary: k) (auto simp: nth_append intro: snap_ok_append)

lemma answer_ok_append: "answer_ok ops s i a \<Longrightarrow> answer_ok (ops @ xs) s i a"
  by (auto simp: answer_ok_def nth_append)

lemma rsm_ok_append:
  assumes "rsm_ok ops s k r cs" "k \<le> length ops"
  shows "rsm_ok (ops @ xs) s k r cs"
proof -
  have "call_ok (ops @ xs) s k r ch c" if "call_ok ops s k r ch c" for ch c
    using that by (auto simp: call_ok_def intro: answer_ok_append split: call_pc.splits)
  with assms show ?thesis by (auto simp: rsm_ok_def)
qed

lemma server_ok_append:
  assumes "server_ok ops S s"
  shows "server_ok (ops @ xs) S s"
proof -
  have "pending_ok ops la k p \<Longrightarrow> pending_ok (ops @ xs) la k p" for la k p
    by (auto simp: pending_ok_def intro: snap_ok_append split: option.splits)
  then have "reader_ok ops s b rf unread r p cs \<Longrightarrow> reader_ok (ops @ xs) s b rf unread r p cs"
    for b rf unread r p cs
    unfolding reader_ok_def length_append
    by (meson follows_append rsm_ok_append trans_le_add1)
  moreover have "peer_ok ops b rf \<Longrightarrow> peer_ok (ops @ xs) b rf" for b rf
    by (auto simp: peer_ok_def intro: snap_ok_append)
  ultimately show ?thesis using assms by (auto simp: server_ok_def)
qed

lemma msgs_ok_append: "msgs_ok ops C \<Longrightarrow> msgs_ok (ops @ xs) C"
  unfolding msgs_ok_def by (fastforce simp: nth_append intro: snap_ok_append)

lemma follows_snoc: "follows ops k (ms @ [m]) e' \<longleftrightarrow> (\<exists>e. follows ops k ms e \<and> follows ops e [m] e')"
  by (induction ms arbitrary: k) auto

subsection \<open>Steps of the peers\<close>

lemma sys_invD:
  assumes "sys_inv ops S"
  shows "reachable n (rc S)" "\<And>s. peer n s \<Longrightarrow> server_ok ops S s" "msgs_ok ops (rc S)" "complete ops (rc S)"
  using assms by (simp_all add: sys_inv_def)

lemma server_okD:
  assumes "server_ok ops S s"
  shows "peer_ok ops (applying (rc S) s) (srv (rc S) s)" "taken S s \<le> length (applyCh (rc S) s)"
    "reader_ok ops s (applying (rc S) s) (srv (rc S) s) (drop (taken S s) (applyCh (rc S) s))
       (svc S s) (snapping S s) (calls S s)"
  using assms by (simp_all add: server_ok_def)

lemma peer_ok_quiet: "peer_ok ops b rf \<Longrightarrow> quiet rf rf' \<Longrightarrow> peer_ok ops b rf'"
  by (simp add: peer_ok_def quiet_def)

text \<open>A change of the peers that sends nothing on the channels and applies nothing.\<close>

lemma sys_inv_peers:
  assumes inv: "sys_inv ops S" and D: "reachable n D" "msgs_ok ops D"
    and same: "applyCh D = applyCh (rc S)" "applying D = applying (rc S)"
    and peers: "\<And>s. peer n s \<Longrightarrow> lastApplied (srv D s) = lastApplied (srv (rc S) s) \<and>
      peer_ok ops (applying (rc S) s) (srv D s) \<and>
      (applying (rc S) s \<longrightarrow> lastIncludedIndex (srv D s) = lastIncludedIndex (srv (rc S) s))"
  shows "sys_inv ops (S\<lparr>rc := D\<rparr>)"
proof -
  have "server_ok ops (S\<lparr>rc := D\<rparr>) s" if s: "peer n s" for s
    using sys_invD(2) [OF inv s] peers [OF s]
    by (auto simp: server_ok_def reader_ok_def sent_upto_def same)
  then show ?thesis
    using D sys_invD(4) [OF inv] by (simp add: sys_inv_def complete_def same)
qed

lemma sys_inv_quiet:
  assumes inv: "sys_inv ops S" and D: "reachable n D" "msgs_ok ops D"
    and same: "applyCh D = applyCh (rc S)" "applying D = applying (rc S)"
    and peers: "srv D = (srv (rc S))(p := rf)" "quiet (srv (rc S) p) rf"
  shows "sys_inv ops (S\<lparr>rc := D\<rparr>)"
proof (rule sys_inv_peers [OF inv D same])
  fix s assume "peer n s"
  note ok = server_okD(1) [OF sys_invD(2) [OF inv this]]
  show "lastApplied (srv D s) = lastApplied (srv (rc S) s) \<and>
      peer_ok ops (applying (rc S) s) (srv D s) \<and>
      (applying (rc S) s \<longrightarrow> lastIncludedIndex (srv D s) = lastIncludedIndex (srv (rc S) s))"
    using ok peers peer_ok_quiet [OF ok] by (auto simp: quiet_def)
qed

text \<open>A snapshot enters the persister of a peer.\<close>

lemma sys_inv_snapshot:
  assumes inv: "sys_inv ops S" and D: "reachable n D" "msgs_ok ops D" and p: "peer n p"
    and same: "applyCh D = applyCh (rc S)" "applying D = applying (rc S)"
    and rf: "srv D = (srv (rc S))(p := rf)" "lastApplied rf = lastApplied (srv (rc S) p)"
      "cmds (log (srv (rc S) p)) \<longrightarrow> cmds (log rf)"
      "snap_ok ops (lastIncludedIndex rf) (ps_snapshot (persister rf))"
      "\<not> applying (rc S) p"
  shows "sys_inv ops (S\<lparr>rc := D\<rparr>)"
proof (rule sys_inv_peers [OF inv D same])
  fix s assume "peer n s"
  note ok = server_okD(1) [OF sys_invD(2) [OF inv this]]
  show "lastApplied (srv D s) = lastApplied (srv (rc S) s) \<and>
      peer_ok ops (applying (rc S) s) (srv D s) \<and>
      (applying (rc S) s \<longrightarrow> lastIncludedIndex (srv D s) = lastIncludedIndex (srv (rc S) s))"
    using ok rf by (auto simp: peer_ok_def)
qed

lemma msgs_okD:
  assumes "msgs_ok ops C"
  shows "(l, t, p, sargs) \<in> is_reqs C \<Longrightarrow> snap_ok ops (is_LastIncludedIndex sargs) (is_Data sargs)"
    "(l, t, p, args) \<in> ae_reqs C \<Longrightarrow> cmds_all (ae_Entries args)"
    "m \<in> set (applyCh C s) \<Longrightarrow> am_CommandValid m \<Longrightarrow> 1 \<le> am_CommandIndex m \<and>
       am_CommandIndex m \<le> int (length ops) \<and> am_Command m = Some (ops ! nat (am_CommandIndex m - 1))"
  using assms by (simp_all add: msgs_ok_def)

lemma msgs_ok_same:
  "msgs_ok ops C \<Longrightarrow> is_reqs D = is_reqs C \<Longrightarrow> ae_reqs D = ae_reqs C \<Longrightarrow> applyCh D = applyCh C \<Longrightarrow> msgs_ok ops D"
  by (simp add: msgs_ok_def)

lemma sys_inv_heartbeat:
  assumes inv: "sys_inv ops S" and D: "reachable n (send_hb l t p m (set_srv l rf (rc S)))"
    and l: "peer n l" "peer n p" and run: "hb_send t p (srv (rc S) l) = Some (rf, m)"
  shows "sys_inv ops (S\<lparr>rc := send_hb l t p m (set_srv l rf (rc S))\<rparr>)"
proof -
  obtain g where g: "Inv n (rc S) g" using reachable_Inv [OF sys_invD(1) [OF inv]] by blast
  note eff = hb_send_effect [OF srv_wf [OF g l(1)] peer_bounds [OF l(2)] run]
  note ok = server_okD(1) [OF sys_invD(2) [OF inv l(1)]] and msgs = sys_invD(3) [OF inv]
  show ?thesis
  proof (rule sys_inv_quiet [OF inv D _ _ _ _ eff(1)])
    show "msgs_ok ops (send_hb l t p m (set_srv l rf (rc S)))"
      using msgs eff ok by (cases m) (auto simp: send_hb_def msgs_ok_def peer_ok_def)
  qed (simp_all add: send_hb_def split: hb_msg.splits)
qed

lemma sys_inv_install:
  assumes inv: "sys_inv ops S" and p: "peer n p" and args: "(l, t, p, args) \<in> is_reqs (rc S)"
    and run: "InstallSnapshot args (srv (rc S) p) = Some (rf, reply)"
    and D: "D = (set_srv p rf (rc S))\<lparr>is_reps := R\<rparr>" "reachable n D" and io: "in_order (rc S) D"
  shows "sys_inv ops (S\<lparr>rc := D\<rparr>)"
proof -
  obtain g where g: "Inv n (rc S) g" using reachable_Inv [OF sys_invD(1) [OF inv]] by blast
  have msgs: "msgs_ok ops D" by (rule msgs_ok_same [OF sys_invD(3) [OF inv]]) (simp_all add: D(1))
  from InstallSnapshot_effect [OF srv_wf [OF g p] run] show ?thesis
  proof (elim disjE conjE)
    assume "quiet (srv (rc S) p) rf"
    then show ?thesis by (intro sys_inv_quiet [OF inv D(2) msgs]) (simp_all add: D(1))
  next
    assume eff: "lastApplied rf = lastApplied (srv (rc S) p)"
      "cmds (log (srv (rc S) p)) \<longrightarrow> cmds (log rf)"
      "lastIncludedIndex (srv (rc S) p) < is_LastIncludedIndex args"
      "lastIncludedIndex rf = is_LastIncludedIndex args" "ps_snapshot (persister rf) = is_Data args"
    have "\<not> applying (rc S) p" using io eff(3,4) by (auto simp: in_order_def D(1) split: if_splits)
    then show ?thesis
      using eff msgs_okD(1) [OF sys_invD(3) [OF inv] args]
      by (intro sys_inv_snapshot [OF inv D(2) msgs p, where rf = rf]) (simp_all add: D(1))
  qed
qed

lemma in_unread: "m \<in> set (drop k xs) \<Longrightarrow> m \<in> set xs"
  by (rule in_set_dropD)

text \<open>The applier starts to send its snapshot.\<close>

lemma sys_inv_send_snapshot:
  assumes inv: "sys_inv ops S" and s: "peer n s" and idle: "\<not> applying (rc S) s"
    and low: "lastApplied (srv (rc S) s) < lastIncludedIndex (srv (rc S) s)"
    and D: "D = deliver s (ApplySnapshot (snapshot_msg (srv (rc S) s))) (rc S)" "reachable n D"
  shows "sys_inv ops (S\<lparr>rc := D\<rparr>)"
proof -
  let ?rf = "srv (rc S) s" and ?m = "snapshot_msg (srv (rc S) s)"
  have m: "\<not> am_CommandValid ?m" "am_SnapshotValid ?m" "am_SnapshotIndex ?m = lastIncludedIndex ?rf"
    "am_Snapshot ?m = ps_snapshot (persister ?rf)"
    by (simp_all add: snapshot_msg_def ReadSnapshot_def)
  have D': "srv D = srv (rc S)" "applying D = (applying (rc S))(s := True)"
    "applyCh D = (applyCh (rc S))(s := applyCh (rc S) s @ [?m])" "is_reqs D = is_reqs (rc S)"
    "ae_reqs D = ae_reqs (rc S)"
    by (simp_all add: D(1) deliver_def)
  note ok = server_okD [OF sys_invD(2) [OF inv s]]
  have pk: "peer_ok ops False ?rf" "snap_ok ops (lastIncludedIndex ?rf) (ps_snapshot (persister ?rf))"
    "0 \<le> lastApplied ?rf" using ok(1) idle by (simp_all add: peer_ok_def)
  have "follows ops k (drop (taken S s) (applyCh (rc S) s) @ [?m]) (sent_upto True ?rf)"
    if "follows ops k (drop (taken S s) (applyCh (rc S) s)) (sent_upto False ?rf)" for k
    unfolding follows_snoc
    by (rule exI [of _ "sent_upto False ?rf"]) (use that m pk low in \<open>simp add: sent_upto_def\<close>)
  then have "server_ok ops (S\<lparr>rc := D\<rparr>) s"
    using ok idle low m pk by (fastforce simp: server_ok_def reader_ok_def peer_ok_def D')
  moreover have "server_ok ops (S\<lparr>rc := D\<rparr>) p" if "peer n p" "p \<noteq> s" for p
    using sys_invD(2) [OF inv that(1)] that(2) by (simp add: server_ok_def D')
  moreover have "msgs_ok ops D"
    using sys_invD(3) [OF inv] m by (auto simp: msgs_ok_def D' split: if_splits)
  moreover have "complete ops D"
    using sys_invD(4) [OF inv] unfolding complete_def D'
    by (metis (no_types, lifting) fun_upd_apply UnCI set_append)
  ultimately show ?thesis using D(2) by (auto simp: sys_inv_def)
qed

text \<open>The applier sends a command: it is the one of the log, or extends it.\<close>

lemma sys_inv_send_command:
  assumes inv: "sys_inv ops S" and s: "peer n s" and idle: "\<not> applying (rc S) s"
    and i: "i = lastApplied (srv (rc S) s) + 1"
    and D: "D = deliver s (ApplyCommand (command_msg i (Some op)))
        (set_srv s ((srv (rc S) s)\<lparr>lastApplied := i\<rparr>) (rc S))" "reachable n D"
  shows "\<exists>xs. sys_inv (ops @ xs) (S\<lparr>rc := D\<rparr>)"
proof -
  let ?rf = "srv (rc S) s" and ?m = "command_msg i (Some op) :: ('req Op, 'b) ApplyMsg"
  let ?rf' = "?rf\<lparr>lastApplied := i\<rparr>"
  have m: "am_CommandValid ?m" "\<not> am_SnapshotValid ?m" "am_CommandIndex ?m = i" "am_Command ?m = Some op"
    by (simp_all add: command_msg_def)
  have D': "srv D = (srv (rc S))(s := ?rf')" "applying D = applying (rc S)"
    "applyCh D = (applyCh (rc S))(s := applyCh (rc S) s @ [?m])" "is_reqs D = is_reqs (rc S)"
    "ae_reqs D = ae_reqs (rc S)"
    by (simp_all add: D(1) deliver_def)
  have pk0: "0 \<le> lastApplied ?rf" "lastApplied ?rf \<le> int (length ops)"
    using server_okD(1) [OF sys_invD(2) [OF inv s]] by (simp_all add: peer_ok_def)
  define xs where "xs = (if i \<le> int (length ops) then [] else [op])"
  let ?ops = "ops @ xs"
  have len: "1 \<le> i" "i \<le> int (length ?ops)" using pk0 i by (auto simp: xs_def)
  have at: "?ops ! nat (i - 1) = op"
  proof (cases "i \<le> int (length ops)")
    case True
    then have "nat (i - 1) < length ops" "int (nat (i - 1)) + 1 = i" using len by auto
    then obtain q x where x: "x \<in> set (applyCh (rc S) q)" "am_CommandValid x" "am_CommandIndex x = i"
      using sys_invD(4) [OF inv] unfolding complete_def by metis
    have "x \<in> set (applyCh D q)" "?m \<in> set (applyCh D s)" using x(1) by (auto simp: D')
    then have "am_Command x = Some op" using applied_agree [OF D(2) _ x(2) _ m(1)] x(3) m(3,4) by simp
    then show ?thesis
      using msgs_okD(3) [OF sys_invD(3) [OF inv] x(1,2)] x(3) True len by (simp add: nth_append xs_def)
  next
    case False
    then show ?thesis using pk0 i by (simp add: xs_def nth_append)
  qed
  have inv': "server_ok ?ops S p" if "peer n p" for p
    by (rule server_ok_append [OF sys_invD(2) [OF inv that]])
  note ok = server_okD [OF inv' [OF s]]
  have pos: "sent_upto False ?rf' = Suc (sent_upto False ?rf)" using pk0 i by (simp add: sent_upto_def)
  have idx: "nat (i - 1) = sent_upto False ?rf" "int (sent_upto False ?rf) + 1 = i"
    using pk0 i by (simp_all add: sent_upto_def)
  have fol: "follows ?ops k (drop (taken S s) (applyCh (rc S) s) @ [?m]) (sent_upto False ?rf')"
    if "follows ?ops k (drop (taken S s) (applyCh (rc S) s)) (sent_upto False ?rf)" for k
    unfolding follows_snoc
    by (rule exI [of _ "sent_upto False ?rf"]) (use that m at len idx pos in auto)
  have "server_ok ?ops (S\<lparr>rc := D\<rparr>) s"
    unfolding server_ok_def reader_ok_def
  proof (intro conjI)
    show "peer_ok ?ops (applying (rc (S\<lparr>rc := D\<rparr>)) s) (srv (rc (S\<lparr>rc := D\<rparr>)) s)"
      using ok(1) idle len by (simp add: peer_ok_def D')
    show "taken (S\<lparr>rc := D\<rparr>) s \<le> length (applyCh (rc (S\<lparr>rc := D\<rparr>)) s)" using ok(2) by (simp add: D')
    show "\<forall>m\<in>set (drop (taken (S\<lparr>rc := D\<rparr>) s) (applyCh (rc (S\<lparr>rc := D\<rparr>)) s)).
       am_CommandValid m \<longrightarrow> am_CommandIndex m \<le> lastApplied (srv (rc (S\<lparr>rc := D\<rparr>)) s)"
      using ok(2,3) i m by (fastforce simp: reader_ok_def D')
    obtain k where "k \<le> length ?ops" "follows ?ops k (drop (taken S s) (applyCh (rc S) s)) (sent_upto False ?rf)"
      "pending_ok ?ops (lastApplied ?rf) k (snapping S s)" "rsm_ok ?ops s k (svc S s) (calls S s)"
      using ok(3) idle by (auto simp: reader_ok_def)
    then show "\<exists>k\<le>length ?ops. follows ?ops k (drop (taken (S\<lparr>rc := D\<rparr>) s) (applyCh (rc (S\<lparr>rc := D\<rparr>)) s))
        (sent_upto (applying (rc (S\<lparr>rc := D\<rparr>)) s) (srv (rc (S\<lparr>rc := D\<rparr>)) s)) \<and>
      pending_ok ?ops (lastApplied (srv (rc (S\<lparr>rc := D\<rparr>)) s)) k (snapping (S\<lparr>rc := D\<rparr>) s) \<and>
      rsm_ok ?ops s k (svc (S\<lparr>rc := D\<rparr>) s) (calls (S\<lparr>rc := D\<rparr>) s)"
      using fol ok(2) idle i
      by (intro exI [of _ k]) (auto simp: D' pending_ok_def split: option.splits)
  qed
  moreover have "server_ok ?ops (S\<lparr>rc := D\<rparr>) p" if "peer n p" "p \<noteq> s" for p
    using inv' [OF that(1)] that(2) by (simp add: server_ok_def D')
  moreover have "msgs_ok ?ops D"
    using msgs_ok_append [OF sys_invD(3) [OF inv], of xs] m at len
    by (auto simp: msgs_ok_def D' split: if_splits)
  moreover have "complete ?ops D"
    unfolding complete_def
  proof (intro allI impI)
    fix j assume j: "j < length ?ops"
    show "\<exists>s. \<exists>m \<in> set (applyCh D s). am_CommandValid m \<and> am_CommandIndex m = int j + 1"
    proof (cases "j < length ops")
      case True
      then obtain q x where "x \<in> set (applyCh (rc S) q)" "am_CommandValid x" "am_CommandIndex x = int j + 1"
        using sys_invD(4) [OF inv] unfolding complete_def by metis
      then show ?thesis by (intro exI [of _ q] bexI [of _ x]) (auto simp: D')
    next
      case False
      then have "int j + 1 = i" using j len pk0 i by (auto simp: xs_def split: if_splits)
      then show ?thesis using m by (intro exI [of _ s] bexI [of _ ?m]) (auto simp: D')
    qed
  qed
  ultimately have "sys_inv ?ops (S\<lparr>rc := D\<rparr>)" using D(2) by (auto simp: sys_inv_def)
  then show ?thesis by blast
qed

lemma sys_inv_resume:
  assumes inv: "sys_inv ops S" and s: "peer n s" and busy: "applying (rc S) s"
    and D: "D = (set_srv s (applier_resume (srv (rc S) s)) (rc S))\<lparr>applying := (applying (rc S))(s := False)\<rparr>"
      "reachable n D"
  shows "sys_inv ops (S\<lparr>rc := D\<rparr>)"
proof -
  let ?rf = "srv (rc S) s"
  have D': "srv D = (srv (rc S))(s := applier_resume ?rf)" "applying D = (applying (rc S))(s := False)"
    "applyCh D = applyCh (rc S)" "is_reqs D = is_reqs (rc S)" "ae_reqs D = ae_reqs (rc S)"
    by (simp_all add: D(1))
  note ok = server_okD [OF sys_invD(2) [OF inv s]]
  have rs: "lastApplied (applier_resume ?rf) = lastIncludedIndex ?rf"
    "sent_upto False (applier_resume ?rf) = sent_upto True ?rf"
    "peer_ok ops True ?rf \<Longrightarrow> peer_ok ops False (applier_resume ?rf)" "peer_ok ops True ?rf \<Longrightarrow> lastApplied ?rf \<le> lastIncludedIndex ?rf"
    by (auto simp: applier_resume_def sent_upto_def peer_ok_def snap_ok_def)
  have "server_ok ops (S\<lparr>rc := D\<rparr>) s"
    using ok busy rs
    by (fastforce simp: server_ok_def reader_ok_def pending_ok_def D' split: option.splits)
  moreover have "server_ok ops (S\<lparr>rc := D\<rparr>) p" if "peer n p" "p \<noteq> s" for p
    using sys_invD(2) [OF inv that(1)] that(2) by (simp add: server_ok_def D')
  moreover have "msgs_ok ops D" by (rule msgs_ok_same [OF sys_invD(3) [OF inv]]) (simp_all add: D')
  moreover have "complete ops D" using sys_invD(4) [OF inv] by (simp add: complete_def D')
  ultimately show ?thesis using D(2) by (auto simp: sys_inv_def)
qed

lemma sys_inv_apply:
  assumes inv: "sys_inv ops S" and s: "peer n s" and idle: "\<not> applying (rc S) s"
    and run: "applier_step (srv (rc S) s) = Some (rf, act)"
    and D: "reachable n (deliver s act (set_srv s rf (rc S)))"
  shows "\<exists>xs. sys_inv (ops @ xs) (S\<lparr>rc := deliver s act (set_srv s rf (rc S))\<rparr>)"
proof -
  obtain g where g: "Inv n (rc S) g" using reachable_Inv [OF sys_invD(1) [OF inv]] by blast
  have same: "set_srv s (srv (rc S) s) (rc S) = rc S" by (simp add: set_srv_def)
  have stay: "\<exists>xs. sys_inv (ops @ xs) (S\<lparr>rc := E\<rparr>)" if "sys_inv ops (S\<lparr>rc := E\<rparr>)" for E
    using that by (metis append_Nil2)
  have "cmds (log (srv (rc S) s))"
    using server_okD(1) [OF sys_invD(2) [OF inv s]] by (simp add: peer_ok_def)
  from g s this run show ?thesis
  proof (cases rule: applier_effect)
    case idle
    then show ?thesis using inv stay [of "rc S"] by (simp add: deliver_def same)
  next
    case snap
    then show ?thesis
      using sys_inv_send_snapshot [OF inv s idle snap(2) refl] D stay by (simp add: same)
  next
    case (command op)
    then show ?thesis using sys_inv_send_command [OF inv s idle refl refl, of op] D by simp
  qed
qed

lemma sys_inv_peer_step:
  assumes inv: "sys_inv ops S" and run: "peer_step n (rc S) D" and io: "in_order (rc S) D"
  shows "\<exists>xs. sys_inv (ops @ xs) (S\<lparr>rc := D\<rparr>)"
proof -
  have reach: "reachable n D"
    using reachable.step [OF sys_invD(1) [OF inv]] run by (simp add: cstep_split)
  obtain g where g: "Inv n (rc S) g" using reachable_Inv [OF sys_invD(1) [OF inv]] by blast
  note wf = srv_wf [OF g] and pb = peer_bounds and msg = msg_invD [OF InvD(8) [OF g]]
    and msgs = sys_invD(3) [OF inv]
  have stay: "\<exists>xs. sys_inv (ops @ xs) (S\<lparr>rc := E\<rparr>)" if "sys_inv ops (S\<lparr>rc := E\<rparr>)" for E
    using that by (metis append_Nil2)
  have calm: "\<exists>xs. sys_inv (ops @ xs) (S\<lparr>rc := D\<rparr>)"
    if "applyCh D = applyCh (rc S)" "applying D = applying (rc S)" "is_reqs D = is_reqs (rc S)"
      "ae_reqs D = ae_reqs (rc S)" "srv D = (srv (rc S))(p := rf)" "quiet (srv (rc S) p) rf" for p rf
    by (rule stay [OF sys_inv_quiet [OF inv reach msgs_ok_same [OF msgs] _ _ that(5,6)]])
      (simp_all add: that)
  from run show ?thesis
  proof cases
    case (p_timeout s rec rf t)
    then show ?thesis by (intro calm [of s rf]) (auto dest: ticker_fire_quiet)
  next
    case (p_rv_handle p c t args rf reply)
    then show ?thesis using RequestVote_quiet [OF wf] by (intro calm [of p rf]) auto
  next
    case (p_ask_recv c t p args reply rf num)
    then show ?thesis using ask_reply_quiet [OF wf] by (intro calm [of c rf]) auto
  next
    case (p_heartbeat l p t rf m)
    then show ?thesis using sys_inv_heartbeat [OF inv] reach by (auto intro: stay)
  next
    case (p_ae_handle p l t args rf reply)
    have "0 \<le> ae_PreLogIndex args" using msg(1) [OF p_ae_handle(3)] by (simp add: ae_ok_def)
    then have "quiet (srv (rc S) p) rf"
      using AppendEntries_quiet [OF wf [OF p_ae_handle(2)]] p_ae_handle(4) msgs_okD(2) [OF msgs p_ae_handle(3)]
      by blast
    then show ?thesis using p_ae_handle(1) by (intro calm [of p rf]) auto
  next
    case (p_ae_recv l t p args reply rf)
    have "peer n p" using msg(2) [OF p_ae_recv(3)] by (simp add: ae_ok_def)
    then have "quiet (srv (rc S) l) rf"
      using hb_append_reply_quiet [OF wf [OF p_ae_recv(2)] pb] p_ae_recv(4) by blast
    then show ?thesis using p_ae_recv(1) by (intro calm [of l rf]) auto
  next
    case (p_is_handle p l t args rf reply)
    show ?thesis
      by (rule stay, rule sys_inv_install [OF inv p_is_handle(2,3,4,1) reach io])
  next
    case (p_is_recv l t p args reply rf)
    have "peer n p" using msg(5) [OF p_is_recv(3)] by (simp add: is_ok_def)
    then have "quiet (srv (rc S) l) rf"
      using hb_snapshot_reply_quiet [OF wf [OF p_is_recv(2)] pb] p_is_recv(4) by blast
    then show ?thesis using p_is_recv(1) by (intro calm [of l rf]) auto
  next
    case (p_apply s rf act)
    then show ?thesis using sys_inv_apply [OF inv] reach by blast
  next
    case (p_resume s)
    then show ?thesis using sys_inv_resume [OF inv] reach by (auto intro: stay)
  next
    case (p_ask_stop c t p)
    then show ?thesis by (intro calm [of 0 "srv (rc S) 0"]) simp_all
  next
    case (p_ask_send c t p args)
    then show ?thesis by (intro calm [of 0 "srv (rc S) 0"]) simp_all
  next
    case (p_ask_lost c t p args)
    then show ?thesis by (intro calm [of 0 "srv (rc S) 0"]) simp_all
  qed
qed

subsection \<open>Steps of the layer above\<close>

text \<open>The services, readers and calls of one server change.\<close>

lemma sys_inv_server:
  assumes inv: "sys_inv ops S" and rc: "rc T = rc S" and s: "peer n s"
    and others: "\<And>p. p \<noteq> s \<Longrightarrow> svc T p = svc S p \<and> taken T p = taken S p \<and> snapping T p = snapping S p \<and>
      calls T p = calls S p"
    and ok: "server_ok ops T s"
  shows "sys_inv ops T"
proof -
  have "server_ok ops T p" if "peer n p" for p
    using sys_invD(2) [OF inv that] others [of p] ok by (cases "p = s") (simp_all add: server_ok_def rc)
  then show ?thesis using sys_invD [OF inv] by (simp add: sys_inv_def rc)
qed

lemma sys_inv_calls:
  assumes inv: "sys_inv ops S" and s: "peer n s"
    and ok: "\<And>k. k \<le> length ops \<Longrightarrow> rsm_ok ops s k (svc S s) (calls S s) \<Longrightarrow> rsm_ok ops s k r ((calls S s)(ch \<mapsto> c))"
  shows "sys_inv ops (set_call s ch c (set_svc s r S))"
proof (rule sys_inv_server [OF inv _ s])
  show "server_ok ops (set_call s ch c (set_svc s r S)) s"
    using sys_invD(2) [OF inv s] ok
    by (auto simp: server_ok_def reader_ok_def set_call_def set_svc_def)
qed (simp_all add: set_call_def set_svc_def)

lemma submit_rsm_ok:
  assumes "rsm_ok ops s k R cs" "submit_start (index, t, isLeader) R = (r, ans)"
  shows "rsm_ok ops s k r (cs(next_chan R \<mapsto>
     \<lparr>call_index = index, call_term = t, call_req = req,
      call_pc = (case ans of None \<Rightarrow> InSelect | Some a \<Rightarrow> Returned a)\<rparr>))"
proof -
  let ?ch = "next_chan R"
  let ?c = "\<lparr>call_index = index, call_term = t, call_req = req,
      call_pc = (case ans of None \<Rightarrow> InSelect | Some a \<Rightarrow> Returned a)\<rparr>"
  have r: "rsm_me r = rsm_me R" "sm r = sm R" "chans r = (chans R)(?ch := [])" "next_chan r = Suc ?ch"
    "ans = None \<or> ans = Some (ErrWrongLeader, None)"
    and w: "\<And>i x. waiting r i = Some x \<Longrightarrow> i = index \<and> x = ?ch \<or> waiting R i = Some x"
    using assms(2) by (auto simp: submit_start_def Let_def split: if_splits)
  have old: "x \<noteq> ?ch \<and> call_ok ops s k r x c" if "cs x = Some c" for x c
  proof -
    have "call_ok ops s k R x c" using assms(1) that by (simp add: rsm_ok_def)
    then show ?thesis by (simp add: call_ok_def r)
  qed
  have "call_ok ops s k r ?ch ?c" using r(5) by (elim disjE) (simp_all add: call_ok_def r answer_ok_def)
  moreover have "\<exists>c. (cs(?ch \<mapsto> ?c)) x = Some c \<and> call_index c = i" if "waiting r i = Some x" for i x
    using w [OF that] assms(1) old by (fastforce simp: rsm_ok_def)
  ultimately show ?thesis using old assms(1) by (auto simp: rsm_ok_def r)
qed

text \<open>A call of \<open>Submit\<close> moves on: it may empty its channel and delete its table entry.\<close>

lemma rsm_ok_move:
  assumes ok: "rsm_ok ops s k R cs" and c: "cs ch = Some c" "call_index c' = call_index c"
    and r: "rsm_me r = rsm_me R" "sm r = sm R" "next_chan r = next_chan R"
      "\<And>i x. waiting r i = Some x \<Longrightarrow> waiting R i = Some x" "\<And>x. set (chans r x) \<subseteq> set (chans R x)"
    and pc: "\<And>a. call_pc c' = GotReply a \<or> call_pc c' = Returned a \<Longrightarrow> answer_ok ops s (call_index c) a"
  shows "rsm_ok ops s k r (cs(ch \<mapsto> c'))"
proof -
  have old: "call_ok ops s k R x d" if "cs x = Some d" for x d using ok that by (simp add: rsm_ok_def)
  have "call_ok ops s k r x d" if "cs x = Some d" for x d
    using old [OF that] r(3,5) by (fastforce simp: call_ok_def)
  moreover have "call_ok ops s k r ch c'"
  proof -
    have "ch < next_chan r" "\<forall>a \<in> set (chans r ch). answer_ok ops s (call_index c') a \<and> call_index c' \<le> int k"
      using old [OF c(1)] r(3,5) c(2) by (auto simp: call_ok_def)
    then show ?thesis using pc by (auto simp: call_ok_def c(2) split: call_pc.splits)
  qed
  moreover have "\<exists>d. (cs(ch \<mapsto> c')) x = Some d \<and> call_index d = i" if w: "waiting r i = Some x" for i x
  proof -
    obtain d where "cs x = Some d" "call_index d = i" using ok r(4) [OF w] unfolding rsm_ok_def by blast
    then show ?thesis using c by auto
  qed
  ultimately show ?thesis using ok r(1,2) by (simp add: rsm_ok_def)
qed

lemma rsm_ok_answer:
  assumes "rsm_ok ops s k R cs" "cs ch = Some c"
  shows "a \<in> set (chans R ch) \<Longrightarrow> answer_ok ops s (call_index c) a"
    "call_pc c = GotReply a \<Longrightarrow> answer_ok ops s (call_index c) a"
  using assms by (fastforce simp: rsm_ok_def call_ok_def)+

lemma recv_rsm_ok:
  assumes "rsm_ok ops s k R cs" "cs ch = Some c" "submit_recv ch R = Some (r, rep)"
  shows "rsm_ok ops s k r (cs(ch \<mapsto> c\<lparr>call_pc := GotReply rep\<rparr>))"
proof -
  obtain rs where rs: "chans R ch = rep # rs" "r = R\<lparr>chans := (chans R)(ch := rs)\<rparr>"
    using assms(3) by (auto simp: submit_recv_def split: list.splits)
  show ?thesis
    by (rule rsm_ok_move [OF assms(1,2)])
      (use rs rsm_ok_answer(1) [OF assms(1,2)] in \<open>auto split: if_splits\<close>)
qed

lemma recv_end_rsm_ok:
  assumes "rsm_ok ops s k R cs" "cs ch = Some c" "call_pc c = GotReply rep"
  shows "rsm_ok ops s k (submit_delete i R) (cs(ch \<mapsto> c\<lparr>call_pc := Returned rep\<rparr>))"
  by (rule rsm_ok_move [OF assms(1,2)])
    (use rsm_ok_answer(2) [OF assms] in \<open>auto simp: submit_delete_def split: if_splits\<close>)

lemma tick_rsm_ok:
  assumes "rsm_ok ops s k R cs" "cs ch = Some c"
  shows "rsm_ok ops s k R (cs(ch \<mapsto> c\<lparr>call_pc := Ticked gs\<rparr>))"
  by (rule rsm_ok_move [OF assms]) auto

lemma tick_end_rsm_ok:
  assumes "rsm_ok ops s k R cs" "cs ch = Some c" "submit_tick gs t i R = (r, ans)"
  shows "rsm_ok ops s k r (cs(ch \<mapsto> c\<lparr>call_pc := (case ans of None \<Rightarrow> InSelect | Some a \<Rightarrow> Returned a)\<rparr>))"
proof (rule rsm_ok_move [OF assms(1,2)])
  show "answer_ok ops s (call_index c) a"
    if "call_pc (c\<lparr>call_pc := (case ans of None \<Rightarrow> InSelect | Some a \<Rightarrow> Returned a)\<rparr>) = GotReply a \<or>
      call_pc (c\<lparr>call_pc := (case ans of None \<Rightarrow> InSelect | Some a \<Rightarrow> Returned a)\<rparr>) = Returned a" for a
    using that assms(3) by (auto simp: submit_tick_def answer_ok_def split: prod.splits if_splits option.splits)
qed (use assms(3) in \<open>auto simp: submit_tick_def submit_delete_def split: prod.splits if_splits\<close>)

subsection \<open>The reader\<close>

lemma state_at_Suc: "k < length ops \<Longrightarrow> state_at ops (Suc k) = fst (DoOp (state_at ops k) (op_Req (ops ! k)))"
  by (simp add: state_at_def take_Suc_conv_app_nth)

text \<open>A command: the result goes to the call that waits at its index.  Nothing can block the send.\<close>

lemma read_command:
  assumes ok: "rsm_ok ops s k R cs" and k: "k < length ops"
    and m: "am_CommandValid m" "\<not> am_SnapshotValid m" "am_CommandIndex m = int k + 1" "am_Command m = Some (ops ! k)"
  shows "\<exists>r snap. reader_apply DoOp Snap Rest pb m R = Some (r, snap) \<and> rsm_ok ops s (Suc k) r cs \<and>
     (snap = None \<or> snap = Some (int k + 1, Snap (sm r)))"
proof -
  let ?op = "ops ! k"
  let ?res = "DoOp (sm R) (op_Req ?op)"
  have me: "rsm_me R = s" and v: "view (sm R) = view (state_at ops k)" using ok by (simp_all add: rsm_ok_def)
  have res: "view (fst ?res) = view (state_at ops (Suc k))" "snd ?res = result_at ops k"
    using view_DoOp [OF v, of "op_Req ?op"] by (simp_all add: state_at_Suc [OF k] result_at_def)
  have free: "chans R ch = []" if "waiting R (int k + 1) = Some ch" for ch
  proof (rule ccontr)
    assume "chans R ch \<noteq> []"
    then obtain a where a: "a \<in> set (chans R ch)" by (cases "chans R ch") auto
    obtain c where "cs ch = Some c" "call_index c = int k + 1" using ok \<open>waiting R (int k + 1) = Some ch\<close> unfolding rsm_ok_def by blast
    then show False using ok a by (fastforce simp: rsm_ok_def call_ok_def)
  qed
  obtain r snap where r: "reader_apply DoOp Snap Rest pb m R = Some (r, snap)"
    "sm r = fst ?res" "rsm_me r = rsm_me R" "next_chan r = next_chan R" "waiting r = waiting R"
    and ch: "\<And>ch. chans r ch = (if waiting R (int k + 1) = Some ch \<and> op_Me ?op = rsm_me R
      then [(OK, Some (snd ?res))] else chans R ch)"
    and snap: "snap = None \<or> snap = Some (int k + 1, Snap (sm r))"
  proof -
    obtain r where r: "reply_waiting ?op (int k + 1) (snd ?res) (R\<lparr>sm := fst ?res\<rparr>) = Some r"
      "sm r = fst ?res" "rsm_me r = rsm_me R" "next_chan r = next_chan R" "waiting r = waiting R"
      "\<And>ch. chans r ch = (if waiting R (int k + 1) = Some ch \<and> op_Me ?op = rsm_me R
        then [(OK, Some (snd ?res))] else chans R ch)"
      using reply_waiting_free [of "R\<lparr>sm := fst ?res\<rparr>" "int k + 1" ?op "snd ?res"] free by auto
    let ?snap = "if maxraftstate r \<noteq> -1 \<and> pb \<ge> maxraftstate r then Some (int k + 1, Snap (sm r)) else None"
    show thesis by (rule that [of r ?snap]) (use r m in \<open>auto simp: reader_apply_def Let_def\<close>)
  qed
  have "call_ok ops s (Suc k) r x c" if x: "cs x = Some c" for x c
  proof -
    have old: "call_ok ops s k R x c" using ok x by (simp add: rsm_ok_def)
    have "answer_ok ops s (call_index c) a \<and> call_index c \<le> int (Suc k)" if a: "a \<in> set (chans r x)" for a
    proof (cases "waiting R (int k + 1) = Some x \<and> op_Me ?op = rsm_me R")
      case True
      then have "call_index c = int k + 1" using ok x unfolding rsm_ok_def by fastforce
      then show ?thesis using a ch [of x] True me res(2) k by (simp add: answer_ok_def)
    next
      case False
      then show ?thesis using a ch [of x] old by (fastforce simp: call_ok_def)
    qed
    then show ?thesis using old r(4) by (simp add: call_ok_def)
  qed
  then have "rsm_ok ops s (Suc k) r cs"
    using ok r(2,3,5) res(1) by (simp add: rsm_ok_def)
  with r(1) snap show ?thesis by blast
qed

lemma read_snapshot:
  assumes ok: "rsm_ok ops s k R cs" and m: "\<not> am_CommandValid m" "am_SnapshotValid m"
    and j: "int k < j" "snap_ok ops j (am_Snapshot m)"
  shows "\<exists>r. reader_apply DoOp Snap Rest pb m R = Some (r, None) \<and> rsm_ok ops s (nat j) r cs"
proof -
  obtain t where t: "am_Snapshot m = Snap t" "view t = view (state_at ops (nat j))"
    using j by (auto simp: snap_ok_def split: if_splits)
  let ?r = "R\<lparr>sm := Rest (am_Snapshot m) (sm R)\<rparr>"
  have "call_ok ops s (nat j) ?r x c" if "cs x = Some c" for x c
  proof -
    have "call_ok ops s k R x c" using ok that by (simp add: rsm_ok_def)
    then show ?thesis using j(1) by (fastforce simp: call_ok_def)
  qed
  then have "rsm_ok ops s (nat j) ?r cs"
    using ok t view_Restore by (simp add: rsm_ok_def)
  then show ?thesis using m by (intro exI [of _ ?r]) (simp add: reader_apply_def)
qed

lemma Cons_unread: "k < length xs \<Longrightarrow> drop k xs = xs ! k # drop (Suc k) xs"
  by (rule Cons_nth_drop_Suc [symmetric])

text \<open>Whatever message comes next, the reader reads it, and stays on the log.\<close>

lemma reader_reads:
  assumes inv: "sys_inv ops S" and s: "peer n s" and more: "taken S s < length (applyCh (rc S) s)"
    and free: "snapping S s = None"
  shows "\<exists>r snap. reader_apply DoOp Snap Rest pb (applyCh (rc S) s ! taken S s) (svc S s) = Some (r, snap) \<and>
    sys_inv ops ((set_svc s r S)\<lparr>taken := (taken S)(s := taken S s + 1), snapping := (snapping S)(s := snap)\<rparr>)"
proof -
  let ?m = "applyCh (rc S) s ! taken S s" and ?rest = "drop (Suc (taken S s)) (applyCh (rc S) s)"
  let ?rf = "srv (rc S) s" and ?e = "sent_upto (applying (rc S) s) (srv (rc S) s)"
  note ok = server_okD [OF sys_invD(2) [OF inv s]]
  note unread = Cons_unread [OF more]
  obtain k where k: "k \<le> length ops" "follows ops k (?m # ?rest) ?e" "rsm_ok ops s k (svc S s) (calls S s)"
    using ok(3) by (auto simp: reader_ok_def unread)
  have last: "am_CommandValid m \<Longrightarrow> am_CommandIndex m \<le> lastApplied ?rf" if "m \<in> set (?m # ?rest)" for m
    using ok(3) that unfolding reader_ok_def unread by blast
  have advance: "sys_inv ops ((set_svc s r S)\<lparr>taken := (taken S)(s := taken S s + 1), snapping := (snapping S)(s := snap)\<rparr>)"
    if "j \<le> length ops" "follows ops j ?rest ?e" "rsm_ok ops s j r (calls S s)" "pending_ok ops (lastApplied ?rf) j snap"
    for j r snap
  proof (rule sys_inv_server [OF inv _ s])
    show "server_ok ops ((set_svc s r S)\<lparr>taken := (taken S)(s := taken S s + 1), snapping := (snapping S)(s := snap)\<rparr>) s"
      using ok(1) more that last by (auto simp: server_ok_def reader_ok_def set_svc_def)
  qed (simp_all add: set_svc_def)
  show ?thesis
  proof (cases "am_CommandValid ?m")
    case True
    then have m: "\<not> am_SnapshotValid ?m" "am_CommandIndex ?m = int k + 1" "k < length ops"
      "am_Command ?m = Some (ops ! k)" "follows ops (Suc k) ?rest ?e"
      using k(2) by simp_all
    obtain r snap where r: "reader_apply DoOp Snap Rest pb ?m (svc S s) = Some (r, snap)"
      "rsm_ok ops s (Suc k) r (calls S s)" "snap = None \<or> snap = Some (int k + 1, Snap (sm r))"
      using read_command [OF k(3) m(3) True m(1,2,4), of pb] by blast
    have "pending_ok ops (lastApplied ?rf) (Suc k) snap"
      using r(2,3) m(2,3) last [of ?m] True
      by (auto simp: pending_ok_def snap_ok_def rsm_ok_def nat_add_distrib)
    then show ?thesis using r advance [of "Suc k" r snap] m(3,5) by auto
  next
    case False
    then have m: "am_SnapshotValid ?m" "int k < am_SnapshotIndex ?m"
      "snap_ok ops (am_SnapshotIndex ?m) (am_Snapshot ?m)" "follows ops (nat (am_SnapshotIndex ?m)) ?rest ?e"
      using k(2) by simp_all
    obtain r where "reader_apply DoOp Snap Rest pb ?m (svc S s) = Some (r, None)"
      "rsm_ok ops s (nat (am_SnapshotIndex ?m)) r (calls S s)"
      using read_snapshot [OF k(3) False m(1-3), of pb] by blast
    moreover have "nat (am_SnapshotIndex ?m) \<le> length ops" using m(3) by (simp add: snap_ok_def nat_le_iff)
    ultimately show ?thesis
      using advance [OF _ m(4)] by (auto simp: pending_ok_def)
  qed
qed

lemma sys_inv_take_snapshot:
  assumes inv: "sys_inv ops S" and s: "peer n s" and p: "snapping S s = Some (i, d)"
    and run: "RaftOps.Snapshot i d (srv (rc S) s) = Some rf"
  shows "sys_inv ops (S\<lparr>rc := set_srv s rf (rc S), snapping := (snapping S)(s := None)\<rparr>)"
proof -
  let ?D = "set_srv s rf (rc S)"
  note ok = server_okD [OF sys_invD(2) [OF inv s]]
  have i: "i \<le> lastApplied (srv (rc S) s)" "snap_ok ops i d"
    using ok(3) p by (auto simp: reader_ok_def pending_ok_def)
  have reach: "reachable n ?D"
    by (rule reachable.step [OF sys_invD(1) [OF inv]], rule cstep.snapshot [OF s i(1) run])
  have msgs: "msgs_ok ops ?D" by (rule msgs_ok_same [OF sys_invD(3) [OF inv]]) simp_all
  obtain g where g: "Inv n (rc S) g" using reachable_Inv [OF sys_invD(1) [OF inv]] by blast
  have moved: "sys_inv ops (S\<lparr>rc := ?D\<rparr>)"
    using Snapshot_effect [OF srv_wf [OF g s] run]
  proof (elim disjE conjE)
    assume "quiet (srv (rc S) s) rf"
    then show ?thesis by (intro sys_inv_quiet [OF inv reach msgs]) simp_all
  next
    assume eff: "lastApplied rf = lastApplied (srv (rc S) s)" "cmds (log (srv (rc S) s)) \<longrightarrow> cmds (log rf)"
      "lastIncludedIndex (srv (rc S) s) < i" "lastIncludedIndex rf = i" "ps_snapshot (persister rf) = d"
    have "\<not> applying (rc S) s" using ok(1) eff(3) i(1) by (auto simp: peer_ok_def)
    then show ?thesis
      using eff i(2) by (intro sys_inv_snapshot [OF inv reach msgs s, where rf = rf]) simp_all
  qed
  show ?thesis
  proof (rule sys_inv_server [OF moved _ s])
    from server_okD [OF sys_invD(2) [OF moved s]]
    show "server_ok ops (S\<lparr>rc := ?D, snapping := (snapping S)(s := None)\<rparr>) s"
      by (auto simp: server_ok_def reader_ok_def pending_ok_def)
  qed simp_all
qed

lemma sys_inv_submit:
  assumes inv: "sys_inv ops S" and s: "peer n s"
    and run: "Start (Some op) (srv (rc S) s) = (rf, index, t, isLeader)"
    and sub: "submit_start (index, t, isLeader) (svc S s) = (r, ans)"
  shows "sys_inv ops (set_call s (next_chan (svc S s))
     \<lparr>call_index = index, call_term = t, call_req = req,
      call_pc = (case ans of None \<Rightarrow> InSelect | Some a \<Rightarrow> Returned a)\<rparr>
     (set_svc s r (S\<lparr>rc := set_srv s rf (rc S)\<rparr>)))"
proof -
  obtain g where g: "Inv n (rc S) g" using reachable_Inv [OF sys_invD(1) [OF inv]] by blast
  have reach: "reachable n (set_srv s rf (rc S))"
    by (rule reachable.step [OF sys_invD(1) [OF inv]], rule cstep.start [OF s run])
  have "sys_inv ops (S\<lparr>rc := set_srv s rf (rc S)\<rparr>)"
    by (rule sys_inv_quiet [OF inv reach msgs_ok_same [OF sys_invD(3) [OF inv]] _ _ _
          Start_effect(1) [OF srv_wf [OF g s] run]]) simp_all
  from sys_inv_calls [OF this s, of r "next_chan (svc S s)"] submit_rsm_ok [OF _ sub] show ?thesis by simp
qed

lemma start_svc_ok:
  assumes "snap_ok ops (lastIncludedIndex rf) (ps_snapshot (persister rf))"
  shows "rsm_ok ops s (nat (lastIncludedIndex rf)) (start_svc Rest mrs ini s rf) Map.empty"
proof -
  have "view (sm (start_svc Rest mrs ini s rf)) = view (state_at ops (nat (lastIncludedIndex rf)))"
  proof (cases "lastIncludedIndex rf = 0")
    case True
    then show ?thesis
      using assms ini_view by (simp add: snap_ok_def start_svc_def MakeRSM_def ReadSnapshot_def state_at_def)
  next
    case False
    then obtain t where "ps_snapshot (persister rf) = Snap t"
      "view t = view (state_at ops (nat (lastIncludedIndex rf)))" using assms by (auto simp: snap_ok_def)
    then show ?thesis
      using Snapshot_nonempty view_Restore by (simp add: start_svc_def MakeRSM_def ReadSnapshot_def)
  qed
  then show ?thesis by (simp add: rsm_ok_def start_svc_def MakeRSM_def)
qed

lemma sys_inv_crash:
  assumes inv: "sys_inv ops S" and s: "peer n s"
  shows "sys_inv ops (sys_crash Rest mrs ini s S)"
proof -
  let ?T = "sys_crash Rest mrs ini s S" and ?rf = "srv (rc S) s" and ?D = "crash s (rc S)"
  obtain g where g: "Inv n (rc S) g" using reachable_Inv [OF sys_invD(1) [OF inv]] by blast
  have reach: "reachable n ?D"
    by (rule reachable.step [OF sys_invD(1) [OF inv]], rule cstep.crash_restart [OF s])
  have D: "srv ?D = (srv (rc S))(s := restart ?rf)" "applying ?D = (applying (rc S))(s := False)"
    "applyCh ?D = applyCh (rc S)" "is_reqs ?D = is_reqs (rc S)" "ae_reqs ?D = ae_reqs (rc S)"
    by (simp_all add: crash_def)
  note dur = durableD [OF srv_invD(2) [OF InvD(2) [OF g s]]]
  have pk: "peer_ok ops (applying (rc S) s) ?rf" by (rule server_okD(1) [OF sys_invD(2) [OF inv s]])
  then have snap: "snap_ok ops (lastIncludedIndex (restart ?rf)) (ps_snapshot (persister (restart ?rf)))"
    by (simp add: peer_ok_def dur)
  have bounds: "0 \<le> lastIncludedIndex ?rf" "lastIncludedIndex ?rf \<le> int (length ops)"
    using snap by (simp_all add: snap_ok_def dur)
  have "server_ok ops ?T s"
    unfolding server_ok_def reader_ok_def
  proof (intro conjI exI [of _ "nat (lastIncludedIndex (restart ?rf))"])
    show "peer_ok ops (applying (rc ?T) s) (srv (rc ?T) s)"
      using pk snap bounds by (simp add: peer_ok_def sys_crash_def D dur)
    show "rsm_ok ops s (nat (lastIncludedIndex (restart ?rf))) (svc ?T s) (calls ?T s)"
      using start_svc_ok [OF snap, of s] by (simp add: sys_crash_def D)
  qed (use bounds in \<open>simp_all add: sys_crash_def D dur sent_upto_def pending_ok_def\<close>)
  moreover have "server_ok ops ?T p" if "peer n p" "p \<noteq> s" for p
    using sys_invD(2) [OF inv that(1)] that(2) by (simp add: server_ok_def sys_crash_def D)
  moreover have "msgs_ok ops ?D" by (rule msgs_ok_same [OF sys_invD(3) [OF inv]]) (simp_all add: D)
  moreover have "complete ops ?D" using sys_invD(4) [OF inv] by (simp add: complete_def D)
  ultimately show ?thesis using reach by (auto simp: sys_inv_def sys_crash_def)
qed

lemma sys_inv_init: "sys_inv [] (rsys_init Rest mrs ini n)"
proof -
  let ?C = "init_cluster n :: ('req Op, 'b) cluster"
  have rf: "lastApplied (srv ?C s) = 0" "lastIncludedIndex (srv ?C s) = 0"
    "ps_snapshot (persister (srv ?C s)) = []" "cmds (log (srv ?C s))" for s
    by (simp_all add: init_cluster_def Make_def readPersist_def MakePersister_def cmds_def ReadRaftState_def)
  have "server_ok [] (rsys_init Rest mrs ini n) s" for s
  proof -
    have "snap_ok [] (lastIncludedIndex (srv ?C s)) (ps_snapshot (persister (srv ?C s)))"
      unfolding snap_ok_def rf by simp
    from start_svc_ok [OF this, of s]
    have "rsm_ok [] s 0 (start_svc Rest mrs ini s (srv ?C s)) Map.empty"
      unfolding rf(2) by simp
    then show ?thesis
      using rf [of s]
      by (simp add: server_ok_def reader_ok_def peer_ok_def rsys_init_def snap_ok_def sent_upto_def pending_ok_def)
  qed
  then show ?thesis
    by (simp add: sys_inv_def rsys_init_def msgs_ok_def complete_def reachable.init)
qed

lemma sys_inv_step:
  assumes inv: "sys_inv ops S" and run: "rsys_step DoOp Snap Rest mrs ini n S T" and io: "in_order (rc S) (rc T)"
  shows "\<exists>xs. sys_inv (ops @ xs) T"
proof -
  have stay: "\<exists>xs. sys_inv (ops @ xs) T" if "sys_inv ops T" using that by (metis append_Nil2)
  from run show ?thesis
  proof cases
    case (s_peers D)
    then show ?thesis using sys_inv_peer_step [OF inv] io by simp
  next
    case (s_submit s req rf index t isLeader r ans)
    show ?thesis by (rule stay, unfold s_submit(1), rule sys_inv_submit [OF inv s_submit(2-4)])
  next
    case (s_recv s ch c r rep)
    show ?thesis
      by (rule stay, unfold s_recv(1), rule sys_inv_calls [OF inv s_recv(2)], rule recv_rsm_ok [where cs = "calls S s", OF _ s_recv(3,5)])
  next
    case (s_recv_end s ch c rep)
    show ?thesis
      by (rule stay, unfold s_recv_end(1), rule sys_inv_calls [OF inv s_recv_end(2)],
          rule recv_end_rsm_ok [where cs = "calls S s", OF _ s_recv_end(3,4)])
  next
    case (s_tick s ch c)
    have "sys_inv ops (set_call s ch (c\<lparr>call_pc := Ticked (GetState (srv (rc S) s))\<rparr>) (set_svc s (svc S s) S))"
      by (rule sys_inv_calls [OF inv s_tick(2)], rule tick_rsm_ok [where cs = "calls S s", OF _ s_tick(3)])
    then show ?thesis by (intro stay) (simp add: s_tick(1) set_svc_def)
  next
    case (s_tick_end s ch c gs r ans)
    show ?thesis
      by (rule stay, unfold s_tick_end(1), rule sys_inv_calls [OF inv s_tick_end(2)],
          rule tick_end_rsm_ok [where cs = "calls S s", OF _ s_tick_end(3,5)])
  next
    case (s_read s pb r snap)
    from reader_reads [OF inv s_read(2-4), of pb] s_read(5) show ?thesis
      by (intro stay) (simp add: s_read(1))
  next
    case (s_snapshot s index data rf)
    show ?thesis by (rule stay, unfold s_snapshot(1), rule sys_inv_take_snapshot [OF inv s_snapshot(2-4)])
  next
    case (s_crash s)
    show ?thesis by (rule stay, unfold s_crash(1), rule sys_inv_crash [OF inv s_crash(2)])
  qed
qed

lemma sys_inv_steps:
  assumes "rsys_steps DoOp Snap Rest mrs ini n S T" "sys_inv ops S"
  shows "\<exists>xs. sys_inv (ops @ xs) T"
  using assms(1) unfolding rsys_steps_def
proof (induction rule: rtranclp_induct)
  case base
  then show ?case using assms(2) by (metis append_Nil2)
next
  case (step T U)
  then obtain xs where "sys_inv (ops @ xs) T" by blast
  then show ?case using sys_inv_step step.hyps(2) by (metis append.assoc)
qed

text \<open>What the invariant says in the terms of \<open>executes_log\<close>.\<close>

lemma sys_inv_executes:
  assumes inv: "sys_inv ops S"
  shows "executes_log DoOp view s0 n ops S"
proof -
  have at: "state_at ops k = run_ops DoOp s0 (take k ops)" for k
    by (simp add: state_at_def run_def run_ops_def fold_map comp_def)
  have server: "\<exists>k \<le> length ops. view (sm (svc S s)) = view (run_ops DoOp s0 (take k ops)) \<and>
      rsm_ok ops s k (svc S s) (calls S s)" if "peer n s" for s
    using server_okD(3) [OF sys_invD(2) [OF inv that]] by (auto simp: reader_ok_def rsm_ok_def at)
  have "answered_from_log DoOp s0 ops s c" if s: "peer n s" and c: "calls S s ch = Some c" for s ch c
  proof -
    obtain k where "rsm_ok ops s k (svc S s) (calls S s)" using server [OF s] by blast
    then have "call_ok ops s k (svc S s) ch c" using c by (simp add: rsm_ok_def)
    then show ?thesis
      by (auto simp: answered_from_log_def call_ok_def answer_ok_def result_at_def at)
  qed
  moreover have "\<exists>Q. majority n Q \<and> Q \<subseteq> {p. holds_command (srv (rc S) p) (int j + 1) (Some (ops ! j))}"
    if j: "j < length ops" for j
  proof -
    obtain s m where m: "m \<in> set (applyCh (rc S) s)" "am_CommandValid m" "am_CommandIndex m = int j + 1"
      using sys_invD(4) [OF inv] j unfolding complete_def by blast
    have "am_Command m = Some (ops ! j)" using msgs_okD(3) [OF sys_invD(3) [OF inv] m(1,2)] m(3) by simp
    then show ?thesis using applied_on_majority [OF sys_invD(1) [OF inv] m(1,2)] m(3) by simp
  qed
  ultimately show ?thesis using server unfolding executes_log_def by blast
qed

text \<open>One list of operations for all the runs that go on from a state.\<close>

lemma log_of_all_runs:
  assumes "rsys_steps DoOp Snap Rest mrs ini n (rsys_init Rest mrs ini n) S"
  shows "\<exists>ops. executes_log DoOp view s0 n ops S \<and>
    (\<forall>T. rsys_steps DoOp Snap Rest mrs ini n S T \<longrightarrow> (\<exists>xs. executes_log DoOp view s0 n (ops @ xs) T))"
proof -
  obtain ops where ops: "sys_inv ops S"
    using sys_inv_steps [OF assms sys_inv_init] by auto
  show ?thesis
    using sys_inv_steps [OF _ ops] sys_inv_executes [OF ops] sys_inv_executes by blast
qed

lemma peers_reachable:
  assumes "rsys_steps DoOp Snap Rest mrs ini n (rsys_init Rest mrs ini n) S"
  shows "reachable n (rc S)"
  using sys_inv_steps [OF assms sys_inv_init] by (auto simp: sys_inv_def)

lemma one_log:
  assumes "rsys_steps DoOp Snap Rest mrs ini n (rsys_init Rest mrs ini n) S"
    and "rsys_steps DoOp Snap Rest mrs ini n S T"
  shows "\<exists>ops xs. executes_log DoOp view s0 n ops S \<and> executes_log DoOp view s0 n (ops @ xs) T"
  using log_of_all_runs [OF assms(1)] assms(2) by blast

lemma reader_never_stuck:
  assumes "rsys_steps DoOp Snap Rest mrs ini n (rsys_init Rest mrs ini n) S"
    and "peer n s" "taken S s < length (applyCh (rc S) s)" "snapping S s = None"
  shows "\<exists>r snap. reader_apply DoOp Snap Rest pb (applyCh (rc S) s ! taken S s) (svc S s) = Some (r, snap)"
proof -
  obtain ops where "sys_inv ops S" using sys_inv_steps [OF assms(1) sys_inv_init] by blast
  from reader_reads [OF this assms(2-4)] show ?thesis by blast
qed

end

end
