(* ===== verification/StackGroup.thy ===== *)
theory StackGroup
  imports TestConfig RsmSystem
begin

text \<open>
  The test framework's groups of servers (\<open>TestGroup\<close>, \<open>TestConfig\<close>) run the stack of \<open>RsmSystem\<close>:
  the servers of a new group are the first state of the stack, and shutting a group down and
  starting it again is a crash of all its servers.  Proved once for every replicated service, in
  its locale.
\<close>

section \<open>What a server starts\<close>

text \<open>The services of a server: the replicated service with its state machine layer, and the peer.\<close>

datatype ('rep, 's, 'req, 'b) stack_service = StackService "('rep, 's) RSM" | StackPeer "('req Op, 'b) Raft"

definition start_stack :: "('b list \<Rightarrow> 's \<Rightarrow> 's) \<Rightarrow> int \<Rightarrow> (int \<Rightarrow> 's) \<Rightarrow> string ClientEnd list \<Rightarrow> int \<Rightarrow>
    ('req Op gob_raft, 'b) Persister \<Rightarrow> ('rep, 's, 'req, 'b) stack_service list" where
  "start_stack Rest mrs ini ends i ps =
     [StackService (MakeRSM Rest i ps mrs (ini i)), StackPeer (Make (int (length ends)) i ps)]"

text \<open>
  A group whose services are those of a state of the stack; \<open>f\<close> makes them services of the test,
  which may have others.
\<close>

definition runs_stack :: "(('rep, 's, 'req, 'b) stack_service \<Rightarrow> 'v) \<Rightarrow> nat \<Rightarrow>
    ('req Op gob_raft, 'b, 'v) ServerGrp \<Rightarrow> ('req, 'rep, 's, 'b) rsys \<Rightarrow> bool" where
  "runs_stack f n sg S \<longleftrightarrow> (\<forall>i<n. ts_svcs (sg_srvs sg ! i) =
     map f [StackService (svc S (int i)), StackPeer (srv (rc S) (int i))])"

lemma persister_Make [simp]: "persister (Make n i ps) = ps"
  by (simp add: Make_def readPersist_def split: option.splits)

lemma group_up_stack:
  assumes up: "group_up mks ps n sg rn" and i: "i < n"
    and mks: "\<And>ends i ps. mks ends (sg_gid sg) i ps = map f (start_stack Rest mrs ini ends i ps)"
  shows "ts_svcs (sg_srvs sg ! i) = map f [StackService (start_svc Rest mrs ini (int i) (Make (int n) (int i) (ps i))),
     StackPeer (Make (int n) (int i) (ps i))]"
proof -
  have ok: "group_ok (int n) sg" using up by (simp add: group_up_def)
  have "map ce_endname (ts_clntEnds (sg_srvs sg ! i)) = ts_endNames (sg_srvs sg ! i)"
    "ts_svcs (sg_srvs sg ! i) = mks (ts_clntEnds (sg_srvs sg ! i)) (sg_gid sg) (int i) (ps i)"
    using up i by (simp_all add: group_up_def)
  moreover from this(1) have "length (ts_clntEnds (sg_srvs sg ! i)) = n"
    using group_okD(4) [OF ok, of "int i"] i by (metis length_map nat_int of_nat_0_le_iff of_nat_less_iff)
  ultimately show ?thesis by (simp add: mks start_stack_def start_svc_def)
qed

text \<open>A new group runs the first state.\<close>

lemma new_group_stack:
  assumes "group_up mks (\<lambda>_. MakePersister) n sg rn"
    and "\<And>ends i ps. mks ends (sg_gid sg) i ps = map f (start_stack Rest mrs ini ends i ps)"
  shows "runs_stack f n sg (rsys_init Rest mrs ini (int n))"
  using group_up_stack [OF assms(1) _ assms(2)] by (simp add: runs_stack_def rsys_init_def init_cluster_def)

section \<open>A crash of all servers\<close>

definition crash_all :: "('b list \<Rightarrow> 's \<Rightarrow> 's) \<Rightarrow> int \<Rightarrow> (int \<Rightarrow> 's) \<Rightarrow> int list \<Rightarrow> ('req, 'rep, 's, 'b) rsys \<Rightarrow>
    ('req, 'rep, 's, 'b) rsys" where
  "crash_all Rest mrs ini is S = fold (sys_crash Rest mrs ini) is S"

lemma sys_crash_in_order: "in_order (rc S) (rc (sys_crash Rest mrs ini s S))"
  by (simp add: in_order_def sys_crash_def crash_def set_srv_def)

lemma crash_all_steps:
  "set is \<subseteq> {p. peer n p} \<Longrightarrow> rsys_steps DoOp Snap Rest mrs ini n S (crash_all Rest mrs ini is S)"
proof (induction "is" rule: rev_induct)
  case (snoc i "is")
  have "rsys_step DoOp Snap Rest mrs ini n (crash_all Rest mrs ini is S) (sys_crash Rest mrs ini i (crash_all Rest mrs ini is S))"
    using snoc.prems by (intro rsys_step.s_crash) simp
  then show ?case using snoc rsys_steps_step [OF _ _ sys_crash_in_order] by (auto simp: crash_all_def)
qed (simp add: crash_all_def)

lemma crash_all_srv:
  "distinct is \<Longrightarrow> srv (rc (crash_all Rest mrs ini is S)) i = (if i \<in> set is then restart (srv (rc S) i) else srv (rc S) i)"
  "distinct is \<Longrightarrow> svc (crash_all Rest mrs ini is S) i =
     (if i \<in> set is then start_svc Rest mrs ini i (restart (srv (rc S) i)) else svc S i)"
  by (induction "is" rule: rev_induct) (auto simp: crash_all_def sys_crash_def crash_def set_srv_def)

text \<open>What a group started from the peers' persisters runs.\<close>

lemma restarted_group_stack:
  assumes reach: "reachable (int n) (rc S)"
    and up: "group_up mks (\<lambda>i. persister (srv (rc S) (int i))) n sg rn"
    and mks: "\<And>ends i ps. mks ends (sg_gid sg) i ps = map f (start_stack Rest mrs ini ends i ps)"
  shows "runs_stack f n sg (crash_all Rest mrs ini (peer_ids (int n)) S)"
proof -
  obtain g where g: "Inv (int n) (rc S) g" using reachable_Inv reach by blast
  have ids: "distinct (peer_ids (int n))" by (simp add: peer_ids_upt distinct_map)
  have "restart (srv (rc S) (int i)) = Make (int n) (int i) (persister (srv (rc S) (int i)))" if "i < n" for i
    using srv_wf [OF g, of "int i"] that by (simp add: restart_def raft_wf_def peer_def)
  then show ?thesis
    using group_up_stack [OF up _ mks] ids by (simp add: runs_stack_def crash_all_srv)
qed

context replicated_service
begin

text \<open>
  A group whose persisters hold what the peers of a run have saved is shut down and started again:
  it goes on with a state of the stack in which the same log continues.
\<close>

lemma restart_continues:
  assumes run: "rsys_steps DoOp Snap Rest mrs ini (int k) (rsys_init Rest mrs ini (int k)) S" and k: "n = int k"
    and grp: "group_ok (int k) sg" "fresh_ends rnd tn"
    and saved: "\<forall>i<k. ts_saved (sg_srvs sg ! i) = Some (persister (srv (rc S) (int i)))"
    and mks: "\<And>ends i ps. mks ends (sg_gid sg) i ps = map f (start_stack Rest mrs ini ends i ps)"
  shows "\<exists>sg1 rn1 killed sg2 tn2 S' ops. Shutdown (sg, tn_net tn) = Some (sg1, rn1, killed) \<and>
    StartServers rnd mks mk (sg1, tn\<lparr>tn_net := rn1\<rparr>) = Some (sg2, tn2) \<and>
    group_up mks (\<lambda>i. persister (srv (rc S) (int i))) k sg2 (tn_net tn2) \<and>
    rsys_steps DoOp Snap Rest mrs ini (int k) S S' \<and> runs_stack f k sg2 S' \<and>
    executes_log DoOp view s0 (int k) ops S \<and>
    (\<forall>T. rsys_steps DoOp Snap Rest mrs ini (int k) S' T \<longrightarrow>
       (\<exists>xs. executes_log DoOp view s0 (int k) (ops @ xs) T))"
proof -
  let ?is = "peer_ids (int k)" and ?ps = "\<lambda>i. persister (srv (rc S) (int i))"
  let ?S = "crash_all Rest mrs ini ?is S"
  obtain sg1 rn1 killed sg2 tn2 where 1: "Shutdown (sg, tn_net tn) = Some (sg1, rn1, killed)"
    "StartServers rnd mks mk (sg1, tn\<lparr>tn_net := rn1\<rparr>) = Some (sg2, tn2)" "sg_gid sg2 = sg_gid sg"
    "group_up mks (\<lambda>i. last_saved (sg_srvs sg ! i)) k sg2 (tn_net tn2)"
    using restart_keeps_persisted [OF grp, of mks mk] by blast
  have up: "group_up mks ?ps k sg2 (tn_net tn2)" using 1(4) saved by (simp add: group_up_def last_saved_def)
  have crashed: "rsys_steps DoOp Snap Rest mrs ini (int k) S ?S"
    by (rule crash_all_steps) (simp add: subset_eq peer_def)
  have "reachable (int k) (rc S)" using peers_reachable run unfolding k .
  then have stack: "runs_stack f k sg2 ?S"
    by (rule restarted_group_stack [OF _ up]) (simp add: 1(3) mks)
  obtain ops where "executes_log DoOp view s0 (int k) ops S"
    "\<forall>T. rsys_steps DoOp Snap Rest mrs ini (int k) S T \<longrightarrow> (\<exists>xs. executes_log DoOp view s0 (int k) (ops @ xs) T)"
    using log_of_all_runs run unfolding k by blast
  moreover have "rsys_steps DoOp Snap Rest mrs ini (int k) S T" if "rsys_steps DoOp Snap Rest mrs ini (int k) ?S T" for T
    using crashed that by (rule rsys_steps_trans)
  ultimately show ?thesis using 1(1,2) up crashed stack by blast
qed

end

text \<open>The persisters of the servers are shared with the peers: what a peer saves is in its server's.\<close>

definition with_saved :: "(nat \<Rightarrow> ('r, 's) Persister) \<Rightarrow> ('r, 's, 'v) ServerGrp \<Rightarrow> ('r, 's, 'v) ServerGrp" where
  "with_saved ps sg = sg\<lparr>sg_srvs := map (\<lambda>i. (sg_srvs sg ! i)\<lparr>ts_saved := Some (ps i)\<rparr>) [0..<length (sg_srvs sg)]\<rparr>"

lemma with_saved_ok:
  assumes "group_ok (int n) sg"
  shows "group_ok (int n) (with_saved ps sg)" "i < n \<Longrightarrow> ts_saved (sg_srvs (with_saved ps sg) ! i) = Some (ps i)"
proof -
  have n: "length (sg_srvs sg) = n" using group_okD(2) [OF assms] by simp
  have "end_name (with_saved ps sg) x y = end_name sg x y" if "(x, y) \<in> {0..<int n} \<times> {0..<int n}" for x y
    using that n by (auto simp: end_name_def with_saved_def)
  then have "inj_on (\<lambda>(i, j). end_name (with_saved ps sg) i j) ({0..<int n} \<times> {0..<int n})"
    using assms by (auto simp: group_ok_def inj_on_def)
  then show "group_ok (int n) (with_saved ps sg)"
    using assms n by (auto simp: group_ok_def with_saved_def)
  show "ts_saved (sg_srvs (with_saved ps sg) ! i) = Some (ps i)" if "i < n"
    using that n by (simp add: with_saved_def)
qed

end
