(* ===== verification/RsmDemo.thy ===== *)
theory RsmDemo
  imports RsmSystem
begin

text \<open>
  A run of the stack of \<open>RsmSystem\<close> for any service: a cluster of three elects server 0, which is
  given a request, replicates and executes it, and answers.  The witnesses of the theorems about
  the replicated services use it.
\<close>

lemma peers_run:
  assumes "demo_step\<^sup>*\<^sup>* C D"
  shows "rsys_steps DoOp Snap Rest mrs ini 3 (S\<lparr>rc := C\<rparr>) (S\<lparr>rc := D\<rparr>)"
  using assms
proof (induction rule: rtranclp_induct)
  case base
  show ?case by (simp add: rsys_steps_def)
next
  case (step D E)
  have "rsys_step DoOp Snap Rest mrs ini 3 (S\<lparr>rc := D\<rparr>) ((S\<lparr>rc := D\<rparr>)\<lparr>rc := E\<rparr>)"
    using step.hyps(2) by (intro s_peers) (simp add: demo_step_def)
  moreover have "in_order D E" using step.hyps(2) by (simp add: demo_step_def in_order_def)
  ultimately show ?case
    using rsys_steps_step [OF step.IH] by simp
qed

definition demo_op :: "'req \<Rightarrow> 'req Op" where
  "demo_op req = \<lparr>op_Me = 0, op_Req = req\<rparr>"

definition demo_call :: "'req \<Rightarrow> 'rep call_pc \<Rightarrow> ('req, 'rep) call" where
  "demo_call req pc = \<lparr>call_index = 1, call_term = 1, call_req = req, call_pc = pc\<rparr>"

lemma rsys_init_sel:
  "rc (rsys_init Rest mrs ini n) = init_cluster n" "taken (rsys_init Rest mrs ini n) = (\<lambda>_. 0)"
  "snapping (rsys_init Rest mrs ini n) = (\<lambda>_. None)" "calls (rsys_init Rest mrs ini n) = (\<lambda>_. Map.empty)"
  "svc (rsys_init Rest mrs ini n) s = \<lparr>rsm_me = s, maxraftstate = mrs, sm = ini s, waiting = Map.empty,
     chans = (\<lambda>_. []), next_chan = 0\<rparr>"
  by (simp_all add: rsys_init_def start_svc_def MakeRSM_def)

lemma service_run_demo:
  fixes DoOp :: "'s \<Rightarrow> 'req \<Rightarrow> 's \<times> 'rep" and Snap :: "'s \<Rightarrow> 'b list" and Rest :: "'b list \<Rightarrow> 's \<Rightarrow> 's"
    and ini :: "int \<Rightarrow> 's" and req :: "'req"
  shows "\<exists>S. rsys_steps DoOp Snap Rest (-1) ini 3 (rsys_init Rest (-1) ini 3) S \<and>
     calls S 0 0 = Some (demo_call req (Returned (OK, Some (snd (DoOp (ini 0) req))))) \<and>
     sm (svc S 0) = fst (DoOp (ini 0) req) \<and> applyCh (rc S) 0 = [command_msg 1 (Some (demo_op req))]"
proof -
  let ?run = "rsys_steps DoOp Snap Rest (-1) ini 3"
  let ?step = "rsys_step DoOp Snap Rest (-1) ini 3"
  let ?op = "demo_op req" and ?ok = "(OK, Some (snd (DoOp (ini 0) req)))"
  define S0 :: "('req, 'rep, 's, 'b) rsys" where "S0 = rsys_init Rest (-1) ini 3"
  define r1 where "r1 = (svc S0 0)\<lparr>waiting := [1 \<mapsto> 0], chans := (\<lambda>_. []), next_chan := 1\<rparr>"
  define S1 where "S1 = set_call 0 0 (demo_call req InSelect) (set_svc 0 r1 (S0\<lparr>rc := demo_started_of ?op\<rparr>))"
  define S2 where "S2 = S1\<lparr>rc := demo_final_of ?op\<rparr>"
  define r2 where "r2 = r1\<lparr>sm := fst (DoOp (ini 0) req), chans := (\<lambda>_. [])(0 := [?ok])\<rparr>"
  define S3 where "S3 = (set_svc 0 r2 S2)\<lparr>taken := (taken S2)(0 := taken S2 0 + 1), snapping := (snapping S2)(0 := None)\<rparr>"
  define S4 where "S4 = set_call 0 0 ((demo_call req InSelect)\<lparr>call_pc := GotReply ?ok\<rparr>)
    (set_svc 0 (r2\<lparr>chans := (chans r2)(0 := [])\<rparr>) S3)"
  define S5 where "S5 = set_call 0 0 ((demo_call req (GotReply ?ok))\<lparr>call_pc := Returned ?ok\<rparr>)
    (set_svc 0 (submit_delete (call_index (demo_call req (GotReply ?ok))) (svc S4 0)) S4)"
  have init: "S0\<lparr>rc := init_cluster 3\<rparr> = S0" by (simp add: S0_def rsys_init_def)
  have a: "?run S0 (S0\<lparr>rc := demo_elect_of\<rparr>)" using peers_run [OF demo_elect_steps, where S = S0] by (simp add: init)
  have b: "?step (S0\<lparr>rc := demo_elect_of\<rparr>) S1"
  proof -
    let ?S = "S0\<lparr>rc := demo_elect_of\<rparr>"
    have 1: "Start (Some \<lparr>op_Me = rsm_me (svc ?S 0), op_Req = req\<rparr>) (srv (rc ?S) 0) =
      (demo_peer 0 Leader (demo_log_of ?op) 0 0 [1, 1, 1] [0, 0, 0] 0 1, 1, 1, True)"
      using demo_Start [of ?op] by (simp add: S0_def rsys_init_sel demo_op_def)
    have 2: "submit_start (1, 1, True) (svc ?S 0) = (r1, None)"
      by (simp add: submit_start_def S0_def rsys_init_sel r1_def fun_eq_iff Let_def)
    have "S1 = set_call 0 (next_chan (svc ?S 0))
        \<lparr>call_index = 1, call_term = 1, call_req = req,
         call_pc = (case None of None \<Rightarrow> InSelect | Some a \<Rightarrow> Returned a)\<rparr>
        (set_svc 0 r1 (?S\<lparr>rc := set_srv 0 (demo_peer 0 Leader (demo_log_of ?op) 0 0 [1, 1, 1] [0, 0, 0] 0 1) (rc ?S)\<rparr>))"
      by (simp add: S1_def S0_def rsys_init_sel demo_call_def demo_started_of_def)
    with s_submit [OF peer3(1) 1 2] show ?thesis by simp
  qed
  have b': "in_order (rc (S0\<lparr>rc := demo_elect_of\<rparr>)) (rc S1)" by (simp add: in_order_def)
  have c: "?run S1 S2"
  proof -
    have "rc S1 = demo_started_of ?op" by (simp add: S1_def set_call_def set_svc_def)
    then have "S1\<lparr>rc := demo_started_of ?op\<rparr> = S1" by (cases S1) simp
    with peers_run [OF rtranclp_trans [OF demo_replicate_steps demo_final_steps], where S = S1] show ?thesis
      unfolding S2_def by metis
  qed
  have d: "?step S2 S3"
  proof -
    have "reader_apply DoOp Snap Rest 0
        (applyCh (rc S2) 0 ! taken S2 0) (svc S2 0) = Some (r2, None)"
      by (simp add: S2_def S1_def set_call_def set_svc_def S0_def rsys_init_sel reader_apply_def command_msg_def
          reply_waiting_def send_def r1_def r2_def demo_op_def Let_def fun_eq_iff)
    from s_read [OF peer3(1) _ _ this] show ?thesis
      unfolding S3_def by (simp add: S2_def S1_def set_call_def set_svc_def S0_def rsys_init_sel)
  qed

  have e: "?step S3 S4"
    unfolding S4_def
    by (rule s_recv) (simp_all add: S3_def S2_def S1_def set_call_def set_svc_def demo_call_def submit_recv_def r2_def)
  have f: "?step S4 S5"
    unfolding S5_def
    by (rule s_recv_end) (simp_all add: S4_def S3_def S2_def S1_def set_call_def set_svc_def demo_call_def)
  have io: "in_order (rc S2) (rc S3)" "in_order (rc S3) (rc S4)" "in_order (rc S4) (rc S5)"
    by (simp_all add: in_order_def S3_def S4_def S5_def set_call_def set_svc_def)
  have "?run S0 S5"
    by (rule rsys_steps_step [OF rsys_steps_step [OF rsys_steps_step [OF rsys_steps_trans
          [OF rsys_steps_step [OF a b b'] c] d io(1)] e io(2)] f io(3)])
  moreover have "sm (svc S5 0) = fst (DoOp (ini 0) req)"
    by (simp add: S5_def S4_def S3_def S2_def S1_def set_call_def set_svc_def submit_delete_def r2_def)
  moreover have "calls S5 0 0 = Some (demo_call req (Returned ?ok))" "applyCh (rc S5) 0 = [command_msg 1 (Some ?op)]"
    by (simp_all add: S5_def S4_def S3_def S2_def S1_def set_call_def set_svc_def demo_call_def)
  ultimately show ?thesis unfolding S0_def by blast
qed

end
