(* ===== verification/KvSystem.thy ===== *)
theory KvSystem
  imports StackGroup RsmDemo KvRaft ShardGrp
begin

text \<open>
  The services of labs 4 and 5 on the whole stack of \<open>RsmSystem\<close>: the replicated key/value server
  (\<open>kvraft1/server.go\<close>) and the shard group server (\<open>shardkv1/shardgrp/server.go\<close>), each on a
  cluster of Raft peers with the replicated state machine layer.  Both interpret the locale
  \<open>replicated_service\<close>.
\<close>

section \<open>The key/value service\<close>

definition new_kv :: "int \<Rightarrow> KVRaftServer" where
  "new_kv s = \<lparr>kr_me = s, kr_dead = 0, kr_table = Map.empty\<rparr>"

lemma StartKVRaft_start_svc: "StartKVRaft s (persister rf) mrs = start_svc KVRaft_Restore mrs new_kv s rf"
  by (simp add: StartKVRaft_def start_svc_def new_kv_def)

interpretation kvraft: durable_machine KVRaft_DoOp KVRaft_Snapshot KVRaft_Restore kr_table
  by unfold_locales (simp add: KVRaft_Snapshot_def)

interpretation kvsys: replicated_service KVRaft_DoOp KVRaft_Snapshot KVRaft_Restore kr_table mrs new_kv "new_kv 0" n
  for mrs n
  by unfold_locales (simp add: new_kv_def)

definition kv_init :: "int \<Rightarrow> int \<Rightarrow> (kv_req, kv_rep, KVRaftServer, gob_table) rsys" where
  "kv_init mrs n = rsys_init KVRaft_Restore mrs new_kv n"

text \<open>Runs in order, and all runs.\<close>

definition kv_runs :: "int \<Rightarrow> int \<Rightarrow> (kv_req, kv_rep, KVRaftServer, gob_table) rsys \<Rightarrow>
    (kv_req, kv_rep, KVRaftServer, gob_table) rsys \<Rightarrow> bool" where
  "kv_runs mrs n = rsys_steps KVRaft_DoOp KVRaft_Snapshot KVRaft_Restore mrs new_kv n"

definition kv_runs_all :: "int \<Rightarrow> int \<Rightarrow> (kv_req, kv_rep, KVRaftServer, gob_table) rsys \<Rightarrow>
    (kv_req, kv_rep, KVRaftServer, gob_table) rsys \<Rightarrow> bool" where
  "kv_runs_all mrs n = (rsys_step KVRaft_DoOp KVRaft_Snapshot KVRaft_Restore mrs new_kv n)\<^sup>*\<^sup>*"

section \<open>A run\<close>

text \<open>The run of \<open>RsmDemo\<close> with a \<open>Put\<close>.\<close>

definition demo_put :: kv_req where
  "demo_put = PutReq \<lparr>pa_Key = ''k'', pa_Value = ''x'', pa_Version = 0\<rparr>"

definition demo_ok :: "kv_rep opReply" where
  "demo_ok = (OK, Some (PutRep \<lparr>pr_Err = OK\<rparr>))"

lemma kv_run_demo:
  "\<exists>S. kv_runs (-1) 3 (kv_init (-1) 3) S \<and> calls S 0 0 = Some (demo_call demo_put (Returned demo_ok))"
proof -
  have "snd (KVRaft_DoOp (new_kv 0) demo_put) = PutRep \<lparr>pr_Err = OK\<rparr>"
    by (simp add: KVRaft_DoOp_def new_kv_def demo_put_def)
  then show ?thesis
    using service_run_demo [of KVRaft_DoOp KVRaft_Snapshot KVRaft_Restore new_kv demo_put]
    by (auto simp: kv_runs_def kv_init_def demo_ok_def)
qed

section \<open>Properties\<close>

text \<open>
  C8 (one log for the replicated key/value service).  Take any run of the whole stack - Raft peers
  over a network that loses, delays and repeats messages, the state machine layer, the key/value
  servers, calls of \<open>Submit\<close>, snapshots, crashes and restarts - in which no newer snapshot is
  installed at a peer while its applier is sending an older one.  Then there is one list of
  operations, which only grows: every server's table is that of executing a prefix of it, each
  operation is held by a majority, and a \<open>Submit\<close> that returned \<open>OK\<close> was answered with the result
  of executing the list up to its index, at which there is an operation of that server.
\<close>

theorem kv_servers_execute_one_log:
  assumes "kv_runs mrs n (kv_init mrs n) S" and "kv_runs mrs n S T"
  shows "\<exists>ops xs. executes_log KVRaft_DoOp kr_table (new_kv 0) n ops S \<and>
    executes_log KVRaft_DoOp kr_table (new_kv 0) n (ops @ xs) T"
  using kvsys.one_log assms unfolding kv_runs_def kv_init_def .

theorem kv_servers_execute_one_log_witness:
  "\<exists>S ops c. kv_runs (-1) 3 (kv_init (-1) 3) S \<and> calls S 0 0 = Some c \<and>
     call_pc c = Returned (OK, Some (PutRep \<lparr>pr_Err = OK\<rparr>)) \<and> call_index c = 1 \<and> ops \<noteq> [] \<and>
     op_Me (ops ! 0) = 0 \<and> executes_log KVRaft_DoOp kr_table (new_kv 0) 3 ops S"
proof -
  obtain S where S: "kv_runs (-1) 3 (kv_init (-1) 3) S" "calls S 0 0 = Some (demo_call demo_put (Returned demo_ok))"
    using kv_run_demo by blast
  have "kv_runs (-1) 3 S S" by (simp add: kv_runs_def)
  from kv_servers_execute_one_log [OF S(1) this] obtain ops where
    ops: "executes_log KVRaft_DoOp kr_table (new_kv 0) 3 ops S" by blast
  then have "answered_from_log KVRaft_DoOp (new_kv 0) ops 0 (demo_call demo_put (Returned demo_ok))"
    using S(2) peer3(1) unfolding executes_log_def by blast
  then have "ops \<noteq> [] \<and> op_Me (ops ! 0) = 0" by (auto simp: answered_from_log_def demo_call_def demo_ok_def)
  with S ops show ?thesis
    by (intro exI [of _ S] exI [of _ ops] exI [of _ "demo_call demo_put (Returned demo_ok)"])
      (simp add: demo_call_def demo_ok_def)
qed

text \<open>
  C10 (without snapshots, in every run).  When the service does not take snapshots
  (\<open>maxraftstate = -1\<close>) the same holds of all runs, without any condition on their order; and the
  reader of a server neither fails on a message nor blocks on a reply: whatever message comes
  next, it is read.
\<close>

theorem kv_without_snapshots:
  assumes "kv_runs_all (-1) n (kv_init (-1) n) S"
  shows "(\<exists>ops. executes_log KVRaft_DoOp kr_table (new_kv 0) n ops S) \<and>
    (\<forall>s. peer n s \<longrightarrow> taken S s < length (applyCh (rc S) s) \<longrightarrow>
       (\<exists>r. reader_apply KVRaft_DoOp KVRaft_Snapshot KVRaft_Restore pb
              (applyCh (rc S) s ! taken S s) (svc S s) = Some (r, None)))"
proof (intro conjI allI impI)
  let ?init = "rsys_init KVRaft_Restore (-1) new_kv n"
  have run: "rsys_steps KVRaft_DoOp KVRaft_Snapshot KVRaft_Restore (-1) new_kv n ?init S" and none: "no_snaps n S"
    using no_snaps_in_order [OF assms [unfolded kv_runs_all_def kv_init_def] no_snaps_init] by simp_all
  show "\<exists>ops. executes_log KVRaft_DoOp kr_table (new_kv 0) n ops S"
    using kvsys.one_log [OF run rsys_steps_refl] by blast
  fix s assume "peer n s" "taken S s < length (applyCh (rc S) s)"
  then obtain r snap where r: "reader_apply KVRaft_DoOp KVRaft_Snapshot KVRaft_Restore pb
      (applyCh (rc S) s ! taken S s) (svc S s) = Some (r, snap)"
    using kvsys.reader_never_stuck [OF run] none unfolding no_snaps_def by blast
  then have "snap = None" using reader_apply_no_snapshot none unfolding no_snaps_def by blast
  with r show "\<exists>r. reader_apply KVRaft_DoOp KVRaft_Snapshot KVRaft_Restore pb
      (applyCh (rc S) s ! taken S s) (svc S s) = Some (r, None)" by blast
qed

theorem kv_without_snapshots_witness:
  "\<exists>S ops. kv_runs_all (-1) 3 (kv_init (-1) 3) S \<and> calls S 0 0 = Some (demo_call demo_put (Returned demo_ok)) \<and>
     executes_log KVRaft_DoOp kr_table (new_kv 0) 3 ops S"
proof -
  obtain S where S: "kv_runs (-1) 3 (kv_init (-1) 3) S" "calls S 0 0 = Some (demo_call demo_put (Returned demo_ok))"
    using kv_run_demo by blast
  have all: "kv_runs_all (-1) 3 (kv_init (-1) 3) S"
    using S(1) unfolding kv_runs_def kv_runs_all_def rsys_steps_def
    by (rule mono_rtranclp [rule_format, rotated]) blast
  obtain ops where "executes_log KVRaft_DoOp kr_table (new_kv 0) 3 ops S"
    using kv_without_snapshots [OF all, of 0] by blast
  with all S(2) show ?thesis by blast
qed

section \<open>The shard groups\<close>

text \<open>
  The same for the servers of a shard group: each group has one log, and all its servers have the
  shards, their status and their configuration numbers of a prefix of it.
\<close>

interpretation shardgrp: durable_machine ShardGrp_apply ShardGrp_Snapshot ShardGrp_Restore sk_view
  by unfold_locales (simp add: ShardGrp_Snapshot_def)

definition new_sk :: "int \<Rightarrow> int \<Rightarrow> ShardKV" where
  "new_sk gid s = StartServerShardGrp gid s"

interpretation shardsys: replicated_service ShardGrp_apply ShardGrp_Snapshot ShardGrp_Restore sk_view mrs
    "new_sk gid" "new_sk gid 0" n
  for mrs gid n
  by unfold_locales (simp add: new_sk_def sk_view_def StartServerShardGrp_def)

theorem shard_group_executes_one_log:
  assumes "rsys_steps ShardGrp_apply ShardGrp_Snapshot ShardGrp_Restore mrs (new_sk gid) n
      (rsys_init ShardGrp_Restore mrs (new_sk gid) n) S"
    and "rsys_steps ShardGrp_apply ShardGrp_Snapshot ShardGrp_Restore mrs (new_sk gid) n S T"
  shows "\<exists>ops xs. executes_log ShardGrp_apply sk_view (new_sk gid 0) n ops S \<and>
    executes_log ShardGrp_apply sk_view (new_sk gid 0) n (ops @ xs) T"
  by (rule shardsys.one_log [OF assms])

theorem shard_group_executes_one_log_witness:
  "\<exists>ops. executes_log ShardGrp_apply sk_view (new_sk 1 0) 3 ops (rsys_init ShardGrp_Restore (-1) (new_sk 1) 3)"
  using shard_group_executes_one_log [of "-1" 1 3, OF rsys_steps_refl rsys_steps_refl] by blast

end
