(* ===== verification/RsmTest.thy ===== *)
theory RsmTest
  imports KvSystem TestGroup
begin

text \<open>
  The test service of the replicated state machine layer (\<open>src/kvraft1/rsm/server.go\<close>), a counter,
  and what its tests do with it (\<open>src/kvraft1/rsm/test.go\<close>).  The service runs on the stack of
  \<open>RsmSystem\<close>: its answers are the ranks of the increments in one log, and a test that sees the
  answer of an increment in the counters of some servers knows that they have executed it.
\<close>

section \<open>The service\<close>

datatype rsm_req = Inc | Null | Dec
datatype rsm_rep = IncRep "64 word" | NullRep

text \<open>\<open>rs_rsm\<close>: the field \<open>rsm\<close> is not nil.\<close>

record rsmSrv =
  rs_me :: int
  rs_rsm :: bool
  rs_counter :: "64 word"

text \<open>Another request than these two ends the process in \<open>log.Fatalf\<close>, which is \<open>None\<close>.\<close>

definition rsmSrv_DoOp :: "rsmSrv \<Rightarrow> rsm_req \<Rightarrow> (rsmSrv \<times> rsm_rep) option" where
  "rsmSrv_DoOp rs req = (case req of
     Inc \<Rightarrow> let rs = rs\<lparr>rs_counter := rs_counter rs + 1\<rparr> in Some (rs, IncRep (rs_counter rs))
   | Null \<Rightarrow> Some (rs, NullRep)
   | Dec \<Rightarrow> None)"

text \<open>The encoding of a counter is a list with one element; \<open>Restore\<close> is fatal on an empty one.\<close>

definition rsmSrv_Snapshot :: "rsmSrv \<Rightarrow> 64 word list" where
  "rsmSrv_Snapshot rs = [rs_counter rs]"

definition rsmSrv_Restore :: "64 word list \<Rightarrow> rsmSrv \<Rightarrow> rsmSrv option" where
  "rsmSrv_Restore data rs = (case data of [] \<Rightarrow> None | c # _ \<Rightarrow> Some (rs\<lparr>rs_counter := c\<rparr>))"

definition rsmSrv_Kill :: "rsmSrv \<Rightarrow> rsmSrv" where
  "rsmSrv_Kill rs = rs\<lparr>rs_rsm := False\<rparr>"

text \<open>\<open>rf\<close> is what the method \<open>Raft\<close> of the state machine layer returns.\<close>

definition rsmSrv_Raft :: "'rf \<Rightarrow> rsmSrv \<Rightarrow> 'rf option" where
  "rsmSrv_Raft rf rs = (if rs_rsm rs then Some rf else None)"

text \<open>
  The layer's interface has total functions: a process that has ended stays where it was.  Every
  statement below about executed operations says which of them are \<open>Dec\<close>s.
\<close>

definition rsm_op :: "rsmSrv \<Rightarrow> rsm_req \<Rightarrow> rsmSrv \<times> rsm_rep" where
  "rsm_op rs req = (case rsmSrv_DoOp rs req of Some r \<Rightarrow> r | None \<Rightarrow> (rs, NullRep))"

definition rsm_restore :: "64 word list \<Rightarrow> rsmSrv \<Rightarrow> rsmSrv" where
  "rsm_restore data rs = (case rsmSrv_Restore data rs of Some rs \<Rightarrow> rs | None \<Rightarrow> rs)"

definition makeRsmSrv :: "int \<Rightarrow> ('r, 64 word) Persister \<Rightarrow> int \<Rightarrow> (rsm_rep, rsmSrv) RSM" where
  "makeRsmSrv i ps mrs =
     (let r = MakeRSM rsm_restore i ps mrs \<lparr>rs_me = i, rs_rsm = False, rs_counter = 0\<rparr>
      in r\<lparr>sm := (sm r)\<lparr>rs_rsm := True\<rparr>\<rparr>)"

definition new_rs :: "int \<Rightarrow> rsmSrv" where
  "new_rs i = \<lparr>rs_me = i, rs_rsm = True, rs_counter = 0\<rparr>"

section \<open>The tests' operations\<close>

datatype 'rf isvc = RaftSvc 'rf | OtherSvc

record 'srv rsm_test =
  rt_maxraftstate :: int
  rt_srvs :: "'srv option list"
  rt_leader :: int

definition NSRV :: int where "NSRV = 3"

definition makeTest :: "int \<Rightarrow> 'srv rsm_test" where
  "makeTest mrs = \<lparr>rt_maxraftstate = mrs, rt_srvs = replicate (nat NSRV) None, rt_leader = 0\<rparr>"

definition rsm_mksrv :: "int \<Rightarrow> ('r, 64 word) Persister \<Rightarrow> 'rf \<Rightarrow> (rsm_rep, rsmSrv) RSM rsm_test \<Rightarrow>
    ((rsm_rep, rsmSrv) RSM rsm_test \<times> 'rf isvc list) option" where
  "rsm_mksrv i ps rf ts =
     do {
       let s = makeRsmSrv i ps (rt_maxraftstate ts);
       srvs \<leftarrow> go_set (rt_srvs ts) i (Some s);
       rf \<leftarrow> rsmSrv_Raft rf (sm s);
       Some (ts\<lparr>rt_srvs := srvs\<rparr>, [RaftSvc rf])
     }"

text \<open>A partition that is nil is \<open>None\<close>; an empty one is not nil.\<close>

primrec in_list :: "int \<Rightarrow> int list \<Rightarrow> bool" where
  "in_list s [] = False"
| "in_list s (i # is) = (if s = i then True else in_list s is)"

definition inPartition :: "int \<Rightarrow> int list option \<Rightarrow> bool" where
  "inPartition s p = (case p of None \<Rightarrow> True | Some is \<Rightarrow> in_list s is)"

text \<open>
  What \<open>onePartition\<close> finds at a server when it comes to it: whether it is connected, whether its
  \<open>rsm\<close> is there, and what a \<open>Submit\<close> at it returns.  An index without a server panics.
\<close>

record 'rep visit =
  vi_connected :: bool
  vi_rsm :: bool
  vi_submit :: "'rep opReply"

text \<open>The round over the servers; besides the answer, the servers that were given the request.\<close>

primrec visit_servers :: "nat \<Rightarrow> int \<Rightarrow> int list option \<Rightarrow> (int \<Rightarrow> 'rep visit option) \<Rightarrow> int \<Rightarrow>
    ((int \<times> 'rep option) option \<times> int list) option" where
  "visit_servers 0 n p see index = Some (None, [])"
| "visit_servers (Suc k) n p see index =
     do {
       v \<leftarrow> see index;
       if vi_connected v \<and> vi_rsm v \<and> inPartition index p then
         (case vi_submit v of (err, rep) \<Rightarrow>
            if err = OK then Some (Some (index, rep), [index])
            else do {
              (r, asked) \<leftarrow> visit_servers k n p see ((index + 1) mod n);
              Some (r, index # asked)
            })
       else visit_servers k n p see ((index + 1) mod n)
     }"

text \<open>
  A round begins at the value of \<open>ts.leader\<close> it reads; the list ends when the ten seconds are over.
  The answer comes with the new value of \<open>ts.leader\<close>.
\<close>

primrec onePartition :: "int \<Rightarrow> int list option \<Rightarrow> (int \<times> (int \<Rightarrow> 'rep visit option)) list \<Rightarrow>
    ((int \<times> 'rep option) option \<times> int list) option" where
  "onePartition n p [] = Some (None, [])"
| "onePartition n p (r # rs) =
     (case r of (leader, see) \<Rightarrow>
      do {
        (ans, asked) \<leftarrow> visit_servers (nat n) n p see leader;
        case ans of
          Some a \<Rightarrow> Some (Some a, asked)
        | None \<Rightarrow> do { (ans, asked2) \<leftarrow> onePartition n p rs; Some (ans, asked @ asked2) }
      })"

text \<open>A reply of the other type fails the assertion.\<close>

definition oneInc :: "int \<Rightarrow> (int \<times> (int \<Rightarrow> rsm_rep visit option)) list \<Rightarrow> 64 word option option" where
  "oneInc n rounds =
     do {
       (ans, asked) \<leftarrow> onePartition n None rounds;
       case Option.bind ans snd of
         None \<Rightarrow> Some None
       | Some (IncRep N) \<Rightarrow> Some (Some N)
       | Some NullRep \<Rightarrow> None
     }"

definition oneNull :: "int \<Rightarrow> (int \<times> (int \<Rightarrow> rsm_rep visit option)) list \<Rightarrow> bool option" where
  "oneNull n rounds =
     do {
       (ans, asked) \<leftarrow> onePartition n None rounds;
       case Option.bind ans snd of
         None \<Rightarrow> Some False
       | Some NullRep \<Rightarrow> Some True
       | Some (IncRep _) \<Rightarrow> None
     }"

primrec countValue :: "64 word \<Rightarrow> rsmSrv option list \<Rightarrow> int option" where
  "countValue v [] = Some 0"
| "countValue v (s # ss) =
     do { s \<leftarrow> s; i \<leftarrow> countValue v ss; Some (if rs_counter s = v then i + 1 else i) }"

text \<open>The iterations of \<open>checkCounter\<close>; a \<open>Fatalf\<close> is \<open>False\<close>.\<close>

primrec check_iters :: "64 word \<Rightarrow> int \<Rightarrow> (nat \<Rightarrow> rsmSrv option list) \<Rightarrow> nat list \<Rightarrow> bool option" where
  "check_iters v nsrv polls [] = Some False"
| "check_iters v nsrv polls (i # is) =
     do { m \<leftarrow> countValue v (polls i); if m \<ge> nsrv then Some True else check_iters v nsrv polls is }"

definition checkCounter :: "64 word \<Rightarrow> int \<Rightarrow> (nat \<Rightarrow> rsmSrv option list) \<Rightarrow> bool option" where
  "checkCounter v nsrv polls = check_iters v nsrv polls [0..<30]"

definition disconnectLeader :: "'srv rsm_test \<Rightarrow> ('r, 's, 'v) ServerGrp \<times> string Network \<Rightarrow>
    (int \<times> ('r, 's, 'v) ServerGrp \<times> string Network) option" where
  "disconnectLeader ts st = do { st \<leftarrow> DisconnectAll (rt_leader ts) st; Some (rt_leader ts, st) }"

definition rsm_connect :: "int \<Rightarrow> ('r, 's, 'v) ServerGrp \<times> string Network \<Rightarrow>
    (('r, 's, 'v) ServerGrp \<times> string Network) option" where
  "rsm_connect i st = ConnectOne i st"

text \<open>The services of a server, then of the servers; \<open>GetState\<close> is asked of the Raft ones.\<close>

primrec leads :: "('c, 'b) Raft isvc list \<Rightarrow> bool" where
  "leads [] = False"
| "leads (s # ss) = (case s of
     RaftSvc r \<Rightarrow> (case GetState r of (_, isLeader) \<Rightarrow> if isLeader then True else leads ss)
   | OtherSvc \<Rightarrow> leads ss)"

primrec leader_from :: "int \<Rightarrow> ('c, 'b) Raft isvc list list \<Rightarrow> bool \<times> int" where
  "leader_from i [] = (False, 0)"
| "leader_from i (ss # rest) = (if leads ss then (True, i) else leader_from (i + 1) rest)"

definition Leader_of :: "('c, 'b) Raft isvc list list \<Rightarrow> bool \<times> int" where
  "Leader_of sss = leader_from 0 sss"

section \<open>The service on the stack\<close>

interpretation rsmsrv: state_machine rsm_op rsmSrv_Snapshot rsm_restore rs_counter
  by unfold_locales
    (auto simp: rsm_op_def rsmSrv_DoOp_def rsm_restore_def rsmSrv_Restore_def rsmSrv_Snapshot_def Let_def
       split: rsm_req.splits)

interpretation rsmsrv: durable_machine rsm_op rsmSrv_Snapshot rsm_restore rs_counter
  by unfold_locales (simp add: rsmSrv_Snapshot_def)

interpretation rsmsys: replicated_service rsm_op rsmSrv_Snapshot rsm_restore rs_counter mrs new_rs "new_rs 0" n
  for mrs n
  by unfold_locales (simp add: new_rs_def)

lemma makeRsmSrv_start_svc: "makeRsmSrv i (persister rf) mrs = start_svc rsm_restore mrs new_rs i rf"
  by (auto simp: makeRsmSrv_def start_svc_def new_rs_def MakeRSM_def rsm_restore_def rsmSrv_Restore_def Let_def
      split: list.splits)

type_synonym rsm_sys = "(rsm_req, rsm_rep, rsmSrv, 64 word) rsys"

definition rsm_init :: "int \<Rightarrow> int \<Rightarrow> rsm_sys" where
  "rsm_init mrs n = rsys_init rsm_restore mrs new_rs n"

definition rsm_runs :: "int \<Rightarrow> int \<Rightarrow> rsm_sys \<Rightarrow> rsm_sys \<Rightarrow> bool" where
  "rsm_runs mrs n = rsys_steps rsm_op rsmSrv_Snapshot rsm_restore mrs new_rs n"

text \<open>The increments in a list of operations.\<close>

definition incs :: "rsm_req Op list \<Rightarrow> nat" where
  "incs ops = length (filter (\<lambda>op. op_Req op = Inc) ops)"

lemma incs_simps [simp]:
  "incs [] = 0" "incs (op # ops) = (if op_Req op = Inc then incs ops + 1 else incs ops)"
  "incs (ops @ xs) = incs ops + incs xs"
  by (simp_all add: incs_def)

lemma incs_le: "incs ops \<le> length ops"
  by (simp add: incs_def)

lemma incs_take_mono: "j \<le> k \<Longrightarrow> incs (take j ops) \<le> incs (take k ops)"
  using take_add [of j "k - j" ops] by simp

lemma incs_take_Suc:
  "j < length ops \<Longrightarrow> incs (take (Suc j) ops) = incs (take j ops) + (if op_Req (ops ! j) = Inc then 1 else 0)"
  by (simp add: take_Suc_conv_app_nth)

lemma rsm_op_counter: "rs_counter (fst (rsm_op s r)) = rs_counter s + (if r = Inc then 1 else 0)"
  by (cases r) (simp_all add: rsm_op_def rsmSrv_DoOp_def Let_def)

lemma run_ops_counter: "rs_counter (run_ops rsm_op s ops) = rs_counter s + word_of_nat (incs ops)"
  by (induction ops rule: rev_induct) (simp_all add: run_ops_def rsm_op_counter ac_simps)

text \<open>What the operation at an index answers, for the log \<open>ops\<close>.\<close>

definition rank_answer :: "rsm_req Op list \<Rightarrow> int \<Rightarrow> rsm_rep" where
  "rank_answer ops i = (if op_Req (ops ! nat (i - 1)) = Inc then IncRep (word_of_nat (incs (take (nat i) ops))) else NullRep)"

text \<open>
  The counters of the servers and the answers of the calls are those of the log \<open>ops\<close>: a counter is
  the number of increments in a prefix, and an increment is answered with its rank.
\<close>

definition counts_log :: "int \<Rightarrow> rsm_req Op list \<Rightarrow> rsm_sys \<Rightarrow> bool" where
  "counts_log n ops S \<longleftrightarrow>
     (\<forall>s. peer n s \<longrightarrow> (\<exists>k \<le> length ops. rs_counter (sm (svc S s)) = word_of_nat (incs (take k ops)))) \<and>
     (\<forall>s ch c rep. peer n s \<longrightarrow> calls S s ch = Some c \<longrightarrow> call_pc c = Returned (OK, rep) \<longrightarrow>
        1 \<le> call_index c \<and> call_index c \<le> int (length ops) \<and> op_Me (ops ! nat (call_index c - 1)) = s \<and>
        rep = Some (rank_answer ops (call_index c))) \<and>
     (\<forall>j < length ops. \<exists>Q. majority n Q \<and>
        Q \<subseteq> {p. holds_command (srv (rc S) p) (int j + 1) (Some (ops ! j))})"

lemma executes_counts:
  assumes "executes_log rsm_op rs_counter (new_rs 0) n ops S"
  shows "counts_log n ops S"
proof -
  have count: "rs_counter (run_ops rsm_op (new_rs 0) xs) = word_of_nat (incs xs)" for xs
    by (simp add: run_ops_counter new_rs_def)
  have "rep = Some (rank_answer ops i)"
    if i: "1 \<le> i" "i \<le> int (length ops)" and rep: "rep = Some (snd (rsm_op (run_ops rsm_op (new_rs 0) (take (nat (i - 1)) ops))
        (op_Req (ops ! nat (i - 1)))))" for i rep
  proof -
    have at: "nat i = Suc (nat (i - 1))" "nat (i - 1) < length ops" using i by auto
    show ?thesis
      using count [of "take (nat (i - 1)) ops"] unfolding rep rank_answer_def at(1) incs_take_Suc [OF at(2)]
      by (cases "op_Req (ops ! nat (i - 1))") (simp_all add: rsm_op_def rsmSrv_DoOp_def Let_def add.commute)
  qed
  then show ?thesis
    using assms unfolding counts_log_def executes_log_def answered_from_log_def count by blast
qed

lemma rsm_log_of_all_runs:
  assumes "rsm_runs mrs n (rsm_init mrs n) S"
  shows "\<exists>ops. counts_log n ops S \<and> (\<forall>T. rsm_runs mrs n S T \<longrightarrow> (\<exists>xs. counts_log n (ops @ xs) T))"
  using rsmsys.log_of_all_runs [OF assms [unfolded rsm_runs_def rsm_init_def]] executes_counts
  unfolding rsm_runs_def by metis

section \<open>The round over the servers\<close>

text \<open>The order of the visits, and the servers a request is given to as long as none accepts it.\<close>

definition cyc :: "int \<Rightarrow> int \<Rightarrow> nat \<Rightarrow> int list" where
  "cyc n index k = map (\<lambda>j. (index + int j) mod n) [0..<k]"

definition eligible :: "int list option \<Rightarrow> (int \<Rightarrow> 'rep visit option) \<Rightarrow> int \<Rightarrow> bool" where
  "eligible p see i \<longleftrightarrow> inPartition i p \<and> (\<exists>v. see i = Some v \<and> vi_connected v \<and> vi_rsm v)"

definition round_attempts :: "int \<Rightarrow> int list option \<Rightarrow> int \<times> (int \<Rightarrow> 'rep visit option) \<Rightarrow> (int \<times> 'rep opReply) list" where
  "round_attempts n p r = (case r of (leader, see) \<Rightarrow>
     map (\<lambda>i. (i, vi_submit (the (see i)))) (filter (eligible p see) (cyc n leader (nat n))))"

definition first_ok :: "(int \<times> 'rep opReply) list \<Rightarrow> (int \<times> 'rep option) option \<times> int list" where
  "first_ok as = (case dropWhile (\<lambda>(i, a). fst a \<noteq> OK) as of
     [] \<Rightarrow> (None, map fst as)
   | (l, a) # _ \<Rightarrow> (Some (l, snd a), map fst (takeWhile (\<lambda>(i, a). fst a \<noteq> OK) as) @ [l]))"

lemma first_ok_simps [simp]:
  "first_ok [] = (None, [])"
  "first_ok ((i, a) # as) = (if fst a = OK then (Some (i, snd a), [i])
     else case first_ok as of (r, asked) \<Rightarrow> (r, i # asked))"
  by (auto simp: first_ok_def split: list.splits simp del: dropWhile_eq_Nil_conv)

lemma first_ok_append:
  "first_ok (as @ bs) = (case first_ok as of
     (Some a, asked) \<Rightarrow> (Some a, asked)
   | (None, asked) \<Rightarrow> (case first_ok bs of (r, asked2) \<Rightarrow> (r, asked @ asked2)))"
  by (induction as) (auto split: prod.splits option.splits)

lemma cyc_simps:
  assumes "0 \<le> index" "index < n"
  shows "cyc n index 0 = []" "cyc n index (Suc k) = index # cyc n ((index + 1) mod n) k"
proof -
  have "(index + int (Suc j)) mod n = ((index + 1) mod n + int j) mod n" for j
    using mod_add_left_eq [of "index + 1" n "int j"] by (simp add: ac_simps)
  then show "cyc n index (Suc k) = index # cyc n ((index + 1) mod n) k"
    using assms by (simp add: cyc_def upt_conv_Cons map_Suc_upt [symmetric] comp_def del: upt_Suc)
qed (simp add: cyc_def)

text \<open>A round visits every server once.\<close>

lemma cyc_round:
  assumes "0 < n"
  shows "distinct (cyc n index (nat n))" "set (cyc n index (nat n)) = {0..<n}"
proof -
  have "inj_on (\<lambda>j. (index + int j) mod n) {0..<nat n}"
  proof (rule inj_onI)
    fix j k assume jk: "j \<in> {0..<nat n}" "k \<in> {0..<nat n}" "(index + int j) mod n = (index + int k) mod n"
    then have "int j mod n = int k mod n" using mod_diff_cong [of "index + int j" n "index + int k" index index] by simp
    then show "j = k" using jk(1,2) by simp
  qed
  then show d: "distinct (cyc n index (nat n))" by (simp add: cyc_def distinct_map)
  have "set (cyc n index (nat n)) \<subseteq> {0..<n}" using assms by (auto simp: cyc_def)
  moreover have "card (set (cyc n index (nat n))) = card {0..<n}"
    using distinct_card [OF d] by (simp add: cyc_def)
  ultimately show "set (cyc n index (nat n)) = {0..<n}" by (simp add: card_subset_eq)
qed

lemma visit_servers_eq:
  assumes "\<And>i. 0 \<le> i \<Longrightarrow> i < n \<Longrightarrow> see i \<noteq> None"
  shows "0 \<le> index \<Longrightarrow> index < n \<Longrightarrow> visit_servers k n p see index =
    Some (first_ok (map (\<lambda>i. (i, vi_submit (the (see i)))) (filter (eligible p see) (cyc n index k))))"
proof (induction k arbitrary: index)
  case (Suc k)
  obtain v where v: "see index = Some v" using assms Suc.prems by blast
  have "0 \<le> (index + 1) mod n" "(index + 1) mod n < n" using Suc.prems by simp_all
  note IH = Suc.IH [OF this]
  show ?case
    by (cases "eligible p see index")
      (auto simp: cyc_simps [OF Suc.prems] v IH eligible_def split: prod.splits)
qed (simp add: cyc_def)

lemma onePartition_first_ok:
  assumes "0 < n" "\<And>leader see. (leader, see) \<in> set rounds \<Longrightarrow> 0 \<le> leader \<and> leader < n \<and> (\<forall>i. 0 \<le> i \<and> i < n \<longrightarrow> see i \<noteq> None)"
  shows "onePartition n p rounds = Some (first_ok (concat (map (round_attempts n p) rounds)))"
  using assms(2)
proof (induction rounds)
  case (Cons r rs)
  obtain leader see where r: "r = (leader, see)" by fastforce
  have "visit_servers (nat n) n p see leader = Some (first_ok (round_attempts n p r))"
    using visit_servers_eq [of n see leader "nat n" p] Cons.prems r by (auto simp: round_attempts_def)
  moreover have "onePartition n p rs = Some (first_ok (concat (map (round_attempts n p) rs)))"
    using Cons by auto
  ultimately show ?case
    by (auto simp: r first_ok_append split: prod.splits option.splits)
qed simp

lemma first_ok_Some:
  assumes "first_ok as = (Some (l, rep), asked)"
  shows "(l, (OK, rep)) \<in> set as"
  using assms by (induction as arbitrary: asked) (auto split: if_splits prod.splits)

lemma first_ok_asked: "first_ok as = (r, asked) \<Longrightarrow> set asked \<subseteq> fst ` set as"
  by (induction as arbitrary: asked) (fastforce split: if_splits prod.splits)+

lemma in_list_iff [simp]: "in_list s is \<longleftrightarrow> s \<in> set is"
  by (induction "is") auto

section \<open>Counting\<close>

lemma countValue_eq:
  "countValue v ss = Some m \<Longrightarrow> m = int (card {j. j < length ss \<and> (\<exists>s. ss ! j = Some s \<and> rs_counter s = v)})"
proof (induction ss arbitrary: m)
  case (Cons s ss)
  obtain t k where t: "s = Some t" "countValue v ss = Some k" "m = (if rs_counter t = v then k + 1 else k)"
    using Cons.prems by (auto simp: bind_eq_Some_conv')
  let ?A = "{j. j < length ss \<and> (\<exists>s. ss ! j = Some s \<and> rs_counter s = v)}"
  have "{j. j < length (s # ss) \<and> (\<exists>x. (s # ss) ! j = Some x \<and> rs_counter x = v)} =
    (if rs_counter t = v then insert 0 (Suc ` ?A) else Suc ` ?A)"
  proof (rule set_eqI)
    show "x \<in> {j. j < length (s # ss) \<and> (\<exists>x. (s # ss) ! j = Some x \<and> rs_counter x = v)} \<longleftrightarrow>
      x \<in> (if rs_counter t = v then insert 0 (Suc ` ?A) else Suc ` ?A)" for x
      by (cases x) (auto simp: t(1))
  qed
  moreover have "card (Suc ` ?A) = card ?A" by (rule card_image) simp
  ultimately show ?case using Cons.IH [OF t(2)] t(3) by (simp add: card_insert_if)
qed simp

lemma check_iters_True:
  "check_iters v nsrv polls is = Some True \<Longrightarrow>
     \<exists>i \<in> set is. \<exists>m. countValue v (polls i) = Some m \<and> nsrv \<le> m"
  by (induction "is") (auto simp: bind_eq_Some_conv' split: if_splits)

text \<open>The servers at a poll that have the value, when the poll reads all servers of a cluster.\<close>

lemma countValue_peers:
  assumes "countValue v (map (\<lambda>p. Some (f p)) (peer_ids n)) = Some m"
  shows "m = int (card {p. peer n p \<and> rs_counter (f p) = v})"
proof -
  have len: "length (peer_ids n) = nat n" by (simp add: peer_ids_def)
  have nth: "j < nat n \<Longrightarrow> peer_ids n ! j = int j" for j by (simp add: peer_ids_def nth_upto)
  have "{p. peer n p \<and> rs_counter (f p) = v} = int ` {j. j < nat n \<and> rs_counter (f (int j)) = v}"
    by (force simp: peer_def intro!: image_eqI [where x = "nat _"])
  then have "card {p. peer n p \<and> rs_counter (f p) = v} = card {j. j < nat n \<and> rs_counter (f (int j)) = v}"
    by (simp add: card_image)
  also have "{j. j < nat n \<and> rs_counter (f (int j)) = v} =
    {j. j < length (map (\<lambda>p. Some (f p)) (peer_ids n)) \<and>
      (\<exists>s. map (\<lambda>p. Some (f p)) (peer_ids n) ! j = Some s \<and> rs_counter s = v)}"
    by (auto simp: len nth)
  finally show ?thesis using countValue_eq [OF assms] by simp
qed

lemma leader_from_True:
  "leader_from i sss = (True, l) \<Longrightarrow> i \<le> l \<and> l < i + int (length sss) \<and> leads (sss ! nat (l - i))"
proof (induction sss arbitrary: i)
  case (Cons ss sss)
  show ?case
  proof (cases "leads ss")
    case False
    then have IH: "i + 1 \<le> l" "l < i + 1 + int (length sss)" "leads (sss ! nat (l - (i + 1)))"
      using Cons.IH [of "i + 1"] Cons.prems by simp_all
    then have "nat (l - i) = Suc (nat (l - (i + 1)))" by linarith
    with IH show ?thesis by simp
  qed (use Cons.prems in simp)
qed simp

text \<open>On the peers of a cluster, \<open>Leader\<close> finds one that believes to lead.\<close>

lemma leads_peer: "leads [RaftSvc rf] \<longleftrightarrow> snd (GetState rf)"
  by (simp split: prod.split)

lemma Leader_of_cluster:
  assumes "Leader_of (map (\<lambda>p. [RaftSvc (srv C p)]) (peer_ids n)) = (True, l)"
  shows "peer n l \<and> snd (GetState (srv C l))"
proof -
  have "0 \<le> l" "l < int (length (peer_ids n))" and l: "leads (map (\<lambda>p. [RaftSvc (srv C p)]) (peer_ids n) ! nat l)"
    using leader_from_True [OF assms [unfolded Leader_of_def]] by simp_all
  then have "l < n" "peer_ids n ! nat l = l" by (simp_all add: peer_ids_def nth_upto split: if_splits)
  then show ?thesis
    using l \<open>0 \<le> l\<close> by (simp add: leads_peer peer_def peer_ids_def nth_upto del: leads.simps)
qed

section \<open>Properties\<close>

text \<open>
  \<open>onePartition\<close> gives the request to the connected, living servers of its partition, round after
  round in cyclic order from the last leader, and returns the first \<open>OK\<close> answer, whose server
  becomes the leader; a round comes to every server once (\<open>cyc_round\<close>), and nothing panics.
\<close>

theorem onePartition_is_first_ok:
  assumes "0 < n" "\<And>leader see. (leader, see) \<in> set rounds \<Longrightarrow>
      0 \<le> leader \<and> leader < n \<and> (\<forall>i. 0 \<le> i \<and> i < n \<longrightarrow> see i \<noteq> None)"
  shows "\<exists>ans asked. onePartition n p rounds = Some (ans, asked) \<and>
    (ans, asked) = first_ok (concat (map (round_attempts n p) rounds)) \<and>
    (\<forall>i \<in> set asked. 0 \<le> i \<and> i < n \<and> inPartition i p)"
proof -
  obtain ans asked where r: "first_ok (concat (map (round_attempts n p) rounds)) = (ans, asked)" by fastforce
  have "fst ` set (round_attempts n p x) \<subseteq> {i. 0 \<le> i \<and> i < n \<and> inPartition i p}" if "x \<in> set rounds" for x
    using cyc_round(2) [OF assms(1)] by (auto simp: round_attempts_def eligible_def split: prod.splits)
  then have "fst ` set (concat (map (round_attempts n p) rounds)) \<subseteq> {i. 0 \<le> i \<and> i < n \<and> inPartition i p}"
    by (simp add: image_UN UN_subset_iff)
  then have "\<forall>i \<in> set asked. 0 \<le> i \<and> i < n \<and> inPartition i p" using first_ok_asked [OF r] by blast
  moreover have "onePartition n p rounds = Some (ans, asked)"
    using onePartition_first_ok [where n = n and rounds = rounds and p = p, OF assms] by (simp add: r)
  ultimately show ?thesis using r by auto
qed

definition demo_visit :: "bool \<Rightarrow> Err \<Rightarrow> rsm_rep visit" where
  "demo_visit up e = \<lparr>vi_connected = up, vi_rsm = True, vi_submit = (e, Some (IncRep 7))\<rparr>"

definition demo_see :: "int \<Rightarrow> rsm_rep visit option" where
  "demo_see i = Some (demo_visit (i \<noteq> 2) (if i = 1 then OK else ErrWrongLeader))"

theorem onePartition_is_first_ok_witness:
  "\<exists>ans asked. onePartition 3 (Some [0, 1]) [(2, demo_see)] = Some (ans, asked) \<and>
     ans = Some (1, Some (IncRep 7)) \<and> asked = [0, 1]"
proof -
  have "first_ok (concat (map (round_attempts 3 (Some [0, 1])) [(2, demo_see)])) = (Some (1, Some (IncRep 7)), [0, 1])"
    by (simp add: round_attempts_def cyc_def eligible_def inPartition_def demo_see_def demo_visit_def
        numeral_eq_Suc upt_rec)
  then show ?thesis
    using onePartition_is_first_ok [of 3 "[(2, demo_see)]" "Some [0, 1]"] by (simp add: demo_see_def)
qed

text \<open>
  The counter on the stack.  In every run in order there is one list of requests, which only grows:
  each server's counter is the number of increments in a prefix of it, an increment that was
  answered has its rank in the list as its answer, and every request is held by a majority.
\<close>

theorem rsm_counters_follow_log:
  assumes "rsm_runs mrs n (rsm_init mrs n) S" "rsm_runs mrs n S T"
  shows "\<exists>ops xs. counts_log n ops S \<and> counts_log n (ops @ xs) T"
  using rsm_log_of_all_runs [OF assms(1)] assms(2) by blast

lemma rsm_run_demo:
  "\<exists>S. rsm_runs (-1) 3 (rsm_init (-1) 3) S \<and> calls S 0 0 = Some (demo_call Inc (Returned (OK, Some (IncRep 1)))) \<and>
     rs_counter (sm (svc S 0)) = 1"
  using service_run_demo [of rsm_op rsmSrv_Snapshot rsm_restore new_rs Inc]
  by (auto simp: rsm_runs_def rsm_init_def rsm_op_def rsmSrv_DoOp_def new_rs_def Let_def)

theorem rsm_counters_follow_log_witness:
  "\<exists>S ops. rsm_runs (-1) 3 (rsm_init (-1) 3) S \<and> counts_log 3 ops S \<and> incs (take 1 ops) = 1"
proof -
  obtain S where S: "rsm_runs (-1) 3 (rsm_init (-1) 3) S"
    "calls S 0 0 = Some (demo_call Inc (Returned (OK, Some (IncRep 1))))"
    using rsm_run_demo by blast
  have "rsm_runs (-1) 3 S S" by (simp add: rsm_runs_def)
  then obtain ops where ops: "counts_log 3 ops S" using rsm_counters_follow_log [OF S(1)] by blast
  then have "1 \<le> length ops" "rank_answer ops 1 = IncRep 1"
    using S(2) peer3(1) unfolding counts_log_def by (fastforce simp: demo_call_def)+
  then have "op_Req (ops ! 0) = Inc" by (auto simp: rank_answer_def split: if_splits)
  then have "incs (take 1 ops) = 1" using \<open>1 \<le> length ops\<close> by (cases ops) simp_all
  with S(1) ops show ?thesis by blast
qed

text \<open>
  The answers of increments are different: of two calls whose requests have different indexes, the
  one with the smaller index has the smaller answer, as long as the log is shorter than 2^64.
\<close>

lemma rank_answer_less:
  assumes "rank_answer ops i = IncRep M" "rank_answer ops j = IncRep N" "1 \<le> i" "i < j"
    "j \<le> int (length ops)" "length ops < 2 ^ 64"
  shows "M < N"
proof -
  have eq: "M = word_of_nat (incs (take (nat i) ops))" "N = word_of_nat (incs (take (nat j) ops))"
    "op_Req (ops ! nat (j - 1)) = Inc"
    using assms(1,2) by (auto simp: rank_answer_def split: if_splits)
  have "nat j = Suc (nat (j - 1))" "nat (j - 1) < length ops" "nat i \<le> nat (j - 1)" using assms(3-5) by auto
  then have "incs (take (nat i) ops) < incs (take (nat j) ops)"
    using incs_take_Suc [of "nat (j - 1)" ops] eq(3) incs_take_mono [of "nat i" "nat (j - 1)" ops] by simp
  moreover have "incs (take (nat j) ops) < 2 ^ 64" using incs_le [of "take (nat j) ops"] assms(6) by simp
  ultimately show ?thesis by (simp add: eq(1,2) word_less_nat_alt unat_of_nat64)
qed

text \<open>A server whose counter is the answer of an increment has executed that increment.\<close>

lemma rank_reached:
  assumes "rank_answer ops i = IncRep N" "1 \<le> i" "i \<le> int (length ops)" "length (ops @ xs) < 2 ^ 64"
    "k \<le> length (ops @ xs)" "N = word_of_nat (incs (take k (ops @ xs)))"
  shows "i \<le> int k"
proof (rule ccontr)
  assume "\<not> i \<le> int k"
  then have "k \<le> nat (i - 1)" by simp
  have N: "N = word_of_nat (incs (take (nat i) ops))" and inc: "op_Req (ops ! nat (i - 1)) = Inc"
    using assms(1) by (auto simp: rank_answer_def split: if_splits)
  have "nat i = Suc (nat (i - 1))" "nat (i - 1) < length ops" using assms(2,3) by auto
  then have "incs (take k ops) < incs (take (nat i) ops)"
    using incs_take_Suc [of "nat (i - 1)" ops] inc incs_take_mono [OF \<open>k \<le> nat (i - 1)\<close>, of ops] by simp
  moreover have same: "take k (ops @ xs) = take k ops" using \<open>k \<le> nat (i - 1)\<close> assms(3) by simp
  moreover have "incs (take (nat i) ops) < 2 ^ 64" using incs_le [of "take (nat i) ops"] assms(4) by simp
  ultimately show False
    using arg_cong [OF N [unfolded assms(6) same], of unat] by (simp add: unat_of_nat64)
qed

text \<open>
  C40 (what a passed \<open>checkCounter\<close> means).  Suppose an increment was answered \<open>OK\<close> with \<open>N\<close> in
  some run, and the test then asks \<open>checkCounter\<close> for \<open>N\<close> on \<open>nsrv\<close> servers, whose polls read each
  server at some later moment.  If it passes, then at one of its polls \<open>nsrv\<close> servers had executed a
  prefix of the one log up to the index of the answered call (while the log is shorter than 2^64), where
  there is an increment submitted at the same server.  That it is this very call's increment does not
  follow: operations carry no identity, and a call can be answered with another entry of its server.
\<close>

definition poll_of :: "int \<Rightarrow> (nat \<Rightarrow> int \<Rightarrow> rsm_sys) \<Rightarrow> nat \<Rightarrow> rsmSrv option list" where
  "poll_of n T j = map (\<lambda>p. Some (sm (svc (T j p) p))) (peer_ids n)"

theorem checkCounter_means_executed:
  assumes "rsm_runs mrs n (rsm_init mrs n) S" "peer n s" "calls S s ch = Some c"
    and "call_pc c = Returned (OK, Some (IncRep N))" "\<And>j p. rsm_runs mrs n S (T j p)"
    and "checkCounter N nsrv (poll_of n T) = Some True"
  shows "\<exists>ops Q j. counts_log n ops S \<and> op_Me (ops ! nat (call_index c - 1)) = s \<and>
    op_Req (ops ! nat (call_index c - 1)) = Inc \<and> j < 30 \<and> nsrv \<le> int (card Q) \<and>
    (\<forall>p \<in> Q. peer n p \<and> (\<exists>xs. counts_log n (ops @ xs) (T j p) \<and> (\<exists>k \<le> length (ops @ xs).
       rs_counter (sm (svc (T j p) p)) = word_of_nat (incs (take k (ops @ xs))) \<and>
       (length (ops @ xs) < 2 ^ 64 \<longrightarrow> call_index c \<le> int k))))"
proof -
  let ?i = "call_index c"
  obtain ops where ops: "counts_log n ops S" "\<And>U. rsm_runs mrs n S U \<Longrightarrow> \<exists>xs. counts_log n (ops @ xs) U"
    using rsm_log_of_all_runs [OF assms(1)] by blast
  have c: "1 \<le> ?i" "?i \<le> int (length ops)" "op_Me (ops ! nat (?i - 1)) = s" "rank_answer ops ?i = IncRep N"
    using ops(1) assms(2-4) unfolding counts_log_def by fastforce+
  obtain j m where j: "j < 30" "countValue N (poll_of n T j) = Some m" "nsrv \<le> m"
    using check_iters_True [OF assms(6) [unfolded checkCounter_def]] by auto
  define Q where "Q = {p. peer n p \<and> rs_counter (sm (svc (T j p) p)) = N}"
  have "\<exists>xs. counts_log n (ops @ xs) (T j p) \<and> (\<exists>k \<le> length (ops @ xs).
       rs_counter (sm (svc (T j p) p)) = word_of_nat (incs (take k (ops @ xs))) \<and>
       (length (ops @ xs) < 2 ^ 64 \<longrightarrow> ?i \<le> int k))" if p: "p \<in> Q" for p
  proof -
    obtain xs where xs: "counts_log n (ops @ xs) (T j p)" using ops(2) assms(5) by blast
    then obtain k where k: "k \<le> length (ops @ xs)"
      "rs_counter (sm (svc (T j p) p)) = word_of_nat (incs (take k (ops @ xs)))"
      using p unfolding counts_log_def Q_def by blast
    have "length (ops @ xs) < 2 ^ 64 \<longrightarrow> ?i \<le> int k"
      using rank_reached [OF c(4,1,2) _ k(1)] k(2) p by (simp add: Q_def)
    with xs k show ?thesis by blast
  qed
  moreover have "op_Req (ops ! nat (?i - 1)) = Inc" using c(4) by (auto simp: rank_answer_def split: if_splits)
  moreover have "nsrv \<le> int (card Q)" using countValue_peers j(2,3) unfolding poll_of_def Q_def by fastforce
  moreover have "\<forall>p \<in> Q. peer n p" by (simp add: Q_def)
  ultimately show ?thesis using ops(1) c(3) j(1) by blast
qed

theorem checkCounter_means_executed_witness:
  "\<exists>S ops Q. rsm_runs (-1) 3 (rsm_init (-1) 3) S \<and> checkCounter 1 1 (poll_of 3 (\<lambda>_ _. S)) = Some True \<and>
     op_Req (ops ! 0) = Inc \<and> counts_log 3 ops S \<and> 1 \<le> card Q \<and> (\<forall>p \<in> Q. peer 3 p)"
proof -
  obtain S where S: "rsm_runs (-1) 3 (rsm_init (-1) 3) S"
    "calls S 0 0 = Some (demo_call Inc (Returned (OK, Some (IncRep 1))))" "rs_counter (sm (svc S 0)) = 1"
    using rsm_run_demo by blast
  have poll: "checkCounter 1 1 (poll_of 3 (\<lambda>_ _. S)) = Some True"
    using S(3) by (auto simp: checkCounter_def poll_of_def peer_ids_def upto_rec1 upt_rec numeral_eq_Suc)
  have run: "rsm_runs (-1) 3 S S" by (simp add: rsm_runs_def)
  from checkCounter_means_executed [where T = "\<lambda>_ _. S" and N = 1 and nsrv = 1, OF S(1) peer3(1) S(2) _ run poll]
  show ?thesis using S(1) poll by (fastforce simp: demo_call_def)
qed

end
