(* ===== verification/ShardTest.thy ===== *)
theory ShardTest
  imports ShardCtrl RsmTest
begin

text \<open>
  The tests of the sharded service (\<open>src/shardkv1/test.go\<close>): groups join and leave through the
  controllers of \<open>ShardCtrl\<close>, and many controllers do so concurrently (\<open>concurCtrler\<close>).  The theory
  proves that no controller of such a test ever ends in \<open>log.Fatalf\<close>, and that the configurations
  the test goes through are a chain: each is balanced and follows from the one before by one group
  joining or leaving.
\<close>

section \<open>Joining and leaving\<close>

text \<open>\<open>newGid\<close> and \<open>groups\<close>: the next identifiers, and the new value of \<open>ngid\<close>.\<close>

definition newGid :: "int \<Rightarrow> int \<times> int" where
  "newGid ngid = (ngid, ngid + 1)"

primrec new_groups :: "nat \<Rightarrow> int \<Rightarrow> int list \<times> int" where
  "new_groups 0 ngid = ([], ngid)"
| "new_groups (Suc n) ngid =
     (let (gid, ngid) = newGid ngid; (gids, ngid) = new_groups n ngid in (gid # gids, ngid))"

definition shard_NSRV :: int where "shard_NSRV = 3"

text \<open>\<open>ts.Group(gid).SrvNames()\<close>.\<close>

definition grp_names :: "int \<Rightarrow> string list" where
  "grp_names gid = map (ServerName gid) (peer_ids shard_NSRV)"

text \<open>The configuration \<open>setupKVService\<close> gives to \<open>InitConfig\<close>; it does not look at the flag.\<close>

definition setup_config :: "ShardConfig option" where
  "setup_config = map_option fst (JoinBalance [(Gid1, grp_names Gid1)] MakeShardConfig)"

text \<open>
  What \<open>join\<close> and \<open>leave\<close> make of the configuration \<open>Query\<close> returned, for \<open>ChangeConfigTo\<close>; \<open>None\<close>
  is \<open>log.Fatalf\<close>.
\<close>

definition join_config :: "int \<Rightarrow> ShardConfig \<Rightarrow> ShardConfig option" where
  "join_config gid cfg = Option.bind (JoinBalance [(gid, grp_names gid)] (Copy cfg))
     (\<lambda>(newcfg, ok). if \<not> ok then None else Some newcfg)"

definition leave_config :: "int \<Rightarrow> ShardConfig \<Rightarrow> ShardConfig option" where
  "leave_config gid cfg = Option.bind (LeaveBalance [gid] (Copy cfg))
     (\<lambda>(newcfg, ok). if \<not> ok then None else Some newcfg)"

text \<open>
  \<open>joinGroups\<close> and \<open>leaveGroups\<close> without other controllers: \<open>change\<close> is \<open>ChangeConfigTo\<close> and the
  state \<open>c\<close> is what \<open>Query\<close> answers.  The flag is the one they return.
\<close>

primrec joinGroups :: "(ShardConfig \<Rightarrow> ShardConfig \<Rightarrow> ShardConfig) \<Rightarrow> int list \<Rightarrow> ShardConfig \<Rightarrow>
    (ShardConfig \<times> bool) option" where
  "joinGroups change [] c = Some (c, True)"
| "joinGroups change (gid # gids) c =
     do {
       newcfg \<leftarrow> join_config gid c;
       let c = change newcfg c;
       if \<not> IsMember c gid then Some (c, False) else joinGroups change gids c
     }"

primrec leaveGroups :: "(ShardConfig \<Rightarrow> ShardConfig \<Rightarrow> ShardConfig) \<Rightarrow> int list \<Rightarrow> ShardConfig \<Rightarrow>
    (ShardConfig \<times> bool) option" where
  "leaveGroups change [] c = Some (c, True)"
| "leaveGroups change (gid # gids) c =
     do {
       newcfg \<leftarrow> leave_config gid c;
       let c = change newcfg c;
       if IsMember c gid then Some (c, False) else leaveGroups change gids c
     }"

section \<open>Other checks\<close>

text \<open>
  \<open>checkShutdownSharding\<close>: what its \<open>select\<close> receives, for \<open>n\<close> keys; a message is empty when the
  \<open>Get\<close> had the right value.  \<open>None\<close> is a \<open>Fatalf\<close> of the test.
\<close>

datatype sh_event = ShDone string | ShTimeout

fun shutdown_wait :: "int \<Rightarrow> sh_event list \<Rightarrow> int option" where
  "shutdown_wait ndone [] = Some ndone"
| "shutdown_wait ndone (ShDone err # es) = (if err \<noteq> '''' then None else shutdown_wait (ndone + 1) es)"
| "shutdown_wait ndone (ShTimeout # es) = Some ndone"

definition checkShutdownSharding :: "int \<Rightarrow> sh_event list \<Rightarrow> bool" where
  "checkShutdownSharding n es = (case shutdown_wait 0 es of None \<Rightarrow> False | Some ndone \<Rightarrow> \<not> ndone \<ge> n)"

text \<open>
  \<open>partitionCtrler\<close>: whether the configuration the second controller finds passes the test (\<open>state\<close>
  is \<open>True\<close> for \<open>JOIN\<close>), and whether the new group is still to be removed.
\<close>

definition recovered :: "int \<Rightarrow> bool \<Rightarrow> int \<Rightarrow> ShardConfig \<Rightarrow> bool option" where
  "recovered num0 joined ngid cfg =
     (if Num cfg \<le> num0 then None
      else let present = IsMember cfg ngid in
        if joined \<and> \<not> present \<or> \<not> joined \<and> present then None
        else Some (joined \<and> present))"

section \<open>Concurrent controllers\<close>

text \<open>Where a goroutine of \<open>concurCtrler\<close> is, with its \<open>ngid\<close>.\<close>

datatype tpc =
    TTop
  | TInit int
  | TJoin int
  | TJoining int
  | TJoinCheck int
  | TCheck int
  | TLeave int
  | TLeaving int
  | TLeaveCheck int
  | TFatal

text \<open>Whether the test has set up the first configuration.\<close>

datatype phase = Fresh | SettingUp | Up

record 'i tst =
  ts_ctl :: "'i ctl"
  ts_tpc :: "'i \<Rightarrow> tpc"
  ts_ngid :: int
  ts_phase :: phase

definition tst_init :: "'i tst" where
  "tst_init = \<lparr>ts_ctl = ctl_init, ts_tpc = (\<lambda>_. TTop), ts_ngid = Gid1 + 1, ts_phase = Fresh\<rparr>"

definition go_to :: "'i \<Rightarrow> tpc \<Rightarrow> 'i tst \<Rightarrow> 'i tst" where
  "go_to i pc T = T\<lparr>ts_tpc := (ts_tpc T)(i := pc)\<rparr>"

definition call_ctl :: "'i \<Rightarrow> ctrl_pc \<Rightarrow> 'i tst \<Rightarrow> 'i tst" where
  "call_ctl i pc T = T\<lparr>ts_ctl := ctl_goto i pc (ts_ctl T)\<rparr>"

text \<open>What follows the answer of a \<open>Query\<close>, and the configuration to change to.  No configuration is fatal.\<close>

definition change_to :: "tpc \<Rightarrow> ShardConfig option \<Rightarrow> tpc \<times> ShardConfig option" where
  "change_to pc new = (case new of None \<Rightarrow> (TFatal, None) | Some cfg \<Rightarrow> (pc, Some cfg))"

fun on_query :: "tpc \<Rightarrow> ShardConfig option \<Rightarrow> (tpc \<times> ShardConfig option) option" where
  "on_query (TJoin g) q = Some (change_to (TJoining g) (Option.bind q (join_config g)))"
| "on_query (TJoinCheck g) q = Some (if q = None then TFatal else TCheck g, None)"
| "on_query (TCheck g) q =
     Some (case q of None \<Rightarrow> TFatal | Some cfg \<Rightarrow> if IsMember cfg g then TLeave g else TTop, None)"
| "on_query (TLeave g) q = Some (change_to (TLeaving g) (Option.bind q (leave_config g)))"
| "on_query (TLeaveCheck g) q = Some (if q = None then TFatal else TTop, None)"
| "on_query pc q = None"

text \<open>What follows the return of \<open>InitController\<close> or \<open>ChangeConfigTo\<close>.\<close>

fun on_return :: "tpc \<Rightarrow> tpc option" where
  "on_return (TInit g) = Some (TJoin g)"
| "on_return (TJoining g) = Some (TJoinCheck g)"
| "on_return (TLeaving g) = Some (TLeaveCheck g)"
| "on_return pc = None"

text \<open>
  The test: the controller \<open>i0\<close> sets up the service, then the goroutines run, each with its own
  controller.  Their calls of the controllers' operations are steps of \<open>ctl_step\<close>.  \<open>cfgs\<close> are the
  configurations that the test computes.
\<close>

inductive conc_step :: "(ShardConfig \<Rightarrow> string) \<Rightarrow> (string \<Rightarrow> ShardConfig option) \<Rightarrow> ShardConfig set \<Rightarrow>
    'i \<Rightarrow> 'i tst \<Rightarrow> 'i tst \<Rightarrow> bool"
  for enc :: "ShardConfig \<Rightarrow> string" and dec :: "string \<Rightarrow> ShardConfig option"
    and cfgs :: "ShardConfig set" and i0 :: 'i where
  t_setup: "ts_phase T = Fresh \<Longrightarrow> setup_config = Some scfg \<Longrightarrow> scfg \<in> cfgs \<Longrightarrow>
    conc_step enc dec cfgs i0 T (call_ctl i0 (CInitConfig scfg True) (T\<lparr>ts_phase := SettingUp\<rparr>))"
| t_up: "ts_phase T = SettingUp \<Longrightarrow> ct_pc (ts_ctl T) i0 = CIdle \<Longrightarrow>
    conc_step enc dec cfgs i0 T (T\<lparr>ts_phase := Up\<rparr>)"
| t_ctl: "ctl_step enc dec {} (ts_ctl T) S \<Longrightarrow> conc_step enc dec cfgs i0 T (T\<lparr>ts_ctl := S\<rparr>)"
| t_new: "ts_phase T = Up \<Longrightarrow> ts_tpc T i = TTop \<Longrightarrow> newGid (ts_ngid T) = (gid, ngid) \<Longrightarrow>
    conc_step enc dec cfgs i0 T (call_ctl i CInitGet (go_to i (TInit gid) (T\<lparr>ts_ngid := ngid\<rparr>)))"
| t_return: "ct_pc (ts_ctl T) i = CIdle \<Longrightarrow> on_return (ts_tpc T i) = Some pc \<Longrightarrow>
    conc_step enc dec cfgs i0 T (go_to i pc T)"
| t_query: "on_query (ts_tpc T i) (Query dec (ct_srv (ts_ctl T))) = Some (pc, None) \<Longrightarrow>
    conc_step enc dec cfgs i0 T (go_to i pc T)"
| t_change: "on_query (ts_tpc T i) (Query dec (ct_srv (ts_ctl T))) = Some (pc, Some newcfg) \<Longrightarrow>
    newcfg \<in> cfgs \<Longrightarrow>
    conc_step enc dec cfgs i0 T (call_ctl i (CGetCfg newcfg) (go_to i pc T))"

inductive conc_run :: "(ShardConfig \<Rightarrow> string) \<Rightarrow> (string \<Rightarrow> ShardConfig option) \<Rightarrow> ShardConfig set \<Rightarrow>
    'i \<Rightarrow> nat \<Rightarrow> 'i tst \<Rightarrow> bool"
  for enc :: "ShardConfig \<Rightarrow> string" and dec :: "string \<Rightarrow> ShardConfig option"
    and cfgs :: "ShardConfig set" and i0 :: 'i where
  start: "conc_run enc dec cfgs i0 0 tst_init"
| step: "conc_run enc dec cfgs i0 m T \<Longrightarrow> conc_step enc dec cfgs i0 T T' \<Longrightarrow>
    conc_run enc dec cfgs i0 (Suc m) T'"

section \<open>Configurations of the tests\<close>

lemma fold_fmupd_lookup:
  "fmlookup (fold (\<lambda>k m. fmupd k (f k) m) ks m) x = (if x \<in> set ks then Some (f x) else fmlookup m x)"
  by (induction ks arbitrary: m) auto

lemma Copy_eq [simp]: "Copy c = c"
proof -
  have "fold (\<lambda>k m. fmupd k (the (fmlookup (Groups c) k)) m) (sorted_list_of_fset (fmdom (Groups c))) fmempty = Groups c"
    by (rule fmap_ext) (auto simp: fold_fmupd_lookup fmlookup_eq_None_iff [symmetric])
  then show ?thesis by (simp add: Copy_def MakeShardConfig_def Let_def)
qed

text \<open>Server names of different groups differ.\<close>

lemma ServerName_inj:
  assumes "ServerName g i = ServerName h j" "1 \<le> g" "1 \<le> h"
  shows "g = h"
proof -
  have no: "CHR ''-'' \<notin> set (itoa n)" for n using itoa_digits [of "CHR ''-''" n] by auto
  have split: "takeWhile (\<lambda>c. c \<noteq> CHR ''-'') (itoa n @ ''-'' @ xs) = itoa n" for n xs
    using no [of n] by (subst takeWhile_append2) auto
  have "itoa (nat g) @ ''-'' @ itoa_int i = itoa (nat h) @ ''-'' @ itoa_int j"
    using assms by (simp add: ServerName_def itoa_int_def split: if_splits)
  then have "itoa (nat g) = itoa (nat h)" using split by metis
  then have "nat g = nat h" using atoi_itoa by metis
  then show ?thesis using assms(2,3) by simp
qed

text \<open>A good configuration of the tests: balanced, and every group has the names of its servers.\<close>

definition good_config :: "ShardConfig \<Rightarrow> bool" where
  "good_config c \<longleftrightarrow> config_ok c \<and> (\<forall>g\<in>group_ids c. 1 \<le> g \<and> fmlookup (Groups c) g = Some (grp_names g))"

lemma grp_names_disjoint: "1 \<le> g \<Longrightarrow> 1 \<le> h \<Longrightarrow> g \<noteq> h \<Longrightarrow> s \<in> set (grp_names g) \<Longrightarrow> s \<notin> set (grp_names h)"
  by (auto simp: grp_names_def dest: ServerName_inj)

lemma Join_one:
  "Join [(g, names)] c = (if g \<in> group_ids c then Some (c, False) else if clashes c names then None
     else Some (c\<lparr>Groups := fmupd g names (Groups c), Num := Num c + 1\<rparr>, True))"
  by (auto simp: Join_def fmlookup_eq_None_iff simp del: not_None_eq)

lemma Leave_one:
  "Leave [g] c = (if g \<notin> group_ids c then Some (c, False)
     else Some (c\<lparr>Groups := fmdrop g (Groups c), Num := Num c + 1\<rparr>, True))"
  by (auto simp: Leave_def fmlookup_eq_None_iff simp del: not_None_eq)

lemma JoinBalance_groups:
  assumes "JoinBalance [(g, names)] c = Some (d, True)" "length (Shards c) = nat NShards"
  shows "Groups d = fmupd g names (Groups c)"
proof -
  have "g \<notin> group_ids c \<and> \<not> clashes c names"
    "Rebalance (c\<lparr>Groups := fmupd g names (Groups c), Num := Num c + 1\<rparr>) = Some d"
    using assms(1) by (auto simp: JoinBalance_def Join_one split: if_splits)
  with Rebalance_config_ok [of "c\<lparr>Groups := fmupd g names (Groups c), Num := Num c + 1\<rparr>"] assms(2)
  show ?thesis by auto
qed

lemma LeaveBalance_groups:
  assumes "LeaveBalance [g] c = Some (d, True)" "length (Shards c) = nat NShards"
  shows "Groups d = fmdrop g (Groups c)"
proof -
  have "g \<in> group_ids c" "Rebalance (c\<lparr>Groups := fmdrop g (Groups c), Num := Num c + 1\<rparr>) = Some d"
    using assms(1) by (auto simp: LeaveBalance_def Leave_one split: if_splits)
  with Rebalance_config_ok [of "c\<lparr>Groups := fmdrop g (Groups c), Num := Num c + 1\<rparr>"] assms(2)
  show ?thesis by auto
qed

lemma join_config_iff:
  "join_config g c = Some d \<longleftrightarrow> JoinBalance [(g, grp_names g)] c = Some (d, True)"
  by (auto simp: join_config_def bind_eq_Some_conv' split: if_splits)

lemma leave_config_iff:
  "leave_config g c = Some d \<longleftrightarrow> LeaveBalance [g] c = Some (d, True)"
  by (auto simp: leave_config_def bind_eq_Some_conv' split: if_splits)

lemma join_config_good:
  assumes "join_config g c = Some d" "good_config c" "1 \<le> g"
  shows "good_config d \<and> Num d = Num c + 1 \<and> group_ids d = insert g (group_ids c)"
proof -
  note j = assms(1) [unfolded join_config_iff]
  have c: "config_ok c" "length (Shards c) = nat NShards" using assms(2) by (simp_all add: good_config_def config_ok_def)
  note r = JoinBalance_result [OF c(1) j] and g = JoinBalance_groups [OF j c(2)]
  show ?thesis using r assms(2,3) by (auto simp: good_config_def g)
qed

lemma leave_config_good:
  assumes "leave_config g c = Some d" "good_config c"
  shows "good_config d \<and> Num d = Num c + 1 \<and> group_ids d = group_ids c - {g}"
proof -
  note l = assms(1) [unfolded leave_config_iff]
  have c: "config_ok c" "length (Shards c) = nat NShards" using assms(2) by (simp_all add: good_config_def config_ok_def)
  note r = LeaveBalance_result [OF c(1) l] and g = LeaveBalance_groups [OF l c(2)]
  show ?thesis using r assms(2) by (auto simp: good_config_def g)
qed

text \<open>Neither is refused when it should succeed.\<close>

lemma join_config_succeeds:
  assumes "good_config c" "1 \<le> g" "g \<notin> group_ids c"
  shows "\<exists>d. join_config g c = Some d"
proof -
  have "\<not> clashes c (grp_names g)"
    using assms grp_names_disjoint [of _ g] by (force simp: clashes_def good_config_def)
  then have "joinable [(g, grp_names g)] c" using assms(3) by (simp add: joinable_def)
  then show ?thesis
    using JoinBalance_minimal [of c "[(g, grp_names g)]"] assms(1) by (auto simp: join_config_iff good_config_def)
qed

lemma leave_config_succeeds:
  assumes "good_config c" "g \<in> group_ids c"
  shows "\<exists>d. leave_config g c = Some d"
  using LeaveBalance_minimal [of c "[g]"] assms by (auto simp: leave_config_iff good_config_def)

lemma setup_config_good:
  "\<exists>scfg. setup_config = Some scfg \<and> good_config scfg \<and> Num scfg = 1 \<and> group_ids scfg = {Gid1}"
proof -
  have "good_config MakeShardConfig"
    using config_ok_Make by (simp add: good_config_def) (simp add: MakeShardConfig_def)
  moreover have g: "1 \<le> Gid1" "Gid1 \<notin> group_ids MakeShardConfig" by (simp_all add: Gid1_def MakeShardConfig_def)
  ultimately obtain d where d: "join_config Gid1 MakeShardConfig = Some d"
    using join_config_succeeds by blast
  from join_config_good [OF this \<open>good_config MakeShardConfig\<close> g(1)] show ?thesis
    using d by (auto simp: setup_config_def join_config_iff MakeShardConfig_def)
qed

lemma setup_configD:
  assumes "setup_config = Some c"
  shows "good_config c" "Num c = 1" "group_ids c = {Gid1}"
  using setup_config_good assms by (metis option.inject)+

text \<open>
  \<open>IsMember\<close> looks for a shard of the group, which a member has as long as there are not more groups
  than shards.
\<close>

lemma IsMember_group: "good_config c \<Longrightarrow> 1 \<le> g \<Longrightarrow> IsMember c g \<Longrightarrow> g \<in> group_ids c"
  by (auto simp: good_config_def config_ok_def IsMember_def assigned_def split: if_splits)

lemma sum_counts:
  assumes "config_ok c" "group_ids c \<noteq> {}"
  shows "(\<Sum>g\<in>group_ids c. counts (Shards c) g) = NShards"
proof -
  have "set (Shards c) \<subseteq> group_ids c" "length (Shards c) = nat NShards"
    using assms by (auto simp: config_ok_def assigned_def)
  then have "(\<Sum>g\<in>group_ids c. count_list (Shards c) g) = nat NShards"
    using sum_count_set [of "Shards c" "group_ids c"] by simp
  then show ?thesis unfolding counts_def by (simp add: NShards_def flip: of_nat_sum)
qed

lemma IsMember_iff:
  assumes "config_ok c" "card (group_ids c) \<le> nat NShards"
  shows "g \<in> group_ids c \<Longrightarrow> IsMember c g"
proof (rule ccontr)
  assume g: "g \<in> group_ids c" and "\<not> IsMember c g"
  then have z: "counts (Shards c) g = 0" by (simp add: IsMember_def counts_def)
  have le: "counts (Shards c) h \<le> 1" if "h \<in> group_ids c" for h
    using assms(1) that g z unfolding config_ok_def balanced_def by fastforce
  have "(\<Sum>h\<in>group_ids c. counts (Shards c) h) = counts (Shards c) g + (\<Sum>h\<in>group_ids c - {g}. counts (Shards c) h)"
    by (rule sum.remove) (use g in auto)
  also have "\<dots> \<le> int (card (group_ids c - {g})) * 1"
    using z le sum_bounded_above [of "group_ids c - {g}" "counts (Shards c)" 1] by simp
  also have "\<dots> = int (card (group_ids c)) - 1"
  proof -
    have "0 < card (group_ids c)" using g by (auto simp: card_gt_0_iff)
    then show ?thesis using g by simp
  qed
  finally show False using sum_counts [OF assms(1)] g assms(2) by (auto simp: NShards_def)
qed

section \<open>The invariant\<close>

text \<open>One group joins or leaves.\<close>

definition one_change :: "ShardConfig \<Rightarrow> ShardConfig \<Rightarrow> bool" where
  "one_change c d \<longleftrightarrow> (\<exists>g. 1 \<le> g \<and> (join_config g c = Some d \<or> leave_config g c = Some d))"

lemma one_change_good: "one_change c d \<Longrightarrow> good_config c \<Longrightarrow> good_config d \<and> Num d = Num c + 1"
  using join_config_good leave_config_good by (auto simp: one_change_def)

definition from_hist :: "ShardConfig list \<Rightarrow> ShardConfig \<Rightarrow> bool" where
  "from_hist hc d \<longleftrightarrow> (\<exists>c\<in>set hc. one_change c d)"

text \<open>The configuration a controller wants to install, and all that may still be installed.\<close>

fun pending :: "ctrl_pc \<Rightarrow> ShardConfig option" where
  "pending (CInitCur nxt) = Some nxt"
| "pending (CGetCfg new) = Some new"
| "pending (CGetNext new old v) = Some new"
| "pending (CPutNext new old v nver f) = Some new"
| "pending (CCheckNext new old v) = Some new"
| "pending (CMove new old v) = Some new"
| "pending (CPost new old v f) = Some new"
| "pending (CCheckCur new old v) = Some new"
| "pending (CDelete new old) = Some new"
| "pending _ = None"

definition ahead :: "ShardConfig list \<Rightarrow> 'i ctl \<Rightarrow> ShardConfig set" where
  "ahead hn S = set hn \<union> {d. \<exists>i. pending (ct_pc S i) = Some d}"

text \<open>A controller that is neither setting up nor dead.\<close>

fun regular :: "ctrl_pc \<Rightarrow> bool" where
  "regular (CInitConfig cfg f) = False"
| "regular CFatal = False"
| "regular _ = True"

lemma pending_retry [simp]: "pending (retry pc) = pending pc" "regular (retry pc) = regular pc"
  by (cases pc; simp)+

lemma pending_put:
  "put_of pc = Some (k, c, v, f) \<Longrightarrow> regular pc \<Longrightarrow>
     pending pc = Some c \<and> regular (on_put pc err) \<and> (pending (on_put pc err) = None \<or> pending (on_put pc err) = Some c)"
  by (cases pc) (auto simp: put_next_def post_def)

lemma pending_get:
  assumes inv: "ctl_inv enc cfgs m hc hn S" and codec: "codec enc dec cfgs" and hc: "hc \<noteq> []"
    and k: "get_of pc = Some k" and r: "r = KVServer_Get (ct_srv S) \<lparr>ga_Key = k\<rparr>"
  shows "regular (on_get enc dec pc r) \<and> (pending (on_get enc dec pc r) = None \<or>
    pending (on_get enc dec pc r) = pending pc \<or> (\<exists>d\<in>set hn. pending (on_get enc dec pc r) = Some d))"
proof -
  have ent: "kv_abs (ct_srv S) cfgName = cfg_entry enc hc" "kv_abs (ct_srv S) nextName = cfg_entry enc hn"
    and sub: "set hc \<subseteq> cfgs" "set hn \<subseteq> cfgs" using inv by (simp_all add: ctl_inv_def)
  have "last hc \<in> cfgs" using sub(1) hc last_in_set by blast
  then have c: "gr_Err r = OK \<and> dec (gr_Value r) = Some (last hc)" if "k = cfgName"
    using get_cfg_reply(2) [OF ent(1), of r] hc r that codec by (simp add: codec_def)
  have n: "gr_Err r = ErrNoKey \<or> hn \<noteq> [] \<and> gr_Err r = OK \<and> dec (gr_Value r) = Some (last hn)" if "k = nextName"
  proof (cases "hn = []")
    case False
    then have "last hn \<in> cfgs" using sub(2) last_in_set by blast
    then show ?thesis using get_cfg_reply(2) [OF ent(2), of r] r that codec False by (simp add: codec_def)
  qed (use get_cfg_reply(1) [OF ent(2), of r] r that in simp)
  show ?thesis
    using k c n
    by (cases pc)
      (auto simp: init_next_def init_cur_def got_cfg_def got_next_def check_next_def check_cur_def from_string_def
        split: if_splits)
qed

text \<open>What a step of a controller does to the history, once there is a configuration.\<close>

lemma ctl_step_effect:
  assumes inv: "ctl_inv enc cfgs m hc hn S" and codec: "codec enc dec cfgs" and m: "Suc m < 2 ^ 64"
    and hc: "hc \<noteq> []" and reg: "\<And>i. regular (ct_pc S i)" and step: "ctl_step enc dec {} S S'"
  shows "\<exists>hc' hn'. ctl_inv enc cfgs (Suc m) hc' hn' S' \<and> ahead hn' S' \<subseteq> ahead hn S \<and>
    (hc' = hc \<or> (\<exists>d\<in>ahead hn S. hc' = hc @ [d])) \<and> (\<forall>i. regular (ct_pc S' i))"
proof -
  have goto: ?thesis if "S' = ctl_goto i pc S" "ctl_pc_inv cfgs hc hn pc" "regular pc"
    "\<And>d. pending pc = Some d \<Longrightarrow> d \<in> ahead hn S" for i pc
  proof (rule exI [of _ hc], rule exI [of _ hn], intro conjI allI)
    show "ctl_inv enc cfgs (Suc m) hc hn S'" using ctl_inv_goto [OF inv that(2)] that(1) by simp
    show "ahead hn S' \<subseteq> ahead hn S" using that(1,4) by (auto simp: ahead_def)
    show "regular (ct_pc S' i)" for i using that(1,3) reg by simp
  qed simp
  have pcs: "ctl_pc_inv cfgs hc hn (ct_pc S i)" for i using inv by (simp add: ctl_inv_def)
  have old: "pending (ct_pc S i) = Some d \<Longrightarrow> d \<in> ahead hn S" for i d by (auto simp: ahead_def)
  have serve: ?thesis if p: "put_of (ct_pc S i) = Some (k, c, v, f)" and a: "a = cfg_args enc k c v"
    and pc: "pc = retry (ct_pc S i) \<or> pc = on_put (ct_pc S i) (ctl_answer a f S)"
    and S': "S' = ctl_goto i pc (ctl_serve a S)" for i k c v f a pc
  proof -
    obtain hc' hn' where h: "ctl_inv enc cfgs (Suc m) hc' hn' S'" "hc' = hc \<or> hc' = hc @ [c]" "hn' = hn \<or> hn' = hn @ [c]"
      using put_inv [OF inv m p a pc] S' by metis
    note pp = pending_put [OF p reg, of "ctl_answer a f S"]
    have c: "c \<in> ahead hn S" using pp old by blast
    have "pending pc = None \<or> pending pc = Some c" "regular pc" using pp pc reg [of i] by auto
    then have "ahead hn' S' \<subseteq> ahead hn S" "\<forall>j. regular (ct_pc S' j)"
      using h(3) c S' reg by (auto simp: ahead_def)
    then show ?thesis using h(1,2) c by blast
  qed
  from step show ?thesis
  proof cases
    case (get i k)
    show ?thesis
      using goto [OF get(1) on_get_inv [OF inv codec get(2) refl]] pending_get [OF inv codec hc get(2) refl] old
      by (auto simp: ahead_def)
  next
    case (lost i k c v f)
    have "ctl_pc_inv cfgs hc hn (retry (ct_pc S i))"
      using pcs [of i] by (cases "ct_pc S i") (auto simp: ctl_pc_inv_def)
    then show ?thesis using goto [OF lost(1)] reg old by simp
  next
    case (silent i k c v f a)
    then show ?thesis using serve by blast
  next
    case (put i k c v f a)
    then show ?thesis using serve by blast
  next
    case (moves i new old' v failed)
    have "ctl_pc_inv cfgs hc hn (moves_done failed new old' v)"
      using pcs [of i] moves(2) by (auto simp: ctl_pc_inv_def moves_done_def)
    then show ?thesis
      using goto [OF moves(1)] old [of i] moves(2) by (cases failed) (auto simp: moves_done_def)
  next
    case (deletes i new old')
    have "ctl_pc_inv cfgs hc hn CIdle" by (simp add: ctl_pc_inv_def)
    then show ?thesis using goto [OF deletes(1)] by simp
  qed simp
qed

text \<open>What is posted after the last configuration is one change away from it.\<close>

lemma rising_last: "rising hc \<Longrightarrow> c \<in> set hc \<Longrightarrow> Num c \<le> Num (last hc)"
  by (cases hc rule: rev_cases) (auto simp: rising_def sorted_wrt_append less_imp_le)

lemma after_last:
  assumes "rising (hc @ [d])" "hc \<noteq> []" "from_hist hc d" "\<And>c. c \<in> set hc \<Longrightarrow> good_config c"
  shows "one_change (last hc) d \<and> Num d = Num (last hc) + 1"
proof -
  obtain c where c: "c \<in> set hc" "one_change c d" using assms(3) by (auto simp: from_hist_def)
  have r: "rising hc" "Num (last hc) < Num d" using assms(1,2) by (auto simp: rising_def sorted_wrt_append)
  have "Num d = Num c + 1" using one_change_good [OF c(2)] assms(4) c(1) by blast
  then have "Num c = Num (last hc)" using rising_last [OF r(1) c(1)] r(2) by simp
  then have "c = last hc" using rising_unique [OF r(1) c(1)] assms(2) last_in_set by blast
  with c(2) \<open>Num d = Num c + 1\<close> show ?thesis by simp
qed

text \<open>Nobody is about to remove group \<open>g\<close>; no configuration has it.\<close>

definition keeps :: "int \<Rightarrow> ShardConfig list \<Rightarrow> ShardConfig set \<Rightarrow> bool" where
  "keeps g hc P \<longleftrightarrow> (\<forall>c\<in>set hc. \<forall>d\<in>P. Num d = Num c + 1 \<longrightarrow> g \<in> group_ids c \<longrightarrow> g \<in> group_ids d)"

definition unused :: "int \<Rightarrow> ShardConfig list \<Rightarrow> ShardConfig set \<Rightarrow> bool" where
  "unused g hc P \<longleftrightarrow> (\<forall>d\<in>set hc \<union> P. g \<notin> group_ids d)"

fun tpc_ok :: "ShardConfig list \<Rightarrow> ShardConfig set \<Rightarrow> tpc \<Rightarrow> bool" where
  "tpc_ok hc P (TInit g) = unused g hc P"
| "tpc_ok hc P (TJoin g) = unused g hc P"
| "tpc_ok hc P (TJoining g) = keeps g hc P"
| "tpc_ok hc P (TJoinCheck g) = keeps g hc P"
| "tpc_ok hc P (TCheck g) = keeps g hc P"
| "tpc_ok hc P (TLeave g) = (keeps g hc P \<and> g \<in> group_ids (last hc))"
| "tpc_ok hc P TFatal = False"
| "tpc_ok hc P pc = True"

fun gid_of :: "tpc \<Rightarrow> int option" where
  "gid_of (TInit g) = Some g"
| "gid_of (TJoin g) = Some g"
| "gid_of (TJoining g) = Some g"
| "gid_of (TJoinCheck g) = Some g"
| "gid_of (TCheck g) = Some g"
| "gid_of (TLeave g) = Some g"
| "gid_of (TLeaving g) = Some g"
| "gid_of (TLeaveCheck g) = Some g"
| "gid_of pc = None"

definition hist_ok :: "ShardConfig list \<Rightarrow> ShardConfig set \<Rightarrow> bool" where
  "hist_ok hc P \<longleftrightarrow> rising hc \<and> (hc \<noteq> [] \<longrightarrow> setup_config = Some (hd hc)) \<and> successively one_change hc \<and>
     (\<forall>c\<in>set hc. good_config c) \<and> (\<forall>d\<in>P. from_hist hc d)"

definition gids_ok :: "ShardConfig list \<Rightarrow> ShardConfig set \<Rightarrow> 'i tst \<Rightarrow> bool" where
  "gids_ok hc P T \<longleftrightarrow> 2 \<le> ts_ngid T \<and> (\<forall>d\<in>set hc \<union> P. \<forall>g\<in>group_ids d. g < ts_ngid T) \<and>
     (\<forall>i g. gid_of (ts_tpc T i) = Some g \<longrightarrow> 2 \<le> g \<and> g < ts_ngid T) \<and>
     (\<forall>i j g. gid_of (ts_tpc T i) = Some g \<longrightarrow> gid_of (ts_tpc T j) = Some g \<longrightarrow> i = j) \<and>
     (\<forall>i. tpc_ok hc P (ts_tpc T i))"

definition phase_ok :: "'i \<Rightarrow> ShardConfig list \<Rightarrow> ShardConfig list \<Rightarrow> 'i tst \<Rightarrow> bool" where
  "phase_ok i0 hc hn T \<longleftrightarrow> (case ts_phase T of
     Fresh \<Rightarrow> hc = [] \<and> hn = [] \<and> (\<forall>i. ct_pc (ts_ctl T) i = CIdle \<and> ts_tpc T i = TTop)
   | SettingUp \<Rightarrow> hn = [] \<and> length hc \<le> 1 \<and> (\<forall>i. ts_tpc T i = TTop) \<and> (\<forall>i. i \<noteq> i0 \<longrightarrow> ct_pc (ts_ctl T) i = CIdle) \<and>
       (ct_pc (ts_ctl T) i0 = CIdle \<and> hc \<noteq> [] \<or>
        (\<exists>scfg f. setup_config = Some scfg \<and> ct_pc (ts_ctl T) i0 = CInitConfig scfg f))
   | Up \<Rightarrow> hc \<noteq> [] \<and> (\<forall>i. regular (ct_pc (ts_ctl T) i)))"

definition tst_inv :: "(ShardConfig \<Rightarrow> string) \<Rightarrow> ShardConfig set \<Rightarrow> 'i \<Rightarrow> nat \<Rightarrow> ShardConfig list \<Rightarrow>
    ShardConfig list \<Rightarrow> 'i tst \<Rightarrow> bool" where
  "tst_inv enc cfgs i0 m hc hn T \<longleftrightarrow> ctl_inv enc cfgs m hc hn (ts_ctl T) \<and> phase_ok i0 hc hn T \<and>
     hist_ok hc (ahead hn (ts_ctl T)) \<and> gids_ok hc (ahead hn (ts_ctl T)) T"

lemma hist_ok_grow:
  assumes "hist_ok hc P" "P' \<subseteq> P" "hc' = hc \<or> (\<exists>d\<in>P. hc' = hc @ [d])" "hc \<noteq> []" "rising hc'"
  shows "hist_ok hc' P'"
proof -
  note h = assms(1) [unfolded hist_ok_def]
  consider "hc' = hc" | d where "d \<in> P" "hc' = hc @ [d]" using assms(3) by blast
  then show ?thesis
  proof cases
    case 1
    then show ?thesis using h assms(2) by (auto simp: hist_ok_def)
  next
    case 2
    have "one_change (last hc) d" using after_last [of hc d] h 2 assms(4,5) by auto
    moreover have "good_config d" using one_change_good [OF calculation] h assms(4) by simp
    ultimately show ?thesis
      using h 2 assms(2,4,5) by (fastforce simp: hist_ok_def successively_append_iff from_hist_def)
  qed
qed

lemma tpc_ok_grow:
  assumes "hist_ok hc P" "P' \<subseteq> P" "hc' = hc \<or> (\<exists>d\<in>P. hc' = hc @ [d])" "hc \<noteq> []" "rising hc'" "tpc_ok hc P pc"
  shows "tpc_ok hc' P' pc"
proof -
  note h = assms(1) [unfolded hist_ok_def]
  have un: "unused g hc' P'" if "unused g hc P" for g using that assms(2,3) by (auto simp: unused_def)
  have ke: "keeps g hc' P'" if k: "keeps g hc P" for g
    using assms(3)
  proof (elim disjE bexE)
    fix d assume d: "d \<in> P" "hc' = hc @ [d]"
    have n: "Num d = Num (last hc) + 1" using after_last [of hc d] h d assms(4,5) by auto
    have "Num x \<le> Num d" if x: "x \<in> P" for x
    proof -
      obtain c where "c \<in> set hc" "one_change c x" using h x unfolding from_hist_def by blast
      then show ?thesis using one_change_good [of c x] rising_last [of hc c] h n by auto
    qed
    then show ?thesis using k d(2) assms(2) by (fastforce simp: keeps_def)
  qed (use k assms(2) in \<open>auto simp: keeps_def\<close>)
  have la: "g \<in> group_ids (last hc')" if "keeps g hc P" "g \<in> group_ids (last hc)" for g
    using assms(3)
  proof (elim disjE bexE)
    fix d assume d: "d \<in> P" "hc' = hc @ [d]"
    have n: "Num d = Num (last hc) + 1" using after_last [of hc d] h d assms(4,5) by auto
    then show ?thesis using that d assms(4) by (auto simp: keeps_def)
  qed (use that in simp)
  show ?thesis using assms(6) un ke la by (cases pc) auto
qed

section \<open>Every step keeps the invariant\<close>

lemma ctl_inv_Suc: "ctl_inv enc cfgs m hc hn S \<Longrightarrow> ctl_inv enc cfgs (Suc m) hc hn S"
  by (auto simp: ctl_inv_def)

lemma tst_simps [simp]:
  "ts_ctl (go_to i pc T) = ts_ctl T" "ts_tpc (go_to i pc T) = (ts_tpc T)(i := pc)"
  "ts_ngid (go_to i pc T) = ts_ngid T" "ts_phase (go_to i pc T) = ts_phase T"
  "ts_ctl (call_ctl i q T) = ctl_goto i q (ts_ctl T)" "ts_tpc (call_ctl i q T) = ts_tpc T"
  "ts_ngid (call_ctl i q T) = ts_ngid T" "ts_phase (call_ctl i q T) = ts_phase T"
  by (simp_all add: go_to_def call_ctl_def)

text \<open>A step of the setting up: the one \<open>Put\<close> with version 0.\<close>

lemma setup_ctl_step:
  assumes inv: "ctl_inv enc cfgs m hc [] S" and m: "Suc m < 2 ^ 64" and len: "length hc \<le> 1"
    and hist: "hist_ok hc (ahead [] S)" and idle: "\<forall>i. i \<noteq> i0 \<longrightarrow> ct_pc S i = CIdle"
    and pc0: "ct_pc S i0 = CIdle \<or> setup_config = Some scfg \<and> ct_pc S i0 = CInitConfig scfg f"
    and step: "ctl_step enc dec {} S S'"
  shows "\<exists>hc'. ctl_inv enc cfgs (Suc m) hc' [] S' \<and> length hc' \<le> 1 \<and> hist_ok hc' (ahead [] S') \<and>
    ahead [] S' = {} \<and> (hc' = hc \<or> hc' = [scfg]) \<and> setup_config = Some scfg \<and>
    (\<forall>i. i \<noteq> i0 \<longrightarrow> ct_pc S' i = CIdle) \<and>
    (ct_pc S' i0 = CIdle \<and> hc' \<noteq> [] \<or> (\<exists>f. ct_pc S' i0 = CInitConfig scfg f))"
proof -
  have at: "i = i0 \<and> setup_config = Some scfg \<and> ct_pc S i = CInitConfig scfg f" if "ct_pc S i \<noteq> CIdle" for i
    using that idle pc0 by metis
  have none: "ahead [] (ctl_goto i0 q R) = {}" if "ct_pc R = ct_pc S" "pending q = None" for q R
    using that idle by (auto simp: ahead_def)
  have serve: ?thesis if i: "put_of (ct_pc S i) = Some (k, c, v, f')" and a: "a = cfg_args enc k c v"
    and q: "q = retry (ct_pc S i) \<or> q = on_put (ct_pc S i) (ctl_answer a f' S)"
    and S': "S' = ctl_goto i q (ctl_serve a S)" for i k c v f' a q
  proof -
    have pc: "i = i0" "setup_config = Some scfg" "ct_pc S i = CInitConfig scfg f"
      using at [of i] i by (cases "ct_pc S i"; auto)+
    then have kcv: "k = cfgName" "c = scfg" "v = 0" using i by auto
    obtain hc' hn' where h: "ctl_inv enc cfgs (Suc m) hc' hn' S'"
      "hc' = (if v = of_nat (length hc) then hc @ [c] else hc)" "hn' = []"
      using put_inv [OF inv m i a q] kcv S' by auto
    have hc': "hc' \<noteq> []" "length hc' \<le> 1" "hc' = hc \<or> hc' = [scfg]"
      using h(2) kcv len by (cases hc; auto)+
    have "q = CInitConfig scfg False \<or> q = CIdle" using q pc(3) by auto
    moreover have "good_config scfg" by (rule setup_configD(1) [OF pc(2)])
    then have "hist_ok hc' {}"
      using hist hc'(3) pc(2) by (auto simp: hist_ok_def rising_def)
    ultimately show ?thesis
      using h(1,3) hc' none [of "ctl_serve a S" q] pc(1,2) idle
      by (intro exI [of _ hc']) (auto simp: S')
  qed
  from step show ?thesis
  proof cases
    case (get i k)
    then have "ct_pc S i \<noteq> CIdle" by auto
    from at [OF this] get(2) show ?thesis by auto
  next
    case (lost i k c v f')
    have pc: "i = i0" "setup_config = Some scfg" "ct_pc S i = CInitConfig scfg f"
      using at [of i] lost(2) by (cases "ct_pc S i"; auto)+
    have p: "ctl_pc_inv cfgs hc [] (ct_pc S i0)" using inv by (simp add: ctl_inv_def)
    then have "ctl_inv enc cfgs (Suc m) hc [] S'"
      using ctl_inv_goto [OF inv, of "CInitConfig scfg False" i0] pc lost(1) by (simp add: ctl_pc_inv_def)
    moreover have "hist_ok hc {}" using hist by (simp add: hist_ok_def)
    ultimately show ?thesis
      using len none [of S "CInitConfig scfg False"] pc idle lost(1) by (intro exI [of _ hc]) auto
  next
    case (silent i k c v f' a)
    show ?thesis by (rule serve [OF silent(2,3) _ silent(1)]) simp
  next
    case (put i k c v f' a)
    show ?thesis by (rule serve [OF put(2,3) _ put(1)]) simp
  next
    case (moves i new old v failed)
    then have "ct_pc S i \<noteq> CIdle" by auto
    from at [OF this] moves(2) show ?thesis by simp
  next
    case (deletes i new old)
    then have "ct_pc S i \<noteq> CIdle" by auto
    from at [OF this] deletes(2) show ?thesis by simp
  qed simp
qed

text \<open>In the other phases a goroutine that is not at its top implies that the service is up.\<close>

lemma phase_up: "phase_ok i0 hc hn T \<Longrightarrow> ts_tpc T i \<noteq> TTop \<Longrightarrow> ts_phase T = Up"
  by (auto simp: phase_ok_def split: phase.splits)

lemma phase_okD:
  assumes "phase_ok i0 hc hn T" "ts_phase T = Up"
  shows "hc \<noteq> []" "regular (ct_pc (ts_ctl T) i)"
  using assms by (auto simp: phase_ok_def)

lemma tpc_ok_subset: "tpc_ok hc P pc \<Longrightarrow> P' \<subseteq> P \<Longrightarrow> tpc_ok hc P' pc"
  by (cases pc) (auto simp: unused_def keeps_def)

lemma hist_ok_subset: "hist_ok hc P \<Longrightarrow> P' \<subseteq> P \<Longrightarrow> hist_ok hc P'"
  by (auto simp: hist_ok_def)

text \<open>A new configuration, made by goroutine \<open>i\<close> from the current one for its own group.\<close>

lemma tpc_ok_insert:
  assumes hist: "hist_ok hc P" and hc: "hc \<noteq> []" and g: "1 \<le> g"
    and new: "join_config g (last hc) = Some d \<or> leave_config g (last hc) = Some d"
  shows "hist_ok hc (insert d P)" "x \<in> group_ids d \<Longrightarrow> x = g \<or> x \<in> group_ids (last hc)"
    and "gid_of pc \<noteq> Some g \<Longrightarrow> tpc_ok hc P pc \<Longrightarrow> tpc_ok hc (insert d P) pc"
    and "unused g hc P \<Longrightarrow> keeps g hc (insert d P)"
proof -
  note h = hist [unfolded hist_ok_def]
  have last: "last hc \<in> set hc" using hc by simp
  then have good: "good_config (last hc)" using h by blast
  have ch: "one_change (last hc) d" using new g by (auto simp: one_change_def)
  have ids: "group_ids d = insert g (group_ids (last hc)) \<or> group_ids d = group_ids (last hc) - {g}"
    using new join_config_good [OF _ good g] leave_config_good [OF _ good] by blast
  have num: "Num d = Num (last hc) + 1" using one_change_good [OF ch good] by simp
  have pred: "c = last hc" if "c \<in> set hc" "Num d = Num c + 1" for c
    using rising_unique [of hc c "last hc"] that h last num by simp
  show "hist_ok hc (insert d P)" using h ch last by (auto simp: hist_ok_def from_hist_def)
  show "x \<in> group_ids d \<Longrightarrow> x = g \<or> x \<in> group_ids (last hc)" using ids by auto
  have keep: "keeps x hc (insert d P)" if "keeps x hc P" "x \<noteq> g \<or> x \<notin> group_ids (last hc)" for x
    using that pred ids by (auto simp: keeps_def)
  have un: "unused x hc (insert d P)" if "unused x hc P" "x \<noteq> g" for x
    using that ids last by (auto simp: unused_def)
  show "gid_of pc \<noteq> Some g \<Longrightarrow> tpc_ok hc P pc \<Longrightarrow> tpc_ok hc (insert d P) pc"
    using keep un by (cases pc) auto
  show "unused g hc P \<Longrightarrow> keeps g hc (insert d P)"
    using keep [of g] last by (auto simp: unused_def keeps_def)
qed

lemma go_to_inv:
  assumes inv: "tst_inv enc cfgs i0 m hc hn T" and up: "ts_phase T = Up"
    and pc: "tpc_ok hc (ahead hn (ts_ctl T)) pc" "gid_of pc = None \<or> gid_of pc = gid_of (ts_tpc T i)"
  shows "tst_inv enc cfgs i0 (Suc m) hc hn (go_to i pc T)"
proof -
  have "phase_ok i0 hc hn (go_to i pc T)" using inv up by (simp add: tst_inv_def phase_ok_def)
  moreover have "gids_ok hc (ahead hn (ts_ctl T)) (go_to i pc T)"
  proof -
    have old: "gid_of (ts_tpc T j) = Some g" if "gid_of (ts_tpc (go_to i pc T) j) = Some g" for j g
      using that pc(2) by (cases "j = i") auto
    have g: "gids_ok hc (ahead hn (ts_ctl T)) T" using inv by (simp add: tst_inv_def)
    have "j = k" if "gid_of (ts_tpc (go_to i pc T) j) = Some g" "gid_of (ts_tpc (go_to i pc T) k) = Some g" for j k g
      using old [OF that(1)] old [OF that(2)] g unfolding gids_ok_def by blast
    moreover have "2 \<le> g \<and> g < ts_ngid T" if "gid_of (ts_tpc (go_to i pc T) j) = Some g" for j g
      using old [OF that] g unfolding gids_ok_def by blast
    moreover have "tpc_ok hc (ahead hn (ts_ctl T)) (ts_tpc (go_to i pc T) j)" for j
      using g pc(1) by (simp add: gids_ok_def)
    ultimately show ?thesis using g unfolding gids_ok_def by (simp only: tst_simps) blast
  qed
  ultimately show ?thesis using inv by (simp add: tst_inv_def ctl_inv_Suc)
qed

lemma ahead_goto: "ahead hn (ctl_goto i q S) \<subseteq> ahead hn S \<union> {d. pending q = Some d}"
  by (auto simp: ahead_def split: if_splits)

lemma tst_inv_query:
  assumes "tst_inv enc cfgs i0 m hc hn T" "codec enc dec cfgs" "ts_phase T = Up"
  shows "Query dec (ct_srv (ts_ctl T)) = Some (last hc)" "hc \<noteq> []" "good_config (last hc)"
proof -
  show "hc \<noteq> []" using assms(1,3) by (simp add: tst_inv_def phase_ok_def)
  then show "Query dec (ct_srv (ts_ctl T)) = Some (last hc)" "good_config (last hc)"
    using assms(1) ctl_query [of enc cfgs m hc hn "ts_ctl T" dec] assms(2)
    by (auto simp: tst_inv_def hist_ok_def)
qed

lemma change_inv:
  assumes inv: "tst_inv enc cfgs i0 m hc hn T" and up: "ts_phase T = Up" and d: "d \<in> cfgs"
    and g: "gid_of (ts_tpc T i) = Some g" "gid_of pc = Some g"
    and new: "join_config g (last hc) = Some d \<or> leave_config g (last hc) = Some d"
    and pc: "tpc_ok hc (insert d (ahead hn (ts_ctl T))) pc"
  shows "tst_inv enc cfgs i0 (Suc m) hc hn (call_ctl i (CGetCfg d) (go_to i pc T))"
proof -
  let ?P = "ahead hn (ts_ctl T)" and ?S = "ctl_goto i (CGetCfg d) (ts_ctl T)"
  have hc: "hc \<noteq> []" using inv up by (simp add: tst_inv_def phase_ok_def)
  have gids: "gids_ok hc ?P T" and hist: "hist_ok hc ?P" using inv by (simp_all add: tst_inv_def)
  have g1: "2 \<le> g" "g < ts_ngid T" using gids g(1) by (auto simp: gids_ok_def)
  note ins = tpc_ok_insert [OF hist hc _ new]
  have sub: "ahead hn ?S \<subseteq> insert d ?P" using ahead_goto [of hn i "CGetCfg d"] by auto
  have "ctl_inv enc cfgs (Suc m) hc hn ?S"
    using ctl_inv_goto [of enc cfgs m hc hn "ts_ctl T" "CGetCfg d" i] inv d by (simp add: tst_inv_def ctl_pc_inv_def)
  moreover have "phase_ok i0 hc hn (call_ctl i (CGetCfg d) (go_to i pc T))"
    using inv up by (simp add: tst_inv_def phase_ok_def)
  moreover have "hist_ok hc (ahead hn ?S)" using hist_ok_subset [OF _ sub] ins(1) g1(1) by simp
  moreover have "gids_ok hc (ahead hn ?S) (call_ctl i (CGetCfg d) (go_to i pc T))"
    unfolding gids_ok_def
  proof (intro conjI ballI allI impI)
    show "x < ts_ngid (call_ctl i (CGetCfg d) (go_to i pc T))" if "c \<in> set hc \<union> ahead hn ?S" "x \<in> group_ids c" for c x
    proof (cases "c = d")
      case True
      have "last hc \<in> set hc" using hc by simp
      then show ?thesis using ins(2) [of x] True that(2) g1 gids by (auto simp: gids_ok_def)
    next
      case False
      then show ?thesis using that sub gids by (auto simp: gids_ok_def)
    qed
    show "tpc_ok hc (ahead hn ?S) (ts_tpc (call_ctl i (CGetCfg d) (go_to i pc T)) j)" for j
    proof (cases "j = i")
      case True
      then show ?thesis using tpc_ok_subset [OF pc sub] by simp
    next
      case False
      then have "gid_of (ts_tpc T j) \<noteq> Some g" using gids g(1) by (auto simp: gids_ok_def)
      then show ?thesis
        using tpc_ok_subset [OF ins(3) sub] gids g1(1) False by (simp add: gids_ok_def)
    qed
  qed (use gids g in \<open>auto simp: gids_ok_def split: if_splits\<close>)
  ultimately show ?thesis by (simp add: tst_inv_def)
qed

lemma ctl_step_inv:
  assumes inv: "tst_inv enc cfgs i0 m hc hn T" and codec: "codec enc dec cfgs" and m: "Suc m < 2 ^ 64"
    and step: "ctl_step enc dec {} (ts_ctl T) S"
  shows "\<exists>hc' hn'. tst_inv enc cfgs i0 (Suc m) hc' hn' (T\<lparr>ts_ctl := S\<rparr>)"
proof -
  let ?S = "ts_ctl T"
  let ?P = "ahead hn ?S"
  have i: "ctl_inv enc cfgs m hc hn ?S" "phase_ok i0 hc hn T" "hist_ok hc ?P" "gids_ok hc ?P T"
    using inv by (simp_all add: tst_inv_def)
  let ?T = "T\<lparr>ts_ctl := S\<rparr>"
  show ?thesis
  proof (cases "ts_phase T")
    case Fresh
    then have "ct_pc ?S j = CIdle" for j using i(2) by (simp add: phase_ok_def)
    with step show ?thesis by (auto elim: ctl_step.cases)
  next
    case SettingUp
    then have f: "hn = []" "length hc \<le> 1" "\<And>j. ts_tpc T j = TTop" "\<forall>j. j \<noteq> i0 \<longrightarrow> ct_pc ?S j = CIdle"
      using i(2) by (simp_all add: phase_ok_def)
    obtain scfg f where c: "ct_pc ?S i0 = CIdle \<or> setup_config = Some scfg \<and> ct_pc ?S i0 = CInitConfig scfg f"
      using i(2) SettingUp by (auto simp: phase_ok_def)
    obtain hc' where h: "ctl_inv enc cfgs (Suc m) hc' [] S" "length hc' \<le> 1" "hist_ok hc' (ahead [] S)"
      "ahead [] S = {}" "hc' = hc \<or> hc' = [scfg]" "setup_config = Some scfg" "\<forall>j. j \<noteq> i0 \<longrightarrow> ct_pc S j = CIdle"
      "ct_pc S i0 = CIdle \<and> hc' \<noteq> [] \<or> (\<exists>f. ct_pc S i0 = CInitConfig scfg f)"
      using setup_ctl_step [OF i(1) [unfolded f(1)] m f(2) i(3) [unfolded f(1)] f(4) c step]
      by (elim exE conjE) (rule that)
    have "group_ids scfg = {Gid1}" by (rule setup_configD(3) [OF h(6)])
    then have "\<forall>d\<in>set hc'. \<forall>x\<in>group_ids d. x < ts_ngid T"
      using h(5) i(4) by (auto simp: gids_ok_def Gid1_def)
    then have "gids_ok hc' (ahead [] S) ?T" using i(4) f(3) by (simp add: gids_ok_def h(4))
    moreover have "phase_ok i0 hc' [] ?T" using h(2,6,7,8) f(3) SettingUp by (auto simp: phase_ok_def)
    ultimately have "tst_inv enc cfgs i0 (Suc m) hc' [] ?T" using h(1,3) by (simp add: tst_inv_def)
    then show ?thesis by blast
  next
    case Up
    have reg: "hc \<noteq> []" "\<And>j. regular (ct_pc ?S j)" using phase_okD [OF i(2) Up] by auto
    obtain hc' hn' where h: "ctl_inv enc cfgs (Suc m) hc' hn' S" "ahead hn' S \<subseteq> ?P"
      "hc' = hc \<or> (\<exists>d\<in>?P. hc' = hc @ [d])" "\<forall>j. regular (ct_pc S j)"
      using ctl_step_effect [OF i(1) codec m reg step] by blast
    have ris: "rising hc'" using h(1) by (simp add: ctl_inv_def)
    have "hist_ok hc' (ahead hn' S)" by (rule hist_ok_grow [OF i(3) h(2,3) reg(1) ris])
    moreover have "gids_ok hc' (ahead hn' S) ?T"
      using i(4) h(2,3) tpc_ok_grow [OF i(3) h(2,3) reg(1) ris] by (auto simp: gids_ok_def)
    moreover have "phase_ok i0 hc' hn' ?T" using h(3,4) reg(1) Up by (auto simp: phase_ok_def)
    ultimately have "tst_inv enc cfgs i0 (Suc m) hc' hn' ?T" using h(1) by (simp add: tst_inv_def)
    then show ?thesis by blast
  qed
qed

lemma new_gid_inv:
  assumes inv: "tst_inv enc cfgs i0 m hc hn T" and up: "ts_phase T = Up" and top: "ts_tpc T i = TTop"
    and new_gid: "newGid (ts_ngid T) = (gid, ngid)"
  shows "tst_inv enc cfgs i0 (Suc m) hc hn (call_ctl i CInitGet (go_to i (TInit gid) (T\<lparr>ts_ngid := ngid\<rparr>)))"
proof -
  let ?S = "ts_ctl T"
  let ?P = "ahead hn ?S"
  have inv4: "ctl_inv enc cfgs m hc hn ?S" "phase_ok i0 hc hn T" "hist_ok hc ?P" "gids_ok hc ?P T"
    using inv by (simp_all add: tst_inv_def)
  let ?T = "call_ctl i CInitGet (go_to i (TInit gid) (T\<lparr>ts_ngid := ngid\<rparr>))"
  have g: "gid = ts_ngid T" "ngid = ts_ngid T + 1" using new_gid by (simp_all add: newGid_def)
  have sub: "ahead hn (ctl_goto i CInitGet ?S) \<subseteq> ?P" using ahead_goto [of hn i CInitGet ?S] by auto
  have "ctl_inv enc cfgs (Suc m) hc hn (ctl_goto i CInitGet ?S)"
    by (rule ctl_inv_goto [OF inv4(1)]) (simp add: ctl_pc_inv_def)
  moreover have new: "unused gid hc (ahead hn (ctl_goto i CInitGet ?S))"
    using inv4(4) sub g by (auto simp: gids_ok_def unused_def)
  moreover have "gids_ok hc (ahead hn (ctl_goto i CInitGet ?S)) ?T"
  proof -
    have n: "ts_ngid ?T = ts_ngid T + 1" and pc: "ts_tpc ?T = (ts_tpc T)(i := TInit gid)"
      by (simp_all add: g)
    have old: "2 \<le> h \<and> h < ts_ngid T" if "gid_of (ts_tpc T j) = Some h" for j h
      using inv4(4) that by (auto simp: gids_ok_def)
    have n2: "2 \<le> ts_ngid T" using inv4(4) by (simp add: gids_ok_def)
    have f1: "j = k" if jk: "gid_of (ts_tpc ?T j) = Some h" "gid_of (ts_tpc ?T k) = Some h" for j k h
    proof (cases "h = gid")
      case True
      then show ?thesis using jk old [of j gid] old [of k gid] by (auto simp: pc g split: if_splits)
    next
      case False
      then have "gid_of (ts_tpc T j) = Some h" "gid_of (ts_tpc T k) = Some h"
        using jk by (auto simp: pc split: if_splits)
      then show ?thesis using inv4(4) unfolding gids_ok_def by blast
    qed
    have f2: "2 \<le> h \<and> h < ts_ngid ?T" if "gid_of (ts_tpc ?T j) = Some h" for j h
      using that old [of j h] n2 by (cases "j = i") (simp_all add: pc n g)
    have f3: "tpc_ok hc (ahead hn (ctl_goto i CInitGet ?S)) (ts_tpc ?T j)" for j
      using tpc_ok_subset [OF _ sub] inv4(4) new by (simp add: pc gids_ok_def)
    have f4: "x < ts_ngid ?T" if "d \<in> set hc \<union> ahead hn (ctl_goto i CInitGet ?S)" "x \<in> group_ids d" for d x
    proof -
      have "d \<in> set hc \<union> ?P" using that(1) sub by blast
      then have "x < ts_ngid T" using inv4(4) that(2) unfolding gids_ok_def by blast
      then show ?thesis by (simp add: n g)
    qed
    have f5: "2 \<le> ts_ngid ?T" using inv4(4) by (simp add: n g gids_ok_def)
    show ?thesis
      unfolding gids_ok_def
    proof (intro conjI ballI allI impI)
      show "2 \<le> h" "h < ts_ngid ?T" if "gid_of (ts_tpc ?T j) = Some h" for j h using f2 [OF that] by simp_all
    qed (rule f1 f3 f4 f5; assumption?)+
  qed
  moreover have "phase_ok i0 hc hn ?T" using inv4(2) up by (auto simp: phase_ok_def)
  ultimately show "tst_inv enc cfgs i0 (Suc m) hc hn ?T"
    using hist_ok_subset [OF inv4(3) sub]  by (simp add: tst_inv_def)
qed

lemma query_inv:
  assumes inv: "tst_inv enc cfgs i0 m hc hn T" and codec: "codec enc dec cfgs"
    and query: "on_query (ts_tpc T i) (Query dec (ct_srv (ts_ctl T))) = Some (pc, None)"
  shows "tst_inv enc cfgs i0 (Suc m) hc hn (go_to i pc T)"
proof -
  let ?S = "ts_ctl T"
  let ?P = "ahead hn ?S"
  have inv4: "ctl_inv enc cfgs m hc hn ?S" "phase_ok i0 hc hn T" "hist_ok hc ?P" "gids_ok hc ?P T"
    using inv by (simp_all add: tst_inv_def)
  have up: "ts_phase T = Up" by (rule phase_up [OF inv4(2), of i]) (use query in auto)
  note q = tst_inv_query [OF inv codec up]
  have ok: "tpc_ok hc ?P (ts_tpc T i)" using inv4(4) by (simp add: gids_ok_def)
  have g: "2 \<le> g" if "gid_of (ts_tpc T i) = Some g" for g using inv4(4) that by (auto simp: gids_ok_def)
  have "tpc_ok hc ?P pc \<and> (gid_of pc = None \<or> gid_of pc = gid_of (ts_tpc T i))"
  proof (cases "ts_tpc T i")
    case (TJoin h)
    have "last hc \<in> set hc" using q(2) by simp
    then have "h \<notin> group_ids (last hc)" using ok TJoin by (simp add: unused_def)
    then obtain d where "join_config h (last hc) = Some d"
      using join_config_succeeds [OF q(3)] g [of h] TJoin by fastforce
    then show ?thesis using query TJoin q(1) by (simp add: change_to_def)
  next
    case (TLeave h)
    then obtain d where "leave_config h (last hc) = Some d"
      using leave_config_succeeds [OF q(3)] ok by auto
    then show ?thesis using query TLeave q(1) by (simp add: change_to_def)
  next
    case (TCheck h)
    then show ?thesis
      using query ok q(1) IsMember_group [OF q(3), of h] g [of h] by (auto split: if_splits)
  qed (use query ok q(1) in auto)
  then show ?thesis using go_to_inv [OF inv up] by blast
qed

lemma change_step_inv:
  assumes inv: "tst_inv enc cfgs i0 m hc hn T" and codec: "codec enc dec cfgs" and d: "d \<in> cfgs"
    and query: "on_query (ts_tpc T i) (Query dec (ct_srv (ts_ctl T))) = Some (pc, Some d)"
  shows "tst_inv enc cfgs i0 (Suc m) hc hn (call_ctl i (CGetCfg d) (go_to i pc T))"
proof -
  let ?S = "ts_ctl T"
  let ?P = "ahead hn ?S"
  have inv4: "ctl_inv enc cfgs m hc hn ?S" "phase_ok i0 hc hn T" "hist_ok hc ?P" "gids_ok hc ?P T"
    using inv by (simp_all add: tst_inv_def)
  have up: "ts_phase T = Up" by (rule phase_up [OF inv4(2), of i]) (use query in auto)
  note q = tst_inv_query [OF inv codec up]
  have ok: "tpc_ok hc ?P (ts_tpc T i)" using inv4(4) by (simp add: gids_ok_def)
  from query consider g where "ts_tpc T i = TJoin g" "pc = TJoining g" "join_config g (last hc) = Some d"
    | g where "ts_tpc T i = TLeave g" "pc = TLeaving g" "leave_config g (last hc) = Some d"
    by (cases "ts_tpc T i") (auto simp: change_to_def q(1) split: option.splits)
  then show ?thesis
  proof cases
    case (1 g)
    have "gid_of (ts_tpc T i) = Some g" using 1(1) by simp
    then have "2 \<le> g" using inv4(4) unfolding gids_ok_def by blast
    then have "tpc_ok hc (insert d ?P) pc"
      using tpc_ok_insert(4) [OF inv4(3) q(2), of g d] ok 1 by simp
    then show ?thesis using change_inv [OF inv up d, of i g pc] 1 by auto
  next
    case (2 g)
    then show ?thesis using change_inv [OF inv up d, of i g pc] by auto
  qed
qed

lemma tst_inv_step:
  assumes inv: "tst_inv enc cfgs i0 m hc hn T" and codec: "codec enc dec cfgs" and m: "Suc m < 2 ^ 64"
    and step: "conc_step enc dec cfgs i0 T T'"
  shows "\<exists>hc' hn'. tst_inv enc cfgs i0 (Suc m) hc' hn' T'"
proof -
  let ?S = "ts_ctl T"
  let ?P = "ahead hn ?S"
  have i: "ctl_inv enc cfgs m hc hn ?S" "phase_ok i0 hc hn T" "hist_ok hc ?P" "gids_ok hc ?P T"
    using inv by (simp_all add: tst_inv_def)
  from step show ?thesis
  proof cases
    case (t_setup scfg)
    have f: "hc = []" "hn = []" "\<And>j. ct_pc ?S j = CIdle" "\<And>j. ts_tpc T j = TTop"
      using i(2) t_setup(2) by (simp_all add: phase_ok_def)
    have "ctl_inv enc cfgs (Suc m) hc hn (ctl_goto i0 (CInitConfig scfg True) ?S)"
      by (rule ctl_inv_goto [OF i(1)]) (simp add: ctl_pc_inv_def t_setup(4))
    moreover have "ahead hn (ctl_goto i0 (CInitConfig scfg True) ?S) = {}" "?P = {}" using f by (auto simp: ahead_def)
    ultimately have "tst_inv enc cfgs i0 (Suc m) hc hn T'"
      using i(3,4) f t_setup by (auto simp: tst_inv_def phase_ok_def gids_ok_def)
    then show ?thesis by blast
  next
    case t_up
    have "phase_ok i0 hc hn T'"
      using i(2) t_up by (auto simp: phase_ok_def) (metis regular.simps(3))
    then have "tst_inv enc cfgs i0 (Suc m) hc hn T'"
      using i t_up(1) by (simp add: tst_inv_def ctl_inv_Suc gids_ok_def)
    then show ?thesis by blast
  next
    case (t_ctl S)
    show ?thesis unfolding t_ctl(1) by (rule ctl_step_inv [OF inv codec m t_ctl(2)])
  next
    case (t_new i gid ngid)
    show ?thesis unfolding t_new(1) using new_gid_inv [OF inv t_new(2-4)] by blast
  next
    case (t_return i pc)
    have up: "ts_phase T = Up" by (rule phase_up [OF i(2), of i]) (use t_return(3) in auto)
    have ok: "tpc_ok hc ?P (ts_tpc T i)" using i(4) by (simp add: gids_ok_def)
    have "tpc_ok hc ?P pc \<and> gid_of pc = gid_of (ts_tpc T i)"
      using t_return(3) ok by (cases "ts_tpc T i") auto
    then show ?thesis using go_to_inv [OF inv up] t_return(1) by blast
  next
    case (t_query i pc)
    show ?thesis unfolding t_query(1) using query_inv [OF inv codec t_query(2)] by blast
  next
    case (t_change i pc d)
    show ?thesis unfolding t_change(1) using change_step_inv [OF inv codec t_change(3,2)] by blast
  qed
qed

lemma tst_inv_run:
  assumes "conc_run enc dec cfgs i0 m T" "codec enc dec cfgs" "m < 2 ^ 64"
  shows "\<exists>hc hn. tst_inv enc cfgs i0 m hc hn T"
  using assms
proof induction
  case start
  have "tst_inv enc cfgs i0 0 [] [] tst_init"
    by (auto simp: tst_inv_def tst_init_def ctl_inv_def ctl_init_def rising_def cfg_entry_def ctl_pc_inv_def
        phase_ok_def hist_ok_def gids_ok_def ahead_def Gid1_def)
  then show ?case by blast
next
  case (step m T T')
  then obtain hc hn where "tst_inv enc cfgs i0 m hc hn T" by auto
  from tst_inv_step [OF this step.prems(1,2) step.hyps(2)] show ?case .
qed

section \<open>Properties\<close>

text \<open>
  C20 (concurrent controllers).  Any number of the test's goroutines (\<open>concurCtrler\<close>) let groups of
  their own join and leave, each through a controller of its own; requests of the controllers are
  lost and repeated, and any of them stops anywhere and may come back.  No goroutine and no controller ever ends in
  \<open>log.Fatalf\<close>: no join finds its group present or its servers in another group, no leave finds its
  group gone, and no configuration fails to decode.
\<close>

theorem controllers_never_fatal:
  assumes "conc_run enc dec cfgs i0 m T" "codec enc dec cfgs" "m < 2 ^ 64"
  shows "ts_tpc T i \<noteq> TFatal \<and> ct_pc (ts_ctl T) i \<noteq> CFatal"
proof -
  obtain hc hn where inv: "tst_inv enc cfgs i0 m hc hn T" using tst_inv_run [OF assms] by blast
  have "tpc_ok hc (ahead hn (ts_ctl T)) (ts_tpc T i)" using inv by (simp add: tst_inv_def gids_ok_def)
  then have "ts_tpc T i \<noteq> TFatal" by auto
  moreover have "phase_ok i0 hc hn T" using inv by (simp add: tst_inv_def)
  then have "ct_pc (ts_ctl T) i \<noteq> CFatal"
    by (cases "i = i0") (auto simp: phase_ok_def split: phase.splits dest: spec [of _ i])
  ultimately show ?thesis ..
qed

lemma chain_numbers:
  assumes "hist_ok hc P" "j < length hc"
  shows "Num (hc ! j) = int j + 1"
  using assms(2)
proof (induction j)
  case 0
  then have "setup_config = Some (hc ! 0)" using assms(1) by (cases hc) (auto simp: hist_ok_def)
  then show ?case using setup_configD(2) by simp
next
  case (Suc j)
  have "one_change (hc ! j) (hc ! Suc j)"
    using assms(1) Suc.prems by (simp add: hist_ok_def successively_conv_nth)
  moreover have "good_config (hc ! j)" using assms(1) Suc.prems by (simp add: hist_ok_def)
  ultimately show ?case using one_change_good Suc by fastforce
qed

text \<open>
  C19 (the configurations of a test).  In such a run, the configuration \<open>Query\<close> returns is the last
  one of a chain that begins with the one of \<open>setupKVService\<close>: each is made from the one before by
  one group joining or leaving, is balanced with every shard assigned to one of its groups, passes
  \<open>CheckConfig\<close>, and the \<open>j\<close>-th has number \<open>j\<close>.
\<close>

theorem configs_form_a_chain:
  assumes "conc_run enc dec cfgs i0 m T" "codec enc dec cfgs" "m < 2 ^ 64"
    and "Query dec (ct_srv (ts_ctl T)) = Some c"
  shows "\<exists>hc. hc \<noteq> [] \<and> c = last hc \<and> setup_config = Some (hd hc) \<and> successively one_change hc \<and>
    (\<forall>j < length hc. Num (hc ! j) = int j + 1 \<and> config_ok (hc ! j) \<and>
       CheckConfig (hc ! j) (sorted_list_of_fset (fmdom (Groups (hc ! j)))))"
proof -
  obtain hc hn where inv: "tst_inv enc cfgs i0 m hc hn T" using tst_inv_run [OF assms(1-3)] by blast
  then have hist: "hist_ok hc (ahead hn (ts_ctl T))" by (simp add: tst_inv_def)
  have "Query dec (ct_srv (ts_ctl T)) = (if hc = [] then None else Some (last hc))"
    using ctl_query [OF _ assms(2)] inv unfolding tst_inv_def by blast
  then have c: "hc \<noteq> []" "c = last hc" using assms(4) by (auto split: if_splits)
  have good: "config_ok (hc ! j)" if "j < length hc" for j
    using hist that by (simp add: hist_ok_def good_config_def)
  then have "CheckConfig (hc ! j) (sorted_list_of_fset (fmdom (Groups (hc ! j))))" if "j < length hc" for j
    using config_ok_CheckConfig [OF good [OF that]] by (simp add: sorted_list_of_fset.rep_eq)
  then show ?thesis
    using c hist good chain_numbers [OF hist] by (intro exI [of _ hc]) (simp add: hist_ok_def)
qed

text \<open>A run that sets up the service and starts a goroutine.\<close>

lemma demo_conc:
  fixes i0 :: 'i
  shows "\<exists>scfg enc dec T. setup_config = Some scfg \<and> codec enc dec {scfg} \<and>
    conc_run enc dec {scfg} i0 4 (T :: 'i tst) \<and>
    ts_tpc T i0 = TInit 2 \<and> Query dec (ct_srv (ts_ctl T)) = Some scfg"
proof -
  obtain scfg where scfg: "setup_config = Some scfg" using setup_config_good by blast
  let ?enc = "\<lambda>_ :: ShardConfig. ''x''" and ?dec = "\<lambda>s. if s = ''x'' then Some scfg else None"
  have codec: "codec ?enc ?dec {scfg}" by (simp add: codec_def)
  define T1 :: "'i tst" where "T1 = call_ctl i0 (CInitConfig scfg True) (tst_init\<lparr>ts_phase := SettingUp\<rparr>)"
  let ?a = "cfg_args ?enc cfgName scfg 0"
  define T2 where "T2 = T1\<lparr>ts_ctl := ctl_goto i0 CIdle (ctl_serve ?a (ts_ctl T1))\<rparr>"
  define T3 where "T3 = T2\<lparr>ts_phase := Up\<rparr>"
  define T4 where "T4 = call_ctl i0 CInitGet (go_to i0 (TInit 2) (T3\<lparr>ts_ngid := 3\<rparr>))"
  have 1: "conc_step ?enc ?dec {scfg} i0 tst_init T1"
    unfolding T1_def by (rule t_setup [OF _ scfg]) (simp_all add: tst_init_def)
  have "ctl_step ?enc ?dec {} (ts_ctl T1) (ctl_goto i0 CIdle (ctl_serve ?a (ts_ctl T1)))"
    using ctl_step.put [where S = "ts_ctl T1" and i = i0 and k = cfgName and c = scfg and v = 0 and f = True
        and enc = ?enc and dec = ?dec and cfgs = "{}", OF _ refl]
    by (simp add: T1_def)
  then have 2: "conc_step ?enc ?dec {scfg} i0 T1 T2" unfolding T2_def by (rule t_ctl)
  have 3: "conc_step ?enc ?dec {scfg} i0 T2 T3"
    unfolding T3_def by (rule t_up) (simp_all add: T2_def T1_def)
  have 4: "conc_step ?enc ?dec {scfg} i0 T3 T4"
    unfolding T4_def by (rule t_new) (simp_all add: T3_def T2_def T1_def tst_init_def newGid_def Gid1_def)
  have "conc_run ?enc ?dec {scfg} i0 (Suc (Suc (Suc (Suc 0)))) T4"
    by (rule conc_run.step [OF conc_run.step [OF conc_run.step [OF conc_run.step [OF conc_run.start 1] 2] 3] 4])
  then have run: "conc_run ?enc ?dec {scfg} i0 4 T4" by (simp only: numeral_eq_Suc pred_numeral_simps BitM.simps)
  have "Query ?dec (ct_srv (ts_ctl T4)) = Some scfg"
    by (simp add: T4_def T3_def T2_def T1_def tst_init_def Query_def demo_ctl_simps)
  then show ?thesis using scfg codec run by (intro exI conjI) (auto simp: T4_def)
qed

theorem controllers_never_fatal_witness:
  "\<exists>enc dec cfgs T. conc_run enc dec cfgs () 4 (T :: unit tst) \<and> ts_tpc T () = TInit 2 \<and>
     ct_pc (ts_ctl T) () \<noteq> CFatal"
proof -
  obtain scfg enc dec and T :: "unit tst" where d: "codec enc dec {scfg}"
    "conc_run enc dec {scfg} () 4 T" "ts_tpc T () = TInit 2"
    using demo_conc [of "()"] by blast
  have "ct_pc (ts_ctl T) () \<noteq> CFatal" using controllers_never_fatal [OF d(2,1), of "()"] by simp
  with d(2,3) show ?thesis by blast
qed

theorem configs_form_a_chain_witness:
  "\<exists>enc dec cfgs T scfg. conc_run enc dec cfgs () 4 (T :: unit tst) \<and>
     Query dec (ct_srv (ts_ctl T)) = Some scfg \<and> (\<exists>hc. scfg = last hc \<and> successively one_change hc \<and> hc \<noteq> [])"
proof -
  obtain scfg enc dec and T :: "unit tst" where d: "codec enc dec {scfg}"
    "conc_run enc dec {scfg} () 4 T" "Query dec (ct_srv (ts_ctl T)) = Some scfg"
    using demo_conc [of "()"] by blast
  have "\<exists>hc. scfg = last hc \<and> successively one_change hc \<and> hc \<noteq> []"
    using configs_form_a_chain [OF d(2,1) _ d(3)] by auto
  with d(2,3) show ?thesis by blast
qed

text \<open>
  One test alone: new groups join one after the other, as long as there are not more groups than
  shards, and can leave again.  With more groups \<open>joinGroups\<close> would report a failure although the
  group has joined (\<open>crowded_member\<close>).
\<close>

theorem joinGroups_joins:
  assumes "good_config c" "distinct gids" "\<forall>g\<in>set gids. 1 \<le> g \<and> g \<notin> group_ids c"
    and "card (group_ids c) + length gids \<le> nat NShards"
  shows "\<exists>d. joinGroups (\<lambda>new c. new) gids c = Some (d, True) \<and> good_config d \<and>
    group_ids d = group_ids c \<union> set gids \<and> Num d = Num c + int (length gids)"
  using assms
proof (induction gids arbitrary: c)
  case (Cons g gids)
  then obtain d where d: "join_config g c = Some d" using join_config_succeeds by fastforce
  have r: "good_config d" "Num d = Num c + 1" "group_ids d = insert g (group_ids c)"
    using join_config_good [OF d Cons.prems(1)] Cons.prems(3) by auto
  have card: "card (group_ids d) = Suc (card (group_ids c))" using r(3) Cons.prems(3) by simp
  then have "IsMember d g"
    using IsMember_iff [of d g] r(1,3) Cons.prems(4) by (simp add: good_config_def)
  moreover obtain e where "joinGroups (\<lambda>new c. new) gids d = Some (e, True)" "good_config e"
    "group_ids e = group_ids d \<union> set gids" "Num e = Num d + int (length gids)"
    using Cons.IH [OF r(1)] Cons.prems(2,3,4) r(3) card by fastforce
  ultimately show ?case using d r by (auto simp: Let_def)
qed simp

theorem joinGroups_joins_witness:
  "\<exists>c d. good_config c \<and> joinGroups (\<lambda>new c. new) [2, 3] c = Some (d, True) \<and> group_ids d = {1, 2, 3}"
proof -
  obtain scfg where scfg: "good_config scfg" "group_ids scfg = {1}" using setup_config_good by (auto simp: Gid1_def)
  then show ?thesis using joinGroups_joins [of scfg "[2, 3]"] by (auto simp: NShards_def insert_commute)
qed

lemma leaveGroups_leaves:
  assumes "good_config c" "distinct gids" "set gids \<subseteq> group_ids c"
  shows "\<exists>d. leaveGroups (\<lambda>new c. new) gids c = Some (d, True) \<and> good_config d \<and>
    group_ids d = group_ids c - set gids \<and> Num d = Num c + int (length gids)"
  using assms
proof (induction gids arbitrary: c)
  case (Cons g gids)
  then obtain d where d: "leave_config g c = Some d" using leave_config_succeeds by fastforce
  note r = leave_config_good [OF d Cons.prems(1)]
  have "1 \<le> g" using Cons.prems(1,3) by (auto simp: good_config_def)
  then have "\<not> IsMember d g" using IsMember_group [of d g] r by blast
  moreover obtain e where "leaveGroups (\<lambda>new c. new) gids d = Some (e, True)" "good_config e"
    "group_ids e = group_ids d - set gids" "Num e = Num d + int (length gids)"
    using Cons.IH [of d] Cons.prems(2,3) r by fastforce
  ultimately show ?case using d r by (auto simp: Let_def)
qed simp

text \<open>When there are more groups than shards, some group is not a member in the sense of \<open>IsMember\<close>.\<close>

lemma crowded_member:
  assumes "good_config c" "nat NShards < card (group_ids c)"
  shows "\<exists>g \<in> group_ids c. \<not> IsMember c g"
proof (rule ccontr)
  assume "\<not> ?thesis"
  then have "group_ids c \<subseteq> set (Shards c)" by (auto simp: IsMember_def)
  then have "card (group_ids c) \<le> length (Shards c)"
    using card_mono [of "set (Shards c)" "group_ids c"] card_length [of "Shards c"] by simp
  then show False using assms by (simp add: good_config_def config_ok_def)
qed

text \<open>\<open>checkShutdownSharding\<close> passes only if some \<open>Get\<close> did not complete before the time was over.\<close>

lemma checkShutdownSharding_misses:
  "checkShutdownSharding n es \<Longrightarrow>
     int (length (filter (\<lambda>e. e = ShDone '''') (takeWhile (\<lambda>e. e \<noteq> ShTimeout) es))) < n"
proof -
  have "shutdown_wait k es = Some m \<Longrightarrow>
    m = k + int (length (filter (\<lambda>e. e = ShDone '''') (takeWhile (\<lambda>e. e \<noteq> ShTimeout) es)))" for k m
    by (induction k es rule: shutdown_wait.induct) (auto split: if_splits)
  then show "checkShutdownSharding n es \<Longrightarrow> ?thesis"
    by (fastforce simp: checkShutdownSharding_def split: option.splits)
qed

end
