(* ===== verification/KvDriver.thy ===== *)
theory KvDriver
  imports KvLog KvSystem StackGroup
begin

text \<open>
  The tests of the key/value services: the test object, its clerks and the repartitioning of
  \<open>src/kvtest1/kvtest.go\<close>, the operation log and the report of \<open>src/kvtest1/porcupine.go\<close>, and the
  set-up of the tests in \<open>src/kvsrv1/test.go\<close> and \<open>src/kvraft1/test.go\<close>.

  A test of the replicated service is put on top of two models: the configuration of \<open>TestConfig\<close>
  starts the servers, and what it starts is the first state of the stack of \<open>KvSystem\<close>; restarting
  the servers is the crash of all of them there.
\<close>

section \<open>The test object\<close>

record ('r, 's, 'v, 'w, 'a, 'x) kvtest =
  kt_Config :: "('r, 's, 'v, 'w, 'a, 'x) Config"
  kt_oplog :: "Operation list option"
  kt_randomkeys :: bool

definition kt_MakeTest :: "('r, 's, 'v, 'w, 'a, 'x) Config \<Rightarrow> bool \<Rightarrow> ('r, 's, 'v, 'w, 'a, 'x) kvtest" where
  "kt_MakeTest cfg randomkeys = \<lparr>kt_Config = cfg, kt_oplog = Some [], kt_randomkeys = randomkeys\<rparr>"

definition on_config :: "(('r, 's, 'v, 'w, 'a, 'x) Config \<Rightarrow> ('y \<times> ('r, 's, 'v, 'w, 'a, 'x) Config) option) \<Rightarrow>
    ('r, 's, 'v, 'w, 'a, 'x) kvtest \<Rightarrow> ('y \<times> ('r, 's, 'v, 'w, 'a, 'x) kvtest) option" where
  "on_config f ts = do { (y, cfg) \<leftarrow> f (kt_Config ts); Some (y, ts\<lparr>kt_Config := cfg\<rparr>) }"

text \<open>What \<open>End\<close> prints comes first; \<open>now1\<close> to \<open>now3\<close> are the readings of the clock.\<close>

definition kt_Cleanup :: "int \<Rightarrow> int \<Rightarrow> int \<Rightarrow> int list \<Rightarrow>
    (bool \<Rightarrow> string \<Rightarrow> annotator \<Rightarrow> annotator \<times> Annotation list option) \<Rightarrow>
    ('r, 's, 'v, 'w, 'a, 'x) kvtest \<times> annotator \<Rightarrow>
    ((int \<times> int \<times> int \<times> int) option \<times> ('r, 's, 'v, 'w, 'a, 'x) Config \<times> 'v list \<times> annotator \<times> Annotation list option) option" where
  "kt_Cleanup now1 now2 now3 gids vis st =
     (case st of (ts, an) \<Rightarrow> do {
        printed \<leftarrow> cfg_End now1 now2 (kt_Config ts);
        (cfg, killed, an, out) \<leftarrow> cfg_Cleanup now3 gids vis (kt_Config ts, an);
        Some (printed, cfg, killed, an, out)
      })"

definition ConnectClnts :: "nat list \<Rightarrow> ('r, 's, 'v, 'w, 'a, 'x) kvtest \<Rightarrow>
    (unit \<times> ('r, 's, 'v, 'w, 'a, 'x) kvtest) option" where
  "ConnectClnts clnts = on_config (on_clnts (\<lambda>cl. Some ((), fold clnt_ConnectAll clnts cl)))"

text \<open>\<open>r i\<close> is the \<open>i\<close>-th value of \<open>rand.Int63()\<close>.\<close>

definition letterBytes :: string where
  "letterBytes = ''abcdefghijklmnopqrstuvwxyzABCDEFGHIJKLMNOPQRSTUVWXYZ''"

definition RandValue :: "nat \<Rightarrow> (nat \<Rightarrow> nat) \<Rightarrow> string" where
  "RandValue n r = map (\<lambda>i. letterBytes ! (r i mod length letterBytes)) [0..<n]"

section \<open>The operation log and the report\<close>

definition OpLog_Len :: "Operation list \<Rightarrow> int" where
  "OpLog_Len operations = int (length operations)"

definition OpLog_Read :: "Operation list \<Rightarrow> Operation list" where
  "OpLog_Read operations = clone operations"

text \<open>\<open>Get\<close> and \<open>Put\<close> of the test around the clerk's calls, whose replies and times are arguments.\<close>

definition log_operation :: "Operation \<Rightarrow> ('r, 's, 'v, 'w, 'a, 'x) kvtest \<Rightarrow> ('r, 's, 'v, 'w, 'a, 'x) kvtest" where
  "log_operation opn ts = ts\<lparr>kt_Config := cfg_Op (kt_Config ts),
     kt_oplog := (case kt_oplog ts of None \<Rightarrow> None | Some l \<Rightarrow> Some (OpLog_Append opn l))\<rparr>"

definition kt_Get :: "string \<Rightarrow> GetReply \<Rightarrow> nat \<Rightarrow> nat \<Rightarrow> nat \<Rightarrow> ('r, 's, 'v, 'w, 'a, 'x) kvtest \<Rightarrow>
    GetReply \<times> ('r, 's, 'v, 'w, 'a, 'x) kvtest" where
  "kt_Get key r cli start fin ts = (r, log_operation (log_Get key r cli start fin) ts)"

definition kt_Put :: "PutArgs \<Rightarrow> Err \<Rightarrow> nat \<Rightarrow> nat \<Rightarrow> nat \<Rightarrow> ('r, 's, 'v, 'w, 'a, 'x) kvtest \<Rightarrow>
    Err \<times> ('r, 's, 'v, 'w, 'a, 'x) kvtest" where
  "kt_Put a err cli start fin ts = (err, log_operation (log_Put a err cli start fin) ts)"

text \<open>
  What the report does to files: it opens one (a new one, or \<open>VIS_FILE\<close>, whose contents are gone
  then), or cannot, and writes the history with the annotations into it, or cannot.
\<close>

datatype 'info vis_event = OpenFailed | CreatedTemp | Truncated string | Wrote 'info "Annotation list" | WriteFailed

record vis_env =
  vis_enabled :: string
  vis_path :: string
  vis_opens :: bool
  vis_writes :: bool

definition open_vis :: "vis_env \<Rightarrow> 'info vis_event" where
  "open_vis env = (if \<not> vis_opens env then OpenFailed
     else if vis_path env = '''' then CreatedTemp else Truncated (vis_path env))"

definition write_vis :: "vis_env \<Rightarrow> 'info \<Rightarrow> annotator \<times> Annotation list \<Rightarrow> annotator \<times> 'info vis_event" where
  "write_vis env info fin = (case fin of (an, annotations) \<Rightarrow>
     (an, if vis_writes env then Wrote info annotations else WriteFailed))"

text \<open>
  \<open>checkPorcupine\<close>: whether the test goes on, the annotations, and what was done to files.
  \<open>CheckOperationsVerbose\<close> is the checker; \<open>finish\<close> is \<open>FinalizeAnnotations\<close> with its clock.
\<close>

definition checkPorcupine_report :: "vis_env \<Rightarrow> (Operation list \<Rightarrow> CheckResult \<times> 'info) \<Rightarrow>
    (string \<Rightarrow> annotator \<Rightarrow> annotator \<times> Annotation list) \<Rightarrow> Operation list \<Rightarrow> annotator \<Rightarrow>
    bool \<times> annotator \<times> 'info vis_event list" where
  "checkPorcupine_report env CheckOperationsVerbose finish opLog an =
     (let (res, info) = CheckOperationsVerbose (OpLog_Read opLog) in
      if res = Illegal then
        (let opened = open_vis env in
         if vis_opens env \<and> vis_enabled env \<noteq> ''never'' then
           (let (an, ev) = write_vis env info (finish ''test failed'' an) in (False, an, [opened, ev]))
         else (False, an, [opened]))
      else if vis_enabled env = ''always'' \<and> an_finalized an then
        (let opened = open_vis env in
         if \<not> vis_opens env then (True, an, [opened])
         else (let (an, ev) = write_vis env info (finish ''test passed'' an) in (True, an, [opened, ev])))
      else (True, an, []))"

text \<open>The log of a test made by \<open>MakeTest\<close> is there; without one reading it would panic.\<close>

definition kt_CheckPorcupine :: "vis_env \<Rightarrow> (Operation list \<Rightarrow> CheckResult \<times> 'info) \<Rightarrow>
    (string \<Rightarrow> annotator \<Rightarrow> annotator \<times> Annotation list) \<Rightarrow>
    ('r, 's, 'v, 'w, 'a, 'x) kvtest \<Rightarrow> annotator \<Rightarrow> (bool \<times> annotator \<times> 'info vis_event list) option" where
  "kt_CheckPorcupine env chk finish ts an =
     map_option (\<lambda>opLog. checkPorcupine_report env chk finish opLog an) (kt_oplog ts)"

section \<open>Repartitioning\<close>

text \<open>
  A round of \<open>Partitioner\<close>: each server goes to side \<open>rand.Int() % 2\<close>; \<open>r i\<close> is the random number
  for server \<open>i\<close>.
\<close>

definition side :: "nat list \<Rightarrow> nat \<Rightarrow> int list" where
  "side a i = filter (\<lambda>j. a ! nat j = i) (peer_ids (int (length a)))"

definition partition_round :: "(nat \<Rightarrow> nat) \<Rightarrow> int \<Rightarrow> ('r, 's, 'v) ServerGrp \<times> string Network \<times> astate \<Rightarrow>
    (('r, 's, 'v) ServerGrp \<times> string Network \<times> astate) option" where
  "partition_round r t st =
     (case st of (sg, rn, an) \<Rightarrow> do {
        let a = map (\<lambda>i. r i mod 2) [0..<nat (grp_N sg)];
        (sg, rn) \<leftarrow> Partition (side a 0) (side a 1) (sg, rn);
        Some (sg, rn, AnnotateTwoPartitions t (side a 0) (side a 1) an)
      })"

text \<open>The rounds until the test tells it to stop.\<close>

primrec Partitioner :: "((nat \<Rightarrow> nat) \<times> int) list \<Rightarrow> ('r, 's, 'v) ServerGrp \<times> string Network \<times> astate \<Rightarrow>
    (('r, 's, 'v) ServerGrp \<times> string Network \<times> astate) option" where
  "Partitioner [] st = Some st"
| "Partitioner (rt # rts) st = Option.bind (partition_round (fst rt) (snd rt) st) (Partitioner rts)"


section \<open>The test of the single server\<close>

text \<open>The clerk of a test: the clerk proper with the client it sends through.\<close>

record 'ck TestClerk =
  tk_clerk :: 'ck
  tk_Clnt :: nat

type_synonym ('w, 'a, 'x) testkv = "(nat, nat, KVServer, 'w, 'a, 'x) kvtest"

definition MakeTestKV :: "(nat \<Rightarrow> string) \<Rightarrow> int \<Rightarrow> bool \<Rightarrow> (KVServer \<Rightarrow> ('w, 'a, 'x) Service) \<Rightarrow>
    ('w, 'a, 'x) testkv option" where
  "MakeTestKV rnd now rel mk =
     do { cfg \<leftarrow> MakeConfig rnd now 1 rel StartKVServer mk; Some (kt_MakeTest cfg False) }"

definition testkv_MakeClerk :: "('w, 'a, 'x) testkv \<Rightarrow> (Clerk TestClerk \<times> ('w, 'a, 'x) testkv) option" where
  "testkv_MakeClerk ts =
     do {
       (clnt, ts) \<leftarrow> on_config (on_clnts MakeClient) ts;
       Some (\<lparr>tk_clerk = MakeClerk clnt (ServerName GRP0 0), tk_Clnt = clnt\<rparr>, ts)
     }"

definition kt_DeleteClerk :: "'ck TestClerk \<Rightarrow> ('r, 's, 'v, 'w, 'a, 'x) kvtest \<Rightarrow>
    (unit \<times> ('r, 's, 'v, 'w, 'a, 'x) kvtest) option" where
  "kt_DeleteClerk tck = on_config (on_clnts (\<lambda>cl. map_option (\<lambda>cl. ((), cl)) (DeleteClient (tk_Clnt tck) cl)))"

section \<open>The test of the replicated service\<close>

text \<open>The services of a server: the key/value server with its state machine layer, and its peer.\<close>

type_synonym kv_service = "(kv_rep, KVRaftServer, kv_req, gob_table) stack_service"

definition StartKVServers :: "int \<Rightarrow> (kv_req Op gob_raft, gob_table, kv_service) mksrv" where
  "StartKVServers mrs ends gid i ps = [StackService (StartKVRaft i ps mrs), StackPeer (Make (int (length ends)) i ps)]"

record ('w, 'a, 'x) kvraft_test = "(kv_req Op gob_raft, gob_table, kv_service, 'w, 'a, 'x) kvtest" +
  kr_part :: string
  kr_nclients :: int
  kr_nservers :: int
  kr_crash :: bool
  kr_partitions :: bool
  kr_maxraftstate :: int

definition makeTitle :: "('w, 'a, 'x) kvraft_test \<Rightarrow> string" where
  "makeTitle ts =
     ''Test: '' @ (if kr_crash ts then ''restarts, '' else '''') @
     (if kr_partitions ts then ''partitions, '' else '''') @
     (if kr_maxraftstate ts \<noteq> -1 then ''snapshots, '' else '''') @
     (if kt_randomkeys ts then ''random keys, '' else '''') @
     (if kr_nclients ts > 1 then ''many clients'' else ''one client'') @
     '' ('' @ kr_part ts @ '')''"

text \<open>The line that \<open>Begin\<close> prints is returned with the test; the clock is read twice.\<close>

definition kvraft_MakeTest :: "(nat \<Rightarrow> string) \<Rightarrow> int \<Rightarrow> int \<Rightarrow> (kv_service \<Rightarrow> ('w, 'a, 'x) Service) \<Rightarrow>
    string \<Rightarrow> int \<Rightarrow> int \<Rightarrow> bool \<Rightarrow> bool \<Rightarrow> bool \<Rightarrow> int \<Rightarrow> bool \<Rightarrow>
    (string \<times> ('w, 'a, 'x) kvraft_test) option" where
  "kvraft_MakeTest rnd now1 now2 mk ptitle nclients nservers rel crashes partitions mrs randomkeys =
     do {
       cfg \<leftarrow> MakeConfig rnd now1 nservers rel (StartKVServers mrs) mk;
       let ts = kvtest.extend (kt_MakeTest cfg randomkeys)
         \<lparr>kr_part = ptitle, kr_nclients = nclients, kr_nservers = nservers, kr_crash = crashes,
          kr_partitions = partitions, kr_maxraftstate = mrs\<rparr>;
       let (line, cfg) = cfg_Begin now2 (makeTitle ts) (kt_Config ts);
       Some (line, ts\<lparr>kt_Config := cfg\<rparr>)
     }"

definition kvraft_MakeClerk :: "('w, 'a, 'x) kvraft_test \<Rightarrow> (KVRaftClerk TestClerk \<times> ('w, 'a, 'x) kvraft_test) option" where
  "kvraft_MakeClerk ts =
     do {
       (clnt, cfg) \<leftarrow> on_clnts MakeClient (kt_Config ts);
       sg \<leftarrow> cfg_Group GRP0 cfg;
       Some (\<lparr>tk_clerk = KVRaft_MakeClerk (sg_servernames sg), tk_Clnt = clnt\<rparr>, ts\<lparr>kt_Config := cfg\<rparr>)
     }"

definition kvraft_MakeClerkTo :: "int list \<Rightarrow> ('w, 'a, 'x) kvraft_test \<Rightarrow>
    (KVRaftClerk TestClerk \<times> ('w, 'a, 'x) kvraft_test) option" where
  "kvraft_MakeClerkTo to ts =
     do {
       sg \<leftarrow> cfg_Group GRP0 (kt_Config ts);
       ns \<leftarrow> SrvNamesTo sg to;
       (clnt, cfg) \<leftarrow> on_clnts (MakeClientTo (Some ns)) (kt_Config ts);
       Some (\<lparr>tk_clerk = KVRaft_MakeClerk (sg_servernames sg), tk_Clnt = clnt\<rparr>, ts\<lparr>kt_Config := cfg\<rparr>)
     }"

section \<open>Repartitioning splits the group\<close>

lemma set_side: "set (side a i) = {j. 0 \<le> j \<and> j < int (length a) \<and> a ! nat j = i}"
  by (auto simp: side_def)

lemma Partition_ok:
  assumes "Partition p1 p2 (sg, rn) = Some (sg', rn')" "group_ok n sg" "set p1 \<subseteq> {0..<n}" "set p2 \<subseteq> {0..<n}"
    and "set p1 \<inter> set p2 = {}"
  shows "group_ok n sg'"
proof -
  obtain sg1 rn1 where 1: "for_each (\<lambda>i st. Option.bind (grp_disconnect i p2 st) (grp_connect i p1)) p1 (sg, rn) =
      Some (sg1, rn1)" "group_ok n sg1"
    using part_loop_refines [OF assms(2,3,4,3)] by blast
  obtain sg2 rn2 where 2: "for_each (\<lambda>i st. Option.bind (grp_disconnect i p1 st) (grp_connect i p2)) p2 (sg1, rn1) =
      Some (sg2, rn2)" "group_ok n sg2"
    using part_loop_refines [OF 1(2) assms(4,3,4)] by blast
  have "Partition p1 p2 (sg, rn) = Some (sg2, rn2)" by (simp only: Partition_def 1(1) 2(1) bind.bind_lunit)
  then show ?thesis using assms(1) 2(2) by simp
qed

text \<open>The servers of the group on side \<open>P\<close> and on the other side, and what is shown of it.\<close>

definition split_at :: "nat \<Rightarrow> int set \<Rightarrow> ('r, 's, 'v) ServerGrp \<times> string Network \<times> astate \<Rightarrow> bool" where
  "split_at n P st \<longleftrightarrow> (case st of (sg, rn, an) \<Rightarrow>
     P \<subseteq> {0..<int n} \<and> (\<forall>i\<in>{0..<int n}. \<forall>j\<in>{0..<int n}. is_enabled (end_name sg i j) rn \<longleftrightarrow> (i \<in> P \<longleftrightarrow> j \<in> P)) \<and>
     (\<exists>p q c. set p = P \<and> set q = {0..<int n} - P \<and> an_continuous (as_an an) TAG_PARTITION = Some c \<and>
        c_desp c = ''partition = '' @ show_ints p @ '' '' @ show_ints q))"

lemma partition_round_splits:
  assumes "group_ok (int n) sg"
  shows "\<exists>sg' rn' an' P. partition_round r t (sg, rn, an) = Some (sg', rn', an') \<and> group_ok (int n) sg' \<and>
    sg_srvs sg' = sg_srvs sg \<and> split_at n P (sg', rn', an')"
proof -
  let ?a = "map (\<lambda>i. r i mod 2) [0..<n]"
  have n: "grp_N sg = int n" using group_okD(2) [OF assms] by (simp add: grp_N_def)
  let ?P = "{j. 0 \<le> j \<and> j < int n \<and> r (nat j) mod 2 = 0}"
  define p where "p = side ?a 0"
  define q where "q = side ?a 1"
  have sets: "set p = ?P" "set q = {0..<int n} - ?P" by (auto simp: p_def q_def set_side)
  then have sub: "set p \<subseteq> {0..<int n}" "set q \<subseteq> {0..<int n}" "set p \<inter> set q = {}" and all: "set p \<union> set q = {0..<int n}"
    by auto
  obtain sg' rn' where P: "Partition p q (sg, rn) = Some (sg', rn')" "sg_srvs sg' = sg_srvs sg"
    "\<And>i j. i \<in> set p \<union> set q \<Longrightarrow> j \<in> set p \<union> set q \<Longrightarrow>
       is_enabled (end_name sg' i j) rn' \<longleftrightarrow> (i \<in> set p \<longleftrightarrow> j \<in> set p)"
    by (rule Partition_links [OF assms sub, of rn], rule that)
  have ok: "group_ok (int n) sg'" by (rule Partition_ok [OF P(1) assms sub])
  let ?an = "AnnotateTwoPartitions t p q an"
  have "partition_round r t (sg, rn, an) = Some (sg', rn', ?an)"
    using P(1) n by (simp add: partition_round_def Let_def p_def q_def)
  moreover have "\<exists>c. an_continuous (as_an ?an) TAG_PARTITION = Some c \<and>
      c_desp c = ''partition = '' @ show_ints p @ '' '' @ show_ints q"
    by (simp add: AnnotateTwoPartitions_def on_an_def annotateContinuousColor_def Let_def split: option.split)
  then have "\<exists>p' q' c. set p' = set p \<and> set q' = {0..<int n} - set p \<and> an_continuous (as_an ?an) TAG_PARTITION = Some c \<and>
      c_desp c = ''partition = '' @ show_ints p' @ '' '' @ show_ints q'"
    using sets by blast
  then have "split_at n (set p) (sg', rn', ?an)"
    using P(3) [unfolded all] sub(1) by (simp only: split_at_def prod.case) blast
  ultimately show ?thesis using ok P(2) by blast
qed

text \<open>
  The partitioner.  After any number of rounds, with any random numbers, on any group, the servers
  are split in two sides, each connected within itself and cut off from the other, the
  visualization shows these sides, and of an odd number of servers exactly one side is a majority:
  at any time some servers can go on and others cannot.
\<close>
theorem Partitioner_splits:
  assumes "group_ok (int n) sg" "rts \<noteq> []"
  shows "\<exists>sg' rn' an' P. Partitioner rts (sg, rn, an) = Some (sg', rn', an') \<and> group_ok (int n) sg' \<and>
    sg_srvs sg' = sg_srvs sg \<and> split_at n P (sg', rn', an') \<and>
    (odd n \<longrightarrow> (n < 2 * card P) = (\<not> n < 2 * card ({0..<int n} - P)))"
proof -
  have splits: "\<exists>sg' rn' an' P. Partitioner rts (sg, rn, an) = Some (sg', rn', an') \<and> group_ok (int n) sg' \<and>
    sg_srvs sg' = sg_srvs sg \<and> split_at n P (sg', rn', an')"
    using assms
  proof (induction rts arbitrary: sg rn an)
    case (Cons rt rts)
    obtain sg1 rn1 an1 P where 1: "partition_round (fst rt) (snd rt) (sg, rn, an) = Some (sg1, rn1, an1)"
      "group_ok (int n) sg1" "sg_srvs sg1 = sg_srvs sg" "split_at n P (sg1, rn1, an1)"
      using partition_round_splits [OF Cons.prems(1)] by blast
    show ?case
    proof (cases "rts = []")
      case True
      then show ?thesis using 1 by auto
    next
      case False
      then show ?thesis using Cons.IH [OF 1(2) False, of rn1 an1] 1(1,3) by auto
    qed
  qed simp
  have half: "(n < 2 * card P) = (\<not> n < 2 * card ({0..<int n} - P))" if "P \<subseteq> {0..<int n}" "odd n" for P
  proof -
    have "card P + card ({0..<int n} - P) = n"
      using card_Un_disjoint [of P "{0..<int n} - P"] that(1) by (simp add: finite_subset Un_absorb1 inf_commute)
    then show ?thesis using that(2) by presburger
  qed
  obtain sg' rn' an' P where g: "Partitioner rts (sg, rn, an) = Some (sg', rn', an')" "group_ok (int n) sg'"
    "sg_srvs sg' = sg_srvs sg" "split_at n P (sg', rn', an')"
    using splits by blast
  have "P \<subseteq> {0..<int n}" using g(4) by (simp add: split_at_def)
  then show ?thesis using g half by blast
qed


section \<open>The report\<close>

lemma OpLog_Read_id [simp]: "OpLog_Read l = l"
  by (simp add: OpLog_Read_def)

text \<open>The report passes exactly the histories that \<open>checkPorcupine\<close> of \<open>KvLog\<close> passes.\<close>

lemma report_verdict:
  "fst (checkPorcupine_report env chk finish l an) \<longleftrightarrow> checkPorcupine (\<lambda>h. fst (chk h)) l \<noteq> None"
proof (cases "chk l")
  case (Pair res info)
  then show ?thesis
    by (cases "finish ''test failed'' an"; cases "finish ''test passed'' an")
      (simp add: checkPorcupine_report_def checkPorcupine_def Let_def write_vis_def)
qed

text \<open>
  What is written.  A history that passes is only written when the annotations had been finalized
  before, which no test but one does: with \<open>VIS_ENABLE=always\<close> too, nothing is written, and the
  clean-up then draws the annotations without the operations.  A history that fails is written
  unless \<open>VIS_ENABLE=never\<close>; but the file is opened, and so emptied, in that case as well.
\<close>
theorem report_files:
  assumes "checkPorcupine_report env chk finish l an = (ok, an', evs)"
  shows "Wrote info annotations \<in> set evs \<longleftrightarrow>
      vis_opens env \<and> vis_writes env \<and> info = snd (chk l) \<and>
      (if ok then vis_enabled env = ''always'' \<and> an_finalized an \<and> (an', annotations) = finish ''test passed'' an
       else vis_enabled env \<noteq> ''never'' \<and> (an', annotations) = finish ''test failed'' an)"
    and "Truncated path \<in> set evs \<longleftrightarrow> vis_opens env \<and> path = vis_path env \<and> path \<noteq> '''' \<and>
      (ok \<longrightarrow> vis_enabled env = ''always'' \<and> an_finalized an)"
proof -
  obtain res i where chk: "chk l = (res, i)" by fastforce
  obtain a1 f1 where 1: "finish ''test failed'' an = (a1, f1)" by fastforce
  obtain a2 f2 where 2: "finish ''test passed'' an = (a2, f2)" by fastforce
  note report = assms [unfolded checkPorcupine_report_def OpLog_Read_id chk Let_def write_vis_def 1 2 prod.case]
  show "Wrote info annotations \<in> set evs \<longleftrightarrow>
      vis_opens env \<and> vis_writes env \<and> info = snd (chk l) \<and>
      (if ok then vis_enabled env = ''always'' \<and> an_finalized an \<and> (an', annotations) = finish ''test passed'' an
       else vis_enabled env \<noteq> ''never'' \<and> (an', annotations) = finish ''test failed'' an)"
    using report unfolding chk 1 2 by (auto simp: open_vis_def split: if_split_asm)
  show "Truncated path \<in> set evs \<longleftrightarrow> vis_opens env \<and> path = vis_path env \<and> path \<noteq> '''' \<and>
      (ok \<longrightarrow> vis_enabled env = ''always'' \<and> an_finalized an)"
    using report by (auto simp: open_vis_def split: if_split_asm)
qed

theorem report_files_witness:
  "Truncated ''h.html'' \<in> set (snd (snd (checkPorcupine_report
      \<lparr>vis_enabled = ''never'', vis_path = ''h.html'', vis_opens = True, vis_writes = True\<rparr>
      (\<lambda>_. (Illegal, ())) (\<lambda>e an. (an, [])) [] mkAnnotation)))"
  using report_files(2) [of _ "\<lambda>_. (Illegal, ())" "\<lambda>e an. (an, [])" "[]" mkAnnotation False mkAnnotation _ "''h.html''"]
  by (simp add: checkPorcupine_report_def open_vis_def)

section \<open>The replicated service's test runs the stack\<close>

lemma StartKVServers_stack: "StartKVServers mrs ends gid i ps = map id (start_stack KVRaft_Restore mrs new_kv ends i ps)"
  by (simp add: StartKVServers_def start_stack_def StartKVRaft_def new_kv_def)

text \<open>A new test runs the stack from its first state.\<close>

theorem kvraft_test_starts_stack:
  assumes "inj rnd"
  shows "\<exists>line ts sg. kvraft_MakeTest rnd now1 now2 mk ptitle nclients (int n) rel crashes partitions mrs randomkeys =
      Some (line, ts) \<and> cfg_Group GRP0 (kt_Config ts) = Some sg \<and> kt_oplog ts = Some [] \<and>
    group_up (StartKVServers mrs) (\<lambda>_. MakePersister) n sg (tn_net (cf_tn (kt_Config ts))) \<and>
    runs_stack id n sg (kv_init mrs (int n))"
proof -
  obtain cfg sg where 1: "MakeConfig rnd now1 (int n) rel (StartKVServers mrs) mk = Some cfg" "cfg_Group GRP0 cfg = Some sg"
    "group_up (StartKVServers mrs) (\<lambda>_. MakePersister) n sg (tn_net (cf_tn cfg))"
    using MakeConfig_up [OF assms, of now1 n rel "StartKVServers mrs" mk] by blast
  have "runs_stack id n sg (kv_init mrs (int n))"
    unfolding kv_init_def using 1(3) by (rule new_group_stack) (rule StartKVServers_stack)
  with 1 show ?thesis
    by (simp add: kvraft_MakeTest_def cfg_Begin_def Let_def cfg_Group_def kt_MakeTest_def kvtest.defs)
qed


text \<open>
  C9 (a restart of the replicated service).  Take any run in order of the stack with \<open>n\<close> servers, and
  the test's group of servers, whose persisters hold what the peers have saved.  The test shuts all
  servers down and starts them again: neither call fails, every server is up and reaches every
  other, and its services are those of a state that the stack reaches by crashing every peer.  So
  there is one list of operations that the servers had executed prefixes of before the restart,
  and that they go on from in whatever happens afterwards: no operation is lost or reordered.
\<close>
theorem kvraft_restart_continues:
  assumes "kv_runs mrs (int n) (kv_init mrs (int n)) S" "group_ok (int n) sg" "fresh_ends rnd tn"
    and "\<forall>i<n. ts_saved (sg_srvs sg ! i) = Some (persister (srv (rc S) (int i)))"
  shows "\<exists>sg1 rn1 killed sg2 tn2 S' ops. Shutdown (sg, tn_net tn) = Some (sg1, rn1, killed) \<and>
    StartServers rnd (StartKVServers mrs) mk (sg1, tn\<lparr>tn_net := rn1\<rparr>) = Some (sg2, tn2) \<and>
    group_up (StartKVServers mrs) (\<lambda>i. persister (srv (rc S) (int i))) n sg2 (tn_net tn2) \<and>
    kv_runs mrs (int n) S S' \<and> runs_stack id n sg2 S' \<and>
    executes_log KVRaft_DoOp kr_table (new_kv 0) (int n) ops S \<and>
    (\<forall>T. kv_runs mrs (int n) S' T \<longrightarrow> (\<exists>xs. executes_log KVRaft_DoOp kr_table (new_kv 0) (int n) (ops @ xs) T))"
  using kvsys.restart_continues [OF _ refl assms(2-4) StartKVServers_stack] assms(1)
  unfolding kv_runs_def kv_init_def .

theorem kvraft_restart_continues_witness:
  "\<exists>S S' sg2 ops. kv_runs (-1) 3 (kv_init (-1) 3) S \<and>
     calls S 0 0 = Some (demo_call demo_put (call_pc.Returned demo_ok)) \<and> kv_runs (-1) 3 S S' \<and>
     runs_stack id 3 sg2 S' \<and> executes_log KVRaft_DoOp kr_table (new_kv 0) 3 ops S'"
proof -
  let ?rnd = "\<lambda>k. replicate k CHR ''x''" and ?mk = "\<lambda>_. \<lparr>sv_name = ''S'', sv_methods = Map.empty\<rparr> :: (nat, nat, nat) Service"
  obtain S where S: "kv_runs (-1) 3 (kv_init (-1) 3) S" "calls S 0 0 = Some (demo_call demo_put (call_pc.Returned demo_ok))"
    using kv_run_demo by blast
  let ?ps = "\<lambda>i. persister (srv (rc S) (int i))"
  have "inj ?rnd" by (rule injI) (metis length_replicate)
  then obtain cfg :: "(kv_req Op gob_raft, gob_table, kv_service, nat, nat, nat) Config"
    and sg :: "(kv_req Op gob_raft, gob_table, kv_service) ServerGrp"
    where cfg: "fresh_ends ?rnd (cf_tn cfg)" "group_ok (int 3) sg"
    using MakeConfig_up [of ?rnd 0 3 True "StartKVServers (-1)" ?mk] unfolding group_up_def by blast
  have n: "int 3 = 3" by simp
  obtain S' sg2 ops where "kv_runs (-1) 3 S S'" "runs_stack id 3 sg2 S'"
    "\<forall>T. kv_runs (-1) 3 S' T \<longrightarrow> (\<exists>xs. executes_log KVRaft_DoOp kr_table (new_kv 0) 3 (ops @ xs) T)"
    using kvraft_restart_continues [of "-1" 3 S "with_saved ?ps sg" ?rnd "cf_tn cfg" ?mk, unfolded n, OF S(1)]
      with_saved_ok [OF cfg(2), where ps = ?ps, unfolded n] cfg(1) by blast
  moreover have "kv_runs (-1) 3 S' S'" for S' by (simp add: kv_runs_def)
  ultimately show ?thesis using S by blast
qed

end
