(* ===== verification/LectureKv.thy ===== *)
theory LectureKv
  imports GoPrelude
begin

text \<open>
  The key/value server of a lecture (\<open>src/class/lecture2/kv.go\<close>): a map behind a mutex, served over
  \<open>net/rpc\<close>, and a client that dies on every error.  A call over TCP is executed and answered, or
  fails; a call that fails may have been executed.  \<open>None\<close> is \<open>log.Fatal\<close>.
\<close>

section \<open>Requests, replies and the server\<close>

record LPutArgs =
  lp_Key :: string
  lp_Value :: string

record LGetArgs =
  lg_Key :: string

record LGetReply =
  lr_Value :: string

record KV =
  kv_data :: "string \<Rightarrow> string option"

definition KV_new :: KV where
  "KV_new = \<lparr>kv_data = Map.empty\<rparr>"

definition KV_Get :: "KV \<Rightarrow> LGetArgs \<Rightarrow> LGetReply" where
  "KV_Get kv args = \<lparr>lr_Value = (case kv_data kv (lg_Key args) of Some v \<Rightarrow> v | None \<Rightarrow> '''')\<rparr>"

definition KV_Put :: "KV \<Rightarrow> LPutArgs \<Rightarrow> KV" where
  "KV_Put kv args = kv\<lparr>kv_data := (kv_data kv)(lp_Key args \<mapsto> lp_Value args)\<rparr>"

text \<open>What the server executes for clients, in the order of its mutex.\<close>

datatype request = ReqGet LGetArgs | ReqPut LPutArgs

primrec serve_one :: "request \<Rightarrow> KV \<Rightarrow> KV" where
  "serve_one (ReqGet a) kv = kv"
| "serve_one (ReqPut a) kv = KV_Put kv a"

definition serve :: "request list \<Rightarrow> KV \<Rightarrow> KV" where
  "serve reqs kv = fold serve_one reqs kv"

section \<open>The client\<close>

text \<open>A call: \<open>Dial\<close> fails, \<open>Call\<close> returns an error before or after the execution, or it is answered.\<close>

datatype outcome = DialFails | CallFails bool | Answered

definition call_put :: "string \<Rightarrow> string \<Rightarrow> outcome \<Rightarrow> KV \<Rightarrow> KV \<times> unit option" where
  "call_put key val out kv =
     (let args = \<lparr>lp_Key = key, lp_Value = val\<rparr> in
      case out of
        DialFails \<Rightarrow> (kv, None)
      | CallFails executed \<Rightarrow> (if executed then KV_Put kv args else kv, None)
      | Answered \<Rightarrow> (KV_Put kv args, Some ()))"

definition call_get :: "string \<Rightarrow> outcome \<Rightarrow> KV \<Rightarrow> string option" where
  "call_get key out kv =
     (let args = \<lparr>lg_Key = key\<rparr> in
      case out of
        DialFails \<Rightarrow> None
      | CallFails executed \<Rightarrow> None
      | Answered \<Rightarrow> Some (lr_Value (KV_Get kv args)))"

text \<open>
  \<open>server\<close>, then \<open>main\<close>: the lines it prints.  \<open>before\<close> and \<open>between\<close> are requests of other clients,
  which may connect to the port as well.
\<close>

definition start_server :: "bool \<Rightarrow> KV option" where
  "start_server listens = (if \<not> listens then None else Some KV_new)"

definition lecture_main :: "bool \<Rightarrow> request list \<Rightarrow> outcome \<Rightarrow> request list \<Rightarrow> outcome \<Rightarrow> string list option" where
  "lecture_main listens before out1 between out2 =
     do {
       kv \<leftarrow> start_server listens;
       let (kv, r) = call_put ''subject'' ''6.5840'' out1 (serve before kv);
       _ \<leftarrow> r;
       v \<leftarrow> call_get ''subject'' out2 (serve between kv);
       Some [''Put(subject, 6.5840) done'', ''get(subject) -> '' @ v]
     }"

section \<open>Properties\<close>

text \<open>The value put last to a key.\<close>

fun last_put :: "string \<Rightarrow> request list \<Rightarrow> string option" where
  "last_put k [] = None"
| "last_put k (ReqGet a # reqs) = last_put k reqs"
| "last_put k (ReqPut a # reqs) =
     (case last_put k reqs of Some v \<Rightarrow> Some v | None \<Rightarrow> if lp_Key a = k then Some (lp_Value a) else None)"

lemma serve_data: "kv_data (serve reqs kv) k = (case last_put k reqs of Some v \<Rightarrow> Some v | None \<Rightarrow> kv_data kv k)"
proof (induction reqs arbitrary: kv)
  case (Cons r reqs)
  then show ?case by (cases r) (auto simp: serve_def KV_Put_def split: option.splits)
qed (simp add: serve_def)

text \<open>
  The server is a map of registers: whatever clients do at the same time, a \<open>Get\<close> returns the value
  of the last \<open>Put\<close> of its key that was executed before it, or the empty string.
\<close>
theorem get_returns_last_put:
  "lr_Value (KV_Get (serve reqs KV_new) \<lparr>lg_Key = k\<rparr>) = (case last_put k reqs of Some v \<Rightarrow> v | None \<Rightarrow> '''')"
  by (auto simp: KV_Get_def serve_data KV_new_def split: option.split)

text \<open>
  \<open>main\<close> gets to its end exactly when the port is free and both its calls are answered, and prints
  the value it has put unless another client puts another one in between.
\<close>
theorem lecture_main_prints:
  "lecture_main listens before out1 between out2 =
     (if listens \<and> out1 = Answered \<and> out2 = Answered
      then Some [''Put(subject, 6.5840) done'',
                 ''get(subject) -> '' @ (case last_put ''subject'' between of Some v \<Rightarrow> v | None \<Rightarrow> ''6.5840'')]
      else None)"
proof (cases "listens \<and> out1 = Answered \<and> out2 = Answered")
  case True
  then show ?thesis
    by (cases "last_put ''subject'' between")
      (simp_all add: lecture_main_def start_server_def call_put_def call_get_def KV_Get_def serve_data KV_Put_def Let_def)
next
  case False
  then show ?thesis
    by (cases out1; cases out2) (auto simp: lecture_main_def start_server_def call_put_def call_get_def Let_def)
qed

end
