(* ===== verification/ShardSetup.thy ===== *)
theory ShardSetup
  imports ShardTest KvDriver ShardClerk
begin

text \<open>
  The set-up of a test of the sharded service (\<open>src/shardkv1/test.go\<close>) on the configuration of
  \<open>TestConfig\<close>: the store of the controllers, the first shard group and the groups that join.  Each
  group of the current configuration runs the stack of \<open>KvSystem\<close>, and the names the configuration
  has for its servers are those they are registered under.
\<close>

section \<open>The test\<close>

text \<open>The services in a test: the store of the configurations, and those of shard groups.\<close>

datatype shard_svc = CtrlStore KVServer | GrpService "(shard_rep, ShardKV, shard_req, gob_shard) stack_service"

type_synonym ('w, 'a, 'x) shard_cfg = "(shard_req Op gob_raft, gob_shard, shard_svc, 'w, 'a, 'x) Config"

definition start_store :: "(shard_req Op gob_raft, gob_shard, shard_svc) mksrv" where
  "start_store ends gid i ps = map CtrlStore (StartKVServer ends gid i ps)"

definition StartServerShardGrps :: "int \<Rightarrow> (shard_req Op gob_raft, gob_shard, shard_svc) mksrv" where
  "StartServerShardGrps mrs ends gid i ps =
     [GrpService (StackService (MakeRSM ShardGrp_Restore i ps mrs (StartServerShardGrp gid i))),
      GrpService (StackPeer (Make (int (length ends)) i ps))]"

text \<open>\<open>sh_sck\<close> is the client of the test's controller, which \<open>setupKVService\<close> makes.\<close>

record ('w, 'a, 'x) shard_test = "(shard_req Op gob_raft, gob_shard, shard_svc, 'w, 'a, 'x) kvtest" +
  sh_sck :: "nat option"
  sh_part :: string
  sh_partition :: bool
  sh_maxraftstate :: int
  sh_ngid :: int

text \<open>\<open>t\<close>, \<open>now1\<close> and \<open>now2\<close> are readings of the clock; the line printed is returned.\<close>

definition MakeTestMaxRaft :: "(nat \<Rightarrow> string) \<Rightarrow> int \<Rightarrow> int \<Rightarrow> int \<Rightarrow> (shard_svc \<Rightarrow> ('w, 'a, 'x) Service) \<Rightarrow>
    string \<Rightarrow> bool \<Rightarrow> bool \<Rightarrow> int \<Rightarrow> astate \<Rightarrow> (string \<times> ('w, 'a, 'x) shard_test \<times> astate) option" where
  "MakeTestMaxRaft rnd now1 now2 t mk ptitle rel parts mrs an =
     do {
       cfg \<leftarrow> MakeConfig rnd now1 1 rel start_store mk;
       let ts = kvtest.extend (kt_MakeTest cfg False)
         \<lparr>sh_sck = None, sh_part = '''', sh_partition = parts, sh_maxraftstate = mrs, sh_ngid = Gid1 + 1\<rparr>;
       let an = AnnotateTest t ptitle 1 an;
       let (line, cfg) = cfg_Begin now2 ptitle (kt_Config ts);
       Some (line, ts\<lparr>kt_Config := cfg\<rparr>, an)
     }"

definition shard_MakeTest where
  "shard_MakeTest rnd now1 now2 t mk ptitle rel = MakeTestMaxRaft rnd now1 now2 t mk ptitle rel False (-1)"

definition MakeTestLeases where
  "MakeTestLeases rnd now1 now2 t mk ptitle rel = MakeTestMaxRaft rnd now1 now2 t mk ptitle rel True (-1)"

definition new_client :: "('w, 'a, 'x) shard_test \<Rightarrow> (nat \<times> ('w, 'a, 'x) shard_test) option" where
  "new_client ts = do { (clnt, cfg) \<leftarrow> on_clnts MakeClient (kt_Config ts); Some (clnt, ts\<lparr>kt_Config := cfg\<rparr>) }"

text \<open>A controller is a clerk of the store; it comes with its client.\<close>

definition makeShardCtrlerClnt :: "('w, 'a, 'x) shard_test \<Rightarrow> ((Clerk \<times> nat) \<times> ('w, 'a, 'x) shard_test) option" where
  "makeShardCtrlerClnt ts =
     do { (clnt, ts) \<leftarrow> new_client ts; Some ((MakeClerk clnt (ServerName GRP0 0), clnt), ts) }"

definition makeShardCtrler :: "('w, 'a, 'x) shard_test \<Rightarrow> (Clerk \<times> ('w, 'a, 'x) shard_test) option" where
  "makeShardCtrler ts = do { ((ck, clnt), ts) \<leftarrow> makeShardCtrlerClnt ts; Some (ck, ts) }"

definition makeKVClerk :: "('w, 'a, 'x) shard_test \<Rightarrow> (Clerk \<times> ('w, 'a, 'x) shard_test) option" where
  "makeKVClerk ts = do { (clnt, ts) \<leftarrow> new_client ts; Some (MakeClerk clnt (ServerName GRP0 0), ts) }"

definition shard_MakeClerk :: "('w, 'a, 'x) shard_test \<Rightarrow>
    ((ShardKVClerk \<times> Clerk) TestClerk \<times> ('w, 'a, 'x) shard_test) option" where
  "shard_MakeClerk ts =
     do {
       (clnt, ts) \<leftarrow> new_client ts;
       (sck, ts) \<leftarrow> makeShardCtrler ts;
       Some (\<lparr>tk_clerk = (ShardKV_MakeClerk clnt, sck), tk_Clnt = clnt\<rparr>, ts)
     }"

section \<open>Groups\<close>

definition start_group :: "(nat \<Rightarrow> string) \<Rightarrow> (shard_svc \<Rightarrow> ('w, 'a, 'x) Service) \<Rightarrow> int \<Rightarrow>
    ('w, 'a, 'x) shard_test \<Rightarrow> (string list \<times> ('w, 'a, 'x) shard_test) option" where
  "start_group rnd mk gid ts =
     do {
       cfg \<leftarrow> MakeGroupStart rnd gid shard_NSRV (StartServerShardGrps (sh_maxraftstate ts)) mk (kt_Config ts);
       sg \<leftarrow> cfg_Group gid cfg;
       Some (sg_servernames sg, ts\<lparr>kt_Config := cfg\<rparr>)
     }"

text \<open>The configuration that the controller gets for \<open>InitConfig\<close> is returned.\<close>

definition setupKVService :: "(nat \<Rightarrow> string) \<Rightarrow> (shard_svc \<Rightarrow> ('w, 'a, 'x) Service) \<Rightarrow>
    ('w, 'a, 'x) shard_test \<Rightarrow> (ShardConfig \<times> ('w, 'a, 'x) shard_test) option" where
  "setupKVService rnd mk ts =
     do {
       (sck, ts) \<leftarrow> makeShardCtrler ts;
       let ts = ts\<lparr>sh_sck := Some (ck_clnt sck)\<rparr>;
       let scfg = MakeShardConfig;
       (names, ts) \<leftarrow> start_group rnd mk Gid1 ts;
       (scfg, ok) \<leftarrow> JoinBalance [(Gid1, names)] scfg;
       Some (scfg, ts)
     }"

text \<open>
  \<open>joinGroups\<close> and \<open>leaveGroups\<close> of \<open>ShardTest\<close> with the groups they start and end; \<open>c\<close> is the posted
  configuration and \<open>change\<close> is \<open>ChangeConfigTo\<close>.
\<close>

primrec joinGroups_start :: "(nat \<Rightarrow> string) \<Rightarrow> (shard_svc \<Rightarrow> ('w, 'a, 'x) Service) \<Rightarrow>
    (ShardConfig \<Rightarrow> ShardConfig \<Rightarrow> ShardConfig) \<Rightarrow> int list \<Rightarrow> ShardConfig \<times> ('w, 'a, 'x) shard_test \<Rightarrow>
    ((ShardConfig \<times> ('w, 'a, 'x) shard_test) \<times> bool) option" where
  "joinGroups_start rnd mk change [] st = Some (st, True)"
| "joinGroups_start rnd mk change (gid # gids) st =
     (case st of (c, ts) \<Rightarrow> do {
        (names, ts) \<leftarrow> start_group rnd mk gid ts;
        (newcfg, ok) \<leftarrow> JoinBalance [(gid, names)] (Copy c);
        if \<not> ok then None
        else do {
          let c = change newcfg c;
          if \<not> IsMember c gid then Some ((c, ts), False) else joinGroups_start rnd mk change gids (c, ts)
        }
      })"

primrec leaveGroups_exit :: "(ShardConfig \<Rightarrow> ShardConfig \<Rightarrow> ShardConfig) \<Rightarrow> int list \<Rightarrow>
    ShardConfig \<times> ('w, 'a, 'x) shard_test \<Rightarrow> ((ShardConfig \<times> ('w, 'a, 'x) shard_test) \<times> bool) option" where
  "leaveGroups_exit change [] st = Some (st, True)"
| "leaveGroups_exit change (gid # gids) st =
     (case st of (c, ts) \<Rightarrow> do {
        (newcfg, ok) \<leftarrow> LeaveBalance [gid] (Copy c);
        if \<not> ok then None
        else do {
          let c = change newcfg c;
          if IsMember c gid then Some ((c, ts), False)
          else do {
            cfg \<leftarrow> ExitGroup gid (kt_Config ts);
            leaveGroups_exit change gids (c, ts\<lparr>kt_Config := cfg\<rparr>)
          }
        }
      })"

text \<open>
  \<open>disconnectClntFromLeader\<close> shuts down the server that believes to lead; the Raft services of the
  group are its peers.
\<close>

definition leader_services :: "shard_svc \<Rightarrow> (shard_req Op, gob_shard) Raft isvc" where
  "leader_services v = (case v of GrpService (StackPeer rf) \<Rightarrow> RaftSvc rf | _ \<Rightarrow> OtherSvc)"

definition disconnectClntFromLeader :: "int \<Rightarrow> ('w, 'a, 'x) shard_cfg \<Rightarrow> (int \<times> ('w, 'a, 'x) shard_cfg) option" where
  "disconnectClntFromLeader gid cfg =
     do {
       sg \<leftarrow> cfg_Group gid cfg;
       let (ok, l) = Leader_of (map (map leader_services) (Services sg));
       if \<not> ok then None
       else do {
         (sg, rn, killed) \<leftarrow> ShutdownServer l (sg, tn_net (cf_tn cfg));
         Some (l, cfg\<lparr>cf_groups := (cf_groups cfg)(gid \<mapsto> sg), cf_tn := (cf_tn cfg)\<lparr>tn_net := rn\<rparr>\<rparr>)
       }
     }"


section \<open>The groups of a configuration are up\<close>

lemma StartServerShardGrps_stack:
  "StartServerShardGrps mrs ends gid i ps = map GrpService (start_stack ShardGrp_Restore mrs (new_sk gid) ends i ps)"
  by (simp add: StartServerShardGrps_def start_stack_def new_sk_def)

text \<open>A group as it was started, under the names of its servers.\<close>

definition shard_group_up :: "(nat \<Rightarrow> string) \<Rightarrow> int \<Rightarrow> int \<Rightarrow> ('w, 'a, 'x) shard_cfg \<Rightarrow> bool" where
  "shard_group_up rnd mrs g cfg \<longleftrightarrow> (\<exists>sg. cfg_Group g cfg = Some sg \<and> sg_gid sg = g \<and> sg_servernames sg = grp_names g \<and>
     drawn (tn_rand (cf_tn cfg)) rnd 3 sg \<and>
     group_up (StartServerShardGrps mrs) (\<lambda>_. MakePersister) 3 sg (tn_net (cf_tn cfg)))"

definition groups_up :: "(nat \<Rightarrow> string) \<Rightarrow> int \<Rightarrow> ShardConfig \<Rightarrow> ('w, 'a, 'x) shard_cfg \<Rightarrow> bool" where
  "groups_up rnd mrs c cfg \<longleftrightarrow> fresh_ends rnd (cf_tn cfg) \<and> (\<forall>g\<in>group_ids c. shard_group_up rnd mrs g cfg)"

lemma start_group_up:
  fixes ts :: "('w, 'a, 'x) shard_test"
  assumes "fresh_ends rnd (cf_tn (kt_Config ts))"
  shows "\<exists>cfg'. start_group rnd mk gid ts = Some (grp_names gid, ts\<lparr>kt_Config := cfg'\<rparr>) \<and> fresh_ends rnd (cf_tn cfg') \<and>
    shard_group_up rnd (sh_maxraftstate ts) gid cfg' \<and>
    (\<forall>g mrs. g \<noteq> gid \<longrightarrow> shard_group_up rnd mrs g (kt_Config ts) \<longrightarrow> shard_group_up rnd mrs g cfg')"
proof -
  let ?mks = "StartServerShardGrps (sh_maxraftstate ts)"
  obtain cfg' sg where 1: "MakeGroupStart rnd gid (int 3) ?mks mk (kt_Config ts) = Some cfg'" "cfg_Group gid cfg' = Some sg"
    "fresh_ends rnd (cf_tn cfg')" "sg_gid sg = gid" "sg_servernames sg = map (ServerName gid) (peer_ids (int 3))"
    "drawn (tn_rand (cf_tn cfg')) rnd 3 sg" "group_up ?mks (\<lambda>_. MakePersister) 3 sg (tn_net (cf_tn cfg'))"
    using MakeGroupStart_connects [OF assms, of gid 3 ?mks mk] by blast
  have names: "sg_servernames sg = grp_names gid" by (simp add: 1(5) grp_names_def shard_NSRV_def)
  have "start_group rnd mk gid ts = Some (grp_names gid, ts\<lparr>kt_Config := cfg'\<rparr>)"
    using 1(1,2) names by (simp add: start_group_def shard_NSRV_def)
  moreover have "shard_group_up rnd (sh_maxraftstate ts) gid cfg'"
    using 1 names by (auto simp: shard_group_up_def)
  moreover have "shard_group_up rnd mrs g cfg'" if "g \<noteq> gid" "shard_group_up rnd mrs g (kt_Config ts)" for g mrs
  proof -
    have "inj rnd" using assms by (simp add: fresh_ends_def)
    then show ?thesis using MakeGroupStart_others [OF 1(1) _ that(1)] that(2) unfolding shard_group_up_def by metis
  qed
  ultimately show ?thesis using 1(3) by blast
qed

lemma join_up:
  assumes "groups_up rnd mrs c (kt_Config ts)" "sh_maxraftstate ts = mrs" "join_config gid c = Some d" "good_config c" "1 \<le> gid"
  shows "\<exists>cfg'. start_group rnd mk gid ts = Some (grp_names gid, ts\<lparr>kt_Config := cfg'\<rparr>) \<and> groups_up rnd mrs d cfg'"
proof -
  have "group_ids d = insert gid (group_ids c)" using join_config_good [OF assms(3-5)] by simp
  moreover have "gid \<notin> group_ids c"
    using assms(3) unfolding join_config_iff JoinBalance_def Join_one by (auto split: if_splits)
  ultimately have d: "g \<in> group_ids d \<longleftrightarrow> g = gid \<or> g \<in> group_ids c \<and> g \<noteq> gid" for g by blast
  have fresh: "fresh_ends rnd (cf_tn (kt_Config ts))" and up: "g \<in> group_ids c \<Longrightarrow> shard_group_up rnd mrs g (kt_Config ts)" for g
    using assms(1) by (auto simp: groups_up_def)
  from start_group_up [OF fresh, of mk gid] obtain cfg' where
    1: "start_group rnd mk gid ts = Some (grp_names gid, ts\<lparr>kt_Config := cfg'\<rparr>)" "fresh_ends rnd (cf_tn cfg')"
    "shard_group_up rnd mrs gid cfg'"
    and 2: "\<And>g. g \<noteq> gid \<Longrightarrow> shard_group_up rnd mrs g (kt_Config ts) \<Longrightarrow> shard_group_up rnd mrs g cfg'"
    unfolding assms(2) by blast
  have "groups_up rnd mrs d cfg'" using 1(2,3) 2 up by (auto simp: groups_up_def d)
  with 1(1) show ?thesis by blast
qed

lemma joinGroups_start_up:
  assumes "joinGroups (\<lambda>new c. new) gids c = Some (d, ok)" "groups_up rnd mrs c (kt_Config ts)"
    and "sh_maxraftstate ts = mrs" "good_config c" "\<forall>g\<in>set gids. 1 \<le> g"
  shows "\<exists>ts'. joinGroups_start rnd mk (\<lambda>new c. new) gids (c, ts) = Some ((d, ts'), ok) \<and>
    groups_up rnd mrs d (kt_Config ts') \<and> sh_maxraftstate ts' = mrs"
  using assms
proof (induction gids arbitrary: c ts)
  case (Cons gid gids)
  then obtain c1 where c1: "join_config gid c = Some c1" by (auto simp: bind_eq_Some_conv')
  have good: "good_config c1" using join_config_good [OF c1 Cons.prems(4)] Cons.prems(5) by simp
  obtain cfg' where 1: "start_group rnd mk gid ts = Some (grp_names gid, ts\<lparr>kt_Config := cfg'\<rparr>)" "groups_up rnd mrs c1 cfg'"
    using join_up [OF Cons.prems(2,3) c1 Cons.prems(4)] Cons.prems(5) by auto
  have bal: "JoinBalance [(gid, grp_names gid)] c = Some (c1, True)" using c1 by (simp add: join_config_iff)
  show ?case
  proof (cases "IsMember c1 gid")
    case True
    then have "joinGroups (\<lambda>new c. new) gids c1 = Some (d, ok)" using Cons.prems(1) c1 by simp
    from Cons.IH [OF this, of "ts\<lparr>kt_Config := cfg'\<rparr>"] show ?thesis
      using 1 bal True good Cons.prems(3,5) by simp
  next
    case False
    then show ?thesis using Cons.prems(1,3) c1 1 bal by simp
  qed
qed simp

text \<open>Setting up: the store runs, and the first group.\<close>

lemma new_client_Some:
  fixes ts :: "('w, 'a, 'x) shard_test"
  assumes "tc_clerks (cf_clnts (kt_Config ts)) \<noteq> None"
  shows "\<exists>clnt cfg'. new_client ts = Some (clnt, ts\<lparr>kt_Config := cfg'\<rparr>) \<and> cf_tn cfg' = cf_tn (kt_Config ts) \<and>
    cf_groups cfg' = cf_groups (kt_Config ts)"
proof -
  obtain clnt cfg' where "on_clnts MakeClient (kt_Config ts) = Some (clnt, cfg')" "cf_tn cfg' = cf_tn (kt_Config ts)"
    "cf_groups cfg' = cf_groups (kt_Config ts)"
    using assms by (auto simp: on_clnts_def MakeClient_def MakeClientTo_def Let_def)
  then show ?thesis by (auto simp: new_client_def)
qed

lemma setup_up:
  fixes mk :: "shard_svc \<Rightarrow> ('w, 'a, 'x) Service"
  assumes "inj rnd"
  shows "\<exists>line ts an' scfg ts'. MakeTestMaxRaft rnd now1 now2 t mk ptitle rel parts mrs an = Some (line, ts, an') \<and>
    setupKVService rnd mk ts = Some (scfg, ts') \<and> setup_config = Some scfg \<and>
    groups_up rnd mrs scfg (kt_Config ts') \<and> sh_maxraftstate ts' = mrs"
proof -
  obtain cfg :: "('w, 'a, 'x) shard_cfg" where 1: "MakeConfig rnd now1 (int 1) rel start_store mk = Some cfg"
    "fresh_ends rnd (cf_tn cfg)"
    using MakeConfig_up [OF assms, of now1 1 rel start_store mk] by blast
  have clerks: "tc_clerks (cf_clnts cfg) = Some []"
    using 1(1) by (auto simp: MakeConfig_def makeClnts_def bind_eq_Some_conv' Let_def)
  let ?ts = "(kvtest.extend (kt_MakeTest cfg False)
      \<lparr>sh_sck = None, sh_part = '''', sh_partition = parts, sh_maxraftstate = mrs, sh_ngid = Gid1 + 1\<rparr>)
        \<lparr>kt_Config := snd (cfg_Begin now2 ptitle cfg)\<rparr>"
  have ts: "MakeTestMaxRaft rnd now1 now2 t mk ptitle rel parts mrs an =
      Some (fst (cfg_Begin now2 ptitle cfg), ?ts, AnnotateTest t ptitle 1 an)"
    using 1(1) by (simp add: MakeTestMaxRaft_def kt_MakeTest_def kvtest.defs cfg_Begin_def Let_def)
  have "tc_clerks (cf_clnts (kt_Config ?ts)) \<noteq> None" using clerks by (simp add: cfg_Begin_def Let_def)
  then obtain clnt cfg1 where 2: "new_client ?ts = Some (clnt, ?ts\<lparr>kt_Config := cfg1\<rparr>)" "cf_tn cfg1 = cf_tn (kt_Config ?ts)"
    using new_client_Some by blast
  let ?ts1 = "?ts\<lparr>kt_Config := cfg1, sh_sck := Some clnt\<rparr>"
  have "fresh_ends rnd (cf_tn (kt_Config ?ts1))" using 1(2) 2(2) by (simp add: cfg_Begin_def Let_def)
  from start_group_up [OF this, of mk Gid1] obtain cfg2 where
    3: "start_group rnd mk Gid1 ?ts1 = Some (grp_names Gid1, ?ts1\<lparr>kt_Config := cfg2\<rparr>)" "fresh_ends rnd (cf_tn cfg2)"
    "shard_group_up rnd mrs Gid1 cfg2"
    by (auto simp: kt_MakeTest_def kvtest.defs)
  obtain scfg where 4: "setup_config = Some scfg" "group_ids scfg = {Gid1}" using setup_config_good by blast
  then obtain ok where 5: "JoinBalance [(Gid1, grp_names Gid1)] MakeShardConfig = Some (scfg, ok)"
    by (auto simp: setup_config_def)
  have "setupKVService rnd mk ?ts = Some (scfg, ?ts1\<lparr>kt_Config := cfg2\<rparr>)"
    using 2(1) 3(1) 5 by (simp add: setupKVService_def makeShardCtrler_def makeShardCtrlerClnt_def MakeClerk_def Let_def)
  moreover have "groups_up rnd mrs scfg cfg2" using 3(2,3) 4(2) by (simp add: groups_up_def)
  ultimately show ?thesis using ts 4(1) by (fastforce simp: kt_MakeTest_def kvtest.defs)
qed


text \<open>A group that is up, found under its name, runs the stack of the service in its first state.\<close>

lemma shard_group_runs:
  assumes "shard_group_up rnd mrs g cfg"
  obtains sg where "cfg_Group g cfg = Some sg" "sg_servernames sg = grp_names g"
    "group_up (StartServerShardGrps mrs) (\<lambda>_. MakePersister) 3 sg (tn_net (cf_tn cfg))"
    "runs_stack GrpService 3 sg (rsys_init ShardGrp_Restore mrs (new_sk g) 3)"
proof -
  obtain sg where 1: "cfg_Group g cfg = Some sg" "sg_gid sg = g" "sg_servernames sg = grp_names g"
    "group_up (StartServerShardGrps mrs) (\<lambda>_. MakePersister) 3 sg (tn_net (cf_tn cfg))"
    using assms unfolding shard_group_up_def by blast
  have "StartServerShardGrps mrs ends (sg_gid sg) i ps =
      map GrpService (start_stack ShardGrp_Restore mrs (new_sk g) ends i ps)" for ends i ps
    by (simp add: StartServerShardGrps_stack 1(2))
  from new_group_stack [OF 1(4) this] have "runs_stack GrpService 3 sg (rsys_init ShardGrp_Restore mrs (new_sk g) 3)"
    by simp
  with 1 that show thesis by blast
qed

text \<open>
  A test that is set up and then lets new groups join, as many as there are shards for: every group of
  the configuration it ends with exists under the names that the configuration has for it, with all of
  its servers connected and registered, each of which runs the stack of the shard group's service.
\<close>

theorem setup_and_join_starts_groups:
  fixes mk :: "shard_svc \<Rightarrow> ('w, 'a, 'x) Service"
  assumes "inj rnd" "distinct gids" "\<forall>g\<in>set gids. Gid1 < g" "length gids < nat NShards"
  shows "\<exists>line ts an' scfg ts1 d ts2. MakeTestMaxRaft rnd now1 now2 t mk ptitle rel parts mrs an = Some (line, ts, an') \<and>
    setupKVService rnd mk ts = Some (scfg, ts1) \<and>
    joinGroups_start rnd mk (\<lambda>new c. new) gids (scfg, ts1) = Some ((d, ts2), True) \<and>
    group_ids d = insert Gid1 (set gids) \<and>
    (\<forall>g\<in>group_ids d. \<exists>sg. cfg_Group g (kt_Config ts2) = Some sg \<and> fmlookup (Groups d) g = Some (sg_servernames sg) \<and>
       group_up (StartServerShardGrps mrs) (\<lambda>_. MakePersister) 3 sg (tn_net (cf_tn (kt_Config ts2))) \<and>
       runs_stack GrpService 3 sg (rsys_init ShardGrp_Restore mrs (new_sk g) 3))"
proof -
  obtain line ts an' scfg ts1 where 1: "MakeTestMaxRaft rnd now1 now2 t mk ptitle rel parts mrs an = Some (line, ts, an')"
    "setupKVService rnd mk ts = Some (scfg, ts1)" "setup_config = Some scfg" "groups_up rnd mrs scfg (kt_Config ts1)"
    "sh_maxraftstate ts1 = mrs"
    using setup_up [OF assms(1), of now1 now2 t mk ptitle rel parts mrs an] by blast
  have s: "good_config scfg" "group_ids scfg = {Gid1}" using setup_configD [OF 1(3)] by simp_all
  have gids: "\<forall>g\<in>set gids. 1 \<le> g" "\<forall>g\<in>set gids. 1 \<le> g \<and> g \<notin> group_ids scfg"
    using assms(3) s(2) by (auto simp: Gid1_def)
  obtain d where d: "joinGroups (\<lambda>new c. new) gids scfg = Some (d, True)" "good_config d"
    "group_ids d = insert Gid1 (set gids)"
    using joinGroups_joins [OF s(1) assms(2) gids(2)] s(2) assms(4) by (auto simp del: joinGroups.simps)
  obtain ts2 where ts2: "joinGroups_start rnd mk (\<lambda>new c. new) gids (scfg, ts1) = Some ((d, ts2), True)"
    "groups_up rnd mrs d (kt_Config ts2)"
    using joinGroups_start_up [OF d(1) 1(4,5) s(1) gids(1), of mk] by blast
  have "\<exists>sg. cfg_Group g (kt_Config ts2) = Some sg \<and> fmlookup (Groups d) g = Some (sg_servernames sg) \<and>
       group_up (StartServerShardGrps mrs) (\<lambda>_. MakePersister) 3 sg (tn_net (cf_tn (kt_Config ts2))) \<and>
       runs_stack GrpService 3 sg (rsys_init ShardGrp_Restore mrs (new_sk g) 3)" if g: "g \<in> group_ids d" for g
  proof -
    have up: "shard_group_up rnd mrs g (kt_Config ts2)" and names: "fmlookup (Groups d) g = Some (grp_names g)"
      using g ts2(2) d(2) by (auto simp: groups_up_def good_config_def)
    show ?thesis by (rule shard_group_runs [OF up]) (use names in auto)
  qed
  then have "\<forall>g\<in>group_ids d. \<exists>sg. cfg_Group g (kt_Config ts2) = Some sg \<and> fmlookup (Groups d) g = Some (sg_servernames sg) \<and>
       group_up (StartServerShardGrps mrs) (\<lambda>_. MakePersister) 3 sg (tn_net (cf_tn (kt_Config ts2))) \<and>
       runs_stack GrpService 3 sg (rsys_init ShardGrp_Restore mrs (new_sk g) 3)" ..
  then show ?thesis using 1(1,2) ts2(1) d(3)
    by (intro exI [of _ line] exI [of _ ts] exI [of _ an'] exI [of _ scfg] exI [of _ ts1] exI [of _ d] exI [of _ ts2] conjI)
qed

theorem setup_and_join_starts_groups_witness:
  "\<exists>line ts an scfg ts1 d ts2. MakeTestMaxRaft (\<lambda>k. replicate k CHR ''x'') 0 1 2
      (\<lambda>_. \<lparr>sv_name = ''S'', sv_methods = Map.empty\<rparr> :: (nat, nat, nat) Service) ''join'' True False (-1) astate_init
      = Some (line, ts, an) \<and>
    setupKVService (\<lambda>k. replicate k CHR ''x'') (\<lambda>_. \<lparr>sv_name = ''S'', sv_methods = Map.empty\<rparr>) ts = Some (scfg, ts1) \<and>
    joinGroups_start (\<lambda>k. replicate k CHR ''x'')
      (\<lambda>_. \<lparr>sv_name = ''S'', sv_methods = Map.empty\<rparr>) (\<lambda>new c. new) [2, 3] (scfg, ts1) = Some ((d, ts2), True) \<and>
    group_ids d = {1, 2, 3}"
proof -
  let ?rnd = "\<lambda>k. replicate k CHR ''x''" and ?mk = "\<lambda>_. \<lparr>sv_name = ''S'', sv_methods = Map.empty\<rparr> :: (nat, nat, nat) Service"
  have inj: "inj (\<lambda>k. replicate k CHR ''x'')" by (rule injI) (metis length_replicate)
  have "distinct [2, 3 :: int]" "\<forall>g\<in>set [2, 3]. Gid1 < g" "length [2, 3 :: int] < nat NShards"
    by (simp_all add: Gid1_def NShards_def)
  from setup_and_join_starts_groups [OF inj this, of 0 1 2
    "\<lambda>_. \<lparr>sv_name = ''S'', sv_methods = Map.empty\<rparr> :: (nat, nat, nat) Service" "''join''" True False "-1" astate_init]
  show ?thesis
  proof (elim exE conjE)
    fix line ts an scfg ts1 d ts2
    assume 1: "MakeTestMaxRaft ?rnd 0 1 2 ?mk ''join'' True False (-1) astate_init = Some (line, ts, an)"
      "setupKVService ?rnd ?mk ts = Some (scfg, ts1)"
      "joinGroups_start ?rnd ?mk (\<lambda>new c. new) [2, 3] (scfg, ts1) = Some ((d, ts2), True)"
      "group_ids d = insert Gid1 (set [2, 3])"
    have "group_ids d = {1, 2, 3}" by (simp add: 1(4) Gid1_def)
    then show ?thesis using 1(1-3) by blast
  qed
qed

end
