(* ===== verification/RsmRuns.thy ===== *)
theory RsmRuns
  imports KvSystem "HOL-Library.AList"
begin

text \<open>
  Runs of the stack of \<open>RsmSystem\<close> from scripts.  A script is a list of moves - an election, one round of
  replication, an applied entry, a \<open>Submit\<close>, a tick - that \<open>play\<close> executes on lists of peers and services
  with the program's own operations; whatever it returns is reached by steps of the system
  (\<open>play_run\<close>).  Two such runs show what the table of waiting calls of \<open>rsm.go\<close>, which is keyed by the log
  index alone, does when a server loses and regains leadership while its calls are waiting.
\<close>

section \<open>Scripts\<close>

text \<open>
  \<open>Elect c ps\<close>: the ticker of \<open>c\<close> fires, and the peers \<open>ps\<close> are asked for their votes one after the other.
  \<open>Replicate l p\<close>: one round of \<open>sendHeartBeat\<close> for \<open>p\<close>, with the reply.  \<open>Deliver s\<close>: the applier of \<open>s\<close>
  sends a command and the reader executes it.  \<open>Submitted s req\<close>: a call of \<open>Submit\<close>, up to its \<open>select\<close>.
  \<open>Answered s ch\<close> and \<open>Ticking s ch\<close>: the call with the channel \<open>ch\<close> takes its reply, or its tick.
\<close>

datatype 'req move =
    Elect int "int list"
  | Replicate int int
  | Deliver int
  | Submitted int 'req
  | Answered int nat
  | Ticking int nat

record ('req, 'rep, 's, 'b) board =
  b_raft :: "('req Op, 'b) Raft list"
  b_svc :: "('rep, 's) RSM list"
  b_sent :: "('req Op, 'b) ApplyMsg list list"
  b_calls :: "((int \<times> nat) \<times> ('req, 'rep) call) list"

fun ask_votes :: "int \<Rightarrow> int \<Rightarrow> int \<Rightarrow> int list \<Rightarrow> ('c, 'b) Raft list \<Rightarrow> ('c, 'b) Raft list option" where
  "ask_votes c t cnt [] fs = Some fs"
| "ask_votes c t cnt (p # ps) fs = (case ask_prepare t (fs ! nat c) of
     Some (Some args) \<Rightarrow> do {
       (fp, reply) \<leftarrow> RequestVote args (fs ! nat p);
       (fc, cnt) \<leftarrow> ask_reply t reply cnt (fs ! nat c);
       ask_votes c t cnt ps (fs[nat p := fp, nat c := fc])
     }
   | _ \<Rightarrow> None)"

definition play_elect :: "int \<Rightarrow> int list \<Rightarrow> ('c, 'b) Raft list \<Rightarrow> ('c, 'b) Raft list option" where
  "play_elect c ps fs = (case ticker_fire (electionGen (fs ! nat c)) (fs ! nat c) of
     (fc, Some t) \<Rightarrow> ask_votes c t 1 ps (fs[nat c := fc])
   | _ \<Rightarrow> None)"

definition play_replicate :: "int \<Rightarrow> int \<Rightarrow> ('c, 'b) Raft list \<Rightarrow> ('c, 'b) Raft list option" where
  "play_replicate l p fs = (let t = currentTerm (fs ! nat l) in
     case hb_send t p (fs ! nat l) of
       Some (fl, HbAppend args) \<Rightarrow> do {
         (fp, reply) \<leftarrow> AppendEntries args (fs ! nat p);
         fl \<leftarrow> hb_append_reply t p args reply fl;
         Some (fs[nat p := fp, nat l := fl])
       }
     | _ \<Rightarrow> None)"

definition play_deliver ::
    "('s \<Rightarrow> 'req \<Rightarrow> 's \<times> 'rep) \<Rightarrow> nat \<Rightarrow> ('req, 'rep, 's, 'b) board \<Rightarrow> ('req, 'rep, 's, 'b) board option" where
  "play_deliver DoOp s B = (case applier_step (b_raft B ! s) of
     Some (rf, ApplyCommand m) \<Rightarrow>
       (case reader_apply DoOp (\<lambda>_. []) (\<lambda>_ x. x) 0 m (b_svc B ! s) of
          Some (r, None) \<Rightarrow> Some (B\<lparr>b_raft := (b_raft B)[s := rf], b_svc := (b_svc B)[s := r],
            b_sent := (b_sent B)[s := b_sent B ! s @ [m]]\<rparr>)
        | _ \<Rightarrow> None)
   | _ \<Rightarrow> None)"

definition put_call :: "int \<Rightarrow> nat \<Rightarrow> ('req, 'rep) call \<Rightarrow> ('rep, 's) RSM \<Rightarrow> ('req, 'rep, 's, 'b) board \<Rightarrow>
    ('req, 'rep, 's, 'b) board" where
  "put_call s ch c r B = B\<lparr>b_svc := (b_svc B)[nat s := r], b_calls := AList.update (s, ch) c (b_calls B)\<rparr>"

definition play_submit :: "int \<Rightarrow> 'req \<Rightarrow> ('req, 'rep, 's, 'b) board \<Rightarrow> ('req, 'rep, 's, 'b) board" where
  "play_submit s req B = (let r = b_svc B ! nat s in
     case Start (Some \<lparr>op_Me = rsm_me r, op_Req = req\<rparr>) (b_raft B ! nat s) of (rf, index, term, isLeader) \<Rightarrow>
     case submit_start (index, term, isLeader) r of (r', ans) \<Rightarrow>
       put_call s (next_chan r) \<lparr>call_index = index, call_term = term, call_req = req,
           call_pc = (case ans of None \<Rightarrow> InSelect | Some a \<Rightarrow> Returned a)\<rparr> r'
         (B\<lparr>b_raft := (b_raft B)[nat s := rf]\<rparr>))"

definition play_answer :: "int \<Rightarrow> nat \<Rightarrow> ('req, 'rep) call \<Rightarrow> ('req, 'rep, 's, 'b) board \<Rightarrow>
    ('req, 'rep, 's, 'b) board option" where
  "play_answer s ch c B = do {
     (r, rep) \<leftarrow> submit_recv ch (b_svc B ! nat s);
     Some (put_call s ch (c\<lparr>call_pc := Returned rep\<rparr>) (submit_delete (call_index c) r) B)
   }"

definition play_tick :: "int \<Rightarrow> nat \<Rightarrow> ('req, 'rep) call \<Rightarrow> ('req, 'rep, 's, 'b) board \<Rightarrow>
    ('req, 'rep, 's, 'b) board" where
  "play_tick s ch c B =
     (case submit_tick (GetState (b_raft B ! nat s)) (call_term c) (call_index c) (b_svc B ! nat s) of (r, ans) \<Rightarrow>
        put_call s ch (c\<lparr>call_pc := (case ans of None \<Rightarrow> InSelect | Some a \<Rightarrow> Returned a)\<rparr>) r B)"

text \<open>A move that is not possible, or names a peer that is none, is \<open>None\<close>.\<close>

definition waiting_call :: "int \<Rightarrow> nat \<Rightarrow> ('req, 'rep, 's, 'b) board \<Rightarrow> ('req, 'rep) call option" where
  "waiting_call s ch B = (case map_of (b_calls B) (s, ch) of
     Some c \<Rightarrow> (case call_pc c of InSelect \<Rightarrow> Some c | _ \<Rightarrow> None)
   | None \<Rightarrow> None)"

definition play_move ::
    "('s \<Rightarrow> 'req \<Rightarrow> 's \<times> 'rep) \<Rightarrow> int \<Rightarrow> 'req move \<Rightarrow> ('req, 'rep, 's, 'b) board \<Rightarrow>
     ('req, 'rep, 's, 'b) board option" where
  "play_move DoOp n m B = (case m of
     Elect c ps \<Rightarrow> if peer n c \<and> list_all (peer n) ps \<and> distinct (c # ps)
       then map_option (\<lambda>fs. B\<lparr>b_raft := fs\<rparr>) (play_elect c ps (b_raft B)) else None
   | Replicate l p \<Rightarrow> if peer n l \<and> peer n p \<and> p \<noteq> l
       then map_option (\<lambda>fs. B\<lparr>b_raft := fs\<rparr>) (play_replicate l p (b_raft B)) else None
   | Deliver s \<Rightarrow> if peer n s then play_deliver DoOp (nat s) B else None
   | Submitted s req \<Rightarrow> if peer n s then Some (play_submit s req B) else None
   | Answered s ch \<Rightarrow> if peer n s then Option.bind (waiting_call s ch B) (\<lambda>c. play_answer s ch c B) else None
   | Ticking s ch \<Rightarrow> if peer n s then map_option (\<lambda>c. play_tick s ch c B) (waiting_call s ch B) else None)"

fun play :: "('s \<Rightarrow> 'req \<Rightarrow> 's \<times> 'rep) \<Rightarrow> int \<Rightarrow> 'req move list \<Rightarrow> ('req, 'rep, 's, 'b) board \<Rightarrow>
     ('req, 'rep, 's, 'b) board option" where
  "play DoOp n [] B = Some B"
| "play DoOp n (m # ms) B = Option.bind (play_move DoOp n m B) (play DoOp n ms)"

text \<open>Snapshots are off (\<open>maxraftstate = -1\<close>).\<close>

definition new_board :: "(int \<Rightarrow> 's) \<Rightarrow> int \<Rightarrow> ('req, 'rep, 's, 'b) board" where
  "new_board ini n = \<lparr>b_raft = map (\<lambda>s. Make n s MakePersister) [0..n - 1],
     b_svc = map (\<lambda>s. \<lparr>rsm_me = s, maxraftstate = -1, sm = ini s, waiting = Map.empty, chans = (\<lambda>_. []), next_chan = 0\<rparr>)
       [0..n - 1],
     b_sent = map (\<lambda>_. []) [0..n - 1], b_calls = []\<rparr>"

section \<open>What a script does, the system can do\<close>

definition same_raft :: "int \<Rightarrow> ('c, 'b) Raft list \<Rightarrow> ('c, 'b) cluster \<Rightarrow> bool" where
  "same_raft n fs C \<longleftrightarrow> length fs = nat n \<and> (\<forall>s. peer n s \<longrightarrow> srv C s = fs ! nat s) \<and> (\<forall>s. \<not> applying C s)"

text \<open>Steps of the peers that send nothing on \<open>applyCh\<close>.\<close>

definition calm :: "int \<Rightarrow> ('c, 'b) cluster \<Rightarrow> ('c, 'b) cluster \<Rightarrow> bool" where
  "calm n C D \<longleftrightarrow> peer_step n C D \<and> (\<forall>s. \<not> applying C s) \<and> applyCh D = applyCh C"

lemma peer_nat: "peer n s \<Longrightarrow> nat s < nat n" "peer n s \<Longrightarrow> peer n p \<Longrightarrow> nat s = nat p \<longleftrightarrow> s = p"
  by (auto simp: peer_def)

lemma nth_peer_update:
  "length xs = nat n \<Longrightarrow> peer n s \<Longrightarrow> peer n p \<Longrightarrow> xs[nat s := x] ! nat p = (if p = s then x else xs ! nat p)"
  using peer_nat [of n s] peer_nat(2) [of n s p] by (auto simp: nth_list_update)

lemma same_raft_set_srv: "same_raft n fs C \<Longrightarrow> peer n s \<Longrightarrow> same_raft n (fs[nat s := rf]) (set_srv s rf C)"
  by (auto simp: same_raft_def nth_peer_update)

lemma same_raft_nth: "same_raft n fs C \<Longrightarrow> peer n s \<Longrightarrow> srv C s = fs ! nat s"
  by (simp add: same_raft_def)

lemma same_raft_same: "same_raft n fs C \<Longrightarrow> srv D = srv C \<Longrightarrow> applying D = applying C \<Longrightarrow> same_raft n fs D"
  by (simp add: same_raft_def)

lemma calmI: "same_raft n fs C \<Longrightarrow> peer_step n C D \<Longrightarrow> applyCh D = applyCh C \<Longrightarrow> calm n C D"
  by (simp add: calm_def same_raft_def)

lemma ask_votes_calm:
  assumes "ask_votes c t cnt ps fs = Some gs" "same_raft n fs C" "numGetVoted C (c, t) = cnt"
    and "\<forall>p\<in>set ps. asks C (c, t, p) = AskReady" "peer n c" "list_all (peer n) ps" "distinct (c # ps)"
  shows "\<exists>D. (calm n)\<^sup>*\<^sup>* C D \<and> same_raft n gs D"
  using assms
proof (induction ps arbitrary: cnt fs C)
  case (Cons p ps)
  obtain args fp reply fc cnt' where st: "ask_prepare t (fs ! nat c) = Some (Some args)"
    "RequestVote args (fs ! nat p) = Some (fp, reply)" "ask_reply t reply cnt (fs ! nat c) = Some (fc, cnt')"
    "ask_votes c t cnt' ps (fs[nat p := fp, nat c := fc]) = Some gs"
    using Cons.prems(1) by (auto split: option.splits Option.bind_splits)
  have p: "peer n p" "p \<noteq> c" using Cons.prems(6,7) by auto
  let ?C1 = "C\<lparr>asks := (asks C)((c, t, p) := AskSent args), rv_reqs := insert (c, t, p, args) (rv_reqs C)\<rparr>"
  let ?C2 = "(set_srv p fp ?C1)\<lparr>rv_reps := insert (c, t, p, reply) (rv_reps ?C1)\<rparr>"
  let ?C3 = "(set_srv c fc ?C2)\<lparr>numGetVoted := (numGetVoted ?C2)((c, t) := cnt'), asks := (asks ?C2)((c, t, p) := AskDone)\<rparr>"
  note sh = Cons.prems(2) and at = same_raft_nth [OF Cons.prems(2)]
  have sh1: "same_raft n fs ?C1" using sh by (rule same_raft_same) simp_all
  have "same_raft n (fs[nat p := fp]) (set_srv p fp ?C1)" by (rule same_raft_set_srv [OF sh1 p(1)])
  then have sh2: "same_raft n (fs[nat p := fp]) ?C2" by (rule same_raft_same) simp_all
  have "same_raft n (fs[nat p := fp, nat c := fc]) (set_srv c fc ?C2)" by (rule same_raft_set_srv [OF sh2 Cons.prems(5)])
  then have sh3: "same_raft n (fs[nat p := fp, nat c := fc]) ?C3" by (rule same_raft_same) simp_all
  have "peer_step n C ?C1"
    by (rule p_ask_send) (use Cons.prems st(1) at in simp_all)
  then have 1: "calm n C ?C1" by (rule calmI [OF sh]) simp
  have "peer_step n ?C1 ?C2"
    by (rule p_rv_handle [OF p(1), where args = args]) (use st(2) at p in simp_all)
  then have 2: "calm n ?C1 ?C2" by (rule calmI [OF sh1]) simp
  have "peer_step n ?C2 ?C3"
    by (rule p_ask_recv [OF Cons.prems(5), where args = args and reply = reply])
      (use st(3) at [OF Cons.prems(5)] p(2) Cons.prems(3) in simp_all)
  then have 3: "calm n ?C2 ?C3" by (rule calmI [OF sh2]) simp
  have "\<exists>D. (calm n)\<^sup>*\<^sup>* ?C3 D \<and> same_raft n gs D"
    by (rule Cons.IH [OF st(4) sh3]) (use Cons.prems in auto)
  then show ?case using 1 2 3 by (meson converse_rtranclp_into_rtranclp)
qed auto

lemma elect_calm:
  assumes "play_elect c ps fs = Some gs" "same_raft n fs C" "peer n c" "list_all (peer n) ps" "distinct (c # ps)"
  shows "\<exists>D. (calm n)\<^sup>*\<^sup>* C D \<and> same_raft n gs D"
proof -
  obtain fc t where st: "ticker_fire (electionGen (fs ! nat c)) (fs ! nat c) = (fc, Some t)"
    "ask_votes c t 1 ps (fs[nat c := fc]) = Some gs"
    using assms(1) by (auto simp: play_elect_def split: prod.splits option.splits)
  let ?D = "start_asks n c t (set_srv c fc C)"
  have "same_raft n (fs[nat c := fc]) (set_srv c fc C)" by (rule same_raft_set_srv [OF assms(2,3)])
  then have sh: "same_raft n (fs[nat c := fc]) ?D" by (rule same_raft_same) simp_all
  have "peer_step n C ?D"
    by (rule p_timeout [OF assms(3)]) (use st(1) same_raft_nth [OF assms(2,3)] in simp)
  then have "calm n C ?D" by (rule calmI [OF assms(2)]) simp
  moreover have "\<exists>D. (calm n)\<^sup>*\<^sup>* ?D D \<and> same_raft n gs D"
    by (rule ask_votes_calm [OF st(2) sh _ _ assms(3-5)]) (use assms(4,5) in \<open>auto simp: list_all_iff\<close>)
  ultimately show ?thesis by (meson converse_rtranclp_into_rtranclp)
qed

lemma replicate_calm:
  assumes "play_replicate l p fs = Some gs" "same_raft n fs C" "peer n l" "peer n p" "p \<noteq> l"
  shows "\<exists>D. (calm n)\<^sup>*\<^sup>* C D \<and> same_raft n gs D"
proof -
  let ?t = "currentTerm (fs ! nat l)"
  obtain fl args fp reply fl' where st: "hb_send ?t p (fs ! nat l) = Some (fl, HbAppend args)"
    "AppendEntries args (fs ! nat p) = Some (fp, reply)" "hb_append_reply ?t p args reply fl = Some fl'"
    "gs = fs[nat p := fp, nat l := fl']"
    using assms(1) by (auto simp: play_replicate_def Let_def split: option.splits hb_msg.splits Option.bind_splits)
  let ?C1 = "send_hb l ?t p (HbAppend args) (set_srv l fl C)"
  let ?C2 = "(set_srv p fp ?C1)\<lparr>ae_reps := insert (l, ?t, p, args, reply) (ae_reps ?C1)\<rparr>"
  note at = same_raft_nth [OF assms(2)]
  have "same_raft n (fs[nat l := fl]) (set_srv l fl C)" by (rule same_raft_set_srv [OF assms(2,3)])
  then have sh1: "same_raft n (fs[nat l := fl]) ?C1" by (rule same_raft_same) (simp_all add: send_hb_def)
  have "same_raft n (fs[nat l := fl, nat p := fp]) (set_srv p fp ?C1)" by (rule same_raft_set_srv [OF sh1 assms(4)])
  then have sh2: "same_raft n (fs[nat l := fl, nat p := fp]) ?C2" by (rule same_raft_same) simp_all
  have ne: "nat l \<noteq> nat p" using peer_nat(2) [OF assms(3,4)] assms(5) by simp
  then have gs: "gs = fs[nat l := fl, nat p := fp, nat l := fl']"
    by (simp add: st(4) list_update_swap)
  have sh3: "same_raft n gs (set_srv l fl' ?C2)" unfolding gs by (rule same_raft_set_srv [OF sh2 assms(3)])
  have "peer_step n C ?C1"
    by (rule p_heartbeat [OF assms(3,4,5)]) (use st(1) at [OF assms(3)] in simp)
  then have 1: "calm n C ?C1" by (rule calmI [OF assms(2)]) (simp add: send_hb_def)
  have "peer_step n ?C1 ?C2"
    by (rule p_ae_handle [OF assms(4), where args = args])
      (use st(2) at [OF assms(4)] assms(5) in \<open>simp_all add: send_hb_def\<close>)
  then have 2: "calm n ?C1 ?C2" by (rule calmI [OF sh1]) simp
  have "peer_step n ?C2 (set_srv l fl' ?C2)"
    by (rule p_ae_recv [OF assms(3), where args = args and reply = reply])
      (use st(3) assms(5) in \<open>simp_all add: send_hb_def\<close>)
  then have 3: "calm n ?C2 (set_srv l fl' ?C2)" by (rule calmI [OF sh2]) simp
  from 1 2 3 have "(calm n)\<^sup>*\<^sup>* C (set_srv l fl' ?C2)"
    by (meson converse_rtranclp_into_rtranclp rtranclp.rtrancl_refl)
  then show ?thesis using sh3 by blast
qed

text \<open>The whole board.\<close>

definition same_board :: "int \<Rightarrow> ('req, 'rep, 's, 'b) board \<Rightarrow> ('req, 'rep, 's, 'b) rsys \<Rightarrow> bool" where
  "same_board n B S \<longleftrightarrow> same_raft n (b_raft B) (rc S) \<and> length (b_svc B) = nat n \<and> length (b_sent B) = nat n \<and>
     (\<forall>s. peer n s \<longrightarrow> svc S s = b_svc B ! nat s \<and> applyCh (rc S) s = b_sent B ! nat s \<and>
        taken S s = length (b_sent B ! nat s) \<and> snapping S s = None \<and> maxraftstate (b_svc B ! nat s) = -1 \<and>
        (\<forall>ch. calls S s ch = map_of (b_calls B) (s, ch)))"

lemma same_boardD:
  assumes "same_board n B S" "peer n s"
  shows "srv (rc S) s = b_raft B ! nat s" "svc S s = b_svc B ! nat s" "applyCh (rc S) s = b_sent B ! nat s"
    "taken S s = length (b_sent B ! nat s)" "snapping S s = None" "calls S s ch = map_of (b_calls B) (s, ch)"
    "maxraftstate (b_svc B ! nat s) = -1"
  using assms by (simp_all add: same_board_def same_raft_def)

lemma same_board_raft: "same_board n B S \<Longrightarrow> same_raft n (b_raft B) (rc S)"
  by (simp add: same_board_def)

lemma calm_steps:
  assumes "(calm n)\<^sup>*\<^sup>* (rc S) D" "same_board n B S" "same_raft n fs D"
  shows "\<exists>T. rsys_steps DoOp Snap Rest mrs ini n S T \<and> same_board n (B\<lparr>b_raft := fs\<rparr>) T"
proof -
  have "rsys_steps DoOp Snap Rest mrs ini n S (S\<lparr>rc := D\<rparr>) \<and> applyCh D = applyCh (rc S)"
    using assms(1)
  proof (induction rule: rtranclp_induct)
    case (step D E)
    have "rsys_step DoOp Snap Rest mrs ini n (S\<lparr>rc := D\<rparr>) ((S\<lparr>rc := D\<rparr>)\<lparr>rc := E\<rparr>)"
      using step.hyps(2) by (intro s_peers) (simp add: calm_def)
    moreover have "in_order D E" using step.hyps(2) by (simp add: calm_def in_order_def)
    ultimately show ?case
      using rsys_steps_step [OF conjunct1 [OF step.IH]] step.IH step.hyps(2) by (simp add: calm_def)
  qed simp
  then show ?thesis using assms(2,3) by (intro exI [of _ "S\<lparr>rc := D\<rparr>"]) (simp add: same_board_def)
qed

lemma quiet_step:
  assumes "rsys_step DoOp Snap Rest mrs ini n S T" "same_board n B S"
  shows "rsys_steps DoOp Snap Rest mrs ini n S T"
  by (rule rsys_steps_step [OF rsys_steps_refl assms(1)])
    (use assms(2) in \<open>simp add: same_board_def same_raft_def in_order_def\<close>)

lemma map_of_AList_update: "map_of (AList.update k v xs) j = (if j = k then Some v else map_of xs j)"
  by (simp add: update_conv')

text \<open>A call moves on, with a new state of the service.\<close>

lemma same_board_call:
  assumes "same_board n B S" "peer n s" "maxraftstate r = -1"
  shows "same_board n (put_call s ch c r B) (set_call s ch c (set_svc s r S))"
  using assms by (auto simp: same_board_def put_call_def set_call_def set_svc_def nth_peer_update map_of_AList_update)

lemma submit_maxraftstate:
  "submit_start st r = (r', ans) \<Longrightarrow> maxraftstate r' = maxraftstate r"
  "submit_recv ch r = Some (r', rep) \<Longrightarrow> maxraftstate r' = maxraftstate r"
  "submit_tick gs t i r = (r', ans) \<Longrightarrow> maxraftstate r' = maxraftstate r"
  "maxraftstate (submit_delete i r) = maxraftstate r"
  by (auto simp: submit_start_def submit_recv_def submit_tick_def submit_delete_def Let_def split: prod.splits if_splits list.splits)

lemma submit_board:
  assumes "same_board n B S" "peer n s"
  shows "\<exists>T. rsys_steps DoOp Snap Rest mrs ini n S T \<and> same_board n (play_submit s req B) T"
proof -
  let ?r = "b_svc B ! nat s"
  obtain rf index trm isLeader where st: "Start (Some \<lparr>op_Me = rsm_me ?r, op_Req = req\<rparr>) (b_raft B ! nat s) = (rf, index, trm, isLeader)"
    by (metis prod_cases4)
  obtain r' ans where ss: "submit_start (index, trm, isLeader) ?r = (r', ans)" by fastforce
  let ?c = "\<lparr>call_index = index, call_term = trm, call_req = req,
           call_pc = (case ans of None \<Rightarrow> InSelect | Some a \<Rightarrow> Returned a)\<rparr>"
  let ?S = "S\<lparr>rc := set_srv s rf (rc S)\<rparr>" and ?B = "B\<lparr>b_raft := (b_raft B)[nat s := rf]\<rparr>"
  note at = same_boardD [OF assms]
  have "rsys_step DoOp Snap Rest mrs ini n S (set_call s (next_chan (svc S s)) ?c (set_svc s r' ?S))"
    by (rule s_submit [OF assms(2)]) (use st ss at(1,2) in simp_all)
  then have "rsys_steps DoOp Snap Rest mrs ini n S (set_call s (next_chan ?r) ?c (set_svc s r' ?S))"
    using quiet_step [OF _ assms(1)] at(2) by simp
  moreover have sb: "same_board n ?B ?S"
    using assms same_raft_set_srv [OF same_board_raft [OF assms(1)] assms(2)] by (simp add: same_board_def)
  have "maxraftstate r' = -1" using submit_maxraftstate(1) [OF ss] at(7) by simp
  then have "same_board n (put_call s (next_chan ?r) ?c r' ?B) (set_call s (next_chan ?r) ?c (set_svc s r' ?S))"
    by (rule same_board_call [OF sb assms(2)])
  then have "same_board n (play_submit s req B) (set_call s (next_chan ?r) ?c (set_svc s r' ?S))"
    by (simp add: play_submit_def st ss)
  ultimately show ?thesis by blast
qed

lemma waiting_callD:
  "waiting_call s ch B = Some c \<Longrightarrow> map_of (b_calls B) (s, ch) = Some c \<and> call_pc c = InSelect"
  by (auto simp: waiting_call_def split: option.splits call_pc.splits)

lemma set_call_twice: "set_call s ch c (set_svc s r (set_call s ch d (set_svc s q S))) = set_call s ch c (set_svc s r S)"
  by (simp add: set_call_def set_svc_def)

lemma answer_board:
  assumes "play_answer s ch c B = Some B'" "waiting_call s ch B = Some c" "same_board n B S" "peer n s"
  shows "\<exists>T. rsys_steps DoOp Snap Rest mrs ini n S T \<and> same_board n B' T"
proof -
  note at = same_boardD [OF assms(3,4)] and c = waiting_callD [OF assms(2)]
  obtain r rep where r: "submit_recv ch (b_svc B ! nat s) = Some (r, rep)"
    "B' = put_call s ch (c\<lparr>call_pc := Returned rep\<rparr>) (submit_delete (call_index c) r) B"
    using assms(1) by (auto simp: play_answer_def split: Option.bind_splits)
  let ?S1 = "set_call s ch (c\<lparr>call_pc := GotReply rep\<rparr>) (set_svc s r S)"
  have 1: "rsys_step DoOp Snap Rest mrs ini n S ?S1"
    by (rule s_recv [OF assms(4)]) (use at c r(1) in simp_all)
  have max: "maxraftstate r = -1" using submit_maxraftstate(2) [OF r(1)] at(7) by simp
  have sb: "same_board n (put_call s ch (c\<lparr>call_pc := GotReply rep\<rparr>) r B) ?S1"
    by (rule same_board_call [OF assms(3,4) max])
  let ?S2 = "set_call s ch ((c\<lparr>call_pc := GotReply rep\<rparr>)\<lparr>call_pc := Returned rep\<rparr>)
    (set_svc s (submit_delete (call_index (c\<lparr>call_pc := GotReply rep\<rparr>)) (svc ?S1 s)) ?S1)"
  have 2: "rsys_step DoOp Snap Rest mrs ini n ?S1 ?S2"
    by (rule s_recv_end [OF assms(4)]) (simp_all add: set_call_def)
  have "?S2 = set_call s ch (c\<lparr>call_pc := Returned rep\<rparr>) (set_svc s (submit_delete (call_index c) r) S)"
    by (simp add: set_call_def set_svc_def)
  then have "same_board n B' ?S2"
    using same_board_call [OF assms(3,4), of "submit_delete (call_index c) r"] max by (simp add: r(2) submit_maxraftstate(4))
  then show ?thesis
    using rsys_steps_trans [OF quiet_step [OF 1 assms(3)] quiet_step [OF 2 sb]] by blast
qed

lemma tick_board:
  assumes "waiting_call s ch B = Some c" "same_board n B S" "peer n s"
  shows "\<exists>T. rsys_steps DoOp Snap Rest mrs ini n S T \<and> same_board n (play_tick s ch c B) T"
proof -
  note at = same_boardD [OF assms(2,3)] and c = waiting_callD [OF assms(1)]
  let ?gs = "GetState (srv (rc S) s)"
  let ?S1 = "set_call s ch (c\<lparr>call_pc := Ticked ?gs\<rparr>) S"
  have 1: "rsys_step DoOp Snap Rest mrs ini n S ?S1"
    by (rule s_tick [OF assms(3)]) (use at c in simp_all)
  have same: "set_svc s (b_svc B ! nat s) S = S" by (simp add: set_svc_def at(2) [symmetric])
  have sb: "same_board n (put_call s ch (c\<lparr>call_pc := Ticked ?gs\<rparr>) (b_svc B ! nat s) B) ?S1"
    using same_board_call [OF assms(2,3) at(7)] by (simp add: same)
  obtain r ans where tk: "submit_tick ?gs (call_term c) (call_index c) (b_svc B ! nat s) = (r, ans)" by fastforce
  let ?pc = "case ans of None \<Rightarrow> InSelect | Some a \<Rightarrow> Returned a"
  let ?S2 = "set_call s ch ((c\<lparr>call_pc := Ticked ?gs\<rparr>)\<lparr>call_pc := ?pc\<rparr>) (set_svc s r ?S1)"
  have 2: "rsys_step DoOp Snap Rest mrs ini n ?S1 ?S2"
    by (rule s_tick_end [OF assms(3)]) (use tk at(2) in \<open>simp_all add: set_call_def\<close>)
  have "?S2 = set_call s ch (c\<lparr>call_pc := ?pc\<rparr>) (set_svc s r S)" by (simp add: set_call_def set_svc_def)
  moreover have "maxraftstate r = -1" using submit_maxraftstate(3) [OF tk] at(7) by simp
  ultimately have "same_board n (play_tick s ch c B) ?S2"
    using same_board_call [OF assms(2,3)] tk at(1) by (simp add: play_tick_def)
  then show ?thesis
    using rsys_steps_trans [OF quiet_step [OF 1 assms(2)] quiet_step [OF 2 sb]] by blast
qed

text \<open>A message is sent and read at once; without snapshots the service's \<open>Snapshot\<close> and \<open>Restore\<close> play no part.\<close>

lemma reader_apply_plain:
  assumes "reader_apply DoOp (\<lambda>_. []) (\<lambda>_ x. x) 0 m r = Some (r', None)" "am_CommandValid m" "\<not> am_SnapshotValid m"
    and "maxraftstate r = -1"
  shows "reader_apply DoOp Snap Rest pb m r = Some (r', None) \<and> maxraftstate r' = -1"
  using assms
  by (auto simp: reader_apply_def reply_waiting_def send_def Let_def split: Option.bind_splits option.splits if_splits)

lemma deliver_board:
  assumes "play_deliver DoOp (nat s) B = Some B'" "same_board n B S" "peer n s"
  shows "\<exists>T. rsys_steps DoOp Snap Rest mrs ini n S T \<and> same_board n B' T"
proof -
  note at = same_boardD [OF assms(2,3)] and sr = same_board_raft [OF assms(2)]
  obtain rf m r where d: "applier_step (b_raft B ! nat s) = Some (rf, ApplyCommand m)"
    "reader_apply DoOp (\<lambda>_. []) (\<lambda>_ x. x) 0 m (b_svc B ! nat s) = Some (r, None)"
    "B' = B\<lparr>b_raft := (b_raft B)[nat s := rf], b_svc := (b_svc B)[nat s := r],
            b_sent := (b_sent B)[nat s := b_sent B ! nat s @ [m]]\<rparr>"
    using assms(1) by (auto simp: play_deliver_def split: option.splits applier_act.splits prod.splits)
  have "am_CommandValid m \<and> \<not> am_SnapshotValid m"
    using d(1) by (auto simp: applier_step_def command_msg_def Let_def split: if_splits Option.bind_splits)
  then have rd: "reader_apply DoOp Snap Rest 0 m (b_svc B ! nat s) = Some (r, None)" "maxraftstate r = -1"
    using reader_apply_plain [OF d(2) _ _ at(7)] by blast+
  let ?D = "deliver s (ApplyCommand m) (set_srv s rf (rc S))"
  let ?S1 = "S\<lparr>rc := ?D\<rparr>"
  have "peer_step n (rc S) ?D"
    by (rule p_apply [OF assms(3)]) (use d(1) at(1) sr in \<open>simp_all add: same_raft_def\<close>)
  then have 1: "rsys_step DoOp Snap Rest mrs ini n S ?S1" by (rule s_peers)
  have D: "applyCh ?D s = b_sent B ! nat s @ [m]" "\<And>p. p \<noteq> s \<Longrightarrow> applyCh ?D p = applyCh (rc S) p"
    "srv ?D = (srv (rc S))(s := rf)" "applying ?D = applying (rc S)"
    using at(3) by (simp_all add: deliver_def)
  let ?S2 = "(set_svc s r ?S1)\<lparr>taken := (taken ?S1)(s := taken ?S1 s + 1), snapping := (snapping ?S1)(s := None)\<rparr>"
  have 2: "rsys_step DoOp Snap Rest mrs ini n ?S1 ?S2"
    by (rule s_read [OF assms(3), where pb = 0]) (use D at rd(1) in simp_all)
  have "in_order (rc ?S1) (rc ?S2)" by (simp add: in_order_def set_svc_def)
  then have steps: "rsys_steps DoOp Snap Rest mrs ini n S ?S2"
    using rsys_steps_step [OF quiet_step [OF 1 assms(2)] 2] by blast
  have "same_raft n (b_raft B') (rc ?S2)"
    using same_raft_set_srv [OF sr assms(3), of rf] D(3,4) by (simp add: d(3) same_raft_def set_svc_def)
  moreover have "b_svc B' ! nat p = (if p = s then r else b_svc B ! nat p)"
    "b_sent B' ! nat p = (if p = s then b_sent B ! nat s @ [m] else b_sent B ! nat p)" if "peer n p" for p
    using assms(2,3) that by (simp_all add: d(3) same_board_def nth_peer_update)
  ultimately have "same_board n B' ?S2"
    using assms(2) D(1,2) rd(2) by (auto simp: same_board_def set_svc_def d(3))
  then show ?thesis using steps by blast
qed

lemma move_board:
  assumes "play_move DoOp n m B = Some B'" "same_board n B S"
  shows "\<exists>T. rsys_steps DoOp Snap Rest mrs ini n S T \<and> same_board n B' T"
proof (cases m)
  case (Elect c ps)
  then obtain fs where fs: "play_elect c ps (b_raft B) = Some fs" "B' = B\<lparr>b_raft := fs\<rparr>"
    and ok: "peer n c" "list_all (peer n) ps" "distinct (c # ps)"
    using assms(1) by (auto simp: play_move_def split: if_splits)
  show ?thesis unfolding fs(2)
    using elect_calm [OF fs(1) same_board_raft [OF assms(2)] ok] calm_steps [OF _ assms(2)] by blast
next
  case (Replicate l p)
  then obtain fs where fs: "play_replicate l p (b_raft B) = Some fs" "B' = B\<lparr>b_raft := fs\<rparr>"
    and ok: "peer n l" "peer n p" "p \<noteq> l"
    using assms(1) by (auto simp: play_move_def split: if_splits)
  show ?thesis unfolding fs(2)
    using replicate_calm [OF fs(1) same_board_raft [OF assms(2)] ok] calm_steps [OF _ assms(2)] by blast
next
  case (Deliver s)
  then show ?thesis using assms deliver_board by (auto simp: play_move_def split: if_splits)
next
  case (Submitted s req)
  then show ?thesis using assms submit_board by (auto simp: play_move_def split: if_splits)
next
  case (Answered s ch)
  then show ?thesis using assms answer_board by (auto simp: play_move_def split: if_splits Option.bind_splits)
next
  case (Ticking s ch)
  then show ?thesis using assms tick_board by (auto simp: play_move_def split: if_splits)
qed

lemma play_steps:
  assumes "play DoOp n ms B = Some B'" "same_board n B S"
  shows "\<exists>T. rsys_steps DoOp Snap Rest mrs ini n S T \<and> same_board n B' T"
  using assms
proof (induction ms arbitrary: B S)
  case (Cons m ms)
  then obtain B1 where B1: "play_move DoOp n m B = Some B1" "play DoOp n ms B1 = Some B'"
    by (auto split: Option.bind_splits)
  obtain S1 where S1: "rsys_steps DoOp Snap Rest mrs ini n S S1" "same_board n B1 S1"
    using move_board [OF B1(1) Cons.prems(2)] by blast
  then show ?case using Cons.IH [OF B1(2) S1(2)] rsys_steps_trans by blast
qed (auto intro: rsys_steps_refl)

lemma same_board_new: "same_board n (new_board ini n) (rsys_init Rest (-1) ini n)"
proof -
  have "[0..n - 1] ! nat s = s" "nat s < length [0..n - 1]" if "peer n s" for s
    using that by (auto simp: peer_def)
  then show ?thesis by (auto simp: same_board_def same_raft_def new_board_def rsys_init_sel)
qed

lemma play_run:
  assumes "play DoOp n ms (new_board ini n) = Some B"
  obtains S where "rsys_steps DoOp Snap Rest (-1) ini n (rsys_init Rest (-1) ini n) S" "same_board n B S"
  using play_steps [OF assms same_board_new] by blast

section \<open>A call that nobody answers\<close>

context replicated_service
begin

lemma waiting_at_index:
  assumes "rsys_steps DoOp Snap Rest mrs ini n (rsys_init Rest mrs ini n) S" "peer n s"
    and "waiting (svc S s) i = Some ch"
  shows "\<exists>c. calls S s ch = Some c \<and> call_index c = i"
proof -
  obtain ops where inv: "sys_inv ops S" using sys_inv_steps [OF assms(1) sys_inv_init] by blast
  obtain k where "rsm_ok ops s k (svc S s) (calls S s)"
    using server_okD(3) [OF sys_invD(2) [OF inv assms(2)]] by (auto simp: reader_ok_def)
  then show ?thesis using assms(3) by (simp add: rsm_ok_def)
qed

end

text \<open>
  The call \<open>c\<close> with the channel \<open>ch\<close> is at one of the places \<open>P\<close>, its channel is empty, and no entry of the
  table leads to it.
\<close>

definition forgotten :: "'rep call_pc set \<Rightarrow> int \<Rightarrow> nat \<Rightarrow> ('req, 'rep) call \<Rightarrow> ('req, 'rep, 's, 'b) rsys \<Rightarrow> bool" where
  "forgotten P s ch c S \<longleftrightarrow> (\<exists>pc\<in>P. calls S s ch = Some (c\<lparr>call_pc := pc\<rparr>)) \<and>
     ch < next_chan (svc S s) \<and> chans (svc S s) ch = [] \<and> (\<forall>i. waiting (svc S s) i \<noteq> Some ch)"

text \<open>The places a call comes to from its ticker.\<close>

definition tick_closed :: "int \<Rightarrow> (int \<times> bool) set \<Rightarrow> 'rep call_pc set \<Rightarrow> bool" where
  "tick_closed t G P \<longleftrightarrow> InSelect \<in> P \<and> Ticked ` G \<subseteq> P \<and>
     (\<forall>gs. Ticked gs \<in> P \<longrightarrow> \<not> snd gs \<or> fst gs \<noteq> t \<longrightarrow> Returned (ErrWrongLeader, None) \<in> P) \<and>
     P \<inter> range GotReply = {}"

lemma submit_tick_keeps:
  assumes "submit_tick gs t i R = (r, ans)"
  shows "chans r = chans R" "next_chan r = next_chan R" "waiting r j = Some ch \<Longrightarrow> waiting R j = Some ch"
    "ans = (if \<not> snd gs \<or> fst gs \<noteq> t then Some (ErrWrongLeader, None) else None)"
  using assms by (auto simp: submit_tick_def submit_delete_def split: prod.splits if_splits)

lemma submit_start_keeps:
  assumes "submit_start st R = (r, ans)" "ch < next_chan R"
  shows "chans r ch = chans R ch" "ch < next_chan r" "waiting r j = Some ch \<Longrightarrow> waiting R j = Some ch"
  using assms by (auto simp: submit_start_def Let_def split: prod.splits if_splits)

lemma submit_recv_keeps:
  assumes "submit_recv ch' R = Some (r, rep)"
  shows "ch \<noteq> ch' \<Longrightarrow> chans r ch = chans R ch" "next_chan r = next_chan R" "waiting r = waiting R" "chans R ch' \<noteq> []"
  using assms by (auto simp: submit_recv_def split: list.splits)

lemma reader_apply_keeps:
  assumes "reader_apply DoOp Snap Rest pb m R = Some (r, snap)" "\<forall>i. waiting R i \<noteq> Some ch"
  shows "chans r ch = chans R ch \<and> next_chan r = next_chan R \<and> waiting r = waiting R"
  using assms by (auto simp: reader_apply_def reply_waiting_def send_def Let_def split: Option.bind_splits option.splits if_splits)

lemma submit_delete_simps [simp]:
  "chans (submit_delete i r) = chans r" "next_chan (submit_delete i r) = next_chan r"
  "waiting (submit_delete i r) j = Some ch \<longleftrightarrow> waiting r j = Some ch \<and> j \<noteq> i"
  by (auto simp: submit_delete_def)

lemma moved_call_simps [simp]:
  "calls (set_call s ch c S) p x = (if p = s \<and> x = ch then Some c else calls S p x)"
  "svc (set_call s ch c S) = svc S" "rc (set_call s ch c S) = rc S"
  "calls (set_svc s r S) = calls S" "svc (set_svc s r S) p = (if p = s then r else svc S p)" "rc (set_svc s r S) = rc S"
  by (simp_all add: set_call_def set_svc_def)

lemma forgotten_step:
  assumes step: "rsys_step DoOp Snap Rest mrs ini n S T" and old: "forgotten P s ch c S" and alive: "calls T s ch \<noteq> None"
    and P: "tick_closed (call_term c) G P" "GetState (srv (rc S) s) \<in> G"
  shows "forgotten P s ch c T"
proof -
  obtain pc where pc: "pc \<in> P" "calls S s ch = Some (c\<lparr>call_pc := pc\<rparr>)"
    and ch: "ch < next_chan (svc S s)" "chans (svc S s) ch = []" "\<And>i. waiting (svc S s) i \<noteq> Some ch"
    using old by (auto simp: forgotten_def)
  show ?thesis
    using step
  proof cases
    case (s_peers D)
    then show ?thesis using old by (simp add: forgotten_def)
  next
    case (s_submit p req rf index t isLeader r ans)
    show ?thesis
    proof (cases "p = s")
      case True
      note keeps = submit_start_keeps [OF s_submit(4) [unfolded True] ch(1)]
      show ?thesis using pc ch keeps by (auto simp: forgotten_def s_submit(1) True)
    qed (use pc ch in \<open>auto simp: forgotten_def s_submit(1)\<close>)
  next
    case (s_recv p x d r rep)
    show ?thesis
    proof (cases "p = s")
      case True
      note keeps = submit_recv_keeps [OF s_recv(5) [unfolded True]]
      have "x \<noteq> ch" using keeps(4) ch(2) by auto
      then show ?thesis using pc ch keeps(1) [of ch] keeps(2,3) by (auto simp: forgotten_def s_recv(1) True)
    qed (use pc ch in \<open>auto simp: forgotten_def s_recv(1)\<close>)
  next
    case (s_recv_end p x d rep)
    have "\<not> (p = s \<and> x = ch)" using pc s_recv_end(3,4) P(1) by (auto simp: tick_closed_def)
    then show ?thesis using pc ch by (auto simp: forgotten_def s_recv_end(1))
  next
    case (s_tick p x d)
    show ?thesis
    proof (cases "p = s \<and> x = ch")
      case True
      then have "d = c\<lparr>call_pc := pc\<rparr>" using pc(2) s_tick(3) by simp
      moreover have "Ticked (GetState (srv (rc S) s)) \<in> P" using P by (auto simp: tick_closed_def)
      ultimately show ?thesis using True ch by (auto simp: forgotten_def s_tick(1))
    qed (use pc ch in \<open>auto simp: forgotten_def s_tick(1)\<close>)
  next
    case (s_tick_end p x d gs r ans)
    show ?thesis
    proof (cases "p = s")
      case True
      note keeps = submit_tick_keeps [OF s_tick_end(5) [unfolded True]]
      show ?thesis
      proof (cases "x = ch")
        case same: True
        then have d: "d = c\<lparr>call_pc := pc\<rparr>" using pc(2) s_tick_end(3) True by simp
        then have "pc = Ticked gs" using s_tick_end(4) by simp
        then have "(case ans of None \<Rightarrow> InSelect | Some a \<Rightarrow> Returned a) \<in> P"
          using keeps(4) P(1) pc(1) by (cases gs) (auto simp: tick_closed_def d)
        then show ?thesis using ch keeps(1-3) True same by (auto simp: forgotten_def s_tick_end(1) d)
      qed (use pc ch keeps(1-3) True in \<open>auto simp: forgotten_def s_tick_end(1)\<close>)
    qed (use pc ch in \<open>auto simp: forgotten_def s_tick_end(1)\<close>)
  next
    case (s_read p pb r snap)
    show ?thesis
    proof (cases "p = s")
      case True
      have "\<forall>i. waiting (svc S s) i \<noteq> Some ch" using ch(3) by simp
      from reader_apply_keeps [OF s_read(5) [unfolded True] this] show ?thesis
        using pc ch by (auto simp: forgotten_def s_read(1) True)
    qed (use pc ch in \<open>auto simp: forgotten_def s_read(1)\<close>)
  next
    case (s_snapshot p index data rf)
    then show ?thesis using old by (simp add: forgotten_def)
  next
    case (s_crash p)
    then have "p \<noteq> s" using alive by (auto simp: sys_crash_def)
    then show ?thesis using old by (simp add: forgotten_def sys_crash_def s_crash(1))
  qed
qed

text \<open>As long as the server is the leader of the call's term the call waits, and it is never answered \<open>OK\<close>.\<close>

definition leading_step where
  "leading_step DoOp Snap Rest mrs ini n s t =
     (\<lambda>S T. rsys_step DoOp Snap Rest mrs ini n S T \<and> GetState (srv (rc T) s) = (t, True))"

definition alive_step where
  "alive_step DoOp Snap Rest mrs ini n s ch =
     (\<lambda>S T. rsys_step DoOp Snap Rest mrs ini n S T \<and> calls T s ch \<noteq> None)"

lemma leading_keeps:
  assumes "(leading_step DoOp Snap Rest mrs ini n s (call_term c))\<^sup>*\<^sup>* S T"
    and "forgotten {InSelect} s ch c S" "GetState (srv (rc S) s) = (call_term c, True)"
  shows "calls T s ch \<in> {Some (c\<lparr>call_pc := InSelect\<rparr>), Some (c\<lparr>call_pc := Ticked (call_term c, True)\<rparr>)}"
proof -
  let ?P = "{InSelect, Ticked (call_term c, True)}" and ?G = "{(call_term c, True)}"
  have closed: "tick_closed (call_term c) ?G ?P" by (auto simp: tick_closed_def)
  from assms(1) have "forgotten ?P s ch c T \<and> GetState (srv (rc T) s) = (call_term c, True)"
  proof (induction rule: rtranclp_induct)
    case (step U V)
    have "calls V s ch \<noteq> None"
    proof
      assume none: "calls V s ch = None"
      from step have "rsys_step DoOp Snap Rest mrs ini n U V" by (simp add: leading_step_def)
      then have "state (srv (rc V) s) \<noteq> Leader"
      proof cases
        case (s_crash p)
        then show ?thesis using none step.IH
          by (auto simp: sys_crash_def crash_def forgotten_def split: if_splits)
      qed (use none step.IH in \<open>auto simp: forgotten_def split: if_splits\<close>)
      then show False using step.hyps(2) by (simp add: leading_step_def GetState_def)
    qed
    moreover have "rsys_step DoOp Snap Rest mrs ini n U V" "GetState (srv (rc V) s) = (call_term c, True)"
      using step.hyps(2) by (simp_all add: leading_step_def)
    ultimately show ?case
      using forgotten_step [of DoOp Snap Rest mrs ini n U V ?P s ch c, OF _ _ _ closed] step.IH by simp
  qed (use assms(2,3) in \<open>simp add: forgotten_def\<close>)
  then show ?thesis by (auto simp: forgotten_def)
qed

lemma alive_keeps:
  assumes "(alive_step DoOp Snap Rest mrs ini n s ch)\<^sup>*\<^sup>* S T" "forgotten {InSelect} s ch c S"
  shows "\<exists>pc. calls T s ch = Some (c\<lparr>call_pc := pc\<rparr>) \<and> (pc = InSelect \<or> pc \<in> range Ticked \<or> pc = Returned (ErrWrongLeader, None))"
proof -
  let ?P = "{InSelect} \<union> range Ticked \<union> {Returned (ErrWrongLeader, None)}"
  have closed: "tick_closed (call_term c) UNIV ?P" by (auto simp: tick_closed_def)
  from assms(1) have "forgotten ?P s ch c T"
  proof (induction rule: rtranclp_induct)
    case (step U V)
    then have "rsys_step DoOp Snap Rest mrs ini n U V" "calls V s ch \<noteq> None" by (simp_all add: alive_step_def)
    from forgotten_step [OF this(1) step.IH this(2) closed] show ?case by simp
  qed (use assms(2) in \<open>simp add: forgotten_def\<close>)
  then show ?thesis by (auto simp: forgotten_def)
qed

section \<open>Two scripts\<close>

definition get_req :: "string \<Rightarrow> kv_req" where
  "get_req k = GetReq \<lparr>ga_Key = k\<rparr>"

definition put_req :: "string \<Rightarrow> string \<Rightarrow> kv_req" where
  "put_req k v = PutReq \<lparr>pa_Key = k, pa_Value = v, pa_Version = 0\<rparr>"

text \<open>
  Of five servers, server 0 is elected in term 1 and given two requests, which reach server 1 only; server 2
  is elected in term 3 and overwrites the log of server 0; server 0 is elected in term 4 and given another
  request, at index 2 again; server 1 is elected in term 5, and its log becomes that of the others.
\<close>

definition crossed_script :: "kv_req move list" where
  "crossed_script =
     [Elect 0 [1, 2], Submitted 0 (put_req ''k'' ''x''), Submitted 0 (get_req ''k''), Replicate 0 1,
      Elect 2 [], Elect 2 [3, 4], Submitted 2 (get_req ''k''), Replicate 2 0,
      Elect 0 [2, 3], Submitted 0 (get_req ''j''),
      Elect 1 [], Elect 1 [], Elect 1 [], Elect 1 [3, 4], Submitted 1 (get_req ''k''),
      Replicate 1 3, Replicate 1 3, Replicate 1 4, Replicate 1 4, Replicate 1 0, Replicate 1 0,
      Deliver 0, Deliver 0, Answered 0 2]"

text \<open>
  Of three servers, server 0 is elected in term 1 and given two requests, which reach nobody; server 2 is
  elected in term 2 and overwrites the log of server 0; server 0 is elected in term 3 and given another
  request, at index 2 again.  Only then does the earlier call at index 2 look at the term.  Server 0 stays
  leader, and its request is replicated and executed.
\<close>

definition forgotten_script :: "kv_req move list" where
  "forgotten_script =
     [Elect 0 [1], Submitted 0 (put_req ''k'' ''x''), Submitted 0 (get_req ''k''),
      Elect 2 [], Elect 2 [1], Submitted 2 (get_req ''k''), Replicate 2 0,
      Elect 0 [2], Submitted 0 (put_req ''j'' ''y''), Ticking 0 1, Replicate 0 1, Replicate 0 1,
      Deliver 0, Deliver 0]"

lemma kv_play:
  assumes "play KVRaft_DoOp n ms (new_board new_kv n) = Some B"
  obtains S where "kv_runs (-1) n (kv_init (-1) n) S" "same_board n B S"
  using play_run [OF assms] unfolding kv_runs_def kv_init_def by blast

definition crossed_result ::
    "(kv_req, kv_rep, KVRaftServer, gob_table) board \<Rightarrow> (kv_req, kv_rep) call option \<times> (kv_req, kv_rep) call option \<times>
     kv_req Op LogEntry \<times> entry option" where
  "crossed_result B = (map_of (b_calls B) (0, 1), map_of (b_calls B) (0, 2), log (b_raft B ! 0) ! 2,
     kr_table (sm (b_svc B ! 0)) ''j'')"

lemma crossed_played:
  "map_option crossed_result (play KVRaft_DoOp 5 crossed_script (new_board new_kv 5)) = Some
     (Some \<lparr>call_index = 2, call_term = 1, call_req = get_req ''k'', call_pc = InSelect\<rparr>,
      Some \<lparr>call_index = 2, call_term = 4, call_req = get_req ''j'',
        call_pc = Returned (OK, Some (GetRep \<lparr>gr_Value = ''x'', gr_Version = 1, gr_Err = OK\<rparr>))\<rparr>,
      \<lparr>le_Term = 1, le_Command = Some \<lparr>op_Me = 0, op_Req = get_req ''k''\<rparr>\<rparr>, None)"
  by code_simp

definition forgotten_result ::
    "(kv_req, kv_rep, KVRaftServer, gob_table) board \<Rightarrow> (kv_req, kv_rep) call option \<times> (kv_req, kv_rep) call option \<times>
     (int \<times> bool) \<times> kv_req Op LogEntry \<times> (bool \<times> int \<times> kv_req Op option) list \<times> nat option \<times> kv_rep opReply list \<times> nat \<times>
     entry option" where
  "forgotten_result B = (map_of (b_calls B) (0, 1), map_of (b_calls B) (0, 2), GetState (b_raft B ! 0),
     log (b_raft B ! 0) ! 2, map (\<lambda>m. (am_CommandValid m, am_CommandIndex m, am_Command m)) (b_sent B ! 0), waiting (b_svc B ! 0) 2, chans (b_svc B ! 0) 2, next_chan (b_svc B ! 0),
     kr_table (sm (b_svc B ! 0)) ''j'')"

lemma forgotten_played:
  "map_option forgotten_result (play KVRaft_DoOp 3 forgotten_script (new_board new_kv 3)) = Some
     (Some \<lparr>call_index = 2, call_term = 1, call_req = get_req ''k'', call_pc = Returned (ErrWrongLeader, None)\<rparr>,
      Some \<lparr>call_index = 2, call_term = 3, call_req = put_req ''j'' ''y'', call_pc = InSelect\<rparr>,
      (3, True), \<lparr>le_Term = 3, le_Command = Some \<lparr>op_Me = 0, op_Req = put_req ''j'' ''y''\<rparr>\<rparr>,
      [(True, 1, Some \<lparr>op_Me = 2, op_Req = get_req ''k''\<rparr>), (True, 2, Some \<lparr>op_Me = 0, op_Req = put_req ''j'' ''y''\<rparr>)], None, [], 3,
      Some \<lparr>e_value = ''y'', e_version = 1\<rparr>)"
  by code_simp

section \<open>Properties\<close>

text \<open>
  C24 (a reply can be another request's).  The table of waiting calls is keyed by the log index alone and an
  operation carries no identity besides the server's.  There is a run of five key/value servers, which only
  loses and delays messages, in which server 0 loses and regains leadership while two of its calls wait: a
  \<open>Get(k)\<close> of term 1 and a \<open>Get(j)\<close> of term 4, which \<open>Start\<close> has given the same index 2.  What is executed
  there is the operation of the first call, and the second one has returned \<open>OK\<close> with its result: the
  caller that asked for \<open>j\<close>, which is in no table, is told that its value is that of \<open>k\<close>.
\<close>

theorem Submit_answered_with_other_request:
  "\<exists>S b c. kv_runs (-1) 5 (kv_init (-1) 5) S \<and>
     calls S 0 1 = Some b \<and> call_req b = get_req ''k'' \<and> call_term b = 1 \<and> call_pc b = InSelect \<and>
     calls S 0 2 = Some c \<and> call_req c = get_req ''j'' \<and> call_term c = 4 \<and> call_index c = call_index b \<and>
     log (srv (rc S) 0) ! nat (call_index c) =
       \<lparr>le_Term = call_term b, le_Command = Some \<lparr>op_Me = 0, op_Req = call_req b\<rparr>\<rparr> \<and>
     call_pc c = Returned (OK, Some (GetRep \<lparr>gr_Value = ''x'', gr_Version = 1, gr_Err = OK\<rparr>)) \<and>
     kr_table (sm (svc S 0)) ''j'' = None"
proof -
  let ?b = "\<lparr>call_index = 2, call_term = 1, call_req = get_req ''k'', call_pc = InSelect\<rparr> :: (kv_req, kv_rep) call"
  let ?c = "\<lparr>call_index = 2, call_term = 4, call_req = get_req ''j'',
    call_pc = Returned (OK, Some (GetRep \<lparr>gr_Value = ''x'', gr_Version = 1, gr_Err = OK\<rparr>))\<rparr>"
  let ?e = "\<lparr>le_Term = 1, le_Command = Some \<lparr>op_Me = 0, op_Req = get_req ''k''\<rparr>\<rparr>"
  obtain B where B: "play KVRaft_DoOp 5 crossed_script (new_board new_kv 5) = Some B"
    and "crossed_result B = (Some ?b, Some ?c, ?e, None)"
    using crossed_played by (auto simp: map_option_eq_Some)
  then have res: "map_of (b_calls B) (0, 1) = Some ?b" "map_of (b_calls B) (0, 2) = Some ?c"
    "log (b_raft B ! 0) ! 2 = ?e" "kr_table (sm (b_svc B ! 0)) ''j'' = None"
    unfolding crossed_result_def Pair_inject by blast+
  obtain S where S: "kv_runs (-1) 5 (kv_init (-1) 5) S" "same_board 5 B S" by (rule kv_play [OF B])
  have "peer 5 0" by (simp add: peer_def)
  note at = same_boardD [OF S(2) this]
  have "calls S 0 1 = Some ?b" "calls S 0 2 = Some ?c" "log (srv (rc S) 0) ! 2 = ?e" "kr_table (sm (svc S 0)) ''j'' = None"
    using res at(1,2) at(6) [of 1] at(6) [of 2] by simp_all
  with S(1) show ?thesis
    by (intro exI [of _ S] exI [of _ ?b] exI [of _ ?c]) simp
qed

text \<open>
  C25 (a \<open>Submit\<close> can wait although its operation has been executed).  There is a run of three key/value
  servers in which an earlier call of server 0 returns late and deletes the table entry of its index, which by
  then is that of another call of the server.  That call's operation is replicated, committed and executed, at
  the index and in the term \<open>Start\<close> gave it, while its server is the leader of that term; its caller waits in
  the \<open>select\<close>.  From then on, as long as the server stays the leader of the term, the call never returns,
  whatever else happens; and as long as the process lives the call is never answered \<open>OK\<close>: all it can return
  is \<open>ErrWrongLeader\<close>, from the ticker, when the term or the leader has changed.
\<close>

theorem Submit_waits_for_ever:
  "\<exists>S c. kv_runs (-1) 3 (kv_init (-1) 3) S \<and> calls S 0 2 = Some c \<and> call_req c = put_req ''j'' ''y'' \<and>
     call_pc c = InSelect \<and> GetState (srv (rc S) 0) = (call_term c, True) \<and>
     log (srv (rc S) 0) ! nat (call_index c) =
       \<lparr>le_Term = call_term c, le_Command = Some \<lparr>op_Me = 0, op_Req = call_req c\<rparr>\<rparr> \<and>
     (\<exists>m \<in> set (take (taken S 0) (applyCh (rc S) 0)). am_CommandValid m \<and> am_CommandIndex m = call_index c \<and>
        am_Command m = Some \<lparr>op_Me = 0, op_Req = call_req c\<rparr>) \<and>
     kr_table (sm (svc S 0)) ''j'' = Some \<lparr>e_value = ''y'', e_version = 1\<rparr> \<and>
     (\<forall>T. (leading_step KVRaft_DoOp KVRaft_Snapshot KVRaft_Restore (-1) new_kv 3 0 (call_term c))\<^sup>*\<^sup>* S T \<longrightarrow>
        calls T 0 2 \<in> {Some c, Some (c\<lparr>call_pc := Ticked (call_term c, True)\<rparr>)}) \<and>
     (\<forall>T. (alive_step KVRaft_DoOp KVRaft_Snapshot KVRaft_Restore (-1) new_kv 3 0 2)\<^sup>*\<^sup>* S T \<longrightarrow>
        (\<exists>pc. calls T 0 2 = Some (c\<lparr>call_pc := pc\<rparr>) \<and>
           (pc = InSelect \<or> pc \<in> range Ticked \<or> pc = Returned (ErrWrongLeader, None))))"
proof -
  let ?c = "\<lparr>call_index = 2, call_term = 3, call_req = put_req ''j'' ''y'', call_pc = InSelect\<rparr> :: (kv_req, kv_rep) call"
  let ?op = "\<lparr>op_Me = 0, op_Req = put_req ''j'' ''y''\<rparr>"
  obtain B where B: "play KVRaft_DoOp 3 forgotten_script (new_board new_kv 3) = Some B"
    and "forgotten_result B = (Some \<lparr>call_index = 2, call_term = 1, call_req = get_req ''k'', call_pc = Returned (ErrWrongLeader, None)\<rparr>,
      Some ?c, (3, True), \<lparr>le_Term = 3, le_Command = Some ?op\<rparr>, [(True, 1, Some \<lparr>op_Me = 2, op_Req = get_req ''k''\<rparr>), (True, 2, Some ?op)], None, [], 3,
      Some \<lparr>e_value = ''y'', e_version = 1\<rparr>)"
    using forgotten_played by (auto simp: map_option_eq_Some)
  then have res: "map_of (b_calls B) (0, 2) = Some ?c" "GetState (b_raft B ! 0) = (3, True)"
      "log (b_raft B ! 0) ! 2 = \<lparr>le_Term = 3, le_Command = Some ?op\<rparr>" 
      "map (\<lambda>m. (am_CommandValid m, am_CommandIndex m, am_Command m)) (b_sent B ! 0) =
        [(True, 1, Some \<lparr>op_Me = 2, op_Req = get_req ''k''\<rparr>), (True, 2, Some ?op)]"
      "waiting (b_svc B ! 0) 2 = None" "chans (b_svc B ! 0) 2 = []" "next_chan (b_svc B ! 0) = 3"
      "kr_table (sm (b_svc B ! 0)) ''j'' = Some \<lparr>e_value = ''y'', e_version = 1\<rparr>"
    unfolding forgotten_result_def Pair_inject by blast+
  obtain S where S: "kv_runs (-1) 3 (kv_init (-1) 3) S" "same_board 3 B S" by (rule kv_play [OF B])
  have p: "peer 3 0" by simp
  note at = same_boardD [OF S(2) p]
  have call: "calls S 0 2 = Some ?c" and lead: "GetState (srv (rc S) 0) = (call_term ?c, True)"
    using at res by simp_all
  have "waiting (svc S 0) i \<noteq> Some 2" for i
  proof
    assume w: "waiting (svc S 0) i = Some 2"
    then have "i = 2" using kvsys.waiting_at_index [OF S(1) [unfolded kv_runs_def kv_init_def] p w] call by simp
    then show False using w res(5) at(2) by simp
  qed
  then have fg: "forgotten {InSelect} 0 2 ?c S" using call at res by (simp add: forgotten_def)
  have "(True, 2, Some ?op) \<in> (\<lambda>m. (am_CommandValid m, am_CommandIndex m, am_Command m)) ` set (b_sent B ! 0)"
    by (simp flip: set_map add: res(4))
  then have msg: "\<exists>m \<in> set (take (taken S 0) (applyCh (rc S) 0)). am_CommandValid m \<and> am_CommandIndex m = 2 \<and> am_Command m = Some ?op"
    using at(3,4) by auto
  show ?thesis
    using S(1) call lead msg at res leading_keeps [OF _ fg lead] alive_keeps [OF _ fg]
    by (intro exI [of _ S] exI [of _ ?c]) simp
qed

theorem Submit_waits_for_ever_witness:
  "\<exists>S T c. kv_runs (-1) 3 (kv_init (-1) 3) S \<and> rsys_step KVRaft_DoOp KVRaft_Snapshot KVRaft_Restore (-1) new_kv 3 S T \<and>
     calls S 0 2 = Some c \<and> call_pc c = InSelect \<and> calls T 0 2 = Some (c\<lparr>call_pc := Ticked (call_term c, True)\<rparr>)"
proof -
  obtain S c where S: "kv_runs (-1) 3 (kv_init (-1) 3) S" "calls S 0 2 = Some c" "call_pc c = InSelect"
    "GetState (srv (rc S) 0) = (call_term c, True)"
    and later: "\<forall>T. (leading_step KVRaft_DoOp KVRaft_Snapshot KVRaft_Restore (-1) new_kv 3 0 (call_term c))\<^sup>*\<^sup>* S T \<longrightarrow>
        calls T 0 2 \<in> {Some c, Some (c\<lparr>call_pc := Ticked (call_term c, True)\<rparr>)}"
    using Submit_waits_for_ever by blast
  let ?T = "set_call 0 2 (c\<lparr>call_pc := Ticked (GetState (srv (rc S) 0))\<rparr>) S"
  have step: "rsys_step KVRaft_DoOp KVRaft_Snapshot KVRaft_Restore (-1) new_kv 3 S ?T"
    by (rule s_tick) (simp_all add: S)
  then have "calls ?T 0 2 \<in> {Some c, Some (c\<lparr>call_pc := Ticked (call_term c, True)\<rparr>)}"
    using later S(4) by (intro later [rule_format] r_into_rtranclp) (simp add: leading_step_def)
  moreover have "calls ?T 0 2 \<noteq> Some c" using S(3) by (metis call.select_convs(4) call.surjective call.update_convs(4) call_pc.distinct(1) option.inject moved_call_simps(1))
  ultimately show ?thesis using S(1-3) step by blast
qed

end
