(* ===== verification/Spec2Isabelle.thy ===== *)
theory Spec2Isabelle
  imports RaftAgree MrApps ShardClerk LockSvc TestGroup TestClnts KvLog KvPuts LabGob Crawler KvSystem Annot RsmTest ShardTest TestConfig KvDriver LectureKv ShardSetup RsmRuns
begin

text \<open>
  A verification library for the labs of MIT 6.5840 in \<open>src/src/\<close>: a MapReduce job, a key/value
  server with a lock on top, the Raft consensus protocol, a replicated key/value service on Raft,
  and a sharded key/value service whose shards move between replicated groups.

  \<^bold>\<open>How the program is modelled.\<close>  A Go structure is a record with the field names of the
  source (primed or prefixed where two structures share one), an enumeration a datatype, a Go
  \<open>int\<close> an \<open>int\<close> unless its width matters (the versions of the key/value protocol, the key hashes and
  the statistics of the network are words).  A map is a partial function or a finite map; where
  the code ranges over a map, the order is an argument.  A run-time panic (an index out of range, a
  failed type assertion, \<open>log.Fatalf\<close>) is \<open>None\<close>: slices are indexed by \<open>go_get\<close>, \<open>go_set\<close>,
  \<open>go_from\<close> and \<open>go_upto\<close> of \<open>GoPrelude\<close>.  A section of code that holds a mutex from beginning to
  end is one function on the state; code that releases the lock, waits or sends an RPC in between is
  cut there, and the pieces are the steps of an inductive relation in which the pieces of all
  threads, lost messages and crashes interleave freely.  Sleeps and time-outs are steps that may
  happen at any time.

  \<^bold>\<open>Raft\<close> (\<open>raft1/raft.go\<close>, \<open>raftapi/raftapi.go\<close>, \<open>tester1/persister.go\<close>).
  \<open>Persist\<close> is the persister, \<open>RaftState\<close> the data, \<open>persist\<close>, \<open>readPersist\<close> and \<open>Make\<close>,
  \<open>RaftOps\<close> one definition per lock-held section: the RPC handlers \<open>RequestVote\<close>,
  \<open>AppendEntries\<close>, \<open>InstallSnapshot\<close>; \<open>Start\<close> and \<open>Snapshot\<close>; the pieces of the goroutines \<open>ticker\<close>
  (\<open>ticker_fire\<close>), \<open>askForVote\<close> (\<open>ask_prepare\<close>, \<open>ask_reply\<close>), \<open>sendHeartBeat\<close> (\<open>hb_send\<close>,
  \<open>hb_snapshot_reply\<close>, \<open>hb_append_reply\<close>) and \<open>applier\<close> (\<open>applier_step\<close>, \<open>applier_resume\<close>).
  \<open>RaftLocal\<close> proves what each does on every branch.  \<open>RaftCluster\<close> is a cluster of \<open>n\<close> peers:
  messages may be lost, late, reordered and repeated, peers crash and restart from their
  persister.  \<open>RaftTree\<close> views all entries ever created as a tree whose paths are the logs,
  \<open>RaftInv\<close> states the inductive invariant against a ghost history (entries, votes, elections,
  acknowledgements) and proves leader completeness from it, \<open>RaftPreserve\<close> has the moves of the
  invariant, \<open>RaftSteps\<close> (elections), \<open>RaftRepl\<close> (replication) and \<open>RaftSafety\<close> (snapshots, the
  applier, crashes) show that every step keeps it.  \<open>RaftDemo\<close> evaluates a run of three peers, and
  \<open>RaftTheorems\<close> states the results without the ghost: one leader per term, log matching, equal
  commands at equal indexes on all apply channels, completeness of the newest leader, presence of
  applied commands on a majority, recovery after a crash, no index panic; and two corners the code
  misses (a snapshot installed while an older one is being sent; a cluster of one peer).

  \<^bold>\<open>Lab 2\<close> (\<open>kvsrv1/\<close>).  \<open>KvRpc\<close> has the wire types and the contract \<open>cas_store\<close> of every
  key/value state machine, a locale that \<open>KvServer\<close>, \<open>KvRaft\<close> and \<open>ShardGrp\<close> interpret.
  \<open>KvClerk\<close> runs the clerk against a script of network outcomes: a \<open>Put\<close> is executed at most once,
  and exactly when it says so.  \<open>LockSvc\<close> is the lock: mutual exclusion, no orphaned owner, progress by a
  client whose RPCs are answered.

  \<^bold>\<open>Lab 4\<close> (\<open>kvraft1/\<close>).  \<open>Rsm\<close> is \<open>rsm.go\<close>: \<open>Submit\<close> in pieces and the \<open>reader\<close>, over the locale
  \<open>state_machine\<close>.  \<open>KvRaft\<close> is the replicated service and its clerk: replicas agree, the service
  refines the server of lab 2, the clerk is at-most-once.  \<open>RsmSystem\<close> puts the layer on a running
  Raft cluster (\<open>rsys_step\<close>: the peers, readers, calls of \<open>Submit\<close>, snapshots, crashes) and proves
  for any service of the locale \<open>replicated_service\<close> that all servers execute one log, from which
  every \<open>OK\<close> answer comes, and that readers never fail or block; the runs are those in which no newer
  snapshot overtakes the one being sent, which without snapshots are all.  \<open>Kill\<close> and the branch of
  the \<open>reader\<close> for a closed channel (\<open>send_all\<close>) are no steps of it: a process ends by a crash.
  \<open>KvSystem\<close> interprets it for the key/value service and the shard groups.  \<open>RsmRuns\<close> executes scripts of
  elections, replication rounds and calls on the operations of the code, with the proof that what a script
  reaches the system reaches too; two scripts are runs in which the table of waiting calls goes wrong: a
  \<open>Submit\<close> is answered with another request's result, and one waits although its operation was executed.

  \<^bold>\<open>Lab 5\<close> (\<open>shardkv1/\<close>).  \<open>ShardCfg\<close> is the configurations and their balancing (\<open>Rebalance\<close> is
  a \<open>partial_function\<close>, its return is a theorem), \<open>ShardGrp\<close> a group's server and clerk,
  \<open>ShardMigrate\<close> the movement of shards by any number of controllers (the sharded store refines one
  store), \<open>ShardCtrl\<close> the controllers and the agreement on configurations, \<open>ShardClerk\<close> the client.

  \<^bold>\<open>Lab 1\<close> (\<open>mr/\<close>, \<open>mrapps/\<close>, \<open>main/mrsequential.go\<close>).  \<open>MrCoord\<close> is the coordinator, \<open>MrWorker\<close> a
  map or reduce task and the sequential program, \<open>MrSystem\<close> a job with any number of workers that
  crash or are slow, so that their tasks are handed out again.  Its output is the sequential one unless a
  task is reported a second time while its phase lasts, or an output file cannot be renamed; an example
  shows that such a report can lose words.  A job can always be finished.  \<open>Utf8\<close> is Go's reading of
  strings as runes, and what a string is after JSON; \<open>MrApps\<close> interprets the locale \<open>mr_app\<close> for the
  applications.

  \<^bold>\<open>Checking and testing code.\<close>  \<open>PorcModel\<close> is the specification \<open>models1/kv.go\<close> that histories are
  checked against; the servers pass it, except where the comment on \<open>ErrNoKey\<close> and the model differ.
  \<open>LabRpc\<close> is the network of the tests (\<open>labrpc/labrpc.go\<close>): its switches, the dispatch of a request
  to a service and the goroutines of a call as the steps \<open>rpc_step\<close>; a call is executed at most once,
  a deleted server never answers, and the whole refines a lossy network in which a request is lost, or is
  routed to one server and executed there at most once, and the caller gets its reply or a failure.
  \<open>TestGroup\<close> (\<open>tester1/group.go\<close>, \<open>tester1/srv.go\<close>) is the groups of servers on that network: a new
  group has an end of its own for each pair of servers, \<open>connect\<close> and \<open>disconnect\<close> refine set
  operations on the enabled pairs, \<open>Partition\<close> isolates its two sides, and \<open>MakePartition\<close> puts the
  leader of an odd group on the minority side.  \<open>RaftTester\<close> (\<open>raft1/server.go\<close>, \<open>raft1/test.go\<close>) is
  what the tests of Raft check, and every run of the Raft cluster passes it; \<open>RaftAgree\<close> is their
  \<open>one\<close> and \<open>wait\<close>, which return only an index or a command that enough servers have applied.
  \<open>TestClnts\<close> (\<open>tester1/clnts.go\<close>) is the clients of a test on that network: a client that was
  disconnected and then allowed some servers reaches no other, and \<open>ConnectTo\<close> alone does not
  disconnect.

  \<open>KvClients\<close> runs any number of clients, each a program over its own state, against the server of
  lab 2 through the clerk's RPCs, which may be lost, late and repeated; its locales \<open>kv_clients\<close> and
  \<open>kv_program\<close> bound the successes of a client by what its clerk answered and carry a program's
  invariant.  \<open>KvTest\<close> and \<open>KvAppend\<close> interpret them for the put and the append test of
  \<open>kvtest1/kvtest.go\<close>: neither ever fails and their checks (\<open>CheckPutConcurrent\<close>, \<open>CheckAppends\<close>) accept.
  \<open>KvLog\<close> (\<open>kvtest1/porcupine.go\<close>) adds the operation log, with the proof that it is linearizable when
  all clients have returned, so that \<open>CheckPorcupine\<close> passes.  \<open>KvPuts\<close> is the sequential helpers
  (\<open>PutAtLeastOnce\<close>, \<open>SpreadPuts\<close>).  Versions wrap at 2^64: these theorems suppose fewer puts than that.

  \<open>LabGob\<close> (\<open>labgob/labgob.go\<close>) is the checks around the encoder and \<open>Crawler\<close>
  (\<open>class/lecture2/crawler.go\<close>) the crawlers of a lecture; both search a graph and interpret the
  locale \<open>graph_search\<close> of \<open>GraphSearch\<close>, which gives their termination and what they visit.
  \<open>Annot\<close> (\<open>tester1/annotation.go\<close>) is the annotations of a test's
  visualization; the fault it shows is always the current one.

  \<open>TestConfig\<close> (\<open>tester1/config.go\<close>) is the configuration that ties clients, groups and network
  together: a group that was started has all its servers connected and registered, a group that
  ended reaches nobody, \<open>random_handles\<close> gives exactly the permutations of the handles.
  \<open>RsmTest\<close> (\<open>kvraft1/rsm/server.go\<close>, \<open>rsm/test.go\<close>) is a counter on the stack of \<open>RsmSystem\<close>, an
  interpretation of the same locales as the key/value service, and the tests' operations; a passed
  \<open>checkCounter\<close> shows that enough servers executed the log up to the index of the answered call, where
  an increment of the same server stands.
  \<open>RsmDemo\<close> holds the run of a service that the witnesses of both services share.
  \<open>ShardTest\<close> (\<open>shardkv1/test.go\<close>) lets any number of controllers of \<open>ShardCtrl\<close> join and leave groups
  concurrently: none ever ends in \<open>log.Fatalf\<close>, and the configurations they post are a chain of
  single changes from the first one, all balanced.

  \<open>StackGroup\<close> joins the two: the services of a group that was started are a first state of
  \<open>RsmSystem\<close>, and a shutdown and restart of the group is a crash of all its servers there.
  \<open>KvDriver\<close> (\<open>kvtest1/kvtest.go\<close>, \<open>kvtest1/porcupine.go\<close>, \<open>kvsrv1/test.go\<close>, \<open>kvraft1/test.go\<close>) is the
  test objects, their clerks, the partitioner and the report: the partitioner always splits the group
  in two, and a restart of the replicated service continues its one log.  \<open>ShardSetup\<close>
  (\<open>shardkv1/test.go\<close>) is the set-up of the sharded tests: after it, and after groups have joined, every
  group of the configuration runs the stack of its service under the names the configuration has.
  \<open>LectureKv\<close> (\<open>class/lecture2/kv.go\<close>) is the key/value server of a lecture.

  \<^bold>\<open>Loops and bounds.\<close>  No fuel is used.  Loops over slices are structural recursions or
  functions with a measure; the clerks' retry loops run along a finite script of network events and
  return \<open>None\<close> when it ends, and their theorems say that one answered call is enough to return;
  \<open>Rebalance\<close>'s loop is proved to end.  Go \<open>int\<close>s that count terms, indexes and configurations are
  unbounded here: they would have to be incremented 2^63 times to wrap.

  \<^bold>\<open>Not modelled.\<close>  Encoders (\<open>encoding/gob\<close>, \<open>encoding/json\<close>): a byte string is the list of
  the values encoded into it (the pairs of MapReduce with their invalid UTF-8 replaced), and
  configurations are encoded by a parameter with a round trip.
  The operating system's files and processes except the renames of MapReduce; sockets of
  \<open>net/rpc\<close>; timing (that an election happens soon enough); data races outside the mutexes
  (the tester reads some fields without the lock); the timing of
  the single tests; and the
  command line programs, most of which need packages that are not in the repository.
\<close>

end
